(* ===== verification/Prelude.thy ===== *)
theory Prelude
  imports Main "HOL-Library.Word"
begin

text \<open>
  What every component shares: the machine integer types of the C sources, the two ways a
  C function of the runtime can fail to return (a hard assertion, a PLAN exception), and the
  positional values of digit lists, little-endian byte strings and limb arrays, on which the
  number, encoding and hashing components are specified.
\<close>

unbundle bit_operations_syntax

named_theorems digit_simps \<open>values and lengths of digit lists\<close>
named_theorems res_simps \<open>the error monad of the runtime\<close>

subsection \<open>Machine integers\<close>

type_synonym u8 = "8 word"
type_synonym u16 = "16 word"
type_synonym u32 = "32 word"
type_synonym u64 = "64 word"

type_synonym bytes = "u8 list"

abbreviation SIZE_MAX :: nat where "SIZE_MAX \<equiv> 18446744073709551615"

text \<open>The C cast to \<open>int8_t\<close>.\<close>

definition int8_of :: "int \<Rightarrow> int" where
  "int8_of k = (k + 128) mod 256 - 128"

lemma int8_of_small [simp]: "- 128 \<le> k \<Longrightarrow> k < 128 \<Longrightarrow> int8_of k = k"
  by (simp add: int8_of_def)

subsection \<open>Failure\<close>

text \<open>
  \<open>Abort\<close> is a failed \<open>ax_assume\<close> or \<open>ax_abort\<close>: the process ends. \<open>Raise\<close> is
  \<open>pl_raise_msg\<close>: a PLAN exception.
\<close>

datatype fault = Abort string | Raise string

type_synonym 'a res = "fault + 'a"

definition rbind :: "'e + 'a \<Rightarrow> ('a \<Rightarrow> 'e + 'b) \<Rightarrow> 'e + 'b" where
  "rbind r f = (case r of Inl e \<Rightarrow> Inl e | Inr x \<Rightarrow> f x)"

definition assume_c :: "bool \<Rightarrow> string \<Rightarrow> unit res" where
  "assume_c c msg = (if c then Inr () else Inl (Abort msg))"

lemma rbind_simps [simp, res_simps]:
  "rbind (Inl e) f = Inl e"
  "rbind (Inr x) f = f x"
  by (simp_all add: rbind_def)

lemma rbind_Inr_iff [res_simps]: "rbind r f = Inr y \<longleftrightarrow> (\<exists>x. r = Inr x \<and> f x = Inr y)"
  by (auto simp: rbind_def split: sum.splits)

lemma assume_c_Inr [simp, res_simps]: "assume_c c m = Inr u \<longleftrightarrow> c"
  by (simp add: assume_c_def)

lemma assume_c_True [simp]: "assume_c True m = Inr ()"
  by (simp add: assume_c_def)

lemma rbind_assume: "rbind (assume_c c m) f = (if c then f () else Inl (Abort m))"
  by (simp add: assume_c_def)

subsection \<open>Digit lists\<close>

text \<open>The value of a list of digits in base \<open>b\<close>, least significant digit first.\<close>

fun dval :: "nat \<Rightarrow> nat list \<Rightarrow> nat" where
  "dval b [] = 0"
| "dval b (d # ds) = d + b * dval b ds"

lemma dval_append [digit_simps]: "dval b (xs @ ys) = dval b xs + b ^ length xs * dval b ys"
  by (induction xs) (simp_all add: algebra_simps)

lemma dval_replicate_0 [simp, digit_simps]: "dval b (replicate n 0) = 0"
  by (induction n) simp_all

lemma dval_less:
  assumes "\<forall>d \<in> set ds. d < b"
  shows "dval b ds < b ^ length ds"
  using assms
proof (induction ds)
  case Nil
  then show ?case by simp
next
  case (Cons d ds)
  then have "Suc (dval b ds) \<le> b ^ length ds" and "d < b" by auto
  then have "b * Suc (dval b ds) \<le> b * b ^ length ds" by (intro mult_le_mono) auto
  with \<open>d < b\<close> show ?case by simp
qed

lemma dval_inject:
  assumes "length xs = length ys" "dval b xs = dval b ys"
    and "\<forall>d \<in> set xs. d < b" "\<forall>d \<in> set ys. d < b"
  shows "xs = ys"
  using assms
proof (induction xs ys rule: list_induct2)
  case Nil
  then show ?case by simp
next
  case (Cons x xs y ys)
  then have lt: "x < b" "y < b" by auto
  have eq: "x + b * dval b xs = y + b * dval b ys" using Cons.prems by simp
  have "x = y" using eq lt by (metis mod_less mod_mult_self2)
  with eq lt have "dval b xs = dval b ys" by auto
  with Cons \<open>x = y\<close> show ?case by auto
qed

text \<open>A nonzero top digit bounds the value from below, so the value fixes the length.\<close>

lemma dval_ge_top:
  assumes "ds \<noteq> []" "last ds \<noteq> 0"
  shows "b ^ (length ds - 1) \<le> dval b ds"
proof -
  from assms(1) have ds: "ds = butlast ds @ [last ds]" by simp
  have "b ^ (length ds - 1) * 1 \<le> b ^ length (butlast ds) * last ds"
    using assms(2) by (intro mult_le_mono) auto
  also have "\<dots> \<le> dval b (butlast ds @ [last ds])" by (simp add: dval_append)
  finally show ?thesis using ds by simp
qed

lemma dval_length_unique:
  assumes "1 < b" "dval b xs = dval b ys"
    and "\<forall>d \<in> set xs. d < b" "\<forall>d \<in> set ys. d < b"
    and "xs = [] \<or> last xs \<noteq> 0" "ys = [] \<or> last ys \<noteq> 0"
  shows "length xs = length ys"
proof -
  have le: "length us \<le> length vs"
    if "dval b us = dval b vs" "\<forall>d \<in> set vs. d < b" "us = [] \<or> last us \<noteq> 0" for us vs
  proof (cases "us = []")
    case False
    with that have "b ^ (length us - 1) \<le> dval b us" by (intro dval_ge_top) auto
    also have "\<dots> < b ^ length vs" using that dval_less by auto
    finally have "length us - 1 < length vs"
      using \<open>1 < b\<close> power_less_imp_less_exp by blast
    with False show ?thesis by (cases us) auto
  qed simp
  show ?thesis using le[of xs ys] le[of ys xs] assms by auto
qed

lemma dval_canonical_inject:
  assumes "1 < b" "dval b xs = dval b ys"
    and "\<forall>d \<in> set xs. d < b" "\<forall>d \<in> set ys. d < b"
    and "xs = [] \<or> last xs \<noteq> 0" "ys = [] \<or> last ys \<noteq> 0"
  shows "xs = ys"
  using assms dval_length_unique dval_inject by blast

text \<open>Single digits, prefixes and suffixes of a digit list are quotients and remainders.\<close>

lemma dval_take:
  assumes "\<forall>d \<in> set ds. d < b"
  shows "dval b (take n ds) = dval b ds mod b ^ n"
proof (cases "n \<le> length ds")
  case True
  have "dval b ds = dval b (take n ds @ drop n ds)" by simp
  also have "\<dots> = dval b (take n ds) + b ^ n * dval b (drop n ds)"
    unfolding dval_append using True by simp
  finally have "dval b ds mod b ^ n = dval b (take n ds) mod b ^ n" by simp
  moreover have "dval b (take n ds) < b ^ n"
    using dval_less[of "take n ds" b] assms True by (auto dest: in_set_takeD)
  ultimately show ?thesis by simp
next
  case False
  then have "dval b ds < b ^ length ds" "b ^ length ds \<le> b ^ n" if "ds \<noteq> []"
    using assms that by (auto intro: dval_less power_increasing simp: neq_Nil_conv)
  with False show ?thesis by (cases ds) auto
qed

lemma dval_drop:
  assumes "\<forall>d \<in> set ds. d < b" "0 < b"
  shows "dval b (drop n ds) = dval b ds div b ^ n"
  using assms
proof (induction n arbitrary: ds)
  case (Suc n)
  then show ?case by (cases ds) (auto simp: div_mult2_eq)
qed simp

lemma dval_nth:
  assumes "\<forall>d \<in> set ds. d < b" "i < length ds"
  shows "ds ! i = dval b ds div b ^ i mod b"
proof -
  from assms have "0 < b" by (metis gr_implies_not0 gr_zeroI nth_mem)
  then have "dval b ds div b ^ i = dval b (drop i ds)" using dval_drop[OF assms(1)] by simp
  also have "\<dots> = ds ! i + b * dval b (drop (Suc i) ds)"
    using assms(2) by (simp flip: Cons_nth_drop_Suc)
  finally show ?thesis using assms by simp
qed

lemma dval_update:
  assumes "i < length ds"
  shows "dval b (ds[i := x]) + b ^ i * ds ! i = dval b ds + b ^ i * x"
  using assms
proof (induction ds arbitrary: i)
  case (Cons d ds)
  then show ?case
  proof (cases i)
    case (Suc j)
    have "b * (dval b (ds[j := x]) + b ^ j * ds ! j) = b * (dval b ds + b ^ j * x)"
      using Cons Suc by simp
    then show ?thesis using Suc by (simp add: algebra_simps)
  qed simp
qed simp

subsection \<open>Byte strings\<close>

text \<open>The number a little-endian byte string denotes.\<close>

definition bval :: "bytes \<Rightarrow> nat" where
  "bval bs = dval 256 (map unat bs)"

lemma unat_u8_less [simp]: "unat (b :: u8) < 256"
  using unsigned_less[of b] by simp

lemma bval_simps [simp]:
  "bval [] = 0"
  "bval (b # bs) = unat b + 256 * bval bs"
  by (simp_all add: bval_def)

lemma bval_append [digit_simps]: "bval (xs @ ys) = bval xs + 256 ^ length xs * bval ys"
  by (simp add: bval_def dval_append)

lemma bval_replicate_0 [simp]: "bval (replicate n 0) = 0"
  by (induction n) simp_all

lemma bval_less: "bval bs < 256 ^ length bs"
  using dval_less[of "map unat bs" 256] by (auto simp: bval_def)

lemma map_unat_inject: "map unat xs = map unat (ys :: 'a::len word list) \<Longrightarrow> xs = ys"
  by (rule map_injective) (auto intro: injI unsigned_word_eqI)

lemma bval_inject: "length xs = length ys \<Longrightarrow> bval xs = bval ys \<Longrightarrow> xs = ys"
  unfolding bval_def by (rule map_unat_inject, rule dval_inject[where b = 256]) auto

lemma bval_take: "bval (take n bs) = bval bs mod 256 ^ n"
  unfolding bval_def by (simp add: take_map[symmetric] dval_take)

lemma bval_drop: "bval (drop n bs) = bval bs div 256 ^ n"
  unfolding bval_def by (simp add: drop_map[symmetric] dval_drop)

lemma bval_nth: "i < length bs \<Longrightarrow> unat (bs ! i) = bval bs div 256 ^ i mod 256"
  unfolding bval_def using dval_nth[of "map unat bs" 256 i] by auto

subsection \<open>Limb arrays\<close>

text \<open>The number a little-endian array of 64-bit limbs denotes.\<close>

type_synonym limbs = "u64 list"

definition lval :: "limbs \<Rightarrow> nat" where
  "lval ls = dval (2 ^ 64) (map unat ls)"

lemma unat_u64_less: "unat (w :: u64) < 2 ^ 64"
  using unsigned_less[of w] by simp

lemmas unat_u64_lt [simp] = unat_u64_less[simplified]

lemma lval_simps [simp]:
  "lval [] = 0"
  "lval (w # ls) = unat w + 2 ^ 64 * lval ls"
  by (simp_all add: lval_def)

lemma lval_append [digit_simps]: "lval (xs @ ys) = lval xs + (2 ^ 64) ^ length xs * lval ys"
  by (simp add: lval_def dval_append)

lemma lval_replicate_0 [simp]: "lval (replicate n 0) = 0"
  by (induction n) simp_all

lemma lval_less: "lval ls < (2 ^ 64) ^ length ls"
  using dval_less[of "map unat ls" "2 ^ 64"] unat_u64_less by (auto simp: lval_def)

lemmas lval_lt = lval_less[simplified]

lemma lval_take: "lval (take n ls) = lval ls mod (2 ^ 64) ^ n"
  unfolding lval_def using unat_u64_less by (subst dval_take[symmetric]) (auto simp: take_map)

lemma lval_drop: "lval (drop n ls) = lval ls div (2 ^ 64) ^ n"
  unfolding lval_def using unat_u64_less by (subst dval_drop[symmetric]) (auto simp: drop_map)

lemma lval_nth: "i < length ls \<Longrightarrow> unat (ls ! i) = lval ls div (2 ^ 64) ^ i mod 2 ^ 64"
  unfolding lval_def using dval_nth[of "map unat ls" "2 ^ 64" i] unat_u64_less by auto

lemma lval_inject: "length xs = length ys \<Longrightarrow> lval xs = lval ys \<Longrightarrow> xs = ys"
  unfolding lval_def
  by (rule map_unat_inject, rule dval_inject[where b = "2 ^ 64"]) (auto simp: unat_u64_less)

lemma lval_ge_top: "ls \<noteq> [] \<Longrightarrow> last ls \<noteq> 0 \<Longrightarrow> (2 ^ 64) ^ (length ls - 1) \<le> lval ls"
  unfolding lval_def using dval_ge_top[of "map unat ls" "2 ^ 64"]
  by (simp add: last_map unsigned_eq_0_iff)

lemma lval_update:
  "i < length ls \<Longrightarrow>
    lval (ls[i := w]) + (2 ^ 64) ^ i * unat (ls ! i) = lval ls + (2 ^ 64) ^ i * unat w"
  unfolding lval_def using dval_update[of i "map unat ls" "2 ^ 64" "unat w"] by (simp add: map_update)

text \<open>The limbs of a number, and the memory image of a limb array.\<close>

fun limbs_of :: "nat \<Rightarrow> nat \<Rightarrow> limbs" where
  "limbs_of 0 n = []"
| "limbs_of (Suc k) n = word_of_nat n # limbs_of k (n div 2 ^ 64)"

lemma length_limbs_of [simp]: "length (limbs_of k n) = k"
  by (induction k arbitrary: n) simp_all

lemma lval_limbs_of [digit_simps]: "lval (limbs_of k n) = n mod (2 ^ 64) ^ k"
proof (induction k arbitrary: n)
  case (Suc k)
  then show ?case by (simp add: unsigned_of_nat take_bit_eq_mod mod_mult2_eq)
qed simp

fun bytes_of :: "nat \<Rightarrow> nat \<Rightarrow> bytes" where
  "bytes_of 0 n = []"
| "bytes_of (Suc k) n = word_of_nat n # bytes_of k (n div 256)"

lemma length_bytes_of [simp]: "length (bytes_of k n) = k"
  by (induction k arbitrary: n) simp_all

lemma bval_bytes_of [digit_simps]: "bval (bytes_of k n) = n mod 256 ^ k"
proof (induction k arbitrary: n)
  case (Suc k)
  then show ?case by (simp add: unsigned_of_nat take_bit_eq_mod mod_mult2_eq)
qed simp

definition limb_bytes :: "limbs \<Rightarrow> bytes" where
  "limb_bytes ls = concat (map (\<lambda>w. bytes_of 8 (unat w)) ls)"

lemma length_limb_bytes [simp]: "length (limb_bytes ls) = 8 * length ls"
  by (induction ls) (simp_all add: limb_bytes_def)

lemma bval_limb_bytes [digit_simps]: "bval (limb_bytes ls) = lval ls"
proof (induction ls)
  case (Cons w ls)
  have "limb_bytes (w # ls) = bytes_of 8 (unat w) @ limb_bytes ls" by (simp add: limb_bytes_def)
  then show ?case using Cons unat_u64_less[of w] by (simp add: bval_append bval_bytes_of)
qed (simp add: limb_bytes_def)

definition bytes_limbs :: "nat \<Rightarrow> bytes \<Rightarrow> limbs" where
  "bytes_limbs k bs = limbs_of k (bval bs)"

lemma length_bytes_limbs [simp]: "length (bytes_limbs k bs) = k"
  by (simp add: bytes_limbs_def)

lemma lval_bytes_limbs: "length bs \<le> 8 * k \<Longrightarrow> lval (bytes_limbs k bs) = bval bs"
proof -
  assume "length bs \<le> 8 * k"
  then have "(256 :: nat) ^ length bs \<le> 256 ^ (8 * k)" by (intro power_increasing) auto
  also have "\<dots> = (2 ^ 64) ^ k" by (simp add: power_mult)
  finally show ?thesis using bval_less[of bs] by (simp add: bytes_limbs_def lval_limbs_of)
qed

end
