(* ===== verification/Base58.thy ===== *)
theory Base58
  imports Prelude
begin

text \<open>
  \<open>pkg/axsys/src/base58.c\<close>: the Base58 text of a content hash, by repeated base
  conversion in a fixed digit buffer.
\<close>

definition ax_b58_alphabet :: string where
  "ax_b58_alphabet = ''123456789ABCDEFGHJKLMNPQRSTUVWXYZabcdefghijkmnopqrstuvwxyz''"

definition AX_BASE58_CAP :: "nat \<Rightarrow> nat" where
  "AX_BASE58_CAP n = n * 137 div 100 + 2"

text \<open>The \<open>for j\<close> loop: carry one more byte into the digits.\<close>

fun b58_carry :: "nat \<Rightarrow> nat list \<Rightarrow> nat list \<times> nat" where
  "b58_carry carry [] = ([], carry)"
| "b58_carry carry (d # ds) =
     (let carry = carry + d * 256; (ds', out) = b58_carry (carry div 58) ds
      in ((carry mod 58) # ds', out))"

text \<open>The \<open>while (carry > 0)\<close> loop: new digits at the top.\<close>

fun b58_push :: "nat \<Rightarrow> nat list" where
  "b58_push carry = (if carry = 0 then [] else (carry mod 58) # b58_push (carry div 58))"

declare b58_push.simps [simp del]

definition b58_step :: "nat list \<Rightarrow> u8 \<Rightarrow> nat list" where
  "b58_step digits b =
     (let (digits', carry) = b58_carry (unat b) digits in digits' @ b58_push carry)"

definition b58_digits :: "bytes \<Rightarrow> nat list" where
  "b58_digits bs = foldl b58_step [] bs"

definition b58_zeros :: "bytes \<Rightarrow> nat" where
  "b58_zeros b = length (takeWhile (\<lambda>x. x = 0) b)"

definition ax_base58 :: "bytes \<Rightarrow> string res" where
  "ax_base58 b =
     (if 64 < length b then Inl (Abort ''ax_base58: input too large'')
      else let zeros = b58_zeros b; digits = b58_digits (drop zeros b)
           in Inr (replicate zeros (CHR ''1'') @ map (\<lambda>d. ax_b58_alphabet ! d) (rev digits)))"

subsection \<open>The digit loop computes the value\<close>

lemma b58_carry_val:
  "b58_carry c ds = (ds', c') \<Longrightarrow> dval 58 ds' + 58 ^ length ds * c' = c + 256 * dval 58 ds"
proof (induction ds arbitrary: c ds' c')
  case Nil
  then show ?case by simp
next
  case (Cons d ds)
  obtain es e where es: "b58_carry ((c + d * 256) div 58) ds = (es, e)" by fastforce
  define q where "q = (c + d * 256) div 58"
  define X where "X = 58 ^ length ds * e"
  have IH: "dval 58 es + X = q + 256 * dval 58 ds"
    using Cons.IH[OF es] by (simp add: q_def X_def)
  have qr: "(c + d * 256) mod 58 + 58 * q = c + d * 256" by (simp add: q_def)
  have "ds' = (c + d * 256) mod 58 # es" "c' = e"
    using Cons.prems es by (simp_all add: Let_def)
  then have "dval 58 ds' + 58 ^ length (d # ds) * c' = (c + d * 256) mod 58 + 58 * dval 58 es + 58 * X"
    by (simp add: X_def)
  also have "\<dots> = c + 256 * dval 58 (d # ds)" using IH qr by simp
  finally show ?case .
qed

lemma b58_carry_length: "b58_carry c ds = (ds', c') \<Longrightarrow> length ds' = length ds"
  by (induction ds arbitrary: c ds' c') (auto simp: Let_def split: prod.splits)

lemma b58_carry_digits: "b58_carry c ds = (ds', c') \<Longrightarrow> \<forall>d \<in> set ds'. d < 58"
  by (induction ds arbitrary: c ds' c') (auto simp: Let_def split: prod.splits)

text \<open>The carry never leaves 16 bits, so \<open>unsigned\<close> arithmetic does not wrap.\<close>

lemma b58_carry_bound:
  "b58_carry c ds = (ds', c') \<Longrightarrow> c < 256 \<Longrightarrow> \<forall>d \<in> set ds. d < 58 \<Longrightarrow> c' < 256"
proof (induction ds arbitrary: c ds' c')
  case (Cons d ds)
  obtain es e where es: "b58_carry ((c + d * 256) div 58) ds = (es, e)" by fastforce
  have "c + d * 256 < 58 * 256" using Cons.prems by auto
  then have "(c + d * 256) div 58 < 256" by (simp add: less_mult_imp_div_less)
  with Cons.IH[OF es] Cons.prems es show ?case by (auto simp: Let_def)
qed simp

lemma b58_push_val: "dval 58 (b58_push c) = c"
proof (induction c rule: b58_push.induct)
  case (1 c)
  then show ?case by (subst b58_push.simps) simp
qed

lemma b58_push_digits: "\<forall>d \<in> set (b58_push c). d < 58"
proof (induction c rule: b58_push.induct)
  case (1 c)
  then show ?case by (subst b58_push.simps) simp
qed

lemma b58_push_last: "b58_push c \<noteq> [] \<Longrightarrow> last (b58_push c) \<noteq> 0"
proof (induction c rule: b58_push.induct)
  case (1 c)
  show ?case
  proof (cases "c div 58 = 0")
    case True
    with 1(2) show ?thesis
      by (subst b58_push.simps, subst b58_push.simps) (auto simp: b58_push.simps[of c] split: if_splits)
  next
    case False
    then have "b58_push (c div 58) \<noteq> []" by (simp add: b58_push.simps[of "c div 58"])
    with 1 False show ?thesis by (subst b58_push.simps) (auto split: if_splits)
  qed
qed

lemma b58_step_val: "dval 58 (b58_step ds b) = unat b + 256 * dval 58 ds"
  by (auto simp: b58_step_def dval_append b58_push_val b58_carry_length
      dest: b58_carry_val split: prod.splits)

lemma b58_step_digits: "\<forall>d \<in> set (b58_step ds b). d < 58"
  using b58_push_digits
  by (cases "b58_carry (unat b) ds") (auto simp: b58_step_def dest: b58_carry_digits)

text \<open>The top digit stays nonzero: a nonzero top digit always carries out.\<close>

lemma b58_carry_out:
  "b58_carry c ds = (ds', c') \<Longrightarrow> ds \<noteq> [] \<Longrightarrow> last ds \<noteq> 0 \<Longrightarrow> c' \<noteq> 0"
proof (induction ds arbitrary: c ds' c')
  case (Cons d ds)
  obtain es e where es: "b58_carry ((c + d * 256) div 58) ds = (es, e)" by fastforce
  have c': "c' = e" using Cons.prems es by (simp add: Let_def)
  show ?case
  proof (cases "ds = []")
    case True
    then have "e = (c + d * 256) div 58" "d \<noteq> 0" using es Cons.prems by auto
    then show ?thesis using c' by (simp add: div_eq_0_iff)
  next
    case False
    with Cons.IH[OF es] Cons.prems c' show ?thesis by simp
  qed
qed simp

lemma b58_step_last:
  assumes "ds = [] \<or> last ds \<noteq> 0"
  shows "b58_step ds b = [] \<or> last (b58_step ds b) \<noteq> 0"
proof (cases "b58_carry (unat b) ds")
  case (Pair ds' c')
  show ?thesis
  proof (cases "ds = []")
    case True
    then have "b58_step ds b = b58_push (unat b)" by (simp add: b58_step_def)
    then show ?thesis using b58_push_last by metis
  next
    case False
    then have "c' \<noteq> 0" using Pair assms b58_carry_out by blast
    then have "b58_push c' \<noteq> []" by (simp add: b58_push.simps)
    then show ?thesis using Pair b58_push_last by (simp add: b58_step_def)
  qed
qed

lemma b58_fold_val:
  "dval 58 (foldl b58_step ds bs) = bval (rev bs) + 256 ^ length bs * dval 58 ds"
  by (induction bs arbitrary: ds) (simp_all add: b58_step_val bval_append algebra_simps)

lemma b58_fold_digits:
  "\<forall>d \<in> set ds. d < 58 \<Longrightarrow> \<forall>d \<in> set (foldl b58_step ds bs). d < 58"
proof (induction bs arbitrary: ds)
  case (Cons b bs)
  show ?case using Cons.IH[OF b58_step_digits] by simp
qed simp

lemma b58_fold_last:
  "ds = [] \<or> last ds \<noteq> 0 \<Longrightarrow>
   foldl b58_step ds bs = [] \<or> last (foldl b58_step ds bs) \<noteq> 0"
  using b58_step_last by (induction bs arbitrary: ds) auto

lemma b58_digits_val: "dval 58 (b58_digits bs) = bval (rev bs)"
  by (simp add: b58_digits_def b58_fold_val)

lemma b58_digits_less: "\<forall>d \<in> set (b58_digits bs). d < 58"
  using b58_fold_digits[of "[]"] by (simp add: b58_digits_def)

lemma b58_digits_last: "b58_digits bs = [] \<or> last (b58_digits bs) \<noteq> 0"
  using b58_fold_last[of "[]"] by (simp add: b58_digits_def)

lemma b58_zeros_split: "b = replicate (b58_zeros b) 0 @ drop (b58_zeros b) b"
proof -
  have "takeWhile (\<lambda>x. x = 0) b = replicate (b58_zeros b) 0"
    unfolding b58_zeros_def by (induction b) auto
  then show ?thesis
    by (metis b58_zeros_def dropWhile_eq_drop takeWhile_dropWhile_id)
qed

lemma bval_rev_zeros: "bval (rev (drop (b58_zeros b) b)) = bval (rev b)"
proof -
  have "bval (rev b) = bval (rev (drop (b58_zeros b) b) @ replicate (b58_zeros b) 0)"
    by (subst b58_zeros_split[of b]) (simp add: rev_append)
  then show ?thesis by (simp add: bval_append)
qed

lemma takeWhile_zeros:
  "xs = [] \<or> hd xs \<noteq> 0 \<Longrightarrow> takeWhile (\<lambda>d. d = 0) (replicate n (0 :: nat) @ xs) = replicate n 0"
  by (cases xs) (simp_all add: takeWhile_append)

subsection \<open>Room in the buffers\<close>

lemma b58_pow: "256 ^ m \<le> (58 :: nat) ^ (m * 137 div 100 + 1)"
proof -
  define k where "k = m * 137 div 100 + 1"
  have k: "137 * m \<le> k * 100"
    using dividend_less_div_times[of 100 "m * 137"] by (simp add: k_def)
  have base: "(256 :: nat) ^ 100 \<le> 58 ^ 137" by simp
  have "(256 ^ m) ^ 100 = ((256 :: nat) ^ 100) ^ m" by (simp only: power_mult [symmetric] mult.commute)
  also have "\<dots> \<le> (58 ^ 137) ^ m" using base by (rule power_mono) (rule zero_le)
  also have "\<dots> = 58 ^ (137 * m)" by (simp only: power_mult)
  also have "\<dots> \<le> 58 ^ (k * 100)" using k by (rule power_increasing) simp
  also have "\<dots> = (58 ^ k) ^ 100" by (rule power_mult)
  finally have "(256 :: nat) ^ m \<le> 58 ^ k"
    by (rule power_mono_iff[THEN iffD1, rotated 3]) simp_all
  then show ?thesis by (simp add: k_def)
qed

lemma b58_digits_length: "length (b58_digits bs) \<le> length bs * 137 div 100 + 1"
proof (cases "b58_digits bs = []")
  case False
  have "58 ^ (length (b58_digits bs) - 1) \<le> dval 58 (b58_digits bs)"
    using False b58_digits_last by (intro dval_ge_top) auto
  also have "\<dots> < 256 ^ length bs"
    using bval_less[of "rev bs"] by (simp add: b58_digits_val)
  also have "\<dots> \<le> 58 ^ (length bs * 137 div 100 + 1)" by (rule b58_pow)
  finally have "length (b58_digits bs) - 1 < length bs * 137 div 100 + 1"
    by (rule power_less_imp_less_exp[rotated]) simp
  then show ?thesis by simp
qed simp

subsection \<open>Properties\<close>

lemma ax_base58_eq:
  assumes "length b \<le> 64"
  shows "ax_base58 b = Inr (map (\<lambda>d. ax_b58_alphabet ! d)
     (replicate (b58_zeros b) 0 @ rev (b58_digits (drop (b58_zeros b) b))))"
  using assms by (simp add: ax_base58_def Let_def ax_b58_alphabet_def)

lemma ax_base58_numeral_aux:
  assumes "length b \<le> 64"
  shows "\<exists>ds. ax_base58 b = Inr (map (\<lambda>d. ax_b58_alphabet ! d) ds) \<and>
    list_all (\<lambda>d. d < 58) ds \<and>
    dval 58 (rev ds) = bval (rev b) \<and>
    length (takeWhile (\<lambda>d. d = 0) ds) = b58_zeros b"
proof (intro exI conjI)
  let ?digits = "b58_digits (drop (b58_zeros b) b)"
  let ?ds = "replicate (b58_zeros b) 0 @ rev ?digits"
  show "ax_base58 b = Inr (map (\<lambda>d. ax_b58_alphabet ! d) ?ds)"
    using assms by (rule ax_base58_eq)
  show "list_all (\<lambda>d. d < 58) ?ds"
    using b58_digits_less by (auto simp: list_all_iff)
  show "dval 58 (rev ?ds) = bval (rev b)"
    by (simp add: dval_append b58_digits_val bval_rev_zeros)
  have "rev ?digits = [] \<or> hd (rev ?digits) \<noteq> 0"
    using b58_digits_last by (simp add: hd_rev)
  then show "length (takeWhile (\<lambda>d. d = 0) ?ds) = b58_zeros b"
    by (simp only: takeWhile_zeros length_replicate)
qed

lemma distinct_b58_alphabet: "distinct ax_b58_alphabet"
  unfolding ax_b58_alphabet_def by simp

lemma b58_alphabet_inject:
  assumes "s = map (\<lambda>d. ax_b58_alphabet ! d) us" "list_all (\<lambda>d. d < 58) us"
    and "s = map (\<lambda>d. ax_b58_alphabet ! d) vs" "list_all (\<lambda>d. d < 58) vs"
  shows "us = vs"
proof -
  have len: "length ax_b58_alphabet = 58" by (simp add: ax_b58_alphabet_def)
  have "inj_on (\<lambda>d. ax_b58_alphabet ! d) (set us \<union> set vs)"
    using assms(2,4) len distinct_b58_alphabet
    by (auto simp: inj_on_def list_all_iff nth_eq_iff_index_eq)
  then show ?thesis using assms(1,3) inj_on_map_eq_map by blast
qed

text \<open>The number and the count of leading zero bytes determine the bytes.\<close>

lemma bval_zeros_inject:
  assumes "bval (rev a) = bval (rev b)" "b58_zeros a = b58_zeros b"
  shows "a = b"
proof -
  let ?s = "\<lambda>x. map unat (rev (drop (b58_zeros x) x))"
  have top: "?s x = [] \<or> last (?s x) \<noteq> 0" for x
  proof (cases "drop (b58_zeros x) x")
    case (Cons y ys)
    then have "dropWhile (\<lambda>x. x = 0) x = y # ys" by (simp add: b58_zeros_def dropWhile_eq_drop)
    then have "y \<noteq> 0" by (simp add: dropWhile_eq_Cons_conv)
    with Cons show ?thesis by (simp add: last_map unat_eq_zero)
  qed simp
  have "dval 256 (?s a) = dval 256 (?s b)"
    using assms(1) bval_rev_zeros[of a] bval_rev_zeros[of b] by (simp add: bval_def)
  then have "?s a = ?s b"
    by (rule dval_canonical_inject[rotated]) (use top in auto)
  then have "rev (drop (b58_zeros a) a) = rev (drop (b58_zeros b) b)" by (rule map_unat_inject)
  then have "drop (b58_zeros a) a = drop (b58_zeros b) b" by simp
  with assms(2) have "replicate (b58_zeros a) 0 @ drop (b58_zeros a) a =
      replicate (b58_zeros b) 0 @ drop (b58_zeros b) b" by simp
  then show ?thesis by (simp only: b58_zeros_split[symmetric])
qed

text \<open>
  C9. The text of up to 64 bytes is the base-58 numeral, in the Bitcoin alphabet and most
  significant digit first, of the number the bytes denote big-endian, with one leading \<open>1\<close>
  for each leading zero byte and no other leading zero digit.
\<close>

theorem ax_base58_numeral:
  assumes "length b \<le> 64"
  shows "\<exists>ds. ax_base58 b = Inr (map (\<lambda>d. ax_b58_alphabet ! d) ds) \<and>
    list_all (\<lambda>d. d < 58) ds \<and>
    dval 58 (rev ds) = bval (rev b) \<and>
    length (takeWhile (\<lambda>d. d = 0) ds) = b58_zeros b"
  using assms by (rule ax_base58_numeral_aux)

theorem ax_base58_numeral_witness:
  "\<exists>ds. ax_base58 [0, 1, 44] = Inr (map (\<lambda>d. ax_b58_alphabet ! d) ds) \<and>
    list_all (\<lambda>d. d < 58) ds \<and>
    dval 58 (rev ds) = bval (rev [0, 1, 44]) \<and>
    length (takeWhile (\<lambda>d. d = 0) ds) = b58_zeros [0, 1, 44]"
  by (rule ax_base58_numeral) simp

text \<open>
  Distinct byte strings of at most 64 bytes have distinct texts, so a hash can be
  recovered from its file name.
\<close>

theorem ax_base58_inject: "inj_on ax_base58 {b. length b \<le> 64}"
proof (rule inj_onI)
  fix a b
  assume len: "a \<in> {b. length b \<le> 64}" "b \<in> {b. length b \<le> 64}"
    and eq: "ax_base58 a = ax_base58 b"
  obtain us where us: "ax_base58 a = Inr (map (\<lambda>d. ax_b58_alphabet ! d) us)"
    "list_all (\<lambda>d. d < 58) us" "dval 58 (rev us) = bval (rev a)"
    "length (takeWhile (\<lambda>d. d = 0) us) = b58_zeros a"
    using ax_base58_numeral_aux len(1) by blast
  obtain vs where vs: "ax_base58 b = Inr (map (\<lambda>d. ax_b58_alphabet ! d) vs)"
    "list_all (\<lambda>d. d < 58) vs" "dval 58 (rev vs) = bval (rev b)"
    "length (takeWhile (\<lambda>d. d = 0) vs) = b58_zeros b"
    using ax_base58_numeral_aux len(2) by blast
  have "us = vs" using us(1,2) vs(1,2) eq by (auto intro: b58_alphabet_inject)
  then show "a = b" using us(3,4) vs(3,4) by (intro bval_zeros_inject) simp_all
qed

text \<open>
  C10. The text and its terminating NUL fit the \<open>AX_BASE58_CAP\<close> bytes the caller provides,
  and the digits fit the encoder's own buffer.
\<close>

theorem ax_base58_room:
  assumes "length b \<le> 64"
  shows "\<exists>s. ax_base58 b = Inr s \<and> Suc (length s) \<le> AX_BASE58_CAP (length b) \<and>
    length (b58_digits (drop (b58_zeros b) b)) \<le> AX_BASE58_CAP 64"
proof -
  have "b58_zeros b \<le> length b" by (simp add: b58_zeros_def length_takeWhile_le)
  moreover have "length (b58_digits (drop (b58_zeros b) b)) \<le> (length b - b58_zeros b) * 137 div 100 + 1"
    using b58_digits_length[of "drop (b58_zeros b) b"] by simp
  moreover have "(length b - b58_zeros b) * 137 div 100 \<le> 64 * 137 div 100"
    using assms by (intro div_le_mono mult_le_mono) auto
  ultimately show ?thesis using assms by (auto simp: ax_base58_eq AX_BASE58_CAP_def)
qed

theorem ax_base58_room_witness:
  "\<exists>s. ax_base58 [255, 255, 255] = Inr s \<and> Suc (length s) \<le> AX_BASE58_CAP (length [255, 255, 255 :: u8]) \<and>
    length (b58_digits (drop (b58_zeros [255, 255, 255]) [255, 255, 255])) \<le> AX_BASE58_CAP 64"
  by (rule ax_base58_room) simp

end
