(* ===== verification/Buddy.thy ===== *)
theory Buddy
  imports Prelude
begin

text \<open>
  \<open>pkg/axsys/src/buddy.c\<close>: the offset allocator behind the shared heap. The C code keeps a
  binary tree in one array: entry \<open>n\<close> is the order of the largest free block below node \<open>n\<close>,
  or \<open>-1\<close>. The model keeps the array; the proofs relate it to a tree of free, used and
  split blocks, and that tree to the set of blocks handed out.

  Sizes are \<open>size_t\<close> values, kept as naturals: \<open>buddy_need\<close> below bounds every size the
  loops compute by the capacity, so no shift wraps.
\<close>

subsection \<open>The code\<close>

record ax_buddy =
  capacity :: nat
  minimum :: nat
  border :: nat
  btree :: "int list"

definition ax_buddy_zero :: ax_buddy where
  "ax_buddy_zero = \<lparr>capacity = 0, minimum = 0, border = 0, btree = []\<rparr>"

text \<open>\<open>for (n = leaves; n > 1; n >>= 1) order++\<close>\<close>

fun buddy_log :: "nat \<Rightarrow> nat" where
  "buddy_log n = (if 1 < n then Suc (buddy_log (n div 2)) else 0)"

declare buddy_log.simps [simp del]

text \<open>
  \<open>calloc_ok\<close> says whether \<open>calloc\<close> returned memory. \<open>None\<close> is the return value \<open>false\<close>,
  which leaves the zeroed structure behind.
\<close>

definition ax_buddy_init :: "bool \<Rightarrow> nat \<Rightarrow> nat \<Rightarrow> ax_buddy option" where
  "ax_buddy_init calloc_ok cap mn =
     (if mn = 0 \<or> mn AND (mn - 1) \<noteq> 0 \<or> cap < mn \<or> cap AND (cap - 1) \<noteq> 0 then None
      else let leaves = cap div mn in
        if SIZE_MAX div 2 < leaves then None
        else if \<not> calloc_ok then None
        else let order = buddy_log leaves in
          Some \<lparr>capacity = cap, minimum = mn, border = order,
                btree = (replicate (2 * leaves) 0)[1 := int8_of (int order)]\<rparr>)"

definition ax_buddy_destroy :: "ax_buddy \<Rightarrow> ax_buddy" where
  "ax_buddy_destroy b = ax_buddy_zero"

text \<open>
  \<open>while (size < bytes) { size <<= 1; need++; }\<close>. A zero size would loop forever, which is
  the value \<open>None\<close>.
\<close>

partial_function (option) buddy_fit :: "nat \<Rightarrow> nat \<Rightarrow> nat \<Rightarrow> (nat \<times> nat) option" where
  "buddy_fit bytes sz need =
     (if sz < bytes then buddy_fit bytes (2 * sz) (Suc need) else Some (sz, need))"

declare buddy_fit.simps [code]

text \<open>The descent to the leftmost fitting node, splitting free nodes on the way.\<close>

fun buddy_descend ::
  "nat \<Rightarrow> nat \<Rightarrow> nat \<Rightarrow> int list \<Rightarrow> nat \<Rightarrow> nat \<Rightarrow> int list \<times> nat \<times> nat" where
  "buddy_descend mn need order t node offset =
     (if need < order then
        let t' = (if t ! node = int order
                  then t[node * 2 := int8_of (int (order - 1)),
                         node * 2 + 1 := int8_of (int (order - 1))] else t);
            order' = order - 1; node' = node * 2
        in if t' ! node' < int need
           then buddy_descend mn need order' t' (Suc node') (offset + mn * 2 ^ order')
           else buddy_descend mn need order' t' node' offset
      else (t, node, offset))"

declare buddy_descend.simps [simp del]

text \<open>The walk back to the root after an allocation.\<close>

fun buddy_climb :: "int list \<Rightarrow> nat \<Rightarrow> int list" where
  "buddy_climb t node =
     (if 1 < node then
        let n = node div 2; a = t ! (n * 2); c = t ! (n * 2 + 1)
        in buddy_climb (t[n := (if c < a then a else c)]) n
      else t)"

declare buddy_climb.simps [simp del]

datatype buddy_out = SizeMax | Block nat nat ax_buddy

definition ax_buddy_alloc :: "ax_buddy \<Rightarrow> nat \<Rightarrow> buddy_out option" where
  "ax_buddy_alloc b bytes =
     (if bytes = 0 \<or> capacity b < bytes then Some SizeMax
      else case buddy_fit bytes (minimum b) 0 of
        None \<Rightarrow> None
      | Some (sz, need) \<Rightarrow>
          if btree b ! 1 < int need then Some SizeMax
          else case buddy_descend (minimum b) need (border b) (btree b) 1 0 of
            (t, node, offset) \<Rightarrow>
              Some (Block offset sz (b\<lparr>btree := buddy_climb (t[node := -1]) node\<rparr>)))"

text \<open>The walk back to the root after a release, joining two free buddies.\<close>

fun buddy_join :: "int list \<Rightarrow> nat \<Rightarrow> nat \<Rightarrow> int list" where
  "buddy_join t node order =
     (if 1 < node then
        let n = node div 2; a = t ! (n * 2); c = t ! (n * 2 + 1)
        in buddy_join (t[n := (if a = int order \<and> c = int order then int8_of (int (order + 1))
                               else if c < a then a else c)]) n (Suc order)
      else t)"

declare buddy_join.simps [simp del]

definition ax_buddy_free :: "ax_buddy \<Rightarrow> nat \<Rightarrow> nat \<Rightarrow> ax_buddy res" where
  "ax_buddy_free b offset actual =
     rbind (assume_c (minimum b \<le> actual \<and> actual \<le> capacity b \<and> actual AND (actual - 1) = 0 \<and>
              offset mod actual = 0 \<and> offset \<le> capacity b - actual) ''invalid buddy block'')
       (\<lambda>_. let order = buddy_log (actual div minimum b);
                node = (capacity b + offset) div actual
            in rbind (assume_c (btree b ! node = -1) ''buddy double free or wrong block size'')
                 (\<lambda>_. Inr (b\<lparr>btree := buddy_join ((btree b)[node := int8_of (int order)]) node order\<rparr>)))"

subsection \<open>Nodes of the array tree\<close>

text \<open>\<open>insub i n\<close>: index \<open>i\<close> lies in the subtree rooted at index \<open>n\<close>.\<close>

definition insub :: "nat \<Rightarrow> nat \<Rightarrow> bool" where
  "insub i n \<longleftrightarrow> (\<exists>j. i div 2 ^ j = n)"

lemma insub_refl [simp]: "insub n n"
  unfolding insub_def by (rule exI[of _ 0]) simp

lemma insub_child:
  "insub i (n * 2) \<Longrightarrow> insub i n" "insub i (Suc (n * 2)) \<Longrightarrow> insub i n"
proof -
  have *: "insub i n" if "i div 2 ^ j = m" "m div 2 = n" for j m
    unfolding insub_def using that by (intro exI[of _ "Suc j"])
      (simp add: power_Suc2 div_mult2_eq del: power_Suc)
  show "insub i (n * 2) \<Longrightarrow> insub i n" "insub i (Suc (n * 2)) \<Longrightarrow> insub i n"
    using *[where m = "n * 2"] *[where m = "Suc (n * 2)"] by (auto simp: insub_def)
qed

lemma insub_less: "insub i n \<Longrightarrow> n \<le> i"
  by (auto simp: insub_def)

lemma div_pow_add: "i div 2 ^ (a + d) = (i div 2 ^ a) div 2 ^ d" for i :: nat
  by (simp add: power_add div_mult2_eq)

lemma insub_siblings:
  assumes "1 \<le> n"
  shows "\<not> (insub i (n * 2) \<and> insub i (Suc (n * 2)))"
proof
  assume "insub i (n * 2) \<and> insub i (Suc (n * 2))"
  then obtain j k where j: "i div 2 ^ j = n * 2" and k: "i div 2 ^ k = Suc (n * 2)"
    by (auto simp: insub_def)
  show False
  proof (cases "j \<le> k")
    case True
    have "Suc (n * 2) = n * 2 div 2 ^ (k - j)"
      using True div_pow_add[of i j "k - j"] by (simp only: le_add_diff_inverse j k)
    also have "\<dots> \<le> n * 2" by (rule div_le_dividend)
    finally show False by simp
  next
    case False
    define d where "d = j - k - 1"
    have jk: "j = k + (1 + d)" using False by (simp add: d_def)
    have "n * 2 = Suc (n * 2) div 2 ^ (1 + d)"
      using div_pow_add[of i k "1 + d"] by (simp only: jk[symmetric] j k)
    also have "\<dots> = (Suc (n * 2) div 2 ^ 1) div 2 ^ d" by (rule div_pow_add)
    also have "\<dots> = n div 2 ^ d" by simp
    also have "\<dots> \<le> n" by (rule div_le_dividend)
    finally show False using assms by simp
  qed
qed

lemma not_insub_child: "1 \<le> n \<Longrightarrow> \<not> insub n (n * 2)" "1 \<le> n \<Longrightarrow> \<not> insub n (Suc (n * 2))"
  using insub_less by fastforce+

subsection \<open>Trees of blocks\<close>

datatype blk = Free | Used | Split blk blk

fun bmax :: "nat \<Rightarrow> blk \<Rightarrow> int" where
  "bmax k Free = int k"
| "bmax k Used = -1"
| "bmax k (Split l r) = max (bmax (k - 1) l) (bmax (k - 1) r)"

text \<open>A split node is never two free halves: they are joined on release.\<close>

fun wfb :: "nat \<Rightarrow> blk \<Rightarrow> bool" where
  "wfb k (Split l r) = (0 < k \<and> wfb (k - 1) l \<and> wfb (k - 1) r \<and> \<not> (l = Free \<and> r = Free))"
| "wfb k b = True"

fun rep :: "int list \<Rightarrow> nat \<Rightarrow> nat \<Rightarrow> blk \<Rightarrow> bool" where
  "rep t n k (Split l r) =
     (t ! n = bmax k (Split l r) \<and> rep t (n * 2) (k - 1) l \<and> rep t (Suc (n * 2)) (k - 1) r)"
| "rep t n k b = (t ! n = bmax k b)"

lemma rep_root: "rep t n k b \<Longrightarrow> t ! n = bmax k b"
  by (cases b) auto

lemma rep_frame:
  "rep t n k b \<Longrightarrow> (\<And>i. insub i n \<Longrightarrow> t' ! i = t ! i) \<Longrightarrow> rep t' n k b"
  by (induction t n k b rule: rep.induct) (auto dest: insub_child)

lemma bmax_less: "wfb k b \<Longrightarrow> bmax k b \<le> int k" "wfb k (Split l r) \<Longrightarrow> bmax k (Split l r) < int k"
proof -
  show *: "wfb k b \<Longrightarrow> bmax k b \<le> int k" for k b
    by (induction k b rule: wfb.induct) auto
  show "wfb k (Split l r) \<Longrightarrow> bmax k (Split l r) < int k"
    using *[of "k - 1" l] *[of "k - 1" r] by auto
qed

lemma rep_full_iff: "rep t n k b \<Longrightarrow> wfb k b \<Longrightarrow> t ! n = int k \<longleftrightarrow> b = Free"
  using bmax_less(2)[of k] rep_root[of t n k b]
  by (cases b) (metis bmax.simps(1), simp, metis blk.distinct(3) less_irrefl)

text \<open>Allocation and release on trees.\<close>

fun balloc :: "nat \<Rightarrow> nat \<Rightarrow> blk \<Rightarrow> blk \<times> nat" where
  "balloc need k b =
     (if need < k then
        (case (case b of Split l r \<Rightarrow> (l, r) | _ \<Rightarrow> (Free, Free)) of (l, r) \<Rightarrow>
           if bmax (k - 1) l < int need
           then (case balloc need (k - 1) r of (r', i) \<Rightarrow> (Split l r', 2 ^ (k - 1) + i))
           else (case balloc need (k - 1) l of (l', i) \<Rightarrow> (Split l' r, i)))
      else (Used, 0))"

declare balloc.simps [simp del]

definition bjoin :: "blk \<Rightarrow> blk \<Rightarrow> blk" where
  "bjoin l r = (if l = Free \<and> r = Free then Free else Split l r)"

fun bfree :: "nat \<Rightarrow> nat \<Rightarrow> nat \<Rightarrow> blk \<Rightarrow> blk" where
  "bfree j k i (Split l r) =
     (if i < 2 ^ (k - 1) then bjoin (bfree j (k - 1) i l) r
      else bjoin l (bfree j (k - 1) (i - 2 ^ (k - 1)) r))"
| "bfree j k i b = Free"

text \<open>The blocks in use, as (first unit, order).\<close>

fun ublocks :: "nat \<Rightarrow> nat \<Rightarrow> blk \<Rightarrow> (nat \<times> nat) set" where
  "ublocks k i Free = {}"
| "ublocks k i Used = {(i, k)}"
| "ublocks k i (Split l r) = ublocks (k - 1) i l \<union> ublocks (k - 1) (i + 2 ^ (k - 1)) r"

subsection \<open>The array implements the tree\<close>

lemma climb_child:
  assumes "rep t (n * 2) k l" "rep t (Suc (n * 2)) k r" "n < length t" "1 \<le> n"
    and "c = n * 2 \<or> c = Suc (n * 2)"
  shows "buddy_climb t c = buddy_climb (t[n := max (bmax k l) (bmax k r)]) n"
    and "rep (t[n := max (bmax k l) (bmax k r)]) n (Suc k) (Split l r)"
proof -
  have "t ! (n * 2) = bmax k l" "t ! Suc (n * 2) = bmax k r"
    using assms(1,2) rep_root by auto
  then show "buddy_climb t c = buddy_climb (t[n := max (bmax k l) (bmax k r)]) n"
    using assms(4,5) by (subst buddy_climb.simps) (auto simp: Let_def max_def)
  have "rep (t[n := max (bmax k l) (bmax k r)]) m k b" if "rep t m k b" "\<not> insub n m" for m b
  proof (rule rep_frame[OF that(1)])
    fix i assume "insub i m"
    with that(2) have "i \<noteq> n" by blast
    then show "t[n := max (bmax k l) (bmax k r)] ! i = t ! i" by simp
  qed
  then show "rep (t[n := max (bmax k l) (bmax k r)]) n (Suc k) (Split l r)"
    using assms not_insub_child by simp
qed

text \<open>After a change below child \<open>c\<close> of \<open>n\<close>, one step of the walk restores node \<open>n\<close>.\<close>

lemma climb_frame:
  assumes "rep t2 (n * 2) k l" "rep t2 (Suc (n * 2)) k r" "n < length t2" "1 \<le> n"
    and c: "c = n * 2 \<or> c = Suc (n * 2)"
    and "\<forall>i. \<not> insub i c \<longrightarrow> t2 ! i = t1 ! i" "\<forall>i. \<not> insub i n \<longrightarrow> t1 ! i = t ! i"
  shows "\<exists>t3. buddy_climb t2 c = buddy_climb t3 n \<and> rep t3 n (Suc k) (Split l r) \<and>
    length t3 = length t2 \<and> (\<forall>i. \<not> insub i n \<longrightarrow> t3 ! i = t ! i)"
proof (intro exI conjI)
  let ?t = "t2[n := max (bmax k l) (bmax k r)]"
  show "buddy_climb t2 c = buddy_climb ?t n" "rep ?t n (Suc k) (Split l r)"
    using climb_child[OF assms(1-4) c] by auto
  show "length ?t = length t2" by simp
  show "\<forall>i. \<not> insub i n \<longrightarrow> ?t ! i = t ! i"
  proof (intro allI impI)
    fix i assume i: "\<not> insub i n"
    then have "i \<noteq> n" "\<not> insub i c" using c insub_child insub_refl by blast+
    then show "?t ! i = t ! i" using i assms(6,7) by simp
  qed
qed

lemma node_room:
  assumes "Suc n * 2 ^ Suc k \<le> L"
  shows "n < L" "Suc (n * 2) < L" "Suc (n * 2) * 2 ^ k \<le> L" "Suc (Suc (n * 2)) * 2 ^ k \<le> L"
proof -
  have eq: "Suc (Suc (n * 2)) * 2 ^ k = Suc n * 2 ^ Suc k" by simp
  then show *: "Suc (Suc (n * 2)) * 2 ^ k \<le> L" using assms by linarith
  have "Suc (n * 2) * 2 ^ k \<le> Suc (Suc (n * 2)) * 2 ^ k" by (rule mult_le_mono1) simp
  with * show "Suc (n * 2) * 2 ^ k \<le> L" by linarith
  have "Suc (Suc (n * 2)) * 1 \<le> Suc (Suc (n * 2)) * 2 ^ k" by (rule mult_le_mono2) simp
  then have "Suc (Suc (n * 2)) \<le> L" unfolding mult_1_right using * by (rule order_trans)
  then show "n < L" "Suc (n * 2) < L" by linarith+
qed

text \<open>Splitting a free node.\<close>

lemma split_free:
  assumes "Suc (n * 2) < length t" "k < 127"
  shows "rep (t[n * 2 := int8_of (int k), Suc (n * 2) := int8_of (int k)]) (n * 2) k Free"
    and "rep (t[n * 2 := int8_of (int k), Suc (n * 2) := int8_of (int k)]) (Suc (n * 2)) k Free"
    and "\<forall>i. \<not> insub i n \<longrightarrow>
      t[n * 2 := int8_of (int k), Suc (n * 2) := int8_of (int k)] ! i = t ! i"
proof -
  show "rep (t[n * 2 := int8_of (int k), Suc (n * 2) := int8_of (int k)]) (n * 2) k Free"
    "rep (t[n * 2 := int8_of (int k), Suc (n * 2) := int8_of (int k)]) (Suc (n * 2)) k Free"
    using assms by simp_all
  have "insub (n * 2) n" "insub (Suc (n * 2)) n" using insub_child insub_refl by blast+
  then have "i \<noteq> n * 2 \<and> i \<noteq> Suc (n * 2)" if "\<not> insub i n" for i using that by auto
  then show "\<forall>i. \<not> insub i n \<longrightarrow>
      t[n * 2 := int8_of (int k), Suc (n * 2) := int8_of (int k)] ! i = t ! i"
    by (metis nth_list_update_neq)
qed

lemma split_node:
  assumes "rep t n (Suc k) b" "wfb (Suc k) b" "b \<noteq> Used" "1 \<le> n" "Suc n * 2 ^ Suc k \<le> length t"
    and "k < 127" "need \<le> k" "int need \<le> bmax (Suc k) b"
    and t': "t' = (if t ! n = int (Suc k)
                   then t[n * 2 := int8_of (int k), Suc (n * 2) := int8_of (int k)] else t)"
  shows "\<exists>l r. (case b of Split l r \<Rightarrow> (l, r) | _ \<Rightarrow> (Free, Free)) = (l, r) \<and>
    rep t' (n * 2) k l \<and> rep t' (Suc (n * 2)) k r \<and> wfb k l \<and> wfb k r \<and>
    length t' = length t \<and> (\<forall>i. \<not> insub i n \<longrightarrow> t' ! i = t ! i) \<and>
    (int need \<le> bmax k l \<or> int need \<le> bmax k r)"
proof (cases b)
  case Free
  have t'2: "t' = t[n * 2 := int8_of (int k), Suc (n * 2) := int8_of (int k)]"
    using assms(1) Free by (simp add: t')
  have "length t' = length t" by (simp add: t'2)
  with split_free[OF node_room(2)[OF assms(5)] assms(6), folded t'2] Free assms(7) show ?thesis
    by (intro exI[of _ Free]) simp
next
  case Used
  with assms(3) show ?thesis by simp
next
  case (Split l r)
  have "t ! n \<noteq> int (Suc k)" using rep_full_iff[OF assms(1,2)] Split by blast
  then have "t' = t" by (simp only: t' if_False)
  then show ?thesis
    using Split assms(1,2,8) by (intro exI[of _ l] exI[of _ r]) (simp add: le_max_iff_disj)
qed

lemma balloc_here: "k \<le> need \<Longrightarrow> balloc need k b = (Used, 0)"
  by (simp add: balloc.simps)

lemma descend_here: "k \<le> need \<Longrightarrow> buddy_descend mn need k t n off = (t, n, off)"
  by (simp add: buddy_descend.simps)

text \<open>What the descent and the walk back do to the array below node \<open>n\<close>.\<close>

definition alloc_at :: "nat \<Rightarrow> nat \<Rightarrow> blk \<Rightarrow> int list \<Rightarrow> nat \<Rightarrow> int list \<Rightarrow> bool" where
  "alloc_at need k b t n u \<longleftrightarrow> (\<exists>t2. u = buddy_climb t2 n \<and>
    rep t2 n k (fst (balloc need k b)) \<and> length t2 = length t \<and>
    (\<forall>i. \<not> insub i n \<longrightarrow> t2 ! i = t ! i))"

lemma alloc_at_here:
  assumes "k \<le> need" "n < length t"
  shows "alloc_at need k b t n (buddy_climb (t[n := -1]) n)"
proof -
  have "t[n := -1] ! i = t ! i" if "\<not> insub i n" for i
    using that by (cases "i = n") auto
  with assms show ?thesis
    unfolding alloc_at_def by (intro exI[of _ "t[n := -1]"]) (auto simp: balloc_here)
qed

lemma alloc_at_left:
  assumes "alloc_at need k l t1 (n * 2) u" "rep t1 (Suc (n * 2)) k r" "1 \<le> n" "n < length t"
    and "length t1 = length t" "\<forall>i. \<not> insub i n \<longrightarrow> t1 ! i = t ! i"
    and "fst (balloc need (Suc k) b) = Split (fst (balloc need k l)) r"
  shows "alloc_at need (Suc k) b t n u"
proof -
  obtain t2 where t2: "u = buddy_climb t2 (n * 2)" "rep t2 (n * 2) k (fst (balloc need k l))"
    "length t2 = length t1" "\<forall>i. \<not> insub i (n * 2) \<longrightarrow> t2 ! i = t1 ! i"
    using assms(1) by (auto simp: alloc_at_def)
  have r2: "rep t2 (Suc (n * 2)) k r"
    using assms(2) by (rule rep_frame) (use t2(4) insub_siblings assms(3) in blast)
  from climb_frame[OF t2(2) r2 _ assms(3) disjI1[OF refl] t2(4) assms(6)] t2 assms(4,5,7)
  show ?thesis by (auto simp: alloc_at_def)
qed

lemma alloc_at_right:
  assumes "alloc_at need k r t1 (Suc (n * 2)) u" "rep t1 (n * 2) k l" "1 \<le> n" "n < length t"
    and "length t1 = length t" "\<forall>i. \<not> insub i n \<longrightarrow> t1 ! i = t ! i"
    and "fst (balloc need (Suc k) b) = Split l (fst (balloc need k r))"
  shows "alloc_at need (Suc k) b t n u"
proof -
  obtain t2 where t2: "u = buddy_climb t2 (Suc (n * 2))"
    "rep t2 (Suc (n * 2)) k (fst (balloc need k r))"
    "length t2 = length t1" "\<forall>i. \<not> insub i (Suc (n * 2)) \<longrightarrow> t2 ! i = t1 ! i"
    using assms(1) by (auto simp: alloc_at_def)
  have l2: "rep t2 (n * 2) k l"
    using assms(2) by (rule rep_frame) (use t2(4) insub_siblings assms(3) in blast)
  from climb_frame[OF l2 t2(2) _ assms(3) disjI2[OF refl] t2(4) assms(6)] t2 assms(4,5,7)
  show ?thesis by (auto simp: alloc_at_def)
qed

lemma descend_climb:
  assumes "need \<le> k" "int need \<le> bmax k b" "wfb k b" "rep t n k b" "1 \<le> n"
    and "Suc n * 2 ^ k \<le> length t" "k < 128"
    and "buddy_descend mn need k t n off = (t1, n1, off1)"
  shows "alloc_at need k b t n (buddy_climb (t1[n1 := -1]) n1) \<and>
    off1 = off + mn * snd (balloc need k b)"
  using assms
proof (induction k arbitrary: b t n off)
  case 0
  then show ?case using alloc_at_here by (auto simp: descend_here balloc_here)
next
  case (Suc k)
  note room = node_room[OF Suc.prems(6)]
  show ?case
  proof (cases "need = Suc k")
    case True
    then show ?thesis using Suc.prems alloc_at_here room(1) by (auto simp: descend_here balloc_here)
  next
    case False
    then have need: "need \<le> k" using Suc.prems by simp
    have "b \<noteq> Used" using Suc.prems(2) by auto
    define t' where "t' = (if t ! n = int (Suc k)
        then t[n * 2 := int8_of (int k), Suc (n * 2) := int8_of (int k)] else t)"
    have "k < 127" using Suc.prems(7) by simp
    obtain l r where lr: "(case b of Split l r \<Rightarrow> (l, r) | _ \<Rightarrow> (Free, Free)) = (l, r)"
      and repl: "rep t' (n * 2) k l" and repr: "rep t' (Suc (n * 2)) k r"
      and wf: "wfb k l" "wfb k r" and len: "length t' = length t"
      and out: "\<forall>i. \<not> insub i n \<longrightarrow> t' ! i = t ! i"
      and mx: "int need \<le> bmax k l \<or> int need \<le> bmax k r"
      using split_node[OF Suc.prems(4,3) \<open>b \<noteq> Used\<close> Suc.prems(5,6) \<open>k < 127\<close> need Suc.prems(2) t'_def]
      by blast
    have tl: "t' ! (n * 2) = bmax k l" using repl rep_root by blast
    have step: "buddy_descend mn need (Suc k) t n off =
        (if t' ! (n * 2) < int need then buddy_descend mn need k t' (Suc (n * 2)) (off + mn * 2 ^ k)
         else buddy_descend mn need k t' (n * 2) off)"
      unfolding t'_def using need by (subst buddy_descend.simps) (simp add: Let_def)
    have ba: "balloc need (Suc k) b =
        (if bmax k l < int need then (Split l (fst (balloc need k r)), 2 ^ k + snd (balloc need k r))
         else (Split (fst (balloc need k l)) r, snd (balloc need k l)))"
      using need lr by (subst balloc.simps) (simp split: prod.splits)
    show ?thesis
    proof (cases "bmax k l < int need")
      case True
      have "buddy_descend mn need k t' (Suc (n * 2)) (off + mn * 2 ^ k) = (t1, n1, off1)"
        using Suc.prems(8) step tl True by simp
      from Suc.IH[OF need _ wf(2) repr _ _ _ this] mx True Suc.prems(7) room(4) len
      have "alloc_at need k r t' (Suc (n * 2)) (buddy_climb (t1[n1 := -1]) n1)"
        "off1 = off + mn * 2 ^ k + mn * snd (balloc need k r)" by auto
      then show ?thesis using alloc_at_right[OF _ repl Suc.prems(5) room(1) len out] ba True
        by (simp add: algebra_simps)
    next
      case False
      have "buddy_descend mn need k t' (n * 2) off = (t1, n1, off1)"
        using Suc.prems(8) step tl False by simp
      from Suc.IH[OF need _ wf(1) repl _ _ _ this] False Suc.prems(5,7) room(3) len
      have "alloc_at need k l t' (n * 2) (buddy_climb (t1[n1 := -1]) n1)"
        "off1 = off + mn * snd (balloc need k l)" by auto
      then show ?thesis using alloc_at_left[OF _ repr Suc.prems(5) room(1) len out] ba False by simp
    qed
  qed
qed

subsection \<open>Blocks in use\<close>

lemma ublocks_range:
  "(x, j) \<in> ublocks k i b \<Longrightarrow> wfb k b \<Longrightarrow>
   i \<le> x \<and> x + 2 ^ j \<le> i + 2 ^ k \<and> j \<le> k \<and> 2 ^ j dvd x - i"
proof (induction k i b rule: ublocks.induct)
  case (3 k i l r)
  then obtain k' where k: "k = Suc k'" by (cases k) auto
  from 3 k consider "i \<le> x \<and> x + 2 ^ j \<le> i + 2 ^ k' \<and> j \<le> k' \<and> 2 ^ j dvd x - i"
    | "i + 2 ^ k' \<le> x \<and> x + 2 ^ j \<le> i + 2 ^ k' + 2 ^ k' \<and> j \<le> k' \<and> 2 ^ j dvd x - (i + 2 ^ k')"
    by auto
  then show ?case
  proof cases
    case 2
    then have "2 ^ j dvd (x - (i + 2 ^ k')) + 2 ^ k'" using le_imp_power_dvd by (intro dvd_add) auto
    moreover have "(x - (i + 2 ^ k')) + 2 ^ k' = x - i" using 2 by simp
    ultimately show ?thesis using 2 k by simp
  qed (use k in auto)
qed auto

lemma ublocks_disjoint:
  "(x, j) \<in> ublocks k i b \<Longrightarrow> (y, m) \<in> ublocks k i b \<Longrightarrow> wfb k b \<Longrightarrow> (x, j) \<noteq> (y, m) \<Longrightarrow>
   x + 2 ^ j \<le> y \<or> y + 2 ^ m \<le> x"
proof (induction k i b rule: ublocks.induct)
  case (3 k i l r)
  have wf: "wfb (k - 1) l" "wfb (k - 1) r" using 3 by auto
  note rng = ublocks_range[OF _ wf(1), of _ _ i] ublocks_range[OF _ wf(2), of _ _ "i + 2 ^ (k - 1)"]
  consider "(x, j) \<in> ublocks (k - 1) i l" "(y, m) \<in> ublocks (k - 1) i l"
    | "(x, j) \<in> ublocks (k - 1) i l" "(y, m) \<in> ublocks (k - 1) (i + 2 ^ (k - 1)) r"
    | "(x, j) \<in> ublocks (k - 1) (i + 2 ^ (k - 1)) r" "(y, m) \<in> ublocks (k - 1) i l"
    | "(x, j) \<in> ublocks (k - 1) (i + 2 ^ (k - 1)) r" "(y, m) \<in> ublocks (k - 1) (i + 2 ^ (k - 1)) r"
    using 3 by auto
  then show ?case
  proof cases
    case 2
    with rng(1)[of x j] rng(2)[of y m] show ?thesis by linarith
  next
    case 3
    with rng(1)[of y m] rng(2)[of x j] show ?thesis by linarith
  qed (use 3 wf in auto)
qed auto

lemma ublocks_nonempty: "wfb k b \<Longrightarrow> b \<noteq> Free \<Longrightarrow> ublocks k i b \<noteq> {}"
  by (induction k i b rule: ublocks.induct) auto

lemma bmax_full: "int k \<le> bmax k b \<Longrightarrow> wfb k b \<Longrightarrow> b = Free"
  using bmax_less(2) by (cases b) force+

text \<open>Allocation adds one block, and keeps trees well formed.\<close>

lemma balloc_spec:
  "need \<le> k \<Longrightarrow> int need \<le> bmax k b \<Longrightarrow> wfb k b \<Longrightarrow> balloc need k b = (b', x) \<Longrightarrow>
   wfb k b' \<and> b' \<noteq> Free \<and> (\<forall>i. ublocks k i b' = insert (i + x, need) (ublocks k i b))"
proof (induction k arbitrary: b b' x)
  case 0
  then show ?case using bmax_full[of 0 b] by (auto simp: balloc_here)
next
  case (Suc k)
  show ?case
  proof (cases "need = Suc k")
    case True
    then show ?thesis using Suc.prems bmax_full[of "Suc k" b] by (auto simp: balloc_here)
  next
    case False
    then have need: "need \<le> k" using Suc.prems by simp
    obtain l r where lr: "(case b of Split l r \<Rightarrow> (l, r) | _ \<Rightarrow> (Free, Free)) = (l, r)" by fastforce
    then have wf: "wfb k l" "wfb k r" and mx: "int need \<le> bmax k l \<or> int need \<le> bmax k r"
      and ub: "\<And>i. ublocks (Suc k) i b = ublocks k i l \<union> ublocks k (i + 2 ^ k) r"
      using Suc.prems need by (auto simp: le_max_iff_disj split: blk.splits)
    obtain l' xl r' xr where bl: "balloc need k l = (l', xl)" and br: "balloc need k r = (r', xr)"
      by fastforce
    show ?thesis
    proof (cases "bmax k l < int need")
      case True
      then have "b' = Split l r'" "x = 2 ^ k + xr"
        using Suc.prems(4) need lr br by (auto simp: balloc.simps[of need "Suc k"])
      then show ?thesis using Suc.IH[OF need _ wf(2) br] mx True wf ub by (auto simp: add.assoc)
    next
      case False
      then have "b' = Split l' r" "x = xl"
        using Suc.prems(4) need lr bl by (auto simp: balloc.simps[of need "Suc k"])
      then show ?thesis using Suc.IH[OF need _ wf(1) bl] False wf ub by auto
    qed
  qed
qed

lemma balloc_fresh:
  "need \<le> k \<Longrightarrow> int need \<le> bmax k b \<Longrightarrow> wfb k b \<Longrightarrow> balloc need k b = (b', x) \<Longrightarrow>
   (i + x, need) \<notin> ublocks k i b"
proof (induction k arbitrary: b b' x i)
  case 0
  then show ?case using bmax_full[of 0 b] by (auto simp: balloc_here)
next
  case (Suc k)
  show ?case
  proof (cases "need = Suc k")
    case True
    then show ?thesis using Suc.prems bmax_full[of "Suc k" b] by (auto simp: balloc_here)
  next
    case False
    then have need: "need \<le> k" using Suc.prems by simp
    show ?thesis
    proof (cases b)
      case (Split l r)
      have wf: "wfb k l" "wfb k r" and mx: "int need \<le> bmax k l \<or> int need \<le> bmax k r"
        using Suc.prems Split by (auto simp: le_max_iff_disj)
      obtain l' xl r' xr where bl: "balloc need k l = (l', xl)" and br: "balloc need k r = (r', xr)"
        by fastforce
      have left: "xl + 2 ^ need \<le> 2 ^ k" if "int need \<le> bmax k l"
        using balloc_spec[OF need that wf(1) bl] ublocks_range[of xl need k 0 l'] by auto
      have nl: "(i + (2 ^ k + xr), need) \<notin> ublocks k i l"
        using ublocks_range[OF _ wf(1), of "i + (2 ^ k + xr)" need i] by force
      have nr: "(i + xl, need) \<notin> ublocks k (i + 2 ^ k) r" if "int need \<le> bmax k l"
      proof
        assume "(i + xl, need) \<in> ublocks k (i + 2 ^ k) r"
        then have "2 ^ k \<le> xl" using ublocks_range[OF _ wf(2)] by force
        moreover have "0 < (2 :: nat) ^ need" by simp
        ultimately show False using left[OF that] by linarith
      qed
      show ?thesis
        using Suc.prems(4) need Split bl br Suc.IH[OF need _ wf(1) bl, of i] nl nr mx
          Suc.IH[OF need _ wf(2) br, of "i + 2 ^ k"]
        by (auto simp: balloc.simps[of need "Suc k"] add.assoc not_less split: if_splits)
    qed (use Suc.prems in auto)
  qed
qed

text \<open>Where allocation finds no room, every aligned block meets one in use.\<close>

lemma no_room:
  "wfb k b \<Longrightarrow> need \<le> k \<Longrightarrow> bmax k b < int need \<Longrightarrow> i \<le> x \<Longrightarrow> x + 2 ^ need \<le> i + 2 ^ k \<Longrightarrow>
   2 ^ need dvd x - i \<Longrightarrow> \<exists>y j. (y, j) \<in> ublocks k i b \<and> y < x + 2 ^ need \<and> x < y + 2 ^ j"
proof (induction k i b rule: ublocks.induct)
  case (2 k i)
  moreover have "0 < (2 :: nat) ^ need" by simp
  ultimately have "i < x + 2 ^ need" "x < i + 2 ^ k" by linarith+
  then show ?case by auto
next
  case (3 k i l r)
  then obtain k' where k: "k = Suc k'" by (cases k) auto
  have wf: "wfb k' l" "wfb k' r" using 3 k by auto
  show ?case
  proof (cases "need = k")
    case True
    obtain y j where yj: "(y, j) \<in> ublocks k i (Split l r)"
      using ublocks_nonempty[OF 3(3), of i] by auto
    then have "i \<le> y" "y + 2 ^ j \<le> i + 2 ^ k" using ublocks_range 3(3) by blast+
    moreover have "x = i" using 3 True by simp
    moreover have "0 < (2 :: nat) ^ j" by simp
    ultimately have "y < x + 2 ^ k" "x < y + 2 ^ j" by linarith+
    with True yj show ?thesis by blast
  next
    case False
    then have need: "need \<le> k'" using 3 k by simp
    have dvd: "(2 :: nat) ^ need dvd 2 ^ k'" using need by (rule le_imp_power_dvd)
    have "x + 2 ^ need \<le> i + 2 ^ k' \<or> i + 2 ^ k' \<le> x"
    proof (rule ccontr)
      assume "\<not> ?thesis"
      then have lt: "x - i < 2 ^ k'" "2 ^ k' < (x - i) + 2 ^ need" using 3 by linarith+
      obtain a c where "x - i = 2 ^ need * a" "(2 :: nat) ^ k' = 2 ^ need * c"
        using 3(8) dvd unfolding dvd_def by blast
      with lt have "a < c" "2 ^ need * c < 2 ^ need * Suc a" by auto
      moreover have "2 ^ need * Suc a \<le> 2 ^ need * c" using \<open>a < c\<close> by (intro mult_le_mono2) simp
      ultimately show False by linarith
    qed
    then show ?thesis
    proof
      assume "x + 2 ^ need \<le> i + 2 ^ k'"
      with 3(1) 3(5,6,8) wf need k show ?thesis by fastforce
    next
      assume ge: "i + 2 ^ k' \<le> x"
      have "2 ^ need dvd (x - i) - 2 ^ k'" using 3(8) dvd by (rule dvd_diff_nat)
      then have "2 ^ need dvd x - (i + 2 ^ k')" by (simp only: diff_diff_eq)
      with 3(2) 3(5,7) wf need k ge show ?thesis by fastforce
    qed
  qed
qed auto

text \<open>Release removes one block; two free halves become one free block.\<close>

lemma bmax_bjoin: "wfb k l \<Longrightarrow> wfb k r \<Longrightarrow> bmax (Suc k) (bjoin l r) =
   (if bmax k l = int k \<and> bmax k r = int k then int (Suc k) else max (bmax k l) (bmax k r))"
  using bmax_full[of k l] bmax_full[of k r] by (auto simp: bjoin_def)

lemma wfb_bjoin: "wfb k l \<Longrightarrow> wfb k r \<Longrightarrow> wfb (Suc k) (bjoin l r)"
  by (auto simp: bjoin_def)

lemma wfb_bfree: "wfb k b \<Longrightarrow> wfb k (bfree j k i b)"
proof (induction j k i b rule: bfree.induct)
  case (1 j k i l r)
  then show ?case using wfb_bjoin[of "k - 1"] by auto
qed auto

lemma ublocks_bjoin: "ublocks (Suc k) i (bjoin l r) = ublocks k i l \<union> ublocks k (i + 2 ^ k) r"
  by (auto simp: bjoin_def)

lemma ublocks_bfree:
  "wfb k b \<Longrightarrow> (i + x, j) \<in> ublocks k i b \<Longrightarrow>
   ublocks k i (bfree j k x b) = ublocks k i b - {(i + x, j)}"
proof (induction j k x b arbitrary: i rule: bfree.induct)
  case (1 j k x l r)
  then obtain k' where k: "k = Suc k'" by (cases k) auto
  have wf: "wfb k' l" "wfb k' r" using 1 k by auto
  have out: "(i + x, j) \<notin> ublocks k' i l" if "\<not> x < 2 ^ k'"
    using ublocks_range[OF _ wf(1), of "i + x" j i] that by (auto simp: not_less)
      (metis add_le_cancel_left le_add1 less_add_same_cancel1 not_less order_trans zero_less_numeral zero_less_power)
  have out2: "(i + x, j) \<notin> ublocks k' (i + 2 ^ k') r" if "x < 2 ^ k'"
    using ublocks_range[OF _ wf(2), of "i + x" j "i + 2 ^ k'"] that by auto
  show ?case
  proof (cases "x < 2 ^ k'")
    case True
    then have "(i + x, j) \<in> ublocks k' i l" using 1 k out2 by auto
    then have "ublocks k' i (bfree j k' x l) = ublocks k' i l - {(i + x, j)}"
      using 1(1)[of i] True wf k by simp
    then show ?thesis using True k out2 by (auto simp: ublocks_bjoin)
  next
    case False
    then have "(i + 2 ^ k' + (x - 2 ^ k'), j) \<in> ublocks k' (i + 2 ^ k') r" using 1 k out by auto
    then have "ublocks k' (i + 2 ^ k') (bfree j k' (x - 2 ^ k') r) =
        ublocks k' (i + 2 ^ k') r - {(i + x, j)}"
      using 1(2)[of "i + 2 ^ k'"] False wf k by simp
    then show ?thesis using False k out by (auto simp: ublocks_bjoin)
  qed
qed auto

text \<open>The walk after a release, at one node.\<close>

lemma join_frame:
  assumes "rep t2 (n * 2) k l" "rep t2 (Suc (n * 2)) k r" "wfb k l" "wfb k r"
    and "n < length t2" "1 \<le> n" "k < 127"
    and c: "c = n * 2 \<or> c = Suc (n * 2)" and "\<forall>i. \<not> insub i c \<longrightarrow> t2 ! i = t ! i"
  shows "\<exists>t3. buddy_join t2 c k = buddy_join t3 n (Suc k) \<and> rep t3 n (Suc k) (bjoin l r) \<and>
    length t3 = length t2 \<and> (\<forall>i. \<not> insub i n \<longrightarrow> t3 ! i = t ! i)"
proof (intro exI conjI)
  let ?t = "t2[n := bmax (Suc k) (bjoin l r)]"
  have "t2 ! (n * 2) = bmax k l" "t2 ! Suc (n * 2) = bmax k r" using assms(1,2) rep_root by auto
  then show "buddy_join t2 c k = buddy_join ?t n (Suc k)"
    using c assms(6,7) by (subst buddy_join.simps) (auto simp: Let_def bmax_bjoin[OF assms(3,4)] max_def)
  have fr: "rep ?t m k b" if "rep t2 m k b" "\<not> insub n m" for m b
  proof (rule rep_frame[OF that(1)])
    fix i assume "insub i m"
    with that(2) have "i \<noteq> n" by blast
    then show "?t ! i = t2 ! i" by simp
  qed
  show "rep ?t n (Suc k) (bjoin l r)"
    using fr[OF assms(1)] fr[OF assms(2)] not_insub_child assms(5,6) by (auto simp: bjoin_def)
  show "length ?t = length t2" by simp
  show "\<forall>i. \<not> insub i n \<longrightarrow> ?t ! i = t ! i"
  proof (intro allI impI)
    fix i assume i: "\<not> insub i n"
    then have "i \<noteq> n" "\<not> insub i c" using c insub_child insub_refl by blast+
    then show "?t ! i = t ! i" using assms(9) by simp
  qed
qed

definition free_at :: "nat \<Rightarrow> nat \<Rightarrow> blk \<Rightarrow> int list \<Rightarrow> nat \<Rightarrow> nat \<Rightarrow> bool" where
  "free_at j k b t n x \<longleftrightarrow> (let m = n * 2 ^ (k - j) + x div 2 ^ j in t ! m = -1 \<and>
     (\<exists>t2. buddy_join (t[m := int8_of (int j)]) m j = buddy_join t2 n k \<and>
       rep t2 n k (bfree j k x b) \<and> length t2 = length t \<and> (\<forall>i. \<not> insub i n \<longrightarrow> t2 ! i = t ! i)))"

lemma free_at_left:
  assumes "free_at j k l t (n * 2) x" "rep t (Suc (n * 2)) k r" "wfb k l" "wfb k r" "1 \<le> n"
    and "n < length t" "k < 127" "j \<le> k" "x < 2 ^ k"
  shows "free_at j (Suc k) (Split l r) t n x"
proof -
  define m where "m = n * 2 * 2 ^ (k - j) + x div 2 ^ j"
  have m: "n * 2 ^ (Suc k - j) + x div 2 ^ j = m" using assms(8) by (simp add: m_def Suc_diff_le)
  obtain t2 where t2: "buddy_join (t[m := int8_of (int j)]) m j = buddy_join t2 (n * 2) k"
    "rep t2 (n * 2) k (bfree j k x l)" "length t2 = length t"
    "\<forall>i. \<not> insub i (n * 2) \<longrightarrow> t2 ! i = t ! i" and tm: "t ! m = -1"
    using assms(1) by (auto simp: free_at_def Let_def m_def)
  have r2: "rep t2 (Suc (n * 2)) k r"
    using assms(2) by (rule rep_frame) (use t2(4) insub_siblings assms(5) in blast)
  from join_frame[OF t2(2) r2 wfb_bfree[OF assms(3)] assms(4) _ assms(5,7) disjI1[OF refl] t2(4)]
    t2 tm assms(6,9) show ?thesis by (auto simp: free_at_def Let_def m)
qed

lemma free_at_right:
  assumes "free_at j k r t (Suc (n * 2)) (x - 2 ^ k)" "rep t (n * 2) k l" "wfb k l" "wfb k r" "1 \<le> n"
    and "n < length t" "k < 127" "j \<le> k" "2 ^ k \<le> x"
  shows "free_at j (Suc k) (Split l r) t n x"
proof -
  define m where "m = Suc (n * 2) * 2 ^ (k - j) + (x - 2 ^ k) div 2 ^ j"
  have "x = (x - 2 ^ k) + 2 ^ (k - j) * 2 ^ j" using assms(8,9) by (simp flip: power_add)
  then have "x div 2 ^ j = 2 ^ (k - j) + (x - 2 ^ k) div 2 ^ j"
    by (metis add.commute div_mult_self3 power_not_zero zero_neq_numeral)
  then have m: "n * 2 ^ (Suc k - j) + x div 2 ^ j = m" using assms(8) by (simp add: m_def Suc_diff_le)
  obtain t2 where t2: "buddy_join (t[m := int8_of (int j)]) m j = buddy_join t2 (Suc (n * 2)) k"
    "rep t2 (Suc (n * 2)) k (bfree j k (x - 2 ^ k) r)" "length t2 = length t"
    "\<forall>i. \<not> insub i (Suc (n * 2)) \<longrightarrow> t2 ! i = t ! i" and tm: "t ! m = -1"
    using assms(1) by (auto simp: free_at_def Let_def m_def)
  have l2: "rep t2 (n * 2) k l"
    using assms(2) by (rule rep_frame) (use t2(4) insub_siblings assms(5) in blast)
  from join_frame[OF l2 t2(2) assms(3) wfb_bfree[OF assms(4)] _ assms(5,7) disjI2[OF refl] t2(4)]
    t2 tm assms(6,9) show ?thesis by (auto simp: free_at_def Let_def m)
qed

lemma free_at:
  assumes "(i + x, j) \<in> ublocks k i b" "wfb k b" "rep t n k b" "1 \<le> n" "Suc n * 2 ^ k \<le> length t"
    and "k < 128"
  shows "free_at j k b t n x"
  using assms
proof (induction k arbitrary: b n i x)
  case 0
  then have b: "b = Used" "x = 0" "j = 0" by (cases b; auto)+
  have "t[n := 0] ! m = t ! m" if "\<not> insub m n" for m using that by (cases "m = n") auto
  then show ?case using 0 b by (auto simp: free_at_def intro!: exI[of _ "t[n := 0]"])
next
  case (Suc k)
  note room = node_room[OF Suc.prems(5)]
  show ?case
  proof (cases b)
    case Free
    with Suc.prems(1) show ?thesis by simp
  next
    case Used
    then have b: "x = 0" "j = Suc k" using Suc.prems(1) by auto
    have "t[n := int (Suc k)] ! m = t ! m" if "\<not> insub m n" for m using that by (cases "m = n") auto
    then show ?thesis using Suc.prems b Used room(1)
      by (auto simp: free_at_def intro!: exI[of _ "t[n := int (Suc k)]"])
  next
    case (Split l r)
    have wf: "wfb k l" "wfb k r" and rl: "rep t (n * 2) k l" and rr: "rep t (Suc (n * 2)) k r"
      and k: "k < 127" "k < 128" using Suc.prems Split by auto
    consider "(i + x, j) \<in> ublocks k i l" | "(i + x, j) \<in> ublocks k (i + 2 ^ k) r"
      using Suc.prems(1) Split by auto
    then show ?thesis
    proof cases
      case 1
      note rng = ublocks_range[OF 1 wf(1)]
      have "0 < (2 :: nat) ^ j" by simp
      then have "x < 2 ^ k" using rng by linarith
      moreover have "free_at j k l t (n * 2) x"
        using Suc.IH[OF 1 wf(1) rl _ room(3) k(2)] Suc.prems(4) by simp
      ultimately show ?thesis
        using free_at_left[OF _ rr wf Suc.prems(4) room(1) k(1)] rng Split by simp
    next
      case 2
      note rng = ublocks_range[OF 2 wf(2)]
      then have x: "2 ^ k \<le> x" by simp
      with 2 have "(i + 2 ^ k + (x - 2 ^ k), j) \<in> ublocks k (i + 2 ^ k) r" by simp
      from Suc.IH[OF this wf(2) rr _ room(4) k(2)]
      show ?thesis using free_at_right[OF _ rl wf Suc.prems(4) room(1) k(1)] rng x Split by simp
    qed
  qed
qed

subsection \<open>The allocator\<close>

text \<open>The bit trick \<open>x & (x - 1)\<close> of \<open>ax_buddy_init\<close> and \<open>ax_buddy_free\<close>.\<close>

lemma pow2_and: "(2 :: nat) ^ k AND (2 ^ k - 1) = 0"
proof -
  have "(2 :: nat) ^ k AND mask k = 0" by (simp flip: take_bit_eq_mask)
  then show ?thesis by (simp add: mask_eq_exp_minus_1)
qed

lemma and_pow2: "x AND (x - 1) = 0 \<Longrightarrow> 0 < x \<Longrightarrow> \<exists>k. x = 2 ^ k" for x :: nat
proof (induction x rule: less_induct)
  case (less x)
  show ?case
  proof (cases "even x")
    case True
    then obtain y where x: "x = 2 * y" by (elim evenE)
    then have y: "0 < y" "y < x" and "(x - 1) div 2 = y - 1" using less.prems by auto
    have "x AND (x - 1) = of_bool (odd x \<and> odd (x - 1)) + 2 * ((x div 2) AND ((x - 1) div 2))"
      by (rule and_rec)
    then have "y AND (y - 1) = 0" using less.prems(1) x \<open>(x - 1) div 2 = y - 1\<close> by simp
    with less.IH y obtain k where "y = 2 ^ k" by blast
    then show ?thesis using x by (intro exI[of _ "Suc k"]) simp
  next
    case False
    then obtain y where x: "x = 2 * y + 1" by (elim oddE)
    have "x AND (x - 1) = of_bool (odd x \<and> odd (x - 1)) + 2 * ((x div 2) AND ((x - 1) div 2))"
      by (rule and_rec)
    then have "y = 0" using less.prems(1) x by simp
    then show ?thesis using x by (intro exI[of _ 0]) simp
  qed
qed

lemma buddy_log_pow2: "buddy_log (2 ^ k) = k"
proof (induction k)
  case 0
  then show ?case by (simp add: buddy_log.simps)
next
  case (Suc k)
  have "1 < (2 :: nat) ^ Suc k" by (rule one_less_power) simp_all
  with Suc show ?case by (subst buddy_log.simps) simp
qed

lemma buddy_fit_spec:
  "0 < sz \<Longrightarrow> \<exists>j. buddy_fit bytes sz need = Some (sz * 2 ^ j, need + j) \<and> bytes \<le> sz * 2 ^ j \<and>
     (0 < j \<longrightarrow> sz * 2 ^ (j - 1) < bytes)"
proof (induction "bytes - sz" arbitrary: sz need rule: less_induct)
  case less
  show ?case
  proof (cases "sz < bytes")
    case True
    with less.prems have "bytes - 2 * sz < bytes - sz" by simp
    from less.hyps[OF this, of "Suc need"] less.prems obtain j where
      j: "buddy_fit bytes (2 * sz) (Suc need) = Some (2 * sz * 2 ^ j, Suc need + j)"
      "bytes \<le> 2 * sz * 2 ^ j" "0 < j \<longrightarrow> 2 * sz * 2 ^ (j - 1) < bytes" by auto
    have "sz * 2 ^ j < bytes" using j(3) True by (cases j) auto
    then show ?thesis using j True
      by (intro exI[of _ "Suc j"]) (simp add: buddy_fit.simps[of bytes sz] algebra_simps)
  next
    case False
    then show ?thesis by (intro exI[of _ 0]) (simp add: buddy_fit.simps)
  qed
qed

definition buddy_rep :: "ax_buddy \<Rightarrow> blk \<Rightarrow> bool" where
  "buddy_rep b bt \<longleftrightarrow> (\<exists>p. minimum b = 2 ^ p) \<and> 0 < minimum b \<and> capacity b = minimum b * 2 ^ border b \<and> border b < 64 \<and>
     length (btree b) = 2 * 2 ^ border b \<and> wfb (border b) bt \<and> rep (btree b) 1 (border b) bt"

definition scale :: "nat \<Rightarrow> nat \<times> nat \<Rightarrow> nat \<times> nat" where
  "scale mn = (\<lambda>(i, j). (mn * i, mn * 2 ^ j))"

text \<open>\<open>buddy_inv b B\<close>: the structure \<open>b\<close> is sound, and \<open>B\<close> are the blocks (offset, size) in use.\<close>

definition buddy_inv :: "ax_buddy \<Rightarrow> (nat \<times> nat) set \<Rightarrow> bool" where
  "buddy_inv b B \<longleftrightarrow> (\<exists>bt. buddy_rep b bt \<and> B = scale (minimum b) ` ublocks (border b) 0 bt)"

definition apart :: "nat \<times> nat \<Rightarrow> nat \<times> nat \<Rightarrow> bool" where
  "apart x y \<longleftrightarrow> fst x + snd x \<le> fst y \<or> fst y + snd y \<le> fst x"

lemma scale_apart:
  "0 < mn \<Longrightarrow> apart (scale mn (x, j)) (scale mn (y, m)) \<longleftrightarrow> x + 2 ^ j \<le> y \<or> y + 2 ^ m \<le> x"
  by (simp add: apart_def scale_def flip: add_mult_distrib2)

lemma buddy_inv_blocks:
  assumes "buddy_inv b B" "(x, s) \<in> B"
  obtains i j where "x = minimum b * i" "s = minimum b * 2 ^ j" "j \<le> border b"
    "i + 2 ^ j \<le> 2 ^ border b" "2 ^ j dvd i" "0 < minimum b"
proof -
  from assms obtain bt i j where "buddy_rep b bt" "(i, j) \<in> ublocks (border b) 0 bt"
    "x = minimum b * i" "s = minimum b * 2 ^ j" by (auto simp: buddy_inv_def scale_def)
  moreover from this have "i + 2 ^ j \<le> 2 ^ border b" "j \<le> border b" "2 ^ j dvd i"
    using ublocks_range[of i j "border b" 0 bt] by (auto simp: buddy_rep_def)
  ultimately show ?thesis using that by (auto simp: buddy_rep_def)
qed

lemma buddy_inv_apart:
  assumes "buddy_inv b B" "u \<in> B" "v \<in> B" "u \<noteq> v"
  shows "apart u v"
proof -
  from assms obtain bt where bt: "buddy_rep b bt" "B = scale (minimum b) ` ublocks (border b) 0 bt"
    by (auto simp: buddy_inv_def)
  with assms obtain i j k m where ub: "(i, j) \<in> ublocks (border b) 0 bt" "(k, m) \<in> ublocks (border b) 0 bt"
    "u = scale (minimum b) (i, j)" "v = scale (minimum b) (k, m)" by auto
  then have "(i, j) \<noteq> (k, m)" using assms(4) by auto
  with ublocks_disjoint[OF ub(1,2)] bt(1) show ?thesis
    unfolding ub(3,4) by (subst scale_apart) (auto simp: buddy_rep_def)
qed

lemma buddy_inv_fits:
  assumes "buddy_inv b B" "(x, s) \<in> B"
  shows "x + s \<le> capacity b" "x mod s = 0"
proof -
  obtain i j where ij: "x = minimum b * i" "s = minimum b * 2 ^ j"
    "i + 2 ^ j \<le> 2 ^ border b" "2 ^ j dvd i" using buddy_inv_blocks[OF assms] by metis
  have "x + s = minimum b * (i + 2 ^ j)" using ij by (simp add: algebra_simps)
  also have "\<dots> \<le> minimum b * 2 ^ border b" using ij(3) by (rule mult_le_mono2)
  also have "\<dots> = capacity b" using assms by (auto simp: buddy_inv_def buddy_rep_def)
  finally show "x + s \<le> capacity b" .
  show "x mod s = 0" using ij by (auto simp: mod_mult_mult1 elim!: dvdE)
qed

lemma buddy_inv_init:
  assumes "ax_buddy_init ok cap mn = Some b" "cap \<le> SIZE_MAX"
  shows "buddy_inv b {} \<and> capacity b = cap \<and> minimum b = mn"
proof -
  have mn: "0 < mn" "mn AND (mn - 1) = 0" "mn \<le> cap" "cap AND (cap - 1) = 0"
    using assms by (auto simp: ax_buddy_init_def Let_def split: if_splits)
  then obtain p q where p: "mn = 2 ^ p" and q: "cap = 2 ^ q"
    using and_pow2[of mn] and_pow2[of cap] by auto
  then have pq: "p \<le> q" using mn(3) by simp
  define k where "k = q - p"
  have cap: "cap = mn * 2 ^ k" "cap div mn = 2 ^ k"
    using pq p q by (simp_all add: k_def flip: power_add power_diff)
  have "(2 :: nat) ^ q < 2 ^ 64" using q assms(2) by simp
  then have "q < 64" using power_less_imp_less_exp[of "2 :: nat" q 64] by simp
  then have k: "k < 64" by (simp add: k_def)
  have b: "b = \<lparr>capacity = cap, minimum = mn, border = k,
      btree = (replicate (2 * 2 ^ k) 0)[1 := int8_of (int k)]\<rparr>"
    using assms mn cap by (auto simp: ax_buddy_init_def Let_def buddy_log_pow2 split: if_splits)
  have "1 < 2 * (2 :: nat) ^ k" using one_less_power[of "2 :: nat" "Suc k"] by simp
  then have "buddy_rep b Free" using b mn cap(1) k p by (auto simp: buddy_rep_def)
  then show ?thesis using b by (auto simp: buddy_inv_def intro!: exI[of _ Free])
qed

lemma buddy_min_pow2: "buddy_inv b B \<Longrightarrow> \<exists>p. minimum b = 2 ^ p"
  by (auto simp: buddy_inv_def buddy_rep_def)

lemma buddy_root: "buddy_rep b bt \<Longrightarrow> btree b ! 1 = bmax (border b) bt"
  unfolding buddy_rep_def using rep_root by blast

text \<open>The order an allocation needs, and what the size loop returns for it.\<close>

lemma buddy_need:
  assumes "buddy_inv b B" "0 < bytes" "bytes \<le> capacity b"
  obtains need where "buddy_fit bytes (minimum b) 0 = Some (minimum b * 2 ^ need, need)"
    "need \<le> border b" "bytes \<le> minimum b * 2 ^ need"
    "\<And>j. bytes \<le> minimum b * 2 ^ j \<Longrightarrow> need \<le> j"
proof -
  have mn: "0 < minimum b" and cap: "capacity b = minimum b * 2 ^ border b"
    using assms(1) by (auto simp: buddy_inv_def buddy_rep_def)
  obtain need where n: "buddy_fit bytes (minimum b) 0 = Some (minimum b * 2 ^ need, need)"
    "bytes \<le> minimum b * 2 ^ need" "0 < need \<longrightarrow> minimum b * 2 ^ (need - 1) < bytes"
    using buddy_fit_spec[OF mn, of bytes 0] by auto
  have least: "need \<le> j" if "bytes \<le> minimum b * 2 ^ j" for j
  proof (rule ccontr)
    assume "\<not> need \<le> j"
    then have "j \<le> need - 1" "0 < need" by auto
    then have "minimum b * 2 ^ j \<le> minimum b * 2 ^ (need - 1)"
      by (intro mult_le_mono2 power_increasing) auto
    with n(3) \<open>0 < need\<close> that show False by linarith
  qed
  show ?thesis using that[OF n(1) _ n(2) least] least[of "border b"] assms(3) cap by simp
qed

lemma buddy_alloc_block:
  assumes rep: "buddy_rep b bt" and fit: "buddy_fit bytes (minimum b) 0 = Some (minimum b * 2 ^ need, need)"
    and "need \<le> border b" "int need \<le> bmax (border b) bt" "0 < bytes" "bytes \<le> capacity b"
  shows "\<exists>b'. ax_buddy_alloc b bytes =
      Some (Block (minimum b * snd (balloc need (border b) bt)) (minimum b * 2 ^ need) b') \<and>
    buddy_rep b' (fst (balloc need (border b) bt)) \<and> minimum b' = minimum b \<and>
    capacity b' = capacity b \<and> border b' = border b"
proof -
  obtain t n off where d: "buddy_descend (minimum b) need (border b) (btree b) 1 0 = (t, n, off)"
    using prod_cases3 by blast
  have r: "wfb (border b) bt" "rep (btree b) 1 (border b) bt"
    "Suc 1 * 2 ^ border b \<le> length (btree b)" "border b < 128"
    using rep by (auto simp: buddy_rep_def)
  note dc = descend_climb[OF assms(3,4) r(1,2) order_refl r(3,4) d]
  then obtain t2 where t2: "buddy_climb (t[n := -1]) n = buddy_climb t2 1"
    "rep t2 1 (border b) (fst (balloc need (border b) bt))" "length t2 = length (btree b)"
    by (auto simp: alloc_at_def)
  have "buddy_climb t2 1 = t2" by (simp add: buddy_climb.simps)
  moreover have "wfb (border b) (fst (balloc need (border b) bt))"
    using balloc_spec[OF assms(3,4) r(1)] by (metis prod.collapse)
  ultimately show ?thesis
    using dc d fit t2 rep assms(4-6) buddy_root[OF rep]
    by (auto simp: ax_buddy_alloc_def buddy_rep_def not_less)
qed

lemma buddy_alloc_sound:
  assumes inv: "buddy_inv b B" and alloc: "ax_buddy_alloc b bytes = Some (Block off act b')"
  shows "buddy_inv b' (insert (off, act) B) \<and> bytes \<le> act \<and> (\<forall>u \<in> B. apart (off, act) u) \<and>
    capacity b' = capacity b \<and> minimum b' = minimum b"
proof -
  have bytes: "0 < bytes" "bytes \<le> capacity b"
    using alloc by (auto simp: ax_buddy_alloc_def split: if_splits)
  obtain need where n: "buddy_fit bytes (minimum b) 0 = Some (minimum b * 2 ^ need, need)"
    "need \<le> border b" "bytes \<le> minimum b * 2 ^ need" using buddy_need[OF inv bytes] by metis
  obtain bt where bt: "buddy_rep b bt" "B = scale (minimum b) ` ublocks (border b) 0 bt"
    using inv by (auto simp: buddy_inv_def)
  have mx: "int need \<le> bmax (border b) bt"
    using alloc n bytes buddy_root[OF bt(1)] by (auto simp: ax_buddy_alloc_def split: if_splits)
  have wf: "wfb (border b) bt" "0 < minimum b" using bt by (auto simp: buddy_rep_def)
  obtain c x where c: "balloc need (border b) bt = (c, x)" by fastforce
  note bs = balloc_spec[OF n(2) mx wf(1) c]
  from buddy_alloc_block[OF bt(1) n(1,2) mx bytes] c alloc
  have b': "off = minimum b * x" "act = minimum b * 2 ^ need" "buddy_rep b' c"
    "minimum b' = minimum b" "capacity b' = capacity b" "border b' = border b" by auto
  have "insert (off, act) B = scale (minimum b) ` ublocks (border b) 0 c"
    using bs bt(2) b'(1,2) by (simp add: scale_def)
  then have inv': "buddy_inv b' (insert (off, act) B)" using b' by (auto simp: buddy_inv_def)
  have "apart (off, act) u" if uB: "u \<in> B" for u
  proof (rule buddy_inv_apart[OF inv'])
    obtain i j where u: "u = scale (minimum b) (i, j)" "(i, j) \<in> ublocks (border b) 0 bt"
      using uB bt(2) by auto
    have "(x, need) \<notin> ublocks (border b) 0 bt"
      using balloc_fresh[OF n(2) mx wf(1) c, of 0] by simp
    then show "(off, act) \<noteq> u" using u b'(1,2) wf(2) by (auto simp: scale_def)
  qed (use uB in auto)
  then show ?thesis using inv' b' n(3) by auto
qed

lemma buddy_alloc_returns:
  assumes "buddy_inv b B"
  shows "ax_buddy_alloc b bytes \<noteq> None"
proof (cases "0 < bytes \<and> bytes \<le> capacity b")
  case True
  then obtain need where "buddy_fit bytes (minimum b) 0 = Some (minimum b * 2 ^ need, need)"
    using buddy_need[OF assms] by metis
  then show ?thesis by (auto simp: ax_buddy_alloc_def split: prod.splits)
qed (auto simp: ax_buddy_alloc_def)

lemma buddy_alloc_full:
  assumes inv: "buddy_inv b B" and full: "ax_buddy_alloc b bytes = Some SizeMax"
    and bytes: "0 < bytes" "bytes \<le> capacity b"
    and blk: "s = minimum b * 2 ^ j" "bytes \<le> s" "s dvd off" "off + s \<le> capacity b"
  shows "\<exists>u \<in> B. \<not> apart (off, s) u"
proof -
  obtain need where n: "buddy_fit bytes (minimum b) 0 = Some (minimum b * 2 ^ need, need)"
    "need \<le> border b" "need \<le> j" using buddy_need[OF inv bytes] blk(1,2) by metis
  obtain bt where bt: "buddy_rep b bt" "B = scale (minimum b) ` ublocks (border b) 0 bt"
    using inv by (auto simp: buddy_inv_def)
  then have mn: "0 < minimum b" and wf: "wfb (border b) bt"
    and cap: "capacity b = minimum b * 2 ^ border b" by (auto simp: buddy_rep_def)
  have "bmax (border b) bt < int need"
    using full n(1) bytes buddy_root[OF bt(1)]
    by (auto simp: ax_buddy_alloc_def split: if_splits prod.splits)
  obtain c where c: "off = minimum b * (2 ^ j * c)" using blk(1,3) unfolding dvd_def by (metis mult.assoc)
  then have "minimum b * (2 ^ j * c + 2 ^ j) \<le> minimum b * 2 ^ border b"
    using blk(1,4) cap by (simp add: algebra_simps)
  then have "2 ^ j * c + 2 ^ j \<le> 2 ^ border b" using mn by simp
  moreover have le: "(2 :: nat) ^ need \<le> 2 ^ j" using n(3) by (simp add: power_increasing)
  ultimately have "2 ^ j * c + 2 ^ need \<le> 0 + 2 ^ border b" by linarith
  moreover have "(2 :: nat) ^ need dvd 2 ^ j * c - 0" using n(3) by (simp add: le_imp_power_dvd)
  ultimately obtain y m where y: "(y, m) \<in> ublocks (border b) 0 bt" "y < 2 ^ j * c + 2 ^ need"
    "2 ^ j * c < y + 2 ^ m"
    using no_room[OF wf n(2) \<open>bmax (border b) bt < int need\<close>, of 0 "2 ^ j * c"] by auto
  have "\<not> apart (scale (minimum b) (2 ^ j * c, j)) (scale (minimum b) (y, m))"
    using y(2,3) le by (subst scale_apart[OF mn]) linarith
  then have "\<not> apart (off, s) (scale (minimum b) (y, m))"
    using c blk(1) by (simp add: scale_def)
  with y(1) bt(2) show ?thesis by auto
qed

lemma scale_inj: "0 < mn \<Longrightarrow> inj (scale mn)"
  by (auto simp: inj_def scale_def)

lemma buddy_free_block:
  assumes inv: "buddy_inv b B" and blk: "(off, act) \<in> B"
  shows "\<exists>b'. ax_buddy_free b off act = Inr b' \<and> buddy_inv b' (B - {(off, act)}) \<and>
    capacity b' = capacity b \<and> minimum b' = minimum b"
proof -
  obtain bt where bt: "buddy_rep b bt" "B = scale (minimum b) ` ublocks (border b) 0 bt"
    using inv by (auto simp: buddy_inv_def)
  then have r: "0 < minimum b" "wfb (border b) bt" "rep (btree b) 1 (border b) bt"
    "capacity b = minimum b * 2 ^ border b" "length (btree b) = 2 * 2 ^ border b" "border b < 64"
    by (auto simp: buddy_rep_def)
  obtain i j where ij: "(i, j) \<in> ublocks (border b) 0 bt" "off = minimum b * i" "act = minimum b * 2 ^ j"
    using blk bt(2) by (auto simp: scale_def)
  have rng: "j \<le> border b" "2 ^ j dvd i" using ublocks_range[OF ij(1) r(2)] by auto
  obtain p where p: "minimum b = 2 ^ p" using buddy_min_pow2[OF inv] by blast
  have fits: "off + act \<le> capacity b" "off mod act = 0" using buddy_inv_fits[OF inv blk] by auto
  then have chk: "minimum b \<le> act \<and> act \<le> capacity b \<and> act AND (act - 1) = 0 \<and>
      off mod act = 0 \<and> off \<le> capacity b - act"
    using pow2_and[of "p + j"] ij(3) p by (auto simp: power_add)
  have ord: "buddy_log (act div minimum b) = j" using ij(3) r(1) by (simp add: buddy_log_pow2)
  have "(capacity b + off) div act = (2 ^ border b + i) div 2 ^ j"
    using ij(2,3) r(1,4) by (simp flip: distrib_left)
  also have "(2 :: nat) ^ border b = 2 ^ (border b - j) * 2 ^ j" using rng(1) by (simp flip: power_add)
  finally have node: "(capacity b + off) div act = 1 * 2 ^ (border b - j) + i div 2 ^ j" by simp
  have "free_at j (border b) bt (btree b) 1 i" using free_at[of 0 i] ij(1) r by simp
  then obtain t2 where t2: "btree b ! ((capacity b + off) div act) = -1"
    "buddy_join ((btree b)[(capacity b + off) div act := int8_of (int j)]) ((capacity b + off) div act) j
       = buddy_join t2 1 (border b)"
    "rep t2 1 (border b) (bfree j (border b) i bt)" "length t2 = length (btree b)"
    unfolding free_at_def Let_def node by auto
  have "buddy_join t2 1 (border b) = t2" by (simp add: buddy_join.simps)
  then have fr: "ax_buddy_free b off act = Inr (b\<lparr>btree := t2\<rparr>)"
    using chk t2 by (simp add: ax_buddy_free_def ord Let_def)
  have "buddy_rep (b\<lparr>btree := t2\<rparr>) (bfree j (border b) i bt)"
    using bt(1) t2 wfb_bfree[OF r(2)] by (simp add: buddy_rep_def)
  moreover have "B - {(off, act)} = scale (minimum b) ` ublocks (border b) 0 (bfree j (border b) i bt)"
    using ublocks_bfree[OF r(2), of 0 i j] ij bt(2) image_set_diff[OF scale_inj[OF r(1)]]
    by (simp add: scale_def)
  ultimately have "buddy_inv (b\<lparr>btree := t2\<rparr>) (B - {(off, act)})" by (auto simp: buddy_inv_def)
  with fr show ?thesis by simp
qed

lemma balloc_Free: "need \<le> k \<Longrightarrow> snd (balloc need k Free) = 0"
proof (induction k)
  case (Suc k)
  then show ?case by (cases "need = Suc k") (auto simp: balloc_here balloc.simps[of need "Suc k"] split: prod.splits)
qed (simp add: balloc_here)

lemma buddy_empty_Free:
  assumes "buddy_inv b {}"
  shows "buddy_rep b Free"
proof -
  obtain bt where bt: "buddy_rep b bt" "{} = scale (minimum b) ` ublocks (border b) 0 bt"
    using assms by (auto simp: buddy_inv_def)
  then have "bt = Free" using ublocks_nonempty[of "border b" bt 0] by (auto simp: buddy_rep_def)
  with bt show ?thesis by simp
qed

lemma buddy_empty_alloc:
  assumes "buddy_inv b {}" "0 < bytes" "bytes \<le> capacity b"
  shows "\<exists>act b'. ax_buddy_alloc b bytes = Some (Block 0 act b')"
proof -
  note Free = buddy_empty_Free[OF assms(1)]
  obtain need where n: "buddy_fit bytes (minimum b) 0 = Some (minimum b * 2 ^ need, need)"
    "need \<le> border b" using buddy_need[OF assms] by metis
  from buddy_alloc_block[OF Free n _ assms(2,3)] n(2) balloc_Free[OF n(2)] show ?thesis by auto
qed

text \<open>
  The array does not tell two used buddies from one used block of twice their size: both have no free block
  below them.
\<close>

lemma ublocks_whole: "wfb k b \<Longrightarrow> (x, k) \<in> ublocks k i b \<Longrightarrow> b = Used"
proof (cases b)
  case (Split l r)
  assume wf: "wfb k b" and x: "(x, k) \<in> ublocks k i b"
  then obtain k' where "k = Suc k'" "wfb k' l" "wfb k' r" using Split by (cases k) auto
  with x Split ublocks_range[of x k k' i l] ublocks_range[of x k k' "i + 2 ^ k'" r] show ?thesis by auto
qed auto

lemma merge_buddies:
  assumes "wfb k b" "rep t n k b" "(i + x, j) \<in> ublocks k i b" "(i + x + 2 ^ j, j) \<in> ublocks k i b" "2 ^ Suc j dvd x"
  shows "\<exists>b'. wfb k b' \<and> rep t n k b' \<and>
    ublocks k i b' = insert (i + x, Suc j) (ublocks k i b - {(i + x, j), (i + x + 2 ^ j, j)})"
  using assms
proof (induction k arbitrary: b n i x)
  case 0
  then have "b = Used" by (cases b) auto
  then show ?case using 0 by simp
next
  case (Suc k)
  show ?case
  proof (cases b)
    case (Split l r)
    have wf: "wfb k l" "wfb k r" "\<not> (l = Free \<and> r = Free)" and rl: "rep t (n * 2) k l" and rr: "rep t (Suc (n * 2)) k r"
      and tn: "t ! n = max (bmax k l) (bmax k r)" using Suc.prems Split by auto
    let ?L = "ublocks k i l" and ?R = "ublocks k (i + 2 ^ k) r"
    have L: "y + 2 ^ m \<le> i + 2 ^ k" if "(y, m) \<in> ?L" for y m using ublocks_range[OF that wf(1)] by simp
    have R: "i + 2 ^ k \<le> y" if "(y, m) \<in> ?R" for y m using ublocks_range[OF that wf(2)] by simp
    have pos: "0 < (2 :: nat) ^ m" for m by simp
    have LR: "(y, m) \<notin> ?R" if "(y, m) \<in> ?L" for y m using L[OF that] R[of y m] pos[of m] by linarith
    have eq: "ublocks (Suc k) i b = ?L \<union> ?R" using Split by simp
    consider (left) "(i + x, j) \<in> ?L" "(i + x + 2 ^ j, j) \<in> ?L" | (right) "(i + x, j) \<in> ?R" "(i + x + 2 ^ j, j) \<in> ?R"
      | (both) "(i + x, j) \<in> ?L" "(i + x + 2 ^ j, j) \<in> ?R" | (swap) "(i + x, j) \<in> ?R" "(i + x + 2 ^ j, j) \<in> ?L"
      using Suc.prems(3,4) eq by blast
    then show ?thesis
    proof cases
      case left
      obtain l' where l': "wfb k l'" "rep t (n * 2) k l'"
        "ublocks k i l' = insert (i + x, Suc j) (?L - {(i + x, j), (i + x + 2 ^ j, j)})"
        using Suc.IH[OF wf(1) rl left Suc.prems(5)] by blast
      have "l' \<noteq> Free" using l'(3) by auto
      moreover have "bmax k l' = bmax k l" using rep_root[OF rl] rep_root[OF l'(2)] by simp
      ultimately show ?thesis using l' wf rr tn left LR
        by (intro exI[of _ "Split l' r"]) (auto simp: eq)
    next
      case right
      have x: "2 ^ k \<le> x" using R[OF right(1)] by simp
      have "Suc j \<le> k"
        using ublocks_range[OF right(1) wf(2)] ublocks_range[OF right(2) wf(2)] x by (cases "j = k") auto
      then have "2 ^ Suc j dvd x - 2 ^ k" using Suc.prems(5) by (intro dvd_diff_nat le_imp_power_dvd)
      moreover have "(i + 2 ^ k + (x - 2 ^ k), j) \<in> ?R" "(i + 2 ^ k + (x - 2 ^ k) + 2 ^ j, j) \<in> ?R" using right x by simp_all
      ultimately obtain r' where r': "wfb k r'" "rep t (Suc (n * 2)) k r'"
        "ublocks k (i + 2 ^ k) r' = insert (i + x, Suc j) (?R - {(i + x, j), (i + x + 2 ^ j, j)})"
        using Suc.IH[OF wf(2) rr, of "i + 2 ^ k" "x - 2 ^ k"] x by auto
      have "r' \<noteq> Free" using r'(3) by auto
      moreover have "bmax k r' = bmax k r" using rep_root[OF rr] rep_root[OF r'(2)] by simp
      ultimately show ?thesis using r' wf rl tn right LR
        by (intro exI[of _ "Split l r'"]) (auto simp: eq)
    next
      case both
      have x: "x + 2 ^ j = 2 ^ k" using L[OF both(1)] R[OF both(2)] by linarith
      have "j \<le> k" using ublocks_range[OF both(1) wf(1)] by simp
      have "x = 0"
      proof (rule ccontr)
        assume "x \<noteq> 0"
        then have "j < k" using x \<open>j \<le> k\<close> by (cases "j = k") auto
        then have "(2 :: nat) ^ Suc j dvd 2 ^ k" by (intro le_imp_power_dvd) simp
        then have "2 ^ Suc j dvd x + 2 ^ j" using x by simp
        then have "(2 :: nat) ^ Suc j dvd 2 ^ j" using Suc.prems(5) by (simp add: dvd_add_right_iff)
        then show False by (simp add: nat_dvd_not_less)
      qed
      then have "j = k" using x by simp
      then have "l = Used" "r = Used" using ublocks_whole[OF wf(1)] ublocks_whole[OF wf(2)] both by blast+
      then show ?thesis using \<open>x = 0\<close> \<open>j = k\<close> tn eq by (intro exI[of _ Used]) auto
    next
      case swap
      then show ?thesis using L[OF swap(2)] R[OF swap(1)] pos[of j] by linarith
    qed
  qed (use Suc.prems in auto)
qed

lemma buddy_inv_merge:
  assumes inv: "buddy_inv b B" and blks: "(off, act) \<in> B" "(off + act, act) \<in> B" "off mod (2 * act) = 0"
  shows "buddy_inv b (insert (off, 2 * act) (B - {(off, act), (off + act, act)}))" "0 < act"
proof -
  obtain bt where bt: "buddy_rep b bt" "B = scale (minimum b) ` ublocks (border b) 0 bt"
    using inv by (auto simp: buddy_inv_def)
  then have mn: "0 < minimum b" and wf: "wfb (border b) bt" and rp: "rep (btree b) 1 (border b) bt"
    by (auto simp: buddy_rep_def)
  obtain i j where ij: "(i, j) \<in> ublocks (border b) 0 bt" "off = minimum b * i" "act = minimum b * 2 ^ j"
    using blks(1) bt(2) by (auto simp: scale_def)
  then show "0 < act" using mn by simp
  have sc: "scale (minimum b) (i, j) = (off, act)" "scale (minimum b) (i + 2 ^ j, j) = (off + act, act)"
    "scale (minimum b) (i, Suc j) = (off, 2 * act)" using ij by (simp_all add: scale_def algebra_simps)
  have "(i + 2 ^ j, j) \<in> ublocks (border b) 0 bt"
    using blks(2) bt(2) injD[OF scale_inj[OF mn]] by (metis (no_types) imageE sc(2))
  moreover have "2 * act dvd off" using blks(3) by (simp add: mod_0_imp_dvd)
  then have "minimum b * 2 ^ Suc j dvd minimum b * i" using ij by (simp add: algebra_simps)
  then have "2 ^ Suc j dvd i" using mn by simp
  ultimately obtain bt' where bt': "wfb (border b) bt'" "rep (btree b) 1 (border b) bt'"
    "ublocks (border b) 0 bt' = insert (i, Suc j) (ublocks (border b) 0 bt - {(i, j), (i + 2 ^ j, j)})"
    using merge_buddies[OF wf rp, of 0 i j] ij(1) by auto
  have "buddy_rep b bt'" using bt(1) bt'(1,2) by (simp add: buddy_rep_def)
  moreover have "insert (off, 2 * act) (B - {(off, act), (off + act, act)}) =
      scale (minimum b) ` ublocks (border b) 0 bt'"
    unfolding bt'(3) bt(2) by (simp add: image_set_diff[OF scale_inj[OF mn]] sc)
  ultimately show "buddy_inv b (insert (off, 2 * act) (B - {(off, act), (off + act, act)}))"
    unfolding buddy_inv_def by blast
qed

subsection \<open>The interface the shared heap relies on\<close>

text \<open>
  A range allocator relates its state to the set of blocks it has handed out. Whatever a client
  does with it, releasing only blocks it holds, the blocks it holds never overlap.
\<close>

datatype alloc_op = Get nat | Put nat

fun alloc_run ::
  "('s \<Rightarrow> nat \<Rightarrow> (nat \<times> nat \<times> 's) option) \<Rightarrow> ('s \<Rightarrow> nat \<Rightarrow> nat \<Rightarrow> 's option) \<Rightarrow>
   alloc_op list \<Rightarrow> 's \<Rightarrow> (nat \<times> nat) list \<Rightarrow> ('s \<times> (nat \<times> nat) list) option" where
  "alloc_run alloc free [] s held = Some (s, held)"
| "alloc_run alloc free (Get n # ops) s held =
     (case alloc s n of None \<Rightarrow> alloc_run alloc free ops s held
      | Some (off, act, s') \<Rightarrow> alloc_run alloc free ops s' ((off, act) # held))"
| "alloc_run alloc free (Put i # ops) s held =
     (if i < length held then
        (case free s (fst (held ! i)) (snd (held ! i)) of None \<Rightarrow> None
         | Some s' \<Rightarrow> alloc_run alloc free ops s' (take i held @ drop (Suc i) held))
      else alloc_run alloc free ops s held)"

lemma distinct_remove_nth:
  assumes "distinct xs" "i < length xs"
  shows "set (take i xs @ drop (Suc i) xs) = set xs - {xs ! i}"
    and "distinct (take i xs @ drop (Suc i) xs)"
proof -
  have eq: "take i xs @ xs ! i # drop (Suc i) xs = xs" using assms(2) by (rule id_take_nth_drop[symmetric])
  have d: "distinct (take i xs @ xs ! i # drop (Suc i) xs)" using assms(1) by (simp only: eq)
  have "set xs = set (take i xs @ xs ! i # drop (Suc i) xs)" by (simp only: eq)
  with d show "set (take i xs @ drop (Suc i) xs) = set xs - {xs ! i}" by auto
  from d show "distinct (take i xs @ drop (Suc i) xs)" by simp
qed

locale range_allocator =
  fixes inv :: "'s \<Rightarrow> (nat \<times> nat) set \<Rightarrow> bool"
    and cap :: "'s \<Rightarrow> nat"
    and alloc :: "'s \<Rightarrow> nat \<Rightarrow> (nat \<times> nat \<times> 's) option"
    and free :: "'s \<Rightarrow> nat \<Rightarrow> nat \<Rightarrow> 's option"
  assumes alloc_ok: "inv s B \<Longrightarrow> alloc s n = Some (off, act, s') \<Longrightarrow>
      inv s' (insert (off, act) B) \<and> (off, act) \<notin> B \<and> cap s' = cap s"
    and free_ok: "inv s B \<Longrightarrow> (off, act) \<in> B \<Longrightarrow>
      \<exists>s'. free s off act = Some s' \<and> inv s' (B - {(off, act)}) \<and> cap s' = cap s"
    and blocks_apart: "inv s B \<Longrightarrow> u \<in> B \<Longrightarrow> v \<in> B \<Longrightarrow> u \<noteq> v \<Longrightarrow> apart u v"
    and blocks_fit: "inv s B \<Longrightarrow> (off, act) \<in> B \<Longrightarrow> off + act \<le> cap s"
begin

lemma run_ok:
  "inv s (set held) \<Longrightarrow> distinct held \<Longrightarrow>
   \<exists>s' held'. alloc_run alloc free ops s held = Some (s', held') \<and> inv s' (set held') \<and>
     distinct held' \<and> cap s' = cap s"
proof (induction ops arbitrary: s held)
  case Nil
  then show ?case by auto
next
  case (Cons oper ops)
  show ?case
  proof (cases oper)
    case (Get n)
    show ?thesis
    proof (cases "alloc s n")
      case None
      then show ?thesis using Cons Get by simp
    next
      case (Some r)
      obtain off act s1 where r: "r = (off, act, s1)" by (cases r)
      with Some Cons.prems have "inv s1 (set ((off, act) # held))" "distinct ((off, act) # held)"
        "cap s1 = cap s" using alloc_ok[of s "set held" n off act s1] by auto
      then show ?thesis using Cons.IH[of s1 "(off, act) # held"] Get Some r by auto
    qed
  next
    case (Put i)
    show ?thesis
    proof (cases "i < length held")
      case True
      then obtain s1 where s1: "free s (fst (held ! i)) (snd (held ! i)) = Some s1"
        "inv s1 (set held - {held ! i})" "cap s1 = cap s"
        using free_ok[OF Cons.prems(1), of "fst (held ! i)" "snd (held ! i)"] by auto
      note rm = distinct_remove_nth[OF Cons.prems(2) True]
      show ?thesis using Cons.IH[OF _ rm(2), of s1] s1 True Put unfolding rm(1) by auto
    next
      case False
      then show ?thesis using Cons Put by simp
    qed
  qed
qed

lemma run_safe:
  assumes "inv s {}" "alloc_run alloc free ops s [] = r"
  shows "\<exists>s' held. r = Some (s', held) \<and> inv s' (set held) \<and> distinct held \<and>
    (\<forall>u \<in> set held. \<forall>v \<in> set held. u \<noteq> v \<longrightarrow> apart u v) \<and>
    (\<forall>u \<in> set held. fst u + snd u \<le> cap s)"
proof -
  obtain s' held where run: "r = Some (s', held)" "inv s' (set held)" "distinct held" "cap s' = cap s"
    using run_ok[of s "[]" ops] assms by auto
  moreover have "\<forall>u \<in> set held. \<forall>v \<in> set held. u \<noteq> v \<longrightarrow> apart u v"
    using blocks_apart[OF run(2)] by blast
  moreover have "\<forall>u \<in> set held. fst u + snd u \<le> cap s"
    using blocks_fit[OF run(2)] run(4) by force
  ultimately show ?thesis by blast
qed

end

definition buddy_get :: "ax_buddy \<Rightarrow> nat \<Rightarrow> (nat \<times> nat \<times> ax_buddy) option" where
  "buddy_get b n =
     (case ax_buddy_alloc b n of Some (Block off act b') \<Rightarrow> Some (off, act, b') | _ \<Rightarrow> None)"

definition buddy_put :: "ax_buddy \<Rightarrow> nat \<Rightarrow> nat \<Rightarrow> ax_buddy option" where
  "buddy_put b off act = (case ax_buddy_free b off act of Inr b' \<Rightarrow> Some b' | Inl _ \<Rightarrow> None)"

interpretation buddy: range_allocator buddy_inv capacity buddy_get buddy_put
proof unfold_locales
  fix s B n off act s'
  assume inv: "buddy_inv s B" and get: "buddy_get s n = Some (off, act, s')"
  then have "ax_buddy_alloc s n = Some (Block off act s')"
    by (auto simp: buddy_get_def split: option.splits buddy_out.splits)
  note snd = buddy_alloc_sound[OF inv this]
  then have "buddy_inv s' (insert (off, act) B)" by simp
  then obtain j where "act = minimum s' * 2 ^ j" "0 < minimum s'"
    by (rule buddy_inv_blocks) (auto intro: insertI1)
  then have "0 < act" by simp
  then have "(off, act) \<notin> B" using snd by (auto simp: apart_def)
  then show "buddy_inv s' (insert (off, act) B) \<and> (off, act) \<notin> B \<and> capacity s' = capacity s"
    using snd by simp
next
  fix s B off act
  assume "buddy_inv s B" "(off, act) \<in> B"
  then show "\<exists>s'. buddy_put s off act = Some s' \<and> buddy_inv s' (B - {(off, act)}) \<and> capacity s' = capacity s"
    using buddy_free_block[of s B off act] by (auto simp: buddy_put_def)
next
  fix s B u v
  assume "buddy_inv s B" "u \<in> B" "v \<in> B" "u \<noteq> v"
  then show "apart u v" by (rule buddy_inv_apart)
next
  fix s B off act
  assume "buddy_inv s B" "(off, act) \<in> B"
  then show "off + act \<le> capacity s" by (rule buddy_inv_fits)
qed

subsection \<open>A worked example\<close>

definition buddy_ex :: "int list \<Rightarrow> ax_buddy" where
  "buddy_ex t = \<lparr>capacity = 32, minimum = 16, border = 1, btree = t\<rparr>"

lemma buddy_ex_init: "ax_buddy_init True 32 16 = Some (buddy_ex [0, 1, 0, 0])"
proof -
  have "replicate 4 (0 :: int) = [0, 0, 0, 0]" by (simp add: eval_nat_numeral)
  then show ?thesis by (simp add: ax_buddy_init_def buddy_ex_def buddy_log.simps Let_def)
qed

lemma buddy_ex_alloc: "ax_buddy_alloc (buddy_ex [0, 1, 0, 0]) 16 = Some (Block 0 16 (buddy_ex [0, 0, -1, 0]))"
  by (simp add: ax_buddy_alloc_def buddy_ex_def buddy_fit.simps buddy_descend.simps buddy_climb.simps
        Let_def)

lemma buddy_ex_alloc2: "ax_buddy_alloc (buddy_ex [0, 0, -1, 0]) 10 = Some (Block 16 16 (buddy_ex [0, -1, -1, -1]))"
  by (simp add: ax_buddy_alloc_def buddy_ex_def buddy_fit.simps buddy_descend.simps buddy_climb.simps
        Let_def)

lemma buddy_ex_full: "ax_buddy_alloc (buddy_ex [0, -1, -1, -1]) 10 = Some SizeMax"
  by (simp add: ax_buddy_alloc_def buddy_ex_def buddy_fit.simps buddy_descend.simps buddy_climb.simps
        Let_def)

lemma buddy_ex_inv: "buddy_inv (buddy_ex [0, 1, 0, 0]) {}"
  using buddy_inv_init[OF buddy_ex_init] by simp

lemma buddy_ex_inv1: "buddy_inv (buddy_ex [0, 0, -1, 0]) {(0, 16)}"
  using buddy_alloc_sound[OF buddy_ex_inv buddy_ex_alloc] by simp

lemma buddy_ex_inv2: "buddy_inv (buddy_ex [0, -1, -1, -1]) {(16, 16), (0, 16)}"
  using buddy_alloc_sound[OF buddy_ex_inv1 buddy_ex_alloc2] by simp

lemma buddy_ex_run:
  "alloc_run buddy_get buddy_put [Get 16, Get 10, Put 1, Put 0] (buddy_ex [0, 1, 0, 0]) [] = Some (buddy_ex [0, 1, 0, 0], [])"
proof -
  have "ax_buddy_free (buddy_ex [0, -1, -1, -1]) 0 16 = Inr (buddy_ex [0, 0, 0, -1])"
    "ax_buddy_free (buddy_ex [0, 0, 0, -1]) 16 16 = Inr (buddy_ex [0, 1, 0, 0])" by code_simp+
  then show ?thesis by (simp add: buddy_get_def buddy_put_def buddy_ex_alloc buddy_ex_alloc2)
qed

subsection \<open>Properties\<close>

text \<open>
  C11. From a successful \<open>ax_buddy_init\<close>, any sequence of allocations and of releases of blocks
  the client holds runs without a failed assertion, and the blocks held at the end lie within
  the capacity and do not overlap.
\<close>

theorem buddy_run_safe:
  assumes "ax_buddy_init calloc_ok cap mn = Some b" "cap \<le> SIZE_MAX"
  shows "\<exists>b' held. alloc_run buddy_get buddy_put ops b [] = Some (b', held) \<and> distinct held \<and>
    pairwise apart (set held) \<and> (\<forall>(off, act) \<in> set held. off + act \<le> cap)"
proof -
  have "buddy_inv b {}" "capacity b = cap" using buddy_inv_init[OF assms] by auto
  from buddy.run_safe[OF this(1) refl, of ops] this(2) show ?thesis
    by (fastforce simp: pairwise_def)
qed

theorem buddy_run_safe_witness:
  "\<exists>b b' held. ax_buddy_init True 64 16 = Some b \<and>
    alloc_run buddy_get buddy_put [Get 20, Get 5, Put 1, Get 64, Get 30] b [] = Some (b', held) \<and>
    distinct held \<and> pairwise apart (set held) \<and> (\<forall>(off, act) \<in> set held. off + act \<le> 64)"
proof -
  obtain b where b: "ax_buddy_init True 64 16 = Some b" by (simp add: ax_buddy_init_def Let_def)
  from buddy_run_safe[OF this, of "[Get 20, Get 5, Put 1, Get 64, Get 30]"] b show ?thesis by simp
qed

text \<open>
  C12. An allocation always returns. When it returns a block, the block is at least as large as
  asked, aligned to its size, inside the capacity, apart from every block in use, and is the one
  block added to those in use.
\<close>

theorem ax_buddy_alloc_block:
  assumes "buddy_inv b B"
  shows "ax_buddy_alloc b bytes \<noteq> None \<and>
    (\<forall>off act b'. ax_buddy_alloc b bytes = Some (Block off act b') \<longrightarrow>
      bytes \<le> act \<and> off mod act = 0 \<and> off + act \<le> capacity b \<and>
      (\<forall>u \<in> B. apart (off, act) u) \<and> buddy_inv b' (insert (off, act) B))"
proof (intro conjI allI impI)
  show "ax_buddy_alloc b bytes \<noteq> None" using assms by (rule buddy_alloc_returns)
  fix off act b'
  assume "ax_buddy_alloc b bytes = Some (Block off act b')"
  note snd = buddy_alloc_sound[OF assms this]
  then have inv': "buddy_inv b' (insert (off, act) B)" by simp
  show "bytes \<le> act" "\<forall>u \<in> B. apart (off, act) u" "buddy_inv b' (insert (off, act) B)"
    using snd by auto
  show "off mod act = 0" "off + act \<le> capacity b" using buddy_inv_fits[OF inv' insertI1] snd by auto
qed

theorem ax_buddy_alloc_block_witness:
  "buddy_inv (buddy_ex [0, 0, -1, 0]) {(0, 16)} \<and>
   10 \<le> (16 :: nat) \<and> 16 mod 16 = (0 :: nat) \<and> 16 + 16 \<le> capacity (buddy_ex [0, 0, -1, 0]) \<and>
   apart (16, 16) (0, 16) \<and> buddy_inv (buddy_ex [0, -1, -1, -1]) {(16, 16), (0, 16)}"
  using ax_buddy_alloc_block[OF buddy_ex_inv1, of 10] buddy_ex_inv1 buddy_ex_alloc2 by simp

text \<open>
  C13. An allocation of a possible size that reports exhaustion is right: every aligned power-of-two
  block that is large enough overlaps a block in use.
\<close>

theorem ax_buddy_alloc_exhausted:
  assumes "buddy_inv b B" "0 < bytes" "bytes \<le> capacity b" "ax_buddy_alloc b bytes = Some SizeMax"
    and "bytes \<le> minimum b * 2 ^ j" "minimum b * 2 ^ j dvd off" "off + minimum b * 2 ^ j \<le> capacity b"
  shows "\<exists>u \<in> B. \<not> apart (off, minimum b * 2 ^ j) u"
  using buddy_alloc_full[OF assms(1,4,2,3) refl assms(5-7)] .

theorem ax_buddy_alloc_exhausted_witness:
  "buddy_inv (buddy_ex [0, -1, -1, -1]) {(16, 16), (0, 16)} \<and>
   ax_buddy_alloc (buddy_ex [0, -1, -1, -1]) 10 = Some SizeMax \<and>
   (\<exists>u \<in> {(16, 16), (0, 16)}. \<not> apart (0, minimum (buddy_ex [0, -1, -1, -1]) * 2 ^ 1) u)"
  using ax_buddy_alloc_exhausted[OF buddy_ex_inv2, of 10 1 0] buddy_ex_full buddy_ex_inv2
  by (simp add: buddy_ex_def)

text \<open>
  C14. Releasing a block in use succeeds and removes exactly that block.
\<close>

theorem ax_buddy_free_block:
  assumes "buddy_inv b B" "(off, act) \<in> B"
  shows "\<exists>b'. ax_buddy_free b off act = Inr b' \<and> buddy_inv b' (B - {(off, act)}) \<and>
    capacity b' = capacity b"
  using buddy_free_block[OF assms] by blast

theorem ax_buddy_free_block_witness:
  "buddy_inv (buddy_ex [0, -1, -1, -1]) {(16, 16), (0, 16)} \<and>
   (\<exists>b'. ax_buddy_free (buddy_ex [0, -1, -1, -1]) 16 16 = Inr b' \<and>
      buddy_inv b' ({(16, 16), (0, 16)} - {(16, 16)}) \<and> capacity b' = capacity (buddy_ex [0, -1, -1, -1]))"
  using ax_buddy_free_block[OF buddy_ex_inv2, of 16 16] buddy_ex_inv2 by simp

text \<open>
  C15. Free space never stays fragmented: after any sequence of allocations and releases from a successful
  \<open>ax_buddy_init\<close> at whose end the client holds no block, any size up to the capacity can be allocated, at offset 0.
\<close>

theorem ax_buddy_coalesces:
  assumes "ax_buddy_init calloc_ok cap mn = Some b" "cap \<le> SIZE_MAX"
    and "alloc_run buddy_get buddy_put ops b [] = Some (b', [])" "0 < bytes" "bytes \<le> cap"
  shows "\<exists>act b''. ax_buddy_alloc b' bytes = Some (Block 0 act b'')"
proof -
  have "buddy_inv b (set [])" "capacity b = cap" using buddy_inv_init[OF assms(1,2)] by auto
  with buddy.run_ok[of b "[]" ops] assms(3) have "buddy_inv b' {}" "capacity b' = cap" by auto
  then show ?thesis using buddy_empty_alloc assms(4,5) by simp
qed

theorem ax_buddy_coalesces_witness:
  "alloc_run buddy_get buddy_put [Get 16, Get 10, Put 1, Put 0] (buddy_ex [0, 1, 0, 0]) [] = Some (buddy_ex [0, 1, 0, 0], []) \<and>
   (\<exists>act b'. ax_buddy_alloc (buddy_ex [0, 1, 0, 0]) 32 = Some (Block 0 act b'))"
  using ax_buddy_coalesces[OF buddy_ex_init _ buddy_ex_run, of 32] buddy_ex_run by simp

text \<open>
  \<open>ax_buddy_init\<close> succeeds exactly when memory is available and capacity and minimum are
  powers of two in the right order with fewer than \<open>2 ^ 63\<close> leaves; it then holds no block.
\<close>

theorem ax_buddy_init_iff:
  assumes "cap \<le> SIZE_MAX"
  shows "(\<exists>b. ax_buddy_init calloc_ok cap mn = Some b \<and> buddy_inv b {} \<and> capacity b = cap \<and> minimum b = mn)
    \<longleftrightarrow> calloc_ok \<and> (\<exists>p q. mn = 2 ^ p \<and> cap = 2 ^ q \<and> p \<le> q) \<and> cap div mn < 2 ^ 63"
proof
  assume "\<exists>b. ax_buddy_init calloc_ok cap mn = Some b \<and> buddy_inv b {} \<and> capacity b = cap \<and> minimum b = mn"
  then have c: "calloc_ok" "0 < mn" "mn AND (mn - 1) = 0" "mn \<le> cap" "cap AND (cap - 1) = 0"
    "cap div mn < 2 ^ 63" by (auto simp: ax_buddy_init_def Let_def split: if_splits)
  then obtain p q where "mn = 2 ^ p" "cap = 2 ^ q" using and_pow2[of mn] and_pow2[of cap] by auto
  with c show "calloc_ok \<and> (\<exists>p q. mn = 2 ^ p \<and> cap = 2 ^ q \<and> p \<le> q) \<and> cap div mn < 2 ^ 63" by auto
next
  assume "calloc_ok \<and> (\<exists>p q. mn = 2 ^ p \<and> cap = 2 ^ q \<and> p \<le> q) \<and> cap div mn < 2 ^ 63"
  then obtain p q where c: "calloc_ok" "mn = 2 ^ p" "cap = 2 ^ q" "p \<le> q" "cap div mn < 2 ^ 63" by blast
  have "\<exists>b. ax_buddy_init calloc_ok cap mn = Some b"
    using c pow2_and[of p] pow2_and[of q] by (auto simp: ax_buddy_init_def Let_def)
  then show "\<exists>b. ax_buddy_init calloc_ok cap mn = Some b \<and> buddy_inv b {} \<and> capacity b = cap \<and> minimum b = mn"
    using buddy_inv_init assms by blast
qed

theorem ax_buddy_init_iff_witness:
  "(\<exists>b. ax_buddy_init True 32 16 = Some b \<and> buddy_inv b {} \<and> capacity b = 32 \<and> minimum b = 16)
    \<longleftrightarrow> True \<and> (\<exists>p q. (16 :: nat) = 2 ^ p \<and> (32 :: nat) = 2 ^ q \<and> p \<le> q) \<and> 32 div 16 < (2 :: nat) ^ 63"
  by (rule ax_buddy_init_iff) simp

text \<open>
  C16. The assertion of \<open>ax_buddy_free\<close> that names a wrong block size does not see every one: whenever two buddies of
  the same size are both in use, releasing them as if they were one block of twice the size passes, and leaves
  the structure in which neither is in use, so that both can be handed out again while they are held.
\<close>

theorem ax_buddy_free_wrong_size:
  assumes "buddy_inv b B" "(off, act) \<in> B" "(off + act, act) \<in> B" "off mod (2 * act) = 0"
  shows "(off, 2 * act) \<notin> B \<and>
    (\<exists>b'. ax_buddy_free b off (2 * act) = Inr b' \<and> buddy_inv b' (B - {(off, act), (off + act, act)}))"
proof -
  note merged = buddy_inv_merge[OF assms]
  have "(off, 2 * act) \<notin> B" using buddy_inv_apart[OF assms(1) assms(2), of "(off, 2 * act)"] merged(2)
    by (auto simp: apart_def)
  moreover from buddy_free_block[OF merged(1) insertI1] obtain b' where
    b': "ax_buddy_free b off (2 * act) = Inr b'"
    "buddy_inv b' (insert (off, 2 * act) (B - {(off, act), (off + act, act)}) - {(off, 2 * act)})" by blast
  moreover have "insert (off, 2 * act) (B - {(off, act), (off + act, act)}) - {(off, 2 * act)} =
      B - {(off, act), (off + act, act)}" using calculation(1) by auto
  ultimately show ?thesis by auto
qed

theorem ax_buddy_free_wrong_size_witness:
  "buddy_inv (buddy_ex [0, -1, -1, -1]) {(16, 16), (0, 16)} \<and>
   (\<exists>b'. ax_buddy_free (buddy_ex [0, -1, -1, -1]) 0 32 = Inr b' \<and> buddy_inv b' {})"
  using ax_buddy_free_wrong_size[OF buddy_ex_inv2, of 0 16] buddy_ex_inv2 by auto

end
