(* ===== verification/Plan_Word.thy ===== *)
theory Plan_Word
  imports Prelude
begin

text \<open>
  \<open>pkg/plan/include/plan/value.h\<close>: the 64-bit value word, the object header word and the accessors
  that read objects in memory. Memory is a function from cell addresses (bytes) to 64-bit cells;
  writes return the updated memory. The model is the build without top-byte-ignore, where a pointer is
  dereferenced through \<open>pl_addr\<close>. Atomic loads and stores of a PIN's cell 6 are single cell
  accesses here.
\<close>

subsection \<open>The header word\<close>

type_synonym pl_val = u64
type_synonym pl_cell = u64
type_synonym pl_kind = u32
type_synonym pmem = "u64 \<Rightarrow> u64"

definition PL_K_NAT :: pl_kind where "PL_K_NAT = 1"
definition PL_K_APP :: pl_kind where "PL_K_APP = 2"
definition PL_K_LAW :: pl_kind where "PL_K_LAW = 3"
definition PL_K_PIN :: pl_kind where "PL_K_PIN = 4"
definition PL_K_THUNK :: pl_kind where "PL_K_THUNK = 5"
definition PL_K_ENV :: pl_kind where "PL_K_ENV = 6"
definition PL_K_IND :: pl_kind where "PL_K_IND = 7"
definition PL_K_BH :: pl_kind where "PL_K_BH = 8"
definition PL_K_FWD :: pl_kind where "PL_K_FWD = 9"
definition PL_K_THKE :: pl_kind where "PL_K_THKE = 10"

lemmas kind_defs = PL_K_NAT_def PL_K_APP_def PL_K_LAW_def PL_K_PIN_def PL_K_THUNK_def PL_K_ENV_def
  PL_K_IND_def PL_K_BH_def PL_K_FWD_def PL_K_THKE_def

definition PL_HDR_META_MAX :: u32 where "PL_HDR_META_MAX = 0xFFFFF"

definition PL_F_NORMAL :: u32 where "PL_F_NORMAL = 1"
definition PL_F_HOLE :: u32 where "PL_F_HOLE = 2"
definition PL_F_PIN_HASHED :: u32 where "PL_F_PIN_HASHED = 4"
definition PL_F_PIN_PROXY :: u32 where "PL_F_PIN_PROXY = 8"

definition hdr_word :: "pl_kind \<Rightarrow> u32 \<Rightarrow> u32 \<Rightarrow> u32 \<Rightarrow> pl_cell" where
  "hdr_word kind flags meta cells =
     ucast (kind AND 0xFF) OR push_bit 8 (ucast (flags AND 0xF)) OR
     push_bit 12 (ucast (meta AND PL_HDR_META_MAX)) OR push_bit 32 (ucast cells)"

definition pl_hdr_make :: "pl_kind \<Rightarrow> u32 \<Rightarrow> u32 \<Rightarrow> u32 \<Rightarrow> pl_cell res" where
  "pl_hdr_make kind flags meta cells =
     rbind (assume_c (kind \<noteq> PL_K_APP \<or> 3 \<le> cells) ''APP requires a head and at least one argument'')
       (\<lambda>_. Inr (hdr_word kind flags meta cells))"

definition pl_hdr_kind :: "pl_cell \<Rightarrow> pl_kind" where
  "pl_hdr_kind hdr = ucast (hdr AND 0xFF)"

definition pl_hdr_flags :: "pl_cell \<Rightarrow> u32" where
  "pl_hdr_flags hdr = ucast (drop_bit 8 hdr) AND 0xF"

definition pl_hdr_set_flag :: "pl_cell \<Rightarrow> u32 \<Rightarrow> pl_cell" where
  "pl_hdr_set_flag hdr flags =
     (let old = pl_hdr_flags hdr OR flags in hdr OR push_bit 8 (ucast (old AND 0xF)))"

definition pl_hdr_set_meta :: "pl_cell \<Rightarrow> u32 \<Rightarrow> pl_cell" where
  "pl_hdr_set_meta hdr meta =
     (hdr AND NOT (push_bit 12 (ucast PL_HDR_META_MAX))) OR push_bit 12 (ucast (meta AND PL_HDR_META_MAX))"

definition pl_hdr_meta :: "pl_cell \<Rightarrow> u32" where
  "pl_hdr_meta hdr = ucast (drop_bit 12 hdr) AND PL_HDR_META_MAX"

definition pl_hdr_cells :: "pl_cell \<Rightarrow> u32" where
  "pl_hdr_cells hdr = ucast (drop_bit 32 hdr)"

subsection \<open>The value word\<close>

definition PL_PTR_BIT :: u64 where "PL_PTR_BIT = push_bit 63 1"
definition PL_ADDR_MASK :: u64 where "PL_ADDR_MASK = 0x00ffffffffffffff"

definition PL_TAG_NAT :: u64 where "PL_TAG_NAT = 0x80"
definition PL_TAG_APP :: u64 where "PL_TAG_APP = 0x82"
definition PL_TAG_LAW :: u64 where "PL_TAG_LAW = 0x83"
definition PL_TAG_PIN :: u64 where "PL_TAG_PIN = 0x84"
definition PL_TAG_ENV :: u64 where "PL_TAG_ENV = 0x85"
definition PL_TAG_DEFER :: u64 where "PL_TAG_DEFER = 0x86"

lemmas tag_defs = PL_TAG_NAT_def PL_TAG_APP_def PL_TAG_LAW_def PL_TAG_PIN_def PL_TAG_ENV_def
  PL_TAG_DEFER_def

definition val_is_nat63 :: "pl_val \<Rightarrow> bool" where
  "val_is_nat63 v \<longleftrightarrow> v AND PL_PTR_BIT = 0"

definition pl_tag :: "pl_val \<Rightarrow> u64" where
  "pl_tag v = drop_bit 56 v"

definition pl_addr :: "pl_val \<Rightarrow> u64" where
  "pl_addr v = v AND PL_ADDR_MASK"

definition pl_make :: "u64 \<Rightarrow> u64 \<Rightarrow> pl_val" where
  "pl_make tag p = push_bit 56 tag OR (p AND PL_ADDR_MASK)"

definition pl_is_whnf :: "pl_val \<Rightarrow> bool" where
  "pl_is_whnf v \<longleftrightarrow> pl_tag v \<noteq> PL_TAG_DEFER"

definition pl_is_nat :: "pl_val \<Rightarrow> bool" where
  "pl_is_nat v \<longleftrightarrow> pl_tag v \<le> PL_TAG_NAT"

definition pl_as :: "u64 \<Rightarrow> pl_val \<Rightarrow> u64 option" where
  "pl_as tag v = (if pl_tag v = tag then Some (pl_addr v) else None)"

text \<open>\<open>p[i]\<close> for an object at address \<open>p\<close>.\<close>

definition cell :: "pmem \<Rightarrow> u64 \<Rightarrow> nat \<Rightarrow> u64" where
  "cell m p i = m (p + 8 * word_of_nat i)"

definition set_cell :: "pmem \<Rightarrow> u64 \<Rightarrow> nat \<Rightarrow> u64 \<Rightarrow> pmem" where
  "set_cell m p i x = m(p + 8 * word_of_nat i := x)"

definition pl_kind_of :: "pmem \<Rightarrow> pl_val \<Rightarrow> pl_kind res" where
  "pl_kind_of m v =
     rbind (assume_c (\<not> val_is_nat63 v) ''pl_kind_of on a direct nat'') (\<lambda>_.
       Inr (if pl_tag v = PL_TAG_NAT then PL_K_NAT
            else if pl_tag v = PL_TAG_APP then PL_K_APP
            else if pl_tag v = PL_TAG_LAW then PL_K_LAW
            else if pl_tag v = PL_TAG_PIN then PL_K_PIN
            else if pl_tag v = PL_TAG_ENV then PL_K_ENV
            else pl_hdr_kind (cell m (pl_addr v) 0)))"

definition pl_tag_for_kind :: "pl_kind \<Rightarrow> u64" where
  "pl_tag_for_kind k =
     (if k = PL_K_NAT then PL_TAG_NAT
      else if k = PL_K_APP then PL_TAG_APP
      else if k = PL_K_LAW then PL_TAG_LAW
      else if k = PL_K_PIN then PL_TAG_PIN
      else if k = PL_K_ENV then PL_TAG_ENV
      else PL_TAG_DEFER)"

subsection \<open>Objects\<close>

definition pl_nat_limbs :: "pmem \<Rightarrow> u64 \<Rightarrow> u32" where
  "pl_nat_limbs m p = pl_hdr_meta (cell m p 0)"

definition pl_app_n :: "pmem \<Rightarrow> u64 \<Rightarrow> u32" where
  "pl_app_n m p = pl_hdr_cells (cell m p 0) - 2"

definition pl_app_need :: "pmem \<Rightarrow> u64 \<Rightarrow> u32" where
  "pl_app_need m p = pl_hdr_meta (cell m p 0)"

definition pl_app_head :: "pmem \<Rightarrow> u64 \<Rightarrow> pl_val" where
  "pl_app_head m p = cell m p 1"

definition pl_law_arity :: "pmem \<Rightarrow> u64 \<Rightarrow> u64" where
  "pl_law_arity m p = cell m p 1"

definition pl_law_name :: "pmem \<Rightarrow> u64 \<Rightarrow> pl_val" where
  "pl_law_name m p = cell m p 2"

definition pl_law_body :: "pmem \<Rightarrow> u64 \<Rightarrow> pl_val" where
  "pl_law_body m p = cell m p 3"

definition pl_pin_is_proxy :: "pmem \<Rightarrow> u64 \<Rightarrow> bool" where
  "pl_pin_is_proxy m p \<longleftrightarrow> pl_hdr_flags (cell m p 0) AND PL_F_PIN_PROXY \<noteq> 0"

definition pl_pin_proxy_target :: "pmem \<Rightarrow> u64 \<Rightarrow> pl_val" where
  "pl_pin_proxy_target m p = (if \<not> pl_pin_is_proxy m p then 0 else cell m p 6)"

definition pl_pin_resolved :: "pmem \<Rightarrow> u64 \<Rightarrow> u64" where
  "pl_pin_resolved m p =
     (let target = pl_pin_proxy_target m p in if target = 0 then p else pl_addr target)"

definition pin_canonical :: "pmem \<Rightarrow> u64 \<Rightarrow> bool" where
  "pin_canonical m p \<longleftrightarrow> pl_hdr_kind (cell m p 0) = PL_K_PIN \<and> \<not> pl_pin_is_proxy m p \<and>
     pl_hdr_flags (cell m p 0) AND PL_F_PIN_HASHED \<noteq> 0"

definition pl_pin_set_target :: "pmem \<Rightarrow> u64 \<Rightarrow> pl_val \<Rightarrow> pmem res" where
  "pl_pin_set_target m p canonical =
     rbind (assume_c (pl_hdr_kind (cell m p 0) = PL_K_PIN \<and> pl_pin_is_proxy m p \<and>
              pl_hdr_meta (cell m p 0) = 0 \<and> pl_hdr_cells (cell m p 0) = 7)
              ''pl_pin_set_target on a non-proxy PIN'') (\<lambda>_.
     rbind (assume_c (pl_tag canonical = PL_TAG_PIN) ''PIN proxy target is not a PIN'') (\<lambda>_.
     rbind (assume_c (pin_canonical m (pl_addr canonical)) ''PIN proxy target is not canonical'') (\<lambda>_.
     let old = cell m p 6 in
     rbind (assume_c (old = 0 \<or> old = canonical) ''PIN proxy target cannot be replaced'') (\<lambda>_.
     Inr (set_cell m p 6 canonical)))))"

definition pl_pin_hash_cell :: "pmem \<Rightarrow> u64 \<Rightarrow> nat \<Rightarrow> u64" where
  "pl_pin_hash_cell m p i = cell m (pl_pin_resolved m p) (1 + i)"

definition pl_pin_body :: "pmem \<Rightarrow> u64 \<Rightarrow> pl_val" where
  "pl_pin_body m p = cell m (pl_pin_resolved m p) 5"

definition pl_pin_npins :: "pmem \<Rightarrow> u64 \<Rightarrow> u32" where
  "pl_pin_npins m p = pl_hdr_meta (cell m (pl_pin_resolved m p) 0)"

definition pl_pin_subpin :: "pmem \<Rightarrow> u64 \<Rightarrow> nat \<Rightarrow> pl_val" where
  "pl_pin_subpin m p i = cell m (pl_pin_resolved m p) (7 + i)"

definition pl_ind_target :: "pmem \<Rightarrow> u64 \<Rightarrow> pl_val" where
  "pl_ind_target m p = cell m p 1"

text \<open>The indirection loop. A cycle of indirections would not return, which is \<open>None\<close>.\<close>

partial_function (option) pl_resolve :: "pmem \<Rightarrow> pl_val \<Rightarrow> pl_val option" where
  "pl_resolve m v =
     (if \<not> val_is_nat63 v \<and> pl_tag v = PL_TAG_DEFER \<and>
         pl_hdr_kind (cell m (pl_addr v) 0) = PL_K_IND
      then pl_resolve m (pl_ind_target m (pl_addr v)) else Some v)"

declare pl_resolve.simps [code]

text \<open>
  The in-place updates of \<open>build.h\<close>: a thunk or black hole becomes an indirection of the same size.
\<close>

definition pl_thunk_update :: "pmem \<Rightarrow> pl_val \<Rightarrow> pl_val \<Rightarrow> pmem res" where
  "pl_thunk_update m thunk_or_bh result =
     (let p = pl_addr thunk_or_bh; k = pl_hdr_kind (cell m p 0) in
      rbind (assume_c (k = PL_K_THUNK \<or> k = PL_K_BH) ''thunk_update on a non-thunk'') (\<lambda>_.
      rbind (pl_hdr_make PL_K_IND 0 0 (pl_hdr_cells (cell m p 0))) (\<lambda>h.
      Inr (set_cell (set_cell m p 0 h) p 1 result))))"

definition pl_thke_update :: "pmem \<Rightarrow> pl_val \<Rightarrow> pl_val \<Rightarrow> pmem res" where
  "pl_thke_update m thke result =
     (let p = pl_addr thke; k = pl_hdr_kind (cell m p 0) in
      rbind (assume_c (k = PL_K_THKE) ''thke_update on a non-thke'') (\<lambda>_.
      rbind (pl_hdr_make PL_K_IND 0 0 (pl_hdr_cells (cell m p 0))) (\<lambda>h.
      Inr (set_cell (set_cell m p 0 h) p 1 result))))"

text \<open>The pointer fields normal-form reduction visits and writes back (\<open>build.c\<close>).\<close>

definition pl_nf_writeback :: "pmem \<Rightarrow> pl_val \<Rightarrow> nat \<Rightarrow> pl_val \<Rightarrow> pmem res" where
  "pl_nf_writeback m parent fld child =
     (let p = pl_addr parent; k = pl_hdr_kind (cell m p 0) in
      if k = PL_K_APP then Inr (set_cell m p (1 + fld) child)
      else if k = PL_K_LAW then Inr (set_cell m p (2 + fld) child)
      else if k = PL_K_PIN then
        rbind (assume_c (pl_pin_is_proxy m p \<and> pl_pin_proxy_target m p = 0 \<and> fld = 0)
                 ''nf_writeback on a resolved or canonical PIN'') (\<lambda>_.
        Inr (set_cell m p 5 child))
      else Inl (Abort ''nf_writeback on kind''))"

definition pl_nf_nfields :: "pmem \<Rightarrow> pl_val \<Rightarrow> u32" where
  "pl_nf_nfields m v =
     (if val_is_nat63 v then 0
      else if pl_tag v = PL_TAG_APP then pl_app_n m (pl_addr v) + 1
      else if pl_tag v = PL_TAG_LAW then 2
      else if pl_tag v = PL_TAG_PIN then 1
      else 0)"

definition pl_nf_field :: "pmem \<Rightarrow> pl_val \<Rightarrow> nat \<Rightarrow> pl_val res" where
  "pl_nf_field m v i =
     (let p = pl_addr v in
      if pl_tag v = PL_TAG_APP then Inr (cell m p (1 + i))
      else if pl_tag v = PL_TAG_LAW then Inr (cell m p (2 + i))
      else if pl_tag v = PL_TAG_PIN then
        rbind (assume_c (pl_pin_is_proxy m p \<and> pl_pin_proxy_target m p = 0 \<and> i = 0)
                 ''pl_nf_field on a resolved or canonical PIN'') (\<lambda>_. Inr (cell m p 5))
      else Inl (Abort ''pl_nf_field on tag''))"

subsection \<open>Packing\<close>

lemma masks:
  "(0xFF :: u32) = mask 8" "(0xFF :: u64) = mask 8" "(0xF :: u32) = mask 4"
  "PL_HDR_META_MAX = mask 20" "PL_ADDR_MASK = mask 56"
  by (simp_all add: mask_eq_exp_minus_1 PL_HDR_META_MAX_def PL_ADDR_MASK_def)

lemmas bits = bit_and_iff bit_or_iff bit_not_iff bit_push_bit_iff bit_drop_bit_eq bit_unsigned_iff bit_mask_iff

lemma word_len_le: "\<not> bit (w :: 'a::len word) n" if "LENGTH('a) \<le> n" for w n
  using that bit_imp_le_length leD by blast

lemma hdr_kind_word [simp]: "pl_hdr_kind (hdr_word k f m c) = k AND 0xFF"
  unfolding pl_hdr_kind_def hdr_word_def masks
  by (rule bit_word_eqI) (auto simp: bits)

lemma hdr_flags_word [simp]: "pl_hdr_flags (hdr_word k f m c) = f AND 0xF"
  unfolding pl_hdr_flags_def hdr_word_def masks
  by (rule bit_word_eqI) (auto simp: bits)

lemma hdr_meta_word [simp]: "pl_hdr_meta (hdr_word k f m c) = m AND PL_HDR_META_MAX"
  unfolding pl_hdr_meta_def hdr_word_def masks
  by (rule bit_word_eqI) (auto simp: bits)

lemma hdr_cells_word [simp]: "pl_hdr_cells (hdr_word k f m c) = c"
  unfolding pl_hdr_cells_def hdr_word_def masks
  by (rule bit_word_eqI) (auto simp: bits)

lemma set_flag_fields:
  "pl_hdr_kind (pl_hdr_set_flag h f) = pl_hdr_kind h"
  "pl_hdr_flags (pl_hdr_set_flag h f) = (pl_hdr_flags h OR f) AND 0xF"
  "pl_hdr_meta (pl_hdr_set_flag h f) = pl_hdr_meta h"
  "pl_hdr_cells (pl_hdr_set_flag h f) = pl_hdr_cells h"
  unfolding pl_hdr_set_flag_def pl_hdr_kind_def pl_hdr_flags_def pl_hdr_meta_def pl_hdr_cells_def masks Let_def
  by (rule bit_word_eqI; auto simp: bits)+

lemma set_meta_fields:
  "pl_hdr_kind (pl_hdr_set_meta h x) = pl_hdr_kind h"
  "pl_hdr_flags (pl_hdr_set_meta h x) = pl_hdr_flags h"
  "pl_hdr_meta (pl_hdr_set_meta h x) = x AND PL_HDR_META_MAX"
  "pl_hdr_cells (pl_hdr_set_meta h x) = pl_hdr_cells h"
  unfolding pl_hdr_set_meta_def pl_hdr_kind_def pl_hdr_flags_def pl_hdr_meta_def pl_hdr_cells_def masks
  by (rule bit_word_eqI; auto simp: bits)+

lemma take_bit_tag: "tag < 256 \<Longrightarrow> take_bit 8 tag = (tag :: u64)"
proof -
  assume "tag < 256"
  then have "take_bit 8 (unat tag) = unat tag" by (intro take_bit_nat_eq_self) (simp add: word_less_nat_alt)
  then show ?thesis by (metis unsigned_take_bit_eq unsigned_word_eqI)
qed

lemma tag_make: "tag < 256 \<Longrightarrow> pl_tag (pl_make tag p) = tag"
proof -
  assume "tag < 256"
  then have t: "bit tag n \<Longrightarrow> n < 8" for n by (metis take_bit_tag bit_take_bit_iff)
  show ?thesis unfolding pl_tag_def pl_make_def masks
    by (rule bit_word_eqI) (auto simp: bits dest: t)
qed

lemma addr_make: "p AND PL_ADDR_MASK = p \<Longrightarrow> pl_addr (pl_make tag p) = p"
proof -
  assume "p AND PL_ADDR_MASK = p"
  then have p: "bit p n \<Longrightarrow> n < 56" for n by (metis masks(5) bit_and_iff bit_mask_iff)
  show ?thesis unfolding pl_addr_def pl_make_def masks
    by (rule bit_word_eqI) (auto simp: bits dest: p)
qed

lemma nat63_tag: "val_is_nat63 v \<longleftrightarrow> pl_tag v < 0x80"
proof -
  have "val_is_nat63 v \<longleftrightarrow> \<not> bit v 63"
    unfolding val_is_nat63_def PL_PTR_BIT_def push_bit_of_1 by (rule and_exp_eq_0_iff_not_bit)
  also have "\<dots> \<longleftrightarrow> unat v < 2 ^ 63"
  proof
    assume n: "\<not> bit v 63"
    have "unat v = take_bit 63 (unat v)"
    proof (rule bit_eqI)
      fix k
      show "bit (unat v) k \<longleftrightarrow> bit (take_bit 63 (unat v)) k"
        using n bit_imp_le_length[of v k]
        by (cases "k = 63") (auto simp: bit_unsigned_iff bit_take_bit_iff)
    qed
    then show "unat v < 2 ^ 63" by (metis take_bit_nat_less_exp)
  next
    assume "unat v < 2 ^ 63"
    then have "take_bit 63 (unat v) = unat v" by (rule take_bit_nat_eq_self)
    then have "\<not> bit (unat v) 63" by (metis bit_take_bit_iff less_irrefl)
    then show "\<not> bit v 63" by (simp add: bit_unsigned_iff)
  qed
  also have "\<dots> \<longleftrightarrow> pl_tag v < 0x80"
    unfolding pl_tag_def word_less_nat_alt unat_drop_bit_eq
    by (simp add: drop_bit_eq_div div_less_iff_less_mult)
  finally show ?thesis .
qed

subsection \<open>Properties\<close>

text \<open>
  C21. The four fields of a header word do not overlap: each reads back what was packed, cut to its
  width, and setting flags or the meta field changes that field alone.
\<close>

theorem pl_hdr_fields:
  "pl_hdr_kind (hdr_word k f m c) = k AND 0xFF \<and> pl_hdr_flags (hdr_word k f m c) = f AND 0xF \<and>
   pl_hdr_meta (hdr_word k f m c) = m AND PL_HDR_META_MAX \<and> pl_hdr_cells (hdr_word k f m c) = c \<and>
   pl_hdr_kind (pl_hdr_set_flag h f) = pl_hdr_kind h \<and>
   pl_hdr_flags (pl_hdr_set_flag h f) = (pl_hdr_flags h OR f) AND 0xF \<and>
   pl_hdr_meta (pl_hdr_set_flag h f) = pl_hdr_meta h \<and>
   pl_hdr_cells (pl_hdr_set_flag h f) = pl_hdr_cells h \<and>
   pl_hdr_kind (pl_hdr_set_meta h m) = pl_hdr_kind h \<and>
   pl_hdr_flags (pl_hdr_set_meta h m) = pl_hdr_flags h \<and>
   pl_hdr_meta (pl_hdr_set_meta h m) = m AND PL_HDR_META_MAX \<and>
   pl_hdr_cells (pl_hdr_set_meta h m) = pl_hdr_cells h"
  by (simp add: set_flag_fields set_meta_fields)

lemma kind_numbers: "1 \<le> n \<Longrightarrow> n \<le> 10 \<Longrightarrow> n \<in> {1, 2, 3, 4, 5, 6, 7, 8, 9, 10}" for n :: nat
  unfolding insert_iff empty_iff by presburger

text \<open>
  A tagged pointer to an object whose header says kind \<open>k\<close> is recognised as \<open>k\<close>: the tag and
  the address survive the packing, a pointer is never taken for a direct nat, and the kinds that change
  in place share the one tag that makes the reader look at the header.
\<close>

theorem pl_kind_of_make:
  assumes "p AND PL_ADDR_MASK = p" "pl_hdr_kind (cell m p 0) = k" "1 \<le> k" "k \<le> 10"
  shows "pl_kind_of m (pl_make (pl_tag_for_kind k) p) = Inr k \<and>
    pl_addr (pl_make (pl_tag_for_kind k) p) = p \<and>
    \<not> val_is_nat63 (pl_make (pl_tag_for_kind k) p) \<and>
    pl_is_whnf (pl_make (pl_tag_for_kind k) p) = (k \<notin> {PL_K_THUNK, PL_K_IND, PL_K_BH, PL_K_FWD, PL_K_THKE})"
proof -
  have tag: "pl_tag (pl_make (pl_tag_for_kind k) p) = pl_tag_for_kind k"
    by (rule tag_make) (simp add: pl_tag_for_kind_def tag_defs)
  have ge: "\<not> pl_tag_for_kind k < 0x80" by (simp add: pl_tag_for_kind_def tag_defs)
  have "1 \<le> unat k" "unat k \<le> 10" using assms(3,4) by (simp_all add: word_le_nat_alt)
  from kind_numbers[OF this] have "k \<in> {1, 2, 3, 4, 5, 6, 7, 8, 9, 10}" by (auto simp: word_unat_eq_iff)
  then show ?thesis using tag ge addr_make[OF assms(1), of "pl_tag_for_kind k"] assms(2)
    unfolding pl_kind_of_def nat63_tag pl_is_whnf_def pl_tag_for_kind_def tag_defs kind_defs
    by (elim insertE emptyE) simp_all
qed

theorem pl_kind_of_make_witness:
  "pl_kind_of (\<lambda>_. hdr_word 5 0 0 3) (pl_make (pl_tag_for_kind 5) 64) = Inr 5"
proof -
  have "(64 :: u64) AND PL_ADDR_MASK = 64" by (simp add: PL_ADDR_MASK_def)
  moreover have "pl_hdr_kind (cell (\<lambda>_. hdr_word 5 0 0 3) 64 0) = 5" by (simp add: cell_def)
  ultimately show ?thesis using pl_kind_of_make[of 64 "\<lambda>_. hdr_word 5 0 0 3" 5] by simp
qed

text \<open>Distinct cells of one object have distinct addresses.\<close>

lemma cell_set_same [simp]: "cell (set_cell m p i x) p i = x"
  by (simp add: cell_def set_cell_def)

lemma cell_set_other:
  assumes "i < 2 ^ 32" "j < 2 ^ 32" "i \<noteq> j"
  shows "cell (set_cell m p i x) p j = cell m p j"
proof -
  have "8 * word_of_nat i \<noteq> (8 * word_of_nat j :: u64)"
  proof
    assume "8 * word_of_nat i = (8 * word_of_nat j :: u64)"
    then have "unat (8 * word_of_nat i :: u64) = unat (8 * word_of_nat j :: u64)" by simp
    then show False using assms by (simp add: unat_word_ariths unsigned_of_nat take_bit_eq_mod)
  qed
  then show ?thesis by (simp add: cell_def set_cell_def)
qed

lemma hdr_make_ok: "k \<noteq> PL_K_APP \<Longrightarrow> pl_hdr_make k f m c = Inr (hdr_word k f m c)"
  by (simp add: pl_hdr_make_def)

text \<open>
  C22. Updating a thunk or black hole in place redirects every alias: afterwards the object is an
  indirection of its old size, and resolving any reference to it gives what resolving the result gives.
\<close>

theorem pl_thunk_update_shares:
  assumes "pl_thunk_update m v r = Inr m'" "pl_tag v = PL_TAG_DEFER"
  shows "pl_hdr_kind (cell m' (pl_addr v) 0) = PL_K_IND \<and>
    pl_hdr_cells (cell m' (pl_addr v) 0) = pl_hdr_cells (cell m (pl_addr v) 0) \<and>
    (\<forall>w. pl_tag w = PL_TAG_DEFER \<and> pl_addr w = pl_addr v \<longrightarrow> pl_resolve m' w = pl_resolve m' r)"
proof -
  let ?p = "pl_addr v"
  define c where "c = pl_hdr_cells (cell m ?p 0)"
  have m': "m' = set_cell (set_cell m ?p 0 (hdr_word PL_K_IND 0 0 c)) ?p 1 r"
    using assms(1) hdr_make_ok[of PL_K_IND 0 0 c]
    by (auto simp: pl_thunk_update_def Let_def res_simps c_def kind_defs)
  have cells: "cell m' ?p 0 = hdr_word PL_K_IND 0 0 c" "cell m' ?p 1 = r"
    using cell_set_other[of 1 0 "set_cell m ?p 0 (hdr_word PL_K_IND 0 0 c)" ?p r] by (simp_all add: m')
  have "pl_resolve m' w = pl_resolve m' r" if "pl_tag w = PL_TAG_DEFER" "pl_addr w = ?p" for w
    using that cells by (subst pl_resolve.simps) (simp add: nat63_tag tag_defs kind_defs pl_ind_target_def)
  then show ?thesis using cells by (simp add: c_def kind_defs)
qed

definition ex_thunk_mem :: pmem where
  "ex_thunk_mem a = (if a = 64 then hdr_word PL_K_THUNK 0 0 3 else 0)"

theorem pl_thunk_update_shares_witness:
  "\<exists>m'. pl_thunk_update ex_thunk_mem (pl_make PL_TAG_DEFER 64) 7 = Inr m' \<and>
     pl_hdr_cells (cell m' 64 0) = 3 \<and> pl_resolve m' (pl_make PL_TAG_DEFER 64) = Some 7"
proof -
  let ?v = "pl_make PL_TAG_DEFER 64"
  have v: "pl_addr ?v = 64" by (rule addr_make) (simp add: PL_ADDR_MASK_def)
  have t: "pl_tag ?v = PL_TAG_DEFER" by (rule tag_make) (simp add: tag_defs)
  have h: "cell ex_thunk_mem 64 0 = hdr_word PL_K_THUNK 0 0 3" by (simp add: cell_def ex_thunk_mem_def)
  obtain m' where m': "pl_thunk_update ex_thunk_mem ?v 7 = Inr m'"
    by (simp add: pl_thunk_update_def v h Let_def kind_defs hdr_make_ok)
  have "pl_resolve m' 7 = Some 7"
    by (subst pl_resolve.simps) (simp add: pl_tag_def tag_defs nat63_tag)
  with pl_thunk_update_shares[OF m' t] m' v t show ?thesis by (auto simp: h)
qed

text \<open>
  C23. A PIN proxy is published once. Setting a target succeeds exactly on a proxy of the proxy layout whose target is not
  set yet or already this one, with a reference to a pin that is no proxy and has its hash. When the cell
  of the proxy that is written is not one of the cells of that pin, the proxy's body, hash, number of subpins
  and subpins are afterwards those of the pin, and a second, different target is refused.
\<close>

theorem pl_pin_set_target_once:
  assumes "\<forall>i < 7 + unat (pl_hdr_meta (cell m (pl_addr c) 0)). pl_addr c + 8 * word_of_nat i \<noteq> p + 8 * 6"
  shows "((\<exists>m'. pl_pin_set_target m p c = Inr m') \<longleftrightarrow>
      pl_hdr_kind (cell m p 0) = PL_K_PIN \<and> pl_hdr_flags (cell m p 0) AND PL_F_PIN_PROXY \<noteq> 0 \<and>
      pl_hdr_meta (cell m p 0) = 0 \<and> pl_hdr_cells (cell m p 0) = 7 \<and> cell m p 6 \<in> {0, c} \<and> pl_tag c = PL_TAG_PIN \<and>
      pl_hdr_kind (cell m (pl_addr c) 0) = PL_K_PIN \<and> pl_hdr_flags (cell m (pl_addr c) 0) AND PL_F_PIN_PROXY = 0 \<and>
      pl_hdr_flags (cell m (pl_addr c) 0) AND PL_F_PIN_HASHED \<noteq> 0) \<and>
    (\<forall>m'. pl_pin_set_target m p c = Inr m' \<longrightarrow>
      pl_pin_resolved m' p = pl_addr c \<and> pl_pin_body m' p = pl_pin_body m (pl_addr c) \<and>
      (\<forall>i < 4. pl_pin_hash_cell m' p i = pl_pin_hash_cell m (pl_addr c) i) \<and>
      pl_pin_npins m' p = pl_pin_npins m (pl_addr c) \<and>
      (\<forall>i < unat (pl_pin_npins m' p). pl_pin_subpin m' p i = pl_pin_subpin m (pl_addr c) i) \<and>
      (\<forall>d. d \<noteq> c \<longrightarrow> (\<exists>f. pl_pin_set_target m' p d = Inl f)))"
proof (intro conjI allI impI)
  show "(\<exists>m'. pl_pin_set_target m p c = Inr m') \<longleftrightarrow>
      pl_hdr_kind (cell m p 0) = PL_K_PIN \<and> pl_hdr_flags (cell m p 0) AND PL_F_PIN_PROXY \<noteq> 0 \<and>
      pl_hdr_meta (cell m p 0) = 0 \<and> pl_hdr_cells (cell m p 0) = 7 \<and> cell m p 6 \<in> {0, c} \<and> pl_tag c = PL_TAG_PIN \<and>
      pl_hdr_kind (cell m (pl_addr c) 0) = PL_K_PIN \<and> pl_hdr_flags (cell m (pl_addr c) 0) AND PL_F_PIN_PROXY = 0 \<and>
      pl_hdr_flags (cell m (pl_addr c) 0) AND PL_F_PIN_HASHED \<noteq> 0"
    by (auto simp: pl_pin_set_target_def Let_def res_simps pl_pin_is_proxy_def pin_canonical_def)
  fix m'
  assume set: "pl_pin_set_target m p c = Inr m'"
  let ?t = "pl_addr c"
  have pre: "pl_pin_is_proxy m p" "pl_tag c = PL_TAG_PIN" "pin_canonical m ?t" "m' = set_cell m p 6 c"
    using set by (auto simp: pl_pin_set_target_def Let_def res_simps)
  have c0: "c \<noteq> 0" using pre(2) by (auto simp: pl_tag_def tag_defs)
  have rt: "pl_pin_resolved m ?t = ?t"
    using pre(3) by (simp add: pl_pin_resolved_def pl_pin_proxy_target_def pin_canonical_def)
  have same: "cell m' ?t i = cell m ?t i" if "i < 7 + unat (pl_pin_npins m ?t)" for i
    using assms that by (auto simp: pre(4) cell_def set_cell_def pl_pin_npins_def rt)
  have p0: "cell m' p 0 = cell m p 0" "cell m' p 6 = c"
    using cell_set_other[of 6 0 m p c] by (simp_all add: pre(4))
  have pr: "pl_pin_is_proxy m' p" using pre(1) p0 by (simp add: pl_pin_is_proxy_def)
  show res: "pl_pin_resolved m' p = ?t" using pr p0 c0 by (simp add: pl_pin_resolved_def pl_pin_proxy_target_def)
  show np: "pl_pin_npins m' p = pl_pin_npins m ?t" using same[of 0] res rt by (simp add: pl_pin_npins_def)
  show "pl_pin_body m' p = pl_pin_body m ?t" using same[of 5] res rt by (simp add: pl_pin_body_def)
  show "pl_pin_hash_cell m' p i = pl_pin_hash_cell m ?t i" if "i < 4" for i
    using that same[of "1 + i"] res rt by (simp add: pl_pin_hash_cell_def)
  show "pl_pin_subpin m' p i = pl_pin_subpin m ?t i" if "i < unat (pl_pin_npins m' p)" for i
    using that same[of "7 + i"] res rt np by (simp add: pl_pin_subpin_def)
  show "\<exists>f. pl_pin_set_target m' p d = Inl f" if "d \<noteq> c" for d
    using that p0(2) c0 by (cases "pl_pin_set_target m' p d") (auto simp: pl_pin_set_target_def Let_def res_simps)
qed

definition ex_pin_mem :: pmem where
  "ex_pin_mem a = (if a = 64 then hdr_word PL_K_PIN PL_F_PIN_PROXY 0 7
     else if a = 0x1000000 then hdr_word PL_K_PIN PL_F_PIN_HASHED 0 7
     else if a = 0x1000028 then 42 else 0)"

theorem pl_pin_set_target_once_witness:
  "\<exists>m'. pl_pin_set_target ex_pin_mem 64 (pl_make PL_TAG_PIN 0x1000000) = Inr m' \<and>
     pl_pin_resolved m' 64 = 0x1000000 \<and> pl_pin_body m' 64 = 42"
proof -
  let ?c = "pl_make PL_TAG_PIN 0x1000000"
  have c: "pl_addr ?c = 0x1000000" by (rule addr_make) (simp add: PL_ADDR_MASK_def)
  have t: "pl_tag ?c = PL_TAG_PIN" by (rule tag_make) (simp add: tag_defs)
  have cells: "cell ex_pin_mem 64 0 = hdr_word PL_K_PIN PL_F_PIN_PROXY 0 7" "cell ex_pin_mem 64 6 = 0"
    "cell ex_pin_mem 0x1000000 0 = hdr_word PL_K_PIN PL_F_PIN_HASHED 0 7" "cell ex_pin_mem 0x1000000 5 = 42"
    by (simp_all add: cell_def ex_pin_mem_def)
  obtain m' where m': "pl_pin_set_target ex_pin_mem 64 ?c = Inr m'"
    by (simp add: pl_pin_set_target_def cells c t Let_def pl_pin_is_proxy_def pin_canonical_def
        kind_defs PL_F_PIN_PROXY_def PL_F_PIN_HASHED_def)
  have far: "\<forall>i < 7 + unat (pl_hdr_meta (cell ex_pin_mem (pl_addr ?c) 0)). pl_addr ?c + 8 * word_of_nat i \<noteq> 64 + 8 * 6"
  proof (intro allI impI notI)
    fix i
    assume "i < 7 + unat (pl_hdr_meta (cell ex_pin_mem (pl_addr ?c) 0))" and e: "pl_addr ?c + 8 * word_of_nat i = 64 + 8 * 6"
    then have "i < 7" unfolding c cells(3) by simp
    moreover have "unat (pl_addr ?c + 8 * word_of_nat i) = unat (64 + 8 * 6 :: u64)" using e by (rule arg_cong)
    then have "unat (0x1000000 + 8 * word_of_nat i :: u64) = 112" unfolding c by simp
    ultimately show False by (simp add: unat_word_ariths unsigned_of_nat take_bit_eq_mod)
  qed
  have "pl_pin_body ex_pin_mem 0x1000000 = 42"
    by (simp add: pl_pin_body_def pl_pin_resolved_def pl_pin_proxy_target_def pl_pin_is_proxy_def cells
        PL_F_PIN_PROXY_def PL_F_PIN_HASHED_def)
  then show ?thesis using pl_pin_set_target_once[OF far] m' c by auto
qed

end
