(* ===== verification/Plan_Nat.thy ===== *)
theory Plan_Nat
  imports Prelude
begin

text \<open>
  \<open>pkg/plan/src/nat.c\<close> and the nat constructors of \<open>build.c\<close>: the runtime's natural numbers.
  A nat below \<open>2 ^ 63\<close> is a direct word; a larger one is a boxed array of 64-bit limbs, trimmed
  so that every number has one representation. The limb kernels are GMP's \<open>mpn\<close> functions, which
  are not part of the repository: they are a parameter \<open>M\<close>, and the locale \<open>mpn\<close> states what the
  GMP manual documents of each under the preconditions it documents.

  \<open>size_t\<close> counts of limbs and bits are naturals: an operand has fewer than \<open>2 ^ 20\<close> limbs and a
  shift count is a \<open>uint64_t\<close>, so none of the sums below reaches \<open>2 ^ 64\<close>.
\<close>

subsection \<open>The code\<close>

datatype pnat = Direct u64 | Boxed limbs

definition PL_NAT63_MAX :: u64 where
  "PL_NAT63_MAX = 0x7fffffffffffffff"

text \<open>The tag test of a value word, and the word of a direct nat; \<open>pl_nat63\<close> is only read after the test.\<close>

fun pl_is_nat63 :: "pnat \<Rightarrow> bool" where
  "pl_is_nat63 (Direct w) = True"
| "pl_is_nat63 (Boxed ls) = False"

fun pl_nat63 :: "pnat \<Rightarrow> u64" where
  "pl_nat63 (Direct w) = w"
| "pl_nat63 (Boxed ls) = 0"

definition pl_mk_nat_u64 :: "u64 \<Rightarrow> pnat" where
  "pl_mk_nat_u64 n = (if n \<le> PL_NAT63_MAX then Direct n else Boxed [n])"

text \<open>
  \<open>pl_mk_nat_limbs\<close> allocates and its caller fills the limbs; here the filled array \<open>out\<close> is an
  argument, and \<open>limbs\<close> is the count asked for.
\<close>

definition pl_mk_nat_limbs :: "nat \<Rightarrow> limbs \<Rightarrow> pnat res" where
  "pl_mk_nat_limbs limbs out =
     rbind (assume_c (1 \<le> limbs \<and> limbs < 2 ^ 20) ''nat limb count out of range'')
       (\<lambda>_. Inr (Boxed out))"

text \<open>\<open>while (used > 0 && limb[used - 1] == 0) used--\<close>\<close>

fun trim_used :: "limbs \<Rightarrow> nat \<Rightarrow> nat" where
  "trim_used limb used =
     (if 0 < used \<and> limb ! (used - 1) = 0 then trim_used limb (used - 1) else used)"

declare trim_used.simps [simp del]

fun pl_nat_trim :: "pnat \<Rightarrow> pnat" where
  "pl_nat_trim (Direct w) = Direct w"
| "pl_nat_trim (Boxed limb) =
     (let used = trim_used limb (length limb) in
      if used = 0 then Direct 0
      else if used = 1 \<and> limb ! 0 \<le> PL_NAT63_MAX then Direct (limb ! 0)
      else Boxed (take used limb))"

fun pl_limb_view :: "pnat \<Rightarrow> limbs" where
  "pl_limb_view (Direct w) = (if w = 0 then [] else [w])"
| "pl_limb_view (Boxed ls) = ls"

definition pl_nat_limb_len :: "pnat \<Rightarrow> nat" where
  "pl_nat_limb_len v = length (pl_limb_view v)"

fun pl_nat_limb_at :: "pnat \<Rightarrow> nat \<Rightarrow> u64" where
  "pl_nat_limb_at (Direct w) i = (if i = 0 then w else 0)"
| "pl_nat_limb_at (Boxed ls) i = (if i < length ls then ls ! i else 0)"

text \<open>
  GMP's kernels. Results written through pointers are returned; \<open>mpn_add_1\<close>, \<open>mpn_sub_1\<close>,
  \<open>mpn_add\<close>, \<open>mpn_sub\<close> and \<open>mpn_lshift\<close> also return the carry, borrow or shifted-out limb.
\<close>

record mpn_api =
  mpn_cmp :: "limbs \<Rightarrow> limbs \<Rightarrow> int"
  mpn_add_1 :: "limbs \<Rightarrow> u64 \<Rightarrow> limbs \<times> u64"
  mpn_sub_1 :: "limbs \<Rightarrow> u64 \<Rightarrow> limbs \<times> u64"
  mpn_add :: "limbs \<Rightarrow> limbs \<Rightarrow> limbs \<times> u64"
  mpn_sub :: "limbs \<Rightarrow> limbs \<Rightarrow> limbs \<times> u64"
  mpn_mul :: "limbs \<Rightarrow> limbs \<Rightarrow> limbs"
  mpn_tdiv_qr :: "limbs \<Rightarrow> limbs \<Rightarrow> limbs \<times> limbs"
  mpn_lshift :: "limbs \<Rightarrow> nat \<Rightarrow> limbs \<times> u64"
  mpn_rshift :: "limbs \<Rightarrow> nat \<Rightarrow> limbs \<times> u64"

definition pl_nat_cmp :: "mpn_api \<Rightarrow> pnat \<Rightarrow> pnat \<Rightarrow> int" where
  "pl_nat_cmp M a b =
     (if pl_is_nat63 a \<and> pl_is_nat63 b
      then if pl_nat63 a < pl_nat63 b then - 1 else if pl_nat63 b < pl_nat63 a then 1 else 0
      else if a = b then 0
      else let la = pl_limb_view a; lb = pl_limb_view b in
        if length la \<noteq> length lb then (if length la < length lb then - 1 else 1)
        else if length la = 0 then 0 else mpn_cmp M la lb)"

definition pl_nat_eq :: "mpn_api \<Rightarrow> pnat \<Rightarrow> pnat \<Rightarrow> bool" where
  "pl_nat_eq M a b = (pl_nat_cmp M a b = 0)"

definition pl_nat_is_zero :: "pnat \<Rightarrow> bool" where
  "pl_nat_is_zero v = (v = Direct 0)"

fun pl_nat_u64_clamp :: "pnat \<Rightarrow> u64" where
  "pl_nat_u64_clamp (Direct w) = w"
| "pl_nat_u64_clamp (Boxed ls) =
     (if length ls = 0 then 0 else if length ls = 1 then ls ! 0 else - 1)"

text \<open>\<open>__builtin_clzll\<close>, the number of leading zero bits.\<close>

definition clzll :: "u64 \<Rightarrow> nat" where
  "clzll w = length (takeWhile (\<lambda>i. \<not> bit w (63 - i)) [0..<64])"

definition pl_nat_bit_len :: "pnat \<Rightarrow> nat" where
  "pl_nat_bit_len v =
     (let l = pl_limb_view v in
      if length l = 0 then 0 else (length l - 1) * 64 + (64 - clzll (l ! (length l - 1))))"

definition pl_nat_byte_len :: "pnat \<Rightarrow> nat" where
  "pl_nat_byte_len v = (pl_nat_bit_len v + 7) div 8"

definition pl_nat_byte_at :: "pnat \<Rightarrow> nat \<Rightarrow> u8" where
  "pl_nat_byte_at v i = ucast (drop_bit ((i mod 8) * 8) (pl_nat_limb_at v (i div 8)))"

definition pl_nat_test_bit :: "pnat \<Rightarrow> pnat \<Rightarrow> bool" where
  "pl_nat_test_bit bit_v a =
     (let i = unat (pl_nat_u64_clamp bit_v) in
      if pl_nat_limb_len a \<le> i div 64 then False
      else drop_bit (i mod 64) (pl_nat_limb_at a (i div 64)) AND 1 \<noteq> 0)"

text \<open>The arithmetic. \<open>nat_result\<close> is the closing sequence every operation shares: allocate, fill, trim.\<close>

definition nat_result :: "nat \<Rightarrow> limbs \<Rightarrow> pnat res" where
  "nat_result lr out = rbind (pl_mk_nat_limbs lr out) (\<lambda>r. Inr (pl_nat_trim r))"

definition pl_nat_inc :: "mpn_api \<Rightarrow> pnat \<Rightarrow> pnat res" where
  "pl_nat_inc M a =
     (if pl_is_nat63 a \<and> pl_nat63 a < PL_NAT63_MAX then Inr (Direct (pl_nat63 a + 1))
      else let la = pl_nat_limb_len a;
               (out, carry) = mpn_add_1 M (pl_limb_view a) 1
           in nat_result (la + 1) (out @ [carry]))"

definition pl_nat_dec :: "mpn_api \<Rightarrow> pnat \<Rightarrow> pnat res" where
  "pl_nat_dec M a =
     (if pl_is_nat63 a then Inr (Direct (if pl_nat63 a = 0 then 0 else pl_nat63 a - 1))
      else nat_result (pl_nat_limb_len a) (fst (mpn_sub_1 M (pl_limb_view a) 1)))"

definition pl_nat_add :: "mpn_api \<Rightarrow> pnat \<Rightarrow> pnat \<Rightarrow> pnat res" where
  "pl_nat_add M a b =
     (let s = pl_nat63 a + pl_nat63 b in
      if pl_is_nat63 a \<and> pl_is_nat63 b \<and> unat (pl_nat63 a) + unat (pl_nat63 b) < 2 ^ 64 \<and>
         s \<le> PL_NAT63_MAX
      then Inr (Direct s)
      else let la = pl_nat_limb_len a; lb = pl_nat_limb_len b; lr = max la lb + 1;
               x = pl_limb_view a; y = pl_limb_view b;
               (va, vb) = (if length x < length y then (y, x) else (x, y));
               (out, carry) = (if length vb \<noteq> 0 then mpn_add M va vb else (va, 0))
           in nat_result lr (out @ [carry] @ replicate (lr - (length va + 1)) 0))"

definition pl_nat_sub :: "mpn_api \<Rightarrow> pnat \<Rightarrow> pnat \<Rightarrow> pnat res" where
  "pl_nat_sub M a b =
     (if pl_is_nat63 a \<and> pl_is_nat63 b
      then Inr (Direct (if pl_nat63 b < pl_nat63 a then pl_nat63 a - pl_nat63 b else 0))
      else if 0 \<le> pl_nat_cmp M b a then Inr (Direct 0)
      else nat_result (pl_nat_limb_len a) (fst (mpn_sub M (pl_limb_view a) (pl_limb_view b))))"

definition pl_nat_mul :: "mpn_api \<Rightarrow> pnat \<Rightarrow> pnat \<Rightarrow> pnat res" where
  "pl_nat_mul M a b =
     (let p = pl_nat63 a * pl_nat63 b in
      if pl_is_nat63 a \<and> pl_is_nat63 b \<and> unat (pl_nat63 a) * unat (pl_nat63 b) < 2 ^ 64 \<and>
         p \<le> PL_NAT63_MAX
      then Inr (Direct p)
      else if a = Direct 0 \<or> b = Direct 0 then Inr (Direct 0)
      else let lr = pl_nat_limb_len a + pl_nat_limb_len b;
               va = pl_limb_view a; vb = pl_limb_view b
           in nat_result lr (if length vb \<le> length va then mpn_mul M va vb else mpn_mul M vb va))"

definition pl_nat_divmod :: "mpn_api \<Rightarrow> pnat \<Rightarrow> pnat \<Rightarrow> bool \<Rightarrow> pnat res" where
  "pl_nat_divmod M a b want_mod =
     (if b = Direct 0 then Inl (Raise ''division by zero'')
      else if pl_is_nat63 a \<and> pl_is_nat63 b
      then Inr (Direct (if want_mod then pl_nat63 a mod pl_nat63 b else pl_nat63 a div pl_nat63 b))
      else if pl_nat_cmp M a b < 0 then Inr (if want_mod then a else Direct 0)
      else let la = pl_nat_limb_len a; lb = pl_nat_limb_len b; lq = la - lb + 1;
               (qp, rp) = mpn_tdiv_qr M (pl_limb_view a) (pl_limb_view b)
           in rbind (nat_result lq qp) (\<lambda>q.
              rbind (nat_result lb rp) (\<lambda>r.
              Inr (if want_mod then r else q))))"

definition pl_nat_div :: "mpn_api \<Rightarrow> pnat \<Rightarrow> pnat \<Rightarrow> pnat res" where
  "pl_nat_div M a b = pl_nat_divmod M a b False"

definition pl_nat_mod :: "mpn_api \<Rightarrow> pnat \<Rightarrow> pnat \<Rightarrow> pnat res" where
  "pl_nat_mod M a b = pl_nat_divmod M a b True"

definition pl_nat_lsh :: "mpn_api \<Rightarrow> pnat \<Rightarrow> pnat \<Rightarrow> pnat res" where
  "pl_nat_lsh M a sh =
     (if a = Direct 0 then Inr (Direct 0)
      else let cnt = unat (pl_nat_u64_clamp sh); la = pl_nat_limb_len a;
               limb_shift = cnt div 64; bit_shift = cnt mod 64;
               lr = la + limb_shift + 1; va = pl_limb_view a
           in rbind (assume_c (lr < 2 ^ 20) ''left shift result too large'') (\<lambda>_.
              nat_result lr (replicate limb_shift 0 @
                (if bit_shift = 0 then va @ [0]
                 else let (out, carry) = mpn_lshift M va bit_shift in out @ [carry]))))"

definition pl_nat_rsh :: "mpn_api \<Rightarrow> pnat \<Rightarrow> pnat \<Rightarrow> pnat res" where
  "pl_nat_rsh M a sh =
     (let cnt = unat (pl_nat_u64_clamp sh); la = pl_nat_limb_len a;
          limb_shift = cnt div 64; bit_shift = cnt mod 64
      in if la \<le> limb_shift then Inr (Direct 0)
         else let lr = la - limb_shift in
           if pl_is_nat63 a then Inr (Direct (drop_bit cnt (pl_nat63 a)))
           else nat_result lr
             (if bit_shift = 0 then drop limb_shift (pl_limb_view a)
              else fst (mpn_rshift M (drop limb_shift (pl_limb_view a)) bit_shift)))"

definition pl_nat_bex :: "pnat \<Rightarrow> pnat res" where
  "pl_nat_bex bits =
     (let n = unat (pl_nat_u64_clamp bits) in
      if n < 63 then Inr (Direct (push_bit n 1))
      else let lr = n div 64 + 1
           in rbind (assume_c (lr < 2 ^ 20) ''bex result too large'') (\<lambda>_.
              nat_result lr ((replicate lr 0)[n div 64 := push_bit (n mod 64) 1])))"

definition pl_nat_set_bit :: "pnat \<Rightarrow> pnat \<Rightarrow> pnat res" where
  "pl_nat_set_bit bit_v a =
     (let i = unat (pl_nat_u64_clamp bit_v) in
      if pl_is_nat63 a \<and> i < 63 then Inr (Direct (pl_nat63 a OR push_bit i 1))
      else let la = pl_nat_limb_len a; lr = (if la < i div 64 + 1 then i div 64 + 1 else la);
               out = pl_limb_view a @ replicate (lr - la) 0
           in rbind (assume_c (lr < 2 ^ 20) ''set-bit result too large'') (\<lambda>_.
              nat_result lr (out[i div 64 := out ! (i div 64) OR push_bit (i mod 64) 1])))"

definition pl_nat_clear_bit :: "pnat \<Rightarrow> pnat \<Rightarrow> pnat res" where
  "pl_nat_clear_bit bit_v a =
     (let i = unat (pl_nat_u64_clamp bit_v) in
      if pl_is_nat63 a
      then Inr (if i < 63 then Direct (pl_nat63 a AND NOT (push_bit i 1)) else a)
      else let la = pl_nat_limb_len a; out = pl_limb_view a
           in if la \<le> i div 64 then Inr a
              else nat_result la
                (out[i div 64 := out ! (i div 64) AND NOT (push_bit (i mod 64) 1)]))"

definition pl_nat_trunc :: "pnat \<Rightarrow> pnat \<Rightarrow> pnat res" where
  "pl_nat_trunc width a =
     (let w = unat (pl_nat_u64_clamp width) in
      if w = 0 then Inr (Direct 0)
      else if pl_nat_bit_len a \<le> w then Inr a
      else if pl_is_nat63 a
      then Inr (if 63 \<le> w then a else Direct (pl_nat63 a AND (push_bit w 1 - 1)))
      else let lr = (w + 63) div 64; out = take lr (pl_limb_view a)
           in nat_result lr
             (if w mod 64 \<noteq> 0 then out[lr - 1 := out ! (lr - 1) AND (push_bit (w mod 64) 1 - 1)]
              else out))"

definition clamp_to_width :: "nat \<Rightarrow> u64 \<Rightarrow> u64" where
  "clamp_to_width w a = (if 8 \<le> w then a else a AND (push_bit (w * 8) 1 - 1))"

definition pl_nat_load_var :: "pnat \<Rightarrow> pnat \<Rightarrow> pnat \<Rightarrow> pnat res" where
  "pl_nat_load_var off width a =
     (let w = unat (pl_nat_u64_clamp width); k = unat (pl_nat_u64_clamp off) in
      if w = 0 then Inr (Direct 0)
      else if pl_is_nat63 a
      then Inr (Direct (if 8 \<le> k then 0 else clamp_to_width w (drop_bit (8 * k) (pl_nat63 a))))
      else let avail = pl_nat_limb_len a * 8 in
        if avail \<le> k then Inr (Direct 0)
        else let n = (if avail - k < w then avail - k else w); lr = (n + 7) div 8
             in nat_result lr (bytes_limbs lr (take n (drop k (limb_bytes (pl_limb_view a))))))"

text \<open>The byte argument has been through \<open>pl_nat_coerce\<close>.\<close>

definition pl_nat_store_byte :: "pnat \<Rightarrow> pnat \<Rightarrow> pnat \<Rightarrow> pnat res" where
  "pl_nat_store_byte idx byte a =
     (let i = unat (pl_nat_u64_clamp idx);
          b = ucast (pl_nat_u64_clamp byte) :: u8;
          la = pl_nat_limb_len a;
          lr = (if i div 8 + 1 < la then la else i div 8 + 1)
      in rbind (assume_c (lr < 2 ^ 20) ''store-byte result too large'') (\<lambda>_.
         let out = limb_bytes (pl_limb_view a @ replicate (lr - la) 0)
         in nat_result lr (bytes_limbs lr (out[i := b]))))"

text \<open>\<open>while (n > 0 && b[n - 1] == 0) n--\<close>\<close>

fun byte_used :: "bytes \<Rightarrow> nat \<Rightarrow> nat" where
  "byte_used b n = (if 0 < n \<and> b ! (n - 1) = 0 then byte_used b (n - 1) else n)"

declare byte_used.simps [simp del]

definition pl_nat_from_bytes :: "bytes \<Rightarrow> pnat res" where
  "pl_nat_from_bytes b =
     (let n = byte_used b (length b) in
      if n = 0 then Inr (Direct 0)
      else if n < 8 then Inr (Direct (word_of_nat (bval (take n b))))
      else let limbs = (n + 7) div 8 in nat_result limbs (bytes_limbs limbs (take n b)))"

text \<open>
  GMP's integer reader is a parameter: \<open>mpz_set_str\<close> in base 10 (\<open>None\<close> when it reports an
  error) and the limbs \<open>mpz_export\<close> writes, \<open>mpz_size\<close> of them. The text copied into the buffer
  ends at its first NUL. The result pairs the value with the flag \<open>ok\<close>.
\<close>

record mpz_api =
  mpz_set_str :: "string \<Rightarrow> int option"
  mpz_limbs :: "int \<Rightarrow> limbs"

definition pl_nat_from_decimal :: "mpz_api \<Rightarrow> string \<Rightarrow> (pnat \<times> bool) res" where
  "pl_nat_from_decimal Z s = (case mpz_set_str Z (takeWhile (\<lambda>c. c \<noteq> CHR 0x00) s) of
     None \<Rightarrow> Inr (Direct 0, False)
   | Some z \<Rightarrow>
       if z < 0 then Inr (Direct 0, False)
       else let limbs = length (mpz_limbs Z z) in
         if limbs = 0 then Inr (Direct 0, True)
         else rbind (nat_result limbs (mpz_limbs Z z)) (\<lambda>r. Inr (r, True)))"

subsection \<open>The number a nat denotes and its one representation\<close>

definition nval :: "pnat \<Rightarrow> nat" where
  "nval v = lval (pl_limb_view v)"

text \<open>The form every nat of the runtime has, which the collector and the comparisons rely on.\<close>

fun nat_ok :: "pnat \<Rightarrow> bool" where
  "nat_ok (Direct w) = (w \<le> PL_NAT63_MAX)"
| "nat_ok (Boxed ls) =
     (ls \<noteq> [] \<and> last ls \<noteq> 0 \<and> length ls < 2 ^ 20 \<and> \<not> (length ls = 1 \<and> ls ! 0 \<le> PL_NAT63_MAX))"

fun nlimbs :: "nat \<Rightarrow> nat" where
  "nlimbs n = (if n = 0 then 0 else Suc (nlimbs (n div 2 ^ 64)))"

declare nlimbs.simps [simp del]

definition nat_limbs :: "nat \<Rightarrow> limbs" where
  "nat_limbs n = limbs_of (nlimbs n) n"

definition nat_rep :: "nat \<Rightarrow> pnat" where
  "nat_rep n = (if n < 2 ^ 63 then Direct (word_of_nat n) else Boxed (nat_limbs n))"

lemma nlimbs_0 [simp]: "nlimbs 0 = 0"
  by (simp add: nlimbs.simps)

lemma nlimbs_le_iff: "nlimbs n \<le> k \<longleftrightarrow> n < (2 ^ 64) ^ k"
proof (induction n arbitrary: k rule: nlimbs.induct)
  case (1 n)
  show ?case
  proof (cases "n = 0")
    case False
    note IH = 1[OF False]
    show ?thesis
    proof (cases k)
      case (Suc j)
      have "nlimbs n \<le> k \<longleftrightarrow> nlimbs (n div 2 ^ 64) \<le> j" using False Suc by (simp add: nlimbs.simps[of n])
      also have "\<dots> \<longleftrightarrow> n div 2 ^ 64 < (2 ^ 64) ^ j" by (rule IH)
      also have "\<dots> \<longleftrightarrow> n < (2 ^ 64) ^ k"
        unfolding Suc power_Suc by (subst div_less_iff_less_mult) (simp_all add: mult.commute)
      finally show ?thesis .
    qed (use False in \<open>simp add: nlimbs.simps[of n]\<close>)
  qed simp
qed

lemma nlimbs_mono: "m \<le> n \<Longrightarrow> nlimbs m \<le> nlimbs n"
  using nlimbs_le_iff[of n "nlimbs n"] nlimbs_le_iff[of m "nlimbs n"] by simp

lemma nlimbs_lval:
  assumes "ls = [] \<or> last ls \<noteq> 0"
  shows "nlimbs (lval ls) = length ls"
proof (rule antisym)
  show "nlimbs (lval ls) \<le> length ls" unfolding nlimbs_le_iff by (rule lval_less)
  show "length ls \<le> nlimbs (lval ls)"
  proof (rule ccontr)
    assume "\<not> length ls \<le> nlimbs (lval ls)"
    then have "nlimbs (lval ls) \<le> length ls - 1" "ls \<noteq> []" by auto
    then show False using lval_ge_top[of ls] assms unfolding nlimbs_le_iff by simp
  qed
qed

lemma length_nat_limbs [simp]: "length (nat_limbs n) = nlimbs n"
  by (simp add: nat_limbs_def)

lemma lval_nat_limbs [simp]: "lval (nat_limbs n) = n"
  using nlimbs_le_iff[of n "nlimbs n"] by (simp add: nat_limbs_def lval_limbs_of)

lemma limbs_of_lval: "limbs_of (length ls) (lval ls) = ls"
  by (rule lval_inject) (simp_all add: lval_limbs_of lval_lt)

lemma le_nat63: "w \<le> PL_NAT63_MAX \<longleftrightarrow> unat w < 2 ^ 63"
  by (auto simp: PL_NAT63_MAX_def word_le_nat_alt)

lemma nval_simps [simp]:
  "nval (Direct w) = unat w"
  "nval (Boxed ls) = lval ls"
  by (simp_all add: nval_def)

lemma nlimbs_one: "nlimbs n = 1 \<longleftrightarrow> 0 < n \<and> n < 2 ^ 64"
  using nlimbs_le_iff[of n 1] nlimbs_le_iff[of n 0] by auto

lemma limbs_of_0 [simp]: "limbs_of k 0 = replicate k 0"
  by (induction k) simp_all

lemma boxed_ge:
  assumes "ls \<noteq> []" "last ls \<noteq> 0" "\<not> (length ls = 1 \<and> ls ! 0 \<le> PL_NAT63_MAX)"
  shows "2 ^ 63 \<le> lval ls"
proof (cases "length ls = 1")
  case True
  then obtain w where "ls = [w]" by (cases ls) auto
  with assms show ?thesis by (simp add: le_nat63)
next
  case False
  with assms(1) obtain k where k: "length ls - 1 = Suc k" by (cases ls; cases "tl ls") auto
  have "(2 ^ 63 :: nat) \<le> (2 ^ 64) ^ Suc k" by (rule order.trans[of _ "2 ^ 64"]) simp_all
  also have "\<dots> \<le> lval ls" using lval_ge_top[OF assms(1,2)] k by simp
  finally show ?thesis .
qed

lemma nat_ok_rep: "nat_ok v \<Longrightarrow> v = nat_rep (nval v)"
proof (cases v)
  case (Direct w)
  assume "nat_ok v"
  then show ?thesis using Direct by (simp add: nat_rep_def le_nat63)
next
  case (Boxed ls)
  assume "nat_ok v"
  then have "2 ^ 63 \<le> lval ls" using Boxed boxed_ge by simp
  then show ?thesis using Boxed \<open>nat_ok v\<close> by (simp add: nat_rep_def nat_limbs_def nlimbs_lval limbs_of_lval)
qed

lemma nval_nat_rep [simp]: "nval (nat_rep n) = n"
  by (simp add: nat_rep_def unsigned_of_nat take_bit_eq_mod)

lemma nat_limbs_step: "0 < n \<Longrightarrow> nat_limbs n = word_of_nat n # nat_limbs (n div 2 ^ 64)"
  by (simp add: nat_limbs_def nlimbs.simps[of n])

lemma nat_limbs_Nil [simp]: "nat_limbs n = [] \<longleftrightarrow> n = 0"
  by (cases "n = 0") (simp_all add: nat_limbs_step, simp add: nat_limbs_def)

lemma last_nat_limbs:
  assumes "0 < n"
  shows "last (nat_limbs n) \<noteq> 0"
  using assms
proof (induction n rule: nlimbs.induct)
  case (1 n)
  show ?case
  proof (cases "n div 2 ^ 64 = 0")
    case True
    then have "n < 2 ^ 64" by (simp add: div_eq_0_iff)
    with 1 True show ?thesis by (simp add: nat_limbs_step word_of_nat_eq_0_iff nat_dvd_not_less)
  next
    case False
    with 1 show ?thesis by (simp add: nat_limbs_step)
  qed
qed

lemma nlimbs_pos [simp]: "0 < nlimbs n \<longleftrightarrow> 0 < n"
  by (simp add: nlimbs.simps[of n])

lemma nlimbs_eq_0 [simp]: "nlimbs n = 0 \<longleftrightarrow> n = 0"
  by (simp add: nlimbs.simps[of n])

lemma nat_ok_nat_rep: "nat_ok (nat_rep n) \<longleftrightarrow> nlimbs n < 2 ^ 20"
proof (cases "n < 2 ^ 63")
  case True
  then have "nlimbs n \<le> 1" unfolding nlimbs_le_iff by simp
  with True show ?thesis by (simp add: nat_rep_def le_nat63 unsigned_of_nat take_bit_eq_mod)
next
  case False
  have "\<not> unat (nat_limbs n ! 0) < 2 ^ 63" if "nlimbs n = 1"
    using that False nlimbs_one[of n] by (simp add: nat_limbs_step unsigned_of_nat take_bit_eq_mod)
  then show ?thesis using False last_nat_limbs[of n] by (auto simp: nat_rep_def le_nat63)
qed

lemma nat_rep_0 [simp]: "nat_rep 0 = Direct 0"
  by (simp add: nat_rep_def)

lemma Direct_rep: "unat w < 2 ^ 63 \<Longrightarrow> Direct w = nat_rep (unat w)"
  by (simp add: nat_rep_def)

lemma nat_rep_inject [simp]: "nat_rep m = nat_rep n \<longleftrightarrow> m = n"
  by (metis nval_nat_rep)

lemma limb_view_rep [simp]: "pl_limb_view (nat_rep n) = nat_limbs n"
proof (cases "n < 2 ^ 63")
  case True
  then show ?thesis
  proof (cases "n = 0")
    case False
    with True have "nlimbs n = 1" unfolding nlimbs_one by simp
    moreover have "word_of_nat n \<noteq> (0 :: u64)"
      using True False by (auto simp: word_of_nat_eq_0_iff dest: dvd_imp_le)
    ultimately show ?thesis using True by (simp add: nat_rep_def nat_limbs_def)
  qed (simp add: nat_limbs_def)
next
  case False
  then show ?thesis by (simp add: nat_rep_def)
qed

lemma limb_len_rep [simp]: "pl_nat_limb_len (nat_rep n) = nlimbs n"
  by (simp add: pl_nat_limb_len_def limb_view_rep)

lemma is_nat63_rep [simp]: "pl_is_nat63 (nat_rep n) \<longleftrightarrow> n < 2 ^ 63"
  by (simp add: nat_rep_def)

lemma nat63_rep: "n < 2 ^ 63 \<Longrightarrow> pl_nat63 (nat_rep n) = word_of_nat n"
  by (simp add: nat_rep_def)

lemma trim_used_step:
  "0 < used \<and> limb ! (used - 1) = 0 \<Longrightarrow> trim_used limb used = trim_used limb (used - 1)"
  "\<not> (0 < used \<and> limb ! (used - 1) = 0) \<Longrightarrow> trim_used limb used = used"
  using trim_used.simps[of limb used] by auto

lemma trim_used_spec:
  assumes "used \<le> length limb"
  shows "trim_used limb used \<le> used \<and> lval (take (trim_used limb used) limb) = lval (take used limb) \<and>
    (trim_used limb used = 0 \<or> limb ! (trim_used limb used - 1) \<noteq> 0)"
  using assms
proof (induction limb used rule: trim_used.induct)
  case (1 limb used)
  show ?case
  proof (cases "0 < used \<and> limb ! (used - 1) = 0")
    case True
    have "take used limb = take (used - 1) limb @ [limb ! (used - 1)]"
      using True 1(2) by (cases used) (auto simp: take_Suc_conv_app_nth)
    then have "lval (take used limb) = lval (take (used - 1) limb)" using True by (simp add: lval_append)
    then show ?thesis using 1(1)[OF True le_trans[OF diff_le_self 1(2)]]
      unfolding trim_used_step(1)[OF True] by (auto dest: le_trans[OF _ diff_le_self])
  next
    case False
    then show ?thesis unfolding trim_used_step(2)[OF False] by auto
  qed
qed

lemma last_take_nth: "0 < u \<Longrightarrow> u \<le> length ls \<Longrightarrow> last (take u ls) = ls ! (u - 1)"
  by (cases u) (auto simp: take_Suc_conv_app_nth)

lemma no_borrow: "x + n = m + B * c \<Longrightarrow> x < B \<Longrightarrow> n \<le> m \<Longrightarrow> c = 0" for c :: nat
  by (cases c) auto

lemma pow64_split: "(2 ^ 64) ^ (k div 64) * 2 ^ (k mod 64) = (2 :: nat) ^ k"
  by (simp only: power_mult[symmetric] power_add[symmetric] mult_div_mod_eq)

lemma nat_trim_spec: "length ls < 2 ^ 20 \<Longrightarrow> pl_nat_trim (Boxed ls) = nat_rep (lval ls)"
proof -
  assume len: "length ls < 2 ^ 20"
  define u where "u = trim_used ls (length ls)"
  have u: "u \<le> length ls" "lval (take u ls) = lval ls" "u = 0 \<or> ls ! (u - 1) \<noteq> 0"
    using trim_used_spec[of "length ls" ls] by (auto simp: u_def)
  have v: "pl_nat_trim (Boxed ls) =
      (if u = 0 then Direct 0 else if u = 1 \<and> ls ! 0 \<le> PL_NAT63_MAX then Direct (ls ! 0)
       else Boxed (take u ls))" by (simp add: u_def Let_def)
  have "nval (pl_nat_trim (Boxed ls)) = lval ls"
    using u unfolding v by (cases ls) auto
  moreover have "nat_ok (pl_nat_trim (Boxed ls))"
    using u len unfolding v by (auto simp: last_take_nth min_def)
  ultimately show ?thesis using nat_ok_rep by metis
qed

lemma nat_result_spec:
  "length out = lr \<Longrightarrow> 1 \<le> lr \<Longrightarrow> lr < 2 ^ 20 \<Longrightarrow> nat_result lr out = Inr (nat_rep (lval out))"
  unfolding nat_result_def pl_mk_nat_limbs_def rbind_assume using nat_trim_spec[of out] by simp

subsection \<open>GMP's contract\<close>

locale mpn =
  fixes M :: mpn_api
  assumes cmp: "length xs = length ys \<Longrightarrow> sgn (mpn_cmp M xs ys) = sgn (int (lval xs) - int (lval ys))"
    and add_1: "xs \<noteq> [] \<Longrightarrow> mpn_add_1 M xs w = (out, c) \<Longrightarrow>
      length out = length xs \<and> lval out + (2 ^ 64) ^ length xs * unat c = lval xs + unat w"
    and sub_1: "xs \<noteq> [] \<Longrightarrow> mpn_sub_1 M xs w = (out, c) \<Longrightarrow>
      length out = length xs \<and> lval out + unat w = lval xs + (2 ^ 64) ^ length xs * unat c"
    and add: "length ys \<le> length xs \<Longrightarrow> ys \<noteq> [] \<Longrightarrow> mpn_add M xs ys = (out, c) \<Longrightarrow>
      length out = length xs \<and> lval out + (2 ^ 64) ^ length xs * unat c = lval xs + lval ys"
    and sub: "length ys \<le> length xs \<Longrightarrow> mpn_sub M xs ys = (out, c) \<Longrightarrow>
      length out = length xs \<and> lval out + lval ys = lval xs + (2 ^ 64) ^ length xs * unat c"
    and mul: "length ys \<le> length xs \<Longrightarrow> ys \<noteq> [] \<Longrightarrow>
      length (mpn_mul M xs ys) = length xs + length ys \<and> lval (mpn_mul M xs ys) = lval xs * lval ys"
    and tdiv: "length ds \<le> length ns \<Longrightarrow> ds \<noteq> [] \<Longrightarrow> last ds \<noteq> 0 \<Longrightarrow> mpn_tdiv_qr M ns ds = (q, r) \<Longrightarrow>
      length q = length ns - length ds + 1 \<and> length r = length ds \<and>
      lval q = lval ns div lval ds \<and> lval r = lval ns mod lval ds"
    and lshift: "xs \<noteq> [] \<Longrightarrow> 1 \<le> k \<Longrightarrow> k < 64 \<Longrightarrow> mpn_lshift M xs k = (out, c) \<Longrightarrow>
      length out = length xs \<and> lval out + (2 ^ 64) ^ length xs * unat c = lval xs * 2 ^ k"
    and rshift: "xs \<noteq> [] \<Longrightarrow> 1 \<le> k \<Longrightarrow> k < 64 \<Longrightarrow> mpn_rshift M xs k = (out, c) \<Longrightarrow>
      length out = length xs \<and> lval out = lval xs div 2 ^ k"
begin

lemma cmp_spec: "sgn (pl_nat_cmp M (nat_rep m) (nat_rep n)) = sgn (int m - int n)"
proof (cases "m < 2 ^ 63 \<and> n < 2 ^ 63")
  case True
  then show ?thesis
    by (auto simp: pl_nat_cmp_def nat63_rep word_less_nat_alt unsigned_of_nat take_bit_eq_mod)
next
  case False
  have lt: "nlimbs x < nlimbs y \<Longrightarrow> x < y" for x y
    using nlimbs_mono[of y x] by (meson leD linorder_le_less_linear)
  have nd: "\<not> (pl_is_nat63 (nat_rep m) \<and> pl_is_nat63 (nat_rep n))" using False by simp
  have "sgn (mpn_cmp M (nat_limbs m) (nat_limbs n)) = sgn (int m - int n)" if "nlimbs m = nlimbs n"
    using cmp[of "nat_limbs m" "nat_limbs n"] that by simp
  moreover have "nlimbs m = nlimbs n \<Longrightarrow> m = 0 \<longleftrightarrow> n = 0" by (metis nlimbs_eq_0)
  ultimately show ?thesis unfolding pl_nat_cmp_def if_not_P[OF nd]
    using lt[of m n] lt[of n m] by (auto simp: Let_def sgn_if split: if_splits)
qed

lemma cmp_order:
  "pl_nat_cmp M (nat_rep m) (nat_rep n) < 0 \<longleftrightarrow> m < n"
  "0 \<le> pl_nat_cmp M (nat_rep m) (nat_rep n) \<longleftrightarrow> n \<le> m"
  "pl_nat_cmp M (nat_rep m) (nat_rep n) = 0 \<longleftrightarrow> m = n"
  using cmp_spec[of m n] by (auto simp: sgn_if split: if_splits)

lemma inc_spec:
  assumes "nlimbs m + 1 < 2 ^ 20"
  shows "pl_nat_inc M (nat_rep m) = Inr (nat_rep (m + 1))"
proof (cases "m < 2 ^ 63 - 1")
  case True
  then show ?thesis
    by (simp add: pl_nat_inc_def nat63_rep PL_NAT63_MAX_def word_less_nat_alt unsigned_of_nat
        take_bit_eq_mod) (simp add: nat_rep_def)
next
  case False
  then have m: "0 < m" by simp
  obtain out c where oc: "mpn_add_1 M (nat_limbs m) 1 = (out, c)" by force
  have "lval (out @ [c]) = m + 1" "length (out @ [c]) = nlimbs m + 1"
    using add_1[OF _ oc] m by (simp_all add: lval_append)
  then have "nat_result (nlimbs m + 1) (out @ [c]) = Inr (nat_rep (m + 1))"
    using nat_result_spec[of "out @ [c]" "nlimbs m + 1"] assms by simp
  moreover have "\<not> (pl_is_nat63 (nat_rep m) \<and> pl_nat63 (nat_rep m) < PL_NAT63_MAX)"
    using False by (auto simp: nat63_rep PL_NAT63_MAX_def word_less_nat_alt unsigned_of_nat take_bit_eq_mod)
  ultimately show ?thesis
    unfolding pl_nat_inc_def by (simp only: limb_len_rep limb_view_rep oc Let_def prod.case if_False)
qed

lemma dec_spec:
  assumes "nlimbs m < 2 ^ 20"
  shows "pl_nat_dec M (nat_rep m) = Inr (nat_rep (m - 1))"
proof (cases "m < 2 ^ 63")
  case True
  then have "unat (word_of_nat m :: u64) = m" by (simp add: unsigned_of_nat take_bit_eq_mod)
  moreover have "word_of_nat m - 1 = (word_of_nat (m - 1) :: u64)" if "m \<noteq> 0"
    using that by (cases m) simp_all
  moreover have "word_of_nat m = (0 :: u64) \<longleftrightarrow> m = 0" using calculation(1) by auto
  ultimately show ?thesis using True by (auto simp: pl_nat_dec_def nat63_rep nat_rep_def)
next
  case False
  then have m: "0 < m" by simp
  obtain out c where oc: "mpn_sub_1 M (nat_limbs m) 1 = (out, c)" by force
  then have eq: "length out = nlimbs m" "lval out + 1 = m + (2 ^ 64) ^ nlimbs m * unat c"
    using sub_1[OF _ oc] m by simp_all
  have "unat c = 0" using no_borrow[OF eq(2)] lval_less[of out] eq(1) m by simp
  then have "lval out = m - 1" using eq by simp
  then have "nat_result (nlimbs m) out = Inr (nat_rep (m - 1))"
    using nat_result_spec[OF eq(1)] assms m by (simp add: Suc_le_eq)
  then show ?thesis using False oc by (simp add: pl_nat_dec_def)
qed

lemma add_spec:
  assumes "max (nlimbs m) (nlimbs n) + 1 < 2 ^ 20"
  shows "pl_nat_add M (nat_rep m) (nat_rep n) = Inr (nat_rep (m + n))"
proof (cases "m < 2 ^ 63 \<and> n < 2 ^ 63 \<and> m + n < 2 ^ 63")
  case True
  then have "unat (word_of_nat m + word_of_nat n :: u64) = m + n"
    by (simp add: unat_word_ariths unsigned_of_nat take_bit_eq_mod)
  with True show ?thesis
    by (simp add: pl_nat_add_def nat63_rep le_nat63 unsigned_of_nat take_bit_eq_mod)
      (simp add: nat_rep_def)
next
  case False
  let ?P = "pl_is_nat63 (nat_rep m) \<and> pl_is_nat63 (nat_rep n) \<and>
    unat (pl_nat63 (nat_rep m)) + unat (pl_nat63 (nat_rep n)) < 2 ^ 64 \<and>
    pl_nat63 (nat_rep m) + pl_nat63 (nat_rep n) \<le> PL_NAT63_MAX"
  have nP: "\<not> ?P"
    using False by (auto simp: nat63_rep le_nat63 unat_word_ariths unsigned_of_nat take_bit_eq_mod)
  define x where "x = (if nlimbs m < nlimbs n then n else m)"
  define y where "y = (if nlimbs m < nlimbs n then m else n)"
  have xy: "x + y = m + n" "nlimbs y \<le> nlimbs x" "nlimbs x = max (nlimbs m) (nlimbs n)"
    by (auto simp: x_def y_def)
  obtain out c where oc: "(if nlimbs y \<noteq> 0 then mpn_add M (nat_limbs x) (nat_limbs y)
      else (nat_limbs x, 0)) = (out, c)" by force
  have eq: "length out = nlimbs x" "lval out + (2 ^ 64) ^ nlimbs x * unat c = x + y"
  proof -
    have "length out = nlimbs x \<and> lval out + (2 ^ 64) ^ nlimbs x * unat c = x + y"
    proof (cases "y = 0")
      case False
      then have "mpn_add M (nat_limbs x) (nat_limbs y) = (out, c)" using oc by simp
      from add[OF _ _ this] show ?thesis using xy False by simp
    qed (use oc in auto)
    then show "length out = nlimbs x" "lval out + (2 ^ 64) ^ nlimbs x * unat c = x + y" by auto
  qed
  have "nat_result (nlimbs x + 1) (out @ [c]) = Inr (nat_rep (m + n))"
    using nat_result_spec[of "out @ [c]" "nlimbs x + 1"] eq assms xy by (simp add: lval_append)
  moreover have "pl_nat_add M (nat_rep m) (nat_rep n) = nat_result (nlimbs x + 1) (out @ [c])"
    unfolding pl_nat_add_def Let_def if_not_P[OF nP]
    using oc xy(3) by (auto simp: x_def y_def split: if_splits)
  ultimately show ?thesis by simp
qed

lemma sub_spec:
  assumes "nlimbs m < 2 ^ 20"
  shows "pl_nat_sub M (nat_rep m) (nat_rep n) = Inr (nat_rep (m - n))"
proof (cases "m < 2 ^ 63 \<and> n < 2 ^ 63")
  case True
  have "word_of_nat m - word_of_nat n = (word_of_nat (m - n) :: u64)" if "n < m"
    using that by simp
  with True show ?thesis
    by (auto simp: pl_nat_sub_def nat63_rep word_less_nat_alt unsigned_of_nat take_bit_eq_mod)
      (auto simp: nat_rep_def)
next
  case False
  then have nd: "\<not> (pl_is_nat63 (nat_rep m) \<and> pl_is_nat63 (nat_rep n))" by simp
  show ?thesis
  proof (cases "m \<le> n")
    case True
    then show ?thesis unfolding pl_nat_sub_def if_not_P[OF nd] by (simp add: cmp_order)
  next
    case False
    obtain out c where oc: "mpn_sub M (nat_limbs m) (nat_limbs n) = (out, c)" by force
    have eq: "length out = nlimbs m" "lval out + n = m + (2 ^ 64) ^ nlimbs m * unat c"
      using sub[OF _ oc] False nlimbs_mono[of n m] by simp_all
    have "unat c = 0" using no_borrow[OF eq(2)] lval_less[of out] eq(1) False by simp
    then have "lval out = m - n" using eq by simp
    then have "nat_result (nlimbs m) out = Inr (nat_rep (m - n))"
      using nat_result_spec[OF eq(1)] assms False by (simp add: Suc_le_eq)
    then show ?thesis using False oc unfolding pl_nat_sub_def if_not_P[OF nd] by (simp add: cmp_order)
  qed
qed

lemma mul_spec:
  assumes "nlimbs m + nlimbs n < 2 ^ 20"
  shows "pl_nat_mul M (nat_rep m) (nat_rep n) = Inr (nat_rep (m * n))"
proof (cases "m < 2 ^ 63 \<and> n < 2 ^ 63 \<and> m * n < 2 ^ 63")
  case True
  then have "unat (word_of_nat m * word_of_nat n :: u64) = m * n"
    by (simp add: unat_word_ariths unsigned_of_nat take_bit_eq_mod)
  with True show ?thesis
    by (simp add: pl_nat_mul_def nat63_rep le_nat63 unsigned_of_nat take_bit_eq_mod)
      (simp add: nat_rep_def)
next
  case False
  let ?P = "pl_is_nat63 (nat_rep m) \<and> pl_is_nat63 (nat_rep n) \<and>
    unat (pl_nat63 (nat_rep m)) * unat (pl_nat63 (nat_rep n)) < 2 ^ 64 \<and>
    pl_nat63 (nat_rep m) * pl_nat63 (nat_rep n) \<le> PL_NAT63_MAX"
  have nP: "\<not> ?P"
    using False by (auto simp: nat63_rep le_nat63 unat_word_ariths unsigned_of_nat take_bit_eq_mod)
  show ?thesis
  proof (cases "m = 0 \<or> n = 0")
    case True
    then show ?thesis unfolding pl_nat_mul_def Let_def if_not_P[OF nP] by auto
  next
    case nz': False
    then have nz: "m \<noteq> 0" "n \<noteq> 0" by auto
    then have rep_nz: "nat_rep m \<noteq> Direct 0" "nat_rep n \<noteq> Direct 0"
      using nat_rep_inject[of m 0] nat_rep_inject[of n 0] by auto
    define out where "out = (if nlimbs n \<le> nlimbs m then mpn_mul M (nat_limbs m) (nat_limbs n)
      else mpn_mul M (nat_limbs n) (nat_limbs m))"
    have "length out = nlimbs m + nlimbs n" "lval out = m * n"
      using mul[of "nat_limbs n" "nat_limbs m"] mul[of "nat_limbs m" "nat_limbs n"] nz
      by (auto simp: out_def mult.commute)
    then have "nat_result (nlimbs m + nlimbs n) out = Inr (nat_rep (m * n))"
      using nat_result_spec[of out "nlimbs m + nlimbs n"] assms nz by (simp add: Suc_le_eq)
    then show ?thesis
      unfolding pl_nat_mul_def Let_def if_not_P[OF nP] using rep_nz by (auto simp: out_def)
  qed
qed

lemma divmod_spec:
  assumes "nlimbs m < 2 ^ 20" "n \<noteq> 0"
  shows "pl_nat_divmod M (nat_rep m) (nat_rep n) want = Inr (nat_rep (if want then m mod n else m div n))"
proof -
  have rn: "nat_rep n \<noteq> Direct 0" using assms(2) nat_rep_inject[of n 0] by auto
  show ?thesis
  proof (cases "m < 2 ^ 63 \<and> n < 2 ^ 63")
    case True
    have "m mod n \<le> m" "m div n \<le> m" by simp_all
    then have lt: "m mod n < 2 ^ 63" "m div n < 2 ^ 63" using True by (auto intro: le_less_trans[of _ m])
    let ?m = "word_of_nat m :: u64" and ?n = "word_of_nat n :: u64"
    have mn: "unat ?m = m" "unat ?n = n" using True by (simp_all add: unsigned_of_nat take_bit_eq_mod)
    have "Direct (?m div ?n) = nat_rep (m div n)" "Direct (?m mod ?n) = nat_rep (m mod n)"
      using Direct_rep[of "?m div ?n"] Direct_rep[of "?m mod ?n"] lt
      unfolding unat_div_distrib unat_mod_distrib mn by simp_all
    moreover have "pl_nat_divmod M (nat_rep m) (nat_rep n) want =
        Inr (Direct (if want then ?m mod ?n else ?m div ?n))"
      unfolding pl_nat_divmod_def if_not_P[OF rn] using True nat63_rep[of m] nat63_rep[of n]
      by (simp del: unat_div unat_mod)
    ultimately show ?thesis by (cases want) simp_all
  next
    case False
    then have nd: "\<not> (pl_is_nat63 (nat_rep m) \<and> pl_is_nat63 (nat_rep n))" by simp
    show ?thesis
    proof (cases "m < n")
      case True
      then show ?thesis unfolding pl_nat_divmod_def if_not_P[OF rn] if_not_P[OF nd]
        by (simp add: cmp_order)
    next
      case False
      obtain q r where qr: "mpn_tdiv_qr M (nat_limbs m) (nat_limbs n) = (q, r)" by force
      have le: "nlimbs n \<le> nlimbs m" using False nlimbs_mono by simp
      have eq: "length q = nlimbs m - nlimbs n + 1" "length r = nlimbs n" "lval q = m div n" "lval r = m mod n"
        using tdiv[OF _ _ _ qr] le assms(2) last_nat_limbs[of n] by simp_all
      have n1: "1 \<le> nlimbs n" using assms(2) by (simp add: Suc_le_eq)
      have "nlimbs m - nlimbs n + 1 < 2 ^ 20" "nlimbs n < 2 ^ 20" using n1 le assms(1) by simp_all
      then have "nat_result (nlimbs m - nlimbs n + 1) q = Inr (nat_rep (m div n))"
        "nat_result (nlimbs n) r = Inr (nat_rep (m mod n))"
        using nat_result_spec[OF eq(1)] nat_result_spec[OF eq(2)] eq(3,4) n1 by simp_all
      then show ?thesis using False qr unfolding pl_nat_divmod_def if_not_P[OF rn] if_not_P[OF nd]
        by (simp add: cmp_order)
    qed
  qed
qed

lemma lsh_spec:
  assumes "m \<noteq> 0" "unat k div 64 + nlimbs m + 1 < 2 ^ 20" "pl_nat_u64_clamp sh = k"
  shows "pl_nat_lsh M (nat_rep m) sh = Inr (nat_rep (m * 2 ^ unat k))"
proof -
  let ?q = "unat k div 64" and ?r = "unat k mod 64"
  have rep: "nat_rep m \<noteq> Direct 0" using assms(1) nat_rep_inject[of m 0] by auto
  have pw: "(2 ^ 64) ^ ?q * (m * 2 ^ ?r) = m * 2 ^ unat k"
    unfolding pow64_split[of "unat k", symmetric] by (simp only: ac_simps)
  obtain out c where oc: "mpn_lshift M (nat_limbs m) ?r = (out, c)" by force
  define hi where "hi = (if ?r = 0 then nat_limbs m @ [0] else out @ [c])"
  have "length hi = nlimbs m + 1 \<and> lval hi = m * 2 ^ ?r"
    using lshift[OF _ _ _ oc] assms(1) by (cases "?r = 0") (auto simp: hi_def lval_append)
  then have "nat_result (nlimbs m + ?q + 1) (replicate ?q 0 @ hi) = Inr (nat_rep (m * 2 ^ unat k))"
    using nat_result_spec[of "replicate ?q 0 @ hi" "nlimbs m + ?q + 1"] assms(2) pw
    by (simp add: lval_append)
  then show ?thesis unfolding pl_nat_lsh_def if_not_P[OF rep]
    using oc assms(2,3) by (auto simp: Let_def rbind_assume hi_def)
qed

lemma rsh_spec:
  assumes "nlimbs m < 2 ^ 20" "pl_nat_u64_clamp sh = k"
  shows "pl_nat_rsh M (nat_rep m) sh = Inr (nat_rep (m div 2 ^ unat k))"
proof -
  let ?q = "unat k div 64" and ?r = "unat k mod 64"
  have pw: "m div (2 ^ 64) ^ ?q div 2 ^ ?r = m div 2 ^ unat k"
    unfolding pow64_split[of "unat k", symmetric] by (simp only: div_mult2_eq)
  consider "nlimbs m \<le> ?q" | "?q < nlimbs m" "m < 2 ^ 63" | "?q < nlimbs m" "\<not> m < 2 ^ 63" by linarith
  then show ?thesis
  proof cases
    case 1
    then have "m div (2 ^ 64) ^ ?q = 0" using nlimbs_le_iff by simp
    then show ?thesis using 1 assms(2) pw by (simp add: pl_nat_rsh_def Let_def)
  next
    case 2
    then have k: "unat k < 64" using nlimbs_le_iff[of m 1] by simp
    have "m div 2 ^ unat k \<le> m" by simp
    then have "m div 2 ^ unat k < 2 ^ 63" using 2(2) by (rule le_less_trans)
    moreover have "unat (drop_bit (unat k) (word_of_nat m :: u64)) = m div 2 ^ unat k"
      unfolding unat_drop_bit_eq using 2(2) by (simp add: unsigned_of_nat drop_bit_eq_div take_bit_eq_mod)
    ultimately show ?thesis using 2 assms(2) by (simp add: pl_nat_rsh_def Let_def nat63_rep Direct_rep)
  next
    case 3
    obtain out c where oc: "mpn_rshift M (drop ?q (nat_limbs m)) ?r = (out, c)" by force
    define hi where "hi = (if ?r = 0 then drop ?q (nat_limbs m) else out)"
    have "length hi = nlimbs m - ?q \<and> lval hi = m div 2 ^ unat k"
      using rshift[OF _ _ _ oc] 3(1) pw by (cases "?r = 0") (auto simp: hi_def lval_drop)
    then have "nat_result (nlimbs m - ?q) hi = Inr (nat_rep (m div 2 ^ unat k))"
      using nat_result_spec[of hi "nlimbs m - ?q"] 3(1) assms(1) by simp
    then show ?thesis using oc 3 assms(2) by (auto simp: pl_nat_rsh_def Let_def hi_def)
  qed
qed

end

subsection \<open>Reads and bit operations\<close>

lemma clamp_rep: "unat (pl_nat_u64_clamp (nat_rep n)) = min n (2 ^ 64 - 1)"
proof (cases "n < 2 ^ 64")
  case True
  then have w: "unat (word_of_nat n :: u64) = n" by (simp add: unsigned_of_nat take_bit_eq_mod)
  show ?thesis
  proof (cases "n < 2 ^ 63")
    case False
    then have "nlimbs n = 1" using True nlimbs_one[of n] by simp
    then have "nat_rep n = Boxed [word_of_nat n]"
      using False True by (simp add: nat_rep_def nat_limbs_step div_eq_0_iff nat_limbs_def)
    then show ?thesis using True w by simp
  qed (use True w in \<open>simp add: nat_rep_def\<close>)
next
  case False
  then have "\<not> nlimbs n \<le> 1" unfolding nlimbs_le_iff by simp
  then show ?thesis using False by (simp add: nat_rep_def unsigned_minus_1_eq_mask mask_eq_exp_minus_1)
qed

lemma limb_at_rep: "unat (pl_nat_limb_at (nat_rep n) i) = n div (2 ^ 64) ^ i mod 2 ^ 64"
proof (cases "n < 2 ^ 63")
  case True
  then have "n div (2 ^ 64) ^ i = 0" if "0 < i"
    using that nlimbs_le_iff[of n i] nlimbs_le_iff[of n 1] by (simp add: Suc_le_eq[symmetric])
  then show ?thesis using True by (simp add: nat_rep_def unsigned_of_nat take_bit_eq_mod)
next
  case False
  have "n div (2 ^ 64) ^ i = 0" if "nlimbs n \<le> i" using that nlimbs_le_iff[of n i] by simp
  then show ?thesis using False lval_nth[of i "nat_limbs n"] by (auto simp: nat_rep_def)
qed

lemma bit_limb_at: "r < 64 \<Longrightarrow> bit (pl_nat_limb_at (nat_rep n) q) r = bit n (64 * q + r)"
proof -
  assume r: "r < 64"
  have "bit (pl_nat_limb_at (nat_rep n) q) r = bit (unat (pl_nat_limb_at (nat_rep n) q)) r"
    by (simp add: bit_unsigned_iff r)
  also have "\<dots> = bit (take_bit 64 (drop_bit (64 * q) n)) r"
    unfolding limb_at_rep by (simp only: take_bit_eq_mod drop_bit_eq_div power_mult)
  finally show ?thesis using r by (simp add: bit_take_bit_iff bit_drop_bit_eq)
qed

lemma byte_at_rep: "unat (pl_nat_byte_at (nat_rep n) i) = n div 256 ^ i mod 256"
proof -
  have "bit (pl_nat_byte_at (nat_rep n) i) k = bit (take_bit 8 (drop_bit (8 * i) n)) k" if "k < 8" for k
  proof -
    have lt: "(i mod 8) * 8 + k < 64" using that by (simp add: mod_less_divisor algebra_simps)
    have "64 * (i div 8) + ((i mod 8) * 8 + k) = 8 * i + k"
      using mult_div_mod_eq[of 8 i] by linarith
    from bit_limb_at[OF lt, of n "i div 8", unfolded this] that show ?thesis
      by (simp add: pl_nat_byte_at_def bit_unsigned_iff bit_drop_bit_eq bit_take_bit_iff)
  qed
  then have "bit (unat (pl_nat_byte_at (nat_rep n) i)) k = bit (take_bit 8 (drop_bit (8 * i) n)) k" for k
    using bit_imp_le_length[of "pl_nat_byte_at (nat_rep n) i" k]
    by (cases "k < 8") (auto simp: bit_unsigned_iff bit_take_bit_iff)
  then have "unat (pl_nat_byte_at (nat_rep n) i) = take_bit 8 (drop_bit (8 * i) n)" by (rule bit_eqI)
  then show ?thesis by (simp add: take_bit_eq_mod drop_bit_eq_div power_mult)
qed

lemma bit_lval: "bit (lval ls) j \<longleftrightarrow> j div 64 < length ls \<and> bit (ls ! (j div 64)) (j mod 64)"
proof (induction ls arbitrary: j)
  case (Cons w ls)
  have "lval (w # ls) = push_bit 64 (lval ls) + unat w" by (simp add: push_bit_eq_mult)
  also have "\<dots> = push_bit 64 (lval ls) OR unat w"
    by (rule disjunctive_add) (auto simp: bit_push_bit_iff bit_unsigned_iff dest: bit_imp_le_length)
  finally have "bit (lval (w # ls)) j \<longleftrightarrow> 64 \<le> j \<and> bit (lval ls) (j - 64) \<or> bit w j"
    by (simp add: bit_or_iff bit_push_bit_iff bit_unsigned_iff)
  then show ?case
  proof (cases "j < 64")
    case False
    then have "j div 64 = Suc ((j - 64) div 64)" "(j - 64) mod 64 = j mod 64"
      by (simp_all add: le_div_geq le_mod_geq)
    with Cons[of "j - 64"] \<open>bit (lval (w # ls)) j \<longleftrightarrow> _\<close> False show ?thesis
      by (auto dest: bit_imp_le_length)
  qed simp
qed simp

lemma bit_high: "nlimbs n \<le> k \<Longrightarrow> 64 * k \<le> j \<Longrightarrow> \<not> bit n j"
proof
  assume "nlimbs n \<le> k" "64 * k \<le> j" "bit n j"
  then have "n < 2 ^ (64 * k)" using nlimbs_le_iff[of n k] by (simp add: power_mult)
  also have "\<dots> \<le> 2 ^ j" using \<open>64 * k \<le> j\<close> by simp
  finally show False using \<open>bit n j\<close> by (simp add: bit_iff_odd)
qed

text \<open>A bit number that does not fit \<open>uint64_t\<close> is clamped, which lies past every nat.\<close>

lemma test_bit_spec:
  assumes "nlimbs n < 2 ^ 20"
  shows "pl_nat_test_bit (nat_rep b) (nat_rep n) = bit n b"
proof -
  define i where "i = min b (2 ^ 64 - 1)"
  have i: "i \<le> b" "b \<noteq> i \<Longrightarrow> i = 2 ^ 64 - 1" by (auto simp: i_def)
  have bi: "bit n i = bit n b"
  proof (cases "b = i")
    case False
    then have "64 * 2 ^ 20 \<le> i" using i by simp
    then show ?thesis using bit_high[of n "2 ^ 20"] assms i(1) by simp
  qed simp
  have "drop_bit (i mod 64) (pl_nat_limb_at (nat_rep n) (i div 64)) AND 1 \<noteq> 0 \<longleftrightarrow> bit n i"
    using bit_limb_at[of "i mod 64" n "i div 64"]
    by (simp add: and_one_eq odd_iff_mod_2_eq_one[symmetric] bit_iff_odd drop_bit_eq_div)
  moreover have "nlimbs n \<le> i div 64 \<Longrightarrow> \<not> bit n i" using bit_high[of n "i div 64" i] by simp
  ultimately show ?thesis using bi
    unfolding pl_nat_test_bit_def clamp_rep i_def[symmetric] by (auto simp: Let_def)
qed

lemma unat_push_bit_1: "k < 64 \<Longrightarrow> unat (push_bit k 1 :: u64) = 2 ^ k"
  by (rule bit_eqI) (auto simp: bit_unsigned_iff bit_push_bit_iff bit_1_iff bit_exp_iff)

lemma lval_unit: "q < k \<Longrightarrow> lval ((replicate k 0)[q := w]) = (2 ^ 64) ^ q * unat w"
  using lval_update[of q "replicate k 0" w] by simp

lemma bex_spec:
  assumes "n div 64 + 1 < 2 ^ 20"
  shows "pl_nat_bex (nat_rep n) = Inr (nat_rep (2 ^ n))"
proof -
  have i: "unat (pl_nat_u64_clamp (nat_rep n)) = n" using assms by (simp add: clamp_rep)
  show ?thesis
  proof (cases "n < 63")
    case True
    then have "(2 :: nat) ^ n < 2 ^ 63" by (intro power_strict_increasing) auto
    then have "Direct (push_bit n 1) = nat_rep (2 ^ n)"
      using True Direct_rep[of "push_bit n 1"] by (simp add: unat_push_bit_1 del: push_bit_of_1)
    then show ?thesis using True by (simp add: pl_nat_bex_def i)
  next
    case False
    have "nat_result (n div 64 + 1) ((replicate (n div 64 + 1) 0)[n div 64 := push_bit (n mod 64) 1])
        = Inr (nat_rep (2 ^ n))"
      using nat_result_spec[of "(replicate (n div 64 + 1) 0)[n div 64 := push_bit (n mod 64) 1]"] assms
      unfolding lval_unit[of "n div 64" "n div 64 + 1", simplified] pow64_split[of n, symmetric]
      by (simp add: unat_push_bit_1 lval_unit del: push_bit_of_1 replicate_Suc)
    then show ?thesis using False assms by (simp add: pl_nat_bex_def i Let_def rbind_assume)
  qed
qed

text \<open>Setting and clearing bits limb by limb.\<close>

lemma bit_push1: "k < 64 \<Longrightarrow> bit (push_bit k 1 :: u64) j \<longleftrightarrow> j = k"
  by (auto simp: bit_exp_iff)

lemma lval_set_bit:
  assumes "i div 64 < length ls"
  shows "lval (ls[i div 64 := ls ! (i div 64) OR push_bit (i mod 64) 1]) = set_bit i (lval ls)"
proof (rule bit_eqI)
  fix j
  have "j = i" if "j div 64 = i div 64" "j mod 64 = i mod 64"
    using that by (metis div_mult_mod_eq)
  then show "bit (lval (ls[i div 64 := ls ! (i div 64) OR push_bit (i mod 64) 1])) j \<longleftrightarrow>
      bit (set_bit i (lval ls)) j"
    using assms by (auto simp: bit_lval bit_set_bit_iff nth_list_update bit_or_iff bit_push1 simp del: push_bit_of_1)
qed

lemma lval_unset_bit:
  assumes "i div 64 < length ls"
  shows "lval (ls[i div 64 := ls ! (i div 64) AND NOT (push_bit (i mod 64) 1)]) = unset_bit i (lval ls)"
proof (rule bit_eqI)
  fix j
  have "j = i" if "j div 64 = i div 64" "j mod 64 = i mod 64"
    using that by (metis div_mult_mod_eq)
  then show "bit (lval (ls[i div 64 := ls ! (i div 64) AND NOT (push_bit (i mod 64) 1)])) j \<longleftrightarrow>
      bit (unset_bit i (lval ls)) j"
    using assms by (auto simp: bit_lval bit_unset_bit_iff nth_list_update bit_and_iff bit_not_iff
        bit_push1 simp del: push_bit_of_1)
qed

lemma ceil64: "(w + 63) div 64 = (if w mod 64 = 0 then w div 64 else Suc (w div 64))" for w :: nat
proof -
  define q r where "q = w div 64" and "r = w mod 64"
  have w: "w = 64 * q + r" "r < 64" by (simp_all add: q_def r_def)
  have "(w + 63) div 64 = (if r = 0 then q else Suc q)"
    by (rule div_nat_eqI) (use w in auto)
  then show ?thesis by (simp add: q_def r_def)
qed

lemma less_div64: "j < w \<longleftrightarrow> j div 64 < w div 64 \<or> j div 64 = w div 64 \<and> j mod 64 < w mod 64" for j :: nat
proof -
  have "j = 64 * (j div 64) + j mod 64" "w = 64 * (w div 64) + w mod 64" "j mod 64 < 64" "w mod 64 < 64"
    by simp_all
  then show ?thesis by linarith
qed

lemma lval_mask:
  assumes "0 < w" "(w + 63) div 64 \<le> length ls"
  shows "lval (let lr = (w + 63) div 64; out = take lr ls in
    if w mod 64 \<noteq> 0 then out[lr - 1 := out ! (lr - 1) AND (push_bit (w mod 64) 1 - 1)] else out)
    = take_bit w (lval ls)"
proof (cases "w mod 64 = 0")
  case True
  then have "(2 ^ 64) ^ (w div 64) = (2 :: nat) ^ w" using pow64_split[of w] by simp
  then show ?thesis using True lval_take[of "w div 64" ls] by (simp add: ceil64 take_bit_eq_mod)
next
  case False
  let ?q = "w div 64"
  have lr: "(w + 63) div 64 = Suc ?q" using False by (simp add: ceil64)
  have m: "push_bit (w mod 64) 1 - 1 = (mask (w mod 64) :: u64)" by (simp add: mask_eq_exp_minus_1)
  have "lval ((take (Suc ?q) ls)[?q := take (Suc ?q) ls ! ?q AND mask (w mod 64)]) = take_bit w (lval ls)"
  proof (rule bit_eqI)
    fix j
    show "bit (lval ((take (Suc ?q) ls)[?q := take (Suc ?q) ls ! ?q AND mask (w mod 64)])) j \<longleftrightarrow>
        bit (take_bit w (lval ls)) j"
      using assms lr less_div64[of j w] by (auto simp: bit_lval bit_take_bit_iff nth_list_update bit_and_iff bit_mask_iff)
  qed
  then show ?thesis using False by (simp add: lr Let_def m del: push_bit_of_1)
qed

text \<open>The operations on representations.\<close>

lemma lval_pad: "lval (ls @ replicate k 0) = lval ls"
  by (simp add: lval_append)

lemma bit_less: "n < 2 ^ k \<Longrightarrow> bit n j \<Longrightarrow> j < k" for n :: nat
  by (metis bit_take_bit_iff take_bit_nat_eq_self)

lemma less_bits: "(\<And>j. bit n j \<Longrightarrow> j < k) \<Longrightarrow> n < 2 ^ k" for n :: nat
  by (metis (no_types, lifting) bit_eqI bit_take_bit_iff take_bit_nat_less_exp)

lemma set_bit_less: "n < 2 ^ k \<Longrightarrow> i < k \<Longrightarrow> set_bit i n < 2 ^ k" for n :: nat
  by (rule less_bits) (auto simp: bit_set_bit_iff dest: bit_less)

lemma unset_bit_less: "n < 2 ^ k \<Longrightarrow> unset_bit i n < 2 ^ k" for n :: nat
  by (rule less_bits) (auto simp: bit_unset_bit_iff dest: bit_less)

lemma set_bit_spec:
  assumes "nlimbs n < 2 ^ 20" "i div 64 + 1 < 2 ^ 20"
  shows "pl_nat_set_bit (nat_rep i) (nat_rep n) = Inr (nat_rep (set_bit i n))"
proof -
  have i: "unat (pl_nat_u64_clamp (nat_rep i)) = i" using assms by (simp add: clamp_rep)
  show ?thesis
  proof (cases "n < 2 ^ 63 \<and> i < 63")
    case True
    then have "set_bit i n < 2 ^ 63" by (intro set_bit_less) auto
    moreover have "unat (word_of_nat n OR push_bit i 1 :: u64) = set_bit i n"
      using True bit_less[of n 63] by (intro bit_eqI) (fastforce simp: bit_unsigned_iff bit_or_iff bit_push1
          bit_set_bit_iff bit_of_nat_iff simp del: push_bit_of_1 dest: bit_imp_le_length)
    ultimately have "Direct (word_of_nat n OR push_bit i 1) = nat_rep (set_bit i n)"
      using Direct_rep[of "word_of_nat n OR push_bit i 1"] by simp
    then show ?thesis using True by (simp add: pl_nat_set_bit_def i nat63_rep)
  next
    case False
    define lr where "lr = (if nlimbs n < i div 64 + 1 then i div 64 + 1 else nlimbs n)"
    define out where "out = nat_limbs n @ replicate (lr - nlimbs n) 0"
    have out: "length out = lr" "i div 64 < length out" "lr < 2 ^ 20" "1 \<le> lr"
      using assms by (auto simp: out_def lr_def)
    have "nat_result lr (out[i div 64 := out ! (i div 64) OR push_bit (i mod 64) 1])
        = Inr (nat_rep (set_bit i n))"
      using nat_result_spec[OF _ out(4,3)] out(1) lval_set_bit[OF out(2)]
      by (simp add: out_def lval_pad del: push_bit_of_1)
    moreover have nd: "\<not> (pl_is_nat63 (nat_rep n) \<and> i < 63)" using False by simp
    ultimately show ?thesis using out(3)
      unfolding pl_nat_set_bit_def i Let_def if_not_P[OF nd] limb_len_rep limb_view_rep
        lr_def[symmetric] out_def[symmetric] rbind_assume by simp
  qed
qed

lemma clear_bit_spec:
  assumes "nlimbs n < 2 ^ 20"
  shows "pl_nat_clear_bit (nat_rep b) (nat_rep n) = Inr (nat_rep (unset_bit b n))"
proof -
  define i where "i = min b (2 ^ 64 - 1)"
  have i: "i \<le> b" "b \<noteq> i \<Longrightarrow> i = 2 ^ 64 - 1" by (auto simp: i_def)
  have absent: "unset_bit j n = n" if "\<not> bit n j" for j
    using that by (intro bit_eqI) (auto simp: bit_unset_bit_iff)
  have bi: "unset_bit b n = unset_bit i n"
  proof (cases "b = i")
    case False
    then have "64 * 2 ^ 20 \<le> i" using i by simp
    then show ?thesis using bit_high[of n "2 ^ 20"] assms i(1) by (simp add: absent)
  qed simp
  have c: "unat (pl_nat_u64_clamp (nat_rep b)) = i" by (simp add: clamp_rep i_def)
  show ?thesis
  proof (cases "n < 2 ^ 63")
    case True
    have "unat (word_of_nat n AND NOT (push_bit i 1) :: u64) = unset_bit i n" if "i < 63"
      using True that bit_less[of n 63] by (intro bit_eqI) (fastforce simp: bit_unsigned_iff bit_and_iff
          bit_not_iff bit_push1 bit_unset_bit_iff bit_of_nat_iff simp del: push_bit_of_1 dest: bit_imp_le_length)
    moreover have "unset_bit i n < 2 ^ 63" using True by (rule unset_bit_less)
    ultimately have "Direct (word_of_nat n AND NOT (push_bit i 1)) = nat_rep (unset_bit i n)" if "i < 63"
      using that Direct_rep[of "word_of_nat n AND NOT (push_bit i 1)"] by simp
    moreover have "unset_bit i n = n" if "\<not> i < 63"
      using that True bit_less[of n 63 i] by (intro absent) auto
    ultimately show ?thesis using True by (auto simp: pl_nat_clear_bit_def c bi nat63_rep Let_def)
  next
    case False
    have "unset_bit i n = n" if "nlimbs n \<le> i div 64"
      using that bit_high[of n "i div 64" i] by (intro absent) simp
    moreover have "nat_result (nlimbs n)
        ((nat_limbs n)[i div 64 := nat_limbs n ! (i div 64) AND NOT (push_bit (i mod 64) 1)])
        = Inr (nat_rep (unset_bit i n))" if "i div 64 < nlimbs n"
      using that assms lval_unset_bit[of i "nat_limbs n"] nat_result_spec[of "(nat_limbs n)
        [i div 64 := nat_limbs n ! (i div 64) AND NOT (push_bit (i mod 64) 1)]" "nlimbs n"]
      by (simp del: push_bit_of_1)
    ultimately show ?thesis using False
      by (auto simp: pl_nat_clear_bit_def c bi Let_def simp del: push_bit_of_1)
  qed
qed

lemma clzll_spec:
  assumes "w \<noteq> 0"
  shows "clzll w < 64" "unat w < 2 ^ (64 - clzll w)" "2 ^ (63 - clzll w) \<le> unat w"
proof -
  define c where "c = clzll w"
  obtain j where j: "bit w j" using assms bit_eqI[of w 0] by auto
  then have "j < 64" using bit_imp_le_length by fastforce
  then have "63 - j \<in> set [0..<64]" "\<not> (\<not> bit w (63 - (63 - j)))" using j by auto
  then have "takeWhile (\<lambda>i. \<not> bit w (63 - i)) [0..<64] \<noteq> [0..<64]"
    by (metis (mono_tags, lifting) takeWhile_eq_all_conv)
  then have lt: "c < 64" using length_takeWhile_le[of "\<lambda>i. \<not> bit w (63 - i)" "[0..<64]"]
    by (metis (no_types, lifting) c_def clzll_def diff_zero le_neq_implies_less length_upt
        takeWhile_eq_take take_all order_refl)
  then have "bit w (63 - c)"
    using nth_length_takeWhile[of "\<lambda>i. \<not> bit w (63 - i)" "[0..<64]"] by (simp add: c_def clzll_def)
  then have top: "bit (unat w) (63 - c)" by (simp add: bit_unsigned_iff)
  have none: "\<not> bit w (63 - i)" if "i < c" for i
    using that takeWhile_nth[of i "\<lambda>i. \<not> bit w (63 - i)" "[0..<64]"] lt
      set_takeWhileD[of _ "\<lambda>i. \<not> bit w (63 - i)" "[0..<64]"]
    by (metis (mono_tags, lifting) c_def clzll_def nth_mem add_0 nth_upt less_trans)
  have "j < 64 - c" if "bit (unat w) j" for j
  proof (rule ccontr)
    assume nlt: "\<not> j < 64 - c"
    have wj: "bit w j" "j < 64" using that by (auto simp: bit_unsigned_iff dest: bit_imp_le_length)
    then have "63 - j < c" using nlt lt by linarith
    then show False using none[of "63 - j"] wj by simp
  qed
  then show "clzll w < 64" "unat w < 2 ^ (64 - clzll w)" using lt less_bits c_def by auto
  show "2 ^ (63 - clzll w) \<le> unat w"
    using top unfolding c_def by (metis bit_less less_irrefl not_le_imp_less)
qed

lemma bit_len_spec:
  "n < 2 ^ pl_nat_bit_len (nat_rep n)"
  "n \<noteq> 0 \<Longrightarrow> 2 ^ (pl_nat_bit_len (nat_rep n) - 1) \<le> n \<and> 0 < pl_nat_bit_len (nat_rep n)"
proof -
  have key: "n < 2 ^ pl_nat_bit_len (nat_rep n) \<and> 2 ^ (pl_nat_bit_len (nat_rep n) - 1) \<le> n \<and>
    0 < pl_nat_bit_len (nat_rep n)" if "n \<noteq> 0"
  proof -
    let ?k = "nlimbs n - 1"
    define w where "w = nat_limbs n ! ?k"
    have k: "nlimbs n = Suc ?k" using that by (simp add: Suc_le_eq)
    have w: "w \<noteq> 0" using last_nat_limbs[of n] that by (simp add: w_def last_conv_nth)
    note c = clzll_spec[OF w]
    have len: "pl_nat_bit_len (nat_rep n) = 64 * ?k + (64 - clzll w)"
      using that by (simp add: pl_nat_bit_len_def Let_def w_def)
    have uw: "unat w = n div (2 ^ 64) ^ ?k mod 2 ^ 64"
      using lval_nth[of ?k "nat_limbs n"] k by (simp add: w_def)
    have "n div (2 ^ 64) ^ ?k < 2 ^ 64"
      using nlimbs_le_iff[of n "nlimbs n"] k
      by (metis less_mult_imp_div_less order_refl power_Suc)
    then have nd: "n div 2 ^ (64 * ?k) = unat w" using uw by (simp add: power_mult)
    have "n < 2 ^ (64 - clzll w) * 2 ^ (64 * ?k)"
      using c(2) nd by (metis div_less_iff_less_mult zero_less_numeral zero_less_power)
    moreover have "2 ^ (63 - clzll w) * 2 ^ (64 * ?k) \<le> n"
      using c(3) nd by (metis less_eq_div_iff_mult_less_eq zero_less_numeral zero_less_power)
    ultimately show ?thesis using c(1) unfolding len power_add[symmetric]
      by (auto simp: add.commute power_add[symmetric])
  qed
  show "n < 2 ^ pl_nat_bit_len (nat_rep n)" by (cases "n = 0") (use key in auto)
  show "n \<noteq> 0 \<Longrightarrow> 2 ^ (pl_nat_bit_len (nat_rep n) - 1) \<le> n \<and> 0 < pl_nat_bit_len (nat_rep n)" using key by blast
qed

lemma bit_len_le_iff: "pl_nat_bit_len (nat_rep n) \<le> w \<longleftrightarrow> n < 2 ^ w"
proof
  assume "pl_nat_bit_len (nat_rep n) \<le> w"
  then have "(2 :: nat) ^ pl_nat_bit_len (nat_rep n) \<le> 2 ^ w" by simp
  then show "n < 2 ^ w" using bit_len_spec(1)[of n] by (rule less_le_trans[rotated])
next
  assume "n < 2 ^ w"
  show "pl_nat_bit_len (nat_rep n) \<le> w"
  proof (cases "n = 0")
    case False
    then have "2 ^ (pl_nat_bit_len (nat_rep n) - 1) < (2 :: nat) ^ w"
      using bit_len_spec(2)[of n] \<open>n < 2 ^ w\<close> by linarith
    then have "pl_nat_bit_len (nat_rep n) - 1 < w" by simp
    then show ?thesis by simp
  qed (simp add: pl_nat_bit_len_def Let_def nat_limbs_def)
qed

lemma byte_len_le_iff: "pl_nat_byte_len (nat_rep n) \<le> w \<longleftrightarrow> n < 256 ^ w"
proof -
  have "pl_nat_byte_len (nat_rep n) \<le> w \<longleftrightarrow> pl_nat_bit_len (nat_rep n) \<le> 8 * w"
    unfolding pl_nat_byte_len_def by (simp add: less_Suc_eq_le[symmetric] div_less_iff_less_mult del: less_Suc_eq_le) linarith
  then show ?thesis by (simp add: bit_len_le_iff power_mult)
qed

lemma unat_and_mask: "unat (x AND (push_bit k 1 - 1) :: u64) = unat x mod 2 ^ k"
proof -
  have "x AND (push_bit k 1 - 1) = take_bit k x"
    by (simp add: take_bit_eq_mask mask_eq_exp_minus_1)
  then have "unat (x AND (push_bit k 1 - 1)) = take_bit k (unat x)" by (simp only: unsigned_take_bit_eq)
  then show ?thesis by (simp only: take_bit_eq_mod)
qed

lemma trunc_spec:
  assumes "nlimbs n < 2 ^ 20"
  shows "pl_nat_trunc (nat_rep wd) (nat_rep n) = Inr (nat_rep (n mod 2 ^ wd))"
proof -
  define w where "w = min wd (2 ^ 64 - 1)"
  have c: "unat (pl_nat_u64_clamp (nat_rep wd)) = w" by (simp add: clamp_rep w_def)
  have w0: "w = 0 \<longleftrightarrow> wd = 0" by (auto simp: w_def min_def)
  have small: "n < 2 ^ (64 * nlimbs n)" using nlimbs_le_iff[of n "nlimbs n"] by (simp add: power_mult)
  have big: "n mod 2 ^ wd = n \<and> n < 2 ^ w" if "wd \<noteq> w"
  proof -
    have "64 * nlimbs n \<le> w" "64 * nlimbs n \<le> wd"
      using that assms by (auto simp: w_def min_def split: if_splits)
    then have "(2 :: nat) ^ (64 * nlimbs n) \<le> 2 ^ w" "(2 :: nat) ^ (64 * nlimbs n) \<le> 2 ^ wd"
      by (auto intro: power_increasing)
    then have "n < 2 ^ w" "n < 2 ^ wd" using small by linarith+
    then show ?thesis by simp
  qed
  consider "w = 0" | "w \<noteq> 0" "n < 2 ^ w" | "w \<noteq> 0" "\<not> n < 2 ^ w" "n < 2 ^ 63"
    | "w \<noteq> 0" "\<not> n < 2 ^ w" "\<not> n < 2 ^ 63" by blast
  then show ?thesis
  proof cases
    case 1
    then show ?thesis using w0 by (simp add: pl_nat_trunc_def c)
  next
    case 2
    then have "n mod 2 ^ wd = n" using big by (cases "wd = w") auto
    then show ?thesis using 2 by (simp add: pl_nat_trunc_def c bit_len_le_iff)
  next
    case 3
    then have wd: "wd = w" using big by blast
    have w: "w < 63"
    proof (rule ccontr)
      assume "\<not> w < 63"
      then have "(2 :: nat) ^ 63 \<le> 2 ^ w" by (intro power_increasing) auto
      then show False using 3 by linarith
    qed
    have "n mod 2 ^ w \<le> n" by simp
    then have "n mod 2 ^ w < 2 ^ 63" using 3(3) by (rule le_less_trans)
    then have "Direct (word_of_nat n AND (push_bit w 1 - 1)) = nat_rep (n mod 2 ^ w)"
      using Direct_rep[of "word_of_nat n AND (push_bit w 1 - 1)"] 3(3) unfolding unat_and_mask
      by (simp add: unsigned_of_nat take_bit_eq_mod)
    then show ?thesis using 3 w unfolding pl_nat_trunc_def c by (simp add: bit_len_le_iff nat63_rep wd Let_def)
  next
    case 4
    then have wd: "wd = w" using big by blast
    define lr where "lr = (w + 63) div 64"
    have "\<not> nlimbs n \<le> w div 64"
    proof
      assume "nlimbs n \<le> w div 64"
      then have "n < 2 ^ (64 * (w div 64))" unfolding nlimbs_le_iff by (simp add: power_mult)
      also have "\<dots> \<le> 2 ^ w" by (intro power_increasing) auto
      finally show False using 4 by simp
    qed
    then have lr: "lr \<le> nlimbs n" "1 \<le> lr" using 4(1) by (auto simp: lr_def ceil64)
    define out where "out = (let out = take lr (nat_limbs n) in
      if w mod 64 \<noteq> 0 then out[lr - 1 := out ! (lr - 1) AND (push_bit (w mod 64) 1 - 1)] else out)"
    have "0 < w" "(w + 63) div 64 \<le> length (nat_limbs n)" using 4(1) lr by (simp_all add: lr_def)
    note lval_mask[OF this, unfolded Let_def]
    then have "lval out = n mod 2 ^ w" unfolding out_def lr_def Let_def by (simp only: take_bit_eq_mod lval_nat_limbs)
    moreover have "length out = lr" using lr by (simp add: out_def Let_def)
    ultimately have "nat_result lr out = Inr (nat_rep (n mod 2 ^ w))"
      using nat_result_spec[of out lr] lr assms by simp
    then show ?thesis using 4 unfolding pl_nat_trunc_def c Let_def lr_def[symmetric] bit_len_le_iff
      limb_view_rep out_def[unfolded Let_def, symmetric] by (simp add: wd)
  qed
qed

text \<open>Byte reads and writes.\<close>

lemma nat_less_bytes: "nlimbs n \<le> k \<longleftrightarrow> n < 256 ^ (8 * k)"
  by (simp add: nlimbs_le_iff power_mult)

lemma div_bytes_0: "nlimbs n \<le> k \<Longrightarrow> 8 * k \<le> p \<Longrightarrow> n div 256 ^ p = 0"
proof -
  assume "nlimbs n \<le> k" "8 * k \<le> p"
  then have "n < 256 ^ (8 * k)" "(256 :: nat) ^ (8 * k) \<le> 256 ^ p"
    using nat_less_bytes by (auto intro: power_increasing)
  then have "n < 256 ^ p" by linarith
  then show ?thesis by simp
qed

lemma min_clamp_ge: "min x (2 ^ 64 - 1) \<noteq> x \<Longrightarrow> k < 2 ^ 24 \<Longrightarrow> k \<le> min x (2 ^ 64 - 1) \<and> k \<le> x"
  for x :: nat by (auto simp: min_def split: if_splits)

lemma clamp_to_width_unat: "unat (clamp_to_width w x) = unat x mod 256 ^ w"
proof (cases "8 \<le> w")
  case True
  then have "18446744073709551616 \<le> (256 :: nat) ^ w" using power_increasing[of 8 w "256 :: nat"] by simp
  then have "unat x < 256 ^ w" by (rule less_le_trans[OF unat_u64_lt])
  then show ?thesis using True by (simp add: clamp_to_width_def)
next
  case False
  have "unat (clamp_to_width w x) = unat x mod 2 ^ (w * 8)"
    using False unfolding clamp_to_width_def by (simp only: if_False unat_and_mask)
  then show ?thesis by (simp add: power_mult mult.commute[of w])
qed

lemma load_var_spec:
  assumes "nlimbs n < 2 ^ 20"
  shows "pl_nat_load_var (nat_rep off) (nat_rep wd) (nat_rep n) = Inr (nat_rep (n div 256 ^ off mod 256 ^ wd))"
proof -
  define w k where "w = min wd (2 ^ 64 - 1)" and "k = min off (2 ^ 64 - 1)"
  have c: "unat (pl_nat_u64_clamp (nat_rep wd)) = w" "unat (pl_nat_u64_clamp (nat_rep off)) = k"
    by (simp_all add: clamp_rep w_def k_def)
  have k: "n div 256 ^ off = n div 256 ^ k"
  proof (cases "k = off")
    case False
    then have "8 * nlimbs n \<le> k" "8 * nlimbs n \<le> off"
      using min_clamp_ge[of off "8 * nlimbs n"] assms by (auto simp: k_def)
    then show ?thesis using div_bytes_0[of n "nlimbs n"] by simp
  qed simp
  have fits: "x mod 256 ^ wd = x mod 256 ^ w" if "x \<le> n" for x
  proof (cases "w = wd")
    case False
    then have "8 * nlimbs n \<le> w" "8 * nlimbs n \<le> wd"
      using min_clamp_ge[of wd "8 * nlimbs n"] assms by (auto simp: w_def)
    then have "n div 256 ^ w = 0" "n div 256 ^ wd = 0" using div_bytes_0[of n "nlimbs n"] by simp_all
    then show ?thesis using that by (simp add: div_eq_0_iff)
  qed simp
  have goal: "n div 256 ^ off mod 256 ^ wd = n div 256 ^ k mod 256 ^ w"
    using k fits[of "n div 256 ^ k"] by simp
  consider "w = 0" | "w \<noteq> 0" "n < 2 ^ 63" "8 \<le> k" | "w \<noteq> 0" "n < 2 ^ 63" "k < 8"
    | "w \<noteq> 0" "\<not> n < 2 ^ 63" "8 * nlimbs n \<le> k" | "w \<noteq> 0" "\<not> n < 2 ^ 63" "k < 8 * nlimbs n" by linarith
  then have "pl_nat_load_var (nat_rep off) (nat_rep wd) (nat_rep n) = Inr (nat_rep (n div 256 ^ k mod 256 ^ w))"
  proof cases
    case 1
    then show ?thesis by (simp add: pl_nat_load_var_def c)
  next
    case 2
    then have "n div 256 ^ k = 0" using div_bytes_0[of n 1 k] nlimbs_le_iff[of n 1] by simp
    then show ?thesis using 2 by (simp add: pl_nat_load_var_def c Let_def)
  next
    case 3
    let ?x = "clamp_to_width w (drop_bit (8 * k) (word_of_nat n))"
    have "unat ?x = n div 256 ^ k mod 256 ^ w"
      unfolding clamp_to_width_unat unat_drop_bit_eq using 3(2)
      by (simp add: unsigned_of_nat take_bit_eq_mod drop_bit_eq_div power_mult)
    moreover have "n div 256 ^ k mod 256 ^ w \<le> n" by (metis div_le_dividend le_trans mod_less_eq_dividend)
    ultimately have "Direct ?x = nat_rep (n div 256 ^ k mod 256 ^ w)"
      using Direct_rep[of ?x] 3(2) by simp
    then show ?thesis using 3 by (simp add: pl_nat_load_var_def c Let_def nat63_rep)
  next
    case 4
    then have "n div 256 ^ k = 0" using div_bytes_0[of n "nlimbs n" k] by simp
    then show ?thesis using 4 by (simp add: pl_nat_load_var_def c Let_def mult.commute)
  next
    case 5
    define m where "m = (if 8 * nlimbs n - k < w then 8 * nlimbs n - k else w)"
    define lr where "lr = (m + 7) div 8"
    have m: "0 < m" "m \<le> 8 * nlimbs n" using 5 by (auto simp: m_def)
    have lr: "m \<le> 8 * lr" "1 \<le> lr" "lr \<le> nlimbs n" using m by (auto simp: lr_def)
    let ?out = "bytes_limbs lr (take m (drop k (limb_bytes (nat_limbs n))))"
    have "lval ?out = n div 256 ^ k mod 256 ^ m"
      using lr(1) by (subst lval_bytes_limbs) (auto simp: bval_take bval_drop bval_limb_bytes)
    also have "\<dots> = n div 256 ^ k mod 256 ^ w"
    proof (cases "8 * nlimbs n - k < w")
      case True
      have "n < 256 ^ (8 * nlimbs n)" using nat_less_bytes by blast
      also have "(256 :: nat) ^ (8 * nlimbs n) = 256 ^ (8 * nlimbs n - k) * 256 ^ k"
        using 5(3) by (simp flip: power_add)
      finally have lt: "n div 256 ^ k < 256 ^ (8 * nlimbs n - k)" by (simp add: div_less_iff_less_mult)
      also have "(256 :: nat) ^ (8 * nlimbs n - k) \<le> 256 ^ w" using True by (intro power_increasing) auto
      finally show ?thesis using True lt by (simp add: m_def)
    qed (simp add: m_def)
    finally have "nat_result lr ?out = Inr (nat_rep (n div 256 ^ k mod 256 ^ w))"
      using nat_result_spec[of ?out lr] lr assms by simp
    then show ?thesis using 5 unfolding pl_nat_load_var_def c Let_def limb_len_rep limb_view_rep
      mult.commute[of "nlimbs n" 8] m_def[symmetric] lr_def[symmetric] by simp
  qed
  then show ?thesis by (simp only: goal)
qed

text \<open>A byte argument of at least \<open>2 ^ 64\<close> is clamped before it is truncated to a byte.\<close>

lemma unat_ucast_u8: "unat (ucast (x :: u64) :: u8) = unat x mod 256"
  by (simp add: unsigned_ucast_eq take_bit_eq_mod)

lemma bval_update:
  "i < length bs \<Longrightarrow> bval (bs[i := b]) + 256 ^ i * unat (bs ! i) = bval bs + 256 ^ i * unat b"
  unfolding bval_def using dval_update[of i "map unat bs" 256 "unat b"] by (simp add: map_update)

lemma store_byte_spec:
  assumes "nlimbs n < 2 ^ 20" "i div 8 + 1 < 2 ^ 20"
  shows "\<exists>r. pl_nat_store_byte (nat_rep i) (nat_rep b) (nat_rep n) = Inr (nat_rep r) \<and>
    r + 256 ^ i * (n div 256 ^ i mod 256) = n + 256 ^ i * (min b (2 ^ 64 - 1) mod 256)"
proof -
  have i: "unat (pl_nat_u64_clamp (nat_rep i)) = i" using assms by (simp add: clamp_rep)
  define lr where "lr = (if i div 8 + 1 < nlimbs n then nlimbs n else i div 8 + 1)"
  define out where "out = limb_bytes (nat_limbs n @ replicate (lr - nlimbs n) 0)"
  define bb where "bb = (ucast (pl_nat_u64_clamp (nat_rep b)) :: u8)"
  have lr: "lr < 2 ^ 20" "1 \<le> lr" "i < 8 * lr" "nlimbs n \<le> lr" using assms by (auto simp: lr_def)
  have bb: "unat bb = min b (2 ^ 64 - 1) mod 256" by (simp only: bb_def unat_ucast_u8 clamp_rep)
  have out: "length out = 8 * lr" "bval out = n"
    using lr by (auto simp: out_def bval_limb_bytes lval_pad)
  let ?r = "bytes_limbs lr (out[i := bb])"
  have "lval ?r = bval (out[i := bb])" using out by (simp add: lval_bytes_limbs)
  then have "nat_result lr ?r = Inr (nat_rep (bval (out[i := bb])))"
    using nat_result_spec[of ?r lr] lr by simp
  moreover have "bval (out[i := bb]) + 256 ^ i * (n div 256 ^ i mod 256) = n + 256 ^ i * unat bb"
    using bval_update[of i out bb] bval_nth[of i out] out lr(3) by simp
  moreover have "pl_nat_store_byte (nat_rep i) (nat_rep b) (nat_rep n) = nat_result lr ?r"
    unfolding pl_nat_store_byte_def i Let_def limb_len_rep limb_view_rep lr_def[symmetric]
      out_def[symmetric] bb_def[symmetric] rbind_assume using lr(1) by simp
  ultimately show ?thesis using bb by auto
qed

lemma byte_used_spec:
  assumes "n \<le> length b"
  shows "byte_used b n \<le> n \<and> bval (take (byte_used b n) b) = bval (take n b) \<and>
    (byte_used b n = 0 \<or> b ! (byte_used b n - 1) \<noteq> 0)"
  using assms
proof (induction b n rule: byte_used.induct)
  case (1 b n)
  show ?case
  proof (cases "0 < n \<and> b ! (n - 1) = 0")
    case True
    have "take n b = take (n - 1) b @ [b ! (n - 1)]"
      using True 1(2) by (cases n) (auto simp: take_Suc_conv_app_nth)
    then have "bval (take n b) = bval (take (n - 1) b)" using True by (simp add: bval_append)
    moreover have "byte_used b n = byte_used b (n - 1)" using True byte_used.simps[of b n] by simp
    ultimately show ?thesis using 1(1)[OF True le_trans[OF diff_le_self 1(2)]]
      by (auto dest: le_trans[OF _ diff_le_self])
  next
    case False
    then have "byte_used b n = n" using byte_used.simps[of b n] by auto
    then show ?thesis using False by auto
  qed
qed

lemma from_bytes_spec:
  assumes "length b < 8 * (2 ^ 20 - 1)"
  shows "pl_nat_from_bytes b = Inr (nat_rep (bval b))"
proof -
  define n where "n = byte_used b (length b)"
  have n: "n \<le> length b" "bval (take n b) = bval b" using byte_used_spec[of "length b" b] by (auto simp: n_def)
  consider "n = 0" | "0 < n" "n < 8" | "8 \<le> n" by linarith
  then show ?thesis
  proof cases
    case 1
    then show ?thesis using n by (simp add: pl_nat_from_bytes_def n_def[symmetric])
  next
    case 2
    have "bval b < 256 ^ n" using bval_less[of "take n b"] n by simp
    also have "\<dots> \<le> 256 ^ 7" using 2 by (intro power_increasing) auto
    finally have "bval b < 2 ^ 63" by simp
    then show ?thesis using 2 n by (simp add: pl_nat_from_bytes_def n_def[symmetric] nat_rep_def)
  next
    case 3
    let ?k = "(n + 7) div 8"
    have "length (take n b) \<le> 8 * ?k" by simp
    then have "lval (bytes_limbs ?k (take n b)) = bval b" using n(2) lval_bytes_limbs by metis
    moreover have "1 \<le> ?k" "?k < 2 ^ 20" using 3 n(1) assms by auto
    ultimately show ?thesis using 3 nat_result_spec[of "bytes_limbs ?k (take n b)" ?k]
      by (simp add: pl_nat_from_bytes_def n_def[symmetric] Let_def)
  qed
qed

subsection \<open>Decimal text\<close>

definition decimal :: "string \<Rightarrow> nat" where
  "decimal s = foldl (\<lambda>n c. 10 * n + (of_char c - 48)) 0 s"

definition is_digit :: "char \<Rightarrow> bool" where
  "is_digit c \<longleftrightarrow> (48 :: nat) \<le> of_char c \<and> of_char c \<le> (57 :: nat)"

text \<open>
  GMP's \<open>isspace\<close> characters, which \<open>mpz_set_str\<close> ignores, and the text of a C string, up to its first NUL.
\<close>

definition is_space :: "char \<Rightarrow> bool" where
  "is_space c \<longleftrightarrow> c = CHR '' '' \<or> (9 :: nat) \<le> of_char c \<and> of_char c \<le> (13 :: nat)"

definition cstr :: "string \<Rightarrow> string" where
  "cstr s = takeWhile (\<lambda>c. c \<noteq> CHR 0x00) s"

definition digits :: "string \<Rightarrow> bool" where
  "digits s \<longleftrightarrow> s \<noteq> [] \<and> list_all is_digit s"

text \<open>
  The text is no number: it has no digit, or a character that is neither a digit nor white space nor a sign.
\<close>

definition no_number :: "string \<Rightarrow> bool" where
  "no_number s \<longleftrightarrow> \<not> list_ex is_digit s \<or> list_ex (\<lambda>c. \<not> is_digit c \<and> \<not> is_space c \<and> c \<noteq> CHR ''-'') s"

locale mpz =
  fixes Z :: mpz_api
  assumes set_str: "digits s \<Longrightarrow> mpz_set_str Z s = Some (int (decimal s))"
    and set_str_minus: "digits s \<Longrightarrow> mpz_set_str Z (CHR ''-'' # s) = Some (- int (decimal s))"
    and set_str_error: "no_number s \<Longrightarrow> mpz_set_str Z s = None"
    and limbs: "lval (mpz_limbs Z (int n)) = n" "mpz_limbs Z (int n) = [] \<or> last (mpz_limbs Z (int n)) \<noteq> 0"
begin

lemma from_decimal_spec:
  assumes "digits (cstr s)" "nlimbs (decimal (cstr s)) < 2 ^ 20"
  shows "pl_nat_from_decimal Z s = Inr (nat_rep (decimal (cstr s)), True)"
proof -
  let ?n = "decimal (cstr s)" and ?l = "mpz_limbs Z (int (decimal (cstr s)))"
  have "length ?l = nlimbs ?n" using nlimbs_lval[OF limbs(2)[of ?n]] limbs(1)[of ?n] by simp
  then have *: "pl_nat_from_decimal Z s =
      (if nlimbs ?n = 0 then Inr (Direct 0, True) else rbind (nat_result (nlimbs ?n) ?l) (\<lambda>r. Inr (r, True)))"
    unfolding pl_nat_from_decimal_def cstr_def[symmetric] set_str[OF assms(1)] by simp
  have "nat_result (nlimbs ?n) ?l = Inr (nat_rep ?n)" if "?n \<noteq> 0"
    using nat_result_spec[OF \<open>length ?l = nlimbs ?n\<close>] that assms(2) limbs(1)[of ?n] by (simp add: Suc_le_eq)
  then show ?thesis unfolding * by (cases "?n = 0") simp_all
qed

lemma from_decimal_minus:
  assumes "cstr s = CHR ''-'' # t" "digits t"
  shows "pl_nat_from_decimal Z s = Inr (Direct 0, decimal t = 0)"
proof -
  have "mpz_limbs Z 0 = []" using limbs[of 0] nlimbs_lval[of "mpz_limbs Z 0"] by (simp add: nlimbs.simps)
  then show ?thesis unfolding pl_nat_from_decimal_def cstr_def[symmetric] assms(1) set_str_minus[OF assms(2)]
    by (cases "decimal t = 0") simp_all
qed

lemma from_decimal_error:
  assumes "no_number (cstr s)"
  shows "pl_nat_from_decimal Z s = Inr (Direct 0, False)"
  unfolding pl_nat_from_decimal_def cstr_def[symmetric] set_str_error[OF assms] by simp

end

subsection \<open>Reference kernels\<close>

text \<open>
  Kernels computed on the numbers the limbs denote, for evaluation: they satisfy the contract, so it
  is consistent, and the witnesses run the code on them.
\<close>

definition lsplit :: "nat \<Rightarrow> nat \<Rightarrow> limbs \<times> u64" where
  "lsplit k v = (limbs_of k v, word_of_nat (v div (2 ^ 64) ^ k))"

definition lborrow :: "limbs \<Rightarrow> nat \<Rightarrow> limbs \<times> u64" where
  "lborrow xs v = (if v \<le> lval xs then (limbs_of (length xs) (lval xs - v), 0)
     else (limbs_of (length xs) (lval xs + (2 ^ 64) ^ length xs - v), 1))"

definition mpn_ref :: mpn_api where
  "mpn_ref = \<lparr>
     mpn_cmp = (\<lambda>xs ys. if lval xs < lval ys then - 1 else if lval xs = lval ys then 0 else 1),
     mpn_add_1 = (\<lambda>xs w. lsplit (length xs) (lval xs + unat w)),
     mpn_sub_1 = (\<lambda>xs w. lborrow xs (unat w)),
     mpn_add = (\<lambda>xs ys. lsplit (length xs) (lval xs + lval ys)),
     mpn_sub = (\<lambda>xs ys. lborrow xs (lval ys)),
     mpn_mul = (\<lambda>xs ys. limbs_of (length xs + length ys) (lval xs * lval ys)),
     mpn_tdiv_qr = (\<lambda>ns ds. (limbs_of (length ns - length ds + 1) (lval ns div lval ds),
                              limbs_of (length ds) (lval ns mod lval ds))),
     mpn_lshift = (\<lambda>xs k. lsplit (length xs) (lval xs * 2 ^ k)),
     mpn_rshift = (\<lambda>xs k. (limbs_of (length xs) (lval xs div 2 ^ k), word_of_nat (lval xs mod 2 ^ k)))\<rparr>"

definition mpz_ref :: mpz_api where
  "mpz_ref = \<lparr>
     mpz_set_str = (\<lambda>s. if digits s then Some (int (decimal s))
       else case s of [] \<Rightarrow> None | c # t \<Rightarrow> if c = CHR ''-'' \<and> digits t then Some (- int (decimal t)) else None),
     mpz_limbs = (\<lambda>z. nat_limbs (nat \<bar>z\<bar>))\<rparr>"

lemma lsplit_spec:
  assumes "lsplit k v = (out, c)" "v < (2 ^ 64) ^ k * 2 ^ 64"
  shows "length out = k \<and> lval out + (2 ^ 64) ^ k * unat c = v"
proof -
  have "v div (2 ^ 64) ^ k < 2 ^ 64" using assms(2) by (simp add: div_less_iff_less_mult mult.commute)
  then show ?thesis using assms(1)
    by (auto simp: lsplit_def lval_limbs_of unsigned_of_nat take_bit_eq_mod)
qed

lemma lborrow_spec:
  assumes "lborrow xs v = (out, c)" "v \<le> (2 ^ 64) ^ length xs"
  shows "length out = length xs \<and> lval out + v = lval xs + (2 ^ 64) ^ length xs * unat c"
  using assms lval_less[of xs] by (auto simp: lborrow_def lval_limbs_of split: if_splits)

lemma add_carry_bound: "a < B \<Longrightarrow> b < B \<Longrightarrow> a + b < B * 2 ^ 64" for a :: nat
  by simp

lemma limb_pow: "k \<noteq> 0 \<Longrightarrow> (2 ^ 64 :: nat) \<le> (2 ^ 64) ^ k"
  using power_increasing[of 1 k "2 ^ 64 :: nat"] by simp

interpretation ref: mpn mpn_ref
proof unfold_locales
  fix xs ys :: limbs
  show "sgn (mpn_cmp mpn_ref xs ys) = sgn (int (lval xs) - int (lval ys))"
    by (simp add: mpn_ref_def)
next
  fix xs :: limbs and w out c
  assume "xs \<noteq> []" "mpn_add_1 mpn_ref xs w = (out, c)"
  moreover have "unat w < (2 ^ 64) ^ length xs"
    by (rule less_le_trans[OF unat_u64_less limb_pow]) (use calculation(1) in simp)
  ultimately show "length out = length xs \<and> lval out + (2 ^ 64) ^ length xs * unat c = lval xs + unat w"
    using lsplit_spec[of "length xs" "lval xs + unat w" out c] add_carry_bound[OF lval_less[of xs]]
    by (simp add: mpn_ref_def)
next
  fix xs :: limbs and w out c
  assume "xs \<noteq> []" "mpn_sub_1 mpn_ref xs w = (out, c)"
  moreover have "unat w < (2 ^ 64) ^ length xs"
    by (rule less_le_trans[OF unat_u64_less limb_pow]) (use calculation(1) in simp)
  ultimately show "length out = length xs \<and> lval out + unat w = lval xs + (2 ^ 64) ^ length xs * unat c"
    using lborrow_spec[of xs "unat w" out c] by (simp add: mpn_ref_def)
next
  fix xs ys out :: limbs and c
  assume "length ys \<le> length xs" "ys \<noteq> []" "mpn_add mpn_ref xs ys = (out, c)"
  moreover have "lval ys < (2 ^ 64) ^ length xs"
    by (rule less_le_trans[OF lval_less power_increasing]) (use calculation(1) in simp_all)
  ultimately show "length out = length xs \<and> lval out + (2 ^ 64) ^ length xs * unat c = lval xs + lval ys"
    using lsplit_spec[of "length xs" "lval xs + lval ys" out c] lval_less[of xs] by (simp add: mpn_ref_def)
next
  fix xs ys out :: limbs and c
  assume "length ys \<le> length xs" "mpn_sub mpn_ref xs ys = (out, c)"
  moreover have "lval ys < (2 ^ 64) ^ length xs"
    by (rule less_le_trans[OF lval_less power_increasing]) (use calculation(1) in simp_all)
  ultimately show "length out = length xs \<and> lval out + lval ys = lval xs + (2 ^ 64) ^ length xs * unat c"
    using lborrow_spec[of xs "lval ys" out c] by (simp add: mpn_ref_def)
next
  fix xs ys :: limbs
  have "lval xs * lval ys < (2 ^ 64) ^ length xs * (2 ^ 64) ^ length ys"
    by (intro mult_strict_mono) (use lval_less in auto)
  then show "length (mpn_mul mpn_ref xs ys) = length xs + length ys \<and>
      lval (mpn_mul mpn_ref xs ys) = lval xs * lval ys"
    by (simp add: mpn_ref_def lval_limbs_of power_add)
next
  fix ds ns q r :: limbs
  assume le: "length ds \<le> length ns" and ne: "ds \<noteq> []" "last ds \<noteq> 0"
    and qr: "mpn_tdiv_qr mpn_ref ns ds = (q, r)"
  note top = lval_ge_top[OF ne]
  then have pos: "0 < lval ds" by (rule less_le_trans[rotated]) simp
  have split: "length ns = (length ns - length ds + 1) + (length ds - 1)" using le ne by (cases ds) auto
  have "lval ns < (2 ^ 64) ^ (length ns - length ds + 1) * (2 ^ 64) ^ (length ds - 1)"
    using lval_less[of ns] by (subst (asm) split) (simp only: power_add)
  also have "\<dots> \<le> (2 ^ 64) ^ (length ns - length ds + 1) * lval ds" using top by (intro mult_le_mono) auto
  finally have "lval ns div lval ds < (2 ^ 64) ^ (length ns - length ds + 1)"
    using pos by (simp add: div_less_iff_less_mult)
  moreover have "lval ns mod lval ds < (2 ^ 64) ^ length ds"
    using mod_less_divisor[OF pos] lval_less[of ds] by (rule less_trans)
  ultimately show "length q = length ns - length ds + 1 \<and> length r = length ds \<and>
      lval q = lval ns div lval ds \<and> lval r = lval ns mod lval ds"
    using qr by (auto simp: mpn_ref_def lval_limbs_of simp del: limbs_of.simps)
next
  fix xs :: limbs and k out c
  assume "1 \<le> k" "k < 64" and l: "mpn_lshift mpn_ref xs k = (out, c)"
  have "lval xs * 2 ^ k < (2 ^ 64) ^ length xs * 2 ^ 64"
    using \<open>k < 64\<close> by (intro mult_strict_mono lval_less power_strict_increasing) auto
  then show "length out = length xs \<and> lval out + (2 ^ 64) ^ length xs * unat c = lval xs * 2 ^ k"
    using lsplit_spec[of "length xs" "lval xs * 2 ^ k" out c] l by (simp add: mpn_ref_def)
next
  fix xs :: limbs and k out c
  assume "mpn_rshift mpn_ref xs k = (out, c)"
  moreover have "lval xs div 2 ^ k < (2 ^ 64) ^ length xs"
    by (rule le_less_trans[OF div_le_dividend lval_less])
  ultimately show "length out = length xs \<and> lval out = lval xs div 2 ^ k"
    by (auto simp: mpn_ref_def lval_limbs_of)
qed

interpretation mpz_ref: mpz mpz_ref
proof unfold_locales
  fix s :: string and n
  have minus: "\<not> is_digit (CHR ''-'')" by (simp add: is_digit_def)
  show "digits s \<Longrightarrow> mpz_set_str mpz_ref s = Some (int (decimal s))" by (simp add: mpz_ref_def)
  show "digits s \<Longrightarrow> mpz_set_str mpz_ref (CHR ''-'' # s) = Some (- int (decimal s))"
    using minus by (simp add: mpz_ref_def digits_def)
  have "digits s \<Longrightarrow> \<not> no_number s"
    by (cases s) (auto simp: digits_def no_number_def list_all_iff list_ex_iff)
  moreover have "digits t \<Longrightarrow> \<not> no_number (CHR ''-'' # t)" for t
    by (cases t) (auto simp: digits_def no_number_def list_all_iff list_ex_iff)
  ultimately show "no_number s \<Longrightarrow> mpz_set_str mpz_ref s = None"
    by (auto simp: mpz_ref_def split: list.splits)
  show "lval (mpz_limbs mpz_ref (int n)) = n" "mpz_limbs mpz_ref (int n) = [] \<or> last (mpz_limbs mpz_ref (int n)) \<noteq> 0"
    by (auto simp: mpz_ref_def last_nat_limbs)
qed

subsection \<open>Properties\<close>

lemma nat_ok_cases:
  assumes "nat_ok a"
  obtains n where "a = nat_rep n" "nval a = n" "nlimbs n < 2 ^ 20"
  using assms nat_ok_rep[OF assms] nat_ok_nat_rep[of "nval a"] by metis

text \<open>
  Trimming gives the one well-formed representation of the number the limbs denote: every
  number of fewer than \<open>2 ^ 20\<close> limbs has exactly one, a direct word below \<open>2 ^ 63\<close> and a boxed
  array with a nonzero top limb from there on.
\<close>

theorem pl_nat_trim_canonical:
  assumes "length ls < 2 ^ 20"
  shows "nat_ok (pl_nat_trim (Boxed ls)) \<and> nval (pl_nat_trim (Boxed ls)) = lval ls \<and>
    (\<forall>v. nat_ok v \<and> nval v = lval ls \<longrightarrow> v = pl_nat_trim (Boxed ls))"
proof -
  have "nlimbs (lval ls) \<le> length ls" unfolding nlimbs_le_iff by (rule lval_less)
  then have "nat_ok (nat_rep (lval ls))" using assms by (simp add: nat_ok_nat_rep)
  then show ?thesis using nat_ok_rep unfolding nat_trim_spec[OF assms] by (metis nval_nat_rep)
qed

theorem pl_nat_trim_canonical_witness:
  "nat_ok (pl_nat_trim (Boxed [5, 0, 0])) \<and> nval (pl_nat_trim (Boxed [5, 0, 0])) = 5"
  using pl_nat_trim_canonical[of "[5, 0, 0]"] by simp

text \<open>
  C6. Increment, decrement, sum, difference (floored at zero) and product of two nats are the
  operations on the numbers they denote, whether the operands are direct or boxed, as long as the
  result's limb count stays in range.
\<close>

theorem pl_nat_arith:
  assumes "mpn M" "nat_ok a" "nat_ok b" "nlimbs (nval a) + nlimbs (nval b) + 1 < 2 ^ 20"
  shows "pl_nat_inc M a = Inr (nat_rep (nval a + 1)) \<and> pl_nat_dec M a = Inr (nat_rep (nval a - 1)) \<and>
    pl_nat_add M a b = Inr (nat_rep (nval a + nval b)) \<and>
    pl_nat_sub M a b = Inr (nat_rep (nval a - nval b)) \<and>
    pl_nat_mul M a b = Inr (nat_rep (nval a * nval b))"
proof -
  obtain m n where "a = nat_rep m" "b = nat_rep n" using assms(2,3) by (metis nat_ok_cases)
  then show ?thesis using assms(4) mpn.inc_spec[OF assms(1), of m] mpn.dec_spec[OF assms(1), of m]
      mpn.add_spec[OF assms(1), of m n] mpn.sub_spec[OF assms(1), of m n] mpn.mul_spec[OF assms(1), of m n]
    by simp
qed

theorem pl_nat_arith_witness:
  "pl_nat_mul mpn_ref (Direct 0x7fffffffffffffff) (Boxed [0, 0, 1])
     = Inr (nat_rep (9223372036854775807 * 340282366920938463463374607431768211456)) \<and>
   pl_nat_sub mpn_ref (Direct 0x7fffffffffffffff) (Boxed [0, 0, 1]) = Inr (nat_rep 0)"
proof -
  have v: "nval (Direct 0x7fffffffffffffff) = 9223372036854775807"
    "nval (Boxed [0, 0, 1]) = 340282366920938463463374607431768211456" by simp_all
  have ok: "nat_ok (Direct 0x7fffffffffffffff)" "nat_ok (Boxed [0, 0, 1])"
    by (simp_all add: PL_NAT63_MAX_def)
  have "nlimbs 9223372036854775807 = 1" "nlimbs 340282366920938463463374607431768211456 = 3"
    by (simp_all add: nlimbs.simps)
  then show ?thesis using pl_nat_arith[OF ref.mpn_axioms ok, unfolded v] by simp
qed

text \<open>
  C17. Division and remainder raise on a zero divisor and otherwise give the quotient and the
  remainder; comparison orders nats as numbers, so it decides equality.
\<close>

theorem pl_nat_div_cmp:
  assumes "mpn M" "nat_ok a" "nat_ok b"
  shows "pl_nat_div M a b = (if nval b = 0 then Inl (Raise ''division by zero'')
      else Inr (nat_rep (nval a div nval b))) \<and>
    pl_nat_mod M a b = (if nval b = 0 then Inl (Raise ''division by zero'')
      else Inr (nat_rep (nval a mod nval b))) \<and>
    (pl_nat_cmp M a b < 0) = (nval a < nval b) \<and> (0 < pl_nat_cmp M a b) = (nval b < nval a) \<and>
    pl_nat_eq M a b = (nval a = nval b)"
proof -
  obtain m n where "a = nat_rep m" "b = nat_rep n" "nlimbs m < 2 ^ 20"
    using assms(2,3) by (metis nat_ok_cases)
  then show ?thesis
    using mpn.divmod_spec[OF assms(1), of m n] mpn.cmp_order[OF assms(1), of m n]
    by (auto simp: pl_nat_div_def pl_nat_mod_def pl_nat_eq_def pl_nat_divmod_def)
qed

theorem pl_nat_div_cmp_witness:
  "pl_nat_mod mpn_ref (Boxed [7, 3]) (Direct 3) = Inr (nat_rep 1) \<and>
   pl_nat_div mpn_ref (Boxed [7, 3]) (Direct 0) = Inl (Raise ''division by zero'')"
proof -
  have ok: "nat_ok (Boxed [7, 3])" "nat_ok (Direct 3)" "nat_ok (Direct 0)"
    by (simp_all add: PL_NAT63_MAX_def)
  show ?thesis using pl_nat_div_cmp[OF ref.mpn_axioms ok(1,2)] pl_nat_div_cmp[OF ref.mpn_axioms ok(1,3)]
    by simp
qed

text \<open>
  C18. Shifts, powers of two and single-bit operations are the ones on numbers; a bit or width
  argument too large for a machine word behaves like the number it is. The shift and the bit written
  must leave the result's limb count in range.
\<close>

theorem pl_nat_bits:
  assumes "mpn M" "nat_ok a" "nat_ok k"
  shows "(nval a = 0 \<or> nval k div 64 + nlimbs (nval a) + 1 < 2 ^ 20 \<longrightarrow>
      pl_nat_lsh M a k = Inr (nat_rep (nval a * 2 ^ nval k))) \<and>
    (nval k < 2 ^ 64 \<longrightarrow> pl_nat_rsh M a k = Inr (nat_rep (nval a div 2 ^ nval k))) \<and>
    (nval k div 64 + 1 < 2 ^ 20 \<longrightarrow> pl_nat_bex k = Inr (nat_rep (2 ^ nval k)) \<and>
      pl_nat_set_bit k a = Inr (nat_rep (set_bit (nval k) (nval a)))) \<and>
    pl_nat_clear_bit k a = Inr (nat_rep (unset_bit (nval k) (nval a))) \<and>
    pl_nat_test_bit k a = bit (nval a) (nval k) \<and>
    pl_nat_trunc k a = Inr (nat_rep (nval a mod 2 ^ nval k)) \<and>
    (\<forall>w. pl_nat_bit_len a \<le> w \<longleftrightarrow> nval a < 2 ^ w)"
proof -
  obtain n i where e: "a = nat_rep n" "k = nat_rep i" "nlimbs n < 2 ^ 20"
    using assms(2,3) by (metis nat_ok_cases)
  have c: "unat (pl_nat_u64_clamp (nat_rep i)) = i" if "i < 2 ^ 64" using that by (simp add: clamp_rep)
  have small: "i < 2 ^ 64" if "i div 64 + 1 < 2 ^ 20" using that by simp
  have "pl_nat_lsh M (nat_rep n) (nat_rep i) = Inr (nat_rep (n * 2 ^ i))"
    if "n = 0 \<or> i div 64 + nlimbs n + 1 < 2 ^ 20"
  proof (cases "n = 0")
    case False
    with that show ?thesis using mpn.lsh_spec[OF assms(1) False _ refl, of "nat_rep i"] c[OF small] by simp
  qed (simp add: pl_nat_lsh_def)
  moreover have "pl_nat_rsh M (nat_rep n) (nat_rep i) = Inr (nat_rep (n div 2 ^ i))" if "i < 2 ^ 64"
    using mpn.rsh_spec[OF assms(1) e(3) refl, of "nat_rep i"] c that by simp
  ultimately show ?thesis unfolding e nval_nat_rep
    using bex_spec[of i] set_bit_spec[of n i] clear_bit_spec[of n i] test_bit_spec[of n i]
      trunc_spec[of n i] bit_len_le_iff[of n] e(3) by blast
qed

theorem pl_nat_bits_witness:
  "pl_nat_lsh mpn_ref (Direct 5) (Direct 100) = Inr (nat_rep (5 * 2 ^ 100)) \<and>
   pl_nat_set_bit (Direct 70) (Direct 5) = Inr (nat_rep (set_bit 70 5)) \<and>
   pl_nat_test_bit (Direct 70) (Direct 5) = bit (5 :: nat) 70"
proof -
  have ok: "nat_ok (Direct 5)" "nat_ok (Direct 100)" "nat_ok (Direct 70)"
    by (simp_all add: PL_NAT63_MAX_def)
  have "nlimbs 5 = 1" by (simp add: nlimbs.simps)
  then show ?thesis using pl_nat_bits[OF ref.mpn_axioms ok(1,2)] pl_nat_bits[OF ref.mpn_axioms ok(1,3)]
    by simp
qed

text \<open>
  C19. A nat is its little-endian bytes: reading a byte, loading a field of any offset and width,
  and building a nat from bytes agree with the number; storing a byte below \<open>2 ^ 64\<close> replaces that
  byte's digit.
\<close>

theorem pl_nat_bytes:
  assumes "nat_ok a"
  shows "unat (pl_nat_byte_at a i) = nval a div 256 ^ i mod 256 \<and>
    (\<forall>w. pl_nat_byte_len a \<le> w \<longleftrightarrow> nval a < 256 ^ w) \<and>
    pl_nat_load_var (nat_rep off) (nat_rep wd) a = Inr (nat_rep (nval a div 256 ^ off mod 256 ^ wd)) \<and>
    (length bs < 8 * (2 ^ 20 - 1) \<longrightarrow> pl_nat_from_bytes bs = Inr (nat_rep (bval bs))) \<and>
    (i div 8 + 1 < 2 ^ 20 \<and> byte < 2 ^ 64 \<longrightarrow>
      (\<exists>r. pl_nat_store_byte (nat_rep i) (nat_rep byte) a = Inr (nat_rep r) \<and>
        r + 256 ^ i * (nval a div 256 ^ i mod 256) = nval a + 256 ^ i * (byte mod 256)))"
proof -
  obtain n where e: "a = nat_rep n" "nlimbs n < 2 ^ 20" using assms by (metis nat_ok_cases)
  have "min byte (2 ^ 64 - 1) = byte" if "byte < 2 ^ 64" using that by simp
  then show ?thesis unfolding e nval_nat_rep
    using byte_at_rep[of n i] byte_len_le_iff[of n] load_var_spec[OF e(2), of off wd]
      from_bytes_spec[of bs] store_byte_spec[OF e(2), of i byte] by metis
qed

theorem pl_nat_bytes_witness:
  "unat (pl_nat_byte_at (Boxed [0, 0x1234]) 8) = 0x34 \<and>
   pl_nat_load_var (nat_rep 8) (nat_rep 1) (Boxed [0, 0x1234]) = Inr (nat_rep 0x34) \<and>
   pl_nat_from_bytes [1, 2, 0] = Inr (nat_rep 0x201)"
proof -
  have ok: "nat_ok (Boxed [0, 0x1234])" by (simp add: PL_NAT63_MAX_def)
  show ?thesis using pl_nat_bytes[OF ok, of 8 8 1 "[1, 2, 0]"] by simp
qed

text \<open>
  Storing a byte argument of \<open>2 ^ 64\<close> or more writes \<open>0xff\<close>, whatever its low byte is: the
  argument is clamped to a machine word before it is cut to a byte.
\<close>

theorem pl_nat_store_byte_clamped:
  "pl_nat_store_byte (Direct 0) (Boxed [0, 1]) (Direct 0) = Inr (Direct 0xff)"
proof -
  have "nat_rep (2 ^ 64) = Boxed [0, 1]" by (simp add: nat_rep_def nat_limbs_def nlimbs.simps)
  moreover have "nat_rep 255 = Direct 0xff" by (simp add: nat_rep_def)
  ultimately show ?thesis using store_byte_spec[of 0 0 "2 ^ 64"] by auto
qed

text \<open>
  C20. Decimal text is read as the number it writes, up to the first NUL, when that number fits a boxed nat. Digits behind a
  minus sign are reported as no natural number, except for zero; text without a digit, or with a character that is neither a digit nor white
  space nor a sign, is reported as well.
\<close>

theorem pl_nat_from_decimal_value:
  assumes "mpz Z"
  shows "(digits (cstr s) \<and> nlimbs (decimal (cstr s)) < 2 ^ 20 \<longrightarrow> pl_nat_from_decimal Z s = Inr (nat_rep (decimal (cstr s)), True)) \<and>
    (\<forall>t. cstr s = CHR ''-'' # t \<and> digits t \<longrightarrow> pl_nat_from_decimal Z s = Inr (Direct 0, decimal t = 0)) \<and>
    (no_number (cstr s) \<longrightarrow> pl_nat_from_decimal Z s = Inr (Direct 0, False))"
  using mpz.from_decimal_spec[OF assms] mpz.from_decimal_minus[OF assms] mpz.from_decimal_error[OF assms]
  by blast

theorem pl_nat_from_decimal_value_witness:
  "pl_nat_from_decimal mpz_ref ''18446744073709551617'' = Inr (nat_rep (2 ^ 64 + 1), True) \<and>
   pl_nat_from_decimal mpz_ref ''-12'' = Inr (Direct 0, False) \<and> pl_nat_from_decimal mpz_ref ''12x'' = Inr (Direct 0, False)"
proof (intro conjI)
  have c: "cstr ''18446744073709551617'' = ''18446744073709551617''" by (simp add: cstr_def)
  have d: "decimal ''18446744073709551617'' = 2 ^ 64 + 1" by (simp add: decimal_def)
  have "nlimbs (2 ^ 64 + 1) < 2 ^ 20" by (simp add: nlimbs.simps)
  then show "pl_nat_from_decimal mpz_ref ''18446744073709551617'' = Inr (nat_rep (2 ^ 64 + 1), True)"
    using pl_nat_from_decimal_value[OF mpz_ref.mpz_axioms, of "''18446744073709551617''", unfolded c d]
    by (simp add: is_digit_def digits_def)
  have "cstr ''-12'' = ''-12''" "cstr ''12x'' = ''12x''" by (simp_all add: cstr_def)
  then show "pl_nat_from_decimal mpz_ref ''-12'' = Inr (Direct 0, False)"
    "pl_nat_from_decimal mpz_ref ''12x'' = Inr (Direct 0, False)"
    using pl_nat_from_decimal_value[OF mpz_ref.mpz_axioms, of "''-12''"] pl_nat_from_decimal_value[OF mpz_ref.mpz_axioms, of "''12x''"]
    by (simp_all add: digits_def no_number_def is_digit_def is_space_def decimal_def)
qed

end
