(* ===== verification/Plan_Value.thy ===== *)
theory Plan_Value
  imports Plan_Nat
begin

text \<open>
  PLAN values as trees, and the constructors of \<open>build.c\<close> and \<open>build.h\<close>. WHNF objects never change
  in place (only thunks and unresolved PINs do), so a value is the tree its heap object denotes.
  \<open>VApp need head args\<close> carries the header's meta field; \<open>VPin h b\<close> is a PIN with body \<open>b\<close> whose hash
  is \<open>h\<close> once it is final; \<open>VOther\<close> stands for a word with any other tag (environments and deferred
  computations), which the components below only reject. Allocation (\<open>pl_bump\<close>) and the allocation
  statistics are left out: a constructor returns the object it fills.
\<close>

subsection \<open>The code\<close>

datatype pval =
    VNat pnat
  | VApp (app_need: nat) (app_head: pval) (app_args: "pval list")
  | VLaw u64 pval pval
  | VPin "bytes option" pval
  | VOther u64

fun pl_arity :: "pval \<Rightarrow> nat res" where
  "pl_arity (VNat n) = Inr 0"
| "pl_arity (VLaw a name body) = Inr (unat a)"
| "pl_arity (VPin h body) = (case body of VLaw a _ _ \<Rightarrow> Inr (unat a) | _ \<Rightarrow> Inr 1)"
| "pl_arity (VApp need head args) = Inr need"
| "pl_arity (VOther t) = Inl (Abort ''pl_arity on a non-WHNF value'')"

definition pl_need_after :: "pval \<Rightarrow> nat \<Rightarrow> nat res" where
  "pl_need_after head n_args =
     rbind (pl_arity head) (\<lambda>a.
       if a = 0 \<or> a \<le> n_args then Inr 0
       else let need = a - n_args in
         rbind (assume_c (need < 2 ^ 20) ''app need exceeds meta width'') (\<lambda>_. Inr need))"

definition pl_mk_app_from :: "pval \<Rightarrow> pval list \<Rightarrow> pval res" where
  "pl_mk_app_from head args =
     rbind (assume_c (1 \<le> length args) ''empty app'') (\<lambda>_.
     rbind (pl_need_after head (length args)) (\<lambda>need. Inr (VApp need head args)))"

definition pl_mk_app_snoc :: "pval \<Rightarrow> pval \<Rightarrow> pval res" where
  "pl_mk_app_snoc f x = (case f of
     VApp need head args \<Rightarrow> Inr (VApp (if need = 0 then 0 else need - 1) head (args @ [x]))
   | _ \<Rightarrow> rbind (pl_need_after f 1) (\<lambda>need. Inr (VApp need f [x])))"

definition pl_mk_app_cat :: "pval \<Rightarrow> pval list \<Rightarrow> pval res" where
  "pl_mk_app_cat f args =
     rbind (assume_c (1 \<le> length args) ''empty cat'') (\<lambda>_. case f of
       VApp need head old \<Rightarrow>
         rbind (pl_need_after head (length old + length args)) (\<lambda>need'. Inr (VApp need' head (old @ args)))
     | _ \<Rightarrow> pl_mk_app_from f args)"

definition pl_mk_app_take :: "pval \<Rightarrow> nat \<Rightarrow> pval res" where
  "pl_mk_app_take app n = (case app of
     VApp need head args \<Rightarrow>
       rbind (assume_c (1 \<le> n \<and> n < length args) ''bad app take'') (\<lambda>_.
       rbind (pl_need_after head n) (\<lambda>need'. Inr (VApp need' head (take n args))))
   | _ \<Rightarrow> Inl (Abort ''bad app take''))"

definition pl_mk_law :: "u64 \<Rightarrow> pval \<Rightarrow> pval \<Rightarrow> pval" where
  "pl_mk_law arity name body = VLaw arity name body"

fun pl_nat_coerce :: "pval \<Rightarrow> pnat" where
  "pl_nat_coerce (VNat n) = n"
| "pl_nat_coerce _ = Direct 0"

subsection \<open>Well-formed values\<close>

text \<open>
  What the constructors keep: nats are canonical, an APP is flat, has an argument, and its cached
  need is the head's arity less the arguments; the head's arity is known.
\<close>

fun is_app :: "pval \<Rightarrow> bool" where
  "is_app (VApp _ _ _) = True"
| "is_app _ = False"

fun val_ok :: "pval \<Rightarrow> bool" where
  "val_ok (VNat n) = nat_ok n"
| "val_ok (VApp need head args) =
     (\<not> is_app head \<and> args \<noteq> [] \<and> pl_need_after head (length args) = Inr need \<and>
      val_ok head \<and> list_all val_ok args)"
| "val_ok (VLaw a name body) = (val_ok name \<and> val_ok body)"
| "val_ok (VPin h body) = val_ok body"
| "val_ok (VOther t) = True"

lemma need_after_Inr:
  "pl_need_after head n = Inr k \<longleftrightarrow>
    (\<exists>a. pl_arity head = Inr a \<and> k = (if a = 0 \<or> a \<le> n then 0 else a - n) \<and> k < 2 ^ 20)"
proof (cases "pl_arity head")
  case (Inr a)
  show ?thesis
  proof (cases "a = 0 \<or> a \<le> n")
    case False
    then show ?thesis using Inr unfolding pl_need_after_def Inr rbind_simps if_not_P[OF False] Let_def rbind_assume
      by (auto simp del: power_numeral)
  qed (auto simp: pl_need_after_def Inr)
qed (simp add: pl_need_after_def)

lemma need_after_mono:
  assumes "pl_need_after head n = Inr k"
  shows "pl_need_after head (n + m) = Inr (k - m)"
proof -
  obtain a where a: "pl_arity head = Inr a" "k = (if a = 0 \<or> a \<le> n then 0 else a - n)" "k < 2 ^ 20"
    using assms unfolding need_after_Inr by blast
  have "k - m = (if a = 0 \<or> a \<le> n + m then 0 else a - (n + m))" using a(2) by auto
  moreover have "k - m < 2 ^ 20" using a(3) by (rule le_less_trans[OF diff_le_self])
  ultimately show ?thesis unfolding need_after_Inr using a(1) by blast
qed

lemma mk_app_from_ok:
  "val_ok head \<Longrightarrow> \<not> is_app head \<Longrightarrow> list_all val_ok args \<Longrightarrow> pl_mk_app_from head args = Inr v \<Longrightarrow> val_ok v"
  by (auto simp: pl_mk_app_from_def res_simps)

lemma mk_app_snoc_ok:
  assumes "val_ok f" "val_ok x" "pl_mk_app_snoc f x = Inr v"
  shows "val_ok v"
proof (cases f)
  case (VApp need head args)
  then have "pl_need_after head (length args + 1) = Inr (need - 1)"
    using assms(1) by (intro need_after_mono) simp
  then show ?thesis using assms VApp by (auto simp: pl_mk_app_snoc_def)
qed (use assms in \<open>auto simp: pl_mk_app_snoc_def res_simps\<close>)

lemma mk_app_cat_ok:
  assumes "val_ok f" "list_all val_ok args" "pl_mk_app_cat f args = Inr v"
  shows "val_ok v"
  using assms mk_app_from_ok[of f args v] by (cases f) (auto simp: pl_mk_app_cat_def res_simps)

lemma mk_app_take_ok: "val_ok app \<Longrightarrow> pl_mk_app_take app n = Inr v \<Longrightarrow> val_ok v"
  by (cases app) (auto simp: pl_mk_app_take_def res_simps list_all_iff dest!: in_set_takeD)

fun snocs :: "pval \<Rightarrow> pval list \<Rightarrow> pval res" where
  "snocs f [] = Inr f"
| "snocs f (x # xs) = rbind (pl_mk_app_snoc f x) (\<lambda>g. snocs g xs)"

lemma snocs_app:
  assumes "pl_need_after head (length old) = Inr need"
  shows "snocs (VApp need head old) xs = Inr (VApp (need - length xs) head (old @ xs))"
  using assms
proof (induction xs arbitrary: need old)
  case (Cons x xs)
  then have "pl_need_after head (length (old @ [x])) = Inr (need - 1)"
    using need_after_mono[of head "length old" need 1] by simp
  then show ?case using Cons.IH[of "old @ [x]" "need - 1"] by (cases need) (auto simp: pl_mk_app_snoc_def)
qed simp

subsection \<open>Properties\<close>

text \<open>
  C24. The APP constructors keep values well-formed: flat, with the cached need equal to the head's
  arity less the arguments held.
\<close>

theorem pl_mk_app_well_formed:
  assumes "val_ok f" "val_ok x" "list_all val_ok xs"
  shows "(\<forall>v. pl_mk_app_snoc f x = Inr v \<longrightarrow> val_ok v) \<and> (\<forall>v. pl_mk_app_cat f xs = Inr v \<longrightarrow> val_ok v) \<and>
    (\<forall>n v. pl_mk_app_take f n = Inr v \<longrightarrow> val_ok v)"
  using assms mk_app_snoc_ok mk_app_cat_ok mk_app_take_ok by blast

theorem pl_mk_app_well_formed_witness:
  "val_ok (VApp 1 (VLaw 3 (VNat (Direct 0)) (VNat (Direct 0))) [VNat (Direct 1), VNat (Direct 2)])"
proof -
  let ?f = "VApp 2 (VLaw 3 (VNat (Direct 0)) (VNat (Direct 0))) [VNat (Direct 1)]"
  have "val_ok ?f" "val_ok (VNat (Direct 2))"
    by (simp_all add: pl_need_after_def PL_NAT63_MAX_def)
  from pl_mk_app_well_formed[OF this, of "[]"] show ?thesis by (simp add: pl_mk_app_snoc_def)
qed

text \<open>
  Appending arguments in one step gives what appending them one by one gives.
\<close>

theorem pl_mk_app_cat_snocs:
  assumes "val_ok f" "xs \<noteq> []" "snocs f xs = Inr v"
  shows "pl_mk_app_cat f xs = Inr v"
proof (cases f)
  case (VApp need head old)
  then have n: "pl_need_after head (length old) = Inr need" using assms(1) by simp
  then show ?thesis
    using assms VApp snocs_app[OF n, of xs] need_after_mono[OF n, of "length xs"]
    by (simp add: pl_mk_app_cat_def Suc_le_eq)
next
  case (VOther t)
  then show ?thesis using assms by (cases xs) (auto simp: pl_mk_app_snoc_def pl_need_after_def)
qed (use assms in \<open>cases xs; auto simp: pl_mk_app_cat_def pl_mk_app_from_def pl_mk_app_snoc_def res_simps
      snocs_app dest: need_after_mono\<close>)+

theorem pl_mk_app_cat_snocs_witness:
  "pl_mk_app_cat (VLaw 3 (VNat (Direct 0)) (VNat (Direct 0))) [VNat (Direct 1), VNat (Direct 2)]
     = Inr (VApp 1 (VLaw 3 (VNat (Direct 0)) (VNat (Direct 0))) [VNat (Direct 1), VNat (Direct 2)])"
  using pl_mk_app_cat_snocs[of "VLaw 3 (VNat (Direct 0)) (VNat (Direct 0))" "[VNat (Direct 1), VNat (Direct 2)]"]
  by (simp add: pl_mk_app_snoc_def pl_need_after_def PL_NAT63_MAX_def)

end
