(* ===== verification/Silo_Wire.thy ===== *)
theory Silo_Wire
  imports Plan_Value
begin

text \<open>
  The wire level of \<open>pkg/plan/src/silo.c\<close>: little-endian scalars and their minimal widths, the
  hashes of the Merkle nats, CRC-32C, and the byte sink and byte source the codec runs over. The
  callbacks of \<open>pl_silo_writer\<close> and \<open>pl_silo_reader\<close> are functions on a context; the locales
  \<open>byte_sink\<close> and \<open>byte_source\<close> state what the codec relies on, and are interpreted on the memory
  buffer of \<open>silo.c\<close> and on the mapped pack reader of \<open>store_silo.c\<close>.

  SHA-256 is OpenSSL's: a parameter \<open>sha\<close>. An error is the message \<open>silo_error\<close> formats, without
  the numbers it interpolates. Lengths and offsets are naturals; they are checked against
  \<open>UINT64_MAX\<close> where the code checks them.
\<close>

subsection \<open>Constants\<close>

definition PL_SILO_MAX_DEPTH :: nat where "PL_SILO_MAX_DEPTH = 4096"
definition PL_SILO_MAX_PIN_COUNT :: nat where "PL_SILO_MAX_PIN_COUNT = 0xFFFFF"
definition PL_SILO_MAX_NAT_BYTES :: nat where "PL_SILO_MAX_NAT_BYTES = PL_SILO_MAX_PIN_COUNT * 8"
definition PL_SILO_LEAF_BYTES :: nat where "PL_SILO_LEAF_BYTES = 1024"
definition PL_SILO_PAGE_BYTES :: nat where "PL_SILO_PAGE_BYTES = 65536"
definition PL_SILO_NAT_CUTOVER :: nat where "PL_SILO_NAT_CUTOVER = 8192"

lemmas silo_consts = PL_SILO_MAX_DEPTH_def PL_SILO_MAX_PIN_COUNT_def PL_SILO_MAX_NAT_BYTES_def
  PL_SILO_LEAF_BYTES_def PL_SILO_PAGE_BYTES_def PL_SILO_NAT_CUTOVER_def

definition string_bytes :: "string \<Rightarrow> bytes" where
  "string_bytes s = map of_char s"

definition silo_magic :: bytes where
  "silo_magic = string_bytes ''SILO'' @ [1]"

text \<open>\<open>sizeof\<close> of a string literal counts its NUL.\<close>

definition silo_leaf_domain :: bytes where
  "silo_leaf_domain = string_bytes ''SILO-NAT-LEAF-v1'' @ [0]"

definition silo_node_domain :: bytes where
  "silo_node_domain = string_bytes ''SILO-NAT-NODE-v1'' @ [0]"

definition silo_root_domain :: bytes where
  "silo_root_domain = string_bytes ''SILO-NAT-ROOT-v1'' @ [0]"

subsection \<open>Scalars\<close>

definition put16le :: "u16 \<Rightarrow> bytes" where
  "put16le v = [ucast v, ucast (drop_bit 8 v)]"

definition put32le :: "u32 \<Rightarrow> bytes" where
  "put32le v = map (\<lambda>i. ucast (drop_bit (8 * i) v)) [0..<4]"

definition put64le :: "u64 \<Rightarrow> bytes" where
  "put64le v = map (\<lambda>i. ucast (drop_bit (8 * i) v)) [0..<8]"

definition getle :: "bytes \<Rightarrow> u64" where
  "getle inp =
     (let k = (if length inp < 8 then length inp else 8) in
      foldl (\<lambda>v i. v OR push_bit (8 * i) (ucast (inp ! i))) 0 [0..<k])"

text \<open>\<open>do { n++; v >>= 8; } while (v != 0)\<close>\<close>

function width_u64 :: "u64 \<Rightarrow> nat" where
  "width_u64 v = (let v' = drop_bit 8 v in if v' \<noteq> 0 then Suc (width_u64 v') else 1)"
  by auto
termination
proof (relation "measure unat")
  fix v v' :: u64
  assume "v' = drop_bit 8 v" "v' \<noteq> 0"
  have "unat (drop_bit 8 v) = unat v div 256"
    unfolding unat_drop_bit_eq by (simp add: drop_bit_eq_div)
  moreover have "unat v' \<noteq> 0" using \<open>v' \<noteq> 0\<close> by (simp add: unsigned_eq_0_iff)
  ultimately have "unat v' = unat v div 256" "unat v' \<noteq> 0" using \<open>v' = _\<close> by simp_all
  then show "(v', v) \<in> measure unat" by simp
qed simp

declare width_u64.simps [simp del]

text \<open>
  \<open>split_power\<close> asserts \<open>n > 1\<close>; the loop \<open>while (k <= (n - 1) / 2) k <<= 1\<close> starts from 1. A zero
  \<open>k\<close>, which the loop never holds, would not end.
\<close>

function split_loop :: "nat \<Rightarrow> nat \<Rightarrow> nat" where
  "split_loop n k = (if 0 < k \<and> k \<le> (n - 1) div 2 then split_loop n (2 * k) else k)"
  by auto
termination by (relation "measure (\<lambda>(n, k). n - k)") auto

declare split_loop.simps [simp del]

definition split_power :: "nat \<Rightarrow> nat option" where
  "split_power n = (if 1 < n then Some (split_loop n 1) else None)"

definition crc32c_bit :: "u32 \<Rightarrow> u32" where
  "crc32c_bit crc = drop_bit 1 crc XOR (0x82f63b78 AND (0 - (crc AND 1)))"

definition crc32c_update :: "u32 \<Rightarrow> bytes \<Rightarrow> u32" where
  "crc32c_update crc p = foldl (\<lambda>c b. (crc32c_bit ^^ 8) (c XOR ucast b)) crc p"

definition silo_leaf_hash :: "(bytes \<Rightarrow> bytes) \<Rightarrow> nat \<Rightarrow> bytes \<Rightarrow> bytes" where
  "silo_leaf_hash sha index bs =
     sha (silo_leaf_domain @ put64le (word_of_nat index) @ put16le (word_of_nat (length bs)) @ bs)"

definition silo_node_hash :: "(bytes \<Rightarrow> bytes) \<Rightarrow> nat \<Rightarrow> nat \<Rightarrow> bytes \<Rightarrow> bytes \<Rightarrow> bytes" where
  "silo_node_hash sha start count left right =
     sha (silo_node_domain @ put64le (word_of_nat start) @ put64le (word_of_nat count) @ left @ right)"

definition silo_nat_root_hash :: "(bytes \<Rightarrow> bytes) \<Rightarrow> nat \<Rightarrow> bytes \<Rightarrow> bytes" where
  "silo_nat_root_hash sha bit_length tree =
     sha (silo_root_domain @ put64le (word_of_nat bit_length) @ tree)"

subsection \<open>The writer\<close>

type_synonym 'c sink = "'c \<Rightarrow> bytes \<Rightarrow> 'c option"

record 'c writer =
  w_ctx :: 'c
  w_pos :: nat

text \<open>A writing step returns the writer, or the error that makes the C function return \<open>false\<close>.\<close>

type_synonym 'c wm = "'c writer \<Rightarrow> string + 'c writer"

definition wok :: "'c wm" where
  "wok w = Inr w"

definition werr :: "string \<Rightarrow> 'c wm" where
  "werr e w = Inl e"

definition wseq :: "'c wm \<Rightarrow> 'c wm \<Rightarrow> 'c wm" where
  "wseq f g w = rbind (f w) g"

fun wall :: "('a \<Rightarrow> 'c wm) \<Rightarrow> 'a list \<Rightarrow> 'c wm" where
  "wall f [] = wok"
| "wall f (x # xs) = wseq (f x) (wall f xs)"

definition swrite :: "'c sink \<Rightarrow> bytes \<Rightarrow> 'c wm" where
  "swrite S bs w =
     (if SIZE_MAX - w_pos w < length bs then Inl ''Silo output length overflow''
      else if length bs \<noteq> 0 then
        case S (w_ctx w) bs of
          None \<Rightarrow> Inl ''Silo output write failed''
        | Some c \<Rightarrow> Inr \<lparr>w_ctx = c, w_pos = w_pos w + length bs\<rparr>
      else Inr w)"

definition swrite_u8 :: "'c sink \<Rightarrow> u8 \<Rightarrow> 'c wm" where
  "swrite_u8 S v = swrite S [v]"

definition swrite_le :: "'c sink \<Rightarrow> u64 \<Rightarrow> nat \<Rightarrow> 'c wm" where
  "swrite_le S v width = swrite S (take width (put64le v))"

definition swrite_varnat :: "'c sink \<Rightarrow> u64 \<Rightarrow> 'c wm" where
  "swrite_varnat S v =
     (let width = (if v = 0 then 0 else width_u64 v)
      in wseq (swrite_u8 S (word_of_nat width)) (swrite_le S v width))"

subsection \<open>The reader\<close>

record 'c source =
  src_read :: "'c \<Rightarrow> nat \<Rightarrow> (bytes \<times> 'c) option"
  src_rewind :: "'c \<Rightarrow> 'c option"

record 'c reader =
  r_ctx :: 'c
  r_len :: nat
  r_pos :: nat

definition sread :: "'c source \<Rightarrow> nat \<Rightarrow> 'c reader \<Rightarrow> string + (bytes \<times> 'c reader)" where
  "sread R n r =
     (if r_len r < r_pos r \<or> r_len r - r_pos r < n then Inl ''truncated Silo stream''
      else if n \<noteq> 0 then
        case src_read R (r_ctx r) n of
          None \<Rightarrow> Inl ''Silo input read failed''
        | Some (bs, c) \<Rightarrow> Inr (bs, r\<lparr>r_ctx := c, r_pos := r_pos r + n\<rparr>)
      else Inr ([], r))"

definition srewind :: "'c source \<Rightarrow> 'c reader \<Rightarrow> string + 'c reader" where
  "srewind R r = (case src_rewind R (r_ctx r) of
     None \<Rightarrow> Inl ''Silo input rewind failed''
   | Some c \<Rightarrow> Inr (r\<lparr>r_ctx := c, r_pos := 0\<rparr>))"

text \<open>The memory buffer of \<open>pl_silo_encode_buffer\<close>.\<close>

definition silo_buffer_write :: "bytes sink" where
  "silo_buffer_write sink bs =
     (if 2 ^ 63 - 1 < length bs \<or> (2 ^ 63 - 1) - length bs < length sink then None
      else Some (sink @ bs))"

text \<open>The mapped object of \<open>store_silo.c\<close>.\<close>

record pack_reader =
  pr_bytes :: bytes
  pr_pos :: nat

definition pack_reader_read :: "pack_reader \<Rightarrow> nat \<Rightarrow> (bytes \<times> pack_reader) option" where
  "pack_reader_read r len =
     (if length (pr_bytes r) < pr_pos r \<or> length (pr_bytes r) - pr_pos r < len then None
      else Some (take len (drop (pr_pos r) (pr_bytes r)), r\<lparr>pr_pos := pr_pos r + len\<rparr>))"

definition pack_reader_rewind :: "pack_reader \<Rightarrow> pack_reader option" where
  "pack_reader_rewind r = Some (r\<lparr>pr_pos := 0\<rparr>)"

definition pack_source :: "pack_reader source" where
  "pack_source = \<lparr>src_read = pack_reader_read, src_rewind = pack_reader_rewind\<rparr>"

subsection \<open>Scalars round trip\<close>

lemma unat_drop8: "unat (drop_bit 8 v :: u64) = unat v div 256"
  unfolding unat_drop_bit_eq by (simp add: drop_bit_eq_div)

lemma nth_bytes_of: "i < k \<Longrightarrow> bytes_of k n ! i = word_of_nat (n div 256 ^ i)"
proof (induction k arbitrary: n i)
  case (Suc k)
  then show ?case by (cases i) (simp_all add: div_mult2_eq)
qed simp

lemma ucast_drop: "(ucast (drop_bit (8 * i) v) :: u8) = word_of_nat (unat (v :: 'a::len word) div 256 ^ i)"
proof -
  have "(ucast (drop_bit (8 * i) v) :: u8) = word_of_nat (unat (drop_bit (8 * i) v))"
    by (simp add: unsigned_def)
  then show ?thesis by (simp only: unat_drop_bit_eq) (simp add: drop_bit_eq_div power_mult)
qed

lemma put64le_bytes: "put64le v = bytes_of 8 (unat v)"
  by (rule nth_equalityI) (simp_all add: put64le_def nth_bytes_of ucast_drop)

lemma take_bytes_of: "k \<le> n \<Longrightarrow> take k (bytes_of n x) = bytes_of k x"
  by (rule nth_equalityI) (simp_all add: nth_bytes_of)

lemma length_put64le [simp]: "length (put64le v) = 8"
  by (simp add: put64le_bytes)

lemma getle_fold:
  assumes "k \<le> length bs" "k \<le> 8"
  shows "unat (foldl (\<lambda>v i. v OR push_bit (8 * i) (ucast (bs ! i))) (0 :: u64) [0..<k]) = bval (take k bs)"
  using assms
proof (induction k)
  case (Suc k)
  let ?v = "foldl (\<lambda>v i. v OR push_bit (8 * i) (ucast (bs ! i))) (0 :: u64) [0..<k]"
  let ?b = "ucast (bs ! k) :: u64"
  have IH: "unat ?v = bval (take k bs)" using Suc by simp
  have lt: "bval (take k bs) < 256 ^ k" using bval_less[of "take k bs"] Suc.prems by simp
  have "unat (?v OR push_bit (8 * k) ?b) = unat ?v OR push_bit (8 * k) (unat (bs ! k))"
  proof (rule bit_eqI)
    fix j
    show "bit (unat (?v OR push_bit (8 * k) ?b)) j \<longleftrightarrow> bit (unat ?v OR push_bit (8 * k) (unat (bs ! k))) j"
      using Suc.prems(2) bit_imp_le_length[of "bs ! k" "j - 8 * k"]
      by (auto simp: bit_unsigned_iff bit_or_iff bit_push_bit_iff)
  qed
  also have "\<dots> = push_bit (8 * k) (unat (bs ! k)) OR unat ?v" by (simp only: or.commute)
  also have "\<dots> = push_bit (8 * k) (unat (bs ! k)) + unat ?v"
  proof (rule disjunctive_add[symmetric])
    fix j
    have "unat ?v < 2 ^ (8 * k)" using lt IH by (simp add: power_mult)
    then show "\<not> bit (push_bit (8 * k) (unat (bs ! k))) j \<or> \<not> bit (unat ?v) j"
      using bit_less[of "unat ?v" "8 * k" j] by (auto simp: bit_push_bit_iff)
  qed
  also have "\<dots> = bval (take (Suc k) bs)"
  proof -
    have "push_bit (8 * k) (unat (bs ! k)) = 256 ^ k * unat (bs ! k)"
      by (simp only: push_bit_eq_mult power_mult) simp
    then show ?thesis using Suc.prems IH by (simp add: take_Suc_conv_app_nth bval_append)
  qed
  finally show ?case by simp
qed simp

lemma getle_value: "unat (getle bs) = bval (take 8 bs)"
  using getle_fold[of "if length bs < 8 then length bs else 8" bs] by (simp add: getle_def)

lemma width_step:
  "width_u64 v = (if unat v < 256 then 1 else Suc (width_u64 (drop_bit 8 v)))"
proof -
  have "drop_bit 8 v = 0 \<longleftrightarrow> unat v < 256" using unat_drop8[of v] by (metis div_eq_0_iff unsigned_eq_0_iff zero_neq_numeral)
  then show ?thesis by (subst width_u64.simps) (simp add: Let_def)
qed

lemma width_spec:
  "1 \<le> width_u64 v \<and> unat v < 256 ^ width_u64 v \<and> (256 ^ (width_u64 v - 1) \<le> unat v \<or> width_u64 v = 1)"
proof (induction v rule: width_u64.induct)
  case (1 v)
  show ?case
  proof (cases "unat v < 256")
    case True
    then show ?thesis by (simp add: width_step[of v])
  next
    case False
    let ?w = "width_u64 (drop_bit 8 v)"
    have "unat (drop_bit 8 v) \<noteq> 0" unfolding unat_drop8 using False by simp
    then have "drop_bit 8 v \<noteq> 0" by (metis unsigned_0)
    from 1[OF refl this, unfolded unat_drop8] have IH: "1 \<le> ?w" "unat v div 256 < 256 ^ ?w"
      "256 ^ (?w - 1) \<le> unat v div 256 \<or> ?w = 1" by simp_all
    have "unat v < 256 * 256 ^ ?w" using IH(2) by (simp add: div_less_iff_less_mult mult.commute)
    moreover have "256 ^ ?w \<le> unat v"
    proof (cases "?w = 1")
      case True
      then show ?thesis using False by simp
    next
      case ne: False
      then have "256 ^ (?w - 1) * 256 \<le> unat v" using IH(3) by (simp add: less_eq_div_iff_mult_less_eq)
      then show ?thesis using IH(1) by (simp add: power_eq_if[of 256 ?w])
    qed
    ultimately show ?thesis using False width_step[of v] by simp
  qed
qed

lemma width_le_8: "width_u64 v \<le> 8"
proof (rule ccontr)
  assume "\<not> width_u64 v \<le> 8"
  then have "256 ^ 8 \<le> (256 :: nat) ^ (width_u64 v - 1)" by (intro power_increasing) auto
  then have "256 ^ 8 \<le> unat v" using width_spec[of v] \<open>\<not> width_u64 v \<le> 8\<close> by linarith
  then show False using leD[of "256 ^ 8" "unat v"] unat_u64_lt[of v] by simp
qed

lemma getle_put: "getle (take (width_u64 v) (put64le v)) = v"
proof -
  have "take (width_u64 v) (put64le v) = bytes_of (width_u64 v) (unat v)"
    using width_le_8 by (simp add: put64le_bytes take_bytes_of)
  then have "unat (getle (take (width_u64 v) (put64le v))) = unat v"
    using width_le_8[of v] width_spec[of v] by (simp add: getle_value take_bytes_of bval_bytes_of)
  then show ?thesis by (rule unsigned_word_eqI)
qed

lemma width_less_iff: "0 < k \<Longrightarrow> width_u64 v \<le> k \<longleftrightarrow> unat v < 256 ^ k"
proof
  assume "0 < k" "unat v < 256 ^ k"
  show "width_u64 v \<le> k"
  proof (cases "width_u64 v = 1")
    case False
    then have "256 ^ (width_u64 v - 1) < (256 :: nat) ^ k" using width_spec[of v] \<open>unat v < 256 ^ k\<close> by linarith
    then have "width_u64 v - 1 < k" by simp
    then show ?thesis by simp
  qed (use \<open>0 < k\<close> in simp)
next
  assume "0 < k" "width_u64 v \<le> k"
  then have "(256 :: nat) ^ width_u64 v \<le> 256 ^ k" by (intro power_increasing) auto
  then show "unat v < 256 ^ k" using width_spec[of v] by linarith
qed

subsection \<open>Splitting a count\<close>

lemma split_loop_spec:
  assumes "0 < k" "k < n" "\<exists>j. k = 2 ^ j" "1 < n"
  shows "(\<exists>j. split_loop n k = 2 ^ j) \<and> split_loop n k < n \<and> n \<le> 2 * split_loop n k"
  using assms
proof (induction n k rule: split_loop.induct)
  case (1 n k)
  show ?case
  proof (cases "k \<le> (n - 1) div 2")
    case True
    have "0 < 2 * k" "2 * k < n" "\<exists>j. 2 * k = 2 ^ j" using True "1.prems" by (auto intro: exI[of _ "Suc _"])
    from "1.IH"[OF _ this "1.prems"(4)] True "1.prems" show ?thesis by (subst (1 2 3) split_loop.simps) simp
  next
    case False
    then have "n \<le> 2 * k" by linarith
    then show ?thesis using False "1.prems" by (subst (1 2 3) split_loop.simps) simp
  qed
qed

lemma split_power_spec:
  assumes "1 < n"
  obtains k where "split_power n = Some k" "0 < k" "k < n" "n \<le> 2 * k" "\<exists>j. k = 2 ^ j"
proof -
  have "(\<exists>j. split_loop n 1 = 2 ^ j) \<and> split_loop n 1 < n \<and> n \<le> 2 * split_loop n 1"
    using assms by (intro split_loop_spec) (auto intro: exI[of _ 0])
  moreover then have "0 < split_loop n 1" by auto
  ultimately show thesis using assms that[of "split_loop n 1"] by (simp add: split_power_def)
qed

subsection \<open>The sink contract\<close>

text \<open>
  What the encoder relies on: an accepted write appends its bytes, and a write is accepted as long as
  the output stays within \<open>room\<close>. \<open>emits f bs\<close> says that the step \<open>f\<close>, when it succeeds, has appended
  exactly \<open>bs\<close>, and that it succeeds when there is room; \<open>fails f\<close> that it always reports an error.
\<close>

definition emits :: "('c \<Rightarrow> bytes) \<Rightarrow> nat \<Rightarrow> 'c wm \<Rightarrow> bytes \<Rightarrow> bool" where
  "emits written room f bs \<longleftrightarrow>
     (\<forall>w w'. f w = Inr w' \<longrightarrow>
        written (w_ctx w') = written (w_ctx w) @ bs \<and> w_pos w' = w_pos w + length bs) \<and>
     (\<forall>w. w_pos w = length (written (w_ctx w)) \<and> w_pos w + length bs \<le> room \<longrightarrow> (\<exists>w'. f w = Inr w'))"

definition fails :: "'c wm \<Rightarrow> bool" where
  "fails f \<longleftrightarrow> (\<forall>w. \<exists>e. f w = Inl e)"

lemma fails_werr [simp]: "fails (werr e)"
  by (simp add: fails_def werr_def)

lemma fails_seq1: "fails f \<Longrightarrow> fails (wseq f g)"
  by (auto simp: fails_def wseq_def) (metis rbind_simps(1))

lemma fails_seq2: "fails g \<Longrightarrow> fails (wseq f g)"
proof -
  assume g: "fails g"
  have "\<exists>e. rbind (f w) g = Inl e" for w
    using g by (cases "f w") (auto simp: fails_def)
  then show ?thesis by (simp add: fails_def wseq_def)
qed

locale byte_sink =
  fixes S :: "'c sink" and written :: "'c \<Rightarrow> bytes" and room :: nat
  assumes wrote: "S c bs = Some c' \<Longrightarrow> written c' = written c @ bs"
    and accepts: "length (written c) + length bs \<le> room \<Longrightarrow> \<exists>c'. S c bs = Some c'"
    and room_size: "room \<le> SIZE_MAX"
begin

lemma emits_ok: "emits written room wok []"
  by (simp add: emits_def wok_def)

lemma emits_swrite: "emits written room (swrite S bs) bs"
proof -
  have "\<exists>w'. swrite S bs w = Inr w'"
    if "w_pos w = length (written (w_ctx w))" "w_pos w + length bs \<le> room" for w
    using that accepts[of "w_ctx w" bs] room_size by (auto simp: swrite_def)
  then show ?thesis unfolding emits_def
    by (auto simp: swrite_def dest: wrote split: if_splits option.splits)
qed

lemma emits_seq:
  assumes f: "emits written room f a" and g: "emits written room g b"
  shows "emits written room (wseq f g) (a @ b)"
proof -
  have part: "written (w_ctx w') = written (w_ctx w) @ a @ b \<and> w_pos w' = w_pos w + length (a @ b)"
    if ww: "wseq f g w = Inr w'" for w w'
  proof -
    obtain u where u: "f w = Inr u" "g u = Inr w'" using ww by (auto simp: wseq_def rbind_Inr_iff)
    then have "written (w_ctx u) = written (w_ctx w) @ a" "w_pos u = w_pos w + length a"
      "written (w_ctx w') = written (w_ctx u) @ b" "w_pos w' = w_pos u + length b"
      using f g unfolding emits_def by blast+
    then show ?thesis by simp
  qed
  have "\<exists>w'. wseq f g w = Inr w'"
    if w: "w_pos w = length (written (w_ctx w))" "w_pos w + length (a @ b) \<le> room" for w
  proof -
    have "w_pos w + length a \<le> room" using w by simp
    then obtain u where u: "f w = Inr u" using f w(1) unfolding emits_def by blast
    then have "written (w_ctx u) = written (w_ctx w) @ a" "w_pos u = w_pos w + length a"
      using f unfolding emits_def by blast+
    then have "w_pos u = length (written (w_ctx u))" "w_pos u + length b \<le> room" using w by simp_all
    then obtain w' where "g u = Inr w'" using g unfolding emits_def by blast
    then show ?thesis using u by (auto simp: wseq_def)
  qed
  with part show ?thesis unfolding emits_def by auto
qed

lemma emits_u8: "emits written room (swrite_u8 S b) [b]"
  unfolding swrite_u8_def by (rule emits_swrite)

lemma emits_le: "emits written room (swrite_le S v k) (take k (put64le v))"
  unfolding swrite_le_def by (rule emits_swrite)

lemma emits_wall:
  assumes "\<And>x. x \<in> set xs \<Longrightarrow> emits written room (f x) (g x)"
  shows "emits written room (wall f xs) (concat (map g xs))"
  using assms
proof (induction xs)
  case (Cons x xs)
  then show ?case by (simp add: emits_seq)
qed (simp add: emits_ok)

end

interpretation silo_buffer: byte_sink silo_buffer_write "\<lambda>bs. bs" "2 ^ 63 - 1"
  by unfold_locales (auto simp: silo_buffer_write_def split: if_splits)

subsection \<open>The source contract\<close>

text \<open>
  What the decoder relies on: a source holds a byte string and a position, a read within it returns
  the next bytes, and rewinding returns to its start.
\<close>

locale byte_source =
  fixes R :: "'c source" and content :: "'c \<Rightarrow> bytes" and offset :: "'c \<Rightarrow> nat"
  assumes reads: "offset c + n \<le> length (content c) \<Longrightarrow>
      \<exists>c'. src_read R c n = Some (take n (drop (offset c) (content c)), c') \<and>
        content c' = content c \<and> offset c' = offset c + n"
    and rewinds: "\<exists>c'. src_rewind R c = Some c' \<and> content c' = content c \<and> offset c' = 0"

interpretation pack: byte_source pack_source pr_bytes pr_pos
  by unfold_locales (auto simp: pack_source_def pack_reader_read_def pack_reader_rewind_def)

end
