(* ===== verification/Silo_Enc.thy ===== *)
theory Silo_Enc
  imports Silo_Wire
begin

text \<open>
  The canonical encoder of \<open>pkg/plan/src/silo.c\<close>. Nats of up to \<open>PL_SILO_NAT_CUTOVER\<close> bytes are
  written contiguously; longer ones as a Merkle tree over 1024-byte leaves, with the hashes a reader
  needs interleaved so that every leaf can be checked when it completes. Every function below is the
  sequence of writes its C counterpart performs on the sink \<open>S\<close>.
\<close>

subsection \<open>Contiguous nats\<close>

text \<open>
  The copy loops through the 4096-byte stack buffer: bytes \<open>off\<close> to \<open>len\<close>, counted from \<open>base\<close>, of
  the nat \<open>v\<close>.
\<close>

definition nat_slice :: "pnat \<Rightarrow> nat \<Rightarrow> nat \<Rightarrow> bytes" where
  "nat_slice v off n = map (\<lambda>i. pl_nat_byte_at v (off + i)) [0..<n]"

function nat_chunks :: "'c sink \<Rightarrow> pnat \<Rightarrow> nat \<Rightarrow> nat \<Rightarrow> nat \<Rightarrow> 'c wm" where
  "nat_chunks S v base off len =
     (if off < len then
        let n = (if 4096 < len - off then 4096 else len - off)
        in wseq (swrite S (nat_slice v (base + off) n)) (nat_chunks S v base (off + n) len)
      else wok)"
  by auto
termination by (relation "measure (\<lambda>(S, v, base, off, len). len - off)") auto

declare nat_chunks.simps [simp del]

definition encode_nat_bytes :: "'c sink \<Rightarrow> pnat \<Rightarrow> nat \<Rightarrow> 'c wm" where
  "encode_nat_bytes S v len = nat_chunks S v 0 0 len"

text \<open>\<open>while (top != 0) { bits++; top >>= 1; }\<close>\<close>

function byte_bits :: "u8 \<Rightarrow> nat" where
  "byte_bits b = (if b \<noteq> 0 then Suc (byte_bits (drop_bit 1 b)) else 0)"
  by auto
termination
proof (relation "measure unat")
  fix b :: u8
  assume "b \<noteq> 0"
  then have "unat b \<noteq> 0" by (simp add: unsigned_eq_0_iff)
  moreover have "unat (drop_bit 1 b) = unat b div 2"
    unfolding unat_drop_bit_eq by (simp add: drop_bit_eq_div)
  ultimately show "(drop_bit 1 b, b) \<in> measure unat" by simp
qed simp

declare byte_bits.simps [simp del]

definition nat_bit_length :: "pnat \<Rightarrow> nat \<Rightarrow> nat" where
  "nat_bit_length v byte_length =
     (if byte_length = 0 then 0
      else (byte_length - 1) * 8 + byte_bits (pl_nat_byte_at v (byte_length - 1)))"

subsection \<open>Merkle nats\<close>

record mnat_node =
  mn_start :: nat
  mn_count :: nat
  mn_left :: nat
  mn_right :: nat
  mn_hash :: bytes

definition mnat_leaf_bytes :: "pnat \<Rightarrow> nat \<Rightarrow> nat \<Rightarrow> bytes" where
  "mnat_leaf_bytes v byte_length start =
     (let off = start * PL_SILO_LEAF_BYTES; remaining = byte_length - off;
          len = (if PL_SILO_LEAF_BYTES < remaining then PL_SILO_LEAF_BYTES else remaining)
      in nat_slice v off len)"

text \<open>
  The node array is filled in postorder; a node refers to its children by index, and a leaf holds
  \<open>UINT32_MAX\<close> there. \<open>None\<close> is the failed assertion of \<open>split_power\<close>.
\<close>

lemma split_power_less: "split_power n = Some k \<Longrightarrow> 0 < k \<and> k < n"
proof -
  assume a: "split_power n = Some k"
  then have "1 < n" by (simp add: split_power_def split: if_splits)
  then show ?thesis using a by (metis option.inject split_power_spec)
qed

function mnat_build :: "(bytes \<Rightarrow> bytes) \<Rightarrow> pnat \<Rightarrow> nat \<Rightarrow> nat \<Rightarrow> nat \<Rightarrow> mnat_node list \<Rightarrow>
    (nat \<times> mnat_node list) option" where
  "mnat_build sha v byte_length start count nodes =
     (if count = 1 then
        Some (length nodes, nodes @ [\<lparr>mn_start = start, mn_count = count, mn_left = 0xFFFFFFFF,
          mn_right = 0xFFFFFFFF, mn_hash = silo_leaf_hash sha start (mnat_leaf_bytes v byte_length start)\<rparr>])
      else case split_power count of
        None \<Rightarrow> None
      | Some k \<Rightarrow> (case mnat_build sha v byte_length start k nodes of
          None \<Rightarrow> None
        | Some (l, nodes1) \<Rightarrow> (case mnat_build sha v byte_length (start + k) (count - k) nodes1 of
            None \<Rightarrow> None
          | Some (r, nodes2) \<Rightarrow>
              Some (length nodes2, nodes2 @ [\<lparr>mn_start = start, mn_count = count, mn_left = l, mn_right = r,
                mn_hash = silo_node_hash sha start count (mn_hash (nodes2 ! l)) (mn_hash (nodes2 ! r))\<rparr>]))))"
  by pat_completeness auto
termination
  by (relation "measure (\<lambda>(sha, v, n, start, count, nodes). count)") (auto dest: split_power_less)

declare mnat_build.simps [simp del]

definition node_queue_insert :: "mnat_node list \<Rightarrow> nat \<Rightarrow> nat list \<Rightarrow> nat list" where
  "node_queue_insert nodes idx queue =
     (let before = (\<lambda>q. mn_start (nodes ! q) < mn_start (nodes ! idx))
      in takeWhile before queue @ [idx] @ dropWhile before queue)"

text \<open>
  The initial proof: the hashes of the right siblings on the way to leaf 0, and the queue of those
  that are not leaves. The walk follows left children, whose index is smaller; an index that did not
  decrease would not end the loop.
\<close>

function mnat_path :: "'c sink \<Rightarrow> mnat_node list \<Rightarrow> nat \<Rightarrow> nat list \<Rightarrow> 'c writer \<Rightarrow>
    string + (nat list \<times> 'c writer)" where
  "mnat_path S nodes cur frontier w =
     (if 1 < mn_count (nodes ! cur) then
        let right = mn_right (nodes ! cur); left = mn_left (nodes ! cur) in
        rbind (swrite S (mn_hash (nodes ! right)) w) (\<lambda>w.
          let frontier' = (if 1 < mn_count (nodes ! right) then node_queue_insert nodes right frontier
                           else frontier)
          in if left < cur then mnat_path S nodes left frontier' w else Inl ''no progress'')
      else Inr (frontier, w))"
  by pat_completeness auto
termination by (relation "measure (\<lambda>(S, nodes, cur, frontier, w). cur)") auto

declare mnat_path.simps [simp del]

text \<open>After a leaf: open the first unopened node of the queue.\<close>

definition mnat_open :: "'c sink \<Rightarrow> mnat_node list \<Rightarrow> nat list \<Rightarrow> 'c writer \<Rightarrow>
    string + (nat list \<times> 'c writer)" where
  "mnat_open S nodes frontier w = (case frontier of
     [] \<Rightarrow> Inr ([], w)
   | opening # rest \<Rightarrow>
       let l = mn_left (nodes ! opening); r = mn_right (nodes ! opening) in
       rbind (swrite S (mn_hash (nodes ! l)) w) (\<lambda>w.
       rbind (swrite S (mn_hash (nodes ! r)) w) (\<lambda>w.
         let q1 = (if 1 < mn_count (nodes ! l) then node_queue_insert nodes l rest else rest);
             q2 = (if 1 < mn_count (nodes ! r) then node_queue_insert nodes r q1 else q1)
         in Inr (q2, w))))"

text \<open>
  The loop over one page: segments that end at the page's or a leaf's end. The state is
  \<open>(payload_off, leaf_off, frontier)\<close>. A segment of no bytes would not end the loop.
\<close>

function mnat_segments :: "'c sink \<Rightarrow> pnat \<Rightarrow> nat \<Rightarrow> mnat_node list \<Rightarrow> nat \<Rightarrow> nat \<Rightarrow>
    nat \<times> nat \<times> nat list \<Rightarrow> 'c writer \<Rightarrow> string + ((nat \<times> nat \<times> nat list) \<times> 'c writer)" where
  "mnat_segments S v byte_length nodes page_len in_page (payload_off, leaf_off, frontier) w =
     (if in_page < page_len then
        let leaf_rem = PL_SILO_LEAF_BYTES - leaf_off;
            seg = (if leaf_rem < page_len - in_page then leaf_rem else page_len - in_page)
        in if seg = 0 then Inl ''no progress''
           else rbind (nat_chunks S v payload_off 0 seg w) (\<lambda>w.
             let payload_off' = payload_off + seg; leaf_off' = leaf_off + seg in
             if leaf_off' = PL_SILO_LEAF_BYTES \<or> payload_off' = byte_length then
               rbind (mnat_open S nodes frontier w) (\<lambda>(frontier', w).
                 mnat_segments S v byte_length nodes page_len (in_page + seg) (payload_off', 0, frontier') w)
             else mnat_segments S v byte_length nodes page_len (in_page + seg)
                    (payload_off', leaf_off', frontier) w)
      else Inr ((payload_off, leaf_off, frontier), w))"
  by pat_completeness auto
termination
  by (relation "measure (\<lambda>(S, v, n, nodes, page_len, in_page, st, w). page_len - in_page)") auto

declare mnat_segments.simps [simp del]

text \<open>The loop over pages. The fuel is the byte length: every page carries at least one byte.\<close>

fun mnat_pages :: "nat \<Rightarrow> 'c sink \<Rightarrow> pnat \<Rightarrow> nat \<Rightarrow> mnat_node list \<Rightarrow> nat \<Rightarrow>
    nat \<times> nat \<times> nat list \<Rightarrow> 'c writer \<Rightarrow> string + (nat list \<times> 'c writer)" where
  "mnat_pages fuel S v byte_length nodes page_width (payload_off, leaf_off, frontier) w =
     (if payload_off < byte_length then
        case fuel of
          0 \<Rightarrow> Inl ''no progress''
        | Suc fuel' \<Rightarrow>
            let page_len = (if PL_SILO_PAGE_BYTES < byte_length - payload_off then PL_SILO_PAGE_BYTES
                            else byte_length - payload_off)
            in rbind (swrite_le S (word_of_nat page_len) page_width w) (\<lambda>w.
               rbind (mnat_segments S v byte_length nodes page_len 0 (payload_off, leaf_off, frontier) w)
                 (\<lambda>(st, w). mnat_pages fuel' S v byte_length nodes page_width st w))
      else Inr (frontier, w))"

declare mnat_pages.simps [simp del]

definition encode_mnat :: "'c sink \<Rightarrow> (bytes \<Rightarrow> bytes) \<Rightarrow> pnat \<Rightarrow> nat \<Rightarrow> 'c wm" where
  "encode_mnat S sha v byte_length w =
     (let bit_length = nat_bit_length v byte_length;
          leaf_count = (byte_length + PL_SILO_LEAF_BYTES - 1) div PL_SILO_LEAF_BYTES
      in case mnat_build sha v byte_length 0 leaf_count [] of
        None \<Rightarrow> Inl ''split_power''
      | Some (root, nodes) \<Rightarrow>
          let root_hash = silo_nat_root_hash sha bit_length (mn_hash (nodes ! root));
              length_width = width_u64 (word_of_nat bit_length);
              max_page = (if byte_length < PL_SILO_PAGE_BYTES then byte_length else PL_SILO_PAGE_BYTES);
              page_width = width_u64 (word_of_nat max_page)
          in rbind (wseq (swrite_u8 S 0xf9) (wseq (swrite_u8 S 0)
               (wseq (swrite_u8 S (word_of_nat (length_width - 1)))
               (wseq (swrite_u8 S (word_of_nat (page_width - 1)))
               (wseq (swrite_le S (word_of_nat bit_length) length_width)
               (wseq (swrite S root_hash) (swrite S (mn_hash (nodes ! 0)))))))) w) (\<lambda>w.
             rbind (mnat_path S nodes root [] w) (\<lambda>(frontier, w).
             rbind (mnat_pages byte_length S v byte_length nodes page_width (0, 0, frontier) w)
               (\<lambda>(frontier, w).
             if length frontier \<noteq> 0 then Inl ''internal MNAT frontier did not close'' else Inr w))))"

subsection \<open>Values\<close>

text \<open>
  The encoder's environment: the pin table as the hash map \<open>pin_idx\<close> and the resolver of pin hashes.
\<close>

record enc_env =
  e_idx :: "(bytes \<times> nat) list"
  e_hash :: "pval \<Rightarrow> bytes option"
  e_sha :: "bytes \<Rightarrow> bytes"

fun pl_pin_hash :: "pval \<Rightarrow> bytes option" where
  "pl_pin_hash (VPin h body) = h"
| "pl_pin_hash _ = None"

definition encode_pin_hash :: "(pval \<Rightarrow> bytes option) option \<Rightarrow> pval \<Rightarrow> bytes option" where
  "encode_pin_hash fn pin = (case fn of Some f \<Rightarrow> f pin | None \<Rightarrow> pl_pin_hash pin)"

definition encode_u64_nat :: "'c sink \<Rightarrow> u64 \<Rightarrow> 'c wm" where
  "encode_u64_nat S v =
     (if v \<le> 63 then swrite_u8 S (0x80 + ucast v)
      else let width = width_u64 v
           in wseq (swrite_u8 S (0xc0 OR word_of_nat width)) (swrite_le S v width))"

definition encode_nat :: "'c sink \<Rightarrow> (bytes \<Rightarrow> bytes) \<Rightarrow> pnat \<Rightarrow> 'c wm" where
  "encode_nat S sha v =
     (let len = pl_nat_byte_len v in
      if len = 0 then swrite_u8 S 0x80
      else if len = 1 \<and> pl_nat_byte_at v 0 \<le> 63 then swrite_u8 S (0x80 + pl_nat_byte_at v 0)
      else if len \<le> 31 then
        wseq (swrite_u8 S (0xc0 OR word_of_nat len)) (encode_nat_bytes S v len)
      else if len \<le> PL_SILO_NAT_CUTOVER then
        let lw = width_u64 (word_of_nat len)
        in wseq (swrite_u8 S (0xe0 OR word_of_nat lw))
             (wseq (swrite_le S (word_of_nat len) lw) (encode_nat_bytes S v len))
      else encode_mnat S sha v len)"

definition encode_pin :: "'c sink \<Rightarrow> enc_env \<Rightarrow> pval \<Rightarrow> 'c wm" where
  "encode_pin S E v = (case e_hash E v of
     None \<Rightarrow> werr ''cannot encode a provisional PIN reference''
   | Some hash \<Rightarrow> (case map_of (e_idx E) hash of
       None \<Rightarrow> werr ''PIN missing from canonical Silo table''
     | Some index \<Rightarrow>
         let width = width_u64 (word_of_nat index)
         in wseq (swrite_u8 S (0xf0 + word_of_nat width)) (swrite_le S (word_of_nat index) width)))"

text \<open>The recursion ends because every call deepens \<open>depth\<close>, which is checked on entry.\<close>

function encode_node :: "'c sink \<Rightarrow> enc_env \<Rightarrow> pval \<Rightarrow> nat \<Rightarrow> 'c wm"
  and encode_app_range :: "'c sink \<Rightarrow> enc_env \<Rightarrow> pval \<Rightarrow> pval list \<Rightarrow> nat \<Rightarrow> nat \<Rightarrow> 'c wm" where
  "encode_node S E v depth =
     (if PL_SILO_MAX_DEPTH < depth then werr ''Silo nesting exceeds''
      else case v of
        VNat n \<Rightarrow> encode_nat S (e_sha E) n
      | VPin _ _ \<Rightarrow> encode_pin S E v
      | VLaw arity name body \<Rightarrow>
          if arity = 0 \<or> PL_NAT63_MAX < arity
          then werr ''LAW arity is not a direct nonzero runtime natural''
          else wseq (swrite_u8 S 0xf0) (wseq (encode_node S E name (depth + 1))
                 (wseq (encode_u64_nat S arity) (encode_node S E body (depth + 1))))
      | VApp _ head args \<Rightarrow>
          if length args = 0 then werr ''cannot encode empty APP''
          else encode_app_range S E head args (length args) depth
      | VOther _ \<Rightarrow> werr ''cannot encode non-normal PLAN tag'')"
| "encode_app_range S E head args n depth =
     (if PL_SILO_MAX_DEPTH < depth then werr ''Silo nesting exceeds''
      else let outer0 = (if n \<le> 15 then n else n mod 15);
               outer = (if outer0 = 0 then 15 else outer0);
               inner = n - outer
           in wseq (swrite_u8 S (push_bit 3 (word_of_nat outer)))
              (wseq (if inner \<noteq> 0 then encode_app_range S E head args inner (depth + 1)
                     else encode_node S E head (depth + 1))
                (wall (\<lambda>i. encode_node S E (args ! i) (depth + 1)) [inner..<n])))"
  by pat_completeness auto
termination
  by (relation "measure (\<lambda>x. case x of Inl (S, E, v, depth) \<Rightarrow> 2 * (PL_SILO_MAX_DEPTH + 1 - depth) + 1
                             | Inr (S, E, head, args, n, depth) \<Rightarrow> 2 * (PL_SILO_MAX_DEPTH + 1 - depth))") auto

declare encode_node.simps [simp del] encode_app_range.simps [simp del]

text \<open>The table: every entry a PIN with a final hash, no hash twice.\<close>

fun is_pin :: "pval \<Rightarrow> bool" where
  "is_pin (VPin _ _) = True"
| "is_pin _ = False"

fun silo_table :: "(pval \<Rightarrow> bytes option) \<Rightarrow> pval list \<Rightarrow> nat \<Rightarrow> (bytes \<times> nat) list \<Rightarrow>
    string + (bytes \<times> nat) list" where
  "silo_table hash [] i idx = Inr idx"
| "silo_table hash (p # ps) i idx =
     (if \<not> is_pin p then Inl ''non-PIN in Silo pin table''
      else case hash p of
        None \<Rightarrow> Inl ''provisional PIN in Silo pin table''
      | Some h \<Rightarrow>
          if map_of idx h \<noteq> None then Inl ''duplicate Silo pin table hash''
          else silo_table hash ps (Suc i) ((h, i) # idx))"

definition pl_silo_encode_resolved :: "'c sink \<Rightarrow> (bytes \<Rightarrow> bytes) \<Rightarrow> pval \<Rightarrow> pval list \<Rightarrow>
    (pval \<Rightarrow> bytes option) option \<Rightarrow> 'c wm" where
  "pl_silo_encode_resolved S sha root subpins pin_hash w =
     (if PL_SILO_MAX_PIN_COUNT < length subpins then Inl ''too many Silo pins''
      else let hash = encode_pin_hash pin_hash in
        rbind (silo_table hash subpins 0 []) (\<lambda>idx.
        wseq (swrite S silo_magic)
        (wseq (swrite_varnat S (word_of_nat (length subpins)))
        (wseq (wall (\<lambda>p. case hash p of None \<Rightarrow> werr '''' | Some h \<Rightarrow> swrite S h) subpins)
          (encode_node S \<lparr>e_idx = idx, e_hash = hash, e_sha = sha\<rparr> root 0))) w))"

definition pl_silo_encode :: "'c sink \<Rightarrow> (bytes \<Rightarrow> bytes) \<Rightarrow> pval \<Rightarrow> pval list \<Rightarrow> 'c wm" where
  "pl_silo_encode S sha root subpins = pl_silo_encode_resolved S sha root subpins None"

definition pl_silo_encode_buffer :: "(bytes \<Rightarrow> bytes) \<Rightarrow> pval \<Rightarrow> pval list \<Rightarrow>
    (pval \<Rightarrow> bytes option) option \<Rightarrow> string + (bytes \<times> bytes)" where
  "pl_silo_encode_buffer sha root subpins pin_hash =
     rbind (pl_silo_encode_resolved silo_buffer_write sha root subpins pin_hash \<lparr>w_ctx = [], w_pos = 0\<rparr>)
       (\<lambda>w. if w_pos w \<noteq> length (w_ctx w) then Inl ''Silo buffer length mismatch''
            else Inr (w_ctx w, sha (w_ctx w)))"

end
