(* ===== verification/Silo_Dec.thy ===== *)
theory Silo_Dec
  imports Silo_Enc
begin

text \<open>
  The decoder and canonical validator of \<open>pkg/plan/src/silo.c\<close>. One recursive reader serves both
  passes: the scan (\<open>c_capture\<close>) checks the stream and records its pin table, the build (\<open>c_build\<close>)
  constructs the value of an accepted stream. \<open>c_canonical\<close> adds the checks that make the encoding
  unique. The store's allocator and \<open>malloc\<close> are parameters of the configuration.
\<close>

subsection \<open>State\<close>

record ('r, 'h) dcfg =
  c_src :: "'r source"
  c_alloc :: "'h \<Rightarrow> nat \<Rightarrow> 'h option"
  c_malloc :: "nat \<Rightarrow> bool"
  c_sha :: "bytes \<Rightarrow> bytes"
  c_resolved :: "pval list"
  c_build :: bool
  c_canonical :: bool
  c_capture :: bool

record ('r, 'h) silo_dec =
  d_r :: "'r reader"
  d_heap :: 'h
  d_pins :: "bytes list"
  d_used :: "bool list"
  d_order :: "nat list"
  d_next :: nat

type_synonym ('r, 'h, 'a) dm = "('r, 'h) silo_dec \<Rightarrow> string + ('a \<times> ('r, 'h) silo_dec)"

definition dret :: "'a \<Rightarrow> ('r, 'h, 'a) dm" where
  "dret x d = Inr (x, d)"

definition derr :: "string \<Rightarrow> ('r, 'h, 'a) dm" where
  "derr e d = Inl e"

definition dbind :: "('r, 'h, 'a) dm \<Rightarrow> ('a \<Rightarrow> ('r, 'h, 'b) dm) \<Rightarrow> ('r, 'h, 'b) dm" where
  "dbind f g d = rbind (f d) (\<lambda>(x, d'). g x d')"

text \<open>\<open>if (bad) return silo_error(...)\<close>\<close>

definition drequire :: "bool \<Rightarrow> string \<Rightarrow> ('r, 'h, unit) dm" where
  "drequire ok e = (if ok then dret () else derr e)"

text \<open>\<open>drepeat n f\<close> runs \<open>f\<close> \<open>n\<close> times and collects the results.\<close>

fun drepeat :: "nat \<Rightarrow> ('r, 'h, 'a) dm \<Rightarrow> ('r, 'h, 'a list) dm" where
  "drepeat 0 f = dret []"
| "drepeat (Suc n) f = dbind f (\<lambda>x. dbind (drepeat n f) (\<lambda>xs. dret (x # xs)))"

definition dread :: "('r, 'h) dcfg \<Rightarrow> nat \<Rightarrow> ('r, 'h, bytes) dm" where
  "dread C n d = rbind (sread (c_src C) n (d_r d)) (\<lambda>(bs, r). Inr (bs, d\<lparr>d_r := r\<rparr>))"

definition decode_alloc :: "('r, 'h) dcfg \<Rightarrow> nat \<Rightarrow> ('r, 'h, unit) dm" where
  "decode_alloc C cells d =
     (if cells = 0 \<or> 0xFFFFFFFF < cells \<or> SIZE_MAX div 8 < cells
      then Inl ''decoded object cell count overflow''
      else case c_alloc C (d_heap d) cells of
        None \<Rightarrow> Inl ''decoded object exceeds gc2 capacity''
      | Some h \<Rightarrow> Inr ((), d\<lparr>d_heap := h\<rparr>))"

subsection \<open>The header\<close>

definition decode_varnat :: "('r, 'h) dcfg \<Rightarrow> ('r, 'h, u64) dm" where
  "decode_varnat C =
     dbind (dread C 1) (\<lambda>wb. let width = unat (hd wb) in
     dbind (drequire (width \<le> 8) ''varnat width exceeds 8'') (\<lambda>_.
     dbind (dread C width) (\<lambda>b. let v = getle b in
     dbind (drequire (\<not> (v = 0 \<and> width \<noteq> 0) \<and> \<not> (v \<noteq> 0 \<and> width \<noteq> width_u64 v)) ''nonminimal varnat'') (\<lambda>_.
     dret v))))"

fun header_pins :: "('r, 'h) dcfg \<Rightarrow> nat \<Rightarrow> nat \<Rightarrow> ('r, 'h, unit) dm" where
  "header_pins C 0 i = dret ()"
| "header_pins C (Suc k) i =
     dbind (dread C 32) (\<lambda>hash d.
       if c_capture C then
         if hash \<in> set (d_pins d) then Inl ''duplicate Silo pin-table hash''
         else header_pins C k (Suc i) (d\<lparr>d_pins := d_pins d @ [hash]\<rparr>)
       else if hash \<noteq> d_pins d ! i then Inl ''Silo pin table changed on rewind''
       else header_pins C k (Suc i) d)"

definition decode_header :: "('r, 'h) dcfg \<Rightarrow> ('r, 'h, unit) dm" where
  "decode_header C =
     dbind (\<lambda>d. case dread C 5 d of
         Inl e \<Rightarrow> Inl ''bad Silo magic or version''
       | Inr (magic, d') \<Rightarrow> if magic = silo_magic then Inr ((), d') else Inl ''bad Silo magic or version'') (\<lambda>_.
     dbind (decode_varnat C) (\<lambda>cnt. let count = unat cnt in
     dbind (drequire (count \<le> PL_SILO_MAX_PIN_COUNT \<and> count \<le> SIZE_MAX div 32)
              ''Silo pin count exceeds limit'') (\<lambda>_ d.
     if c_capture C then
       if \<not> c_malloc C (32 * max count 1) \<or> \<not> c_malloc C (max count 1) then Inl ''out of memory for Silo pins''
       else header_pins C count 0 (d\<lparr>d_pins := [], d_used := replicate count False\<rparr>)
     else if count \<noteq> length (d_pins d) then Inl ''Silo pin table changed on rewind''
     else header_pins C count 0 d)))"

subsection \<open>Accumulating a nat\<close>

datatype silo_node_kind = SILO_NODE_NAT | SILO_NODE_PIN | SILO_NODE_LAW | SILO_NODE_APP

record silo_node_info =
  ni_kind :: silo_node_kind
  ni_app_n :: nat
  ni_fits :: bool
  ni_u64 :: u64

record nat_accum =
  a_len :: nat
  a_low :: u64
  a_last :: u8
  a_cells :: "bytes option"

definition nat_accum_init :: "('r, 'h) dcfg \<Rightarrow> nat \<Rightarrow> ('r, 'h, nat_accum) dm" where
  "nat_accum_init C len =
     dbind (drequire (len \<le> PL_SILO_MAX_NAT_BYTES) ''natural byte length exceeds runtime limit'') (\<lambda>_.
     if c_build C \<and> 8 < len then
       let limbs = (len + 7) div 8 in
       dbind (drequire (limbs \<noteq> 0 \<and> limbs \<le> PL_SILO_MAX_PIN_COUNT) ''natural limb count overflow'') (\<lambda>_.
       dbind (decode_alloc C (1 + limbs)) (\<lambda>_.
       dret \<lparr>a_len = len, a_low = 0, a_last = 0, a_cells = Some (replicate (8 * limbs) 0)\<rparr>))
     else dret \<lparr>a_len = len, a_low = 0, a_last = 0, a_cells = None\<rparr>)"

definition nat_accum_bytes :: "nat_accum \<Rightarrow> nat \<Rightarrow> bytes \<Rightarrow> nat_accum" where
  "nat_accum_bytes a off bs =
     a\<lparr>a_low := foldl (\<lambda>v i. if off + i < 8 then v OR push_bit (8 * (off + i)) (ucast (bs ! i)) else v)
                 (a_low a) [0..<length bs],
       a_last := (if length bs \<noteq> 0 then bs ! (length bs - 1) else a_last a),
       a_cells := map_option (\<lambda>m. take off m @ bs @ drop (off + length bs) m) (a_cells a)\<rparr>"

definition nat_info :: "nat_accum \<Rightarrow> silo_node_info" where
  "nat_info a = \<lparr>ni_kind = SILO_NODE_NAT, ni_app_n = 0, ni_fits = (a_len a \<le> 8), ni_u64 = a_low a\<rparr>"

definition nat_accum_finish :: "('r, 'h) dcfg \<Rightarrow> nat_accum \<Rightarrow> ('r, 'h, pval \<times> silo_node_info) dm" where
  "nat_accum_finish C a =
     dbind (drequire (\<not> (a_len a \<noteq> 0 \<and> a_last a = 0)) ''natural has a trailing zero byte'') (\<lambda>_.
     if \<not> c_build C then dret (VNat (Direct 0), nat_info a)
     else if a_len a = 0 \<or> a_len a \<le> 8 \<and> a_low a \<le> PL_NAT63_MAX then dret (VNat (Direct (a_low a)), nat_info a)
     else case a_cells a of
       None \<Rightarrow> dbind (decode_alloc C 2) (\<lambda>_. dret (VNat (Boxed [a_low a]), nat_info a))
     | Some m \<Rightarrow> dret (VNat (Boxed (bytes_limbs (length m div 8) m)), nat_info a))"

function contiguous_loop :: "('r, 'h) dcfg \<Rightarrow> nat \<Rightarrow> nat \<Rightarrow> nat_accum \<Rightarrow> ('r, 'h, nat_accum) dm" where
  "contiguous_loop C len off a =
     (if off < len then
        let n = (if 4096 < len - off then 4096 else len - off)
        in dbind (dread C n) (\<lambda>buf. contiguous_loop C len (off + n) (nat_accum_bytes a off buf))
      else dret a)"
  by auto
termination by (relation "measure (\<lambda>(C, len, off, a). len - off)") auto

declare contiguous_loop.simps [simp del]

definition decode_contiguous_nat :: "('r, 'h) dcfg \<Rightarrow> nat \<Rightarrow> ('r, 'h, pval \<times> silo_node_info) dm" where
  "decode_contiguous_nat C len =
     dbind (drequire (len \<noteq> 0) ''zero-length natural payload'') (\<lambda>_.
     dbind (nat_accum_init C len) (\<lambda>a.
     dbind (contiguous_loop C len 0 a) (\<lambda>a. nat_accum_finish C a)))"

definition decode_medium :: "('r, 'h) dcfg \<Rightarrow> nat \<Rightarrow> ('r, 'h, pval \<times> silo_node_info) dm" where
  "decode_medium C width =
     dbind (drequire (width \<noteq> 0 \<and> width \<le> 31) ''invalid MEDIUM width'') (\<lambda>_.
     dbind (decode_contiguous_nat C width) (\<lambda>(v, info).
     dbind (drequire (\<not> (c_canonical C \<and> ni_fits info \<and> ni_u64 info \<le> 63))
              ''canonical small natural must use SMOL'') (\<lambda>_.
     dret (v, info))))"

definition decode_big :: "('r, 'h) dcfg \<Rightarrow> nat \<Rightarrow> ('r, 'h, pval \<times> silo_node_info) dm" where
  "decode_big C length_width =
     dbind (drequire (length_width \<noteq> 0 \<and> length_width \<le> 15) ''invalid BIG length width'') (\<lambda>_.
     dbind (dread C length_width) (\<lambda>b.
     dbind (drequire (list_all (\<lambda>x. x = 0) (drop 8 b)) ''BIG length exceeds implementation range'') (\<lambda>_.
     let len = getle b in
     dbind (drequire (len \<noteq> 0) ''zero-length BIG'') (\<lambda>_.
     dbind (drequire (\<not> (c_canonical C \<and> length_width \<noteq> width_u64 len))
              ''nonminimal canonical BIG length width'') (\<lambda>_.
     dbind (drequire (\<not> (c_canonical C \<and> (len < 32 \<or> PL_SILO_NAT_CUTOVER < unat len)))
              ''canonical natural uses the wrong BIG opcode'') (\<lambda>_.
     decode_contiguous_nat C (unat len)))))))"

subsection \<open>Merkle nats\<close>

record proof_sibling =
  ps_start :: nat
  ps_count :: nat
  ps_parent :: nat
  ps_hash :: bytes

record unopened_node =
  un_start :: nat
  un_count :: nat
  un_hash :: bytes

type_synonym expected_leaf = "nat \<times> bytes"

definition unopened_insert :: "unopened_node list \<Rightarrow> unopened_node \<Rightarrow> unopened_node list option" where
  "unopened_insert xs node =
     (let before = (\<lambda>x. un_start x < un_start node); rest = dropWhile before xs
      in if rest \<noteq> [] \<and> un_start (hd rest) = un_start node then None
         else Some (takeWhile before xs @ [node] @ rest))"

definition expected_insert :: "expected_leaf list \<Rightarrow> expected_leaf \<Rightarrow> expected_leaf list option" where
  "expected_insert xs leaf =
     (let before = (\<lambda>x. fst x < fst leaf); rest = dropWhile before xs
      in if rest \<noteq> [] \<and> fst (hd rest) = fst leaf then None
         else Some (takeWhile before xs @ [leaf] @ rest))"

text \<open>The search stops at the first larger index.\<close>

fun expected_take :: "expected_leaf list \<Rightarrow> nat \<Rightarrow> (bytes \<times> expected_leaf list) option" where
  "expected_take [] index = None"
| "expected_take ((i, h) # xs) index =
     (if i = index then Some (h, xs)
      else if index < i then None
      else map_option (\<lambda>(h', ys). (h', (i, h) # ys)) (expected_take xs index))"

function mnat_proof :: "('r, 'h) dcfg \<Rightarrow> nat \<Rightarrow> ('r, 'h, proof_sibling list) dm" where
  "mnat_proof C count =
     (if 1 < count then
        case split_power count of
          None \<Rightarrow> derr ''split_power''
        | Some k \<Rightarrow>
            dbind (dread C 32) (\<lambda>h.
            dbind (mnat_proof C k) (\<lambda>path.
            dret (\<lparr>ps_start = k, ps_count = count - k, ps_parent = count, ps_hash = h\<rparr> # path)))
      else dret [])"
  by auto
termination by (relation "measure (\<lambda>(C, count). count)") (auto dest: split_power_less)

declare mnat_proof.simps [simp del]

definition mnat_fold :: "(bytes \<Rightarrow> bytes) \<Rightarrow> proof_sibling list \<Rightarrow> bytes \<Rightarrow> bytes" where
  "mnat_fold sha path first_hash =
     foldr (\<lambda>s folded. silo_node_hash sha 0 (ps_parent s) folded (ps_hash s)) path first_hash"

fun mnat_frontier :: "proof_sibling list \<Rightarrow> expected_leaf list \<Rightarrow> unopened_node list \<Rightarrow>
    (expected_leaf list \<times> unopened_node list) option" where
  "mnat_frontier [] ex un = Some (ex, un)"
| "mnat_frontier (s # path) ex un =
     (if ps_count s = 1 then
        case expected_insert ex (ps_start s, ps_hash s) of
          None \<Rightarrow> None
        | Some ex' \<Rightarrow> mnat_frontier path ex' un
      else case unopened_insert un \<lparr>un_start = ps_start s, un_count = ps_count s, un_hash = ps_hash s\<rparr> of
          None \<Rightarrow> None
        | Some un' \<Rightarrow> mnat_frontier path ex un')"

record mnat_dec =
  m_acc :: nat_accum
  m_off :: nat
  m_index :: nat
  m_leaf :: bytes
  m_max :: nat
  m_crc :: u32
  m_expected :: "expected_leaf list"
  m_unopened :: "unopened_node list"

text \<open>\<open>sread_crc\<close>: read and update the page's checksum.\<close>

definition dread_crc :: "('r, 'h) dcfg \<Rightarrow> nat \<Rightarrow> u32 \<Rightarrow> ('r, 'h, bytes \<times> u32) dm" where
  "dread_crc C n crc = dbind (dread C n) (\<lambda>bs. dret (bs, crc32c_update crc bs))"

text \<open>One child of an opened node.\<close>

definition mnat_child :: "unopened_node \<Rightarrow> mnat_dec \<Rightarrow> string + mnat_dec" where
  "mnat_child c s =
     (if un_start c \<le> m_index s then Inl ''MNAT expansion points behind completed leaf''
      else if un_count c = 1 then
        case expected_insert (m_expected s) (un_start c, un_hash c) of
          None \<Rightarrow> Inl ''duplicate MNAT expected leaf''
        | Some ex \<Rightarrow> Inr (s\<lparr>m_expected := ex\<rparr>)
      else case unopened_insert (m_unopened s) c of
          None \<Rightarrow> Inl ''duplicate MNAT unopened interval''
        | Some un \<Rightarrow> Inr (s\<lparr>m_unopened := un\<rparr>))"

definition mnat_expand :: "('r, 'h) dcfg \<Rightarrow> mnat_dec \<Rightarrow> ('r, 'h, mnat_dec) dm" where
  "mnat_expand C s = (case m_unopened s of
     [] \<Rightarrow> dret s
   | parent # rest \<Rightarrow>
       dbind (dread_crc C 64 (m_crc s)) (\<lambda>(children, crc).
       let l = take 32 children; r = drop 32 children in
       dbind (drequire (silo_node_hash (c_sha C) (un_start parent) (un_count parent) l r = un_hash parent)
                ''MNAT expansion does not match parent hash'') (\<lambda>_.
       case split_power (un_count parent) of
         None \<Rightarrow> derr ''split_power''
       | Some k \<Rightarrow>
           (\<lambda>d. rbind (mnat_child \<lparr>un_start = un_start parent, un_count = k, un_hash = l\<rparr>
                   (s\<lparr>m_unopened := rest, m_crc := crc\<rparr>)) (\<lambda>s1.
                 rbind (mnat_child \<lparr>un_start = un_start parent + k, un_count = un_count parent - k, un_hash = r\<rparr> s1)
                   (\<lambda>s2. Inr (s2, d)))))))"

definition mnat_leaf_done :: "('r, 'h) dcfg \<Rightarrow> mnat_dec \<Rightarrow> ('r, 'h, mnat_dec) dm" where
  "mnat_leaf_done C s =
     (case expected_take (m_expected s) (m_index s) of
        None \<Rightarrow> derr ''MNAT leaf completed without an expected hash''
      | Some (wanted, ex) \<Rightarrow>
          dbind (drequire (silo_leaf_hash (c_sha C) (m_index s) (m_leaf s) = wanted) ''MNAT leaf hash mismatch'') (\<lambda>_.
          dbind (mnat_expand C (s\<lparr>m_expected := ex\<rparr>)) (\<lambda>s.
          dret (s\<lparr>m_index := Suc (m_index s), m_leaf := []\<rparr>))))"

text \<open>A segment of no bytes would not end the loop.\<close>

function mnat_dsegs :: "('r, 'h) dcfg \<Rightarrow> nat \<Rightarrow> nat \<Rightarrow> nat \<Rightarrow> mnat_dec \<Rightarrow> ('r, 'h, mnat_dec) dm" where
  "mnat_dsegs C byte_length page_len page_done s =
     (if page_done < page_len then
        let leaf_rest = byte_length - m_index s * PL_SILO_LEAF_BYTES;
            leaf_total = (if PL_SILO_LEAF_BYTES < leaf_rest then PL_SILO_LEAF_BYTES else leaf_rest);
            leaf_rem = leaf_total - length (m_leaf s);
            n = (if leaf_rem < page_len - page_done then leaf_rem else page_len - page_done)
        in if n = 0 then derr ''no progress''
           else dbind (dread_crc C n (m_crc s)) (\<lambda>(bs, crc).
             let s1 = s\<lparr>m_acc := nat_accum_bytes (m_acc s) (m_off s) bs, m_leaf := m_leaf s @ bs,
                        m_off := m_off s + n, m_crc := crc\<rparr>
             in dbind (if length (m_leaf s1) = leaf_total then mnat_leaf_done C s1 else dret s1) (\<lambda>s2.
                mnat_dsegs C byte_length page_len (page_done + n) s2))
      else dret s)"
  by auto
termination by (relation "measure (\<lambda>(C, byte_length, page_len, page_done, s). page_len - page_done)") auto

declare mnat_dsegs.simps [simp del]

text \<open>The loop over pages; every page carries at least one byte, so the byte length is fuel enough.\<close>

fun mnat_dpages :: "nat \<Rightarrow> ('r, 'h) dcfg \<Rightarrow> nat \<Rightarrow> nat \<Rightarrow> bool \<Rightarrow> mnat_dec \<Rightarrow> ('r, 'h, mnat_dec) dm" where
  "mnat_dpages fuel C byte_length page_width crcs s =
     (if m_off s < byte_length then
        case fuel of
          0 \<Rightarrow> derr ''no progress''
        | Suc fuel' \<Rightarrow>
            dbind (dread_crc C page_width 0xFFFFFFFF) (\<lambda>(pbuf, crc).
            let page_len = unat (getle pbuf) in
            dbind (drequire (page_len \<noteq> 0 \<and> page_len \<le> PL_SILO_MAX_NAT_BYTES \<and> page_len \<le> byte_length - m_off s)
                     ''invalid MNAT page payload length'') (\<lambda>_.
            let canonical_page = (if PL_SILO_PAGE_BYTES < byte_length - m_off s then PL_SILO_PAGE_BYTES
                                  else byte_length - m_off s) in
            dbind (drequire (\<not> (c_canonical C \<and> page_len \<noteq> canonical_page))
                     ''noncanonical MNAT page payload length'') (\<lambda>_.
            dbind (mnat_dsegs C byte_length page_len 0 (s\<lparr>m_max := max (m_max s) page_len, m_crc := crc\<rparr>)) (\<lambda>s.
            dbind (if crcs then
                     dbind (dread C 4) (\<lambda>crcbuf.
                     drequire (NOT (m_crc s) = ucast (getle crcbuf)) ''MNAT page CRC32C mismatch'')
                   else dret ()) (\<lambda>_.
            mnat_dpages fuel' C byte_length page_width crcs s)))))
      else dret s)"

declare mnat_dpages.simps [simp del]

definition decode_mnat :: "('r, 'h) dcfg \<Rightarrow> ('r, 'h, pval \<times> silo_node_info) dm" where
  "decode_mnat C =
     dbind (dread C 3) (\<lambda>fixed.
     let flags = fixed ! 0;
         length_width = unat (fixed ! 1 + 1);
         page_width = unat (fixed ! 2 + 1) in
     dbind (drequire (flags AND 0xfe = 0) ''reserved MNAT flag is set'') (\<lambda>_.
     dbind (drequire (length_width \<le> 8 \<and> page_width \<le> 8) ''invalid MNAT scalar width'') (\<lambda>_.
     dbind (drequire (\<not> (c_canonical C \<and> flags \<noteq> 0)) ''canonical MNAT must not carry page CRCs'') (\<lambda>_.
     dbind (dread C length_width) (\<lambda>lenbuf.
     dbind (dread C 32) (\<lambda>declared_root.
     let bitlen = getle lenbuf; bit_length = unat bitlen in
     dbind (drequire (bit_length \<noteq> 0) ''MNAT cannot encode zero'') (\<lambda>_.
     dbind (drequire (length_width = width_u64 bitlen) ''nonminimal MNAT bit-length width'') (\<lambda>_.
     let byte_length = bit_length div 8 + (if bit_length mod 8 \<noteq> 0 then 1 else 0) in
     dbind (drequire (byte_length \<le> PL_SILO_MAX_NAT_BYTES) ''MNAT natural exceeds runtime limit'') (\<lambda>_.
     dbind (drequire (\<not> (c_canonical C \<and> byte_length \<le> PL_SILO_NAT_CUTOVER))
              ''canonical small natural must not use MNAT'') (\<lambda>_.
     let leaf_count = (byte_length + PL_SILO_LEAF_BYTES - 1) div PL_SILO_LEAF_BYTES in
     dbind (dread C 32) (\<lambda>first_hash.
     dbind (mnat_proof C leaf_count) (\<lambda>path.
     dbind (drequire (silo_nat_root_hash (c_sha C) bit_length (mnat_fold (c_sha C) path first_hash) = declared_root)
              ''MNAT initial proof does not match root hash'') (\<lambda>_.
     case mnat_frontier path [(0, first_hash)] [] of
       None \<Rightarrow> derr ''inconsistent MNAT initial frontier''
     | Some (ex, un) \<Rightarrow>
     dbind (nat_accum_init C byte_length) (\<lambda>acc.
     dbind (mnat_dpages byte_length C byte_length page_width (flags AND 1 \<noteq> 0)
              \<lparr>m_acc = acc, m_off = 0, m_index = 0, m_leaf = [], m_max = 0, m_crc = 0,
               m_expected = ex, m_unopened = un\<rparr>) (\<lambda>s.
     dbind (drequire (m_leaf s = [] \<and> m_index s = leaf_count \<and> m_unopened s = [] \<and> m_expected s = [])
              ''MNAT traversal did not close'') (\<lambda>_.
     let top_bit = (bit_length - 1) mod 8;
         top_mask = (push_bit (top_bit + 1) 1 - 1 :: u8) in
     dbind (drequire (a_last (m_acc s) AND NOT top_mask = 0 \<and> a_last (m_acc s) AND push_bit top_bit 1 \<noteq> 0)
              ''MNAT final byte disagrees with bit length'') (\<lambda>_.
     let canonical_max = (if byte_length < PL_SILO_PAGE_BYTES then byte_length else PL_SILO_PAGE_BYTES) in
     dbind (drequire (\<not> (c_canonical C \<and>
                (page_width \<noteq> width_u64 (word_of_nat canonical_max) \<or> m_max s \<noteq> canonical_max)))
              ''noncanonical MNAT page-length width'') (\<lambda>_.
     nat_accum_finish C (m_acc s)))))))))))))))))))"

subsection \<open>Nodes\<close>

definition smol_info :: "u8 \<Rightarrow> silo_node_info" where
  "smol_info opcode = \<lparr>ni_kind = SILO_NODE_NAT, ni_app_n = 0, ni_fits = True, ni_u64 = ucast (opcode AND 0x3f)\<rparr>"

definition node_info :: "silo_node_kind \<Rightarrow> nat \<Rightarrow> silo_node_info" where
  "node_info k n = \<lparr>ni_kind = k, ni_app_n = n, ni_fits = False, ni_u64 = 0\<rparr>"

definition build_app :: "('r, 'h) dcfg \<Rightarrow> nat \<Rightarrow> pval \<Rightarrow> pval list \<Rightarrow> ('r, 'h, pval) dm" where
  "build_app C n head args =
     (let (flat_head, inner) = (case head of VApp _ h xs \<Rightarrow> (h, xs) | _ \<Rightarrow> (head, []));
          total = length inner + n in
      dbind (drequire (total \<noteq> 0 \<and> total \<le> 0xFFFFFFFF - 2) ''decoded APP is too large'') (\<lambda>_.
      case pl_arity flat_head of
        Inl (Abort e) \<Rightarrow> derr e
      | Inl (Raise e) \<Rightarrow> derr e
      | Inr arity \<Rightarrow>
          let need = (if arity = 0 \<or> arity \<le> total then 0 else arity - total) in
          dbind (drequire (need < 2 ^ 20) ''decoded APP need exceeds runtime limit'') (\<lambda>_.
          dbind (decode_alloc C (2 + total)) (\<lambda>_.
          dret (VApp need flat_head (inner @ args))))))"

definition note_pin :: "('r, 'h) dcfg \<Rightarrow> nat \<Rightarrow> ('r, 'h, unit) dm" where
  "note_pin C index d =
     (if c_capture C \<and> \<not> d_used d ! index then
        if c_canonical C \<and> index \<noteq> d_next d then Inl ''canonical PIN table is not first-occurrence order''
        else Inr ((), d\<lparr>d_used := (d_used d)[index := True], d_next := Suc (d_next d),
                        d_order := d_order d @ [index]\<rparr>)
      else Inr ((), d))"

definition decode_pin :: "('r, 'h) dcfg \<Rightarrow> nat \<Rightarrow> ('r, 'h, pval \<times> silo_node_info) dm" where
  "decode_pin C width =
     dbind (dread C width) (\<lambda>b. let ix = getle b; index = unat ix in
     dbind (drequire (width = width_u64 ix) ''nonminimal PIN index width'') (\<lambda>_.
     dbind (\<lambda>d. if length (d_pins d) \<le> index then Inl ''PIN index is out of range'' else Inr ((), d)) (\<lambda>_.
     dbind (note_pin C index) (\<lambda>_.
     if c_build C then
       dbind (drequire (is_pin (c_resolved C ! index)) ''Silo PIN referent was not resolved'') (\<lambda>_.
       dret (c_resolved C ! index, node_info SILO_NODE_PIN 0))
     else dret (VNat (Direct 0), node_info SILO_NODE_PIN 0)))))"

function decode_node :: "('r, 'h) dcfg \<Rightarrow> nat \<Rightarrow> ('r, 'h, pval \<times> silo_node_info) dm" where
  "decode_node C depth =
     (if PL_SILO_MAX_DEPTH < depth then derr ''Silo nesting exceeds''
      else dbind (dread C 1) (\<lambda>ob. let opcode = hd ob in
        if 0x80 \<le> opcode \<and> opcode \<le> 0xbf then
          dret (VNat (Direct (if c_build C then ucast (opcode AND 0x3f) else 0)), smol_info opcode)
        else if 0xc1 \<le> opcode \<and> opcode \<le> 0xdf then decode_medium C (unat (opcode AND 0x1f))
        else if 0xe1 \<le> opcode \<and> opcode \<le> 0xef then decode_big C (unat (opcode AND 0x0f))
        else if opcode = 0xf9 then decode_mnat C
        else if 0x08 \<le> opcode \<and> opcode \<le> 0x78 \<and> opcode AND 7 = 0 then
          let n = unat (drop_bit 3 opcode) in
          dbind (decode_node C (depth + 1)) (\<lambda>(head, hinfo).
          dbind (drequire (\<not> (c_canonical C \<and> ni_kind hinfo = SILO_NODE_APP \<and> ni_app_n hinfo \<noteq> 15))
                   ''noncanonical APP spine flattening'') (\<lambda>_.
          dbind (drequire (\<not> c_build C \<or> c_malloc C (8 * n)) ''out of memory for APP args'') (\<lambda>_.
          dbind (drepeat n (decode_node C (depth + 1))) (\<lambda>args.
          dbind (if c_build C then build_app C n head (map fst args) else dret (VNat (Direct 0))) (\<lambda>v.
          dret (v, node_info SILO_NODE_APP n))))))
        else if opcode = 0xf0 then
          dbind (decode_node C (depth + 1)) (\<lambda>(name, _).
          dbind (decode_node C (depth + 1)) (\<lambda>(_, ai).
          dbind (drequire (ni_kind ai = SILO_NODE_NAT \<and> ni_fits ai \<and> ni_u64 ai \<noteq> 0 \<and> ni_u64 ai \<le> PL_NAT63_MAX)
                   ''LAW arity is not a direct nonzero runtime natural'') (\<lambda>_.
          dbind (decode_node C (depth + 1)) (\<lambda>(body, _).
          dbind (if c_build C then dbind (decode_alloc C 4) (\<lambda>_. dret (VLaw (ni_u64 ai) name body))
                 else dret (VNat (Direct 0))) (\<lambda>v.
          dret (v, node_info SILO_NODE_LAW 0))))))
        else if 0xf1 \<le> opcode \<and> opcode \<le> 0xf8 then decode_pin C (unat (opcode - 0xf0))
        else derr ''invalid Silo opcode''))"
  by auto
termination
  by (relation "measure (\<lambda>(C, depth). PL_SILO_MAX_DEPTH + 1 - depth)") auto

declare decode_node.simps [simp del]

subsection \<open>Streams\<close>

record silo_scan =
  s_pins :: "bytes list"
  s_used :: "nat list"

definition pl_silo_scan_stream :: "'r source \<Rightarrow> (nat \<Rightarrow> bool) \<Rightarrow> (bytes \<Rightarrow> bytes) \<Rightarrow> bool \<Rightarrow> 'r reader \<Rightarrow>
    string + silo_scan" where
  "pl_silo_scan_stream R malloc_ok sha canonical r =
     rbind (srewind R r) (\<lambda>r.
       let C = \<lparr>c_src = R, c_alloc = (\<lambda>h n. None), c_malloc = malloc_ok, c_sha = sha, c_resolved = [],
                c_build = False, c_canonical = canonical, c_capture = True\<rparr>;
           d = \<lparr>d_r = r, d_heap = (), d_pins = [], d_used = [], d_order = [], d_next = 0\<rparr>
       in rbind (dbind (decode_header C) (\<lambda>_. decode_node C 0) d) (\<lambda>(_, d).
          if r_pos (d_r d) \<noteq> r_len (d_r d) then Inl ''trailing bytes after Silo root node''
          else if canonical \<and> d_next d \<noteq> length (d_pins d)
          then Inl ''canonical Silo pin table contains unused entries''
          else Inr \<lparr>s_pins = d_pins d, s_used = d_order d\<rparr>))"

definition pl_silo_build_stream :: "'r source \<Rightarrow> ('h \<Rightarrow> nat \<Rightarrow> 'h option) \<Rightarrow> (nat \<Rightarrow> bool) \<Rightarrow> (bytes \<Rightarrow> bytes) \<Rightarrow>
    'r reader \<Rightarrow> 'h \<Rightarrow> silo_scan \<Rightarrow> pval list \<Rightarrow> string + (pval \<times> 'h)" where
  "pl_silo_build_stream R alloc malloc_ok sha r store accepted resolved =
     rbind (srewind R r) (\<lambda>r.
       let C = \<lparr>c_src = R, c_alloc = alloc, c_malloc = malloc_ok, c_sha = sha, c_resolved = resolved,
                c_build = True, c_canonical = False, c_capture = False\<rparr>;
           d = \<lparr>d_r = r, d_heap = store, d_pins = s_pins accepted, d_used = [], d_order = [], d_next = 0\<rparr>
       in rbind (dbind (decode_header C) (\<lambda>_. decode_node C 0) d) (\<lambda>((v, _), d).
          if r_pos (d_r d) \<noteq> r_len (d_r d) then Inl ''trailing bytes after Silo root node''
          else Inr (v, d_heap d)))"

end
