(* ===== verification/Silo_Nat.thy ===== *)
theory Silo_Nat
  imports Silo_Dec
begin

text \<open>
  What a decoding step does on a given input, and the round trip of contiguous nats. \<open>runs\<close> relates
  a step to the bytes it consumes, its result and the pin indices it meets; the pin bookkeeping of the
  scan follows \<open>visit\<close>, which accepts indices in first-occurrence order.
\<close>

subsection \<open>Steps of the decoder\<close>

fun visit :: "nat \<Rightarrow> nat list \<Rightarrow> nat option" where
  "visit n [] = Some n"
| "visit n (i # is) = (if i < n then visit n is else if i = n then visit (Suc n) is else None)"

lemma visit_append: "visit n (is @ js) = (case visit n is of None \<Rightarrow> None | Some n' \<Rightarrow> visit n' js)"
  by (induction n "is" rule: visit.induct) auto

lemma visit_mono: "visit n is = Some n' \<Longrightarrow> n \<le> n'"
  by (induction n "is" rule: visit.induct) (auto split: if_splits)

text \<open>The configuration the round trip is about: memory is available, hashes have 32 bytes.\<close>

definition dec_ok :: "'r source \<Rightarrow> ('r, 'h) dcfg \<Rightarrow> bool" where
  "dec_ok R C \<longleftrightarrow> c_src C = R \<and> (c_build C \<longrightarrow> (\<forall>h n. \<exists>h'. c_alloc C h n = Some h')) \<and>
     (\<forall>n. c_malloc C n) \<and> (\<forall>bs. length (c_sha C bs) = 32)"

definition remains :: "('r \<Rightarrow> bytes) \<Rightarrow> ('r \<Rightarrow> nat) \<Rightarrow> ('r, 'h) silo_dec \<Rightarrow> bytes \<Rightarrow> bool" where
  "remains content offset d rest \<longleftrightarrow>
     (let r = d_r d; c = r_ctx r in
      offset c = r_pos r \<and> r_len r = length (content c) \<and> r_pos r \<le> r_len r \<and>
      drop (r_pos r) (content c) = rest)"

definition pin_state :: "('r, 'h) dcfg \<Rightarrow> nat \<Rightarrow> ('r, 'h) silo_dec \<Rightarrow> nat \<Rightarrow> bool" where
  "pin_state C N d n \<longleftrightarrow> length (d_pins d) = N \<and> n \<le> N \<and>
     (c_capture C \<longrightarrow> d_used d = replicate n True @ replicate (N - n) False \<and> d_next d = n \<and> d_order d = [0..<n])"

definition runs :: "('r \<Rightarrow> bytes) \<Rightarrow> ('r \<Rightarrow> nat) \<Rightarrow> ('r, 'h) dcfg \<Rightarrow> nat \<Rightarrow>
    ('r, 'h, 'a) dm \<Rightarrow> bytes \<Rightarrow> 'a \<Rightarrow> nat list \<Rightarrow> bool" where
  "runs content offset C N f bs x is \<longleftrightarrow>
     (\<forall>d rest n n'. remains content offset d (bs @ rest) \<and> pin_state C N d n \<and> visit n is = Some n' \<and> n' \<le> N \<longrightarrow>
        (\<exists>d'. f d = Inr (x, d') \<and> remains content offset d' rest \<and> pin_state C N d' n' \<and>
           d_pins d' = d_pins d))"

lemma runs_ret [simp]: "runs content offset C N (dret x) [] x []"
  by (simp add: runs_def dret_def)

lemma runs_bind:
  assumes f: "runs content offset C N f a x is" and g: "runs content offset C N (g x) b y js"
  shows "runs content offset C N (dbind f g) (a @ b) y (is @ js)"
  unfolding runs_def
proof (intro allI impI, elim conjE)
  fix d rest n n'
  assume d: "remains content offset d ((a @ b) @ rest)" "pin_state C N d n"
    and v: "visit n (is @ js) = Some n'" "n' \<le> N"
  then obtain m where m: "visit n is = Some m" "visit m js = Some n'"
    by (auto simp: visit_append split: option.splits)
  then have "m \<le> N" using visit_mono v(2) le_trans by blast
  with f d m(1) obtain d1 where d1: "f d = Inr (x, d1)" "remains content offset d1 (b @ rest)"
    "pin_state C N d1 m" "d_pins d1 = d_pins d" unfolding runs_def by fastforce
  with g m(2) v(2) obtain d2 where "g x d1 = Inr (y, d2)" "remains content offset d2 rest"
    "pin_state C N d2 n'" "d_pins d2 = d_pins d1" unfolding runs_def by blast
  with d1 show "\<exists>d'. dbind f g d = Inr (y, d') \<and> remains content offset d' rest \<and> pin_state C N d' n' \<and>
      d_pins d' = d_pins d" by (auto simp: dbind_def)
qed

lemma runs_require [simp]: "ok \<Longrightarrow> runs content offset C N (drequire ok e) [] () []"
  by (simp add: drequire_def)

text \<open>A check in front of a step, and a result computed after it.\<close>

lemma runs_check:
  assumes "ok" "runs content offset C N (g ()) b y js"
  shows "runs content offset C N (dbind (drequire ok e) g) b y js"
  using runs_bind[OF runs_require[OF assms(1)], of content offset C N g b y js e] assms(2) by simp

lemma runs_bind0:
  assumes "runs content offset C N f a x is" "runs content offset C N (g x) [] y []"
  shows "runs content offset C N (dbind f g) a y is"
  using runs_bind[where g = g, OF assms] by simp

lemma runs_bind_js:
  assumes "runs content offset C N f a x []" "runs content offset C N (g x) b y js"
  shows "runs content offset C N (dbind f g) (a @ b) y js"
  using runs_bind[where g = g, OF assms] by simp

lemma runs_repeat:
  assumes "length bss = k" "length xs = k" "length iss = k"
    and "\<And>i. i < k \<Longrightarrow> runs content offset C N f (bss ! i) (xs ! i) (iss ! i)"
  shows "runs content offset C N (drepeat k f) (concat bss) xs (concat iss)"
  using assms
proof (induction k arbitrary: bss xs iss)
  case (Suc k)
  then obtain b bss' x xs' j iss' where e: "bss = b # bss'" "xs = x # xs'" "iss = j # iss'"
    by (metis length_Suc_conv)
  have 0: "runs content offset C N f b x j" using Suc.prems(4)[of 0] e by simp
  have "runs content offset C N (drepeat k f) (concat bss') xs' (concat iss')"
  proof (rule Suc.IH)
    fix i assume "i < k"
    then show "runs content offset C N f (bss' ! i) (xs' ! i) (iss' ! i)"
      using Suc.prems(4)[of "Suc i"] e by simp
  qed (use Suc.prems e in auto)
  then have "runs content offset C N (dbind (drepeat k f) (\<lambda>xs. dret (x # xs))) (concat bss') (x # xs') (concat iss')"
    by (rule runs_bind0) simp
  then show ?case using runs_bind[where g = "\<lambda>x. dbind (drepeat k f) (\<lambda>xs. dret (x # xs))", OF 0] by (simp add: e)
qed simp

context byte_source
begin

lemma runs_dread:
  assumes "dec_ok R C" "length bs = n"
  shows "runs content offset C N (dread C n) bs bs []"
  unfolding runs_def
proof (intro allI impI, elim conjE)
  fix d rest m m'
  assume r: "remains content offset d (bs @ rest)" and p: "pin_state C N d m" "visit m [] = Some m'"
  let ?r = "d_r d" let ?c = "r_ctx ?r"
  have r': "offset ?c = r_pos ?r" "r_len ?r = length (content ?c)" "r_pos ?r \<le> r_len ?r"
    "drop (r_pos ?r) (content ?c) = bs @ rest" using r by (auto simp: remains_def Let_def)
  have room: "r_pos ?r + n \<le> length (content ?c)"
  proof -
    have "length (drop (r_pos ?r) (content ?c)) = n + length rest" using r'(4) assms(2) by simp
    then show ?thesis using r'(2,3) by simp
  qed
  then obtain c' where c': "src_read R ?c n = Some (take n (drop (offset ?c) (content ?c)), c')"
    "content c' = content ?c" "offset c' = offset ?c + n" using reads[of ?c n] r'(1) by auto
  have src: "c_src C = R" using assms(1) by (simp add: dec_ok_def)
  define r2 where "r2 = (if n = 0 then ?r else ?r\<lparr>r_ctx := c', r_pos := r_pos ?r + n\<rparr>)"
  have rd: "sread R n ?r = Inr (bs, r2)"
    using c' r' room assms(2) by (auto simp: sread_def r2_def)
  have "drop (r_pos ?r + n) (content ?c) = drop n (bs @ rest)" by (simp add: r'(4)[symmetric] add.commute)
  then have "drop (r_pos ?r + n) (content ?c) = rest" using assms(2) by simp
  then have rem: "remains content offset (d\<lparr>d_r := r2\<rparr>) rest"
    using r' c' room assms(2) by (auto simp: remains_def r2_def Let_def)
  have "pin_state C N (d\<lparr>d_r := r2\<rparr>) m'" using p by (simp add: pin_state_def)
  with rd rem show "\<exists>d'. dread C n d = Inr (bs, d') \<and> remains content offset d' rest \<and> pin_state C N d' m' \<and>
      d_pins d' = d_pins d" by (auto simp: dread_def src)
qed

end

lemma runs_alloc:
  assumes "dec_ok R C" "c_build C" "0 < k" "k \<le> 0xFFFFFFFF"
  shows "runs content offset C N (decode_alloc C k) [] () []"
  unfolding runs_def
proof (intro allI impI, elim conjE)
  fix d rest n n'
  assume r: "remains content offset d ([] @ rest)" "pin_state C N d n" "visit n [] = Some n'"
  obtain h' where "c_alloc C (d_heap d) k = Some h'" using assms(1,2) unfolding dec_ok_def by metis
  then show "\<exists>d'. decode_alloc C k d = Inr ((), d') \<and> remains content offset d' rest \<and> pin_state C N d' n' \<and>
      d_pins d' = d_pins d"
    using assms(3,4) r by (auto simp: decode_alloc_def remains_def pin_state_def Let_def)
qed

subsection \<open>Accumulating bytes\<close>

text \<open>The accumulator after the bytes \<open>pre\<close> of a nat of \<open>len\<close> bytes.\<close>

definition acc_at :: "('r, 'h) dcfg \<Rightarrow> nat \<Rightarrow> bytes \<Rightarrow> nat_accum" where
  "acc_at C len pre = \<lparr>a_len = len, a_low = getle (take 8 pre),
     a_last = (if pre = [] then 0 else last pre),
     a_cells = (if c_build C \<and> 8 < len then Some (pre @ replicate (8 * ((len + 7) div 8) - length pre) 0)
                else None)\<rparr>"

lemma getle_snoc:
  assumes "length pre < 8"
  shows "getle (pre @ [b]) = getle pre OR push_bit (8 * length pre) (ucast b)"
proof -
  have eq: "foldl (\<lambda>v i. v OR push_bit (8 * i) (ucast ((pre @ [b]) ! i))) 0 [0..<length pre]
      = (foldl (\<lambda>v i. v OR push_bit (8 * i) (ucast (pre ! i))) 0 [0..<length pre] :: u64)"
    by (rule foldl_cong) (auto simp: nth_append)
  have "(if length (pre @ [b]) < 8 then length (pre @ [b]) else 8) = Suc (length pre)"
    "(if length pre < 8 then length pre else 8) = length pre" using assms by auto
  then show ?thesis using eq unfolding getle_def Let_def by (simp add: upt_Suc_append)
qed

lemma low_fold:
  "foldl (\<lambda>v i. if length pre + i < 8 then v OR push_bit (8 * (length pre + i)) (ucast (bs ! i)) else v)
     (getle (take 8 pre)) [0..<length bs] = getle (take 8 (pre @ bs))"
proof (induction bs rule: rev_induct)
  case (snoc b bs)
  let ?f = "\<lambda>bs v i. if length pre + i < 8 then v OR push_bit (8 * (length pre + i)) (ucast (bs ! i)) else v"
  have "foldl (?f (bs @ [b])) (getle (take 8 pre)) [0..<length bs] = foldl (?f bs) (getle (take 8 pre)) [0..<length bs]"
    by (rule foldl_cong) (auto simp: nth_append)
  also have "\<dots> = getle (take 8 (pre @ bs))" by (rule snoc)
  finally have "foldl (?f (bs @ [b])) (getle (take 8 pre)) [0..<length (bs @ [b])] =
      ?f (bs @ [b]) (getle (take 8 (pre @ bs))) (length bs)" by simp
  also have "\<dots> = getle (take 8 (pre @ bs @ [b]))"
  proof (cases "length (pre @ bs) < 8")
    case True
    then show ?thesis using getle_snoc[of "pre @ bs" b] by simp
  next
    case False
    then have "take 8 ((pre @ bs) @ [b]) = take 8 (pre @ bs)" by (subst take_append) simp
    then show ?thesis using False by simp
  qed
  finally show ?case by simp
qed simp

lemma acc_bytes:
  assumes "length pre + length bs \<le> len"
  shows "nat_accum_bytes (acc_at C len pre) (length pre) bs = acc_at C len (pre @ bs)"
proof -
  have m: "length pre + length bs \<le> 8 * ((len + 7) div 8)" using assms by simp
  then have "take (length pre) (pre @ replicate (8 * ((len + 7) div 8) - length pre) 0) @ bs @
      drop (length pre + length bs) (pre @ replicate (8 * ((len + 7) div 8) - length pre) 0) =
      (pre @ bs) @ replicate (8 * ((len + 7) div 8) - length (pre @ bs)) (0 :: u8)" by simp
  moreover have "bs \<noteq> [] \<Longrightarrow> bs ! (length bs - 1) = last (pre @ bs)" by (metis last_appendR last_conv_nth)
  ultimately show ?thesis using low_fold[of pre bs]
    by (cases "bs = []") (simp_all add: nat_accum_bytes_def acc_at_def)
qed

lemma runs_accum_init:
  assumes "dec_ok R C" "len \<le> PL_SILO_MAX_NAT_BYTES"
  shows "runs content offset C N (nat_accum_init C len) [] (acc_at C len []) []"
proof -
  have init: "acc_at C len [] = \<lparr>a_len = len, a_low = 0, a_last = 0,
      a_cells = (if c_build C \<and> 8 < len then Some (replicate (8 * ((len + 7) div 8)) 0) else None)\<rparr>"
    by (simp add: acc_at_def getle_def)
  show ?thesis
  proof (cases "c_build C \<and> 8 < len")
    case True
    have lim: "(len + 7) div 8 \<noteq> 0 \<and> (len + 7) div 8 \<le> PL_SILO_MAX_PIN_COUNT"
      using True assms(2) by (auto simp: silo_consts)
    then have a: "runs content offset C N (decode_alloc C (1 + (len + 7) div 8)) [] () []"
      using assms(1) True by (intro runs_alloc) (auto simp: silo_consts)
    show ?thesis unfolding nat_accum_init_def
      by (rule runs_check[OF assms(2)]) (use True lim a in \<open>auto simp: Let_def init
          intro!: runs_check runs_bind0[where g = "\<lambda>_. dret _"] runs_bind0\<close>)
  next
    case False
    then show ?thesis unfolding nat_accum_init_def
      by (intro runs_check[OF assms(2)]) (auto simp: init)
  qed
qed

text \<open>What the decoder returns for a value: the value when it builds, and a placeholder otherwise.\<close>

definition outv :: "('r, 'h) dcfg \<Rightarrow> pval \<Rightarrow> pval" where
  "outv C v = (if c_build C then v else VNat (Direct 0))"

definition ninfo :: "nat \<Rightarrow> silo_node_info" where
  "ninfo n = \<lparr>ni_kind = SILO_NODE_NAT, ni_app_n = 0, ni_fits = (n < 2 ^ 64), ni_u64 = word_of_nat n\<rparr>"

lemma getle_word: "getle (take 8 bs) = word_of_nat (bval bs)"
proof -
  have "unat (getle (take 8 bs)) = bval bs mod 2 ^ 64" by (simp add: getle_value bval_take)
  also have "\<dots> = unat (word_of_nat (bval bs) :: u64)" by (simp add: unsigned_of_nat take_bit_eq_mod)
  finally show ?thesis by (rule unsigned_word_eqI)
qed

lemma bval_ge_top: "bs \<noteq> [] \<Longrightarrow> last bs \<noteq> 0 \<Longrightarrow> 256 ^ (length bs - 1) \<le> bval bs"
  unfolding bval_def using dval_ge_top[of "map unat bs" 256] by (simp add: last_map unsigned_eq_0_iff)

lemma bval_length_le:
  assumes "bs \<noteq> []" "last bs \<noteq> 0"
  shows "bval bs < 256 ^ k \<longleftrightarrow> length bs \<le> k"
proof
  assume "bval bs < 256 ^ k"
  then have "256 ^ (length bs - 1) < (256 :: nat) ^ k" using bval_ge_top[OF assms] by (rule le_less_trans[rotated])
  then have "length bs - 1 < k" by simp
  then show "length bs \<le> k" by simp
next
  assume "length bs \<le> k"
  then have "(256 :: nat) ^ length bs \<le> 256 ^ k" by (intro power_increasing) auto
  then show "bval bs < 256 ^ k" using bval_less[of bs] by linarith
qed

lemma nlimbs_bval:
  assumes "bs \<noteq> []" "last bs \<noteq> 0"
  shows "nlimbs (bval bs) = (length bs + 7) div 8"
proof -
  have "nlimbs (bval bs) \<le> k \<longleftrightarrow> (length bs + 7) div 8 \<le> k" for k
    unfolding nat_less_bytes bval_length_le[OF assms] by linarith
  then show ?thesis by (meson order_antisym order_refl)
qed

lemma runs_accum_finish:
  assumes "dec_ok R C" "length data = len" "data \<noteq> []" "last data \<noteq> 0"
  shows "runs content offset C N (nat_accum_finish C (acc_at C len data)) []
    (outv C (VNat (nat_rep (bval data))), ninfo (bval data)) []"
proof -
  let ?n = "bval data"
  have fits: "len \<le> 8 \<longleftrightarrow> ?n < 2 ^ 64" using bval_length_le[OF assms(3,4), of 8] assms(2) by simp
  have low: "getle (take 8 data) = word_of_nat ?n" by (rule getle_word)
  have info: "nat_info (acc_at C len data) = ninfo ?n"
    using fits low by (simp add: nat_info_def ninfo_def acc_at_def)
  have last: "a_last (acc_at C len data) \<noteq> 0" using assms(3,4) by (simp add: acc_at_def)
  have unb: "unat (word_of_nat ?n :: u64) = ?n" if "?n < 2 ^ 64"
    using that by (simp add: unsigned_of_nat take_bit_eq_mod)
  note nl = nlimbs_bval[OF assms(3,4)]
  have run: "runs content offset C N (if \<not> c_build C then dret (VNat (Direct 0), ninfo ?n)
     else if a_len (acc_at C len data) = 0 \<or> a_len (acc_at C len data) \<le> 8 \<and> a_low (acc_at C len data) \<le> PL_NAT63_MAX
       then dret (VNat (Direct (a_low (acc_at C len data))), ninfo ?n)
     else case a_cells (acc_at C len data) of
       None \<Rightarrow> dbind (decode_alloc C 2) (\<lambda>_. dret (VNat (Boxed [a_low (acc_at C len data)]), ninfo ?n))
     | Some m \<Rightarrow> dret (VNat (Boxed (bytes_limbs (length m div 8) m)), ninfo ?n)) []
     (outv C (VNat (nat_rep ?n)), ninfo ?n) []"
  proof -
    consider "\<not> c_build C" | "c_build C" "?n < 2 ^ 63" | "c_build C" "\<not> ?n < 2 ^ 63" "?n < 2 ^ 64"
      | "c_build C" "\<not> ?n < 2 ^ 64" by linarith
    then show ?thesis
    proof cases
      case 1
      then show ?thesis by (simp add: outv_def)
    next
      case 2
      then have "word_of_nat ?n \<le> PL_NAT63_MAX" "len \<le> 8" using unb fits by (simp_all add: le_nat63)
      then show ?thesis using 2 low by (simp add: outv_def acc_at_def nat_rep_def)
    next
      case 3
      then have n: "\<not> word_of_nat ?n \<le> PL_NAT63_MAX" "len \<le> 8" "len \<noteq> 0"
        using unb fits assms(2,3) by (auto simp: le_nat63)
      have rep: "nat_rep ?n = Boxed [word_of_nat ?n]"
        using 3 nlimbs_one[of ?n] by (simp add: nat_rep_def nat_limbs_def)
      have "runs content offset C N (dbind (decode_alloc C 2) (\<lambda>_. dret (VNat (Boxed [word_of_nat ?n]), ninfo ?n))) []
          (VNat (Boxed [word_of_nat ?n]), ninfo ?n) []"
        by (rule runs_bind0[OF runs_alloc[OF assms(1)]]) (use 3 in simp_all)
      then show ?thesis using 3 n low by (simp add: acc_at_def outv_def rep)
    next
      case 4
      define k where "k = (len + 7) div 8"
      have n: "\<not> len \<le> 8" "len \<noteq> 0" using fits 4 by auto
      have len: "length data \<le> 8 * k" using assms(2) by (simp add: k_def)
      have "bval (data @ replicate (8 * k - len) 0) = ?n" by (simp add: bval_append)
      then have "bytes_limbs k (data @ replicate (8 * k - len) 0) = nat_limbs ?n"
        by (simp add: bytes_limbs_def nat_limbs_def nl assms(2) k_def)
      moreover have "length (data @ replicate (8 * k - len) (0 :: u8)) div 8 = k" using len assms(2) by simp
      moreover have "nat_rep ?n = Boxed (nat_limbs ?n)" using 4 by (simp add: nat_rep_def)
      ultimately show ?thesis using 4 n assms(2) by (simp add: acc_at_def outv_def k_def)
    qed
  qed
  show ?thesis unfolding nat_accum_finish_def info
    by (rule runs_check, use last in simp, rule run)
qed

context byte_source
begin

lemma runs_contiguous_loop:
  assumes "dec_ok R C" "length (pre @ bs) = len"
  shows "runs content offset C N (contiguous_loop C len (length pre) (acc_at C len pre)) bs (acc_at C len (pre @ bs)) []"
  using assms(2)
proof (induction "length bs" arbitrary: pre bs rule: less_induct)
  case less
  show ?case
  proof (cases "bs = []")
    case True
    then show ?thesis using less.prems by (subst contiguous_loop.simps) simp
  next
    case False
    define n where "n = (if 4096 < len - length pre then 4096 else len - length pre)"
    let ?a = "take n bs" and ?b = "drop n bs"
    have n: "0 < n" "n \<le> length bs" using False less.prems by (auto simp: n_def)
    have IH: "runs content offset C N (contiguous_loop C len (length (pre @ ?a)) (acc_at C len (pre @ ?a))) ?b
        (acc_at C len ((pre @ ?a) @ ?b)) []"
      by (rule less.hyps) (use n less.prems in auto)
    have rd: "runs content offset C N (dread C n) ?a ?a []" by (rule runs_dread[OF assms(1)]) (use n in simp)
    have acc: "nat_accum_bytes (acc_at C len pre) (length pre) ?a = acc_at C len (pre @ ?a)"
      using less.prems n by (intro acc_bytes) simp
    have "runs content offset C N (dbind (dread C n)
        (\<lambda>buf. contiguous_loop C len (length pre + n) (nat_accum_bytes (acc_at C len pre) (length pre) buf)))
        (?a @ ?b) (acc_at C len (pre @ bs)) []"
      by (rule runs_bind_js[OF rd]) (use IH acc n in simp)
    moreover have "length pre < len" using less.prems False by auto
    ultimately show ?thesis by (subst contiguous_loop.simps) (simp add: n_def[symmetric] Let_def)
  qed
qed

lemma runs_contiguous:
  assumes "dec_ok R C" "data \<noteq> []" "last data \<noteq> 0" "length data \<le> PL_SILO_MAX_NAT_BYTES"
  shows "runs content offset C N (decode_contiguous_nat C (length data)) data
    (outv C (VNat (nat_rep (bval data))), ninfo (bval data)) []"
proof -
  let ?l = "length data"
  have loop: "runs content offset C N (contiguous_loop C ?l 0 (acc_at C ?l [])) data (acc_at C ?l data) []"
    using runs_contiguous_loop[OF assms(1), of "[]" data ?l N] by simp
  note fin = runs_accum_finish[OF assms(1) refl assms(2,3), of content offset N]
  have "runs content offset C N (dbind (nat_accum_init C ?l) (\<lambda>a. dbind (contiguous_loop C ?l 0 a) (nat_accum_finish C)))
      ([] @ data) (outv C (VNat (nat_rep (bval data))), ninfo (bval data)) []"
    by (rule runs_bind_js[OF runs_accum_init[OF assms(1,4)]], rule runs_bind0[OF loop], rule fin)
  then show ?thesis unfolding decode_contiguous_nat_def
    by (intro runs_check) (use assms(2) in simp_all)
qed

end

subsection \<open>Opcodes\<close>

text \<open>The dispatch of \<open>decode_node\<close> after its opcode.\<close>

definition node_body :: "('r, 'h) dcfg \<Rightarrow> nat \<Rightarrow> u8 \<Rightarrow> ('r, 'h, pval \<times> silo_node_info) dm" where
  "node_body C depth opcode = (
        if 0x80 \<le> opcode \<and> opcode \<le> 0xbf then
          dret (VNat (Direct (if c_build C then ucast (opcode AND 0x3f) else 0)), smol_info opcode)
        else if 0xc1 \<le> opcode \<and> opcode \<le> 0xdf then decode_medium C (unat (opcode AND 0x1f))
        else if 0xe1 \<le> opcode \<and> opcode \<le> 0xef then decode_big C (unat (opcode AND 0x0f))
        else if opcode = 0xf9 then decode_mnat C
        else if 0x08 \<le> opcode \<and> opcode \<le> 0x78 \<and> opcode AND 7 = 0 then
          let n = unat (drop_bit 3 opcode) in
          dbind (decode_node C (depth + 1)) (\<lambda>(head, hinfo).
          dbind (drequire (\<not> (c_canonical C \<and> ni_kind hinfo = SILO_NODE_APP \<and> ni_app_n hinfo \<noteq> 15))
                   ''noncanonical APP spine flattening'') (\<lambda>_.
          dbind (drequire (\<not> c_build C \<or> c_malloc C (8 * n)) ''out of memory for APP args'') (\<lambda>_.
          dbind (drepeat n (decode_node C (depth + 1))) (\<lambda>args.
          dbind (if c_build C then build_app C n head (map fst args) else dret (VNat (Direct 0))) (\<lambda>v.
          dret (v, node_info SILO_NODE_APP n))))))
        else if opcode = 0xf0 then
          dbind (decode_node C (depth + 1)) (\<lambda>(name, _).
          dbind (decode_node C (depth + 1)) (\<lambda>(_, ai).
          dbind (drequire (ni_kind ai = SILO_NODE_NAT \<and> ni_fits ai \<and> ni_u64 ai \<noteq> 0 \<and> ni_u64 ai \<le> PL_NAT63_MAX)
                   ''LAW arity is not a direct nonzero runtime natural'') (\<lambda>_.
          dbind (decode_node C (depth + 1)) (\<lambda>(body, _).
          dbind (if c_build C then dbind (decode_alloc C 4) (\<lambda>_. dret (VLaw (ni_u64 ai) name body))
                 else dret (VNat (Direct 0))) (\<lambda>v.
          dret (v, node_info SILO_NODE_LAW 0))))))
        else if 0xf1 \<le> opcode \<and> opcode \<le> 0xf8 then decode_pin C (unat (opcode - 0xf0))
        else derr ''invalid Silo opcode'')"

lemma decode_node_body:
  "depth \<le> PL_SILO_MAX_DEPTH \<Longrightarrow> decode_node C depth = dbind (dread C 1) (\<lambda>ob. node_body C depth (hd ob))"
  by (subst decode_node.simps) (simp add: node_body_def Let_def)

context byte_source
begin

lemma runs_node:
  assumes "dec_ok R C" "depth \<le> PL_SILO_MAX_DEPTH" "runs content offset C N (node_body C depth opcode) bs x is"
  shows "runs content offset C N (decode_node C depth) (opcode # bs) x is"
proof -
  have "runs content offset C N (dread C 1) [opcode] [opcode] []" by (rule runs_dread[OF assms(1)]) simp
  from runs_bind_js[where g = "\<lambda>ob. node_body C depth (hd ob)", OF this] assms(3)
  show ?thesis by (simp add: decode_node_body[OF assms(2)])
qed

end

lemma body_smol: "0x80 \<le> op \<Longrightarrow> op \<le> 0xbf \<Longrightarrow> node_body C depth op =
    dret (VNat (Direct (if c_build C then ucast (op AND 0x3f) else 0)), smol_info op)"
  by (simp add: node_body_def)

lemma u8_cases: "(op :: u8) = word_of_nat (unat op)"
  by simp

lemma body_medium:
  assumes "1 \<le> k" "k \<le> 31"
  shows "node_body C depth (0xc0 OR word_of_nat k) = decode_medium C k"
proof -
  have "k \<in> set [1..<32]" using assms by simp
  moreover have "list_all (\<lambda>k. let op = 0xc0 OR word_of_nat k :: u8 in
      \<not> (0x80 \<le> op \<and> op \<le> 0xbf) \<and> 0xc1 \<le> op \<and> op \<le> 0xdf \<and> unat (op AND 0x1f) = k) [1..<32]"
    by code_simp
  ultimately show ?thesis by (auto simp: list_all_iff node_body_def Let_def)
qed

lemma body_big:
  assumes "1 \<le> k" "k \<le> 8"
  shows "node_body C depth (0xe0 OR word_of_nat k) = decode_big C k"
proof -
  have "k \<in> set [1..<9]" using assms by simp
  moreover have "list_all (\<lambda>k. let op = 0xe0 OR word_of_nat k :: u8 in
      \<not> (0x80 \<le> op \<and> op \<le> 0xbf) \<and> \<not> (0xc1 \<le> op \<and> op \<le> 0xdf) \<and> 0xe1 \<le> op \<and> op \<le> 0xef \<and>
      unat (op AND 0x0f) = k) [1..<9]"
    by code_simp
  ultimately show ?thesis by (auto simp: list_all_iff node_body_def Let_def)
qed

lemma body_pin:
  assumes "1 \<le> k" "k \<le> 8"
  shows "node_body C depth (0xf0 + word_of_nat k) = decode_pin C k"
proof -
  have "k \<in> set [1..<9]" using assms by simp
  moreover have "list_all (\<lambda>k. let op = 0xf0 + word_of_nat k :: u8 in
      \<not> (0x80 \<le> op \<and> op \<le> 0xbf) \<and> \<not> (0xc1 \<le> op \<and> op \<le> 0xdf) \<and> \<not> (0xe1 \<le> op \<and> op \<le> 0xef) \<and>
      op \<noteq> 0xf9 \<and> \<not> (0x08 \<le> op \<and> op \<le> 0x78 \<and> op AND 7 = 0) \<and> op \<noteq> 0xf0 \<and>
      0xf1 \<le> op \<and> op \<le> 0xf8 \<and> unat (op - 0xf0) = k) [1..<9]"
    by code_simp
  ultimately show ?thesis by (auto simp: list_all_iff node_body_def Let_def)
qed

lemma body_mnat: "node_body C depth 0xf9 = decode_mnat C"
  by (simp add: node_body_def)

lemma body_app:
  assumes "1 \<le> n" "n \<le> 15"
  shows "node_body C depth (push_bit 3 (word_of_nat n)) =
    dbind (decode_node C (depth + 1)) (\<lambda>(head, hinfo).
    dbind (drequire (\<not> (c_canonical C \<and> ni_kind hinfo = SILO_NODE_APP \<and> ni_app_n hinfo \<noteq> 15))
             ''noncanonical APP spine flattening'') (\<lambda>_.
    dbind (drequire (\<not> c_build C \<or> c_malloc C (8 * n)) ''out of memory for APP args'') (\<lambda>_.
    dbind (drepeat n (decode_node C (depth + 1))) (\<lambda>args.
    dbind (if c_build C then build_app C n head (map fst args) else dret (VNat (Direct 0))) (\<lambda>v.
    dret (v, node_info SILO_NODE_APP n))))))"
proof -
  have "n \<in> set [1..<16]" using assms by simp
  moreover have "list_all (\<lambda>k. let op = push_bit 3 (word_of_nat k) :: u8 in
      \<not> (0x80 \<le> op \<and> op \<le> 0xbf) \<and> \<not> (0xc1 \<le> op \<and> op \<le> 0xdf) \<and> \<not> (0xe1 \<le> op \<and> op \<le> 0xef) \<and>
      op \<noteq> 0xf9 \<and> 0x08 \<le> op \<and> op \<le> 0x78 \<and> op AND 7 = 0 \<and> unat (drop_bit 3 op) = k) [1..<16]"
    by code_simp
  ultimately have "let op = push_bit 3 (word_of_nat n) :: u8 in
      \<not> (0x80 \<le> op \<and> op \<le> 0xbf) \<and> \<not> (0xc1 \<le> op \<and> op \<le> 0xdf) \<and> \<not> (0xe1 \<le> op \<and> op \<le> 0xef) \<and>
      op \<noteq> 0xf9 \<and> 0x08 \<le> op \<and> op \<le> 0x78 \<and> op AND 7 = 0 \<and> unat (drop_bit 3 op) = n"
    unfolding list_all_iff by blast
  then show ?thesis unfolding node_body_def Let_def by (simp only: if_True if_False simp_thms)
qed

lemma body_law: "node_body C depth 0xf0 =
    dbind (decode_node C (depth + 1)) (\<lambda>(name, _).
    dbind (decode_node C (depth + 1)) (\<lambda>(_, ai).
    dbind (drequire (ni_kind ai = SILO_NODE_NAT \<and> ni_fits ai \<and> ni_u64 ai \<noteq> 0 \<and> ni_u64 ai \<le> PL_NAT63_MAX)
             ''LAW arity is not a direct nonzero runtime natural'') (\<lambda>_.
    dbind (decode_node C (depth + 1)) (\<lambda>(body, _).
    dbind (if c_build C then dbind (decode_alloc C 4) (\<lambda>_. dret (VLaw (ni_u64 ai) name body))
           else dret (VNat (Direct 0))) (\<lambda>v.
    dret (v, node_info SILO_NODE_LAW 0))))))"
  by (simp add: node_body_def)

subsection \<open>The bytes of a nat\<close>

definition nbytes :: "nat \<Rightarrow> bytes" where
  "nbytes n = bytes_of (pl_nat_byte_len (nat_rep n)) n"

lemma length_nbytes [simp]: "length (nbytes n) = pl_nat_byte_len (nat_rep n)"
  by (simp add: nbytes_def)

lemma bval_nbytes [simp]: "bval (nbytes n) = n"
  using byte_len_le_iff[of n "pl_nat_byte_len (nat_rep n)"] by (simp add: nbytes_def bval_bytes_of)

lemma byte_len_0 [simp]: "pl_nat_byte_len (nat_rep n) = 0 \<longleftrightarrow> n = 0"
  using byte_len_le_iff[of n 0] by auto

lemma byte_len_pos [simp]: "0 < pl_nat_byte_len (nat_rep n) \<longleftrightarrow> 0 < n"
  using byte_len_0[of n] by (metis neq0_conv)

lemma byte_len_Direct0 [simp]: "pl_nat_byte_len (Direct 0) = 0"
  using byte_len_0[of 0] by simp

lemma nbytes_Nil [simp]: "nbytes n = [] \<longleftrightarrow> n = 0"
  by (metis byte_len_0 length_0_conv length_nbytes)

lemma last_nbytes: "n \<noteq> 0 \<Longrightarrow> last (nbytes n) \<noteq> 0"
proof
  assume n: "n \<noteq> 0" and z: "last (nbytes n) = 0"
  let ?L = "pl_nat_byte_len (nat_rep n)"
  have "nbytes n = butlast (nbytes n) @ [0]" using n z by (metis append_butlast_last_id nbytes_Nil)
  then have "n = bval (butlast (nbytes n))" by (metis bval_append bval_nbytes bval_simps(1,2) add_0_right mult_0_right unsigned_0 mult_zero_right)
  also have "\<dots> < 256 ^ (?L - 1)" using bval_less[of "butlast (nbytes n)"] by simp
  finally have "?L \<le> ?L - 1" using byte_len_le_iff by blast
  then show False using n by simp (metis byte_len_0 le_antisym diff_le_self diff_Suc_less gr0I not_le One_nat_def)
qed

lemma byte_len_limit: "nlimbs n < 2 ^ 20 \<Longrightarrow> pl_nat_byte_len (nat_rep n) \<le> PL_SILO_MAX_NAT_BYTES"
proof -
  assume "nlimbs n < 2 ^ 20"
  then have "nlimbs n \<le> 1048575" by simp
  then have "n < 256 ^ (8 * 1048575)" unfolding nat_less_bytes .
  then have "pl_nat_byte_len (nat_rep n) \<le> 8 * 1048575" unfolding byte_len_le_iff .
  then show ?thesis by (simp add: silo_consts)
qed

lemma nat_slice_rep: "nat_slice (nat_rep n) off k = bytes_of k (n div 256 ^ off)"
proof (rule nth_equalityI)
  fix i assume "i < length (nat_slice (nat_rep n) off k)"
  then have i: "i < k" by (simp add: nat_slice_def)
  have "unat (pl_nat_byte_at (nat_rep n) (off + i)) = unat (word_of_nat (n div 256 ^ (off + i)) :: u8)"
    by (simp add: byte_at_rep unsigned_of_nat take_bit_eq_mod)
  then have "pl_nat_byte_at (nat_rep n) (off + i) = word_of_nat (n div 256 ^ off div 256 ^ i)"
    by (simp add: unsigned_word_eqI power_add div_mult2_eq)
  then show "nat_slice (nat_rep n) off k ! i = bytes_of k (n div 256 ^ off) ! i"
    using i by (simp add: nat_slice_def nth_bytes_of)
qed (simp add: nat_slice_def)

lemma bytes_of_split: "bytes_of (a + b) n = bytes_of a n @ bytes_of b (n div 256 ^ a)"
  by (induction a arbitrary: n) (simp_all add: div_mult2_eq)

context byte_sink
begin

lemma emits_chunks:
  "emits written room (nat_chunks S (nat_rep n) base off len) (bytes_of (len - off) (n div 256 ^ (base + off)))"
proof (induction "len - off" arbitrary: off rule: less_induct)
  case less
  show ?case
  proof (cases "off < len")
    case False
    then show ?thesis by (subst nat_chunks.simps) (simp add: emits_ok)
  next
    case True
    define k where "k = (if 4096 < len - off then 4096 else len - off)"
    have k: "0 < k" "k \<le> len - off" using True by (auto simp: k_def)
    have "emits written room (nat_chunks S (nat_rep n) base (off + k) len)
        (bytes_of (len - (off + k)) (n div 256 ^ (base + (off + k))))"
      by (rule less) (use k in simp)
    moreover have "emits written room (swrite S (nat_slice (nat_rep n) (base + off) k)) (bytes_of k (n div 256 ^ (base + off)))"
      using emits_swrite by (simp add: nat_slice_rep)
    moreover have "bytes_of (len - off) (n div 256 ^ (base + off)) =
        bytes_of k (n div 256 ^ (base + off)) @ bytes_of (len - (off + k)) (n div 256 ^ (base + (off + k)))"
      using bytes_of_split[of k "len - (off + k)" "n div 256 ^ (base + off)"] k
      by (simp add: power_add div_mult2_eq add.assoc)
    ultimately show ?thesis using True emits_seq
      by (subst nat_chunks.simps) (simp add: k_def[symmetric] Let_def)
  qed
qed

lemma emits_nat_bytes: "emits written room (encode_nat_bytes S (nat_rep n) (pl_nat_byte_len (nat_rep n))) (nbytes n)"
  using emits_chunks[of n 0 0 "pl_nat_byte_len (nat_rep n)"] by (simp add: encode_nat_bytes_def nbytes_def)

end

subsection \<open>Nats below the cutover\<close>

lemma width_byte_len:
  assumes "0 < n" "n < 2 ^ 64"
  shows "width_u64 (word_of_nat n) = pl_nat_byte_len (nat_rep n)"
proof -
  let ?w = "word_of_nat n :: u64"
  have u: "unat ?w = n" using assms(2) by (simp add: unsigned_of_nat take_bit_eq_mod)
  have "0 < pl_nat_byte_len (nat_rep n)" using assms(1) byte_len_0[of n] by simp
  then have "width_u64 ?w \<le> pl_nat_byte_len (nat_rep n)"
    using width_less_iff[of "pl_nat_byte_len (nat_rep n)" ?w] byte_len_le_iff[of n "pl_nat_byte_len (nat_rep n)"] u by simp
  moreover have "pl_nat_byte_len (nat_rep n) \<le> width_u64 ?w"
    unfolding byte_len_le_iff using width_spec[of ?w] u by simp
  ultimately show ?thesis by simp
qed

lemma take_put64: "0 < n \<Longrightarrow> n < 2 ^ 64 \<Longrightarrow> take (width_u64 (word_of_nat n)) (put64le (word_of_nat n)) = nbytes n"
  using width_le_8[of "word_of_nat n"]
  by (simp add: put64le_bytes take_bytes_of nbytes_def width_byte_len unsigned_of_nat take_bit_eq_mod)

lemma smol_value:
  assumes "n \<le> 63"
  shows "0x80 \<le> (0x80 + word_of_nat n :: u8) \<and> (0x80 + word_of_nat n :: u8) \<le> 0xbf \<and>
    (0x80 + word_of_nat n AND 0x3f :: u8) = word_of_nat n"
proof -
  have "n \<in> set [0..<64]" using assms by simp
  moreover have "list_all (\<lambda>n. 0x80 \<le> (0x80 + word_of_nat n :: u8) \<and> (0x80 + word_of_nat n :: u8) \<le> 0xbf \<and>
    (0x80 + word_of_nat n AND 0x3f :: u8) = word_of_nat n) [0..<64]" by code_simp
  ultimately show ?thesis unfolding list_all_iff by blast
qed

lemma ucast_small: "n \<le> 63 \<Longrightarrow> (ucast (word_of_nat n :: u8) :: u64) = word_of_nat n"
  by (rule unsigned_word_eqI[where 'b = "64"]) (simp add: unsigned_of_nat unsigned_ucast_eq take_bit_eq_mod)

lemma body_smol_runs:
  assumes "n \<le> 63"
  shows "runs content offset C N (node_body C depth (0x80 + word_of_nat n)) [] (outv C (VNat (nat_rep n)), ninfo n) []"
proof -
  note v = smol_value[OF assms]
  have u: "(ucast (0x80 + word_of_nat n AND 0x3f :: u8) :: u64) = word_of_nat n"
    using v ucast_small[OF assms] by simp
  have "node_body C depth (0x80 + word_of_nat n) = dret (outv C (VNat (nat_rep n)), ninfo n)"
    using v assms u unfolding body_smol[of "0x80 + word_of_nat n", OF conjunct1[OF v] conjunct1[OF conjunct2[OF v]]]
    smol_info_def u by (simp add: outv_def ninfo_def nat_rep_def)
  then show ?thesis by simp
qed

locale silo_codec = byte_sink S written room + byte_source R content offset
  for S :: "'c sink" and written :: "'c \<Rightarrow> bytes" and room :: nat
    and R :: "'d source" and content :: "'d \<Rightarrow> bytes" and offset :: "'d \<Rightarrow> nat"
begin

lemma medium_runs:
  assumes "dec_ok R C" "63 < n" "pl_nat_byte_len (nat_rep n) \<le> 31"
  shows "runs content offset C N (decode_medium C (pl_nat_byte_len (nat_rep n))) (nbytes n)
    (outv C (VNat (nat_rep n)), ninfo n) []"
proof -
  let ?L = "pl_nat_byte_len (nat_rep n)"
  have n: "n \<noteq> 0" using assms(2) by simp
  have "runs content offset C N (decode_contiguous_nat C (length (nbytes n))) (nbytes n)
      (outv C (VNat (nat_rep (bval (nbytes n)))), ninfo (bval (nbytes n))) []"
    using n last_nbytes assms(3) by (intro runs_contiguous[OF assms(1)]) (auto simp: silo_consts)
  then have c: "runs content offset C N (decode_contiguous_nat C ?L) (nbytes n) (outv C (VNat (nat_rep n)), ninfo n) []"
    by simp
  have ok: "\<not> (c_canonical C \<and> ni_fits (ninfo n) \<and> ni_u64 (ninfo n) \<le> 63)"
    using assms(2) by (auto simp: ninfo_def word_le_nat_alt unsigned_of_nat take_bit_eq_mod)
  show ?thesis unfolding decode_medium_def
    apply (rule runs_check)
    using assms(3) n apply simp
    apply (rule runs_bind0[OF c])
    using ok apply (auto intro!: runs_check)
    done
qed

lemma big_runs:
  assumes "dec_ok R C" "31 < pl_nat_byte_len (nat_rep n)" "pl_nat_byte_len (nat_rep n) \<le> PL_SILO_NAT_CUTOVER"
  shows "runs content offset C N (decode_big C (width_u64 (word_of_nat (pl_nat_byte_len (nat_rep n)))))
    (nbytes (pl_nat_byte_len (nat_rep n)) @ nbytes n) (outv C (VNat (nat_rep n)), ninfo n) []"
proof -
  let ?L = "pl_nat_byte_len (nat_rep n)"
  let ?lw = "width_u64 (word_of_nat ?L)"
  have n: "n \<noteq> 0" using assms(2) by (metis byte_len_0 not_less_zero)
  have L: "?L < 2 ^ 64" using assms(3) by (simp add: silo_consts)
  have uL: "unat (word_of_nat ?L :: u64) = ?L" using L by (simp add: unsigned_of_nat take_bit_eq_mod)
  have lw: "?lw = pl_nat_byte_len (nat_rep ?L)" "?lw \<le> 8" "?lw \<noteq> 0"
    using width_byte_len[OF _ L] n assms(2) width_le_8[of "word_of_nat ?L"] width_spec[of "word_of_nat ?L"]
    by simp_all
  have rd: "runs content offset C N (dread C ?lw) (nbytes ?L) (nbytes ?L) []"
    by (rule runs_dread[OF assms(1)]) (simp add: lw(1))
  have get: "getle (nbytes ?L) = word_of_nat ?L"
    using getle_word[of "nbytes ?L"] lw by (simp add: take_all)
  have "runs content offset C N (decode_contiguous_nat C (length (nbytes n))) (nbytes n)
      (outv C (VNat (nat_rep (bval (nbytes n)))), ninfo (bval (nbytes n))) []"
    using n last_nbytes assms(3) by (intro runs_contiguous[OF assms(1)]) (auto simp: silo_consts)
  then have c: "runs content offset C N (decode_contiguous_nat C ?L) (nbytes n) (outv C (VNat (nat_rep n)), ninfo n) []"
    by simp
  have z: "list_all (\<lambda>x. x = 0) (drop 8 (nbytes ?L))" using lw by simp
  have nz: "(word_of_nat ?L :: u64) \<noteq> 0" "\<not> (word_of_nat ?L :: u64) < 32"
    using uL assms(2) by (auto simp: word_less_nat_alt)
  show ?thesis unfolding decode_big_def
    apply (rule runs_check)
    using lw apply simp
    apply (rule runs_bind_js[OF rd])
    unfolding get Let_def uL
    apply (intro runs_check)
    using z nz assms(3) c apply simp_all
    done
qed

lemma small_nat_codec:
  assumes "dec_ok R C" "depth \<le> PL_SILO_MAX_DEPTH" "pl_nat_byte_len (nat_rep n) \<le> PL_SILO_NAT_CUTOVER"
  shows "\<exists>bs. emits written room (encode_nat S sha (nat_rep n)) bs \<and>
    runs content offset C N (decode_node C depth) bs (outv C (VNat (nat_rep n)), ninfo n) []"
proof -
  let ?L = "pl_nat_byte_len (nat_rep n)"
  have L1: "?L = 1 \<longleftrightarrow> 0 < n \<and> n < 256" using byte_len_le_iff[of n 1] byte_len_pos[of n]
    by (auto simp del: byte_len_pos byte_len_0)
  have b0: "pl_nat_byte_at (nat_rep n) 0 = word_of_nat n"
  proof (rule unsigned_word_eqI)
    show "unat (pl_nat_byte_at (nat_rep n) 0) = unat (word_of_nat n :: u8)"
      by (simp add: byte_at_rep unsigned_of_nat take_bit_eq_mod)
  qed
  have le63: "(word_of_nat n :: u8) \<le> 63 \<longleftrightarrow> n \<le> 63" if "n < 256"
    using that by (simp add: word_le_nat_alt unsigned_of_nat take_bit_eq_mod)
  consider "n \<le> 63" | "63 < n" "?L \<le> 31" | "31 < ?L" by linarith
  then show ?thesis
  proof cases
    case 1
    then have "encode_nat S sha (nat_rep n) = swrite_u8 S (0x80 + word_of_nat n)"
      using L1 b0 le63 by (cases "n = 0") (simp_all add: encode_nat_def Let_def)
    then show ?thesis using emits_u8 runs_node[OF assms(1,2) body_smol_runs[OF 1]] by metis
  next
    case 2
    have L: "1 \<le> ?L" using 2 byte_len_0[of n] by (simp add: Suc_le_eq)
    have enc: "encode_nat S sha (nat_rep n) = wseq (swrite_u8 S (0xc0 OR word_of_nat ?L)) (encode_nat_bytes S (nat_rep n) ?L)"
      using 2 L L1 b0 le63 by (auto simp: encode_nat_def Let_def)
    have "runs content offset C N (decode_node C depth) ((0xc0 OR word_of_nat ?L) # nbytes n)
        (outv C (VNat (nat_rep n)), ninfo n) []"
      using medium_runs[OF assms(1) 2] by (intro runs_node[OF assms(1,2)]) (simp add: body_medium[OF L 2(2)])
    then show ?thesis using emits_seq[OF emits_u8 emits_nat_bytes] unfolding enc by fastforce
  next
    case 3
    let ?lw = "width_u64 (word_of_nat ?L)"
    have lw: "1 \<le> ?lw" "?lw \<le> 8" using width_spec[of "word_of_nat ?L"] width_le_8 by auto
    have enc: "encode_nat S sha (nat_rep n) = wseq (swrite_u8 S (0xe0 OR word_of_nat ?lw))
        (wseq (swrite_le S (word_of_nat ?L) ?lw) (encode_nat_bytes S (nat_rep n) ?L))"
      using 3 assms(3) by (auto simp: encode_nat_def Let_def)
    have len: "take ?lw (put64le (word_of_nat ?L)) = nbytes ?L"
      by (intro take_put64) (use 3 in linarith, use assms(3) in \<open>simp add: silo_consts\<close>)
    have "runs content offset C N (decode_node C depth) ((0xe0 OR word_of_nat ?lw) # nbytes ?L @ nbytes n)
        (outv C (VNat (nat_rep n)), ninfo n) []"
      using big_runs[OF assms(1) 3 assms(3)] by (intro runs_node[OF assms(1,2)]) (simp add: body_big[OF lw])
    then show ?thesis using emits_seq[OF emits_u8 emits_seq[OF emits_le emits_nat_bytes]] len unfolding enc by fastforce
  qed
qed

lemma u64_nat_codec:
  assumes "dec_ok R C" "depth \<le> PL_SILO_MAX_DEPTH" "a \<noteq> 0"
  shows "\<exists>bs. emits written room (encode_u64_nat S a) bs \<and>
    runs content offset C N (decode_node C depth) bs (outv C (VNat (nat_rep (unat a))), ninfo (unat a)) []"
proof (cases "unat a \<le> 63")
  case True
  then have "encode_u64_nat S a = swrite_u8 S (0x80 + word_of_nat (unat a))"
    by (simp add: encode_u64_nat_def word_le_nat_alt)
  then show ?thesis using emits_u8 runs_node[OF assms(1,2) body_smol_runs[OF True]] by metis
next
  case False
  let ?n = "unat a" and ?L = "pl_nat_byte_len (nat_rep (unat a))"
  have n: "0 < ?n" "?n < 2 ^ 64" "word_of_nat ?n = a" using False by auto
  have w: "width_u64 a = ?L" using width_byte_len[OF n(1,2)] n(3) by simp
  have L: "1 \<le> ?L" "?L \<le> 31" using w width_spec[of a] width_le_8[of a] by auto
  have enc: "encode_u64_nat S a = wseq (swrite_u8 S (0xc0 OR word_of_nat ?L)) (swrite_le S a ?L)"
    using False by (simp add: encode_u64_nat_def word_le_nat_alt w Let_def)
  have "runs content offset C N (decode_node C depth) ((0xc0 OR word_of_nat ?L) # nbytes ?n)
      (outv C (VNat (nat_rep ?n)), ninfo ?n) []"
    using medium_runs[OF assms(1), of ?n] False L
    by (intro runs_node[OF assms(1,2)]) (simp add: body_medium[OF L])
  moreover have "take ?L (put64le a) = nbytes ?n" using take_put64[OF n(1,2)] n(3) w by simp
  ultimately show ?thesis using emits_seq[OF emits_u8 emits_le[of a ?L]] unfolding enc by fastforce
qed

end

end
