(* ===== verification/Silo_Merkle.thy ===== *)
theory Silo_Merkle
  imports Silo_Nat
begin

text \<open>
  Round trip of Merkle nats. The encoder's node array and queue and the decoder's two lists are two
  views of one list of trees: the part of the hash tree not yet consumed, in leaf order, where a leaf
  is a hash the reader expects and a node is one not yet opened. After each leaf the first node is
  opened. \<open>credit\<close> is the reason every leaf is open by the time it is read: one node is opened per
  leaf, and on the way to any leaf there are never more nodes to open than leaves already read.
\<close>

subsection \<open>The tree\<close>

datatype mtree = MLeaf nat bytes | MNode nat nat bytes mtree mtree

fun tstart :: "mtree \<Rightarrow> nat" where
  "tstart (MLeaf s h) = s"
| "tstart (MNode s c h l r) = s"

fun tcount :: "mtree \<Rightarrow> nat" where
  "tcount (MLeaf s h) = 1"
| "tcount (MNode s c h l r) = c"

fun thash :: "mtree \<Rightarrow> bytes" where
  "thash (MLeaf s h) = h"
| "thash (MNode s c h l r) = h"

fun is_node :: "mtree \<Rightarrow> bool" where
  "is_node (MLeaf s h) = False"
| "is_node (MNode s c h l r) = True"

fun tdepth :: "mtree \<Rightarrow> nat" where
  "tdepth (MLeaf s h) = 0"
| "tdepth (MNode s c h l r) = Suc (max (tdepth l) (tdepth r))"

text \<open>A tree over \<open>leaf\<close>, the hash of each leaf.\<close>

fun tree_ok :: "(bytes \<Rightarrow> bytes) \<Rightarrow> (nat \<Rightarrow> bytes) \<Rightarrow> mtree \<Rightarrow> bool" where
  "tree_ok sha leaf (MLeaf s h) = (h = leaf s)"
| "tree_ok sha leaf (MNode s c h l r) =
     (tree_ok sha leaf l \<and> tree_ok sha leaf r \<and> 1 < c \<and> split_power c = Some (tcount l) \<and>
      tcount r = c - tcount l \<and> tstart l = s \<and> tstart r = s + tcount l \<and>
      h = silo_node_hash sha s c (thash l) (thash r))"

lemma tcount_pos: "tree_ok sha leaf t \<Longrightarrow> 0 < tcount t"
  by (cases t) auto

lemma node_count: "tree_ok sha leaf t \<Longrightarrow> 1 < tcount t \<longleftrightarrow> is_node t"
  by (cases t) auto

lemma split_children:
  assumes "tree_ok sha leaf (MNode s c h l r)"
  shows "0 < tcount l" "0 < tcount r" "tcount l + tcount r = c" "tcount r \<le> tcount l" "\<exists>j. tcount l = 2 ^ j"
proof -
  have c: "1 < c" "split_power c = Some (tcount l)" "tcount r = c - tcount l" using assms by auto
  obtain k where "split_power c = Some k" "0 < k" "k < c" "c \<le> 2 * k" "\<exists>j. k = 2 ^ j"
    using split_power_spec[OF c(1)] .
  with c show "0 < tcount l" "0 < tcount r" "tcount l + tcount r = c" "tcount r \<le> tcount l" "\<exists>j. tcount l = 2 ^ j"
    by auto
qed

text \<open>A tree of at most \<open>2 ^ j\<close> leaves is at most \<open>j\<close> deep.\<close>

lemma tree_depth: "tree_ok sha leaf t \<Longrightarrow> tcount t \<le> 2 ^ j \<Longrightarrow> tdepth t \<le> j"
proof (induction t arbitrary: j)
  case (MNode s c h l r)
  note ch = split_children[OF MNode.prems(1)]
  obtain i where i: "tcount l = 2 ^ i" using ch(5) by blast
  have "c \<le> 2 ^ j" using MNode.prems(2) by simp
  then have "2 ^ i < (2 :: nat) ^ j" using ch(2,3) i by linarith
  then have "i < j" by simp
  then obtain k where j: "j = Suc k" "i \<le> k" by (cases j) auto
  then have "(2 :: nat) ^ i \<le> 2 ^ k" by simp
  then have "tcount l \<le> 2 ^ k" "tcount r \<le> 2 ^ k" using i ch(4) by linarith+
  then show ?case using MNode j by simp
qed simp

subsection \<open>The list of unread trees\<close>

text \<open>\<open>covers a ts b\<close>: the trees hold the leaves \<open>a\<close> to \<open>b\<close> in order.\<close>

fun covers :: "nat \<Rightarrow> mtree list \<Rightarrow> nat \<Rightarrow> bool" where
  "covers a [] b = (a = b)"
| "covers a (t # ts) b = (tstart t = a \<and> covers (a + tcount t) ts b)"

fun open_first :: "mtree list \<Rightarrow> mtree list" where
  "open_first [] = []"
| "open_first (MLeaf s h # ts) = MLeaf s h # open_first ts"
| "open_first (MNode s c h l r # ts) = l # r # ts"

fun open_bytes :: "mtree list \<Rightarrow> bytes" where
  "open_bytes [] = []"
| "open_bytes (MLeaf s h # ts) = open_bytes ts"
| "open_bytes (MNode s c h l r # ts) = thash l @ thash r"

text \<open>The right siblings on the way to the first leaf, lowest first.\<close>

fun rights :: "mtree \<Rightarrow> mtree list" where
  "rights (MLeaf s h) = []"
| "rights (MNode s c h l r) = rights l @ [r]"

lemma covers_append: "covers a (xs @ ys) b \<longleftrightarrow> (\<exists>c. covers a xs c \<and> covers c ys b)"
  by (induction xs arbitrary: a) auto

lemma covers_le: "covers a ts b \<Longrightarrow> a \<le> b"
  by (induction ts arbitrary: a) force+

lemma covers_open:
  assumes "covers a ts b" "list_all (tree_ok sha leaf) ts"
  shows "covers a (open_first ts) b \<and> list_all (tree_ok sha leaf) (open_first ts)"
  using assms
proof (induction ts arbitrary: a rule: open_first.induct)
  case (3 s c h l r ts)
  then show ?case using split_children[of sha leaf s c h l r] by (auto simp: add.assoc)
qed auto

lemma covers_rights:
  "tree_ok sha leaf t \<Longrightarrow> covers (tstart t + 1) (rights t) (tstart t + tcount t) \<and>
    list_all (tree_ok sha leaf) (rights t)"
proof (induction t)
  case (MNode s c h l r)
  then show ?case using split_children[OF MNode.prems] by (auto simp: covers_append add.assoc)
qed simp

function credit :: "nat \<Rightarrow> mtree list \<Rightarrow> bool" where
  "credit c [] = True"
| "credit c (MLeaf s h # ts) = credit (Suc c) ts"
| "credit c (MNode s n h l r # ts) = (0 < c \<and> credit (c - 1) (l # r # ts))"
  by pat_completeness auto
termination by (relation "measure (\<lambda>(c, ts). sum_list (map (\<lambda>t. 2 * size t + 1) ts))") auto

lemma credit_open: "credit (Suc c) ts \<Longrightarrow> credit c (open_first ts)"
  by (induction ts arbitrary: c rule: open_first.induct) auto

lemma credit_tree: "tdepth t \<le> c \<Longrightarrow> credit (Suc c) ts \<Longrightarrow> credit c (t # ts)"
proof (induction t arbitrary: c ts)
  case (MNode s n h l r)
  then obtain c' where c: "c = Suc c'" "tdepth l \<le> c'" "tdepth r \<le> c'" by (cases c) auto
  then have "credit c (r # ts)" using MNode.IH(2)[of c ts] MNode.prems(2) by simp
  then show ?case using MNode.IH(1)[of c' "r # ts"] c by simp
qed simp

lemma rights_count: "tree_ok sha leaf t \<Longrightarrow> tcount t \<le> 2 ^ length (rights t)"
proof (induction t)
  case (MNode s c h l r)
  have "tcount l \<le> 2 ^ length (rights l)" using MNode by simp
  then show ?case using split_children(3,4)[OF MNode.prems] by simp
qed simp

lemma rights_credit:
  assumes "tree_ok sha leaf t" "credit (Suc c + length (rights t)) ts"
  shows "credit (Suc c) (rights t @ ts)"
  using assms
proof (induction t arbitrary: ts)
  case (MNode s n h l r)
  have "tcount r \<le> 2 ^ length (rights l)"
    using split_children(4)[OF MNode.prems(1)] rights_count[of sha leaf l] MNode.prems(1) by simp
  then have "tdepth r \<le> length (rights l)" using tree_depth[of sha leaf r] MNode.prems(1) by simp
  then have "credit (Suc c + length (rights l)) (r # ts)" using MNode.prems(2) by (intro credit_tree) auto
  then show ?case using MNode.IH(1)[of "r # ts"] MNode.prems(1) by simp
qed simp

subsection \<open>The encoder's array\<close>

function mtree_of :: "(bytes \<Rightarrow> bytes) \<Rightarrow> (nat \<Rightarrow> bytes) \<Rightarrow> nat \<Rightarrow> nat \<Rightarrow> mtree" where
  "mtree_of sha leaf start count =
     (case split_power count of
        None \<Rightarrow> MLeaf start (leaf start)
      | Some k \<Rightarrow>
          let l = mtree_of sha leaf start k; r = mtree_of sha leaf (start + k) (count - k)
          in MNode start count (silo_node_hash sha start count (thash l) (thash r)) l r)"
  by pat_completeness auto
termination
  by (relation "measure (\<lambda>(sha, leaf, start, count). count)") (auto dest: split_power_less)

declare mtree_of.simps [simp del]

lemma split_power_None: "split_power c = None \<longleftrightarrow> c \<le> 1"
  by (auto simp: split_power_def)

lemma mtree_of_ok:
  "0 < count \<Longrightarrow> tree_ok sha leaf (mtree_of sha leaf start count) \<and>
    tstart (mtree_of sha leaf start count) = start \<and> tcount (mtree_of sha leaf start count) = count"
proof (induction sha leaf start count rule: mtree_of.induct)
  case (1 sha leaf start count)
  show ?case
  proof (cases "split_power count")
    case None
    then have "count = 1" using "1.prems" by (simp add: split_power_None)
    then show ?thesis using None by (simp add: mtree_of.simps[of sha leaf start])
  next
    case (Some k)
    then have k: "0 < k" "k < count" using split_power_less by blast+
    then have "tree_ok sha leaf (mtree_of sha leaf start k) \<and> tstart (mtree_of sha leaf start k) = start \<and>
        tcount (mtree_of sha leaf start k) = k"
      "tree_ok sha leaf (mtree_of sha leaf (start + k) (count - k)) \<and>
        tstart (mtree_of sha leaf (start + k) (count - k)) = start + k \<and>
        tcount (mtree_of sha leaf (start + k) (count - k)) = count - k"
      using "1.IH"(1)[OF Some] "1.IH"(2)[OF Some refl] by simp_all
    then show ?thesis using Some k by (simp add: mtree_of.simps[of sha leaf start count] Let_def)
  qed
qed

fun holds :: "mnat_node list \<Rightarrow> nat \<Rightarrow> mtree \<Rightarrow> bool" where
  "holds nodes i (MLeaf s h) =
     (i < length nodes \<and> mn_start (nodes ! i) = s \<and> mn_count (nodes ! i) = 1 \<and> mn_hash (nodes ! i) = h)"
| "holds nodes i (MNode s c h l r) =
     (i < length nodes \<and> mn_start (nodes ! i) = s \<and> mn_count (nodes ! i) = c \<and> mn_hash (nodes ! i) = h \<and>
      mn_left (nodes ! i) < i \<and> mn_right (nodes ! i) < i \<and>
      holds nodes (mn_left (nodes ! i)) l \<and> holds nodes (mn_right (nodes ! i)) r)"

lemma holds_node:
  "holds nodes i t \<Longrightarrow> i < length nodes \<and> mn_start (nodes ! i) = tstart t \<and> mn_count (nodes ! i) = tcount t \<and>
    mn_hash (nodes ! i) = thash t"
  by (cases t) auto

lemma holds_append: "holds nodes i t \<Longrightarrow> holds (nodes @ xs) i t"
  by (induction t arbitrary: i) (auto simp: nth_append)

lemma build_holds:
  assumes "0 < count" "leaf = (\<lambda>i. silo_leaf_hash sha i (mnat_leaf_bytes v L i))"
  shows "\<exists>xs. mnat_build sha v L start count nodes = Some (length nodes + length xs - 1, nodes @ xs) \<and> xs \<noteq> [] \<and>
    holds (nodes @ xs) (length nodes + length xs - 1) (mtree_of sha leaf start count) \<and>
    mn_hash ((nodes @ xs) ! length nodes) = leaf start"
  using assms(1)
proof (induction count arbitrary: start nodes rule: less_induct)
  case (less count)
  show ?case
  proof (cases "count = 1")
    case True
    then show ?thesis using assms(2)
      by (subst mnat_build.simps, subst mtree_of.simps)
        (auto simp: split_power_def intro!: exI[of _ "[_]"])
  next
    case False
    then obtain k where k: "split_power count = Some k" "0 < k" "k < count"
      using less.prems split_power_spec[of count] by (metis Suc_lessI One_nat_def)
    obtain xs where xs: "mnat_build sha v L start k nodes = Some (length nodes + length xs - 1, nodes @ xs)" "xs \<noteq> []"
      "holds (nodes @ xs) (length nodes + length xs - 1) (mtree_of sha leaf start k)"
      "mn_hash ((nodes @ xs) ! length nodes) = leaf start"
      using less.IH[OF k(3,2)] by blast
    have "count - k < count" "0 < count - k" using k by auto
    then obtain ys where ys: "mnat_build sha v L (start + k) (count - k) (nodes @ xs) =
        Some (length (nodes @ xs) + length ys - 1, (nodes @ xs) @ ys)" "ys \<noteq> []"
      "holds ((nodes @ xs) @ ys) (length (nodes @ xs) + length ys - 1) (mtree_of sha leaf (start + k) (count - k))"
      using less.IH by blast
    let ?n2 = "nodes @ xs @ ys"
    let ?l = "length nodes + length xs - 1" and ?r = "length nodes + length xs + length ys - 1"
    let ?T1 = "mtree_of sha leaf start k" and ?T2 = "mtree_of sha leaf (start + k) (count - k)"
    define z where "z = \<lparr>mn_start = start, mn_count = count, mn_left = ?l, mn_right = ?r,
      mn_hash = silo_node_hash sha start count (mn_hash (?n2 ! ?l)) (mn_hash (?n2 ! ?r))\<rparr>"
    have h1: "holds ?n2 ?l ?T1" using holds_append[OF xs(3), of ys] by simp
    have h2: "holds ?n2 ?r ?T2" using ys(3) by (simp add: add.assoc)
    have b: "mnat_build sha v L start count nodes = Some (length ?n2, ?n2 @ [z])"
      using False k xs(1) ys(1) by (subst mnat_build.simps) (simp add: z_def add.assoc)
    have hz: "mn_hash z = silo_node_hash sha start count (thash ?T1) (thash ?T2)"
      using holds_node[OF h1] holds_node[OF h2] by (simp add: z_def)
    have T: "mtree_of sha leaf start count = MNode start count (silo_node_hash sha start count (thash ?T1) (thash ?T2)) ?T1 ?T2"
      using k(1) by (subst mtree_of.simps) (simp add: Let_def)
    have nz: "(?n2 @ [z]) ! length ?n2 = z" by (simp only: nth_append_length)
    have "0 < length xs" "0 < length ys" using xs(2) ys(2) by auto
    then have "?l < length ?n2" "?r < length ?n2" unfolding length_append by linarith+
    then have "holds (?n2 @ [z]) (length ?n2) (mtree_of sha leaf start count)"
      using holds_append[OF h1, of "[z]"] holds_append[OF h2, of "[z]"] hz
      unfolding T holds.simps nz by (simp add: z_def)
    then show ?thesis using b xs(2,4) by (intro exI[of _ "xs @ ys @ [z]"]) (auto simp: nth_append)
  qed
qed

end
