(* ===== verification/Silo_Mnat.thy ===== *)
theory Silo_Mnat
  imports Silo_Merkle
begin

text \<open>
  The encoder's and the decoder's loops over the leaves of a Merkle nat, run against each other: what
  the encoder writes for a list of unread trees is what the decoder reads for the same list, and both
  go on with the same list. The result is the round trip of nats of any size.
\<close>

subsection \<open>Writing with a result\<close>

definition emitsv :: "('c \<Rightarrow> bytes) \<Rightarrow> nat \<Rightarrow> ('c writer \<Rightarrow> string + ('a \<times> 'c writer)) \<Rightarrow> bytes \<Rightarrow> 'a \<Rightarrow> bool" where
  "emitsv written room f bs x \<longleftrightarrow>
     (\<forall>w y w'. f w = Inr (y, w') \<longrightarrow> y = x \<and>
        written (w_ctx w') = written (w_ctx w) @ bs \<and> w_pos w' = w_pos w + length bs) \<and>
     (\<forall>w. w_pos w = length (written (w_ctx w)) \<and> w_pos w + length bs \<le> room \<longrightarrow> (\<exists>w'. f w = Inr (x, w')))"

text \<open>A step without a result is one with the result \<open>()\<close>.\<close>

lemma emits_emitsv: "emits written room f bs \<longleftrightarrow> emitsv written room (\<lambda>w. rbind (f w) (\<lambda>w. Inr ((), w))) bs ()"
  by (auto simp: emits_def emitsv_def res_simps)

lemma emitsv_ret [simp]: "emitsv written room (\<lambda>w. Inr (x, w)) [] x"
  by (simp add: emitsv_def)

lemma emitsv_bind:
  assumes f: "emitsv written room f a x" and g: "emitsv written room (g x) b y"
  shows "emitsv written room (\<lambda>w. rbind (f w) (\<lambda>(x, w). g x w)) (a @ b) y"
proof -
  have part: "y' = y \<and> written (w_ctx w') = written (w_ctx w) @ a @ b \<and> w_pos w' = w_pos w + length (a @ b)"
    if ww: "rbind (f w) (\<lambda>(x, w). g x w) = Inr (y', w')" for w y' w'
  proof -
    obtain x' u where u: "f w = Inr (x', u)" "g x' u = Inr (y', w')" using ww by (auto simp: rbind_Inr_iff)
    then have "x' = x" "written (w_ctx u) = written (w_ctx w) @ a" "w_pos u = w_pos w + length a"
      using f unfolding emitsv_def by blast+
    moreover with u g have "y' = y" "written (w_ctx w') = written (w_ctx u) @ b" "w_pos w' = w_pos u + length b"
      unfolding emitsv_def by blast+
    ultimately show ?thesis by simp
  qed
  have "\<exists>w'. rbind (f w) (\<lambda>(x, w). g x w) = Inr (y, w')"
    if w: "w_pos w = length (written (w_ctx w))" "w_pos w + length (a @ b) \<le> room" for w
  proof -
    have "w_pos w + length a \<le> room" using w by simp
    then obtain u where u: "f w = Inr (x, u)" using f w(1) unfolding emitsv_def by blast
    then have "written (w_ctx u) = written (w_ctx w) @ a" "w_pos u = w_pos w + length a"
      using f unfolding emitsv_def by blast+
    then have "w_pos u = length (written (w_ctx u))" "w_pos u + length b \<le> room" using w by simp_all
    then obtain w' where "g x u = Inr (y, w')" using g unfolding emitsv_def by blast
    then show ?thesis using u by auto
  qed
  with part show ?thesis unfolding emitsv_def by auto
qed

lemma emitsv_seq:
  assumes "emits written room f a" "emitsv written room g b y"
  shows "emitsv written room (\<lambda>w. rbind (f w) g) (a @ b) y"
proof -
  have "(\<lambda>w. rbind (rbind (f w) (\<lambda>w. Inr ((), w))) (\<lambda>(x, w). g w)) = (\<lambda>w. rbind (f w) g)"
    by (auto simp: rbind_def split: sum.splits)
  then show ?thesis using emitsv_bind[where g = "\<lambda>_. g", OF assms(1)[unfolded emits_emitsv] assms(2)] by simp
qed

lemma emits_bindv:
  assumes "emitsv written room f a x" "emits written room (g x) b"
  shows "emits written room (\<lambda>w. rbind (f w) (\<lambda>(x, w). g x w)) (a @ b)"
proof -
  have "(\<lambda>w. rbind (f w) (\<lambda>(x, w). rbind (g x w) (\<lambda>w. Inr ((), w)))) =
      (\<lambda>w. rbind (rbind (f w) (\<lambda>(x, w). g x w)) (\<lambda>w. Inr ((), w)))"
    by (auto simp: rbind_def split: sum.splits)
  then show ?thesis using emitsv_bind[where g = "\<lambda>x w. rbind (g x w) (\<lambda>w. Inr ((), w))",
      OF assms(1) assms(2)[unfolded emits_emitsv]] unfolding emits_emitsv by simp
qed

subsection \<open>Ordered insertion\<close>

lemma while_split:
  assumes "\<forall>y \<in> set xs. P y" "\<forall>y \<in> set ys. \<not> P y"
  shows "takeWhile P (xs @ ys) = xs" "dropWhile P (xs @ ys) = ys"
  using assms by (auto simp: takeWhile_append dropWhile_append takeWhile_eq_Nil_iff dropWhile_eq_self_iff hd_in_set)

lemma covers_start:
  assumes "covers a ts b" "list_all (tree_ok sha leaf) ts" "t \<in> set ts"
  shows "a \<le> tstart t \<and> tstart t < b"
  using assms
proof (induction ts arbitrary: a)
  case (Cons u ts)
  have "0 < tcount u" using Cons.prems(2) tcount_pos by auto
  then show ?case using Cons covers_le[of "a + tcount u" ts b] by (cases "t = u") fastforce+
qed simp

text \<open>The decoder's two lists and the encoder's queue, as views of the unread trees.\<close>

definition exp_of :: "mtree list \<Rightarrow> expected_leaf list" where
  "exp_of ts = map (\<lambda>t. (tstart t, thash t)) (filter (\<lambda>t. \<not> is_node t) ts)"

definition un :: "mtree \<Rightarrow> unopened_node" where
  "un t = \<lparr>un_start = tstart t, un_count = tcount t, un_hash = thash t\<rparr>"

definition un_of :: "mtree list \<Rightarrow> unopened_node list" where
  "un_of ts = map un (filter is_node ts)"

definition queue_of :: "mnat_node list \<Rightarrow> nat list \<Rightarrow> mtree list \<Rightarrow> bool" where
  "queue_of nodes q ts \<longleftrightarrow> list_all2 (holds nodes) q (filter is_node ts)"

lemma view_simps [simp]:
  "exp_of [] = []" "un_of [] = []"
  "exp_of (xs @ ys) = exp_of xs @ exp_of ys" "un_of (xs @ ys) = un_of xs @ un_of ys"
  "exp_of (t # ts) = (if is_node t then exp_of ts else (tstart t, thash t) # exp_of ts)"
  "un_of (t # ts) = (if is_node t then un t # un_of ts else un_of ts)"
  "un_start (un t) = tstart t" "un_count (un t) = tcount t" "un_hash (un t) = thash t"
  by (simp_all add: exp_of_def un_of_def un_def)

lemma set_views:
  "x \<in> set (exp_of ts) \<Longrightarrow> \<exists>t \<in> set ts. fst x = tstart t"
  "u \<in> set (un_of ts) \<Longrightarrow> \<exists>t \<in> set ts. un_start u = tstart t"
  by (auto simp: exp_of_def un_of_def)

text \<open>\<open>gap xs s ys\<close>: a tree that starts at \<open>s\<close> belongs between the two lists.\<close>

definition gap :: "mtree list \<Rightarrow> nat \<Rightarrow> mtree list \<Rightarrow> bool" where
  "gap xs s ys \<longleftrightarrow> (\<forall>t \<in> set xs. tstart t < s) \<and> (\<forall>t \<in> set ys. s < tstart t)"

lemma insert_expected:
  assumes "gap xs s ys"
  shows "expected_insert (exp_of (xs @ ys)) (s, h) = Some (exp_of xs @ [(s, h)] @ exp_of ys)"
proof -
  have x: "\<forall>y \<in> set (exp_of xs). fst y < s" "\<forall>y \<in> set (exp_of ys). s < fst y"
    using assms set_views(1) unfolding gap_def by fastforce+
  then have w: "takeWhile (\<lambda>y. fst y < s) (exp_of xs @ exp_of ys) = exp_of xs"
    "dropWhile (\<lambda>y. fst y < s) (exp_of xs @ exp_of ys) = exp_of ys"
    by (intro while_split; fastforce)+
  have "\<not> (exp_of ys \<noteq> [] \<and> fst (hd (exp_of ys)) = s)" using x(2) by (cases "exp_of ys") auto
  then show ?thesis unfolding expected_insert_def Let_def view_simps fst_conv w by (simp only: if_False)
qed

lemma insert_unopened:
  assumes "gap xs (un_start u) ys"
  shows "unopened_insert (un_of (xs @ ys)) u = Some (un_of xs @ [u] @ un_of ys)"
proof -
  have x: "\<forall>y \<in> set (un_of xs). un_start y < un_start u" "\<forall>y \<in> set (un_of ys). un_start u < un_start y"
    using assms set_views(2) unfolding gap_def by fastforce+
  then have w: "takeWhile (\<lambda>y. un_start y < un_start u) (un_of xs @ un_of ys) = un_of xs"
    "dropWhile (\<lambda>y. un_start y < un_start u) (un_of xs @ un_of ys) = un_of ys"
    by (intro while_split; fastforce)+
  have "\<not> (un_of ys \<noteq> [] \<and> un_start (hd (un_of ys)) = un_start u)" using x(2) by (cases "un_of ys") auto
  then show ?thesis unfolding unopened_insert_def Let_def view_simps w by (simp only: if_False)
qed

lemma insert_child:
  assumes "gap xs (tstart t) ys" "m_index s < tstart t" "tree_ok sha leaf t"
    and "m_expected s = exp_of (xs @ ys)" "m_unopened s = un_of (xs @ ys)"
  shows "mnat_child (un t) s = Inr (s\<lparr>m_expected := exp_of (xs @ t # ys), m_unopened := un_of (xs @ t # ys)\<rparr>)"
proof -
  have c: "un_count (un t) = 1 \<longleftrightarrow> \<not> is_node t"
    using node_count[OF assms(3)] tcount_pos[OF assms(3)] by (cases "is_node t") auto
  show ?thesis
  proof (cases "is_node t")
    case True
    then show ?thesis using assms(2,4) c insert_unopened[of xs "un t" ys] assms(1)
      unfolding mnat_child_def assms(5) by simp
  next
    case False
    then show ?thesis using assms(2,5) c insert_expected[of xs "tstart t" ys "thash t"] assms(1)
      unfolding mnat_child_def assms(4) by simp
  qed
qed

lemma insert_queue:
  assumes "gap xs (tstart t) ys" "holds nodes i t" "queue_of nodes q (xs @ ys)"
  shows "is_node t \<Longrightarrow> queue_of nodes (node_queue_insert nodes i q) (xs @ t # ys)"
    "\<not> is_node t \<Longrightarrow> queue_of nodes q (xs @ t # ys)"
proof -
  obtain q1 q2 where q: "q = q1 @ q2" "queue_of nodes q1 xs" "queue_of nodes q2 ys"
    using assms(3) by (auto simp: queue_of_def list_all2_append2)
  have start: "\<exists>t \<in> set zs. mn_start (nodes ! j) = tstart t" if "queue_of nodes r zs" "j \<in> set r" for r zs j
  proof -
    obtain k where "k < length r" "r ! k = j" using \<open>j \<in> set r\<close> by (auto simp: in_set_conv_nth)
    then have "holds nodes j (filter is_node zs ! k)" "filter is_node zs ! k \<in> set zs"
      using \<open>queue_of nodes r zs\<close> unfolding queue_of_def
      by (auto simp: list_all2_conv_all_nth intro!: subsetD[OF filter_is_subset nth_mem])
    then show ?thesis using holds_node by blast
  qed
  have i: "mn_start (nodes ! i) = tstart t" using holds_node[OF assms(2)] by blast
  have "\<forall>j \<in> set q1. mn_start (nodes ! j) < mn_start (nodes ! i)"
    "\<forall>j \<in> set q2. \<not> mn_start (nodes ! j) < mn_start (nodes ! i)"
    using start[OF q(2)] start[OF q(3)] assms(1) i unfolding gap_def by fastforce+
  then have "node_queue_insert nodes i q = q1 @ [i] @ q2"
    unfolding node_queue_insert_def q(1) Let_def by (simp only: while_split)
  then show "is_node t \<Longrightarrow> queue_of nodes (node_queue_insert nodes i q) (xs @ t # ys)"
    using q assms(2) by (simp add: queue_of_def list_all2_appendI)
  show "\<not> is_node t \<Longrightarrow> queue_of nodes q (xs @ t # ys)" using assms(3) by (simp add: queue_of_def)
qed

subsection \<open>Opening a node\<close>

lemma covers_gap:
  assumes "covers a (xs @ t # ys) b" "list_all (tree_ok sha leaf) (xs @ t # ys)"
  shows "gap xs (tstart t) ys"
proof -
  obtain c where c: "covers a xs c" "tstart t = c" "covers (c + tcount t) ys b"
    using assms(1) by (auto simp: covers_append)
  have ok: "list_all (tree_ok sha leaf) xs" "list_all (tree_ok sha leaf) ys" "0 < tcount t"
    using assms(2) tcount_pos by auto
  show ?thesis unfolding gap_def
    using covers_start[OF c(1) ok(1)] covers_start[OF c(3) ok(2)] c(2) ok(3) by fastforce
qed

lemma open_cases:
  obtains "filter is_node ts = []" "open_first ts = ts" "open_bytes ts = []"
  | xs s c h l r ys where "ts = xs @ MNode s c h l r # ys" "filter is_node xs = []"
      "open_first ts = xs @ l # r # ys" "open_bytes ts = thash l @ thash r"
proof (induction ts arbitrary: thesis rule: open_first.induct)
  case (2 s h ts)
  show ?case
  proof (rule "2.IH")
    fix xs s' c h' l r ys
    assume "ts = xs @ MNode s' c h' l r # ys" "filter is_node xs = []"
      "open_first ts = xs @ l # r # ys" "open_bytes ts = thash l @ thash r"
    then show thesis using "2.prems"(2)[of "MLeaf s h # xs" s' c h' l r ys] by simp
  qed (use "2.prems"(1) in simp)
next
  case (3 s c h l r ts)
  then show ?case using "3.prems"(2)[of "[]" s c h l r ts] by simp
qed simp

lemma opened_gaps:
  assumes "covers a ts b" "list_all (tree_ok sha leaf) ts" "ts = xs @ MNode s c h l r # ys"
  shows "gap xs (tstart l) ys" "gap (xs @ [l]) (tstart r) ys"
    "list_all (tree_ok sha leaf) [l, r]" "a \<le> tstart l" "a \<le> tstart r"
proof -
  have o: "covers a (xs @ l # r # ys) b" "list_all (tree_ok sha leaf) (xs @ l # r # ys)"
  proof -
    have ok: "tree_ok sha leaf (MNode s c h l r)" using assms by simp
    obtain e where "covers a xs e" "covers e (MNode s c h l r # ys) b" using assms by (auto simp: covers_append)
    then show "covers a (xs @ l # r # ys) b" "list_all (tree_ok sha leaf) (xs @ l # r # ys)"
      using covers_open[of e "MNode s c h l r # ys" b sha leaf] assms by (auto simp: covers_append)
  qed
  then show "gap (xs @ [l]) (tstart r) ys" using covers_gap[of a "xs @ [l]" r ys b sha leaf] by simp
  show "gap xs (tstart l) ys" using covers_gap[OF o] by (simp add: gap_def)
  show "list_all (tree_ok sha leaf) [l, r]" "a \<le> tstart l" "a \<le> tstart r"
    using o covers_start[OF o, of l] covers_start[OF o, of r] by auto
qed

context byte_sink
begin

lemma open_emits:
  assumes q: "queue_of nodes q ts" and ts: "covers a ts b" "list_all (tree_ok sha leaf) ts"
  shows "\<exists>q'. emitsv written room (mnat_open S nodes q) (open_bytes ts) q' \<and> queue_of nodes q' (open_first ts)"
proof (rule open_cases[of ts])
  assume c: "filter is_node ts = []" "open_first ts = ts" "open_bytes ts = []"
  then have "q = []" using q by (simp add: queue_of_def)
  then have "mnat_open S nodes q = (\<lambda>w. Inr ([], w))" by (simp add: mnat_open_def fun_eq_iff)
  then show ?thesis using c q \<open>q = []\<close> by (auto intro!: exI[of _ "[]"])
next
  fix xs s c h l r ys
  assume e: "ts = xs @ MNode s c h l r # ys" "filter is_node xs = []"
    "open_first ts = xs @ l # r # ys" "open_bytes ts = thash l @ thash r"
  note g = opened_gaps[OF ts e(1)]
  obtain i rest where q': "q = i # rest" "holds nodes i (MNode s c h l r)" "queue_of nodes rest (xs @ ys)"
    using q e(1,2) by (auto simp: queue_of_def list_all2_Cons2)
  define il where "il = mn_left (nodes ! i)"
  define ir where "ir = mn_right (nodes ! i)"
  have h: "holds nodes il l" "holds nodes ir r" using q'(2) by (auto simp: il_def ir_def)
  have n: "1 < mn_count (nodes ! il) \<longleftrightarrow> is_node l" "1 < mn_count (nodes ! ir) \<longleftrightarrow> is_node r"
    "mn_hash (nodes ! il) = thash l" "mn_hash (nodes ! ir) = thash r"
    using holds_node[OF h(1)] holds_node[OF h(2)] node_count g(3) by auto
  define q1 where "q1 = (if is_node l then node_queue_insert nodes il rest else rest)"
  define q2 where "q2 = (if is_node r then node_queue_insert nodes ir q1 else q1)"
  have 1: "queue_of nodes q1 (xs @ l # ys)"
    using insert_queue[OF g(1) h(1) q'(3)] by (auto simp: q1_def)
  have 2: "queue_of nodes q2 (xs @ l # r # ys)"
    using insert_queue[OF g(2) h(2), of q1] 1 by (auto simp: q2_def)
  have "mnat_open S nodes q = (\<lambda>w. rbind (swrite S (thash l) w) (\<lambda>w. rbind (swrite S (thash r) w) (\<lambda>w. Inr (q2, w))))"
    using n by (simp add: mnat_open_def q'(1) fun_eq_iff q1_def q2_def Let_def flip: il_def ir_def)
  moreover have "emitsv written room (\<lambda>w. rbind (swrite S (thash l) w) (\<lambda>w. rbind (swrite S (thash r) w) (\<lambda>w. Inr (q2, w))))
      (thash l @ thash r @ []) q2"
    by (intro emitsv_seq emits_swrite emitsv_ret)
  ultimately show ?thesis using 2 e by auto
qed

end

lemma thash_length:
  "tree_ok sha leaf t \<Longrightarrow> (\<And>bs. length (sha bs) = 32) \<Longrightarrow> (\<And>i. length (leaf i) = 32) \<Longrightarrow> length (thash t) = 32"
  by (cases t) (auto simp: silo_node_hash_def)

context byte_source
begin

lemma runs_dread_crc:
  assumes "dec_ok R C" "length bs = n"
  shows "runs content offset C N (dread_crc C n crc) bs (bs, crc32c_update crc bs) []"
  unfolding dread_crc_def by (rule runs_bind0[OF runs_dread[OF assms]]) simp

lemma expand_runs:
  assumes C: "dec_ok R C" and ts: "covers (Suc (m_index s)) ts b" "list_all (tree_ok (c_sha C) leaf) ts"
    and s: "m_expected s = exp_of ts" "m_unopened s = un_of ts" and leaf: "\<And>i. length (leaf i) = 32"
  shows "\<exists>crc. runs content offset C N (mnat_expand C s) (open_bytes ts)
    (s\<lparr>m_expected := exp_of (open_first ts), m_unopened := un_of (open_first ts), m_crc := crc\<rparr>) []"
proof (rule open_cases[of ts])
  assume c: "filter is_node ts = []" "open_first ts = ts" "open_bytes ts = []"
  then have "mnat_expand C s = dret s" using s(2) by (simp add: mnat_expand_def un_of_def)
  moreover have "s = s\<lparr>m_expected := exp_of ts, m_unopened := un_of ts, m_crc := m_crc s\<rparr>" using s by (cases s) simp
  ultimately show ?thesis using c by (metis runs_ret)
next
  fix xs st c h l r ys
  assume e: "ts = xs @ MNode st c h l r # ys" "filter is_node xs = []"
    "open_first ts = xs @ l # r # ys" "open_bytes ts = thash l @ thash r"
  note g = opened_gaps[OF ts e(1)]
  have ok: "tree_ok (c_sha C) leaf (MNode st c h l r)" using ts(2) e(1) by simp
  have sha: "length (c_sha C bs) = 32" for bs using C by (simp add: dec_ok_def)
  have len: "length (thash l) = 32" "length (thash r) = 32" using ok sha leaf by (auto intro: thash_length)
  let ?crc = "crc32c_update (m_crc s) (thash l @ thash r)"
  let ?s0 = "s\<lparr>m_unopened := un_of (xs @ ys), m_crc := ?crc\<rparr>"
  let ?s1 = "?s0\<lparr>m_expected := exp_of (xs @ l # ys), m_unopened := un_of (xs @ l # ys)\<rparr>"
  let ?s2 = "?s1\<lparr>m_expected := exp_of ((xs @ [l]) @ r # ys), m_unopened := un_of ((xs @ [l]) @ r # ys)\<rparr>"
  have un: "m_unopened s = un (MNode st c h l r) # un_of (xs @ ys)" using s(2) e(1,2) by (simp add: un_of_def)
  have 1: "mnat_child (un l) ?s0 = Inr ?s1"
    by (rule insert_child[OF g(1)]) (use g(3,4) s(1) e(1) in auto)
  have 2: "mnat_child (un r) ?s1 = Inr ?s2"
    by (rule insert_child[OF g(2)]) (use g(3,5) in auto)
  have kids: "\<lparr>un_start = st, un_count = tcount l, un_hash = thash l\<rparr> = un l"
    "\<lparr>un_start = st + tcount l, un_count = c - tcount l, un_hash = thash r\<rparr> = un r"
    using ok by (auto simp: un_def)
  have rd: "runs content offset C N (dread_crc C 64 (m_crc s)) (thash l @ thash r) (thash l @ thash r, ?crc) []"
    by (rule runs_dread_crc[OF C]) (simp add: len)
  have run: "runs content offset C N (mnat_expand C s) (thash l @ thash r) ?s2 []"
    unfolding mnat_expand_def un list.case
    apply (rule runs_bind0[OF rd])
    unfolding prod.case Let_def
    apply (rule runs_check)
    using ok len apply (simp add: un_def)
    using ok kids 1 2 len apply (simp add: un_def runs_def)
    done
  have "?s2 = s\<lparr>m_expected := exp_of (xs @ l # r # ys), m_unopened := un_of (xs @ l # r # ys), m_crc := ?crc\<rparr>"
    by (simp del: view_simps)
  then show ?thesis using run unfolding e(3,4) by metis
qed

end

subsection \<open>One leaf\<close>

text \<open>
  The two loops in step: \<open>i\<close> leaves of the nat \<open>x\<close> of \<open>L\<close> bytes are done, \<open>ts\<close> is what remains, \<open>q\<close>
  the encoder's queue and \<open>s\<close> the decoder's state.
\<close>

definition leaf_of :: "(bytes \<Rightarrow> bytes) \<Rightarrow> nat \<Rightarrow> nat \<Rightarrow> bytes" where
  "leaf_of sha x i = silo_leaf_hash sha i (mnat_leaf_bytes (nat_rep x) (length (nbytes x)) i)"

definition leaf_count :: "nat \<Rightarrow> nat" where
  "leaf_count L = (L + PL_SILO_LEAF_BYTES - 1) div PL_SILO_LEAF_BYTES"

definition in_step :: "('r, 'h) dcfg \<Rightarrow> nat \<Rightarrow> mnat_node list \<Rightarrow> nat \<Rightarrow> mtree list \<Rightarrow> nat list \<Rightarrow> mnat_dec \<Rightarrow> bool" where
  "in_step C x nodes i ts q s \<longleftrightarrow>
     covers i ts (leaf_count (length (nbytes x))) \<and> list_all (tree_ok (c_sha C) (leaf_of (c_sha C) x)) ts \<and>
     credit 0 ts \<and> queue_of nodes q ts \<and> m_expected s = exp_of ts \<and> m_unopened s = un_of ts \<and>
     m_index s = i \<and> m_leaf s = [] \<and> m_off s = min (1024 * i) (length (nbytes x)) \<and>
     m_acc s = acc_at C (length (nbytes x)) (take (1024 * i) (nbytes x))"

lemma leaf_count_less: "i < leaf_count L \<longleftrightarrow> 1024 * i < L"
  by (simp add: leaf_count_def silo_consts) linarith

lemma leaf_bytes_of:
  "mnat_leaf_bytes (nat_rep x) L i = bytes_of (min 1024 (L - 1024 * i)) (x div 256 ^ (1024 * i))"
  by (simp add: mnat_leaf_bytes_def Let_def silo_consts nat_slice_rep min_def mult.commute)

lemma leaf_bytes: "mnat_leaf_bytes (nat_rep x) (length (nbytes x)) i = take 1024 (drop (1024 * i) (nbytes x))"
proof (rule bval_inject)
  let ?L = "length (nbytes x)"
  note m = leaf_bytes_of[of x ?L i]
  then show "length (mnat_leaf_bytes (nat_rep x) ?L i) = length (take 1024 (drop (1024 * i) (nbytes x)))"
    by (simp add: min.commute)
  have "bval (bytes_of ?L x) = x" using bval_nbytes[of x] by (simp add: nbytes_def)
  have "take 1024 (drop (1024 * i) (nbytes x)) = take (min 1024 (?L - 1024 * i)) (drop (1024 * i) (nbytes x))"
    by (simp add: min_def)
  then show "bval (mnat_leaf_bytes (nat_rep x) ?L i) = bval (take 1024 (drop (1024 * i) (nbytes x)))"
    by (simp only: m bval_bytes_of bval_take bval_drop bval_nbytes)
qed

lemma in_step_leaf:
  assumes "in_step C x nodes i ts q s" "1024 * i < length (nbytes x)"
  obtains ts' where "ts = MLeaf i (leaf_of (c_sha C) x i) # ts'"
proof (cases ts)
  case Nil
  then have "i = leaf_count (length (nbytes x))" using assms(1) by (simp add: in_step_def)
  then show ?thesis using assms(2) leaf_count_less[of i "length (nbytes x)"] by simp
next
  case (Cons t ts')
  then show ?thesis using assms(1) that by (cases t) (auto simp: in_step_def)
qed

lemma leaf_done_runs_aux:
  assumes C: "dec_ok R C" and S: "byte_source R content offset"
    and st: "covers (Suc i) ts' (leaf_count (length (nbytes x)))"
      "list_all (tree_ok (c_sha C) (leaf_of (c_sha C) x)) ts'"
    and s: "m_expected s = (i, leaf_of (c_sha C) x i) # exp_of ts'" "m_unopened s = un_of ts'" "m_index s = i"
      "m_leaf s = mnat_leaf_bytes (nat_rep x) (length (nbytes x)) i"
  shows "\<exists>crc. runs content offset C N (mnat_leaf_done C s) (open_bytes ts')
    (s\<lparr>m_expected := exp_of (open_first ts'), m_unopened := un_of (open_first ts'), m_crc := crc,
       m_index := Suc i, m_leaf := []\<rparr>) []"
proof -
  have l32: "length (leaf_of (c_sha C) x j) = 32" for j
    using C by (simp add: leaf_of_def silo_leaf_hash_def dec_ok_def)
  obtain crc where ex: "runs content offset C N (mnat_expand C (s\<lparr>m_expected := exp_of ts'\<rparr>)) (open_bytes ts')
      ((s\<lparr>m_expected := exp_of ts'\<rparr>)\<lparr>m_expected := exp_of (open_first ts'), m_unopened := un_of (open_first ts'),
        m_crc := crc\<rparr>) []"
    using byte_source.expand_runs[OF S C, of "s\<lparr>m_expected := exp_of ts'\<rparr>" ts' _ "leaf_of (c_sha C) x" N] st s l32
    by auto
  have "runs content offset C N (mnat_leaf_done C s) (open_bytes ts')
      (s\<lparr>m_expected := exp_of (open_first ts'), m_unopened := un_of (open_first ts'), m_crc := crc,
       m_index := Suc i, m_leaf := []\<rparr>) []"
    unfolding mnat_leaf_done_def s(1,3) expected_take.simps
    apply (simp only: if_True refl option.case prod.case)
    apply (rule runs_check)
    using s(4) apply (simp add: leaf_of_def)
    apply (rule runs_bind0[OF ex])
    using s(3) apply simp
    done
  then show ?thesis by blast
qed

lemma in_step_next:
  assumes "in_step C x nodes i (MLeaf i h # ts') q s" "1024 * i < length (nbytes x)"
    and "queue_of nodes q' (open_first ts')"
  shows "in_step C x nodes (Suc i) (open_first ts') q'
    (s\<lparr>m_acc := acc_at C (length (nbytes x)) (take (1024 * Suc i) (nbytes x)),
       m_off := min (1024 * Suc i) (length (nbytes x)),
       m_expected := exp_of (open_first ts'), m_unopened := un_of (open_first ts'), m_crc := crc,
       m_index := Suc i, m_leaf := []\<rparr>)"
proof -
  let ?n = "leaf_count (length (nbytes x))"
  have "covers (Suc i) ts' ?n" "list_all (tree_ok (c_sha C) (leaf_of (c_sha C) x)) ts'" "credit (Suc 0) ts'"
    using assms(1) by (auto simp: in_step_def)
  then have "covers (Suc i) (open_first ts') ?n" "list_all (tree_ok (c_sha C) (leaf_of (c_sha C) x)) (open_first ts')"
    "credit 0 (open_first ts')" using covers_open credit_open by blast+
  then show ?thesis using assms(3) by (simp add: in_step_def)
qed

context silo_codec
begin

lemma page_lockstep:
  assumes C: "dec_ok R C"
    and "in_step C x nodes i ts q s" "page_len - done = min (1024 * m) (length (nbytes x) - 1024 * i)"
  shows "\<exists>bs i' ts' q' s'.
    emitsv written room (mnat_segments S (nat_rep x) (length (nbytes x)) nodes page_len done (m_off s, 0, q)) bs
      (m_off s', 0, q') \<and>
    runs content offset C N (mnat_dsegs C (length (nbytes x)) page_len done s) bs s' [] \<and>
    in_step C x nodes i' ts' q' s' \<and> i' = min (i + m) (max i (leaf_count (length (nbytes x)))) \<and> m_max s' = m_max s"
  using assms(2,3)
proof (induction m arbitrary: i ts q s "done")
  case 0
  then have d: "\<not> done < page_len" by simp
  then have "mnat_segments S (nat_rep x) (length (nbytes x)) nodes page_len done (m_off s, 0, q) =
      (\<lambda>w. Inr ((m_off s, 0, q), w))" by (simp add: mnat_segments.simps fun_eq_iff)
  moreover have "mnat_dsegs C (length (nbytes x)) page_len done s = dret s" using d by (simp add: mnat_dsegs.simps)
  ultimately show ?case using 0 by (intro exI[of _ "[]"] exI[of _ i] exI[of _ ts] exI[of _ q] exI[of _ s]) auto
next
  case (Suc m)
  let ?L = "length (nbytes x)" and ?v = "nat_rep x"
  show ?case
  proof (cases "1024 * i < ?L")
    case False
    then have d: "\<not> done < page_len" using Suc.prems(2) by simp
    then have "mnat_segments S ?v ?L nodes page_len done (m_off s, 0, q) = (\<lambda>w. Inr ((m_off s, 0, q), w))"
      by (simp add: mnat_segments.simps fun_eq_iff)
    moreover have "mnat_dsegs C ?L page_len done s = dret s" using d by (simp add: mnat_dsegs.simps)
    moreover have "i = min (i + Suc m) (max i (leaf_count ?L))" using False leaf_count_less[of i ?L] by simp
    ultimately show ?thesis using Suc.prems
      by (intro exI[of _ "[]"] exI[of _ i] exI[of _ ts] exI[of _ q] exI[of _ s]) auto
  next
    case True
    define n where "n = min 1024 (?L - 1024 * i)"
    obtain ts' where ts: "ts = MLeaf i (leaf_of (c_sha C) x i) # ts'" using in_step_leaf[OF Suc.prems(1) True] .
    have st: "covers (Suc i) ts' (leaf_count ?L)" "list_all (tree_ok (c_sha C) (leaf_of (c_sha C) x)) ts'"
      "queue_of nodes q ts'" "m_expected s = (i, leaf_of (c_sha C) x i) # exp_of ts'" "m_unopened s = un_of ts'"
      "m_index s = i" "m_leaf s = []" "m_off s = 1024 * i" "m_acc s = acc_at C ?L (take (1024 * i) (nbytes x))"
      using Suc.prems(1) True by (auto simp: in_step_def ts queue_of_def)
    have n: "0 < n" "n \<le> 1024" "n \<le> page_len - done" "page_len - (done + n) = min (1024 * m) (?L - 1024 * Suc i)"
      using True Suc.prems(2) by (auto simp: n_def)
    have d: "done < page_len" using n by linarith
    have off: "1024 * i + n = min (1024 * Suc i) ?L" using True by (simp add: n_def)
    let ?lf = "mnat_leaf_bytes ?v ?L i"
    have lf: "?lf = take 1024 (drop (1024 * i) (nbytes x))" "length ?lf = n"
      by (rule leaf_bytes) (simp only: leaf_bytes n_def length_take length_drop min.commute)
    have seg: "(if PL_SILO_LEAF_BYTES - 0 < page_len - done then PL_SILO_LEAF_BYTES - 0 else page_len - done) = n"
      using True Suc.prems(2) by (auto simp: n_def silo_consts)
    obtain q' where q': "emitsv written room (mnat_open S nodes q) (open_bytes ts') q'" "queue_of nodes q' (open_first ts')"
      using open_emits[OF st(3,1,2)] by blast
    have chunk: "emits written room (nat_chunks S ?v (1024 * i) 0 n) ?lf"
      using emits_chunks[of x "1024 * i" 0 n] by (simp only: leaf_bytes_of n_def diff_zero add_0_right)
    let ?acc = "acc_at C ?L (take (1024 * Suc i) (nbytes x))"
    have tk: "take (1024 * Suc i) (nbytes x) = take (1024 * i) (nbytes x) @ ?lf"
      unfolding leaf_bytes using take_add[of "1024 * i" 1024 "nbytes x"] by (simp add: add.commute)
    have acc: "nat_accum_bytes (m_acc s) (m_off s) ?lf = ?acc"
      using acc_bytes[of "take (1024 * i) (nbytes x)" ?lf ?L C] True lf(2) n off st(8,9) unfolding tk by simp
    define s1 where "s1 = s\<lparr>m_acc := ?acc, m_leaf := ?lf, m_off := 1024 * i + n, m_crc := crc32c_update (m_crc s) ?lf\<rparr>"
    obtain crc where dn: "runs content offset C N (mnat_leaf_done C s1) (open_bytes ts')
      (s1\<lparr>m_expected := exp_of (open_first ts'), m_unopened := un_of (open_first ts'), m_crc := crc,
       m_index := Suc i, m_leaf := []\<rparr>) []"
      using leaf_done_runs_aux[OF C byte_source_axioms st(1,2), of s1 N] st by (auto simp: s1_def)
    define s2 where "s2 = s1\<lparr>m_expected := exp_of (open_first ts'), m_unopened := un_of (open_first ts'), m_crc := crc,
       m_index := Suc i, m_leaf := []\<rparr>"
    have s2: "in_step C x nodes (Suc i) (open_first ts') q' s2"
      using in_step_next[OF Suc.prems(1)[unfolded ts] True q'(2), of crc] unfolding s2_def s1_def off by simp
    obtain bs i' ts2 q2 s' where IH:
      "emitsv written room (mnat_segments S ?v ?L nodes page_len (done + n) (m_off s2, 0, q')) bs (m_off s', 0, q2)"
      "runs content offset C N (mnat_dsegs C ?L page_len (done + n) s2) bs s' []"
      "in_step C x nodes i' ts2 q2 s'" "i' = min (Suc i + m) (max (Suc i) (leaf_count ?L))" "m_max s' = m_max s2"
      using Suc.IH[OF s2 n(4)] by blast
    have off2: "m_off s2 = 1024 * i + n" by (simp add: s2_def s1_def)
    have enc: "mnat_segments S ?v ?L nodes page_len done (m_off s, 0, q) = (\<lambda>w. rbind (nat_chunks S ?v (1024 * i) 0 n w)
        (\<lambda>w. rbind (mnat_open S nodes q w) (\<lambda>(f, w). mnat_segments S ?v ?L nodes page_len (done + n) (m_off s2, 0, f) w)))"
    proof (rule ext)
      fix w
      have fin: "(0 + n = PL_SILO_LEAF_BYTES \<or> 1024 * i + n = ?L) = True" "(n = 0) = False"
        using True n(1) by (auto simp: n_def silo_consts)
      show "mnat_segments S ?v ?L nodes page_len done (m_off s, 0, q) w = rbind (nat_chunks S ?v (1024 * i) 0 n w)
        (\<lambda>w. rbind (mnat_open S nodes q w) (\<lambda>(f, w). mnat_segments S ?v ?L nodes page_len (done + n) (m_off s2, 0, f) w))"
        using d by (subst mnat_segments.simps) (simp only: st(8) off2 Let_def seg fin if_True if_False)
    qed
    have tot: "(if PL_SILO_LEAF_BYTES < ?L - i * PL_SILO_LEAF_BYTES then PL_SILO_LEAF_BYTES else ?L - i * PL_SILO_LEAF_BYTES) = n"
      by (simp add: n_def silo_consts mult.commute)
    have seg2: "(if n < page_len - done then n else page_len - done) = n" using n(3) by simp
    have dec: "mnat_dsegs C ?L page_len done s = dbind (dread_crc C n (m_crc s)) (\<lambda>(bs, crc).
        let s1 = s\<lparr>m_acc := nat_accum_bytes (m_acc s) (m_off s) bs, m_leaf := m_leaf s @ bs,
                        m_off := m_off s + n, m_crc := crc\<rparr>
             in dbind (if length (m_leaf s1) = n then mnat_leaf_done C s1 else dret s1) (\<lambda>s2.
                mnat_dsegs C ?L page_len (done + n) s2))"
      using d n(1) by (subst mnat_dsegs.simps)
        (simp only: st(6,7) tot seg2 Let_def list.size diff_zero if_True if_False less_nat_zero_code neq0_conv[symmetric] simp_thms)
    have "emitsv written room (mnat_segments S ?v ?L nodes page_len done (m_off s, 0, q)) (?lf @ open_bytes ts' @ bs) (m_off s', 0, q2)"
      unfolding enc by (rule emitsv_seq[OF chunk], rule emitsv_bind[OF q'(1)], rule IH(1))
    moreover have "runs content offset C N (mnat_dsegs C ?L page_len done s) (?lf @ open_bytes ts' @ bs) s' []"
      unfolding dec
      apply (rule runs_bind_js[OF runs_dread_crc[OF C lf(2)]])
      unfolding prod.case Let_def acc
      apply (rule runs_bind_js[where x = s2])
      using dn lf(2) st(7,8) unfolding s1_def s2_def apply simp
      by (rule IH(2)[unfolded s2_def s1_def])
    moreover have "i' = min (i + Suc m) (max i (leaf_count ?L))" using IH(4) True leaf_count_less[of i ?L] by simp
    moreover have "m_max s' = m_max s" using IH(5) by (simp add: s2_def s1_def)
    ultimately show ?thesis using IH(3) by blast
  qed
qed

end

subsection \<open>Pages\<close>

lemma getle_width:
  assumes "k \<le> m" "m < 2 ^ 64"
  shows "unat (getle (take (width_u64 (word_of_nat m)) (put64le (word_of_nat k)))) = k"
proof -
  let ?w = "width_u64 (word_of_nat m)"
  have m: "unat (word_of_nat m :: u64) = m" "unat (word_of_nat k :: u64) = k"
    using assms by (simp_all add: unsigned_of_nat take_bit_eq_mod)
  have "k < 256 ^ ?w" using width_spec[of "word_of_nat m"] m assms(1) by simp
  then show ?thesis using width_le_8[of "word_of_nat m"]
    by (simp add: getle_value put64le_bytes take_bytes_of m bval_bytes_of)
qed

definition max_page :: "nat \<Rightarrow> nat" where
  "max_page L = (if L < PL_SILO_PAGE_BYTES then L else PL_SILO_PAGE_BYTES)"

context silo_codec
begin

lemma pages_finished:
  assumes st: "in_step C x nodes i ts q s" "length (nbytes x) \<le> 1024 * i" "0 < length (nbytes x)"
    "m_max s = (if i = 0 then 0 else max_page (length (nbytes x)))"
  shows "\<exists>bs i' ts' q' s'.
    emitsv written room (mnat_pages fuel S (nat_rep x) (length (nbytes x)) nodes pw (m_off s, 0, q)) bs q' \<and>
    runs content offset C N (mnat_dpages fuel C (length (nbytes x)) pw False s) bs s' [] \<and>
    in_step C x nodes i' ts' q' s' \<and> length (nbytes x) \<le> 1024 * i' \<and> m_max s' = max_page (length (nbytes x))"
proof -
  have "i \<noteq> 0" using st(2,3) by (cases i) auto
  moreover have "\<not> m_off s < length (nbytes x)" using st by (auto simp: in_step_def)
  moreover from this have "mnat_pages fuel S (nat_rep x) (length (nbytes x)) nodes pw (m_off s, 0, q) = (\<lambda>w. Inr (q, w))"
    "mnat_dpages fuel C (length (nbytes x)) pw False s = dret s" by (simp_all add: mnat_pages.simps mnat_dpages.simps fun_eq_iff)
  ultimately show ?thesis
    using st by (intro exI[of _ "[]"] exI[of _ i] exI[of _ ts] exI[of _ q] exI[of _ s]) auto
qed

lemma pages_lockstep:
  assumes C: "dec_ok R C" and L: "0 < length (nbytes x)" "length (nbytes x) \<le> PL_SILO_MAX_NAT_BYTES"
    and pw: "pw = width_u64 (word_of_nat (max_page (length (nbytes x))))"
    and "in_step C x nodes i ts q s" "length (nbytes x) - m_off s \<le> fuel"
      "m_max s = (if i = 0 then 0 else max_page (length (nbytes x)))"
  shows "\<exists>bs i' ts' q' s'.
    emitsv written room (mnat_pages fuel S (nat_rep x) (length (nbytes x)) nodes pw (m_off s, 0, q)) bs q' \<and>
    runs content offset C N (mnat_dpages fuel C (length (nbytes x)) pw False s) bs s' [] \<and>
    in_step C x nodes i' ts' q' s' \<and> length (nbytes x) \<le> 1024 * i' \<and> m_max s' = max_page (length (nbytes x))"
  using assms(5-)
proof (induction fuel arbitrary: i ts q s)
  case 0
  then have "length (nbytes x) \<le> 1024 * i" by (auto simp: in_step_def)
  then show ?case using pages_finished[OF 0(1) _ L(1) 0(3), of 0 pw N] 0 by blast
next
  case (Suc fuel)
  let ?L = "length (nbytes x)" and ?v = "nat_rep x"
  show ?case
  proof (cases "1024 * i < ?L")
    case False
    then show ?thesis using pages_finished[OF Suc.prems(1) _ L(1) Suc.prems(3)] by (simp only: not_less)
  next
    case True
    define P where "P = min 65536 (?L - 1024 * i)"
    have off: "m_off s = 1024 * i" using Suc.prems(1) True by (simp add: in_step_def)
    have P: "P \<noteq> 0" "P \<le> max_page ?L" "P \<le> PL_SILO_MAX_NAT_BYTES" "P \<le> ?L - m_off s"
      "max (m_max s) P = max_page ?L"
      using True L(2) off Suc.prems(3) by (auto simp: P_def max_page_def silo_consts)
    have cap: "(if PL_SILO_PAGE_BYTES < ?L - 1024 * i then PL_SILO_PAGE_BYTES else ?L - 1024 * i) = P"
      by (simp add: P_def silo_consts)
    let ?pb = "take pw (put64le (word_of_nat P))"
    have pb: "length ?pb = pw" "unat (getle ?pb) = P"
      using width_le_8[of "word_of_nat (max_page ?L)"] getle_width[OF P(2)] by (simp_all add: pw max_page_def silo_consts)
    define s0 where "s0 = s\<lparr>m_max := max (m_max s) P, m_crc := crc32c_update 0xFFFFFFFF ?pb\<rparr>"
    have s0: "in_step C x nodes i ts q s0" "m_off s0 = 1024 * i" using Suc.prems(1) off by (simp_all add: s0_def in_step_def)
    obtain bs i1 ts1 q1 s1 where pg:
      "emitsv written room (mnat_segments S ?v ?L nodes P 0 (m_off s0, 0, q)) bs (m_off s1, 0, q1)"
      "runs content offset C N (mnat_dsegs C ?L P 0 s0) bs s1 []" "in_step C x nodes i1 ts1 q1 s1"
      "i1 = min (i + 64) (max i (leaf_count ?L))" "m_max s1 = m_max s0"
      using page_lockstep[OF C s0(1), of P 0 64 N] by (auto simp: P_def)
    have i1: "i < i1" using pg(4) True leaf_count_less[of i ?L] by simp
    have "?L - m_off s1 \<le> fuel" "m_max s1 = (if i1 = 0 then 0 else max_page ?L)"
      using Suc.prems(2) i1 pg(3,5) off P(5) True by (auto simp: in_step_def s0_def)
    with Suc.IH[OF pg(3)] obtain bs2 i' ts' q' s' where IH:
      "emitsv written room (mnat_pages fuel S ?v ?L nodes pw (m_off s1, 0, q1)) bs2 q'"
      "runs content offset C N (mnat_dpages fuel C ?L pw False s1) bs2 s' []"
      "in_step C x nodes i' ts' q' s'" "?L \<le> 1024 * i'" "m_max s' = max_page ?L" by blast
    have enc: "mnat_pages (Suc fuel) S ?v ?L nodes pw (m_off s, 0, q) = (\<lambda>w. rbind (swrite_le S (word_of_nat P) pw w)
        (\<lambda>w. rbind (mnat_segments S ?v ?L nodes P 0 (m_off s0, 0, q) w) (\<lambda>(st, w). mnat_pages fuel S ?v ?L nodes pw st w)))"
      using True by (intro ext, subst mnat_pages.simps) (simp only: off s0(2) cap Let_def nat.case if_True)
    have dec: "mnat_dpages (Suc fuel) C ?L pw False s = dbind (dread_crc C pw 0xFFFFFFFF) (\<lambda>(pbuf, crc).
          let page_len = unat (getle pbuf) in
          dbind (drequire (page_len \<noteq> 0 \<and> page_len \<le> PL_SILO_MAX_NAT_BYTES \<and> page_len \<le> ?L - m_off s)
                   ''invalid MNAT page payload length'') (\<lambda>_.
          dbind (drequire (\<not> (c_canonical C \<and> page_len \<noteq> P))
                   ''noncanonical MNAT page payload length'') (\<lambda>_.
          dbind (mnat_dsegs C ?L page_len 0 (s\<lparr>m_max := max (m_max s) page_len, m_crc := crc\<rparr>)) (\<lambda>s.
          dbind (dret ()) (\<lambda>_. mnat_dpages fuel C ?L pw False s)))))"
      using True by (subst mnat_dpages.simps) (simp only: off cap Let_def nat.case if_True if_False)
    have "emitsv written room (mnat_pages (Suc fuel) S ?v ?L nodes pw (m_off s, 0, q)) (?pb @ bs @ bs2) q'"
      unfolding enc by (rule emitsv_seq[OF emits_le], rule emitsv_bind[OF pg(1)], rule IH(1))
    moreover have "runs content offset C N (mnat_dpages (Suc fuel) C ?L pw False s) (?pb @ bs @ bs2) s' []"
      unfolding dec
      apply (rule runs_bind_js[OF runs_dread_crc[OF C pb(1)]])
      unfolding prod.case Let_def pb(2)
      apply (rule runs_check)
      using P apply simp
      apply (rule runs_check)
       apply simp
      apply (rule runs_bind_js[OF pg(2)[unfolded s0_def]])
      using runs_bind_js[OF runs_ret, of content offset C N "\<lambda>_. mnat_dpages fuel C ?L pw False s1" "()" bs2 s' "[]"] IH(2)
      by simp
    ultimately show ?thesis using IH(3-5) by blast
  qed
qed

end

subsection \<open>The initial proof\<close>

fun path_bytes :: "mtree \<Rightarrow> bytes" where
  "path_bytes (MLeaf s h) = []"
| "path_bytes (MNode s c h l r) = thash r @ path_bytes l"

fun path_of :: "mtree \<Rightarrow> proof_sibling list" where
  "path_of (MLeaf s h) = []"
| "path_of (MNode s c h l r) =
     \<lparr>ps_start = tcount l, ps_count = c - tcount l, ps_parent = c, ps_hash = thash r\<rparr> # path_of l"

context byte_sink
begin

lemma path_emits:
  assumes "tree_ok sha leaf t" "holds nodes cur t" "queue_of nodes q ts"
    and "covers (tstart t + tcount t) ts b" "list_all (tree_ok sha leaf) ts"
  shows "\<exists>q'. emitsv written room (mnat_path S nodes cur q) (path_bytes t) q' \<and> queue_of nodes q' (rights t @ ts)"
  using assms
proof (induction t arbitrary: cur q ts)
  case (MLeaf s h)
  then have "mnat_path S nodes cur q = (\<lambda>w. Inr (q, w))"
    by (intro ext, subst mnat_path.simps) simp
  then show ?case using MLeaf.prems(3) by (auto intro!: exI[of _ q])
next
  case (MNode s c h l r)
  define i where "i = mn_right (nodes ! cur)"
  define j where "j = mn_left (nodes ! cur)"
  have h: "holds nodes j l" "holds nodes i r" "j < cur" "mn_count (nodes ! cur) = c" using MNode.prems(2)
    by (auto simp: i_def j_def)
  have ok: "tree_ok sha leaf l" "tree_ok sha leaf r" "1 < c" "tstart r = tstart l + tcount l"
    "tstart r + tcount r = s + c" using MNode.prems(1) split_children[OF MNode.prems(1)] by auto
  have cov: "covers (tstart r) (r # ts) b" "list_all (tree_ok sha leaf) (r # ts)"
    using MNode.prems(4,5) ok by auto
  have g: "gap [] (tstart r) ts" using covers_gap[of "tstart r" "[]" r ts b sha leaf] cov by simp
  have n: "1 < mn_count (nodes ! i) \<longleftrightarrow> is_node r" "mn_hash (nodes ! i) = thash r"
    using holds_node[OF h(2)] node_count ok by auto
  define q1 where "q1 = (if is_node r then node_queue_insert nodes i q else q)"
  have "queue_of nodes q1 (r # ts)" using insert_queue[OF g h(2), of q] MNode.prems(3) by (auto simp: q1_def)
  then obtain q' where q': "emitsv written room (mnat_path S nodes j q1) (path_bytes l) q'"
    "queue_of nodes q' (rights l @ r # ts)"
    using MNode.IH(1)[OF ok(1) h(1), of q1 "r # ts"] cov ok(4) by metis
  have "mnat_path S nodes cur q = (\<lambda>w. rbind (swrite S (thash r) w) (\<lambda>w. mnat_path S nodes j q1 w))"
    using h ok n by (intro ext, subst mnat_path.simps) (simp add: Let_def q1_def flip: i_def j_def)
  then have "emitsv written room (mnat_path S nodes cur q) (path_bytes (MNode s c h l r)) q'"
    using emitsv_seq[OF emits_swrite q'(1)] by simp
  then show ?case using q'(2) by auto
qed

end

lemma runs_proof:
  assumes S: "byte_source R content offset" and C: "dec_ok R C"
    and "tree_ok (c_sha C) leaf t" "\<And>i. length (leaf i) = 32"
  shows "runs content offset C N (mnat_proof C (tcount t)) (path_bytes t) (path_of t) []"
  using assms(3)
proof (induction t)
  case (MLeaf s h)
  then show ?case by (simp add: mnat_proof.simps)
next
  case (MNode s c h l r)
  have ok: "tree_ok (c_sha C) leaf l" "tree_ok (c_sha C) leaf r" "1 < c" "split_power c = Some (tcount l)"
    using MNode.prems by auto
  have len: "length (thash r) = 32" using thash_length[OF ok(2)] C assms(4) by (simp add: dec_ok_def)
  have IH: "runs content offset C N (mnat_proof C (tcount l)) (path_bytes l) (path_of l) []" using MNode.IH ok by simp
  have eq: "mnat_proof C c = dbind (dread C 32) (\<lambda>h. dbind (mnat_proof C (tcount l)) (\<lambda>path.
      dret (\<lparr>ps_start = tcount l, ps_count = c - tcount l, ps_parent = c, ps_hash = h\<rparr> # path)))"
    using ok by (subst mnat_proof.simps) simp
  show ?case unfolding tcount.simps path_bytes.simps path_of.simps eq
    by (rule runs_bind_js[OF byte_source.runs_dread[OF S C len]], rule runs_bind0[OF IH]) simp
qed

lemma fold_path:
  "tree_ok sha leaf t \<Longrightarrow> tstart t = 0 \<Longrightarrow> mnat_fold sha (path_of t) (leaf 0) = thash t"
  by (induction t) (auto simp: mnat_fold_def)

lemma frontier_path:
  assumes "tree_ok sha leaf t" "tstart t = 0" "covers (tcount t) ts b" "list_all (tree_ok sha leaf) ts"
  shows "mnat_frontier (path_of t) ((0, h0) # exp_of ts) (un_of ts) =
    Some ((0, h0) # exp_of (rights t @ ts), un_of (rights t @ ts))"
  using assms
proof (induction t arbitrary: ts)
  case (MNode s c h l r)
  have ok: "tree_ok sha leaf l" "tree_ok sha leaf r" "tstart r = tcount l" "tcount r = c - tcount l" "tstart l = 0"
    "0 < tcount l" "tcount l + tcount r = c" using MNode.prems(1,2) split_children[OF MNode.prems(1)] by auto
  have cov: "covers (tcount l) (r # ts) b" "list_all (tree_ok sha leaf) (r # ts)"
    using MNode.prems(3,4) ok by auto
  have g: "gap [] (tstart r) ts" "gap [MLeaf 0 h0] (tstart r) ts"
    using covers_gap[of "tcount l" "[]" r ts b sha leaf] cov ok(3,6) by (auto simp: gap_def)
  have IH: "mnat_frontier (path_of l) ((0, h0) # exp_of (r # ts)) (un_of (r # ts)) =
      Some ((0, h0) # exp_of (rights l @ r # ts), un_of (rights l @ r # ts))"
    using MNode.IH(1)[OF ok(1,5) cov] .
  have un: "\<lparr>un_start = tcount l, un_count = c - tcount l, un_hash = thash r\<rparr> = un r"
    using ok by (simp add: un_def)
  show ?case
  proof (cases "is_node r")
    case True
    then have "c - tcount l \<noteq> 1" using node_count[OF ok(2)] ok(4) by simp
    then show ?thesis using True IH insert_unopened[of "[]" "un r" ts] g un by simp
  next
    case False
    then have "c - tcount l = 1" using node_count[OF ok(2)] tcount_pos[OF ok(2)] ok(4) by simp
    then show ?thesis using False IH insert_expected[OF g(2), of "thash r"] ok(3) by simp
  qed
qed simp

subsection \<open>The bit length\<close>

lemma byte_bits_range:
  "unat b < 2 ^ byte_bits b \<and> (b \<noteq> 0 \<longrightarrow> 1 \<le> byte_bits b \<and> 2 ^ (byte_bits b - 1) \<le> unat b)"
proof (induction b rule: byte_bits.induct)
  case (1 b)
  let ?h = "drop_bit 1 b"
  have h: "unat ?h = unat b div 2" unfolding unat_drop_bit_eq by (simp add: drop_bit_eq_div)
  show ?case
  proof (cases "b = 0")
    case False
    have k: "byte_bits b = Suc (byte_bits ?h)" using False by (subst byte_bits.simps) simp
    have pos: "0 < unat b" using False by (simp add: unat_gt_0)
    show ?thesis
    proof (cases "?h = 0")
      case True
      then have "unat b div 2 = 0" using h by simp
      moreover have "byte_bits ?h = 0" using True by (subst byte_bits.simps) simp
      ultimately show ?thesis using k pos by simp
    next
      case nz: False
      then have IH: "unat b div 2 < 2 ^ byte_bits ?h" "1 \<le> byte_bits ?h" "2 ^ (byte_bits ?h - 1) \<le> unat b div 2"
        using 1[OF False] h by auto
      obtain j where j: "byte_bits ?h = Suc j" using IH(2) by (cases "byte_bits ?h") auto
      have "unat b < 2 * (2 * 2 ^ j)" "2 * 2 ^ j \<le> unat b"
        using IH(1,3) unfolding j power_Suc diff_Suc_1 by linarith+
      then show ?thesis unfolding k j by simp
    qed
  qed (simp add: byte_bits.simps)
qed

lemma byte_bits_spec:
  assumes "b \<noteq> (0 :: u8)"
  shows "1 \<le> byte_bits b \<and> byte_bits b \<le> 8 \<and> b AND NOT (push_bit (byte_bits b) 1 - 1) = 0 \<and>
    b AND push_bit (byte_bits b - 1) 1 \<noteq> 0"
proof -
  let ?k = "byte_bits b"
  have k: "unat b < 2 ^ ?k" "1 \<le> ?k" "2 ^ (?k - 1) \<le> unat b" using byte_bits_range[of b] assms by auto
  have "2 ^ (?k - 1) < (2 :: nat) ^ 8" using le_less_trans[OF k(3) unat_u8_less] by simp
  then have "?k - 1 < 8" by (rule power_less_imp_less_exp[rotated]) simp
  moreover have "b AND NOT (push_bit ?k 1 - 1) = 0"
  proof (rule bit_word_eqI)
    fix j
    have "\<not> bit (unat b) j \<or> j < ?k" using bit_less[OF k(1), of j] by auto
    then show "bit (b AND NOT (push_bit ?k 1 - 1)) j = bit (0 :: u8) j"
      by (auto simp: bit_simps bit_unsigned_iff simp flip: mask_eq_exp_minus_1)
  qed
  moreover have "bit b (?k - 1)"
  proof -
    have "2 ^ ?k = 2 * (2 :: nat) ^ (?k - 1)" using k(2) by (cases ?k) auto
    then have "unat b div 2 ^ (?k - 1) = 1" using k by (intro div_nat_eqI) auto
    then have "bit (unat b) (?k - 1)" by (simp add: bit_iff_odd)
    then show ?thesis by (simp add: bit_unsigned_iff)
  qed
  then have "bit (b AND push_bit (?k - 1) 1) (?k - 1)" using \<open>?k - 1 < 8\<close> by (simp add: bit_simps)
  then have "b AND push_bit (?k - 1) 1 \<noteq> 0" by (metis bit_0_eq bot_apply bot_bool_def)
  ultimately show ?thesis using k(2) by simp
qed

lemma bit_length_eq:
  assumes "x \<noteq> 0"
  shows "nat_bit_length (nat_rep x) (length (nbytes x)) = (length (nbytes x) - 1) * 8 + byte_bits (last (nbytes x))"
proof -
  let ?L = "length (nbytes x)"
  have L: "?L \<noteq> 0" using assms by (simp add: length_0_conv del: length_nbytes)
  have "nat_slice (nat_rep x) 0 ?L ! (?L - 1) = pl_nat_byte_at (nat_rep x) (?L - 1)"
    using L by (simp add: nat_slice_def del: length_nbytes)
  moreover have "nat_slice (nat_rep x) 0 ?L = nbytes x" by (simp add: nat_slice_rep nbytes_def)
  moreover have "last (nbytes x) = nbytes x ! (?L - 1)" using assms by (simp add: last_conv_nth)
  ultimately have "pl_nat_byte_at (nat_rep x) (?L - 1) = last (nbytes x)" by simp
  then show ?thesis using L by (simp only: nat_bit_length_def if_False)
qed

lemma bit_length_spec:
  assumes "x \<noteq> 0" "B = nat_bit_length (nat_rep x) (length (nbytes x))"
  shows "0 < B" "B div 8 + (if B mod 8 \<noteq> 0 then 1 else 0) = length (nbytes x)" "B \<le> 8 * length (nbytes x)"
    "last (nbytes x) AND NOT (push_bit ((B - 1) mod 8 + 1) 1 - 1) = 0"
    "last (nbytes x) AND push_bit ((B - 1) mod 8) 1 \<noteq> 0"
proof -
  define k where "k = byte_bits (last (nbytes x))"
  have k: "1 \<le> k" "k \<le> 8" "last (nbytes x) AND NOT (push_bit k 1 - 1) = 0" "last (nbytes x) AND push_bit (k - 1) 1 \<noteq> 0"
    using byte_bits_spec[OF last_nbytes[OF assms(1)]] unfolding k_def by simp_all
  obtain m where m: "length (nbytes x) = Suc m" using assms(1) by (cases "nbytes x") auto
  have B: "B = m * 8 + k" using bit_length_eq[OF assms(1)] assms(2) unfolding m k_def by simp
  have top_bit: "(B - 1) mod 8 = k - 1"
  proof -
    have "B - 1 = (k - 1) + m * 8" using k(1) B by simp
    then have "(B - 1) mod 8 = (k - 1) mod 8" by (metis mod_mult_self1 mult.commute)
    then show ?thesis using k(1,2) by simp
  qed
  show "0 < B" "B \<le> 8 * length (nbytes x)" using k(1,2) B unfolding m by simp_all
  show "B div 8 + (if B mod 8 \<noteq> 0 then 1 else 0) = length (nbytes x)"
    using k(1,2) B unfolding m by (cases "k = 8") simp_all
  show "last (nbytes x) AND NOT (push_bit ((B - 1) mod 8 + 1) 1 - 1) = 0"
    "last (nbytes x) AND push_bit ((B - 1) mod 8) 1 \<noteq> 0"
    unfolding top_bit using k by simp_all
qed

subsection \<open>Nats of any size\<close>

context silo_codec
begin

lemma mnat_start:
  assumes C: "dec_ok R C" and x: "x \<noteq> 0"
    and b: "mnat_build (c_sha C) (nat_rep x) (length (nbytes x)) 0 (leaf_count (length (nbytes x))) [] = Some (root, nodes)"
  shows "\<exists>pb q. mn_hash (nodes ! 0) = leaf_of (c_sha C) x 0 \<and> length (mn_hash (nodes ! root)) = 32 \<and>
    emitsv written room (mnat_path S nodes root []) pb q \<and>
    (\<exists>path. runs content offset C N (mnat_proof C (leaf_count (length (nbytes x)))) pb path [] \<and>
      mnat_fold (c_sha C) path (leaf_of (c_sha C) x 0) = mn_hash (nodes ! root) \<and>
      (\<exists>ts. mnat_frontier path [(0, leaf_of (c_sha C) x 0)] [] = Some (exp_of ts, un_of ts) \<and>
        (\<forall>s. m_expected s = exp_of ts \<and> m_unopened s = un_of ts \<and> m_index s = 0 \<and> m_leaf s = [] \<and> m_off s = 0 \<and>
          m_acc s = acc_at C (length (nbytes x)) [] \<longrightarrow> in_step C x nodes 0 ts q s)))"
proof -
  let ?L = "length (nbytes x)" and ?leaf = "leaf_of (c_sha C) x"
  define t where "t = mtree_of (c_sha C) ?leaf 0 (leaf_count ?L)"
  have n: "0 < leaf_count ?L" using x leaf_count_less[of 0 ?L] by simp
  have ok: "tree_ok (c_sha C) ?leaf t" "tstart t = 0" "tcount t = leaf_count ?L"
    using mtree_of_ok[OF n, of "c_sha C" ?leaf 0] unfolding t_def by auto
  have leaf: "?leaf = (\<lambda>i. silo_leaf_hash (c_sha C) i (mnat_leaf_bytes (nat_rep x) ?L i))"
    by (simp add: leaf_of_def fun_eq_iff)
  obtain xs where xs: "xs \<noteq> []" "Some (root, nodes) = Some (length xs - 1, xs)" "holds xs (length xs - 1) t"
    "mn_hash (xs ! 0) = ?leaf 0"
    using build_holds[OF n leaf, of 0 "[]"] unfolding t_def b by auto
  then have h: "holds nodes root t" "mn_hash (nodes ! 0) = ?leaf 0" by auto
  have l32: "length (?leaf i) = 32" for i using C by (simp add: leaf_of_def silo_leaf_hash_def dec_ok_def)
  have th: "mn_hash (nodes ! root) = thash t" "length (thash t) = 32"
    using holds_node[OF h(1)] thash_length[OF ok(1)] l32 C by (auto simp: dec_ok_def)
  obtain q where q: "emitsv written room (mnat_path S nodes root []) (path_bytes t) q" "queue_of nodes q (rights t)"
    using path_emits[OF ok(1) h(1), of "[]" "[]" "leaf_count ?L"] ok by (auto simp: queue_of_def)
  have pr: "runs content offset C N (mnat_proof C (leaf_count ?L)) (path_bytes t) (path_of t) []"
    using runs_proof[OF byte_source_axioms C ok(1) l32] ok(3) by simp
  have fr: "mnat_frontier (path_of t) [(0, ?leaf 0)] [] = Some ((0, ?leaf 0) # exp_of (rights t), un_of (rights t))"
    using frontier_path[OF ok(1,2), of "[]" "leaf_count ?L"] ok(3) by simp
  let ?ts = "MLeaf 0 (?leaf 0) # rights t"
  have cov: "covers 1 (rights t) (leaf_count ?L)" "list_all (tree_ok (c_sha C) ?leaf) (rights t)" "credit 1 (rights t)"
    using covers_rights[OF ok(1)] rights_credit[OF ok(1), of 0 "[]"] ok by simp_all
  then have "in_step C x nodes 0 ?ts q s" if "m_expected s = exp_of ?ts" "m_unopened s = un_of ?ts" "m_index s = 0"
    "m_leaf s = []" "m_off s = 0" "m_acc s = acc_at C ?L []" for s
    using that q(2) by (simp add: in_step_def queue_of_def)
  then show ?thesis using h(2) th q(1) pr fr fold_path[OF ok(1,2)]
    by (intro exI[of _ "path_bytes t"] exI[of _ q]) (auto intro!: exI[of _ "path_of t"] exI[of _ ?ts])
qed

lemma in_step_end:
  assumes "in_step C x nodes i ts q s" "length (nbytes x) \<le> 1024 * i"
  shows "q = [] \<and> m_expected s = [] \<and> m_unopened s = [] \<and> m_leaf s = [] \<and> m_index s = leaf_count (length (nbytes x)) \<and>
    m_acc s = acc_at C (length (nbytes x)) (nbytes x)"
proof -
  let ?n = "leaf_count (length (nbytes x))"
  have c: "covers i ts ?n" "list_all (tree_ok (c_sha C) (leaf_of (c_sha C) x)) ts" using assms(1) by (auto simp: in_step_def)
  have "?n \<le> i" using leaf_count_less[of i "length (nbytes x)"] assms(2) by linarith
  moreover have "ts = []"
  proof (cases ts)
    case (Cons t ts')
    then show ?thesis using covers_start[OF c, of t] \<open>?n \<le> i\<close> by simp
  qed
  ultimately show ?thesis using assms c by (auto simp: in_step_def queue_of_def)
qed

lemma word_pred: "1 \<le> k \<Longrightarrow> k \<le> 8 \<Longrightarrow> unat (word_of_nat (k - 1) + 1 :: u8) = k"
proof -
  assume "1 \<le> k" "k \<le> 8"
  then have "k = 1 \<or> k = 2 \<or> k = 3 \<or> k = 4 \<or> k = 5 \<or> k = 6 \<or> k = 7 \<or> k = 8" by linarith
  then show ?thesis by (elim disjE) simp_all
qed

lemma mnat_codec:
  assumes C: "dec_ok R C" and L: "PL_SILO_NAT_CUTOVER < length (nbytes x)" "length (nbytes x) \<le> PL_SILO_MAX_NAT_BYTES"
  shows "\<exists>bs. emits written room (encode_mnat S (c_sha C) (nat_rep x) (length (nbytes x))) (0xf9 # bs) \<and>
    runs content offset C N (decode_mnat C) bs (outv C (VNat (nat_rep x)), ninfo x) []"
proof -
  let ?L = "length (nbytes x)" and ?v = "nat_rep x" and ?sha = "c_sha C"
  have x: "x \<noteq> 0" using L(1) by (cases "x = 0") (auto simp: silo_consts)
  define B where "B = nat_bit_length ?v ?L"
  define lw where "lw = width_u64 (word_of_nat B)"
  define pw where "pw = width_u64 (word_of_nat (max_page ?L))"
  note Bs = bit_length_spec[OF x B_def]
  have B64: "B < 2 ^ 64" using Bs(3) L(2) by (simp add: silo_consts)
  have lwB: "take lw (put64le (word_of_nat B)) = nbytes B" "length (nbytes B) = lw"
    using take_put64[OF Bs(1) B64] width_byte_len[OF Bs(1) B64] by (simp_all add: lw_def)
  have w: "1 \<le> lw" "lw \<le> 8" "1 \<le> pw" "pw \<le> 8" using width_spec width_le_8 by (auto simp: lw_def pw_def)
  have getB: "getle (nbytes B) = word_of_nat B" using getle_word[of "nbytes B"] lwB(2) w(2) by (simp add: take_all)
  have uB: "unat (word_of_nat B :: u64) = B" using B64 by (simp add: unsigned_of_nat take_bit_eq_mod)
  have n: "0 < leaf_count ?L" using x leaf_count_less[of 0 ?L] by simp
  obtain root nodes where b: "mnat_build ?sha ?v ?L 0 (leaf_count ?L) [] = Some (root, nodes)"
    using build_holds[OF n refl, of ?sha ?v ?L 0 "[]"] by auto
  let ?leaf = "leaf_of ?sha x 0"
  obtain pb q path ts where st: "mn_hash (nodes ! 0) = ?leaf" "length (mn_hash (nodes ! root)) = 32"
    "emitsv written room (mnat_path S nodes root []) pb q"
    "runs content offset C N (mnat_proof C (leaf_count ?L)) pb path []"
    "mnat_fold ?sha path ?leaf = mn_hash (nodes ! root)" "mnat_frontier path [(0, ?leaf)] [] = Some (exp_of ts, un_of ts)"
    and start: "\<And>s. m_expected s = exp_of ts \<and> m_unopened s = un_of ts \<and> m_index s = 0 \<and> m_leaf s = [] \<and> m_off s = 0 \<and>
          m_acc s = acc_at C ?L [] \<Longrightarrow> in_step C x nodes 0 ts q s"
    using mnat_start[OF C x b, of N] by blast
  define s0 where "s0 = \<lparr>m_acc = acc_at C ?L [], m_off = 0, m_index = 0, m_leaf = [], m_max = 0, m_crc = 0,
               m_expected = exp_of ts, m_unopened = un_of ts\<rparr>"
  have s0: "in_step C x nodes 0 ts q s0" by (rule start) (simp add: s0_def)
  have Lpos: "0 < ?L" using x by simp
  obtain bs i' ts' q' s' where pg: "emitsv written room (mnat_pages ?L S ?v ?L nodes pw (0, 0, q)) bs q'"
    "runs content offset C N (mnat_dpages ?L C ?L pw False s0) bs s' []" "in_step C x nodes i' ts' q' s'"
    "?L \<le> 1024 * i'" "m_max s' = max_page ?L"
    using pages_lockstep[OF C Lpos L(2) pw_def s0, of ?L N] by (auto simp: s0_def)
  note fin = in_step_end[OF pg(3,4)]
  define rh where "rh = silo_nat_root_hash ?sha B (mn_hash (nodes ! root))"
  have l32: "length rh = 32" "length ?leaf = 32"
    using C by (simp_all add: rh_def silo_nat_root_hash_def leaf_of_def silo_leaf_hash_def dec_ok_def)
  define fix' where "fix' = [0, word_of_nat (lw - 1), word_of_nat (pw - 1) :: u8]"
  let ?bytes = "fix' @ nbytes B @ rh @ ?leaf @ pb @ bs"
  have enc: "encode_mnat S ?sha ?v ?L = wseq (wseq (swrite_u8 S 0xf9) (wseq (swrite_u8 S 0)
      (wseq (swrite_u8 S (word_of_nat (lw - 1))) (wseq (swrite_u8 S (word_of_nat (pw - 1)))
      (wseq (swrite_le S (word_of_nat B) lw) (wseq (swrite S rh) (swrite S ?leaf)))))))
      (\<lambda>w. rbind (mnat_path S nodes root [] w) (\<lambda>(f, w). rbind (mnat_pages ?L S ?v ?L nodes pw (0, 0, f) w)
        (\<lambda>(f, w). if length f \<noteq> 0 then Inl ''internal MNAT frontier did not close'' else Inr w)))"
    unfolding encode_mnat_def Let_def b[unfolded leaf_count_def] fun_eq_iff wseq_def option.case prod.case
      lw_def pw_def rh_def B_def max_page_def st(1) by blast
  have "emits written room (encode_mnat S ?sha ?v ?L) (([0xf9] @ [0] @ [word_of_nat (lw - 1)] @ [word_of_nat (pw - 1)] @
      nbytes B @ rh @ ?leaf) @ pb @ bs @ [])"
    unfolding enc
    apply (rule emits_seq)
     apply (intro emits_seq emits_u8 emits_swrite emits_le[of "word_of_nat B" lw, unfolded lwB(1)])
    apply (rule emits_bindv[OF st(3)])
    apply (rule emits_bindv[OF pg(1)])
    using fin emits_ok by (simp add: wok_def[abs_def])
  then have "emits written room (encode_mnat S ?sha ?v ?L) (0xf9 # ?bytes)" by (simp add: fix'_def)
  moreover have "runs content offset C N (decode_mnat C) ?bytes (outv C (VNat ?v), ninfo x) []"
  proof -
    have f: "fix' ! 0 = 0" "unat (fix' ! 1 + 1) = lw" "unat (fix' ! 2 + 1) = pw" "length fix' = 3"
      using word_pred w by (simp_all add: fix'_def)
    have acc: "a_last (m_acc s') = last (nbytes x)" using fin x by (simp add: acc_at_def)
    have done_run: "runs content offset C N (nat_accum_finish C (m_acc s')) [] (outv C (VNat ?v), ninfo x) []"
      using runs_accum_finish[OF C refl, of "nbytes x" content offset N] x last_nbytes[OF x] fin by simp
    have lc: "(?L + PL_SILO_LEAF_BYTES - 1) div PL_SILO_LEAF_BYTES = leaf_count ?L" by (simp only: leaf_count_def)
    show ?thesis unfolding decode_mnat_def
      apply (rule runs_bind_js[OF runs_dread[OF C f(4)]])
      unfolding Let_def f
      apply (rule runs_check, simp)
      apply (rule runs_check, simp add: w)
      apply (rule runs_check, simp)
      apply (rule runs_bind_js[OF runs_dread[OF C lwB(2)]])
      apply (rule runs_bind_js[OF runs_dread[OF C l32(1)]])
      unfolding getB uB Bs(2) lc
      apply (rule runs_check, use Bs(1) in simp)
      apply (rule runs_check, simp add: lw_def)
      apply (rule runs_check[OF L(2)])
      apply (rule runs_check, use L(1) in simp)
      apply (rule runs_bind_js[OF runs_dread[OF C l32(2)]])
      apply (rule runs_bind_js[OF st(4)])
      unfolding st(5,6)
      apply (rule runs_check, simp add: rh_def)
      unfolding option.case prod.case
      apply (rule runs_bind_js[where a = "[]", simplified, OF runs_accum_init[OF C L(2)]])
      apply (rule runs_bind0[where x = s'])
      using pg(2) apply (simp add: s0_def)
      apply (rule runs_check, use fin in simp)
      apply (rule runs_check, use Bs(4,5) acc in simp)
      apply (rule runs_check, use pg(5) in \<open>simp add: pw_def max_page_def\<close>)
      apply (rule done_run)
      done
  qed
  ultimately show ?thesis by blast
qed

lemma nat_codec:
  assumes C: "dec_ok R C" "depth \<le> PL_SILO_MAX_DEPTH" and v: "nat_ok v"
  shows "\<exists>bs. emits written room (encode_nat S (c_sha C) v) bs \<and>
    runs content offset C N (decode_node C depth) bs (outv C (VNat v), ninfo (nval v)) []"
proof -
  define x where "x = nval v"
  have vx: "v = nat_rep x" using nat_ok_rep[OF v] by (simp add: x_def)
  have "nlimbs x < 2 ^ 20" using v unfolding vx nat_ok_nat_rep .
  then have lim: "length (nbytes x) \<le> PL_SILO_MAX_NAT_BYTES" unfolding length_nbytes by (rule byte_len_limit)
  have nv: "ninfo (nval v) = ninfo x" by (simp add: x_def)
  show ?thesis
  proof (cases "length (nbytes x) \<le> PL_SILO_NAT_CUTOVER")
    case True
    then show ?thesis using small_nat_codec[OF C, of x "c_sha C" N] unfolding length_nbytes nv unfolding vx by blast
  next
    case False
    then have "encode_nat S (c_sha C) (nat_rep x) = encode_mnat S (c_sha C) (nat_rep x) (length (nbytes x))"
      by (auto simp: encode_nat_def Let_def silo_consts)
    moreover obtain bs where "emits written room (encode_mnat S (c_sha C) (nat_rep x) (length (nbytes x))) (0xf9 # bs)"
      "runs content offset C N (decode_mnat C) bs (outv C (VNat (nat_rep x)), ninfo x) []"
      using mnat_codec[OF C(1) _ lim, of N] False by (auto simp: not_le)
    ultimately show ?thesis using runs_node[OF C, of N "0xf9", unfolded body_mnat] unfolding nv unfolding vx by metis
  qed
qed

end

end
