(* ===== verification/Silo.thy ===== *)
theory Silo
  imports Silo_Mnat
begin

text \<open>
  Round trip of whole values: whatever the canonical encoder writes, the canonical scan accepts, with
  the same pin table, and the build pass turns back into the value.
\<close>

subsection \<open>An encoding step against a decoding step\<close>

text \<open>
  \<open>codec f g x is\<close>: the encoder step \<open>f\<close> either always fails, or writes bytes from which the decoder
  step \<open>g\<close> reads \<open>x\<close>, meeting the pin indices \<open>is\<close>.
\<close>

definition codec :: "('c \<Rightarrow> bytes) \<Rightarrow> nat \<Rightarrow> ('r \<Rightarrow> bytes) \<Rightarrow> ('r \<Rightarrow> nat) \<Rightarrow> ('r, 'h) dcfg \<Rightarrow> nat \<Rightarrow>
    'c wm \<Rightarrow> ('r, 'h, 'a) dm \<Rightarrow> 'a \<Rightarrow> nat list \<Rightarrow> bool" where
  "codec written room content offset C N f g x is \<longleftrightarrow>
     fails f \<or> (\<exists>bs. emits written room f bs \<and> runs content offset C N g bs x is)"

lemma codec_fails: "fails f \<Longrightarrow> codec written room content offset C N f g x is"
  by (simp add: codec_def)

lemma codecI: "\<exists>bs. emits written room f bs \<and> runs content offset C N g bs x is \<Longrightarrow>
    codec written room content offset C N f g x is"
  by (simp add: codec_def)

lemma codec_check:
  assumes "ok" "codec written room content offset C N f (g ()) y js"
  shows "codec written room content offset C N f (dbind (drequire ok e) g) y js"
  using assms by (auto simp: codec_def intro: runs_check)

lemma codec_post:
  assumes "codec written room content offset C N f g x is" "runs content offset C N (h x) [] y []"
  shows "codec written room content offset C N f (dbind g h) y is"
  using assms by (auto simp: codec_def intro: runs_bind0)

text \<open>
  The same for a decoder step that reports the error \<open>e\<close> when it reads what \<open>f\<close> writes; \<open>writes f\<close> says that the
  bytes of \<open>f\<close> do not depend on where they go.
\<close>

definition stops :: "('r \<Rightarrow> bytes) \<Rightarrow> ('r \<Rightarrow> nat) \<Rightarrow> ('r, 'h) dcfg \<Rightarrow> nat \<Rightarrow> ('r, 'h, 'a) dm \<Rightarrow> bytes \<Rightarrow> string \<Rightarrow> nat list \<Rightarrow> bool" where
  "stops content offset C N g bs e is \<longleftrightarrow>
     (\<forall>d rest n n'. remains content offset d (bs @ rest) \<and> pin_state C N d n \<and> visit n is = Some n' \<and> n' \<le> N \<longrightarrow> g d = Inl e)"

definition refuses :: "('c \<Rightarrow> bytes) \<Rightarrow> nat \<Rightarrow> ('r \<Rightarrow> bytes) \<Rightarrow> ('r \<Rightarrow> nat) \<Rightarrow> ('r, 'h) dcfg \<Rightarrow> nat \<Rightarrow>
    'c wm \<Rightarrow> ('r, 'h, 'a) dm \<Rightarrow> string \<Rightarrow> nat list \<Rightarrow> bool" where
  "refuses written room content offset C N f g e is \<longleftrightarrow>
     fails f \<or> (\<exists>bs. emits written room f bs \<and> stops content offset C N g bs e is)"

definition writes :: "('c \<Rightarrow> bytes) \<Rightarrow> nat \<Rightarrow> 'c wm \<Rightarrow> bool" where
  "writes written room f \<longleftrightarrow> fails f \<or> (\<exists>bs. emits written room f bs)"

lemma codec_writes: "codec written room content offset C N f g x is \<Longrightarrow> writes written room f"
  by (auto simp: codec_def writes_def)

lemma refuses_writes: "refuses written room content offset C N f g e is \<Longrightarrow> writes written room f"
  by (auto simp: refuses_def writes_def)

lemma refuses_fails: "fails f \<Longrightarrow> refuses written room content offset C N f g e is"
  by (simp add: refuses_def)

lemma stops_left:
  assumes "stops content offset C N g a e is"
  shows "stops content offset C N (dbind g h) (a @ b) e (is @ js)"
  unfolding stops_def
proof (intro allI impI, elim conjE)
  fix d rest n n'
  assume d: "remains content offset d ((a @ b) @ rest)" "pin_state C N d n" and v: "visit n (is @ js) = Some n'" "n' \<le> N"
  obtain k where k: "visit n is = Some k" "visit k js = Some n'" using v(1) by (auto simp: visit_append split: option.splits)
  then have "k \<le> N" using visit_mono v(2) by (metis order_trans)
  then have "g d = Inl e" using assms d k(1) unfolding stops_def by (metis append.assoc)
  then show "dbind g h d = Inl e" by (simp add: dbind_def)
qed

lemma stops_right:
  assumes "runs content offset C N g a x is" "stops content offset C N (h x) b e js"
  shows "stops content offset C N (dbind g h) (a @ b) e (is @ js)"
  unfolding stops_def
proof (intro allI impI, elim conjE)
  fix d rest n n'
  assume d: "remains content offset d ((a @ b) @ rest)" "pin_state C N d n" and v: "visit n (is @ js) = Some n'" "n' \<le> N"
  obtain k where k: "visit n is = Some k" "visit k js = Some n'" using v(1) by (auto simp: visit_append split: option.splits)
  then have "k \<le> N" using visit_mono v(2) by (metis order_trans)
  then obtain d' where "g d = Inr (x, d')" "remains content offset d' (b @ rest)" "pin_state C N d' k"
    using assms(1) d k(1) unfolding runs_def by (metis append.assoc)
  then show "dbind g h d = Inl e" using assms(2) k(2) v(2) unfolding stops_def by (auto simp: dbind_def)
qed

lemma refuses_then:
  assumes "refuses written room content offset C N f g e is"
  shows "refuses written room content offset C N f (dbind g h) e is"
  using assms stops_left[of content offset C N g _ e "is" h "[]" "[]"] by (auto simp: refuses_def)

lemma refuses_after:
  assumes "codec written room content offset C N f g x is" "stops content offset C N (h x) [] e []"
  shows "refuses written room content offset C N f (dbind g h) e is"
proof -
  have "stops content offset C N (dbind g h) bs e is" if "runs content offset C N g bs x is" for bs
    using stops_right[where h = h, OF that assms(2)] by simp
  then show ?thesis using assms(1) unfolding codec_def refuses_def by blast
qed

lemma refuses_check:
  assumes "ok" "refuses written room content offset C N f (g ()) e is"
  shows "refuses written room content offset C N f (dbind (drequire ok e') g) e is"
proof -
  have "stops content offset C N (dbind (drequire ok e') g) bs e is" if "stops content offset C N (g ()) bs e is" for bs
    using stops_right[where h = g and a = "[]" and js = "is", OF runs_require[OF assms(1)] that] by simp
  then show ?thesis using assms(2) unfolding refuses_def by blast
qed

context silo_codec
begin

lemma refuses_left:
  assumes "refuses written room content offset C N f1 g1 e is" "writes written room f2"
  shows "refuses written room content offset C N (wseq f1 f2) (dbind g1 g2) e (is @ js)"
  using assms emits_seq stops_left[of content offset C N g1 _ e "is" g2 _ js]
  unfolding refuses_def writes_def by (metis fails_seq1 fails_seq2)

lemma refuses_right:
  assumes "codec written room content offset C N f1 g1 x is" "refuses written room content offset C N f2 (g2 x) e js"
  shows "refuses written room content offset C N (wseq f1 f2) (dbind g1 g2) e (is @ js)"
  using assms emits_seq stops_right[of content offset C N g1 _ x "is" g2]
  unfolding codec_def refuses_def by (metis fails_seq1 fails_seq2)

lemma writes_wall: "(\<And>y. y \<in> set ys \<Longrightarrow> writes written room (f y)) \<Longrightarrow> writes written room (wall f ys)"
proof (induction ys)
  case Nil
  then show ?case using emits_ok by (auto simp: writes_def)
next
  case (Cons y ys)
  then have "writes written room (f y)" "writes written room (wall f ys)" by simp_all
  then show ?case using emits_seq unfolding writes_def wall.simps by (metis fails_seq1 fails_seq2)
qed

lemma refuses_node:
  assumes "dec_ok R C" "depth \<le> PL_SILO_MAX_DEPTH"
    "refuses written room content offset C N f (node_body C depth opcode) e is"
  shows "refuses written room content offset C N (wseq (swrite_u8 S opcode) f) (decode_node C depth) e is"
proof -
  have rd: "runs content offset C N (dread C 1) [opcode] [opcode] []" by (rule runs_dread[OF assms(1)]) simp
  have "stops content offset C N (decode_node C depth) (opcode # bs) e is"
    if "stops content offset C N (node_body C depth opcode) bs e is" for bs
    using stops_right[where h = "\<lambda>ob. node_body C depth (hd ob)" and js = "is", OF rd] that
    by (simp add: decode_node_body[OF assms(2)])
  then show ?thesis using assms(3) emits_seq[OF emits_u8, of f _ opcode] unfolding refuses_def
    by (metis append_Cons append_Nil fails_seq2)
qed

lemma refuses_all:
  assumes "\<And>y. y \<in> set ys \<Longrightarrow> good y \<Longrightarrow> codec written room content offset C N (f y) g (x y) (i y)"
    and "\<And>y. y \<in> set ys \<Longrightarrow> \<not> good y \<Longrightarrow> refuses written room content offset C N (f y) g e (i y)"
    and "\<exists>y \<in> set ys. \<not> good y"
  shows "refuses written room content offset C N (wall f ys) (drepeat (length ys) g) e (concat (map i ys))"
  using assms
proof (induction ys)
  case (Cons y ys)
  have w: "writes written room (wall f ys)"
    by (rule writes_wall) (use Cons.prems(1,2) codec_writes refuses_writes in \<open>metis list.set_intros(2)\<close>)
  show ?case
  proof (cases "good y")
    case True
    then have "refuses written room content offset C N (wall f ys) (drepeat (length ys) g) e (concat (map i ys))"
      using Cons by auto
    from refuses_right[where ?g2.0 = "\<lambda>x. dbind (drepeat (length ys) g) (\<lambda>xs. dret (x # xs))",
        OF Cons.prems(1)[OF _ True] refuses_then[OF this]] show ?thesis by simp
  next
    case False
    from refuses_left[OF Cons.prems(2)[OF _ False] w, of "\<lambda>x. dbind (drepeat (length ys) g) (\<lambda>xs. dret (x # xs))"
        "concat (map i ys)"] show ?thesis by simp
  qed
qed simp

lemma codec_bind:
  assumes "codec written room content offset C N f1 g1 x is" "codec written room content offset C N f2 (g2 x) y js"
  shows "codec written room content offset C N (wseq f1 f2) (dbind g1 g2) y (is @ js)"
  using assms emits_seq runs_bind[of content offset C N g1 _ x "is" g2]
  unfolding codec_def by (metis fails_seq1 fails_seq2)

lemma codec_node:
  assumes "dec_ok R C" "depth \<le> PL_SILO_MAX_DEPTH"
    "codec written room content offset C N f (node_body C depth opcode) x is"
  shows "codec written room content offset C N (wseq (swrite_u8 S opcode) f) (decode_node C depth) x is"
  using assms(3) emits_seq[OF emits_u8, of f _ opcode] runs_node[OF assms(1,2), of N opcode]
  unfolding codec_def by (metis append_Cons append_Nil fails_seq2)

lemma codec_all:
  assumes "\<And>y. y \<in> set ys \<Longrightarrow> codec written room content offset C N (f y) g (x y) (i y)"
  shows "codec written room content offset C N (wall f ys) (drepeat (length ys) g) (map x ys) (concat (map i ys))"
  using assms
proof (induction ys)
  case Nil
  then show ?case using emits_ok by (auto intro!: codecI)
next
  case (Cons y ys)
  have "codec written room content offset C N (wall f ys) (dbind (drepeat (length ys) g) (\<lambda>xs. dret (x y # xs)))
      (x y # map x ys) (concat (map i ys))"
    by (rule codec_post[OF Cons.IH]) (use Cons.prems in simp_all)
  then show ?case
    using codec_bind[where ?g2.0 = "\<lambda>x. dbind (drepeat (length ys) g) (\<lambda>xs. dret (x # xs))", OF Cons.prems[of y]] by simp
qed

end

subsection \<open>Pins\<close>

text \<open>The pins of a value in the order they are written, and the first occurrences of a list.\<close>

fun pin_occ :: "pval \<Rightarrow> pval list" where
  "pin_occ (VNat n) = []"
| "pin_occ (VApp need head args) = pin_occ head @ concat (map pin_occ args)"
| "pin_occ (VLaw a name body) = pin_occ name @ pin_occ body"
| "pin_occ (VPin h body) = [VPin h body]"
| "pin_occ (VOther t) = []"

definition idx_of :: "enc_env \<Rightarrow> pval \<Rightarrow> nat" where
  "idx_of E p = the (map_of (e_idx E) (the (e_hash E p)))"

text \<open>The table names every pin of the value that the encoder can write.\<close>

definition pins_ok :: "('r, 'h) dcfg \<Rightarrow> enc_env \<Rightarrow> nat \<Rightarrow> pval \<Rightarrow> bool" where
  "pins_ok C E N p \<longleftrightarrow> (\<forall>h i. e_hash E p = Some h \<and> map_of (e_idx E) h = Some i \<longrightarrow>
     i < N \<and> (c_build C \<longrightarrow> c_resolved C ! i = p))"

lemma runs_range: "i < N \<Longrightarrow> runs content offset C N
    (\<lambda>d. if length (d_pins d) \<le> i then Inl e else Inr ((), d)) [] () []"
  by (auto simp: runs_def pin_state_def)

lemma runs_note_pin: "runs content offset C N (note_pin C i) [] () [i]"
  unfolding runs_def
proof (intro allI impI, elim conjE)
  fix d rest n n'
  assume d: "remains content offset d ([] @ rest)" "pin_state C N d n" and v: "visit n [i] = Some n'" "n' \<le> N"
  show "\<exists>d'. note_pin C i d = Inr ((), d') \<and> remains content offset d' rest \<and> pin_state C N d' n' \<and> d_pins d' = d_pins d"
  proof (cases "c_capture C \<and> \<not> d_used d ! i")
    case False
    have "pin_state C N d n'"
    proof (cases "c_capture C")
      case True
      then have "d_used d = replicate n True @ replicate (N - n) False" "d_used d ! i"
        using d(2) False by (auto simp: pin_state_def)
      then have "n' = n" using v by (auto simp: nth_append split: if_splits)
      then show ?thesis using d(2) by simp
    qed (use d(2) v(2) in \<open>simp add: pin_state_def\<close>)
    then show ?thesis using False d(1) by (auto simp: note_pin_def)
  next
    case True
    then have u: "d_used d = replicate n True @ replicate (N - n) False" "d_next d = n" "d_order d = [0..<n]"
      using d(2) by (auto simp: pin_state_def)
    have i: "i = n" "n' = Suc n" using True u(1) v by (auto simp: nth_append split: if_splits)
    obtain k where k: "N - n = Suc k" using v(2) i by (cases "N - n") auto
    then have "replicate (N - n) False = False # replicate (N - Suc n) False" by (metis Suc_diff_Suc diff_Suc_1 replicate_Suc zero_less_Suc zero_less_diff)
    then have "(d_used d)[n := True] = replicate (Suc n) True @ replicate (N - Suc n) False"
      using u(1) by (simp add: replicate_append_same list_update_append)
    then show ?thesis using True d u i v(2) by (simp add: note_pin_def pin_state_def remains_def Let_def)
  qed
qed

context silo_codec
begin

lemma pin_codec:
  assumes C: "dec_ok R C" "depth \<le> PL_SILO_MAX_DEPTH" and p: "pins_ok C E N p" "is_pin p" and N: "N \<le> 2 ^ 32"
  shows "codec written room content offset C N (encode_pin S E p) (decode_node C depth)
    (outv C p, node_info SILO_NODE_PIN 0) [idx_of E p]"
proof (cases "\<exists>h i. e_hash E p = Some h \<and> map_of (e_idx E) h = Some i")
  case False
  then show ?thesis
    by (intro codec_fails) (auto simp: encode_pin_def split: option.splits)
next
  case True
  then obtain h i where h: "e_hash E p = Some h" "map_of (e_idx E) h = Some i" by blast
  have i: "i < N" "c_build C \<longrightarrow> c_resolved C ! i = p" "idx_of E p = i" using p(1) h by (auto simp: pins_ok_def idx_of_def)
  let ?w = "width_u64 (word_of_nat i)"
  have ui: "unat (word_of_nat i :: u64) = i"
    using i(1) N by (simp add: unsigned_of_nat take_bit_eq_mod)
  have w: "1 \<le> ?w" "?w \<le> 8" using width_spec[of "word_of_nat i"] width_le_8 by auto
  let ?bs = "take ?w (put64le (word_of_nat i))"
  have rd: "runs content offset C N (dread C ?w) ?bs ?bs []" by (rule runs_dread[OF C(1)]) (use w in simp)
  have last: "runs content offset C N (if c_build C then
       dbind (drequire (is_pin (c_resolved C ! i)) e) (\<lambda>_. dret (c_resolved C ! i, node_info SILO_NODE_PIN 0))
     else dret (VNat (Direct 0), node_info SILO_NODE_PIN 0)) [] (outv C p, node_info SILO_NODE_PIN 0) []" for e
    using i(2) p(2) by (auto simp: outv_def intro!: runs_check)
  have note1: "runs content offset C N (dbind (note_pin C i) (\<lambda>_. if c_build C then
       dbind (drequire (is_pin (c_resolved C ! i)) e) (\<lambda>_. dret (c_resolved C ! i, node_info SILO_NODE_PIN 0))
     else dret (VNat (Direct 0), node_info SILO_NODE_PIN 0))) [] (outv C p, node_info SILO_NODE_PIN 0) [i]" for e
    by (rule runs_bind0[OF runs_note_pin last])
  have "runs content offset C N (decode_pin C ?w) ?bs (outv C p, node_info SILO_NODE_PIN 0) [i]"
    unfolding decode_pin_def
    apply (rule runs_bind_js[where b = "[]", simplified, OF rd])
    unfolding getle_put Let_def ui
    apply (rule runs_check, simp)
    apply (rule runs_bind_js[where a = "[]", simplified, OF runs_range[OF i(1)]])
    apply (rule note1)
    done
  then have "codec written room content offset C N (swrite_le S (word_of_nat i) ?w)
      (node_body C depth (0xf0 + word_of_nat ?w)) (outv C p, node_info SILO_NODE_PIN 0) [i]"
    using emits_le unfolding body_pin[OF w] by (blast intro: codecI)
  then show ?thesis using codec_node[OF C] h i(3) by (simp add: encode_pin_def Let_def)
qed

end

subsection \<open>Values\<close>

text \<open>
  Well-formed values with object sizes in range. Pins are leaves: the encoder writes an index for them.
\<close>

fun silo_wf :: "pval \<Rightarrow> bool" where
  "silo_wf (VNat n) = nat_ok n"
| "silo_wf (VApp need head args) =
     (\<not> is_app head \<and> args \<noteq> [] \<and> length args \<le> 0xFFFFFFFF - 2 \<and> pl_need_after head (length args) = Inr need \<and>
      silo_wf head \<and> list_all silo_wf args)"
| "silo_wf (VLaw a name body) = (silo_wf name \<and> silo_wf body)"
| "silo_wf (VPin h body) = True"
| "silo_wf (VOther t) = True"

text \<open>
  An APP of more than 15 arguments is written as nested chunks of 15, and the build pass builds each of them, so
  the innermost chunk has to fit the header's meta field as well.
\<close>

definition chunk_fits :: "pval \<Rightarrow> nat \<Rightarrow> bool" where
  "chunk_fits head n \<longleftrightarrow> (\<exists>k. pl_need_after head (min 15 n) = Inr k)"

fun silo_fits :: "pval \<Rightarrow> bool" where
  "silo_fits (VApp need head args) = (chunk_fits head (length args) \<and> silo_fits head \<and> list_all silo_fits args)"
| "silo_fits (VLaw a name body) = (silo_fits name \<and> silo_fits body)"
| "silo_fits v = True"

text \<open>The arguments written by the outermost chunk of \<open>n\<close>.\<close>

definition chunk :: "nat \<Rightarrow> nat" where
  "chunk n = (let k = (if n \<le> 15 then n else n mod 15) in if k = 0 then 15 else k)"

lemma chunk_bounds: "0 < n \<Longrightarrow> 1 \<le> chunk n \<and> chunk n \<le> 15 \<and> chunk n \<le> n"
  using mod_less_divisor[of 15 n] by (auto simp: chunk_def Let_def) 

lemma chunk_rest:
  assumes "0 < n" "n - chunk n \<noteq> 0"
  shows "chunk (n - chunk n) = 15" "15 \<le> n - chunk n"
proof -
  have n: "15 < n" using assms by (auto simp: chunk_def Let_def split: if_splits)
  have "(n - chunk n) mod 15 = 0"
  proof (cases "n mod 15 = 0")
    case True
    then show ?thesis using n by (simp add: chunk_def mod_diff_right_eq le_mod_geq[symmetric]) 
  next
    case False
    then show ?thesis using n by (simp add: chunk_def Let_def)
  qed
  then obtain k where k: "n - chunk n = 15 * k" by (metis dvd_def mod_0_imp_dvd)
  then have "0 < k" using assms(2) by (cases k) auto
  then show "chunk (n - chunk n) = 15" "15 \<le> n - chunk n" using k by (auto simp: chunk_def Let_def)
qed

fun vinfo :: "pval \<Rightarrow> silo_node_info" where
  "vinfo (VNat n) = ninfo (nval n)"
| "vinfo (VApp need head args) = node_info SILO_NODE_APP (chunk (length args))"
| "vinfo (VLaw a name body) = node_info SILO_NODE_LAW 0"
| "vinfo (VPin h body) = node_info SILO_NODE_PIN 0"
| "vinfo (VOther t) = node_info SILO_NODE_NAT 0"

lemma vinfo_app: "ni_kind (vinfo v) = SILO_NODE_APP \<longleftrightarrow> is_app v"
  by (cases v) (auto simp: ninfo_def node_info_def)

definition need_of :: "pval \<Rightarrow> nat \<Rightarrow> nat" where
  "need_of head n = (case pl_need_after head n of Inl _ \<Rightarrow> 0 | Inr k \<Rightarrow> k)"

lemma build_app_runs:
  assumes C: "dec_ok R C" "c_build C" and n: "0 < k" "n = length inner + k" "k = length xs" "n \<le> 0xFFFFFFFF - 2"
    and need: "pl_need_after h n = Inr need"
    and hd: "v = VApp m h inner \<or> v = h \<and> inner = [] \<and> \<not> is_app h"
  shows "runs content offset C N (build_app C k v xs) [] (VApp need h (inner @ xs)) []"
proof -
  obtain a where a: "pl_arity h = Inr a" "need = (if a = 0 \<or> a \<le> n then 0 else a - n)" "need < 2 ^ 20"
    using need unfolding need_after_Inr by blast
  have flat: "(case v of VApp _ h xs \<Rightarrow> (h, xs) | _ \<Rightarrow> (v, [])) = (h, inner)"
    using hd by (cases v) auto
  have al: "runs content offset C N (decode_alloc C (2 + n)) [] () []"
    using n by (intro runs_alloc[OF C]) auto
  show ?thesis unfolding build_app_def Let_def flat prod.case n(2)[symmetric]
    apply (rule runs_check)
    using n apply linarith
    unfolding a(1) sum.case a(2)[symmetric]
    apply (rule runs_check[OF a(3)])
    apply (rule runs_bind0[OF al])
    apply simp
    done
qed

lemma encode_app_range_chunk:
  "m = n - chunk n \<Longrightarrow> encode_app_range S E head args n depth = (if PL_SILO_MAX_DEPTH < depth then werr ''Silo nesting exceeds''
      else wseq (swrite_u8 S (push_bit 3 (word_of_nat (chunk n))))
        (wseq (if m \<noteq> 0 then encode_app_range S E head args m (depth + 1) else encode_node S E head (depth + 1))
          (wall (\<lambda>i. encode_node S E (args ! i) (depth + 1)) [m..<n])))"
  by (subst encode_app_range.simps) (simp add: chunk_def Let_def)

lemma chunk_rest_15: "0 < n \<Longrightarrow> n - chunk n \<noteq> 0 \<Longrightarrow> chunk (n - chunk n) = 15 \<and> 15 \<le> n - chunk n \<and> (n - chunk n) mod 15 = 0"
  using chunk_rest[of n] by (auto simp: chunk_def Let_def split: if_splits)

text \<open>The build pass on a chunk whose need does not fit.\<close>

definition need_error :: string where
  "need_error = ''decoded APP need exceeds runtime limit''"

lemma build_app_stops:
  assumes "\<not> is_app h" "0 < n" "n \<le> 0xFFFFFFFF - 2" "pl_arity h = Inr a" "\<not> (\<exists>k. pl_need_after h n = Inr k)"
  shows "stops content offset C N (build_app C n h xs) [] need_error []"
proof -
  have flat: "(case h of VApp _ h xs \<Rightarrow> (h, xs) | _ \<Rightarrow> (h, [])) = (h, [])" using assms(1) by (cases h) auto
  have "\<not> (if a = 0 \<or> a \<le> n then 0 else a - n) < 2 ^ 20" using assms(4,5) unfolding need_after_Inr by blast
  then have "build_app C n h xs d = Inl need_error" for d
    unfolding build_app_def Let_def flat prod.case list.size add_0 assms(4) sum.case using assms(2,3)
    by (simp add: dbind_def drequire_def dret_def derr_def need_error_def)
  then show ?thesis by (simp add: stops_def)
qed

context silo_codec
begin

lemma range_codec:
  assumes C: "dec_ok R C" "e_sha E = c_sha C"
    and hd: "\<And>depth. codec written room content offset C N (encode_node S E head depth) (decode_node C depth)
        (outv C head, vinfo head) ih" "\<not> is_app head"
    and args: "\<And>i depth. i < b \<Longrightarrow> codec written room content offset C N (encode_node S E (args ! i) depth)
        (decode_node C depth) (outv C (args ! i), vinfo (args ! i)) (ia i)"
    and len: "length args \<le> 0xFFFFFFFF - 2" "b \<le> length args" and need: "c_build C \<Longrightarrow> chunk_fits head (length args)"
    and "0 < n" "n \<le> b" "n mod 15 = 0 \<or> n = length args"
  shows "codec written room content offset C N (encode_app_range S E head args n depth) (decode_node C depth)
    (outv C (VApp (need_of head n) head (take n args)), node_info SILO_NODE_APP (chunk n))
    (ih @ concat (map ia [0..<n]))"
  using assms(9-)
proof (induction n arbitrary: depth rule: less_induct)
  case (less n)
  have nl: "n \<le> length args" using less.prems(2) len(2) by simp
  define m where "m = n - chunk n"
  have ch: "1 \<le> chunk n" "chunk n \<le> 15" "m + chunk n = n" "m < n"
    using chunk_bounds[OF less.prems(1)] by (auto simp: m_def)
  note eq = encode_app_range_chunk[OF m_def]
  show ?case
  proof (cases "PL_SILO_MAX_DEPTH < depth")
    case True
    then show ?thesis unfolding eq by (intro codec_fails) simp
  next
    case False
    define hv where "hv = (if m \<noteq> 0 then VApp (need_of head m) head (take m args) else head)"
    define hi where "hi = (if m \<noteq> 0 then node_info SILO_NODE_APP (chunk m) else vinfo head)"
    have rest: "m \<noteq> 0 \<Longrightarrow> chunk m = 15 \<and> 15 \<le> m \<and> m mod 15 = 0" 
      using chunk_rest_15[OF less.prems(1)] unfolding m_def[symmetric] .
    have head: "codec written room content offset C N
        (if m \<noteq> 0 then encode_app_range S E head args m (depth + 1) else encode_node S E head (depth + 1))
        (decode_node C (depth + 1)) (outv C hv, hi) (ih @ concat (map ia [0..<m]))"
      using less.IH[OF ch(4), of "depth + 1"] rest ch(4) less.prems(2) hd(1) by (cases "m = 0") (auto simp: hv_def hi_def)
    have xs: "codec written room content offset C N (wall (\<lambda>i. encode_node S E (args ! i) (depth + 1)) [m..<n])
        (drepeat (length [m..<n]) (decode_node C (depth + 1))) (map (\<lambda>i. (outv C (args ! i), vinfo (args ! i))) [m..<n])
        (concat (map ia [m..<n]))"
      by (rule codec_all) (use args less.prems(2) in auto)
    let ?args = "map (\<lambda>i. args ! i) [m..<n]"
    have tk: "take n args = take m args @ ?args" using ch(4) nl
      by (intro nth_equalityI) (auto simp: nth_append)
    have canon: "\<not> (c_canonical C \<and> ni_kind hi = SILO_NODE_APP \<and> ni_app_n hi \<noteq> 15)"
      using rest hd(2) vinfo_app by (auto simp: hi_def node_info_def)
    have nd: "pl_need_after head n = Inr (need_of head n)" if bld: "c_build C"
    proof -
      obtain k0 where k0: "pl_need_after head (min 15 (length args)) = Inr k0" using need[OF bld] by (auto simp: chunk_fits_def)
      have "min 15 (length args) \<le> n" using less.prems by (cases "n = length args") auto
      then obtain d where "n = min 15 (length args) + d" using le_Suc_ex by blast
      then show ?thesis using need_after_mono[OF k0, of d] by (simp add: need_of_def)
    qed
    have bld: "runs content offset C N (dbind (if c_build C then build_app C (chunk n) (outv C hv)
          (map fst (map (\<lambda>i. (outv C (args ! i), vinfo (args ! i))) [m..<n])) else dret (VNat (Direct 0)))
        (\<lambda>v. dret (v, node_info SILO_NODE_APP (chunk n)))) []
        (outv C (VApp (need_of head n) head (take n args)), node_info SILO_NODE_APP (chunk n)) []"
    proof (cases "c_build C")
      case True
      have "runs content offset C N (build_app C (chunk n) hv ?args) [] (VApp (need_of head n) head ((take m args) @ ?args)) []"
        by (rule build_app_runs[OF C(1) True _ _ _ _ nd[OF True]])
          (use ch nl len hd(2) in \<open>auto simp: hv_def\<close>)
      from runs_bind0[OF this, of "\<lambda>v. dret (v, node_info SILO_NODE_APP (chunk n))"] True show ?thesis
        by (simp add: outv_def tk comp_def)
    next
      case False
      then show ?thesis by (simp add: outv_def) (rule runs_bind0[OF runs_ret], simp)
    qed
    have mal: "\<not> c_build C \<or> c_malloc C (8 * chunk n)" using C(1) by (simp add: dec_ok_def)
    have lenc: "length [m..<n] = chunk n" using ch by simp
    have up: "(ih @ concat (map ia [0..<m])) @ concat (map ia [m..<n]) = ih @ concat (map ia [0..<n])"
      using upt_add_eq_append[of 0 m "chunk n"] ch(3) by simp
    have "codec written room content offset C N (wseq (if m \<noteq> 0 then encode_app_range S E head args m (depth + 1)
          else encode_node S E head (depth + 1)) (wall (\<lambda>i. encode_node S E (args ! i) (depth + 1)) [m..<n]))
        (node_body C depth (push_bit 3 (word_of_nat (chunk n))))
        (outv C (VApp (need_of head n) head (take n args)), node_info SILO_NODE_APP (chunk n))
        ((ih @ concat (map ia [0..<m])) @ concat (map ia [m..<n]))"
      unfolding body_app[OF ch(1,2)]
      apply (rule codec_bind[OF head])
      unfolding prod.case
      apply (rule codec_check[OF canon])
      apply (rule codec_check[OF mal])
      apply (rule codec_post[OF xs[unfolded lenc]])
      apply (rule bld)
      done
    from codec_node[OF C(1) _ this] False show ?thesis unfolding eq up by simp
  qed
qed

lemma law_codec:
  assumes C: "dec_ok R C" "depth \<le> PL_SILO_MAX_DEPTH"
    and name: "codec written room content offset C N (encode_node S E name (depth + 1)) (decode_node C (depth + 1))
        (outv C name, vinfo name) i1"
    and body: "codec written room content offset C N (encode_node S E body (depth + 1)) (decode_node C (depth + 1))
        (outv C body, vinfo body) i2"
    and a: "a \<noteq> 0" "a \<le> PL_NAT63_MAX"
  shows "codec written room content offset C N (wseq (swrite_u8 S 0xf0) (wseq (encode_node S E name (depth + 1))
      (wseq (encode_u64_nat S a) (encode_node S E body (depth + 1))))) (decode_node C depth)
    (outv C (VLaw a name body), node_info SILO_NODE_LAW 0) (i1 @ i2)"
proof (cases "PL_SILO_MAX_DEPTH < depth + 1")
  case True
  then have "fails (encode_node S E name (depth + 1))" by (subst encode_node.simps) simp
  then show ?thesis by (intro codec_fails fails_seq2 fails_seq1)
next
  case False
  have ar: "codec written room content offset C N (encode_u64_nat S a) (decode_node C (depth + 1))
      (outv C (VNat (nat_rep (unat a))), ninfo (unat a)) []"
    using u64_nat_codec[OF C(1) _ a(1), of "depth + 1" N] False by (intro codecI) simp
  have ok: "ni_kind (ninfo (unat a)) = SILO_NODE_NAT \<and> ni_fits (ninfo (unat a)) \<and> ni_u64 (ninfo (unat a)) \<noteq> 0 \<and>
      ni_u64 (ninfo (unat a)) \<le> PL_NAT63_MAX" using a by (simp add: ninfo_def)
  have bld: "runs content offset C N (dbind (if c_build C then dbind (decode_alloc C 4)
        (\<lambda>_. dret (VLaw (ni_u64 (ninfo (unat a))) (outv C name) (outv C body))) else dret (VNat (Direct 0)))
      (\<lambda>v. dret (v, node_info SILO_NODE_LAW 0))) [] (outv C (VLaw a name body), node_info SILO_NODE_LAW 0) []"
  proof (cases "c_build C")
    case True
    have "runs content offset C N (dbind (decode_alloc C 4)
        (\<lambda>_. dret (VLaw (ni_u64 (ninfo (unat a))) (outv C name) (outv C body)))) [] (VLaw a name body) []"
      by (rule runs_bind0[OF runs_alloc[OF C(1) True]]) (simp_all add: True outv_def ninfo_def)
    from runs_bind0[OF this, of "\<lambda>v. dret (v, node_info SILO_NODE_LAW 0)"] True show ?thesis by (simp add: outv_def)
  next
    case False
    then show ?thesis by (simp add: outv_def) (rule runs_bind0[OF runs_ret], simp)
  qed
  have "codec written room content offset C N (wseq (encode_node S E name (depth + 1))
      (wseq (encode_u64_nat S a) (encode_node S E body (depth + 1)))) (node_body C depth 0xf0)
      (outv C (VLaw a name body), node_info SILO_NODE_LAW 0) (i1 @ ([] @ i2))"
    unfolding body_law
    apply (rule codec_bind[OF name])
    unfolding prod.case
    apply (rule codec_bind[OF ar])
    unfolding prod.case
    apply (rule codec_check[OF ok])
    apply (rule codec_post[OF body])
    unfolding prod.case
    apply (rule bld)
    done
  from codec_node[OF C this] show ?thesis by simp
qed

lemma value_codec:
  assumes C: "dec_ok R C" "e_sha E = c_sha C" and N: "N \<le> 2 ^ 32"
    and "silo_wf v" "c_build C \<Longrightarrow> silo_fits v" "\<forall>p \<in> set (pin_occ v). pins_ok C E N p"
  shows "codec written room content offset C N (encode_node S E v depth) (decode_node C depth)
    (outv C v, vinfo v) (map (idx_of E) (pin_occ v))"
  using assms(4-)
proof (induction v arbitrary: depth)
  case (VNat n)
  show ?case
  proof (cases "PL_SILO_MAX_DEPTH < depth")
    case False
    then show ?thesis using nat_codec[OF C(1), of depth n N] VNat C(2) by (intro codecI) (subst encode_node.simps, simp)
  qed (auto intro!: codec_fails simp: encode_node.simps)
next
  case (VApp need head args)
  let ?n = "length args" and ?ia = "\<lambda>i. map (idx_of E) (pin_occ (args ! i))"
  have ok: "\<not> is_app head" "0 < ?n" "?n \<le> 0xFFFFFFFF - 2" "pl_need_after head ?n = Inr need" "silo_wf head"
    and k: "c_build C \<Longrightarrow> chunk_fits head ?n" using VApp.prems(1,2) by auto
  have hd: "codec written room content offset C N (encode_node S E head d) (decode_node C d)
      (outv C head, vinfo head) (map (idx_of E) (pin_occ head))" for d using VApp ok(5) by simp
  have args: "codec written room content offset C N (encode_node S E (args ! i) d) (decode_node C d)
      (outv C (args ! i), vinfo (args ! i)) (?ia i)" if i: "i < ?n" for i d
  proof (rule VApp.IH(2)[OF nth_mem[OF i]])
    show "silo_wf (args ! i)" using VApp.prems(1) i by (simp add: list_all_length)
    show "c_build C \<Longrightarrow> silo_fits (args ! i)" using VApp.prems(2) i by (simp add: list_all_length)
    show "\<forall>p \<in> set (pin_occ (args ! i)). pins_ok C E N p" using VApp.prems(3) nth_mem[OF i] by auto
  qed
  have up: "map (idx_of E) (pin_occ (VApp need head args)) = map (idx_of E) (pin_occ head) @ concat (map ?ia [0..<?n])"
    by (simp add: map_concat comp_def) (metis (no_types, lifting) map_nth map_map comp_apply map_eq_conv)
  show ?case
  proof (cases "PL_SILO_MAX_DEPTH < depth")
    case False
    then show ?thesis
      using range_codec[OF C hd ok(1) args ok(3) order_refl k ok(2), of depth] ok(2,4) unfolding up
      by (subst encode_node.simps) (simp add: need_of_def)
  qed (auto intro!: codec_fails simp: encode_node.simps)
next
  case (VLaw a name body)
  have IH: "codec written room content offset C N (encode_node S E name d) (decode_node C d)
      (outv C name, vinfo name) (map (idx_of E) (pin_occ name))"
    "codec written room content offset C N (encode_node S E body d) (decode_node C d)
      (outv C body, vinfo body) (map (idx_of E) (pin_occ body))" for d
    using VLaw by auto
  show ?case
  proof (cases "PL_SILO_MAX_DEPTH < depth \<or> a = 0 \<or> PL_NAT63_MAX < a")
    case True
    then show ?thesis by (intro codec_fails) (subst encode_node.simps, auto)
  next
    case False
    then show ?thesis using law_codec[OF C(1) _ IH, of depth a] by (subst encode_node.simps) (auto simp: not_less)
  qed
next
  case (VPin h body)
  show ?case
  proof (cases "PL_SILO_MAX_DEPTH < depth")
    case False
    then show ?thesis using pin_codec[OF C(1) _ _ _ N, of depth E "VPin h body"] VPin by (subst encode_node.simps) simp
  qed (auto intro!: codec_fails simp: encode_node.simps)
next
  case (VOther t)
  show ?case by (intro codec_fails) (subst encode_node.simps, simp)
qed

lemma range_refuses:
  assumes C: "dec_ok R C" "e_sha E = c_sha C" "c_build C"
    and hd: "\<And>depth. silo_fits head \<Longrightarrow> codec written room content offset C N (encode_node S E head depth) (decode_node C depth)
        (outv C head, vinfo head) ih"
      "\<And>depth. \<not> silo_fits head \<Longrightarrow> refuses written room content offset C N (encode_node S E head depth) (decode_node C depth) need_error ih"
      "\<not> is_app head"
    and args: "\<And>i depth. i < length args \<Longrightarrow> silo_fits (args ! i) \<Longrightarrow> codec written room content offset C N
        (encode_node S E (args ! i) depth) (decode_node C depth) (outv C (args ! i), vinfo (args ! i)) (ia i)"
      "\<And>i depth. i < length args \<Longrightarrow> \<not> silo_fits (args ! i) \<Longrightarrow> refuses written room content offset C N
        (encode_node S E (args ! i) depth) (decode_node C depth) need_error (ia i)"
    and len: "length args \<le> 0xFFFFFFFF - 2" and need: "pl_need_after head (length args) = Inr need"
    and "0 < n" "n \<le> length args" "n mod 15 = 0 \<or> n = length args"
    and "\<not> (chunk_fits head (length args) \<and> silo_fits head \<and> (\<forall>i < n. silo_fits (args ! i)))"
  shows "refuses written room content offset C N (encode_app_range S E head args n depth) (decode_node C depth)
    need_error (ih @ concat (map ia [0..<n]))"
  using assms(11-)
proof (induction n arbitrary: depth rule: less_induct)
  case (less n)
  define m where "m = n - chunk n"
  have ch: "1 \<le> chunk n" "chunk n \<le> 15" "m + chunk n = n" "m < n"
    using chunk_bounds[OF less.prems(1)] by (auto simp: m_def)
  have rest: "m \<noteq> 0 \<Longrightarrow> chunk m = 15 \<and> 15 \<le> m \<and> m mod 15 = 0"
    using chunk_rest_15[OF less.prems(1)] unfolding m_def[symmetric] .
  let ?F = "if m \<noteq> 0 then encode_app_range S E head args m (depth + 1) else encode_node S E head (depth + 1)"
  let ?W = "wall (\<lambda>i. encode_node S E (args ! i) (depth + 1)) [m..<n]" and ?js = "concat (map ia [m..<n])"
  let ?ok = "chunk_fits head (length args) \<and> silo_fits head \<and> (\<forall>i < m. silo_fits (args ! i))"
  have wall: "writes written room ?W"
  proof (rule writes_wall)
    fix i assume "i \<in> set [m..<n]"
    then have i: "i < length args" using less.prems(2) by simp
    show "writes written room (encode_node S E (args ! i) (depth + 1))"
      using codec_writes[OF args(1)[OF i]] refuses_writes[OF args(2)[OF i]] by blast
  qed
  have lenc: "length [m..<n] = chunk n" using ch by simp
  have wall_bad: "refuses written room content offset C N ?W (drepeat (chunk n) (decode_node C (depth + 1))) need_error ?js"
    if "\<not> (\<forall>i < n. silo_fits (args ! i))" "\<forall>i < m. silo_fits (args ! i)"
  proof (rule refuses_all[where ys = "[m..<n]" and good = "\<lambda>i. silo_fits (args ! i)" and x = "\<lambda>i. (outv C (args ! i), vinfo (args ! i))", unfolded lenc])
    show "\<exists>i \<in> set [m..<n]. \<not> silo_fits (args ! i)" using that by (metis atLeastLessThan_iff not_less set_upt)
  qed (use args less.prems(2) in auto)
  have body: "refuses written room content offset C N (wseq ?F ?W) (node_body C depth (push_bit 3 (word_of_nat (chunk n))))
      need_error ((ih @ concat (map ia [0..<m])) @ ?js)"
  proof (cases "if m \<noteq> 0 then ?ok else silo_fits head")
    case False
    have "refuses written room content offset C N ?F (decode_node C (depth + 1)) need_error (ih @ concat (map ia [0..<m]))"
    proof (cases "m = 0")
      case m: False
      then show ?thesis using less.IH[OF ch(4), of "depth + 1"] False rest ch(4) less.prems(2) by auto
    qed (use False hd(2) in simp)
    then show ?thesis unfolding body_app[OF ch(1,2)] by (rule refuses_left[OF _ wall])
  next
    case True
    define hv where "hv = (if m \<noteq> 0 then VApp (need_of head m) head (take m args) else head)"
    define hi where "hi = (if m \<noteq> 0 then node_info SILO_NODE_APP (chunk m) else vinfo head)"
    have head: "codec written room content offset C N ?F (decode_node C (depth + 1)) (outv C hv, hi) (ih @ concat (map ia [0..<m]))"
    proof (cases "m = 0")
      case m: False
      have "codec written room content offset C N (encode_app_range S E head args m (depth + 1)) (decode_node C (depth + 1))
          (outv C (VApp (need_of head m) head (take m args)), node_info SILO_NODE_APP (chunk m)) (ih @ concat (map ia [0..<m]))"
        by (rule range_codec[OF C(1,2) _ hd(3) _ len, of _ ih m]) (use True m hd(1) args(1) rest ch(4) less.prems(2) in auto)
      then show ?thesis using m by (simp add: hv_def hi_def)
    qed (use True hd(1) in \<open>simp add: hv_def hi_def\<close>)
    have canon: "\<not> (c_canonical C \<and> ni_kind hi = SILO_NODE_APP \<and> ni_app_n hi \<noteq> 15)"
      using rest hd(3) vinfo_app by (auto simp: hi_def node_info_def)
    have mal: "\<not> c_build C \<or> c_malloc C (8 * chunk n)" using C(1) by (simp add: dec_ok_def)
    have last: "refuses written room content offset C N ?W (dbind (drepeat (chunk n) (decode_node C (depth + 1))) (\<lambda>xs.
        dbind (if c_build C then build_app C (chunk n) (outv C hv) (map fst xs) else dret (VNat (Direct 0)))
          (\<lambda>v. dret (v, node_info SILO_NODE_APP (chunk n))))) need_error ?js"
    proof (cases "\<forall>i < n. silo_fits (args ! i)")
      case False
      have "\<forall>i < m. silo_fits (args ! i)" using True by (cases "m = 0") auto
      then show ?thesis by (rule refuses_then[OF wall_bad[OF False]])
    next
      case fit: True
      then have bad: "\<not> chunk_fits head (length args)" and m: "m = 0" using True less.prems(4) by (auto split: if_splits)
      have "n mod 15 = 0 \<Longrightarrow> 0 < n \<Longrightarrow> n \<le> 15 \<Longrightarrow> n = 15" by presburger
      then have n: "chunk n = n" "min 15 (length args) = n" using m ch less.prems(1-3) by auto
      obtain a where a: "pl_arity head = Inr a" using need by (auto simp: need_after_Inr)
      have "stops content offset C N (build_app C n head xs) [] need_error []" for xs
        by (rule build_app_stops[OF hd(3) _ _ a]) (use less.prems(1,2) len bad n(2) in \<open>auto simp: chunk_fits_def\<close>)
      then have st: "stops content offset C N (dbind (if c_build C then build_app C (chunk n) (outv C hv) (map fst xs)
          else dret (VNat (Direct 0))) (\<lambda>v. dret (v, node_info SILO_NODE_APP (chunk n)))) [] need_error []" for xs
        using stops_left[of content offset C N "build_app C n head (map fst xs)" "[]" need_error "[]" _ "[]" "[]"] C(3) m n(1)
        by (simp add: hv_def outv_def)
      have "codec written room content offset C N ?W (drepeat (chunk n) (decode_node C (depth + 1)))
          (map (\<lambda>i. (outv C (args ! i), vinfo (args ! i))) [m..<n]) ?js"
        by (rule codec_all[of "[m..<n]", unfolded lenc]) (use fit args(1) less.prems(2) in auto)
      then show ?thesis by (rule refuses_after) (rule st)
    qed
    show ?thesis unfolding body_app[OF ch(1,2)]
      apply (rule refuses_right[OF head])
      unfolding prod.case
      apply (rule refuses_check[OF canon])
      apply (rule refuses_check[OF mal])
      apply (rule last)
      done
  qed
  have up: "(ih @ concat (map ia [0..<m])) @ ?js = ih @ concat (map ia [0..<n])"
    using upt_add_eq_append[of 0 m "chunk n"] ch(3) by simp
  show ?case
  proof (cases "PL_SILO_MAX_DEPTH < depth")
    case True
    then show ?thesis unfolding encode_app_range_chunk[OF m_def] by (intro refuses_fails) simp
  next
    case False
    then show ?thesis using refuses_node[OF C(1) _ body] unfolding encode_app_range_chunk[OF m_def] up by simp
  qed
qed

lemma law_refuses:
  assumes C: "dec_ok R C" "depth \<le> PL_SILO_MAX_DEPTH" and a: "a \<noteq> 0" "a \<le> PL_NAT63_MAX"
    and name: "refuses written room content offset C N (encode_node S E name (depth + 1)) (decode_node C (depth + 1)) need_error i1 \<and>
          writes written room (encode_node S E body (depth + 1)) \<or>
        codec written room content offset C N (encode_node S E name (depth + 1)) (decode_node C (depth + 1)) (outv C name, vinfo name) i1 \<and>
          refuses written room content offset C N (encode_node S E body (depth + 1)) (decode_node C (depth + 1)) need_error i2"
  shows "refuses written room content offset C N (wseq (swrite_u8 S 0xf0) (wseq (encode_node S E name (depth + 1))
      (wseq (encode_u64_nat S a) (encode_node S E body (depth + 1))))) (decode_node C depth) need_error (i1 @ i2)"
proof (cases "PL_SILO_MAX_DEPTH < depth + 1")
  case True
  then have "fails (encode_node S E name (depth + 1))" by (subst encode_node.simps) simp
  then show ?thesis by (intro refuses_fails fails_seq2 fails_seq1)
next
  case False
  have ar: "codec written room content offset C N (encode_u64_nat S a) (decode_node C (depth + 1))
      (outv C (VNat (nat_rep (unat a))), ninfo (unat a)) []"
    using u64_nat_codec[OF C(1) _ a(1), of "depth + 1" N] False by (intro codecI) simp
  have ok: "ni_kind (ninfo (unat a)) = SILO_NODE_NAT \<and> ni_fits (ninfo (unat a)) \<and> ni_u64 (ninfo (unat a)) \<noteq> 0 \<and>
      ni_u64 (ninfo (unat a)) \<le> PL_NAT63_MAX" using a by (simp add: ninfo_def)
  from name have "refuses written room content offset C N (wseq (encode_node S E name (depth + 1))
      (wseq (encode_u64_nat S a) (encode_node S E body (depth + 1)))) (node_body C depth 0xf0) need_error (i1 @ ([] @ i2))"
    unfolding body_law
  proof (elim disjE conjE, goal_cases)
    case 1
    from 1(2) codec_writes[OF ar] have "writes written room (wseq (encode_u64_nat S a) (encode_node S E body (depth + 1)))"
      using emits_seq unfolding writes_def by (metis fails_seq1 fails_seq2)
    then show ?case by (rule refuses_left[OF 1(1)])
  next
    case 2
    show ?case
      apply (rule refuses_right[OF 2(1)])
      unfolding prod.case
      apply (rule refuses_right[OF ar])
      unfolding prod.case
      apply (rule refuses_check[OF ok])
      apply (rule refuses_then[OF 2(2)])
      done
  qed
  from refuses_node[OF C this] show ?thesis by simp
qed

text \<open>What the encoder writes for a value with a chunk that does not fit, the build pass refuses.\<close>

lemma value_refuses:
  assumes C: "dec_ok R C" "e_sha E = c_sha C" "c_build C" and N: "N \<le> 2 ^ 32"
    and "silo_wf v" "\<not> silo_fits v" "\<forall>p \<in> set (pin_occ v). pins_ok C E N p"
  shows "refuses written room content offset C N (encode_node S E v depth) (decode_node C depth) need_error
    (map (idx_of E) (pin_occ v))"
  using assms(5-)
proof (induction v arbitrary: depth)
  case (VApp need head args)
  let ?n = "length args" and ?ia = "\<lambda>i. map (idx_of E) (pin_occ (args ! i))"
  have ok: "\<not> is_app head" "0 < ?n" "?n \<le> 0xFFFFFFFF - 2" "pl_need_after head ?n = Inr need" "silo_wf head"
    using VApp.prems(1) by auto
  have bad: "\<not> (chunk_fits head ?n \<and> silo_fits head \<and> (\<forall>i < ?n. silo_fits (args ! i)))"
    using VApp.prems(2) by (simp add: list_all_length)
  have wf: "silo_wf (args ! i)" "\<forall>p \<in> set (pin_occ (args ! i)). pins_ok C E N p" if "i < ?n" for i
    using VApp.prems(1,3) nth_mem[OF that] by (auto simp: list_all_iff)
  have up: "map (idx_of E) (pin_occ (VApp need head args)) = map (idx_of E) (pin_occ head) @ concat (map ?ia [0..<?n])"
    by (simp add: map_concat comp_def) (metis (no_types, lifting) map_nth map_map comp_apply map_eq_conv)
  have "refuses written room content offset C N (encode_app_range S E head args ?n depth) (decode_node C depth) need_error
      (map (idx_of E) (pin_occ head) @ concat (map ?ia [0..<?n]))"
    by (rule range_refuses[OF C _ _ ok(1) _ _ ok(3,4,2) order_refl _ bad])
      (use value_codec[OF C(1,2) N] VApp ok(5) wf in auto)
  then show ?case unfolding up using ok(2)
    by (subst encode_node.simps) (auto intro: refuses_fails)
next
  case (VLaw a name body)
  show ?case
  proof (cases "PL_SILO_MAX_DEPTH < depth \<or> a = 0 \<or> PL_NAT63_MAX < a")
    case True
    then show ?thesis by (intro refuses_fails) (subst encode_node.simps, auto)
  next
    case False
    let ?i = "map (idx_of E) (pin_occ name)" and ?j = "map (idx_of E) (pin_occ body)"
    have body: "silo_fits body \<Longrightarrow> codec written room content offset C N (encode_node S E body (depth + 1)) (decode_node C (depth + 1))
        (outv C body, vinfo body) ?j"
      "\<not> silo_fits body \<Longrightarrow> refuses written room content offset C N (encode_node S E body (depth + 1)) (decode_node C (depth + 1))
        need_error ?j"
      using value_codec[OF C(1,2) N, of body "depth + 1"] VLaw.IH(2)[of "depth + 1"] VLaw.prems by auto
    have "refuses written room content offset C N (encode_node S E name (depth + 1)) (decode_node C (depth + 1)) need_error ?i \<and>
          writes written room (encode_node S E body (depth + 1)) \<or>
        codec written room content offset C N (encode_node S E name (depth + 1)) (decode_node C (depth + 1)) (outv C name, vinfo name) ?i \<and>
          refuses written room content offset C N (encode_node S E body (depth + 1)) (decode_node C (depth + 1)) need_error ?j"
    proof (cases "silo_fits name")
      case True
      then show ?thesis using value_codec[OF C(1,2) N, of name "depth + 1"] body(2) VLaw.prems by auto
    next
      case False
      then show ?thesis using VLaw.IH(1)[of "depth + 1"] VLaw.prems codec_writes[OF body(1)] refuses_writes[OF body(2)] by auto
    qed
    from law_refuses[OF C(1) _ _ _ this, of a] False show ?thesis
      by (subst encode_node.simps) (auto simp: not_less)
  qed
qed auto

end

subsection \<open>The pin table\<close>

definition firsts :: "'a list \<Rightarrow> 'a list" where
  "firsts xs = rev (remdups (rev xs))"

lemma firsts_snoc: "firsts (xs @ [x]) = (if x \<in> set xs then firsts xs else firsts xs @ [x])"
  by (simp add: firsts_def)

lemma firsts_set [simp]: "set (firsts xs) = set xs" and firsts_distinct [simp]: "distinct (firsts xs)"
  by (simp_all add: firsts_def)

lemma visit_firsts:
  assumes "\<forall>x \<in> set xs. f x < length fs \<and> fs ! f x = x" "distinct fs" "fs = firsts xs @ later"
  shows "visit 0 (map f xs) = Some (length (firsts xs))"
  using assms
proof (induction xs arbitrary: later rule: rev_induct)
  case Nil
  then show ?case by (simp add: firsts_def)
next
  case (snoc x xs)
  let ?n = "length (firsts xs)"
  obtain later' where m: "fs = firsts xs @ later'" using snoc.prems(3) by (auto simp: firsts_snoc split: if_splits)
  have IH: "visit 0 (map f xs) = Some ?n" by (rule snoc.IH[OF _ snoc.prems(2) m]) (use snoc.prems(1) in simp)
  have fx: "f x < length fs" "fs ! f x = x" using snoc.prems(1) by auto
  show ?case
  proof (cases "x \<in> set xs")
    case True
    then obtain j where j: "j < ?n" "firsts xs ! j = x" by (metis firsts_set in_set_conv_nth)
    then have "fs ! j = x" "j < length fs" using m by (auto simp: nth_append)
    then have "f x = j" using fx snoc.prems(2) by (metis nth_eq_iff_index_eq)
    then show ?thesis using True j IH by (simp add: visit_append firsts_snoc)
  next
    case False
    then have "fs ! ?n = x" "?n < length fs" using snoc.prems(3) by (auto simp: firsts_snoc nth_append)
    then have "f x = ?n" using fx snoc.prems(2) by (metis nth_eq_iff_index_eq)
    then show ?thesis using False IH by (simp add: visit_append firsts_snoc)
  qed
qed

lemma silo_table_Inr:
  "silo_table hash ps k idx0 = Inr idx \<Longrightarrow>
    (\<forall>p \<in> set ps. is_pin p \<and> hash p \<noteq> None) \<and> distinct (map (\<lambda>p. the (hash p)) ps) \<and>
    (\<forall>p \<in> set ps. map_of idx0 (the (hash p)) = None) \<and>
    idx = rev (zip (map (\<lambda>p. the (hash p)) ps) [k..<k + length ps]) @ idx0"
proof (induction ps arbitrary: k idx0)
  case (Cons p ps)
  then obtain h where h: "is_pin p" "hash p = Some h" "map_of idx0 h = None"
    and tl: "silo_table hash ps (Suc k) ((h, k) # idx0) = Inr idx" by (auto split: if_splits option.splits)
  from Cons.IH[OF tl] show ?case using h
    by (auto simp: upt_conv_Cons simp del: upt_Suc split: if_splits)
qed simp

lemma table_lookup:
  assumes "distinct hs"
  shows "map_of (rev (zip hs [0..<length hs])) h = Some i \<longleftrightarrow> i < length hs \<and> hs ! i = h"
proof -
  have "distinct (map fst (rev (zip hs [0..<length hs])))" using assms by (simp add: rev_map[symmetric])
  then have "map_of (rev (zip hs [0..<length hs])) h = Some i \<longleftrightarrow> (h, i) \<in> set (zip hs [0..<length hs])"
    by (simp add: map_of_eq_Some_iff)
  then show ?thesis by (auto simp: in_set_zip)
qed

subsection \<open>The header\<close>

context byte_source
begin

lemma dread_exact:
  assumes "dec_ok R C" "remains content offset d (bs @ rest)" "length bs = n"
  obtains r where "dread C n d = Inr (bs, d\<lparr>d_r := r\<rparr>)" "remains content offset (d\<lparr>d_r := r\<rparr>) rest"
proof -
  let ?d = "d\<lparr>d_used := replicate (length (d_pins d)) False, d_next := 0, d_order := []\<rparr>"
  have "remains content offset ?d (bs @ rest)" "pin_state C (length (d_pins d)) ?d 0"
    using assms(2) by (simp_all add: remains_def pin_state_def Let_def)
  then obtain d' where d': "dread C n ?d = Inr (bs, d')" "remains content offset d' rest"
    using runs_dread[OF assms(1,3), of "length (d_pins d)"] unfolding runs_def by fastforce
  then obtain r where r: "sread (c_src C) n (d_r d) = Inr (bs, r)" "d' = ?d\<lparr>d_r := r\<rparr>"
    by (auto simp: dread_def res_simps)
  then have "dread C n d = Inr (bs, d\<lparr>d_r := r\<rparr>)" by (simp add: dread_def)
  moreover have "remains content offset (d\<lparr>d_r := r\<rparr>) rest" using d'(2) r(2) by (simp add: remains_def Let_def)
  ultimately show thesis using that by blast
qed

lemma header_pins_capture:
  assumes "dec_ok R C" "c_capture C" "\<forall>h \<in> set hs. length h = 32" "distinct hs" "set hs \<inter> set (d_pins d) = {}"
    and "remains content offset d (concat hs @ rest)"
  shows "\<exists>r. header_pins C (length hs) i d = Inr ((), d\<lparr>d_r := r, d_pins := d_pins d @ hs\<rparr>) \<and>
    remains content offset (d\<lparr>d_r := r, d_pins := d_pins d @ hs\<rparr>) rest"
  using assms(3-)
proof (induction hs arbitrary: i d)
  case Nil
  then show ?case by (auto simp: dret_def intro!: exI[of _ "d_r d"])
next
  case (Cons h hs)
  obtain r where r: "dread C 32 d = Inr (h, d\<lparr>d_r := r\<rparr>)" "remains content offset (d\<lparr>d_r := r\<rparr>) (concat hs @ rest)"
    using dread_exact[OF assms(1), of d h "concat hs @ rest" 32] Cons.prems by auto
  let ?d = "d\<lparr>d_r := r, d_pins := d_pins d @ [h]\<rparr>"
  have "remains content offset ?d (concat hs @ rest)" using r(2) by (simp add: remains_def Let_def)
  from Cons.IH[of ?d "Suc i", OF _ _ _ this] Cons.prems
  show ?case using r assms(2) by (auto simp: dbind_def)
qed

lemma header_pins_check:
  assumes "dec_ok R C" "\<not> c_capture C" "\<forall>h \<in> set hs. length h = 32" "drop i (d_pins d) = hs" "i \<le> length (d_pins d)"
    and "remains content offset d (concat hs @ rest)"
  shows "\<exists>r. header_pins C (length hs) i d = Inr ((), d\<lparr>d_r := r\<rparr>) \<and> remains content offset (d\<lparr>d_r := r\<rparr>) rest"
  using assms(3-)
proof (induction hs arbitrary: i d)
  case Nil
  then show ?case by (auto simp: dret_def intro!: exI[of _ "d_r d"])
next
  case (Cons h hs)
  obtain r where r: "dread C 32 d = Inr (h, d\<lparr>d_r := r\<rparr>)" "remains content offset (d\<lparr>d_r := r\<rparr>) (concat hs @ rest)"
    using dread_exact[OF assms(1), of d h "concat hs @ rest" 32] Cons.prems by auto
  have i: "d_pins d ! i = h" "drop (Suc i) (d_pins d) = hs" "Suc i \<le> length (d_pins d)"
    using Cons.prems(2,3) by (metis list.sel(1) hd_drop_conv_nth drop_eq_Nil list.distinct(1) not_le, metis drop_Suc list.sel(3) tl_drop,
      metis Suc_leI drop_eq_Nil le_neq_implies_less list.distinct(1) order_refl)
  from Cons.IH[of "Suc i" "d\<lparr>d_r := r\<rparr>"] Cons.prems i r show ?case using assms(2) by (auto simp: dbind_def)
qed

end

definition varnat_bytes :: "nat \<Rightarrow> bytes" where
  "varnat_bytes n = word_of_nat (if n = 0 then 0 else width_u64 (word_of_nat n)) #
     take (if n = 0 then 0 else width_u64 (word_of_nat n)) (put64le (word_of_nat n))"

definition header_bytes :: "bytes list \<Rightarrow> bytes" where
  "header_bytes hs = silo_magic @ varnat_bytes (length hs) @ concat hs"

lemma word_nat_zero: "n < 2 ^ 64 \<Longrightarrow> (word_of_nat n :: u64) = 0 \<longleftrightarrow> n = 0"
proof -
  assume "n < 2 ^ 64"
  then have u: "unat (word_of_nat n :: u64) = n" by (simp add: unsigned_of_nat take_bit_eq_mod)
  have "unat (word_of_nat n :: u64) = 0 \<longleftrightarrow> (word_of_nat n :: u64) = 0" by (rule unsigned_eq_0_iff)
  then show ?thesis unfolding u by (rule sym)
qed

context byte_sink
begin

lemma emits_varnat: "n < 2 ^ 64 \<Longrightarrow> emits written room (swrite_varnat S (word_of_nat n)) (varnat_bytes n)"
  using emits_seq[OF emits_u8 emits_le] by (simp add: swrite_varnat_def varnat_bytes_def Let_def word_nat_zero)

end

lemma runs_same:
  assumes "runs content offset C N f bs x is" "\<And>d d'. f d = Inr (x, d') \<Longrightarrow> g d = Inr (y, d')"
  shows "runs content offset C N g bs y is"
  using assms unfolding runs_def by metis

context byte_source
begin

lemma runs_varnat:
  assumes C: "dec_ok R C" and n: "n < 2 ^ 64"
  shows "runs content offset C N (decode_varnat C) (varnat_bytes n) (word_of_nat n) []"
proof -
  define w where "w = (if n = 0 then 0 else width_u64 (word_of_nat n))"
  let ?b = "take w (put64le (word_of_nat n))"
  have w: "w \<le> 8" using width_le_8 by (simp add: w_def)
  have uw: "unat (word_of_nat w :: u8) = w" using w by (simp add: unsigned_of_nat take_bit_eq_mod)
  have get: "getle ?b = word_of_nat n" using getle_put[of "word_of_nat n"] by (cases "n = 0") (simp_all add: w_def getle_def[of "[]"])
  have ok: "\<not> ((word_of_nat n :: u64) = 0 \<and> w \<noteq> 0) \<and> \<not> ((word_of_nat n :: u64) \<noteq> 0 \<and> w \<noteq> width_u64 (word_of_nat n))"
    using word_nat_zero[OF n] by (simp add: w_def)
  have 1: "runs content offset C N (dread C 1) [word_of_nat w] [word_of_nat w] []" by (rule runs_dread[OF C]) simp
  have 2: "runs content offset C N (dread C w) ?b ?b []" by (rule runs_dread[OF C]) (use w in simp)
  have "runs content offset C N (decode_varnat C) ([word_of_nat w] @ ?b) (word_of_nat n) []"
    unfolding decode_varnat_def
    apply (rule runs_bind_js[OF 1])
    unfolding Let_def list.sel uw
    apply (rule runs_check[OF w])
    apply (rule runs_bind0[OF 2])
    unfolding get
    apply (rule runs_check[OF ok])
    apply simp
    done
  then show ?thesis by (simp add: varnat_bytes_def flip: w_def)
qed

lemma runs_magic:
  assumes "dec_ok R C"
  shows "runs content offset C N (\<lambda>d. case dread C 5 d of
         Inl e \<Rightarrow> Inl m | Inr (magic, d') \<Rightarrow> if magic = silo_magic then Inr ((), d') else Inl m) silo_magic () []"
proof -
  have "runs content offset C N (dread C 5) silo_magic silo_magic []"
    by (rule runs_dread[OF assms]) (simp add: silo_magic_def string_bytes_def)
  then show ?thesis by (rule runs_same) simp
qed

lemma header_decodes:
  assumes C: "dec_ok R C" and hs: "\<forall>h \<in> set hs. length h = 32" "distinct hs" "length hs \<le> PL_SILO_MAX_PIN_COUNT"
    and d: "remains content offset d (header_bytes hs @ rest)" "d_next d = 0" "d_order d = []"
      "if c_capture C then d_pins d = [] \<and> d_used d = [] else d_pins d = hs"
  shows "\<exists>d'. decode_header C d = Inr ((), d') \<and> remains content offset d' rest \<and> pin_state C (length hs) d' 0 \<and> d_pins d' = hs"
proof -
  let ?n = "length hs" and ?N = "length (d_pins d)"
  have n: "?n < 2 ^ 64" "unat (word_of_nat ?n :: u64) = ?n" "?n \<le> PL_SILO_MAX_PIN_COUNT \<and> ?n \<le> SIZE_MAX div 32"
    using hs(3) by (simp_all add: silo_consts unsigned_of_nat take_bit_eq_mod)
  have "pin_state C ?N d 0" using d by (auto simp: pin_state_def)
  moreover have "remains content offset d (silo_magic @ varnat_bytes ?n @ concat hs @ rest)"
    using d(1) by (simp add: header_bytes_def)
  ultimately obtain d1 where d1: "(case dread C 5 d of Inl e \<Rightarrow> Inl ''bad Silo magic or version''
       | Inr (magic, d') \<Rightarrow> if magic = silo_magic then Inr ((), d') else Inl ''bad Silo magic or version'') = Inr ((), d1)"
    "remains content offset d1 (varnat_bytes ?n @ concat hs @ rest)" "pin_state C ?N d1 0" "d_pins d1 = d_pins d"
    using runs_magic[OF C, of ?N "''bad Silo magic or version''"] unfolding runs_def by fastforce
  then obtain d2 where d2: "decode_varnat C d1 = Inr (word_of_nat ?n, d2)" "remains content offset d2 (concat hs @ rest)"
    "pin_state C ?N d2 0" "d_pins d2 = d_pins d" using runs_varnat[OF C n(1), of ?N] unfolding runs_def by fastforce
  have mal: "c_malloc C k" for k using C by (simp add: dec_ok_def)
  have hdr: "decode_header C d = (if c_capture C then header_pins C ?n 0 (d2\<lparr>d_pins := [], d_used := replicate ?n False\<rparr>)
      else if ?n \<noteq> length (d_pins d2) then Inl ''Silo pin table changed on rewind'' else header_pins C ?n 0 d2)"
    unfolding decode_header_def dbind_def d1(1) rbind_simps prod.case d2(1) n(2) Let_def drequire_def
    using n(3) mal by (simp add: dret_def)
  show ?thesis
  proof (cases "c_capture C")
    case True
    let ?d = "d2\<lparr>d_pins := [], d_used := replicate ?n False\<rparr>"
    have "remains content offset ?d (concat hs @ rest)" using d2(2) by (simp add: remains_def Let_def)
    from header_pins_capture[OF C True hs(1,2) _ this, of 0] obtain r where
      "header_pins C ?n 0 ?d = Inr ((), ?d\<lparr>d_r := r, d_pins := hs\<rparr>)" "remains content offset (?d\<lparr>d_r := r, d_pins := hs\<rparr>) rest"
      by auto
    moreover have "pin_state C ?n (?d\<lparr>d_r := r, d_pins := hs\<rparr>) 0" using d2(3) True by (simp add: pin_state_def)
    ultimately show ?thesis using hdr True by auto
  next
    case False
    then have p: "d_pins d2 = hs" using d(4) d2(4) by simp
    from header_pins_check[OF C False hs(1) _ _ d2(2), of 0] p obtain r where
      "header_pins C ?n 0 d2 = Inr ((), d2\<lparr>d_r := r\<rparr>)" "remains content offset (d2\<lparr>d_r := r\<rparr>) rest" by auto
    then show ?thesis using hdr False p by (auto simp: pin_state_def)
  qed
qed

end

subsection \<open>Streams\<close>

definition node_read :: "('r \<Rightarrow> bytes) \<Rightarrow> ('r \<Rightarrow> nat) \<Rightarrow> ('r, 'h) dcfg \<Rightarrow> nat \<Rightarrow> pval \<Rightarrow> bytes \<Rightarrow> nat list \<Rightarrow> bool" where
  "node_read content offset C N v bs is \<longleftrightarrow>
     (if c_build C \<and> \<not> silo_fits v then stops content offset C N (decode_node C 0) bs need_error is
      else runs content offset C N (decode_node C 0) bs (outv C v, vinfo v) is)"

context silo_codec
begin

text \<open>What a successful encoding has written, and how both passes read it.\<close>

lemma value_read:
  assumes "dec_ok R C" "e_sha E = c_sha C" "N \<le> 2 ^ 32" "silo_wf v" "\<forall>p \<in> set (pin_occ v). pins_ok C E N p"
  shows "fails (encode_node S E v 0) \<or>
    (\<exists>bs. emits written room (encode_node S E v 0) bs \<and> node_read content offset C N v bs (map (idx_of E) (pin_occ v)))"
  using value_codec[OF assms(1-4) _ assms(5), of 0] value_refuses[OF assms(1,2) _ assms(3,4) _ assms(5), of 0]
  unfolding node_read_def codec_def refuses_def by auto

lemma encoded_stream:
  assumes sha: "\<And>bs. length (sha bs) = 32" and h32: "\<forall>p \<in> set subpins. \<forall>h. encode_pin_hash ph p = Some h \<longrightarrow> length h = 32"
    and enc: "pl_silo_encode_resolved S sha root subpins ph w = Inr w'" and ok: "silo_wf root"
    and tab: "map (\<lambda>p. the (encode_pin_hash ph p)) subpins = firsts (map (\<lambda>p. the (encode_pin_hash ph p)) (pin_occ root))"
    and C: "dec_ok R C" "c_sha C = sha"
    and res: "c_build C \<Longrightarrow> (\<forall>p \<in> set (pin_occ root). \<forall>i < length subpins.
        encode_pin_hash ph (subpins ! i) = encode_pin_hash ph p \<longrightarrow> c_resolved C ! i = p)"
    and hs_def: "hs = map (\<lambda>p. the (encode_pin_hash ph p)) subpins"
  shows "\<exists>bs. written (w_ctx w') = written (w_ctx w) @ header_bytes hs @ bs \<and>
    w_pos w' = w_pos w + length (header_bytes hs @ bs) \<and> distinct hs \<and> (\<forall>h \<in> set hs. length h = 32) \<and>
    length hs \<le> PL_SILO_MAX_PIN_COUNT \<and> (\<exists>is. visit 0 is = Some (length hs) \<and>
    node_read content offset C (length hs) root bs is)"
proof -
  let ?hash = "encode_pin_hash ph"
  obtain idx where idx: "silo_table ?hash subpins 0 [] = Inr idx" and len: "length subpins \<le> PL_SILO_MAX_PIN_COUNT"
    and run: "wseq (swrite S silo_magic) (wseq (swrite_varnat S (word_of_nat (length subpins)))
        (wseq (wall (\<lambda>p. case ?hash p of None \<Rightarrow> werr '''' | Some h \<Rightarrow> swrite S h) subpins)
          (encode_node S \<lparr>e_idx = idx, e_hash = ?hash, e_sha = sha\<rparr> root 0))) w = Inr w'"
    using enc by (auto simp: pl_silo_encode_resolved_def Let_def res_simps split: if_splits)
  note T = silo_table_Inr[OF idx]
  let ?E = "\<lparr>e_idx = idx, e_hash = ?hash, e_sha = sha\<rparr>"
  have hs: "distinct hs" "idx = rev (zip hs [0..<length hs])" "length hs = length subpins"
    "\<forall>p \<in> set subpins. is_pin p \<and> ?hash p \<noteq> None" using T by (auto simp: hs_def)
  have look: "map_of idx h = Some i \<longleftrightarrow> i < length hs \<and> hs ! i = h" for h i
    unfolding hs(2) by (rule table_lookup[OF hs(1)])
  have pins: "pins_ok C ?E (length hs) p" if p: "p \<in> set (pin_occ root)" for p
  proof -
    have "c_resolved C ! i = p" if i: "i < length hs" "?hash p = Some (hs ! i)" "c_build C" for i
    proof -
      have "?hash (subpins ! i) = Some (hs ! i)" using i(1) hs(3,4) by (simp add: hs_def)
      then show ?thesis using res[OF i(3)] p i hs(3) by simp
    qed
    then show ?thesis unfolding pins_ok_def by (auto simp: look)
  qed
  have N: "length hs \<le> 2 ^ 32" using len hs(3) by (simp add: silo_consts)
  note cod = value_read[OF C(1) _ N ok, of ?E]
  have "\<not> fails (encode_node S ?E root 0)"
    using run fails_seq2[OF fails_seq2[OF fails_seq2]] unfolding fails_def by (metis Inr_not_Inl)
  then obtain bs where bs: "emits written room (encode_node S ?E root 0) bs"
    "node_read content offset C (length hs) root bs (map (idx_of ?E) (pin_occ root))"
    using cod C(2) pins by auto
  have "emits written room (wall (\<lambda>p. case ?hash p of None \<Rightarrow> werr '''' | Some h \<Rightarrow> swrite S h) subpins) (concat hs)"
    unfolding hs_def by (rule emits_wall) (use hs(4) emits_swrite in \<open>auto split: option.splits\<close>)
  moreover have "emits written room (swrite_varnat S (word_of_nat (length subpins))) (varnat_bytes (length hs))"
    using len hs(3) by (simp add: emits_varnat silo_consts)
  ultimately have all: "emits written room (wseq (swrite S silo_magic) (wseq (swrite_varnat S (word_of_nat (length subpins)))
        (wseq (wall (\<lambda>p. case ?hash p of None \<Rightarrow> werr '''' | Some h \<Rightarrow> swrite S h) subpins)
          (encode_node S ?E root 0)))) (silo_magic @ varnat_bytes (length hs) @ concat hs @ bs)"
    by (intro emits_seq emits_swrite bs(1))
  have vis: "visit 0 (map (idx_of ?E) (pin_occ root)) = Some (length hs)"
  proof -
    let ?f = "\<lambda>h. the (map_of idx h)" and ?ks = "map (\<lambda>p. the (?hash p)) (pin_occ root)"
    have "?f h < length hs \<and> hs ! ?f h = h" if h: "h \<in> set ?ks" for h
    proof -
      have "h \<in> set hs" using h tab by (metis hs_def firsts_set)
      then obtain i where "i < length hs" "hs ! i = h" by (auto simp: in_set_conv_nth)
      then show ?thesis using look by (metis option.sel)
    qed
    then have "visit 0 (map ?f ?ks) = Some (length (firsts ?ks))"
      by (intro visit_firsts[where fs = hs and later = "[]"]) (use hs(1) tab in \<open>auto simp: hs_def\<close>)
    moreover have "map (idx_of ?E) (pin_occ root) = map ?f ?ks" by (simp add: idx_of_def)
    moreover have "hs = firsts ?ks" using tab by (simp add: hs_def)
    ultimately show ?thesis by (simp only:)
  qed
  have "\<forall>h \<in> set hs. length h = 32" using hs(4) h32 by (auto simp: hs_def)
  moreover have "written (w_ctx w') = written (w_ctx w) @ header_bytes hs @ bs"
    "w_pos w' = w_pos w + length (header_bytes hs @ bs)"
    using all run unfolding emits_def header_bytes_def by auto
  ultimately show ?thesis using vis bs(2) hs(1,3) len by metis
qed

end

context byte_source
begin

text \<open>Both passes over a stream that holds a header and a node.\<close>

lemma scan_accepts:
  assumes sha: "\<And>bs. length (sha bs) = 32" and hs: "\<forall>h \<in> set hs. length h = 32" "distinct hs" "length hs \<le> PL_SILO_MAX_PIN_COUNT"
    and r: "content (r_ctx r) = header_bytes hs @ bs" "r_len r = length (header_bytes hs @ bs)"
    and run: "\<And>C :: ('c, unit) dcfg. dec_ok R C \<Longrightarrow> c_sha C = sha \<Longrightarrow> \<not> c_build C \<Longrightarrow>
      \<exists>is x. visit 0 is = Some (length hs) \<and> runs content offset C (length hs) (decode_node C 0) bs x is"
  shows "pl_silo_scan_stream R (\<lambda>_. True) sha canonical r = Inr \<lparr>s_pins = hs, s_used = [0..<length hs]\<rparr>"
proof -
  obtain c where c: "src_rewind R (r_ctx r) = Some c" "content c = header_bytes hs @ bs" "offset c = 0"
    using rewinds[of "r_ctx r"] r(1) by auto
  let ?C = "\<lparr>c_src = R, c_alloc = (\<lambda>h n. None), c_malloc = (\<lambda>_. True), c_sha = sha, c_resolved = [],
                c_build = False, c_canonical = canonical, c_capture = True\<rparr> :: ('c, unit) dcfg"
  let ?d = "\<lparr>d_r = r\<lparr>r_ctx := c, r_pos := 0\<rparr>, d_heap = (), d_pins = [], d_used = [], d_order = [], d_next = 0\<rparr>"
  have C: "dec_ok R ?C" using sha by (simp add: dec_ok_def)
  have "remains content offset ?d (header_bytes hs @ bs)" using c r by (simp add: remains_def)
  then obtain d1 where d1: "decode_header ?C ?d = Inr ((), d1)" "remains content offset d1 bs" "pin_state ?C (length hs) d1 0"
    "d_pins d1 = hs" using header_decodes[OF C hs, of ?d bs] by auto
  obtain is' x where x: "visit 0 is' = Some (length hs)" "runs content offset ?C (length hs) (decode_node ?C 0) bs x is'"
    using run[OF C] by auto
  then obtain d2 where d2: "decode_node ?C 0 d1 = Inr (x, d2)" "remains content offset d2 []"
    "pin_state ?C (length hs) d2 (length hs)" "d_pins d2 = hs"
    using d1 unfolding runs_def by (metis append_Nil2 order_refl)
  have "r_pos (d_r d2) = r_len (d_r d2)" using d2(2) by (auto simp: remains_def Let_def)
  moreover have "d_next d2 = length hs" "d_order d2 = [0..<length hs]" using d2(3) by (auto simp: pin_state_def)
  ultimately show ?thesis using c(1) d1(1) d2(1,4)
    by (cases x) (simp add: pl_silo_scan_stream_def srewind_def Let_def dbind_def)
qed

lemma build_returns:
  fixes alloc :: "'h \<Rightarrow> nat \<Rightarrow> 'h option"
  assumes sha: "\<And>bs. length (sha bs) = 32" and hs: "\<forall>h \<in> set hs. length h = 32" "distinct hs" "length hs \<le> PL_SILO_MAX_PIN_COUNT"
    and r: "content (r_ctx r) = header_bytes hs @ bs" "r_len r = length (header_bytes hs @ bs)"
    and alloc: "\<And>h n. \<exists>h'. alloc h n = Some h'" and acc: "s_pins accepted = hs"
    and run: "\<And>C :: ('c, 'h) dcfg. dec_ok R C \<Longrightarrow> c_sha C = sha \<Longrightarrow> c_build C \<Longrightarrow> c_resolved C = resolved \<Longrightarrow>
      \<exists>is i. visit 0 is = Some (length hs) \<and> runs content offset C (length hs) (decode_node C 0) bs (v, i) is"
  shows "\<exists>store'. pl_silo_build_stream R alloc (\<lambda>_. True) sha r store accepted resolved = Inr (v, store')"
proof -
  obtain c where c: "src_rewind R (r_ctx r) = Some c" "content c = header_bytes hs @ bs" "offset c = 0"
    using rewinds[of "r_ctx r"] r(1) by auto
  let ?C = "\<lparr>c_src = R, c_alloc = alloc, c_malloc = (\<lambda>_. True), c_sha = sha, c_resolved = resolved,
                c_build = True, c_canonical = False, c_capture = False\<rparr>"
  let ?d = "\<lparr>d_r = r\<lparr>r_ctx := c, r_pos := 0\<rparr>, d_heap = store, d_pins = hs, d_used = [], d_order = [], d_next = 0\<rparr>"
  have C: "dec_ok R ?C" using sha alloc by (simp add: dec_ok_def)
  have "remains content offset ?d (header_bytes hs @ bs)" using c r by (simp add: remains_def)
  then obtain d1 where d1: "decode_header ?C ?d = Inr ((), d1)" "remains content offset d1 bs" "pin_state ?C (length hs) d1 0"
    using header_decodes[OF C hs, of ?d bs] by auto
  obtain is' i where x: "visit 0 is' = Some (length hs)" "runs content offset ?C (length hs) (decode_node ?C 0) bs (v, i) is'"
    using run[OF C] by auto
  then obtain d2 where d2: "decode_node ?C 0 d1 = Inr ((v, i), d2)" "remains content offset d2 []"
    using d1 unfolding runs_def by (metis append_Nil2 order_refl)
  have "r_pos (d_r d2) = r_len (d_r d2)" using d2(2) by (auto simp: remains_def Let_def)
  then show ?thesis using c(1) d1(1) d2(1) acc
    by (simp add: pl_silo_build_stream_def srewind_def Let_def dbind_def)
qed

lemma build_stops:
  fixes alloc :: "'h \<Rightarrow> nat \<Rightarrow> 'h option"
  assumes sha: "\<And>bs. length (sha bs) = 32" and hs: "\<forall>h \<in> set hs. length h = 32" "distinct hs" "length hs \<le> PL_SILO_MAX_PIN_COUNT"
    and r: "content (r_ctx r) = header_bytes hs @ bs" "r_len r = length (header_bytes hs @ bs)"
    and alloc: "\<And>h n. \<exists>h'. alloc h n = Some h'" and acc: "s_pins accepted = hs"
    and run: "\<And>C :: ('c, 'h) dcfg. dec_ok R C \<Longrightarrow> c_sha C = sha \<Longrightarrow> c_build C \<Longrightarrow> c_resolved C = resolved \<Longrightarrow>
      \<exists>is. visit 0 is = Some (length hs) \<and> stops content offset C (length hs) (decode_node C 0) bs e is"
  shows "pl_silo_build_stream R alloc (\<lambda>_. True) sha r store accepted resolved = Inl e"
proof -
  obtain c where c: "src_rewind R (r_ctx r) = Some c" "content c = header_bytes hs @ bs" "offset c = 0"
    using rewinds[of "r_ctx r"] r(1) by auto
  let ?C = "\<lparr>c_src = R, c_alloc = alloc, c_malloc = (\<lambda>_. True), c_sha = sha, c_resolved = resolved,
                c_build = True, c_canonical = False, c_capture = False\<rparr>"
  let ?d = "\<lparr>d_r = r\<lparr>r_ctx := c, r_pos := 0\<rparr>, d_heap = store, d_pins = hs, d_used = [], d_order = [], d_next = 0\<rparr>"
  have C: "dec_ok R ?C" using sha alloc by (simp add: dec_ok_def)
  have "remains content offset ?d (header_bytes hs @ bs)" using c r by (simp add: remains_def)
  then obtain d1 where d1: "decode_header ?C ?d = Inr ((), d1)" "remains content offset d1 bs" "pin_state ?C (length hs) d1 0"
    using header_decodes[OF C hs, of ?d bs] by auto
  obtain is' where "visit 0 is' = Some (length hs)" "stops content offset ?C (length hs) (decode_node ?C 0) bs e is'"
    using run[OF C] by auto
  then have "decode_node ?C 0 d1 = Inl e" using d1 unfolding stops_def by (metis append_Nil2 order_refl)
  then show ?thesis using c(1) d1(1) acc
    by (simp add: pl_silo_build_stream_def srewind_def Let_def dbind_def)
qed

end

interpretation silo: silo_codec silo_buffer_write "\<lambda>bs. bs" "2 ^ 63 - 1" pack_source pr_bytes pr_pos
  by unfold_locales

definition pack_open :: "bytes \<Rightarrow> pack_reader reader" where
  "pack_open bytes = \<lparr>r_ctx = \<lparr>pr_bytes = bytes, pr_pos = 0\<rparr>, r_len = length bytes, r_pos = 0\<rparr>"

subsection \<open>Properties\<close>

text \<open>
  A successful encoding, read by the scan pass and by the build pass.
\<close>

lemma encoded_passes:
  assumes "\<And>bs. length (sha bs) = 32" and "\<forall>p \<in> set subpins. \<forall>h. encode_pin_hash pin_hash p = Some h \<longrightarrow> length h = 32"
    and "silo_wf root"
    and "map (\<lambda>p. the (encode_pin_hash pin_hash p)) subpins = firsts (map (\<lambda>p. the (encode_pin_hash pin_hash p)) (pin_occ root))"
    and "\<forall>p \<in> set (pin_occ root). \<forall>q \<in> set subpins. encode_pin_hash pin_hash q = encode_pin_hash pin_hash p \<longrightarrow> q = p"
    and "pl_silo_encode_buffer sha root subpins pin_hash = Inr (bytes, hash)"
    and scan: "scan = \<lparr>s_pins = map (\<lambda>p. the (encode_pin_hash pin_hash p)) subpins, s_used = [0..<length subpins]\<rparr>"
  shows "hash = sha bytes" "pl_silo_scan_stream pack_source (\<lambda>_. True) sha True (pack_open bytes) = Inr scan"
    "\<forall>h n. (alloc :: 'h \<Rightarrow> nat \<Rightarrow> 'h option) h n \<noteq> None \<Longrightarrow> silo_fits root \<Longrightarrow> \<exists>store'.
       pl_silo_build_stream pack_source alloc (\<lambda>_. True) sha (pack_open bytes) store scan subpins = Inr (root, store')"
    "\<forall>h n. alloc h n \<noteq> None \<Longrightarrow> \<not> silo_fits root \<Longrightarrow>
       pl_silo_build_stream pack_source alloc (\<lambda>_. True) sha (pack_open bytes) store scan subpins = Inl need_error"
proof -
  let ?hs = "map (\<lambda>p. the (encode_pin_hash pin_hash p)) subpins"
  obtain w' where w': "pl_silo_encode_resolved silo_buffer_write sha root subpins pin_hash \<lparr>w_ctx = [], w_pos = 0\<rparr> = Inr w'"
    "bytes = w_ctx w'" "hash = sha (w_ctx w')"
    using assms(6) by (auto simp: pl_silo_encode_buffer_def res_simps split: if_splits)
  then show "hash = sha bytes" by simp
  have stream: "\<exists>bs. bytes = header_bytes ?hs @ bs \<and> distinct ?hs \<and> (\<forall>h \<in> set ?hs. length h = 32) \<and>
    length ?hs \<le> PL_SILO_MAX_PIN_COUNT \<and> (\<exists>is. visit 0 is = Some (length ?hs) \<and> node_read pr_bytes pr_pos C (length ?hs) root bs is)"
    if C: "dec_ok pack_source C" "c_sha C = sha" "c_build C \<Longrightarrow> c_resolved C = subpins" for C :: "(pack_reader, 'k) dcfg"
  proof -
    have "\<forall>p \<in> set (pin_occ root). \<forall>i < length subpins.
        encode_pin_hash pin_hash (subpins ! i) = encode_pin_hash pin_hash p \<longrightarrow> c_resolved C ! i = p" if "c_build C"
      using C(3)[OF that] assms(5) by auto
    from silo.encoded_stream[OF assms(1,2) w'(1) assms(3,4) C(1,2) this refl] show ?thesis using w'(2) by auto
  qed
  define C0 :: "(pack_reader, unit) dcfg" where "C0 = \<lparr>c_src = pack_source, c_alloc = (\<lambda>h n. Some h),
    c_malloc = (\<lambda>_. True), c_sha = sha, c_resolved = subpins, c_build = False, c_canonical = True, c_capture = True\<rparr>"
  have "dec_ok pack_source C0" using assms(1) by (simp add: C0_def dec_ok_def)
  then obtain bs where bs: "bytes = header_bytes ?hs @ bs" "distinct ?hs" "\<forall>h \<in> set ?hs. length h = 32"
    "length ?hs \<le> PL_SILO_MAX_PIN_COUNT" using stream[of C0] by (auto simp: C0_def)
  have run: "\<exists>is. visit 0 is = Some (length ?hs) \<and> node_read pr_bytes pr_pos C (length ?hs) root bs is"
    if C: "dec_ok pack_source C" "c_sha C = sha" "c_build C \<Longrightarrow> c_resolved C = subpins" for C :: "(pack_reader, 'k) dcfg"
    using stream[OF C] bs(1) by auto
  have r: "pr_bytes (r_ctx (pack_open bytes)) = header_bytes ?hs @ bs" "r_len (pack_open bytes) = length (header_bytes ?hs @ bs)"
    using bs(1) by (simp_all add: pack_open_def)
  have sc: "s_pins scan = ?hs" "scan = \<lparr>s_pins = ?hs, s_used = [0..<length ?hs]\<rparr>" by (simp_all add: scan)
  show "pl_silo_scan_stream pack_source (\<lambda>_. True) sha True (pack_open bytes) = Inr scan"
    unfolding sc(2) by (rule pack.scan_accepts[OF assms(1) bs(3,2,4) r]) (use run in \<open>fastforce simp: node_read_def\<close>)
  assume al: "\<forall>h n. alloc h n \<noteq> None"
  show "\<exists>store'. pl_silo_build_stream pack_source alloc (\<lambda>_. True) sha (pack_open bytes) store scan subpins = Inr (root, store')"
    if "silo_fits root"
    by (rule pack.build_returns[OF assms(1) bs(3,2,4) r _ sc(1)])
      (use run al that in \<open>force simp: node_read_def outv_def\<close>)+
  show "pl_silo_build_stream pack_source alloc (\<lambda>_. True) sha (pack_open bytes) store scan subpins = Inl need_error"
    if "\<not> silo_fits root"
    by (rule pack.build_stops[OF assms(1) bs(3,2,4) r _ sc(1)])
      (use run al that in \<open>force simp: node_read_def\<close>)+
qed

text \<open>
  C4. What \<open>pl_silo_encode_buffer\<close> produces for a well-formed value, the canonical scan accepts, and returns the
  encoder's pin table, every entry used in order of first occurrence; and the build pass returns the encoded value, when in every
  APP of the value the head with the first 15 arguments, or all of them when there are fewer, has a need below \<open>2 ^ 20\<close> as well,
  and the allocator finds memory. The encoder has to be given the direct pins of the value in order of first occurrence, and a
  hash has to name one pin.
\<close>

theorem silo_roundtrip:
  assumes "\<And>bs. length (sha bs) = 32" and "\<forall>p \<in> set subpins. \<forall>h. encode_pin_hash pin_hash p = Some h \<longrightarrow> length h = 32"
    and "silo_wf root"
    and "map (\<lambda>p. the (encode_pin_hash pin_hash p)) subpins = firsts (map (\<lambda>p. the (encode_pin_hash pin_hash p)) (pin_occ root))"
    and "\<forall>p \<in> set (pin_occ root). \<forall>q \<in> set subpins. encode_pin_hash pin_hash q = encode_pin_hash pin_hash p \<longrightarrow> q = p"
    and "pl_silo_encode_buffer sha root subpins pin_hash = Inr (bytes, hash)"
  shows "hash = sha bytes \<and>
    (\<exists>scan. pl_silo_scan_stream pack_source (\<lambda>_. True) sha True (pack_open bytes) = Inr scan \<and>
      s_pins scan = map (\<lambda>p. the (encode_pin_hash pin_hash p)) subpins \<and> s_used scan = [0..<length subpins] \<and>
      (\<forall>(alloc :: 'h \<Rightarrow> nat \<Rightarrow> 'h option) store. silo_fits root \<and> (\<forall>h n. alloc h n \<noteq> None) \<longrightarrow>
        (\<exists>store'. pl_silo_build_stream pack_source alloc (\<lambda>_. True) sha (pack_open bytes) store scan subpins
           = Inr (root, store'))))"
proof -
  let ?scan = "\<lparr>s_pins = map (\<lambda>p. the (encode_pin_hash pin_hash p)) subpins, s_used = [0..<length subpins]\<rparr>"
  note passes = encoded_passes[OF assms refl]
  show ?thesis using passes(1,2) passes(3)[where 'h = 'h] by (intro conjI exI[of _ ?scan]) auto
qed

definition ex_pin :: pval where
  "ex_pin = VPin (Some (replicate 32 7)) (VNat (Direct 0))"

definition ex_root :: pval where
  "ex_root = VApp 0 ex_pin [VLaw 2 (VNat (Direct 9)) ex_pin, VNat (Direct 5)]"

definition ex_env :: enc_env where
  "ex_env = \<lparr>e_idx = [(replicate 32 7, 0)], e_hash = encode_pin_hash None, e_sha = (\<lambda>_. replicate 32 0)\<rparr>"

definition ex_bytes :: bytes where
  "ex_bytes = [83, 73, 76, 79, 1, 1, 1] @ replicate 32 7 @ [0x10, 0xf1, 0, 0xf0, 0x89, 0x82, 0xf1, 0, 0x85]"

lemma buffer_swrite:
  assumes "w_pos w < 2 ^ 32" "length (w_ctx w) < 2 ^ 32" "bs \<noteq> []" "length bs < 2 ^ 32"
  shows "swrite silo_buffer_write bs w = Inr \<lparr>w_ctx = w_ctx w @ bs, w_pos = w_pos w + length bs\<rparr>"
  using assms by (auto simp: swrite_def silo_buffer_write_def)

lemma ex_small:
  assumes "0 < n" "n \<le> 63"
  shows "d \<le> 4096 \<Longrightarrow> encode_node silo_buffer_write E (VNat (Direct (word_of_nat n))) d =
    swrite_u8 silo_buffer_write (0x80 + word_of_nat n)"
proof -
  have r: "Direct (word_of_nat n) = nat_rep n" using assms by (simp add: nat_rep_def)
  have "pl_nat_byte_len (nat_rep n) \<le> 1" using assms by (simp only: byte_len_le_iff) simp
  moreover have "0 < pl_nat_byte_len (nat_rep n)" using assms by simp
  ultimately have l: "pl_nat_byte_len (nat_rep n) = 1" by linarith
  have "unat (pl_nat_byte_at (nat_rep n) 0) = unat (word_of_nat n :: u8)"
    using assms by (simp add: byte_at_rep unsigned_of_nat take_bit_eq_mod)
  then have b: "pl_nat_byte_at (nat_rep n) 0 = word_of_nat n" by (rule unsigned_word_eqI)
  have "(word_of_nat n :: u8) \<le> 63" using assms by (simp add: word_le_nat_alt unsigned_of_nat take_bit_eq_mod)
  then have "encode_nat silo_buffer_write sha (nat_rep n) = swrite_u8 silo_buffer_write (0x80 + word_of_nat n)" for sha
    unfolding encode_nat_def Let_def l b by simp
  then show "d \<le> 4096 \<Longrightarrow> encode_node silo_buffer_write E (VNat (Direct (word_of_nat n))) d =
    swrite_u8 silo_buffer_write (0x80 + word_of_nat n)"
    unfolding r by (subst encode_node.simps) (simp add: silo_consts)
qed

lemma ex_node_pin:
  "d \<le> 4096 \<Longrightarrow> encode_node silo_buffer_write ex_env ex_pin d =
    wseq (swrite_u8 silo_buffer_write 0xf1) (swrite silo_buffer_write [0])"
  by (subst encode_node.simps)
    (simp add: silo_consts ex_pin_def ex_env_def encode_pin_def encode_pin_hash_def Let_def width_u64.simps
      swrite_le_def put64le_def upt_rec)

lemma ex_node_law:
  "encode_node silo_buffer_write ex_env (VLaw 2 (VNat (Direct 9)) ex_pin) 1 =
    wseq (swrite_u8 silo_buffer_write 0xf0) (wseq (swrite_u8 silo_buffer_write 0x89)
      (wseq (swrite_u8 silo_buffer_write 0x82) (wseq (swrite_u8 silo_buffer_write 0xf1) (swrite silo_buffer_write [0]))))"
  using ex_small[of 9 "Suc (Suc 0)"]
  by (subst encode_node.simps) (simp add: silo_consts PL_NAT63_MAX_def ex_node_pin encode_u64_nat_def)

lemma ex_node_root: "encode_node silo_buffer_write ex_env ex_root 0 w =
    wseq (swrite_u8 silo_buffer_write 0x10) (wseq (encode_node silo_buffer_write ex_env ex_pin 1)
      (wseq (encode_node silo_buffer_write ex_env (VLaw 2 (VNat (Direct 9)) ex_pin) 1)
        (wseq (encode_node silo_buffer_write ex_env (VNat (Direct 5)) 1) wok))) w"
  unfolding ex_root_def by (subst encode_node.simps, simp add: silo_consts, subst encode_app_range.simps)
    (simp add: silo_consts Let_def upt_rec)

lemma ex_encode: "pl_silo_encode_buffer (\<lambda>_. replicate 32 0) ex_root [ex_pin] None = Inr (ex_bytes, replicate 32 0)"
proof -
  have "silo_table (encode_pin_hash None) [ex_pin] 0 [] = Inr (e_idx ex_env)"
    by (simp add: ex_pin_def ex_env_def encode_pin_hash_def)
  moreover have "\<lparr>e_idx = e_idx ex_env, e_hash = encode_pin_hash None, e_sha = (\<lambda>_. replicate 32 0)\<rparr> = ex_env"
    by (simp add: ex_env_def)
  moreover have "encode_pin_hash None ex_pin = Some (replicate 32 7)" by (simp add: ex_pin_def encode_pin_hash_def)
  ultimately show ?thesis unfolding ex_bytes_def using ex_small[of 5 1]
    by (simp add: pl_silo_encode_buffer_def pl_silo_encode_resolved_def silo_consts Let_def ex_node_root ex_node_pin
      ex_node_law[unfolded One_nat_def] wseq_def swrite_u8_def swrite_varnat_def swrite_le_def put64le_def width_u64.simps
      buffer_swrite wok_def silo_magic_def string_bytes_def upt_rec)
qed

theorem silo_roundtrip_witness:
  "\<exists>scan. pl_silo_scan_stream pack_source (\<lambda>_. True) (\<lambda>_. replicate 32 0) True (pack_open ex_bytes) = Inr scan \<and>
    s_pins scan = [replicate 32 7] \<and>
    (\<exists>store. pl_silo_build_stream pack_source (\<lambda>h n. Some (h + n)) (\<lambda>_. True) (\<lambda>_. replicate 32 0) (pack_open ex_bytes)
      (0 :: nat) scan [ex_pin] = Inr (ex_root, store))"
proof -
  have occ: "pin_occ ex_root = [ex_pin, ex_pin]" by (simp add: ex_root_def ex_pin_def)
  have h: "encode_pin_hash None ex_pin = Some (replicate 32 7)" by (simp add: ex_pin_def encode_pin_hash_def)
  have ok: "silo_wf ex_root" by (simp add: ex_root_def ex_pin_def pl_need_after_def PL_NAT63_MAX_def)
  have fits: "silo_fits ex_root" by (simp add: ex_root_def ex_pin_def chunk_fits_def pl_need_after_def)
  have tab: "map (\<lambda>p. the (encode_pin_hash None p)) [ex_pin] = firsts (map (\<lambda>p. the (encode_pin_hash None p)) (pin_occ ex_root))"
    by (simp add: occ firsts_def)
  have 1: "\<forall>p \<in> set [ex_pin]. \<forall>h. encode_pin_hash None p = Some h \<longrightarrow> length h = 32" using h by simp
  have 2: "\<forall>p \<in> set (pin_occ ex_root). \<forall>q \<in> set [ex_pin]. encode_pin_hash None q = encode_pin_hash None p \<longrightarrow> q = p"
    using occ by simp
  note R = conjunct2[OF silo_roundtrip[OF length_replicate 1 ok tab 2 ex_encode, where 'h = nat]]
  show ?thesis
  proof (rule exE[OF R], elim conjE)
    fix scan
    assume scan: "pl_silo_scan_stream pack_source (\<lambda>_. True) (\<lambda>_. replicate 32 0) True (pack_open ex_bytes) = Inr scan"
      and pins: "s_pins scan = map (\<lambda>p. the (encode_pin_hash None p)) [ex_pin]"
      and build: "\<forall>alloc store :: nat. silo_fits ex_root \<and> (\<forall>h n. alloc h n \<noteq> None) \<longrightarrow>
        (\<exists>store'. pl_silo_build_stream pack_source alloc (\<lambda>_. True) (\<lambda>_. replicate 32 0) (pack_open ex_bytes) store scan [ex_pin]
           = Inr (ex_root, store'))"
    have "\<exists>store. pl_silo_build_stream pack_source (\<lambda>h n. Some (h + n)) (\<lambda>_. True) (\<lambda>_. replicate 32 0) (pack_open ex_bytes)
        (0 :: nat) scan [ex_pin] = Inr (ex_root, store)" by (rule build[rule_format]) (simp add: fits)
    moreover have "s_pins scan = [replicate 32 7]" unfolding pins by (simp only: list.map h option.sel)
    ultimately show ?thesis using scan by (intro exI[of _ scan] conjI)
  qed
qed

text \<open>
  C25. The build pass refuses some well-formed values that encode and scan: a value is written, accepted by the canonical
  scan, and reported as \<open>decoded APP need exceeds runtime limit\<close> by the build pass whenever some APP in it has a head
  whose need with the first 15 arguments (or all of them when there are fewer) is \<open>2 ^ 20\<close> or more, although the need of
  the whole APP fits: the encoder nests chunks of 15 arguments and the build pass checks each of them.
\<close>

theorem silo_build_refuses:
  assumes "\<And>bs. length (sha bs) = 32" and "\<forall>p \<in> set subpins. \<forall>h. encode_pin_hash pin_hash p = Some h \<longrightarrow> length h = 32"
    and "silo_wf root"
    and "map (\<lambda>p. the (encode_pin_hash pin_hash p)) subpins = firsts (map (\<lambda>p. the (encode_pin_hash pin_hash p)) (pin_occ root))"
    and "\<forall>p \<in> set (pin_occ root). \<forall>q \<in> set subpins. encode_pin_hash pin_hash q = encode_pin_hash pin_hash p \<longrightarrow> q = p"
    and "pl_silo_encode_buffer sha root subpins pin_hash = Inr (bytes, hash)" and "\<not> silo_fits root"
  shows "\<exists>scan. pl_silo_scan_stream pack_source (\<lambda>_. True) sha True (pack_open bytes) = Inr scan \<and>
      (\<forall>(alloc :: 'h \<Rightarrow> nat \<Rightarrow> 'h option) store. (\<forall>h n. alloc h n \<noteq> None) \<longrightarrow>
        pl_silo_build_stream pack_source alloc (\<lambda>_. True) sha (pack_open bytes) store scan subpins
          = Inl ''decoded APP need exceeds runtime limit'')"
proof -
  let ?scan = "\<lparr>s_pins = map (\<lambda>p. the (encode_pin_hash pin_hash p)) subpins, s_used = [0..<length subpins]\<rparr>"
  note passes = encoded_passes[OF assms(1-6) refl]
  show ?thesis using passes(2) passes(4)[where 'h = 'h] assms(7) by (intro exI[of _ ?scan]) (auto simp: need_error_def)
qed

text \<open>A law applied to 16 arguments whose need with 15 of them is \<open>2 ^ 20\<close>.\<close>

definition ex_law :: pval where
  "ex_law = VLaw 1048591 (VNat (Direct 5)) (VNat (Direct 5))"

definition ex_long :: pval where
  "ex_long = VApp 1048575 ex_law (replicate 16 (VNat (Direct 5)))"

lemma ex_long_values: "silo_wf ex_long" "\<not> silo_fits ex_long"
proof -
  have "pl_need_after ex_law 16 = Inr 1048575" "\<not> (\<exists>k. pl_need_after ex_law 15 = Inr k)"
    by (auto simp: ex_law_def need_after_Inr)
  then show "silo_wf ex_long" "\<not> silo_fits ex_long"
    by (simp_all add: ex_long_def chunk_fits_def ex_law_def PL_NAT63_MAX_def list_all_iff)
qed

lemma ex_long_encodes: "\<exists>bytes hash. pl_silo_encode_buffer (\<lambda>_. replicate 32 0) ex_long [] None = Inr (bytes, hash)"
proof -
  let ?S = silo_buffer_write and ?E = "\<lparr>e_idx = [], e_hash = encode_pin_hash None, e_sha = (\<lambda>_. replicate 32 0)\<rparr>"
  define xs where "xs = replicate 16 (VNat (Direct 5))"
  let ?em = "emits (\<lambda>bs. bs) (2 ^ 63 - 1)"
  define w where "w = width_u64 1048591"
  define arity where "arity = [0xc0 OR word_of_nat w] @ take w (put64le 1048591)"
  define law where "law = [0xf0] @ [0x85] @ arity @ [0x85 :: u8]"
  define inner where "inner = [push_bit 3 (word_of_nat 15)] @ law @ concat (map (\<lambda>_. [0x85]) [0..<15])"
  define outer where "outer = [push_bit 3 (word_of_nat 1)] @ inner @ concat (map (\<lambda>_. [0x85]) [15..<16])"
  have five: "?em (encode_node ?S ?E (VNat (Direct 5)) d) [0x85]" if "d \<le> 4096" for d
    using ex_small[where n = 5 and d = d and E = ?E] silo_buffer.emits_u8[of "0x85"] that by simp
  have args: "?em (wall (\<lambda>i. encode_node ?S ?E (xs ! i) d) [k..<n]) (concat (map (\<lambda>_. [0x85]) [k..<n]))"
    if "d \<le> 4096" "n \<le> 16" for d k n
    by (rule silo_buffer.emits_wall) (use five[OF that(1)] that(2) in \<open>auto simp: xs_def\<close>)
  have "?em (wseq (swrite_u8 ?S (0xc0 OR word_of_nat w)) (swrite_le ?S 1048591 w)) arity"
    unfolding arity_def by (intro silo_buffer.emits_seq silo_buffer.emits_u8 silo_buffer.emits_le)
  then have "?em (encode_u64_nat ?S 1048591) arity" by (simp add: encode_u64_nat_def w_def Let_def)
  moreover have "encode_node ?S ?E ex_law 2 = wseq (swrite_u8 ?S 0xf0) (wseq (encode_node ?S ?E (VNat (Direct 5)) 3)
      (wseq (encode_u64_nat ?S 1048591) (encode_node ?S ?E (VNat (Direct 5)) 3)))"
    by (subst encode_node.simps) (simp add: ex_law_def silo_consts PL_NAT63_MAX_def)
  ultimately have "?em (encode_node ?S ?E ex_law 2) law"
    using five[where d = 3] unfolding law_def by (simp only:) (intro silo_buffer.emits_seq silo_buffer.emits_u8; simp)
  moreover have "chunk 15 = 15" "chunk 16 = 1" by (simp_all add: chunk_def)
  then have "encode_app_range ?S ?E ex_law xs 15 1 = wseq (swrite_u8 ?S (push_bit 3 (word_of_nat 15)))
      (wseq (encode_node ?S ?E ex_law 2) (wall (\<lambda>i. encode_node ?S ?E (xs ! i) 2) [0..<15]))"
    and range: "encode_app_range ?S ?E ex_law xs 16 0 = wseq (swrite_u8 ?S (push_bit 3 (word_of_nat 1)))
      (wseq (encode_app_range ?S ?E ex_law xs 15 1) (wall (\<lambda>i. encode_node ?S ?E (xs ! i) 1) [15..<16]))"
    using encode_app_range_chunk[where m = 0 and n = 15 and depth = 1] encode_app_range_chunk[where m = 15 and n = 16 and depth = 0]
    by (simp_all only: silo_consts) (simp_all add: numeral_2_eq_2)
  ultimately have "?em (encode_app_range ?S ?E ex_law xs 15 1) inner"
    unfolding inner_def by (simp only:) (intro silo_buffer.emits_seq silo_buffer.emits_u8 args; simp)
  then have "?em (encode_app_range ?S ?E ex_law xs 16 0) outer"
    unfolding outer_def range by (intro silo_buffer.emits_seq silo_buffer.emits_u8 args; simp)
  moreover have "encode_node ?S ?E ex_long 0 = encode_app_range ?S ?E ex_law xs 16 0"
    by (subst encode_node.simps) (simp add: ex_long_def xs_def)
  ultimately have "?em (encode_node ?S ?E ex_long 0) outer" by (simp only:)
  from silo_buffer.emits_seq[OF silo_buffer.emits_swrite silo_buffer.emits_seq[OF silo_buffer.emits_varnat[where n = 0] silo_buffer.emits_seq[OF silo_buffer.emits_ok this]]]
  have all: "?em (wseq (swrite ?S silo_magic) (wseq (swrite_varnat ?S 0) (wseq wok (encode_node ?S ?E ex_long 0))))
      (silo_magic @ varnat_bytes 0 @ [] @ outer)" by simp
  have "length (silo_magic @ varnat_bytes 0 @ [] @ outer) \<le> 2 ^ 63 - 1"
    by (simp add: silo_magic_def string_bytes_def varnat_bytes_def outer_def inner_def law_def arity_def length_concat comp_def)
  then obtain w' where "wseq (swrite ?S silo_magic) (wseq (swrite_varnat ?S 0) (wseq wok (encode_node ?S ?E ex_long 0)))
      \<lparr>w_ctx = [], w_pos = 0\<rparr> = Inr w'" "w_pos w' = length (w_ctx w')"
    using all unfolding emits_def by fastforce
  then show ?thesis
    by (simp add: pl_silo_encode_buffer_def pl_silo_encode_resolved_def silo_consts Let_def)
qed

theorem silo_build_refuses_witness:
  "\<exists>bytes hash scan. pl_silo_encode_buffer (\<lambda>_. replicate 32 0) ex_long [] None = Inr (bytes, hash) \<and>
    pl_silo_scan_stream pack_source (\<lambda>_. True) (\<lambda>_. replicate 32 0) True (pack_open bytes) = Inr scan \<and>
    pl_silo_build_stream pack_source (\<lambda>h n. Some (h + n)) (\<lambda>_. True) (\<lambda>_. replicate 32 0) (pack_open bytes) (0 :: nat) scan []
      = Inl ''decoded APP need exceeds runtime limit''"
proof -
  obtain bytes hash where enc: "pl_silo_encode_buffer (\<lambda>_. replicate 32 0) ex_long [] None = Inr (bytes, hash)"
    using ex_long_encodes by blast
  have occ: "pin_occ ex_long = []" by (simp add: ex_long_def ex_law_def)
  have 1: "\<forall>p \<in> set []. \<forall>h. encode_pin_hash None p = Some h \<longrightarrow> length h = 32" by simp
  have 2: "map (\<lambda>p. the (encode_pin_hash None p)) [] = firsts (map (\<lambda>p. the (encode_pin_hash None p)) (pin_occ ex_long))"
    by (simp add: occ firsts_def)
  have 3: "\<forall>p \<in> set (pin_occ ex_long). \<forall>q \<in> set []. encode_pin_hash None q = encode_pin_hash None p \<longrightarrow> q = p" by simp
  from silo_build_refuses[OF length_replicate 1 ex_long_values(1) 2 3 enc ex_long_values(2), where 'h = nat]
  show ?thesis using enc by auto
qed

end
