(* ===== verification/Vector.thy ===== *)
theory Vector
  imports Prelude
begin

text \<open>
  The dynamic array of \<open>pkg/axsys/src/vector.c\<close>: packed elements of a fixed size in one block of a
  client-supplied allocator. A block is the bytes it holds; \<open>v_data = None\<close> is the null pointer. Every
  access is checked against its block, so a step that would leave it is \<open>Abort\<close>; the theorems show it
  never happens. The allocator's contract is the locale \<open>ax_alloc\<close>, interpreted on \<open>ax_sys_a\<close>.
\<close>

subsection \<open>The code\<close>

datatype ax_status = AX_OK | AX_ERR_ALLOC | AX_ERR_BOUNDS | AX_ERR_INVALID

text \<open>The function pointers of an allocator over the state \<open>'m\<close>; \<open>None\<close> is a null pointer.\<close>

record 'm ax_allocator =
  al_alloc :: "('m \<Rightarrow> nat \<Rightarrow> bytes option \<times> 'm) option"
  al_realloc :: "('m \<Rightarrow> bytes option \<Rightarrow> nat \<Rightarrow> bytes option \<times> 'm) option"
  al_free :: "('m \<Rightarrow> bytes option \<Rightarrow> 'm) option"

record 'm ax_vector =
  v_block :: bytes
  v_alloc :: "'m ax_allocator"
  v_data :: "bytes option"
  v_elem :: nat
  v_len :: nat
  v_cap :: nat

text \<open>\<open>malloc\<close> and \<open>realloc\<close> over the number of bytes still available.\<close>

definition system_alloc :: "nat \<Rightarrow> nat \<Rightarrow> bytes option \<times> nat" where
  "system_alloc m sz = (if sz \<le> m then (Some (replicate sz 0), m - sz) else (None, m))"

definition system_realloc :: "nat \<Rightarrow> bytes option \<Rightarrow> nat \<Rightarrow> bytes option \<times> nat" where
  "system_realloc m ptr sz = (case ptr of
     None \<Rightarrow> system_alloc m sz
   | Some old \<Rightarrow>
       if sz \<le> m + length old
       then (Some (take sz old @ replicate (sz - length old) 0), m + length old - sz)
       else (None, m))"

definition system_free :: "nat \<Rightarrow> bytes option \<Rightarrow> nat" where
  "system_free m ptr = (case ptr of None \<Rightarrow> m | Some b \<Rightarrow> m + length b)"

definition ax_sys_a :: "nat ax_allocator" where
  "ax_sys_a = \<lparr>al_alloc = Some system_alloc, al_realloc = Some system_realloc, al_free = Some system_free\<rparr>"

definition allocator_is_valid :: "'m ax_allocator option \<Rightarrow> bool" where
  "allocator_is_valid a = (case a of None \<Rightarrow> False | Some A \<Rightarrow> al_alloc A \<noteq> None \<and> al_free A \<noteq> None)"

definition item_bytes :: "nat \<Rightarrow> nat \<Rightarrow> nat option" where
  "item_bytes capacity elem_size =
     (if elem_size = 0 \<or> SIZE_MAX div elem_size < capacity then None else Some (capacity * elem_size))"

text \<open>Calls through a function pointer and accesses to a block.\<close>

definition call :: "'f option \<Rightarrow> 'f res" where
  "call f = (case f of None \<Rightarrow> Inl (Abort ''null function'') | Some g \<Rightarrow> Inr g)"

definition peek :: "bytes option \<Rightarrow> nat \<Rightarrow> nat \<Rightarrow> bytes res" where
  "peek d off n = (case d of
     None \<Rightarrow> Inl (Abort ''null block'')
   | Some b \<Rightarrow> if off + n \<le> length b then Inr (take n (drop off b)) else Inl (Abort ''out of block''))"

definition poke :: "bytes option \<Rightarrow> nat \<Rightarrow> bytes \<Rightarrow> bytes option res" where
  "poke d off bs = (case d of
     None \<Rightarrow> Inl (Abort ''null block'')
   | Some b \<Rightarrow> if off + length bs \<le> length b then Inr (Some (take off b @ bs @ drop (off + length bs) b))
               else Inl (Abort ''out of block''))"

definition resize_storage :: "'m \<Rightarrow> 'm ax_vector \<Rightarrow> nat \<Rightarrow> (ax_status \<times> 'm ax_vector \<times> 'm) res" where
  "resize_storage m v capacity = (case item_bytes capacity (v_elem v) of
     None \<Rightarrow> Inr (AX_ERR_ALLOC, v, m)
   | Some sz \<Rightarrow> (case al_realloc (v_alloc v) of
       Some rea \<Rightarrow> (case rea m (v_data v) sz of
           (None, m') \<Rightarrow> Inr (AX_ERR_ALLOC, v, m')
         | (Some b, m') \<Rightarrow> Inr (AX_OK, v\<lparr>v_data := Some b, v_cap := capacity\<rparr>, m'))
     | None \<Rightarrow>
         rbind (call (al_alloc (v_alloc v))) (\<lambda>alloc. case alloc m sz of
           (None, m') \<Rightarrow> Inr (AX_ERR_ALLOC, v, m')
         | (Some next, m') \<Rightarrow>
             rbind (if v_data v \<noteq> None \<and> 0 < v_len v
                    then rbind (peek (v_data v) 0 (v_len v * v_elem v)) (\<lambda>old. poke (Some next) 0 old)
                    else Inr (Some next)) (\<lambda>data.
             rbind (call (al_free (v_alloc v))) (\<lambda>free.
             Inr (AX_OK, v\<lparr>v_data := data, v_cap := capacity\<rparr>, free m' (v_data v)))))))"

text \<open>A null vector is \<open>None\<close>. \<open>sizeof(ax_vector)\<close> is 64 and \<open>sizeof(void*)\<close> is 8.\<close>

definition ax_vector_create_sized :: "'m ax_allocator option \<Rightarrow> nat \<Rightarrow> 'm \<Rightarrow> ('m ax_vector option \<times> 'm) res" where
  "ax_vector_create_sized a elem_size m =
     (if \<not> allocator_is_valid a then Inr (None, m)
      else if elem_size = 0 then Inr (None, m)
      else rbind (call (al_alloc (the a))) (\<lambda>alloc. case alloc m 64 of
        (None, m') \<Rightarrow> Inr (None, m')
      | (Some blk, m') \<Rightarrow>
          Inr (Some \<lparr>v_block = blk, v_alloc = the a, v_data = None, v_elem = elem_size, v_len = 0, v_cap = 0\<rparr>, m')))"

definition ax_vector_create :: "'m ax_allocator option \<Rightarrow> 'm \<Rightarrow> ('m ax_vector option \<times> 'm) res" where
  "ax_vector_create a m = ax_vector_create_sized a 8 m"

definition ax_vector_destroy :: "'m ax_vector option \<Rightarrow> 'm \<Rightarrow> 'm res" where
  "ax_vector_destroy vector m = (case vector of
     None \<Rightarrow> Inr m
   | Some v \<Rightarrow> rbind (call (al_free (v_alloc v))) (\<lambda>free. Inr (free (free m (v_data v)) (Some (v_block v)))))"

definition ax_vector_reserve :: "'m \<Rightarrow> 'm ax_vector option \<Rightarrow> nat \<Rightarrow> (ax_status \<times> 'm ax_vector option \<times> 'm) res" where
  "ax_vector_reserve m vector capacity = (case vector of
     None \<Rightarrow> Inr (AX_ERR_INVALID, None, m)
   | Some v \<Rightarrow>
       if capacity \<le> v_cap v then Inr (AX_OK, Some v, m)
       else rbind (resize_storage m v capacity) (\<lambda>(s, v', m'). Inr (s, Some v', m')))"

definition ensure_push_capacity :: "'m \<Rightarrow> 'm ax_vector option \<Rightarrow> (ax_status \<times> 'm ax_vector option \<times> 'm) res" where
  "ensure_push_capacity m vector = (case vector of
     None \<Rightarrow> Inr (AX_ERR_INVALID, None, m)
   | Some v \<Rightarrow>
       if v_len v = v_cap v then
         if 0 < v_cap v \<and> SIZE_MAX div 2 < v_cap v then Inr (AX_ERR_ALLOC, Some v, m)
         else ax_vector_reserve m (Some v) (if 0 < v_cap v then v_cap v * 2 else 4)
       else Inr (AX_OK, Some v, m))"

text \<open>The writing half that \<open>ax_vector_push\<close> and \<open>ax_vector_push_copy\<close> share.\<close>

definition push_bytes :: "'m \<Rightarrow> 'm ax_vector option \<Rightarrow> bytes \<Rightarrow> (ax_status \<times> 'm ax_vector option \<times> 'm) res" where
  "push_bytes m vector item =
     rbind (ensure_push_capacity m vector) (\<lambda>(status, vector', m'). case (status, vector') of
       (AX_OK, Some v) \<Rightarrow>
         rbind (poke (v_data v) (v_len v * v_elem v) item) (\<lambda>data.
         Inr (AX_OK, Some (v\<lparr>v_data := data, v_len := v_len v + 1\<rparr>), m'))
     | _ \<Rightarrow> Inr (status, vector', m'))"

definition ax_vector_push :: "'m \<Rightarrow> 'm ax_vector option \<Rightarrow> u64 \<Rightarrow> (ax_status \<times> 'm ax_vector option \<times> 'm) res" where
  "ax_vector_push m vector item =
     (if vector = None \<or> v_elem (the vector) \<noteq> 8 then Inr (AX_ERR_INVALID, vector, m)
      else push_bytes m vector (bytes_of 8 (unat item)))"

text \<open>The item is the bytes behind \<open>item_v\<close>; \<open>None\<close> is a null pointer.\<close>

definition ax_vector_push_copy :: "'m \<Rightarrow> 'm ax_vector option \<Rightarrow> bytes option \<Rightarrow>
    (ax_status \<times> 'm ax_vector option \<times> 'm) res" where
  "ax_vector_push_copy m vector item = (case item of
     None \<Rightarrow> Inr (AX_ERR_INVALID, vector, m)
   | Some bs \<Rightarrow> push_bytes m vector (take (case vector of None \<Rightarrow> 0 | Some v \<Rightarrow> v_elem v) bs))"

definition ax_vector_push_u8 :: "'m \<Rightarrow> 'm ax_vector option \<Rightarrow> u8 \<Rightarrow> (ax_status \<times> 'm ax_vector option \<times> 'm) res" where
  "ax_vector_push_u8 m vector item =
     (if vector = None \<or> v_elem (the vector) \<noteq> 1 then Inr (AX_ERR_INVALID, vector, m)
      else ax_vector_push_copy m vector (Some [item]))"

text \<open>A pointer read from its eight bytes; the null pointer is 0.\<close>

definition ptr_of :: "bytes \<Rightarrow> u64" where
  "ptr_of bs = word_of_nat (bval bs)"

definition ax_vector_pop :: "'m ax_vector option \<Rightarrow> (u64 \<times> 'm ax_vector option) res" where
  "ax_vector_pop vector = (case vector of
     None \<Rightarrow> Inr (0, None)
   | Some v \<Rightarrow>
       if v_len v = 0 \<or> v_elem v \<noteq> 8 then Inr (0, Some v)
       else let len = v_len v - 1 in
         rbind (peek (v_data v) (len * v_elem v) 8) (\<lambda>item.
         rbind (poke (v_data v) (len * v_elem v) (replicate 8 0)) (\<lambda>data.
         Inr (ptr_of item, Some (v\<lparr>v_data := data, v_len := len\<rparr>)))))"

definition ax_vector_get :: "'m ax_vector option \<Rightarrow> nat \<Rightarrow> u64 res" where
  "ax_vector_get vector index = (case vector of
     None \<Rightarrow> Inr 0
   | Some v \<Rightarrow>
       if v_len v \<le> index \<or> v_elem v \<noteq> 8 then Inr 0
       else rbind (peek (v_data v) (index * v_elem v) 8) (\<lambda>item. Inr (ptr_of item)))"

text \<open>A slot is its offset in the block.\<close>

definition ax_vector_get_slot :: "'m ax_vector option \<Rightarrow> nat \<Rightarrow> nat option" where
  "ax_vector_get_slot vector index = (case vector of
     None \<Rightarrow> None
   | Some v \<Rightarrow> if v_len v \<le> index then None else Some (index * v_elem v))"

definition ax_vector_top_slot :: "'m ax_vector option \<Rightarrow> nat option" where
  "ax_vector_top_slot vector = (case vector of
     None \<Rightarrow> None
   | Some v \<Rightarrow> if v_len v = 0 then None else Some ((v_len v - 1) * v_elem v))"

definition ax_vector_set :: "'m ax_vector option \<Rightarrow> nat \<Rightarrow> u64 \<Rightarrow> (ax_status \<times> 'm ax_vector option) res" where
  "ax_vector_set vector index item = (case vector of
     None \<Rightarrow> Inr (AX_ERR_INVALID, None)
   | Some v \<Rightarrow>
       if v_len v \<le> index then Inr (AX_ERR_BOUNDS, Some v)
       else if v_elem v \<noteq> 8 then Inr (AX_ERR_INVALID, Some v)
       else rbind (poke (v_data v) (index * v_elem v) (bytes_of 8 (unat item))) (\<lambda>data.
         Inr (AX_OK, Some (v\<lparr>v_data := data\<rparr>))))"

definition ax_vector_set_copy :: "'m ax_vector option \<Rightarrow> nat \<Rightarrow> bytes option \<Rightarrow> (ax_status \<times> 'm ax_vector option) res" where
  "ax_vector_set_copy vector index item = (case (vector, item) of
     (Some v, Some bs) \<Rightarrow>
       if v_len v \<le> index then Inr (AX_ERR_BOUNDS, Some v)
       else rbind (poke (v_data v) (index * v_elem v) (take (v_elem v) bs)) (\<lambda>data.
         Inr (AX_OK, Some (v\<lparr>v_data := data\<rparr>)))
   | _ \<Rightarrow> Inr (AX_ERR_INVALID, vector))"

definition ax_vector_data :: "'m ax_vector option \<Rightarrow> bytes option" where
  "ax_vector_data vector = (case vector of None \<Rightarrow> None | Some v \<Rightarrow> v_data v)"

definition ax_vector_elem_size :: "'m ax_vector option \<Rightarrow> nat" where
  "ax_vector_elem_size vector = (case vector of None \<Rightarrow> 0 | Some v \<Rightarrow> v_elem v)"

definition ax_vector_len :: "'m ax_vector option \<Rightarrow> nat" where
  "ax_vector_len vector = (case vector of None \<Rightarrow> 0 | Some v \<Rightarrow> v_len v)"

definition ax_vector_capacity :: "'m ax_vector option \<Rightarrow> nat" where
  "ax_vector_capacity vector = (case vector of None \<Rightarrow> 0 | Some v \<Rightarrow> v_cap v)"

definition ax_vector_shrink :: "'m \<Rightarrow> 'm ax_vector option \<Rightarrow> (ax_status \<times> 'm ax_vector option \<times> 'm) res" where
  "ax_vector_shrink m vector = (case vector of
     None \<Rightarrow> Inr (AX_ERR_INVALID, None, m)
   | Some v \<Rightarrow>
       if v_len v = v_cap v then Inr (AX_OK, Some v, m)
       else if v_len v = 0 then
         rbind (call (al_free (v_alloc v))) (\<lambda>free.
         Inr (AX_OK, Some (v\<lparr>v_data := None, v_cap := 0\<rparr>), free m (v_data v)))
       else rbind (resize_storage m v (v_len v)) (\<lambda>(s, v', m'). Inr (s, Some v', m')))"

subsection \<open>Elements\<close>

definition chunks :: "nat \<Rightarrow> nat \<Rightarrow> bytes \<Rightarrow> bytes list" where
  "chunks e n b = map (\<lambda>i. take e (drop (i * e) b)) [0..<n]"

lemma length_chunks [simp]: "length (chunks e n b) = n"
  by (simp add: chunks_def)

lemma chunk_end: "i < n \<Longrightarrow> i * e + e \<le> n * (e :: nat)"
  by (metis Suc_leI add.commute mult_Suc mult_le_mono1)

lemma nth_chunks: "i < n \<Longrightarrow> chunks e n b ! i = take e (drop (i * e) b)"
  by (simp add: chunks_def)

lemma chunks_Suc: "chunks e (Suc n) b = chunks e n b @ [take e (drop (n * e) b)]"
  by (simp add: chunks_def)

text \<open>Only the first \<open>n\<close> elements' bytes matter.\<close>

lemma chunks_cong:
  assumes "take (n * e) b = take (n * e) b'"
  shows "chunks e n b = chunks e n b'"
proof (rule nth_equalityI)
  fix i assume "i < length (chunks e n b)"
  then have i: "i < n" "i * e + e \<le> n * e" using chunk_end by auto
  have "take e (drop (i * e) b) = take e (drop (i * e) (take (n * e) b))" for b :: bytes
    using i(2) by (simp add: drop_take take_take min_def)
  then show "chunks e n b ! i = chunks e n b' ! i" using i(1) assms by (metis nth_chunks)
qed simp

lemma nth_poked:
  assumes "i * e + e \<le> length b" "length bs = e" "k < length b"
  shows "(take (i * e) b @ bs @ drop (i * e + e) b) ! k =
    (if i * e \<le> k \<and> k < i * e + e then bs ! (k - i * e) else b ! k)"
  using assms by (auto simp: nth_append)

lemma chunks_poke:
  assumes "i < n" "n * e \<le> length b" "length bs = e"
  shows "chunks e n (take (i * e) b @ bs @ drop (i * e + e) b) = (chunks e n b)[i := bs]"
proof -
  define c where "c = take (i * e) b @ bs @ drop (i * e + e) b"
  have ie: "i * e + e \<le> length b" using chunk_end[OF assms(1), of e] assms(2) by simp
  have lc: "length c = length b" using ie assms(3) by (simp add: c_def)
  have el: "chunks e n c ! j = (chunks e n b)[i := bs] ! j" if "j < n" for j
  proof (rule nth_equalityI)
    have j: "j < n" "j * e + e \<le> length b" using that chunk_end[of j n e] assms(2) by simp_all
    have "length (chunks e n c ! j) = e" using j lc by (simp add: nth_chunks)
    moreover have "length ((chunks e n b)[i := bs] ! j) = e" using j assms by (simp add: nth_chunks nth_list_update)
    ultimately show "length (chunks e n c ! j) = length ((chunks e n b)[i := bs] ! j)" by simp
    fix k assume "k < length (chunks e n c ! j)"
    then have k: "k < e" "j * e + k < length b" using j lc by (simp_all add: nth_chunks)
    have "chunks e n c ! j ! k = c ! (j * e + k)" using j k lc by (simp add: nth_chunks)
    also have "\<dots> = (if i * e \<le> j * e + k \<and> j * e + k < i * e + e then bs ! (j * e + k - i * e) else b ! (j * e + k))"
      using nth_poked[OF ie assms(3) k(2)] by (simp only: c_def)
    also have "\<dots> = (chunks e n b)[i := bs] ! j ! k"
    proof (cases "i = j")
      case True
      then show ?thesis using k(1) assms(1) by simp
    next
      case False
      then have "i * e + e \<le> j * e \<or> j * e + e \<le> i * e" using chunk_end[of i j e] chunk_end[of j i e] by (cases "i < j") auto
      then have ne: "\<not> (i * e \<le> j * e + k \<and> j * e + k < i * e + e)" using k(1) by linarith
      show ?thesis unfolding if_not_P[OF ne] using False j k by (simp add: nth_chunks)
    qed
    finally show "chunks e n c ! j ! k = (chunks e n b)[i := bs] ! j ! k" .
  qed
  show ?thesis unfolding c_def[symmetric] by (rule nth_equalityI) (simp_all add: el)
qed


subsection \<open>The invariant\<close>

definition vec_items :: "'m ax_vector \<Rightarrow> bytes list" where
  "vec_items v = chunks (v_elem v) (v_len v) (case v_data v of None \<Rightarrow> [] | Some b \<Rightarrow> b)"

definition vec_ok :: "'m ax_vector \<Rightarrow> bool" where
  "vec_ok v \<longleftrightarrow> 0 < v_elem v \<and> v_len v \<le> v_cap v \<and> v_cap v * v_elem v \<le> SIZE_MAX \<and>
     (case v_data v of None \<Rightarrow> v_cap v = 0 | Some b \<Rightarrow> length b = v_cap v * v_elem v)"

text \<open>The vector's contract with its allocator.\<close>

definition alloc_ok :: "'m ax_allocator \<Rightarrow> bool" where
  "alloc_ok A \<longleftrightarrow>
     (\<exists>f. al_alloc A = Some f \<and> (\<forall>m n b m'. f m n = (Some b, m') \<longrightarrow> length b = n)) \<and> al_free A \<noteq> None \<and>
     (\<forall>f. al_realloc A = Some f \<longrightarrow> (\<forall>m d n b m'. f m d n = (Some b, m') \<longrightarrow>
        length b = n \<and> (\<forall>old. d = Some old \<longrightarrow> take (min n (length old)) b = take (min n (length old)) old)))"

locale ax_alloc =
  fixes A :: "'m ax_allocator"
  assumes laws: "alloc_ok A"
begin

lemma resize:
  assumes v: "vec_ok v" "v_alloc v = A" and c: "v_len v \<le> capacity" "0 < capacity"
  shows "\<exists>s v' m'. resize_storage m v capacity = Inr (s, v', m') \<and> vec_ok v' \<and> vec_items v' = vec_items v \<and>
    v_len v' = v_len v \<and> v_elem v' = v_elem v \<and> v_alloc v' = A \<and> v_block v' = v_block v \<and>
    (s = AX_OK \<and> v_cap v' = capacity \<and> v_data v' \<noteq> None \<or> s = AX_ERR_ALLOC \<and> v' = v)"
proof (cases "item_bytes capacity (v_elem v)")
  case None
  then show ?thesis using v by (auto simp: resize_storage_def)
next
  case (Some sz)
  let ?e = "v_elem v" and ?n = "v_len v"
  have sz: "sz = capacity * ?e" "capacity * ?e \<le> SIZE_MAX"
  proof -
    have "capacity \<le> SIZE_MAX div ?e" "sz = capacity * ?e" using Some by (auto simp: item_bytes_def split: if_splits)
    then show "sz = capacity * ?e" "capacity * ?e \<le> SIZE_MAX"
      using order.trans[OF mult_le_mono1[of capacity "SIZE_MAX div ?e" ?e] div_times_less_eq_dividend] by blast+
  qed
  have fits: "?n * ?e \<le> capacity * ?e" using c(1) by simp
  have grown: ?thesis
    if r: "resize_storage m v capacity = Inr (AX_OK, v\<lparr>v_data := Some b, v_cap := capacity\<rparr>, m')"
      "length b = sz" "\<And>old. v_data v = Some old \<Longrightarrow> take (?n * ?e) b = take (?n * ?e) old" for b m'
  proof -
    have "vec_items (v\<lparr>v_data := Some b, v_cap := capacity\<rparr>) = vec_items v"
    proof (cases "v_data v")
      case None
      then have "?n = 0" using v(1) by (simp add: vec_ok_def)
      then show ?thesis by (simp add: vec_items_def chunks_def)
    next
      case (Some old)
      then show ?thesis using chunks_cong[OF r(3)[OF Some]] by (simp add: vec_items_def)
    qed
    moreover have "vec_ok (v\<lparr>v_data := Some b, v_cap := capacity\<rparr>)" using v(1) c r(2) sz by (simp add: vec_ok_def)
    ultimately show ?thesis using r(1) v(2) by (intro exI[of _ AX_OK]) auto
  qed
  show ?thesis
  proof (cases "al_realloc A")
    case realloc: (Some rea)
    show ?thesis
    proof (cases "rea m (v_data v) sz")
      case (Pair ob m')
      show ?thesis
      proof (cases ob)
        case None
        then show ?thesis using Pair realloc Some v by (auto simp: resize_storage_def)
      next
        case ob: (Some b)
        then have ok: "length b = sz" "\<And>old. v_data v = Some old \<Longrightarrow> take (min sz (length old)) b = take (min sz (length old)) old"
          using laws realloc Pair unfolding alloc_ok_def by blast+
        have "take (?n * ?e) b = take (?n * ?e) old" if o: "v_data v = Some old" for old
        proof -
          have "?n * ?e \<le> min sz (length old)" using o v(1) fits sz by (simp add: vec_ok_def)
          then show ?thesis using ok(2)[OF o] by (metis min.absorb1 take_take)
        qed
        then show ?thesis using grown[of b m'] ob Pair realloc Some v(2) ok(1) by (auto simp: resize_storage_def)
      qed
    qed
  next
    case none: None
    obtain al fr where al: "al_alloc A = Some al" "\<And>m n b m'. al m n = (Some b, m') \<Longrightarrow> length b = n" "al_free A = Some fr"
      using laws unfolding alloc_ok_def by blast
    show ?thesis
    proof (cases "al m sz")
      case (Pair ob m')
      show ?thesis
      proof (cases ob)
        case None
        then show ?thesis using Pair none al Some v by (auto simp: resize_storage_def call_def)
      next
        case ob: (Some b)
        have lb: "length b = sz" using al(2) Pair ob by blast
        show ?thesis
        proof (cases "v_data v \<noteq> None \<and> 0 < ?n")
          case True
          then obtain old where old: "v_data v = Some old" "length old = v_cap v * ?e" "?n * ?e \<le> length old"
            using v(1) by (auto simp: vec_ok_def)
          let ?b = "take (?n * ?e) old @ drop (?n * ?e) b"
          have "resize_storage m v capacity = Inr (AX_OK, v\<lparr>v_data := Some ?b, v_cap := capacity\<rparr>, fr m' (v_data v))"
          proof -
            have l: "length (take (?n * ?e) old) = ?n * ?e" using old(3) by (simp only: length_take min.absorb2)
            have "peek (v_data v) 0 (?n * ?e) = Inr (take (?n * ?e) old)" using old by (simp add: peek_def)
            moreover have "poke (Some b) 0 (take (?n * ?e) old) = Inr (Some ?b)"
              using lb sz fits unfolding poke_def l by simp
            ultimately show ?thesis using True ob Pair none al Some v(2) by (simp add: resize_storage_def call_def)
          qed
          then show ?thesis by (rule grown) (use old lb sz fits in auto)
        next
          case False
          then have "resize_storage m v capacity = Inr (AX_OK, v\<lparr>v_data := Some b, v_cap := capacity\<rparr>, fr m' (v_data v))"
            using ob Pair none al Some v(2) by (auto simp: resize_storage_def call_def)
          then show ?thesis by (rule grown) (use False lb in auto)
        qed
      qed
    qed
  qed
qed

end

interpretation sys: ax_alloc ax_sys_a
  by unfold_locales (auto simp: alloc_ok_def ax_sys_a_def system_alloc_def system_realloc_def min_def
      split: if_splits option.splits)

subsection \<open>Operations\<close>

lemmas resize_by = ax_alloc.resize[OF ax_alloc.intro]

lemma ensure_capacity:
  assumes v: "vec_ok v" and A: "alloc_ok (v_alloc v)"
  shows "\<exists>s v' m'. ensure_push_capacity m (Some v) = Inr (s, Some v', m') \<and> vec_ok v' \<and> vec_items v' = vec_items v \<and>
    v_len v' = v_len v \<and> v_elem v' = v_elem v \<and> v_alloc v' = v_alloc v \<and>
    (s = AX_OK \<and> v_len v' < v_cap v' \<and> v_data v' \<noteq> None \<or> s = AX_ERR_ALLOC \<and> v' = v)"
proof (cases "v_len v = v_cap v")
  case False
  then have "v_len v < v_cap v" "v_data v \<noteq> None" using v by (auto simp: vec_ok_def split: option.splits)
  then show ?thesis using False v by (auto simp: ensure_push_capacity_def)
next
  case True
  show ?thesis
  proof (cases "0 < v_cap v \<and> SIZE_MAX div 2 < v_cap v")
    case big: True
    then show ?thesis using True v by (auto simp: ensure_push_capacity_def)
  next
    case False
    define c where "c = (if 0 < v_cap v then v_cap v * 2 else 4)"
    have c: "v_cap v < c" "v_len v \<le> c" "0 < c" using True by (auto simp: c_def)
    have "ensure_push_capacity m (Some v) = rbind (resize_storage m v c) (\<lambda>(s, v', m'). Inr (s, Some v', m'))"
      unfolding ensure_push_capacity_def option.case if_P[OF True] if_not_P[OF False] c_def[symmetric] ax_vector_reserve_def
      using c(1) by simp
    with resize_by[OF A v refl c(2,3), of m] True c(1) show ?thesis by auto
  qed
qed

lemma poke_items:
  assumes v: "vec_ok v" "v_data v = Some b" and i: "i < v_cap v" "length bs = v_elem v"
  shows "poke (v_data v) (i * v_elem v) bs = Inr (Some (take (i * v_elem v) b @ bs @ drop (i * v_elem v + v_elem v) b)) \<and>
    peek (v_data v) (i * v_elem v) (v_elem v) = Inr (take (v_elem v) (drop (i * v_elem v) b))"
  using assms chunk_end[of i "v_cap v" "v_elem v"] by (auto simp: poke_def peek_def vec_ok_def)

lemma poke_ok:
  assumes "vec_ok v" "v_data v = Some b" "i < v_cap v" "length bs = v_elem v" "n \<le> v_cap v"
  shows "vec_ok (v\<lparr>v_data := Some (take (i * v_elem v) b @ bs @ drop (i * v_elem v + v_elem v) b), v_len := n\<rparr>)"
  using assms chunk_end[of i "v_cap v" "v_elem v"] by (auto simp: vec_ok_def)

lemma push_appends:
  assumes v: "vec_ok v" and A: "alloc_ok (v_alloc v)" and bs: "length bs = v_elem v"
  shows "\<exists>s v' m'. push_bytes m (Some v) bs = Inr (s, Some v', m') \<and> vec_ok v' \<and> v_alloc v' = v_alloc v \<and> v_elem v' = v_elem v \<and>
    (s = AX_OK \<and> vec_items v' = vec_items v @ [bs] \<or> s = AX_ERR_ALLOC \<and> v' = v)"
proof -
  obtain s w m' where w: "ensure_push_capacity m (Some v) = Inr (s, Some w, m')" "vec_ok w" "vec_items w = vec_items v"
    "v_len w = v_len v" "v_elem w = v_elem v" "v_alloc w = v_alloc v"
    "s = AX_OK \<and> v_len w < v_cap w \<and> v_data w \<noteq> None \<or> s = AX_ERR_ALLOC \<and> w = v"
    using ensure_capacity[OF v A, of m] by blast
  show ?thesis
  proof (cases "s = AX_OK")
    case False
    then show ?thesis using w v by (auto simp: push_bytes_def)
  next
    case True
    then obtain b where b: "v_data w = Some b" "v_len w < v_cap w" using w(7) by auto
    let ?e = "v_elem w" and ?n = "v_len w"
    let ?b = "take (?n * ?e) b @ bs @ drop (?n * ?e + ?e) b"
    let ?v = "w\<lparr>v_data := Some ?b, v_len := ?n + 1\<rparr>"
    have run: "push_bytes m (Some v) bs = Inr (AX_OK, Some ?v, m')"
      using w(1) True poke_items[OF w(2) b, of bs] bs w(5) by (simp add: push_bytes_def)
    have ok: "vec_ok ?v" using poke_ok[OF w(2) b, of bs "?n + 1"] b(2) bs w(5) by simp
    have lb: "(?n + 1) * ?e \<le> length b" using w(2) b(1) chunk_end[OF b(2), of ?e] by (simp add: vec_ok_def)
    then have "chunks ?e (?n + 1) ?b = (chunks ?e (?n + 1) b)[?n := bs]"
      using bs w(5) by (intro chunks_poke) simp_all
    also have "\<dots> = chunks ?e ?n b @ [bs]"
      unfolding Suc_eq_plus1[symmetric] chunks_Suc using list_update_length[of "chunks ?e ?n b" _ "[]" bs] by simp
    finally have "vec_items ?v = vec_items w @ [bs]" using b(1) by (simp add: vec_items_def)
    then show ?thesis using run ok w by auto
  qed
qed

lemma ptr_of_bytes [simp]: "ptr_of (bytes_of 8 (unat p)) = p"
  by (simp add: ptr_of_def bval_bytes_of unat_u64_less[simplified])

subsection \<open>Properties\<close>

text \<open>
  C26. Appending: on a well-formed vector, \<open>push_copy\<close>, \<open>push\<close> and \<open>push_u8\<close> never leave their block and
  either append exactly the given element, or report \<open>AX_ERR_ALLOC\<close> and leave the vector as it was;
  the result is well-formed.
\<close>

theorem ax_vector_push_appends:
  assumes "vec_ok v" "alloc_ok (v_alloc v)" "v_elem v \<le> length bs"
  shows "(\<exists>s v' m'. ax_vector_push_copy m (Some v) (Some bs) = Inr (s, Some v', m') \<and> vec_ok v' \<and>
      (s = AX_OK \<and> vec_items v' = vec_items v @ [take (v_elem v) bs] \<or> s = AX_ERR_ALLOC \<and> v' = v)) \<and>
    (v_elem v = 8 \<longrightarrow> (\<exists>s v' m'. ax_vector_push m (Some v) p = Inr (s, Some v', m') \<and> vec_ok v' \<and>
      (s = AX_OK \<and> vec_items v' = vec_items v @ [bytes_of 8 (unat p)] \<or> s = AX_ERR_ALLOC \<and> v' = v))) \<and>
    (v_elem v = 1 \<longrightarrow> (\<exists>s v' m'. ax_vector_push_u8 m (Some v) x = Inr (s, Some v', m') \<and> vec_ok v' \<and>
      (s = AX_OK \<and> vec_items v' = vec_items v @ [[x]] \<or> s = AX_ERR_ALLOC \<and> v' = v)))"
proof (intro conjI impI)
  show "\<exists>s v' m'. ax_vector_push_copy m (Some v) (Some bs) = Inr (s, Some v', m') \<and> vec_ok v' \<and>
      (s = AX_OK \<and> vec_items v' = vec_items v @ [take (v_elem v) bs] \<or> s = AX_ERR_ALLOC \<and> v' = v)"
    using push_appends[OF assms(1,2), of "take (v_elem v) bs" m] assms(3) by (auto simp: ax_vector_push_copy_def)
  show "\<exists>s v' m'. ax_vector_push m (Some v) p = Inr (s, Some v', m') \<and> vec_ok v' \<and>
      (s = AX_OK \<and> vec_items v' = vec_items v @ [bytes_of 8 (unat p)] \<or> s = AX_ERR_ALLOC \<and> v' = v)" if "v_elem v = 8"
    using push_appends[OF assms(1,2), of "bytes_of 8 (unat p)" m] that by (auto simp: ax_vector_push_def)
  show "\<exists>s v' m'. ax_vector_push_u8 m (Some v) x = Inr (s, Some v', m') \<and> vec_ok v' \<and>
      (s = AX_OK \<and> vec_items v' = vec_items v @ [[x]] \<or> s = AX_ERR_ALLOC \<and> v' = v)" if "v_elem v = 1"
    using push_appends[OF assms(1,2), of "[x]" m] that by (auto simp: ax_vector_push_u8_def ax_vector_push_copy_def)
qed

definition ex_vector :: "nat ax_vector" where
  "ex_vector = \<lparr>v_block = [], v_alloc = ax_sys_a, v_data = None, v_elem = 8, v_len = 0, v_cap = 0\<rparr>"

theorem ax_vector_push_appends_witness:
  "\<exists>v' m'. ax_vector_push 100 (Some ex_vector) 7 = Inr (AX_OK, Some v', m') \<and> vec_items v' = [bytes_of 8 7]"
proof -
  have "vec_ok ex_vector" by (simp add: vec_ok_def ex_vector_def)
  moreover have "alloc_ok (v_alloc ex_vector)" using sys.laws by (simp add: ex_vector_def)
  moreover have "v_elem ex_vector = 8" "vec_items ex_vector = []" by (simp_all add: ex_vector_def vec_items_def chunks_def)
  moreover have "\<exists>v' m'. ax_vector_push 100 (Some ex_vector) 7 = Inr (AX_OK, v', m')"
    by (simp add: ex_vector_def ax_vector_push_def push_bytes_def ensure_push_capacity_def ax_vector_reserve_def
      resize_storage_def item_bytes_def ax_sys_a_def system_realloc_def system_alloc_def poke_def)
  ultimately show ?thesis
    using ax_vector_push_appends[of ex_vector "replicate 8 0" 100 7] by auto
qed

text \<open>
  C27. Reading and writing elements of a pointer vector: \<open>get\<close> returns the element, \<open>set\<close> replaces
  exactly that element, \<open>pop\<close> returns and removes the last one; outside the length, \<open>get\<close> and \<open>pop\<close>
  return null and \<open>set\<close> reports \<open>AX_ERR_BOUNDS\<close>, all without touching the vector.
\<close>

theorem ax_vector_elements:
  assumes "vec_ok v" "v_elem v = 8"
  shows "ax_vector_get (Some v) i = Inr (if i < v_len v then ptr_of (vec_items v ! i) else 0) \<and>
    (\<exists>v'. ax_vector_set (Some v) i p = Inr (if i < v_len v then AX_OK else AX_ERR_BOUNDS, Some v') \<and> vec_ok v' \<and>
       vec_items v' = (vec_items v)[i := bytes_of 8 (unat p)]) \<and>
    (\<exists>v'. ax_vector_pop (Some v) = Inr (if v_len v = 0 then 0 else ptr_of (last (vec_items v)), Some v') \<and> vec_ok v' \<and>
       vec_items v' = butlast (vec_items v))"
proof (cases "v_data v")
  case None
  then have z: "v_len v = 0" "vec_items v = []" using assms(1) by (simp_all add: vec_ok_def vec_items_def chunks_def)
  then show ?thesis using assms by (auto simp: ax_vector_get_def ax_vector_set_def ax_vector_pop_def)
next
  case (Some b)
  have cap: "v_len v \<le> v_cap v" "length b = v_cap v * v_elem v" "v_len v * v_elem v \<le> length b"
    using assms(1) Some by (auto simp: vec_ok_def)
  have it: "vec_items v = chunks (v_elem v) (v_len v) b" using Some by (simp add: vec_items_def)
  have get: "ax_vector_get (Some v) i = Inr (if i < v_len v then ptr_of (vec_items v ! i) else 0)"
    using poke_items[OF assms(1) Some, of i "replicate 8 0"] cap(1) assms(2) it
    by (auto simp: ax_vector_get_def nth_chunks)
  let ?w = "\<lambda>i bs. take (i * v_elem v) b @ bs @ drop (i * v_elem v + v_elem v) b"
  have set: "\<exists>v'. ax_vector_set (Some v) i p = Inr (if i < v_len v then AX_OK else AX_ERR_BOUNDS, Some v') \<and> vec_ok v' \<and>
       vec_items v' = (vec_items v)[i := bytes_of 8 (unat p)]"
  proof (cases "i < v_len v")
    case True
    let ?v = "v\<lparr>v_data := Some (?w i (bytes_of 8 (unat p)))\<rparr>"
    have "ax_vector_set (Some v) i p = Inr (AX_OK, Some ?v)"
      using True cap(1) assms(2) poke_items[OF assms(1) Some, of i "bytes_of 8 (unat p)"] by (simp add: ax_vector_set_def)
    moreover have "vec_ok ?v" using poke_ok[OF assms(1) Some, of i "bytes_of 8 (unat p)" "v_len v"] True cap(1) assms(2) by simp
    moreover have "vec_items ?v = (vec_items v)[i := bytes_of 8 (unat p)]"
      unfolding it using chunks_poke[OF True cap(3), of "bytes_of 8 (unat p)"] assms(2) by (simp add: vec_items_def)
    ultimately show ?thesis using True by simp
  next
    case False
    then show ?thesis using assms it by (simp add: ax_vector_set_def list_update_beyond)
  qed
  have pop: "\<exists>v'. ax_vector_pop (Some v) = Inr (if v_len v = 0 then 0 else ptr_of (last (vec_items v)), Some v') \<and> vec_ok v' \<and>
       vec_items v' = butlast (vec_items v)"
  proof (cases "v_len v")
    case 0
    then show ?thesis using assms it by (simp add: ax_vector_pop_def chunks_def)
  next
    case (Suc n)
    let ?v = "v\<lparr>v_data := Some (?w n (replicate 8 0)), v_len := n\<rparr>"
    have n: "n < v_cap v" using Suc cap(1) by simp
    have "last (vec_items v) = take (v_elem v) (drop (n * v_elem v) b)" unfolding it Suc chunks_Suc by simp
    then have "ax_vector_pop (Some v) = Inr (ptr_of (last (vec_items v)), Some ?v)"
      using Suc assms(2) poke_items[OF assms(1) Some n, of "replicate 8 0"] by (simp add: ax_vector_pop_def Let_def)
    moreover have "vec_ok ?v" using poke_ok[OF assms(1) Some n, of "replicate 8 0" n] n assms(2) by simp
    moreover have "vec_items ?v = butlast (vec_items v)"
    proof -
      have "chunks (v_elem v) n (?w n (replicate 8 0)) = chunks (v_elem v) n b"
        using cap(2) n chunk_end[OF n, of "v_elem v"] by (intro chunks_cong) simp
      then show ?thesis unfolding it Suc chunks_Suc by (simp add: vec_items_def)
    qed
    ultimately show ?thesis using Suc by simp
  qed
  show ?thesis using get set pop by blast
qed

theorem ax_vector_elements_witness:
  "\<exists>v :: nat ax_vector. vec_ok v \<and> ax_vector_get (Some v) 0 = Inr 7 \<and> (\<exists>v'. ax_vector_pop (Some v) = Inr (7, Some v') \<and> vec_items v' = [])"
proof -
  let ?v = "\<lparr>v_block = [], v_alloc = ax_sys_a, v_data = Some (bytes_of 8 7), v_elem = 8, v_len = 1, v_cap = 1\<rparr>"
  have "vec_ok ?v" by (simp add: vec_ok_def)
  moreover have "vec_items ?v = [bytes_of 8 7]" by (simp add: vec_items_def chunks_def)
  moreover have "ptr_of (bytes_of 8 7) = 7" using ptr_of_bytes[of 7] by simp
  ultimately show ?thesis using ax_vector_elements[of ?v 0 0] by (intro exI[of _ ?v]) auto
qed

text \<open>
  C28. \<open>reserve\<close> and \<open>shrink\<close> keep the elements: on success there is room for what was asked, or the
  capacity is the length; when the allocator fails the vector is as it was.
\<close>

theorem ax_vector_resize_keeps:
  assumes "vec_ok v" "alloc_ok (v_alloc v)"
  shows "(\<exists>s v' m'. ax_vector_reserve m (Some v) c = Inr (s, Some v', m') \<and> vec_ok v' \<and> vec_items v' = vec_items v \<and>
      (s = AX_OK \<and> c \<le> v_cap v' \<or> s = AX_ERR_ALLOC \<and> v' = v)) \<and>
    (\<exists>s v' m'. ax_vector_shrink m (Some v) = Inr (s, Some v', m') \<and> vec_ok v' \<and> vec_items v' = vec_items v \<and>
      (s = AX_OK \<and> v_cap v' = v_len v' \<or> s = AX_ERR_ALLOC \<and> v' = v))"
proof
  show "\<exists>s v' m'. ax_vector_reserve m (Some v) c = Inr (s, Some v', m') \<and> vec_ok v' \<and> vec_items v' = vec_items v \<and>
      (s = AX_OK \<and> c \<le> v_cap v' \<or> s = AX_ERR_ALLOC \<and> v' = v)"
  proof (cases "c \<le> v_cap v")
    case True
    then show ?thesis using assms(1) by (auto simp: ax_vector_reserve_def)
  next
    case False
    then have "v_len v \<le> c" "0 < c" using assms(1) by (auto simp: vec_ok_def)
    with resize_by[OF assms(2,1) refl this, of m] False show ?thesis by (auto simp: ax_vector_reserve_def)
  qed
  show "\<exists>s v' m'. ax_vector_shrink m (Some v) = Inr (s, Some v', m') \<and> vec_ok v' \<and> vec_items v' = vec_items v \<and>
      (s = AX_OK \<and> v_cap v' = v_len v' \<or> s = AX_ERR_ALLOC \<and> v' = v)"
  proof (cases "v_len v = v_cap v \<or> v_len v = 0")
    case True
    obtain f where f: "al_free (v_alloc v) = Some f" using assms(2) by (auto simp: alloc_ok_def)
    show ?thesis
    proof (cases "v_len v = v_cap v")
      case True
      then show ?thesis using assms(1) by (simp add: ax_vector_shrink_def)
    next
      case False
      then have "v_len v = 0" using True by simp
      then show ?thesis using False f assms(1) by (simp add: ax_vector_shrink_def call_def vec_ok_def vec_items_def chunks_def)
    qed
  next
    case False
    with resize_by[OF assms(2,1) refl, of "v_len v" m] show ?thesis by (auto simp: ax_vector_shrink_def)
  qed
qed

theorem ax_vector_resize_keeps_witness:
  "\<exists>s v' m'. ax_vector_reserve 100 (Some ex_vector) 9 = Inr (s, Some v', m') \<and> vec_ok v' \<and> vec_items v' = []"
proof -
  have "vec_ok ex_vector" by (simp add: vec_ok_def ex_vector_def)
  moreover have "alloc_ok (v_alloc ex_vector)" using sys.laws by (simp add: ex_vector_def)
  moreover have "vec_items ex_vector = []" by (simp add: ex_vector_def vec_items_def chunks_def)
  ultimately show ?thesis using ax_vector_resize_keeps[of ex_vector 100 9] by metis
qed

end
