(* ===== verification/Arena.thy ===== *)
theory Arena
  imports Vector
begin

text \<open>
  \<open>pkg/axsys/src/arena.c\<close>: a bump allocator whose header lives at the start of the block it hands out.
  Sizes, offsets and addresses are 64-bit words, so the rounding of an offset can wrap as it does in C.
  What the parent allocator or \<open>mmap\<close> returns for a size is a parameter \<open>got\<close>; the parent itself is a
  value \<open>'p\<close> that only \<open>ax_arena_destroy\<close> uses. \<open>sizeof(ax_arena)\<close> is 96 and the alignment of
  \<open>max_align_t\<close> is 16, as on the 64-bit platforms the build supports.
\<close>

subsection \<open>The code\<close>

record 'p ax_arena =
  ar_ptr :: u64
  ar_cap :: u64
  ar_off :: u64
  ar_our :: "'p option"
  ar_mmap :: bool

definition sizeof_arena :: u64 where
  "sizeof_arena = 96"

definition max_align :: u64 where
  "max_align = 16"

definition ax_arena_create :: "'p option \<Rightarrow> (u64 \<Rightarrow> u64 option) \<Rightarrow> u64 \<Rightarrow> 'p ax_arena option" where
  "ax_arena_create loc got cap =
     (if loc = None then None
      else if - 1 - sizeof_arena < cap then None
      else let siz = sizeof_arena + cap in
        case got siz of
          None \<Rightarrow> None
        | Some a \<Rightarrow> Some \<lparr>ar_ptr = a, ar_cap = siz, ar_off = sizeof_arena, ar_our = loc, ar_mmap = False\<rparr>)"

definition ax_arena_create_overcommit :: "(u64 \<Rightarrow> u64 option) \<Rightarrow> u64 \<Rightarrow> 'p ax_arena option" where
  "ax_arena_create_overcommit got cap =
     (if - 1 - sizeof_arena < cap then None
      else let siz = sizeof_arena + cap in
        case got siz of
          None \<Rightarrow> None
        | Some a \<Rightarrow> Some \<lparr>ar_ptr = a, ar_cap = siz, ar_off = sizeof_arena, ar_our = None, ar_mmap = True\<rparr>)"

text \<open>The call that releases an arena; freeing through a zeroed parent would be a null call.\<close>

datatype 'p release = No_release | Munmap u64 u64 | Parent_free 'p u64

definition ax_arena_destroy :: "'p ax_arena option \<Rightarrow> 'p release res" where
  "ax_arena_destroy a = (case a of
     None \<Rightarrow> Inr No_release
   | Some a \<Rightarrow>
       if ar_mmap a then Inr (Munmap (ar_ptr a) (ar_cap a))
       else (case ar_our a of None \<Rightarrow> Inl (Abort ''null function'') | Some p \<Rightarrow> Inr (Parent_free p (ar_ptr a))))"

definition round_up :: "u64 \<Rightarrow> u64 \<Rightarrow> u64" where
  "round_up off align = (off + align - 1) AND NOT (align - 1)"

definition arena_take :: "'p ax_arena \<Rightarrow> u64 \<Rightarrow> u64 \<Rightarrow> u64 option \<times> 'p ax_arena" where
  "arena_take a sz align =
     (let old = round_up (ar_off a) align in
      if ar_cap a < old \<or> ar_cap a - old < sz then (None, a)
      else (Some (ar_ptr a + old), a\<lparr>ar_off := old + sz\<rparr>))"

definition ax_arena_alloc :: "'p ax_arena option \<Rightarrow> u64 \<Rightarrow> u64 option \<times> 'p ax_arena option" where
  "ax_arena_alloc ctx sz = (case ctx of
     None \<Rightarrow> (None, None)
   | Some a \<Rightarrow> (case arena_take a sz max_align of (p, a') \<Rightarrow> (p, Some a')))"

definition ax_arena_alloc_aligned :: "'p ax_arena option \<Rightarrow> u64 \<Rightarrow> u64 \<Rightarrow> u64 option \<times> 'p ax_arena option" where
  "ax_arena_alloc_aligned ctx sz align = (case ctx of
     None \<Rightarrow> (None, None)
   | Some a \<Rightarrow>
       if align = 0 \<or> align AND (align - 1) \<noteq> 0 then (None, Some a)
       else (case arena_take a sz align of (p, a') \<Rightarrow> (p, Some a')))"

definition ax_arena_free :: "'p ax_arena option \<Rightarrow> u64 option \<Rightarrow> 'p ax_arena option" where
  "ax_arena_free ctx ptr = ctx"

definition ax_arena_reset :: "'p ax_arena option \<Rightarrow> 'p ax_arena option" where
  "ax_arena_reset a = map_option (\<lambda>a. a\<lparr>ar_off := sizeof_arena\<rparr>) a"

definition ax_arena_start :: "'p ax_arena option \<Rightarrow> u64 option" where
  "ax_arena_start a = map_option (\<lambda>a. ar_ptr a + sizeof_arena) a"

definition ax_arena_end :: "'p ax_arena option \<Rightarrow> u64 option" where
  "ax_arena_end a = map_option (\<lambda>a. ar_ptr a + ar_cap a) a"

text \<open>
  The allocator record an arena embeds, over the arena as state: a block is the bytes at the returned
  address, which are taken to be zero, and there is no \<open>realloc\<close>.
\<close>

definition arena_allocator :: "'p ax_arena ax_allocator" where
  "arena_allocator = \<lparr>
     al_alloc = Some (\<lambda>a n. case ax_arena_alloc (Some a) (word_of_nat n) of
       (Some p, Some a') \<Rightarrow> (Some (replicate n 0), a') | _ \<Rightarrow> (None, a)),
     al_realloc = None,
     al_free = Some (\<lambda>a ptr. a)\<rparr>"

definition ax_arena_as_allocator :: "'p ax_arena option \<Rightarrow> 'p ax_arena ax_allocator option" where
  "ax_arena_as_allocator a = map_option (\<lambda>_. arena_allocator) a"

subsection \<open>Rounding\<close>

lemma power2_word:
  fixes x :: u64
  assumes "x \<noteq> 0" "x AND (x - 1) = 0"
  obtains k where "k < 64" "unat x = 2 ^ k"
proof -
  have pos: "0 < unat x" using assms(1) by (simp add: unat_gt_0)
  obtain k where k: "2 ^ k \<le> unat x" "unat x < 2 ^ (k + 1)" using ex_power_ivl1[of 2 "unat x"] pos by auto
  have k64: "k < 64"
  proof (rule ccontr)
    assume "\<not> k < 64"
    then have "(2 :: nat) ^ 64 \<le> 2 ^ k" by (intro power_increasing) auto
    then show False using k(1) unat_u64_less[of x] by linarith
  qed
  have top: "bit y k" if "2 ^ k \<le> y" "y < 2 ^ (k + 1)" for y :: nat
  proof -
    have "y div 2 ^ k = 1" using that by (simp add: div_nat_eqI)
    then show ?thesis by (simp add: bit_iff_odd)
  qed
  have "unat x = 2 ^ k"
  proof (rule ccontr)
    assume "unat x \<noteq> 2 ^ k"
    then have "2 ^ k \<le> unat (x - 1)" "unat (x - 1) < 2 ^ (k + 1)"
      using k assms(1) by (simp_all add: unat_minus_one)
    then have "bit (unat x) k" "bit (unat (x - 1)) k" using top k by blast+
    then have "bit (x AND (x - 1)) k" by (simp add: bit_and_iff bit_unsigned_iff)
    then show False using assms(2) by simp
  qed
  then show thesis using that k64 by blast
qed

lemma round_up_unat:
  assumes "k < 64" "unat align = 2 ^ k" "unat off + 2 ^ k \<le> 2 ^ 64"
  shows "unat (round_up off align) = (unat off + 2 ^ k - 1) div 2 ^ k * 2 ^ k"
proof -
  have "align = word_of_nat (unat align)" by simp
  then have a: "align = 2 ^ k" unfolding assms(2) by simp
  have m: "align - 1 = mask k" by (simp add: a mask_eq_decr_exp)
  let ?x = "off + align - 1"
  have x: "unat ?x = unat off + 2 ^ k - 1"
  proof -
    have "word_of_nat (unat off + 2 ^ k - 1) = word_of_nat (unat off + 2 ^ k) - (word_of_nat 1 :: u64)"
      by (rule of_nat_diff) (simp add: Suc_le_eq)
    then have "?x = word_of_nat (unat off + 2 ^ k - 1)" by (simp add: a)
    then show ?thesis using assms(3) by (simp add: unsigned_of_nat take_bit_eq_mod)
  qed
  have "round_up off align = push_bit k (drop_bit k ?x)"
    unfolding round_up_def m by (rule bit_word_eqI) (auto simp: bit_and_iff bit_not_iff bit_mask_iff bit_push_bit_iff bit_drop_bit_eq)
  moreover have "unat (push_bit k (drop_bit k ?x)) = unat ?x div 2 ^ k * 2 ^ k"
  proof -
    have "unat ?x div 2 ^ k * 2 ^ k < 2 ^ 64"
      using unat_u64_less[of ?x] div_times_less_eq_dividend[of "unat ?x" "2 ^ k"] by (rule order_le_less_trans[rotated])
    then show ?thesis
      unfolding unsigned_push_bit_eq unsigned_drop_bit_eq by (simp add: push_bit_eq_mult drop_bit_eq_div take_bit_eq_mod)
  qed
  ultimately show ?thesis using x by simp
qed

subsection \<open>Blocks\<close>

text \<open>An arena whose block does not wrap around the address space, with a header and an offset inside it.\<close>

definition arena_ok :: "'p ax_arena \<Rightarrow> bool" where
  "arena_ok a \<longleftrightarrow> 96 \<le> unat (ar_off a) \<and> unat (ar_off a) \<le> unat (ar_cap a) \<and> unat (ar_cap a) \<le> 2 ^ 63 \<and>
     unat (ar_ptr a) + unat (ar_cap a) < 2 ^ 64"

lemma round_up_ge: "x \<le> (x + 2 ^ k - 1) div 2 ^ k * 2 ^ k" for x :: nat
proof -
  have "(x + 2 ^ k - 1) mod 2 ^ k < 2 ^ k" by simp
  then have "x + 2 ^ k - 1 < (x + 2 ^ k - 1) div 2 ^ k * 2 ^ k + 2 ^ k"
    using div_mult_mod_eq[of "x + 2 ^ k - 1" "2 ^ k"] by linarith
  then show ?thesis by linarith
qed

lemma arena_take_block:
  assumes "arena_ok a" "k < 64" "unat align = 2 ^ k" "arena_take a sz align = (Some p, a')"
  shows "\<exists>old. old mod 2 ^ k = 0 \<and> unat (ar_off a) \<le> old \<and> unat p = unat (ar_ptr a) + old \<and> unat (ar_off a') = old + unat sz \<and>
    old + unat sz \<le> unat (ar_cap a) \<and> a' = a\<lparr>ar_off := ar_off a'\<rparr> \<and> arena_ok a'"
proof -
  have "(2 :: nat) ^ k \<le> 2 ^ 63" using assms(2) by (intro power_increasing) auto
  then have r: "unat (round_up (ar_off a) align) = (unat (ar_off a) + 2 ^ k - 1) div 2 ^ k * 2 ^ k"
    using assms(1) by (intro round_up_unat[OF assms(2,3)]) (simp add: arena_ok_def)
  define old where "old = round_up (ar_off a) align"
  have t: "old \<le> ar_cap a" "sz \<le> ar_cap a - old" "p = ar_ptr a + old" "a' = a\<lparr>ar_off := old + sz\<rparr>"
    using assms(4) by (auto simp: arena_take_def Let_def old_def split: if_splits)
  have le: "unat old + unat sz \<le> unat (ar_cap a)"
    using t(1,2) by (simp add: word_le_nat_alt unat_sub)
  have "unat (old + sz) = unat old + unat sz" "unat (ar_ptr a + old) = unat (ar_ptr a) + unat old"
    using le assms(1) by (subst unat_add_lem[THEN iffD1]; simp add: arena_ok_def)+
  then show ?thesis using t le r round_up_ge[of "unat (ar_off a)" k] assms(1)
    by (intro exI[of _ "unat old"]) (simp add: old_def[symmetric] arena_ok_def)
qed

text \<open>A sequence of requests (size and alignment) and the blocks granted, in order.\<close>

fun arena_run :: "'p ax_arena option \<Rightarrow> (u64 \<times> u64) list \<Rightarrow> (u64 \<times> u64 \<times> u64) list" where
  "arena_run a [] = []"
| "arena_run a ((sz, align) # reqs) = (case ax_arena_alloc_aligned a sz align of
     (Some p, a') \<Rightarrow> (p, sz, align) # arena_run a' reqs
   | (None, a') \<Rightarrow> arena_run a' reqs)"

lemma aligned_block:
  assumes "arena_ok a" "ax_arena_alloc_aligned (Some a) sz align = (Some p, a1)"
  obtains old a' where "a1 = Some a'" "old mod unat align = 0" "unat (ar_off a) \<le> old" "unat p = unat (ar_ptr a) + old"
    "unat (ar_off a') = old + unat sz" "old + unat sz \<le> unat (ar_cap a)" "a' = a\<lparr>ar_off := ar_off a'\<rparr>" "arena_ok a'"
proof -
  have al: "align \<noteq> 0" "align AND (align - 1) = 0"
    using assms(2) by (auto simp: ax_arena_alloc_aligned_def split: if_splits)
  then obtain a' where a': "arena_take a sz align = (Some p, a')" "a1 = Some a'"
    using assms(2) by (auto simp: ax_arena_alloc_aligned_def split: prod.splits)
  obtain k where k: "k < 64" "unat align = 2 ^ k" using power2_word[OF al] .
  from arena_take_block[OF assms(1) k a'(1)] that[OF a'(2)] k(2) show thesis by metis
qed

lemma aligned_power2: "ax_arena_alloc_aligned a sz align = (Some p, a') \<Longrightarrow> \<exists>k. unat align = 2 ^ k"
  using power2_word[of align] by (auto simp: ax_arena_alloc_aligned_def split: if_splits option.splits)

lemma run_power2: "(p, n, al) \<in> set (arena_run a reqs) \<Longrightarrow> \<exists>k. unat al = 2 ^ k"
proof (induction reqs arbitrary: a)
  case (Cons r reqs)
  obtain sz align where r: "r = (sz, align)" by force
  obtain x a1 where x: "ax_arena_alloc_aligned a sz align = (x, a1)" by force
  show ?case
  proof (cases x)
    case None
    then show ?thesis using Cons.prems Cons.IH[of a1] by (simp add: r x)
  next
    case (Some q)
    then have "(p, n, al) = (q, sz, align) \<or> (p, n, al) \<in> set (arena_run a1 reqs)"
      using Cons.prems by (simp add: r x)
    then show ?thesis using Cons.IH[of a1] aligned_power2[OF x[unfolded Some]] by blast
  qed
qed simp

lemma run_blocks:
  assumes "arena_ok a"
  shows "sorted_wrt (\<lambda>(p, n, _) (q, _). unat p + unat n \<le> unat q) (arena_run (Some a) reqs) \<and>
    (\<forall>(p, n, al) \<in> set (arena_run (Some a) reqs). unat (ar_ptr a) + unat (ar_off a) \<le> unat p \<and>
       unat p + unat n \<le> unat (ar_ptr a) + unat (ar_cap a) \<and> (unat p - unat (ar_ptr a)) mod unat al = 0)"
  using assms
proof (induction reqs arbitrary: a)
  case (Cons r reqs)
  obtain sz align where r: "r = (sz, align)" by force
  obtain x a1 where x: "ax_arena_alloc_aligned (Some a) sz align = (x, a1)" by force
  show ?case
  proof (cases x)
    case None
    then have "a1 = Some a" using x by (auto simp: ax_arena_alloc_aligned_def arena_take_def Let_def split: if_splits)
    then show ?thesis using Cons r x None by simp
  next
    case (Some p)
    obtain old a' where b: "a1 = Some a'" "old mod unat align = 0" "unat (ar_off a) \<le> old" "unat p = unat (ar_ptr a) + old"
      "unat (ar_off a') = old + unat sz" "old + unat sz \<le> unat (ar_cap a)" "a' = a\<lparr>ar_off := ar_off a'\<rparr>" "arena_ok a'"
      using aligned_block[OF Cons.prems x[unfolded Some]] .
    have same: "ar_ptr a' = ar_ptr a" "ar_cap a' = ar_cap a" by (subst b(7), simp)+
    have run: "arena_run (Some a) (r # reqs) = (p, sz, align) # arena_run (Some a') reqs" using r x Some b(1) by simp
    show ?thesis using Cons.IH[OF b(8)] b(2-6) same unfolding run by fastforce
  qed
qed simp

interpretation arena: ax_alloc arena_allocator
  by unfold_locales (auto simp: alloc_ok_def arena_allocator_def split: prod.splits option.splits)

subsection \<open>Properties\<close>

lemma mod_offset: "x mod m = 0 \<Longrightarrow> (b + x) mod m = b mod m" for x :: nat
  by (metis add_0_right mod_add_right_eq)

lemma arena_ends:
  assumes "arena_ok a"
  shows "unat (ar_ptr a + 96) = unat (ar_ptr a) + 96" "unat (ar_ptr a + ar_cap a) = unat (ar_ptr a) + unat (ar_cap a)"
proof -
  have b: "unat (ar_ptr a) + 96 < 2 ^ 64" "unat (ar_ptr a) + unat (ar_cap a) < 2 ^ 64"
    using assms unfolding arena_ok_def by linarith+
  show "unat (ar_ptr a + 96) = unat (ar_ptr a) + 96" using b(1) by (simp add: unat_word_ariths)
  show "unat (ar_ptr a + ar_cap a) = unat (ar_ptr a) + unat (ar_cap a)" using b(2) by (intro unat_add_lem[THEN iffD1]) simp
qed

lemma created_ok:
  assumes "ax_arena_create loc got cap = Some a \<or> ax_arena_create_overcommit got cap = Some a"
    "unat cap \<le> 2 ^ 62" "\<forall>n p. got n = Some p \<longrightarrow> unat p + unat n < 2 ^ 64"
  shows "arena_ok a \<and> ar_off a = 96 \<and> ar_cap a = 96 + cap"
proof -
  obtain p where p: "got (96 + cap) = Some p" "ar_ptr a = p" "ar_cap a = 96 + cap" "ar_off a = 96"
    using assms(1) by (auto simp: ax_arena_create_def ax_arena_create_overcommit_def sizeof_arena_def Let_def
      split: if_splits option.splits)
  have "unat (96 + cap) = 96 + unat cap" using assms(2) by (simp add: unat_word_ariths)
  moreover have "unat p + unat (96 + cap) < 2 ^ 64" using assms(3) p(1) by blast
  ultimately show ?thesis using p assms(2) by (simp add: arena_ok_def)
qed

text \<open>
  C38. However an arena of at most \<open>2 ^ 62\<close> bytes was created, in memory that does not wrap around, the blocks it grants to a sequence of requests follow one another
  without overlap between its start and its end, behind the header. Each block lies at a multiple of
  the requested alignment from the start of the arena, so its address is aligned exactly as well as the
  address of the arena itself; requests for an alignment that is not a power of two are refused.
\<close>

theorem ax_arena_blocks:
  assumes "ax_arena_create loc got cap = Some a \<or> ax_arena_create_overcommit got cap = Some a"
    "unat cap \<le> 2 ^ 62" "\<forall>n p. got n = Some p \<longrightarrow> unat p + unat n < 2 ^ 64"
  shows "sorted_wrt (\<lambda>(p, n, _) (q, _). unat p + unat n \<le> unat q) (arena_run (Some a) reqs) \<and>
    (\<forall>(p, n, al) \<in> set (arena_run (Some a) reqs). \<exists>s e k. ax_arena_start (Some a) = Some s \<and> ax_arena_end (Some a) = Some e \<and>
       unat s \<le> unat p \<and> unat p + unat n \<le> unat e \<and> unat al = 2 ^ k \<and> unat p mod unat al = unat (ar_ptr a) mod unat al)"
proof -
  note ok = created_ok[OF assms]
  note r = run_blocks[OF conjunct1[OF ok], of reqs]
  have start: "ax_arena_start (Some a) = Some (ar_ptr a + 96)" "ax_arena_end (Some a) = Some (ar_ptr a + ar_cap a)"
    by (simp_all add: ax_arena_start_def ax_arena_end_def sizeof_arena_def)
  have off: "ar_off a = 96" using ok by blast
  show ?thesis
  proof (intro conjI conjunct1[OF r] ballI)
    fix x assume mem: "x \<in> set (arena_run (Some a) reqs)"
    obtain p n al where x: "x = (p, n, al)" by (cases x)
    have b: "unat (ar_ptr a) + 96 \<le> unat p \<and> unat p + unat n \<le> unat (ar_ptr a) + unat (ar_cap a) \<and>
      (unat p - unat (ar_ptr a)) mod unat al = 0"
      using bspec[OF conjunct2[OF r] mem] unfolding x prod.case off by simp
    note p = conjunct1[OF b] conjunct2[OF b]
    obtain k where k: "unat al = 2 ^ k" using run_power2[OF mem[unfolded x]] by blast
    have m: "unat p mod unat al = unat (ar_ptr a) mod unat al"
      using mod_offset[OF conjunct2[OF p(2)], of "unat (ar_ptr a)"]
      unfolding le_add_diff_inverse[OF add_leD1[OF p(1)]] .
    have "unat (ar_ptr a + 96) \<le> unat p" "unat p + unat n \<le> unat (ar_ptr a + ar_cap a)"
      using p unfolding arena_ends[OF conjunct1[OF ok]] by blast+
    then show "case x of (p, n, al) \<Rightarrow> \<exists>s e k. ax_arena_start (Some a) = Some s \<and> ax_arena_end (Some a) = Some e \<and>
       unat s \<le> unat p \<and> unat p + unat n \<le> unat e \<and> unat al = 2 ^ k \<and> unat p mod unat al = unat (ar_ptr a) mod unat al"
      unfolding x prod.case start using k m by blast
  qed
qed

theorem ax_arena_blocks_witness:
  "sorted_wrt (\<lambda>(p, n, _) (q, _). unat p + unat n \<le> unat q)
     (arena_run (Some \<lparr>ar_ptr = 16, ar_cap = 1120, ar_off = 96, ar_our = Some (), ar_mmap = False\<rparr>) [(100, 16), (8, 64)])"
proof -
  let ?a = "\<lparr>ar_ptr = 16, ar_cap = 1120, ar_off = 96, ar_our = Some (), ar_mmap = False\<rparr>"
  let ?got = "\<lambda>n :: u64. if n = 1120 then Some (16 :: u64) else None"
  have "ax_arena_create (Some ()) ?got 1024 = Some ?a"
    by (simp add: ax_arena_create_def sizeof_arena_def Let_def)
  then show ?thesis using ax_arena_blocks[of "Some ()" ?got 1024 ?a "[(100, 16), (8, 64)]"] by simp
qed

end
