(* ===== verification/Plan_Op.thy ===== *)
theory Plan_Op
  imports Plan_Value
begin

text \<open>
  \<open>pkg/plan/src/op.c\<close>, the bodies of the primitive operations. A body reads its arguments from the
  value stack, here the list \<open>a\<close> (the machine has forced the arguments of the strict mask before), and
  either faults, throws, or returns the value the machine continues with together with the frames it
  pushed; the head of the frame list is the top of the frame stack. \<open>COERCE\<close> overwrites a slot with
  the coerced nat, which only the body sees, so it is a function of the slot.

  A word that is neither a nat nor an APP, LAW or PIN (a deferred argument of a lazy position) is
  \<open>VOther\<close>: the bodies only pass it on. Garbage collection requests move objects without changing
  them and are left out, as are the allocation statistics.

  Left out: \<open>op_row\<close>, whose elements are thunks over store-resident law bodies; \<open>op_trace\<close>; the store
  operations \<open>op_install\<close>, \<open>op_compile\<close>, \<open>op_ice\<close> and \<open>op_save\<close>; and the byte tree operations.
\<close>

subsection \<open>Frames and results\<close>

datatype pl_frame =
    F_APPLY pval
  | F_SEQ pval
  | F_NF
  | F_NIL
  | F_TRY nat u64
  | F_MEMO pval pval u64

datatype op_fault = OpFault fault | OpThrow pval

type_synonym opres = "op_fault + (pl_frame list \<times> pval)"

definition raise_op :: "'a res \<Rightarrow> op_fault + 'a" where
  "raise_op r = (case r of Inl f \<Rightarrow> Inl (OpFault f) | Inr x \<Rightarrow> Inr x)"

definition ret_op :: "pval \<Rightarrow> opres" where
  "ret_op v = Inr ([], v)"

definition run_frames :: "pl_frame list \<Rightarrow> pval \<Rightarrow> opres" where
  "run_frames fs v = Inr (fs, v)"

text \<open>A machine word returned as a value: a direct nat if the top bit is clear.\<close>

definition word_val :: "u64 \<Rightarrow> pval" where
  "word_val w = (if w \<le> PL_NAT63_MAX then VNat (Direct w) else VOther w)"

definition bool_val :: "bool \<Rightarrow> pval" where
  "bool_val b = VNat (Direct (if b then 1 else 0))"

abbreviation zero_val :: pval where
  "zero_val \<equiv> VNat (Direct 0)"

definition COERCE :: "pval list \<Rightarrow> nat \<Rightarrow> pnat" where
  "COERCE a i = pl_nat_coerce (a ! i)"

definition nat_op :: "pnat res \<Rightarrow> opres" where
  "nat_op r = raise_op (rbind r (\<lambda>n. Inr ([], VNat n)))"

definition val_op :: "pval res \<Rightarrow> opres" where
  "val_op r = raise_op (rbind r (\<lambda>v. Inr ([], v)))"

fun as_nat63 :: "pval \<Rightarrow> u64 option" where
  "as_nat63 (VNat (Direct w)) = Some w"
| "as_nat63 _ = None"

text \<open>Short byte strings packed into a little-endian word (\<open>ax_s1\<close> to \<open>ax_s8\<close>).\<close>

fun ax_s :: "string \<Rightarrow> u64" where
  "ax_s [] = 0"
| "ax_s (c # cs) = push_bit 8 (ax_s cs) OR of_char c"

subsection \<open>Core operations\<close>

text \<open>\<open>pl_pin\<close> of a value in head normal form: a proxy without a hash.\<close>

definition pl_pin :: "pval \<Rightarrow> pval" where
  "pl_pin v = VPin None v"

definition op_pin :: "pval list \<Rightarrow> opres" where
  "op_pin a = ret_op (pl_pin (a ! 0))"

definition op_law :: "pval list \<Rightarrow> opres" where
  "op_law a =
     (let arity = pl_nat_u64_clamp (COERCE a 0) in
      val_op (rbind (assume_c (arity < PL_NAT63_MAX) ''law arity out of range'') (\<lambda>_.
        Inr (pl_mk_law (arity + 1) (a ! 1) (a ! 2)))))"

definition op_elim :: "mpn_api \<Rightarrow> pval list \<Rightarrow> opres" where
  "op_elim M a = (case a ! 5 of
     VNat n \<Rightarrow>
       if n = Direct 0 then ret_op (a ! 3)
       else raise_op (rbind (pl_nat_dec M n) (\<lambda>om1. Inr ([F_APPLY (VNat om1)], a ! 4)))
   | VPin h body \<Rightarrow> run_frames [F_APPLY body] (a ! 0)
   | VLaw ar name body \<Rightarrow>
       raise_op (rbind (assume_c (ar \<le> PL_NAT63_MAX) ''law arity out of range'') (\<lambda>_.
         Inr ([F_APPLY (VNat (Direct ar)), F_APPLY name, F_APPLY body], a ! 1)))
   | VApp need head args \<Rightarrow>
       let n = length args in
       raise_op (rbind (if n = 1 then Inr head else pl_mk_app_take (a ! 5) (n - 1)) (\<lambda>ini.
         Inr ([F_APPLY ini, F_APPLY (args ! (n - 1))], a ! 2)))
   | VOther w \<Rightarrow> raise_op (Inl (Abort ''match: bad scrutinee tag'')))"

subsection \<open>Arithmetic and bits\<close>

definition op_inc :: "mpn_api \<Rightarrow> pval list \<Rightarrow> opres" where
  "op_inc M a = nat_op (pl_nat_inc M (COERCE a 0))"

definition op_dec :: "mpn_api \<Rightarrow> pval list \<Rightarrow> opres" where
  "op_dec M a = nat_op (pl_nat_dec M (COERCE a 0))"

definition op_add :: "mpn_api \<Rightarrow> pval list \<Rightarrow> opres" where
  "op_add M a = nat_op (pl_nat_add M (COERCE a 0) (COERCE a 1))"

definition op_sub :: "mpn_api \<Rightarrow> pval list \<Rightarrow> opres" where
  "op_sub M a = nat_op (pl_nat_sub M (COERCE a 0) (COERCE a 1))"

definition op_mul :: "mpn_api \<Rightarrow> pval list \<Rightarrow> opres" where
  "op_mul M a = nat_op (pl_nat_mul M (COERCE a 0) (COERCE a 1))"

definition op_div :: "mpn_api \<Rightarrow> pval list \<Rightarrow> opres" where
  "op_div M a = nat_op (pl_nat_div M (COERCE a 0) (COERCE a 1))"

definition op_mod :: "mpn_api \<Rightarrow> pval list \<Rightarrow> opres" where
  "op_mod M a = nat_op (pl_nat_mod M (COERCE a 0) (COERCE a 1))"

definition op_rsh :: "mpn_api \<Rightarrow> pval list \<Rightarrow> opres" where
  "op_rsh M a = nat_op (pl_nat_rsh M (COERCE a 0) (COERCE a 1))"

definition op_lsh :: "mpn_api \<Rightarrow> pval list \<Rightarrow> opres" where
  "op_lsh M a = nat_op (pl_nat_lsh M (COERCE a 0) (COERCE a 1))"

definition op_bex :: "pval list \<Rightarrow> opres" where
  "op_bex a = nat_op (pl_nat_bex (COERCE a 0))"

definition op_test :: "pval list \<Rightarrow> opres" where
  "op_test a = ret_op (bool_val (pl_nat_test_bit (COERCE a 0) (COERCE a 1)))"

definition op_set :: "pval list \<Rightarrow> opres" where
  "op_set a = nat_op (pl_nat_set_bit (COERCE a 0) (COERCE a 1))"

definition op_clear :: "pval list \<Rightarrow> opres" where
  "op_clear a = nat_op (pl_nat_clear_bit (COERCE a 0) (COERCE a 1))"

definition op_nib :: "pval list \<Rightarrow> opres" where
  "op_nib a =
     (let i = pl_nat_u64_clamp (COERCE a 0);
          byte = pl_nat_byte_at (COERCE a 1) (unat (i div 2)) in
      ret_op (word_val (ucast (drop_bit (4 * unat (i mod 2)) byte) AND 0xF)))"

definition op_load8 :: "pval list \<Rightarrow> opres" where
  "op_load8 a = ret_op (word_val (ucast (pl_nat_byte_at (COERCE a 1) (unat (pl_nat_u64_clamp (COERCE a 0))))))"

definition op_loadvar :: "pval list \<Rightarrow> opres" where
  "op_loadvar a = nat_op (pl_nat_load_var (COERCE a 0) (COERCE a 1) (COERCE a 2))"

definition op_store8 :: "pval list \<Rightarrow> opres" where
  "op_store8 a = nat_op (pl_nat_store_byte (COERCE a 0) (COERCE a 1) (COERCE a 2))"

definition op_trunc :: "pval list \<Rightarrow> opres" where
  "op_trunc a = nat_op (pl_nat_trunc (COERCE a 0) (COERCE a 1))"

definition op_trunc_k :: "u64 \<Rightarrow> pval list \<Rightarrow> opres" where
  "op_trunc_k w a = nat_op (pl_nat_trunc (Direct w) (COERCE a 0))"

definition op_trunc8 :: "pval list \<Rightarrow> opres" where
  "op_trunc8 a = op_trunc_k 8 a"

definition op_trunc16 :: "pval list \<Rightarrow> opres" where
  "op_trunc16 a = op_trunc_k 16 a"

definition op_trunc32 :: "pval list \<Rightarrow> opres" where
  "op_trunc32 a = op_trunc_k 32 a"

definition op_trunc64 :: "pval list \<Rightarrow> opres" where
  "op_trunc64 a = op_trunc_k 64 a"

definition op_bits :: "pval list \<Rightarrow> opres" where
  "op_bits a = ret_op (word_val (word_of_nat (pl_nat_bit_len (COERCE a 0))))"

definition op_bytes :: "pval list \<Rightarrow> opres" where
  "op_bytes a = ret_op (word_val (word_of_nat (pl_nat_byte_len (COERCE a 0))))"

subsection \<open>Byte scanning\<close>

definition src_limbs :: "pnat \<Rightarrow> limbs" where
  "src_limbs v = (case v of Direct w \<Rightarrow> [w] | Boxed ls \<Rightarrow> ls)"

text \<open>The loop over the source bytes; its state is the end, the newlines and the final column.\<close>

function scan_loop :: "u64 list \<Rightarrow> limbs \<Rightarrow> bool \<Rightarrow> nat \<Rightarrow> nat \<Rightarrow> nat \<Rightarrow> nat \<Rightarrow> nat \<times> nat \<times> nat" where
  "scan_loop cls limbs polarity src_len end newlines column =
     (if end < src_len then
        let byte = ucast (drop_bit (end mod 8 * 8) (limbs ! (end div 8))) :: u8;
            in_class = bit (cls ! (unat byte div 64)) (unat byte mod 64) in
        if in_class \<noteq> polarity then (end, newlines, column)
        else if byte = 10 then scan_loop cls limbs polarity src_len (end + 1) (newlines + 1) 0
        else scan_loop cls limbs polarity src_len (end + 1) newlines (column + 1)
      else (end, newlines, column))"
  by pat_completeness auto

termination
  by (relation "measure (\<lambda>(_, _, _, src_len, end, _). src_len - end)") auto

declare scan_loop.simps [simp del]

definition op_scan8 :: "pval list \<Rightarrow> opres" where
  "op_scan8 a =
     (let src_len = pl_nat_byte_len (COERCE a 0);
          start = pl_nat_u64_clamp (COERCE a 1);
          polarity = COERCE a 3 \<noteq> Direct 0;
          preserve_start = src_len \<le> unat start;
          (end, newlines, column) =
            (if preserve_start then (0, 0, 0)
             else scan_loop (map (pl_nat_limb_at (COERCE a 2)) [0..<4]) (src_limbs (COERCE a 0)) polarity
                    src_len (unat start) 0 0) in
      val_op (pl_mk_app_from zero_val
        [VNat (if preserve_start then COERCE a 1 else pl_mk_nat_u64 (word_of_nat end)),
         VNat (pl_mk_nat_u64 (word_of_nat newlines)),
         VNat (pl_mk_nat_u64 (word_of_nat column))]))"

subsection \<open>Comparisons\<close>

definition nat_cmp_args :: "mpn_api \<Rightarrow> pval list \<Rightarrow> int" where
  "nat_cmp_args M a = pl_nat_cmp M (COERCE a 0) (COERCE a 1)"

definition op_eq :: "mpn_api \<Rightarrow> pval list \<Rightarrow> opres" where
  "op_eq M a = ret_op (bool_val (nat_cmp_args M a = 0))"

definition op_ne :: "mpn_api \<Rightarrow> pval list \<Rightarrow> opres" where
  "op_ne M a = ret_op (bool_val (nat_cmp_args M a \<noteq> 0))"

definition op_lt :: "mpn_api \<Rightarrow> pval list \<Rightarrow> opres" where
  "op_lt M a = ret_op (bool_val (nat_cmp_args M a < 0))"

definition op_le :: "mpn_api \<Rightarrow> pval list \<Rightarrow> opres" where
  "op_le M a = ret_op (bool_val (nat_cmp_args M a \<le> 0))"

definition op_gt :: "mpn_api \<Rightarrow> pval list \<Rightarrow> opres" where
  "op_gt M a = ret_op (bool_val (0 < nat_cmp_args M a))"

definition op_ge :: "mpn_api \<Rightarrow> pval list \<Rightarrow> opres" where
  "op_ge M a = ret_op (bool_val (0 \<le> nat_cmp_args M a))"

definition op_cmp :: "mpn_api \<Rightarrow> pval list \<Rightarrow> opres" where
  "op_cmp M a =
     (let c = nat_cmp_args M a in ret_op (VNat (Direct (if c < 0 then 0 else if c = 0 then 1 else 2))))"

subsection \<open>Booleans and branches\<close>

definition op_nil :: "pval list \<Rightarrow> opres" where
  "op_nil a = ret_op (bool_val (a ! 0 = zero_val))"

definition op_truth :: "pval list \<Rightarrow> opres" where
  "op_truth a = ret_op (bool_val (a ! 0 \<noteq> zero_val))"

definition op_or :: "pval list \<Rightarrow> opres" where
  "op_or a = ret_op (if a ! 0 = zero_val then a ! 1 else a ! 0)"

definition op_and :: "pval list \<Rightarrow> opres" where
  "op_and a = ret_op (if a ! 0 = zero_val then zero_val else a ! 1)"

definition op_nor :: "pval list \<Rightarrow> opres" where
  "op_nor a = (if a ! 0 \<noteq> zero_val then ret_op zero_val else run_frames [F_NIL] (a ! 1))"

definition op_if :: "pval list \<Rightarrow> opres" where
  "op_if a = ret_op (if a ! 0 \<noteq> zero_val then a ! 1 else a ! 2)"

definition op_ifz :: "pval list \<Rightarrow> opres" where
  "op_ifz a = ret_op (if a ! 0 = zero_val then a ! 1 else a ! 2)"

definition op_case_k :: "nat \<Rightarrow> pval list \<Rightarrow> opres" where
  "op_case_k argc a = ret_op (case as_nat63 (a ! 0) of
     Some x \<Rightarrow> if unat x < argc - 2 then a ! (1 + unat x) else a ! (argc - 1)
   | None \<Rightarrow> a ! (argc - 1))"

definition op_case2 :: "pval list \<Rightarrow> opres" where "op_case2 a = op_case_k 3 a"
definition op_case3 :: "pval list \<Rightarrow> opres" where "op_case3 a = op_case_k 4 a"
definition op_case4 :: "pval list \<Rightarrow> opres" where "op_case4 a = op_case_k 5 a"
definition op_case5 :: "pval list \<Rightarrow> opres" where "op_case5 a = op_case_k 6 a"
definition op_case6 :: "pval list \<Rightarrow> opres" where "op_case6 a = op_case_k 7 a"
definition op_case7 :: "pval list \<Rightarrow> opres" where "op_case7 a = op_case_k 8 a"
definition op_case8 :: "pval list \<Rightarrow> opres" where "op_case8 a = op_case_k 9 a"
definition op_case9 :: "pval list \<Rightarrow> opres" where "op_case9 a = op_case_k 10 a"
definition op_case10 :: "pval list \<Rightarrow> opres" where "op_case10 a = op_case_k 11 a"
definition op_case11 :: "pval list \<Rightarrow> opres" where "op_case11 a = op_case_k 12 a"
definition op_case12 :: "pval list \<Rightarrow> opres" where "op_case12 a = op_case_k 13 a"
definition op_case13 :: "pval list \<Rightarrow> opres" where "op_case13 a = op_case_k 14 a"
definition op_case14 :: "pval list \<Rightarrow> opres" where "op_case14 a = op_case_k 15 a"
definition op_case15 :: "pval list \<Rightarrow> opres" where "op_case15 a = op_case_k 16 a"
definition op_case16 :: "pval list \<Rightarrow> opres" where "op_case16 a = op_case_k 17 a"

definition op_case :: "pval list \<Rightarrow> opres" where
  "op_case a = ret_op (case (a ! 1, as_nat63 (a ! 0)) of
     (VApp need head args, Some x) \<Rightarrow> if unat x < length args then args ! unat x else a ! 2
   | _ \<Rightarrow> a ! 2)"

subsection \<open>Inspection\<close>

definition op_type :: "pval list \<Rightarrow> opres" where
  "op_type a = ret_op (VNat (Direct (case a ! 0 of
     VNat n \<Rightarrow> 0 | VPin h b \<Rightarrow> 1 | VLaw ar name body \<Rightarrow> 2 | VApp need head args \<Rightarrow> 3 | VOther w \<Rightarrow> 0)))"

definition op_is_pin :: "pval list \<Rightarrow> opres" where
  "op_is_pin a = ret_op (bool_val (case a ! 0 of VPin h b \<Rightarrow> True | _ \<Rightarrow> False))"

definition op_is_law :: "pval list \<Rightarrow> opres" where
  "op_is_law a = ret_op (bool_val (case a ! 0 of VLaw ar name body \<Rightarrow> True | _ \<Rightarrow> False))"

definition op_is_app :: "pval list \<Rightarrow> opres" where
  "op_is_app a = ret_op (bool_val (case a ! 0 of VApp need head args \<Rightarrow> True | _ \<Rightarrow> False))"

definition op_is_nat :: "pval list \<Rightarrow> opres" where
  "op_is_nat a = ret_op (bool_val (case a ! 0 of VNat n \<Rightarrow> True | _ \<Rightarrow> False))"

definition op_nat :: "pval list \<Rightarrow> opres" where
  "op_nat a = ret_op (VNat (COERCE a 0))"

definition op_arity :: "pval list \<Rightarrow> opres" where
  "op_arity a = ret_op (case a ! 0 of VLaw ar name body \<Rightarrow> word_val ar | _ \<Rightarrow> zero_val)"

definition op_name :: "pval list \<Rightarrow> opres" where
  "op_name a = ret_op (case a ! 0 of VLaw ar name body \<Rightarrow> name | _ \<Rightarrow> zero_val)"

definition op_body :: "pval list \<Rightarrow> opres" where
  "op_body a = ret_op (case a ! 0 of VLaw ar name body \<Rightarrow> body | _ \<Rightarrow> zero_val)"

definition op_unpin :: "pval list \<Rightarrow> opres" where
  "op_unpin a = ret_op (case a ! 0 of VPin h body \<Rightarrow> body | _ \<Rightarrow> zero_val)"

subsection \<open>Rows\<close>

definition op_sz :: "pval list \<Rightarrow> opres" where
  "op_sz a = ret_op (case a ! 0 of
     VApp need head args \<Rightarrow> word_val (word_of_nat (length args)) | _ \<Rightarrow> zero_val)"

definition op_hd :: "pval list \<Rightarrow> opres" where
  "op_hd a = ret_op (case a ! 0 of VApp need head args \<Rightarrow> head | _ \<Rightarrow> a ! 0)"

definition op_last :: "pval list \<Rightarrow> opres" where
  "op_last a = ret_op (case a ! 0 of VApp need head args \<Rightarrow> args ! (length args - 1) | _ \<Rightarrow> zero_val)"

definition op_init :: "pval list \<Rightarrow> opres" where
  "op_init a = (case a ! 0 of
     VApp need head args \<Rightarrow>
       if length args = 1 then ret_op head else val_op (pl_mk_app_take (a ! 0) (length args - 1))
   | _ \<Rightarrow> ret_op zero_val)"

definition op_ix :: "pval list \<Rightarrow> opres" where
  "op_ix a = (let i = unat (pl_nat_u64_clamp (COERCE a 0)) in
     ret_op (case a ! 1 of
       VApp need head args \<Rightarrow> if i < length args then args ! i else zero_val
     | _ \<Rightarrow> zero_val))"

definition op_ix_k :: "nat \<Rightarrow> pval list \<Rightarrow> opres" where
  "op_ix_k i a = ret_op (case a ! 0 of
     VApp need head args \<Rightarrow>
       if i = 0 then args ! 0 else if i < length args then args ! i else zero_val
   | _ \<Rightarrow> zero_val)"

definition op_ix0 :: "pval list \<Rightarrow> opres" where "op_ix0 a = op_ix_k 0 a"
definition op_ix1 :: "pval list \<Rightarrow> opres" where "op_ix1 a = op_ix_k 1 a"
definition op_ix2 :: "pval list \<Rightarrow> opres" where "op_ix2 a = op_ix_k 2 a"
definition op_ix3 :: "pval list \<Rightarrow> opres" where "op_ix3 a = op_ix_k 3 a"
definition op_ix4 :: "pval list \<Rightarrow> opres" where "op_ix4 a = op_ix_k 4 a"
definition op_ix5 :: "pval list \<Rightarrow> opres" where "op_ix5 a = op_ix_k 5 a"
definition op_ix6 :: "pval list \<Rightarrow> opres" where "op_ix6 a = op_ix_k 6 a"
definition op_ix7 :: "pval list \<Rightarrow> opres" where "op_ix7 a = op_ix_k 7 a"

definition op_up :: "pval list \<Rightarrow> opres" where
  "op_up a = (let i = unat (pl_nat_u64_clamp (COERCE a 0)) in
     case a ! 2 of
       VApp need head args \<Rightarrow>
         if length args \<le> i then ret_op (a ! 2)
         else val_op (rbind (pl_mk_app_from head args) (\<lambda>r. case r of
           VApp need' head' args' \<Rightarrow> Inr (VApp need' head' (args'[i := a ! 1]))
         | _ \<Rightarrow> Inr r))
     | _ \<Rightarrow> ret_op (a ! 2))"

definition op_slice :: "pval list \<Rightarrow> opres" where
  "op_slice a = (case a ! 2 of
     VApp need head args \<Rightarrow>
       let o' = unat (pl_nat_u64_clamp (COERCE a 0));
           n = unat (pl_nat_u64_clamp (COERCE a 1));
           sz = length args in
       if sz < o' then ret_op zero_val
       else let rsz = (if sz - o' < n then sz - o' else n) in
         if rsz = 0 then ret_op zero_val
         else if o' = 0 \<and> rsz = sz \<and> head = zero_val then ret_op (a ! 2)
         else val_op (pl_mk_app_from zero_val (take rsz (drop o' args)))
   | _ \<Rightarrow> ret_op zero_val)"

text \<open>The elements of a row argument: none for anything but an APP.\<close>

fun row_args :: "pval \<Rightarrow> pval list" where
  "row_args (VApp need head args) = args"
| "row_args _ = []"

definition op_weld :: "pval list \<Rightarrow> opres" where
  "op_weld a = (let xs = row_args (a ! 0); ys = row_args (a ! 1) in
     if length xs = 0 \<and> length ys = 0 then ret_op zero_val
     else ret_op (VApp 0 zero_val (xs @ ys)))"

definition op_rep :: "pval list \<Rightarrow> opres" where
  "op_rep a = (let n = unat (pl_nat_u64_clamp (COERCE a 2)) in
     if n = 0 then ret_op (VNat (COERCE a 0))
     else val_op (rbind (assume_c (n < 2 ^ 24) ''Rep size too large'') (\<lambda>_.
       Inr (VApp 0 (VNat (COERCE a 0)) (replicate n (a ! 1))))))"

definition op_coup :: "pval list \<Rightarrow> opres" where
  "op_coup a = (case a ! 1 of
     VApp need head args \<Rightarrow>
       raise_op (rbind (pl_arity (a ! 0)) (\<lambda>ar.
         if length args < ar then rbind (pl_mk_app_from (a ! 0) args) (\<lambda>r. Inr ([], r))
         else Inr (map F_APPLY args, a ! 0)))
   | _ \<Rightarrow> ret_op (a ! 0))"

subsection \<open>Forcing, sequencing, exceptions and memoisation\<close>

definition op_seq :: "pval list \<Rightarrow> opres" where
  "op_seq a = ret_op (a ! 1)"

definition op_seq2 :: "pval list \<Rightarrow> opres" where
  "op_seq2 a = ret_op (a ! 2)"

definition op_seq3 :: "pval list \<Rightarrow> opres" where
  "op_seq3 a = ret_op (a ! 3)"

definition op_sap :: "pval list \<Rightarrow> opres" where
  "op_sap a = run_frames [F_APPLY (a ! 1)] (a ! 0)"

definition op_sap2 :: "pval list \<Rightarrow> opres" where
  "op_sap2 a = run_frames [F_APPLY (a ! 1), F_APPLY (a ! 2)] (a ! 0)"

definition op_force :: "pval list \<Rightarrow> opres" where
  "op_force a = run_frames [F_NF] (a ! 0)"

definition op_deepseq :: "pval list \<Rightarrow> opres" where
  "op_deepseq a = run_frames [F_NF, F_SEQ (a ! 1)] (a ! 0)"

definition op_throw :: "pval list \<Rightarrow> opres" where
  "op_throw a = Inl (OpThrow (a ! 0))"

text \<open>\<open>ab\<close> is the base of the arguments on the value stack, \<open>mark\<close> the profile generation.\<close>

definition op_try :: "nat \<Rightarrow> u64 \<Rightarrow> pval list \<Rightarrow> opres" where
  "op_try ab mark a = run_frames [F_APPLY (a ! 1), F_NF, F_TRY (ab - 1) mark] (a ! 0)"

text \<open>\<open>probe\<close> is the machine-global nat cache, \<open>epoch\<close> the thread's effect epoch.\<close>

fun pl_pin_hash :: "pval \<Rightarrow> bytes option" where
  "pl_pin_hash (VPin h body) = h"
| "pl_pin_hash _ = None"

definition op_memo :: "(bytes \<Rightarrow> bytes \<Rightarrow> u64 option) \<Rightarrow> u64 \<Rightarrow> pval list \<Rightarrow> opres" where
  "op_memo probe epoch a = (case (pl_pin_hash (a ! 0), pl_pin_hash (a ! 1)) of
     (Some fh, Some xh) \<Rightarrow> (case probe fh xh of
        Some cached \<Rightarrow> ret_op (word_val cached)
      | None \<Rightarrow> run_frames [F_APPLY (a ! 1), F_MEMO (a ! 0) (a ! 1) epoch] (a ! 0))
   | _ \<Rightarrow> run_frames [F_APPLY (a ! 1)] (a ! 0))"

definition op_load :: "pval list \<Rightarrow> opres" where
  "op_load a = Inl (OpFault (Raise ''load ./snap/root.plan''))"

subsection \<open>The numbers arguments denote\<close>

definition argn :: "pval list \<Rightarrow> nat \<Rightarrow> nat" where
  "argn a i = nval (COERCE a i)"

lemma raise_op_simps [simp]: "raise_op (Inr x) = Inr x" "raise_op (Inl f) = Inl (OpFault f)"
  by (simp_all add: raise_op_def)

lemma nat_op_simps [simp]: "nat_op (Inr n) = ret_op (VNat n)" "nat_op (Inl f) = Inl (OpFault f)"
  by (simp_all add: nat_op_def ret_op_def)

lemma val_op_simps [simp]: "val_op (Inr v) = ret_op v" "val_op (Inl f) = Inl (OpFault f)"
  by (simp_all add: val_op_def ret_op_def)

lemma ret_op_inject [simp]: "ret_op v = ret_op w \<longleftrightarrow> v = w"
  by (simp add: ret_op_def)

lemma coerce_ok: "val_ok v \<Longrightarrow> nat_ok (pl_nat_coerce v)"
  by (cases v) (simp_all add: PL_NAT63_MAX_def)

lemma COERCE_rep: "val_ok (a ! i) \<Longrightarrow> COERCE a i = nat_rep (argn a i)"
  unfolding COERCE_def argn_def by (intro nat_ok_rep coerce_ok)

lemma argn_nlimbs: "val_ok (a ! i) \<Longrightarrow> nlimbs (argn a i) < 2 ^ 20"
  using coerce_ok[of "a ! i"] COERCE_rep[of a i] unfolding nat_ok_nat_rep[symmetric] by (simp add: COERCE_def)

lemma clamp_arg:
  assumes "val_ok (a ! i)" "n < 2 ^ 64 - 1"
  shows "unat (pl_nat_u64_clamp (COERCE a i)) < n \<longleftrightarrow> argn a i < n"
    "argn a i \<le> n \<Longrightarrow> unat (pl_nat_u64_clamp (COERCE a i)) = argn a i"
  using assms(2) unfolding COERCE_rep[OF assms(1)] clamp_rep by linarith+

lemma direct_ok [simp]: "w \<le> PL_NAT63_MAX \<Longrightarrow> nval (Direct w) = unat w"
  by (simp add: nval_def)

subsection \<open>Properties of the arithmetic operations\<close>

text \<open>
  C30. The arithmetic and comparison operations compute on the numbers of their arguments, where
  anything but a nat counts as 0: the result is the canonical nat of the sum, truncated difference,
  product, quotient or remainder, or the truth value of the comparison. Division by zero raises.
\<close>

theorem op_arithmetic:
  assumes "mpn M" "val_ok (a ! 0)" "val_ok (a ! 1)" "nlimbs (argn a 0) + nlimbs (argn a 1) + 1 < 2 ^ 20"
  shows "op_inc M a = ret_op (VNat (nat_rep (argn a 0 + 1))) \<and>
    op_dec M a = ret_op (VNat (nat_rep (argn a 0 - 1))) \<and>
    op_add M a = ret_op (VNat (nat_rep (argn a 0 + argn a 1))) \<and>
    op_sub M a = ret_op (VNat (nat_rep (argn a 0 - argn a 1))) \<and>
    op_mul M a = ret_op (VNat (nat_rep (argn a 0 * argn a 1))) \<and>
    op_div M a = (if argn a 1 = 0 then Inl (OpFault (Raise ''division by zero''))
      else ret_op (VNat (nat_rep (argn a 0 div argn a 1)))) \<and>
    op_mod M a = (if argn a 1 = 0 then Inl (OpFault (Raise ''division by zero''))
      else ret_op (VNat (nat_rep (argn a 0 mod argn a 1)))) \<and>
    op_eq M a = ret_op (bool_val (argn a 0 = argn a 1)) \<and> op_ne M a = ret_op (bool_val (argn a 0 \<noteq> argn a 1)) \<and>
    op_lt M a = ret_op (bool_val (argn a 0 < argn a 1)) \<and> op_le M a = ret_op (bool_val (argn a 0 \<le> argn a 1)) \<and>
    op_gt M a = ret_op (bool_val (argn a 1 < argn a 0)) \<and> op_ge M a = ret_op (bool_val (argn a 1 \<le> argn a 0)) \<and>
    op_cmp M a = ret_op (VNat (Direct (if argn a 0 < argn a 1 then 0 else if argn a 0 = argn a 1 then 1 else 2)))"
proof -
  let ?m = "argn a 0" and ?n = "argn a 1"
  note rep = COERCE_rep[OF assms(2)] COERCE_rep[OF assms(3)]
  note cmp = mpn.cmp_order[OF assms(1), of ?m ?n]
  have arith: "op_inc M a = ret_op (VNat (nat_rep (?m + 1)))" "op_dec M a = ret_op (VNat (nat_rep (?m - 1)))"
    "op_add M a = ret_op (VNat (nat_rep (?m + ?n)))" "op_sub M a = ret_op (VNat (nat_rep (?m - ?n)))"
    "op_mul M a = ret_op (VNat (nat_rep (?m * ?n)))"
    using assms(4) mpn.inc_spec[OF assms(1), of ?m] mpn.dec_spec[OF assms(1), of ?m] mpn.add_spec[OF assms(1), of ?m ?n]
      mpn.sub_spec[OF assms(1), of ?m ?n] mpn.mul_spec[OF assms(1), of ?m ?n]
    by (simp_all add: op_inc_def op_dec_def op_add_def op_sub_def op_mul_def rep del: One_nat_def)
  have "op_div M a = (if ?n = 0 then Inl (OpFault (Raise ''division by zero'')) else ret_op (VNat (nat_rep (?m div ?n))))"
    "op_mod M a = (if ?n = 0 then Inl (OpFault (Raise ''division by zero'')) else ret_op (VNat (nat_rep (?m mod ?n))))"
    using mpn.divmod_spec[OF assms(1) argn_nlimbs[OF assms(2)], of ?n]
    by (auto simp: op_div_def op_mod_def rep pl_nat_div_def pl_nat_mod_def pl_nat_divmod_def simp del: One_nat_def)
  moreover have "0 < pl_nat_cmp M (nat_rep ?m) (nat_rep ?n) \<longleftrightarrow> ?n < ?m"
    "pl_nat_cmp M (nat_rep ?m) (nat_rep ?n) \<le> 0 \<longleftrightarrow> ?m \<le> ?n" using cmp by linarith+
  ultimately show ?thesis using arith cmp
    by (simp add: op_eq_def op_ne_def op_lt_def op_le_def op_gt_def op_ge_def op_cmp_def nat_cmp_args_def rep Let_def del: One_nat_def)
qed

theorem op_arithmetic_witness:
  "op_add mpn_ref [VNat (Direct 0x7fffffffffffffff), VNat (Direct 1)] = ret_op (VNat (Boxed [0x8000000000000000])) \<and>
   op_sub mpn_ref [VNat (Direct 0x7fffffffffffffff), VNat (Direct 1)] = ret_op (VNat (Direct 0x7ffffffffffffffe)) \<and>
   op_lt mpn_ref [VNat (Direct 0x7fffffffffffffff), VNat (Direct 1)] = ret_op (VNat (Direct 0))"
proof -
  let ?a = "[VNat (Direct 0x7fffffffffffffff), VNat (Direct 1)]"
  have n: "argn ?a 0 = 9223372036854775807" "argn ?a 1 = 1" by (simp_all add: argn_def COERCE_def)
  have v: "val_ok (?a ! 0)" "val_ok (?a ! 1)" by (simp_all add: PL_NAT63_MAX_def)
  have l: "nlimbs (argn ?a 0) + nlimbs (argn ?a 1) + 1 < 2 ^ 20" unfolding n by (simp add: nlimbs.simps)
  have "nat_rep 9223372036854775808 = Boxed [0x8000000000000000]" "nat_rep 9223372036854775806 = Direct 0x7ffffffffffffffe"
    by (simp_all add: nat_rep_def nat_limbs_def nlimbs.simps)
  then show ?thesis using op_arithmetic[OF ref.mpn_axioms v l] unfolding n by (simp add: bool_val_def)
qed

subsection \<open>Properties of the row operations\<close>

text \<open>A row with head 0, as \<open>op_slice\<close> and \<open>op_weld\<close> return it: the nat 0 when it has no elements.\<close>

definition mk_row :: "pval list \<Rightarrow> pval" where
  "mk_row xs = (if xs = [] then zero_val else VApp 0 zero_val xs)"

fun row_put :: "pval \<Rightarrow> nat \<Rightarrow> pval \<Rightarrow> pval" where
  "row_put (VApp need head args) i w = VApp need head (args[i := w])"
| "row_put v i w = v"

definition num :: "pval \<Rightarrow> nat" where
  "num v = nval (pl_nat_coerce v)"

lemma argn_nth: "argn a i = num (a ! i)"
  by (simp add: argn_def COERCE_def num_def)

lemma need_after_zero [simp]: "pl_need_after zero_val n = Inr 0"
  by (simp add: pl_need_after_def)

lemma mk_app_from_zero: "xs \<noteq> [] \<Longrightarrow> pl_mk_app_from zero_val xs = Inr (mk_row xs)"
  by (simp add: pl_mk_app_from_def mk_row_def Suc_le_eq)

lemma slice_row:
  assumes "val_ok (a ! 0)" "val_ok (a ! 1)" "val_ok (a ! 2)" "length (row_args (a ! 2)) < 2 ^ 32"
  shows "op_slice a = ret_op (mk_row (take (argn a 1) (drop (argn a 0) (row_args (a ! 2)))))"
proof (cases "a ! 2")
  case (VApp need head args)
  let ?o = "unat (pl_nat_u64_clamp (COERCE a 0))" and ?n = "unat (pl_nat_u64_clamp (COERCE a 1))"
  have o: "?o \<le> length args \<longleftrightarrow> argn a 0 \<le> length args" "argn a 0 \<le> length args \<Longrightarrow> ?o = argn a 0"
    using clamp_arg[OF assms(1), of "Suc (length args)"] clamp_arg(2)[OF assms(1), of "length args"] assms(4) VApp
    by (simp_all add: less_Suc_eq_le)
  have n: "min (length args - ?o) ?n = min (length args - ?o) (argn a 1)"
    using clamp_arg[OF assms(2), of "length args"] assms(4) VApp by (cases "argn a 1 \<le> length args") auto
  have t: "take (min (length args - k) m) (drop k args) = take m (drop k args)" for k m
    by (simp add: min_def)
  show ?thesis
  proof (cases "argn a 0 \<le> length args")
    case True
    have rsz: "(if length args - ?o < ?n then length args - ?o else ?n) = min (length args - argn a 0) (argn a 1)"
      using n o(2)[OF True] by (simp add: min_def split: if_splits)
    have "need = 0" if "head = zero_val" using assms(3) VApp that by simp
    then show ?thesis
      using True VApp o mk_app_from_zero[of "take (argn a 1) (drop (argn a 0) args)"]
      unfolding op_slice_def VApp pval.case Let_def rsz
      by (auto simp: t mk_row_def min_def Suc_le_eq not_less split: if_splits)
  next
    case False
    then show ?thesis using VApp o(1) by (simp add: op_slice_def Let_def mk_row_def)
  qed
qed (simp_all add: op_slice_def mk_row_def)

lemma weld_row: "op_weld a = ret_op (mk_row (row_args (a ! 0) @ row_args (a ! 1)))"
  by (auto simp: op_weld_def mk_row_def Let_def)

lemma up_row:
  assumes "val_ok (a ! 0)" "val_ok (a ! 2)" "length (row_args (a ! 2)) < 2 ^ 32"
  shows "op_up a = ret_op (row_put (a ! 2) (argn a 0) (a ! 1))"
proof (cases "a ! 2")
  case (VApp need head args)
  have "length args < 2 ^ 64 - 1" using assms(3) VApp by simp
  note c = clamp_arg[OF assms(1) this]
  show ?thesis
  proof (cases "argn a 0 < length args")
    case True
    have "pl_mk_app_from head args = Inr (VApp need head args)"
      using assms(2) VApp by (simp add: pl_mk_app_from_def Suc_le_eq)
    then show ?thesis using True c VApp by (simp add: op_up_def Let_def)
  next
    case False
    then show ?thesis using c(1) VApp by (simp add: op_up_def Let_def not_less list_update_beyond)
  qed
qed (simp_all add: op_up_def Let_def)

lemma ix_row:
  assumes "val_ok (a ! 0)" "length (row_args (a ! 1)) < 2 ^ 32"
  shows "op_ix a = ret_op (if argn a 0 < length (row_args (a ! 1)) then row_args (a ! 1) ! argn a 0 else zero_val)"
proof (cases "a ! 1")
  case (VApp need head args)
  have "length args < 2 ^ 64 - 1" using assms(2) VApp by simp
  note c = clamp_arg[OF assms(1) this]
  then show ?thesis using VApp by (simp add: op_ix_def Let_def)
qed (simp_all add: op_ix_def Let_def)

text \<open>
  C31. Rows are lists: \<open>Slice\<close> takes a segment and \<open>Weld\<close> concatenates (under head 0), \<open>Up\<close> replaces one
  element and keeps the head, \<open>Ix\<close> reads one element; an index outside the row, of any size, reads 0
  and updates nothing, and anything but a row counts as the empty row.
\<close>

theorem op_rows:
  assumes "val_ok i" "val_ok n" "val_ok v" "length (row_args v) < 2 ^ 32"
  shows "op_slice [i, n, v] = ret_op (mk_row (take (num n) (drop (num i) (row_args v)))) \<and>
    op_weld [v, w] = ret_op (mk_row (row_args v @ row_args w)) \<and>
    op_up [i, w, v] = ret_op (row_put v (num i) w) \<and>
    op_ix [i, v] = ret_op (if num i < length (row_args v) then row_args v ! num i else zero_val)"
  using slice_row[of "[i, n, v]"] weld_row[of "[v, w]"] up_row[of "[i, w, v]"] ix_row[of "[i, v]"] assms
  by (simp add: argn_nth)

theorem op_rows_witness:
  "op_up [VNat (Direct 1), VOther 7, VApp 0 zero_val [VNat (Direct 4), VNat (Direct 5)]]
     = ret_op (VApp 0 zero_val [VNat (Direct 4), VOther 7]) \<and>
   op_slice [VNat (Direct 1), VNat (Boxed [0, 1]), VApp 0 zero_val [VNat (Direct 4), VNat (Direct 5)]]
     = ret_op (VApp 0 zero_val [VNat (Direct 5)])"
proof -
  let ?v = "VApp 0 zero_val [VNat (Direct 4), VNat (Direct 5)]"
  have v: "val_ok (VNat (Direct 1))" "val_ok (VNat (Boxed [0, 1]))" "val_ok ?v"
    by (simp_all add: PL_NAT63_MAX_def)
  show ?thesis using op_rows[OF v, of "VOther 7"] by (simp add: num_def mk_row_def)
qed

text \<open>
  C32. Elimination inverts construction: on a nat, the successor branch gets the predecessor; on a
  PIN, its body; on a LAW, the three fields it was made from; and on an APP, what remains without the
  last argument and the last argument, which appended again give the same APP. An APP whose shorter
  form would have a need beyond the header's field is excluded.
\<close>

theorem op_elim_inverts:
  assumes "mpn M" "val_ok (a ! 5)"
  shows "(\<forall>n. a ! 5 = VNat (nat_rep n) \<longrightarrow>
      op_elim M a = (if n = 0 then ret_op (a ! 3) else run_frames [F_APPLY (VNat (nat_rep (n - 1)))] (a ! 4))) \<and>
    (\<forall>b. op_pin [b] = ret_op (a ! 5) \<longrightarrow> op_elim M a = run_frames [F_APPLY b] (a ! 0)) \<and>
    (\<forall>ar name body. a ! 5 = VLaw ar name body \<and> 1 \<le> ar \<and> ar \<le> PL_NAT63_MAX \<longrightarrow>
      op_elim M a = run_frames [F_APPLY (VNat (Direct ar)), F_APPLY name, F_APPLY body] (a ! 1) \<and>
      op_law [VNat (Direct (ar - 1)), name, body] = ret_op (a ! 5)) \<and>
    (\<forall>need head args. a ! 5 = VApp need head args \<and> (length args = 1 \<or> (\<exists>k. pl_need_after head (length args - 1) = Inr k)) \<longrightarrow>
      (\<exists>ini. op_elim M a = run_frames [F_APPLY ini, F_APPLY (last args)] (a ! 2) \<and>
        pl_mk_app_snoc ini (last args) = Inr (a ! 5)))"
proof (intro conjI allI impI)
  fix n assume e: "a ! 5 = VNat (nat_rep n)"
  then have l: "nlimbs n < 2 ^ 20" using assms(2) nat_ok_nat_rep by simp
  have "nat_rep n = Direct 0 \<longleftrightarrow> n = 0" using nat_rep_inject[of n 0] by simp
  then show "op_elim M a = (if n = 0 then ret_op (a ! 3) else run_frames [F_APPLY (VNat (nat_rep (n - 1)))] (a ! 4))"
    using mpn.dec_spec[OF assms(1) l] e by (simp add: op_elim_def run_frames_def)
next
  fix ar name body assume e: "a ! 5 = VLaw ar name body \<and> 1 \<le> ar \<and> ar \<le> PL_NAT63_MAX"
  then show "op_elim M a = run_frames [F_APPLY (VNat (Direct ar)), F_APPLY name, F_APPLY body] (a ! 1)"
    by (simp add: op_elim_def run_frames_def)
  have "ar \<noteq> 0" using e by auto
  then have "unat (ar - 1) < unat ar" by (simp add: unat_minus_one unat_gt_0)
  then have "ar - 1 < PL_NAT63_MAX" using e by (metis word_less_nat_alt order_less_le_trans)
  then show "op_law [VNat (Direct (ar - 1)), name, body] = ret_op (a ! 5)"
    using e by (simp add: op_law_def COERCE_def pl_mk_law_def)
next
  fix need head args
  assume e: "a ! 5 = VApp need head args \<and> (length args = 1 \<or> (\<exists>k. pl_need_after head (length args - 1) = Inr k))"
  then have ok: "\<not> is_app head" "args \<noteq> []" "pl_need_after head (length args) = Inr need" using assms(2) by auto
  show "\<exists>ini. op_elim M a = run_frames [F_APPLY ini, F_APPLY (last args)] (a ! 2) \<and>
        pl_mk_app_snoc ini (last args) = Inr (a ! 5)"
  proof (cases "length args = 1")
    case True
    then obtain x where x: "args = [x]" by (cases args) auto
    have "op_elim M a = run_frames [F_APPLY head, F_APPLY x] (a ! 2)"
      using e x by (simp add: op_elim_def run_frames_def)
    moreover have "pl_mk_app_snoc head x = Inr (a ! 5)"
      using e ok(1,3) x by (cases head) (simp_all add: pl_mk_app_snoc_def)
    ultimately show ?thesis using x by auto
  next
    case False
    then obtain k where k: "pl_need_after head (length args - 1) = Inr k" using e by auto
    have "1 < length args" using False ok(2) by (cases args) auto
    then have l: "1 \<le> length args - 1" "length args - 1 < length args" by simp_all
    have "need = k - 1" using need_after_mono[OF k, of 1] ok(2,3) by simp
    then have "pl_mk_app_snoc (VApp k head (take (length args - 1) args)) (last args) = Inr (VApp need head args)"
      using ok(2) append_butlast_last_id[of args] by (simp add: pl_mk_app_snoc_def butlast_conv_take)
    moreover have "op_elim M a = run_frames [F_APPLY (VApp k head (take (length args - 1) args)), F_APPLY (last args)] (a ! 2)"
      using e k l False ok(2) by (simp add: op_elim_def run_frames_def pl_mk_app_take_def last_conv_nth Let_def)
    ultimately show ?thesis using e by auto
  qed
next
  fix b assume "op_pin [b] = ret_op (a ! 5)"
  then have "a ! 5 = VPin None b" by (simp add: op_pin_def pl_pin_def)
  then show "op_elim M a = run_frames [F_APPLY b] (a ! 0)" by (simp add: op_elim_def)
qed

theorem op_elim_inverts_witness:
  "\<exists>ini. op_elim mpn_ref [VOther 1, VOther 2, VOther 3, VOther 4, VOther 5, VApp 0 zero_val [VNat (Direct 8), VNat (Direct 9)]]
     = run_frames [F_APPLY ini, F_APPLY (VNat (Direct 9))] (VOther 3) \<and>
   pl_mk_app_snoc ini (VNat (Direct 9)) = Inr (VApp 0 zero_val [VNat (Direct 8), VNat (Direct 9)])"
proof -
  let ?a = "[VOther 1, VOther 2, VOther 3, VOther 4, VOther 5, VApp 0 zero_val [VNat (Direct 8), VNat (Direct 9)]]"
  have "val_ok (?a ! 5)" by (simp add: PL_NAT63_MAX_def)
  from op_elim_inverts[OF ref.mpn_axioms this] show ?thesis by simp
qed

text \<open>The application without its last argument.\<close>

lemma mk_app_take_last:
  assumes "val_ok (VApp need head args)" "pl_arity head = Inr ar" "length args \<noteq> 1"
  shows "pl_mk_app_take (VApp need head args) (length args - 1) =
    (if need + 1 = 2 ^ 20 then Inl (Abort ''app need exceeds meta width'')
     else Inr (VApp (ar - (length args - 1)) head (butlast args)))"
proof -
  have n: "1 < length args" using assms(1,3) by (cases args) auto
  have need: "need = (if ar = 0 \<or> ar \<le> length args then 0 else ar - length args)" "need < 2 ^ 20"
    using assms(1,2) by (auto simp: need_after_Inr)
  have "pl_need_after head (length args - 1) =
      (if need + 1 = 2 ^ 20 then Inl (Abort ''app need exceeds meta width'') else Inr (ar - (length args - 1)))"
    unfolding pl_need_after_def assms(2) rbind_simps using need n by (auto simp: Let_def rbind_assume)
  moreover have "1 \<le> length args - 1 \<and> length args - 1 < length args" using n by auto
  ultimately show ?thesis by (simp add: pl_mk_app_take_def butlast_conv_take)
qed

text \<open>
  C34. Taking a well-formed APP apart: \<open>Init\<close> gives the head when there is one argument, and otherwise the APP without the last
  argument, whose need is what is left of the arity; but when the need of the APP is \<open>2 ^ 20 - 1\<close>, the
  largest the header holds, \<open>Init\<close> and \<open>Elim\<close> fail the assertion on the width of the need field.
\<close>

theorem op_init_need_overflow:
  assumes "val_ok (VApp need head args)" "pl_arity head = Inr ar"
  shows "op_init [VApp need head args] =
      (if length args = 1 then ret_op head
       else if need + 1 = 2 ^ 20 then Inl (OpFault (Abort ''app need exceeds meta width''))
       else ret_op (VApp (ar - (length args - 1)) head (butlast args))) \<and>
    (\<forall>a. a ! 5 = VApp need head args \<and> length args \<noteq> 1 \<and> need + 1 = 2 ^ 20 \<longrightarrow>
      op_elim M a = Inl (OpFault (Abort ''app need exceeds meta width'')))"
proof (intro conjI allI impI)
  note last = mk_app_take_last[OF assms]
  show "op_init [VApp need head args] =
      (if length args = 1 then ret_op head
       else if need + 1 = 2 ^ 20 then Inl (OpFault (Abort ''app need exceeds meta width''))
       else ret_op (VApp (ar - (length args - 1)) head (butlast args)))"
    using last by (simp add: op_init_def val_op_def ret_op_def)
  fix a
  assume a: "a ! 5 = VApp need head args \<and> length args \<noteq> 1 \<and> need + 1 = 2 ^ 20"
  then have "pl_mk_app_take (a ! 5) (length args - 1) = Inl (Abort ''app need exceeds meta width'')" using last by simp
  then show "op_elim M a = Inl (OpFault (Abort ''app need exceeds meta width''))"
    using a by (simp add: op_elim_def Let_def)
qed

theorem op_init_need_overflow_witness:
  "op_coup [VLaw 1048577 zero_val zero_val, VApp 0 zero_val [zero_val, zero_val]]
     = ret_op (VApp 1048575 (VLaw 1048577 zero_val zero_val) [zero_val, zero_val]) \<and>
   op_init [VApp 1048575 (VLaw 1048577 zero_val zero_val) [zero_val, zero_val]]
     = Inl (OpFault (Abort ''app need exceeds meta width''))"
proof -
  let ?law = "VLaw 1048577 zero_val zero_val"
  have "pl_need_after ?law 2 = Inr 1048575"
    unfolding pl_need_after_def pl_arity.simps rbind_simps by (simp add: Let_def rbind_assume)
  then have two: "pl_need_after ?law (Suc (Suc 0)) = Inr 1048575" by (simp only: numeral_2_eq_2)
  then have "op_coup [?law, VApp 0 zero_val [zero_val, zero_val]] = ret_op (VApp 1048575 ?law [zero_val, zero_val])"
    by (simp add: op_coup_def pl_mk_app_from_def ret_op_def)
  moreover have "val_ok (VApp 1048575 ?law [zero_val, zero_val])" using two by (simp add: PL_NAT63_MAX_def)
  from op_init_need_overflow[OF this, of 1048577] have "op_init [VApp 1048575 ?law [zero_val, zero_val]] =
      Inl (OpFault (Abort ''app need exceeds meta width''))" by simp
  ultimately show ?thesis by blast
qed

subsection \<open>Properties of the scanner\<close>

text \<open>The bytes of a nat, and the column after a run of bytes that starts in column \<open>c\<close>.\<close>

definition nat_bytes :: "pnat \<Rightarrow> bytes" where
  "nat_bytes v = map (pl_nat_byte_at v) [0..<pl_nat_byte_len v]"

definition column :: "nat \<Rightarrow> bytes \<Rightarrow> nat" where
  "column c bs = foldl (\<lambda>c b. if b = 10 then 0 else c + 1) c bs"

lemma column_simps [simp]: "column c [] = c" "column c (b # bs) = column (if b = 10 then 0 else c + 1) bs"
  by (simp_all add: column_def)

lemma column_le: "column c bs \<le> c + length bs"
proof (induction bs arbitrary: c)
  case (Cons b bs)
  show ?case using Cons[of 0] Cons[of "c + 1"] by simp
qed simp

lemma length_nat_bytes [simp]: "length (nat_bytes v) = pl_nat_byte_len v"
  by (simp add: nat_bytes_def)

lemma byte_len_limbs: "pl_nat_byte_len (nat_rep n) \<le> 8 * nlimbs n"
  unfolding byte_len_le_iff using nat_less_bytes[of n "nlimbs n"] by simp

lemma src_byte:
  assumes "e < pl_nat_byte_len (nat_rep n)"
  shows "ucast (drop_bit (e mod 8 * 8) (src_limbs (nat_rep n) ! (e div 8))) = nat_bytes (nat_rep n) ! e"
proof -
  have e: "e div 8 < nlimbs n" using assms byte_len_limbs[of n] by linarith
  have "src_limbs (nat_rep n) ! (e div 8) = pl_nat_limb_at (nat_rep n) (e div 8)"
  proof (cases "n < 2 ^ 63")
    case True
    then have "nlimbs n \<le> 1" unfolding nlimbs_le_iff by simp
    then have "e div 8 = 0" using e by simp
    then show ?thesis using True by (simp add: nat_rep_def src_limbs_def)
  next
    case False
    then show ?thesis using e by (simp add: nat_rep_def src_limbs_def)
  qed
  then show ?thesis using assms by (simp add: nat_bytes_def pl_nat_byte_at_def)
qed

lemma class_bit:
  "bit (map (pl_nat_limb_at (nat_rep k)) [0..<4] ! (unat b div 64)) (unat b mod 64) = bit k (unat (b :: u8))"
proof -
  have q: "unat b div 64 < 4" using unat_u8_less[of b] by linarith
  have "bit (pl_nat_limb_at (nat_rep k) (unat b div 64)) (unat b mod 64) = bit k (unat b)"
    using bit_limb_at[of "unat b mod 64" k "unat b div 64"] by simp
  then show ?thesis using q by (simp add: nth_map del: upt_Suc)
qed

lemma scan_loop_run:
  defines "bs n \<equiv> nat_bytes (nat_rep n)"
  shows "scan_loop (map (pl_nat_limb_at (nat_rep k)) [0..<4]) (src_limbs (nat_rep n)) pol (pl_nat_byte_len (nat_rep n)) e nl c =
    (let seg = takeWhile (\<lambda>b. bit k (unat b) = pol) (drop e (bs n)) in
     (e + length seg, nl + length (filter (\<lambda>b. b = 10) seg), column c seg))"
proof (induction "pl_nat_byte_len (nat_rep n) - e" arbitrary: e nl c)
  case 0
  then show ?case by (subst scan_loop.simps) (simp add: bs_def Let_def)
next
  case (Suc m)
  then have e: "e < pl_nat_byte_len (nat_rep n)" by simp
  let ?b = "bs n ! e"
  have d: "drop e (bs n) = ?b # drop (Suc e) (bs n)" using e by (simp add: Cons_nth_drop_Suc bs_def)
  have IH: "scan_loop (map (pl_nat_limb_at (nat_rep k)) [0..<4]) (src_limbs (nat_rep n)) pol
      (pl_nat_byte_len (nat_rep n)) (Suc e) nl' c' =
    (let seg = takeWhile (\<lambda>b. bit k (unat b) = pol) (drop (Suc e) (bs n)) in
     (Suc e + length seg, nl' + length (filter (\<lambda>b. b = 10) seg), column c' seg))" for nl' c'
    using Suc by simp
  show ?case
    by (subst scan_loop.simps, unfold src_byte[OF e] class_bit bs_def[symmetric] Let_def d Suc_eq_plus1[symmetric])
      (use e IH in \<open>auto simp: Let_def bs_def\<close>)
qed

text \<open>
  C33. \<open>scan8 src start mask polarity\<close> returns where the run of bytes in the class (or, with polarity 0,
  outside it) that begins at \<open>start\<close> ends, how many newlines the run has, and the column after it. A
  start at or past the end of the source is returned unchanged, with zero counts.
\<close>

theorem op_scan8_run:
  assumes "val_ok src" "val_ok start" "val_ok cls" "val_ok pol"
  shows "op_scan8 [src, start, cls, pol] =
    (let run = takeWhile (\<lambda>b. bit (num cls) (unat b) = (num pol \<noteq> 0)) (drop (num start) (nat_bytes (nat_rep (num src)))) in
     ret_op (VApp 0 zero_val
       [VNat (nat_rep (num start + length run)), VNat (nat_rep (length (filter (\<lambda>b. b = 10) run))),
        VNat (nat_rep (column 0 run))]))"
proof -
  let ?a = "[src, start, cls, pol]" and ?bs = "nat_bytes (nat_rep (num src))"
  have ok: "val_ok (?a ! 0)" "val_ok (?a ! 1)" "val_ok (?a ! 2)" "val_ok (?a ! 3)" using assms by simp_all
  note rep = ok[THEN COERCE_rep, unfolded argn_nth]
  have len: "pl_nat_byte_len (nat_rep (num src)) < 2 ^ 23"
    using argn_nlimbs[OF ok(1)] byte_len_limbs[of "num src"] unfolding argn_nth by simp
  define run where "run = takeWhile (\<lambda>b. bit (num cls) (unat b) = (num pol \<noteq> 0)) (drop (num start) ?bs)"
  have rl: "length run \<le> pl_nat_byte_len (nat_rep (num src)) - num start"
    unfolding run_def by (rule order_trans[OF length_takeWhile_le]) simp
  have p: "nat_rep (num pol) \<noteq> Direct 0 \<longleftrightarrow> num pol \<noteq> 0" using nat_rep_inject[of "num pol" 0] by simp
  have mk: "pl_mk_nat_u64 (word_of_nat k) = nat_rep k" if "k < 2 ^ 62" for k
    using that by (simp add: pl_mk_nat_u64_def le_nat63 nat_rep_def unsigned_of_nat take_bit_eq_mod)
  show ?thesis
  proof (cases "num start < pl_nat_byte_len (nat_rep (num src))")
    case True
    have c: "unat (pl_nat_u64_clamp (nat_rep (num start))) = num start" using True len by (simp add: clamp_rep)
    have "num start + length run < 2 ^ 62" "length (filter (\<lambda>b. b = 10) run) < 2 ^ 62" "column 0 run < 2 ^ 62"
      using rl True len column_le[of 0 run] length_filter_le[of "\<lambda>b. b = 10" run]
      by (simp_all del: length_filter_le)
    note m = this[THEN mk]
    show ?thesis using True c m p scan_loop_run[of "num cls" "num src" "num pol \<noteq> 0" "num start" 0 0]
      unfolding op_scan8_def rep Let_def run_def[symmetric]
      by (simp add: rep pl_mk_app_from_def Let_def run_def[symmetric])
  next
    case False
    then have "run = []" using rl by simp
    moreover have "pl_nat_byte_len (nat_rep (num src)) \<le> unat (pl_nat_u64_clamp (nat_rep (num start)))"
      using False len by (simp add: clamp_rep)
    ultimately show ?thesis using mk[of 0] unfolding op_scan8_def rep Let_def run_def[symmetric]
      by (simp add: rep pl_mk_app_from_def pl_mk_nat_u64_def)
  qed
qed

theorem op_scan8_run_witness:
  "op_scan8 [VNat (Direct 0xa61), zero_val, VNat (Boxed [0x400, 0x200000000]), VNat (Direct 1)]
     = ret_op (VApp 0 zero_val [VNat (Direct 2), VNat (Direct 1), VNat (Direct 0)])"
proof -
  let ?s = "VNat (Direct 0xa61)" and ?c = "VNat (Boxed [0x400, 0x200000000])" and ?p = "VNat (Direct 1)"
  have ok: "val_ok ?s" "val_ok zero_val" "val_ok ?c" "val_ok ?p" by (simp_all add: PL_NAT63_MAX_def)
  have n: "num ?s = 0xa61" "num zero_val = 0" "num ?p = 1" "num ?c = 2 ^ 97 + 2 ^ 10" by (simp_all add: num_def lval_def)
  have "pl_nat_byte_len (nat_rep 0xa61) \<le> 2" "\<not> pl_nat_byte_len (nat_rep 0xa61) \<le> 1"
    unfolding byte_len_le_iff by simp_all
  then have l: "pl_nat_byte_len (nat_rep 0xa61) = 2" by simp
  have "[0..<2] = [0, 1 :: nat]" by (simp add: upt_rec)
  then have b: "nat_bytes (nat_rep 0xa61) = [0x61, 0xa]"
    unfolding nat_bytes_def l by (simp add: word_unat_eq_iff byte_at_rep)
  have "bit (2 ^ 97 + 2 ^ 10 :: nat) 97" "bit (2 ^ 97 + 2 ^ 10 :: nat) 10" by (simp_all add: bit_iff_odd)
  then show ?thesis using op_scan8_run[OF ok] unfolding n b by (simp add: nat_rep_def)
qed

end
