(* ===== verification/Plan_Op_Table.thy ===== *)
theory Plan_Op_Table
  imports Plan_Op
begin

text \<open>
  The table of primitive operations of \<open>pkg/plan/src/op.c\<close> and its lookup. A descriptor names its body
  by the C function's name. \<open>pl_op_lookup\<close> searches only the bucket of the operation set and the
  argument count; the buckets are arrays of table indices written by hand, and the lemmas below check
  them against the table.
\<close>

subsection \<open>The code\<close>

record pl_opdesc =
  op_set_of :: u64
  op_mote :: u64
  op_name_c :: "string option"
  op_argc :: nat
  op_strict :: nat
  op_deep :: nat
  op_host :: bool
  op_coord :: bool
  op_fn :: string

definition OP0 :: "u64 \<Rightarrow> nat \<Rightarrow> nat \<Rightarrow> nat \<Rightarrow> string \<Rightarrow> pl_opdesc" where
  "OP0 name argc strict deep body = \<lparr>op_set_of = 0, op_mote = name, op_name_c = None, op_argc = argc,
     op_strict = strict, op_deep = deep, op_host = False, op_coord = False, op_fn = body\<rparr>"

definition OP66 :: "u64 \<Rightarrow> nat \<Rightarrow> nat \<Rightarrow> nat \<Rightarrow> string \<Rightarrow> pl_opdesc" where
  "OP66 name argc strict deep body = \<lparr>op_set_of = 66, op_mote = name, op_name_c = None, op_argc = argc,
     op_strict = strict, op_deep = deep, op_host = False, op_coord = False, op_fn = body\<rparr>"

definition OP82 :: "string \<Rightarrow> nat \<Rightarrow> nat \<Rightarrow> string \<Rightarrow> pl_opdesc" where
  "OP82 name argc strict body = \<lparr>op_set_of = 82, op_mote = 0, op_name_c = Some name, op_argc = argc,
     op_strict = strict, op_deep = 0, op_host = True, op_coord = False, op_fn = body\<rparr>"

definition OP82C :: "string \<Rightarrow> nat \<Rightarrow> nat \<Rightarrow> nat \<Rightarrow> string \<Rightarrow> pl_opdesc" where
  "OP82C name argc strict deep body = \<lparr>op_set_of = 82, op_mote = 0, op_name_c = Some name, op_argc = argc,
     op_strict = strict, op_deep = deep, op_host = True, op_coord = True, op_fn = body\<rparr>"

definition OP83_LOCAL_DEEP :: "string \<Rightarrow> nat \<Rightarrow> nat \<Rightarrow> nat \<Rightarrow> string \<Rightarrow> pl_opdesc" where
  "OP83_LOCAL_DEEP name argc strict deep body = \<lparr>op_set_of = 83, op_mote = 0, op_name_c = Some name, op_argc = argc,
     op_strict = strict, op_deep = deep, op_host = False, op_coord = False, op_fn = body\<rparr>"

definition OP83_LOCAL :: "string \<Rightarrow> nat \<Rightarrow> nat \<Rightarrow> string \<Rightarrow> pl_opdesc" where
  "OP83_LOCAL name argc strict body = OP83_LOCAL_DEEP name argc strict 0 body"

definition OP83C :: "string \<Rightarrow> nat \<Rightarrow> nat \<Rightarrow> nat \<Rightarrow> string \<Rightarrow> pl_opdesc" where
  "OP83C name argc strict deep body = \<lparr>op_set_of = 83, op_mote = 0, op_name_c = Some name, op_argc = argc,
     op_strict = strict, op_deep = deep, op_host = True, op_coord = True, op_fn = body\<rparr>"

text \<open>The rows of the table in order; the strictness masks are written in decimal.\<close>

definition pl_ops_core :: "pl_opdesc list" where
  "pl_ops_core =
    [OP0 0 1 1 0 ''op_pin'',
     OP0 1 3 7 0 ''op_law'',
     OP0 2 6 32 0 ''op_elim'']"

definition pl_ops_66 :: "pl_opdesc list" where
  "pl_ops_66 =
    [OP66 (ax_s ''Pin'') 1 1 0 ''op_pin'',
     OP66 (ax_s ''Law'') 3 7 0 ''op_law'',
     OP66 (ax_s ''Elim'') 6 32 0 ''op_elim'',
     OP66 (ax_s ''Inc'') 1 1 0 ''op_inc'',
     OP66 (ax_s ''Dec'') 1 1 0 ''op_dec'',
     OP66 (ax_s ''Add'') 2 3 0 ''op_add'',
     OP66 (ax_s ''Sub'') 2 3 0 ''op_sub'',
     OP66 (ax_s ''Mul'') 2 3 0 ''op_mul'',
     OP66 (ax_s ''Div'') 2 3 0 ''op_div'',
     OP66 (ax_s ''Mod'') 2 3 0 ''op_mod'',
     OP66 (ax_s ''Rsh'') 2 3 0 ''op_rsh'',
     OP66 (ax_s ''Lsh'') 2 3 0 ''op_lsh'',
     OP66 (ax_s ''Case2'') 3 1 0 ''op_case2'',
     OP66 (ax_s ''Case3'') 4 1 0 ''op_case3'',
     OP66 (ax_s ''Case4'') 5 1 0 ''op_case4'',
     OP66 (ax_s ''Case5'') 6 1 0 ''op_case5'',
     OP66 (ax_s ''Case6'') 7 1 0 ''op_case6'',
     OP66 (ax_s ''Case7'') 8 1 0 ''op_case7'',
     OP66 (ax_s ''Case8'') 9 1 0 ''op_case8'',
     OP66 (ax_s ''Case9'') 10 1 0 ''op_case9'',
     OP66 (ax_s ''Case10'') 11 1 0 ''op_case10'',
     OP66 (ax_s ''Case11'') 12 1 0 ''op_case11'',
     OP66 (ax_s ''Case12'') 13 1 0 ''op_case12'',
     OP66 (ax_s ''Case13'') 14 1 0 ''op_case13'',
     OP66 (ax_s ''Case14'') 15 1 0 ''op_case14'',
     OP66 (ax_s ''Case15'') 16 1 0 ''op_case15'',
     OP66 (ax_s ''Case16'') 17 1 0 ''op_case16'',
     OP66 (ax_s ''Case'') 3 3 0 ''op_case'',
     OP66 (ax_s ''Test'') 2 3 0 ''op_test'',
     OP66 (ax_s ''Nib'') 2 3 0 ''op_nib'',
     OP66 (ax_s ''Load8'') 2 3 0 ''op_load8'',
     OP66 (ax_s ''LoadVar'') 3 7 0 ''op_loadvar'',
     OP66 (ax_s ''Store8'') 3 7 0 ''op_store8'',
     OP66 (ax_s ''Set'') 2 3 0 ''op_set'',
     OP66 (ax_s ''Clear'') 2 3 0 ''op_clear'',
     OP66 (ax_s ''Bex'') 1 1 0 ''op_bex'',
     OP66 (ax_s ''Trunc8'') 1 1 0 ''op_trunc8'',
     OP66 (ax_s ''Trunc16'') 1 1 0 ''op_trunc16'',
     OP66 (ax_s ''Trunc32'') 1 1 0 ''op_trunc32'',
     OP66 (ax_s ''Trunc64'') 1 1 0 ''op_trunc64'',
     OP66 (ax_s ''Trunc'') 2 3 0 ''op_trunc'',
     OP66 (ax_s ''Bits'') 1 1 0 ''op_bits'',
     OP66 (ax_s ''Bytes'') 1 1 0 ''op_bytes'',
     OP66 (ax_s ''Unpin'') 1 1 0 ''op_unpin'',
     OP66 (ax_s ''Seq'') 2 1 0 ''op_seq'',
     OP66 (ax_s ''Seq2'') 3 3 0 ''op_seq2'',
     OP66 (ax_s ''Seq3'') 4 7 0 ''op_seq3'',
     OP66 (ax_s ''Sap'') 2 2 0 ''op_sap'',
     OP66 (ax_s ''Sap2'') 3 6 0 ''op_sap2'',
     OP66 (ax_s ''Type'') 1 1 0 ''op_type'',
     OP66 (ax_s ''IsPin'') 1 1 0 ''op_is_pin'',
     OP66 (ax_s ''IsLaw'') 1 1 0 ''op_is_law'',
     OP66 (ax_s ''IsApp'') 1 1 0 ''op_is_app'',
     OP66 (ax_s ''IsNat'') 1 1 0 ''op_is_nat'',
     OP66 (ax_s ''Nat'') 1 1 0 ''op_nat'',
     OP66 (ax_s ''Arity'') 1 1 0 ''op_arity'',
     OP66 (ax_s ''Name'') 1 1 0 ''op_name'',
     OP66 (ax_s ''Body'') 1 1 0 ''op_body'',
     OP66 (ax_s ''Row'') 3 3 0 ''op_row'',
     OP66 (ax_s ''Rep'') 3 5 0 ''op_rep'',
     OP66 (ax_s ''Slice'') 3 7 0 ''op_slice'',
     OP66 (ax_s ''Weld'') 2 3 0 ''op_weld'',
     OP66 (ax_s ''Force'') 1 0 0 ''op_force'',
     OP66 (ax_s ''DeepSeq'') 2 0 0 ''op_deepseq'',
     OP66 (ax_s ''Up'') 3 5 0 ''op_up'',
     OP66 (ax_s ''UpUniq'') 3 5 0 ''op_up'',
     OP66 (ax_s ''Coup'') 2 3 0 ''op_coup'',
     OP66 (ax_s ''Try'') 2 0 0 ''op_try'',
     OP66 (ax_s ''Throw'') 1 1 1 ''op_throw'',
     OP66 (ax_s ''Hd'') 1 1 0 ''op_hd'',
     OP66 (ax_s ''Ix'') 2 3 0 ''op_ix'',
     OP66 (ax_s ''Ix0'') 1 1 0 ''op_ix0'',
     OP66 (ax_s ''Ix1'') 1 1 0 ''op_ix1'',
     OP66 (ax_s ''Ix2'') 1 1 0 ''op_ix2'',
     OP66 (ax_s ''Ix3'') 1 1 0 ''op_ix3'',
     OP66 (ax_s ''Ix4'') 1 1 0 ''op_ix4'',
     OP66 (ax_s ''Ix5'') 1 1 0 ''op_ix5'',
     OP66 (ax_s ''Ix6'') 1 1 0 ''op_ix6'',
     OP66 (ax_s ''Ix7'') 1 1 0 ''op_ix7'',
     OP66 (ax_s ''Save'') 1 1 1 ''op_save'',
     OP66 (ax_s ''Load'') 1 1 0 ''op_load'',
     OP66 (ax_s ''Trace'') 2 0 1 ''op_trace'',
     OP66 (ax_s ''Nil'') 1 1 0 ''op_nil'',
     OP66 (ax_s ''Truth'') 1 1 0 ''op_truth'',
     OP66 (ax_s ''Or'') 2 1 0 ''op_or'',
     OP66 (ax_s ''Nor'') 2 1 0 ''op_nor'',
     OP66 (ax_s ''And'') 2 1 0 ''op_and'',
     OP66 (ax_s ''If'') 3 1 0 ''op_if'',
     OP66 (ax_s ''Ifz'') 3 1 0 ''op_ifz'',
     OP66 (ax_s ''Eq'') 2 3 0 ''op_eq'',
     OP66 (ax_s ''Ne'') 2 3 0 ''op_ne'',
     OP66 (ax_s ''Lt'') 2 3 0 ''op_lt'',
     OP66 (ax_s ''Le'') 2 3 0 ''op_le'',
     OP66 (ax_s ''Gt'') 2 3 0 ''op_gt'',
     OP66 (ax_s ''Ge'') 2 3 0 ''op_ge'',
     OP66 (ax_s ''Cmp'') 2 3 0 ''op_cmp'',
     OP66 (ax_s ''Sz'') 1 1 0 ''op_sz'',
     OP66 (ax_s ''Last'') 1 1 0 ''op_last'',
     OP66 (ax_s ''Init'') 1 1 0 ''op_init'',
     OP66 (ax_s ''Equal'') 2 3 3 ''op_equal'',
     OP66 (ax_s ''Install'') 1 1 1 ''op_install'',
     OP66 (ax_s ''Compile'') 1 1 1 ''op_compile'']"

definition pl_ops_82 :: "pl_opdesc list" where
  "pl_ops_82 =
    [OP82 ''Input'' 1 1 ''pl_op82_input'',
     OP82 ''Output'' 1 1 ''pl_op82_output'',
     OP82 ''Warn'' 1 1 ''pl_op82_warn'',
     OP82 ''ReadFile'' 1 1 ''pl_op82_read_file'',
     OP82 ''WriteFile'' 2 3 ''pl_op82_write_file'',
     OP82 ''Print'' 1 1 ''pl_op82_print'',
     OP82 ''Stamp'' 1 1 ''pl_op82_stamp'',
     OP82 ''Now'' 1 0 ''pl_op82_now'',
     OP82 ''CloseFd'' 1 1 ''pl_op82_closefd'',
     OP82 ''Listen'' 1 1 ''pl_op82_listen'',
     OP82 ''Accept'' 1 1 ''pl_op82_accept'',
     OP82 ''Read'' 2 3 ''pl_op82_read'',
     OP82 ''Write'' 2 3 ''pl_op82_write'',
     OP82C ''Spawn'' 1 0 1 ''pl_op82_spawn'',
     OP82C ''Send'' 2 1 2 ''pl_op82_send'',
     OP82C ''SendCaps'' 3 1 6 ''pl_op82_send_caps'',
     OP82C ''Recv'' 1 1 0 ''pl_op82_recv'',
     OP82C ''CloseHandle'' 1 1 0 ''pl_op82_close_handle'',
     OP82 ''Connect'' 3 7 ''pl_op82_connect'']"

definition pl_ops_83 :: "pl_opdesc list" where
  "pl_ops_83 =
    [OP83C ''ReadFolder'' 1 1 0 ''pl_op83_read_folder'',
     OP83C ''Fetch'' 2 3 3 ''pl_op83_fetch'',
     OP83C ''Sleep'' 1 1 0 ''pl_op83_sleep'',
     OP83_LOCAL ''ZoneStart'' 1 1 ''pl_op83_zone_start'',
     OP83_LOCAL ''ZoneEnd'' 1 1 ''pl_op83_zone_end'']"

definition pl_ops_added :: "pl_opdesc list" where
  "pl_ops_added =
    [OP66 (ax_s ''scan8'') 4 15 0 ''op_scan8'',
     OP66 (ax_s ''StrTree'') 1 1 1 ''op_strtree'',
     OP83_LOCAL_DEEP ''scan8'' 4 15 0 ''op_scan8'',
     OP83_LOCAL_DEEP ''StrTree'' 1 1 1 ''op_strtree'',
     OP66 (ax_s ''Memo'') 2 3 0 ''op_memo'',
     OP83_LOCAL ''Blake3'' 1 1 ''pl_op83_blake3'',
     OP83_LOCAL ''Sha256'' 1 1 ''pl_op83_sha256'',
     OP83_LOCAL ''Ed25519PublicKey'' 1 1 ''pl_op83_ed25519_public_key'',
     OP83_LOCAL ''Ed25519Sign'' 2 3 ''pl_op83_ed25519_sign'',
     OP83_LOCAL ''Ed25519Verify'' 3 7 ''pl_op83_ed25519_verify'',
     OP83_LOCAL ''Blake3Keyed'' 2 3 ''pl_op83_blake3_keyed'',
     OP83_LOCAL ''HmacSha256'' 2 3 ''pl_op83_hmac_sha256'',
     OP66 (ax_s ''Ice'') 1 1 1 ''op_ice'',
     OP83C ''ReadBat'' 1 1 0 ''pl_op83_read_bat'',
     OP83_LOCAL_DEEP ''BatEq'' 2 3 3 ''op_bateq'',
     OP83_LOCAL_DEEP ''BatHash'' 1 1 1 ''op_bathash'']"

definition pl_ops :: "pl_opdesc list" where
  "pl_ops = pl_ops_core @ pl_ops_66 @ pl_ops_82 @ pl_ops_83 @ pl_ops_added"

definition pl_nops :: nat where
  "pl_nops = length pl_ops"

text \<open>The buckets: the arrays of table indices by operation set and argument count.\<close>

definition pl_op_lookup_bucket :: "u64 \<Rightarrow> nat \<Rightarrow> nat list" where
  "pl_op_lookup_bucket opset argc =
     (if opset = 0 then
       (if argc = 1 then [0]
       else if argc = 3 then [1]
       else if argc = 6 then [2]
       else [])
     else if opset = 66 then
       (if argc = 1 then [3, 6, 7, 38, 39, 40, 41, 42, 44, 45, 46, 52, 53, 54, 55, 56, 57, 58, 59, 60, 65, 71, 72,
          74, 75, 76, 77, 78, 79, 80, 81, 82, 83, 85, 86, 99, 100, 101, 103, 104, 130, 141]
       else if argc = 2 then [8, 9, 10, 11, 12, 13, 14, 31, 32, 33, 36, 37, 43, 47, 50, 64, 66, 69, 70, 73, 84, 87, 88,
          89, 92, 93, 94, 95, 96, 97, 98, 102, 133]
       else if argc = 3 then [4, 15, 30, 34, 35, 48, 51, 61, 62, 63, 67, 68, 90, 91]
       else if argc = 4 then [16, 49, 129]
       else if argc = 5 then [17]
       else if argc = 6 then [5, 18]
       else if argc = 7 then [19]
       else if argc = 8 then [20]
       else if argc = 9 then [21]
       else if argc = 10 then [22]
       else if argc = 11 then [23]
       else if argc = 12 then [24]
       else if argc = 13 then [25]
       else if argc = 14 then [26]
       else if argc = 15 then [27]
       else if argc = 16 then [28]
       else if argc = 17 then [29]
       else [])
     else if opset = 82 then
       (if argc = 1 then [105, 106, 107, 108, 110, 111, 112, 113, 114, 115, 118, 121, 122]
       else if argc = 2 then [109, 116, 117, 119]
       else if argc = 3 then [120, 123]
       else [])
     else if opset = 83 then
       (if argc = 1 then [124, 126, 127, 128, 132, 134, 135, 136, 142, 144]
       else if argc = 2 then [125, 137, 139, 140, 143]
       else if argc = 3 then [138]
       else if argc = 4 then [131]
       else [])
     else [])"

definition nat_name_eq :: "pval \<Rightarrow> string \<Rightarrow> bool" where
  "nat_name_eq v s = (case v of
     VNat n \<Rightarrow> pl_nat_byte_len n = length s \<and>
       list_all (\<lambda>i. pl_nat_byte_at n i = of_char (s ! i)) [0..<length s]
   | _ \<Rightarrow> False)"

text \<open>The test of one descriptor, and the loop over the bucket: the index, or \<open>- 1\<close>.\<close>

definition op_matches :: "pval \<Rightarrow> pl_opdesc \<Rightarrow> bool" where
  "op_matches name d = (case op_name_c d of
     Some s \<Rightarrow> nat_name_eq name s
   | None \<Rightarrow> as_nat63 name = Some (op_mote d))"

fun lookup_loop :: "pval \<Rightarrow> nat list \<Rightarrow> int" where
  "lookup_loop name [] = - 1"
| "lookup_loop name (i # is) = (if op_matches name (pl_ops ! i) then int i else lookup_loop name is)"

definition pl_op_lookup :: "u64 \<Rightarrow> pval \<Rightarrow> nat \<Rightarrow> int" where
  "pl_op_lookup opset name argc = lookup_loop name (pl_op_lookup_bucket opset argc)"

subsection \<open>The buckets against the table\<close>

definition op_keys :: "(u64 \<times> nat) list" where
  "op_keys = map (\<lambda>d. (op_set_of d, op_argc d)) pl_ops"

lemmas op_macros = OP0_def OP66_def OP82_def OP82C_def OP83C_def OP83_LOCAL_def OP83_LOCAL_DEEP_def

lemma op_keys_list: "op_keys =
    [(0, 1), (0, 3), (0, 6), (66, 1), (66, 3), (66, 6), (66, 1), (66, 1), (66, 2), (66, 2), (66, 2), (66,
     2), (66, 2), (66, 2), (66, 2), (66, 3), (66, 4), (66, 5), (66, 6), (66, 7), (66, 8), (66, 9), (66,
     10), (66, 11), (66, 12), (66, 13), (66, 14), (66, 15), (66, 16), (66, 17), (66, 3), (66, 2), (66,
     2), (66, 2), (66, 3), (66, 3), (66, 2), (66, 2), (66, 1), (66, 1), (66, 1), (66, 1), (66, 1), (66,
     2), (66, 1), (66, 1), (66, 1), (66, 2), (66, 3), (66, 4), (66, 2), (66, 3), (66, 1), (66, 1), (66,
     1), (66, 1), (66, 1), (66, 1), (66, 1), (66, 1), (66, 1), (66, 3), (66, 3), (66, 3), (66, 2), (66,
     1), (66, 2), (66, 3), (66, 3), (66, 2), (66, 2), (66, 1), (66, 1), (66, 2), (66, 1), (66, 1), (66,
     1), (66, 1), (66, 1), (66, 1), (66, 1), (66, 1), (66, 1), (66, 1), (66, 2), (66, 1), (66, 1), (66,
     2), (66, 2), (66, 2), (66, 3), (66, 3), (66, 2), (66, 2), (66, 2), (66, 2), (66, 2), (66, 2), (66,
     2), (66, 1), (66, 1), (66, 1), (66, 2), (66, 1), (66, 1), (82, 1), (82, 1), (82, 1), (82, 1), (82,
     2), (82, 1), (82, 1), (82, 1), (82, 1), (82, 1), (82, 1), (82, 2), (82, 2), (82, 1), (82, 2), (82,
     3), (82, 1), (82, 1), (82, 3), (83, 1), (83, 2), (83, 1), (83, 1), (83, 1), (66, 4), (66, 1), (83,
     4), (83, 1), (66, 2), (83, 1), (83, 1), (83, 1), (83, 2), (83, 3), (83, 2), (83, 2), (66, 1), (83,
     1), (83, 2), (83, 1)]"
  by (simp add: op_keys_def pl_ops_def pl_ops_core_def pl_ops_66_def pl_ops_82_def pl_ops_83_def pl_ops_added_def op_macros)

text \<open>Where a key occurs in a list, and the whole table searched in order.\<close>

fun positions :: "nat \<Rightarrow> 'a \<Rightarrow> 'a list \<Rightarrow> nat list" where
  "positions i k [] = []"
| "positions i k (x # xs) = (if x = k then i # positions (i + 1) k xs else positions (i + 1) k xs)"

fun op_scan :: "u64 \<Rightarrow> pval \<Rightarrow> nat \<Rightarrow> nat \<Rightarrow> pl_opdesc list \<Rightarrow> int" where
  "op_scan opset name argc i [] = - 1"
| "op_scan opset name argc i (d # ds) =
     (if op_set_of d = opset \<and> op_argc d = argc \<and> op_matches name d then int i
      else op_scan opset name argc (i + 1) ds)"

lemma drop_Cons_nth: "drop i xs = y # ys \<Longrightarrow> xs ! i = y \<and> drop (i + 1) xs = ys"
  by (metis Suc_eq_plus1 drop_Suc hd_drop_conv_nth drop_eq_Nil2 leI list.discI list.sel(1) list.sel(3) tl_drop)

lemma op_scan_positions:
  "drop i pl_ops = ds \<Longrightarrow> op_scan opset name argc i ds =
     lookup_loop name (positions i (opset, argc) (map (\<lambda>d. (op_set_of d, op_argc d)) ds))"
  by (induction ds arbitrary: i) (auto dest: drop_Cons_nth)

lemma positions_none: "k \<notin> set xs \<Longrightarrow> positions i k xs = []"
  by (induction xs arbitrary: i) auto

definition bucket_keys :: "(u64 \<times> nat) list" where
  "bucket_keys =
    [(0, 1), (0, 3), (0, 6), (66, 1), (66, 2), (66, 3), (66, 4), (66, 5), (66, 6), (66, 7), (66, 8), (66,
     9), (66, 10), (66, 11), (66, 12), (66, 13), (66, 14), (66, 15), (66, 16), (66, 17), (82, 1), (82,
     2), (82, 3), (83, 1), (83, 2), (83, 3), (83, 4)]"

lemma op_keys_set: "set op_keys = set bucket_keys"
  unfolding op_keys_list bucket_keys_def list.set by (simp add: insert_commute insert_absorb2)

lemma bucket_none: "(opset, argc) \<notin> set op_keys \<Longrightarrow> pl_op_lookup_bucket opset argc = []"
  unfolding op_keys_set bucket_keys_def by (auto simp: pl_op_lookup_bucket_def)

lemma bucket_check:
  "list_all (\<lambda>(opset, argc). pl_op_lookup_bucket opset argc = positions 0 (opset, argc) op_keys) bucket_keys"
  unfolding op_keys_list by code_simp

lemma bucket_positions: "pl_op_lookup_bucket opset argc = positions 0 (opset, argc) op_keys"
  using bucket_check bucket_none[of opset argc] positions_none[of "(opset, argc)" op_keys 0]
  by (cases "(opset, argc) \<in> set op_keys") (auto simp: list_all_iff op_keys_set)

lemma lookup_scan: "pl_op_lookup opset name argc = op_scan opset name argc 0 pl_ops"
  by (simp add: pl_op_lookup_def bucket_positions op_keys_def op_scan_positions)

subsection \<open>Names\<close>

text \<open>The number a descriptor's name is, and one number for operation set, argument count and name.\<close>

definition op_label :: "pl_opdesc \<Rightarrow> int" where
  "op_label d = (case op_name_c d of Some s \<Rightarrow> int (bval (map of_char s)) | None \<Rightarrow> uint (op_mote d))"

definition op_code :: "pl_opdesc \<Rightarrow> int" where
  "op_code d = (op_label d * 32 + int (op_argc d)) * 128 + uint (op_set_of d)"

lemma op_codes: "map op_code pl_ops = [
     128, 4480, 8960, 29638328514, 32045842882, 7518722216770, 26690752706, 26681295042, 26948669762,
     26429698370, 29114028354, 31785763138, 26960253250, 28038209858, 28038185282, 886580941435330,
     904173127479874, 921765313524418, 939357499568962, 956949685613506, 974541871658050,
     992134057702594, 1009726243747138, 217041770869175746, 221545370496546370, 226048970123916994,
     230552569751287618, 235056169378658242, 239559769006028866, 244063368633399490, 6971639214530,
     8002435629378, 26417094978, 992060521103682, 131871420515137929666, 253986253861892546, 31244759362,
     2012202223808834, 32318431426, 253950796220416194, 62480186847598559426, 57877508028425912514,
     60196861836521717954, 1749217087668546, 7933988708546, 2030073327919298, 1942386190405826,
     30439452994, 3466413289922, 3535132766786, 30166823234, 3466140660162, 6970859143362,
     1942377605664962, 2100156450508994, 1978038987559106, 2047380429246658, 31240544450,
     2136654276202690, 6970028646594, 8342016893122, 32060547522, 30171013570, 1783642317992386,
     6901044965698, 1783644737003714, 130736461458179375426, 117789122, 510761519504773570,
     7728105009474, 32600572226, 2101128712241346, 105152706, 126128450, 13011030210, 13279465666,
     13547901122, 13816336578, 14084772034, 14353207490, 14621642946, 14890078402, 6972444586178,
     6898102616258, 1783640176804162, 29101449410, 1837590334750914, 119861570, 30718353730, 26959155522,
     107254210, 32856379842, 118772034, 106225986, 121946434, 106217794, 121925954, 106197314,
     30179340610, 128266434, 8002431402178, 7999760666818, 1906653407760706, 125003625701786816706,
     116933315630539747522, 2048763940344018, 524483570385088722, 7589846151378, 29934928061924164051154,
     7663341583871484960797010, 2048281029181650, 1977841420153042, 32060530898, 115609187178040799442,
     497180772241031378, 524394848958288082, 6898092155218, 1784810555404626, 1943344238637266,
     6901581820242, 34071574338883443569106, 8135579607250, 502224388052389301297766215890,
     134186535297081422290, 2212741679020579303904846035, 1836421821522259, 1977292729692371,
     8798471410667133131399379, 115788767250844328147, 992747703448130, 116901946840024690882,
     992747703448147, 116901946840024690899, 7657227604290, 231467770922148051, 244130227859828947,
     660940957817332350873674333984323509965011, 546693885175197718911624958291,
     39396567501446901070814571372237267, 497138812236799190070179668307, 1048531344622999322662043987,
     27216089282, 134176911680620273875, 1992689907409235, 120423461857348821203]"
  by (simp add: op_code_def op_label_def pl_ops_def pl_ops_core_def pl_ops_66_def pl_ops_82_def pl_ops_83_def
    pl_ops_added_def op_macros)

lemma op_codes_distinct: "distinct (map op_code pl_ops)"
  unfolding op_codes by code_simp

text \<open>A name that fits its kind: a nonempty string without a final zero byte, or a mote below \<open>2 ^ 63\<close>.\<close>

definition name_fits :: "pl_opdesc \<Rightarrow> bool" where
  "name_fits d = (case op_name_c d of
     Some s \<Rightarrow> s \<noteq> [] \<and> (of_char (last s) :: u8) \<noteq> 0 | None \<Rightarrow> op_mote d \<le> PL_NAT63_MAX)"

lemma ops_fit: "list_all (\<lambda>d. name_fits d \<and> op_strict d < 2 ^ op_argc d \<and> op_deep d < 2 ^ op_argc d) pl_ops"
  by (simp add: name_fits_def PL_NAT63_MAX_def pl_ops_def pl_ops_core_def pl_ops_66_def pl_ops_82_def pl_ops_83_def
    pl_ops_added_def op_macros)

lemma bval_last_ge:
  assumes "bs \<noteq> []" "last bs \<noteq> 0"
  shows "256 ^ (length bs - 1) \<le> bval bs"
proof -
  have "bval bs = bval (butlast bs) + 256 ^ (length bs - 1) * unat (last bs)"
    using assms(1) bval_append[of "butlast bs" "[last bs]"] by simp
  moreover have "1 \<le> unat (last bs)" using assms(2) by (simp add: Suc_le_eq unat_gt_0)
  then have "256 ^ (length bs - 1) * 1 \<le> 256 ^ (length bs - 1) * unat (last bs)" by (rule mult_le_mono2)
  ultimately show ?thesis by linarith
qed

lemma byte_len_bval:
  assumes "bs \<noteq> []" "last bs \<noteq> 0"
  shows "pl_nat_byte_len (nat_rep (bval bs)) = length bs"
proof (rule antisym)
  show "pl_nat_byte_len (nat_rep (bval bs)) \<le> length bs" unfolding byte_len_le_iff by (rule bval_less)
  have "\<not> pl_nat_byte_len (nat_rep (bval bs)) \<le> length bs - 1"
    unfolding byte_len_le_iff using bval_last_ge[OF assms] by simp
  then show "length bs \<le> pl_nat_byte_len (nat_rep (bval bs))" by simp
qed

lemma name_eq_label:
  assumes "s \<noteq> []" "(of_char (last s) :: u8) \<noteq> 0"
  shows "nat_name_eq (VNat (nat_rep n)) s \<longleftrightarrow> n = bval (map of_char s)"
proof
  assume e: "nat_name_eq (VNat (nat_rep n)) s"
  then have "n < 256 ^ length s" using byte_len_le_iff[of n "length s"] by (simp add: nat_name_eq_def)
  moreover have "map (pl_nat_byte_at (nat_rep n)) [0..<length s] = map of_char s"
    using e by (intro nth_equalityI) (simp_all add: nat_name_eq_def list_all_iff)
  moreover have "bval (map (pl_nat_byte_at (nat_rep n)) [0..<k]) = n mod 256 ^ k" for k
  proof (induction k)
    case (Suc k)
    have "n mod 256 ^ k + 256 ^ k * (n div 256 ^ k mod 256) = n mod 256 ^ Suc k"
      unfolding power_Suc2 mod_mult2_eq by simp
    then show ?case using Suc by (simp add: bval_append byte_at_rep)
  qed simp
  ultimately show "n = bval (map of_char s)" by (metis mod_less)
next
  assume n: "n = bval (map of_char s)"
  have "pl_nat_byte_at (nat_rep n) i = of_char (s ! i)" if "i < length s" for i
    using bval_nth[of i "map of_char s"] that by (simp add: word_unat_eq_iff byte_at_rep n)
  then show "nat_name_eq (VNat (nat_rep n)) s"
    using assms byte_len_bval[of "map of_char s"] by (simp add: nat_name_eq_def list_all_iff n last_map)
qed

lemma mote_label:
  assumes "w \<le> PL_NAT63_MAX"
  shows "as_nat63 (VNat (nat_rep n)) = Some w \<longleftrightarrow> uint w = int n"
proof -
  have a: "as_nat63 (VNat x) = Some w \<longleftrightarrow> x = Direct w" for x by (cases x) auto
  have d: "Direct w = nat_rep (unat w)" using assms by (intro Direct_rep) (simp only: le_nat63)
  show ?thesis unfolding a d nat_rep_inject uint_nat of_nat_eq_iff by (rule eq_commute)
qed

lemma op_matches_label:
  "name_fits d \<Longrightarrow> op_matches (VNat (nat_rep n)) d \<longleftrightarrow> op_label d = int n"
  using name_eq_label[of _ n] mote_label[of _ n]
  by (auto simp: op_matches_def op_label_def name_fits_def split: option.splits)

lemma ex_nth_Cons:
  "(\<exists>j<length (d # ds). k = i + j \<and> Q ((d # ds) ! j)) \<longleftrightarrow> k = i \<and> Q d \<or> (\<exists>j<length ds. k = i + 1 + j \<and> Q (ds ! j))"
  unfolding length_Cons Ex_less_Suc2 by auto

lemma op_scan_unique:
  assumes "distinct (map op_code ds)" "list_all name_fits ds"
  shows "op_scan opset (VNat (nat_rep n)) argc i ds = int k \<longleftrightarrow>
    (\<exists>j<length ds. k = i + j \<and> op_set_of (ds ! j) = opset \<and> op_argc (ds ! j) = argc \<and> op_label (ds ! j) = int n)"
  using assms
proof (induction ds arbitrary: i)
  case (Cons d ds)
  define hit where "hit e = (op_set_of e = opset \<and> op_argc e = argc \<and> op_label e = int n)" for e
  have step: "op_scan opset (VNat (nat_rep n)) argc i (d # ds) =
      (if hit d then int i else op_scan opset (VNat (nat_rep n)) argc (i + 1) ds)"
    using Cons.prems(2) op_matches_label[of d n] by (auto simp: hit_def)
  have only: "\<not> hit (ds ! j)" if "hit d" "j < length ds" for j
  proof
    assume "hit (ds ! j)"
    with that have "op_code (ds ! j) = op_code d" by (simp add: op_code_def hit_def)
    moreover have "op_code (ds ! j) \<in> op_code ` set ds" using that by simp
    ultimately show False using Cons.prems(1) by simp
  qed
  show ?case unfolding step ex_nth_Cons[of d ds k i hit, unfolded hit_def] using Cons only
    by (auto simp: hit_def)
qed simp

lemma lookup_iff:
  assumes "nat_ok n"
  shows "pl_op_lookup opset (VNat n) argc = int i \<longleftrightarrow> i < pl_nops \<and> op_set_of (pl_ops ! i) = opset \<and>
    op_argc (pl_ops ! i) = argc \<and> op_label (pl_ops ! i) = int (nval n)"
proof -
  have "list_all name_fits pl_ops" using ops_fit by (simp add: list_all_iff)
  from op_scan_unique[OF op_codes_distinct this, of opset "nval n" argc 0 i] show ?thesis
    unfolding lookup_scan by (subst nat_ok_rep[OF assms]) (auto simp: pl_nops_def)
qed

subsection \<open>Properties\<close>

text \<open>
  C29. The bucketed lookup finds what a search of the whole table in order finds: every bucket holds
  exactly the indices of the descriptors of its operation set and argument count.
\<close>

theorem pl_op_lookup_linear:
  "pl_op_lookup opset name argc = op_scan opset name argc 0 pl_ops"
  by (rule lookup_scan)

text \<open>
  Looking a nat up as an operation name gives index \<open>i\<close> exactly when descriptor \<open>i\<close> has the given
  operation set and argument count and its name is that number: no descriptor shadows another.
\<close>

theorem pl_op_lookup_name:
  assumes "nat_ok n"
  shows "pl_op_lookup opset (VNat n) argc = int i \<longleftrightarrow> i < pl_nops \<and> op_set_of (pl_ops ! i) = opset \<and>
    op_argc (pl_ops ! i) = argc \<and> op_label (pl_ops ! i) = int (nval n)"
  using assms by (rule lookup_iff)

theorem pl_op_lookup_name_witness:
  "pl_op_lookup 66 (VNat (Direct (ax_s ''Add''))) 2 = 8"
proof -
  have "nat_ok (Direct (ax_s ''Add''))" by (simp add: PL_NAT63_MAX_def)
  moreover have "(8 :: nat) < pl_nops" "op_set_of (pl_ops ! 8) = 66" "op_argc (pl_ops ! 8) = 2"
    "op_label (pl_ops ! 8) = int (nval (Direct (ax_s ''Add'')))"
    by (simp_all add: pl_nops_def pl_ops_def pl_ops_core_def pl_ops_66_def op_macros op_label_def)
  ultimately show ?thesis using pl_op_lookup_name[of "Direct (ax_s ''Add'')" 66 2 8] by simp
qed

end
