(* ===== verification/Plan_Bat.thy ===== *)
theory Plan_Bat
  imports Plan_Op
begin

text \<open>
  \<open>pkg/plan/src/bat.c\<close>, byte trees: rows tagged \<open>cat\<close>, \<open>bat\<close>, \<open>range\<close>, \<open>repeat\<close>, \<open>text\<close> and \<open>slice\<close>
  that denote a sequence of bytes, a cursor that validates a tree into spans without flattening it and
  reads from it, and the constructors of balanced trees from bytes; and the primitive operations of
  \<open>op.c\<close> over them.

  \<open>uint64_t\<close> and \<open>size_t\<close> quantities are naturals: each sum the code forms is guarded by a comparison
  with \<open>UINT64_MAX\<close> or bounded by a sum that is. Whether \<open>realloc\<close> returns memory for a number of bytes
  is the parameter \<open>can\<close>. The cursor's array beyond \<open>count\<close> is never read, so the spans are a list.
\<close>

subsection \<open>The cursor\<close>

definition bat_size :: "pval \<Rightarrow> nat option" where
  "bat_size v = (case v of
     VNat n \<Rightarrow> if 1 < pl_nat_limb_len n then None else Some (unat (pl_nat_limb_at n 0))
   | _ \<Rightarrow> None)"

text \<open>The doubling loop of \<open>bat_grow\<close>; it starts at 16 or at a capacity that is not 0.\<close>

function grow_loop :: "nat \<Rightarrow> nat \<Rightarrow> nat option" where
  "grow_loop next need =
     (if next < need \<and> 0 < next then if SIZE_MAX div 2 < next then None else grow_loop (next * 2) need
      else Some next)"
  by pat_completeness auto

termination
  by (relation "measure (\<lambda>(next, need). need - next)") auto

declare grow_loop.simps [simp del]

definition bat_grow :: "(nat \<Rightarrow> bool) \<Rightarrow> nat \<Rightarrow> nat \<Rightarrow> nat \<Rightarrow> nat option" where
  "bat_grow can cap need width =
     (if need \<le> cap then Some cap
      else case grow_loop (if cap \<noteq> 0 then cap else 16) need of
        None \<Rightarrow> None
      | Some next \<Rightarrow> if SIZE_MAX div width < next then None
          else if can (next * width) then Some next else None)"

record pl_bat_span =
  sp_source :: pnat
  sp_offset :: nat
  sp_length :: nat
  sp_byte :: u8

record pl_bat_cursor =
  c_spans :: "pl_bat_span list"
  c_capacity :: nat
  c_index :: nat
  c_length :: nat
  c_position :: nat
  c_within :: nat

definition bat_cursor0 :: pl_bat_cursor where
  "bat_cursor0 = \<lparr>c_spans = [], c_capacity = 0, c_index = 0, c_length = 0, c_position = 0, c_within = 0\<rparr>"

definition bat_span :: "(nat \<Rightarrow> bool) \<Rightarrow> pl_bat_cursor \<Rightarrow> pnat \<Rightarrow> nat \<Rightarrow> nat \<Rightarrow> u8 \<Rightarrow> pl_bat_cursor option" where
  "bat_span can c source off len byte =
     (if len = 0 then Some c
      else if SIZE_MAX - c_length c < len \<or> length (c_spans c) = SIZE_MAX then None
      else case bat_grow can (c_capacity c) (length (c_spans c) + 1) 32 of
        None \<Rightarrow> None
      | Some cap \<Rightarrow> Some (c\<lparr>c_capacity := cap,
          c_spans := c_spans c @ [\<lparr>sp_source = source, sp_offset = off, sp_length = len, sp_byte = byte\<rparr>],
          c_length := c_length c + len\<rparr>))"

subsection \<open>Opening\<close>

text \<open>A task of the stack: a node to visit (\<open>t_finish = 0\<close>), a length to check (1) or a range to crop (2).\<close>

record bat_task =
  t_node :: pval
  t_start :: nat
  t_offset :: nat
  t_length :: nat
  t_first :: nat
  t_finish :: nat

definition node_task :: "pval \<Rightarrow> bat_task" where
  "node_task v = \<lparr>t_node = v, t_start = 0, t_offset = 0, t_length = 0, t_first = 0, t_finish = 0\<rparr>"

definition bat_push :: "(nat \<Rightarrow> bool) \<Rightarrow> bat_task \<Rightarrow> bat_task list \<times> nat \<Rightarrow> (bat_task list \<times> nat) option" where
  "bat_push can task st = (case st of (stack, cap) \<Rightarrow>
     (case bat_grow can cap (length stack + 1) 48 of
        None \<Rightarrow> None
      | Some cap' \<Rightarrow> Some (task # stack, cap')))"

text \<open>The loop that crops the spans of a range to the bytes from \<open>skip\<close> on, \<open>remain\<close> of them.\<close>

fun bat_crop :: "pl_bat_span list \<Rightarrow> nat \<Rightarrow> nat \<Rightarrow> pl_bat_span list" where
  "bat_crop [] skip remain = []"
| "bat_crop (s # ss) skip remain =
     (if remain = 0 then []
      else if sp_length s \<le> skip then bat_crop ss (skip - sp_length s) remain
      else let len = sp_length s - skip; len' = (if remain < len then remain else len) in
        s\<lparr>sp_offset := sp_offset s + skip, sp_length := len'\<rparr> # bat_crop ss 0 (remain - len'))"

definition bat_finish :: "pl_bat_cursor \<Rightarrow> bat_task \<Rightarrow> pl_bat_cursor option" where
  "bat_finish c task =
     (let n = c_length c - t_start task in
      if t_finish task = 1 then if n \<noteq> t_length task then None else Some c
      else if n < t_offset task \<or> n - t_offset task < t_length task then None
      else let kept = bat_crop (drop (t_first task) (c_spans c)) (t_offset task) (t_length task) in
        Some (c\<lparr>c_spans := take (t_first task) (c_spans c) @ kept,
               c_length := t_start task + sum_list (map sp_length kept)\<rparr>))"

definition is_mote :: "pval \<Rightarrow> string \<Rightarrow> bool" where
  "is_mote v s = (v = VNat (Direct (ax_s s)))"

definition bat_leaf :: "(nat \<Rightarrow> bool) \<Rightarrow> pl_bat_cursor \<Rightarrow> pval list \<Rightarrow> pl_bat_cursor option" where
  "bat_leaf can c f =
     (let src = (case f ! 1 of VPin h body \<Rightarrow> body | v \<Rightarrow> v) in
      case src of
        VNat s \<Rightarrow>
          let available = pl_nat_byte_len s in
          (case (if length f = 4 then (case (bat_size (f ! 2), bat_size (f ! 3)) of
                   (Some off, Some len) \<Rightarrow> Some (off, len) | _ \<Rightarrow> None)
                 else Some (0, available)) of
             None \<Rightarrow> None
           | Some (off, len) \<Rightarrow>
               let available = (if off < available then available - off else 0);
                   available = (if len < available then len else available) in
               (case bat_span can c s off available 0 of
                  None \<Rightarrow> None
                | Some c' \<Rightarrow> bat_span can c' (Direct 0) 0 (len - available) 0))
      | _ \<Rightarrow> None)"

definition bat_node :: "(nat \<Rightarrow> bool) \<Rightarrow> pl_bat_cursor \<Rightarrow> pval \<Rightarrow> bat_task list \<times> nat \<Rightarrow>
    (pl_bat_cursor \<times> bat_task list \<times> nat) option" where
  "bat_node can c v st = (case v of
     VApp need head f \<Rightarrow>
       let n = length f in
       if head \<noteq> zero_val \<or> n = 0 then None
       else if n = 3 \<and> is_mote (f ! 0) ''cat'' then
         (case bat_push can (node_task (f ! 2)) st of
            None \<Rightarrow> None
          | Some st1 \<Rightarrow> map_option (Pair c) (bat_push can (node_task (f ! 1)) st1))
       else if n = 3 \<and> is_mote (f ! 0) ''bat'' \<or> n = 4 \<and> is_mote (f ! 0) ''range'' then
         (case (bat_size (f ! (if n = 4 then 3 else 1)), if n = 4 then bat_size (f ! 2) else Some 0) of
            (Some len, Some off) \<Rightarrow>
              (case bat_push can \<lparr>t_node = zero_val, t_start = c_length c, t_offset = off, t_length = len,
                      t_first = length (c_spans c), t_finish = (if n = 4 then 2 else 1)\<rparr> st of
                 None \<Rightarrow> None
               | Some st1 \<Rightarrow> map_option (Pair c) (bat_push can (node_task (f ! (if n = 4 then 1 else 2))) st1))
          | _ \<Rightarrow> None)
       else if n = 3 \<and> is_mote (f ! 0) ''repeat'' then
         (case (f ! 1, bat_size (f ! 2)) of
            (VNat b, Some len) \<Rightarrow> map_option (\<lambda>c'. (c', st)) (bat_span can c (Direct 0) 0 len (pl_nat_byte_at b 0))
          | _ \<Rightarrow> None)
       else if n = 2 \<and> is_mote (f ! 0) ''text'' \<or> n = 4 \<and> is_mote (f ! 0) ''slice'' then
         map_option (\<lambda>c'. (c', st)) (bat_leaf can c f)
       else None
   | _ \<Rightarrow> None)"

definition bat_step :: "(nat \<Rightarrow> bool) \<Rightarrow> pl_bat_cursor \<Rightarrow> bat_task \<Rightarrow> bat_task list \<times> nat \<Rightarrow>
    (pl_bat_cursor \<times> bat_task list \<times> nat) option" where
  "bat_step can c task st =
     (if t_finish task \<noteq> 0 then map_option (\<lambda>c'. (c', st)) (bat_finish c task)
      else bat_node can c (t_node task) st)"

text \<open>Every step takes a task off the stack and pushes smaller ones, so the loop ends.\<close>

definition task_weight :: "bat_task \<Rightarrow> nat" where
  "task_weight t = (if t_finish t = 0 then 2 * size (t_node t) else 1)"

lemma length3: "length f = 3 \<longleftrightarrow> (\<exists>x y z. f = [x, y, z])"
  by (auto simp: numeral_eq_Suc length_Suc_conv)

lemma length4: "length f = 4 \<longleftrightarrow> (\<exists>w x y z. f = [w, x, y, z])"
  by (auto simp: numeral_eq_Suc length_Suc_conv)

lemma length2: "length f = 2 \<longleftrightarrow> (\<exists>x y. f = [x, y])"
  by (auto simp: numeral_eq_Suc length_Suc_conv)

lemma bat_push_Some:
  "bat_push can task st = Some st' \<longleftrightarrow>
    (\<exists>stack cap cap'. st = (stack, cap) \<and> bat_grow can cap (length stack + 1) 48 = Some cap' \<and> st' = (task # stack, cap'))"
  by (cases st) (auto simp: bat_push_def split: option.splits)

lemma bat_node_weight:
  assumes "bat_node can c v (stack, cap) = Some (c', stack', cap')"
  shows "sum_list (map task_weight stack') < 2 * size v + sum_list (map task_weight stack)"
proof (cases v)
  case (VApp need head f)
  then show ?thesis using assms
    by (auto simp: bat_node_def Let_def length3 length4 length2 bat_push_Some node_task_def task_weight_def
      split: if_splits option.splits pval.splits)
qed (use assms in \<open>simp_all add: bat_node_def\<close>)

lemma bat_step_weight:
  "bat_step can c task (stack, cap) = Some (c', stack', cap') \<Longrightarrow>
    sum_list (map task_weight stack') < sum_list (map task_weight (task # stack))"
  using bat_node_weight[of can c "t_node task" stack cap c' stack' cap']
  by (auto simp: bat_step_def task_weight_def split: if_splits)

function bat_loop :: "(nat \<Rightarrow> bool) \<Rightarrow> pl_bat_cursor \<Rightarrow> bat_task list \<Rightarrow> nat \<Rightarrow> pl_bat_cursor option" where
  "bat_loop can c [] cap = Some c"
| "bat_loop can c (task # stack) cap = (case bat_step can c task (stack, cap) of
     None \<Rightarrow> None
   | Some (c', stack', cap') \<Rightarrow> bat_loop can c' stack' cap')"
  by pat_completeness auto

termination
  by (relation "measure (\<lambda>(can, c, stack, cap). sum_list (map task_weight stack))") (auto dest: bat_step_weight)

definition pl_bat_open :: "(nat \<Rightarrow> bool) \<Rightarrow> pval \<Rightarrow> pl_bat_cursor option" where
  "pl_bat_open can tree = (case bat_push can (node_task tree) ([], 0) of
     None \<Rightarrow> None
   | Some (stack, cap) \<Rightarrow> bat_loop can bat_cursor0 stack cap)"

definition pl_bat_close :: "pl_bat_cursor \<Rightarrow> pl_bat_cursor" where
  "pl_bat_close c = bat_cursor0"

subsection \<open>Seeking and reading\<close>

fun seek_loop :: "pl_bat_span list \<Rightarrow> nat \<Rightarrow> nat \<Rightarrow> nat \<times> nat" where
  "seek_loop [] i offset = (i, offset)"
| "seek_loop (s # ss) i offset =
     (if sp_length s \<le> offset then seek_loop ss (i + 1) (offset - sp_length s) else (i, offset))"

definition pl_bat_seek :: "pl_bat_cursor \<Rightarrow> nat \<Rightarrow> bool \<times> pl_bat_cursor" where
  "pl_bat_seek c offset =
     (if c_length c < offset then (False, c)
      else let (i, w) = seek_loop (c_spans c) 0 offset in
        (True, c\<lparr>c_position := offset, c_index := i, c_within := w\<rparr>))"

text \<open>
  The \<open>n\<close> bytes at \<open>at\<close> of a span's source. Reading past the limbs of a boxed nat, or with a cursor
  that stands past the end of its span, is a fault of the model that the theorems below exclude.
\<close>

definition span_read :: "pl_bat_span \<Rightarrow> nat \<Rightarrow> nat \<Rightarrow> bytes res" where
  "span_read s within n =
     (if sp_source s = Direct 0 then Inr (replicate n (sp_byte s))
      else case sp_source s of
        Direct w \<Rightarrow> Inr (map (\<lambda>i. pl_nat_byte_at (Direct w) (sp_offset s + within + i)) [0..<n])
      | Boxed ls \<Rightarrow>
          rbind (assume_c (sp_offset s + within + n \<le> 8 * length ls) ''read past the limbs'') (\<lambda>_.
            Inr (take n (drop (sp_offset s + within) (limb_bytes ls)))))"

function read_loop :: "pl_bat_cursor \<Rightarrow> bytes \<Rightarrow> nat \<Rightarrow> nat \<Rightarrow> (bytes \<times> pl_bat_cursor) res" where
  "read_loop c out done' size' =
     (if done' < size' \<and> c_index c < length (c_spans c) then
        let s = c_spans c ! c_index c in
        if sp_length s < c_within c then Inl (Abort ''cursor past its span'')
        else
          let remain = sp_length s - c_within c;
              n = (if remain < size' - done' then remain else size' - done') in
          (case span_read s (c_within c) n of
             Inl e \<Rightarrow> Inl e
           | Inr bs \<Rightarrow>
               let within = c_within c + n;
                   c' = c\<lparr>c_within := within, c_position := c_position c + n\<rparr> in
               read_loop (if within = sp_length s then c'\<lparr>c_index := c_index c + 1, c_within := 0\<rparr> else c')
                 (out @ bs) (done' + n) size')
      else Inr (out, c))"
  by pat_completeness auto

termination
  by (relation "measure (\<lambda>(c, out, done', size'). (size' - done') + (length (c_spans c) - c_index c))") auto

declare read_loop.simps [simp del]

definition pl_bat_read :: "pl_bat_cursor \<Rightarrow> nat \<Rightarrow> (bytes \<times> pl_bat_cursor) res" where
  "pl_bat_read c n = read_loop c [] 0 n"

subsection \<open>Building\<close>

definition PL_BAT_CHUNK_BYTES :: nat where
  "PL_BAT_CHUNK_BYTES = 2 ^ 20"

definition mote_val :: "string \<Rightarrow> pval" where
  "mote_val s = VNat (Direct (ax_s s))"

definition bat_row :: "pval list \<Rightarrow> pval res" where
  "bat_row fs = pl_mk_app_from zero_val fs"

definition pl_bat_chunk :: "bytes \<Rightarrow> pval res" where
  "pl_bat_chunk bytes =
     (let n = length bytes in
      rbind (assume_c (n \<le> PL_BAT_CHUNK_BYTES) ''BAT chunk too large'') (\<lambda>_.
      rbind (pl_nat_from_bytes bytes) (\<lambda>v.
      rbind (bat_row [mote_val ''slice'', pl_pin (VNat v), zero_val, VNat (Direct (word_of_nat n))]) (\<lambda>leaf.
      bat_row [mote_val ''bat'', VNat (Direct (word_of_nat n)), leaf]))))"

text \<open>The length field of a \<open>bat\<close> row; \<open>None\<close> also where the row has no second element.\<close>

definition bat_len_field :: "pval \<Rightarrow> nat option" where
  "bat_len_field v = (if 1 < length (row_args v) then bat_size (row_args v ! 1) else None)"

definition pl_bat_join :: "pval \<Rightarrow> pval \<Rightarrow> pval res" where
  "pl_bat_join left right =
     (case (bat_len_field left, bat_len_field right) of
        (Some a, Some b) \<Rightarrow>
          rbind (assume_c (a \<le> SIZE_MAX - b) ''BAT length overflow'') (\<lambda>_.
          rbind (bat_row [mote_val ''cat'', left, right]) (\<lambda>cat.
          bat_row [mote_val ''bat'', VNat (pl_mk_nat_u64 (word_of_nat (a + b))), cat]))
      | _ \<Rightarrow> Inl (Abort ''BAT length overflow''))"

text \<open>The first loop of \<open>pl_bat_from_bytes\<close> pushes the chunks, at least one.\<close>

function bat_chunks :: "bytes \<Rightarrow> pval list res" where
  "bat_chunks bytes =
     (let n = (if length bytes < PL_BAT_CHUNK_BYTES then length bytes else PL_BAT_CHUNK_BYTES) in
      case pl_bat_chunk (take n bytes) of
        Inl e \<Rightarrow> Inl e
      | Inr v \<Rightarrow>
          if length bytes - n = 0 then Inr [v]
          else case bat_chunks (drop n bytes) of Inl e \<Rightarrow> Inl e | Inr vs \<Rightarrow> Inr (v # vs))"
  by pat_completeness auto

termination
  by (relation "measure length") (auto simp: PL_BAT_CHUNK_BYTES_def split: if_splits)

declare bat_chunks.simps [simp del]

text \<open>One round of the second loop joins neighbours; the rounds repeat until one tree is left.\<close>

fun bat_pass :: "pval list \<Rightarrow> pval list res" where
  "bat_pass [] = Inr []"
| "bat_pass [v] = Inr [v]"
| "bat_pass (v # w # vs) = rbind (pl_bat_join v w) (\<lambda>j. rbind (bat_pass vs) (\<lambda>js. Inr (j # js)))"

lemma length_bat_pass: "bat_pass vs = Inr ws \<Longrightarrow> length ws = (length vs + 1) div 2"
  by (induction vs arbitrary: ws rule: bat_pass.induct) (auto simp: res_simps)

function bat_rounds :: "pval list \<Rightarrow> pval list res" where
  "bat_rounds vs =
     (if 1 < length vs then case bat_pass vs of Inl e \<Rightarrow> Inl e | Inr ws \<Rightarrow> bat_rounds ws else Inr vs)"
  by pat_completeness auto

termination
  by (relation "measure length") (auto dest: length_bat_pass)

declare bat_rounds.simps [simp del]

definition pl_bat_from_bytes :: "bytes \<Rightarrow> pval res" where
  "pl_bat_from_bytes bytes = rbind (bat_chunks bytes) (\<lambda>vs. rbind (bat_rounds vs) (\<lambda>ws. Inr (ws ! 0)))"

subsection \<open>Primitive operations over byte trees\<close>

text \<open>
  \<open>mem\<close> says whether \<open>malloc\<close> returns memory for a number of bytes. A buffer that the reads leave
  partly unwritten would be a fault.
\<close>

definition op_strtree :: "(nat \<Rightarrow> bool) \<Rightarrow> (nat \<Rightarrow> bool) \<Rightarrow> pval list \<Rightarrow> opres" where
  "op_strtree can mem a = (case pl_bat_open can (a ! 0) of
     None \<Rightarrow> ret_op zero_val
   | Some c \<Rightarrow>
       if (2 ^ 20 - 1) * 8 < c_length c then raise_op (Inl (Raise ''StrTree: output too large''))
       else let n = c_length c in
         if \<not> mem (if n \<noteq> 0 then n else 1) then raise_op (Inl (Raise ''StrTree: temporary allocation failed''))
         else raise_op (rbind (pl_bat_read c n) (\<lambda>(bs, c').
           rbind (assume_c (length bs = n) ''unwritten bytes'') (\<lambda>_.
           rbind (pl_nat_from_bytes bs) (\<lambda>v. Inr ([], VNat v))))))"

text \<open>
  The loops of \<open>op_bateq\<close> and \<open>op_bathash\<close> over blocks of 16384 bytes. They end when a read returns no
  bytes; every other round reads at least one, so one round more than the length is enough fuel.
\<close>

primrec bateq_loop :: "nat \<Rightarrow> pl_bat_cursor \<Rightarrow> pl_bat_cursor \<Rightarrow> bool option res" where
  "bateq_loop 0 a b = Inr None"
| "bateq_loop (Suc fuel) a b =
     rbind (pl_bat_read a 16384) (\<lambda>(x, a').
       if length x = 0 then Inr (Some True)
       else rbind (pl_bat_read b (length x)) (\<lambda>(y, b').
         if length y = length x \<and> x = y then bateq_loop fuel a' b' else Inr (Some False)))"

definition op_bateq :: "(nat \<Rightarrow> bool) \<Rightarrow> pval list \<Rightarrow> opres" where
  "op_bateq can args = (case pl_bat_open can (args ! 0) of
     None \<Rightarrow> ret_op zero_val
   | Some a \<Rightarrow> (case pl_bat_open can (args ! 1) of
       None \<Rightarrow> ret_op zero_val
     | Some b \<Rightarrow>
         raise_op (rbind (if c_length a = c_length b then bateq_loop (c_length a + 1) a b else Inr (Some False))
           (\<lambda>r. case r of None \<Rightarrow> Inl (Abort ''out of fuel'') | Some e \<Rightarrow> Inr ([], bool_val e)))))"

primrec bathash_loop :: "nat \<Rightarrow> pl_bat_cursor \<Rightarrow> bytes \<Rightarrow> bytes option res" where
  "bathash_loop 0 c fed = Inr None"
| "bathash_loop (Suc fuel) c fed =
     rbind (pl_bat_read c 16384) (\<lambda>(buf, c').
       if length buf = 0 then Inr (Some fed) else bathash_loop fuel c' (fed @ buf))"

text \<open>\<open>sha\<close> is SHA-256 of the bytes fed to the hash state.\<close>

definition op_bathash :: "(nat \<Rightarrow> bool) \<Rightarrow> (bytes \<Rightarrow> bytes) \<Rightarrow> pval list \<Rightarrow> opres" where
  "op_bathash can sha a = (case pl_bat_open can (a ! 0) of
     None \<Rightarrow> raise_op (Inl (Raise ''BatHash: malformed BAT''))
   | Some c \<Rightarrow>
       raise_op (rbind (bathash_loop (c_length c + 1) c []) (\<lambda>r. case r of
         None \<Rightarrow> Inl (Abort ''out of fuel'')
       | Some fed \<Rightarrow> rbind (pl_nat_from_bytes (sha fed @ [1])) (\<lambda>v. Inr ([], VNat v)))))"

subsection \<open>What a tree denotes\<close>

fun src_nat :: "pval \<Rightarrow> pnat option" where
  "src_nat (VNat s) = Some s"
| "src_nat (VPin h (VNat s)) = Some s"
| "src_nat _ = None"

text \<open>A segment of a byte string, padded with zeros beyond its end.\<close>

definition padded :: "nat \<Rightarrow> nat \<Rightarrow> bytes \<Rightarrow> bytes" where
  "padded off len bs = take len (drop off bs) @ replicate (len - length (drop off bs)) 0"

function bat_bytes :: "pval \<Rightarrow> bytes option" where
  "bat_bytes v = (case v of
     VApp need head f \<Rightarrow>
       if head \<noteq> zero_val then None
       else (case f of
         [t, x] \<Rightarrow> if is_mote t ''text'' then map_option nat_bytes (src_nat x) else None
       | [t, x, y] \<Rightarrow>
           if is_mote t ''cat'' then (case (bat_bytes x, bat_bytes y) of (Some a, Some b) \<Rightarrow> Some (a @ b) | _ \<Rightarrow> None)
           else if is_mote t ''bat'' then (case (bat_size x, bat_bytes y) of
               (Some len, Some b) \<Rightarrow> if length b = len then Some b else None | _ \<Rightarrow> None)
           else if is_mote t ''repeat'' then (case (x, bat_size y) of
               (VNat b, Some len) \<Rightarrow> Some (replicate len (pl_nat_byte_at b 0)) | _ \<Rightarrow> None)
           else None
       | [t, x, y, z] \<Rightarrow>
           if is_mote t ''range'' then (case (bat_bytes x, bat_size y, bat_size z) of
               (Some b, Some off, Some len) \<Rightarrow>
                 if off + len \<le> length b then Some (take len (drop off b)) else None | _ \<Rightarrow> None)
           else if is_mote t ''slice'' then (case (src_nat x, bat_size y, bat_size z) of
               (Some s, Some off, Some len) \<Rightarrow> Some (padded off len (nat_bytes s)) | _ \<Rightarrow> None)
           else None
       | _ \<Rightarrow> None)
   | _ \<Rightarrow> None)"
  by pat_completeness auto

termination
  by (relation "measure size") auto

declare bat_bytes.simps [simp del]

lemma motes_distinct [simp]:
  "is_mote t ''cat'' \<Longrightarrow> \<not> is_mote t ''bat''" "is_mote t ''cat'' \<Longrightarrow> \<not> is_mote t ''repeat''"
  "is_mote t ''bat'' \<Longrightarrow> \<not> is_mote t ''repeat''" "is_mote t ''range'' \<Longrightarrow> \<not> is_mote t ''slice''"
  by (simp_all add: is_mote_def)

subsection \<open>Spans\<close>

definition span_bytes :: "pl_bat_span \<Rightarrow> bytes" where
  "span_bytes s = (if sp_source s = Direct 0 then replicate (sp_length s) (sp_byte s)
     else map (\<lambda>i. pl_nat_byte_at (sp_source s) (sp_offset s + i)) [0..<sp_length s])"

definition span_ok :: "pl_bat_span \<Rightarrow> bool" where
  "span_ok s = (0 < sp_length s \<and> nat_ok (sp_source s) \<and>
     (sp_source s \<noteq> Direct 0 \<longrightarrow> sp_offset s + sp_length s \<le> pl_nat_byte_len (sp_source s)))"

definition span_cat :: "pl_bat_span list \<Rightarrow> bytes" where
  "span_cat ss = concat (map span_bytes ss)"

definition span_total :: "pl_bat_span list \<Rightarrow> nat" where
  "span_total ss = sum_list (map sp_length ss)"

definition ext :: "pl_bat_cursor \<Rightarrow> pl_bat_span list \<Rightarrow> nat \<Rightarrow> pl_bat_cursor" where
  "ext c ss k = c\<lparr>c_spans := c_spans c @ ss, c_length := c_length c + span_total ss, c_capacity := k\<rparr>"

lemma length_span_bytes [simp]: "length (span_bytes s) = sp_length s"
  by (simp add: span_bytes_def)

lemma span_cat_simps [simp]:
  "span_cat [] = []" "span_cat (s # ss) = span_bytes s @ span_cat ss" "span_cat (ss @ ts) = span_cat ss @ span_cat ts"
  by (simp_all add: span_cat_def)

lemma span_total_simps [simp]: "span_total [] = 0" "span_total (s # ss) = sp_length s + span_total ss" "span_total (ss @ ts) = span_total ss + span_total ts"
  by (simp_all add: span_total_def)

lemma length_span_cat [simp]: "length (span_cat ss) = span_total ss"
  by (induction ss) simp_all

lemma ext_ext [simp]: "ext (ext c ss k) ts k' = ext c (ss @ ts) k'"
  by (simp add: ext_def)

lemma ext_fields [simp]:
  "c_spans (ext c ss k) = c_spans c @ ss" "c_length (ext c ss k) = c_length c + span_total ss" "c_capacity (ext c ss k) = k"
  "c_index (ext c ss k) = c_index c" "c_within (ext c ss k) = c_within c" "c_position (ext c ss k) = c_position c"
  by (simp_all add: ext_def)

lemma ext_Nil [simp]: "ext c [] (c_capacity c) = c"
  by (simp add: ext_def)

lemma span_bytes_part:
  "k + n \<le> sp_length s \<Longrightarrow>
    span_bytes (s\<lparr>sp_offset := sp_offset s + k, sp_length := n\<rparr>) = take n (drop k (span_bytes s))"
  by (rule nth_equalityI) (auto simp: span_bytes_def add.assoc)

lemma crop_cat: "span_cat (bat_crop ss off len) = take len (drop off (span_cat ss))"
proof (induction ss off len rule: bat_crop.induct)
  case (2 s ss off len)
  show ?case
  proof (cases "len = 0 \<or> sp_length s \<le> off")
    case False
    define n where "n = (if len < sp_length s - off then len else sp_length s - off)"
    have n: "off + n \<le> sp_length s" using False by (auto simp: n_def)
    have t: "take len (drop off (span_bytes s)) = take n (drop off (span_bytes s))" by (simp add: n_def)
    have "take (len - n) (span_cat ss) = take (len - (sp_length s - off)) (span_cat ss)" by (simp add: n_def)
    moreover have "bat_crop (s # ss) off len = s\<lparr>sp_offset := sp_offset s + off, sp_length := n\<rparr> # bat_crop ss 0 (len - n)"
      using False by (simp add: Let_def n_def)
    moreover have "span_cat (bat_crop ss 0 (len - n)) = take (len - n) (span_cat ss)"
      using 2(2)[of "sp_length s - off" n] False by (simp add: n_def)
    ultimately show ?thesis using False n t by (simp add: span_bytes_part)
  qed (use 2 in auto)
qed simp

lemma crop_ok: "list_all span_ok ss \<Longrightarrow> list_all span_ok (bat_crop ss off len)"
  by (induction ss off len rule: bat_crop.induct) (auto simp: Let_def span_ok_def)

lemma bat_span_ext:
  assumes "bat_span can c src off len b = Some c'"
  shows "\<exists>k. c' = ext c (if len = 0 then [] else [\<lparr>sp_source = src, sp_offset = off, sp_length = len, sp_byte = b\<rparr>]) k"
proof (cases "len = 0")
  case True
  then show ?thesis using assms by (auto simp: bat_span_def intro!: exI[of _ "c_capacity c"])
next
  case False
  then show ?thesis using assms by (cases c) (auto simp: bat_span_def ext_def split: if_splits option.splits)
qed

lemma src_nat_ok: "val_ok v \<Longrightarrow> src_nat v = Some s \<Longrightarrow> nat_ok s"
  by (cases v rule: src_nat.cases) auto

lemma zero_ok [simp]: "nat_ok (Direct 0)"
  by (simp add: PL_NAT63_MAX_def)

lemma zero_byte_len [simp]: "pl_nat_byte_len (Direct 0) = 0"
  by (simp add: pl_nat_byte_len_def pl_nat_bit_len_def)

definition leaf_spans :: "pnat \<Rightarrow> nat \<Rightarrow> nat \<Rightarrow> pl_bat_span list" where
  "leaf_spans s off len = (let n = min len (pl_nat_byte_len s - off) in
     (if n = 0 then [] else [\<lparr>sp_source = s, sp_offset = off, sp_length = n, sp_byte = 0\<rparr>]) @
     (if len - n = 0 then [] else [\<lparr>sp_source = Direct 0, sp_offset = 0, sp_length = len - n, sp_byte = 0\<rparr>]))"

lemma leaf_spans_cat: "span_cat (leaf_spans s off len) = padded off len (nat_bytes s)"
proof -
  define n where "n = min len (pl_nat_byte_len s - off)"
  have z: "s \<noteq> Direct 0" if "n \<noteq> 0" using that by (auto simp: n_def)
  have "map (\<lambda>i. pl_nat_byte_at s (off + i)) [0..<n] = take len (drop off (nat_bytes s))"
    by (rule nth_equalityI) (auto simp: nat_bytes_def n_def)
  moreover have "len - (pl_nat_byte_len s - off) = len - n" by (simp add: n_def)
  ultimately show ?thesis
    using z unfolding leaf_spans_def Let_def n_def[symmetric] by (auto simp: padded_def span_bytes_def)
qed

lemma leaf_spans_ok: "nat_ok s \<Longrightarrow> list_all span_ok (leaf_spans s off len)"
  by (auto simp: leaf_spans_def Let_def span_ok_def)

lemma bat_leaf_ext:
  assumes "list_all val_ok f" "2 \<le> length f" "bat_leaf can c f = Some c'"
  shows "\<exists>s off len ss k. src_nat (f ! 1) = Some s \<and>
    (if length f = 4 then bat_size (f ! 2) = Some off \<and> bat_size (f ! 3) = Some len else off = 0 \<and> len = pl_nat_byte_len s) \<and>
    span_cat ss = padded off len (nat_bytes s) \<and> list_all span_ok ss \<and> c' = ext c ss k"
proof -
  obtain s where s: "src_nat (f ! 1) = Some s" "(case f ! 1 of VPin h body \<Rightarrow> body | v \<Rightarrow> v) = VNat s"
    using assms(3) by (cases "f ! 1" rule: src_nat.cases) (auto simp: bat_leaf_def split: pval.splits)
  have ok: "nat_ok s" using src_nat_ok[OF _ s(1)] assms(1,2) by (simp add: list_all_length)
  obtain off len where ol: "if length f = 4 then bat_size (f ! 2) = Some off \<and> bat_size (f ! 3) = Some len
      else off = 0 \<and> len = pl_nat_byte_len s"
    using assms(3) s(2) by (fastforce simp: bat_leaf_def Let_def split: if_splits option.splits)
  define n where "n = min len (pl_nat_byte_len s - off)"
  have n: "(let a = if off < pl_nat_byte_len s then pl_nat_byte_len s - off else 0 in if len < a then len else a) = n"
    by (auto simp: n_def Let_def)
  have sel: "(if length f = 4 then (case bat_size (f ! 2) of None \<Rightarrow> None | Some off \<Rightarrow>
      (case bat_size (f ! 3) of None \<Rightarrow> None | Some len \<Rightarrow> Some (off, len))) else Some (0, pl_nat_byte_len s)) = Some (off, len)"
    using ol by auto
  have "bat_leaf can c f = (case bat_span can c s off n 0 of None \<Rightarrow> None | Some c' \<Rightarrow> bat_span can c' (Direct 0) 0 (len - n) 0)"
    unfolding bat_leaf_def s(2) Let_def pval.case sel option.case prod.case n[unfolded Let_def] ..
  then obtain c1 where c1: "bat_span can c s off n 0 = Some c1" "bat_span can c1 (Direct 0) 0 (len - n) 0 = Some c'"
    using assms(3) by (auto split: option.splits)
  from bat_span_ext[OF c1(1)] bat_span_ext[OF c1(2)]
  have "\<exists>k. c' = ext c (leaf_spans s off len) k"
    unfolding leaf_spans_def Let_def n_def[symmetric] by force
  then show ?thesis using s(1) ol leaf_spans_cat[of s off len] leaf_spans_ok[OF ok, of off len] by blast
qed

subsection \<open>Opening a tree\<close>

lemma loop_node:
  "bat_loop can c (node_task v # st) cap = (case bat_node can c v (st, cap) of
     None \<Rightarrow> None | Some (c', st', cap') \<Rightarrow> bat_loop can c' st' cap')"
  by (simp add: bat_step_def node_task_def)

definition check_task :: "pl_bat_cursor \<Rightarrow> nat \<Rightarrow> bat_task" where
  "check_task c len = \<lparr>t_node = zero_val, t_start = c_length c, t_offset = 0, t_length = len,
     t_first = length (c_spans c), t_finish = 1\<rparr>"

definition crop_task :: "pl_bat_cursor \<Rightarrow> nat \<Rightarrow> nat \<Rightarrow> bat_task" where
  "crop_task c off len = \<lparr>t_node = zero_val, t_start = c_length c, t_offset = off, t_length = len,
     t_first = length (c_spans c), t_finish = 2\<rparr>"

lemma loop_check:
  "bat_loop can (ext c ss k) (check_task c len # st) cap = (if span_total ss = len then bat_loop can (ext c ss k) st cap else None)"
  by (simp add: bat_step_def bat_finish_def check_task_def)

lemma ext_replace:
  "ext c ss k\<lparr>c_spans := c_spans c @ ts, c_length := c_length c + span_total ts\<rparr> = ext c ts k"
  by (cases c) (simp add: ext_def)

lemma loop_crop:
  "bat_loop can (ext c ss k) (crop_task c off len # st) cap =
    (if off + len \<le> span_total ss then bat_loop can (ext c (bat_crop ss off len) k) st cap else None)"
  by (auto simp: bat_step_def bat_finish_def crop_task_def Let_def span_total_def[symmetric] ext_replace)

text \<open>The tasks a node pushes, by the shape of the row.\<close>

lemma node_cat:
  assumes "is_mote t ''cat''"
  shows "bat_node can c (VApp need zero_val [t, x, y]) (st, cap) = Some r \<longleftrightarrow>
    (\<exists>cap1 cap2. bat_grow can cap (length st + 1) 48 = Some cap1 \<and> bat_grow can cap1 (length st + 2) 48 = Some cap2 \<and>
      r = (c, node_task x # node_task y # st, cap2))"
  using assms by (auto simp: bat_node_def bat_push_def split: option.splits)

lemma node_bat:
  assumes "is_mote t ''bat''"
  shows "bat_node can c (VApp need zero_val [t, x, y]) (st, cap) = Some r \<longleftrightarrow>
    (\<exists>len cap1 cap2. bat_size x = Some len \<and> bat_grow can cap (length st + 1) 48 = Some cap1 \<and>
      bat_grow can cap1 (length st + 2) 48 = Some cap2 \<and> r = (c, node_task y # check_task c len # st, cap2))"
proof -
  have "\<not> is_mote t ''cat''" using assms motes_distinct(1) by blast
  then show ?thesis using assms by (auto simp: bat_node_def bat_push_def check_task_def split: option.splits)
qed

lemma node_range:
  assumes "is_mote t ''range''"
  shows "bat_node can c (VApp need zero_val [t, x, y, z]) (st, cap) = Some r \<longleftrightarrow>
    (\<exists>off len cap1 cap2. bat_size y = Some off \<and> bat_size z = Some len \<and> bat_grow can cap (length st + 1) 48 = Some cap1 \<and>
      bat_grow can cap1 (length st + 2) 48 = Some cap2 \<and> r = (c, node_task x # crop_task c off len # st, cap2))"
  using assms by (auto simp: bat_node_def bat_push_def crop_task_def numeral_eq_Suc split: option.splits)

text \<open>What the loop does with a node before it returns to the rest of the stack.\<close>

definition opens :: "(nat \<Rightarrow> bool) \<Rightarrow> pl_bat_cursor \<Rightarrow> bytes option \<Rightarrow> bat_task list \<Rightarrow> pl_bat_cursor \<Rightarrow> bool" where
  "opens can c bs st r = (\<exists>ss k cap. bs = Some (span_cat ss) \<and> list_all span_ok ss \<and>
     bat_loop can (ext c ss k) st cap = Some r)"

lemma node_shapes:
  assumes "bat_node can c v (st, cap) = Some r" "val_ok v"
  obtains (cat) need t x y where "v = VApp need zero_val [t, x, y]" "is_mote t ''cat''"
    | (bat) need t x y where "v = VApp need zero_val [t, x, y]" "is_mote t ''bat''"
    | (range) need t x y z where "v = VApp need zero_val [t, x, y, z]" "is_mote t ''range''"
    | (leaf) "\<exists>ss k. bat_bytes v = Some (span_cat ss) \<and> list_all span_ok ss \<and> r = (ext c ss k, st, cap)"
proof (cases v)
  case (VApp need head f)
  have h: "head = zero_val" using assms(1) VApp by (auto simp: bat_node_def Let_def split: if_splits)
  have ok: "list_all val_ok f" using assms(2) VApp by simp
  consider "\<exists>t x y. f = [t, x, y] \<and> is_mote t ''cat''" | "\<exists>t x y. f = [t, x, y] \<and> is_mote t ''bat''"
    | "\<exists>t x y z. f = [t, x, y, z] \<and> is_mote t ''range''"
    | (rep) t x y where "f = [t, x, y]" "is_mote t ''repeat''" "\<not> is_mote t ''cat''" "\<not> is_mote t ''bat''"
    | (plain) t x where "f = [t, x]" "is_mote t ''text''"
    | (slice) t x y z where "f = [t, x, y, z]" "is_mote t ''slice''" "\<not> is_mote t ''range''"
    using assms(1) VApp by (auto simp: bat_node_def Let_def length2 length3 length4 split: if_splits)
  then show thesis
  proof cases
    case rep
    then obtain b len c' where "x = VNat b" "bat_size y = Some len" "r = (c', st, cap)"
      "bat_span can c (Direct 0) 0 len (pl_nat_byte_at b 0) = Some c'"
      using assms(1) VApp h by (auto simp: bat_node_def split: pval.splits option.splits)
    note r = this
    define ss where "ss = (if len = 0 then []
      else [\<lparr>sp_source = Direct 0, sp_offset = 0, sp_length = len, sp_byte = pl_nat_byte_at b 0\<rparr>])"
    obtain k where "c' = ext c ss k" using bat_span_ext[OF r(4)] unfolding ss_def by blast
    moreover have "span_cat ss = replicate len (pl_nat_byte_at b 0)" "list_all span_ok ss"
      by (auto simp: ss_def span_bytes_def span_ok_def)
    moreover have "bat_bytes v = Some (replicate len (pl_nat_byte_at b 0))"
      using r rep VApp h by (simp add: bat_bytes.simps)
    ultimately show thesis using r(3) by (intro leaf exI[of _ ss] exI[of _ k]) simp
  next
    case plain
    then obtain c' where c': "bat_leaf can c f = Some c'" "r = (c', st, cap)"
      using assms(1) VApp h by (auto simp: bat_node_def)
    then obtain s ss k where "src_nat x = Some s" "span_cat ss = nat_bytes s" "list_all span_ok ss" "c' = ext c ss k"
      using bat_leaf_ext[OF ok _ c'(1)] plain by (auto simp: padded_def)
    then show thesis using c'(2) plain VApp h by (intro leaf exI[of _ ss] exI[of _ k]) (simp add: bat_bytes.simps)
  next
    case slice
    then obtain c' where c': "bat_leaf can c f = Some c'" "r = (c', st, cap)"
      using assms(1) VApp h by (auto simp: bat_node_def)
    have l: "length f = 4" "2 \<le> length f" using slice by simp_all
    obtain s off len ss k where "src_nat x = Some s" "bat_size y = Some off" "bat_size z = Some len"
      "span_cat ss = padded off len (nat_bytes s)" "list_all span_ok ss" "c' = ext c ss k"
      using bat_leaf_ext[OF ok l(2) c'(1)] slice unfolding if_P[OF l(1)] by (auto simp: numeral_eq_Suc)
    then show thesis using c'(2) slice VApp h by (intro leaf exI[of _ ss] exI[of _ k]) (simp add: bat_bytes.simps)
  qed (use cat bat range VApp h in blast)+
qed (use assms(1) in \<open>simp_all add: bat_node_def\<close>)

lemma loop_sound:
  "bat_loop can c (node_task v # st) cap = Some r \<Longrightarrow> val_ok v \<Longrightarrow> opens can c (bat_bytes v) st r"
proof (induction v arbitrary: c st cap rule: measure_induct_rule[of size])
  case (less v)
  obtain c' st' cap' where n: "bat_node can c v (st, cap) = Some (c', st', cap')" "bat_loop can c' st' cap' = Some r"
    using less.prems(1) unfolding loop_node by (auto split: option.splits)
  show ?case
  proof (rule node_shapes[OF n(1) less.prems(2)])
    fix need t x y assume v: "v = VApp need zero_val [t, x, y]" "is_mote t ''cat''"
    then have "bat_loop can c (node_task x # node_task y # st) cap' = Some r"
      using n unfolding v(1) node_cat[OF v(2)] by auto
    then have "opens can c (bat_bytes x) (node_task y # st) r" using less v(1) by simp
    then obtain ss k cap1 where s: "bat_bytes x = Some (span_cat ss)" "list_all span_ok ss"
      "bat_loop can (ext c ss k) (node_task y # st) cap1 = Some r" by (auto simp: opens_def)
    then have "opens can (ext c ss k) (bat_bytes y) st r" using less v(1) by simp
    then obtain ts k' cap2 where "bat_bytes y = Some (span_cat ts)" "list_all span_ok ts"
      "bat_loop can (ext c (ss @ ts) k') st cap2 = Some r" by (auto simp: opens_def)
    moreover have "bat_bytes v = Some (span_cat (ss @ ts))" using v s calculation by (simp add: bat_bytes.simps)
    ultimately show ?thesis using s(2) unfolding opens_def by (intro exI[of _ "ss @ ts"] exI[of _ k'] exI[of _ cap2]) simp
  next
    fix need t x y assume v: "v = VApp need zero_val [t, x, y]" "is_mote t ''bat''"
    then obtain len where len: "bat_size x = Some len" "bat_loop can c (node_task y # check_task c len # st) cap' = Some r"
      using n unfolding v(1) node_bat[OF v(2)] by auto
    then have "opens can c (bat_bytes y) (check_task c len # st) r" using less v(1) by simp
    then obtain ss k cap1 where s: "bat_bytes y = Some (span_cat ss)" "list_all span_ok ss" "span_total ss = len"
      "bat_loop can (ext c ss k) st cap1 = Some r" unfolding opens_def loop_check by (auto split: if_splits)
    moreover have "bat_bytes v = Some (span_cat ss)" using v s len motes_distinct(1)[of t] by (auto simp: bat_bytes.simps)
    ultimately show ?thesis unfolding opens_def by (intro exI[of _ ss] exI[of _ k] exI[of _ cap1]) simp
  next
    fix need t x y z assume v: "v = VApp need zero_val [t, x, y, z]" "is_mote t ''range''"
    then obtain off len where len: "bat_size y = Some off" "bat_size z = Some len"
      "bat_loop can c (node_task x # crop_task c off len # st) cap' = Some r"
      using n unfolding v(1) node_range[OF v(2)] by auto
    then have "opens can c (bat_bytes x) (crop_task c off len # st) r" using less v(1) by simp
    then obtain ss k cap1 where s: "bat_bytes x = Some (span_cat ss)" "list_all span_ok ss" "off + len \<le> span_total ss"
      "bat_loop can (ext c (bat_crop ss off len) k) st cap1 = Some r"
      unfolding opens_def loop_crop by (auto split: if_splits)
    moreover have "bat_bytes v = Some (span_cat (bat_crop ss off len))"
      using v s len by (simp add: bat_bytes.simps crop_cat)
    ultimately show ?thesis using crop_ok[OF s(2), of off len] unfolding opens_def
      by (intro exI[of _ "bat_crop ss off len"] exI[of _ k] exI[of _ cap1]) simp
  next
    assume "\<exists>ss k. bat_bytes v = Some (span_cat ss) \<and> list_all span_ok ss \<and> (c', st', cap') = (ext c ss k, st, cap)"
    then show ?thesis using n(2) unfolding opens_def by blast
  qed
qed

lemma open_sound:
  assumes "pl_bat_open can v = Some c" "val_ok v"
  obtains ss k where "bat_bytes v = Some (span_cat ss)" "list_all span_ok ss" "c = ext bat_cursor0 ss k"
proof -
  obtain cap where "bat_loop can bat_cursor0 (node_task v # []) cap = Some c"
    using assms(1) by (auto simp: pl_bat_open_def bat_push_def split: option.splits)
  from loop_sound[OF this assms(2)] that show thesis by (auto simp: opens_def)
qed

subsection \<open>Reading\<close>

lemma limb_bytes_nth:
  assumes "nat_ok (Boxed ls)" "i < 8 * length ls"
  shows "limb_bytes ls ! i = pl_nat_byte_at (Boxed ls) i"
proof -
  have "Boxed ls = nat_rep (lval ls)" using nat_ok_rep[OF assms(1)] by simp
  then show ?thesis using bval_nth[of i "limb_bytes ls"] assms(2) byte_at_rep[of "lval ls" i]
    by (simp add: word_unat_eq_iff bval_limb_bytes)
qed

lemma byte_len_boxed: "nat_ok (Boxed ls) \<Longrightarrow> pl_nat_byte_len (Boxed ls) \<le> 8 * length ls"
  using nat_ok_rep[of "Boxed ls"] byte_len_limbs[of "lval ls"] nlimbs_lval[of ls] by (simp add: nval_def)

lemma span_read_part:
  assumes "span_ok s" "w + n \<le> sp_length s"
  shows "span_read s w n = Inr (take n (drop w (span_bytes s)))"
proof (cases "sp_source s")
  case (Direct d)
  have "map (\<lambda>i. pl_nat_byte_at (Direct d) (sp_offset s + w + i)) [0..<n] =
      take n (drop w (map (\<lambda>i. pl_nat_byte_at (Direct d) (sp_offset s + i)) [0..<sp_length s]))"
    using assms(2) by (intro nth_equalityI) (auto simp: add.assoc)
  then show ?thesis using assms Direct by (auto simp: span_read_def span_bytes_def)
next
  case (Boxed ls)
  have b: "nat_ok (Boxed ls)" "sp_offset s + sp_length s \<le> 8 * length ls"
    using assms(1) Boxed byte_len_boxed[of ls] by (auto simp: span_ok_def)
  have "take n (drop (sp_offset s + w) (limb_bytes ls)) =
      take n (drop w (map (\<lambda>i. pl_nat_byte_at (Boxed ls) (sp_offset s + i)) [0..<sp_length s]))"
    using assms(2) b by (intro nth_equalityI) (auto simp: limb_bytes_nth add.assoc)
  then show ?thesis using assms Boxed b by (simp add: span_read_def span_bytes_def)
qed

text \<open>The bytes a cursor has still to read, and the cursors the operations produce.\<close>

definition left :: "pl_bat_cursor \<Rightarrow> bytes" where
  "left c = drop (c_within c) (span_cat (drop (c_index c) (c_spans c)))"

definition cur_ok :: "pl_bat_cursor \<Rightarrow> bool" where
  "cur_ok c = (list_all span_ok (c_spans c) \<and>
     (if c_index c < length (c_spans c) then c_within c < sp_length (c_spans c ! c_index c) else c_within c = 0))"

lemma read_loop_spec:
  "cur_ok c \<Longrightarrow> \<exists>c'. read_loop c out d n = Inr (out @ take (n - d) (left c), c') \<and> cur_ok c' \<and>
     left c' = drop (n - d) (left c)"
proof (induction c out d n rule: read_loop.induct)
  case (1 c out d n)
  show ?case
  proof (cases "d < n \<and> c_index c < length (c_spans c)")
    case True
    define s where "s = c_spans c ! c_index c"
    define m where "m = (if sp_length s - c_within c < n - d then sp_length s - c_within c else n - d)"
    define c1 where "c1 = c\<lparr>c_within := c_within c + m, c_position := c_position c + m\<rparr>"
    define c2 where "c2 = (if c_within c + m = sp_length s then c1\<lparr>c_index := c_index c + 1, c_within := 0\<rparr> else c1)"
    have w: "c_within c < sp_length s" "span_ok s" using 1(2) True by (auto simp: cur_ok_def s_def list_all_length)
    have d: "drop (c_index c) (c_spans c) = s # drop (Suc (c_index c)) (c_spans c)"
      using True by (simp add: Cons_nth_drop_Suc s_def)
    have mb: "c_within c + m \<le> sp_length s" using w(1) by (auto simp: m_def)
    have r: "span_read s (c_within c) m = Inr (take m (drop (c_within c) (span_bytes s)))"
      using w(2) mb by (rule span_read_part)
    have step: "read_loop c out d n = read_loop c2 (out @ take m (drop (c_within c) (span_bytes s))) (d + m) n"
      using True w r by (subst read_loop.simps) (simp add: Let_def s_def[symmetric] m_def[symmetric] c1_def c2_def)
    have c2: "cur_ok c2" "left c2 = drop m (left c)" "take m (left c) = take m (drop (c_within c) (span_bytes s))"
      using 1(2) True w d mb
      by (auto simp: c2_def c1_def cur_ok_def left_def s_def[symmetric] list_all_length span_ok_def add.commute split: if_splits)
    have "\<exists>c'. read_loop c2 (out @ take m (drop (c_within c) (span_bytes s))) (d + m) n =
        Inr ((out @ take m (drop (c_within c) (span_bytes s))) @ take (n - (d + m)) (left c2), c') \<and> cur_ok c' \<and>
        left c' = drop (n - (d + m)) (left c2)"
      by (rule 1(1)[OF _ s_def _ refl m_def r refl c1_def[folded s_def], folded c2_def]) (use True w c2 in auto)
    moreover have "m \<le> n - d" by (simp add: m_def)
    then have nd: "n - d = m + (n - (d + m))" by simp
    have "take (n - d) (left c) = take m (left c) @ take (n - (d + m)) (drop m (left c))"
      by (subst nd) (simp only: take_add)
    moreover have "drop (n - d) (left c) = drop (n - (d + m)) (drop m (left c))"
      by (subst nd) (simp only: drop_drop add.commute)
    ultimately show ?thesis unfolding step c2 by auto
  next
    case False
    then have "n - d = 0 \<or> left c = []" using 1(2) by (auto simp: left_def cur_ok_def)
    then show ?thesis using False 1(2) by (subst read_loop.simps) auto
  qed
qed

lemma read_spec:
  assumes "cur_ok c"
  obtains c' where "pl_bat_read c n = Inr (take n (left c), c')" "cur_ok c'" "left c' = drop n (left c)"
  using read_loop_spec[OF assms, of "[]" 0 n] by (auto simp: pl_bat_read_def)

lemma seek_loop_spec:
  assumes "off \<le> span_total ss" "seek_loop ss j off = (i, w)"
  shows "\<exists>k. i = j + k \<and> k \<le> length ss \<and> drop w (span_cat (drop k ss)) = drop off (span_cat ss) \<and>
    (if k < length ss then w < sp_length (ss ! k) else w = 0)"
  using assms
proof (induction ss arbitrary: j off)
  case (Cons s ss)
  show ?case
  proof (cases "sp_length s \<le> off")
    case True
    then have "off - sp_length s \<le> span_total ss" "seek_loop ss (j + 1) (off - sp_length s) = (i, w)" using Cons.prems by auto
    from Cons.IH[OF this] obtain k where "i = j + 1 + k" "k \<le> length ss"
      "drop w (span_cat (drop k ss)) = drop (off - sp_length s) (span_cat ss)"
      "if k < length ss then w < sp_length (ss ! k) else w = 0" by auto
    then show ?thesis using True by (intro exI[of _ "Suc k"]) auto
  next
    case False
    then show ?thesis using Cons.prems by (intro exI[of _ 0]) auto
  qed
qed simp

lemma seek_spec:
  assumes "list_all span_ok (c_spans c)" "c_length c = span_total (c_spans c)" "off \<le> c_length c"
  obtains c' where "pl_bat_seek c off = (True, c')" "cur_ok c'" "left c' = drop off (span_cat (c_spans c))" "c_position c' = off"
proof -
  obtain i w where iw: "seek_loop (c_spans c) 0 off = (i, w)" by force
  let ?c = "c\<lparr>c_position := off, c_index := i, c_within := w\<rparr>"
  have "pl_bat_seek c off = (True, ?c)" using assms(3) iw by (simp add: pl_bat_seek_def)
  moreover obtain "i \<le> length (c_spans c)" "drop w (span_cat (drop i (c_spans c))) = drop off (span_cat (c_spans c))"
    "if i < length (c_spans c) then w < sp_length (c_spans c ! i) else w = 0"
    using seek_loop_spec[OF _ iw] assms(2,3) by auto
  then have "cur_ok ?c" "left ?c = drop off (span_cat (c_spans c))" using assms(1) by (auto simp: cur_ok_def left_def)
  ultimately show thesis by (intro that[of ?c]) simp_all
qed

subsection \<open>Opening succeeds\<close>

text \<open>
  The bytes of all the spans a tree opens, before ranges crop them: the running length that the
  overflow check sees stays below their sum.
\<close>

function gross :: "pval \<Rightarrow> nat" where
  "gross v = (case v of
     VApp need head [t, x, y] \<Rightarrow>
       if is_mote t ''cat'' then gross x + gross y else if is_mote t ''bat'' then gross y
       else (case bat_bytes v of None \<Rightarrow> 0 | Some bs \<Rightarrow> length bs)
   | VApp need head [t, x, y, z] \<Rightarrow>
       if is_mote t ''range'' then gross x else (case bat_bytes v of None \<Rightarrow> 0 | Some bs \<Rightarrow> length bs)
   | _ \<Rightarrow> (case bat_bytes v of None \<Rightarrow> 0 | Some bs \<Rightarrow> length bs))"
  by pat_completeness auto

termination
  by (relation "measure size") auto

declare gross.simps [simp del]

lemma grow_loop_bound:
  "0 < n \<Longrightarrow> n \<le> 2 ^ 51 \<Longrightarrow> need \<le> 2 ^ 50 \<Longrightarrow> \<exists>m. grow_loop n need = Some m \<and> m \<le> 2 ^ 51"
proof (induction n need rule: grow_loop.induct)
  case (1 n need)
  show ?case
  proof (cases "n < need")
    case True
    then show ?thesis using 1 by (subst grow_loop.simps) simp
  next
    case False
    then show ?thesis using 1(3) by (subst grow_loop.simps) simp
  qed
qed

lemma bat_grow_bound:
  assumes "need \<le> 2 ^ 50" "cap \<le> 2 ^ 51" "0 < w" "w \<le> 48"
  obtains cap' where "bat_grow (\<lambda>_. True) cap need w = Some cap'" "cap' \<le> 2 ^ 51"
proof (cases "need \<le> cap")
  case True
  then show ?thesis using that[of cap] assms(2) by (simp add: bat_grow_def)
next
  case False
  have "0 < (if cap \<noteq> 0 then cap else 16)" "(if cap \<noteq> 0 then cap else 16) \<le> 2 ^ 51" using assms(2) by auto
  then obtain m where m: "grow_loop (if cap \<noteq> 0 then cap else 16) need = Some m" "m \<le> 2 ^ 51"
    using grow_loop_bound assms(1) by blast
  have "SIZE_MAX div 48 \<le> SIZE_MAX div w" using assms(3,4) by (rule div_le_mono2)
  then have "\<not> SIZE_MAX div w < m" using m(2) by simp
  then show ?thesis using that[of m] False m by (simp add: bat_grow_def)
qed

lemma bat_span_opens:
  assumes "c_length c + len \<le> SIZE_MAX" "length (c_spans c) + 1 \<le> 2 ^ 50" "c_capacity c \<le> 2 ^ 51"
  obtains k where "bat_span (\<lambda>_. True) c src off len b =
      Some (ext c (if len = 0 then [] else [\<lparr>sp_source = src, sp_offset = off, sp_length = len, sp_byte = b\<rparr>]) k)"
    "k \<le> 2 ^ 51"
proof (cases "len = 0")
  case True
  then show ?thesis using that[of "c_capacity c"] assms(3) by (simp add: bat_span_def)
next
  case False
  obtain cap' where "bat_grow (\<lambda>_. True) (c_capacity c) (length (c_spans c) + 1) 32 = Some cap'" "cap' \<le> 2 ^ 51"
    using bat_grow_bound[OF assms(2,3), of 32] by auto
  then show ?thesis using that[of cap'] False assms by (cases c) (simp add: bat_span_def ext_def)
qed

definition opens_to :: "pl_bat_cursor \<Rightarrow> pval \<Rightarrow> bat_task list \<Rightarrow> nat \<Rightarrow> bytes \<Rightarrow> bool" where
  "opens_to c v st cap bs = (\<exists>ss k cap'. bat_loop (\<lambda>_. True) c (node_task v # st) cap = bat_loop (\<lambda>_. True) (ext c ss k) st cap' \<and>
     bs = span_cat ss \<and> length ss \<le> 2 * size v \<and> k \<le> 2 ^ 51 \<and> cap' \<le> 2 ^ 51 \<and> length bs \<le> gross v)"

lemma leaf_opens:
  assumes "src_nat (f ! 1) = Some s" "if length f = 4 then bat_size (f ! 2) = Some off \<and> bat_size (f ! 3) = Some len
      else off = 0 \<and> len = pl_nat_byte_len s"
    "c_length c + len \<le> SIZE_MAX" "length (c_spans c) + 2 \<le> 2 ^ 50" "c_capacity c \<le> 2 ^ 51"
  obtains k where "bat_leaf (\<lambda>_. True) c f = Some (ext c (leaf_spans s off len) k)" "k \<le> 2 ^ 51"
proof -
  have src: "(case f ! 1 of VPin h body \<Rightarrow> body | v \<Rightarrow> v) = VNat s"
    using assms(1) by (cases "f ! 1" rule: src_nat.cases) auto
  define n where "n = min len (pl_nat_byte_len s - off)"
  have n: "(let a = if off < pl_nat_byte_len s then pl_nat_byte_len s - off else 0 in if len < a then len else a) = n"
    by (auto simp: n_def Let_def)
  have sel: "(if length f = 4 then (case bat_size (f ! 2) of None \<Rightarrow> None | Some off \<Rightarrow>
      (case bat_size (f ! 3) of None \<Rightarrow> None | Some len \<Rightarrow> Some (off, len))) else Some (0, pl_nat_byte_len s)) = Some (off, len)"
    using assms(2) by auto
  have eq: "bat_leaf (\<lambda>_. True) c f =
      (case bat_span (\<lambda>_. True) c s off n 0 of None \<Rightarrow> None | Some c' \<Rightarrow> bat_span (\<lambda>_. True) c' (Direct 0) 0 (len - n) 0)"
    unfolding bat_leaf_def src Let_def pval.case sel option.case prod.case n[unfolded Let_def] ..
  have nl: "n \<le> len" by (simp add: n_def)
  let ?a = "if n = 0 then [] else [\<lparr>sp_source = s, sp_offset = off, sp_length = n, sp_byte = 0\<rparr>]"
  obtain k1 where k1: "bat_span (\<lambda>_. True) c s off n 0 = Some (ext c ?a k1)" "k1 \<le> 2 ^ 51"
    by (rule bat_span_opens[of c n s off 0]) (use assms nl in auto)
  have "c_length (ext c ?a k1) + (len - n) \<le> SIZE_MAX" "length (c_spans (ext c ?a k1)) + 1 \<le> 2 ^ 50"
    "c_capacity (ext c ?a k1) \<le> 2 ^ 51" using assms nl k1(2) by auto
  from bat_span_opens[OF this, of "Direct 0" 0 0] obtain k2 where
    "bat_span (\<lambda>_. True) (ext c ?a k1) (Direct 0) 0 (len - n) 0 = Some (ext c (leaf_spans s off len) k2)" "k2 \<le> 2 ^ 51"
    unfolding leaf_spans_def Let_def n_def[symmetric] by force
  then show thesis using that[of k2] eq k1(1) by simp
qed

definition room :: "bat_task list \<Rightarrow> nat \<Rightarrow> nat \<Rightarrow> bool" where
  "room st cap cap2 = (\<exists>cap1. bat_grow (\<lambda>_. True) cap (length st + 1) 48 = Some cap1 \<and>
     bat_grow (\<lambda>_. True) cap1 (length st + 2) 48 = Some cap2)"

lemma push2_room:
  assumes "length st + 2 \<le> 2 ^ 50" "cap \<le> 2 ^ 51"
  obtains cap2 where "room st cap cap2" "cap2 \<le> 2 ^ 51"
proof -
  have "length st + 1 \<le> 2 ^ 50" using assms(1) by simp
  from bat_grow_bound[OF this assms(2), of 48] obtain cap1 where
    c1: "bat_grow (\<lambda>_. True) cap (length st + 1) 48 = Some cap1" "cap1 \<le> 2 ^ 51" by auto
  from bat_grow_bound[OF assms(1) this(2), of 48] obtain cap2 where
    "bat_grow (\<lambda>_. True) cap1 (length st + 2) 48 = Some cap2" "cap2 \<le> 2 ^ 51" by auto
  with c1(1) that[of cap2] show thesis unfolding room_def by blast
qed

lemma crop_length: "length (bat_crop ss off len) \<le> length ss"
  by (induction ss off len rule: bat_crop.induct) (auto simp: Let_def intro: le_SucI)

lemma bytes_rows:
  "is_mote t ''cat'' \<Longrightarrow> bat_bytes (VApp need zero_val [t, x, y]) =
     (case (bat_bytes x, bat_bytes y) of (Some a, Some b) \<Rightarrow> Some (a @ b) | _ \<Rightarrow> None)"
  "is_mote t ''bat'' \<Longrightarrow> bat_bytes (VApp need zero_val [t, x, y]) = (case (bat_size x, bat_bytes y) of
     (Some len, Some b) \<Rightarrow> if length b = len then Some b else None | _ \<Rightarrow> None)"
  "is_mote t ''repeat'' \<Longrightarrow> bat_bytes (VApp need zero_val [t, x, y]) = (case (x, bat_size y) of
     (VNat b, Some len) \<Rightarrow> Some (replicate len (pl_nat_byte_at b 0)) | _ \<Rightarrow> None)"
  "is_mote t ''range'' \<Longrightarrow> bat_bytes (VApp need zero_val [t, x, y, z]) = (case (bat_bytes x, bat_size y, bat_size z) of
     (Some b, Some off, Some len) \<Rightarrow> if off + len \<le> length b then Some (take len (drop off b)) else None | _ \<Rightarrow> None)"
  "is_mote t ''slice'' \<Longrightarrow> bat_bytes (VApp need zero_val [t, x, y, z]) = (case (src_nat x, bat_size y, bat_size z) of
     (Some s, Some off, Some len) \<Rightarrow> Some (padded off len (nat_bytes s)) | _ \<Rightarrow> None)"
  "is_mote t ''text'' \<Longrightarrow> bat_bytes (VApp need zero_val [t, x]) = map_option nat_bytes (src_nat x)"
  by (subst bat_bytes.simps, auto simp: is_mote_def)+

lemma gross_rows:
  "is_mote t ''cat'' \<Longrightarrow> gross (VApp need zero_val [t, x, y]) = gross x + gross y"
  "is_mote t ''bat'' \<Longrightarrow> gross (VApp need zero_val [t, x, y]) = gross y"
  "is_mote t ''range'' \<Longrightarrow> gross (VApp need zero_val [t, x, y, z]) = gross x"
  by (subst gross.simps, auto simp: is_mote_def)+

lemma gross_leaf:
  assumes "bat_bytes (VApp need zero_val f) = Some bs" "\<And>t x y. f = [t, x, y] \<Longrightarrow> \<not> is_mote t ''cat'' \<and> \<not> is_mote t ''bat''"
    "\<And>t x y z. f = [t, x, y, z] \<Longrightarrow> \<not> is_mote t ''range''"
  shows "gross (VApp need zero_val f) = length bs"
  using assms by (subst gross.simps) (auto split: list.splits)

lemma opens_leaf:
  assumes "bat_node (\<lambda>_. True) c v (st, cap) = Some (ext c ss k, st, cap)" "length ss \<le> 2" "1 \<le> size v"
    "k \<le> 2 ^ 51" "cap \<le> 2 ^ 51" "length (span_cat ss) \<le> gross v"
  shows "opens_to c v st cap (span_cat ss)"
  unfolding opens_to_def loop_node assms(1)
  using assms(2-) by (intro exI[of _ ss] exI[of _ k] exI[of _ cap]) simp

lemma length_padded [simp]: "length (padded off len bs) = len"
  by (simp add: padded_def)

lemma leaf_spans_length: "length (leaf_spans s off len) \<le> 2"
  by (simp add: leaf_spans_def Let_def)

text \<open>One lemma per row: what its parts open to, it opens to.\<close>

lemma opens_cat:
  assumes "is_mote t ''cat''" "room st cap cap2" "opens_to c x (node_task y # st) cap2 a"
    "\<And>ss k cap3. a = span_cat ss \<Longrightarrow> length ss \<le> 2 * size x \<Longrightarrow> k \<le> 2 ^ 51 \<Longrightarrow> cap3 \<le> 2 ^ 51 \<Longrightarrow> length a \<le> gross x \<Longrightarrow>
      opens_to (ext c ss k) y st cap3 b"
  shows "opens_to c (VApp need zero_val [t, x, y]) st cap (a @ b)"
proof -
  obtain ss k cap3 where s: "bat_loop (\<lambda>_. True) c (node_task x # node_task y # st) cap2 =
      bat_loop (\<lambda>_. True) (ext c ss k) (node_task y # st) cap3" "a = span_cat ss" "length ss \<le> 2 * size x" "k \<le> 2 ^ 51"
      "cap3 \<le> 2 ^ 51" "length a \<le> gross x" using assms(3) by (auto simp: opens_to_def)
  obtain ts k' cap4 where t: "bat_loop (\<lambda>_. True) (ext c ss k) (node_task y # st) cap3 =
      bat_loop (\<lambda>_. True) (ext c (ss @ ts) k') st cap4" "b = span_cat ts" "length ts \<le> 2 * size y" "k' \<le> 2 ^ 51"
      "cap4 \<le> 2 ^ 51" "length b \<le> gross y" using assms(4)[OF s(2-6)] by (auto simp: opens_to_def)
  have "bat_node (\<lambda>_. True) c (VApp need zero_val [t, x, y]) (st, cap) = Some (c, node_task x # node_task y # st, cap2)"
    unfolding node_cat[OF assms(1)] using assms(2) by (auto simp: room_def)
  then have "bat_loop (\<lambda>_. True) c (node_task (VApp need zero_val [t, x, y]) # st) cap =
      bat_loop (\<lambda>_. True) (ext c (ss @ ts) k') st cap4"
    unfolding loop_node[of _ _ "VApp need zero_val [t, x, y]"] using s(1) t(1) by simp
  then show ?thesis unfolding opens_to_def gross_rows(1)[OF assms(1)] using s t
    by (intro exI[of _ "ss @ ts"] exI[of _ k'] exI[of _ cap4]) auto
qed

lemma opens_bat:
  assumes "is_mote t ''bat''" "room st cap cap2" "bat_size x = Some (length bs)"
    "opens_to c y (check_task c (length bs) # st) cap2 bs"
  shows "opens_to c (VApp need zero_val [t, x, y]) st cap bs"
proof -
  obtain ss k cap3 where s: "bat_loop (\<lambda>_. True) c (node_task y # check_task c (length bs) # st) cap2 =
      bat_loop (\<lambda>_. True) (ext c ss k) (check_task c (length bs) # st) cap3" "bs = span_cat ss" "length ss \<le> 2 * size y"
      "k \<le> 2 ^ 51" "cap3 \<le> 2 ^ 51" "length bs \<le> gross y" using assms(4) by (auto simp: opens_to_def)
  have "bat_node (\<lambda>_. True) c (VApp need zero_val [t, x, y]) (st, cap) = Some (c, node_task y # check_task c (length bs) # st, cap2)"
    unfolding node_bat[OF assms(1)] using assms(2,3) by (auto simp: room_def)
  then have "bat_loop (\<lambda>_. True) c (node_task (VApp need zero_val [t, x, y]) # st) cap = bat_loop (\<lambda>_. True) (ext c ss k) st cap3"
    unfolding loop_node[of _ _ "VApp need zero_val [t, x, y]"] using s(1,2) by (simp add: loop_check del: bat_loop.simps)
  then show ?thesis unfolding opens_to_def gross_rows(2)[OF assms(1)] using s
    by (intro exI[of _ ss] exI[of _ k] exI[of _ cap3]) auto
qed

lemma opens_range:
  assumes "is_mote t ''range''" "room st cap cap2" "bat_size y = Some off" "bat_size z = Some len" "off + len \<le> length b"
    "opens_to c x (crop_task c off len # st) cap2 b"
  shows "opens_to c (VApp need zero_val [t, x, y, z]) st cap (take len (drop off b))"
proof -
  obtain ss k cap3 where s: "bat_loop (\<lambda>_. True) c (node_task x # crop_task c off len # st) cap2 =
      bat_loop (\<lambda>_. True) (ext c ss k) (crop_task c off len # st) cap3" "b = span_cat ss" "length ss \<le> 2 * size x"
      "k \<le> 2 ^ 51" "cap3 \<le> 2 ^ 51" "length b \<le> gross x" using assms(6) by (auto simp: opens_to_def)
  have "bat_node (\<lambda>_. True) c (VApp need zero_val [t, x, y, z]) (st, cap) = Some (c, node_task x # crop_task c off len # st, cap2)"
    unfolding node_range[OF assms(1)] using assms(2-4) by (auto simp: room_def)
  then have "bat_loop (\<lambda>_. True) c (node_task (VApp need zero_val [t, x, y, z]) # st) cap =
      bat_loop (\<lambda>_. True) (ext c (bat_crop ss off len) k) st cap3"
    unfolding loop_node[of _ _ "VApp need zero_val [t, x, y, z]"] using s(1,2) assms(5)
    by (simp add: loop_crop del: bat_loop.simps)
  then show ?thesis unfolding opens_to_def gross_rows(3)[OF assms(1)] using s assms(5) crop_length[of ss off len]
    by (intro exI[of _ "bat_crop ss off len"] exI[of _ k] exI[of _ cap3]) (auto simp: crop_cat)
qed

text \<open>The rows without parts: \<open>repeat\<close>, \<open>text\<close> and \<open>slice\<close>.\<close>

lemma opens_source:
  assumes "is_mote (f ! 0) ''text'' \<and> length f = 2 \<or> is_mote (f ! 0) ''slice'' \<and> length f = 4" "src_nat (f ! 1) = Some s"
    "if length f = 4 then bat_size (f ! 2) = Some off \<and> bat_size (f ! 3) = Some len else off = 0 \<and> len = pl_nat_byte_len s"
    "gross (VApp need zero_val f) = len"
    "c_length c + len \<le> SIZE_MAX" "length (c_spans c) + 2 \<le> 2 ^ 50" "c_capacity c \<le> 2 ^ 51" "cap \<le> 2 ^ 51"
  shows "opens_to c (VApp need zero_val f) st cap (padded off len (nat_bytes s))"
proof -
  have nr: "\<not> (length f = 4 \<and> is_mote (f ! 0) ''range'')" using assms(1) by (auto dest: motes_distinct)
  obtain k where k: "bat_leaf (\<lambda>_. True) c f = Some (ext c (leaf_spans s off len) k)" "k \<le> 2 ^ 51"
    using leaf_opens[OF assms(2,3,5-7)] by blast
  have "bat_node (\<lambda>_. True) c (VApp need zero_val f) (st, cap) = Some (ext c (leaf_spans s off len) k, st, cap)"
    using assms(1) nr k(1) by (auto simp: bat_node_def Let_def)
  from opens_leaf[OF this leaf_spans_length _ k(2) assms(8)] show ?thesis using assms(4) by (simp add: leaf_spans_cat)
qed

lemma opens_end:
  assumes "bat_bytes (VApp need zero_val f) = Some bs"
    "\<And>t x y. f = [t, x, y] \<Longrightarrow> \<not> is_mote t ''cat'' \<and> \<not> is_mote t ''bat''" "\<And>t x y z. f = [t, x, y, z] \<Longrightarrow> \<not> is_mote t ''range''"
    "c_length c + length bs \<le> SIZE_MAX" "length (c_spans c) + 2 \<le> 2 ^ 50" "c_capacity c \<le> 2 ^ 51" "cap \<le> 2 ^ 51"
  shows "opens_to c (VApp need zero_val f) st cap bs"
proof -
  note g = gross_leaf[OF assms(1-3)]
  consider (rep) t x y where "f = [t, x, y]" "is_mote t ''repeat''"
    | (plain) t x where "f = [t, x]" "is_mote t ''text''" | (slice) t x y z where "f = [t, x, y, z]" "is_mote t ''slice''"
    using assms(1-3) unfolding bat_bytes.simps[of "VApp need zero_val f"] by (auto split: list.splits if_splits)
  then show ?thesis
  proof cases
    case rep
    obtain b len where ab: "x = VNat b" "bat_size y = Some len" "bs = replicate len (pl_nat_byte_at b 0)"
      using assms(1) rep by (auto simp: bytes_rows split: option.splits pval.splits)
    let ?ss = "if len = 0 then [] else [\<lparr>sp_source = Direct 0, sp_offset = 0, sp_length = len, sp_byte = pl_nat_byte_at b 0\<rparr>]"
    obtain k where k: "bat_span (\<lambda>_. True) c (Direct 0) 0 len (pl_nat_byte_at b 0) = Some (ext c ?ss k)" "k \<le> 2 ^ 51"
      by (rule bat_span_opens[of c len "Direct 0" 0 "pl_nat_byte_at b 0"]) (use assms ab in auto)
    have "span_cat ?ss = bs" using ab by (auto simp: span_bytes_def)
    then show ?thesis using opens_leaf[of c "VApp need zero_val f" st cap ?ss k] assms(2,7) rep ab g k
      by (simp add: bat_node_def)
  next
    case plain
    then obtain s where s: "src_nat x = Some s" "bs = nat_bytes s" using assms(1) by (auto simp: bytes_rows)
    then have "bs = padded 0 (pl_nat_byte_len s) (nat_bytes s)" by (simp add: padded_def)
    then show ?thesis using opens_source[of f s 0 "pl_nat_byte_len s" need c cap st] plain s g assms(4-7) by simp
  next
    case slice
    then obtain s off len where s: "src_nat x = Some s" "bat_size y = Some off" "bat_size z = Some len"
      "bs = padded off len (nat_bytes s)" using assms(1) by (auto simp: bytes_rows split: option.splits)
    have f: "f ! 0 = t" "f ! 1 = x" "f ! 2 = y" "f ! 3 = z" "length f = 4" using slice by (simp_all add: numeral_eq_Suc)
    show ?thesis using opens_source[of f s off len need c cap st] slice(2) s g assms(4-7) f by simp
  qed
qed

lemma loop_complete:
  "bat_bytes v = Some bs \<Longrightarrow> c_length c + gross v \<le> SIZE_MAX \<Longrightarrow> length st + size v + 1 \<le> 2 ^ 50 \<Longrightarrow>
    length (c_spans c) + 2 * size v \<le> 2 ^ 50 \<Longrightarrow> c_capacity c \<le> 2 ^ 51 \<Longrightarrow> cap \<le> 2 ^ 51 \<Longrightarrow> opens_to c v st cap bs"
proof (induction v arbitrary: c st cap bs rule: measure_induct_rule[of size])
  case (less v)
  obtain need f where v0: "v = VApp need zero_val f" using less.prems(1)
    by (auto simp: bat_bytes.simps[of v] split: pval.splits if_splits)
  have "length st + 2 \<le> 2 ^ 50" using less.prems(3) v0 by simp
  then obtain cap2 where r: "room st cap cap2" "cap2 \<le> 2 ^ 51" using push2_room less.prems(6) by blast
  consider (cat) t x y where "f = [t, x, y]" "is_mote t ''cat''" | (bat) t x y where "f = [t, x, y]" "is_mote t ''bat''"
    | (range) t x y z where "f = [t, x, y, z]" "is_mote t ''range''"
    | (ends) "\<And>t x y. f = [t, x, y] \<Longrightarrow> \<not> is_mote t ''cat'' \<and> \<not> is_mote t ''bat''" "\<And>t x y z. f = [t, x, y, z] \<Longrightarrow> \<not> is_mote t ''range''"
    by blast
  then show ?case
  proof cases
    case cat
    obtain a b where ab: "bat_bytes x = Some a" "bat_bytes y = Some b" "bs = a @ b"
      using less.prems(1) v0 cat by (auto simp: bytes_rows split: option.splits)
    have g: "gross v = gross x + gross y" "size x + size y + 1 \<le> size v" using v0 cat by (simp_all add: gross_rows)
    have "opens_to c x (node_task y # st) cap2 a" by (rule less.IH) (use g ab less.prems r(2) in auto)
    then show ?thesis unfolding v0 cat(1) ab(3)
      by (rule opens_cat[OF cat(2) r(1)]) (rule less.IH, use g ab less.prems in auto)
  next
    case bat
    then have ab: "bat_size x = Some (length bs)" "bat_bytes y = Some bs"
      using less.prems(1) v0 by (auto simp: bytes_rows split: option.splits if_splits)
    have g: "gross v = gross y" "size y + 1 \<le> size v" using v0 bat by (simp_all add: gross_rows)
    have "opens_to c y (check_task c (length bs) # st) cap2 bs" by (rule less.IH) (use g ab less.prems r(2) in auto)
    then show ?thesis unfolding v0 bat(1) by (rule opens_bat[OF bat(2) r(1) ab(1)])
  next
    case range
    obtain b off len where ab: "bat_bytes x = Some b" "bat_size y = Some off" "bat_size z = Some len" "off + len \<le> length b"
      "bs = take len (drop off b)" using less.prems(1) v0 range by (auto simp: bytes_rows split: option.splits if_splits)
    have g: "gross v = gross x" "size x + 1 \<le> size v" using v0 range by (simp_all add: gross_rows)
    have "opens_to c x (crop_task c off len # st) cap2 b" by (rule less.IH) (use g ab less.prems r(2) in auto)
    then show ?thesis unfolding v0 range(1) ab(5) by (rule opens_range[OF range(2) r(1) ab(2-4)])
  next
    case ends
    have "gross v = length bs" using gross_leaf[of need f bs] less.prems(1) ends v0 by blast
    then show ?thesis unfolding v0 by (intro opens_end) (use less.prems ends v0 in auto)
  qed
qed

lemma open_complete:
  assumes "bat_bytes v = Some bs" "gross v \<le> SIZE_MAX" "size v < 2 ^ 48"
  obtains ss k where "pl_bat_open (\<lambda>_. True) v = Some (ext bat_cursor0 ss k)" "span_cat ss = bs"
proof -
  obtain cap where cap: "bat_grow (\<lambda>_. True) 0 1 48 = Some cap" "cap \<le> 2 ^ 51" using bat_grow_bound[of 1 0 48] by auto
  have "opens_to bat_cursor0 v [] cap bs"
    by (rule loop_complete) (use assms cap(2) in \<open>simp_all add: bat_cursor0_def\<close>)
  then show thesis using that cap(1) by (auto simp: opens_to_def pl_bat_open_def bat_push_def)
qed

subsection \<open>Building a tree\<close>

text \<open>A tree the constructors return for a byte string.\<close>

definition holds :: "pval \<Rightarrow> bytes \<Rightarrow> bool" where
  "holds v bs = (bat_bytes v = Some bs \<and> gross v = length bs \<and> val_ok v \<and> bat_len_field v = Some (length bs))"

lemma bat_size_word: "n < 2 ^ 63 \<Longrightarrow> bat_size (VNat (Direct (word_of_nat n))) = Some n"
  by (simp add: bat_size_def pl_nat_limb_len_def unsigned_of_nat take_bit_eq_mod)

lemma bat_size_u64: "n < 2 ^ 64 \<Longrightarrow> bat_size (VNat (pl_mk_nat_u64 (word_of_nat n))) = Some n"
  by (simp add: bat_size_def pl_nat_limb_len_def pl_mk_nat_u64_def unsigned_of_nat take_bit_eq_mod)

lemma mk_nat_u64_ok: "nat_ok (pl_mk_nat_u64 w)"
  by (auto simp: pl_mk_nat_u64_def)

lemma mote_val_simps [simp]: "is_mote (mote_val s) s' \<longleftrightarrow> ax_s s = ax_s s'"
  by (simp add: is_mote_def mote_val_def)

lemma mote_ok:
  "val_ok (mote_val ''bat'')" "val_ok (mote_val ''cat'')" "val_ok (mote_val ''slice'')"
  by (simp_all add: mote_val_def PL_NAT63_MAX_def)

lemma padded_self: "padded 0 (length bs) (nat_bytes (nat_rep (bval bs))) = bs"
proof (rule nth_equalityI)
  fix i assume "i < length (padded 0 (length bs) (nat_bytes (nat_rep (bval bs))))"
  then have i: "i < length bs" by simp
  let ?n = "pl_nat_byte_len (nat_rep (bval bs))"
  have "?n \<le> length bs" unfolding byte_len_le_iff by (rule bval_less)
  then have p: "padded 0 (length bs) (nat_bytes (nat_rep (bval bs))) ! i =
      (if i < ?n then pl_nat_byte_at (nat_rep (bval bs)) i else 0)"
    using i by (simp add: padded_def nth_append nat_bytes_def)
  have "pl_nat_byte_at (nat_rep (bval bs)) i = bs ! i"
    using bval_nth[OF i] by (simp add: word_unat_eq_iff byte_at_rep)
  moreover have "bs ! i = 0" if "\<not> i < ?n"
  proof -
    have "bval bs < 256 ^ i" using that by (simp add: byte_len_le_iff[symmetric])
    then show ?thesis using bval_nth[OF i] by (simp add: word_unat_eq_iff)
  qed
  ultimately show "padded 0 (length bs) (nat_bytes (nat_rep (bval bs))) ! i = bs ! i" using p by simp
qed simp

lemma chunk_holds:
  assumes "length bs \<le> PL_BAT_CHUNK_BYTES"
  obtains v where "pl_bat_chunk bs = Inr v" "holds v bs" "size v \<le> 20"
proof -
  let ?n = "VNat (Direct (word_of_nat (length bs)))" and ?s = "VNat (nat_rep (bval bs))"
  let ?leaf = "VApp 0 zero_val [mote_val ''slice'', VPin None ?s, zero_val, ?n]"
  let ?v = "VApp 0 zero_val [mote_val ''bat'', ?n, ?leaf]"
  have l: "length bs < 8 * (2 ^ 20 - 1)" "length bs < 2 ^ 63" using assms by (simp_all add: PL_BAT_CHUNK_BYTES_def)
  note size = bat_size_word[OF l(2)]
  have nb: "nat_ok (nat_rep (bval bs))"
  proof -
    have "bval bs < 256 ^ (8 * (2 ^ 20 - 1))" using bval_less[of bs] l(1)
      by (elim order_less_le_trans) (rule power_increasing, simp_all)
    then have "nlimbs (bval bs) \<le> 2 ^ 20 - 1" unfolding nat_less_bytes .
    then show ?thesis unfolding nat_ok_nat_rep by simp
  qed
  have z: "bat_size zero_val = Some 0" using bat_size_word[of 0] by simp
  have leaf: "bat_bytes ?leaf = Some bs" using size z by (simp add: bytes_rows(5) padded_self)
  have "val_ok ?v" using nb l(2) mote_ok by (simp add: le_nat63 unsigned_of_nat take_bit_eq_mod)
  moreover have "bat_bytes ?v = Some bs" using leaf size by (simp add: bytes_rows(2))
  moreover have "gross ?v = length bs"
    using gross_leaf[of 0 "[mote_val ''slice'', VPin None ?s, zero_val, ?n]" bs] leaf by (simp add: gross_rows(2))
  moreover have "bat_len_field ?v = Some (length bs)" using size by (simp add: bat_len_field_def)
  moreover have "pl_bat_chunk bs = Inr ?v"
    using assms from_bytes_spec[OF l(1)] by (simp add: pl_bat_chunk_def Let_def bat_row_def mk_app_from_zero mk_row_def pl_pin_def)
  moreover have "size ?v \<le> 20" by (simp add: mote_val_def)
  ultimately show thesis by (intro that[of ?v]) (auto simp: holds_def)
qed

lemma join_holds:
  assumes "holds l a" "holds r b" "length a + length b \<le> SIZE_MAX"
  obtains v where "pl_bat_join l r = Inr v" "holds v (a @ b)" "size v \<le> size l + size r + 20"
proof -
  let ?n = "VNat (pl_mk_nat_u64 (word_of_nat (length a + length b)))"
  let ?cat = "VApp 0 zero_val [mote_val ''cat'', l, r]" and ?v = "VApp 0 zero_val [mote_val ''bat'', ?n, VApp 0 zero_val [mote_val ''cat'', l, r]]"
  have size: "bat_size ?n = Some (length a + length b)" using assms(3) by (intro bat_size_u64) simp
  have cat: "bat_bytes ?cat = Some (a @ b)" "gross ?cat = length a + length b"
    using assms(1,2) by (simp_all add: bytes_rows(1) gross_rows(1) holds_def)
  have "val_ok ?v" using assms mote_ok mk_nat_u64_ok by (simp add: holds_def)
  moreover have "bat_bytes ?v = Some (a @ b)" using cat size by (simp add: bytes_rows(2))
  moreover have "gross ?v = length (a @ b)" using cat by (simp add: gross_rows(2))
  moreover have "bat_len_field ?v = Some (length (a @ b))" using size by (simp add: bat_len_field_def)
  moreover have "pl_bat_join l r = Inr ?v"
    using assms by (simp add: pl_bat_join_def holds_def bat_row_def mk_app_from_zero mk_row_def rbind_assume)
  moreover have "size ?v \<le> size l + size r + 20" by (simp add: mote_val_def)
  ultimately show thesis by (intro that[of ?v]) (auto simp: holds_def)
qed

definition sizes :: "pval list \<Rightarrow> nat" where
  "sizes vs = sum_list (map size vs) + 20 * length vs"

lemma chunks_hold:
  "\<exists>vs bss. bat_chunks bs = Inr vs \<and> list_all2 holds vs bss \<and> concat bss = bs \<and> vs \<noteq> [] \<and>
     sizes vs \<le> 40 + 40 * (length bs div PL_BAT_CHUNK_BYTES)"
proof (induction bs rule: bat_chunks.induct)
  case (1 bs)
  define n where "n = (if length bs < PL_BAT_CHUNK_BYTES then length bs else PL_BAT_CHUNK_BYTES)"
  obtain v where v: "pl_bat_chunk (take n bs) = Inr v" "holds v (take n bs)" "size v \<le> 20"
    by (rule chunk_holds[of "take n bs"]) (auto simp: n_def)
  show ?case
  proof (cases "length bs - n = 0")
    case True
    then have "bat_chunks bs = Inr [v]" using v by (subst bat_chunks.simps) (simp add: Let_def n_def[symmetric])
    then show ?thesis using v True by (intro exI[of _ "[v]"] exI[of _ "[bs]"]) (simp add: sizes_def)
  next
    case False
    obtain vs bss where r: "bat_chunks (drop n bs) = Inr vs" "list_all2 holds vs bss" "concat bss = drop n bs"
      "sizes vs \<le> 40 + 40 * (length (drop n bs) div PL_BAT_CHUNK_BYTES)"
      using 1[OF n_def v(1) False] by auto
    have n: "n = PL_BAT_CHUNK_BYTES" "n \<le> length bs" "0 < n" using False by (auto simp: n_def PL_BAT_CHUNK_BYTES_def split: if_splits)
    then have "length bs div n = Suc (length (drop n bs) div n)" by (simp add: le_div_geq)
    moreover have "bat_chunks bs = Inr (v # vs)" using v r(1) False by (subst bat_chunks.simps) (simp add: Let_def n_def[symmetric])
    ultimately show ?thesis using v r n(1) by (intro exI[of _ "v # vs"] exI[of _ "take n bs # bss"]) (simp add: sizes_def)
  qed
qed

lemma pass_holds:
  assumes "list_all2 holds vs bss" "length (concat bss) \<le> SIZE_MAX"
  shows "\<exists>ws css. bat_pass vs = Inr ws \<and> list_all2 holds ws css \<and> concat css = concat bss \<and> sizes ws \<le> sizes vs"
  using assms
proof (induction vs arbitrary: bss rule: bat_pass.induct)
  case (2 v)
  then show ?case by (intro exI[of _ "[v]"] exI[of _ bss]) simp
next
  case (3 v w vs)
  then obtain a b bss' where b: "bss = a # b # bss'" "holds v a" "holds w b" "list_all2 holds vs bss'"
    by (auto simp: list_all2_Cons1)
  obtain j where j: "pl_bat_join v w = Inr j" "holds j (a @ b)" "size j \<le> size v + size w + 20"
    by (rule join_holds[OF b(2,3)]) (use 3(3) b(1) in simp)
  obtain ws css where "bat_pass vs = Inr ws" "list_all2 holds ws css" "concat css = concat bss'" "sizes ws \<le> sizes vs"
    using 3(1)[OF b(4)] 3(3) b(1) by auto
  then show ?case using b(1) j by (intro exI[of _ "j # ws"] exI[of _ "(a @ b) # css"]) (simp add: sizes_def)
qed simp

lemma rounds_hold:
  assumes "list_all2 holds vs bss" "length (concat bss) \<le> SIZE_MAX" "vs \<noteq> []"
  shows "\<exists>w. bat_rounds vs = Inr [w] \<and> holds w (concat bss) \<and> size w \<le> sizes vs"
  using assms
proof (induction vs arbitrary: bss rule: bat_rounds.induct)
  case (1 vs)
  show ?case
  proof (cases "1 < length vs")
    case True
    obtain ws css where w: "bat_pass vs = Inr ws" "list_all2 holds ws css" "concat css = concat bss" "sizes ws \<le> sizes vs"
      using pass_holds[OF 1(2,3)] by blast
    have "ws \<noteq> []" using length_bat_pass[OF w(1)] True by auto
    from 1(1)[OF True w(1,2) _ this] w 1(3) have "\<exists>x. bat_rounds ws = Inr [x] \<and> holds x (concat bss) \<and> size x \<le> sizes ws"
      by simp
    then show ?thesis using True w by (subst bat_rounds.simps) auto
  next
    case False
    then obtain v where "vs = [v]" using 1(4) by (cases vs) (auto simp: Suc_le_eq not_less)
    then show ?thesis using 1(2) by (subst bat_rounds.simps) (auto simp: list_all2_Cons1 sizes_def)
  qed
qed

lemma from_bytes_holds:
  assumes "length bs \<le> 2 ^ 60"
  obtains v where "pl_bat_from_bytes bs = Inr v" "holds v bs" "size v < 2 ^ 48"
proof -
  obtain vs bss where c: "bat_chunks bs = Inr vs" "list_all2 holds vs bss" "concat bss = bs" "vs \<noteq> []"
     "sizes vs \<le> 40 + 40 * (length bs div PL_BAT_CHUNK_BYTES)" using chunks_hold[of bs] by blast
  moreover have "length bs div PL_BAT_CHUNK_BYTES \<le> 2 ^ 60 div PL_BAT_CHUNK_BYTES" using assms by (rule div_le_mono)
  then have "length bs div PL_BAT_CHUNK_BYTES \<le> 2 ^ 40" by (simp add: PL_BAT_CHUNK_BYTES_def)
  ultimately have "sizes vs < 2 ^ 48" by simp
  moreover obtain w where "bat_rounds vs = Inr [w]" "holds w bs" "size w \<le> sizes vs"
    using rounds_hold[OF c(2) _ c(4)] c(3) assms by auto
  ultimately show thesis using that[of w] c(1) by (simp add: pl_bat_from_bytes_def)
qed

subsection \<open>Properties\<close>

lemma open_cursor:
  assumes "pl_bat_open can v = Some c" "val_ok v"
  obtains bs where "bat_bytes v = Some bs" "c_length c = length bs" "list_all span_ok (c_spans c)" "span_cat (c_spans c) = bs"
    "cur_ok c" "left c = bs"
proof (rule open_sound[OF assms])
  fix ss k assume s: "bat_bytes v = Some (span_cat ss)" "list_all span_ok ss" "c = ext bat_cursor0 ss k"
  moreover have "cur_ok c" "left c = span_cat ss" using s(2,3)
    by (auto simp: cur_ok_def left_def bat_cursor0_def list_all_length span_ok_def)
  ultimately show thesis by (intro that[of "span_cat ss"]) (simp_all add: bat_cursor0_def)
qed

text \<open>
  C35. A byte tree that opens denotes a byte string, the cursor knows its length, and seeking to an
  offset and reading returns exactly the bytes from there on, never past the memory of a source. This
  holds for every allocator: running out of memory can only make opening fail.
\<close>

theorem pl_bat_open_reads:
  assumes "pl_bat_open can v = Some c" "val_ok v"
  shows "\<exists>bs. bat_bytes v = Some bs \<and> c_length c = length bs \<and>
    (\<forall>off n. if off \<le> length bs
      then \<exists>c1 c2. pl_bat_seek c off = (True, c1) \<and> pl_bat_read c1 n = Inr (take n (drop off bs), c2)
      else pl_bat_seek c off = (False, c))"
proof (rule open_cursor[OF assms], intro exI conjI allI)
  fix bs off n
  assume b: "c_length c = length bs" "list_all span_ok (c_spans c)" "span_cat (c_spans c) = bs"
  have l: "c_length c = span_total (c_spans c)" using b(1,3) by (metis length_span_cat)
  show "if off \<le> length bs
      then \<exists>c1 c2. pl_bat_seek c off = (True, c1) \<and> pl_bat_read c1 n = Inr (take n (drop off bs), c2)
      else pl_bat_seek c off = (False, c)"
  proof (cases "off \<le> length bs")
    case True
    then obtain c1 where c1: "pl_bat_seek c off = (True, c1)" "cur_ok c1" "left c1 = drop off bs"
      using seek_spec[OF b(2) l, of off] b by metis
    then show ?thesis using True read_spec[OF c1(2), of n] by metis
  next
    case False
    then show ?thesis using b(1) by (simp add: pl_bat_seek_def)
  qed
qed auto

theorem pl_bat_open_reads_witness:
  "\<exists>c c1 c2. pl_bat_open (\<lambda>_. True) (VApp 0 zero_val [mote_val ''repeat'', VNat (Direct 7), VNat (Direct 3)]) = Some c \<and>
     pl_bat_seek c 1 = (True, c1) \<and> pl_bat_read c1 5 = Inr ([7, 7], c2)"
proof -
  let ?v = "VApp 0 zero_val [mote_val ''repeat'', VNat (Direct 7), VNat (Direct 3)]"
  have r: "replicate 3 (7 :: u8) = [7, 7, 7]" by (simp add: numeral_3_eq_3)
  have b: "bat_bytes ?v = Some [7, 7, 7]"
    using bat_size_word[of 3] by (simp add: bytes_rows(3) pl_nat_byte_at_def r)
  have "gross ?v = length [7, 7, 7 :: u8]" by (rule gross_leaf[OF b]) (auto simp: is_mote_def mote_val_def)
  then obtain c where c: "pl_bat_open (\<lambda>_. True) ?v = Some c"
    by (rule_tac open_complete[OF b]) (simp_all add: mote_val_def)
  have "val_ok ?v" by (simp add: mote_val_def PL_NAT63_MAX_def)
  from pl_bat_open_reads[OF c this] obtain bs where bs: "bat_bytes ?v = Some bs" "\<forall>off n. if off \<le> length bs
      then \<exists>c1 c2. pl_bat_seek c off = (True, c1) \<and> pl_bat_read c1 n = Inr (take n (drop off bs), c2)
      else pl_bat_seek c off = (False, c)" by blast
  then have "bs = [7, 7, 7]" using b by simp
  with bs(2)[rule_format, of 1 5] c show ?thesis by simp
qed

text \<open>
  C36. A tree built from at most \<open>2 ^ 60\<close> bytes opens again, if memory suffices, and reading it returns the bytes; when they are
  fewer than 8 times \<open>2 ^ 20 - 1\<close>, so that they fit a boxed nat, the result of \<open>StrTree\<close> on it is the nat of the bytes.
\<close>

theorem pl_bat_from_bytes_roundtrip:
  assumes "length bs \<le> 2 ^ 60"
  shows "\<exists>v c c'. pl_bat_from_bytes bs = Inr v \<and> pl_bat_open (\<lambda>_. True) v = Some c \<and>
    pl_bat_read c (length bs) = Inr (bs, c') \<and>
    (length bs < 8 * (2 ^ 20 - 1) \<longrightarrow> op_strtree (\<lambda>_. True) (\<lambda>_. True) [v] = ret_op (VNat (nat_rep (bval bs))))"
proof -
  obtain v where v: "pl_bat_from_bytes bs = Inr v" "holds v bs" "size v < 2 ^ 48" using from_bytes_holds[OF assms] .
  then obtain c where c: "pl_bat_open (\<lambda>_. True) v = Some c"
    using open_complete[of v bs] assms by (auto simp: holds_def)
  then obtain b: "c_length c = length bs" "cur_ok c" "left c = bs"
    using open_cursor[OF c] v(2) by (auto simp: holds_def)
  obtain c' where "pl_bat_read c (length bs) = Inr (bs, c')" using read_spec[OF b(2), of "length bs"] b(3) by auto
  moreover from this have "op_strtree (\<lambda>_. True) (\<lambda>_. True) [v] = ret_op (VNat (nat_rep (bval bs)))"
    if "length bs < 8 * (2 ^ 20 - 1)"
    using c b(1) that from_bytes_spec[OF that] by (simp add: op_strtree_def Let_def ret_op_def)
  ultimately show ?thesis using v(1) c by blast
qed

theorem pl_bat_from_bytes_roundtrip_witness:
  "\<exists>v. pl_bat_from_bytes [104, 105, 0] = Inr v \<and> op_strtree (\<lambda>_. True) (\<lambda>_. True) [v] = ret_op (VNat (Direct 26984))"
proof -
  have "nat_rep (bval [104, 105, 0]) = Direct 26984" by (simp add: nat_rep_def)
  then show ?thesis using pl_bat_from_bytes_roundtrip[of "[104, 105, 0]"] by auto
qed

lemma bateq_loop_spec:
  "cur_ok a \<Longrightarrow> cur_ok b \<Longrightarrow> length (left a) = length (left b) \<Longrightarrow> length (left a) < fuel \<Longrightarrow>
    bateq_loop fuel a b = Inr (Some (left a = left b))"
proof (induction fuel arbitrary: a b)
  case (Suc fuel)
  define n where "n = length (take 16384 (left a))"
  obtain a' where a': "pl_bat_read a 16384 = Inr (take 16384 (left a), a')" "cur_ok a'" "left a' = drop 16384 (left a)"
    using read_spec[OF Suc.prems(1)] .
  obtain b' where b': "pl_bat_read b n = Inr (take n (left b), b')" "cur_ok b'" "left b' = drop n (left b)"
    using read_spec[OF Suc.prems(2)] .
  show ?case
  proof (cases "left a = []")
    case True
    then show ?thesis using a' Suc.prems(3) by simp
  next
    case False
    have n: "0 < n" "n \<le> length (left b)" using False by (simp_all add: n_def Suc.prems(3)[symmetric])
    have "length (left a) - 16384 = length (left b) - n" using Suc.prems(3) by (simp add: n_def)
    then have r: "bateq_loop fuel a' b' = Inr (Some (left a' = left b'))"
      using Suc.prems(4) False a' b' n(1) by (intro Suc.IH) (auto simp: length_greater_0_conv[symmetric] simp del: length_greater_0_conv)
    have "left a = left b \<longleftrightarrow> take n (left a) = take n (left b) \<and> drop n (left a) = drop n (left b)"
      by (metis append_take_drop_id)
    moreover have "take n (left a) = take 16384 (left a)" "drop n (left a) = drop 16384 (left a)"
      by (simp_all add: n_def min_def)
    ultimately have "left a = left b \<longleftrightarrow> take 16384 (left a) = take n (left b) \<and> left a' = left b'"
      using a'(3) b'(3) by simp
    moreover have "bateq_loop (Suc fuel) a b =
        (if take 16384 (left a) = take n (left b) then bateq_loop fuel a' b' else Inr (Some False))"
      unfolding bateq_loop.simps a'(1) rbind_simps prod.case n_def[symmetric] b'(1) using n by simp
    ultimately show ?thesis using r by simp
  qed
qed simp

lemma bathash_loop_spec: "cur_ok c \<Longrightarrow> length (left c) < fuel \<Longrightarrow> bathash_loop fuel c fed = Inr (Some (fed @ left c))"
proof (induction fuel arbitrary: c fed)
  case (Suc fuel)
  obtain c' where c': "pl_bat_read c 16384 = Inr (take 16384 (left c), c')" "cur_ok c'" "left c' = drop 16384 (left c)"
    using read_spec[OF Suc.prems(1)] .
  show ?case
  proof (cases "left c = []")
    case False
    then have "length (left c') < fuel" using Suc.prems(2) c'(3) by (cases "left c") auto
    from Suc.IH[OF c'(2) this, of "fed @ take 16384 (left c)"] show ?thesis using False c' by simp
  qed (use c' in simp)
qed simp

text \<open>
  C37. \<open>BatEq\<close> on two trees that open decides whether they denote the same bytes, however the trees are
  cut, and \<open>BatHash\<close> is the hash of the bytes with a final byte 1; both end within their fuel.
\<close>

theorem op_bat_compare:
  assumes "pl_bat_open can x = Some a" "pl_bat_open can y = Some b" "val_ok x" "val_ok y" "\<forall>bs. length (sha bs) = 32"
  shows "op_bateq can [x, y] = ret_op (bool_val (bat_bytes x = bat_bytes y)) \<and>
    (\<exists>bs. bat_bytes x = Some bs \<and> op_bathash can sha [x] = ret_op (VNat (nat_rep (bval (sha bs @ [1])))))"
proof -
  obtain as where a: "bat_bytes x = Some as" "c_length a = length as" "cur_ok a" "left a = as"
    using open_cursor[OF assms(1,3)] by metis
  obtain bs where b: "bat_bytes y = Some bs" "c_length b = length bs" "cur_ok b" "left b = bs"
    using open_cursor[OF assms(2,4)] by metis
  have "op_bateq can [x, y] = ret_op (bool_val (as = bs))"
  proof (cases "length as = length bs")
    case True
    then have "bateq_loop (length as + 1) a b = Inr (Some (as = bs))" 
      using bateq_loop_spec[OF a(3) b(3), of "length as + 1"] a(4) b(4) by (simp del: bateq_loop.simps)
    then show ?thesis using True assms(1,2) a(2) b(2) by (simp add: op_bateq_def ret_op_def del: bateq_loop.simps)
  next
    case False
    then have "as \<noteq> bs" by blast
    then show ?thesis using False assms(1,2) a(2) b(2) by (simp add: op_bateq_def ret_op_def)
  qed
  moreover have "bathash_loop (length as + 1) a [] = Inr (Some as)" 
    using bathash_loop_spec[OF a(3), of "length as + 1"] a(4) by (simp del: bathash_loop.simps)
  then have "op_bathash can sha [x] = ret_op (VNat (nat_rep (bval (sha as @ [1]))))"
    using assms(1,5) a(2) from_bytes_spec[of "sha as @ [1]"] by (simp add: op_bathash_def ret_op_def del: bathash_loop.simps)
  ultimately show ?thesis using a(1) b(1) by simp
qed

theorem op_bat_compare_witness:
  "op_bateq (\<lambda>_. True) [VApp 0 zero_val [mote_val ''repeat'', VNat (Direct 7), VNat (Direct 1)],
     VApp 0 zero_val [mote_val ''text'', VNat (Direct 7)]] = ret_op (VNat (Direct 1))"
proof -
  let ?x = "VApp 0 zero_val [mote_val ''repeat'', VNat (Direct 7), VNat (Direct 1)]"
  let ?y = "VApp 0 zero_val [mote_val ''text'', VNat (Direct 7)]"
  have "pl_nat_byte_len (nat_rep 7) \<le> 1" "\<not> pl_nat_byte_len (nat_rep 7) \<le> 0" unfolding byte_len_le_iff by simp_all
  then have l: "pl_nat_byte_len (nat_rep 7) = 1" by simp
  have "nat_bytes (nat_rep 7) = [7]" unfolding nat_bytes_def l by (simp add: word_unat_eq_iff byte_at_rep)
  then have "nat_bytes (Direct 7) = [7]" by (simp add: nat_rep_def)
  then have b: "bat_bytes ?x = Some [7]" "bat_bytes ?y = Some [7]"
    using bat_size_word[of 1] by (simp_all add: bytes_rows(3,6) pl_nat_byte_at_def)
  have ok: "val_ok ?x" "val_ok ?y" by (simp_all add: mote_val_def PL_NAT63_MAX_def)
  have "gross ?x = length [7 :: u8]" by (rule gross_leaf[OF b(1)]) (auto simp: is_mote_def mote_val_def)
  then obtain c where c: "pl_bat_open (\<lambda>_. True) ?x = Some c"
    by (rule_tac open_complete[OF b(1)]) (simp_all add: mote_val_def)
  have "gross ?y = length [7 :: u8]" by (rule gross_leaf[OF b(2)]) auto
  then obtain d where d: "pl_bat_open (\<lambda>_. True) ?y = Some d"
    by (rule_tac open_complete[OF b(2)]) (simp_all add: mote_val_def)
  show ?thesis using op_bat_compare[OF c d ok, of "\<lambda>_. replicate 32 0"] b by (simp add: bool_val_def)
qed

end
