(* ===== verification/Eval_Heap.thy ===== *)
theory Eval_Heap
  imports Plan_Op_Table
begin

text \<open>
  The heap the evaluator works on. \<open>Plan_Value\<close> treats a value as a tree; the evaluator needs sharing
  and cycles, because thunks are updated in place and the environment of a law refers to itself. A
  value is a direct or boxed nat or a tagged reference, the heap is a list of objects, and the address
  of an object is its index: objects are allocated at the end and never moved. Collections
  (\<open>pl_gc_reserve\<close>) move objects without changing the graph and are left out; so are the allocation
  statistics. A boxed nat is never updated, so it is part of the value that refers to it.

  A reference to an object of another kind than its tag says cannot arise from the constructors; an
  access through one is \<open>HUndef\<close>. The functions here are those of \<open>value.h\<close>, \<open>build.h\<close> and \<open>build.c\<close>
  on this heap; the suffix \<open>_h\<close> tells them from their counterparts on words and on trees.
\<close>

subsection \<open>Values and objects\<close>

type_synonym addr = nat

datatype gval = GNat pnat | GApp addr | GLaw addr | GPin addr | GEnv addr | GDefer addr

abbreviation gzero :: gval where
  "gzero \<equiv> GNat (Direct 0)"

text \<open>
  Decoded bytecode. An instruction or operand is a word: a number, or a literal value. The overlays
  \<open>batch_ops\<close> and \<open>jit_ops\<close> repeat these instructions with other dispatch entries and are left out, as is
  the directory of law blocks, which the store serves.
\<close>

record pl_code =
  xc_ops :: "gval list"
  xc_strict_mask :: u64
  xc_strict_entry :: nat
  xc_max_var :: nat
  xc_arity :: nat

text \<open>Cell 6 of a canonical PIN.\<close>

datatype code_slot = Code_null | Code_none | Code_pending | Code_at pl_code

text \<open>
  Objects by kind. The first field of an APP, LAW or PIN is its flag \<open>PL_F_NORMAL\<close>. A PIN holds the
  flag \<open>PL_F_PIN_PROXY\<close>, its hash if the flag \<open>PL_F_PIN_HASHED\<close> is set, its body, the published target
  of a proxy and the code slot. A black hole keeps the environment of its thunk; the flag of a
  bytecode thunk is \<open>PL_F_HOLE\<close>.
\<close>

datatype obj =
    K_APP bool nat gval "gval list"
  | K_LAW bool u64 gval gval
  | K_PIN bool bool "bytes option" gval "addr option" code_slot
  | K_THUNK gval gval
  | K_ENV "gval list"
  | K_IND gval
  | K_BH gval
  | K_THKE bool u64 "gval list"

type_synonym heap = "obj list"

text \<open>Failures of an access: an invariant check that ends the process, an undefined access, an endless chain.\<close>

datatype hfault = HAbort string | HUndef | HEndless

type_synonym 'a hres = "hfault + 'a"

definition hget :: "heap \<Rightarrow> addr \<Rightarrow> obj hres" where
  "hget h a = (if a < length h then Inr (h ! a) else Inl HUndef)"

definition halloc :: "heap \<Rightarrow> obj \<Rightarrow> heap \<times> addr" where
  "halloc h ob = (h @ [ob], length h)"

fun gval_is_whnf :: "gval \<Rightarrow> bool" where
  "gval_is_whnf (GDefer a) = False"
| "gval_is_whnf _ = True"

fun gval_is_nat :: "gval \<Rightarrow> bool" where
  "gval_is_nat (GNat n) = True"
| "gval_is_nat _ = False"

fun gval_nat63 :: "gval \<Rightarrow> u64 option" where
  "gval_nat63 (GNat (Direct w)) = Some w"
| "gval_nat63 _ = None"

fun gcoerce :: "gval \<Rightarrow> pnat" where
  "gcoerce (GNat n) = n"
| "gcoerce _ = Direct 0"

definition gword :: "u64 \<Rightarrow> gval" where
  "gword w = GNat (pl_mk_nat_u64 w)"

definition gbool :: "bool \<Rightarrow> gval" where
  "gbool b = GNat (Direct (if b then 1 else 0))"

subsection \<open>Reading objects\<close>

definition law_at :: "heap \<Rightarrow> addr \<Rightarrow> (u64 \<times> gval \<times> gval) hres" where
  "law_at h a = rbind (hget h a) (\<lambda>ob. case ob of
     K_LAW nf ar name body \<Rightarrow> Inr (ar, name, body) | _ \<Rightarrow> Inl HUndef)"

definition app_at :: "heap \<Rightarrow> addr \<Rightarrow> (nat \<times> gval \<times> gval list) hres" where
  "app_at h a = rbind (hget h a) (\<lambda>ob. case ob of
     K_APP nf need head args \<Rightarrow> Inr (need, head, args) | _ \<Rightarrow> Inl HUndef)"

definition env_at :: "heap \<Rightarrow> gval \<Rightarrow> gval list hres" where
  "env_at h v = (case v of
     GEnv a \<Rightarrow> rbind (hget h a) (\<lambda>ob. case ob of K_ENV slots \<Rightarrow> Inr slots | _ \<Rightarrow> Inl HUndef)
   | _ \<Rightarrow> Inl HUndef)"

definition pl_pin_resolved_h :: "heap \<Rightarrow> addr \<Rightarrow> addr hres" where
  "pl_pin_resolved_h h a = rbind (hget h a) (\<lambda>ob. case ob of
     K_PIN nf proxy hash body target code \<Rightarrow>
       (if proxy then (case target of None \<Rightarrow> Inr a | Some c \<Rightarrow> Inr c) else Inr a)
   | _ \<Rightarrow> Inl HUndef)"

text \<open>The fields of the PIN an address resolves to: normal flag, proxy flag, hash, body and code.\<close>

definition pin_at :: "heap \<Rightarrow> addr \<Rightarrow> (bool \<times> bool \<times> bytes option \<times> gval \<times> code_slot) hres" where
  "pin_at h a = rbind (pl_pin_resolved_h h a) (\<lambda>c. rbind (hget h c) (\<lambda>ob. case ob of
     K_PIN nf proxy hash body target code \<Rightarrow> Inr (nf, proxy, hash, body, code) | _ \<Rightarrow> Inl HUndef))"

definition pl_pin_body_h :: "heap \<Rightarrow> addr \<Rightarrow> gval hres" where
  "pl_pin_body_h h a = rbind (pin_at h a) (\<lambda>(nf, proxy, hash, body, code). Inr body)"

definition pl_pin_code_h :: "heap \<Rightarrow> addr \<Rightarrow> pl_code option hres" where
  "pl_pin_code_h h a = rbind (pin_at h a) (\<lambda>(nf, proxy, hash, body, code).
     Inr (if proxy then None else (case code of Code_at c \<Rightarrow> Some c | _ \<Rightarrow> None)))"

definition pl_pin_hash_h :: "heap \<Rightarrow> gval \<Rightarrow> bytes option hres" where
  "pl_pin_hash_h h v = (case v of
     GPin a \<Rightarrow> rbind (hget h a) (\<lambda>ob. case ob of
       K_PIN nf proxy hash body target code \<Rightarrow>
         (if proxy then
            (case target of
               None \<Rightarrow> Inr None
             | Some c \<Rightarrow> rbind (hget h c) (\<lambda>ob'. case ob' of
                 K_PIN nf' proxy' hash' body' target' code' \<Rightarrow>
                   (if proxy' then Inl (HAbort ''resolved PIN proxy does not target a canonical PIN'') else Inr hash')
               | _ \<Rightarrow> Inl HUndef))
          else Inr hash)
     | _ \<Rightarrow> Inl HUndef)
   | _ \<Rightarrow> Inl (HAbort ''pl_pin_hash on a non-pin''))"

text \<open>The indirection loop; a cycle of indirections would not return, which is \<open>None\<close>.\<close>

partial_function (option) resolve_loop :: "heap \<Rightarrow> gval \<Rightarrow> gval hres option" where
  "resolve_loop h v = (case v of
     GDefer a \<Rightarrow> (case hget h a of
        Inr (K_IND w) \<Rightarrow> resolve_loop h w
      | Inr _ \<Rightarrow> Some (Inr v)
      | Inl f \<Rightarrow> Some (Inl f))
   | _ \<Rightarrow> Some (Inr v))"

declare resolve_loop.simps [code]

definition pl_resolve_h :: "heap \<Rightarrow> gval \<Rightarrow> gval hres" where
  "pl_resolve_h h v = (case resolve_loop h v of None \<Rightarrow> Inl HEndless | Some r \<Rightarrow> r)"

definition pl_arity_h :: "heap \<Rightarrow> gval \<Rightarrow> nat hres" where
  "pl_arity_h h v = (case v of
     GNat n \<Rightarrow> Inr 0
   | GLaw a \<Rightarrow> rbind (law_at h a) (\<lambda>(ar, name, body). Inr (unat ar))
   | GPin a \<Rightarrow> rbind (pl_pin_body_h h a) (\<lambda>body. case body of
        GLaw b \<Rightarrow> rbind (law_at h b) (\<lambda>(ar, name, body). Inr (unat ar))
      | _ \<Rightarrow> Inr 1)
   | GApp a \<Rightarrow> rbind (app_at h a) (\<lambda>(need, head, args). Inr need)
   | _ \<Rightarrow> Inl (HAbort ''pl_arity on a non-WHNF value''))"

definition pl_is_normal_h :: "heap \<Rightarrow> gval \<Rightarrow> bool hres" where
  "pl_is_normal_h h v = (case v of
     GNat n \<Rightarrow> Inr True
   | GPin a \<Rightarrow> rbind (pin_at h a) (\<lambda>(nf, proxy, hash, body, code). Inr nf)
   | GApp a \<Rightarrow> rbind (hget h a) (\<lambda>ob. case ob of K_APP nf need head args \<Rightarrow> Inr nf | _ \<Rightarrow> Inl HUndef)
   | GLaw a \<Rightarrow> rbind (hget h a) (\<lambda>ob. case ob of K_LAW nf ar name body \<Rightarrow> Inr nf | _ \<Rightarrow> Inl HUndef)
   | _ \<Rightarrow> Inr False)"

subsection \<open>Constructors\<close>

definition pl_need_after_h :: "heap \<Rightarrow> gval \<Rightarrow> nat \<Rightarrow> nat hres" where
  "pl_need_after_h h head n_args = rbind (pl_arity_h h head) (\<lambda>a.
     if a = 0 \<or> a \<le> n_args then Inr 0
     else if a - n_args < 2 ^ 20 then Inr (a - n_args)
     else Inl (HAbort ''app need exceeds meta width''))"

definition pl_mk_app_from_h :: "heap \<Rightarrow> gval \<Rightarrow> gval list \<Rightarrow> (heap \<times> gval) hres" where
  "pl_mk_app_from_h h head args =
     (if args = [] then Inl (HAbort ''empty app'')
      else rbind (pl_need_after_h h head (length args)) (\<lambda>need.
        Inr (h @ [K_APP False need head args], GApp (length h))))"

definition pl_mk_app_snoc_h :: "heap \<Rightarrow> gval \<Rightarrow> gval \<Rightarrow> (heap \<times> gval) hres" where
  "pl_mk_app_snoc_h h f x = (case f of
     GApp a \<Rightarrow> rbind (app_at h a) (\<lambda>(need, head, args).
       Inr (h @ [K_APP False (if need = 0 then 0 else need - 1) head (args @ [x])], GApp (length h)))
   | _ \<Rightarrow> rbind (pl_need_after_h h f 1) (\<lambda>need. Inr (h @ [K_APP False need f [x]], GApp (length h))))"

definition pl_mk_app_cat_h :: "heap \<Rightarrow> gval \<Rightarrow> gval list \<Rightarrow> (heap \<times> gval) hres" where
  "pl_mk_app_cat_h h f args =
     (if args = [] then Inl (HAbort ''empty cat'')
      else case f of
        GApp a \<Rightarrow> rbind (app_at h a) (\<lambda>(need, head, old).
          rbind (pl_need_after_h h head (length old + length args)) (\<lambda>need'.
            Inr (h @ [K_APP False need' head (old @ args)], GApp (length h))))
      | _ \<Rightarrow> pl_mk_app_from_h h f args)"

definition pl_mk_app_take_h :: "heap \<Rightarrow> gval \<Rightarrow> nat \<Rightarrow> (heap \<times> gval) hres" where
  "pl_mk_app_take_h h app n = (case app of
     GApp a \<Rightarrow> rbind (app_at h a) (\<lambda>(need, head, args).
       if 1 \<le> n \<and> n < length args then
         rbind (pl_need_after_h h head n) (\<lambda>need'. Inr (h @ [K_APP False need' head (take n args)], GApp (length h)))
       else Inl (HAbort ''bad app take''))
   | _ \<Rightarrow> Inl (HAbort ''bad app take''))"

definition pl_mk_law_h :: "heap \<Rightarrow> u64 \<Rightarrow> gval \<Rightarrow> gval \<Rightarrow> heap \<times> gval" where
  "pl_mk_law_h h arity name body = (h @ [K_LAW False arity name body], GLaw (length h))"

definition pl_mk_thunk_h :: "heap \<Rightarrow> gval \<Rightarrow> gval \<Rightarrow> heap \<times> gval" where
  "pl_mk_thunk_h h env expr = (h @ [K_THUNK env expr], GDefer (length h))"

definition pl_mk_thke_h :: "heap \<Rightarrow> u64 \<Rightarrow> gval list \<Rightarrow> heap \<times> gval" where
  "pl_mk_thke_h h bane args = (h @ [K_THKE False bane args], GDefer (length h))"

definition PL_BAN_FAST :: u64 where "PL_BAN_FAST = 1"
definition PL_BAN_SLOW :: u64 where "PL_BAN_SLOW = 2"
definition PL_BAN_PRIM :: u64 where "PL_BAN_PRIM = 3"
definition PL_BAN_PRIM_KNOWN :: u64 where "PL_BAN_PRIM_KNOWN = 4"
definition PL_BAN_MASK :: u64 where "PL_BAN_MASK = 7"
definition PL_BAN_NOUPD :: u64 where "PL_BAN_NOUPD = 8"

subsection \<open>Updates in place\<close>

definition pl_thunk_update_h :: "heap \<Rightarrow> gval \<Rightarrow> gval \<Rightarrow> heap hres" where
  "pl_thunk_update_h h v result = (case v of
     GDefer a \<Rightarrow> rbind (hget h a) (\<lambda>ob. case ob of
        K_THUNK env expr \<Rightarrow> Inr (h[a := K_IND result])
      | K_BH env \<Rightarrow> Inr (h[a := K_IND result])
      | _ \<Rightarrow> Inl (HAbort ''thunk_update on a non-thunk''))
   | _ \<Rightarrow> Inl HUndef)"

definition pl_thke_update_h :: "heap \<Rightarrow> gval \<Rightarrow> gval \<Rightarrow> heap hres" where
  "pl_thke_update_h h v result = (case v of
     GDefer a \<Rightarrow> rbind (hget h a) (\<lambda>ob. case ob of
        K_THKE hole bane args \<Rightarrow> Inr (h[a := K_IND result])
      | _ \<Rightarrow> Inl (HAbort ''thke_update on a non-thke''))
   | _ \<Rightarrow> Inl HUndef)"

definition pl_nf_writeback_h :: "heap \<Rightarrow> gval \<Rightarrow> nat \<Rightarrow> gval \<Rightarrow> heap hres" where
  "pl_nf_writeback_h h parent fld child = (case parent of
     GApp a \<Rightarrow> rbind (hget h a) (\<lambda>ob. case ob of
        K_APP nf need head args \<Rightarrow>
          Inr (h[a := (if fld = 0 then K_APP nf need child args else K_APP nf need head (args[fld - 1 := child]))])
      | _ \<Rightarrow> Inl HUndef)
   | GLaw a \<Rightarrow> rbind (hget h a) (\<lambda>ob. case ob of
        K_LAW nf ar name body \<Rightarrow> Inr (h[a := (if fld = 0 then K_LAW nf ar child body else K_LAW nf ar name child)])
      | _ \<Rightarrow> Inl HUndef)
   | GPin a \<Rightarrow> rbind (hget h a) (\<lambda>ob. case ob of
        K_PIN nf proxy hash body target code \<Rightarrow>
          (if proxy \<and> target = None \<and> fld = 0 then Inr (h[a := K_PIN nf proxy hash child target code])
           else Inl (HAbort ''nf_writeback on a resolved or canonical PIN''))
      | _ \<Rightarrow> Inl HUndef)
   | _ \<Rightarrow> Inl (HAbort ''nf_writeback on kind''))"

definition pl_nf_nfields_h :: "heap \<Rightarrow> gval \<Rightarrow> nat hres" where
  "pl_nf_nfields_h h v = (case v of
     GApp a \<Rightarrow> rbind (app_at h a) (\<lambda>(need, head, args). Inr (length args + 1))
   | GLaw a \<Rightarrow> Inr 2
   | GPin a \<Rightarrow> Inr 1
   | _ \<Rightarrow> Inr 0)"

definition pl_nf_field_h :: "heap \<Rightarrow> gval \<Rightarrow> nat \<Rightarrow> gval hres" where
  "pl_nf_field_h h v i = (case v of
     GApp a \<Rightarrow> rbind (app_at h a) (\<lambda>(need, head, args).
       if i = 0 then Inr head else if i - 1 < length args then Inr (args ! (i - 1)) else Inl HUndef)
   | GLaw a \<Rightarrow> rbind (law_at h a) (\<lambda>(ar, name, body).
       if i = 0 then Inr name else if i = 1 then Inr body else Inl HUndef)
   | GPin a \<Rightarrow> rbind (hget h a) (\<lambda>ob. case ob of
        K_PIN nf proxy hash body target code \<Rightarrow>
          (if proxy \<and> target = None \<and> i = 0 then Inr body
           else Inl (HAbort ''pl_nf_field on a resolved or canonical PIN''))
      | _ \<Rightarrow> Inl HUndef)
   | _ \<Rightarrow> Inl (HAbort ''pl_nf_field on tag''))"

text \<open>Setting \<open>PL_F_NORMAL\<close> in the header of the object a reference names (\<open>ret_nfobj\<close>).\<close>

definition mark_normal :: "heap \<Rightarrow> gval \<Rightarrow> heap hres" where
  "mark_normal h v =
     (let mark = (\<lambda>a. rbind (hget h a) (\<lambda>ob. case ob of
        K_APP nf need head args \<Rightarrow> Inr (h[a := K_APP True need head args])
      | K_LAW nf ar name body \<Rightarrow> Inr (h[a := K_LAW True ar name body])
      | K_PIN nf proxy hash body target code \<Rightarrow> Inr (h[a := K_PIN True proxy hash body target code])
      | _ \<Rightarrow> Inl HUndef)) in
      case v of GApp a \<Rightarrow> mark a | GLaw a \<Rightarrow> mark a | GPin a \<Rightarrow> mark a | _ \<Rightarrow> Inl HUndef)"

end
