(* ===== verification/Eval_Machine.thy ===== *)
theory Eval_Machine
  imports Eval_Heap
begin

text \<open>
  The reduction machine of \<open>pkg/plan/src/eval.c\<close>: the thread, its frames, and the parts of \<open>pl_run\<close> that
  do not run bytecode. \<open>pl_run\<close> is one function of labels and gotos; here every label is a definition
  that returns the label control goes to next, with the C locals that are live there, and the thread.
  A label reached inside the same C statement sequence without a goto back is a plain call.

  The frame stack is a list with the top frame first; the value stack and the update stack are lists
  from the bottom, so that an index of the C array is a list index, and the stack pointer is the
  length. Offsets are naturals: a stack never reaches \<open>2 ^ 32\<close> entries. The model is the build without
  Tracy and without native code, in which no \<open>PL_F_PROF\<close> frame exists. Pausing and resuming of
  profiling zones is output and is left out, as is the cache \<open>op_memo\<close> of \<open>pl_op_lookup\<close>.
\<close>

subsection \<open>Threads\<close>

datatype mframe =
    PL_F_UPDATE gval gval
  | PL_F_APPLY gval
  | PL_F_SEQ gval
  | PL_F_KAL gval
  | PL_F_KAPP gval gval nat nat
  | PL_F_OPENT u64
  | PL_F_OPARG nat nat nat nat
  | PL_F_OPDEEP nat nat nat nat
  | PL_F_NF
  | PL_F_NFOBJ gval nat
  | PL_F_EXEC gval nat nat pl_code nat nat
  | PL_F_EXECV gval nat nat pl_code nat nat
  | PL_F_UPD gval nat nat
  | PL_F_TRY nat u64
  | PL_F_JUDGE nat nat
  | PL_F_NIL
  | PL_F_APPLYN nat nat
  | PL_F_MEMO gval gval u64

text \<open>
  Fields in order: \<open>UPDATE\<close> thunk, expression; \<open>KAPP\<close> environment, expression, phase, \<open>argbase\<close>;
  \<open>OPARG\<close> and \<open>OPDEEP\<close> operation, \<open>argbase\<close>, \<open>argc\<close>, cursor; \<open>EXEC\<close> and \<open>EXECV\<close> environment (\<open>a\<close>), group
  base (\<open>b\<close>), \<open>argc\<close>, code, program counter, \<open>argbase\<close>; \<open>UPD\<close> first target, \<open>argbase\<close>, \<open>argc\<close>; \<open>TRY\<close>
  \<open>argbase\<close>, profile mark; \<open>JUDGE\<close> and \<open>APPLYN\<close> \<open>argbase\<close>, \<open>argc\<close>; \<open>MEMO\<close> function, argument, epoch.
\<close>

datatype pl_run_status = PL_RUN_DONE | PL_RUN_EXN | PL_RUN_YIELDED | PL_RUN_BLOCKED

datatype pl_resume_kind = PL_RES_EVAL | PL_RES_RETURN | PL_RES_RUN

record pl_thread =
  t_heap :: heap
  t_vs :: "gval list"
  t_fs :: "mframe list"
  t_us :: "gval list"
  t_exn :: gval
  t_exn_msg :: "string option"
  t_fuel :: u64
  t_centry :: nat
  t_suspendable :: bool
  t_pending_yield :: bool
  t_resume_kind :: pl_resume_kind
  t_status :: pl_run_status
  t_base_vsp :: nat
  t_base_fsp :: nat
  t_resume_val :: gval
  t_blocked_on :: gval
  t_result :: gval
  t_epoch :: u64
  t_profile_gen :: u64
  t_rplan :: bool
  t_memo :: "((bytes \<times> bytes) \<times> u64) list"

text \<open>A PLAN exception carries a value; a runtime error carries a message and is not catchable.\<close>

datatype exn = Exn_val gval | Exn_msg string

text \<open>The labels of \<open>pl_run\<close> with their live locals.\<close>

datatype ctl =
    C_eval gval
  | C_thke gval
  | C_ret gval
  | C_expr gval gval
  | C_exec
  | C_dispatch nat
  | C_fast_apply nat
  | C_judge nat nat "pl_code option"
  | C_judge_scan nat nat
  | C_op_args nat nat nat
  | C_oparg_next
  | C_opdeep_next
  | C_op_body_ready nat nat

text \<open>
  What a label does: go on, return from \<open>pl_run\<close>, raise (a \<open>longjmp\<close> to the handler), end the process
  with a failed check, access memory outside the model, or not return.
\<close>

datatype outcome =
    Goto ctl pl_thread
  | Stop pl_run_status pl_thread
  | Raised exn pl_thread
  | Crashed string
  | Undefined
  | Endless

datatype body_res = Body_val gval pl_thread | Body_raise exn pl_thread | Body_fault hfault

datatype hook_res = Hook_no pl_thread | Hook_yes gval pl_thread | Hook_raise exn pl_thread

text \<open>
  What the machine calls through a pointer or asks of the store: the bodies of the operations (by the
  name of the C function), the enter hook, the notification of an effect (\<open>rplan_effect_f\<close>), the
  record and replay seam (\<open>pl_io\<close>), compilation on demand and the table of
  law blocks (code, entry, arity).
\<close>

record cfg =
  cf_body :: "string \<Rightarrow> pl_thread \<Rightarrow> nat \<Rightarrow> body_res"
  cf_hook :: "(pl_thread \<Rightarrow> nat \<Rightarrow> nat \<Rightarrow> hook_res) option"
  cf_effect :: "(pl_thread \<Rightarrow> pl_thread) option"
  cf_io :: "(pl_thread \<Rightarrow> nat \<Rightarrow> nat \<Rightarrow> hook_res) option"
  cf_demand :: "heap \<Rightarrow> addr \<Rightarrow> heap \<times> pl_code option"
  cf_lawblk :: "heap \<Rightarrow> gval \<Rightarrow> (pl_code \<times> nat \<times> nat) option"

definition hk :: "'a hres \<Rightarrow> ('a \<Rightarrow> outcome) \<Rightarrow> outcome" where
  "hk r k = (case r of
     Inr x \<Rightarrow> k x
   | Inl (HAbort msg) \<Rightarrow> Crashed msg
   | Inl HUndef \<Rightarrow> Undefined
   | Inl HEndless \<Rightarrow> Endless)"

subsection \<open>Stacks\<close>

definition pl_vpush :: "gval \<Rightarrow> pl_thread \<Rightarrow> pl_thread" where
  "pl_vpush v t = t\<lparr>t_vs := t_vs t @ [v]\<rparr>"

definition vpushes :: "gval list \<Rightarrow> pl_thread \<Rightarrow> pl_thread" where
  "vpushes xs t = t\<lparr>t_vs := t_vs t @ xs\<rparr>"

definition pl_fpush :: "mframe \<Rightarrow> pl_thread \<Rightarrow> pl_thread" where
  "pl_fpush fr t = t\<lparr>t_fs := fr # t_fs t\<rparr>"

definition fpop :: "pl_thread \<Rightarrow> pl_thread" where
  "fpop t = t\<lparr>t_fs := tl (t_fs t)\<rparr>"

definition set_vsp :: "nat \<Rightarrow> pl_thread \<Rightarrow> pl_thread" where
  "set_vsp n t = t\<lparr>t_vs := take n (t_vs t)\<rparr>"

definition vslot :: "pl_thread \<Rightarrow> nat \<Rightarrow> gval hres" where
  "vslot t i = (if i < length (t_vs t) then Inr (t_vs t ! i) else Inl HUndef)"

definition vput :: "nat \<Rightarrow> gval \<Rightarrow> pl_thread \<Rightarrow> pl_thread hres" where
  "vput i v t = (if i < length (t_vs t) then Inr (t\<lparr>t_vs := (t_vs t)[i := v]\<rparr>) else Inl HUndef)"

definition set_heap :: "heap \<Rightarrow> pl_thread \<Rightarrow> pl_thread" where
  "set_heap h t = t\<lparr>t_heap := h\<rparr>"

lemmas stack_defs = pl_vpush_def vpushes_def pl_fpush_def fpop_def set_vsp_def set_heap_def

subsection \<open>Fuel\<close>

definition pl_yield_now :: "pl_thread \<Rightarrow> bool \<times> pl_thread" where
  "pl_yield_now t =
     (if t_suspendable t \<and> t_centry t = 0 then (True, t\<lparr>t_pending_yield := False\<rparr>)
      else if t_suspendable t then (False, t\<lparr>t_pending_yield := True, t_fuel := 1\<rparr>)
      else (False, t\<lparr>t_fuel := - 1\<rparr>))"

definition fuel_step :: "pl_thread \<Rightarrow> bool \<times> pl_thread" where
  "fuel_step t = (let t = t\<lparr>t_fuel := t_fuel t - 1\<rparr> in if t_fuel t = 0 then pl_yield_now t else (False, t))"

subsection \<open>Evaluation of deferred values\<close>

definition pl_push_thke_update :: "nat \<Rightarrow> gval \<Rightarrow> pl_thread \<Rightarrow> pl_thread hres" where
  "pl_push_thke_update base thke t =
     (case t_fs t of
        PL_F_UPD a argbase argc # fs \<Rightarrow>
          (if base < length (t_fs t) then
             (if \<not> argc < 2 ^ 32 - 1 then Inl (HAbort ''update chain is too large'')
              else if argc = 1 then
                Inr (t\<lparr>t_us := t_us t @ [thke], t_fs := PL_F_UPD a (length (t_us t)) 2 # fs\<rparr>)
              else if 2 \<le> argc \<and> argbase + argc - 1 = length (t_us t) then
                Inr (t\<lparr>t_us := t_us t @ [thke], t_fs := PL_F_UPD a argbase (argc + 1) # fs\<rparr>)
              else Inl (HAbort ''coalesced update stack is not a frame suffix''))
           else Inr (pl_fpush (PL_F_UPD thke 0 1) t))
      | _ \<Rightarrow> Inr (pl_fpush (PL_F_UPD thke 0 1) t))"

definition eval_go :: "nat \<Rightarrow> gval \<Rightarrow> pl_thread \<Rightarrow> outcome" where
  "eval_go base v t = (case v of
     GDefer a \<Rightarrow> hk (hget (t_heap t) a) (\<lambda>ob. case ob of
        K_IND w \<Rightarrow> Goto (C_eval w) t
      | K_BH env \<Rightarrow> Raised (Exn_msg ''<<loop>>'') t
      | K_THUNK env expr \<Rightarrow>
          Goto (C_expr env expr)
            (pl_fpush (PL_F_UPDATE v expr) (set_heap ((t_heap t)[a := K_BH env]) t))
      | K_THKE hole bane args \<Rightarrow>
          (if bane AND PL_BAN_NOUPD \<noteq> 0 then Goto (C_thke v) t
           else if hole then Raised (Exn_msg ''<<loop>>'') t
           else hk (pl_push_thke_update base v (set_heap ((t_heap t)[a := K_THKE True bane args]) t))
                  (\<lambda>t. Goto (C_thke v) t))
      | _ \<Rightarrow> Crashed ''EVAL: bad defer kind'')
   | _ \<Rightarrow> Goto (C_ret v) t)"

definition run_eval :: "nat \<Rightarrow> gval \<Rightarrow> pl_thread \<Rightarrow> outcome" where
  "run_eval base v t = (case fuel_step t of
     (True, t) \<Rightarrow> Stop PL_RUN_YIELDED (t\<lparr>t_resume_kind := PL_RES_EVAL, t_resume_val := v\<rparr>)
   | (False, t) \<Rightarrow> eval_go base v t)"

text \<open>Is the head a law of this arity? With the code of its pin, if it has any.\<close>

definition pl_exact_law :: "heap \<Rightarrow> gval \<Rightarrow> nat \<Rightarrow> (bool \<times> pl_code option) hres" where
  "pl_exact_law h head arity =
     (let law_has = (\<lambda>b. rbind (law_at h b) (\<lambda>(ar, name, body). Inr (unat ar = arity))) in
      case head of
        GPin a \<Rightarrow> rbind (pl_pin_code_h h a) (\<lambda>code. case code of
           Some c \<Rightarrow>
             (if xc_arity c \<noteq> 0 then Inr (xc_arity c = arity, code)
              else rbind (pl_pin_body_h h a) (\<lambda>body. case body of
                GLaw b \<Rightarrow> rbind (law_has b) (\<lambda>e. Inr (e, code)) | _ \<Rightarrow> Inr (False, code)))
         | None \<Rightarrow> rbind (pl_pin_body_h h a) (\<lambda>body. case body of
             GLaw b \<Rightarrow> rbind (law_has b) (\<lambda>e. Inr (e, None)) | _ \<Rightarrow> Inr (False, None)))
      | GLaw b \<Rightarrow> rbind (law_has b) (\<lambda>e. Inr (e, None))
      | _ \<Rightarrow> Inr (False, None))"

text \<open>The generic application of \<open>thke_slow\<close>: park the arguments under one frame and force the head.\<close>

definition thke_slow :: "gval list \<Rightarrow> pl_thread \<Rightarrow> outcome" where
  "thke_slow args t =
     (if length args = 1 then Goto (C_eval (args ! 0)) t
      else Goto (C_eval (args ! 0))
        (pl_fpush (PL_F_APPLYN (length (t_vs t) + 1) (length args - 1)) (vpushes (gzero # tl args) t)))"

text \<open>The opset of a pinned nat, for the primop entry.\<close>

definition pin_opset :: "heap \<Rightarrow> gval \<Rightarrow> u64 option hres" where
  "pin_opset h v = (case v of
     GPin a \<Rightarrow> rbind (pl_pin_body_h h a) (\<lambda>body. case body of
        GNat n \<Rightarrow> Inr (Some (pl_nat_u64_clamp n)) | _ \<Rightarrow> Inr None)
   | _ \<Rightarrow> Inr None)"

definition run_thke :: "gval \<Rightarrow> pl_thread \<Rightarrow> outcome" where
  "run_thke v t = (case v of
     GDefer a \<Rightarrow> hk (hget (t_heap t) a) (\<lambda>ob. case ob of
       K_THKE hole rawbane args \<Rightarrow>
         (let ban = rawbane AND PL_BAN_MASK in
          if args = [] then Raised (Exn_msg ''bad empty bytecode thunk'') t
          else if ban = PL_BAN_FAST then
            hk (pl_exact_law (t_heap t) (args ! 0) (length args - 1)) (\<lambda>(exact, jcode).
              if exact then Goto (C_judge (length (t_vs t)) (length args - 1) jcode) (vpushes args t)
              else thke_slow args t)
          else if ban = PL_BAN_PRIM_KNOWN then
            (case gval_nat63 (args ! 0) of
               None \<Rightarrow> Undefined
             | Some w \<Rightarrow>
                 let idx = unat w in
                 if \<not> idx < pl_nops then Undefined
                 else if 82 \<le> op_set_of (pl_ops ! idx) \<and> \<not> t_rplan t then
                   Raised (Exn_msg ''Not in RPLAN Mode'') t
                 else Goto (C_op_args idx (length (t_vs t) + 1) (length args - 1)) (vpushes args t))
          else if ban = PL_BAN_PRIM then
            hk (if length args = 2 then pin_opset (t_heap t) (args ! 0) else Inr None) (\<lambda>opset. case opset of
              Some opset \<Rightarrow> Goto (C_eval (args ! 1)) (pl_fpush (PL_F_OPENT opset) t)
            | None \<Rightarrow> thke_slow args t)
          else if ban = PL_BAN_SLOW then thke_slow args t
          else Crashed ''EVAL: bad bane'')
     | _ \<Rightarrow> Undefined)
   | _ \<Rightarrow> Undefined)"

subsection \<open>Law bodies\<close>

definition pl_kal1 :: "heap \<Rightarrow> gval \<Rightarrow> gval \<Rightarrow> (heap \<times> gval) hres" where
  "pl_kal1 h env expr = (case expr of
     GNat (Direct w) \<Rightarrow> rbind (env_at h env) (\<lambda>slots.
       if slots = [] then Inl HUndef
       else Inr (h, if unat w \<le> length slots - 1 then slots ! unat w else expr))
   | GApp a \<Rightarrow> rbind (app_at h a) (\<lambda>(need, head, args).
       Inr (if head = gzero \<and> length args = 1 then (h, args ! 0)
            else if head = gzero \<and> length args = 2 then pl_mk_thunk_h h env expr
            else (h, expr)))
   | _ \<Rightarrow> Inr (h, expr))"

definition run_expr :: "gval \<Rightarrow> gval \<Rightarrow> pl_thread \<Rightarrow> outcome" where
  "run_expr env expr t =
     (if \<not> gval_is_whnf expr then Goto (C_eval expr) (pl_fpush (PL_F_KAL env) t)
      else case expr of
        GNat (Direct w) \<Rightarrow> hk (env_at (t_heap t) env) (\<lambda>slots.
          if slots = [] then Undefined
          else if unat w \<le> length slots - 1 then Goto (C_eval (slots ! unat w)) t
          else Goto (C_ret expr) t)
      | GApp a \<Rightarrow> hk (app_at (t_heap t) a) (\<lambda>(need, head, args).
          if head = gzero \<and> length args = 1 then Goto (C_eval (args ! 0)) t
          else if head = gzero \<and> length args = 2 then
            (if gval_is_whnf (args ! 0) \<and> gval_is_whnf (args ! 1) then
               hk (pl_kal1 (t_heap t) env (args ! 1)) (\<lambda>(h1, xv).
               hk (pl_kal1 h1 env (args ! 0)) (\<lambda>(h2, fv).
                 Goto (C_eval fv) (pl_fpush (PL_F_APPLY xv) (set_heap h2 t))))
             else
               Goto (C_eval (args ! 1))
                 (pl_vpush gzero (pl_fpush (PL_F_KAPP env expr 0 (length (t_vs t))) t)))
          else Goto (C_ret expr) t)
      | _ \<Rightarrow> Goto (C_ret expr) t)"

subsection \<open>Entering a law\<close>

text \<open>The law behind a head that is a LAW or a pinned LAW.\<close>

definition pl_lawp :: "heap \<Rightarrow> gval \<Rightarrow> (u64 \<times> gval \<times> gval) hres" where
  "pl_lawp h head = (case head of
     GLaw a \<Rightarrow> law_at h a
   | GPin a \<Rightarrow> rbind (pl_pin_body_h h a) (\<lambda>body. case body of GLaw b \<Rightarrow> law_at h b | _ \<Rightarrow> Inl HUndef)
   | _ \<Rightarrow> Inl HUndef)"

definition pl_law_code :: "cfg \<Rightarrow> gval \<Rightarrow> pl_thread \<Rightarrow> (pl_thread \<times> pl_code option) hres" where
  "pl_law_code C law t = (case law of
     GPin a \<Rightarrow> rbind (pl_pin_resolved_h (t_heap t) a) (\<lambda>p. rbind (pin_at (t_heap t) p)
       (\<lambda>(nf, proxy, hash, body, code).
         if proxy then Inr (t, None)
         else case code of
           Code_at c \<Rightarrow> Inr (t, Some c)
         | Code_null \<Rightarrow> (case cf_demand C (t_heap t) p of (h, c) \<Rightarrow> Inr (set_heap h t, c))
         | _ \<Rightarrow> Inr (t, None)))
   | _ \<Rightarrow> Inr (t, None))"

text \<open>The loop over the strict arguments, in ascending order of the bits of the mask.\<close>

fun strict_loop :: "nat \<Rightarrow> nat \<Rightarrow> nat list \<Rightarrow> pl_thread \<Rightarrow> (pl_thread \<times> nat) hres" where
  "strict_loop entry args [] t = Inr (t, entry)"
| "strict_loop entry args (i # is) t = rbind (vslot t (args + i)) (\<lambda>v.
     if gval_is_whnf v then strict_loop entry args is t
     else rbind (pl_resolve_h (t_heap t) v) (\<lambda>w.
       if \<not> gval_is_whnf w then Inr (t, 0)
       else rbind (vput (args + i) w t) (\<lambda>t. strict_loop entry args is t)))"

definition pl_strict_entry :: "pl_code \<Rightarrow> nat \<Rightarrow> nat \<Rightarrow> pl_thread \<Rightarrow> (pl_thread \<times> nat) hres" where
  "pl_strict_entry code args argc t =
     (let m = xc_strict_mask code in
      if m = 0 \<or> (argc < 64 \<and> drop_bit argc m \<noteq> 0) then Inr (t, 0)
      else strict_loop (xc_strict_entry code) args (List.filter (\<lambda>i. bit m i) [0..<64]) t)"

definition run_fast_apply :: "nat \<Rightarrow> pl_thread \<Rightarrow> outcome" where
  "run_fast_apply hbase t =
     (let argc = length (t_vs t) - hbase - 1 in
      hk (vslot t hbase) (\<lambda>head. case head of
        GNat (Direct w) \<Rightarrow> Crashed ''ENTER: direct nat head''
      | GLaw a \<Rightarrow> Goto (C_judge hbase argc None) t
      | GPin a \<Rightarrow> hk (pl_pin_body_h (t_heap t) a) (\<lambda>body. case body of
          GNat n \<Rightarrow>
            (if argc \<noteq> 1 then Crashed ''pinned-nat arity must be 1''
             else hk (vslot t (hbase + 1)) (\<lambda>arg.
               Goto (C_eval arg) (pl_fpush (PL_F_OPENT (pl_nat_u64_clamp n)) (set_vsp hbase t))))
        | GLaw b \<Rightarrow> Goto (C_judge hbase argc None) t
        | _ \<Rightarrow> Raised (Exn_msg ''tried to run a pinned app or pinned pin'') t)
      | _ \<Rightarrow> Crashed ''ENTER: bad head tag''))"

text \<open>The stack-resident entry of compiled code.\<close>

definition enter_execv :: "pl_code \<Rightarrow> nat \<Rightarrow> nat \<Rightarrow> pl_thread \<Rightarrow> outcome" where
  "enter_execv scode hbase argc t =
     hk (pl_strict_entry scode (hbase + 1) argc t) (\<lambda>(t, k).
       Goto C_exec (pl_fpush (PL_F_EXECV gzero hbase (1 + argc) scode k (length (t_vs t))) t))"

text \<open>\<open>judge\<close> after the hook: a compiled entry without the chain, a law block, or the scan of the body.\<close>

definition judge_naive :: "nat \<Rightarrow> nat \<Rightarrow> pl_thread \<Rightarrow> outcome" where
  "judge_naive hbase argc t =
     hk (vslot t hbase) (\<lambda>head. hk (pl_lawp (t_heap t) head) (\<lambda>(ar, name, body).
       if unat ar \<noteq> argc then Crashed ''JUDGE: arity mismatch''
       else Goto (C_judge_scan hbase argc) (pl_vpush body t)))"

definition judge_block :: "cfg \<Rightarrow> nat \<Rightarrow> nat \<Rightarrow> pl_thread \<Rightarrow> outcome" where
  "judge_block C hbase argc t =
     hk (vslot t hbase) (\<lambda>head. case head of
        GLaw a \<Rightarrow> (case cf_lawblk C (t_heap t) head of
            Some (code, target, arity) \<Rightarrow>
              (if arity = argc then
                 Goto C_exec (pl_fpush (PL_F_EXECV gzero hbase (1 + argc) code target (hbase + 1)) t)
               else judge_naive hbase argc t)
          | None \<Rightarrow> judge_naive hbase argc t)
      | _ \<Rightarrow> judge_naive hbase argc t)"

definition judge_entry :: "cfg \<Rightarrow> nat \<Rightarrow> nat \<Rightarrow> pl_code option \<Rightarrow> pl_thread \<Rightarrow> outcome" where
  "judge_entry C hbase argc jcode t =
     hk (vslot t hbase) (\<lambda>head.
     hk (case jcode of Some c \<Rightarrow> Inr (t, Some c) | None \<Rightarrow> pl_law_code C head t) (\<lambda>(t, scode). case scode of
       Some c \<Rightarrow>
         (if xc_max_var c \<le> argc then
            (if xc_arity c = 0 \<or> xc_arity c = argc then enter_execv c hbase argc t
             else Crashed ''JUDGE: arity mismatch'')
          else judge_naive hbase argc t)
     | None \<Rightarrow> judge_block C hbase argc t))"

definition run_judge :: "cfg \<Rightarrow> nat \<Rightarrow> nat \<Rightarrow> pl_code option \<Rightarrow> pl_thread \<Rightarrow> outcome" where
  "run_judge C hbase argc jcode t = (case cf_hook C of
     None \<Rightarrow> judge_entry C hbase argc jcode t
   | Some hook \<Rightarrow> (case hook (t\<lparr>t_centry := t_centry t + 1\<rparr>) hbase argc of
        Hook_yes out t \<Rightarrow> Goto (C_eval out) (set_vsp hbase (t\<lparr>t_centry := t_centry t - 1\<rparr>))
      | Hook_no t \<Rightarrow> judge_entry C hbase argc None (t\<lparr>t_centry := t_centry t - 1\<rparr>)
      | Hook_raise e t \<Rightarrow> Raised e t))"

text \<open>
  The environment knot: the head, the arguments and one thunk per binding, over the environment that
  holds them. The thunks lie behind the environment they refer to.
\<close>

definition build_env :: "heap \<Rightarrow> gval list \<Rightarrow> gval list \<Rightarrow> heap \<times> gval" where
  "build_env h grp binds =
     (let env = GEnv (length h) in
      (h @ [K_ENV (grp @ map (\<lambda>j. GDefer (length h + 1 + j)) [0..<length binds])] @
         map (\<lambda>e. K_THUNK env e) binds, env))"

definition judge_finish :: "cfg \<Rightarrow> nat \<Rightarrow> nat \<Rightarrow> pl_thread \<Rightarrow> outcome" where
  "judge_finish C jbase jargc t =
     (let cursor = jbase + 1 + jargc;
          m = length (t_vs t) - cursor - 1 in
      hk (vslot t jbase) (\<lambda>head.
      hk (if m = 0 then pl_law_code C head t else Inr (t, None)) (\<lambda>(t, scode). case scode of
        Some c \<Rightarrow> enter_execv c jbase jargc (set_vsp cursor t)
      | None \<Rightarrow>
          hk (pl_law_code C head t) (\<lambda>(t, code).
          hk (case code of None \<Rightarrow> Inr (t, 0) | Some c \<Rightarrow> pl_strict_entry c (jbase + 1) jargc t) (\<lambda>(t, fast_k).
          hk (vslot t cursor) (\<lambda>expr.
            case build_env (t_heap t) (take (1 + jargc) (drop jbase (t_vs t))) (drop (cursor + 1) (t_vs t)) of
              (h, envv) \<Rightarrow>
                (let t' = set_vsp jbase (set_heap h t) in
                 case code of
                   Some c \<Rightarrow> Goto C_exec (pl_fpush (PL_F_EXEC envv 0 0 c fast_k jbase) t')
                 | None \<Rightarrow> Goto (C_expr envv expr) t')))))))"

definition run_judge_scan :: "cfg \<Rightarrow> nat \<Rightarrow> nat \<Rightarrow> pl_thread \<Rightarrow> outcome" where
  "run_judge_scan C jbase jargc t =
     (let cursor = jbase + 1 + jargc in
      hk (vslot t cursor) (\<lambda>b.
        if \<not> gval_is_whnf b then Goto (C_eval b) (pl_fpush (PL_F_JUDGE jbase jargc) t)
        else hk (case b of GApp a \<Rightarrow> rbind (app_at (t_heap t) a) (\<lambda>(need, head, args). Inr (head, args))
                 | _ \<Rightarrow> Inr (gzero, [])) (\<lambda>(head, args).
          if head = GNat (Direct 1) \<and> length args = 2 then
            hk (vput cursor (args ! 1) (pl_vpush (args ! 0) t)) (\<lambda>t. Goto (C_judge_scan jbase jargc) t)
          else judge_finish C jbase jargc t)))"

subsection \<open>Operations\<close>

definition op_args_ready :: "nat \<Rightarrow> nat \<Rightarrow> nat \<Rightarrow> pl_thread \<Rightarrow> outcome" where
  "op_args_ready op_idx op_base op_n t =
     (if op_deep (pl_ops ! op_idx) \<noteq> 0 then Goto C_opdeep_next (pl_fpush (PL_F_OPDEEP op_idx op_base op_n 0) t)
      else Goto (C_op_body_ready op_idx op_base) t)"

fun op_args_loop :: "nat \<Rightarrow> nat \<Rightarrow> nat \<Rightarrow> nat list \<Rightarrow> pl_thread \<Rightarrow> outcome" where
  "op_args_loop op_idx op_base op_n [] t = op_args_ready op_idx op_base op_n t"
| "op_args_loop op_idx op_base op_n (k # ks) t =
     (if \<not> bit (op_strict (pl_ops ! op_idx)) k then op_args_loop op_idx op_base op_n ks t
      else hk (vslot t (op_base + k)) (\<lambda>v.
        if \<not> gval_is_whnf v \<or> t_fuel t = 1 then
          Goto (C_eval v) (pl_fpush (PL_F_OPARG op_idx op_base op_n k) t)
        else op_args_loop op_idx op_base op_n ks (t\<lparr>t_fuel := t_fuel t - 1\<rparr>)))"

definition run_op_args :: "nat \<Rightarrow> nat \<Rightarrow> nat \<Rightarrow> pl_thread \<Rightarrow> outcome" where
  "run_op_args op_idx op_base op_n t = op_args_loop op_idx op_base op_n [0..<op_n] t"

text \<open>\<open>oparg_next\<close> works on the frame on top; the loop runs over the arguments from its cursor on.\<close>

fun oparg_loop :: "nat \<Rightarrow> nat \<Rightarrow> nat \<Rightarrow> nat list \<Rightarrow> pl_thread \<Rightarrow> outcome" where
  "oparg_loop op argbase argc [] t =
     (if op_deep (pl_ops ! op) \<noteq> 0 then Goto C_opdeep_next (pl_fpush (PL_F_OPDEEP op argbase argc 0) (fpop t))
      else Goto (C_op_body_ready op argbase) (fpop t))"
| "oparg_loop op argbase argc (k # ks) t =
     (if \<not> bit (op_strict (pl_ops ! op)) k then oparg_loop op argbase argc ks t
      else hk (vslot t (argbase + k)) (\<lambda>v.
        if t_fuel t = 1 \<or> \<not> gval_is_whnf v then
          Goto (C_eval v) (pl_fpush (PL_F_OPARG op argbase argc k) (fpop t))
        else oparg_loop op argbase argc ks (t\<lparr>t_fuel := t_fuel t - 1\<rparr>)))"

definition run_oparg_next :: "pl_thread \<Rightarrow> outcome" where
  "run_oparg_next t = (case t_fs t of
     PL_F_OPARG op argbase argc k # fs \<Rightarrow> oparg_loop op argbase argc [k..<argc] t
   | _ \<Rightarrow> Undefined)"

definition run_opdeep_next :: "pl_thread \<Rightarrow> outcome" where
  "run_opdeep_next t = (case t_fs t of
     PL_F_OPDEEP op argbase argc k # fs \<Rightarrow>
       (case List.filter (\<lambda>k. bit (op_deep (pl_ops ! op)) k) [k..<argc] of
          k' # ks \<Rightarrow> hk (vslot t (argbase + k')) (\<lambda>v.
            Goto (C_eval v) (pl_fpush PL_F_NF (pl_fpush (PL_F_OPDEEP op argbase argc k') (fpop t))))
        | [] \<Rightarrow> Goto (C_op_body_ready op argbase) (fpop t))
   | _ \<Rightarrow> Undefined)"

definition call_body :: "cfg \<Rightarrow> nat \<Rightarrow> nat \<Rightarrow> pl_thread \<Rightarrow> body_res" where
  "call_body C opi argbase t =
     (let d = pl_ops ! opi; run = cf_body C (op_fn d) in
      if op_set_of d = 82 \<and> \<not> op_coord d then
        (case cf_io C of
           None \<Rightarrow> run t argbase
         | Some io \<Rightarrow> (case io t opi argbase of
              Hook_yes r t \<Rightarrow> Body_val r t
            | Hook_no t \<Rightarrow> run t argbase
            | Hook_raise e t \<Rightarrow> Body_raise e t))
      else run t argbase)"

definition body_done :: "nat \<Rightarrow> nat \<Rightarrow> gval \<Rightarrow> pl_thread \<Rightarrow> outcome" where
  "body_done opi argbase r t =
     (let t = set_vsp (argbase - 1) (t\<lparr>t_centry := t_centry t - 1\<rparr>) in
      if op_coord (pl_ops ! opi) then
        (if 0 < t_centry t then
           (if t_suspendable t then Crashed ''coordination effect initiated in a C-entry region''
            else Raised (Exn_msg ''actor op with no executor'') t)
         else Stop PL_RUN_BLOCKED (t\<lparr>t_blocked_on := r\<rparr>))
      else if 1 < t_fuel t \<and> gval_is_whnf r then Goto (C_ret r) (t\<lparr>t_fuel := t_fuel t - 1\<rparr>)
      else Goto (C_eval r) t)"

definition run_op_body_ready :: "cfg \<Rightarrow> nat \<Rightarrow> nat \<Rightarrow> pl_thread \<Rightarrow> outcome" where
  "run_op_body_ready C opi argbase t =
     (let t1 = t\<lparr>t_centry := t_centry t + 1\<rparr>;
          t2 = (if 82 \<le> op_set_of (pl_ops ! opi) then t1\<lparr>t_epoch := t_epoch t1 + 1\<rparr> else t1);
          t3 = (case cf_effect C of Some f \<Rightarrow> if op_host (pl_ops ! opi) then f t2 else t2 | None \<Rightarrow> t2) in
      case call_body C opi argbase t3 of
        Body_val r t' \<Rightarrow> body_done opi argbase r t'
      | Body_raise e t' \<Rightarrow> Raised e t'
      | Body_fault f \<Rightarrow> hk (Inl f) (\<lambda>_ :: unit. Undefined))"

subsection \<open>Returning to a frame\<close>

definition ret_update :: "gval \<Rightarrow> gval \<Rightarrow> pl_thread \<Rightarrow> outcome" where
  "ret_update a v t = hk (pl_thunk_update_h (t_heap t) a v) (\<lambda>h. Goto (C_ret v) (fpop (set_heap h t)))"

fun update_chain :: "gval list \<Rightarrow> gval \<Rightarrow> heap \<Rightarrow> heap hres" where
  "update_chain [] v h = Inr h"
| "update_chain (u # us) v h = rbind (pl_thke_update_h h u v) (\<lambda>h. update_chain us v h)"

text \<open>The targets of a coalesced frame, last pushed first, the frame's own target at the end.\<close>

definition chain_targets :: "gval \<Rightarrow> nat \<Rightarrow> nat \<Rightarrow> gval list \<Rightarrow> gval list" where
  "chain_targets a argbase argc us = rev (take (argc - 1) (drop argbase us)) @ [a]"

definition ret_upd :: "gval \<Rightarrow> nat \<Rightarrow> nat \<Rightarrow> gval \<Rightarrow> pl_thread \<Rightarrow> outcome" where
  "ret_upd a argbase argc v t =
     (if argc = 1 then hk (pl_thke_update_h (t_heap t) a v) (\<lambda>h. Goto (C_ret v) (fpop (set_heap h t)))
      else if 2 \<le> argc \<and> argbase + argc - 1 = length (t_us t) then
        hk (update_chain (chain_targets a argbase argc (t_us t)) v (t_heap t)) (\<lambda>h.
          Goto (C_ret v) (fpop (set_heap h (t\<lparr>t_us := take argbase (t_us t)\<rparr>))))
      else Crashed ''coalesced update stack is not a frame suffix'')"

definition ret_kapp :: "gval \<Rightarrow> gval \<Rightarrow> nat \<Rightarrow> nat \<Rightarrow> gval \<Rightarrow> pl_thread \<Rightarrow> outcome" where
  "ret_kapp env expr k argbase v t =
     (if k = 0 then
        hk (pl_kal1 (t_heap t) env v) (\<lambda>(h, xv).
        hk (vput argbase xv (set_heap h t)) (\<lambda>t.
        hk (case expr of GApp a \<Rightarrow> app_at h a | _ \<Rightarrow> Inl HUndef) (\<lambda>(need, head, args).
          if args = [] then Undefined
          else Goto (C_eval (args ! 0)) (pl_fpush (PL_F_KAPP env expr 1 argbase) (fpop t)))))
      else
        hk (pl_kal1 (t_heap t) env v) (\<lambda>(h, fv).
        hk (vslot t argbase) (\<lambda>xv.
          Goto (C_eval fv) (pl_fpush (PL_F_APPLY xv) (fpop (set_vsp argbase (set_heap h t)))))))"

text \<open>Head and arguments of a value that is applied: of an APP its own, otherwise the value alone.\<close>

definition spine_of :: "heap \<Rightarrow> gval \<Rightarrow> gval list hres" where
  "spine_of h v = (case v of
     GApp a \<Rightarrow> rbind (app_at h a) (\<lambda>(need, head, args). Inr (head # args))
   | _ \<Rightarrow> Inr [v])"

definition ret_apply :: "gval \<Rightarrow> gval \<Rightarrow> pl_thread \<Rightarrow> outcome" where
  "ret_apply x v t =
     hk (pl_arity_h (t_heap t) v) (\<lambda>need.
       if need \<noteq> 1 then
         hk (pl_mk_app_snoc_h (t_heap t) v x) (\<lambda>(h, r). Goto (C_ret r) (fpop (set_heap h t)))
       else
         hk (spine_of (t_heap t) v) (\<lambda>sp.
           Goto (C_fast_apply (length (t_vs t))) (vpushes (sp @ [x]) (fpop t))))"

text \<open>The name of an operation as the lookup sees it: only nats name operations.\<close>

definition name_view :: "gval \<Rightarrow> pval" where
  "name_view v = (case v of GNat n \<Rightarrow> VNat n | _ \<Rightarrow> VOther 0)"

definition ret_opent :: "u64 \<Rightarrow> gval \<Rightarrow> pl_thread \<Rightarrow> outcome" where
  "ret_opent opset v t =
     hk (spine_of (t_heap t) v) (\<lambda>sp.
       let listbase = length (t_vs t);
           t' = vpushes sp (fpop t);
           argc = length sp - 1;
           idx = pl_op_lookup opset (name_view (hd sp)) argc in
       if 82 \<le> opset \<and> \<not> t_rplan t then Raised (Exn_msg ''Not in RPLAN Mode'') t'
       else if idx < 0 then Raised (Exn_msg ''no primop'') t'
       else Goto (C_op_args (nat idx) (listbase + 1) argc) t')"

definition ret_nf :: "gval \<Rightarrow> pl_thread \<Rightarrow> outcome" where
  "ret_nf v t =
     hk (pl_is_normal_h (t_heap t) v) (\<lambda>nf.
       if nf then Goto (C_ret v) (fpop t)
       else hk (pl_nf_field_h (t_heap t) v 0) (\<lambda>w.
         Goto (C_eval w) (pl_fpush PL_F_NF (pl_fpush (PL_F_NFOBJ v 0) (fpop t)))))"

definition ret_nfobj :: "gval \<Rightarrow> nat \<Rightarrow> gval \<Rightarrow> pl_thread \<Rightarrow> outcome" where
  "ret_nfobj a k v t =
     hk (pl_nf_writeback_h (t_heap t) a k v) (\<lambda>h.
     hk (pl_nf_nfields_h h a) (\<lambda>n.
       if k + 1 < n then
         hk (pl_nf_field_h h a (k + 1)) (\<lambda>w.
           Goto (C_eval w) (pl_fpush PL_F_NF (pl_fpush (PL_F_NFOBJ a (k + 1)) (fpop (set_heap h t)))))
       else hk (mark_normal h a) (\<lambda>h'. Goto (C_ret a) (fpop (set_heap h' t)))))"

definition ret_try :: "gval \<Rightarrow> pl_thread \<Rightarrow> outcome" where
  "ret_try v t = hk (pl_mk_app_from_h (t_heap t) gzero [v]) (\<lambda>(h, r). Goto (C_ret r) (fpop (set_heap h t)))"

definition pl_memo_record :: "bytes \<Rightarrow> bytes \<Rightarrow> u64 \<Rightarrow> pl_thread \<Rightarrow> pl_thread" where
  "pl_memo_record fh xh w t =
     (if map_of (t_memo t) (fh, xh) = None then t\<lparr>t_memo := ((fh, xh), w) # t_memo t\<rparr> else t)"

definition ret_memo :: "gval \<Rightarrow> gval \<Rightarrow> u64 \<Rightarrow> gval \<Rightarrow> pl_thread \<Rightarrow> outcome" where
  "ret_memo f x epoch v t =
     (case gval_nat63 v of
        Some w \<Rightarrow>
          (if epoch = t_epoch t then
             hk (pl_pin_hash_h (t_heap t) f) (\<lambda>fh. hk (pl_pin_hash_h (t_heap t) x) (\<lambda>xh.
               case (fh, xh) of
                 (Some fh, Some xh) \<Rightarrow> Goto (C_ret v) (fpop (pl_memo_record fh xh w t))
               | _ \<Rightarrow> Undefined))
           else Goto (C_ret v) (fpop t))
      | None \<Rightarrow> Goto (C_ret v) (fpop t))"

text \<open>
  \<open>ret_applyn\<close>: the excess arguments of an over-applied head wait in \<open>APPLY\<close> frames, the first of them
  on top; a partial application is spliced below the pending arguments. The frame is returned to with
  its arguments on top of the value stack; any other depth is outside the model.
\<close>

definition applyn_enter :: "nat \<Rightarrow> nat \<Rightarrow> gval \<Rightarrow> pl_thread \<Rightarrow> outcome" where
  "applyn_enter pbase a v t = (case v of
     GApp p \<Rightarrow> hk (app_at (t_heap t) p) (\<lambda>(need, head, args).
       Goto (C_fast_apply (pbase - 1))
         (t\<lparr>t_vs := take (pbase - 1) (t_vs t) @ head # args @ take a (drop pbase (t_vs t))\<rparr>))
   | GLaw p \<Rightarrow> hk (vput (pbase - 1) v t) (\<lambda>t. Goto (C_fast_apply (pbase - 1)) t)
   | GPin p \<Rightarrow> hk (vput (pbase - 1) v t) (\<lambda>t. Goto (C_fast_apply (pbase - 1)) t)
   | _ \<Rightarrow> Crashed ''APPLYN: bad head tag'')"

definition ret_applyn :: "nat \<Rightarrow> nat \<Rightarrow> gval \<Rightarrow> pl_thread \<Rightarrow> outcome" where
  "ret_applyn pbase m v t =
     (let pending = take m (drop pbase (t_vs t)) in
      if length (t_vs t) \<noteq> pbase + m \<or> pbase = 0 then Undefined
      else hk (pl_arity_h (t_heap t) v) (\<lambda>a.
        if a = 0 \<or> m < a then
          hk (pl_mk_app_cat_h (t_heap t) v pending) (\<lambda>(h, r).
            Goto (C_ret r) (fpop (set_vsp (pbase - 1) (set_heap h t))))
        else
          applyn_enter pbase a v
            (set_vsp (pbase + a) ((fpop t)\<lparr>t_fs := map PL_F_APPLY (drop a pending) @ tl (t_fs t)\<rparr>))))"

definition run_ret :: "nat \<Rightarrow> gval \<Rightarrow> pl_thread \<Rightarrow> outcome" where
  "run_ret base v t =
     (if length (t_fs t) = base then Stop PL_RUN_DONE (t\<lparr>t_result := v\<rparr>)
      else case t_fs t of
        [] \<Rightarrow> Undefined
      | fr # fs \<Rightarrow> (case fr of
          PL_F_UPDATE a b \<Rightarrow> ret_update a v t
        | PL_F_UPD a argbase argc \<Rightarrow> ret_upd a argbase argc v t
        | PL_F_KAL env \<Rightarrow> Goto (C_expr env v) (fpop t)
        | PL_F_KAPP env expr k argbase \<Rightarrow> ret_kapp env expr k argbase v t
        | PL_F_SEQ y \<Rightarrow> Goto (C_eval y) (fpop t)
        | PL_F_APPLY x \<Rightarrow> ret_apply x v t
        | PL_F_OPENT opset \<Rightarrow> ret_opent opset v t
        | PL_F_OPARG op argbase argc k \<Rightarrow>
            hk (vput (argbase + k) v t) (\<lambda>t.
              Goto C_oparg_next (pl_fpush (PL_F_OPARG op argbase argc (k + 1)) (fpop t)))
        | PL_F_OPDEEP op argbase argc k \<Rightarrow>
            hk (vput (argbase + k) v t) (\<lambda>t.
              Goto C_opdeep_next (pl_fpush (PL_F_OPDEEP op argbase argc (k + 1)) (fpop t)))
        | PL_F_NF \<Rightarrow> ret_nf v t
        | PL_F_NFOBJ a k \<Rightarrow> ret_nfobj a k v t
        | PL_F_EXEC env b argc code k argbase \<Rightarrow> Goto C_exec (pl_vpush v t)
        | PL_F_EXECV env b argc code k argbase \<Rightarrow> Goto C_exec (pl_vpush v t)
        | PL_F_TRY argbase mark \<Rightarrow> ret_try v t
        | PL_F_JUDGE jbase jargc \<Rightarrow>
            hk (vput (jbase + 1 + jargc) v (fpop t)) (\<lambda>t. Goto (C_judge_scan jbase jargc) t)
        | PL_F_NIL \<Rightarrow> Goto (C_ret (gbool (v = gzero))) (fpop t)
        | PL_F_MEMO f x epoch \<Rightarrow> ret_memo f x epoch v t
        | PL_F_APPLYN pbase m \<Rightarrow> ret_applyn pbase m v t))"

end
