(* ===== verification/Eval_Exec.thy ===== *)
theory Eval_Exec
  imports Eval_Machine
begin

text \<open>
  The bytecode interpreter of \<open>pl_run\<close>, one definition per instruction. The program counter is the
  local \<open>xpc\<close>, behind the opcode when a handler starts; the frame holds a copy that is brought up to
  date where the code does it (\<open>XSYNC\<close>). The construction batches (\<open>OP_BUILD\<close>) reserve heap cells ahead
  and run the same instructions, so with an unbounded heap they are the instructions themselves.
  The decoder is trusted with the operands: a fetch outside the code, a literal where a number is
  expected and an operation index outside the table are \<open>Undefined\<close>. So is an argument count for which the 32-bit sum of
  the operand check wraps to 0.
\<close>

subsection \<open>The execution frame\<close>

record xframe =
  x_v :: bool
  x_a :: gval
  x_b :: nat
  x_argc :: nat
  x_code :: pl_code
  x_k :: nat
  x_argbase :: nat

definition top_exec :: "pl_thread \<Rightarrow> xframe option" where
  "top_exec t = (case t_fs t of
     PL_F_EXEC a b argc code k argbase # fs \<Rightarrow>
       Some \<lparr>x_v = False, x_a = a, x_b = b, x_argc = argc, x_code = code, x_k = k, x_argbase = argbase\<rparr>
   | PL_F_EXECV a b argc code k argbase # fs \<Rightarrow>
       Some \<lparr>x_v = True, x_a = a, x_b = b, x_argc = argc, x_code = code, x_k = k, x_argbase = argbase\<rparr>
   | _ \<Rightarrow> None)"

definition exec_frame :: "xframe \<Rightarrow> mframe" where
  "exec_frame fr = (if x_v fr then PL_F_EXECV else PL_F_EXEC)
     (x_a fr) (x_b fr) (x_argc fr) (x_code fr) (x_k fr) (x_argbase fr)"

definition XSYNC :: "xframe \<Rightarrow> nat \<Rightarrow> pl_thread \<Rightarrow> pl_thread" where
  "XSYNC fr pc t = pl_fpush (exec_frame (fr\<lparr>x_k := pc\<rparr>)) (fpop t)"

definition xword :: "xframe \<Rightarrow> nat \<Rightarrow> gval hres" where
  "xword fr pc = (if pc < length (xc_ops (x_code fr)) then Inr (xc_ops (x_code fr) ! pc) else Inl HUndef)"

definition xnum :: "xframe \<Rightarrow> nat \<Rightarrow> nat hres" where
  "xnum fr pc = rbind (xword fr pc) (\<lambda>v. case gval_nat63 v of Some w \<Rightarrow> Inr (unat w) | None \<Rightarrow> Inl HUndef)"

text \<open>
  An operand read into a 32-bit variable keeps its low half. An operand that is only compared may be any word;
  a word that is not a direct nat is at least \<open>2 ^ 63\<close>.
\<close>

definition xu32 :: "xframe \<Rightarrow> nat \<Rightarrow> nat hres" where
  "xu32 fr pc = rbind (xnum fr pc) (\<lambda>n. Inr (n mod 2 ^ 32))"

definition xcount :: "xframe \<Rightarrow> nat \<Rightarrow> nat hres" where
  "xcount fr pc = rbind (xword fr pc) (\<lambda>v. Inr (case gval_nat63 v of Some w \<Rightarrow> unat w | None \<Rightarrow> 2 ^ 63))"

definition underflow :: "pl_thread \<Rightarrow> outcome" where
  "underflow t = Raised (Exn_msg ''bytecode stack underflow'') t"

text \<open>Operands of the current frame on the value stack.\<close>

definition operands :: "xframe \<Rightarrow> pl_thread \<Rightarrow> nat" where
  "operands fr t = length (t_vs t) - x_argbase fr"

definition peek :: "nat \<Rightarrow> pl_thread \<Rightarrow> gval list" where
  "peek n t = drop (length (t_vs t) - n) (t_vs t)"

definition pl_vreplace :: "nat \<Rightarrow> gval \<Rightarrow> pl_thread \<Rightarrow> pl_thread" where
  "pl_vreplace n r t = pl_vpush r (set_vsp (length (t_vs t) - n) t)"

text \<open>Where the result of the frame goes: the whole group of a stack-resident entry, or the operand base.\<close>

definition xbase :: "xframe \<Rightarrow> nat" where
  "xbase fr = (if x_v fr then x_b fr else x_argbase fr)"

subsection \<open>Pushing\<close>

definition x_push_var :: "xframe \<Rightarrow> nat \<Rightarrow> pl_thread \<Rightarrow> outcome" where
  "x_push_var fr pc t = hk (xcount fr pc) (\<lambda>slot.
     if x_argc fr \<noteq> 0 then
       (if x_argc fr \<le> slot then Raised (Exn_msg ''exec: variable out of range'') t
        else hk (vslot t (x_b fr + slot)) (\<lambda>v. Goto (C_dispatch (pc + 1)) (pl_vpush v t)))
     else hk (env_at (t_heap t) (x_a fr)) (\<lambda>slots.
       if length slots \<le> slot then Raised (Exn_msg ''exec: variable out of range'') t
       else Goto (C_dispatch (pc + 1)) (pl_vpush (slots ! slot) t)))"

definition x_push_lit :: "xframe \<Rightarrow> nat \<Rightarrow> pl_thread \<Rightarrow> outcome" where
  "x_push_lit fr pc t = hk (xword fr pc) (\<lambda>v. Goto (C_dispatch (pc + 1)) (pl_vpush v t))"

definition x_push_slot :: "xframe \<Rightarrow> nat \<Rightarrow> pl_thread \<Rightarrow> outcome" where
  "x_push_slot fr pc t = hk (xcount fr pc) (\<lambda>slot.
     if operands fr t \<le> slot then Raised (Exn_msg ''exec: slot out of range'') t
     else hk (vslot t (x_argbase fr + slot)) (\<lambda>v. Goto (C_dispatch (pc + 1)) (pl_vpush v t)))"

subsection \<open>Thunks and applications\<close>

definition PL_SPEC_NONE :: nat where "PL_SPEC_NONE = 0"
definition PL_SPEC_BODY :: nat where "PL_SPEC_BODY = 15"

text \<open>Cheap eagerness on direct nats: the result, if the operation is one of the list and the result is direct.\<close>

definition spec_nat :: "nat \<Rightarrow> u64 \<Rightarrow> u64 \<Rightarrow> u64 option" where
  "spec_nat spec x y =
     (let direct = (\<lambda>r. if r \<le> PL_NAT63_MAX then Some r else None);
          truth = (\<lambda>b. Some (if b then 1 else 0)) in
      if spec = 1 then direct (x + y)
      else if spec = 2 then Some (if y < x then x - y else 0)
      else if spec = 3 then (if unat x * unat y < 2 ^ 64 then direct (x * y) else None)
      else if spec = 4 then (if x < PL_NAT63_MAX then Some (x + 1) else None)
      else if spec = 5 then Some (if x = 0 then 0 else x - 1)
      else if spec = 6 then truth (x = y)
      else if spec = 7 then truth (x \<noteq> y)
      else if spec = 8 then truth (x < y)
      else if spec = 9 then truth (x \<le> y)
      else if spec = 10 then truth (y < x)
      else if spec = 11 then truth (y \<le> x)
      else if spec = 12 then Some (if x < y then 0 else if x = y then 1 else 2)
      else if spec = 13 then truth (x = 0)
      else if spec = 14 then truth (x \<noteq> 0)
      else None)"

text \<open>The strict operands of a field read, resolved in place: are all of them values?\<close>

fun spec_ready :: "nat \<Rightarrow> nat \<Rightarrow> nat list \<Rightarrow> pl_thread \<Rightarrow> (pl_thread \<times> bool) hres" where
  "spec_ready idx ab [] t = Inr (t, True)"
| "spec_ready idx ab (k # ks) t =
     (if \<not> bit (op_strict (pl_ops ! idx)) k then spec_ready idx ab ks t
      else rbind (vslot t (ab + k)) (\<lambda>w.
        if gval_is_whnf w then spec_ready idx ab ks t
        else rbind (pl_resolve_h (t_heap t) w) (\<lambda>w'.
          if gval_is_whnf w' then rbind (vput (ab + k) w' t) (\<lambda>t. spec_ready idx ab ks t)
          else Inr (t, False))))"

definition mk_known :: "nat \<Rightarrow> u64 \<Rightarrow> nat \<Rightarrow> pl_thread \<Rightarrow> pl_thread \<times> gval" where
  "mk_known idx rawbane argc t =
     (let bane = (if rawbane AND PL_BAN_NOUPD \<noteq> 0 then PL_BAN_PRIM_KNOWN OR PL_BAN_NOUPD else PL_BAN_PRIM_KNOWN);
          (h, thke) = pl_mk_thke_h (t_heap t) bane (GNat (Direct (word_of_nat idx)) # peek argc t) in
      (set_heap h t, thke))"

definition mk_thk_known :: "nat \<Rightarrow> u64 \<Rightarrow> nat \<Rightarrow> nat \<Rightarrow> pl_thread \<Rightarrow> outcome" where
  "mk_thk_known idx rawbane argc pc t =
     (case mk_known idx rawbane argc t of (t', thke) \<Rightarrow> Goto (C_dispatch pc) (pl_vreplace argc thke t'))"

definition mk_thk_spec :: "nat \<Rightarrow> u64 \<Rightarrow> nat \<Rightarrow> nat \<Rightarrow> nat \<Rightarrow> pl_thread \<Rightarrow> outcome" where
  "mk_thk_spec idx rawbane argc spec pc t =
     (let ab = length (t_vs t) - argc in
      hk (vslot t ab) (\<lambda>a0.
      hk (pl_resolve_h (t_heap t) a0) (\<lambda>x.
      hk (if 1 < argc then rbind (vslot t (ab + 1)) (pl_resolve_h (t_heap t)) else Inr gzero) (\<lambda>y.
        case (gval_nat63 x, gval_nat63 y) of
          (Some x, Some y) \<Rightarrow> (case spec_nat spec x y of
             Some r \<Rightarrow> Goto (C_dispatch pc) (pl_vreplace argc (GNat (Direct r)) t)
           | None \<Rightarrow> mk_thk_known idx rawbane argc pc t)
        | _ \<Rightarrow> mk_thk_known idx rawbane argc pc t))))"

definition mk_thk_body :: "cfg \<Rightarrow> nat \<Rightarrow> u64 \<Rightarrow> nat \<Rightarrow> nat \<Rightarrow> pl_thread \<Rightarrow> outcome" where
  "mk_thk_body C idx rawbane argc pc t =
     hk (spec_ready idx (length (t_vs t) - argc) [0..<argc] t) (\<lambda>(t, ready).
       if ready then
         (case cf_body C (op_fn (pl_ops ! idx)) t (length (t_vs t) - argc) of
            Body_val r t' \<Rightarrow> Goto (C_dispatch pc) (pl_vreplace argc r t')
          | Body_raise e t' \<Rightarrow> Raised e t'
          | Body_fault f \<Rightarrow> hk (Inl f) (\<lambda>_ :: unit. Undefined))
       else mk_thk_spec idx rawbane argc PL_SPEC_BODY pc t)"

definition x_mk_thk :: "cfg \<Rightarrow> xframe \<Rightarrow> nat \<Rightarrow> pl_thread \<Rightarrow> outcome" where
  "x_mk_thk C fr pc t =
     hk (xu32 fr pc) (\<lambda>argc. hk (xnum fr (pc + 1)) (\<lambda>rb.
       let rawbane = word_of_nat rb; bane = rawbane AND PL_BAN_MASK in
       if argc = 0 \<or> operands fr t < argc then underflow t
       else if bane = PL_BAN_PRIM_KNOWN then
         hk (xu32 fr (pc + 2)) (\<lambda>idx. hk (xnum fr (pc + 3)) (\<lambda>spec.
           if spec = PL_SPEC_NONE then mk_thk_known idx rawbane argc (pc + 4) t
           else if spec = PL_SPEC_BODY then
             (if idx < pl_nops then mk_thk_body C idx rawbane argc (pc + 4) t else Undefined)
           else mk_thk_spec idx rawbane argc spec (pc + 4) t))
       else if bane \<noteq> PL_BAN_FAST \<and> bane \<noteq> PL_BAN_SLOW \<and> bane \<noteq> PL_BAN_PRIM then
         Raised (Exn_msg ''exec: bad bane'') t
       else (case pl_mk_thke_h (t_heap t) rawbane (peek argc t) of
         (h, thke) \<Rightarrow> Goto (C_dispatch (pc + 2)) (pl_vreplace argc thke (set_heap h t)))))"

definition x_mk_app :: "xframe \<Rightarrow> nat \<Rightarrow> pl_thread \<Rightarrow> outcome" where
  "x_mk_app fr pc t = hk (xu32 fr pc) (\<lambda>argc.
     if argc = 0 \<or> operands fr t < (argc + 1) mod 2 ^ 32 then underflow t
     else if operands fr t < argc + 1 then Undefined
     else let appbase = length (t_vs t) - argc - 1 in
       hk (vslot t appbase) (\<lambda>head.
       hk (pl_mk_app_from_h (t_heap t) head (peek argc t)) (\<lambda>(h, app).
         Goto (C_dispatch (pc + 1)) (pl_vpush app (set_vsp appbase (set_heap h t))))))"

definition pl_exec_reify_env :: "xframe \<Rightarrow> pl_thread \<Rightarrow> (xframe \<times> pl_thread) hres" where
  "pl_exec_reify_env fr t =
     (if x_a fr \<noteq> gzero \<or> x_argc fr = 0 then Inr (fr, t)
      else if x_b fr + x_argc fr \<le> length (t_vs t) then
        Inr (fr\<lparr>x_a := GEnv (length (t_heap t))\<rparr>,
             set_heap (t_heap t @ [K_ENV (take (x_argc fr) (drop (x_b fr) (t_vs t)))]) t)
      else Inl HUndef)"

definition x_interp :: "xframe \<Rightarrow> nat \<Rightarrow> pl_thread \<Rightarrow> outcome" where
  "x_interp fr pc t = hk (pl_exec_reify_env fr t) (\<lambda>(fr, t).
     hk (xword fr pc) (\<lambda>expr. Goto (C_expr (x_a fr) expr) (XSYNC fr (pc + 1) t)))"

subsection \<open>Returning and forcing\<close>

definition x_ret :: "xframe \<Rightarrow> pl_thread \<Rightarrow> outcome" where
  "x_ret fr t =
     (if operands fr t = 0 then underflow t
      else let v = last (t_vs t); t' = fpop (set_vsp (xbase fr) t) in
        if 1 < t_fuel t \<and> gval_is_whnf v then Goto (C_ret v) (t'\<lparr>t_fuel := t_fuel t - 1\<rparr>)
        else Goto (C_eval v) t')"

definition x_ret_ready :: "xframe \<Rightarrow> pl_thread \<Rightarrow> outcome" where
  "x_ret_ready fr t =
     (if operands fr t = 0 then underflow t
      else let v = last (t_vs t); t' = fpop (set_vsp (xbase fr) t) in
        if \<not> gval_is_whnf v then Undefined
        else if 1 < t_fuel t then Goto (C_ret v) (t'\<lparr>t_fuel := t_fuel t - 1\<rparr>)
        else Goto (C_eval v) t')"

definition x_force :: "xframe \<Rightarrow> nat \<Rightarrow> pl_thread \<Rightarrow> outcome" where
  "x_force fr pc t =
     (if operands fr t = 0 then underflow t
      else let v = last (t_vs t) in
        if 1 < t_fuel t \<and> gval_is_whnf v then Goto (C_dispatch pc) (t\<lparr>t_fuel := t_fuel t - 1\<rparr>)
        else Goto (C_eval v) (XSYNC fr pc (set_vsp (length (t_vs t) - 1) t)))"

definition x_force_ready :: "xframe \<Rightarrow> nat \<Rightarrow> pl_thread \<Rightarrow> outcome" where
  "x_force_ready fr pc t =
     (if operands fr t = 0 then underflow t
      else if \<not> gval_is_whnf (last (t_vs t)) then Undefined
      else if 1 < t_fuel t then Goto (C_dispatch pc) (t\<lparr>t_fuel := t_fuel t - 1\<rparr>)
      else x_force fr pc t)"

subsection \<open>Tail calls\<close>

definition tail_fallback :: "xframe \<Rightarrow> nat \<Rightarrow> u64 \<Rightarrow> nat \<Rightarrow> pl_thread \<Rightarrow> outcome" where
  "tail_fallback fr argc rawbane idx t =
     (case (if rawbane AND PL_BAN_MASK = PL_BAN_PRIM_KNOWN then mk_known idx rawbane argc t
            else (case pl_mk_thke_h (t_heap t) rawbane (peek argc t) of (h, thke) \<Rightarrow> (set_heap h t, thke))) of
       (t', thke) \<Rightarrow> Goto (C_eval thke) (fpop (set_vsp (xbase fr) t')))"

text \<open>The group of \<open>argc\<close> operands moved down to the base of the frame, under \<open>pre\<close>, and the frame dropped.\<close>

definition tail_move :: "xframe \<Rightarrow> gval list \<Rightarrow> gval list \<Rightarrow> pl_thread \<Rightarrow> pl_thread" where
  "tail_move fr pre xs t = fpop (vpushes (pre @ xs) (set_vsp (xbase fr) t))"

text \<open>An operation entered with its arguments on the stack; with \<open>ready\<close> arguments the steps are charged at once.\<close>

definition popcount :: "nat \<Rightarrow> nat" where
  "popcount m = length (List.filter (\<lambda>i. bit m i) [0..<32])"

definition enter_op :: "bool \<Rightarrow> nat \<Rightarrow> nat \<Rightarrow> nat \<Rightarrow> pl_thread \<Rightarrow> outcome" where
  "enter_op ready idx op_base n t =
     (let steps = word_of_nat (popcount (op_strict (pl_ops ! idx))) in
      if ready \<and> steps < t_fuel t then op_args_ready idx op_base n (t\<lparr>t_fuel := t_fuel t - steps\<rparr>)
      else Goto (C_op_args idx op_base n) t)"

definition tail_enter :: "xframe \<Rightarrow> bool \<Rightarrow> nat \<Rightarrow> u64 \<Rightarrow> nat \<Rightarrow> pl_thread \<Rightarrow> outcome" where
  "tail_enter fr ready argc rawbane idx t =
     (let bane = rawbane AND PL_BAN_MASK; xs = peek argc t; tbase = xbase fr in
      if bane = PL_BAN_FAST then
        hk (pl_exact_law (t_heap t) (xs ! 0) (argc - 1)) (\<lambda>(exact, jcode).
          if exact then Goto (C_judge tbase (argc - 1) jcode) (tail_move fr [] xs t)
          else tail_fallback fr argc rawbane idx t)
      else if bane = PL_BAN_PRIM_KNOWN then
        (if \<not> idx < pl_nops then Undefined
         else if 82 \<le> op_set_of (pl_ops ! idx) \<and> \<not> t_rplan t then Raised (Exn_msg ''Not in RPLAN Mode'') t
         else enter_op ready idx (tbase + 1) argc (tail_move fr [GNat (Direct (word_of_nat idx))] xs t))
      else if bane = PL_BAN_PRIM then
        hk (if argc = 2 then pin_opset (t_heap t) (xs ! 0) else Inr None) (\<lambda>opset. case opset of
          Some opset \<Rightarrow> Goto (C_eval (xs ! 1)) (pl_fpush (PL_F_OPENT opset) (tail_move fr [] [] t))
        | None \<Rightarrow> tail_fallback fr argc rawbane idx t)
      else if argc = 1 then Goto (C_eval (xs ! 0)) (tail_move fr [] [] t)
      else Goto (C_eval (xs ! 0))
        (pl_fpush (PL_F_APPLYN (tbase + 1) (argc - 1)) (tail_move fr [gzero] (tl xs) t)))"

definition x_tail :: "xframe \<Rightarrow> bool \<Rightarrow> nat \<Rightarrow> pl_thread \<Rightarrow> outcome" where
  "x_tail fr ready pc t =
     hk (xu32 fr pc) (\<lambda>argc. hk (xnum fr (pc + 1)) (\<lambda>rb.
       let rawbane = word_of_nat rb; bane = rawbane AND PL_BAN_MASK in
       hk (if bane = PL_BAN_PRIM_KNOWN then rbind (xu32 fr (pc + 2)) (\<lambda>idx. rbind (xword fr (pc + 3)) (\<lambda>_. Inr idx))
           else Inr 0) (\<lambda>idx.
         if argc = 0 \<or> operands fr t < argc then underflow t
         else if bane \<noteq> PL_BAN_FAST \<and> bane \<noteq> PL_BAN_SLOW \<and> bane \<noteq> PL_BAN_PRIM \<and> bane \<noteq> PL_BAN_PRIM_KNOWN then
           Raised (Exn_msg ''exec: bad bane'') t
         else let t = t\<lparr>t_fuel := t_fuel t - 1\<rparr> in
           if t_fuel t = 0 then tail_fallback fr argc rawbane idx (t\<lparr>t_fuel := 1\<rparr>)
           else tail_enter fr ready argc rawbane idx t)))"

subsection \<open>Jumps and local calls\<close>

text \<open>A jump; a backward one takes a fuel step and yields with the jump taken.\<close>

definition x_jump :: "xframe \<Rightarrow> nat \<Rightarrow> nat \<Rightarrow> pl_thread \<Rightarrow> outcome" where
  "x_jump fr from_pc target t =
     (if target \<le> from_pc then
        (case fuel_step t of
           (True, t) \<Rightarrow> Stop PL_RUN_YIELDED ((XSYNC fr target t)\<lparr>t_resume_kind := PL_RES_RUN\<rparr>)
         | (False, t) \<Rightarrow> Goto (C_dispatch target) t)
      else Goto (C_dispatch target) t)"

definition x_br :: "xframe \<Rightarrow> nat \<Rightarrow> pl_thread \<Rightarrow> outcome" where
  "x_br fr pc t = hk (xnum fr pc) (\<lambda>m.
     if operands fr t = 0 then underflow t
     else let t' = set_vsp (length (t_vs t) - 1) t in
       case gval_nat63 (last (t_vs t)) of
         None \<Rightarrow> Raised (Exn_msg ''exec: branch on non-nat'') t'
       | Some scrut \<Rightarrow>
           if m \<le> unat scrut then Raised (Exn_msg ''exec: branch out of range'') t'
           else hk (xnum fr (pc + 1 + unat scrut)) (\<lambda>target. x_jump fr (pc - 1) target t'))"

definition x_jmp :: "xframe \<Rightarrow> nat \<Rightarrow> pl_thread \<Rightarrow> outcome" where
  "x_jmp fr pc t = hk (xnum fr pc) (\<lambda>target. x_jump fr (pc - 1) target t)"

definition x_tailblk :: "xframe \<Rightarrow> nat \<Rightarrow> pl_thread \<Rightarrow> outcome" where
  "x_tailblk fr pc t = hk (xnum fr pc) (\<lambda>target. hk (xcount fr (pc + 1)) (\<lambda>nargs.
     if operands fr t < nargs then underflow t
     else x_jump fr (pc - 1) target (vpushes (peek nargs t) (set_vsp (x_argbase fr) t))))"

definition x_call :: "xframe \<Rightarrow> nat \<Rightarrow> pl_thread \<Rightarrow> outcome" where
  "x_call fr pc t = hk (xnum fr pc) (\<lambda>target. hk (xcount fr (pc + 1)) (\<lambda>nargs.
     let t = XSYNC fr (pc + 2) t in
     if operands fr t < nargs then underflow t
     else (case fuel_step t of
        (True, t) \<Rightarrow> Stop PL_RUN_YIELDED ((XSYNC fr (pc - 1) t)\<lparr>t_resume_kind := PL_RES_RUN\<rparr>)
      | (False, t) \<Rightarrow> Goto (C_dispatch target)
          (pl_fpush (PL_F_EXEC (x_a fr) (x_b fr) (x_argc fr) (x_code fr) target (length (t_vs t) - nargs)) t))))"

subsection \<open>Calls\<close>

definition x_call_known :: "xframe \<Rightarrow> bool \<Rightarrow> nat \<Rightarrow> pl_thread \<Rightarrow> outcome" where
  "x_call_known fr ready pc t =
     hk (xu32 fr pc) (\<lambda>nargs. hk (xu32 fr (pc + 1)) (\<lambda>idx. hk (xword fr (pc + 2)) (\<lambda>_.
       let t = XSYNC fr (pc + 3) t; abase = length (t_vs t) - nargs in
       if \<not> idx < pl_nops then Undefined
       else if nargs = 0 \<or> operands fr t < nargs then underflow t
       else if 82 \<le> op_set_of (pl_ops ! idx) \<and> \<not> t_rplan t then Raised (Exn_msg ''Not in RPLAN Mode'') t
       else enter_op ready idx (abase + 1) nargs
         (vpushes (GNat (Direct (word_of_nat idx)) # peek nargs t) (set_vsp abase t)))))"

text \<open>The generic application of a head below its arguments on the stack.\<close>

definition call_slow :: "nat \<Rightarrow> pl_thread \<Rightarrow> outcome" where
  "call_slow nargs t =
     (let hb = length (t_vs t) - nargs - 1 in
      hk (vslot t hb) (\<lambda>head. hk (vput hb gzero t) (\<lambda>t.
        Goto (C_eval head) (pl_fpush (PL_F_APPLYN (hb + 1) nargs) t))))"

definition x_call_fast :: "xframe \<Rightarrow> nat \<Rightarrow> pl_thread \<Rightarrow> outcome" where
  "x_call_fast fr pc t =
     hk (xu32 fr pc) (\<lambda>nargs. hk (xword fr (pc + 1)) (\<lambda>_.
       let t = XSYNC fr (pc + 2) t; hb = length (t_vs t) - nargs - 1 in
       if operands fr t < (nargs + 1) mod 2 ^ 32 then underflow t
       else if operands fr t < nargs + 1 then Undefined
       else hk (vslot t hb) (\<lambda>head. hk (pl_exact_law (t_heap t) head nargs) (\<lambda>(exact, jcode).
         if exact then
           (case fuel_step t of
              (True, t) \<Rightarrow> Stop PL_RUN_YIELDED ((XSYNC fr (pc - 1) t)\<lparr>t_resume_kind := PL_RES_RUN\<rparr>)
            | (False, t) \<Rightarrow> Goto (C_judge hb nargs jcode) t)
         else call_slow nargs t))))"

definition x_call_slow :: "xframe \<Rightarrow> nat \<Rightarrow> pl_thread \<Rightarrow> outcome" where
  "x_call_slow fr pc t = hk (xu32 fr pc) (\<lambda>nargs.
     let t = XSYNC fr (pc + 1) t in
     if operands fr t < (nargs + 1) mod 2 ^ 32 then underflow t
     else if operands fr t < nargs + 1 then Undefined
     else call_slow nargs t)"

subsection \<open>Arithmetic on direct nats\<close>

text \<open>\<open>OP_ADD\<close>, \<open>OP_SUB\<close> and \<open>OP_CMP\<close> and their tail forms: the result, unless the sum is not direct.\<close>

definition num_op :: "nat \<Rightarrow> u64 \<Rightarrow> u64 \<Rightarrow> u64 option" where
  "num_op op x y =
     (if op = 16 \<or> op = 19 then (if x + y \<le> PL_NAT63_MAX then Some (x + y) else None)
      else if op = 17 \<or> op = 20 then Some (if y < x then x - y else 0)
      else Some (if x < y then 0 else if x = y then 1 else 2))"

definition num_args :: "nat \<Rightarrow> u64 \<Rightarrow> pl_thread \<Rightarrow> u64 option" where
  "num_args op steps t = (case (gval_nat63 (peek 2 t ! 0), gval_nat63 (peek 2 t ! 1)) of
     (Some x, Some y) \<Rightarrow> if t_fuel t \<le> steps then None else num_op op x y
   | _ \<Rightarrow> None)"

definition x_num :: "xframe \<Rightarrow> nat \<Rightarrow> nat \<Rightarrow> pl_thread \<Rightarrow> outcome" where
  "x_num fr op pc t =
     (if operands fr t < 2 then underflow t
      else case num_args op 3 t of
        Some r \<Rightarrow> Goto (C_dispatch (pc + 3)) (pl_vreplace 2 (GNat (Direct r)) (t\<lparr>t_fuel := t_fuel t - 3\<rparr>))
      | None \<Rightarrow> x_call_known fr False pc t)"

definition x_tail_num :: "xframe \<Rightarrow> nat \<Rightarrow> nat \<Rightarrow> pl_thread \<Rightarrow> outcome" where
  "x_tail_num fr op pc t =
     (if operands fr t < 2 then underflow t
      else case num_args op 4 t of
        Some r \<Rightarrow> Goto (C_ret (GNat (Direct r))) (tail_move fr [] [] (t\<lparr>t_fuel := t_fuel t - 4\<rparr>))
      | None \<Rightarrow> x_tail fr False pc t)"

subsection \<open>Dispatch\<close>

definition exec_op :: "cfg \<Rightarrow> xframe \<Rightarrow> nat \<Rightarrow> nat \<Rightarrow> pl_thread \<Rightarrow> outcome" where
  "exec_op C fr op pc t =
     (if op = 0 then x_push_var fr pc t
      else if op = 1 then x_push_lit fr pc t
      else if op = 2 then x_mk_thk C fr pc t
      else if op = 3 then x_force fr pc t
      else if op = 4 then x_call fr pc t
      else if op = 5 then x_tail fr False pc t
      else if op = 6 then x_interp fr pc t
      else if op = 7 then x_ret fr t
      else if op = 8 then x_mk_app fr pc t
      else if op = 9 then x_push_slot fr pc t
      else if op = 10 then x_br fr pc t
      else if op = 11 then x_jmp fr pc t
      else if op = 12 then hk (xword fr pc) (\<lambda>_. Goto (C_dispatch (pc + 1)) t)
      else if op = 13 then x_call_known fr False pc t
      else if op = 14 then x_call_fast fr pc t
      else if op = 15 then x_call_slow fr pc t
      else if op = 16 \<or> op = 17 \<or> op = 18 then x_num fr op pc t
      else if op = 19 \<or> op = 20 \<or> op = 21 then x_tail_num fr op pc t
      else if op = 22 then x_force_ready fr pc t
      else if op = 23 then x_ret_ready fr t
      else if op = 24 then x_call_known fr True pc t
      else if op = 25 then x_tail fr True pc t
      else if op = 26 then Goto (C_dispatch pc) t
      else if op = 27 then x_tailblk fr pc t
      else Undefined)"

definition run_dispatch :: "cfg \<Rightarrow> nat \<Rightarrow> pl_thread \<Rightarrow> outcome" where
  "run_dispatch C pc t = (case top_exec t of
     None \<Rightarrow> Undefined
   | Some fr \<Rightarrow> hk (xnum fr pc) (\<lambda>op. exec_op C fr op (pc + 1) t))"

definition run_exec :: "pl_thread \<Rightarrow> outcome" where
  "run_exec t = (case top_exec t of None \<Rightarrow> Undefined | Some fr \<Rightarrow> Goto (C_dispatch (x_k fr)) t)"

end
