(* ===== verification/Eval.thy ===== *)
theory Eval
  imports Eval_Exec
begin

text \<open>
  The machine as a whole: the step between labels, the run, the delivery of exceptions and the thread
  interface of \<open>eval.h\<close>. A raise is a \<open>longjmp\<close> to the innermost handler; here it is a result, and the
  functions that install a handler inspect it. A run may not end, so it is an option whose \<open>None\<close> means
  that it does not return.
\<close>

subsection \<open>Running\<close>

definition step :: "cfg \<Rightarrow> nat \<Rightarrow> ctl \<Rightarrow> pl_thread \<Rightarrow> outcome" where
  "step C base c t = (case c of
     C_eval v \<Rightarrow> run_eval base v t
   | C_thke v \<Rightarrow> run_thke v t
   | C_ret v \<Rightarrow> run_ret base v t
   | C_expr env expr \<Rightarrow> run_expr env expr t
   | C_exec \<Rightarrow> run_exec t
   | C_dispatch pc \<Rightarrow> run_dispatch C pc t
   | C_fast_apply hbase \<Rightarrow> run_fast_apply hbase t
   | C_judge hbase argc jcode \<Rightarrow> run_judge C hbase argc jcode t
   | C_judge_scan jbase jargc \<Rightarrow> run_judge_scan C jbase jargc t
   | C_op_args idx op_base n \<Rightarrow> run_op_args idx op_base n t
   | C_oparg_next \<Rightarrow> run_oparg_next t
   | C_opdeep_next \<Rightarrow> run_opdeep_next t
   | C_op_body_ready idx op_base \<Rightarrow> run_op_body_ready C idx op_base t)"

partial_function (option) pl_run :: "cfg \<Rightarrow> nat \<Rightarrow> ctl \<Rightarrow> pl_thread \<Rightarrow> outcome option" where
  "pl_run C base c t = (case step C base c t of
     Goto c' t' \<Rightarrow> pl_run C base c' t'
   | Endless \<Rightarrow> None
   | r \<Rightarrow> Some r)"

declare pl_run.simps [code]

text \<open>The label a resume kind enters at.\<close>

fun entry_ctl :: "pl_resume_kind \<Rightarrow> gval \<Rightarrow> ctl" where
  "entry_ctl PL_RES_EVAL v = C_eval v"
| "entry_ctl PL_RES_RETURN v = C_ret v"
| "entry_ctl PL_RES_RUN v = C_exec"

subsection \<open>Unwinding\<close>

definition pl_restore_thke :: "gval \<Rightarrow> heap \<Rightarrow> heap hres" where
  "pl_restore_thke v h = (case v of
     GDefer a \<Rightarrow> rbind (hget h a) (\<lambda>ob. case ob of
        K_THKE hole bane args \<Rightarrow>
          (if hole then Inr (h[a := K_THKE False bane args]) else Inl (HAbort ''unwound THKE is not blackholed''))
      | _ \<Rightarrow> Inl (HAbort ''unwound update target is not a THKE''))
   | _ \<Rightarrow> Inl HUndef)"

fun restore_chain :: "gval list \<Rightarrow> heap \<Rightarrow> heap hres" where
  "restore_chain [] h = Inr h"
| "restore_chain (u # us) h = rbind (pl_restore_thke u h) (\<lambda>h. restore_chain us h)"

definition unwind_frame :: "mframe \<Rightarrow> pl_thread \<Rightarrow> pl_thread hres" where
  "unwind_frame fr t = (case fr of
     PL_F_UPDATE v expr \<Rightarrow> (case v of
        GDefer a \<Rightarrow> rbind (hget (t_heap t) a) (\<lambda>ob. case ob of
           K_BH env \<Rightarrow> Inr (set_heap ((t_heap t)[a := K_THUNK env expr]) t)
         | _ \<Rightarrow> Inl (HAbort ''unwound legacy thunk is not blackholed''))
      | _ \<Rightarrow> Inl HUndef)
   | PL_F_UPD v argbase argc \<Rightarrow>
       (if argc = 1 then rbind (pl_restore_thke v (t_heap t)) (\<lambda>h. Inr (set_heap h t))
        else if 2 \<le> argc \<and> argbase + argc - 1 = length (t_us t) then
          rbind (restore_chain (chain_targets v argbase argc (t_us t)) (t_heap t)) (\<lambda>h.
            Inr (set_heap h (t\<lparr>t_us := take argbase (t_us t)\<rparr>)))
        else Inl (HAbort ''coalesced update stack is not a frame suffix''))
   | _ \<Rightarrow> Inr t)"

fun unwind_loop :: "mframe list \<Rightarrow> pl_thread \<Rightarrow> pl_thread hres" where
  "unwind_loop [] t = Inr t"
| "unwind_loop (fr # frs) t = rbind (unwind_frame fr t) (\<lambda>t. unwind_loop frs (fpop t))"

definition pl_unwind_frames :: "nat \<Rightarrow> pl_thread \<Rightarrow> pl_thread hres" where
  "pl_unwind_frames base t =
     (if base \<le> length (t_fs t) then unwind_loop (take (length (t_fs t) - base) (t_fs t)) t
      else Inl (HAbort ''frame unwind below live stack''))"

text \<open>A handler of the host: what \<open>pl_catch_init\<close> saves of the stacks, and the unwinding to it.\<close>

record pl_catch =
  ca_vsp :: nat
  ca_fsp :: nat
  ca_centry :: nat

definition pl_catch_init :: "pl_thread \<Rightarrow> pl_catch" where
  "pl_catch_init t = \<lparr>ca_vsp = length (t_vs t), ca_fsp = length (t_fs t), ca_centry = t_centry t\<rparr>"

definition pl_catch_unwind :: "pl_catch \<Rightarrow> pl_thread \<Rightarrow> pl_thread hres" where
  "pl_catch_unwind c t =
     rbind (pl_unwind_frames (ca_fsp c) (set_vsp (ca_vsp c) t)) (\<lambda>t. Inr (t\<lparr>t_centry := ca_centry c\<rparr>))"

subsection \<open>Exception delivery\<close>

definition set_exn :: "exn \<Rightarrow> pl_thread \<Rightarrow> pl_thread" where
  "set_exn e t = (case e of
     Exn_val v \<Rightarrow> t\<lparr>t_exn := v, t_exn_msg := None\<rparr>
   | Exn_msg m \<Rightarrow> t\<lparr>t_exn := gzero, t_exn_msg := Some m\<rparr>)"

text \<open>The innermost \<open>PL_F_TRY\<close> frame among the given frames: the frames above it, and its fields.\<close>

fun find_try :: "mframe list \<Rightarrow> (mframe list \<times> nat) option" where
  "find_try [] = None"
| "find_try (fr # frs) = (case fr of
     PL_F_TRY argbase mark \<Rightarrow> Some ([fr], argbase)
   | _ \<Rightarrow> map_option (\<lambda>(abv, argbase). (fr # abv, argbase)) (find_try frs))"

text \<open>
  A raise inside the entry with boundary \<open>base\<close>: deliver it to the barrier, or unwind the entry and raise
  it again. \<open>Goto\<close> is the machine resumed below the barrier. An exception that leaves the entry cuts the value stack at
  the height at which the machine was last entered or resumed; where the stack is lower already the code moves the top up over
  dead slots, which the next handler drops, and the model leaves it.
\<close>

definition deliver :: "nat \<Rightarrow> nat \<Rightarrow> nat \<Rightarrow> exn \<Rightarrow> pl_thread \<Rightarrow> outcome" where
  "deliver base c_vsp c_centry e t0 =
     (let t = (set_exn e t0)\<lparr>t_centry := c_centry\<rparr>;
          frs = take (length (t_fs t) - base) (t_fs t) in
      case (if t_exn_msg t = None then find_try frs else None) of
        Some (abv, argbase) \<Rightarrow>
          hk (unwind_loop abv t) (\<lambda>t.
          hk (pl_mk_app_from_h (t_heap t) (GNat (Direct 1)) [t_exn t]) (\<lambda>(h, v).
            Goto (C_ret v) ((set_vsp argbase (set_heap h t))\<lparr>t_exn := gzero\<rparr>)))
      | None \<Rightarrow> hk (pl_unwind_frames base (set_vsp c_vsp t)) (\<lambda>t. Raised e t))"

partial_function (option) pl_run_caught :: "cfg \<Rightarrow> nat \<Rightarrow> ctl \<Rightarrow> pl_thread \<Rightarrow> outcome option" where
  "pl_run_caught C base c t = (case pl_run C base c t of
     None \<Rightarrow> None
   | Some (Raised e t') \<Rightarrow> (case deliver base (length (t_vs t)) (t_centry t) e t' of
        Goto c' t'' \<Rightarrow> pl_run_caught C base c' t''
      | Endless \<Rightarrow> None
      | r \<Rightarrow> Some r)
   | Some r \<Rightarrow> Some r)"

declare pl_run_caught.simps [code]

subsection \<open>Suspendable threads\<close>

text \<open>A new thread on a heap.\<close>

definition pl_thread_new :: "heap \<Rightarrow> pl_thread" where
  "pl_thread_new h = \<lparr>t_heap = h, t_vs = [], t_fs = [], t_us = [], t_exn = gzero, t_exn_msg = None, t_fuel = - 1,
     t_centry = 0, t_suspendable = False, t_pending_yield = False, t_resume_kind = PL_RES_EVAL,
     t_status = PL_RUN_DONE, t_base_vsp = 0, t_base_fsp = 0, t_resume_val = gzero, t_blocked_on = gzero,
     t_result = gzero, t_epoch = 0, t_profile_gen = 1, t_rplan = False, t_memo = []\<rparr>"

definition pl_thread_unwind_run :: "pl_thread \<Rightarrow> pl_thread hres" where
  "pl_thread_unwind_run t = pl_unwind_frames (t_base_fsp t) (set_vsp (t_base_vsp t) t)"

definition pl_thread_start :: "gval \<Rightarrow> pl_thread \<Rightarrow> pl_thread hres" where
  "pl_thread_start v t =
     (if t_suspendable t \<or> t_centry t \<noteq> 0 then Inl (HAbort ''pl_thread_start: thread is running'')
      else Inr (t\<lparr>t_base_vsp := length (t_vs t), t_base_fsp := length (t_fs t), t_resume_kind := PL_RES_EVAL,
        t_resume_val := v, t_blocked_on := gzero, t_result := gzero, t_pending_yield := False,
        t_status := PL_RUN_YIELDED\<rparr>))"

definition pl_thread_start_nf :: "gval \<Rightarrow> pl_thread \<Rightarrow> pl_thread hres" where
  "pl_thread_start_nf v t = rbind (pl_thread_start v t) (\<lambda>t. Inr (pl_fpush PL_F_NF t))"

definition pl_thread_start_call_nf :: "gval \<Rightarrow> gval \<Rightarrow> pl_thread \<Rightarrow> pl_thread hres" where
  "pl_thread_start_call_nf f x t = rbind (pl_thread_start_nf f t) (\<lambda>t. Inr (pl_fpush (PL_F_APPLY x) t))"

definition pl_thread_abandon :: "pl_thread \<Rightarrow> pl_thread hres" where
  "pl_thread_abandon t =
     (if t_suspendable t \<or> t_centry t \<noteq> 0 then Inl (HAbort ''pl_thread_abandon: thread is running'')
      else if t_status t \<noteq> PL_RUN_BLOCKED then Inl (HAbort ''pl_thread_abandon: thread is not blocked'')
      else pl_thread_unwind_run t)"

definition pl_thread_deposit :: "gval \<Rightarrow> pl_thread \<Rightarrow> pl_thread hres" where
  "pl_thread_deposit response t =
     (if t_status t \<noteq> PL_RUN_BLOCKED then Inl (HAbort ''pl_thread_deposit: thread is not blocked'')
      else if \<not> gval_is_whnf response then Inl (HAbort ''pl_thread_deposit: response must be WHNF'')
      else Inr (t\<lparr>t_resume_kind := PL_RES_RETURN, t_resume_val := response, t_blocked_on := gzero,
        t_status := PL_RUN_YIELDED\<rparr>))"

definition pl_thread_result :: "pl_thread \<Rightarrow> gval hres" where
  "pl_thread_result t =
     (if t_status t = PL_RUN_DONE then Inr (t_result t) else Inl (HAbort ''pl_thread_result: thread not done''))"

definition pl_thread_request :: "pl_thread \<Rightarrow> gval hres" where
  "pl_thread_request t =
     (if t_status t = PL_RUN_BLOCKED then Inr (t_blocked_on t)
      else Inl (HAbort ''pl_thread_request: thread is not blocked''))"

text \<open>The state in which a run leaves the thread.\<close>

definition run_leave :: "pl_run_status \<Rightarrow> pl_thread \<Rightarrow> pl_thread" where
  "run_leave s t = t\<lparr>t_suspendable := False, t_fuel := - 1, t_status := s\<rparr>"

definition pl_thread_run :: "cfg \<Rightarrow> u64 \<Rightarrow> pl_thread \<Rightarrow> outcome option" where
  "pl_thread_run C fuel t =
     (if t_centry t \<noteq> 0 \<or> t_suspendable t then Some (Crashed ''pl_thread_run: re-entered from evaluator code'')
      else if t_status t \<noteq> PL_RUN_YIELDED then Some (Crashed ''pl_thread_run: thread is not runnable'')
      else if fuel < 2 then Some (Crashed ''pl_thread_run: fuel quantum must be >= 2'')
      else
        case pl_run_caught C (t_base_fsp t) (entry_ctl (t_resume_kind t) (t_resume_val t))
               (t\<lparr>t_fuel := fuel, t_pending_yield := False, t_suspendable := True\<rparr>) of
          Some (Stop s t') \<Rightarrow> Some (Stop s (run_leave s t'))
        | Some (Raised e t') \<Rightarrow>
            Some (hk (pl_thread_unwind_run t') (\<lambda>t'. Stop PL_RUN_EXN (run_leave PL_RUN_EXN (t'\<lparr>t_centry := 0\<rparr>))))
        | r \<Rightarrow> r)"

subsection \<open>Entries from C\<close>

text \<open>A value returned to the calling C code is \<open>Goto (C_ret v)\<close>; an exception is raised to the caller's handler.\<close>

definition pl_run_centry :: "cfg \<Rightarrow> nat \<Rightarrow> gval \<Rightarrow> pl_thread \<Rightarrow> outcome option" where
  "pl_run_centry C base v t =
     (let outermost = (t_centry t = 0 \<and> \<not> t_suspendable t) in
      case pl_run_caught C base (C_eval v) (t\<lparr>t_centry := t_centry t + 1\<rparr>) of
        Some (Stop s t') \<Rightarrow>
          (let t'' = t'\<lparr>t_centry := t_centry t' - 1\<rparr> in
           if s = PL_RUN_DONE then
             Some (Goto (C_ret (t_result t')) (if outermost then t'' else t''\<lparr>t_result := gzero\<rparr>))
           else Some (Crashed ''C-entry run cannot suspend''))
      | r \<Rightarrow> r)"

text \<open>
  \<open>pl_stress_drive\<close>, the host entry of the build with \<open>PL_YIELD_STRESS\<close>: the evaluation runs as a suspendable thread
  with one step per quantum, behind the saved suspension state of the thread.
\<close>

partial_function (option) stress_loop :: "cfg \<Rightarrow> pl_thread \<Rightarrow> outcome option" where
  "stress_loop C t = (case pl_thread_run C 2 t of
     Some (Stop PL_RUN_YIELDED t') \<Rightarrow> stress_loop C t'
   | r \<Rightarrow> r)"

declare stress_loop.simps [code]

definition stress_arm :: "nat \<Rightarrow> gval \<Rightarrow> pl_thread \<Rightarrow> pl_thread" where
  "stress_arm base v t =
     (let t1 = vpushes [t_resume_val t, t_blocked_on t, t_result t] t in
      t1\<lparr>t_base_vsp := length (t_vs t1), t_base_fsp := base, t_resume_kind := PL_RES_EVAL, t_resume_val := v,
        t_blocked_on := gzero, t_pending_yield := False, t_status := PL_RUN_YIELDED\<rparr>)"

text \<open>The saved state restored; the result of a finished run stays.\<close>

definition stress_restore :: "pl_thread \<Rightarrow> pl_run_status \<Rightarrow> pl_thread \<Rightarrow> pl_thread hres" where
  "stress_restore t0 s t =
     (let mark = length (t_vs t0) in
      rbind (vslot t (mark + 2)) (\<lambda>res. rbind (vslot t (mark + 1)) (\<lambda>blk. rbind (vslot t mark) (\<lambda>rv.
        Inr ((set_vsp mark t)\<lparr>t_result := (if s = PL_RUN_DONE then t_result t else res), t_blocked_on := blk,
          t_resume_val := rv, t_base_vsp := t_base_vsp t0, t_base_fsp := t_base_fsp t0,
          t_resume_kind := t_resume_kind t0, t_status := t_status t0\<rparr>)))))"

definition pl_stress_drive :: "cfg \<Rightarrow> nat \<Rightarrow> gval \<Rightarrow> pl_thread \<Rightarrow> outcome option" where
  "pl_stress_drive C base v t = (case stress_loop C (stress_arm base v t) of
     Some (Stop s t') \<Rightarrow> Some (hk (stress_restore t s t') (\<lambda>t''.
       if s = PL_RUN_EXN then
         Raised (case t_exn_msg t'' of Some m \<Rightarrow> Exn_msg m | None \<Rightarrow> Exn_val (t_exn t'')) t''
       else if s = PL_RUN_BLOCKED then Raised (Exn_msg ''actor op with no executor'') t''
       else Goto (C_ret (t_result t'')) t''))
   | r \<Rightarrow> r)"

text \<open>\<open>stress\<close> tells the two builds apart.\<close>

definition pl_eval_public :: "bool \<Rightarrow> cfg \<Rightarrow> nat \<Rightarrow> gval \<Rightarrow> pl_thread \<Rightarrow> outcome option" where
  "pl_eval_public stress C base v t =
     (if stress \<and> \<not> t_suspendable t \<and> t_centry t = 0 then pl_stress_drive C base v t else pl_run_centry C base v t)"

definition pl_whnf :: "bool \<Rightarrow> cfg \<Rightarrow> gval \<Rightarrow> pl_thread \<Rightarrow> outcome option" where
  "pl_whnf stress C v t = pl_eval_public stress C (length (t_fs t)) v t"

definition pl_apply :: "bool \<Rightarrow> cfg \<Rightarrow> gval \<Rightarrow> gval \<Rightarrow> pl_thread \<Rightarrow> outcome option" where
  "pl_apply stress C f x t = pl_eval_public stress C (length (t_fs t)) f (pl_fpush (PL_F_APPLY x) t)"

definition pl_nf :: "bool \<Rightarrow> cfg \<Rightarrow> gval \<Rightarrow> pl_thread \<Rightarrow> outcome option" where
  "pl_nf stress C v t = pl_eval_public stress C (length (t_fs t)) v (pl_fpush PL_F_NF t)"

end
