(* ===== verification/Eval_Ops.thy ===== *)
theory Eval_Ops
  imports Eval
begin

text \<open>
  The bodies of the primitive operations on the evaluator's heap, as the descriptor table calls them:
  a body reads its arguments from the value stack at \<open>ab\<close>, may allocate and push frames, and returns
  the value the machine goes on with. The arithmetic bodies only look at the nats of their arguments,
  so they are those of \<open>Plan_Op\<close>; the others are written here on references, where sharing is visible.
  The overwriting of an argument slot with its coerced nat is left out: the slots are dropped after the body.

  Operations of the store, of input and output and of the actors are a parameter \<open>ext\<close>, as is the
  persistent layer \<open>plgc\<close> of the memo cache.
\<close>

subsection \<open>Helpers\<close>

definition bk :: "'a hres \<Rightarrow> ('a \<Rightarrow> body_res) \<Rightarrow> body_res" where
  "bk r k = (case r of Inr x \<Rightarrow> k x | Inl f \<Rightarrow> Body_fault f)"

type_synonym body = "pl_thread \<Rightarrow> nat \<Rightarrow> body_res"

definition ARG :: "nat \<Rightarrow> (gval \<Rightarrow> body) \<Rightarrow> body" where
  "ARG i k t ab = bk (vslot t (ab + i)) (\<lambda>v. k v t ab)"

definition body_ret :: "gval \<Rightarrow> body" where
  "body_ret v t ab = Body_val v t"

definition body_frames :: "mframe list \<Rightarrow> gval \<Rightarrow> body" where
  "body_frames frs v t ab = Body_val v (t\<lparr>t_fs := frs @ t_fs t\<rparr>)"

definition body_alloc :: "(heap \<Rightarrow> (heap \<times> gval) hres) \<Rightarrow> body" where
  "body_alloc f t ab = bk (f (t_heap t)) (\<lambda>(h, v). Body_val v (set_heap h t))"

definition body_heap :: "(heap \<Rightarrow> 'a hres) \<Rightarrow> ('a \<Rightarrow> body) \<Rightarrow> body" where
  "body_heap f k t ab = bk (f (t_heap t)) (\<lambda>x. k x t ab)"

text \<open>An arithmetic body of \<open>Plan_Op\<close> on the first \<open>n\<close> arguments.\<close>

definition arg_view :: "gval \<Rightarrow> pval" where
  "arg_view v = (case v of GNat n \<Rightarrow> VNat n | _ \<Rightarrow> VOther 0)"

definition nat_body :: "nat \<Rightarrow> (pval list \<Rightarrow> opres) \<Rightarrow> body" where
  "nat_body n f t ab =
     (if ab + n \<le> length (t_vs t) then
        (case f (map arg_view (take n (drop ab (t_vs t)))) of
           Inr ([], VNat m) \<Rightarrow> Body_val (GNat m) t
         | Inl (OpFault (Raise m)) \<Rightarrow> Body_raise (Exn_msg m) t
         | Inl (OpFault (Abort m)) \<Rightarrow> Body_fault (HAbort m)
         | _ \<Rightarrow> Body_fault HUndef)
      else Body_fault HUndef)"

text \<open>The three fields of an APP argument, or none.\<close>

definition app_view :: "heap \<Rightarrow> gval \<Rightarrow> (nat \<times> gval \<times> gval list) option hres" where
  "app_view h v = (case v of GApp a \<Rightarrow> rbind (app_at h a) (\<lambda>x. Inr (Some x)) | _ \<Rightarrow> Inr None)"

definition law_view :: "heap \<Rightarrow> gval \<Rightarrow> (u64 \<times> gval \<times> gval) option hres" where
  "law_view h v = (case v of GLaw a \<Rightarrow> rbind (law_at h a) (\<lambda>x. Inr (Some x)) | _ \<Rightarrow> Inr None)"

definition WITH_APP :: "gval \<Rightarrow> ((nat \<times> gval \<times> gval list) option \<Rightarrow> body) \<Rightarrow> body" where
  "WITH_APP v = body_heap (\<lambda>h. app_view h v)"

definition WITH_LAW :: "gval \<Rightarrow> ((u64 \<times> gval \<times> gval) option \<Rightarrow> body) \<Rightarrow> body" where
  "WITH_LAW v = body_heap (\<lambda>h. law_view h v)"

subsection \<open>Core operations\<close>

text \<open>\<open>pl_pin\<close> forces its argument through a nested entry, which for a value costs one step of fuel.\<close>

definition op_pin_h :: body where
  "op_pin_h = ARG 0 (\<lambda>v t ab.
     if \<not> gval_is_whnf v then Body_fault HUndef
     else (case fuel_step t of (y, t') \<Rightarrow>
       Body_val (GPin (length (t_heap t)))
         ((set_heap (t_heap t @ [K_PIN False True None v None Code_null]) t')\<lparr>t_result := gzero\<rparr>)))"

definition op_law_h :: body where
  "op_law_h = ARG 0 (\<lambda>ar. ARG 1 (\<lambda>name. ARG 2 (\<lambda>body.
     let arity = pl_nat_u64_clamp (gcoerce ar) in
     if arity < PL_NAT63_MAX then body_alloc (\<lambda>h. Inr (pl_mk_law_h h (arity + 1) name body))
     else (\<lambda>t ab. Body_fault (HAbort ''law arity out of range'')))))"

definition elim_law :: "gval \<Rightarrow> u64 \<times> gval \<times> gval \<Rightarrow> body" where
  "elim_law l = (\<lambda>(ar, name, body).
     if ar \<le> PL_NAT63_MAX then
       body_frames [PL_F_APPLY (GNat (Direct ar)), PL_F_APPLY name, PL_F_APPLY body] l
     else (\<lambda>t ab. Body_fault (HAbort ''law arity out of range'')))"

definition elim_app :: "gval \<Rightarrow> gval \<Rightarrow> nat \<times> gval \<times> gval list \<Rightarrow> body" where
  "elim_app ap o' = (\<lambda>(need, head, args) t ab.
     if length args = 1 then body_frames [PL_F_APPLY head, PL_F_APPLY (args ! 0)] ap t ab
     else bk (pl_mk_app_take_h (t_heap t) o' (length args - 1)) (\<lambda>(h, ini).
       body_frames [PL_F_APPLY ini, PL_F_APPLY (args ! (length args - 1))] ap (set_heap h t) ab))"

definition op_elim_h :: "mpn_api \<Rightarrow> body" where
  "op_elim_h M = ARG 5 (\<lambda>o'. case o' of
     GNat n \<Rightarrow>
       (if n = Direct 0 then ARG 3 body_ret
        else ARG 4 (\<lambda>s t ab. case pl_nat_dec M n of
          Inr om1 \<Rightarrow> body_frames [PL_F_APPLY (GNat om1)] s t ab
        | Inl (Abort m) \<Rightarrow> Body_fault (HAbort m)
        | Inl (Raise m) \<Rightarrow> Body_raise (Exn_msg m) t))
   | GPin a \<Rightarrow> ARG 0 (\<lambda>p. body_heap (\<lambda>h. pl_pin_body_h h a) (\<lambda>b. body_frames [PL_F_APPLY b] p))
   | GLaw a \<Rightarrow> ARG 1 (\<lambda>l. body_heap (\<lambda>h. law_at h a) (elim_law l))
   | GApp a \<Rightarrow> ARG 2 (\<lambda>ap. body_heap (\<lambda>h. app_at h a) (elim_app ap o'))
   | _ \<Rightarrow> (\<lambda>t ab. Body_fault (HAbort ''match: bad scrutinee tag'')))"

subsection \<open>Branches\<close>

definition op_nil_h :: body where
  "op_nil_h = ARG 0 (\<lambda>x. body_ret (gbool (x = gzero)))"

definition op_truth_h :: body where
  "op_truth_h = ARG 0 (\<lambda>x. body_ret (gbool (x \<noteq> gzero)))"

definition op_or_h :: body where
  "op_or_h = ARG 0 (\<lambda>x. ARG 1 (\<lambda>y. body_ret (if x = gzero then y else x)))"

definition op_and_h :: body where
  "op_and_h = ARG 0 (\<lambda>x. ARG 1 (\<lambda>y. body_ret (if x = gzero then gzero else y)))"

definition op_nor_h :: body where
  "op_nor_h = ARG 0 (\<lambda>x. ARG 1 (\<lambda>y. if x \<noteq> gzero then body_ret gzero else body_frames [PL_F_NIL] y))"

definition op_if_h :: body where
  "op_if_h = ARG 0 (\<lambda>x. ARG 1 (\<lambda>y. ARG 2 (\<lambda>z. body_ret (if x \<noteq> gzero then y else z))))"

definition op_ifz_h :: body where
  "op_ifz_h = ARG 0 (\<lambda>x. ARG 1 (\<lambda>y. ARG 2 (\<lambda>z. body_ret (if x = gzero then y else z))))"

definition op_case_k_h :: "nat \<Rightarrow> body" where
  "op_case_k_h argc = ARG 0 (\<lambda>x. case gval_nat63 x of
     Some w \<Rightarrow> if unat w < argc - 2 then ARG (1 + unat w) body_ret else ARG (argc - 1) body_ret
   | None \<Rightarrow> ARG (argc - 1) body_ret)"

definition op_case_h :: body where
  "op_case_h = ARG 0 (\<lambda>x. ARG 1 (\<lambda>cs. ARG 2 (\<lambda>f. WITH_APP cs (\<lambda>app. case (app, gval_nat63 x) of
     (Some (need, head, args), Some w) \<Rightarrow> body_ret (if unat w < length args then args ! unat w else f)
   | _ \<Rightarrow> body_ret f))))"

subsection \<open>Inspection\<close>

definition op_type_h :: body where
  "op_type_h = ARG 0 (\<lambda>x. body_ret (GNat (Direct (case x of GPin a \<Rightarrow> 1 | GLaw a \<Rightarrow> 2 | GApp a \<Rightarrow> 3 | _ \<Rightarrow> 0))))"

definition op_is_pin_h :: body where
  "op_is_pin_h = ARG 0 (\<lambda>x. body_ret (gbool (case x of GPin a \<Rightarrow> True | _ \<Rightarrow> False)))"

definition op_is_law_h :: body where
  "op_is_law_h = ARG 0 (\<lambda>x. body_ret (gbool (case x of GLaw a \<Rightarrow> True | _ \<Rightarrow> False)))"

definition op_is_app_h :: body where
  "op_is_app_h = ARG 0 (\<lambda>x. body_ret (gbool (case x of GApp a \<Rightarrow> True | _ \<Rightarrow> False)))"

definition op_is_nat_h :: body where
  "op_is_nat_h = ARG 0 (\<lambda>x. body_ret (gbool (gval_is_nat x)))"

definition op_nat_h :: body where
  "op_nat_h = ARG 0 (\<lambda>x. body_ret (GNat (gcoerce x)))"

definition op_arity_h :: body where
  "op_arity_h = ARG 0 (\<lambda>x. WITH_LAW x (\<lambda>l. case l of
     Some (ar, name, body) \<Rightarrow> if ar \<le> PL_NAT63_MAX then body_ret (GNat (Direct ar)) else (\<lambda>t ab. Body_fault HUndef)
   | None \<Rightarrow> body_ret gzero))"

definition op_name_h :: body where
  "op_name_h = ARG 0 (\<lambda>x. WITH_LAW x (\<lambda>l. body_ret (case l of Some (ar, name, body) \<Rightarrow> name | None \<Rightarrow> gzero)))"

definition op_body_h :: body where
  "op_body_h = ARG 0 (\<lambda>x. WITH_LAW x (\<lambda>l. body_ret (case l of Some (ar, name, body) \<Rightarrow> body | None \<Rightarrow> gzero)))"

definition op_unpin_h :: body where
  "op_unpin_h = ARG 0 (\<lambda>x. case x of
     GPin a \<Rightarrow> body_heap (\<lambda>h. pl_pin_body_h h a) body_ret | _ \<Rightarrow> body_ret gzero)"

subsection \<open>Rows\<close>

definition op_sz_h :: body where
  "op_sz_h = ARG 0 (\<lambda>x. WITH_APP x (\<lambda>app. body_ret (case app of
     Some (need, head, args) \<Rightarrow> GNat (Direct (word_of_nat (length args))) | None \<Rightarrow> gzero)))"

definition op_hd_h :: body where
  "op_hd_h = ARG 0 (\<lambda>x. WITH_APP x (\<lambda>app. body_ret (case app of Some (need, head, args) \<Rightarrow> head | None \<Rightarrow> x)))"

definition op_last_h :: body where
  "op_last_h = ARG 0 (\<lambda>x. WITH_APP x (\<lambda>app. body_ret (case app of
     Some (need, head, args) \<Rightarrow> args ! (length args - 1) | None \<Rightarrow> gzero)))"

definition op_init_h :: body where
  "op_init_h = ARG 0 (\<lambda>x. WITH_APP x (\<lambda>app. case app of
     None \<Rightarrow> body_ret gzero
   | Some (need, head, args) \<Rightarrow>
       if length args = 1 then body_ret head else body_alloc (\<lambda>h. pl_mk_app_take_h h x (length args - 1))))"

definition op_ix_h :: body where
  "op_ix_h = ARG 0 (\<lambda>i. ARG 1 (\<lambda>x. WITH_APP x (\<lambda>app. body_ret (case app of
     Some (need, head, args) \<Rightarrow>
       (let i = unat (pl_nat_u64_clamp (gcoerce i)) in if i < length args then args ! i else gzero)
   | None \<Rightarrow> gzero))))"

definition op_ix_k_h :: "nat \<Rightarrow> body" where
  "op_ix_k_h i = ARG 0 (\<lambda>x. WITH_APP x (\<lambda>app. body_ret (case app of
     Some (need, head, args) \<Rightarrow> if i = 0 then args ! 0 else if i < length args then args ! i else gzero
   | None \<Rightarrow> gzero)))"

definition op_up_h :: body where
  "op_up_h = ARG 0 (\<lambda>i. ARG 1 (\<lambda>v. ARG 2 (\<lambda>x. WITH_APP x (\<lambda>app. case app of
     None \<Rightarrow> body_ret x
   | Some (need, head, args) \<Rightarrow>
       let i = unat (pl_nat_u64_clamp (gcoerce i)) in
       if length args \<le> i then body_ret x
       else body_alloc (\<lambda>h. pl_mk_app_from_h h head (args[i := v]))))))"

definition op_slice_h :: body where
  "op_slice_h = ARG 0 (\<lambda>o'. ARG 1 (\<lambda>n. ARG 2 (\<lambda>x. WITH_APP x (\<lambda>app. case app of
     None \<Rightarrow> body_ret gzero
   | Some (need, head, args) \<Rightarrow>
       let o' = unat (pl_nat_u64_clamp (gcoerce o')); n = unat (pl_nat_u64_clamp (gcoerce n)); sz = length args in
       if sz < o' then body_ret gzero
       else let rsz = (if sz - o' < n then sz - o' else n) in
         if rsz = 0 then body_ret gzero
         else if o' = 0 \<and> rsz = sz \<and> head = gzero then body_ret x
         else body_alloc (\<lambda>h. pl_mk_app_from_h h gzero (take rsz (drop o' args)))))))"

definition app_row :: "(nat \<times> gval \<times> gval list) option \<Rightarrow> gval list" where
  "app_row app = (case app of Some (need, head, args) \<Rightarrow> args | None \<Rightarrow> [])"

definition op_weld_h :: body where
  "op_weld_h = ARG 0 (\<lambda>x. ARG 1 (\<lambda>y. WITH_APP x (\<lambda>xa. WITH_APP y (\<lambda>ya.
     if app_row xa = [] \<and> app_row ya = [] then body_ret gzero
     else body_alloc (\<lambda>h. Inr (h @ [K_APP False 0 gzero (app_row xa @ app_row ya)], GApp (length h)))))))"

definition op_rep_h :: body where
  "op_rep_h = ARG 0 (\<lambda>hd'. ARG 1 (\<lambda>x. ARG 2 (\<lambda>n.
     let n = unat (pl_nat_u64_clamp (gcoerce n)) in
     if n = 0 then body_ret (GNat (gcoerce hd'))
     else if n < 2 ^ 24 then
       body_alloc (\<lambda>h. Inr (h @ [K_APP False 0 (GNat (gcoerce hd')) (replicate n x)], GApp (length h)))
     else (\<lambda>t ab. Body_fault (HAbort ''Rep size too large'')))))"

definition op_coup_h :: body where
  "op_coup_h = ARG 0 (\<lambda>f. ARG 1 (\<lambda>x. WITH_APP x (\<lambda>app. case app of
     None \<Rightarrow> body_ret f
   | Some (need, head, args) \<Rightarrow> body_heap (\<lambda>h. pl_arity_h h f) (\<lambda>ar.
       if length args < ar then body_alloc (\<lambda>h. pl_mk_app_from_h h f args)
       else body_frames (map PL_F_APPLY args) f))))"

subsection \<open>Control\<close>

definition op_sap_h :: body where
  "op_sap_h = ARG 0 (\<lambda>f. ARG 1 (\<lambda>x. body_frames [PL_F_APPLY x] f))"

definition op_sap2_h :: body where
  "op_sap2_h = ARG 0 (\<lambda>f. ARG 1 (\<lambda>x. ARG 2 (\<lambda>y. body_frames [PL_F_APPLY x, PL_F_APPLY y] f)))"

definition op_force_h :: body where
  "op_force_h = ARG 0 (\<lambda>x. body_frames [PL_F_NF] x)"

definition op_deepseq_h :: body where
  "op_deepseq_h = ARG 0 (\<lambda>x. ARG 1 (\<lambda>y. body_frames [PL_F_NF, PL_F_SEQ y] x))"

definition op_throw_h :: body where
  "op_throw_h = ARG 0 (\<lambda>x t ab. Body_raise (Exn_val x) t)"

definition op_try_h :: body where
  "op_try_h = ARG 0 (\<lambda>f. ARG 1 (\<lambda>x t ab.
     body_frames [PL_F_APPLY x, PL_F_NF, PL_F_TRY (ab - 1) (t_profile_gen t)] f t ab))"

type_synonym plgc = "bytes \<times> bytes \<Rightarrow> u64 option"

text \<open>The memo cache: the map of the process, then the persistent layer, which fills the map.\<close>

definition pl_memo_probe :: "plgc \<Rightarrow> bytes \<Rightarrow> bytes \<Rightarrow> pl_thread \<Rightarrow> u64 option \<times> pl_thread" where
  "pl_memo_probe plgc fh xh t = (case map_of (t_memo t) (fh, xh) of
     Some w \<Rightarrow> (Some w, t)
   | None \<Rightarrow> (case plgc (fh, xh) of
        Some w \<Rightarrow> if w \<le> PL_NAT63_MAX then (Some w, pl_memo_record fh xh w t) else (None, t)
      | None \<Rightarrow> (None, t)))"

definition pin_hash_of :: "gval \<Rightarrow> heap \<Rightarrow> bytes option hres" where
  "pin_hash_of v h = (case v of GPin a \<Rightarrow> pl_pin_hash_h h v | _ \<Rightarrow> Inr None)"

definition op_memo_h :: "plgc \<Rightarrow> body" where
  "op_memo_h plgc = ARG 0 (\<lambda>f0. ARG 1 (\<lambda>x0.
     body_heap (\<lambda>h. pl_resolve_h h f0) (\<lambda>f. body_heap (\<lambda>h. pl_resolve_h h x0) (\<lambda>x.
     body_heap (pin_hash_of f) (\<lambda>fh. body_heap (pin_hash_of x) (\<lambda>xh t ab. case (fh, xh) of
       (Some fh, Some xh) \<Rightarrow> (case pl_memo_probe plgc fh xh t of
          (Some w, t') \<Rightarrow> Body_val (GNat (Direct w)) t'
        | (None, t') \<Rightarrow> body_frames [PL_F_APPLY x, PL_F_MEMO f x (t_epoch t')] f t' ab)
     | _ \<Rightarrow> body_frames [PL_F_APPLY x] f t ab))))))"

text \<open>
  \<open>Row\<close>: every element is a lazy projection of the list. The store serves the two expressions of the
  projections; element \<open>k\<close> and the rest behind it share an environment.
\<close>

fun row_build :: "gval \<Rightarrow> gval \<Rightarrow> nat \<Rightarrow> gval \<Rightarrow> heap \<Rightarrow> heap \<times> gval list" where
  "row_build ix0e ix1e 0 prefix h = (h, [])"
| "row_build ix0e ix1e (Suc n) prefix h =
     (let env = GEnv (length h);
          h1 = h @ [K_ENV [gzero, prefix]];
          (h2, el) = pl_mk_thunk_h h1 env ix0e;
          (h3, next) = (if 0 < n then pl_mk_thunk_h h2 env ix1e else (h2, gzero));
          (h4, els) = row_build ix0e ix1e n next h3 in
      (h4, el # els))"

definition op_row_h :: "(gval \<times> gval) option \<Rightarrow> body" where
  "op_row_h ixs = ARG 0 (\<lambda>hd'. ARG 1 (\<lambda>n. ARG 2 (\<lambda>xs.
     let n = unat (pl_nat_u64_clamp (gcoerce n)) in
     if n = 0 then body_ret (GNat (gcoerce hd'))
     else if \<not> n < 2 ^ 22 then (\<lambda>t ab. Body_fault (HAbort ''Row size too large''))
     else case ixs of
       None \<Rightarrow> (\<lambda>t ab. Body_fault (HAbort ''Row requires a store''))
     | Some (ix0e, ix1e) \<Rightarrow> body_alloc (\<lambda>h. case row_build ix0e ix1e n xs h of
         (h', els) \<Rightarrow> Inr (h' @ [K_APP False 0 (GNat (gcoerce hd')) els], GApp (length h'))))))"

subsection \<open>The table\<close>

definition body_table :: "mpn_api \<Rightarrow> plgc \<Rightarrow> (gval \<times> gval) option \<Rightarrow> (string \<times> body) list" where
  "body_table M plgc ixs =
    [(''op_pin'', op_pin_h), (''op_law'', op_law_h), (''op_elim'', op_elim_h M),
     (''op_inc'', nat_body 1 (op_inc M)), (''op_dec'', nat_body 1 (op_dec M)),
     (''op_add'', nat_body 2 (op_add M)), (''op_sub'', nat_body 2 (op_sub M)), (''op_mul'', nat_body 2 (op_mul M)),
     (''op_div'', nat_body 2 (op_div M)), (''op_mod'', nat_body 2 (op_mod M)),
     (''op_rsh'', nat_body 2 (op_rsh M)), (''op_lsh'', nat_body 2 (op_lsh M)),
     (''op_test'', nat_body 2 op_test), (''op_nib'', nat_body 2 op_nib), (''op_load8'', nat_body 2 op_load8),
     (''op_loadvar'', nat_body 3 op_loadvar), (''op_store8'', nat_body 3 op_store8),
     (''op_set'', nat_body 2 op_set), (''op_clear'', nat_body 2 op_clear), (''op_bex'', nat_body 1 op_bex),
     (''op_trunc8'', nat_body 1 op_trunc8), (''op_trunc16'', nat_body 1 op_trunc16),
     (''op_trunc32'', nat_body 1 op_trunc32), (''op_trunc64'', nat_body 1 op_trunc64),
     (''op_trunc'', nat_body 2 op_trunc), (''op_bits'', nat_body 1 op_bits), (''op_bytes'', nat_body 1 op_bytes),
     (''op_eq'', nat_body 2 (op_eq M)), (''op_ne'', nat_body 2 (op_ne M)), (''op_lt'', nat_body 2 (op_lt M)),
     (''op_le'', nat_body 2 (op_le M)), (''op_gt'', nat_body 2 (op_gt M)), (''op_ge'', nat_body 2 (op_ge M)),
     (''op_cmp'', nat_body 2 (op_cmp M)),
     (''op_nil'', op_nil_h), (''op_truth'', op_truth_h), (''op_or'', op_or_h), (''op_and'', op_and_h),
     (''op_nor'', op_nor_h), (''op_if'', op_if_h), (''op_ifz'', op_ifz_h), (''op_case'', op_case_h),
     (''op_case2'', op_case_k_h 3), (''op_case3'', op_case_k_h 4), (''op_case4'', op_case_k_h 5),
     (''op_case5'', op_case_k_h 6), (''op_case6'', op_case_k_h 7), (''op_case7'', op_case_k_h 8),
     (''op_case8'', op_case_k_h 9), (''op_case9'', op_case_k_h 10), (''op_case10'', op_case_k_h 11),
     (''op_case11'', op_case_k_h 12), (''op_case12'', op_case_k_h 13), (''op_case13'', op_case_k_h 14),
     (''op_case14'', op_case_k_h 15), (''op_case15'', op_case_k_h 16), (''op_case16'', op_case_k_h 17),
     (''op_type'', op_type_h), (''op_is_pin'', op_is_pin_h), (''op_is_law'', op_is_law_h),
     (''op_is_app'', op_is_app_h), (''op_is_nat'', op_is_nat_h), (''op_nat'', op_nat_h), (''op_arity'', op_arity_h),
     (''op_name'', op_name_h), (''op_body'', op_body_h), (''op_unpin'', op_unpin_h),
     (''op_sz'', op_sz_h), (''op_hd'', op_hd_h), (''op_last'', op_last_h), (''op_init'', op_init_h),
     (''op_ix'', op_ix_h), (''op_ix0'', op_ix_k_h 0), (''op_ix1'', op_ix_k_h 1), (''op_ix2'', op_ix_k_h 2),
     (''op_ix3'', op_ix_k_h 3), (''op_ix4'', op_ix_k_h 4), (''op_ix5'', op_ix_k_h 5), (''op_ix6'', op_ix_k_h 6),
     (''op_ix7'', op_ix_k_h 7), (''op_up'', op_up_h), (''op_slice'', op_slice_h), (''op_weld'', op_weld_h),
     (''op_rep'', op_rep_h), (''op_row'', op_row_h ixs), (''op_coup'', op_coup_h),
     (''op_seq'', ARG 1 body_ret), (''op_seq2'', ARG 2 body_ret), (''op_seq3'', ARG 3 body_ret),
     (''op_sap'', op_sap_h), (''op_sap2'', op_sap2_h), (''op_force'', op_force_h), (''op_deepseq'', op_deepseq_h),
     (''op_throw'', op_throw_h), (''op_try'', op_try_h), (''op_memo'', op_memo_h plgc),
     (''op_load'', nat_body 1 op_load)]"

definition pl_body :: "mpn_api \<Rightarrow> plgc \<Rightarrow> (gval \<times> gval) option \<Rightarrow> (string \<Rightarrow> body) \<Rightarrow> string \<Rightarrow> body" where
  "pl_body M plgc ixs ext name = (case map_of (body_table M plgc ixs) name of Some b \<Rightarrow> b | None \<Rightarrow> ext name)"

text \<open>
  The configuration of the machine on the modelled bodies. What is left open is what the program links in or
  the user supplies: the remaining operations, the two hooks, the compiler and the law blocks.
\<close>

definition pl_cfg ::
  "mpn_api \<Rightarrow> plgc \<Rightarrow> (gval \<times> gval) option \<Rightarrow> (string \<Rightarrow> body) \<Rightarrow> (pl_thread \<Rightarrow> nat \<Rightarrow> nat \<Rightarrow> hook_res) option \<Rightarrow>
    (pl_thread \<Rightarrow> pl_thread) option \<Rightarrow> (pl_thread \<Rightarrow> nat \<Rightarrow> nat \<Rightarrow> hook_res) option \<Rightarrow> (heap \<Rightarrow> addr \<Rightarrow> heap \<times> pl_code option) \<Rightarrow>
    (heap \<Rightarrow> gval \<Rightarrow> (pl_code \<times> nat \<times> nat) option) \<Rightarrow> cfg" where
  "pl_cfg M plgc ixs ext hook eff io demand lawblk =
     \<lparr>cf_body = pl_body M plgc ixs ext, cf_hook = hook, cf_effect = eff, cf_io = io, cf_demand = demand, cf_lawblk = lawblk\<rparr>"

end
