(* ===== verification/Eval_Holes.thy ===== *)
theory Eval_Holes
  imports Eval_Ops
begin

text \<open>
  Black holes and exceptions. While a thunk is evaluated it is a black hole, and a frame of the stack owns
  it: returning to the frame overwrites it with the result, unwinding the frame restores it. The invariant
  \<open>hole_inv\<close> says that the black holes of the heap are exactly the ones the frames own, each owned
  once, and that restoring them gives a heap in which every object of the start is kept: unchanged, a
  thunk overwritten with its result, or a value whose fields were normalised. Every step keeps it, whatever bytecode
  runs.
\<close>

subsection \<open>What may happen to an object\<close>

fun is_hole :: "obj \<Rightarrow> bool" where
  "is_hole (K_BH env) = True"
| "is_hole (K_THKE hole bane args) = hole"
| "is_hole _ = False"

definition obj_kept :: "obj \<Rightarrow> obj \<Rightarrow> bool" where
  "obj_kept ob ob' \<longleftrightarrow> ob' = ob \<or> (case (ob, ob') of
     (K_THUNK env expr, K_IND w) \<Rightarrow> True
   | (K_THKE hole bane args, K_IND w) \<Rightarrow> \<not> hole
   | (K_APP nf need head args, K_APP nf' need' head' args') \<Rightarrow> need' = need \<and> length args' = length args
   | (K_LAW nf ar name body, K_LAW nf' ar' name' body') \<Rightarrow> ar' = ar
   | (K_PIN nf proxy hash body target code, K_PIN nf' proxy' hash' body' target' code') \<Rightarrow> True
   | _ \<Rightarrow> False)"

definition heap_quiet :: "heap \<Rightarrow> heap \<Rightarrow> bool" where
  "heap_quiet h h' \<longleftrightarrow> length h \<le> length h' \<and> (\<forall>a < length h. obj_kept (h ! a) (h' ! a)) \<and>
     (\<forall>a < length h'. is_hole (h' ! a) \<longrightarrow> a < length h \<and> h ! a = h' ! a)"

lemma obj_kept_refl [simp]: "obj_kept ob ob"
  by (simp add: obj_kept_def)

lemma obj_kept_trans: "obj_kept x y \<Longrightarrow> obj_kept y z \<Longrightarrow> obj_kept x z"
  by (auto simp: obj_kept_def split: obj.splits)

lemma obj_kept_hole: "obj_kept x y \<Longrightarrow> is_hole x \<Longrightarrow> y = x"
  by (cases x) (auto simp: obj_kept_def split: obj.splits)

lemma heap_quiet_refl [simp]: "heap_quiet h h"
  by (simp add: heap_quiet_def)

lemma heap_quiet_trans:
  assumes "heap_quiet h1 h2" "heap_quiet h2 h3"
  shows "heap_quiet h1 h3"
  unfolding heap_quiet_def
proof (intro conjI allI impI)
  show "length h1 \<le> length h3" using assms by (simp add: heap_quiet_def)
  show "obj_kept (h1 ! a) (h3 ! a)" if "a < length h1" for a
    using that assms obj_kept_trans[of "h1 ! a" "h2 ! a" "h3 ! a"] by (simp add: heap_quiet_def)
  show "a < length h1" "h1 ! a = h3 ! a" if "a < length h3" "is_hole (h3 ! a)" for a
    using that assms by (metis heap_quiet_def)+
qed

lemma heap_quiet_append: "(\<forall>ob \<in> set obs. \<not> is_hole ob) \<Longrightarrow> heap_quiet h (h @ obs)"
  by (auto simp: heap_quiet_def nth_append)

lemma heap_quiet_snoc [simp]: "heap_quiet h (h @ [ob]) \<longleftrightarrow> \<not> is_hole ob"
  by (auto simp: heap_quiet_def nth_append less_Suc_eq)

lemma heap_quiet_update:
  "a < length h \<Longrightarrow> obj_kept (h ! a) ob \<Longrightarrow> \<not> is_hole ob \<Longrightarrow> heap_quiet h (h[a := ob])"
  by (auto simp: heap_quiet_def nth_list_update)

lemma hget_Inr [simp]: "hget h a = Inr ob \<longleftrightarrow> a < length h \<and> ob = h ! a"
  by (auto simp: hget_def)

subsection \<open>What the frames own\<close>

fun is_upd :: "mframe \<Rightarrow> bool" where
  "is_upd (PL_F_UPDATE a b) = True"
| "is_upd (PL_F_UPD a argbase argc) = True"
| "is_upd _ = False"

text \<open>The targets of the frames, top first: with the saved expression for a thunk, without for a bytecode thunk.\<close>

fun targets :: "mframe list \<Rightarrow> gval list \<Rightarrow> (gval \<times> gval option) list" where
  "targets [] us = []"
| "targets (PL_F_UPDATE a b # fs) us = (a, Some b) # targets fs us"
| "targets (PL_F_UPD a argbase argc # fs) us =
     (if argc = 1 then (a, None) # targets fs us
      else map (\<lambda>v. (v, None)) (chain_targets a argbase argc us) @ targets fs (take argbase us))"
| "targets (_ # fs) us = targets fs us"

text \<open>The update stack is the concatenation of the slices the coalesced frames own.\<close>

fun us_ok :: "mframe list \<Rightarrow> gval list \<Rightarrow> bool" where
  "us_ok [] us = (us = [])"
| "us_ok (PL_F_UPD a argbase argc # fs) us =
     (if argc = 1 then us_ok fs us
      else 2 \<le> argc \<and> argbase + argc - 1 = length us \<and> us_ok fs (take argbase us))"
| "us_ok (_ # fs) us = us_ok fs us"

fun hole_for :: "gval option \<Rightarrow> obj \<Rightarrow> bool" where
  "hole_for (Some x) (K_BH env) = True"
| "hole_for None (K_THKE hole bane args) = hole"
| "hole_for _ _ = False"

fun tgt_ok :: "heap \<Rightarrow> gval \<times> gval option \<Rightarrow> bool" where
  "tgt_ok h (GDefer a, e) = (a < length h \<and> hole_for e (h ! a))"
| "tgt_ok h (_, e) = False"

lemma hole_for_hole: "hole_for e ob \<Longrightarrow> is_hole ob"
  by (induction e ob rule: hole_for.induct) simp_all

text \<open>An object as it is when its frame is unwound.\<close>

definition unhole :: "gval option option \<Rightarrow> obj \<Rightarrow> obj" where
  "unhole e ob = (case e of
     None \<Rightarrow> ob
   | Some (Some x) \<Rightarrow> (case ob of K_BH env \<Rightarrow> K_THUNK env x | _ \<Rightarrow> ob)
   | Some None \<Rightarrow> (case ob of K_THKE hole bane args \<Rightarrow> K_THKE False bane args | _ \<Rightarrow> ob))"

definition unheap :: "(gval \<times> gval option) list \<Rightarrow> heap \<Rightarrow> heap" where
  "unheap ts h = map (\<lambda>a. unhole (map_of ts (GDefer a)) (h ! a)) [0..<length h]"

definition thread_targets :: "pl_thread \<Rightarrow> (gval \<times> gval option) list" where
  "thread_targets t = targets (t_fs t) (t_us t)"

definition hole_inv :: "heap \<Rightarrow> pl_thread \<Rightarrow> bool" where
  "hole_inv h0 t \<longleftrightarrow> us_ok (t_fs t) (t_us t) \<and> distinct (map fst (thread_targets t)) \<and>
     list_all (tgt_ok (t_heap t)) (thread_targets t) \<and>
     heap_quiet h0 (unheap (thread_targets t) (t_heap t)) \<and>
     list_all (\<lambda>ob. \<not> is_hole ob) (unheap (thread_targets t) (t_heap t))"

definition quiet :: "pl_thread \<Rightarrow> pl_thread \<Rightarrow> bool" where
  "quiet t t' \<longleftrightarrow> filter is_upd (t_fs t') = filter is_upd (t_fs t) \<and> t_us t' = t_us t \<and>
     t_base_fsp t' = t_base_fsp t \<and> t_base_vsp t' = t_base_vsp t \<and> heap_quiet (t_heap t) (t_heap t')"

lemma targets_filter: "targets (filter is_upd fs) us = targets fs us"
  by (induction fs us rule: targets.induct) auto

lemma us_ok_filter: "us_ok (filter is_upd fs) us = us_ok fs us"
  by (induction fs us rule: us_ok.induct) auto

lemma length_unheap [simp]: "length (unheap ts h) = length h"
  by (simp add: unheap_def)

lemma nth_unheap [simp]: "a < length h \<Longrightarrow> unheap ts h ! a = unhole (map_of ts (GDefer a)) (h ! a)"
  by (simp add: unheap_def)

lemma unhole_None [simp]: "unhole None ob = ob"
  by (simp add: unhole_def)

lemma quiet_refl [simp]: "quiet t t"
  by (simp add: quiet_def)

lemma quiet_trans: "quiet t1 t2 \<Longrightarrow> quiet t2 t3 \<Longrightarrow> quiet t1 t3"
  by (auto simp: quiet_def intro: heap_quiet_trans)

lemma tgt_ok_hole: "tgt_ok h (GDefer a, e) \<Longrightarrow> a < length h \<and> is_hole (h ! a)"
  by (auto dest: hole_for_hole)

lemma tgt_okE:
  assumes "tgt_ok h p"
  obtains a e where "p = (GDefer a, e)" "a < length h" "hole_for e (h ! a)"
  using assms by (cases "(h, p)" rule: tgt_ok.cases) auto

lemma quiet_hole: "heap_quiet h h' \<Longrightarrow> a < length h \<Longrightarrow> is_hole (h ! a) \<Longrightarrow> a < length h' \<and> h' ! a = h ! a"
  using obj_kept_hole by (simp add: heap_quiet_def)

lemma tgt_ok_quiet: "tgt_ok h p \<Longrightarrow> heap_quiet h h' \<Longrightarrow> tgt_ok h' p"
  by (elim tgt_okE) (use quiet_hole hole_for_hole in fastforce)

lemma unheap_quiet:
  assumes "list_all (tgt_ok h) ts" "heap_quiet h h'"
  shows "heap_quiet (unheap ts h) (unheap ts h')"
proof -
  have tgt: "a < length h \<and> h' ! a = h ! a" if e: "map_of ts (GDefer a) = Some e" for a e
  proof -
    have "tgt_ok h (GDefer a, e)" using assms(1)[unfolded list_all_iff] map_of_SomeD[OF e] by blast
    then have "a < length h" "is_hole (h ! a)" using tgt_ok_hole by blast+
    then show ?thesis using assms(2) quiet_hole by blast
  qed
  have len: "length h \<le> length h'" and kept: "\<And>a. a < length h \<Longrightarrow> obj_kept (h ! a) (h' ! a)"
    and hole: "\<And>a. a < length h' \<Longrightarrow> is_hole (h' ! a) \<Longrightarrow> a < length h \<and> h ! a = h' ! a"
    using assms(2) unfolding heap_quiet_def by blast+
  show ?thesis unfolding heap_quiet_def length_unheap
  proof (intro conjI allI impI len)
    fix a
    assume a: "a < length h"
    then have a': "a < length h'" using len by simp
    show "obj_kept (unheap ts h ! a) (unheap ts h' ! a)"
      unfolding nth_unheap[OF a] nth_unheap[OF a'] using tgt[of a] kept[OF a] by (cases "map_of ts (GDefer a)") simp_all
  next
    fix a
    assume a: "a < length h'" and h: "is_hole (unheap ts h' ! a)"
    show l: "a < length h"
    proof (cases "map_of ts (GDefer a)")
      case None
      then show ?thesis using h hole[OF a] unfolding nth_unheap[OF a] by simp
    qed (use tgt in blast)
    show "unheap ts h ! a = unheap ts h' ! a"
    proof (cases "map_of ts (GDefer a)")
      case None
      then show ?thesis using h hole[OF a] unfolding nth_unheap[OF a] nth_unheap[OF l] by simp
    next
      case (Some e)
      show ?thesis unfolding nth_unheap[OF a] nth_unheap[OF l] using tgt[OF Some] by simp
    qed
  qed
qed

lemma quiet_no_holes:
  assumes "heap_quiet h h'" "list_all (\<lambda>ob. \<not> is_hole ob) h"
  shows "list_all (\<lambda>ob. \<not> is_hole ob) h'"
  using assms unfolding heap_quiet_def list_all_length by metis

lemma quiet_inv:
  assumes "hole_inv h0 t" "quiet t t'"
  shows "hole_inv h0 t'"
proof -
  have ts: "thread_targets t' = thread_targets t" "us_ok (t_fs t') (t_us t')"
    using assms targets_filter us_ok_filter unfolding thread_targets_def quiet_def hole_inv_def by metis+
  have q: "heap_quiet (t_heap t) (t_heap t')" and tg: "list_all (tgt_ok (t_heap t)) (thread_targets t)"
    using assms by (simp_all add: quiet_def hole_inv_def)
  have "list_all (tgt_ok (t_heap t')) (thread_targets t)"
    using tg tgt_ok_quiet[OF _ q] by (simp add: list_all_iff)
  moreover note u = unheap_quiet[OF tg q]
  moreover have "heap_quiet h0 (unheap (thread_targets t) (t_heap t'))"
    using assms(1) heap_quiet_trans[OF _ u] by (simp add: hole_inv_def)
  ultimately show ?thesis using assms(1) ts quiet_no_holes[OF u] unfolding hole_inv_def by simp
qed

subsection \<open>Black-holing, updating and unwinding\<close>

text \<open>The state of the invariant without the frames: a list of targets against a heap.\<close>

definition owns :: "heap \<Rightarrow> (gval \<times> gval option) list \<Rightarrow> heap \<Rightarrow> bool" where
  "owns h0 ts h \<longleftrightarrow> distinct (map fst ts) \<and> list_all (tgt_ok h) ts \<and> heap_quiet h0 (unheap ts h) \<and>
     list_all (\<lambda>ob. \<not> is_hole ob) (unheap ts h)"

lemma hole_inv_owns: "hole_inv h0 t \<longleftrightarrow> us_ok (t_fs t) (t_us t) \<and> owns h0 (thread_targets t) (t_heap t)"
  by (auto simp: hole_inv_def owns_def)

lemma owns_not_target:
  assumes "owns h0 ts h" "\<not> is_hole (h ! a)"
  shows "GDefer a \<notin> fst ` set ts"
proof
  assume "GDefer a \<in> fst ` set ts"
  then obtain e where e: "(GDefer a, e) \<in> set ts" by force
  then have "tgt_ok h (GDefer a, e)" using assms(1) unfolding owns_def list_all_iff by blast
  then show False using assms(2) tgt_ok_hole by blast
qed

lemma map_of_notin: "x \<notin> fst ` set ts \<Longrightarrow> map_of ts x = None"
  by (simp add: map_of_eq_None_iff)

lemma owns_push:
  assumes "owns h0 ts h" "a < length h" "\<not> is_hole (h ! a)" "hole_for e ob" "unhole (Some e) ob = h ! a"
  shows "owns h0 ((GDefer a, e) # ts) (h[a := ob])"
proof -
  have n: "GDefer a \<notin> fst ` set ts" using owns_not_target[OF assms(1,3)] .
  have "unheap ((GDefer a, e) # ts) (h[a := ob]) = unheap ts h"
    by (rule nth_equalityI) (use assms(2,5) map_of_notin[OF n] in \<open>auto simp: nth_list_update\<close>)
  moreover have "tgt_ok (h[a := ob]) p" if p: "p \<in> set ts" for p
  proof -
    have "tgt_ok h p" using assms(1) p unfolding owns_def list_all_iff by blast
    then obtain b d where b: "p = (GDefer b, d)" "b < length h" "hole_for d (h ! b)" by (rule tgt_okE)
    have "b \<noteq> a" using n p b(1) by force
    then show ?thesis using b by simp
  qed
  ultimately show ?thesis using assms n unfolding owns_def by (simp add: list_all_iff)
qed

text \<open>Dropping a target whose object is replaced by something its unwound form may become.\<close>

lemma owns_pop:
  assumes "owns h0 ((GDefer a, e) # ts) h" "obj_kept (unhole (Some e) (h ! a)) ob" "\<not> is_hole ob"
  shows "owns h0 ts (h[a := ob])"
proof -
  let ?h = "h[a := ob]"
  have n: "GDefer a \<notin> fst ` set ts" and a: "a < length h" "hole_for e (h ! a)"
    using assms(1) by (simp_all add: owns_def)
  have old: "unheap ((GDefer a, e) # ts) h ! b = (if b = a then unhole (Some e) (h ! a) else unheap ts ?h ! b)"
    if "b < length h" for b using that by simp
  have new: "unheap ts ?h ! a = ob" using a(1) map_of_notin[OF n] by simp
  have q: "heap_quiet (unheap ((GDefer a, e) # ts) h) (unheap ts ?h)"
  proof -
    have "unheap ts ?h = (unheap ((GDefer a, e) # ts) h)[a := ob]"
      by (rule nth_equalityI) (use a(1) map_of_notin[OF n] in \<open>auto simp: nth_list_update\<close>)
    then show ?thesis using a(1) assms(2,3) heap_quiet_update[of a "unheap ((GDefer a, e) # ts) h" ob] by simp
  qed
  have "tgt_ok ?h p" if p: "p \<in> set ts" for p
  proof -
    have "tgt_ok h p" using assms(1) p unfolding owns_def list_all_iff by auto
    then obtain b d where b: "p = (GDefer b, d)" "b < length h" "hole_for d (h ! b)" by (rule tgt_okE)
    have "b \<noteq> a" using n p b(1) by force
    then show ?thesis using b by simp
  qed
  moreover have "heap_quiet h0 (unheap ts ?h)" "list_all (\<lambda>ob. \<not> is_hole ob) (unheap ts ?h)"
    using assms(1) heap_quiet_trans[OF _ q] quiet_no_holes[OF q] unfolding owns_def by blast+
  ultimately show ?thesis using assms(1) unfolding owns_def by (simp add: list_all_iff)
qed

lemma owns_head:
  assumes "owns h0 ((v, e) # ts) h"
  obtains a where "v = GDefer a" "a < length h" "hole_for e (h ! a)"
  using assms unfolding owns_def by (auto elim: tgt_okE)

lemma unhole_SomeSome [simp]: "unhole (Some (Some x)) (K_BH env) = K_THUNK env x"
  by (simp add: unhole_def)

lemma unhole_SomeNone [simp]: "unhole (Some None) (K_THKE hole bane args) = K_THKE False bane args"
  by (simp add: unhole_def)

lemma hole_forE:
  assumes "hole_for e ob"
  obtains x env where "e = Some x" "ob = K_BH env" | bane args where "e = None" "ob = K_THKE True bane args"
  using assms by (cases "(e, ob)" rule: hole_for.cases) auto

lemma kept_ind [simp]: "obj_kept (K_THUNK env x) (K_IND w)" "obj_kept (K_THKE False bane args) (K_IND w)"
  by (simp_all add: obj_kept_def)

lemma update_chain_owns:
  assumes "owns h0 (map (\<lambda>v. (v, None)) vs @ ts) h"
  shows "\<exists>h'. update_chain vs w h = Inr h' \<and> owns h0 ts h'"
  using assms
proof (induction vs arbitrary: h)
  case (Cons v vs)
  then have o: "owns h0 ((v, None) # map (\<lambda>v. (v, None)) vs @ ts) h" by simp
  then obtain a where a: "v = GDefer a" "a < length h" "hole_for None (h ! a)" by (rule owns_head)
  from a(3) obtain bane args where ob: "h ! a = K_THKE True bane args" by (elim hole_forE) auto
  have "owns h0 (map (\<lambda>v. (v, None)) vs @ ts) (h[a := K_IND w])"
    using owns_pop[OF o[unfolded a(1)], of "K_IND w"] ob by simp
  then show ?case using Cons.IH a(1,2) ob by (simp add: pl_thke_update_h_def hget_def)
qed simp

lemma restore_chain_owns:
  assumes "owns h0 (map (\<lambda>v. (v, None)) vs @ ts) h"
  shows "\<exists>h'. restore_chain vs h = Inr h' \<and> owns h0 ts h' \<and> unheap ts h' = unheap (map (\<lambda>v. (v, None)) vs @ ts) h"
  using assms
proof (induction vs arbitrary: h)
  case (Cons v vs)
  let ?ts = "map (\<lambda>v. (v, None)) vs @ ts"
  have o: "owns h0 ((v, None) # ?ts) h" using Cons.prems by simp
  then obtain a where a: "v = GDefer a" "a < length h" "hole_for None (h ! a)" by (rule owns_head)
  from a(3) obtain bane args where ob: "h ! a = K_THKE True bane args" by (elim hole_forE) auto
  have o': "owns h0 ?ts (h[a := K_THKE False bane args])"
    using owns_pop[OF o[unfolded a(1)], of "K_THKE False bane args"] ob by simp
  have n: "GDefer a \<notin> fst ` set ?ts" using o a(1) unfolding owns_def by (metis (no_types) distinct.simps(2) fst_conv list.simps(9) set_map)
  have u: "unheap ?ts (h[a := K_THKE False bane args]) = unheap ((v, None) # ?ts) h"
    by (rule nth_equalityI) (use a ob map_of_notin[OF n] in \<open>auto simp: nth_list_update simp del: map_of_append\<close>)
  show ?case using Cons.IH[OF o'] a(1,2) ob u by (simp add: pl_restore_thke_def hget_def)
qed simp

subsection \<open>Unwinding restores the heap\<close>

lemma unwind_frame_inv:
  assumes "hole_inv h0 t" "t_fs t = fr # fs"
  shows "\<exists>h us. unwind_frame fr t = Inr (t\<lparr>t_heap := h, t_us := us\<rparr>) \<and>
    hole_inv h0 (t\<lparr>t_heap := h, t_us := us, t_fs := fs\<rparr>)"
proof (cases "is_upd fr")
  case False
  then have "unwind_frame fr t = Inr (t\<lparr>t_heap := t_heap t, t_us := t_us t\<rparr>)"
    by (cases fr) (simp_all add: unwind_frame_def)
  moreover have "quiet t (t\<lparr>t_heap := t_heap t, t_us := t_us t, t_fs := fs\<rparr>)"
    using False assms(2) by (simp add: quiet_def)
  ultimately show ?thesis using quiet_inv[OF assms(1)] by blast
next
  case True
  have us: "us_ok (fr # fs) (t_us t)" and ow: "owns h0 (targets (fr # fs) (t_us t)) (t_heap t)"
    using assms by (simp_all add: hole_inv_owns thread_targets_def)
  show ?thesis
  proof (cases fr)
    case (PL_F_UPDATE v x)
    then have o: "owns h0 ((v, Some x) # targets fs (t_us t)) (t_heap t)" using ow by simp
    then obtain a where a: "v = GDefer a" "a < length (t_heap t)" "hole_for (Some x) (t_heap t ! a)" by (rule owns_head)
    from a(3) obtain env where ob: "t_heap t ! a = K_BH env" by (elim hole_forE) auto
    let ?h = "(t_heap t)[a := K_THUNK env x]"
    have "owns h0 (targets fs (t_us t)) ?h"
      using owns_pop[OF o[unfolded a(1)], of "K_THUNK env x"] ob by simp
    then have "hole_inv h0 (t\<lparr>t_heap := ?h, t_us := t_us t, t_fs := fs\<rparr>)"
      using us PL_F_UPDATE by (simp add: hole_inv_owns thread_targets_def)
    moreover have "unwind_frame fr t = Inr (t\<lparr>t_heap := ?h, t_us := t_us t\<rparr>)"
      using PL_F_UPDATE a ob by (simp add: unwind_frame_def hget_def set_heap_def)
    ultimately show ?thesis by blast
  next
    case (PL_F_UPD v argbase argc)
    define vs us' where "vs = (if argc = 1 then [v] else chain_targets v argbase argc (t_us t))"
      and "us' = (if argc = 1 then t_us t else take argbase (t_us t))"
    have o: "owns h0 (map (\<lambda>v. (v, None)) vs @ targets fs us') (t_heap t)" and us2: "us_ok fs us'"
      using ow us PL_F_UPD by (auto simp: vs_def us'_def split: if_splits)
    obtain h where h: "restore_chain vs (t_heap t) = Inr h" "owns h0 (targets fs us') h"
      using restore_chain_owns[OF o] by blast
    have "hole_inv h0 (t\<lparr>t_heap := h, t_us := us', t_fs := fs\<rparr>)"
      using h(2) us2 by (simp add: hole_inv_owns thread_targets_def)
    moreover have "unwind_frame fr t = Inr (t\<lparr>t_heap := h, t_us := us'\<rparr>)"
      using PL_F_UPD us h(1)
      by (auto simp: unwind_frame_def vs_def us'_def set_heap_def rbind_def split: if_splits sum.splits)
    ultimately show ?thesis by blast
  qed (use True in simp_all)
qed

lemma unwind_loop_inv:
  assumes "hole_inv h0 t" "t_fs t = frs @ fs"
  shows "\<exists>h us. unwind_loop frs t = Inr (t\<lparr>t_heap := h, t_us := us, t_fs := fs\<rparr>) \<and>
    hole_inv h0 (t\<lparr>t_heap := h, t_us := us, t_fs := fs\<rparr>)"
  using assms
proof (induction frs arbitrary: t)
  case Nil
  have "t\<lparr>t_heap := t_heap t, t_us := t_us t, t_fs := fs\<rparr> = t" using Nil.prems(2) by simp
  then show ?case using Nil.prems(1) by (metis unwind_loop.simps(1))
next
  case (Cons fr frs)
  obtain h us where u: "unwind_frame fr t = Inr (t\<lparr>t_heap := h, t_us := us\<rparr>)"
      "hole_inv h0 (t\<lparr>t_heap := h, t_us := us, t_fs := frs @ fs\<rparr>)"
    using unwind_frame_inv[OF Cons.prems(1)] Cons.prems(2) by auto
  have p: "fpop (t\<lparr>t_heap := h, t_us := us\<rparr>) = t\<lparr>t_heap := h, t_us := us, t_fs := frs @ fs\<rparr>"
    using Cons.prems(2) by (simp add: fpop_def)
  show ?case using Cons.IH[OF u(2)] u(1) p by simp
qed

lemma hole_inv_bottom:
  assumes "hole_inv h0 t" "t_fs t = []"
  shows "t_us t = [] \<and> heap_quiet h0 (t_heap t) \<and> list_all (\<lambda>ob. \<not> is_hole ob) (t_heap t)"
proof -
  have "thread_targets t = []" by (simp add: thread_targets_def assms(2))
  moreover have "unheap [] h = h" for h by (simp add: unheap_def map_nth)
  ultimately show ?thesis using assms by (simp add: hole_inv_def)
qed

lemma pl_unwind_frames_inv:
  assumes "hole_inv h0 t" "base \<le> length (t_fs t)"
  shows "\<exists>h us. pl_unwind_frames base t = Inr (t\<lparr>t_heap := h, t_us := us, t_fs := drop (length (t_fs t) - base) (t_fs t)\<rparr>) \<and>
    hole_inv h0 (t\<lparr>t_heap := h, t_us := us, t_fs := drop (length (t_fs t) - base) (t_fs t)\<rparr>)"
  using unwind_loop_inv[OF assms(1) append_take_drop_id[symmetric]] assms(2) unfolding pl_unwind_frames_def by simp

end
