(* ===== verification/Eval_Quiet.thy ===== *)
theory Eval_Quiet
  imports Eval_Holes
begin

text \<open>
  Which labels of the machine leave the black holes and their owners alone. All of them do, but for
  the entry of a thunk and the return to its frame; those are treated in \<open>Eval_Safe\<close>. What the machine calls through
  pointers must do the same: the locale \<open>quiet_ops\<close>, which the table of bodies satisfies.
\<close>

subsection \<open>Outcomes\<close>

text \<open>A property of the thread a label leaves, where the label does not end the run.\<close>

fun out_ok :: "(pl_thread \<Rightarrow> bool) \<Rightarrow> outcome \<Rightarrow> bool" where
  "out_ok P (Goto c t) = P t"
| "out_ok P (Stop s t) = ((s = PL_RUN_YIELDED \<or> s = PL_RUN_BLOCKED) \<and> t_centry t = 0 \<and> P t)"
| "out_ok P (Raised e t) = P t"
| "out_ok P _ = True"

lemma out_ok_hk: "(\<And>x. r = Inr x \<Longrightarrow> out_ok P (k x)) \<Longrightarrow> out_ok P (hk r k)"
  by (auto simp: hk_def split: sum.splits hfault.splits)

lemma out_ok_mono: "out_ok P r \<Longrightarrow> (\<And>t. P t \<Longrightarrow> Q t) \<Longrightarrow> out_ok Q r"
  by (cases r) auto

subsection \<open>Constructors and updates of the heap\<close>

named_theorems quiet_heap

lemma mk_app_from_quiet [quiet_heap]: "pl_mk_app_from_h h f xs = Inr (h', v) \<Longrightarrow> heap_quiet h h'"
  by (auto simp: pl_mk_app_from_h_def res_simps split: if_splits)

lemma mk_app_snoc_quiet [quiet_heap]: "pl_mk_app_snoc_h h f x = Inr (h', v) \<Longrightarrow> heap_quiet h h'"
  by (cases f) (auto simp: pl_mk_app_snoc_h_def res_simps split: prod.splits)

lemma mk_app_cat_quiet [quiet_heap]: "pl_mk_app_cat_h h f xs = Inr (h', v) \<Longrightarrow> heap_quiet h h'"
  using mk_app_from_quiet[of h f xs h' v]
  by (cases f) (auto simp: pl_mk_app_cat_h_def res_simps split: if_splits prod.splits)

lemma mk_app_take_quiet [quiet_heap]: "pl_mk_app_take_h h f n = Inr (h', v) \<Longrightarrow> heap_quiet h h'"
  by (cases f) (auto simp: pl_mk_app_take_h_def res_simps split: if_splits prod.splits)

lemma kal1_quiet [quiet_heap]: "pl_kal1 h env x = Inr (h', v) \<Longrightarrow> heap_quiet h h'"
  by (auto simp: pl_kal1_def pl_mk_thunk_h_def res_simps split: gval.splits pnat.splits if_splits prod.splits)

lemma build_env_quiet [quiet_heap]: "build_env h grp binds = (h', v) \<Longrightarrow> heap_quiet h h'"
  by (auto simp: build_env_def Let_def intro!: heap_quiet_append)

lemma nf_writeback_quiet [quiet_heap]: "pl_nf_writeback_h h v k w = Inr h' \<Longrightarrow> heap_quiet h h'"
  by (auto simp: pl_nf_writeback_h_def res_simps obj_kept_def split: gval.splits obj.splits if_splits
      intro!: heap_quiet_update)

lemma mark_normal_quiet [quiet_heap]: "mark_normal h v = Inr h' \<Longrightarrow> heap_quiet h h'"
  by (auto simp: mark_normal_def Let_def res_simps obj_kept_def split: gval.splits obj.splits
      intro!: heap_quiet_update)

lemma mk_thke_quiet [quiet_heap]: "pl_mk_thke_h h b xs = (h', v) \<Longrightarrow> heap_quiet h h'"
  by (auto simp: pl_mk_thke_h_def)

subsection \<open>Stack operations\<close>

lemma quiet_fields [simp]:
  "quiet t (pl_vpush v t') \<longleftrightarrow> quiet t t'" "quiet t (vpushes xs t') \<longleftrightarrow> quiet t t'"
  "quiet t (set_vsp n t') \<longleftrightarrow> quiet t t'"
  "quiet t (t'\<lparr>t_fuel := f\<rparr>) \<longleftrightarrow> quiet t t'" "quiet t (t'\<lparr>t_centry := c\<rparr>) \<longleftrightarrow> quiet t t'"
  "quiet t (t'\<lparr>t_epoch := w\<rparr>) \<longleftrightarrow> quiet t t'" "quiet t (t'\<lparr>t_result := v\<rparr>) \<longleftrightarrow> quiet t t'"
  "quiet t (t'\<lparr>t_resume_kind := rk\<rparr>) \<longleftrightarrow> quiet t t'" "quiet t (t'\<lparr>t_resume_val := v\<rparr>) \<longleftrightarrow> quiet t t'"
  "quiet t (t'\<lparr>t_blocked_on := v\<rparr>) \<longleftrightarrow> quiet t t'" "quiet t (t'\<lparr>t_pending_yield := p\<rparr>) \<longleftrightarrow> quiet t t'"
  "quiet t (t'\<lparr>t_vs := vs\<rparr>) \<longleftrightarrow> quiet t t'" "quiet t (t'\<lparr>t_memo := mm\<rparr>) \<longleftrightarrow> quiet t t'"
  "quiet t (t'\<lparr>t_exn := v\<rparr>) \<longleftrightarrow> quiet t t'" "quiet t (t'\<lparr>t_exn_msg := msg\<rparr>) \<longleftrightarrow> quiet t t'"
  by (simp_all add: quiet_def stack_defs)

lemma quiet_fields_l [simp]:
  "quiet (t\<lparr>t_fuel := f\<rparr>) t' \<longleftrightarrow> quiet t t'" "quiet (t\<lparr>t_centry := c\<rparr>) t' \<longleftrightarrow> quiet t t'"
  "quiet (t\<lparr>t_epoch := w\<rparr>) t' \<longleftrightarrow> quiet t t'" "quiet (pl_vpush v t) t' \<longleftrightarrow> quiet t t'"
  "quiet (vpushes xs t) t' \<longleftrightarrow> quiet t t'" "quiet (set_vsp n t) t' \<longleftrightarrow> quiet t t'"
  "quiet (t\<lparr>t_vs := vs\<rparr>) t' \<longleftrightarrow> quiet t t'"
  by (simp_all add: quiet_def stack_defs)

lemma quiet_fpush [simp]: "\<not> is_upd fr \<Longrightarrow> quiet t (pl_fpush fr t') \<longleftrightarrow> quiet t t'"
  by (simp add: quiet_def pl_fpush_def)

lemma quiet_fpop [simp]: "t_fs t' \<noteq> [] \<Longrightarrow> \<not> is_upd (hd (t_fs t')) \<Longrightarrow> quiet t (fpop t') \<longleftrightarrow> quiet t t'"
  by (cases "t_fs t'") (simp_all add: quiet_def fpop_def)

lemma quiet_set_heap: "quiet t t' \<Longrightarrow> heap_quiet (t_heap t') h \<Longrightarrow> quiet t (set_heap h t')"
  by (auto simp: quiet_def set_heap_def) (blast intro: heap_quiet_trans)+

lemma quiet_vput [simp]: "vput i v t' = Inr t'' \<Longrightarrow> quiet t t'' \<longleftrightarrow> quiet t t'"
  by (auto simp: vput_def split: if_splits)

lemma stack_fields [simp]:
  "t_fs (pl_vpush v t) = t_fs t" "t_fs (vpushes xs t) = t_fs t" "t_fs (set_vsp n t) = t_fs t"
  "t_fs (set_heap h t) = t_fs t" "t_fs (pl_fpush fr t) = fr # t_fs t" "t_fs (fpop t) = tl (t_fs t)"
  "t_heap (pl_vpush v t) = t_heap t" "t_heap (vpushes xs t) = t_heap t" "t_heap (set_vsp n t) = t_heap t"
  "t_heap (set_heap h t) = h" "t_heap (pl_fpush fr t) = t_heap t" "t_heap (fpop t) = t_heap t"
  "t_us (pl_vpush v t) = t_us t" "t_us (vpushes xs t) = t_us t" "t_us (set_vsp n t) = t_us t"
  "t_us (set_heap h t) = t_us t" "t_us (pl_fpush fr t) = t_us t" "t_us (fpop t) = t_us t"
  "t_vs (pl_vpush v t) = t_vs t @ [v]" "t_vs (vpushes xs t) = t_vs t @ xs" "t_vs (set_vsp n t) = take n (t_vs t)"
  "t_vs (set_heap h t) = t_vs t" "t_vs (pl_fpush fr t) = t_vs t" "t_vs (fpop t) = t_vs t"
  "t_base_fsp (pl_vpush v t) = t_base_fsp t" "t_base_fsp (vpushes xs t) = t_base_fsp t"
  "t_base_fsp (set_vsp n t) = t_base_fsp t" "t_base_fsp (set_heap h t) = t_base_fsp t"
  "t_base_fsp (pl_fpush fr t) = t_base_fsp t" "t_base_fsp (fpop t) = t_base_fsp t"
  "t_base_vsp (pl_vpush v t) = t_base_vsp t" "t_base_vsp (vpushes xs t) = t_base_vsp t"
  "t_base_vsp (set_vsp n t) = t_base_vsp t" "t_base_vsp (set_heap h t) = t_base_vsp t"
  "t_base_vsp (pl_fpush fr t) = t_base_vsp t" "t_base_vsp (fpop t) = t_base_vsp t"
  "t_centry (pl_vpush v t) = t_centry t" "t_centry (vpushes xs t) = t_centry t"
  "t_centry (set_vsp n t) = t_centry t" "t_centry (set_heap h t) = t_centry t"
  "t_centry (pl_fpush fr t) = t_centry t" "t_centry (fpop t) = t_centry t"
  by (simp_all add: stack_defs)

lemma vput_fields: "vput i v t = Inr t' \<Longrightarrow> t' = t\<lparr>t_vs := (t_vs t)[i := v]\<rparr> \<and> i < length (t_vs t)"
  by (auto simp: vput_def split: if_splits)

lemma fuel_step_quiet: "fuel_step t = (y, t') \<Longrightarrow> quiet t t'"
  by (auto simp: fuel_step_def pl_yield_now_def Let_def split: if_splits)

lemma fuel_step_yield: "fuel_step t = (True, t') \<Longrightarrow> t_centry t' = 0"
  by (auto simp: fuel_step_def pl_yield_now_def Let_def split: if_splits)

lemma fuel_step_fields:
  "fuel_step t = (y, t') \<Longrightarrow> t_fs t' = t_fs t \<and> t_vs t' = t_vs t \<and> t_heap t' = t_heap t \<and> t_us t' = t_us t"
  by (auto simp: fuel_step_def pl_yield_now_def Let_def split: if_splits)

subsection \<open>Labels outside the bytecode\<close>

lemmas out_splits = gval.splits pnat.splits obj.splits option.splits prod.splits list.splits if_splits code_slot.splits

lemma thke_slow_quiet: "out_ok (quiet t) (thke_slow args t)"
  by (simp add: thke_slow_def)

lemma run_thke_quiet: "out_ok (quiet t) (run_thke v t)"
  by (cases v) (auto simp: run_thke_def Let_def thke_slow_quiet split: obj.splits option.splits intro!: out_ok_hk)

lemma run_expr_quiet: "out_ok (quiet t) (run_expr env expr t)"
  by (auto simp: run_expr_def split: gval.splits pnat.splits
      intro!: out_ok_hk quiet_set_heap dest!: quiet_heap) (blast intro: heap_quiet_trans)+

lemma run_fast_apply_quiet: "out_ok (quiet t) (run_fast_apply hbase t)"
  by (auto simp: run_fast_apply_def Let_def split: gval.splits pnat.splits intro!: out_ok_hk)

lemma strict_loop_vs: "strict_loop entry args is t = Inr (t', k) \<Longrightarrow> \<exists>vs. t' = t\<lparr>t_vs := vs\<rparr> \<and> length vs = length (t_vs t) \<and>
    take args vs = take args (t_vs t)"
proof (induction "is" arbitrary: t)
  case Nil
  then show ?case by (auto intro: exI[of _ "t_vs t"])
next
  case (Cons i "is")
  obtain v where v: "vslot t (args + i) = Inr v" using Cons.prems by (auto simp: res_simps)
  show ?case
  proof (cases "gval_is_whnf v")
    case True
    then show ?thesis using Cons v by simp
  next
    case False
    obtain w where w: "pl_resolve_h (t_heap t) v = Inr w" using Cons.prems v False by (auto simp: res_simps)
    show ?thesis
    proof (cases "gval_is_whnf w")
      case True
      obtain t1 where t1: "vput (args + i) w t = Inr t1" "strict_loop entry args is t1 = Inr (t', k)"
        using Cons.prems v False w True by (auto simp: res_simps)
      have "t1 = t\<lparr>t_vs := (t_vs t)[args + i := w]\<rparr>" using vput_fields[OF t1(1)] by blast
      then show ?thesis using Cons.IH[OF t1(2)] by auto
    next
      case F: False
      then have "t' = t\<lparr>t_vs := t_vs t\<rparr>" using Cons.prems v False w by simp
      then show ?thesis by blast
    qed
  qed
qed

lemma strict_entry_vs:
  "pl_strict_entry code args argc t = Inr (t', k) \<Longrightarrow> \<exists>vs. t' = t\<lparr>t_vs := vs\<rparr> \<and> length vs = length (t_vs t) \<and>
    take args vs = take args (t_vs t)"
  unfolding pl_strict_entry_def Let_def by (auto split: if_splits dest: strict_loop_vs intro: exI[of _ "t_vs t"])

lemma strict_entry_quiet: "pl_strict_entry code args argc t = Inr (t', k) \<Longrightarrow> quiet t t' \<and> t_fs t' = t_fs t"
  by (auto dest!: strict_entry_vs)

lemma enter_execv_quiet: "out_ok (quiet t) (enter_execv code hbase argc t)"
  by (auto simp: enter_execv_def intro!: out_ok_hk dest: strict_entry_quiet)

lemma judge_naive_quiet: "out_ok (quiet t) (judge_naive hbase argc t)"
  by (auto simp: judge_naive_def intro!: out_ok_hk)

lemma judge_block_quiet: "out_ok (quiet t) (judge_block C hbase argc t)"
  by (auto simp: judge_block_def judge_naive_quiet split: gval.splits option.splits intro!: out_ok_hk)

lemma op_args_ready_quiet: "out_ok (quiet t) (op_args_ready i b n t)"
  by (simp add: op_args_ready_def)

lemma op_args_loop_quiet: "out_ok (quiet t) (op_args_loop i b n ks t)"
proof (induction i b n ks t rule: op_args_loop.induct)
  case (2 i b n k ks t)
  then show ?case by (auto intro!: out_ok_hk)
qed (simp add: op_args_ready_quiet)

lemma oparg_loop_quiet: "t_fs t = fr # fs \<Longrightarrow> \<not> is_upd fr \<Longrightarrow> out_ok (quiet t) (oparg_loop op b n ks t)"
proof (induction op b n ks t rule: oparg_loop.induct)
  case (1 op b n t)
  then show ?case by auto
next
  case (2 op b n k ks t)
  then show ?case by (auto intro!: out_ok_hk)
qed

lemma run_oparg_next_quiet: "out_ok (quiet t) (run_oparg_next t)"
  by (auto simp: run_oparg_next_def split: list.splits mframe.splits intro: oparg_loop_quiet)

lemma run_opdeep_next_quiet: "out_ok (quiet t) (run_opdeep_next t)"
  by (auto simp: run_opdeep_next_def split: list.splits mframe.splits intro!: out_ok_hk)

lemma ret_kapp_quiet:
  assumes "t_fs t = fr # fs" "\<not> is_upd fr"
  shows "out_ok (quiet t) (ret_kapp env expr k argbase v t)"
  using assms unfolding ret_kapp_def
  by (auto intro!: out_ok_hk quiet_set_heap dest!: quiet_heap vput_fields simp: quiet_def)

lemma ret_apply_quiet:
  assumes "t_fs t = fr # fs" "\<not> is_upd fr"
  shows "out_ok (quiet t) (ret_apply x v t)"
  using assms unfolding ret_apply_def
  by (auto intro!: out_ok_hk quiet_set_heap dest!: quiet_heap)

lemma ret_opent_quiet:
  assumes "t_fs t = fr # fs" "\<not> is_upd fr"
  shows "out_ok (quiet t) (ret_opent opset v t)"
  using assms unfolding ret_opent_def Let_def by (auto intro!: out_ok_hk)

lemma ret_nf_quiet:
  assumes "t_fs t = fr # fs" "\<not> is_upd fr"
  shows "out_ok (quiet t) (ret_nf v t)"
  using assms unfolding ret_nf_def by (auto intro!: out_ok_hk)

lemma ret_nfobj_quiet:
  assumes "t_fs t = fr # fs" "\<not> is_upd fr"
  shows "out_ok (quiet t) (ret_nfobj a k v t)"
  using assms unfolding ret_nfobj_def
  by (auto intro!: out_ok_hk quiet_set_heap dest!: quiet_heap) (blast intro: heap_quiet_trans)+

lemma ret_try_quiet:
  assumes "t_fs t = fr # fs" "\<not> is_upd fr"
  shows "out_ok (quiet t) (ret_try v t)"
  using assms unfolding ret_try_def by (auto intro!: out_ok_hk quiet_set_heap dest!: quiet_heap)

lemma memo_record_fields [simp]:
  "t_fs (pl_memo_record fh xh w t) = t_fs t" "t_vs (pl_memo_record fh xh w t) = t_vs t"
  "t_heap (pl_memo_record fh xh w t) = t_heap t" "t_us (pl_memo_record fh xh w t) = t_us t"
  "quiet t1 (pl_memo_record fh xh w t) = quiet t1 t"
  by (simp_all add: pl_memo_record_def)

lemma ret_memo_quiet:
  assumes "t_fs t = fr # fs" "\<not> is_upd fr"
  shows "out_ok (quiet t) (ret_memo f x epoch v t)"
  using assms unfolding ret_memo_def
  by (auto split: option.splits prod.splits intro!: out_ok_hk)

lemma filter_apply [simp]: "filter is_upd (map PL_F_APPLY xs) = []"
  by (induction xs) simp_all

lemma applyn_enter_quiet: "out_ok (quiet t) (applyn_enter pbase a v t)"
  by (auto simp: applyn_enter_def split: gval.splits intro!: out_ok_hk)

lemma ret_applyn_quiet:
  assumes "t_fs t = fr # fs" "\<not> is_upd fr"
  shows "out_ok (quiet t) (ret_applyn pbase m v t)"
proof -
  let ?t = "\<lambda>a. set_vsp (pbase + a) ((fpop t)\<lparr>t_fs := map PL_F_APPLY (drop a (take m (drop pbase (t_vs t)))) @ tl (t_fs t)\<rparr>)"
  have q: "quiet t (?t a)" for a
    using assms by (simp add: quiet_def fpop_def)
  have "out_ok (quiet t) (applyn_enter pbase a v (?t a))" for a
    using applyn_enter_quiet by (rule out_ok_mono) (rule quiet_trans[OF q])
  then show ?thesis using assms unfolding ret_applyn_def Let_def
    by (auto intro!: out_ok_hk quiet_set_heap dest!: quiet_heap)
qed

subsection \<open>Bytecode\<close>

lemma top_exec_fs: "top_exec t = Some fr \<Longrightarrow> \<exists>fs. t_fs t = exec_frame fr # fs"
  by (auto simp: top_exec_def exec_frame_def split: list.splits mframe.splits)

lemma exec_frame_upd [simp]: "\<not> is_upd (exec_frame fr)"
  by (simp add: exec_frame_def)

definition on_exec :: "pl_thread \<Rightarrow> bool" where
  "on_exec t \<longleftrightarrow> t_fs t \<noteq> [] \<and> \<not> is_upd (hd (t_fs t))"

lemma top_exec_on: "top_exec t = Some fr \<Longrightarrow> on_exec t"
  by (auto simp: on_exec_def dest: top_exec_fs)

lemma on_exec_fields [simp]:
  "on_exec (pl_vpush v t) = on_exec t" "on_exec (vpushes xs t) = on_exec t" "on_exec (set_vsp n t) = on_exec t"
  "on_exec (set_heap h t) = on_exec t" "on_exec (t\<lparr>t_fuel := f\<rparr>) = on_exec t" "on_exec (t\<lparr>t_vs := vs\<rparr>) = on_exec t"
  "\<not> is_upd fr \<Longrightarrow> on_exec (pl_fpush fr t)"
  by (simp_all add: on_exec_def)

lemma quiet_fpop_exec [simp]: "on_exec t' \<Longrightarrow> quiet t (fpop t') \<longleftrightarrow> quiet t t'"
  by (simp add: on_exec_def)

lemma quiet_XSYNC [simp]: "on_exec t' \<Longrightarrow> quiet t (XSYNC fr pc t') \<longleftrightarrow> quiet t t'"
  by (simp add: XSYNC_def)

lemma on_exec_XSYNC [simp]: "on_exec (XSYNC fr pc t)"
  by (simp add: XSYNC_def)

lemma XSYNC_fields [simp]: "t_centry (XSYNC fr pc t) = t_centry t" "t_heap (XSYNC fr pc t) = t_heap t" "t_vs (XSYNC fr pc t) = t_vs t" "t_us (XSYNC fr pc t) = t_us t"
  by (simp_all add: XSYNC_def)

lemma vreplace_quiet [simp]: "quiet t (pl_vreplace n r t') \<longleftrightarrow> quiet t t'"
  by (simp add: pl_vreplace_def)

lemma tail_move_quiet [simp]: "on_exec t' \<Longrightarrow> quiet t (tail_move fr pre xs t') \<longleftrightarrow> quiet t t'"
  by (simp add: tail_move_def)

lemma fuel_step_on: "fuel_step t = (y, t') \<Longrightarrow> on_exec t' = on_exec t"
  by (auto simp: on_exec_def dest: fuel_step_fields)

lemma underflow_quiet [simp]: "out_ok (quiet t) (underflow t') \<longleftrightarrow> quiet t t'"
  by (simp add: underflow_def)

lemma x_push_quiet:
  "out_ok (quiet t) (x_push_var fr pc t)" "out_ok (quiet t) (x_push_lit fr pc t)" "out_ok (quiet t) (x_push_slot fr pc t)"
  unfolding x_push_var_def x_push_lit_def x_push_slot_def by (auto intro!: out_ok_hk)

lemma mk_known_quiet: "mk_known idx rawbane argc t = (t', v) \<Longrightarrow> quiet t t' \<and> t_fs t' = t_fs t"
  by (auto simp: mk_known_def Let_def pl_mk_thke_h_def intro!: quiet_set_heap split: if_splits)

lemma mk_thk_known_quiet: "out_ok (quiet t) (mk_thk_known idx rawbane argc pc t)"
  by (auto simp: mk_thk_known_def split: prod.splits dest: mk_known_quiet)

lemma mk_thk_spec_quiet: "out_ok (quiet t) (mk_thk_spec idx rawbane argc spec pc t)"
  unfolding mk_thk_spec_def Let_def
  by (intro out_ok_hk) (auto split: option.splits simp: mk_thk_known_quiet)

lemma spec_ready_vs: "spec_ready idx ab ks t = Inr (t', r) \<Longrightarrow> \<exists>vs. t' = t\<lparr>t_vs := vs\<rparr> \<and> length vs = length (t_vs t) \<and>
    take ab vs = take ab (t_vs t)"
proof (induction ks arbitrary: t)
  case Nil
  then show ?case by (auto intro: exI[of _ "t_vs t"])
next
  case (Cons k ks)
  show ?case
  proof (cases "bit (op_strict (pl_ops ! idx)) k")
    case True
    obtain v where v: "vslot t (ab + k) = Inr v" using Cons.prems True by (auto simp: res_simps)
    show ?thesis
    proof (cases "gval_is_whnf v")
      case False
      obtain w where w: "pl_resolve_h (t_heap t) v = Inr w" using Cons.prems v False True by (auto simp: res_simps)
      show ?thesis
      proof (cases "gval_is_whnf w")
        case W: True
        obtain t1 where t1: "vput (ab + k) w t = Inr t1" "spec_ready idx ab ks t1 = Inr (t', r)"
          using Cons.prems v False w W True by (auto simp: res_simps)
        have "t1 = t\<lparr>t_vs := (t_vs t)[ab + k := w]\<rparr>" using vput_fields[OF t1(1)] by blast
        then show ?thesis using Cons.IH[OF t1(2)] by auto
      next
        case W: False
        then have "t' = t\<lparr>t_vs := t_vs t\<rparr>" using Cons.prems v False w True by simp
        then show ?thesis by blast
      qed
    qed (use Cons v True in simp)
  qed (use Cons in simp)
qed

lemma x_mk_app_quiet: "out_ok (quiet t) (x_mk_app fr pc t)"
  unfolding x_mk_app_def Let_def by (auto intro!: out_ok_hk quiet_set_heap dest!: quiet_heap)

lemma reify_quiet: "on_exec t \<Longrightarrow> pl_exec_reify_env fr t = Inr (fr', t') \<Longrightarrow> quiet t t' \<and> on_exec t'"
  by (auto simp: pl_exec_reify_env_def split: if_splits intro!: quiet_set_heap)

lemma x_interp_quiet: "on_exec t \<Longrightarrow> out_ok (quiet t) (x_interp fr pc t)"
  unfolding x_interp_def by (auto intro!: out_ok_hk dest: reify_quiet)

lemma x_ret_quiet:
  "on_exec t \<Longrightarrow> out_ok (quiet t) (x_ret fr t)" "on_exec t \<Longrightarrow> out_ok (quiet t) (x_ret_ready fr t)"
  "on_exec t \<Longrightarrow> out_ok (quiet t) (x_force fr pc t)" "on_exec t \<Longrightarrow> out_ok (quiet t) (x_force_ready fr pc t)"
  unfolding x_ret_def x_ret_ready_def x_force_def x_force_ready_def Let_def by auto

lemma tail_fallback_quiet: "on_exec t \<Longrightarrow> out_ok (quiet t) (tail_fallback fr argc rawbane idx t)"
  unfolding tail_fallback_def
  by (auto split: prod.splits if_splits dest!: mk_known_quiet quiet_heap simp: on_exec_def intro!: quiet_set_heap)

lemma op_args_ready_quiet': "quiet t t' \<Longrightarrow> out_ok (quiet t) (op_args_ready i b n t')"
  using op_args_ready_quiet by (rule out_ok_mono) (rule quiet_trans)

lemma enter_op_quiet: "out_ok (quiet t) (enter_op ready idx b n t)"
  by (auto simp: enter_op_def Let_def intro: op_args_ready_quiet')

lemma enter_op_quiet': "quiet t t' \<Longrightarrow> out_ok (quiet t) (enter_op ready idx b n t')"
  using enter_op_quiet by (rule out_ok_mono) (rule quiet_trans)

lemma tail_enter_quiet: "on_exec t \<Longrightarrow> out_ok (quiet t) (tail_enter fr ready argc rawbane idx t)"
  unfolding tail_enter_def Let_def
  by (auto intro!: out_ok_hk enter_op_quiet' tail_fallback_quiet split: option.splits)

lemma tail_quiet':
  "quiet t t' \<Longrightarrow> on_exec t' \<Longrightarrow> out_ok (quiet t) (tail_enter fr ready argc rawbane idx t')"
  "quiet t t' \<Longrightarrow> on_exec t' \<Longrightarrow> out_ok (quiet t) (tail_fallback fr argc rawbane idx t')"
  using tail_enter_quiet[of t'] tail_fallback_quiet[of t'] by (blast intro: out_ok_mono quiet_trans)+

lemma x_tail_quiet: "on_exec t \<Longrightarrow> out_ok (quiet t) (x_tail fr ready pc t)"
  unfolding x_tail_def Let_def by (auto intro!: out_ok_hk tail_quiet')

lemma x_jump_quiet: "on_exec t \<Longrightarrow> out_ok (quiet t) (x_jump fr pc target t)"
  unfolding x_jump_def by (auto split: prod.splits bool.splits dest: fuel_step_quiet fuel_step_yield simp: fuel_step_on)

lemma x_jump_quiet': "quiet t t' \<Longrightarrow> on_exec t' \<Longrightarrow> out_ok (quiet t) (x_jump fr pc target t')"
  using x_jump_quiet by (rule out_ok_mono) (assumption, rule quiet_trans)

lemma x_jumps_quiet:
  "on_exec t \<Longrightarrow> out_ok (quiet t) (x_br fr pc t)" "on_exec t \<Longrightarrow> out_ok (quiet t) (x_jmp fr pc t)"
  "on_exec t \<Longrightarrow> out_ok (quiet t) (x_tailblk fr pc t)"
  unfolding x_br_def x_jmp_def x_tailblk_def Let_def
  by (auto intro!: out_ok_hk x_jump_quiet' split: option.splits)

lemma fuel_step_XSYNC:
  assumes "on_exec t" "fuel_step (XSYNC fr pc t) = (y, t')"
  shows "quiet t t' \<and> on_exec t'"
  using fuel_step_quiet[OF assms(2)] fuel_step_on[OF assms(2)] quiet_trans[of t "XSYNC fr pc t" t'] assms(1) by simp

text \<open>The two ways a fuel step at a call goes on.\<close>

lemma fuel_call_quiet:
  assumes "on_exec t" "\<And>t'. quiet t t' \<Longrightarrow> on_exec t' \<Longrightarrow> out_ok (quiet t) (go t')"
  shows "out_ok (quiet t) (case fuel_step (XSYNC fr pc t) of
    (True, t') \<Rightarrow> Stop PL_RUN_YIELDED ((XSYNC fr pc' t')\<lparr>t_resume_kind := PL_RES_RUN\<rparr>) | (False, t') \<Rightarrow> go t')"
proof -
  obtain y t' where f: "fuel_step (XSYNC fr pc t) = (y, t')" by force
  show ?thesis using fuel_step_XSYNC[OF assms(1) f] assms(2)[of t'] fuel_step_yield[of "XSYNC fr pc t"] f
    by (cases y) simp_all
qed

lemma x_call_quiet: "on_exec t \<Longrightarrow> out_ok (quiet t) (x_call fr pc t)"
  unfolding x_call_def Let_def
  by (intro out_ok_hk) (auto intro!: fuel_call_quiet)

lemma x_call_known_quiet: "on_exec t \<Longrightarrow> out_ok (quiet t) (x_call_known fr ready pc t)"
  unfolding x_call_known_def Let_def by (auto intro!: out_ok_hk enter_op_quiet')

lemma call_slow_quiet: "quiet t t' \<Longrightarrow> out_ok (quiet t) (call_slow nargs t')"
  unfolding call_slow_def Let_def by (auto intro!: out_ok_hk)

lemma x_call_fast_quiet: "on_exec t \<Longrightarrow> out_ok (quiet t) (x_call_fast fr pc t)"
  unfolding x_call_fast_def Let_def
  by (intro out_ok_hk) (auto intro!: out_ok_hk call_slow_quiet fuel_call_quiet)

lemma x_call_slow_quiet: "on_exec t \<Longrightarrow> out_ok (quiet t) (x_call_slow fr pc t)"
  unfolding x_call_slow_def Let_def by (auto intro!: out_ok_hk call_slow_quiet)

lemma x_num_quiet:
  "on_exec t \<Longrightarrow> out_ok (quiet t) (x_num fr op pc t)" "on_exec t \<Longrightarrow> out_ok (quiet t) (x_tail_num fr op pc t)"
  unfolding x_num_def x_tail_num_def by (auto split: option.splits simp: x_call_known_quiet x_tail_quiet)


subsection \<open>What the machine calls\<close>

fun body_quiet :: "pl_thread \<Rightarrow> body_res \<Rightarrow> bool" where
  "body_quiet t (Body_val r t') = quiet t t'"
| "body_quiet t (Body_raise e t') = quiet t t'"
| "body_quiet t (Body_fault f) = True"

fun hook_quiet :: "pl_thread \<Rightarrow> hook_res \<Rightarrow> bool" where
  "hook_quiet t (Hook_no t') = quiet t t'"
| "hook_quiet t (Hook_yes r t') = quiet t t'"
| "hook_quiet t (Hook_raise e t') = quiet t t'"

lemma out_ok_fault: "out_ok P (hk (Inl f) k)"
  by (rule out_ok_hk) simp

locale quiet_ops =
  fixes C :: cfg
  assumes body: "body_quiet t (cf_body C name t ab)"
    and hook: "cf_hook C = Some hk' \<Longrightarrow> hook_quiet t (hk' t hbase argc)"
    and effect: "cf_effect C = Some eff \<Longrightarrow> quiet t (eff t)"
    and io: "cf_io C = Some io' \<Longrightarrow> hook_quiet t (io' t opi ab)"
    and demand: "heap_quiet h (fst (cf_demand C h a))"
begin

lemma call_body_quiet: "body_quiet t (call_body C opi ab t)"
proof (cases "cf_io C")
  case None
  then show ?thesis using body by (simp add: call_body_def Let_def)
next
  case (Some f)
  show ?thesis
  proof (cases "f t opi ab")
    case (Hook_no t')
    have q: "quiet t t'" using io[OF Some, of t opi ab] Hook_no by simp
    show ?thesis using body[of t "op_fn (pl_ops ! opi)" ab] body[of t' "op_fn (pl_ops ! opi)" ab] Some Hook_no
      by (cases "cf_body C (op_fn (pl_ops ! opi)) t' ab") (auto simp: call_body_def Let_def intro: quiet_trans[OF q])
  qed (use body io[OF Some, of t opi ab] Some in \<open>auto simp: call_body_def Let_def\<close>)
qed

lemma body_done_quiet: "quiet t t' \<Longrightarrow> out_ok (quiet t) (body_done opi ab r t')"
  by (simp add: body_done_def Let_def)

lemma run_op_body_ready_quiet: "out_ok (quiet t) (run_op_body_ready C opi ab t)"
proof -
  define t1 where "t1 = t\<lparr>t_centry := t_centry t + 1\<rparr>"
  define t2 where "t2 = (if 82 \<le> op_set_of (pl_ops ! opi) then t1\<lparr>t_epoch := t_epoch t1 + 1\<rparr> else t1)"
  define t3 where "t3 = (case cf_effect C of Some f \<Rightarrow> if op_host (pl_ops ! opi) then f t2 else t2 | None \<Rightarrow> t2)"
  have "quiet t t2" by (simp add: t2_def t1_def)
  moreover have "quiet t2 t3" using effect by (simp add: t3_def split: option.splits)
  ultimately have q: "quiet t t3" by (rule quiet_trans)
  show ?thesis using call_body_quiet[of t3 opi ab]
    unfolding run_op_body_ready_def Let_def t1_def[symmetric] t2_def[symmetric] t3_def[symmetric]
    by (cases "call_body C opi ab t3") (auto intro: body_done_quiet out_ok_fault quiet_trans[OF q])
qed

lemma law_code_quiet: "pl_law_code C law t = Inr (t', c) \<Longrightarrow> quiet t t' \<and> t_fs t' = t_fs t \<and> t_vs t' = t_vs t"
  by (cases law)
    (auto simp: pl_law_code_def res_simps case_prod_unfold demand split: if_splits code_slot.splits
      intro!: quiet_set_heap)

lemma enter_execv_quiet': "quiet t t' \<Longrightarrow> out_ok (quiet t) (enter_execv code hbase argc t')"
  using enter_execv_quiet by (rule out_ok_mono) (rule quiet_trans)

lemma judge_quiet':
  "quiet t t' \<Longrightarrow> out_ok (quiet t) (judge_naive hbase argc t')"
  "quiet t t' \<Longrightarrow> out_ok (quiet t) (judge_block C hbase argc t')"
  using judge_naive_quiet[of t'] judge_block_quiet[of t' C] by (blast intro: out_ok_mono quiet_trans)+

lemma judge_entry_quiet: "quiet t t' \<Longrightarrow> out_ok (quiet t) (judge_entry C hbase argc jcode t')"
  unfolding judge_entry_def
  by (intro out_ok_hk) (auto split: option.splits intro!: enter_execv_quiet' judge_quiet' dest!: law_code_quiet
      intro: quiet_trans)

lemma run_judge_quiet: "out_ok (quiet t) (run_judge C hbase argc jcode t)"
proof (cases "cf_hook C")
  case None
  then show ?thesis by (simp add: run_judge_def judge_entry_quiet)
next
  case (Some f)
  show ?thesis using hook[OF Some, of "t\<lparr>t_centry := t_centry t + 1\<rparr>" hbase argc]
    by (cases "f (t\<lparr>t_centry := t_centry t + 1\<rparr>) hbase argc")
      (auto simp: run_judge_def Some intro: judge_entry_quiet)
qed

lemma judge_finish_quiet: "out_ok (quiet t) (judge_finish C jbase jargc t)"
  unfolding judge_finish_def Let_def
  by (intro out_ok_hk)
    (auto split: option.splits prod.splits if_splits intro!: out_ok_hk enter_execv_quiet' quiet_set_heap
      dest!: law_code_quiet strict_entry_quiet quiet_heap, (blast intro: quiet_trans)+)

lemma run_judge_scan_quiet: "out_ok (quiet t) (run_judge_scan C jbase jargc t)"
  unfolding run_judge_scan_def Let_def
  by (intro out_ok_hk) (auto intro!: out_ok_hk judge_finish_quiet dest!: vput_fields)

lemma mk_thk_body_quiet: "out_ok (quiet t) (mk_thk_body C idx rawbane argc pc t)"
  unfolding mk_thk_body_def
proof (rule out_ok_hk, clarify)
  fix t1 ready
  assume s: "spec_ready idx (length (t_vs t) - argc) [0..<argc] t = Inr (t1, ready)"
  have q: "quiet t t1" using spec_ready_vs[OF s] by auto
  have m: "out_ok (quiet t) (mk_thk_spec idx rawbane argc PL_SPEC_BODY pc t1)"
    using mk_thk_spec_quiet by (rule out_ok_mono) (rule quiet_trans[OF q])
  show "out_ok (quiet t) (if ready then
      case cf_body C (op_fn (pl_ops ! idx)) t1 (length (t_vs t1) - argc) of
        Body_val r t' \<Rightarrow> Goto (C_dispatch pc) (pl_vreplace argc r t') | Body_raise e t' \<Rightarrow> Raised e t'
      | Body_fault f \<Rightarrow> hk (Inl f) (\<lambda>_ :: unit. Undefined)
    else mk_thk_spec idx rawbane argc PL_SPEC_BODY pc t1)"
    using m body[of t1 "op_fn (pl_ops ! idx)" "length (t_vs t1) - argc"]
    by (auto split: body_res.splits intro: quiet_trans[OF q] out_ok_fault)
qed

lemma x_mk_thk_quiet: "out_ok (quiet t) (x_mk_thk C fr pc t)"
  unfolding x_mk_thk_def Let_def
  by (intro out_ok_hk) (auto split: prod.splits intro!: out_ok_hk quiet_set_heap mk_thk_known_quiet mk_thk_body_quiet
      mk_thk_spec_quiet dest!: quiet_heap)

lemma exec_op_quiet: "on_exec t \<Longrightarrow> out_ok (quiet t) (exec_op C fr op pc t)"
  unfolding exec_op_def
  by (simp add: x_push_quiet x_mk_thk_quiet x_mk_app_quiet x_interp_quiet x_ret_quiet x_tail_quiet x_jumps_quiet
      x_call_quiet x_call_known_quiet x_call_fast_quiet x_call_slow_quiet x_num_quiet out_ok_hk)

lemma run_dispatch_quiet: "out_ok (quiet t) (run_dispatch C pc t)"
  unfolding run_dispatch_def by (auto split: option.splits intro!: out_ok_hk exec_op_quiet dest: top_exec_on)

end

lemma run_exec_quiet: "out_ok (quiet t) (run_exec t)"
  by (simp add: run_exec_def split: option.splits)

end
