(* ===== verification/Eval_Safe.thy ===== *)
theory Eval_Safe
  imports Eval_Quiet
begin

text \<open>
  Exceptions and black holes. First the bodies of the operations: they satisfy the contract
  \<open>quiet_ops\<close> of the machine. Then the entry of a thunk and the return to its frame, with them every
  step, and the life of a thread: whatever the program does and wherever it stops, unwinding succeeds and
  leaves no black hole behind.
\<close>

subsection \<open>The bodies keep to the contract\<close>

named_theorems bquiet_intro

definition bquiet :: "body \<Rightarrow> bool" where
  "bquiet b \<longleftrightarrow> (\<forall>t ab. body_quiet t (b t ab))"

lemma bquietI: "(\<And>t ab. body_quiet t (b t ab)) \<Longrightarrow> bquiet b"
  by (simp add: bquiet_def)

lemma body_quiet_bk: "(\<And>x. r = Inr x \<Longrightarrow> body_quiet t (k x)) \<Longrightarrow> body_quiet t (bk r k)"
  by (auto simp: bk_def split: sum.splits)

lemma bquiet_ARG [bquiet_intro]: "(\<And>v. bquiet (k v)) \<Longrightarrow> bquiet (ARG i k)"
  by (auto simp: bquiet_def ARG_def intro!: body_quiet_bk)

lemma bquiet_ret [bquiet_intro]: "bquiet (body_ret v)"
  by (simp add: bquiet_def body_ret_def)

lemma quiet_frames [simp]: "filter is_upd frs = [] \<Longrightarrow> quiet t (t'\<lparr>t_fs := frs @ t_fs t'\<rparr>) \<longleftrightarrow> quiet t t'"
  by (simp add: quiet_def)

lemma body_frames_quiet: "filter is_upd frs = [] \<Longrightarrow> quiet t t' \<Longrightarrow> body_quiet t (body_frames frs v t' ab)"
  by (simp add: body_frames_def)

lemma bquiet_frames [bquiet_intro]: "filter is_upd frs = [] \<Longrightarrow> bquiet (body_frames frs v)"
  by (simp add: bquiet_def body_frames_def)

lemma bquiet_alloc [bquiet_intro]: "(\<And>h h' v. f h = Inr (h', v) \<Longrightarrow> heap_quiet h h') \<Longrightarrow> bquiet (body_alloc f)"
  by (auto simp: bquiet_def body_alloc_def intro!: body_quiet_bk quiet_set_heap)

lemma bquiet_heap [bquiet_intro]: "(\<And>x. bquiet (k x)) \<Longrightarrow> bquiet (body_heap f k)"
  by (auto simp: bquiet_def body_heap_def intro!: body_quiet_bk)

lemma bquiet_fault [bquiet_intro]: "bquiet (\<lambda>t ab. Body_fault f)"
  by (simp add: bquiet_def)

lemma bquiet_with [bquiet_intro]:
  "(\<And>x. bquiet (k x)) \<Longrightarrow> bquiet (WITH_APP v k)" "(\<And>x. bquiet (l x)) \<Longrightarrow> bquiet (WITH_LAW v l)"
  by (simp_all add: WITH_APP_def WITH_LAW_def bquiet_heap)

lemma bquiet_nat [bquiet_intro]: "bquiet (nat_body n f)"
  by (auto simp: bquiet_def nat_body_def split: sum.splits prod.splits list.splits pval.splits op_fault.splits fault.splits)

lemma bquiet_pin [bquiet_intro]: "bquiet op_pin_h"
  unfolding op_pin_h_def
proof (rule bquiet_ARG, rule bquietI)
  fix v t ab
  obtain y t1 where f: "fuel_step t = (y, t1)" by force
  show "body_quiet t (if \<not> gval_is_whnf v then Body_fault HUndef
    else case fuel_step t of (y, t') \<Rightarrow> Body_val (GPin (length (t_heap t)))
      ((set_heap (t_heap t @ [K_PIN False True None v None Code_null]) t')\<lparr>t_result := gzero\<rparr>))"
    using fuel_step_quiet[OF f] fuel_step_fields[OF f] by (simp add: f quiet_set_heap)
qed

lemma bquiet_law [bquiet_intro]: "bquiet op_law_h"
  unfolding op_law_h_def Let_def
  by (auto intro!: bquiet_intro simp: pl_mk_law_h_def)

lemma bquiet_elim [bquiet_intro]: "bquiet (op_elim_h M)"
proof -
  have a: "bquiet (elim_app ap o' x)" for ap o' x
    by (cases x) (auto simp: elim_app_def bquiet_def intro!: body_quiet_bk body_frames_quiet quiet_set_heap dest!: quiet_heap)
  have l: "bquiet (elim_law l x)" for l x
    by (cases x) (auto simp: elim_law_def intro!: bquiet_intro)
  have n: "bquiet (\<lambda>t ab. case pl_nat_dec M n of Inr om1 \<Rightarrow> body_frames [PL_F_APPLY (GNat om1)] s t ab
      | Inl (Abort m) \<Rightarrow> Body_fault (HAbort m) | Inl (Raise m) \<Rightarrow> Body_raise (Exn_msg m) t)" for n s
    by (auto simp: bquiet_def body_frames_quiet split: sum.splits fault.splits)
  show ?thesis unfolding op_elim_h_def
    by (rule bquiet_ARG) (auto split: gval.splits intro!: bquiet_intro a l n)
qed

lemmas op_h_defs = op_nil_h_def op_truth_h_def op_or_h_def op_and_h_def op_nor_h_def op_if_h_def op_ifz_h_def
  op_case_k_h_def op_case_h_def op_type_h_def op_is_pin_h_def op_is_law_h_def op_is_app_h_def op_is_nat_h_def
  op_nat_h_def op_arity_h_def op_name_h_def op_body_h_def op_unpin_h_def op_sz_h_def op_hd_h_def op_last_h_def
  op_ix_h_def op_ix_k_h_def op_sap_h_def op_sap2_h_def op_force_h_def op_deepseq_h_def op_init_h_def op_up_h_def
  op_slice_h_def op_weld_h_def op_rep_h_def op_coup_h_def

lemma bquiet_pure [bquiet_intro]:
  "bquiet op_nil_h" "bquiet op_truth_h" "bquiet op_or_h" "bquiet op_and_h" "bquiet op_nor_h" "bquiet op_if_h"
  "bquiet op_ifz_h" "bquiet (op_case_k_h n)" "bquiet op_case_h" "bquiet op_type_h" "bquiet op_is_pin_h"
  "bquiet op_is_law_h" "bquiet op_is_app_h" "bquiet op_is_nat_h" "bquiet op_nat_h" "bquiet op_arity_h"
  "bquiet op_name_h" "bquiet op_body_h" "bquiet op_unpin_h" "bquiet op_sz_h" "bquiet op_hd_h" "bquiet op_last_h"
  "bquiet op_ix_h" "bquiet (op_ix_k_h n)" "bquiet op_sap_h" "bquiet op_sap2_h" "bquiet op_force_h" "bquiet op_deepseq_h"
  by (unfold op_h_defs, intro bquiet_ARG bquiet_with, auto split: option.splits prod.splits gval.splits intro!: bquiet_intro)+

lemma bquiet_rows [bquiet_intro]:
  "bquiet op_init_h" "bquiet op_up_h" "bquiet op_slice_h" "bquiet op_weld_h" "bquiet op_rep_h" "bquiet op_coup_h"
  by (unfold op_h_defs Let_def, intro bquiet_ARG bquiet_with,
      auto split: option.splits prod.splits gval.splits intro!: bquiet_intro dest!: quiet_heap)+

lemma row_build_quiet: "row_build e0 e1 n p h = (h', els) \<Longrightarrow> heap_quiet h h'"
proof (induction n arbitrary: p h h' els)
  case (Suc n)
  define h2 where "h2 = h @ [K_ENV [gzero, p], K_THUNK (GEnv (length h)) e0] @
    (if 0 < n then [K_THUNK (GEnv (length h)) e1] else [])"
  obtain p' els' where r: "row_build e0 e1 n p' h2 = (h', els')"
    using Suc.prems by (auto simp: Let_def pl_mk_thunk_h_def h2_def split: prod.splits if_splits)
  have "heap_quiet h h2" unfolding h2_def by (rule heap_quiet_append) simp
  then show ?case using Suc.IH[OF r] by (rule heap_quiet_trans)
qed simp

lemma bquiet_row [bquiet_intro]: "bquiet (op_row_h ixs)"
proof -
  have "heap_quiet h (h' @ [K_APP False 0 hd' els])" if "row_build e0 e1 n p h = (h', els)" for e0 e1 n p h h' els hd'
    using heap_quiet_trans[OF row_build_quiet[OF that]] by simp
  then show ?thesis unfolding op_row_h_def Let_def
    by (intro bquiet_ARG) (auto split: option.splits prod.splits intro!: bquiet_intro)
qed

lemma memo_probe_quiet: "pl_memo_probe g fh xh t = (r, t') \<Longrightarrow> quiet t t'"
  by (auto simp: pl_memo_probe_def split: option.splits if_splits)

lemma bquiet_control [bquiet_intro]: "bquiet op_throw_h" "bquiet op_try_h" "bquiet (op_memo_h g)"
proof -
  show "bquiet op_throw_h" "bquiet op_try_h"
    unfolding op_throw_h_def op_try_h_def by (intro bquiet_ARG bquietI; simp add: body_frames_quiet)+
  show "bquiet (op_memo_h g)" unfolding op_memo_h_def
    by (intro bquiet_ARG bquiet_heap bquietI)
      (auto split: option.splits prod.splits intro!: body_frames_quiet dest: memo_probe_quiet)
qed

lemma body_table_quiet: "list_all (\<lambda>p. bquiet (snd p)) (body_table M plgc ixs)"
  unfolding body_table_def by (simp add: bquiet_intro)

lemma pl_body_quiet: "(\<And>n. bquiet (ext n)) \<Longrightarrow> bquiet (pl_body M plgc ixs ext name)"
  using body_table_quiet[of M plgc ixs] unfolding pl_body_def list_all_iff
  by (auto split: option.splits dest!: map_of_SomeD)


locale quiet_ext =
  fixes ext :: "string \<Rightarrow> body" and hook :: "(pl_thread \<Rightarrow> nat \<Rightarrow> nat \<Rightarrow> hook_res) option"
    and eff :: "(pl_thread \<Rightarrow> pl_thread) option" and io :: "(pl_thread \<Rightarrow> nat \<Rightarrow> nat \<Rightarrow> hook_res) option"
    and demand :: "heap \<Rightarrow> addr \<Rightarrow> heap \<times> pl_code option"
  assumes ext_quiet: "body_quiet t (ext name t ab)"
    and hook_quiet: "hook = Some f \<Longrightarrow> hook_quiet t (f t hbase argc)"
    and eff_quiet: "eff = Some g \<Longrightarrow> quiet t (g t)"
    and io_quiet: "io = Some f \<Longrightarrow> hook_quiet t (f t opi ab)"
    and demand_quiet: "heap_quiet h (fst (demand h a))"

sublocale quiet_ext \<subseteq> cfgq: quiet_ops "pl_cfg M plgc ixs ext hook eff io demand lawblk" for M plgc ixs lawblk
proof
  show "body_quiet t (cf_body (pl_cfg M plgc ixs ext hook eff io demand lawblk) name t ab)" for t name ab
    using pl_body_quiet[of ext] ext_quiet by (simp add: pl_cfg_def bquiet_def)
qed (use hook_quiet eff_quiet io_quiet demand_quiet in \<open>auto simp: pl_cfg_def\<close>)

text \<open>The machine with nothing linked in.\<close>

interpretation bare: quiet_ext "\<lambda>name t ab. Body_fault HUndef" None None None "\<lambda>h a. (h, None)"
  by unfold_locales simp_all

subsection \<open>Entering a thunk and returning to its frame\<close>

lemma upd_push_inv:
  assumes inv: "hole_inv h0 t" and a: "a < length (t_heap t)" "t_heap t ! a = K_THKE False bane args"
    and p: "pl_push_thke_update base (GDefer a) (set_heap ((t_heap t)[a := K_THKE True bane args]) t) = Inr t'"
  shows "hole_inv h0 t'"
proof -
  let ?h = "(t_heap t)[a := K_THKE True bane args]"
  have us: "us_ok (t_fs t) (t_us t)" and o: "owns h0 (thread_targets t) (t_heap t)"
    using inv by (simp_all add: hole_inv_owns)
  have o': "owns h0 ((GDefer a, None) # thread_targets t) ?h"
    by (rule owns_push[OF o]) (use a in simp_all)
  have "t_heap t' = ?h \<and> us_ok (t_fs t') (t_us t') \<and> thread_targets t' = (GDefer a, None) # thread_targets t"
    using p us
    by (auto simp: pl_push_thke_update_def thread_targets_def chain_targets_def stack_defs
        split: list.splits mframe.splits if_splits)
  then show ?thesis using o' by (simp add: hole_inv_owns)
qed

lemma thunk_push_inv:
  assumes inv: "hole_inv h0 t" and a: "a < length (t_heap t)" "t_heap t ! a = K_THUNK env expr"
  shows "hole_inv h0 (pl_fpush (PL_F_UPDATE (GDefer a) expr) (set_heap ((t_heap t)[a := K_BH env]) t))"
proof -
  have "owns h0 ((GDefer a, Some expr) # thread_targets t) ((t_heap t)[a := K_BH env])"
    by (rule owns_push) (use inv a in \<open>simp_all add: hole_inv_owns\<close>)
  then show ?thesis using inv by (simp add: hole_inv_owns thread_targets_def)
qed

lemma eval_go_inv:
  assumes inv: "hole_inv h0 t"
  shows "out_ok (hole_inv h0) (eval_go base v t)"
proof (cases v)
  case (GDefer a)
  show ?thesis unfolding eval_go_def GDefer
  proof (simp, rule out_ok_hk)
    fix ob
    assume "hget (t_heap t) a = Inr ob"
    then have a: "a < length (t_heap t)" "t_heap t ! a = ob" by auto
    show "out_ok (hole_inv h0) (case ob of
        K_IND w \<Rightarrow> Goto (C_eval w) t | K_BH env \<Rightarrow> Raised (Exn_msg ''<<loop>>'') t
      | K_THUNK env expr \<Rightarrow> Goto (C_expr env expr)
          (pl_fpush (PL_F_UPDATE (GDefer a) expr) (set_heap ((t_heap t)[a := K_BH env]) t))
      | K_THKE hole bane args \<Rightarrow>
          (if bane AND PL_BAN_NOUPD \<noteq> 0 then Goto (C_thke (GDefer a)) t
           else if hole then Raised (Exn_msg ''<<loop>>'') t
           else hk (pl_push_thke_update base (GDefer a) (set_heap ((t_heap t)[a := K_THKE True bane args]) t))
                  (\<lambda>t. Goto (C_thke (GDefer a)) t))
      | _ \<Rightarrow> Crashed ''EVAL: bad defer kind'')"
      using inv thunk_push_inv[OF inv a(1)] upd_push_inv[OF inv a(1)] a(2)
      by (cases ob) (auto intro!: out_ok_hk)
  qed
qed (use inv in \<open>simp_all add: eval_go_def\<close>)


lemma ret_update_inv:
  assumes inv: "hole_inv h0 t" and fs: "t_fs t = PL_F_UPDATE u x # fs"
  shows "out_ok (hole_inv h0) (ret_update u v t)"
  unfolding ret_update_def
proof (rule out_ok_hk)
  fix h
  assume h: "pl_thunk_update_h (t_heap t) u v = Inr h"
  have o: "owns h0 ((u, Some x) # targets fs (t_us t)) (t_heap t)" and us: "us_ok fs (t_us t)"
    using inv fs by (simp_all add: hole_inv_owns thread_targets_def)
  from o obtain a where a: "u = GDefer a" "a < length (t_heap t)" "hole_for (Some x) (t_heap t ! a)" by (rule owns_head)
  from a(3) obtain env where ob: "t_heap t ! a = K_BH env" by (elim hole_forE) auto
  have "h = (t_heap t)[a := K_IND v]" using h a ob by (simp add: pl_thunk_update_h_def hget_def)
  moreover have "owns h0 (targets fs (t_us t)) ((t_heap t)[a := K_IND v])"
    using owns_pop[OF o[unfolded a(1)], of "K_IND v"] ob by simp
  ultimately show "out_ok (hole_inv h0) (Goto (C_ret v) (fpop (set_heap h t)))"
    using us fs by (simp add: hole_inv_owns thread_targets_def)
qed

lemma ret_upd_inv:
  assumes inv: "hole_inv h0 t" and fs: "t_fs t = PL_F_UPD u argbase argc # fs"
  shows "out_ok (hole_inv h0) (ret_upd u argbase argc v t)"
proof -
  define vs us' where "vs = (if argc = 1 then [u] else chain_targets u argbase argc (t_us t))"
    and "us' = (if argc = 1 then t_us t else take argbase (t_us t))"
  have o: "owns h0 (map (\<lambda>v. (v, None)) vs @ targets fs us') (t_heap t)" and us2: "us_ok fs us'"
    using inv fs by (auto simp: vs_def us'_def hole_inv_owns thread_targets_def split: if_splits)
  obtain h where h: "update_chain vs v (t_heap t) = Inr h" "owns h0 (targets fs us') h"
    using update_chain_owns[OF o] by blast
  have i: "hole_inv h0 (fpop (set_heap h (t\<lparr>t_us := us'\<rparr>)))"
    using h(2) us2 fs by (simp add: hole_inv_owns thread_targets_def)
  show ?thesis
  proof (cases "argc = 1")
    case True
    have "t\<lparr>t_us := t_us t\<rparr> = t" by simp
    then show ?thesis using i h(1) True
      by (simp add: ret_upd_def vs_def us'_def rbind_def hk_def split: sum.splits)
  next
    case False
    then show ?thesis using i h(1) by (simp add: ret_upd_def vs_def us'_def hk_def)
  qed
qed

lemma quiet_out_inv: "hole_inv h0 t \<Longrightarrow> out_ok (quiet t) r \<Longrightarrow> out_ok (hole_inv h0) r"
  using out_ok_mono quiet_inv by blast

lemma run_eval_inv:
  assumes "hole_inv h0 t"
  shows "out_ok (hole_inv h0) (run_eval base v t)"
proof -
  obtain y t' where f: "fuel_step t = (y, t')" by force
  have q: "quiet t t'" by (rule fuel_step_quiet[OF f])
  show ?thesis using eval_go_inv[OF quiet_inv[OF assms q]] quiet_inv[OF assms] q
    fuel_step_yield[of t] f by (cases y) (auto simp: run_eval_def)
qed

lemma run_ret_quiet:
  assumes fs: "t_fs t = fr # fs" and n: "\<not> is_upd fr" and b: "length (t_fs t) \<noteq> base"
  shows "out_ok (quiet t) (run_ret base v t)"
proof -
  note qs = ret_kapp_quiet ret_apply_quiet ret_opent_quiet ret_nf_quiet ret_nfobj_quiet ret_try_quiet ret_memo_quiet
    ret_applyn_quiet
  show ?thesis using b fs n
    by (cases fr) (auto simp: run_ret_def qs[OF fs n] intro!: out_ok_hk dest!: vput_fields)
qed

lemma run_ret_inv:
  assumes inv: "hole_inv h0 t" and b: "length (t_fs t) \<noteq> base"
  shows "out_ok (hole_inv h0) (run_ret base v t)"
proof (cases "t_fs t")
  case Nil
  then show ?thesis using b by (simp add: run_ret_def)
next
  case fs: (Cons fr fs)
  show ?thesis
  proof (cases "is_upd fr")
    case True
    then show ?thesis using b fs ret_update_inv[OF inv] ret_upd_inv[OF inv] by (cases fr) (auto simp: run_ret_def)
  next
    case False
    then show ?thesis using run_ret_quiet[OF fs False b] by (blast intro: quiet_out_inv[OF inv])
  qed
qed

subsection \<open>Every step and every run\<close>

text \<open>The invariant with the watermarks of the run, which no step changes.\<close>

definition bases :: "pl_thread \<Rightarrow> nat \<times> nat" where
  "bases t = (t_base_fsp t, t_base_vsp t)"

definition held :: "nat \<times> nat \<Rightarrow> heap \<Rightarrow> pl_thread \<Rightarrow> bool" where
  "held b h0 t \<longleftrightarrow> hole_inv h0 t \<and> bases t = b"

lemma bases_fields [simp]:
  "bases (pl_vpush v t) = bases t" "bases (vpushes xs t) = bases t" "bases (set_vsp n t) = bases t"
  "bases (set_heap h t) = bases t" "bases (pl_fpush fr t) = bases t" "bases (fpop t) = bases t"
  "bases (t\<lparr>t_vs := vs\<rparr>) = bases t" "bases (t\<lparr>t_exn := x\<rparr>) = bases t" "bases (t\<lparr>t_exn_msg := m\<rparr>) = bases t"
  "bases (t\<lparr>t_centry := n\<rparr>) = bases t" "bases (t\<lparr>t_fuel := f\<rparr>) = bases t" "bases (t\<lparr>t_status := s\<rparr>) = bases t"
  "bases (t\<lparr>t_suspendable := p\<rparr>) = bases t" "bases (t\<lparr>t_pending_yield := p\<rparr>) = bases t"
  "bases (t\<lparr>t_resume_kind := k\<rparr>) = bases t" "bases (t\<lparr>t_resume_val := v\<rparr>) = bases t"
  "bases (t\<lparr>t_blocked_on := v\<rparr>) = bases t" "bases (t\<lparr>t_result := v\<rparr>) = bases t"
  "bases (t\<lparr>t_heap := h\<rparr>) = bases t" "bases (t\<lparr>t_us := us\<rparr>) = bases t" "bases (t\<lparr>t_fs := fs\<rparr>) = bases t"
  by (simp_all add: bases_def stack_defs)

lemma quiet_bases: "quiet t t' \<Longrightarrow> bases t' = bases t"
  by (simp add: quiet_def bases_def)

lemma push_upd_base: "pl_push_thke_update base v t = Inr t' \<Longrightarrow> bases t' = bases t"
  by (auto simp: pl_push_thke_update_def split: list.splits mframe.splits if_splits)

lemma run_eval_base: "out_ok (\<lambda>t'. bases t' = bases t) (run_eval base v t)"
proof -
  obtain y t' where f: "fuel_step t = (y, t')" by force
  have b: "bases t' = bases t" using quiet_bases[OF fuel_step_quiet[OF f]] .
  have "out_ok (\<lambda>t''. bases t'' = bases t) (eval_go base v t')"
    using b unfolding eval_go_def
    by (auto split: gval.splits obj.splits intro!: out_ok_hk dest!: push_upd_base)
  then show ?thesis using b f fuel_step_yield by (cases y) (simp_all add: run_eval_def)
qed

lemma run_ret_base:
  assumes b: "length (t_fs t) \<noteq> base"
  shows "out_ok (\<lambda>t'. bases t' = bases t) (run_ret base v t)"
proof (cases "t_fs t")
  case Nil
  then show ?thesis using b by (simp add: run_ret_def)
next
  case fs: (Cons fr fs)
  show ?thesis
  proof (cases "is_upd fr")
    case True
    then show ?thesis using b fs by (cases fr) (auto simp: run_ret_def ret_update_def ret_upd_def intro!: out_ok_hk)
  next
    case n: False
    show ?thesis by (rule out_ok_mono[OF run_ret_quiet[OF fs n b]]) (rule quiet_bases)
  qed
qed

text \<open>
  Invariants of runs, by induction on the computation: \<open>I\<close> at every label, \<open>S\<close> where the run stops, \<open>R\<close> where it
  raises.
\<close>

fun out_sat :: "(ctl \<Rightarrow> pl_thread \<Rightarrow> bool) \<Rightarrow> (pl_run_status \<Rightarrow> pl_thread \<Rightarrow> bool) \<Rightarrow> (exn \<Rightarrow> pl_thread \<Rightarrow> bool) \<Rightarrow>
    outcome \<Rightarrow> bool" where
  "out_sat I S R (Goto c t) = I c t"
| "out_sat I S R (Stop s t) = S s t"
| "out_sat I S R (Raised e t) = R e t"
| "out_sat I S R _ = True"

text \<open>A property that every step keeps, with what the three ways to stop say of the frames.\<close>

definition stop_at :: "nat \<Rightarrow> (pl_thread \<Rightarrow> bool) \<Rightarrow> pl_run_status \<Rightarrow> pl_thread \<Rightarrow> bool" where
  "stop_at base P s t \<longleftrightarrow> P t \<and> s \<noteq> PL_RUN_EXN \<and> (s = PL_RUN_DONE \<longrightarrow> length (t_fs t) = base) \<and>
     (s = PL_RUN_YIELDED \<or> s = PL_RUN_BLOCKED \<longrightarrow> t_centry t = 0)"

lemma out_ok_sat: "out_ok P r \<Longrightarrow> out_sat (\<lambda>_. P) (stop_at base P) (\<lambda>_. P) r"
  by (cases r) (auto simp: stop_at_def)

lemma run_ret_done: "length (t_fs t) = base \<Longrightarrow> run_ret base v t = Stop PL_RUN_DONE (t\<lparr>t_result := v\<rparr>)"
  by (simp add: run_ret_def)

lemma out_sat_stop: "out_sat I S R r \<Longrightarrow> (\<And>c t. r \<noteq> Goto c t) \<Longrightarrow> out_sat (\<lambda>_ _. False) S R r"
  by (cases r) auto

lemma pl_run_rule:
  assumes st: "\<And>c t. I c t \<Longrightarrow> out_sat I S R (step C base c t)" and r: "pl_run C base c t = Some r" and i: "I c t"
  shows "out_sat (\<lambda>_ _. False) S R r"
proof -
  have "(\<forall>c t. I c t \<longrightarrow> out_sat I S R (step C base c t)) \<longrightarrow> I c t \<longrightarrow> out_sat (\<lambda>_ _. False) S R r"
  proof (rule pl_run.raw_induct[OF _ r], intro impI)
    fix run C base c t r
    assume IH: "\<And>C base c t r. run C base c t = Some r \<Longrightarrow>
        (\<forall>c t. I c t \<longrightarrow> out_sat I S R (step C base c t)) \<longrightarrow> I c t \<longrightarrow> out_sat (\<lambda>_ _. False) S R r"
      and r: "(case step C base c t of Goto c' t' \<Rightarrow> run C base c' t' | Endless \<Rightarrow> None | r \<Rightarrow> Some r) = Some r"
      and st: "\<forall>c t. I c t \<longrightarrow> out_sat I S R (step C base c t)" and i: "I c t"
    have ok: "out_sat I S R (step C base c t)" using st i by blast
    show "out_sat (\<lambda>_ _. False) S R r"
    proof (cases "\<exists>c' t'. step C base c t = Goto c' t'")
      case True
      then show ?thesis using IH r st ok by auto
    next
      case False
      then have "r = step C base c t" using r by (auto split: outcome.splits)
      then show ?thesis using out_sat_stop[OF ok] False by blast
    qed
  qed
  then show ?thesis using st i by blast
qed

lemma pl_run_caught_rule:
  assumes st: "\<And>c t. I c t \<Longrightarrow> out_sat I S R (step C base c t)"
    and del: "\<And>c t e t'. I c t \<Longrightarrow> R e t' \<Longrightarrow> out_sat I S R' (deliver base (length (t_vs t)) (t_centry t) e t')"
    and r: "pl_run_caught C base c t = Some r" and i: "I c t"
  shows "out_sat (\<lambda>_ _. False) S R' r"
proof -
  have "(\<forall>c t. I c t \<longrightarrow> out_sat I S R (step C base c t)) \<longrightarrow>
    (\<forall>c t e t'. I c t \<longrightarrow> R e t' \<longrightarrow> out_sat I S R' (deliver base (length (t_vs t)) (t_centry t) e t')) \<longrightarrow>
    I c t \<longrightarrow> out_sat (\<lambda>_ _. False) S R' r"
  proof (rule pl_run_caught.raw_induct[OF _ r], intro impI)
    fix run C base c t r
    assume IH: "\<And>C base c t r. run C base c t = Some r \<Longrightarrow>
        (\<forall>c t. I c t \<longrightarrow> out_sat I S R (step C base c t)) \<longrightarrow>
        (\<forall>c t e t'. I c t \<longrightarrow> R e t' \<longrightarrow> out_sat I S R' (deliver base (length (t_vs t)) (t_centry t) e t')) \<longrightarrow>
        I c t \<longrightarrow> out_sat (\<lambda>_ _. False) S R' r"
      and r: "(case pl_run C base c t of None \<Rightarrow> None
        | Some (Raised e t') \<Rightarrow> (case deliver base (length (t_vs t)) (t_centry t) e t' of
            Goto c' t'' \<Rightarrow> run C base c' t'' | Endless \<Rightarrow> None | r \<Rightarrow> Some r)
        | Some r \<Rightarrow> Some r) = Some r"
      and st: "\<forall>c t. I c t \<longrightarrow> out_sat I S R (step C base c t)"
      and del: "\<forall>c t e t'. I c t \<longrightarrow> R e t' \<longrightarrow> out_sat I S R' (deliver base (length (t_vs t)) (t_centry t) e t')"
      and i: "I c t"
    obtain r1 where r1: "pl_run C base c t = Some r1" using r by (cases "pl_run C base c t") auto
    have ok: "out_sat (\<lambda>_ _. False) S R r1" using pl_run_rule[of I S R C base c t r1] st r1 i by blast
    show "out_sat (\<lambda>_ _. False) S R' r"
    proof (cases r1)
      case (Raised e t')
      let ?d = "deliver base (length (t_vs t)) (t_centry t) e t'"
      have d: "out_sat I S R' ?d" using del i ok Raised by simp
      show ?thesis
      proof (cases "\<exists>c' t''. ?d = Goto c' t''")
        case True
        then show ?thesis using IH r r1 Raised st del d by auto
      next
        case False
        then have "r = ?d" using r r1 Raised by (auto split: outcome.splits)
        then show ?thesis using out_sat_stop[OF d] False by blast
      qed
    qed (use ok r r1 in auto)
  qed
  then show ?thesis using st del i by blast
qed

text \<open>Delivery always succeeds: the barrier is resumed, or the entry's frames are gone.\<close>

lemma find_try_prefix: "find_try frs = Some (abv, ab) \<Longrightarrow> \<exists>rest. frs = abv @ rest"
  by (induction frs arbitrary: abv) (auto split: mframe.splits)

lemma hole_inv_fields [simp]:
  "hole_inv h0 (t\<lparr>t_vs := vs\<rparr>) = hole_inv h0 t" "hole_inv h0 (t\<lparr>t_exn := x\<rparr>) = hole_inv h0 t"
  "hole_inv h0 (t\<lparr>t_exn_msg := m\<rparr>) = hole_inv h0 t" "hole_inv h0 (t\<lparr>t_centry := n\<rparr>) = hole_inv h0 t"
  "hole_inv h0 (t\<lparr>t_fuel := f\<rparr>) = hole_inv h0 t" "hole_inv h0 (t\<lparr>t_status := s\<rparr>) = hole_inv h0 t"
  "hole_inv h0 (t\<lparr>t_suspendable := p\<rparr>) = hole_inv h0 t" "hole_inv h0 (t\<lparr>t_pending_yield := p\<rparr>) = hole_inv h0 t"
  "hole_inv h0 (t\<lparr>t_resume_kind := k\<rparr>) = hole_inv h0 t" "hole_inv h0 (t\<lparr>t_resume_val := v\<rparr>) = hole_inv h0 t"
  "hole_inv h0 (t\<lparr>t_blocked_on := v\<rparr>) = hole_inv h0 t" "hole_inv h0 (t\<lparr>t_result := v\<rparr>) = hole_inv h0 t"
  "hole_inv h0 (t\<lparr>t_base_vsp := n\<rparr>) = hole_inv h0 t" "hole_inv h0 (t\<lparr>t_base_fsp := n\<rparr>) = hole_inv h0 t"
  "hole_inv h0 (set_vsp n t) = hole_inv h0 t"
  by (simp_all add: hole_inv_def thread_targets_def stack_defs)

lemma set_exn_fields [simp]:
  "hole_inv h0 (set_exn e t) = hole_inv h0 t" "t_fs (set_exn e t) = t_fs t" "bases (set_exn e t) = bases t"
  "t_heap (set_exn e t) = t_heap t" "t_us (set_exn e t) = t_us t"
  by (simp_all add: set_exn_def split: exn.splits)

lemma deliver_total:
  assumes inv: "hole_inv h0 t" and b: "base \<le> length (t_fs t)"
  shows "(\<exists>v t'. deliver base vsp ce e t = Goto (C_ret v) t' \<and> held (bases t) h0 t') \<or>
    (\<exists>t'. deliver base vsp ce e t = Raised e t' \<and> held (bases t) h0 t' \<and>
       t_fs t' = drop (length (t_fs t) - base) (t_fs t))"
proof -
  define u where "u = (set_exn e t)\<lparr>t_centry := ce\<rparr>"
  have u: "hole_inv h0 u" "t_fs u = t_fs t" "bases u = bases t" using inv by (simp_all add: u_def)
  let ?f = "if t_exn_msg u = None then find_try (take (length (t_fs u) - base) (t_fs u)) else None"
  show ?thesis
  proof (cases ?f)
    case None
    let ?u = "set_vsp vsp u"
    obtain h us where p: "pl_unwind_frames base ?u =
        Inr (?u\<lparr>t_heap := h, t_us := us, t_fs := drop (length (t_fs ?u) - base) (t_fs ?u)\<rparr>)"
      "hole_inv h0 (?u\<lparr>t_heap := h, t_us := us, t_fs := drop (length (t_fs ?u) - base) (t_fs ?u)\<rparr>)"
      using pl_unwind_frames_inv[of h0 ?u base] u b by auto
    have "deliver base vsp ce e t = Raised e (?u\<lparr>t_heap := h, t_us := us, t_fs := drop (length (t_fs ?u) - base) (t_fs ?u)\<rparr>)"
      unfolding deliver_def Let_def u_def[symmetric] None p(1) by (simp add: hk_def)
    then show ?thesis using p(2) u by (simp add: held_def)
  next
    case (Some r)
    then obtain abv ab rest where r: "r = (abv, ab)" "t_fs u = (abv @ rest) @ drop (length (t_fs u) - base) (t_fs u)"
      using find_try_prefix by (metis append_take_drop_id option.distinct(1) surj_pair)
    then obtain h us where l: "unwind_loop abv u = Inr (u\<lparr>t_heap := h, t_us := us, t_fs := rest @ drop (length (t_fs u) - base) (t_fs u)\<rparr>)"
      "hole_inv h0 (u\<lparr>t_heap := h, t_us := us, t_fs := rest @ drop (length (t_fs u) - base) (t_fs u)\<rparr>)"
      using unwind_loop_inv[OF u(1)] by force
    let ?w = "u\<lparr>t_heap := h, t_us := us, t_fs := rest @ drop (length (t_fs u) - base) (t_fs u)\<rparr>"
    obtain h' v where m: "pl_mk_app_from_h (t_heap ?w) (GNat (Direct 1)) [t_exn ?w] = Inr (h', v)"
      by (auto simp: pl_mk_app_from_h_def pl_need_after_h_def pl_arity_h_def)
    have "deliver base vsp ce e t = Goto (C_ret v) ((set_vsp ab (set_heap h' ?w))\<lparr>t_exn := gzero\<rparr>)"
      unfolding deliver_def Let_def u_def[symmetric] Some r(1) using l(1) m by (simp add: hk_def)
    moreover have "hole_inv h0 (set_heap h' ?w)"
      by (rule quiet_inv[OF l(2)], rule quiet_set_heap) (use mk_app_from_quiet[OF m] in simp_all)
    ultimately show ?thesis using u by (simp add: held_def)
  qed
qed

lemma deliver_held:
  assumes "held b h0 t"
  shows "out_ok (held b h0) (deliver base vsp ce e t)"
proof (cases "base \<le> length (t_fs t)")
  case True
  then show ?thesis using deliver_total[of h0 t base vsp ce e] assms by (auto simp: held_def)
next
  case False
  then show ?thesis by (auto simp: deliver_def Let_def pl_unwind_frames_def hk_def)
qed

context quiet_ops
begin

lemma step_quiet: "\<nexists>v. c = C_eval v \<or> c = C_ret v \<Longrightarrow> out_ok (quiet t) (step C base c t)"
  by (cases c)
    (simp_all add: step_def run_thke_quiet run_expr_quiet run_exec_quiet run_dispatch_quiet
      run_fast_apply_quiet run_judge_quiet run_judge_scan_quiet run_op_args_def op_args_loop_quiet
      run_oparg_next_quiet run_opdeep_next_quiet run_op_body_ready_quiet)

lemma step_held:
  assumes "held b h0 t"
  shows "out_sat (\<lambda>_. held b h0) (stop_at base (held b h0)) (\<lambda>_. held b h0) (step C base c t)"
proof (cases "\<exists>v. c = C_ret v \<and> length (t_fs t) = base")
  case True
  then show ?thesis using assms by (auto simp: step_def run_ret_done stop_at_def held_def)
next
  case F: False
  have i: "hole_inv h0 t" and t: "bases t = b" using assms by (simp_all add: held_def)
  have "out_ok (hole_inv h0) (step C base c t) \<and> out_ok (\<lambda>t'. bases t' = b) (step C base c t)"
  proof (cases "\<exists>v. c = C_eval v \<or> c = C_ret v")
    case True
    then show ?thesis using run_eval_inv[OF i] run_ret_inv[OF i] run_eval_base run_ret_base t F by (auto simp: step_def)
  next
    case False
    have q: "out_ok (quiet t) (step C base c t)" by (rule step_quiet[OF False])
    have "out_ok (\<lambda>t'. bases t' = b) (step C base c t)"
      by (rule out_ok_mono[OF q]) (simp add: quiet_bases t)
    then show ?thesis using quiet_out_inv[OF i q] by blast
  qed
  then have "out_ok (held b h0) (step C base c t)" by (cases "step C base c t") (simp_all add: held_def)
  then show ?thesis by (rule out_ok_sat)
qed

lemma pl_run_caught_held:
  assumes "pl_run_caught C base c t = Some r" "held b h0 t"
  shows "out_sat (\<lambda>_ _. False) (stop_at base (held b h0)) (\<lambda>_. held b h0) r"
  by (rule pl_run_caught_rule[OF _ _ assms(1), where I = "\<lambda>_. held b h0" and R = "\<lambda>_. held b h0"])
    (use assms(2) step_held deliver_held out_ok_sat in auto)

lemma pl_thread_run_held:
  assumes r: "pl_thread_run C fuel t = Some (Stop s t')" and h: "held (0, m) h0 t"
  shows "held (0, m) h0 t' \<and> t_status t' = s \<and> \<not> t_suspendable t' \<and>
    (s = PL_RUN_DONE \<or> s = PL_RUN_EXN \<longrightarrow> t_fs t' = []) \<and> (s = PL_RUN_BLOCKED \<longrightarrow> t_centry t' = 0)"
proof -
  define u where "u = t\<lparr>t_fuel := fuel, t_pending_yield := False, t_suspendable := True\<rparr>"
  have u: "held (0, m) h0 u" "t_base_fsp t = 0" using h by (simp_all add: u_def held_def bases_def)
  obtain r1 where r1: "pl_run_caught C 0 (entry_ctl (t_resume_kind t) (t_resume_val t)) u = Some r1"
    using r u(2) by (auto simp: pl_thread_run_def u_def split: if_splits option.splits)
  have ok: "out_sat (\<lambda>_ _. False) (stop_at 0 (held (0, m) h0)) (\<lambda>_. held (0, m) h0) r1"
    by (rule pl_run_caught_held[OF r1 u(1)])
  have eq: "pl_thread_run C fuel t = (case Some r1 of
      Some (Stop s t') \<Rightarrow> Some (Stop s (run_leave s t'))
    | Some (Raised e t') \<Rightarrow>
        Some (hk (pl_thread_unwind_run t') (\<lambda>t'. Stop PL_RUN_EXN (run_leave PL_RUN_EXN (t'\<lparr>t_centry := 0\<rparr>))))
    | r \<Rightarrow> r)"
    using r r1 u(2) by (simp add: pl_thread_run_def u_def split: if_splits)
  show ?thesis
  proof (cases r1)
    case (Stop s1 t1)
    then have "s1 = s" "t' = run_leave s t1" using r eq by auto
    then show ?thesis using ok Stop by (auto simp: stop_at_def held_def run_leave_def)
  next
    case (Raised e t1)
    have h1: "hole_inv h0 (set_vsp (t_base_vsp t1) t1)" "t_base_fsp t1 = 0" "t_base_vsp t1 = m"
      using ok Raised by (simp_all add: held_def bases_def)
    obtain h us where w: "pl_unwind_frames 0 (set_vsp (t_base_vsp t1) t1) =
        Inr ((set_vsp (t_base_vsp t1) t1)\<lparr>t_heap := h, t_us := us, t_fs := []\<rparr>)"
      "hole_inv h0 ((set_vsp (t_base_vsp t1) t1)\<lparr>t_heap := h, t_us := us, t_fs := []\<rparr>)"
      using pl_unwind_frames_inv[OF h1(1), of 0] by auto
    have "s = PL_RUN_EXN" "t' = run_leave PL_RUN_EXN
        (((set_vsp (t_base_vsp t1) t1)\<lparr>t_heap := h, t_us := us, t_fs := []\<rparr>)\<lparr>t_centry := 0\<rparr>)"
      using r eq Raised h1(2) w(1) by (simp_all add: pl_thread_unwind_run_def hk_def)
    then show ?thesis using w(2) h1(2,3) by (simp add: run_leave_def held_def bases_def)
  qed (use r eq in simp_all)
qed

end

subsection \<open>The life of a thread\<close>

text \<open>
  Everything a scheduler can do with a thread: arm it, run it for any quanta, and answer its requests.
\<close>

inductive thread_life :: "cfg \<Rightarrow> pl_thread \<Rightarrow> pl_thread \<Rightarrow> bool" for C t0 where
  life_start: "pl_thread_start v t0 = Inr t \<Longrightarrow> thread_life C t0 t"
| life_start_nf: "pl_thread_start_nf v t0 = Inr t \<Longrightarrow> thread_life C t0 t"
| life_start_call: "pl_thread_start_call_nf f x t0 = Inr t \<Longrightarrow> thread_life C t0 t"
| life_run: "thread_life C t0 t \<Longrightarrow> pl_thread_run C fuel t = Some (Stop s t') \<Longrightarrow> thread_life C t0 t'"
| life_deposit: "thread_life C t0 t \<Longrightarrow> pl_thread_deposit v t = Inr t' \<Longrightarrow> thread_life C t0 t'"

text \<open>Nothing pending, no black hole, and the objects of the start are all there.\<close>

definition clean :: "heap \<Rightarrow> pl_thread \<Rightarrow> bool" where
  "clean h0 t \<longleftrightarrow> t_fs t = [] \<and> t_us t = [] \<and> heap_quiet h0 (t_heap t) \<and> list_all (\<lambda>ob. \<not> is_hole ob) (t_heap t)"

lemma clean_held: "clean (t_heap t) t \<Longrightarrow> hole_inv (t_heap t) t"
  by (simp add: clean_def hole_inv_def thread_targets_def unheap_def map_nth)

lemma held_clean: "held b h0 t \<Longrightarrow> t_fs t = [] \<Longrightarrow> clean h0 t"
  using hole_inv_bottom[of h0 t] by (simp add: held_def clean_def)

lemma pl_fpush_status: "t_status (pl_fpush fr t) = t_status t"
  by (simp add: pl_fpush_def)

lemma start_held:
  assumes "clean (t_heap t0) t0"
  shows "pl_thread_start v t0 = Inr t \<Longrightarrow> held (0, length (t_vs t0)) (t_heap t0) t \<and> t_status t = PL_RUN_YIELDED"
    "pl_thread_start_nf v t0 = Inr t \<Longrightarrow> held (0, length (t_vs t0)) (t_heap t0) t \<and> t_status t = PL_RUN_YIELDED"
    "pl_thread_start_call_nf f x t0 = Inr t \<Longrightarrow> held (0, length (t_vs t0)) (t_heap t0) t \<and> t_status t = PL_RUN_YIELDED"
proof -
  have s: "held (0, length (t_vs t0)) (t_heap t0) t \<and> t_status t = PL_RUN_YIELDED" if "pl_thread_start v t0 = Inr t" for v t
    using that clean_held[OF assms] assms by (auto simp: pl_thread_start_def held_def clean_def bases_def split: if_splits)
  have p: "hole_inv h (pl_fpush fr t)" if "\<not> is_upd fr" "hole_inv h t" for h fr t
    by (rule quiet_inv[OF that(2)]) (simp add: that(1))
  have n: "held (0, length (t_vs t0)) (t_heap t0) t \<and> t_status t = PL_RUN_YIELDED" if "pl_thread_start_nf v t0 = Inr t" for v t
    using that s by (auto simp: pl_thread_start_nf_def res_simps held_def pl_fpush_status intro!: p)
  show "pl_thread_start v t0 = Inr t \<Longrightarrow> held (0, length (t_vs t0)) (t_heap t0) t \<and> t_status t = PL_RUN_YIELDED"
    "pl_thread_start_nf v t0 = Inr t \<Longrightarrow> held (0, length (t_vs t0)) (t_heap t0) t \<and> t_status t = PL_RUN_YIELDED"
    using s n by blast+
  show "pl_thread_start_call_nf f x t0 = Inr t \<Longrightarrow> held (0, length (t_vs t0)) (t_heap t0) t \<and> t_status t = PL_RUN_YIELDED"
    using n by (auto simp: pl_thread_start_call_nf_def res_simps held_def pl_fpush_status intro!: p)
qed

context quiet_ops
begin

lemma life_held:
  assumes c: "clean (t_heap t0) t0" and l: "thread_life C t0 t"
  shows "held (0, length (t_vs t0)) (t_heap t0) t \<and> (t_status t = PL_RUN_DONE \<or> t_status t = PL_RUN_EXN \<longrightarrow> t_fs t = []) \<and>
    (t_status t = PL_RUN_BLOCKED \<longrightarrow> \<not> t_suspendable t \<and> t_centry t = 0)"
  using l
proof induction
  case (life_run t fuel s t')
  then show ?case using pl_thread_run_held by blast
next
  case (life_deposit t v t')
  then show ?case by (auto simp: pl_thread_deposit_def held_def split: if_splits)
qed (use start_held[OF c] in fastforce)+

lemma life_safe:
  assumes c: "clean (t_heap t0) t0" and l: "thread_life C t0 t"
  shows "(t_status t = PL_RUN_DONE \<or> t_status t = PL_RUN_EXN \<longrightarrow> clean (t_heap t0) t) \<and>
    (t_status t = PL_RUN_BLOCKED \<longrightarrow> (\<exists>t'. pl_thread_abandon t = Inr t' \<and> clean (t_heap t0) t'))"
proof -
  note h = life_held[OF assms]
  let ?u = "set_vsp (t_base_vsp t) t"
  have "hole_inv (t_heap t0) ?u" "t_base_fsp t = 0" "t_base_vsp t = length (t_vs t0)"
    using h by (simp_all add: held_def bases_def)
  then obtain hp us where w: "pl_thread_unwind_run t = Inr (?u\<lparr>t_heap := hp, t_us := us, t_fs := []\<rparr>)"
      "held (0, length (t_vs t0)) (t_heap t0) (?u\<lparr>t_heap := hp, t_us := us, t_fs := []\<rparr>)"
    using pl_unwind_frames_inv[of "t_heap t0" ?u 0] by (auto simp: pl_thread_unwind_run_def held_def bases_def)
  show ?thesis using h held_clean[OF w(2)] held_clean[of "(0, length (t_vs t0))" "t_heap t0" t] w(1) by (auto simp: pl_thread_abandon_def)
qed

end

context quiet_ext
begin

lemma cfg_life_safe:
  "clean (t_heap t0) t0 \<Longrightarrow> thread_life (pl_cfg M plgc ixs ext hook eff io demand lawblk) t0 t \<Longrightarrow>
    (t_status t = PL_RUN_DONE \<or> t_status t = PL_RUN_EXN \<longrightarrow> clean (t_heap t0) t) \<and>
    (t_status t = PL_RUN_BLOCKED \<longrightarrow> (\<exists>t'. pl_thread_abandon t = Inr t' \<and> clean (t_heap t0) t'))"
  by (rule cfgq.life_safe)

end


text \<open>A heap with a thunk whose value is itself.\<close>

definition loop_heap :: heap where
  "loop_heap = [K_ENV [gzero, GDefer 1], K_THUNK (GEnv 0) (GNat (Direct 1))]"

definition bare_cfg :: cfg where
  "bare_cfg = pl_cfg mpn_ref (\<lambda>k. None) None (\<lambda>name t ab. Body_fault HUndef) None None None (\<lambda>h a. (h, None)) (\<lambda>h v. None)"

lemma loop_run:
  "(case pl_thread_start (GDefer 1) (pl_thread_new loop_heap) of
      Inr t \<Rightarrow> (case pl_thread_run C 10 t of Some (Stop s t') \<Rightarrow> t_status t' = PL_RUN_EXN | _ \<Rightarrow> False)
    | Inl e \<Rightarrow> False)"
  by code_simp

lemma loop_life: "\<exists>t. thread_life bare_cfg (pl_thread_new loop_heap) t \<and> t_status t = PL_RUN_EXN"
  using loop_run[of bare_cfg] by (auto split: sum.splits option.splits outcome.splits intro: life_start life_run)

lemma loop_clean: "clean (t_heap (pl_thread_new loop_heap)) (pl_thread_new loop_heap)"
  by (simp add: clean_def pl_thread_new_def loop_heap_def)


end
