(* ===== verification/Eval_Stack.thy ===== *)
theory Eval_Stack
  imports Eval_Safe
begin

text \<open>
  The stack discipline of the evaluator. Every frame owns a region of the value stack, and the regions follow one another as the
  frames do; a label works above the region of the top frame only. So an entry of the machine leaves
  both stacks as it found them, whether it returns or raises, for every bytecode and every law.
\<close>

subsection \<open>The regions of the frames\<close>

text \<open>
  The height of the value stack that a frame leaves to the frames below it, when a value is returned to it at height
  \<open>n\<close>; none if the frame cannot be returned to at that height.
\<close>

fun below :: "mframe \<Rightarrow> nat \<Rightarrow> nat option" where
  "below (PL_F_KAPP env expr k ab) n = (if n = ab + 1 then Some ab else None)"
| "below (PL_F_OPARG op ab argc k) n = (if n = ab + argc \<and> 0 < ab then Some (ab - 1) else None)"
| "below (PL_F_OPDEEP op ab argc k) n = (if n = ab + argc \<and> 0 < ab then Some (ab - 1) else None)"
| "below (PL_F_EXEC a b argc code k ab) n = (if ab \<le> n then Some ab else None)"
| "below (PL_F_EXECV a b argc code k ab) n = (if b \<le> ab \<and> ab \<le> n then Some b else None)"
| "below (PL_F_TRY ab m) n = (if n = ab then Some ab else None)"
| "below (PL_F_JUDGE jb ja) n = (if jb + 1 + ja < n then Some jb else None)"
| "below (PL_F_APPLYN pb m) n = (if n = pb + m \<and> 0 < pb then Some (pb - 1) else None)"
| "below _ n = Some n"

text \<open>Frames above the suffix \<open>fs0\<close>, over a value stack whose first \<open>b0\<close> values are not theirs.\<close>

fun stk :: "mframe list \<Rightarrow> nat \<Rightarrow> mframe list \<Rightarrow> nat \<Rightarrow> bool" where
  "stk fs0 b0 [] n = (fs0 = [] \<and> n = b0)"
| "stk fs0 b0 (fr # fs) n =
     (if fr # fs = fs0 then n = b0 else (case below fr n of None \<Rightarrow> False | Some m \<Rightarrow> stk fs0 b0 fs m))"

lemma below_le: "below fr n = Some m \<Longrightarrow> m \<le> n"
  by (induction fr n rule: below.induct) (auto split: if_splits)

lemma stk_le: "stk fs0 b0 fs n \<Longrightarrow> b0 \<le> n"
  by (induction fs arbitrary: n) (auto split: if_splits option.splits dest: below_le intro: order_trans)

lemma stk_self [simp]: "stk fs0 b0 fs0 n \<longleftrightarrow> n = b0"
  by (cases fs0) simp_all

lemma stk_suffix: "stk fs0 b0 fs n \<Longrightarrow> \<exists>frs. fs = frs @ fs0"
proof (induction fs arbitrary: n)
  case (Cons fr fs)
  show ?case
  proof (cases "fr # fs = fs0")
    case False
    then obtain m where "stk fs0 b0 fs m" using Cons.prems by (auto split: option.splits)
    then obtain frs where "fs = frs @ fs0" using Cons.IH by blast
    then have "fr # fs = (fr # frs) @ fs0" by simp
    then show ?thesis by blast
  qed simp
qed simp

declare stk.simps [simp del]

lemma stk_length: "stk fs0 b0 fs n \<Longrightarrow> length fs0 \<le> length fs"
  using stk_suffix by fastforce

lemma stk_base: "stk fs0 b0 fs n \<Longrightarrow> length fs = length fs0 \<Longrightarrow> fs = fs0 \<and> n = b0"
  using stk_suffix by fastforce

lemma stk_push [simp]:
  "length fs0 \<le> length fs \<Longrightarrow>
    stk fs0 b0 (fr # fs) n \<longleftrightarrow> (case below fr n of None \<Rightarrow> False | Some m \<Rightarrow> stk fs0 b0 fs m)"
  by (auto simp: stk.simps)

text \<open>The heights at the labels. Bytecode runs only under its own frame.\<close>

fun is_exec :: "mframe \<Rightarrow> bool" where
  "is_exec (PL_F_EXEC a b argc code k ab) = True"
| "is_exec (PL_F_EXECV a b argc code k ab) = True"
| "is_exec _ = False"

definition in_exec :: "mframe list \<Rightarrow> nat \<Rightarrow> mframe list \<Rightarrow> nat \<Rightarrow> bool" where
  "in_exec fs0 b0 fs n \<longleftrightarrow> length fs0 < length fs \<and> (is_exec (hd fs) \<longrightarrow> stk fs0 b0 fs n)"

fun at_ok :: "mframe list \<Rightarrow> nat \<Rightarrow> mframe list \<Rightarrow> nat \<Rightarrow> ctl \<Rightarrow> bool" where
  "at_ok fs0 b0 fs n (C_fast_apply hb) = (hb < n \<and> stk fs0 b0 fs hb)"
| "at_ok fs0 b0 fs n (C_judge hb argc jcode) = (n = hb + 1 + argc \<and> stk fs0 b0 fs hb)"
| "at_ok fs0 b0 fs n (C_judge_scan jb ja) = (jb + 1 + ja < n \<and> stk fs0 b0 fs jb)"
| "at_ok fs0 b0 fs n (C_op_args i ob m) = (n = ob + m \<and> 0 < ob \<and> stk fs0 b0 fs (ob - 1))"
| "at_ok fs0 b0 fs n (C_op_body_ready i ab) = (0 < ab \<and> ab \<le> n \<and> stk fs0 b0 fs (ab - 1))"
| "at_ok fs0 b0 fs n C_exec = in_exec fs0 b0 fs n"
| "at_ok fs0 b0 fs n (C_dispatch pc) = in_exec fs0 b0 fs n"
| "at_ok fs0 b0 fs n C_oparg_next = (length fs0 < length fs \<and> stk fs0 b0 fs n)"
| "at_ok fs0 b0 fs n C_opdeep_next = (length fs0 < length fs \<and> stk fs0 b0 fs n)"
| "at_ok fs0 b0 fs n _ = stk fs0 b0 fs n"

definition keeps :: "gval list \<Rightarrow> gval list \<Rightarrow> bool" where
  "keeps vs0 vs \<longleftrightarrow> take (length vs0) vs = vs0"

lemma keeps_append [simp]: "length vs0 \<le> length vs \<Longrightarrow> keeps vs0 (vs @ ws) \<longleftrightarrow> keeps vs0 vs"
  by (simp add: keeps_def)

lemma keeps_take [simp]: "length vs0 \<le> m \<Longrightarrow> keeps vs0 (take m vs) \<longleftrightarrow> keeps vs0 vs"
  by (simp add: keeps_def min_def)

lemma keeps_update [simp]: "length vs0 \<le> i \<Longrightarrow> keeps vs0 (vs[i := v]) \<longleftrightarrow> keeps vs0 vs"
  by (simp add: keeps_def)

lemma keeps_length: "keeps vs0 vs \<Longrightarrow> length vs0 \<le> length vs"
  unfolding keeps_def by (metis length_take min.cobounded1)

lemma keeps_all: "keeps vs0 vs \<Longrightarrow> length vs = length vs0 \<Longrightarrow> vs = vs0"
  by (simp add: keeps_def)

definition disc :: "mframe list \<Rightarrow> gval list \<Rightarrow> ctl \<Rightarrow> pl_thread \<Rightarrow> bool" where
  "disc fs0 vs0 c t \<longleftrightarrow> at_ok fs0 (length vs0) (t_fs t) (length (t_vs t)) c \<and> keeps vs0 (t_vs t)"

definition raised :: "mframe list \<Rightarrow> gval list \<Rightarrow> pl_thread \<Rightarrow> bool" where
  "raised fs0 vs0 t \<longleftrightarrow> (\<exists>m \<le> length (t_vs t). stk fs0 (length vs0) (t_fs t) m) \<and> keeps vs0 (t_vs t)"

definition stopd :: "mframe list \<Rightarrow> gval list \<Rightarrow> pl_run_status \<Rightarrow> pl_thread \<Rightarrow> bool" where
  "stopd fs0 vs0 s t \<longleftrightarrow> keeps vs0 (t_vs t) \<and> (case s of
     PL_RUN_DONE \<Rightarrow> t_fs t = fs0 \<and> t_vs t = vs0
   | PL_RUN_YIELDED \<Rightarrow> at_ok fs0 (length vs0) (t_fs t) (length (t_vs t)) (entry_ctl (t_resume_kind t) (t_resume_val t))
   | PL_RUN_BLOCKED \<Rightarrow> stk fs0 (length vs0) (t_fs t) (length (t_vs t))
   | PL_RUN_EXN \<Rightarrow> False)"

abbreviation good :: "mframe list \<Rightarrow> gval list \<Rightarrow> outcome \<Rightarrow> bool" where
  "good fs0 vs0 \<equiv> out_sat (disc fs0 vs0) (stopd fs0 vs0) (\<lambda>_. raised fs0 vs0)"

lemma out_sat_hk: "(\<And>x. r = Inr x \<Longrightarrow> out_sat I S R (k x)) \<Longrightarrow> out_sat I S R (hk r k)"
  by (auto simp: hk_def split: sum.splits hfault.splits)

lemma raisedI: "stk fs0 (length vs0) (t_fs t) m \<Longrightarrow> m \<le> length (t_vs t) \<Longrightarrow> keeps vs0 (t_vs t) \<Longrightarrow> raised fs0 vs0 t"
  by (auto simp: raised_def)

subsection \<open>Labels outside the bytecode\<close>

lemma vslot_less: "vslot t i = Inr v \<Longrightarrow> i < length (t_vs t) \<and> v = t_vs t ! i"
  by (auto simp: vslot_def split: if_splits)

lemma push_upd_cases:
  assumes "pl_push_thke_update base v t = Inr t'"
  obtains "t' = pl_fpush (PL_F_UPD v 0 1) t"
  | a ab ac ab' ac' us fs where "t_fs t = PL_F_UPD a ab ac # fs" "base < length (t_fs t)"
      "t' = t\<lparr>t_us := us, t_fs := PL_F_UPD a ab' ac' # fs\<rparr>"
  using assms by (fastforce simp: pl_push_thke_update_def split: list.splits mframe.splits if_splits)

lemma push_upd_stk:
  assumes "pl_push_thke_update (length fs0) v t = Inr t'" "stk fs0 b0 (t_fs t) n"
  shows "stk fs0 b0 (t_fs t') n \<and> t_vs t' = t_vs t"
  using assms(1)
proof (cases rule: push_upd_cases)
  case 1
  then show ?thesis using assms(2) stk_length[OF assms(2)] by simp
next
  case (2 a ab ac ab' ac' us fs)
  then show ?thesis using assms(2) by simp
qed

lemma eval_go_good:
  assumes "disc fs0 vs0 (C_eval v) t"
  shows "good fs0 vs0 (eval_go (length fs0) v t)"
proof -
  have s: "stk fs0 (length vs0) (t_fs t) (length (t_vs t))" and k: "keeps vs0 (t_vs t)"
    using assms by (simp_all add: disc_def)
  note l = stk_length[OF s]
  have p: "stk fs0 (length vs0) (t_fs t') (length (t_vs t')) \<and> keeps vs0 (t_vs t')"
    if "pl_push_thke_update (length fs0) w (set_heap h t) = Inr t'" for t' h w
    using push_upd_stk[OF that, of "length vs0" "length (t_vs t)"] s k by simp
  show ?thesis unfolding eval_go_def
    by (auto split: gval.splits obj.splits intro!: out_sat_hk raisedI[OF s] dest!: p simp: disc_def s k l)
qed

lemma fuel_step_same: "fuel_step t = (y, t') \<Longrightarrow> t_fs t' = t_fs t \<and> t_vs t' = t_vs t"
  by (simp add: fuel_step_fields)

lemma disc_same: "t_fs t' = t_fs t \<Longrightarrow> t_vs t' = t_vs t \<Longrightarrow> disc fs0 vs0 c t' = disc fs0 vs0 c t"
  by (simp add: disc_def)

lemma run_eval_good:
  assumes "disc fs0 vs0 (C_eval v) t"
  shows "good fs0 vs0 (run_eval (length fs0) v t)"
proof -
  obtain y t' where f: "fuel_step t = (y, t')" by force
  have "disc fs0 vs0 (C_eval v) t'" using assms fuel_step_same[OF f] disc_same[of t' t] by simp
  then show ?thesis using eval_go_good[of fs0 vs0 v t']
    by (cases y) (simp_all add: run_eval_def f stopd_def disc_def)
qed

text \<open>The facts a proof about a label starts from.\<close>

lemma disc_stkE:
  assumes "disc fs0 vs0 c t" "at_ok fs0 (length vs0) (t_fs t) (length (t_vs t)) c \<Longrightarrow> stk fs0 (length vs0) (t_fs t) n"
  obtains "stk fs0 (length vs0) (t_fs t) n" "keeps vs0 (t_vs t)" "length fs0 \<le> length (t_fs t)" "length vs0 \<le> n"
    "length vs0 \<le> length (t_vs t)"
  using assms stk_length stk_le keeps_length unfolding disc_def by blast

lemma run_thke_good:
  assumes "disc fs0 vs0 (C_thke v) t"
  shows "good fs0 vs0 (run_thke v t)"
  using assms
proof (rule disc_stkE)
  assume s: "stk fs0 (length vs0) (t_fs t) (length (t_vs t))" and k: "keeps vs0 (t_vs t)"
    and l: "length fs0 \<le> length (t_fs t)" "length vs0 \<le> length (t_vs t)"
  show ?thesis unfolding run_thke_def thke_slow_def Let_def
    by (auto split: gval.splits obj.splits option.splits intro!: out_sat_hk raisedI[OF s] simp: disc_def s k l)
qed simp

lemma run_expr_good:
  assumes "disc fs0 vs0 (C_expr env expr) t"
  shows "good fs0 vs0 (run_expr env expr t)"
  using assms
proof (rule disc_stkE)
  assume s: "stk fs0 (length vs0) (t_fs t) (length (t_vs t))" and k: "keeps vs0 (t_vs t)"
    and l: "length fs0 \<le> length (t_fs t)" "length vs0 \<le> length (t_vs t)"
  show ?thesis unfolding run_expr_def
    by (auto split: gval.splits pnat.splits intro!: out_sat_hk simp: disc_def s k l)
qed simp


lemma run_fast_apply_good:
  assumes "disc fs0 vs0 (C_fast_apply hb) t"
  shows "good fs0 vs0 (run_fast_apply hb t)"
proof -
  have s: "stk fs0 (length vs0) (t_fs t) hb" and k: "keeps vs0 (t_vs t)" "hb < length (t_vs t)"
    using assms by (simp_all add: disc_def)
  note l = stk_length[OF s] stk_le[OF s]
  show ?thesis unfolding run_fast_apply_def Let_def
    using k(2) by (auto split: gval.splits pnat.splits intro!: out_sat_hk raisedI[OF s] simp: disc_def s k(1) l) linarith+
qed

lemma keeps_mono: "take m vs' = take m vs \<Longrightarrow> length vs0 \<le> m \<Longrightarrow> keeps vs0 vs \<Longrightarrow> keeps vs0 vs'"
  unfolding keeps_def by (metis min.absorb1 take_take)

lemma strict_entry_same:
  assumes "pl_strict_entry code (Suc hb) argc t = Inr (t', k)" "keeps vs0 (t_vs t)" "length vs0 \<le> hb"
  shows "t_fs t' = t_fs t \<and> length (t_vs t') = length (t_vs t) \<and> keeps vs0 (t_vs t')"
  using strict_entry_vs[OF assms(1)] keeps_mono[OF _ _ assms(2), of "Suc hb"] assms(3) by auto

lemma judge_good:
  assumes "disc fs0 vs0 (C_judge hb argc jcode) t"
  shows "good fs0 vs0 (enter_execv code hb argc t)" "good fs0 vs0 (judge_naive hb argc t)"
    "good fs0 vs0 (judge_block C hb argc t)"
proof -
  have s: "stk fs0 (length vs0) (t_fs t) hb" and k: "keeps vs0 (t_vs t)" "length (t_vs t) = hb + 1 + argc"
    using assms by (simp_all add: disc_def)
  note l = stk_length[OF s] stk_le[OF s] keeps_length[OF k(1)]
  show "good fs0 vs0 (enter_execv code hb argc t)" unfolding enter_execv_def
    by (auto intro!: out_sat_hk dest!: strict_entry_same[OF _ k(1) l(2)] simp: disc_def in_exec_def less_Suc_eq_le s k l)
  show n: "good fs0 vs0 (judge_naive hb argc t)" unfolding judge_naive_def
    using l k by (auto intro!: out_sat_hk simp: disc_def s)
  show "good fs0 vs0 (judge_block C hb argc t)" unfolding judge_block_def
    by (intro out_sat_hk) (auto split: gval.splits option.splits simp: n disc_def in_exec_def less_Suc_eq_le s k l)
qed

lemma op_args_ready_good:
  assumes "disc fs0 vs0 (C_op_args i ob m) t"
  shows "good fs0 vs0 (op_args_ready i ob m t)"
proof -
  have s: "stk fs0 (length vs0) (t_fs t) (ob - 1)" and k: "keeps vs0 (t_vs t)" "length (t_vs t) = ob + m" "0 < ob"
    using assms by (simp_all add: disc_def)
  show ?thesis using stk_length[OF s] s k by (simp add: op_args_ready_def disc_def)
qed

lemma op_args_loop_good:
  "disc fs0 vs0 (C_op_args i ob m) t \<Longrightarrow> good fs0 vs0 (op_args_loop i ob m ks t)"
proof (induction i ob m ks t rule: op_args_loop.induct)
  case (2 i ob m k ks t)
  have s: "stk fs0 (length vs0) (t_fs t) (ob - 1)" and k: "keeps vs0 (t_vs t)" "length (t_vs t) = ob + m" "0 < ob"
    using 2(3) by (simp_all add: disc_def)
  note l = stk_length[OF s] stk_le[OF s]
  show ?case using 2 by (auto intro!: out_sat_hk simp: disc_def s k l)
qed (simp add: op_args_ready_good)

lemma oparg_loop_good:
  "disc fs0 vs0 C_oparg_next t \<Longrightarrow> t_fs t = PL_F_OPARG op ab argc k0 # fs \<Longrightarrow> good fs0 vs0 (oparg_loop op ab argc ks t)"
proof (induction op ab argc ks t rule: oparg_loop.induct)
  case (1 op ab argc t)
  then show ?case by (auto simp: disc_def split: if_splits)
next
  case (2 op ab argc k ks t)
  then show ?case by (auto intro!: out_sat_hk simp: disc_def split: if_splits)
qed

lemma run_oparg_next_good: "disc fs0 vs0 C_oparg_next t \<Longrightarrow> good fs0 vs0 (run_oparg_next t)"
  by (auto simp: run_oparg_next_def split: list.splits mframe.splits intro: oparg_loop_good)

lemma run_opdeep_next_good: "disc fs0 vs0 C_opdeep_next t \<Longrightarrow> good fs0 vs0 (run_opdeep_next t)"
  unfolding run_opdeep_next_def
  by (auto split: list.splits mframe.splits if_splits intro!: out_sat_hk simp: disc_def)


subsection \<open>Returning to a frame\<close>

text \<open>A value that returns to a frame above the base.\<close>

lemma ret_frameE:
  assumes "disc fs0 vs0 (C_ret v) t" "length (t_fs t) \<noteq> length fs0" "t_fs t = fr # fs"
  obtains m where "below fr (length (t_vs t)) = Some m" "stk fs0 (length vs0) fs m" "length fs0 \<le> length fs"
    "length vs0 \<le> m" "m \<le> length (t_vs t)" "keeps vs0 (t_vs t)"
proof -
  have s: "stk fs0 (length vs0) (fr # fs) (length (t_vs t))" and k: "keeps vs0 (t_vs t)"
    using assms(1,3) by (simp_all add: disc_def)
  have l: "length fs0 \<le> length fs" using stk_length[OF s] assms(2,3) by auto
  obtain m where m: "below fr (length (t_vs t)) = Some m" "stk fs0 (length vs0) fs m"
    using s l by (auto split: option.splits)
  show ?thesis using that[OF m l stk_le[OF m(2)] below_le[OF m(1)] k] .
qed

lemma ret_pass_good:
  assumes "stk fs0 (length vs0) fs (length (t_vs t))" "keeps vs0 (t_vs t)" "t_fs t = fr # fs" "length fs0 \<le> length fs"
  shows "good fs0 vs0 (ret_update u v t)" "good fs0 vs0 (ret_upd u ab ac v t)" "good fs0 vs0 (ret_nf v t)"
    "good fs0 vs0 (ret_nfobj u k v t)" "good fs0 vs0 (ret_try v t)" "good fs0 vs0 (ret_memo f x epoch v t)"
  using assms
  unfolding ret_update_def ret_upd_def ret_nf_def ret_nfobj_def ret_try_def ret_memo_def
  by (auto split: option.splits prod.splits intro!: out_sat_hk simp: disc_def)

lemma ret_apply_good:
  assumes "stk fs0 (length vs0) fs (length (t_vs t))" "keeps vs0 (t_vs t)" "t_fs t = fr # fs"
  shows "good fs0 vs0 (ret_apply x v t)"
  using assms stk_le[OF assms(1)]
  unfolding ret_apply_def by (auto intro!: out_sat_hk simp: disc_def)

lemma spine_of_Cons: "spine_of h v = Inr sp \<Longrightarrow> \<exists>x xs. sp = x # xs"
  by (cases v) (auto simp: spine_of_def res_simps)

lemma ret_opent_good:
  assumes "stk fs0 (length vs0) fs (length (t_vs t))" "keeps vs0 (t_vs t)" "t_fs t = fr # fs"
  shows "good fs0 vs0 (ret_opent opset v t)"
  using assms stk_le[OF assms(1)]
  unfolding ret_opent_def Let_def
  by (auto intro!: out_sat_hk raisedI[where m = "length (t_vs t)"] simp: disc_def dest!: spine_of_Cons)

lemma ret_kapp_good:
  assumes "stk fs0 (length vs0) fs ab" "length (t_vs t) = ab + 1" "keeps vs0 (t_vs t)" "t_fs t = fr # fs"
  shows "good fs0 vs0 (ret_kapp env expr k ab v t)"
  using assms stk_le[OF assms(1)] stk_length[OF assms(1)]
  unfolding ret_kapp_def by (auto intro!: out_sat_hk simp: disc_def dest!: vput_fields)

lemma stk_applies:
  "stk fs0 b0 fs n \<Longrightarrow> stk fs0 b0 (map PL_F_APPLY xs @ fs) n"
proof (induction xs)
  case (Cons x xs)
  then show ?case using stk_length[OF Cons.prems] by simp
qed simp

lemma applyn_enter_good:
  assumes "stk fs0 (length vs0) (t_fs t) (pb - 1)" "0 < pb" "length (t_vs t) = pb + a" "0 < a" "keeps vs0 (t_vs t)"
  shows "good fs0 vs0 (applyn_enter pb a v t)"
  using assms stk_le[OF assms(1)]
  unfolding applyn_enter_def
  by (auto split: gval.splits intro!: out_sat_hk simp: disc_def dest!: vput_fields)

lemma ret_applyn_good:
  assumes "stk fs0 (length vs0) fs (pb - 1)" "length (t_vs t) = pb + m" "0 < pb" "keeps vs0 (t_vs t)" "t_fs t = fr # fs"
  shows "good fs0 vs0 (ret_applyn pb m v t)"
  using assms stk_le[OF assms(1)]
  unfolding ret_applyn_def Let_def
  by (auto intro!: out_sat_hk applyn_enter_good stk_applies simp: disc_def)

lemma run_ret_good:
  assumes d: "disc fs0 vs0 (C_ret v) t"
  shows "good fs0 vs0 (run_ret (length fs0) v t)"
proof (cases "length (t_fs t) = length fs0")
  case True
  then show ?thesis using d stk_base[of fs0 "length vs0" "t_fs t"] keeps_all
    by (auto simp: run_ret_def disc_def stopd_def)
next
  case b: False
  show ?thesis
  proof (cases "t_fs t")
    case (Cons fr fs)
    obtain m where m: "below fr (length (t_vs t)) = Some m" "stk fs0 (length vs0) fs m" "length fs0 \<le> length fs"
        "length vs0 \<le> m" "m \<le> length (t_vs t)" "keeps vs0 (t_vs t)"
      by (rule ret_frameE[OF d b Cons])
    show ?thesis
      using m b Cons ret_pass_good[of fs0 vs0 fs t fr] ret_apply_good[of fs0 vs0 fs t fr] ret_opent_good[of fs0 vs0 fs t fr]
        ret_kapp_good[of fs0 vs0 fs _ t fr] ret_applyn_good[of fs0 vs0 fs _ t _ fr]
      by (cases fr) (auto simp: run_ret_def disc_def in_exec_def split: if_splits intro!: out_sat_hk dest!: vput_fields)
  qed (use b in \<open>simp add: run_ret_def\<close>)
qed


subsection \<open>Bytecode\<close>

text \<open>The frame of running bytecode: its operands start at \<open>argbase\<close>, its result goes to \<open>xbase\<close>.\<close>

lemma exec_frame_below: "below (exec_frame fr) n =
    (if x_argbase fr \<le> n \<and> (x_v fr \<longrightarrow> x_b fr \<le> x_argbase fr) then Some (xbase fr) else None)"
  by (simp add: exec_frame_def xbase_def)

lemma exec_frame_k [simp]: "below (exec_frame (fr\<lparr>x_k := pc\<rparr>)) n = below (exec_frame fr) n"
  by (simp add: exec_frame_def)

lemma is_exec_frame [simp]: "is_exec (exec_frame fr)"
  by (simp add: exec_frame_def)

definition xctx :: "mframe list \<Rightarrow> gval list \<Rightarrow> xframe \<Rightarrow> mframe list \<Rightarrow> pl_thread \<Rightarrow> bool" where
  "xctx fs0 vs0 fr fs t \<longleftrightarrow> t_fs t = exec_frame fr # fs \<and> stk fs0 (length vs0) fs (xbase fr) \<and>
     (x_v fr \<longrightarrow> x_b fr \<le> x_argbase fr) \<and> x_argbase fr \<le> length (t_vs t) \<and> keeps vs0 (t_vs t)"

lemma xctx_top:
  assumes "disc fs0 vs0 (C_dispatch pc) t" "top_exec t = Some fr"
  obtains fs where "xctx fs0 vs0 fr fs t"
proof -
  obtain fs where fs: "t_fs t = exec_frame fr # fs" using top_exec_fs[OF assms(2)] by blast
  then show ?thesis using assms(1) that
    by (auto simp: disc_def in_exec_def xctx_def exec_frame_below split: if_splits)
qed

lemma xctxD:
  assumes "xctx fs0 vs0 fr fs t"
  shows "t_fs t = exec_frame fr # fs" "stk fs0 (length vs0) fs (xbase fr)" "x_v fr \<Longrightarrow> x_b fr \<le> x_argbase fr"
    "x_argbase fr \<le> length (t_vs t)" "keeps vs0 (t_vs t)" "length fs0 \<le> length fs" "length vs0 \<le> xbase fr"
    "xbase fr \<le> x_argbase fr" "length vs0 \<le> x_argbase fr" "length vs0 \<le> length (t_vs t)"
  using assms stk_le stk_length by (fastforce simp: xctx_def xbase_def split: if_splits)+

lemma xctx_good:
  assumes "xctx fs0 vs0 fr fs t"
  shows "disc fs0 vs0 (C_dispatch pc) t" "disc fs0 vs0 C_exec t" "disc fs0 vs0 (C_eval v) t" "disc fs0 vs0 (C_expr e x) t"
    "raised fs0 vs0 t" "disc fs0 vs0 (C_eval v) (fpop (set_vsp (xbase fr) t))"
    "disc fs0 vs0 (C_ret v) (fpop (set_vsp (xbase fr) t))"
proof -
  note d = xctxD[OF assms]
  have s: "stk fs0 (length vs0) (t_fs t) (length (t_vs t))" using d by (simp add: exec_frame_below)
  have m: "min (length (t_vs t)) (xbase fr) = xbase fr" using d by simp
  show "raised fs0 vs0 t" using raisedI[OF s] d(5) by simp
  show "disc fs0 vs0 (C_dispatch pc) t" "disc fs0 vs0 C_exec t" "disc fs0 vs0 (C_eval v) t" "disc fs0 vs0 (C_expr e x) t"
    "disc fs0 vs0 (C_eval v) (fpop (set_vsp (xbase fr) t))" "disc fs0 vs0 (C_ret v) (fpop (set_vsp (xbase fr) t))"
    using s d m by (simp_all add: disc_def in_exec_def)
qed

lemma xctx_fields [simp]:
  "xctx fs0 vs0 fr fs (set_heap h t) = xctx fs0 vs0 fr fs t" "xctx fs0 vs0 fr fs (t\<lparr>t_fuel := f\<rparr>) = xctx fs0 vs0 fr fs t"
  "xctx fs0 vs0 fr fs (t\<lparr>t_pending_yield := p\<rparr>) = xctx fs0 vs0 fr fs t"
  by (simp_all add: xctx_def)

lemma xctx_vpush: "xctx fs0 vs0 fr fs t \<Longrightarrow> xctx fs0 vs0 fr fs (pl_vpush v t)"
  using xctxD(10)[of fs0 vs0 fr fs t] by (simp add: xctx_def)

lemma xctx_vpushes: "xctx fs0 vs0 fr fs t \<Longrightarrow> xctx fs0 vs0 fr fs (vpushes xs t)"
  using xctxD(10)[of fs0 vs0 fr fs t] by (simp add: xctx_def)

lemma xctx_set_vsp:
  "xctx fs0 vs0 fr fs t \<Longrightarrow> x_argbase fr \<le> m \<Longrightarrow> xctx fs0 vs0 fr fs (set_vsp m t)"
  using xctxD(9)[of fs0 vs0 fr fs t] by (simp add: xctx_def)

lemma xctx_XSYNC: "xctx fs0 vs0 fr fs t \<Longrightarrow> xctx fs0 vs0 (fr\<lparr>x_k := pc\<rparr>) fs (XSYNC fr pc t)"
  by (auto simp: xctx_def XSYNC_def xbase_def split: if_splits)

lemma xctx_same: "t_fs t' = t_fs t \<Longrightarrow> t_vs t' = t_vs t \<Longrightarrow> xctx fs0 vs0 fr fs t' = xctx fs0 vs0 fr fs t"
  by (simp add: xctx_def)

lemma vreplace_xctx:
  "xctx fs0 vs0 fr fs t \<Longrightarrow> n \<le> operands fr t \<Longrightarrow> xctx fs0 vs0 fr fs (pl_vreplace n r t)"
  unfolding pl_vreplace_def by (intro xctx_vpush xctx_set_vsp) (simp_all add: operands_def, use xctxD(4) in fastforce)

lemma underflow_good: "xctx fs0 vs0 fr fs t \<Longrightarrow> good fs0 vs0 (underflow t)"
  by (simp add: underflow_def xctx_good(5))

lemma x_push_good:
  assumes "xctx fs0 vs0 fr fs t"
  shows "good fs0 vs0 (x_push_var fr pc t)" "good fs0 vs0 (x_push_lit fr pc t)" "good fs0 vs0 (x_push_slot fr pc t)"
  unfolding x_push_var_def x_push_lit_def x_push_slot_def
  by (auto intro!: out_sat_hk xctx_good[OF assms] xctx_good[OF xctx_vpush[OF assms]])

lemma mk_known_same: "mk_known idx rawbane argc t = (t', v) \<Longrightarrow> t_fs t' = t_fs t \<and> t_vs t' = t_vs t"
  by (auto simp: mk_known_def Let_def split: prod.splits)

lemma mk_thk_known_good:
  assumes "xctx fs0 vs0 fr fs t" "argc \<le> operands fr t"
  shows "good fs0 vs0 (mk_thk_known idx rawbane argc pc t)"
proof -
  obtain t' v where m: "mk_known idx rawbane argc t = (t', v)" by force
  have "xctx fs0 vs0 fr fs t'" using mk_known_same[OF m] xctx_same[of t' t] assms(1) by simp
  then show ?thesis using vreplace_xctx[of fs0 vs0 fr fs t' argc v] mk_known_same[OF m] assms(2)
    by (simp add: mk_thk_known_def m operands_def xctx_good)
qed

lemma mk_thk_spec_good:
  assumes "xctx fs0 vs0 fr fs t" "argc \<le> operands fr t"
  shows "good fs0 vs0 (mk_thk_spec idx rawbane argc spec pc t)"
  unfolding mk_thk_spec_def Let_def
  by (intro out_sat_hk)
    (auto split: option.splits simp: mk_thk_known_good[OF assms] xctx_good[OF vreplace_xctx[OF assms]])

lemma x_mk_app_good:
  assumes c: "xctx fs0 vs0 fr fs t"
  shows "good fs0 vs0 (x_mk_app fr pc t)"
proof -
  have g: "xctx fs0 vs0 fr fs (pl_vpush app (set_vsp (length (t_vs t) - argc - 1) (set_heap h t)))"
    if "\<not> operands fr t < argc + 1" for app argc h
    using that c by (intro xctx_vpush xctx_set_vsp) (auto simp: operands_def)
  show ?thesis unfolding x_mk_app_def Let_def
    by (intro out_sat_hk) (auto intro!: out_sat_hk underflow_good[OF c] xctx_good[OF g[simplified]])
qed

lemma reify_xctx:
  assumes "xctx fs0 vs0 fr fs t" "pl_exec_reify_env fr t = Inr (fr', t')"
  shows "xctx fs0 vs0 (fr'\<lparr>x_k := pc\<rparr>) fs (XSYNC fr' pc t')"
  using assms by (auto simp: pl_exec_reify_env_def xctx_def XSYNC_def xbase_def split: if_splits)

lemma x_interp_good: "xctx fs0 vs0 fr fs t \<Longrightarrow> good fs0 vs0 (x_interp fr pc t)"
  unfolding x_interp_def using reify_xctx xctx_good(4)
  by (intro out_sat_hk, clarify, intro out_sat_hk) (simp, blast)

lemma x_force_good:
  assumes c: "xctx fs0 vs0 fr fs t"
  shows "good fs0 vs0 (x_force fr pc t)" "good fs0 vs0 (x_force_ready fr pc t)"
proof -
  have "xctx fs0 vs0 (fr\<lparr>x_k := pc\<rparr>) fs (XSYNC fr pc (set_vsp (length (t_vs t) - 1) t))" if "operands fr t \<noteq> 0"
    using that c by (intro xctx_XSYNC xctx_set_vsp) (auto simp: operands_def)
  then show f: "good fs0 vs0 (x_force fr pc t)"
    unfolding x_force_def Let_def using c by (auto simp: underflow_good xctx_good)
  show "good fs0 vs0 (x_force_ready fr pc t)"
    unfolding x_force_ready_def using c f by (auto simp: underflow_good xctx_good)
qed

lemma x_ret_good:
  assumes c: "xctx fs0 vs0 fr fs t"
  shows "good fs0 vs0 (x_ret fr t)" "good fs0 vs0 (x_ret_ready fr t)"
  unfolding x_ret_def x_ret_ready_def Let_def
  using xctx_good[OF c] by (auto simp: underflow_good[OF c] disc_def)

lemma tail_fallback_good:
  assumes c: "xctx fs0 vs0 fr fs t"
  shows "good fs0 vs0 (tail_fallback fr argc rawbane idx t)"
proof -
  obtain t' v where m: "mk_known idx rawbane argc t = (t', v)" by force
  have c': "xctx fs0 vs0 fr fs t'" using mk_known_same[OF m] xctx_same[of t' t] c by simp
  show ?thesis using xctx_good[OF c'] xctx_good[of fs0 vs0 fr fs "set_heap h t" for h] c
    by (auto simp: tail_fallback_def m split: prod.splits)
qed

lemma enter_op_good: "disc fs0 vs0 (C_op_args i ob m) t \<Longrightarrow> good fs0 vs0 (enter_op ready i ob m t)"
  using op_args_ready_good[of fs0 vs0 i ob m "t\<lparr>t_fuel := f\<rparr>" for f]
  by (simp add: enter_op_def Let_def disc_def)

lemma tail_move_fields:
  assumes "xctx fs0 vs0 fr fs t"
  shows "t_fs (tail_move fr pre xs t) = fs" "length (t_vs (tail_move fr pre xs t)) = xbase fr + length pre + length xs"
    "keeps vs0 (t_vs (tail_move fr pre xs t))"
  using xctxD[OF assms] by (simp_all add: tail_move_def)

lemma peek_length: "n \<le> length (t_vs t) \<Longrightarrow> length (peek n t) = n"
  by (simp add: peek_def)

lemma tail_enter_good:
  assumes c: "xctx fs0 vs0 fr fs t" and n: "argc \<noteq> 0" "argc \<le> operands fr t"
  shows "good fs0 vs0 (tail_enter fr ready argc rawbane idx t)"
proof -
  note d = xctxD[OF c]
  have p: "length (peek argc t) = argc" using n(2) by (simp add: operands_def peek_length)
  note s = d(2)[simplified] d(6,7)
  show ?thesis unfolding tail_enter_def Let_def
    using n(1) p s tail_fallback_good[OF c] xctx_good(5)[OF c]
    by (auto intro!: out_sat_hk enter_op_good split: option.splits simp: disc_def tail_move_fields[OF c])
qed

lemma x_tail_good:
  assumes c: "xctx fs0 vs0 fr fs t"
  shows "good fs0 vs0 (x_tail fr ready pc t)"
  unfolding x_tail_def Let_def
  by (intro out_sat_hk)
    (auto simp: underflow_good[OF c] xctx_good(5)[OF c] operands_def c
      intro!: tail_fallback_good[where fs = fs] tail_enter_good[where fs = fs])


lemma fuel_step_xctx: "fuel_step t = (y, t') \<Longrightarrow> xctx fs0 vs0 fr fs t' = xctx fs0 vs0 fr fs t"
  using fuel_step_same xctx_same by blast

lemma stop_run_good:
  "xctx fs0 vs0 fr fs t \<Longrightarrow> stopd fs0 vs0 PL_RUN_YIELDED (t\<lparr>t_resume_kind := PL_RES_RUN\<rparr>)"
  using xctx_good(2)[of fs0 vs0 fr fs t] by (simp add: stopd_def disc_def)

lemma x_jump_good:
  assumes c: "xctx fs0 vs0 fr fs t"
  shows "good fs0 vs0 (x_jump fr pc target t)"
proof -
  obtain y t' where f: "fuel_step t = (y, t')" by force
  have c': "xctx fs0 vs0 fr fs t'" using fuel_step_xctx[OF f] c by simp
  show ?thesis using c c' stop_run_good[OF xctx_XSYNC[OF c']] by (cases y) (auto simp: x_jump_def f xctx_good)
qed

lemma x_jumps_good:
  assumes c: "xctx fs0 vs0 fr fs t"
  shows "good fs0 vs0 (x_br fr pc t)" "good fs0 vs0 (x_jmp fr pc t)" "good fs0 vs0 (x_tailblk fr pc t)"
proof -
  have p: "xctx fs0 vs0 fr fs (set_vsp (length (t_vs t) - Suc 0) t)" if "0 < operands fr t"
    using that c by (intro xctx_set_vsp) (auto simp: operands_def)
  show "good fs0 vs0 (x_br fr pc t)" unfolding x_br_def Let_def
    by (auto intro!: out_sat_hk x_jump_good[where fs = fs] p underflow_good[OF c] xctx_good(5)[OF p] split: option.splits)
  show "good fs0 vs0 (x_jmp fr pc t)" unfolding x_jmp_def by (auto intro!: out_sat_hk x_jump_good[OF c])
  show "good fs0 vs0 (x_tailblk fr pc t)" unfolding x_tailblk_def
    by (auto intro!: out_sat_hk x_jump_good[where fs = fs] xctx_vpushes xctx_set_vsp c underflow_good[OF c])
qed

text \<open>The two ways a fuel step at a call goes on.\<close>

lemma xbase_k [simp]: "xbase (fr\<lparr>x_k := pc\<rparr>) = xbase fr" "operands (fr\<lparr>x_k := pc\<rparr>) t = operands fr t"
  by (simp_all add: xbase_def operands_def)

lemma fuel_call_good:
  assumes c: "xctx fs0 vs0 fr fs t"
    and go: "\<And>t'. xctx fs0 vs0 (fr\<lparr>x_k := pc\<rparr>) fs t' \<Longrightarrow> t_vs t' = t_vs t \<Longrightarrow> good fs0 vs0 (go t')"
  shows "good fs0 vs0 (case fuel_step (XSYNC fr pc t) of
    (True, t') \<Rightarrow> Stop PL_RUN_YIELDED ((XSYNC fr pc' t')\<lparr>t_resume_kind := PL_RES_RUN\<rparr>) | (False, t') \<Rightarrow> go t')"
proof -
  obtain y t' where f: "fuel_step (XSYNC fr pc t) = (y, t')" by force
  have c': "xctx fs0 vs0 (fr\<lparr>x_k := pc\<rparr>) fs t'" using fuel_step_xctx[OF f] xctx_XSYNC[OF c] by simp
  have "xctx fs0 vs0 (fr\<lparr>x_k := q\<rparr>) fs (XSYNC fr q t')" for q
    using c' by (auto simp: xctx_def XSYNC_def)
  from stop_run_good[OF this] show ?thesis using go[OF c'] fuel_step_same[OF f] by (cases y) (auto simp: f)
qed

text \<open>A group of operands on top of the frame, with the frame left as it is.\<close>

lemma xctx_stk:
  assumes "xctx fs0 vs0 fr fs t" "nargs \<le> operands fr t"
  shows "stk fs0 (length vs0) (exec_frame fr # fs) (length (t_vs t) - nargs)" "x_argbase fr \<le> length (t_vs t) - nargs"
    "length vs0 \<le> length (t_vs t) - nargs"
proof -
  show a: "x_argbase fr \<le> length (t_vs t) - nargs" using assms(2) xctxD(4)[OF assms(1)] by (simp add: operands_def)
  then show "length vs0 \<le> length (t_vs t) - nargs" using xctxD(9)[OF assms(1)] by simp
  show "stk fs0 (length vs0) (exec_frame fr # fs) (length (t_vs t) - nargs)"
    using a xctxD[OF assms(1)] by (simp add: exec_frame_below)
qed

lemma x_call_good:
  assumes c: "xctx fs0 vs0 fr fs t"
  shows "good fs0 vs0 (x_call fr pc t)"
proof -
  have n: "good fs0 vs0 (Goto (C_dispatch target)
      (pl_fpush (PL_F_EXEC (x_a fr) (x_b fr) (x_argc fr) (x_code fr) target (length (t_vs t') - nargs)) t'))"
    if "nargs \<le> operands fr t" "xctx fs0 vs0 (fr\<lparr>x_k := q\<rparr>) fs t'" "t_vs t' = t_vs t" for target nargs t' q
    using xctx_stk[OF that(2), of nargs] xctxD[OF that(2)] that(1,3) by (simp add: disc_def in_exec_def operands_def)
  show ?thesis unfolding x_call_def Let_def
    by (intro out_sat_hk) (auto intro!: underflow_good[OF xctx_XSYNC[OF c]] fuel_call_good[OF c] n simp: operands_def)
qed

lemma x_call_known_good:
  assumes c: "xctx fs0 vs0 fr fs t"
  shows "good fs0 vs0 (x_call_known fr ready pc t)"
proof -
  have cs: "xctx fs0 vs0 (fr\<lparr>x_k := q\<rparr>) fs (XSYNC fr q t)" for q by (rule xctx_XSYNC[OF c])
  have e: "disc fs0 vs0 (C_op_args idx (Suc (length (t_vs t) - nargs)) nargs)
      (vpushes (x # peek nargs (XSYNC fr q t)) (set_vsp (length (t_vs t) - nargs) (XSYNC fr q t)))"
    if "nargs \<le> operands fr t" for x idx nargs q
  proof -
    have "length (peek nargs (XSYNC fr q t)) = nargs" using that by (simp add: operands_def peek_length)
    then show ?thesis using xctx_stk[OF cs[of q], of nargs] xctxD[OF cs[of q]] that
      by (simp add: disc_def operands_def)
  qed
  show ?thesis unfolding x_call_known_def Let_def
    by (intro out_sat_hk) (auto intro!: underflow_good[OF cs] xctx_good(5)[OF cs] enter_op_good e simp: operands_def)
qed

lemma call_slow_good:
  assumes c: "xctx fs0 vs0 fr fs t" and n: "nargs + 1 \<le> operands fr t"
  shows "good fs0 vs0 (call_slow nargs t)"
  unfolding call_slow_def Let_def
  using xctx_stk[OF c n] xctxD[OF c] n
  by (auto intro!: out_sat_hk simp: disc_def operands_def dest!: vput_fields)

lemma x_call_fast_good:
  assumes c: "xctx fs0 vs0 fr fs t"
  shows "good fs0 vs0 (x_call_fast fr pc t)" "good fs0 vs0 (x_call_slow fr pc t)"
proof -
  have cs: "xctx fs0 vs0 (fr\<lparr>x_k := q\<rparr>) fs (XSYNC fr q t)" for q by (rule xctx_XSYNC[OF c])
  have s: "good fs0 vs0 (call_slow nargs (XSYNC fr q t))" if "Suc nargs \<le> operands fr (XSYNC fr q t)" for nargs q
    by (rule call_slow_good[OF cs]) (use that in simp)
  have j: "good fs0 vs0 (Goto (C_judge (length (t_vs t) - nargs - 1) nargs jcode) t')"
    if "Suc nargs \<le> operands fr t" "xctx fs0 vs0 (fr\<lparr>x_k := q\<rparr>) fs t'" "t_vs t' = t_vs t" for nargs jcode q t'
    using xctx_stk[OF that(2), of "nargs + 1"] xctxD[OF that(2)] that(1,3) by (simp add: disc_def operands_def)
  show "good fs0 vs0 (x_call_slow fr pc t)" unfolding x_call_slow_def Let_def
    by (intro out_sat_hk) (auto intro!: underflow_good[OF cs] s)
  show "good fs0 vs0 (x_call_fast fr pc t)" unfolding x_call_fast_def Let_def
    by (intro out_sat_hk) (auto intro!: out_sat_hk underflow_good[OF cs] s fuel_call_good[OF c] j[simplified] simp: operands_def)
qed

lemma x_num_good:
  assumes c: "xctx fs0 vs0 fr fs t"
  shows "good fs0 vs0 (x_num fr op pc t)" "good fs0 vs0 (x_tail_num fr op pc t)"
proof -
  have "xctx fs0 vs0 fr fs (t\<lparr>t_fuel := f\<rparr>)" for f using c by simp
  note v = vreplace_xctx[OF this, of 2] and m = tail_move_fields[OF this, where pre = "[]" and xs = "[]"]
  show "good fs0 vs0 (x_num fr op pc t)" unfolding x_num_def
    using underflow_good[OF c] x_call_known_good[OF c] xctx_good(1)[OF v]
    by (auto split: option.splits simp: operands_def)
  show "good fs0 vs0 (x_tail_num fr op pc t)" unfolding x_tail_num_def
    using underflow_good[OF c] x_tail_good[OF c] m xctxD(2)[OF c]
    by (auto split: option.splits simp: disc_def)
qed

subsection \<open>What the machine calls\<close>

text \<open>
  Code called on the arguments at \<open>b\<close>: it may overwrite its arguments, but leaves the height of the value stack and everything
  below \<open>b\<close>. A body may push frames that own nothing.
\<close>

definition same_below :: "nat \<Rightarrow> pl_thread \<Rightarrow> pl_thread \<Rightarrow> bool" where
  "same_below b t t' \<longleftrightarrow> length (t_vs t') = length (t_vs t) \<and> take b (t_vs t') = take b (t_vs t)"

definition free_frame :: "nat \<Rightarrow> mframe \<Rightarrow> bool" where
  "free_frame n fr \<longleftrightarrow> \<not> is_exec fr \<and> below fr n = Some n"

fun body_stack :: "nat \<Rightarrow> pl_thread \<Rightarrow> body_res \<Rightarrow> bool" where
  "body_stack ab t (Body_val r t') =
     (same_below ab t t' \<and> (\<exists>frs. t_fs t' = frs @ t_fs t \<and> list_all (free_frame (ab - 1)) frs))"
| "body_stack ab t (Body_raise e t') = (same_below ab t t' \<and> t_fs t' = t_fs t)"
| "body_stack ab t (Body_fault f) = True"

fun hook_stack :: "nat \<Rightarrow> pl_thread \<Rightarrow> hook_res \<Rightarrow> bool" where
  "hook_stack b t (Hook_no t') = (same_below b t t' \<and> t_fs t' = t_fs t)"
| "hook_stack b t (Hook_yes r t') = (same_below b t t' \<and> t_fs t' = t_fs t)"
| "hook_stack b t (Hook_raise e t') = (same_below b t t' \<and> t_fs t' = t_fs t)"

lemma same_below_refl [simp]: "same_below b t t"
  by (simp add: same_below_def)

lemma same_below_keeps: "same_below b t t' \<Longrightarrow> length vs0 \<le> b \<Longrightarrow> keeps vs0 (t_vs t) \<Longrightarrow> keeps vs0 (t_vs t')"
  unfolding same_below_def using keeps_mono by blast

lemma same_below_len: "same_below b t t' \<Longrightarrow> length (t_vs t') = length (t_vs t)"
  by (simp add: same_below_def)

lemma stk_free: "list_all (free_frame n) frs \<Longrightarrow> stk fs0 b0 fs n \<Longrightarrow> stk fs0 b0 (frs @ fs) n"
proof (induction frs)
  case (Cons fr frs)
  then have s: "stk fs0 b0 (frs @ fs) n" by simp
  show ?case using Cons.prems(1) s stk_length[OF s] by (simp add: free_frame_def)
qed simp

lemma good_fault: "good fs0 vs0 (hk (Inl f) k)"
  by (rule out_sat_hk) simp

lemma run_exec_good: "disc fs0 vs0 C_exec t \<Longrightarrow> good fs0 vs0 (run_exec t)"
  by (auto simp: run_exec_def disc_def split: option.splits)

locale stack_ops = quiet_ops +
  assumes body_stack: "body_stack ab t (cf_body C name t ab)"
    and hook_stack: "cf_hook C = Some hk' \<Longrightarrow> hook_stack hbase t (hk' t hbase argc)"
    and effect_stack: "cf_effect C = Some eff \<Longrightarrow> t_fs (eff t) = t_fs t \<and> t_vs (eff t) = t_vs t"
    and io_stack: "cf_io C = Some io' \<Longrightarrow> hook_stack ab t (io' t opi ab)"
begin

lemma call_body_stack: "body_stack ab t (call_body C opi ab t)"
proof (cases "cf_io C")
  case None
  then show ?thesis using body_stack by (simp add: call_body_def Let_def)
next
  case (Some f)
  show ?thesis
  proof (cases "f t opi ab")
    case (Hook_no t')
    have q: "same_below ab t t'" "t_fs t' = t_fs t" using io_stack[OF Some, of ab t opi] Hook_no by simp_all
    show ?thesis using body_stack[of ab t "op_fn (pl_ops ! opi)"] body_stack[of ab t' "op_fn (pl_ops ! opi)"] Some Hook_no q
      by (cases "cf_body C (op_fn (pl_ops ! opi)) t' ab") (auto simp: call_body_def Let_def same_below_def)
  qed (use body_stack io_stack[OF Some, of ab t opi] Some in \<open>auto simp: call_body_def Let_def\<close>)
qed

lemma run_op_body_ready_good:
  assumes "disc fs0 vs0 (C_op_body_ready opi ab) t"
  shows "good fs0 vs0 (run_op_body_ready C opi ab t)"
proof -
  have s: "stk fs0 (length vs0) (t_fs t) (ab - 1)" and k: "keeps vs0 (t_vs t)" "0 < ab" "ab \<le> length (t_vs t)"
    using assms by (simp_all add: disc_def)
  define t1 where "t1 = t\<lparr>t_centry := t_centry t + 1\<rparr>"
  define t2 where "t2 = (if 82 \<le> op_set_of (pl_ops ! opi) then t1\<lparr>t_epoch := t_epoch t1 + 1\<rparr> else t1)"
  define t3 where "t3 = (case cf_effect C of Some f \<Rightarrow> if op_host (pl_ops ! opi) then f t2 else t2 | None \<Rightarrow> t2)"
  have "t_fs t2 = t_fs t \<and> t_vs t2 = t_vs t" by (simp add: t2_def t1_def)
  then have q: "t_fs t3 = t_fs t" "t_vs t3 = t_vs t" using effect_stack by (simp_all add: t3_def split: option.splits)
  note l = stk_le[OF s]
  have kb: "keeps vs0 (t_vs t')" "length (t_vs t') = length (t_vs t)" if "same_below ab t3 t'" for t'
    using same_below_keeps[OF that] same_below_len[OF that] q k l by auto
  have d: "good fs0 vs0 (body_done opi ab r t')"
    if b: "same_below ab t3 t'" "t_fs t' = frs @ t_fs t" "list_all (free_frame (ab - 1)) frs" for r t' frs
    using stk_free[OF b(3) s] kb[OF b(1)] b(2) k l
    by (auto simp: body_done_def Let_def disc_def stopd_def min_def intro!: raisedI)
  have e: "raised fs0 vs0 t'" if "same_below ab t3 t'" "t_fs t' = t_fs t" for t'
    using kb[OF that(1)] that(2) s k by (intro raisedI[where m = "ab - 1"]) simp_all
  show ?thesis using call_body_stack[of ab t3 opi] q d e
    unfolding run_op_body_ready_def Let_def t1_def[symmetric] t2_def[symmetric] t3_def[symmetric]
    by (cases "call_body C opi ab t3") (auto intro: good_fault)
qed

lemma judge_entry_good:
  assumes "disc fs0 vs0 (C_judge hb argc jc) t"
  shows "good fs0 vs0 (judge_entry C hb argc jcode t)"
proof -
  have d: "disc fs0 vs0 (C_judge hb argc jc) t'" if "pl_law_code C head t = Inr (t', c)" for t' c head
    using law_code_quiet[OF that] assms disc_same[of t' t] by simp
  show ?thesis unfolding judge_entry_def
    by (intro out_sat_hk) (auto split: option.splits dest!: d simp: judge_good[OF assms] judge_good)
qed

lemma run_judge_good:
  assumes d: "disc fs0 vs0 (C_judge hb argc jcode) t"
  shows "good fs0 vs0 (run_judge C hb argc jcode t)"
proof (cases "cf_hook C")
  case None
  then show ?thesis by (simp add: run_judge_def judge_entry_good[OF d])
next
  case (Some f)
  let ?t = "t\<lparr>t_centry := t_centry t + 1\<rparr>"
  have s: "stk fs0 (length vs0) (t_fs t) hb" and k: "keeps vs0 (t_vs t)" "length (t_vs t) = hb + 1 + argc"
    using d by (simp_all add: disc_def)
  have kb: "keeps vs0 (t_vs t')" "length (t_vs t') = hb + 1 + argc" if "same_below hb ?t t'" for t'
    using same_below_keeps[OF that stk_le[OF s]] same_below_len[OF that] k by simp_all
  have e: "disc fs0 vs0 (C_judge hb argc jcode) (t'\<lparr>t_centry := c\<rparr>)" if "same_below hb ?t t'" "t_fs t' = t_fs t" for t' c
    using kb[OF that(1)] that(2) s by (simp add: disc_def)
  show ?thesis using hook_stack[OF Some, of hb ?t argc] s kb stk_le[OF s]
    by (cases "f ?t hb argc") (auto simp: run_judge_def Some disc_def intro!: judge_entry_good[OF e] raisedI[where m = hb])
qed

end

text \<open>The end of the scan, behind the lookup of the code: the environment is built and the group dropped.\<close>

lemma judge_env_good:
  assumes s: "stk fs0 (length vs0) (t_fs t) jb" and k: "keeps vs0 (t_vs t)" "jb + 1 + ja < length (t_vs t)"
  shows "good fs0 vs0
      (hk (case code of None \<Rightarrow> Inr (t, 0) | Some c \<Rightarrow> pl_strict_entry c (jb + 1) ja t) (\<lambda>(t, fast_k).
         hk (vslot t (jb + 1 + ja)) (\<lambda>expr.
            case build_env (t_heap t) (take (1 + ja) (drop jb (t_vs t))) (drop (jb + 1 + ja + 1) (t_vs t)) of
              (h, envv) \<Rightarrow>
                (case code of
                   Some c \<Rightarrow> Goto C_exec (pl_fpush (PL_F_EXEC envv 0 0 c fast_k jb) (set_vsp jb (set_heap h t)))
                 | None \<Rightarrow> Goto (C_expr envv expr) (set_vsp jb (set_heap h t))))))"
proof (intro out_sat_hk, clarify, intro out_sat_hk)
  note l = stk_length[OF s] stk_le[OF s]
  fix t1 k1 expr
  assume r: "(case code of None \<Rightarrow> Inr (t, 0) | Some c \<Rightarrow> pl_strict_entry c (jb + 1) ja t) = Inr (t1, k1)"
  have t1: "t_fs t1 = t_fs t" "keeps vs0 (t_vs t1)" "length (t_vs t1) = length (t_vs t)"
    using r k(1) strict_entry_same[of _ jb ja t t1 k1 vs0] l by (auto split: option.splits)
  show "good fs0 vs0 (case build_env (t_heap t1) (take (1 + ja) (drop jb (t_vs t1))) (drop (jb + 1 + ja + 1) (t_vs t1)) of
            (h, envv) \<Rightarrow>
              (case code of
                 Some c \<Rightarrow> Goto C_exec (pl_fpush (PL_F_EXEC envv 0 0 c k1 jb) (set_vsp jb (set_heap h t1)))
               | None \<Rightarrow> Goto (C_expr envv expr) (set_vsp jb (set_heap h t1))))"
    using s k l t1 by (auto simp: disc_def in_exec_def split: prod.splits option.splits)
qed

context stack_ops
begin

lemma judge_finish_good:
  assumes d: "disc fs0 vs0 (C_judge_scan jb ja) t"
  shows "good fs0 vs0 (judge_finish C jb ja t)"
proof -
  have s: "stk fs0 (length vs0) (t_fs t) jb" and k: "keeps vs0 (t_vs t)" "jb + 1 + ja < length (t_vs t)"
    using d by (simp_all add: disc_def)
  have c: "t_fs t2 = t_fs t" "t_vs t2 = t_vs t" if "pl_law_code C head t1 = Inr (t2, c)" "t_fs t1 = t_fs t" "t_vs t1 = t_vs t"
    for t1 t2 c head
    using law_code_quiet[OF that(1)] that(2,3) by simp_all
  have e: "good fs0 vs0 (enter_execv code jb ja (set_vsp (jb + 1 + ja) t1))" if "t_fs t1 = t_fs t" "t_vs t1 = t_vs t" for t1 code
    by (rule judge_good(1)[where jcode = None]) (use s k stk_le[OF s] that in \<open>simp add: disc_def\<close>)
  show ?thesis unfolding judge_finish_def Let_def
  proof (intro out_sat_hk, clarify)
    fix head t1 scode
    assume "(if length (t_vs t) - (jb + 1 + ja) - 1 = 0 then pl_law_code C head t else Inr (t, None)) = Inr (t1, scode)"
    then have t1: "t_fs t1 = t_fs t" "t_vs t1 = t_vs t" using c[of head t t1 scode] by (auto split: if_splits)
    show "good fs0 vs0 (case scode of
      Some c \<Rightarrow> enter_execv c jb ja (set_vsp (jb + 1 + ja) t1)
    | None \<Rightarrow> hk (pl_law_code C head t1) (\<lambda>(t, code).
        hk (case code of None \<Rightarrow> Inr (t, 0) | Some c \<Rightarrow> pl_strict_entry c (jb + 1) ja t) (\<lambda>(t, fast_k).
         hk (vslot t (jb + 1 + ja)) (\<lambda>expr.
            case build_env (t_heap t) (take (1 + ja) (drop jb (t_vs t))) (drop (jb + 1 + ja + 1) (t_vs t)) of
              (h, envv) \<Rightarrow>
                (case code of
                   Some c \<Rightarrow> Goto C_exec (pl_fpush (PL_F_EXEC envv 0 0 c fast_k jb) (set_vsp jb (set_heap h t)))
                 | None \<Rightarrow> Goto (C_expr envv expr) (set_vsp jb (set_heap h t)))))))"
    proof (cases scode)
      case None
      show ?thesis unfolding None option.case
        by (rule out_sat_hk, clarify) (rule judge_env_good; use c[OF _ t1] s k in simp)
    qed (simp only: option.case, rule e[OF t1])
  qed
qed

lemma run_judge_scan_good:
  assumes d: "disc fs0 vs0 (C_judge_scan jb ja) t"
  shows "good fs0 vs0 (run_judge_scan C jb ja t)"
proof -
  have s: "stk fs0 (length vs0) (t_fs t) jb" and k: "keeps vs0 (t_vs t)" "jb + 1 + ja < length (t_vs t)"
    using d by (simp_all add: disc_def)
  note l = stk_length[OF s] stk_le[OF s]
  show ?thesis unfolding run_judge_scan_def Let_def
    by (intro out_sat_hk) (use s k l in \<open>auto intro!: out_sat_hk judge_finish_good[OF d] dest!: vput_fields simp: disc_def\<close>)
qed

lemma mk_thk_body_good:
  assumes c: "xctx fs0 vs0 fr fs t" and n: "argc \<le> operands fr t"
  shows "good fs0 vs0 (mk_thk_body C idx rawbane argc pc t)"
  unfolding mk_thk_body_def
proof (rule out_sat_hk, clarify)
  fix t1 ready
  assume "spec_ready idx (length (t_vs t) - argc) [0..<argc] t = Inr (t1, ready)"
  then obtain vs where t1: "t1 = t\<lparr>t_vs := vs\<rparr>" "length vs = length (t_vs t)"
      "take (length (t_vs t) - argc) vs = take (length (t_vs t) - argc) (t_vs t)"
    using spec_ready_vs by blast
  note st = xctx_stk[OF c n]
  have k: "keeps vs0 vs" using keeps_mono[OF t1(3) st(3) xctxD(5)[OF c]] .
  have c1: "xctx fs0 vs0 fr fs t1" using c k t1 by (simp add: xctx_def)
  have n1: "argc \<le> operands fr t1" using n t1 by (simp add: operands_def)
  let ?b = "length (t_vs t1) - argc"
  have kb: "keeps vs0 (t_vs t')" "length (t_vs t') = length (t_vs t)" if "same_below ?b t1 t'" for t'
    using same_below_keeps[OF that] same_below_len[OF that] t1 k st(3) by simp_all
  have v: "disc fs0 vs0 (C_dispatch pc) (pl_vreplace argc r t')"
    if b: "same_below ?b t1 t'" "t_fs t' = frs @ t_fs t1" "list_all (free_frame (?b - 1)) frs" for r t' frs
  proof (cases frs)
    case Nil
    then have "xctx fs0 vs0 fr fs t'" using c1 kb[OF b(1)] b(2) t1(2) by (simp add: xctx_def t1(1))
    from xctx_good(1)[OF vreplace_xctx[OF this]] show ?thesis using n kb[OF b(1)] by (simp add: operands_def)
  next
    case (Cons f frs')
    then have "\<not> is_exec f" using b(3) by (simp add: free_frame_def)
    then show ?thesis using Cons b(2) kb[OF b(1)] xctxD[OF c1] st(3)
      by (simp add: disc_def in_exec_def pl_vreplace_def)
  qed
  have e: "raised fs0 vs0 t'" if "same_below ?b t1 t'" "t_fs t' = t_fs t1" for t'
    using xctx_good(5)[of fs0 vs0 fr fs t'] c1 kb[OF that(1)] that(2) t1(2) by (simp add: xctx_def t1(1))
  show "good fs0 vs0 (if ready then
      case cf_body C (op_fn (pl_ops ! idx)) t1 (length (t_vs t1) - argc) of
        Body_val r t' \<Rightarrow> Goto (C_dispatch pc) (pl_vreplace argc r t') | Body_raise e t' \<Rightarrow> Raised e t'
      | Body_fault f \<Rightarrow> hk (Inl f) (\<lambda>_ :: unit. Undefined)
    else mk_thk_spec idx rawbane argc PL_SPEC_BODY pc t1)"
    using mk_thk_spec_good[OF c1 n1] body_stack[of ?b t1 "op_fn (pl_ops ! idx)"] v e
    by (auto split: body_res.splits intro: good_fault)
qed

lemma x_mk_thk_good:
  assumes c: "xctx fs0 vs0 fr fs t"
  shows "good fs0 vs0 (x_mk_thk C fr pc t)"
proof -
  have h: "xctx fs0 vs0 fr fs (set_heap h t)" for h using c by simp
  show ?thesis unfolding x_mk_thk_def Let_def
    by (intro out_sat_hk)
      (auto split: prod.splits intro!: out_sat_hk mk_thk_known_good[OF c] mk_thk_body_good[OF c] mk_thk_spec_good[OF c]
        underflow_good[OF c] xctx_good(5)[OF c] xctx_good(1)[OF vreplace_xctx[OF h]] simp: operands_def)
qed

lemma exec_op_good:
  assumes c: "xctx fs0 vs0 fr fs t"
  shows "good fs0 vs0 (exec_op C fr op pc t)"
  unfolding exec_op_def
  by (simp add: x_push_good[OF c] x_mk_thk_good[OF c] x_mk_app_good[OF c] x_interp_good[OF c] x_ret_good[OF c] x_force_good[OF c]
      x_tail_good[OF c] x_jumps_good[OF c] x_call_good[OF c] x_call_known_good[OF c] x_call_fast_good[OF c] x_num_good[OF c]
      xctx_good[OF c] out_sat_hk)

lemma run_dispatch_good: "disc fs0 vs0 (C_dispatch pc) t \<Longrightarrow> good fs0 vs0 (run_dispatch C pc t)"
  unfolding run_dispatch_def by (auto split: option.splits intro!: out_sat_hk elim!: xctx_top intro: exec_op_good)

lemma step_good: "disc fs0 vs0 c t \<Longrightarrow> good fs0 vs0 (step C (length fs0) c t)"
  by (cases c)
    (simp_all add: step_def run_eval_good run_thke_good run_ret_good run_expr_good run_exec_good run_dispatch_good
      run_fast_apply_good run_judge_good run_judge_scan_good run_op_args_def op_args_loop_good run_oparg_next_good
      run_opdeep_next_good run_op_body_ready_good)

end

subsection \<open>Exceptions\<close>

lemma find_try_frame: "find_try frs = Some (abv, ab) \<Longrightarrow> \<exists>pre m rest. abv = pre @ [PL_F_TRY ab m] \<and> frs = abv @ rest"
  by (induction frs arbitrary: abv) (force split: mframe.splits)+

lemma stk_frame:
  "stk fs0 b0 (pre @ fr # rest) n \<Longrightarrow> length fs0 \<le> length rest \<Longrightarrow> \<exists>i m. below fr i = Some m \<and> i \<le> n \<and> stk fs0 b0 rest m"
proof (induction pre arbitrary: n)
  case (Cons f pre)
  then obtain m where m: "below f n = Some m" "stk fs0 b0 (pre @ fr # rest) m" by (auto split: option.splits)
  then show ?case using Cons.IH[OF m(2) Cons.prems(2)] below_le[OF m(1)] by (meson order_trans)
qed (auto split: option.splits)

lemma unwind_frame_stacks: "unwind_frame fr t = Inr t' \<Longrightarrow> t_fs t' = t_fs t \<and> t_vs t' = t_vs t"
  by (auto simp: unwind_frame_def res_simps split: mframe.splits gval.splits obj.splits if_splits)

lemma unwind_loop_stacks:
  "unwind_loop frs t = Inr t' \<Longrightarrow> t_fs t' = drop (length frs) (t_fs t) \<and> t_vs t' = t_vs t"
proof (induction frs arbitrary: t)
  case (Cons fr frs)
  then obtain t1 where t1: "unwind_frame fr t = Inr t1" "unwind_loop frs (fpop t1) = Inr t'" by (auto simp: res_simps)
  then show ?case using Cons.IH[OF t1(2)] unwind_frame_stacks[OF t1(1)] by (simp add: drop_Suc)
qed simp

text \<open>
  An exception that leaves the entry: the frames are gone, the values of the callers are there. There may be more of them: the handler
  is set up again after every delivery to a barrier, at the height of that barrier.
\<close>

definition left_entry :: "mframe list \<Rightarrow> gval list \<Rightarrow> pl_thread \<Rightarrow> bool" where
  "left_entry fs0 vs0 t \<longleftrightarrow> t_fs t = fs0 \<and> keeps vs0 (t_vs t)"

lemma set_exn_stacks [simp]: "t_vs (set_exn e t) = t_vs t"
  by (simp add: set_exn_def split: exn.splits)

lemma deliver_good:
  assumes r: "raised fs0 vs0 t" and v: "length vs0 \<le> vsp"
  shows "out_sat (disc fs0 vs0) (stopd fs0 vs0) (\<lambda>_. left_entry fs0 vs0) (deliver (length fs0) vsp ce e t)"
proof -
  obtain n where n: "n \<le> length (t_vs t)" and s: "stk fs0 (length vs0) (t_fs t) n" and k: "keeps vs0 (t_vs t)"
    using r by (auto simp: raised_def)
  obtain frs where frs: "t_fs t = frs @ fs0" using stk_suffix[OF s] by blast
  define u where "u = (set_exn e t)\<lparr>t_centry := ce\<rparr>"
  have u: "t_fs u = frs @ fs0" "t_vs u = t_vs t" using frs by (simp_all add: u_def)
  show ?thesis
  proof (cases "if t_exn_msg u = None then find_try frs else None")
    case None
    have "out_sat (disc fs0 vs0) (stopd fs0 vs0) (\<lambda>_. left_entry fs0 vs0)
        (hk (pl_unwind_frames (length fs0) (set_vsp vsp u)) (\<lambda>t. Raised e t))"
      by (rule out_sat_hk)
        (use u k v in \<open>auto simp: pl_unwind_frames_def left_entry_def dest!: unwind_loop_stacks split: if_splits\<close>)
    then show ?thesis using None unfolding deliver_def Let_def u_def[symmetric] by (auto simp: u split: if_splits)
  next
    case (Some p)
    then obtain abv ab pre m rest where p: "p = (abv, ab)" "abv = pre @ [PL_F_TRY ab m]" "frs = abv @ rest"
      using find_try_frame by (metis option.distinct(1) surj_pair)
    have "stk fs0 (length vs0) (pre @ PL_F_TRY ab m # (rest @ fs0)) n" using s frs p by simp
    from stk_frame[OF this] have ab: "ab \<le> n" "stk fs0 (length vs0) (rest @ fs0) ab"
      by (auto split: if_splits)
    have "out_sat (disc fs0 vs0) (stopd fs0 vs0) (\<lambda>_. left_entry fs0 vs0)
        (hk (unwind_loop abv u) (\<lambda>t. hk (pl_mk_app_from_h (t_heap t) (GNat (Direct 1)) [t_exn t]) (\<lambda>(h, v).
            Goto (C_ret v) ((set_vsp ab (set_heap h t))\<lparr>t_exn := gzero\<rparr>))))"
      by (intro out_sat_hk)
        (use u k n p ab stk_le[OF ab(2)] in \<open>auto simp: disc_def dest!: unwind_loop_stacks\<close>)
    then show ?thesis using Some unfolding deliver_def Let_def u_def[symmetric] by (auto simp: u p(1) split: if_splits)
  qed
qed

context stack_ops
begin

lemma pl_run_caught_good:
  assumes "pl_run_caught C (length fs0) c t = Some r" "disc fs0 vs0 c t"
  shows "out_sat (\<lambda>_ _. False) (stopd fs0 vs0) (\<lambda>_. left_entry fs0 vs0) r"
  by (rule pl_run_caught_rule[OF _ _ assms(1), where I = "disc fs0 vs0" and R = "\<lambda>_. raised fs0 vs0"])
    (use assms(2) step_good deliver_good keeps_length in \<open>auto simp: disc_def\<close>)

text \<open>An entry from C at the boundary \<open>fs0\<close>, with frames that own nothing already pushed above it.\<close>

lemma pl_run_centry_good:
  assumes r: "pl_run_centry C (length fs0) v t = Some r" and d: "disc fs0 vs0 (C_eval v) t"
  shows "out_sat (\<lambda>_ t'. t_fs t' = fs0 \<and> t_vs t' = vs0) (\<lambda>_ _. False) (\<lambda>_. left_entry fs0 vs0) r"
proof -
  obtain r1 where r1: "pl_run_caught C (length fs0) (C_eval v) (t\<lparr>t_centry := t_centry t + 1\<rparr>) = Some r1"
    using r by (auto simp: pl_run_centry_def Let_def split: option.splits)
  have "out_sat (\<lambda>_ _. False) (stopd fs0 vs0) (\<lambda>_. left_entry fs0 vs0) r1"
    by (rule pl_run_caught_good[OF r1]) (use d in \<open>simp add: disc_def\<close>)
  then show ?thesis using r r1
    by (cases r1) (auto simp: pl_run_centry_def stopd_def left_entry_def Let_def split: if_splits)
qed

lemma entry_good:
  assumes "pl_whnf False C v t = Some r \<or> pl_apply False C v x t = Some r \<or> pl_nf False C v t = Some r"
  shows "out_sat (\<lambda>_ t'. t_fs t' = t_fs t \<and> t_vs t' = t_vs t) (\<lambda>_ _. False) (\<lambda>_. left_entry (t_fs t) (t_vs t)) r"
proof -
  have d: "disc (t_fs t) (t_vs t) (C_eval v) t" by (simp add: disc_def keeps_def)
  have p: "disc (t_fs t) (t_vs t) (C_eval v) (pl_fpush fr t)" if "below fr (length (t_vs t)) = Some (length (t_vs t))" for fr
    using that by (simp add: disc_def keeps_def)
  show ?thesis using assms
    by (auto simp: pl_whnf_def pl_apply_def pl_nf_def pl_eval_public_def intro: pl_run_centry_good[OF _ d] pl_run_centry_good[OF _ p])
qed

end

subsection \<open>The bodies keep to the contract\<close>

named_theorems bstack_intro

definition bstack :: "body \<Rightarrow> bool" where
  "bstack b \<longleftrightarrow> (\<forall>t ab. body_stack ab t (b t ab))"

lemma bstackI: "(\<And>t ab. body_stack ab t (b t ab)) \<Longrightarrow> bstack b"
  by (simp add: bstack_def)

lemma body_stack_bk: "(\<And>x. r = Inr x \<Longrightarrow> body_stack ab t (k x)) \<Longrightarrow> body_stack ab t (bk r k)"
  by (auto simp: bk_def split: sum.splits)

lemma bstack_ARG [bstack_intro]: "(\<And>v. bstack (k v)) \<Longrightarrow> bstack (ARG i k)"
  by (auto simp: bstack_def ARG_def intro!: body_stack_bk)

lemma body_val_same: "t_fs t' = t_fs t \<Longrightarrow> t_vs t' = t_vs t \<Longrightarrow> body_stack ab t (Body_val r t')"
  by (simp add: same_below_def)

lemma body_frames_stack:
  "list_all (free_frame (ab - 1)) frs \<Longrightarrow> t_fs t' = t_fs t \<Longrightarrow> t_vs t' = t_vs t \<Longrightarrow> body_stack ab t (body_frames frs v t' ab)"
  by (auto simp: body_frames_def same_below_def)

lemma free_frames [simp]:
  "free_frame n (PL_F_APPLY x)" "free_frame n PL_F_NF" "free_frame n (PL_F_SEQ x)" "free_frame n PL_F_NIL"
  "free_frame n (PL_F_MEMO f x e)" "free_frame n (PL_F_TRY n m)" "list_all (free_frame n) (map PL_F_APPLY xs)"
  by (simp_all add: free_frame_def list_all_iff)

lemma bstack_basic [bstack_intro]:
  "bstack (body_ret v)" "bstack (body_alloc f)" "bstack (\<lambda>t ab. Body_fault g)"
  by (auto simp: bstack_def body_ret_def body_alloc_def intro!: body_stack_bk body_val_same)

lemma bstack_frames [bstack_intro]: "(\<And>n. list_all (free_frame n) frs) \<Longrightarrow> bstack (body_frames frs v)"
  by (simp add: bstack_def body_frames_stack)

lemma bstack_heap [bstack_intro]: "(\<And>x. bstack (k x)) \<Longrightarrow> bstack (body_heap f k)"
  by (auto simp: bstack_def body_heap_def intro!: body_stack_bk)

lemma bstack_with [bstack_intro]:
  "(\<And>x. bstack (k x)) \<Longrightarrow> bstack (WITH_APP v k)" "(\<And>x. bstack (l x)) \<Longrightarrow> bstack (WITH_LAW v l)"
  by (simp_all add: WITH_APP_def WITH_LAW_def bstack_heap)

lemma bstack_nat [bstack_intro]: "bstack (nat_body n f)"
  by (auto simp: bstack_def nat_body_def split: sum.splits prod.splits list.splits pval.splits op_fault.splits fault.splits)

lemma bstack_pin [bstack_intro]: "bstack op_pin_h"
  unfolding op_pin_h_def
proof (rule bstack_ARG, rule bstackI)
  fix v t ab
  obtain y t1 where f: "fuel_step t = (y, t1)" by force
  show "body_stack ab t (if \<not> gval_is_whnf v then Body_fault HUndef
    else case fuel_step t of (y, t') \<Rightarrow> Body_val (GPin (length (t_heap t)))
      ((set_heap (t_heap t @ [K_PIN False True None v None Code_null]) t')\<lparr>t_result := gzero\<rparr>))"
    using fuel_step_fields[OF f] by (simp add: f same_below_def)
qed

lemma bstack_law [bstack_intro]: "bstack op_law_h"
  unfolding op_law_h_def Let_def by (auto intro!: bstack_intro)

lemma bstack_elim [bstack_intro]: "bstack (op_elim_h M)"
proof -
  have a: "bstack (elim_app ap o' x)" for ap o' x
    by (cases x) (auto simp: elim_app_def bstack_def intro!: body_stack_bk body_frames_stack)
  have l: "bstack (elim_law l x)" for l x
    by (cases x) (auto simp: elim_law_def intro!: bstack_intro)
  have n: "bstack (\<lambda>t ab. case pl_nat_dec M n of Inr om1 \<Rightarrow> body_frames [PL_F_APPLY (GNat om1)] s t ab
      | Inl (Abort m) \<Rightarrow> Body_fault (HAbort m) | Inl (Raise m) \<Rightarrow> Body_raise (Exn_msg m) t)" for n s
    by (auto simp: bstack_def body_frames_stack split: sum.splits fault.splits)
  show ?thesis unfolding op_elim_h_def
    by (rule bstack_ARG) (auto split: gval.splits intro!: bstack_intro a l n)
qed

lemma bstack_pure [bstack_intro]:
  "bstack op_nil_h" "bstack op_truth_h" "bstack op_or_h" "bstack op_and_h" "bstack op_nor_h" "bstack op_if_h"
  "bstack op_ifz_h" "bstack (op_case_k_h n)" "bstack op_case_h" "bstack op_type_h" "bstack op_is_pin_h"
  "bstack op_is_law_h" "bstack op_is_app_h" "bstack op_is_nat_h" "bstack op_nat_h" "bstack op_arity_h"
  "bstack op_name_h" "bstack op_body_h" "bstack op_unpin_h" "bstack op_sz_h" "bstack op_hd_h" "bstack op_last_h"
  "bstack op_ix_h" "bstack (op_ix_k_h n)" "bstack op_sap_h" "bstack op_sap2_h" "bstack op_force_h" "bstack op_deepseq_h"
  by (unfold op_h_defs, intro bstack_ARG bstack_with, auto split: option.splits prod.splits gval.splits intro!: bstack_intro)+

lemma bstack_rows [bstack_intro]:
  "bstack op_init_h" "bstack op_up_h" "bstack op_slice_h" "bstack op_weld_h" "bstack op_rep_h" "bstack op_coup_h"
  "bstack (op_row_h ixs)"
  by (unfold op_h_defs op_row_h_def Let_def, intro bstack_ARG bstack_with,
      auto split: option.splits prod.splits gval.splits intro!: bstack_intro)+

lemma memo_probe_stacks: "pl_memo_probe g fh xh t = (r, t') \<Longrightarrow> t_fs t' = t_fs t \<and> t_vs t' = t_vs t"
  by (auto simp: pl_memo_probe_def split: option.splits if_splits)

lemma bstack_control [bstack_intro]: "bstack op_throw_h" "bstack op_try_h" "bstack (op_memo_h g)"
proof -
  show "bstack op_throw_h" "bstack op_try_h"
    unfolding op_throw_h_def op_try_h_def by (intro bstack_ARG bstackI; simp add: body_frames_stack)+
  show "bstack (op_memo_h g)" unfolding op_memo_h_def
    by (intro bstack_ARG bstack_heap bstackI)
      (auto split: option.splits prod.splits intro!: body_frames_stack body_val_same simp del: body_stack.simps dest!: memo_probe_stacks)
qed

lemma body_table_stack: "list_all (\<lambda>p. bstack (snd p)) (body_table M plgc ixs)"
  unfolding body_table_def by (simp add: bstack_intro)

lemma pl_body_stack: "(\<And>n. bstack (ext n)) \<Longrightarrow> bstack (pl_body M plgc ixs ext name)"
  using body_table_stack[of M plgc ixs] unfolding pl_body_def list_all_iff
  by (auto split: option.splits dest!: map_of_SomeD)

locale stack_ext = quiet_ext +
  assumes ext_stack: "body_stack ab t (ext name t ab)"
    and hook_stack: "hook = Some f \<Longrightarrow> hook_stack hbase t (f t hbase argc)"
    and eff_stack: "eff = Some g \<Longrightarrow> t_fs (g t) = t_fs t \<and> t_vs (g t) = t_vs t"
    and io_stack: "io = Some f \<Longrightarrow> hook_stack ab t (f t opi ab)"

sublocale stack_ext \<subseteq> cfgs: stack_ops "pl_cfg M plgc ixs ext hook eff io demand lawblk" for M plgc ixs lawblk
proof (unfold_locales)
  show "body_stack ab t (cf_body (pl_cfg M plgc ixs ext hook eff io demand lawblk) name t ab)" for ab t name
    using pl_body_stack[of ext] ext_stack by (simp add: pl_cfg_def bstack_def)
qed (use hook_stack eff_stack io_stack in \<open>auto simp: pl_cfg_def\<close>)

interpretation bares: stack_ext "\<lambda>name t ab. Body_fault HUndef" None None None "\<lambda>h a. (h, None)"
  by unfold_locales simp_all

subsection \<open>Threads\<close>

lemma out_ok_all: "out_ok P r \<Longrightarrow> out_sat (\<lambda>_. P) (\<lambda>_. P) (\<lambda>_. P) r"
  by (cases r) auto

lemma out_sat_conj:
  "out_sat I S R r \<Longrightarrow> out_sat I' S' R' r \<Longrightarrow>
    out_sat (\<lambda>c t. I c t \<and> I' c t) (\<lambda>s t. S s t \<and> S' s t) (\<lambda>e t. R e t \<and> R' e t) r"
  by (cases r) auto

lemma unwind_loop_bases: "unwind_loop frs t = Inr t' \<Longrightarrow> bases t' = bases t"
proof (induction frs arbitrary: t)
  case (Cons fr frs)
  then obtain t1 where t1: "unwind_frame fr t = Inr t1" "unwind_loop frs (fpop t1) = Inr t'" by (auto simp: res_simps)
  have "bases t1 = bases t" using t1(1)
    by (auto simp: unwind_frame_def res_simps split: mframe.splits gval.splits obj.splits if_splits)
  then show ?case using Cons.IH[OF t1(2)] by simp
qed simp

abbreviation has_bases :: "nat \<times> nat \<Rightarrow> pl_thread \<Rightarrow> bool" where
  "has_bases b t \<equiv> bases t = b"

lemma deliver_bases:
  "bases t = b \<Longrightarrow> out_sat (\<lambda>_. has_bases b) (\<lambda>_. has_bases b) (\<lambda>_. has_bases b) (deliver base vsp ce e t)"
  unfolding deliver_def Let_def pl_unwind_frames_def
  by (auto split: option.splits if_splits intro!: out_sat_hk dest!: unwind_loop_bases)

context quiet_ops
begin

lemma step_bases:
  assumes "bases t = b"
  shows "out_sat (\<lambda>_. has_bases b) (\<lambda>_. has_bases b) (\<lambda>_. has_bases b) (step C base c t)"
proof (cases "\<exists>v. c = C_ret v \<and> length (t_fs t) = base")
  case True
  then show ?thesis using assms by (auto simp: step_def run_ret_done)
next
  case False
  have "out_ok (has_bases b) (step C base c t)"
  proof (cases "\<exists>v. c = C_eval v \<or> c = C_ret v")
    case True
    then show ?thesis using run_eval_base run_ret_base assms False by (auto simp: step_def)
  next
    case F: False
    show ?thesis by (rule out_ok_mono[OF step_quiet[OF F]]) (simp add: quiet_bases assms)
  qed
  then show ?thesis by (rule out_ok_all)
qed

end

lemma unwind_run_stacks:
  assumes "t_fs t = frs @ fs0" "keeps vs0 (t_vs t)" "bases t = (length fs0, length vs0)" "pl_thread_unwind_run t = Inr t'"
  shows "bases t' = bases t \<and> t_fs t' = fs0 \<and> t_vs t' = vs0"
proof -
  have b: "t_base_fsp t = length fs0" "t_base_vsp t = length vs0" using assms(3) by (simp_all add: bases_def)
  have "unwind_loop frs (set_vsp (length vs0) t) = Inr t'"
    using assms(1,4) b by (simp add: pl_thread_unwind_run_def pl_unwind_frames_def)
  from unwind_loop_bases[OF this] unwind_loop_stacks[OF this] show ?thesis
    using assms(1,2) by (simp add: keeps_def)
qed

text \<open>What a thread started on the stacks of \<open>t0\<close> promises at every moment the scheduler sees it.\<close>

definition life_stacks :: "pl_thread \<Rightarrow> pl_thread \<Rightarrow> bool" where
  "life_stacks t0 t \<longleftrightarrow> bases t = (length (t_fs t0), length (t_vs t0)) \<and>
     (case t_status t of PL_RUN_EXN \<Rightarrow> t_fs t = t_fs t0 \<and> t_vs t = t_vs t0 | s \<Rightarrow> stopd (t_fs t0) (t_vs t0) s t)"

context stack_ops
begin

lemma run_caught_stacks:
  assumes "pl_run_caught C (length fs0) c t = Some r" "disc fs0 vs0 c t" "bases t = b"
  shows "out_sat (\<lambda>_ _. False) (\<lambda>s t. stopd fs0 vs0 s t \<and> bases t = b) (\<lambda>_ t. left_entry fs0 vs0 t \<and> bases t = b) r"
proof (rule pl_run_caught_rule[OF _ _ assms(1), where I = "\<lambda>c t. disc fs0 vs0 c t \<and> bases t = b"
      and R = "\<lambda>_ t. raised fs0 vs0 t \<and> bases t = b"])
  fix c t
  assume i: "disc fs0 vs0 c t \<and> bases t = b"
  show "out_sat (\<lambda>c t. disc fs0 vs0 c t \<and> bases t = b) (\<lambda>s t. stopd fs0 vs0 s t \<and> bases t = b)
      (\<lambda>_ t. raised fs0 vs0 t \<and> bases t = b) (step C (length fs0) c t)"
    using i by (intro out_sat_conj step_good step_bases) blast+
  fix e t'
  assume "raised fs0 vs0 t' \<and> bases t' = b"
  then show "out_sat (\<lambda>c t. disc fs0 vs0 c t \<and> bases t = b) (\<lambda>s t. stopd fs0 vs0 s t \<and> bases t = b)
      (\<lambda>_ t. left_entry fs0 vs0 t \<and> bases t = b) (deliver (length fs0) (length (t_vs t)) (t_centry t) e t')"
    using i keeps_length by (intro out_sat_conj deliver_good deliver_bases) (auto simp: disc_def)
qed (use assms in blast)

lemma pl_thread_run_stacks:
  assumes r: "pl_thread_run C fuel t = Some (Stop s t')" and l: "life_stacks t0 t"
  shows "life_stacks t0 t'"
proof -
  let ?fs = "t_fs t0" and ?vs = "t_vs t0" and ?b = "(length (t_fs t0), length (t_vs t0))"
  define u where "u = t\<lparr>t_fuel := fuel, t_pending_yield := False, t_suspendable := True\<rparr>"
  have st: "t_status t = PL_RUN_YIELDED" using r by (auto simp: pl_thread_run_def split: if_splits)
  have b: "bases u = ?b" "t_base_fsp t = length ?fs" using l by (simp_all add: life_stacks_def u_def bases_def)
  have d: "disc ?fs ?vs (entry_ctl (t_resume_kind t) (t_resume_val t)) u"
    using l st by (simp add: life_stacks_def stopd_def disc_def u_def)
  obtain r1 where r1: "pl_run_caught C (length ?fs) (entry_ctl (t_resume_kind t) (t_resume_val t)) u = Some r1"
    using r b(2) by (auto simp: pl_thread_run_def u_def split: if_splits option.splits)
  note ok = run_caught_stacks[OF r1 d b(1)]
  have eq: "pl_thread_run C fuel t = (case Some r1 of
      Some (Stop s t') \<Rightarrow> Some (Stop s (run_leave s t'))
    | Some (Raised e t') \<Rightarrow>
        Some (hk (pl_thread_unwind_run t') (\<lambda>t'. Stop PL_RUN_EXN (run_leave PL_RUN_EXN (t'\<lparr>t_centry := 0\<rparr>))))
    | r \<Rightarrow> r)"
    using r r1 b(2) by (simp add: pl_thread_run_def u_def split: if_splits)
  show ?thesis
  proof (cases r1)
    case (Stop s1 t1)
    then have "s1 = s" "t' = run_leave s t1" using r eq by auto
    then show ?thesis using ok Stop
      by (cases s) (auto simp: life_stacks_def stopd_def run_leave_def)
  next
    case (Raised e t1)
    then obtain t2 where "pl_thread_unwind_run t1 = Inr t2" "t' = run_leave PL_RUN_EXN (t2\<lparr>t_centry := 0\<rparr>)"
      using r eq by (auto simp: hk_def split: sum.splits hfault.splits)
    then show ?thesis using unwind_run_stacks[of t1 "[]" ?fs ?vs t2] ok Raised
      by (simp add: life_stacks_def run_leave_def left_entry_def)
  qed (use r eq in simp_all)
qed

lemma life_stacks_life:
  assumes "thread_life C t0 t"
  shows "life_stacks t0 t"
  using assms
proof induction
  case (life_run t fuel s t')
  then show ?case using pl_thread_run_stacks by blast
next
  case (life_deposit t v t')
  then show ?case by (auto simp: pl_thread_deposit_def life_stacks_def stopd_def split: if_splits)
qed (auto simp: pl_thread_start_def pl_thread_start_nf_def pl_thread_start_call_nf_def life_stacks_def stopd_def keeps_def
    bases_def pl_fpush_def res_simps split: if_splits)

lemma life_stacks_end:
  assumes "thread_life C t0 t"
  shows "(t_status t = PL_RUN_DONE \<or> t_status t = PL_RUN_EXN \<longrightarrow> t_fs t = t_fs t0 \<and> t_vs t = t_vs t0) \<and>
    (t_status t = PL_RUN_BLOCKED \<longrightarrow> pl_thread_abandon t = Inr t' \<longrightarrow> t_fs t' = t_fs t0 \<and> t_vs t' = t_vs t0)"
proof -
  have l: "life_stacks t0 t" by (rule life_stacks_life[OF assms])
  have "t_fs t' = t_fs t0 \<and> t_vs t' = t_vs t0" if "t_status t = PL_RUN_BLOCKED" "pl_thread_abandon t = Inr t'"
  proof -
    have "stk (t_fs t0) (length (t_vs t0)) (t_fs t) (length (t_vs t))" using l that(1) by (simp add: life_stacks_def stopd_def)
    then obtain frs where "t_fs t = frs @ t_fs t0" using stk_suffix by blast
    then show ?thesis using unwind_run_stacks[of t frs "t_fs t0" "t_vs t0" t'] l that
      by (auto simp: life_stacks_def stopd_def pl_thread_abandon_def split: if_splits)
  qed
  then show ?thesis using l by (auto simp: life_stacks_def stopd_def)
qed

end

context stack_ext
begin

lemma cfg_entry_stacks:
  "pl_whnf False (pl_cfg M plgc ixs ext hook eff io demand lawblk) v t = Some r \<or>
   pl_apply False (pl_cfg M plgc ixs ext hook eff io demand lawblk) v x t = Some r \<or>
   pl_nf False (pl_cfg M plgc ixs ext hook eff io demand lawblk) v t = Some r \<Longrightarrow>
   out_sat (\<lambda>_ t'. t_fs t' = t_fs t \<and> t_vs t' = t_vs t) (\<lambda>_ _. False) (\<lambda>_. left_entry (t_fs t) (t_vs t)) r"
  by (rule cfgs.entry_good)

lemma cfg_life_stacks:
  "thread_life (pl_cfg M plgc ixs ext hook eff io demand lawblk) t0 t \<Longrightarrow>
   (t_status t = PL_RUN_DONE \<or> t_status t = PL_RUN_EXN \<longrightarrow> t_fs t = t_fs t0 \<and> t_vs t = t_vs t0) \<and>
   (t_status t = PL_RUN_BLOCKED \<longrightarrow> pl_thread_abandon t = Inr t' \<longrightarrow> t_fs t' = t_fs t0 \<and> t_vs t' = t_vs t0)"
  by (rule cfgs.life_stacks_end)

end

text \<open>
  C2. The stacks across an entry from C. \<open>pl_whnf\<close>, \<open>pl_apply\<close> and \<open>pl_nf\<close> are called at any height of the two stacks, from inside
  another evaluation for example. When the call returns a value, both stacks are exactly as they were, and it never stops in any
  other way; when it raises, the frames are as they were and so is every value of the stack below the height
  of the call. This holds for every bytecode and every law, whatever thunks are forced and whatever exceptions are
  delivered on the way; the operations that are not modelled and the hooks must leave alone what lies below their arguments.
\<close>

theorem entry_stacks:
  assumes "stack_ext ext hook eff io demand"
    "pl_whnf False (pl_cfg M plgc ixs ext hook eff io demand lawblk) v t = Some r \<or>
     pl_apply False (pl_cfg M plgc ixs ext hook eff io demand lawblk) v x t = Some r \<or>
     pl_nf False (pl_cfg M plgc ixs ext hook eff io demand lawblk) v t = Some r"
  shows "case r of Goto c t' \<Rightarrow> t_fs t' = t_fs t \<and> t_vs t' = t_vs t
    | Raised e t' \<Rightarrow> t_fs t' = t_fs t \<and> take (length (t_vs t)) (t_vs t') = t_vs t
    | Stop s t' \<Rightarrow> False
    | _ \<Rightarrow> True"
  using stack_ext.cfg_entry_stacks[OF assms] by (cases r) (simp_all add: left_entry_def keeps_def)

text \<open>
  C7. The stacks across the life of a thread. A thread is armed at any height of its stacks, run for any number of quanta of
  any size and given any answers to its requests. When it is done or ended by an uncaught exception, both stacks are
  exactly as they were when it was armed, and the same after a blocked thread is abandoned. The operations that are not modelled and the
  hooks must leave alone what lies below their arguments.
\<close>

theorem thread_stacks:
  assumes "stack_ext ext hook eff io demand" "thread_life (pl_cfg M plgc ixs ext hook eff io demand lawblk) t0 t"
  shows "(t_status t = PL_RUN_DONE \<or> t_status t = PL_RUN_EXN \<longrightarrow> t_fs t = t_fs t0 \<and> t_vs t = t_vs t0) \<and>
    (t_status t = PL_RUN_BLOCKED \<longrightarrow> pl_thread_abandon t = Inr t' \<longrightarrow> t_fs t' = t_fs t0 \<and> t_vs t' = t_vs t0)"
  by (rule stack_ext.cfg_life_stacks[OF assms])

text \<open>
  Examples: the thunk that forces itself, below a value of the caller, and the normal form of a row with a field that is a
  thunk.
\<close>

definition busy_thread :: "heap \<Rightarrow> pl_thread" where
  "busy_thread h = pl_vpush (GNat (Direct 7)) (pl_fpush PL_F_NF (pl_thread_new h))"

definition row_heap :: heap where
  "row_heap = [K_ENV [gzero, GNat (Direct 5)], K_THUNK (GEnv 0) (GNat (Direct 1)), K_APP False 0 gzero [GDefer 1, GDefer 1]]"

lemma row_nf: "(case pl_nf False C (GApp 2) (busy_thread row_heap) of Some (Goto c t') \<Rightarrow> c = C_ret (GApp 2) | _ \<Rightarrow> False)"
  by code_simp

theorem entry_stacks_witness:
  "\<exists>t'. pl_nf False bare_cfg (GApp 2) (busy_thread row_heap) = Some (Goto (C_ret (GApp 2)) t') \<and>
     t_fs t' = t_fs (busy_thread row_heap) \<and> t_vs t' = t_vs (busy_thread row_heap)"
proof -
  obtain t' where t': "pl_nf False bare_cfg (GApp 2) (busy_thread row_heap) = Some (Goto (C_ret (GApp 2)) t')"
    using row_nf[of bare_cfg] by (auto split: option.splits outcome.splits)
  show ?thesis using t' entry_stacks[OF bares.stack_ext_axioms disjI2[OF disjI2[OF t'[unfolded bare_cfg_def]]]] by simp
qed

lemma busy_loop:
  "(case pl_thread_start (GDefer 1) (busy_thread loop_heap) of
      Inr t \<Rightarrow> (case pl_thread_run C 10 t of Some (Stop s t') \<Rightarrow> t_status t' = PL_RUN_EXN | _ \<Rightarrow> False)
    | Inl e \<Rightarrow> False)"
  by code_simp

theorem thread_stacks_witness:
  "\<exists>t. thread_life bare_cfg (busy_thread loop_heap) t \<and> t_status t = PL_RUN_EXN \<and> t_fs t = [PL_F_NF] \<and>
     t_vs t = [GNat (Direct 7)]"
proof -
  obtain t where t: "thread_life bare_cfg (busy_thread loop_heap) t" "t_status t = PL_RUN_EXN"
    using busy_loop[of bare_cfg] by (auto split: sum.splits option.splits outcome.splits intro: life_start life_run)
  have "t_fs t = t_fs (busy_thread loop_heap) \<and> t_vs t = t_vs (busy_thread loop_heap)"
    using thread_stacks[OF bares.stack_ext_axioms t(1)[unfolded bare_cfg_def]] t(2) by blast
  then show ?thesis using t by (auto simp: busy_thread_def pl_thread_new_def)
qed

end
