(* ===== verification/Bytecode.thy ===== *)
theory Bytecode
  imports Eval_Exec
begin

text \<open>
  The decoder of bytecode rows: \<open>pl_bytecode_from_val\<close> of \<open>bytecode.c\<close>, which turns the row a compiler emitted into the
  code the interpreter runs, or refuses it. Pass 1 validates the opcodes and operands, resolves the
  operations and collects the law directory; pass 2 checks the jump targets; pass 3 fuses a thunk with the return behind it. The
  rewrites of \<open>bytecode_optimise\<close> follow in \<open>Bytecode_Opt\<close>.

  A word of a row is a value, an opcode or operand a direct nat. Allocations succeed; where one
  fails the code gives up or leaves the program as it is. The message of a failed decode is printed.
  A word that is no direct nat has bit 63 set and, being aligned, no low bits: as a bane it is refused, and as
  an argument count it is taken to match no operation.
\<close>

subsection \<open>Opcodes\<close>

abbreviation (input) OP_PUSH_VAR :: nat where "OP_PUSH_VAR \<equiv> 0"
abbreviation (input) OP_PUSH_LIT :: nat where "OP_PUSH_LIT \<equiv> 1"
abbreviation (input) OP_MK_THK :: nat where "OP_MK_THK \<equiv> 2"
abbreviation (input) OP_FORCE :: nat where "OP_FORCE \<equiv> 3"
abbreviation (input) OP_CALL :: nat where "OP_CALL \<equiv> 4"
abbreviation (input) OP_TAILCALL :: nat where "OP_TAILCALL \<equiv> 5"
abbreviation (input) OP_INTERP :: nat where "OP_INTERP \<equiv> 6"
abbreviation (input) OP_RET :: nat where "OP_RET \<equiv> 7"
abbreviation (input) OP_MK_APP :: nat where "OP_MK_APP \<equiv> 8"
abbreviation (input) OP_PUSH_SLOT :: nat where "OP_PUSH_SLOT \<equiv> 9"
abbreviation (input) OP_BR :: nat where "OP_BR \<equiv> 10"
abbreviation (input) OP_JMP :: nat where "OP_JMP \<equiv> 11"
abbreviation (input) OP_ENTRY :: nat where "OP_ENTRY \<equiv> 12"
abbreviation (input) OP_CALL_KNOWN :: nat where "OP_CALL_KNOWN \<equiv> 13"
abbreviation (input) OP_CALL_FAST :: nat where "OP_CALL_FAST \<equiv> 14"
abbreviation (input) OP_CALL_SLOW :: nat where "OP_CALL_SLOW \<equiv> 15"
abbreviation (input) OP_ADD :: nat where "OP_ADD \<equiv> 16"
abbreviation (input) OP_SUB :: nat where "OP_SUB \<equiv> 17"
abbreviation (input) OP_CMP :: nat where "OP_CMP \<equiv> 18"
abbreviation (input) OP_TAIL_ADD :: nat where "OP_TAIL_ADD \<equiv> 19"
abbreviation (input) OP_TAIL_SUB :: nat where "OP_TAIL_SUB \<equiv> 20"
abbreviation (input) OP_TAIL_CMP :: nat where "OP_TAIL_CMP \<equiv> 21"
abbreviation (input) OP_FORCE_READY :: nat where "OP_FORCE_READY \<equiv> 22"
abbreviation (input) OP_RET_READY :: nat where "OP_RET_READY \<equiv> 23"
abbreviation (input) OP_CALL_READY :: nat where "OP_CALL_READY \<equiv> 24"
abbreviation (input) OP_TAIL_READY :: nat where "OP_TAIL_READY \<equiv> 25"
abbreviation (input) OP_NOP :: nat where "OP_NOP \<equiv> 26"
abbreviation (input) OP_TAILBLK :: nat where "OP_TAILBLK \<equiv> 27"
abbreviation (input) OP_LAWBLK :: nat where "OP_LAWBLK \<equiv> 28"
abbreviation (input) PL_OP_COUNT :: nat where "PL_OP_COUNT \<equiv> 31"

definition UINT32_MAX :: nat where "UINT32_MAX = 2 ^ 32 - 1"

text \<open>A number as a word of the code; a word as an unsigned number, where one that is no direct nat is above all of them.\<close>

definition onat :: "nat \<Rightarrow> gval" where
  "onat n = GNat (Direct (word_of_nat n))"

definition unum :: "gval \<Rightarrow> nat" where
  "unum v = (case gval_nat63 v of Some w \<Rightarrow> unat w | None \<Rightarrow> 2 ^ 63)"

text \<open>The word at a position. The passes behind pass 1 read instructions it has checked, so the default is never read.\<close>

definition oword :: "gval list \<Rightarrow> nat \<Rightarrow> gval" where
  "oword ops k = (if k < length ops then ops ! k else gzero)"

definition onum :: "gval list \<Rightarrow> nat \<Rightarrow> nat" where
  "onum ops k = unum (oword ops k)"

definition obane :: "gval list \<Rightarrow> nat \<Rightarrow> u64" where
  "obane ops k = (case gval_nat63 (oword ops k) of Some w \<Rightarrow> w AND PL_BAN_MASK | None \<Rightarrow> 0)"

text \<open>Failures: with a message, silent (an operation this runtime does not implement), or an undefined access.\<close>

datatype dec_fault = Dec_fail string | Dec_silent | Dec_heap hfault

type_synonym 'a dres = "dec_fault + 'a"

definition dk :: "'a hres \<Rightarrow> ('a \<Rightarrow> 'b dres) \<Rightarrow> 'b dres" where
  "dk r k = (case r of Inr x \<Rightarrow> k x | Inl f \<Rightarrow> Inl (Dec_heap f))"

subsection \<open>The operation an opcode stands for\<close>

definition op_is :: "nat \<Rightarrow> string \<Rightarrow> bool" where
  "op_is idx name \<longleftrightarrow> op_mote (pl_ops ! idx) = ax_s name"

definition numeric_opcode :: "nat \<Rightarrow> bool \<Rightarrow> nat" where
  "numeric_opcode idx tail =
     (let d = pl_ops ! idx; num = op_set_of d = 66 \<and> op_argc d = 2 in
      if num \<and> op_is idx ''Add'' then (if tail then OP_TAIL_ADD else OP_ADD)
      else if num \<and> op_is idx ''Sub'' then (if tail then OP_TAIL_SUB else OP_SUB)
      else if num \<and> op_is idx ''Cmp'' then (if tail then OP_TAIL_CMP else OP_CMP)
      else if tail then OP_TAILCALL else OP_CALL_KNOWN)"

definition spec_code :: "nat \<Rightarrow> nat" where
  "spec_code idx =
     (let d = pl_ops ! idx in
      if op_set_of d \<noteq> 66 then PL_SPEC_NONE
      else if op_argc d = 2 then
        (if op_is idx ''Add'' then 1 else if op_is idx ''Sub'' then 2 else if op_is idx ''Mul'' then 3
         else if op_is idx ''Eq'' then 6 else if op_is idx ''Ne'' then 7 else if op_is idx ''Lt'' then 8
         else if op_is idx ''Le'' then 9 else if op_is idx ''Gt'' then 10 else if op_is idx ''Ge'' then 11
         else if op_is idx ''Cmp'' then 12 else if op_is idx ''Ix'' then PL_SPEC_BODY else PL_SPEC_NONE)
      else if op_argc d = 1 then
        (if op_is idx ''Inc'' then 4 else if op_is idx ''Dec'' then 5 else if op_is idx ''Nil'' then 13
         else if op_is idx ''Truth'' then 14
         else if list_ex (op_is idx) [''Hd'', ''Sz'', ''Last'', ''Type'', ''Nat'', ''Name'', ''Body'', ''IsPin'', ''IsLaw'',
             ''IsApp'', ''IsNat'', ''Ix0'', ''Ix1'', ''Ix2'', ''Ix3'', ''Ix4'', ''Ix5'', ''Ix6'', ''Ix7'']
         then PL_SPEC_BODY else PL_SPEC_NONE)
      else PL_SPEC_NONE)"

subsection \<open>Pass 1\<close>

record pl_lawblk =
  lb_law :: gval
  lb_target :: nat
  lb_arity :: nat

record dec =
  d_ops :: "gval list"
  d_i :: nat
  d_starts :: "bool list"
  d_target :: "bool list"
  d_dir_at :: "nat option"
  d_dir :: "pl_lawblk list"
  d_lits :: "nat list"
  d_max_var :: nat
  d_mask :: u64
  d_entry :: nat
  d_last :: nat

definition dec_init :: "gval list \<Rightarrow> dec" where
  "dec_init row = \<lparr>d_ops = row, d_i = 0, d_starts = replicate (length row) False, d_target = replicate (length row) False,
     d_dir_at = None, d_dir = [], d_lits = [], d_max_var = 0, d_mask = 0, d_entry = 0, d_last = PL_OP_COUNT\<rparr>"

definition opw :: "dec \<Rightarrow> nat \<Rightarrow> gval" where
  "opw d k = oword (d_ops d) (d_i d + k)"

definition dec_room :: "nat \<Rightarrow> dec \<Rightarrow> 'a dres \<Rightarrow> 'a dres" where
  "dec_room k d r = (if length (d_ops d) < d_i d + k then Inl (Dec_fail ''truncated operand'') else r)"

definition dec_skip :: "nat \<Rightarrow> dec \<Rightarrow> dec" where
  "dec_skip k d = d\<lparr>d_i := d_i d + k\<rparr>"

definition MARK_TARGET :: "gval \<Rightarrow> dec \<Rightarrow> dec dres" where
  "MARK_TARGET tgt d = (case gval_nat63 tgt of
     Some w \<Rightarrow>
       (if length (d_ops d) \<le> unat w then Inl (Dec_fail ''jump target out of range'')
        else Inr (d\<lparr>d_target := (d_target d)[unat w := True]\<rparr>))
   | None \<Rightarrow> Inl (Dec_fail ''jump target out of range''))"

fun mark_targets :: "gval list \<Rightarrow> dec \<Rightarrow> dec dres" where
  "mark_targets [] d = Inr d"
| "mark_targets (v # vs) d = rbind (MARK_TARGET v d) (mark_targets vs)"

text \<open>The operation that a pin of its set, its name and its argument count stand for.\<close>

definition dec_op :: "heap \<Rightarrow> gval \<Rightarrow> gval \<Rightarrow> gval \<Rightarrow> nat dres" where
  "dec_op h pin name argc = (case pin of
     GPin a \<Rightarrow> dk (pl_pin_body_h h a) (\<lambda>body. case body of
        GNat n \<Rightarrow> (case gval_nat63 argc of
           None \<Rightarrow> Inl Dec_silent
         | Some w \<Rightarrow>
             let idx = pl_op_lookup (pl_nat_u64_clamp n) (name_view name) (unat w mod 2 ^ 32) in
             if idx < 0 then Inl Dec_silent else Inr (nat idx))
      | _ \<Rightarrow> Inl (Dec_fail ''bad known-primop opset''))
   | _ \<Rightarrow> Inl (Dec_fail ''bad known-primop opset''))"

definition dec_lawblk :: "heap \<Rightarrow> dec \<Rightarrow> dec dres" where
  "dec_lawblk h d = dec_room 2 d (case opw d 0 of
     GLaw a \<Rightarrow> dk (law_at h a) (\<lambda>(ar, name, body).
       if UINT32_MAX < unat ar then Inl (Dec_fail ''bad law directory entry'')
       else rbind (MARK_TARGET (opw d 1) d) (\<lambda>d'.
         Inr (dec_skip 2 (d'\<lparr>d_dir_at := (case d_dir_at d' of None \<Rightarrow> Some (d_i d' - 1) | Some k \<Rightarrow> Some k),
           d_dir := d_dir d' @ [\<lparr>lb_law = GLaw a, lb_target = unum (opw d 1), lb_arity = unat ar\<rparr>]\<rparr>))))
   | _ \<Rightarrow> Inl (Dec_fail ''bad law directory entry''))"

definition dec_push_var :: "dec \<Rightarrow> dec dres" where
  "dec_push_var d = dec_room 1 d (Inr (dec_skip 1 (case gval_nat63 (opw d 0) of
     Some w \<Rightarrow>
       (if d_max_var d < unat w \<and> d_max_var d \<noteq> UINT32_MAX
        then d\<lparr>d_max_var := (if unat w < UINT32_MAX then unat w else UINT32_MAX)\<rparr> else d)
   | None \<Rightarrow> d)))"

definition dec_interp :: "dec \<Rightarrow> dec dres" where
  "dec_interp d = dec_room 1 d (Inr (dec_skip 1 (d\<lparr>d_max_var := UINT32_MAX\<rparr>)))"

definition dec_push :: "nat \<Rightarrow> dec \<Rightarrow> dec dres" where
  "dec_push op d = dec_room 1 d (Inr (dec_skip 1
     (if op = OP_PUSH_LIT then
        (case opw d 0 of GLaw a \<Rightarrow> d\<lparr>d_lits := d_lits d @ [d_i d]\<rparr> | GApp a \<Rightarrow> d\<lparr>d_lits := d_lits d @ [d_i d]\<rparr> | _ \<Rightarrow> d)
      else d)))"

definition dec_mk_app :: "dec \<Rightarrow> dec dres" where
  "dec_mk_app d = dec_room 1 d (case gval_nat63 (opw d 0) of
     Some w \<Rightarrow> if w = 0 \<or> UINT32_MAX - 2 < unat w then Inl (Dec_fail ''bad app argument count'') else Inr (dec_skip 1 d)
   | None \<Rightarrow> Inl (Dec_fail ''bad app argument count''))"

definition dec_entry :: "dec \<Rightarrow> dec dres" where
  "dec_entry d = dec_room 1 d (case gval_nat63 (opw d 0) of
     Some w \<Rightarrow>
       (if d_entry d \<noteq> 0 \<or> w = 0 then Inl (Dec_fail ''bad strict entry'')
        else Inr (dec_skip 1 (d\<lparr>d_mask := w, d_entry := d_i d + 1\<rparr>)))
   | None \<Rightarrow> Inl (Dec_fail ''bad strict entry''))"

text \<open>\<open>OP_JMP\<close>, and with a count behind the target \<open>OP_CALL\<close> and \<open>OP_TAILBLK\<close>.\<close>

definition dec_jump :: "nat \<Rightarrow> dec \<Rightarrow> dec dres" where
  "dec_jump k d = dec_room k d (rbind (MARK_TARGET (opw d 0) d) (\<lambda>d. Inr (dec_skip k d)))"

definition dec_argc :: "gval \<Rightarrow> dec dres \<Rightarrow> dec dres" where
  "dec_argc v r = (case gval_nat63 v of
     Some w \<Rightarrow> if w = 0 then Inl (Dec_fail ''bad call argc'') else r | None \<Rightarrow> Inl (Dec_fail ''bad call argc''))"

definition dec_call_slow :: "dec \<Rightarrow> dec dres" where
  "dec_call_slow d = dec_room 1 d (dec_argc (opw d 0) (Inr (dec_skip 1 d)))"

definition dec_call_fast :: "dec \<Rightarrow> dec dres" where
  "dec_call_fast d = dec_room 2 d (dec_argc (opw d 0)
     (if gval_nat63 (opw d 1) = None then Inl (Dec_fail ''bad call argc'') else Inr (dec_skip 2 d)))"

definition dec_call_known :: "heap \<Rightarrow> dec \<Rightarrow> dec dres" where
  "dec_call_known h d = dec_room 3 d (dec_argc (opw d 0)
     (rbind (dec_op h (opw d 1) (opw d 2) (opw d 0)) (\<lambda>idx.
       Inr (dec_skip 3 (d\<lparr>d_ops := (d_ops d)[d_i d + 1 := onat idx, d_i d + 2 := gzero]\<rparr>)))))"

definition dec_br :: "dec \<Rightarrow> dec dres" where
  "dec_br d = dec_room 1 d (case gval_nat63 (opw d 0) of
     Some w \<Rightarrow>
       (if w = 0 \<or> length (d_ops d) < d_i d + 1 + unat w then Inl (Dec_fail ''bad branch arm count'')
        else rbind (mark_targets (take (unat w) (drop (d_i d + 1) (d_ops d))) d) (\<lambda>d. Inr (dec_skip (1 + unat w) d)))
   | None \<Rightarrow> Inl (Dec_fail ''bad branch arm count''))"

definition dec_mk_thk :: "heap \<Rightarrow> dec \<Rightarrow> dec dres" where
  "dec_mk_thk h d = dec_room 2 d (case gval_nat63 (opw d 1) of
     None \<Rightarrow> Inl (Dec_fail ''bad bane'')
   | Some w \<Rightarrow>
       (let bane = w AND PL_BAN_MASK; hint = drop_bit 8 w in
        if w AND NOT (PL_BAN_MASK OR PL_BAN_NOUPD) AND 0xff \<noteq> 0 then Inl (Dec_fail ''bad bane'')
        else if hint \<noteq> 0 \<and> bane \<noteq> PL_BAN_FAST then Inl (Dec_fail ''bad strict hint'')
        else if bane = PL_BAN_PRIM_KNOWN then
          dec_room 4 d (rbind (dec_op h (opw d 2) (opw d 3) (opw d 0)) (\<lambda>idx.
            Inr (dec_skip 4 (d\<lparr>d_ops := (d_ops d)[d_i d + 2 := onat idx, d_i d + 3 := onat (spec_code idx)]\<rparr>))))
        else if bane \<noteq> PL_BAN_FAST \<and> bane \<noteq> PL_BAN_SLOW \<and> bane \<noteq> PL_BAN_PRIM then Inl (Dec_fail ''bad bane'')
        else Inr (dec_skip 2 d)))"

text \<open>One instruction: \<open>op\<close> is its opcode, the index is behind it.\<close>

definition dec_instr :: "heap \<Rightarrow> nat \<Rightarrow> dec \<Rightarrow> dec dres" where
  "dec_instr h op d =
     (if op = OP_LAWBLK then dec_lawblk h d
      else if op = OP_PUSH_VAR then dec_push_var d
      else if op = OP_INTERP then dec_interp d
      else if op = OP_PUSH_LIT \<or> op = OP_PUSH_SLOT then dec_push op d
      else if op = OP_MK_APP then dec_mk_app d
      else if op = OP_RET \<or> op = OP_FORCE then Inr d
      else if op = OP_ENTRY then dec_entry d
      else if op = OP_JMP then dec_jump 1 d
      else if op = OP_CALL \<or> op = OP_TAILBLK then dec_jump 2 d
      else if op = OP_CALL_SLOW then dec_call_slow d
      else if op = OP_CALL_FAST then dec_call_fast d
      else if op = OP_CALL_KNOWN then dec_call_known h d
      else if op = OP_BR then dec_br d
      else if op = OP_MK_THK then dec_mk_thk h d
      else Inl (Dec_fail ''bad opcode''))"

definition pass1_step :: "heap \<Rightarrow> dec \<Rightarrow> dec dres" where
  "pass1_step h d =
     (let op = unum (opw d 0);
          d1 = dec_skip 1 (d\<lparr>d_starts := (d_starts d)[d_i d := True]\<rparr>) in
      if d_dir_at d \<noteq> None \<and> op \<noteq> OP_LAWBLK then Inl (Dec_fail ''code after the law directory'')
      else dec_instr h op (if op \<noteq> OP_LAWBLK then d1\<lparr>d_last := op\<rparr> else d1))"

lemma dec_fields [simp]:
  "d_ops (dec_skip k d) = d_ops d" "d_i (dec_skip k d) = d_i d + k" "d_starts (dec_skip k d) = d_starts d"
  "d_target (dec_skip k d) = d_target d" "d_dir_at (dec_skip k d) = d_dir_at d" "d_dir (dec_skip k d) = d_dir d"
  "d_lits (dec_skip k d) = d_lits d" "d_max_var (dec_skip k d) = d_max_var d" "d_mask (dec_skip k d) = d_mask d"
  "d_entry (dec_skip k d) = d_entry d" "d_last (dec_skip k d) = d_last d"
  by (simp_all add: dec_skip_def)

lemma dk_Inr [simp]: "dk r k = Inr y \<longleftrightarrow> (\<exists>x. r = Inr x \<and> k x = Inr y)"
  by (auto simp: dk_def split: sum.splits)

lemma dec_room_Inr [simp]: "dec_room k d r = Inr y \<longleftrightarrow> d_i d + k \<le> length (d_ops d) \<and> r = Inr y"
  by (auto simp: dec_room_def)

lemma dec_argc_Inr [simp]: "dec_argc v r = Inr y \<longleftrightarrow> (\<exists>w. gval_nat63 v = Some w \<and> w \<noteq> 0 \<and> r = Inr y)"
  by (auto simp: dec_argc_def split: option.splits)

lemma MARK_TARGET_Inr: "MARK_TARGET v d = Inr d' \<longleftrightarrow>
    (\<exists>w. gval_nat63 v = Some w \<and> unat w < length (d_ops d) \<and> d' = d\<lparr>d_target := (d_target d)[unat w := True]\<rparr>)"
  by (auto simp: MARK_TARGET_def split: option.splits)

lemma mark_targets_frame: "mark_targets vs d = Inr d' \<Longrightarrow> \<exists>ts. d' = d\<lparr>d_target := ts\<rparr> \<and> length ts = length (d_target d)"
proof (induction vs arbitrary: d)
  case Nil
  then show ?case by (auto intro: exI[of _ "d_target d"])
next
  case (Cons v vs)
  then show ?case by (fastforce simp: MARK_TARGET_Inr res_simps)
qed

text \<open>An instruction only moves on and keeps the number of words.\<close>

lemmas dec_defs = dec_lawblk_def dec_push_var_def dec_interp_def dec_push_def dec_mk_app_def dec_entry_def dec_jump_def
  dec_call_slow_def dec_call_fast_def dec_call_known_def dec_br_def dec_mk_thk_def

lemma dec_instr_progress:
  assumes "dec_instr h op d = Inr d'"
  shows "d_i d \<le> d_i d' \<and> length (d_ops d') = length (d_ops d)"
proof -
  have "d_i d \<le> d_i d' \<and> length (d_ops d') = length (d_ops d)" if "dec_br d = Inr d'"
    using that by (auto simp: dec_br_def res_simps split: option.splits if_splits dest!: mark_targets_frame)
  then show ?thesis using assms
    by (auto simp: dec_instr_def dec_lawblk_def dec_push_var_def dec_interp_def dec_push_def dec_mk_app_def dec_entry_def dec_jump_def
        dec_call_slow_def dec_call_fast_def dec_call_known_def dec_mk_thk_def res_simps Let_def MARK_TARGET_Inr
        split: if_splits option.splits gval.splits)
qed

lemma pass1_step_progress: "pass1_step h d = Inr d' \<Longrightarrow> d_i d < d_i d' \<and> length (d_ops d') = length (d_ops d)"
  by (auto simp: pass1_step_def Let_def split: if_splits dest!: dec_instr_progress)

function pass1 :: "heap \<Rightarrow> dec \<Rightarrow> dec dres" where
  "pass1 h d =
     (if d_i d < length (d_ops d) then
        (case pass1_step h d of Inl e \<Rightarrow> Inl e | Inr d' \<Rightarrow> pass1 h d')
      else Inr d)"
  by pat_completeness auto
termination by (relation "measure (\<lambda>(h, d). length (d_ops d) - d_i d)") (auto dest!: pass1_step_progress)

declare pass1.simps [simp del]

subsection \<open>The law directory\<close>

text \<open>
  \<open>lit_eq\<close>: structural equality of two literals within a budget of nodes. The budget left over is threaded through; it never
  grows, so the minimum is the budget itself.
\<close>

function lit_eq :: "mpn_api \<Rightarrow> heap \<Rightarrow> gval \<Rightarrow> gval \<Rightarrow> nat \<Rightarrow> (bool \<times> nat) hres"
  and lit_eqs :: "mpn_api \<Rightarrow> heap \<Rightarrow> gval list \<Rightarrow> gval list \<Rightarrow> nat \<Rightarrow> (bool \<times> nat) hres" where
  "lit_eq M h a b n =
     (if a = b then Inr (True, n)
      else case n of
        0 \<Rightarrow> Inr (False, 0)
      | Suc m \<Rightarrow> (case (a, b) of
          (GNat x, GNat y) \<Rightarrow> Inr (pl_nat_eq M x y, m)
        | (GLaw x, GLaw y) \<Rightarrow> (case (law_at h x, law_at h y) of
             (Inr (ar, name, body), Inr (ar', name', body')) \<Rightarrow>
               (if ar = ar' then lit_eqs M h [name, body] [name', body'] m else Inr (False, m))
           | _ \<Rightarrow> Inl HUndef)
        | (GPin x, GPin y) \<Rightarrow> (case (pl_pin_hash_h h a, pl_pin_hash_h h b) of
             (Inr ha, Inr hb) \<Rightarrow> Inr (ha \<noteq> None \<and> ha = hb, m)
           | (Inl f, _) \<Rightarrow> Inl f
           | (_, Inl f) \<Rightarrow> Inl f)
        | (GApp x, GApp y) \<Rightarrow> (case (app_at h x, app_at h y) of
             (Inr (need, head, args), Inr (need', head', args')) \<Rightarrow>
               (if length args = length args' then lit_eqs M h (head # args) (head' # args') m else Inr (False, m))
           | _ \<Rightarrow> Inl HUndef)
        | _ \<Rightarrow> Inr (False, m)))"
| "lit_eqs M h [] ys n = Inr (True, n)"
| "lit_eqs M h (x # xs) [] n = Inr (True, n)"
| "lit_eqs M h (x # xs) (y # ys) n =
     (case lit_eq M h x y n of
        Inl f \<Rightarrow> Inl f
      | Inr (r, n') \<Rightarrow> if r then lit_eqs M h xs ys (min n n') else Inr (False, n'))"
  by pat_completeness auto
termination
  by (relation "measures [\<lambda>x. case x of Inl (M, h, a, b, n) \<Rightarrow> n | Inr (M, h, xs, ys, n) \<Rightarrow> n,
      \<lambda>x. case x of Inl (M, h, a, b, n) \<Rightarrow> 0 | Inr (M, h, xs, ys, n) \<Rightarrow> Suc (length xs)]") auto

declare lit_eq.simps [simp del]

text \<open>Through the heads of partial applications to a law.\<close>

partial_function (option) lit_head :: "heap \<Rightarrow> gval \<Rightarrow> gval hres option" where
  "lit_head h v = (case v of
     GApp a \<Rightarrow> (case app_at h a of Inr (need, head, args) \<Rightarrow> lit_head h head | Inl f \<Rightarrow> Some (Inl f))
   | _ \<Rightarrow> Some (Inr v))"

declare lit_head.simps [code]

definition lawblk_add :: "gval \<Rightarrow> pl_lawblk \<Rightarrow> pl_lawblk list \<Rightarrow> pl_lawblk list" where
  "lawblk_add law dir got = (if law \<in> set (map lb_law got) then got else got @ [dir\<lparr>lb_law := law\<rparr>])"

text \<open>The first entry of the directory that a literal law is.\<close>

fun find_entry :: "mpn_api \<Rightarrow> heap \<Rightarrow> gval \<Rightarrow> nat \<Rightarrow> pl_lawblk list \<Rightarrow> pl_lawblk option dres" where
  "find_entry M h v arity [] = Inr None"
| "find_entry M h v arity (e # es) =
     (if v = lb_law e then Inr (Some e)
      else if arity = lb_arity e then
        dk (lit_eq M h v (lb_law e) 4096) (\<lambda>(eq, budget). if eq then Inr (Some e) else find_entry M h v arity es)
      else find_entry M h v arity es)"

fun add_lits :: "mpn_api \<Rightarrow> heap \<Rightarrow> pl_lawblk list \<Rightarrow> gval list \<Rightarrow> pl_lawblk list \<Rightarrow> pl_lawblk list dres" where
  "add_lits M h dir [] got = Inr got"
| "add_lits M h dir (v # vs) got =
     dk (case lit_head h v of None \<Rightarrow> Inl HEndless | Some r \<Rightarrow> r) (\<lambda>v. case v of
       GLaw a \<Rightarrow> dk (law_at h a) (\<lambda>(ar, name, body).
         rbind (find_entry M h v (unat ar) dir) (\<lambda>e.
           add_lits M h dir vs (case e of None \<Rightarrow> got | Some e \<Rightarrow> lawblk_add v e got)))
     | _ \<Rightarrow> add_lits M h dir vs got)"

definition resolve_lawblks :: "mpn_api \<Rightarrow> heap \<Rightarrow> pl_lawblk list \<Rightarrow> gval list \<Rightarrow> pl_lawblk list dres" where
  "resolve_lawblks M h dir lits = add_lits M h dir lits (foldl (\<lambda>got e. lawblk_add (lb_law e) e got) [] dir)"

text \<open>The directory cut off: the code proper ends where it starts.\<close>

definition dir_strip :: "mpn_api \<Rightarrow> heap \<Rightarrow> dec \<Rightarrow> (dec \<times> pl_lawblk list) dres" where
  "dir_strip M h d = (case d_dir_at d of
     None \<Rightarrow> Inr (d, [])
   | Some n \<Rightarrow>
       (if list_ex (\<lambda>e. n \<le> lb_target e) (d_dir d) then Inl (Dec_fail ''law directory target out of range'')
        else rbind (resolve_lawblks M h (d_dir d) (map (oword (d_ops d)) (d_lits d))) (\<lambda>lbs.
          Inr (d\<lparr>d_ops := take n (d_ops d)\<rparr>, lbs))))"

subsection \<open>Passes 2 and 3\<close>

definition pass2 :: "dec \<Rightarrow> unit dres" where
  "pass2 d =
     (if d_last d \<noteq> OP_RET then Inl (Dec_fail ''bad program end'')
      else if list_ex (\<lambda>j. d_target d ! j \<and> \<not> d_starts d ! j) [0..<length (d_ops d)]
      then Inl (Dec_fail ''jump target inside an instruction'')
      else Inr ())"

text \<open>The number of operands behind an opcode.\<close>

definition operand_count :: "gval list \<Rightarrow> nat \<Rightarrow> nat" where
  "operand_count ops i =
     (let op = onum ops i in
      if op \<in> {OP_PUSH_VAR, OP_PUSH_LIT, OP_MK_APP, OP_INTERP, OP_PUSH_SLOT, OP_JMP, OP_ENTRY, OP_CALL_SLOW} then 1
      else if op \<in> {OP_CALL, OP_CALL_FAST, OP_TAILBLK} then 2
      else if op = OP_CALL_KNOWN then 3
      else if op = OP_BR then 1 + onum ops (i + 1)
      else if op = OP_MK_THK \<or> op = OP_TAILCALL then (if obane ops (i + 2) = PL_BAN_PRIM_KNOWN then 4 else 2)
      else 0)"

function pass3 :: "bool list \<Rightarrow> nat \<Rightarrow> nat \<Rightarrow> gval list \<Rightarrow> gval list" where
  "pass3 target n i ops =
     (if i < n then
        let next = i + 1 + (if onum ops i = OP_TAILCALL then 0 else operand_count ops i) in
        pass3 target n next
          (if onum ops i = OP_MK_THK \<and> next < n \<and> onum ops next = OP_RET \<and> \<not> target ! next
           then ops[i := onat OP_TAILCALL] else ops)
      else ops)"
  by pat_completeness auto
termination by (relation "measure (\<lambda>(target, n, i, ops). n - i)") (auto simp: Let_def)

declare pass3.simps [simp del]

end
