(* ===== verification/Bytecode_Opt.thy ===== *)
theory Bytecode_Opt
  imports Bytecode
begin

text \<open>
  The rewrites of the decoder, \<open>bytecode_optimise\<close>: the readiness analysis, a worklist fixed point over the program counters
  that finds the operand slots known to hold values; the eager entry of thunks that the block forces at once; the
  numeric opcodes; the opcodes whose arguments are ready. The codes of called laws come from the pins of the
  heap or, with a store in scope, from the parameter \<open>demand\<close>.
\<close>

subsection \<open>Readiness\<close>

definition READY_SLOTS :: nat where "READY_SLOTS = 256"

text \<open>
  The depth of the operand stack (-1 unseen, -2 unknown), the slots known to hold values, as the bits of
  a number, and the variables known to.
\<close>

record ready_state =
  rs_depth :: int
  rs_bits :: nat
  rs_vars :: u64

definition ready_unseen :: ready_state where
  "ready_unseen = \<lparr>rs_depth = -1, rs_bits = 0, rs_vars = 0\<rparr>"

text \<open>A state at an entry with \<open>k\<close> unknown arguments.\<close>

definition ready_entry :: "nat \<Rightarrow> ready_state" where
  "ready_entry k = \<lparr>rs_depth = (if k \<le> READY_SLOTS then int k else -2), rs_bits = 0, rs_vars = 0\<rparr>"

definition ready_get :: "ready_state \<Rightarrow> nat \<Rightarrow> bool" where
  "ready_get s k \<longleftrightarrow> 0 \<le> rs_depth s \<and> k < nat (rs_depth s) \<and> bit (rs_bits s) k"

definition ready_push :: "bool \<Rightarrow> ready_state \<Rightarrow> ready_state" where
  "ready_push known s =
     (if rs_depth s < 0 then s
      else if rs_depth s = int READY_SLOTS then s\<lparr>rs_depth := -2\<rparr>
      else let k = nat (rs_depth s) in
        s\<lparr>rs_depth := rs_depth s + 1, rs_bits := (if known then set_bit k (rs_bits s) else unset_bit k (rs_bits s))\<rparr>)"

definition ready_pop :: "nat \<Rightarrow> ready_state \<Rightarrow> ready_state option" where
  "ready_pop n s =
     (if rs_depth s < 0 then Some s
      else if nat (rs_depth s) < n then None
      else Some (s\<lparr>rs_depth := rs_depth s - int n, rs_bits := take_bit (nat (rs_depth s) - n) (rs_bits s)\<rparr>))"

definition ready_unknown :: "ready_state" where
  "ready_unknown = \<lparr>rs_depth = -2, rs_bits = 0, rs_vars = 0\<rparr>"

definition ready_merge :: "ready_state \<Rightarrow> ready_state \<Rightarrow> ready_state \<times> bool" where
  "ready_merge dst src0 =
     (let src = (if rs_depth src0 < 0 then ready_unknown else src0) in
      if rs_depth dst = -1 then (src, True)
      else if rs_depth dst = -2 then (dst, False)
      else if rs_depth src \<noteq> rs_depth dst then (ready_unknown, True)
      else let bits = rs_bits dst AND rs_bits src; vars = rs_vars dst AND rs_vars src in
        (dst\<lparr>rs_bits := bits, rs_vars := vars\<rparr>, bits \<noteq> rs_bits dst \<or> vars \<noteq> rs_vars dst))"

definition ready_args :: "ready_state \<Rightarrow> nat \<Rightarrow> nat \<Rightarrow> bool" where
  "ready_args s argc idx \<longleftrightarrow> 0 \<le> rs_depth s \<and> argc \<le> nat (rs_depth s) \<and>
     list_all (\<lambda>k. bit (op_strict (pl_ops ! idx)) k \<longrightarrow> k < argc \<and> ready_get s (nat (rs_depth s) - argc + k)) [0..<32]"

datatype ready_result = READY_OK | READY_INCOMPLETE | READY_UNDERFLOW

text \<open>The states an instruction passes on, with the counters they go to.\<close>

datatype ready_flow = Flow_underflow | Flow_bad | Flow_to "(nat \<times> ready_state) list"

definition POP :: "nat \<Rightarrow> ready_state \<Rightarrow> (ready_state \<Rightarrow> ready_flow) \<Rightarrow> ready_flow" where
  "POP n s k = (case ready_pop n s of None \<Rightarrow> Flow_underflow | Some s' \<Rightarrow> k s')"

definition slots_and_head :: "nat \<Rightarrow> nat" where
  "slots_and_head n = (if n < READY_SLOTS then n + 1 else READY_SLOTS + 1)"

definition ready_step :: "gval list \<Rightarrow> nat \<Rightarrow> ready_state \<Rightarrow> ready_flow" where
  "ready_step ops pc s =
     (let op = onum ops pc; o0 = onum ops (pc + 1); o1 = onum ops (pc + 2);
          go = (\<lambda>k s. Flow_to [(pc + 1 + k, s)]) in
      if op = OP_PUSH_VAR then go 1 (ready_push (o0 < 64 \<and> bit (rs_vars s) o0) s)
      else if op = OP_PUSH_LIT then go 1 (ready_push (gval_is_whnf (oword ops (pc + 1))) s)
      else if op = OP_PUSH_SLOT then go 1 (ready_push (ready_get s o0) s)
      else if op = OP_FORCE then POP 1 s (\<lambda>s. go 0 (ready_push True s))
      else if op = OP_INTERP then go 1 (ready_push True s)
      else if op = OP_MK_APP then POP (slots_and_head o0) s (\<lambda>s. go 1 (ready_push True s))
      else if op = OP_MK_THK then
        POP o0 s (\<lambda>s. go (if obane ops (pc + 2) = PL_BAN_PRIM_KNOWN then 4 else 2) (ready_push False s))
      else if op = OP_CALL then
        POP o1 s (\<lambda>s. Flow_to [(o0, ready_entry o1), (pc + 3, ready_push True s)])
      else if op = OP_CALL_FAST then POP (slots_and_head o0) s (\<lambda>s. go 2 (ready_push True s))
      else if op = OP_CALL_SLOW then POP (slots_and_head o0) s (\<lambda>s. go 1 (ready_push True s))
      else if op \<in> {OP_CALL_KNOWN, OP_ADD, OP_SUB, OP_CMP} then POP o0 s (\<lambda>s. go 3 (ready_push True s))
      else if op = OP_ENTRY then go 1 s
      else if op = OP_NOP then go 0 s
      else if op = OP_JMP then Flow_to [(o0, s)]
      else if op = OP_TAILBLK then POP o1 s (\<lambda>s. Flow_to [(o0, ready_entry o1)])
      else if op = OP_BR then POP 1 s (\<lambda>s. Flow_to (map (\<lambda>k. (onum ops (pc + 2 + k), s)) [0..<o0]))
      else if op = OP_RET then POP 1 s (\<lambda>s. Flow_to [])
      else if op \<in> {OP_TAILCALL, OP_TAIL_ADD, OP_TAIL_SUB, OP_TAIL_CMP} then POP o0 s (\<lambda>s. Flow_to [])
      else Flow_bad)"

text \<open>The queue of the worklist; a counter is in it at most once.\<close>

definition FLOW :: "nat \<times> ready_state \<Rightarrow> ready_state list \<times> nat list \<Rightarrow> ready_state list \<times> nat list" where
  "FLOW p w = (case (p, w) of ((pc, s), (states, queue)) \<Rightarrow>
     if pc < length states then
       (case ready_merge (states ! pc) s of (d, changed) \<Rightarrow>
          (states[pc := d], if changed \<and> pc \<notin> set queue then queue @ [pc] else queue))
     else (states, queue))"

fun ready_loop :: "nat \<Rightarrow> gval list \<Rightarrow> ready_state list \<times> nat list \<Rightarrow> ready_result \<times> ready_state list" where
  "ready_loop visits ops (states, []) = (READY_OK, states)"
| "ready_loop 0 ops (states, pc # queue) = (READY_INCOMPLETE, states)"
| "ready_loop (Suc visits) ops (states, pc # queue) = (case ready_step ops pc (states ! pc) of
     Flow_underflow \<Rightarrow> (READY_UNDERFLOW, states)
   | Flow_bad \<Rightarrow> (READY_INCOMPLETE, states)
   | Flow_to fs \<Rightarrow> ready_loop visits ops (fold FLOW fs (states, queue)))"

definition ready_entries :: "pl_code \<Rightarrow> pl_lawblk list \<Rightarrow> (nat \<times> ready_state) list" where
  "ready_entries c lbs = (0, ready_entry 0) #
     (if xc_strict_entry c \<noteq> 0
      then [(xc_strict_entry c, (ready_entry 0)\<lparr>rs_vars := push_bit 1 (xc_strict_mask c)\<rparr>)] else []) @
     map (\<lambda>b. (lb_target b, ready_entry (lb_arity b))) lbs"

definition ready_analyse :: "pl_code \<Rightarrow> pl_lawblk list \<Rightarrow> ready_result \<times> ready_state list" where
  "ready_analyse c lbs =
     (let n = length (xc_ops c) in
      ready_loop (n * 512) (xc_ops c) (fold FLOW (ready_entries c lbs) (replicate n ready_unseen, [])))"

definition ready_rewrite1 :: "ready_state list \<Rightarrow> nat \<Rightarrow> gval list \<Rightarrow> gval list" where
  "ready_rewrite1 states pc ops =
     (let s = states ! pc; op = onum ops pc; o0 = onum ops (pc + 1); last_ready = 0 < rs_depth s \<and> ready_get s (nat (rs_depth s) - 1) in
      if rs_depth s < 0 then ops
      else if op = OP_FORCE \<and> last_ready then ops[pc := onat OP_FORCE_READY]
      else if op = OP_RET \<and> last_ready then ops[pc := onat OP_RET_READY]
      else if op = OP_CALL_KNOWN \<and> ready_args s o0 (onum ops (pc + 2)) then ops[pc := onat OP_CALL_READY]
      else if op = OP_TAILCALL \<and> obane ops (pc + 2) = PL_BAN_PRIM_KNOWN \<and> ready_args s o0 (onum ops (pc + 3))
      then ops[pc := onat OP_TAIL_READY]
      else ops)"

definition ready_rewrite :: "ready_state list \<Rightarrow> gval list \<Rightarrow> gval list" where
  "ready_rewrite states ops = fold (ready_rewrite1 states) [0..<length ops] ops"

subsection \<open>Eager entry of thunks\<close>

record eager_slot =
  es_src :: int
  es_producer :: int
  es_eval_pc :: int
  es_var1 :: nat
  es_lit :: "gval option"
  es_whnf :: bool

definition eager_unknown :: eager_slot where
  "eager_unknown = \<lparr>es_src = -1, es_producer = -1, es_eval_pc = -1, es_var1 = 0, es_lit = None, es_whnf = False\<rparr>"

text \<open>What the ingest knows of other laws: the heap with their pins, and the store in scope.\<close>

record ingest =
  in_heap :: heap
  in_demand :: "gval \<Rightarrow> pl_code option"

definition eager_callee_mask :: "ingest \<Rightarrow> u64 \<Rightarrow> eager_slot \<Rightarrow> nat \<Rightarrow> u64 dres" where
  "eager_callee_mask I self_mask head nargs =
     (if es_var1 head = 1 then Inr self_mask
      else case es_lit head of
        Some (GPin a) \<Rightarrow> dk (pl_pin_body_h (in_heap I) a) (\<lambda>body. case body of
          GLaw b \<Rightarrow> dk (law_at (in_heap I) b) (\<lambda>(ar, name, lbody).
            if unat ar \<noteq> nargs then Inr 0
            else dk (pl_pin_code_h (in_heap I) a) (\<lambda>code.
              Inr (case code of
                Some c \<Rightarrow> xc_strict_mask c
              | None \<Rightarrow> (case in_demand I (GPin a) of Some c \<Rightarrow> xc_strict_mask c | None \<Rightarrow> 0))))
        | _ \<Rightarrow> Inr 0)
      | _ \<Rightarrow> Inr 0)"

text \<open>A thunk instruction turned into the call it stands for; \<open>None\<close> where it is left alone.\<close>

definition eager_apply :: "nat \<Rightarrow> gval list \<Rightarrow> gval list option" where
  "eager_apply p ops =
     (let argc = onum ops (p + 1); bane = obane ops (p + 2);
          raw = (case gval_nat63 (oword ops (p + 2)) of Some w \<Rightarrow> w | None \<Rightarrow> 0) in
      if onum ops p \<noteq> OP_MK_THK then None
      else if bane = PL_BAN_FAST then
        (if argc < 2 then None
         else Some (ops[p := onat OP_CALL_FAST, p + 1 := onat (argc - 1), p + 2 := GNat (Direct (drop_bit 8 raw))]))
      else if bane = PL_BAN_SLOW then
        (if argc < 2 then None else Some (ops[p := onat OP_CALL_FAST, p + 1 := onat (argc - 1), p + 2 := gzero]))
      else if bane = PL_BAN_PRIM_KNOWN then
        Some (ops[p := onat OP_CALL_KNOWN, p + 2 := oword ops (p + 3), p + 3 := oword ops (p + 4), p + 4 := onat OP_NOP])
      else None)"

record eager =
  e_ops :: "gval list"
  e_slots :: "eager_slot list"
  e_live :: bool
  e_impure :: int
  e_changed :: bool
  e_start :: bool

definition slot_source :: "eager_slot list \<Rightarrow> nat \<Rightarrow> nat" where
  "slot_source slots i = (if 0 \<le> es_src (slots ! i) then nat (es_src (slots ! i)) else i)"

text \<open>The strict arguments \<open>ks\<close> of a consumer whose arguments start at \<open>base\<close>, in ascending order.\<close>

fun eager_consume :: "nat \<Rightarrow> nat \<Rightarrow> nat list \<Rightarrow> eager \<Rightarrow> eager" where
  "eager_consume base strict [] e = e"
| "eager_consume base strict (k # ks) e =
     (if \<not> bit strict k then eager_consume base strict ks e
      else let si = slot_source (e_slots e) (base + k); src = e_slots e ! si; p = es_producer src in
        if es_whnf src then eager_consume base strict ks e
        else if p < 0 \<or> p \<le> e_impure e then e
        else if \<not> list_all (\<lambda>j. bit strict j \<longrightarrow>
            (let sj = e_slots e ! slot_source (e_slots e) (base + j) in es_whnf sj \<and> es_eval_pc sj < p)) [0..<k] then e
        else case eager_apply (nat p) (e_ops e) of
          None \<Rightarrow> e
        | Some ops' \<Rightarrow> eager_consume base strict ks
            (e\<lparr>e_ops := ops', e_slots := (e_slots e)[si := src\<lparr>es_producer := -1, es_whnf := True, es_eval_pc := p\<rparr>],
               e_impure := max p (e_impure e), e_changed := True\<rparr>))"

definition eager_args :: "nat \<Rightarrow> nat \<Rightarrow> eager \<Rightarrow> eager" where
  "eager_args argc strict e =
     (if e_live e \<and> argc \<le> length (e_slots e)
      then eager_consume (length (e_slots e) - argc) strict [0..<min argc 32] e else e)"

definition eager_call_consume :: "ingest \<Rightarrow> u64 \<Rightarrow> nat \<Rightarrow> eager \<Rightarrow> eager dres" where
  "eager_call_consume I self_mask nargs e =
     (if \<not> e_live e \<or> length (e_slots e) < nargs + 1 then Inr e
      else rbind (eager_callee_mask I self_mask (e_slots e ! (length (e_slots e) - nargs - 1)) nargs) (\<lambda>m.
        if m = 0 \<or> (nargs < 64 \<and> drop_bit nargs m \<noteq> 0) then Inr e
        else Inr (eager_args nargs (unat m mod 2 ^ 32) e)))"

definition EPUSH :: "eager_slot \<Rightarrow> eager \<Rightarrow> eager" where
  "EPUSH s e =
     (if \<not> e_live e then e
      else if READY_SLOTS \<le> length (e_slots e) then e\<lparr>e_live := False\<rparr>
      else e\<lparr>e_slots := e_slots e @ [s]\<rparr>)"

definition EPOP :: "nat \<Rightarrow> eager \<Rightarrow> eager" where
  "EPOP k e =
     (if \<not> e_live e then e
      else if length (e_slots e) < k then e\<lparr>e_live := False\<rparr>
      else e\<lparr>e_slots := take (length (e_slots e) - k) (e_slots e)\<rparr>)"

text \<open>A call: its arguments go, its value comes, and it may have had effects.\<close>

definition eager_value :: "nat \<Rightarrow> nat \<Rightarrow> eager \<Rightarrow> eager" where
  "eager_value k pc e = (EPUSH (eager_unknown\<lparr>es_whnf := True\<rparr>) (EPOP k e))\<lparr>e_impure := int pc\<rparr>"

text \<open>A block starts with what the analysis says of its operands.\<close>

definition eager_begin :: "ready_state \<Rightarrow> eager \<Rightarrow> eager" where
  "eager_begin s e =
     (let live = 0 \<le> rs_depth s \<and> rs_depth s \<le> int READY_SLOTS in
      e\<lparr>e_live := live, e_impure := -1, e_start := False,
        e_slots := (if live then map (\<lambda>i. eager_unknown\<lparr>es_whnf := ready_get s i\<rparr>) [0..<nat (rs_depth s)] else [])\<rparr>)"

definition eager_push_slot :: "nat \<Rightarrow> eager \<Rightarrow> eager" where
  "eager_push_slot k e =
     (if e_live e \<and> k < length (e_slots e) then
        let s = e_slots e ! k in
        EPUSH \<lparr>es_src = int (slot_source (e_slots e) k), es_producer = -1, es_eval_pc = -1, es_var1 = es_var1 s,
          es_lit = es_lit s, es_whnf = False\<rparr> e
      else e\<lparr>e_live := False\<rparr>)"

text \<open>One instruction; \<open>None\<close> where the pass ends at an opcode it does not know.\<close>

definition eager_step :: "ingest \<Rightarrow> u64 \<Rightarrow> ready_state list \<Rightarrow> nat \<Rightarrow> eager \<Rightarrow> eager option dres" where
  "eager_step I self_mask states pc e =
     (let ops = e_ops e; op = onum ops pc; o0 = onum ops (pc + 1); bane = obane ops (pc + 2);
          ok = (\<lambda>e. Inr (Some e)) in
      if op = OP_PUSH_VAR then
        ok (EPUSH (eager_unknown\<lparr>es_var1 := (if o0 < UINT32_MAX then o0 + 1 else 0),
             es_whnf := e_live e \<and> o0 < 64 \<and> bit (rs_vars (states ! pc)) o0\<rparr>) e)
      else if op = OP_PUSH_LIT then
        ok (EPUSH (eager_unknown\<lparr>es_lit := Some (oword ops (pc + 1)), es_whnf := gval_is_whnf (oword ops (pc + 1))\<rparr>) e)
      else if op = OP_PUSH_SLOT then ok (eager_push_slot o0 e)
      else if op = OP_MK_THK then ok (EPUSH (eager_unknown\<lparr>es_producer := int pc\<rparr>) (EPOP o0 e))
      else if op = OP_MK_APP then ok (EPUSH (eager_unknown\<lparr>es_whnf := True\<rparr>) (EPOP (o0 + 1) e))
      else if op = OP_NOP \<or> op = OP_ENTRY then ok e
      else if op = OP_FORCE then ok (eager_value 1 pc (eager_args 1 1 e))
      else if op = OP_CALL_KNOWN then
        ok (eager_value o0 pc (eager_args o0 (op_strict (pl_ops ! onum ops (pc + 2))) e))
      else if op = OP_CALL_FAST then
        rbind (eager_call_consume I self_mask o0 e) (\<lambda>e. ok (eager_value (o0 + 1) pc e))
      else if op = OP_CALL_SLOW then ok (eager_value (o0 + 1) pc e)
      else if op = OP_CALL then ok (eager_value (onum ops (pc + 2)) pc e)
      else if op = OP_INTERP then ok (eager_value 0 pc e)
      else if op = OP_TAILCALL then
        rbind (if bane = PL_BAN_PRIM_KNOWN \<and> e_live e \<and> o0 \<le> length (e_slots e)
               then Inr (eager_args o0 (op_strict (pl_ops ! onum ops (pc + 3))) e)
               else if bane = PL_BAN_FAST \<and> 2 \<le> o0 then eager_call_consume I self_mask (o0 - 1) e
               else Inr e) (\<lambda>e. ok (e\<lparr>e_start := True\<rparr>))
      else if op \<in> {OP_BR, OP_JMP, OP_TAILBLK, OP_RET} then ok (e\<lparr>e_start := True\<rparr>)
      else Inr None)"

function eager_loop :: "ingest \<Rightarrow> u64 \<Rightarrow> ready_state list \<Rightarrow> bool list \<Rightarrow> nat \<Rightarrow> nat \<Rightarrow> eager \<Rightarrow> eager dres" where
  "eager_loop I self_mask states target n pc e =
     (if pc < n then
        (let e1 = (if e_start e \<or> target ! pc then eager_begin (states ! pc) e else e);
             next = pc + 1 + operand_count (e_ops e1) pc in
         case eager_step I self_mask states pc e1 of
           Inl f \<Rightarrow> Inl f
         | Inr None \<Rightarrow> Inr e1
         | Inr (Some e2) \<Rightarrow> eager_loop I self_mask states target n next e2)
      else Inr e)"
  by pat_completeness auto
termination by (relation "measure (\<lambda>(I, m, states, target, n, pc, e). n - pc)") (auto simp: Let_def)

declare eager_loop.simps [simp del]

definition eager_rewrite :: "ingest \<Rightarrow> u64 \<Rightarrow> ready_state list \<Rightarrow> bool list \<Rightarrow> gval list \<Rightarrow> (gval list \<times> bool) dres" where
  "eager_rewrite I self_mask states target ops =
     rbind (eager_loop I self_mask states target (length ops) 0
        \<lparr>e_ops = ops, e_slots = [], e_live = False, e_impure = -1, e_changed = False, e_start = True\<rparr>)
       (\<lambda>e. Inr (e_ops e, e_changed e))"

subsection \<open>The pipeline\<close>

function numeric_specialise :: "nat \<Rightarrow> nat \<Rightarrow> gval list \<Rightarrow> gval list" where
  "numeric_specialise n i ops =
     (if i < n then
        let op = onum ops i; next = i + 1 + operand_count ops i in
        numeric_specialise n next
          (if op = OP_CALL_KNOWN then ops[i := onat (numeric_opcode (onum ops (i + 2)) False)]
           else if op = OP_TAILCALL \<and> obane ops (i + 2) = PL_BAN_PRIM_KNOWN
           then ops[i := onat (numeric_opcode (onum ops (i + 3)) True)]
           else ops)
      else ops)"
  by pat_completeness auto
termination by (relation "measure (\<lambda>(n, i, ops). n - i)") (auto simp: Let_def)

declare numeric_specialise.simps [simp del]

fun eager_rounds :: "nat \<Rightarrow> ingest \<Rightarrow> pl_lawblk list \<Rightarrow> bool list \<Rightarrow> pl_code \<Rightarrow> (ready_result \<times> pl_code) dres" where
  "eager_rounds 0 I lbs target c = Inr (READY_OK, c)"
| "eager_rounds (Suc r) I lbs target c = (case ready_analyse c lbs of (result, states) \<Rightarrow>
     if result \<noteq> READY_OK then Inr (result, c)
     else rbind (eager_rewrite I (xc_strict_mask c) states target (xc_ops c)) (\<lambda>(ops, changed).
       if changed then eager_rounds r I lbs target (c\<lparr>xc_ops := ops\<rparr>) else Inr (READY_OK, c\<lparr>xc_ops := ops\<rparr>)))"

text \<open>\<open>None\<close> is a provable underflow: the law stays interpreted.\<close>

definition bytecode_optimise :: "ingest \<Rightarrow> pl_lawblk list \<Rightarrow> bool list \<Rightarrow> pl_code \<Rightarrow> pl_code option dres" where
  "bytecode_optimise I lbs target c =
     (let n = length (xc_ops c) in
      if n = 0 \<or> 16384 < n then Inr (Some c)
      else rbind (eager_rounds 64 I lbs target c) (\<lambda>(result, c).
        if result \<noteq> READY_OK then Inr (if result = READY_UNDERFLOW then None else Some c)
        else let c = c\<lparr>xc_ops := numeric_specialise n 0 (xc_ops c)\<rparr> in
          case ready_analyse c lbs of (result, states) \<Rightarrow>
            Inr (if result = READY_OK then Some (c\<lparr>xc_ops := ready_rewrite states (xc_ops c)\<rparr>)
                 else if result = READY_UNDERFLOW then None else Some c)))"

text \<open>The decoder. The batches and native regions that are prepared behind it do not change the code.\<close>

definition pl_bytecode_from_val :: "mpn_api \<Rightarrow> ingest \<Rightarrow> gval \<Rightarrow> (pl_code \<times> pl_lawblk list) dres" where
  "pl_bytecode_from_val M I val = (case val of
     GApp a \<Rightarrow> dk (app_at (in_heap I) a) (\<lambda>(need, head, row).
       rbind (pass1 (in_heap I) (dec_init row)) (\<lambda>d.
       rbind (dir_strip M (in_heap I) d) (\<lambda>(d, lbs).
       rbind (pass2 d) (\<lambda>_.
         let c = \<lparr>xc_ops = pass3 (d_target d) (length (d_ops d)) 0 (d_ops d), xc_strict_mask = d_mask d,
               xc_strict_entry = d_entry d, xc_max_var = d_max_var d, xc_arity = 0\<rparr> in
         rbind (bytecode_optimise I lbs (d_target d) c) (\<lambda>r. case r of
           None \<Rightarrow> Inl (Dec_fail ''operand stack underflow'')
         | Some c \<Rightarrow> Inr (c, lbs))))))
   | _ \<Rightarrow> Inl (Dec_fail ''no app inside pin''))"

end
