(* ===== verification/Bytecode_Wf.thy ===== *)
theory Bytecode_Wf
  imports Bytecode_Opt
begin

text \<open>
  What the decoder guarantees: the decoded words split into instructions, every jump and every entry goes to
  the first word of one, and the last instruction returns. Pass 1 establishes the split; the rewrites work
  inside single instructions and keep it.
\<close>

subsection \<open>Well-formed code\<close>

text \<open>An instruction with its operands, and the counters it jumps to.\<close>

definition is_num :: "gval list \<Rightarrow> nat \<Rightarrow> bool" where
  "is_num c k \<longleftrightarrow> gval_nat63 (oword c k) \<noteq> None"

definition instr_ok :: "gval list \<Rightarrow> bool" where
  "instr_ok c \<longleftrightarrow>
     (let op = onum c 0; known = (\<lambda>k. is_num c k \<and> onum c k < pl_nops) in
      if op \<in> {OP_PUSH_VAR, OP_PUSH_LIT, OP_INTERP, OP_PUSH_SLOT, OP_ENTRY, OP_MK_APP, OP_CALL_SLOW} then length c = 2
      else if op = OP_JMP then length c = 2 \<and> is_num c 1
      else if op \<in> {OP_CALL, OP_TAILBLK} then length c = 3 \<and> is_num c 1
      else if op = OP_CALL_FAST then length c = 3 \<and> is_num c 2
      else if op \<in> {OP_CALL_KNOWN, OP_ADD, OP_SUB, OP_CMP, OP_CALL_READY} then length c = 4 \<and> known 2
      else if op \<in> {OP_MK_THK, OP_TAILCALL} then
        is_num c 2 \<and> (if obane c 2 = PL_BAN_PRIM_KNOWN then length c = 5 \<and> known 3
                        else length c = 3 \<and> obane c 2 \<in> {PL_BAN_FAST, PL_BAN_SLOW, PL_BAN_PRIM})
      else if op \<in> {OP_TAIL_ADD, OP_TAIL_SUB, OP_TAIL_CMP, OP_TAIL_READY} then
        is_num c 2 \<and> obane c 2 = PL_BAN_PRIM_KNOWN \<and> length c = 5 \<and> known 3
      else if op = OP_BR then is_num c 1 \<and> length c = 2 + onum c 1 \<and> (\<forall>k. 2 \<le> k \<and> k < length c \<longrightarrow> is_num c k)
      else op \<in> {OP_FORCE, OP_RET, OP_FORCE_READY, OP_RET_READY, OP_NOP} \<and> length c = 1)"

definition jump_targets :: "gval list \<Rightarrow> nat list" where
  "jump_targets c =
     (if onum c 0 \<in> {OP_JMP, OP_CALL, OP_TAILBLK} then [onum c 1]
      else if onum c 0 = OP_BR then map (onum c) [2..<length c] else [])"

text \<open>The first words of the instructions.\<close>

fun starts_from :: "nat \<Rightarrow> gval list list \<Rightarrow> nat list" where
  "starts_from b [] = []"
| "starts_from b (c # cs) = b # starts_from (b + length c) cs"

abbreviation starts :: "gval list list \<Rightarrow> nat set" where
  "starts cs \<equiv> set (starts_from 0 cs)"

definition is_ret :: "gval list \<Rightarrow> bool" where
  "is_ret c \<longleftrightarrow> onum c 0 = OP_RET \<or> onum c 0 = OP_RET_READY"

text \<open>The words \<open>ops\<close> are the instructions \<open>cs\<close>; jumps go to instructions or to the counters \<open>X\<close> outside the code.\<close>

definition wf_ops :: "nat set \<Rightarrow> gval list \<Rightarrow> gval list list \<Rightarrow> bool" where
  "wf_ops X ops cs \<longleftrightarrow> ops = concat cs \<and> cs \<noteq> [] \<and> is_ret (last cs) \<and>
     (\<forall>c \<in> set cs. instr_ok c \<and> set (jump_targets c) \<subseteq> starts cs \<union> X)"

definition wf_prog :: "nat set \<Rightarrow> pl_code \<Rightarrow> pl_lawblk list \<Rightarrow> bool" where
  "wf_prog X c lbs \<longleftrightarrow> (\<exists>cs. wf_ops X (xc_ops c) cs \<and> xc_strict_entry c \<in> starts cs \<and>
     (\<forall>b \<in> set lbs. lb_target b \<in> starts cs))"

subsection \<open>Words and instructions\<close>

lemma onum_onat [simp]: "n < 2 ^ 64 \<Longrightarrow> unum (onat n) = n"
  by (simp add: unum_def onat_def unat_of_nat take_bit_nat_eq_self)

lemma instr_ok_ne: "instr_ok c \<Longrightarrow> c \<noteq> []"
  by (auto simp: instr_ok_def Let_def split: if_splits)

lemma starts_from_append: "starts_from b (xs @ ys) = starts_from b xs @ starts_from (b + length (concat xs)) ys"
  by (induction xs arbitrary: b) (simp_all add: add.assoc)

lemma starts_from_iff: "i \<in> set (starts_from b cs) \<longleftrightarrow> (\<exists>xs c ys. cs = xs @ c # ys \<and> i = b + length (concat xs))"
proof
  show "i \<in> set (starts_from b cs) \<Longrightarrow> \<exists>xs c ys. cs = xs @ c # ys \<and> i = b + length (concat xs)"
  proof (induction cs arbitrary: b)
    case (Cons c cs)
    show ?case
    proof (cases "i = b")
      case True
      have "c # cs = [] @ c # cs" by simp
      then show ?thesis using True by fastforce
    next
      case False
      then obtain xs c' ys where "cs = xs @ c' # ys" "i = b + length c + length (concat xs)"
        using Cons.IH[of "b + length c"] Cons.prems by auto
      then have "c # cs = (c # xs) @ c' # ys" "i = b + length (concat (c # xs))" by simp_all
      then show ?thesis by blast
    qed
  qed simp
  show "\<exists>xs c ys. cs = xs @ c # ys \<and> i = b + length (concat xs) \<Longrightarrow> i \<in> set (starts_from b cs)"
    by (auto simp: starts_from_append)
qed

lemma starts_same: "map length cs = map length cs' \<Longrightarrow> starts_from b cs = starts_from b cs'"
proof (induction cs arbitrary: b cs')
  case (Cons c cs)
  then obtain c' cs'' where "cs' = c' # cs''" "length c = length c'" "map length cs = map length cs''" by (cases cs') auto
  then show ?case using Cons.IH[of cs''] by simp
qed simp

text \<open>An instruction found at its place.\<close>

lemma chunk_word:
  assumes "k < length c"
  shows "oword (concat (xs @ c # ys)) (length (concat xs) + k) = oword c k"
  using assms by (simp add: oword_def nth_append)

lemma chunk_num: "k < length c \<Longrightarrow> onum (concat (xs @ c # ys)) (length (concat xs) + k) = onum c k"
  unfolding onum_def by (subst chunk_word) simp_all

lemma chunk_bane: "k < length c \<Longrightarrow> obane (concat (xs @ c # ys)) (length (concat xs) + k) = obane c k"
  unfolding obane_def by (subst chunk_word) simp_all

lemma chunk_update:
  "k < length c \<Longrightarrow> (concat (xs @ c # ys))[length (concat xs) + k := v] = concat (xs @ c[k := v] # ys)"
  by (simp add: list_update_append)

lemma oword_update [simp]: "oword (c[k := v]) j = (if j = k \<and> k < length c then v else oword c j)"
  by (simp add: oword_def)

lemma instr_ok_length:
  assumes "instr_ok c"
  shows "onum c 0 \<in> {OP_MK_THK, OP_TAILCALL} \<Longrightarrow> 2 < length c"
    "onum c 0 = OP_BR \<Longrightarrow> 1 < length c"
  using assms by (auto simp: instr_ok_def Let_def split: if_splits)

text \<open>The opcodes before the final specialisations.\<close>

definition base_op :: "gval list \<Rightarrow> bool" where
  "base_op c \<longleftrightarrow> onum c 0 \<le> OP_CALL_SLOW \<or> onum c 0 = OP_NOP \<or> onum c 0 = OP_TAILBLK"

lemma base_op_cases:
  "base_op c \<Longrightarrow> onum c 0 = 0 \<or> onum c 0 = 1 \<or> onum c 0 = 2 \<or> onum c 0 = 3 \<or> onum c 0 = 4 \<or> onum c 0 = 5 \<or> onum c 0 = 6 \<or>
     onum c 0 = 7 \<or> onum c 0 = 8 \<or> onum c 0 = 9 \<or> onum c 0 = 10 \<or> onum c 0 = 11 \<or> onum c 0 = 12 \<or> onum c 0 = 13 \<or>
     onum c 0 = 14 \<or> onum c 0 = 15 \<or> onum c 0 = 26 \<or> onum c 0 = 27"
  unfolding base_op_def by presburger

lemma operand_count_chunk:
  assumes "instr_ok c" "base_op c"
  shows "operand_count (concat (xs @ c # ys)) (length (concat xs)) = length c - 1"
proof -
  let ?o = "concat (xs @ c # ys)" and ?i = "length (concat xs)"
  have w: "onum ?o ?i = onum c 0"
    using chunk_num[of 0 c xs ys] instr_ok_ne[OF assms(1)] by simp
  have b: "obane ?o (?i + 2) = obane c 2" if "onum c 0 \<in> {OP_MK_THK, OP_TAILCALL}"
    by (rule chunk_bane) (rule instr_ok_length(1)[OF assms(1) that])
  have m: "onum ?o (?i + 1) = onum c 1" if "onum c 0 = OP_BR"
    by (rule chunk_num) (rule instr_ok_length(2)[OF assms(1) that])
  show ?thesis using assms(1) b m unfolding operand_count_def Let_def w instr_ok_def
    by (insert base_op_cases[OF assms(2)], elim disjE; simp split: if_splits)
qed

text \<open>An instruction replaced by one of the same length.\<close>

lemma wf_replace:
  assumes "wf_ops X ops (xs @ c # ys)" "instr_ok c'" "length c' = length c" "set (jump_targets c') \<subseteq> set (jump_targets c)"
    "is_ret c \<Longrightarrow> is_ret c'"
  shows "wf_ops X (concat (xs @ c' # ys)) (xs @ c' # ys)"
proof -
  have s: "starts (xs @ c' # ys) = starts (xs @ c # ys)" by (rule arg_cong[where f = set], rule starts_same) (simp add: assms(3))
  show ?thesis using assms unfolding wf_ops_def s by (auto split: if_splits simp: last_append)
qed

subsection \<open>Pass 1\<close>

text \<open>
  What pass 1 knows of the words it has read: the instructions \<open>cs\<close> of the code and the entries \<open>es\<close> of
  the directory behind them, with all starts and targets marked.
\<close>

definition is_entry :: "gval list \<Rightarrow> bool" where
  "is_entry c \<longleftrightarrow> length c = 3"

definition pass1_inv :: "gval list list \<Rightarrow> gval list list \<Rightarrow> dec \<Rightarrow> bool" where
  "pass1_inv cs es d \<longleftrightarrow>
     d_i d \<le> length (d_ops d) \<and> take (d_i d) (d_ops d) = concat (cs @ es) \<and> list_all is_entry es \<and>
     length (d_starts d) = length (d_ops d) \<and> length (d_target d) = length (d_ops d) \<and>
     (\<forall>j < length (d_ops d). d_starts d ! j \<longleftrightarrow> j \<in> starts (cs @ es)) \<and>
     (\<forall>c \<in> set cs. instr_ok c \<and> base_op c \<and> onum c 0 \<noteq> OP_TAILCALL \<and>
        (\<forall>t \<in> set (jump_targets c). t < length (d_ops d) \<and> d_target d ! t)) \<and>
     d_dir_at d = (if es = [] then None else Some (length (concat cs))) \<and>
     (\<forall>e \<in> set (d_dir d). lb_target e < length (d_ops d) \<and> d_target d ! lb_target e) \<and>
     (if cs = [] then d_last d = PL_OP_COUNT else d_last d = onum (last cs) 0) \<and>
     (d_entry d \<noteq> 0 \<longrightarrow> (\<exists>xs c ys. cs = xs @ c # ys \<and> onum c 0 = OP_ENTRY \<and> d_entry d = length (concat (xs @ [c]))))"

lemma pass1_inv_init: "pass1_inv [] [] (dec_init row)"
  by (simp add: pass1_inv_def dec_init_def)

text \<open>The marks after a group of targets.\<close>

lemma mark_targets_marks:
  assumes "mark_targets vs d = Inr d'" "length (d_target d) = length (d_ops d)"
  shows "(\<forall>v \<in> set vs. gval_nat63 v \<noteq> None \<and> unum v < length (d_ops d) \<and> d_target d' ! unum v) \<and>
    (\<forall>j < length (d_ops d). d_target d ! j \<longrightarrow> d_target d' ! j)"
  using assms
proof (induction vs arbitrary: d)
  case (Cons v vs)
  obtain w where w: "gval_nat63 v = Some w" "unat w < length (d_ops d)"
    "mark_targets vs (d\<lparr>d_target := (d_target d)[unat w := True]\<rparr>) = Inr d'"
    using Cons.prems(1) by (auto simp: MARK_TARGET_Inr res_simps)
  show ?case using Cons.IH[OF w(3)] w(1,2) Cons.prems(2) by (auto simp: unum_def nth_list_update split: if_splits)
qed simp

text \<open>An instruction read: its words form an instruction, its targets are marked, and nothing before it changes.\<close>

definition instr_read :: "nat \<Rightarrow> dec \<Rightarrow> dec \<Rightarrow> bool" where
  "instr_read i d d' \<longleftrightarrow>
     (let c = drop i (take (d_i d') (d_ops d')) in
      d_i d \<le> d_i d' \<and> d_i d' \<le> length (d_ops d') \<and> length (d_ops d') = length (d_ops d) \<and>
      take i (d_ops d') = take i (d_ops d) \<and>
      instr_ok c \<and> onum c 0 = unum (oword (d_ops d) i) \<and>
      (\<forall>t \<in> set (jump_targets c). t < length (d_ops d) \<and> d_target d' ! t) \<and>
      (\<forall>j < length (d_ops d). d_target d ! j \<longrightarrow> d_target d' ! j) \<and> length (d_target d') = length (d_target d) \<and>
      d_starts d' = d_starts d \<and> d_dir_at d' = d_dir_at d \<and> d_dir d' = d_dir d \<and> d_last d' = d_last d \<and>
      (d_entry d' = d_entry d \<or> onum c 0 = OP_ENTRY \<and> d_entry d' = d_i d'))"

lemma instr_readI:
  assumes i: "d_i d = Suc i" and n: "d_i d + k \<le> length (d_ops d)" and i': "d_i d' = d_i d + k"
    and l: "length (d_ops d') = length (d_ops d)" and t: "take (Suc i) (d_ops d') = take (Suc i) (d_ops d)"
    and op: "unum (oword (d_ops d) i) = op"
    and ok: "\<And>c. length c = Suc k \<Longrightarrow> (\<And>j. j \<le> k \<Longrightarrow> oword c j = oword (d_ops d') (i + j)) \<Longrightarrow> onum c 0 = op \<Longrightarrow>
      instr_ok c \<and> (\<forall>t \<in> set (jump_targets c). t < length (d_ops d) \<and> d_target d' ! t)"
    and m: "\<forall>j < length (d_ops d). d_target d ! j \<longrightarrow> d_target d' ! j" "length (d_target d') = length (d_target d)"
      "d_starts d' = d_starts d" "d_dir_at d' = d_dir_at d" "d_dir d' = d_dir d" "d_last d' = d_last d"
      "d_entry d' = d_entry d \<or> op = OP_ENTRY \<and> d_entry d' = d_i d'"
  shows "instr_read i d d'"
proof -
  let ?c = "drop i (take (d_i d') (d_ops d'))"
  have w: "oword ?c j = oword (d_ops d') (i + j)" if "j \<le> k" for j using that i n i' l by (simp add: oword_def)
  have "oword (d_ops d') i = oword (d_ops d) i" using t i n l by (simp add: oword_def) (metis lessI nth_take)
  then have c0: "onum ?c 0 = op" using w[of 0] op by (simp add: onum_def)
  have ti: "take i (d_ops d') = take i (d_ops d)" using arg_cong[OF t, of "take i"] by (simp add: min_def)
  show ?thesis using ok[OF _ w c0] i n i' l ti c0 op m unfolding instr_read_def Let_def by simp
qed

lemma oword_num: "is_num c k = (gval_nat63 (oword c k) \<noteq> None)" "onum c k = unum (oword c k)"
  by (simp_all add: is_num_def onum_def)

lemma take_update_beyond: "n \<le> k \<Longrightarrow> take n (xs[k := v]) = take n xs"
  by simp

lemma dec_simple_read:
  assumes "d_i d = Suc i" "d_i d \<le> length (d_ops d)" "unum (oword (d_ops d) i) = op"
  shows "op = OP_PUSH_VAR \<Longrightarrow> dec_push_var d = Inr d' \<Longrightarrow> instr_read i d d'"
    "op = OP_INTERP \<Longrightarrow> dec_interp d = Inr d' \<Longrightarrow> instr_read i d d'"
    "op = OP_PUSH_LIT \<or> op = OP_PUSH_SLOT \<Longrightarrow> dec_push op d = Inr d' \<Longrightarrow> instr_read i d d'"
    "op = OP_MK_APP \<Longrightarrow> dec_mk_app d = Inr d' \<Longrightarrow> instr_read i d d'"
    "op = OP_RET \<or> op = OP_FORCE \<Longrightarrow> d' = d \<Longrightarrow> instr_read i d d'"
    "op = OP_ENTRY \<Longrightarrow> dec_entry d = Inr d' \<Longrightarrow> instr_read i d d'"
    "op = OP_CALL_SLOW \<Longrightarrow> dec_call_slow d = Inr d' \<Longrightarrow> instr_read i d d'"
  using assms
  by (auto simp: dec_push_var_def dec_interp_def dec_push_def dec_mk_app_def dec_entry_def dec_call_slow_def
      instr_ok_def jump_targets_def Let_def split: option.splits if_splits gval.splits
      intro!: instr_readI[where k = "d_i d' - d_i d" and op = op])

lemma dec_jump_read:
  assumes "d_i d = Suc i" "d_i d \<le> length (d_ops d)" "unum (oword (d_ops d) i) = op" "length (d_target d) = length (d_ops d)"
  shows "op = OP_JMP \<and> k = 1 \<or> (op = OP_CALL \<or> op = OP_TAILBLK) \<and> k = 2 \<Longrightarrow> dec_jump k d = Inr d' \<Longrightarrow> instr_read i d d'"
    "op = OP_CALL_FAST \<Longrightarrow> dec_call_fast d = Inr d' \<Longrightarrow> instr_read i d d'"
  using assms
  by (auto simp: dec_jump_def dec_call_fast_def MARK_TARGET_Inr res_simps opw_def unum_def[of "oword (d_ops d) (Suc i)"]
      oword_num instr_ok_def jump_targets_def Let_def nth_list_update split: option.splits if_splits
      intro!: instr_readI[where k = "d_i d' - d_i d" and op = op])

lemma dec_br_read:
  assumes i: "d_i d = Suc i" and op: "unum (oword (d_ops d) i) = OP_BR" and t: "length (d_target d) = length (d_ops d)"
    and r: "dec_br d = Inr d'"
  shows "instr_read i d d'"
proof -
  obtain w d1 where w: "gval_nat63 (oword (d_ops d) (Suc i)) = Some w" "Suc (Suc i) + unat w \<le> length (d_ops d)"
      "mark_targets (take (unat w) (drop (Suc (Suc i)) (d_ops d))) d = Inr d1" "d' = dec_skip (1 + unat w) d1"
    using r i by (auto simp: dec_br_def opw_def res_simps split: option.splits if_splits)
  obtain ts where d1: "d1 = d\<lparr>d_target := ts\<rparr>" "length ts = length (d_target d)" using mark_targets_frame[OF w(3)] by blast
  note mk = mark_targets_marks[OF w(3) t]
  have el: "oword (d_ops d) (i + k) \<in> set (take (unat w) (drop (Suc (Suc i)) (d_ops d)))" if k: "2 \<le> k" "k < 2 + unat w" for k
  proof -
    obtain k' where k': "k = Suc (Suc k')" using k(1) by (metis add_2_eq_Suc le_Suc_ex)
    then have "take (unat w) (drop (Suc (Suc i)) (d_ops d)) ! k' = oword (d_ops d) (i + k)"
      using k(2) w(2) by (simp add: oword_def)
    moreover have "k' < length (take (unat w) (drop (Suc (Suc i)) (d_ops d)))" using k(2) k' w(2) by simp
    ultimately show ?thesis using nth_mem by metis
  qed
  show ?thesis
  proof (rule instr_readI[where k = "1 + unat w" and op = OP_BR])
    fix c
    assume c: "length c = Suc (1 + unat w)" "\<And>j. j \<le> 1 + unat w \<Longrightarrow> oword c j = oword (d_ops d') (i + j)" "onum c 0 = OP_BR"
    have o: "oword c j = oword (d_ops d) (i + j)" if "j \<le> 1 + unat w" for j using c(2)[OF that] w(4) d1 by simp
    have n: "onum c 1 = unat w" "is_num c 1" using o[of 1] w(1) by (simp_all add: oword_num unum_def)
    have e: "is_num c k \<and> onum c k < length (d_ops d) \<and> d_target d' ! onum c k" if "2 \<le> k" "k < length c" for k
      using mk el[of k] o[of k] that c(1) w(4) by (fastforce simp: oword_num)
    show "instr_ok c \<and> (\<forall>t \<in> set (jump_targets c). t < length (d_ops d) \<and> d_target d' ! t)"
      using n e c by (auto simp: instr_ok_def jump_targets_def Let_def)
  qed (use i op w d1 mk in simp_all)
qed

lemma op_scan_bound: "op_scan opset name argc k ds = int j \<Longrightarrow> j < k + length ds"
proof (induction ds arbitrary: k)
  case (Cons d ds)
  then show ?case using Cons.IH[of "Suc k"] by (simp split: if_splits)
qed simp

lemma lookup_bound: "pl_op_lookup opset name argc = int j \<Longrightarrow> j < pl_nops"
  unfolding lookup_scan by (drule op_scan_bound) (simp add: pl_nops_def)

lemma dec_op_bound:
  assumes "dec_op h pin name argc = Inr idx"
  shows "idx < pl_nops"
proof (cases pin)
  case (GPin a)
  then obtain body where b: "(case body of GNat n \<Rightarrow> (case gval_nat63 argc of None \<Rightarrow> Inl Dec_silent
      | Some w \<Rightarrow> let idx = pl_op_lookup (pl_nat_u64_clamp n) (name_view name) (unat w mod 2 ^ 32) in
          if idx < 0 then Inl Dec_silent else Inr (nat idx)) | _ \<Rightarrow> Inl (Dec_fail ''bad known-primop opset'')) = Inr idx"
    using assms by (auto simp: dec_op_def)
  then obtain s k where "\<not> pl_op_lookup s (name_view name) k < 0" "nat (pl_op_lookup s (name_view name) k) = idx"
    by (cases body) (auto simp: Let_def split: option.splits if_splits)
  then show ?thesis using lookup_bound[of s "name_view name" k idx] by simp
qed (use assms in \<open>simp_all add: dec_op_def\<close>)

lemma pl_nops_small: "pl_nops < 2 ^ 64"
proof -
  have "pl_nops = length op_keys" by (simp add: pl_nops_def op_keys_def)
  then show ?thesis by (simp add: op_keys_list)
qed

lemma onat_num [simp]: "gval_nat63 (onat n) = Some (word_of_nat n)" "n < pl_nops \<Longrightarrow> unum (onat n) = n"
  using pl_nops_small by (simp_all add: onat_def unum_def unat_of_nat take_bit_nat_eq_self)

lemma dec_call_known_read:
  assumes i: "d_i d = Suc i" and op: "unum (oword (d_ops d) i) = OP_CALL_KNOWN" and r: "dec_call_known h d = Inr d'"
  shows "instr_read i d d'"
proof -
  obtain idx where d: "Suc i + 3 \<le> length (d_ops d)" "idx < pl_nops"
      "d' = dec_skip 3 (d\<lparr>d_ops := (d_ops d)[Suc i + 1 := onat idx, Suc i + 2 := gzero]\<rparr>)"
    using r i by (auto simp: dec_call_known_def res_simps dest!: dec_op_bound)
  show ?thesis
  proof (rule instr_readI[where k = 3 and op = OP_CALL_KNOWN])
    fix c
    assume c: "length c = Suc 3" "\<And>j. j \<le> 3 \<Longrightarrow> oword c j = oword (d_ops d') (i + j)" "onum c 0 = OP_CALL_KNOWN"
    have "oword c 2 = onat idx" using c(2)[of 2] d by (simp add: oword_def)
    then show "instr_ok c \<and> (\<forall>t \<in> set (jump_targets c). t < length (d_ops d) \<and> d_target d' ! t)"
      using c d(2) by (simp add: instr_ok_def jump_targets_def oword_num)
  qed (use i op d in simp_all)
qed

lemma dec_mk_thk_read:
  assumes i: "d_i d = Suc i" and op: "unum (oword (d_ops d) i) = OP_MK_THK" and r: "dec_mk_thk h d = Inr d'"
  shows "instr_read i d d'"
proof -
  obtain w where w: "Suc i + 2 \<le> length (d_ops d)" "gval_nat63 (oword (d_ops d) (i + 2)) = Some w"
    using r i by (auto simp: dec_mk_thk_def opw_def split: option.splits)
  show ?thesis
  proof (cases "w AND PL_BAN_MASK = PL_BAN_PRIM_KNOWN")
    case True
    obtain idx where d: "Suc i + 4 \<le> length (d_ops d)" "idx < pl_nops"
        "d' = dec_skip 4 (d\<lparr>d_ops := (d_ops d)[Suc i + 2 := onat idx, Suc i + 3 := onat (spec_code idx)]\<rparr>)"
      using r i w True by (auto simp: dec_mk_thk_def opw_def res_simps Let_def split: if_splits dest!: dec_op_bound)
    show ?thesis
    proof (rule instr_readI[where k = 4 and op = OP_MK_THK])
      fix c
      assume c: "length c = Suc 4" "\<And>j. j \<le> 4 \<Longrightarrow> oword c j = oword (d_ops d') (i + j)" "onum c 0 = OP_MK_THK"
      have "oword c 3 = onat idx" "oword c 2 = oword (d_ops d) (i + 2)" 
        using c(2)[of 3] c(2)[of 2] d by (simp_all add: oword_def numeral_3_eq_3)
      then show "instr_ok c \<and> (\<forall>t \<in> set (jump_targets c). t < length (d_ops d) \<and> d_target d' ! t)"
        using c d(2) w(2) True by (simp add: instr_ok_def jump_targets_def oword_num obane_def)
    qed (use i op d in simp_all)
  next
    case False
    then have d: "d' = dec_skip 2 d" "w AND PL_BAN_MASK \<in> {PL_BAN_FAST, PL_BAN_SLOW, PL_BAN_PRIM}"
      using r i w by (auto simp: dec_mk_thk_def opw_def Let_def split: if_splits)
    show ?thesis
    proof (rule instr_readI[where k = 2 and op = OP_MK_THK])
      fix c
      assume c: "length c = Suc 2" "\<And>j. j \<le> 2 \<Longrightarrow> oword c j = oword (d_ops d') (i + j)" "onum c 0 = OP_MK_THK"
      then show "instr_ok c \<and> (\<forall>t \<in> set (jump_targets c). t < length (d_ops d) \<and> d_target d' ! t)"
        using c(2)[of 2] d w(2) False by (simp add: instr_ok_def jump_targets_def oword_num obane_def)
    qed (use i op d w in simp_all)
  qed
qed

lemma dec_instr_read:
  assumes r: "dec_instr h op d = Inr d'" and n: "op \<noteq> OP_LAWBLK" and i: "d_i d = Suc i" and l: "d_i d \<le> length (d_ops d)"
    and op: "unum (oword (d_ops d) i) = op" and t: "length (d_target d) = length (d_ops d)"
  shows "instr_read i d d'" "op \<le> OP_CALL_SLOW \<or> op = OP_TAILBLK" "op \<noteq> OP_TAILCALL"
proof -
  note rd = dec_simple_read[OF i l op] dec_jump_read[OF i l op t]
  show "instr_read i d d'" using r n rd dec_br_read[OF i _ t] dec_call_known_read[OF i] dec_mk_thk_read[OF i] op
    unfolding dec_instr_def by (simp split: if_splits)
  show "op \<le> OP_CALL_SLOW \<or> op = OP_TAILBLK" "op \<noteq> OP_TAILCALL"
    using r n unfolding dec_instr_def by (auto split: if_splits)
qed

text \<open>The words behind the read part, extended by an instruction.\<close>

lemma take_chunk:
  assumes "take i xs' = take i xs" "i \<le> j" "j \<le> length xs'" "length xs' = length xs"
  shows "take j xs' = take i xs @ drop i (take j xs')"
proof -
  have "take i (take j xs') = take i xs" using assms by (simp add: min_def)
  then show ?thesis by (metis append_take_drop_id)
qed

lemma pass1_step_code:
  assumes inv: "pass1_inv cs [] d" and i: "d_i d < length (d_ops d)" and r: "pass1_step h d = Inr d'"
    and op: "unum (opw d 0) \<noteq> OP_LAWBLK"
  shows "\<exists>c. pass1_inv (cs @ [c]) [] d'"
proof -
  define d1 where "d1 = (dec_skip 1 (d\<lparr>d_starts := (d_starts d)[d_i d := True]\<rparr>))\<lparr>d_last := unum (opw d 0)\<rparr>"
  have r1: "dec_instr h (unum (opw d 0)) d1 = Inr d'" using r op by (simp add: pass1_step_def Let_def d1_def split: if_splits)
  have f: "d_i d1 = Suc (d_i d)" "d_ops d1 = d_ops d" "d_target d1 = d_target d" "d_starts d1 = (d_starts d)[d_i d := True]"
    "d_dir_at d1 = d_dir_at d" "d_dir d1 = d_dir d" "d_last d1 = unum (opw d 0)" "d_entry d1 = d_entry d"
    by (simp_all add: d1_def)
  have inv': "length (d_target d) = length (d_ops d)" "length (d_starts d) = length (d_ops d)" "take (d_i d) (d_ops d) = concat cs"
    "\<forall>j < length (d_ops d). d_starts d ! j \<longleftrightarrow> j \<in> starts cs" "d_dir_at d = None"
    using inv by (simp_all add: pass1_inv_def)
  have rd: "instr_read (d_i d) d1 d'" and bo: "unum (opw d 0) \<le> OP_CALL_SLOW \<or> unum (opw d 0) = OP_TAILBLK" "unum (opw d 0) \<noteq> OP_TAILCALL"
    using dec_instr_read[OF r1 op f(1)] i inv'(1) f by (simp_all add: opw_def)
  define c where "c = drop (d_i d) (take (d_i d') (d_ops d'))"
  note rd' = rd[unfolded instr_read_def Let_def c_def[symmetric] f]
  have ln: "length (concat cs) = d_i d" using inv'(3) i by (metis length_take min.absorb2 less_imp_le)
  have tk: "take (d_i d') (d_ops d') = concat (cs @ [c])"
    using take_chunk[of "d_i d" "d_ops d'" "d_ops d" "d_i d'"] rd' inv'(3) by (simp add: c_def)
  have st: "\<forall>j < length (d_ops d). (d_starts d)[d_i d := True] ! j \<longleftrightarrow> j \<in> starts (cs @ [c])"
    using inv'(2,4) i ln by (auto simp: starts_from_append nth_list_update)
  have c0: "onum c 0 = unum (opw d 0)" using rd' by (simp add: opw_def)
  have en: "d_entry d' \<noteq> 0 \<longrightarrow> (\<exists>xs e ys. cs @ [c] = xs @ e # ys \<and> onum e 0 = OP_ENTRY \<and> d_entry d' = length (concat (xs @ [e])))"
  proof (cases "d_entry d' = d_entry d")
    case True
    show ?thesis
    proof
      assume "d_entry d' \<noteq> 0"
      then obtain xs e ys where "cs = xs @ e # ys" "onum e 0 = OP_ENTRY" "d_entry d = length (concat (xs @ [e]))"
        using inv True by (auto simp: pass1_inv_def)
      then have "cs @ [c] = xs @ e # (ys @ [c])" "onum e 0 = OP_ENTRY" "d_entry d' = length (concat (xs @ [e]))" using True by simp_all
      then show "\<exists>xs e ys. cs @ [c] = xs @ e # ys \<and> onum e 0 = OP_ENTRY \<and> d_entry d' = length (concat (xs @ [e]))" by blast
    qed
  next
    case False
    then have "onum c 0 = OP_ENTRY" "d_entry d' = d_i d'" using rd' by blast+
    moreover have "d_i d' = length (concat (cs @ [c]))" using tk rd' by (metis length_take min.absorb2)
    ultimately show ?thesis by fastforce
  qed
  have old: "\<forall>c \<in> set cs. instr_ok c \<and> base_op c \<and> onum c 0 \<noteq> OP_TAILCALL \<and>
        (\<forall>t \<in> set (jump_targets c). t < length (d_ops d) \<and> d_target d ! t)"
    "\<forall>e \<in> set (d_dir d). lb_target e < length (d_ops d) \<and> d_target d ! lb_target e"
    using inv by (simp_all add: pass1_inv_def)
  have new: "instr_ok c" "base_op c" "onum c 0 \<noteq> OP_TAILCALL" using rd' c0 bo by (auto simp: base_op_def)
  have "pass1_inv (cs @ [c]) [] d'" unfolding pass1_inv_def
    using rd' tk st c0 en old new inv' by auto
  then show ?thesis by blast
qed

lemma pass1_step_dir:
  assumes inv: "pass1_inv cs es d" and i: "d_i d < length (d_ops d)" and r: "pass1_step h d = Inr d'"
    and op: "unum (opw d 0) = OP_LAWBLK"
  shows "\<exists>e. pass1_inv cs (es @ [e]) d'"
proof -
  define d1 where "d1 = dec_skip 1 (d\<lparr>d_starts := (d_starts d)[d_i d := True]\<rparr>)"
  have r1: "dec_lawblk h d1 = Inr d'" using r op by (simp add: pass1_step_def Let_def d1_def dec_instr_def split: if_splits)
  have f: "d_i d1 = Suc (d_i d)" "d_ops d1 = d_ops d" by (simp_all add: d1_def)
  obtain a where a: "opw d1 0 = GLaw a" using r1 by (cases "opw d1 0") (auto simp: dec_lawblk_def)
  then obtain ar d2 where d2: "d_i d1 + 2 \<le> length (d_ops d1)" "MARK_TARGET (opw d1 1) d1 = Inr d2"
      "d' = dec_skip 2 (d2\<lparr>d_dir_at := (case d_dir_at d2 of None \<Rightarrow> Some (d_i d2 - 1) | Some k \<Rightarrow> Some k),
           d_dir := d_dir d2 @ [\<lparr>lb_law = GLaw a, lb_target = unum (opw d1 1), lb_arity = ar\<rparr>]\<rparr>)"
    using r1 by (auto simp: dec_lawblk_def res_simps split: if_splits)
  then obtain w where g: "gval_nat63 (opw d1 1) = Some w" and w: "Suc (d_i d) + 2 \<le> length (d_ops d)" "unat w < length (d_ops d)"
      and d2': "d2 = d1\<lparr>d_target := (d_target d1)[unat w := True]\<rparr>"
    by (auto simp: MARK_TARGET_Inr f)
  have d': "d_i d' = d_i d + 3" "d_ops d' = d_ops d" "d_target d' = (d_target d)[unat w := True]"
        "d_starts d' = (d_starts d)[d_i d := True]" "d_last d' = d_last d" "d_entry d' = d_entry d"
        "d_dir d' = d_dir d @ [\<lparr>lb_law = GLaw a, lb_target = unat w, lb_arity = ar\<rparr>]"
        "d_dir_at d' = (if d_dir_at d = None then Some (d_i d) else d_dir_at d)"
    unfolding d2(3) d2' unum_def g by (auto simp: d1_def split: option.splits)
  have inv': "length (d_target d) = length (d_ops d)" "length (d_starts d) = length (d_ops d)" "take (d_i d) (d_ops d) = concat (cs @ es)"
    "\<forall>j < length (d_ops d). d_starts d ! j \<longleftrightarrow> j \<in> starts (cs @ es)" "d_dir_at d = (if es = [] then None else Some (length (concat cs)))"
    using inv by (simp_all add: pass1_inv_def)
  define e where "e = drop (d_i d) (take (d_i d + 3) (d_ops d))"
  have ln: "length (concat (cs @ es)) = d_i d" using inv'(3) i by (metis length_take min.absorb2 less_imp_le)
  have tk: "take (d_i d + 3) (d_ops d) = concat (cs @ es @ [e])"
    using take_chunk[of "d_i d" "d_ops d" "d_ops d" "d_i d + 3"] w(1) inv'(3) by (simp add: e_def)
  have st: "\<forall>j < length (d_ops d). (d_starts d)[d_i d := True] ! j \<longleftrightarrow> j \<in> starts (cs @ es @ [e])"
    using inv'(2,4) i ln by (auto simp: starts_from_append nth_list_update)
  have di: "d_dir_at d' = Some (length (concat cs))" using inv'(5) ln d'(8) by (cases es) auto
  have e: "is_entry e" using w(1) by (simp add: is_entry_def e_def)
  have mk: "d_target d' ! t" if "d_target d ! t" "t < length (d_ops d)" for t
    using that inv'(1) unfolding d'(3) by (cases "t = unat w") simp_all
  have mw: "d_target d' ! unat w" using w(2) inv'(1) by (simp add: d'(3))
  have "pass1_inv cs (es @ [e]) d'" using inv tk st di e w mk mw unfolding pass1_inv_def d'(1,2,4-7)
    by (simp add: d'(3))
  then show ?thesis by blast
qed

lemma pass1_inv_step:
  assumes "pass1_inv cs es d" "d_i d < length (d_ops d)" "pass1_step h d = Inr d'"
  shows "\<exists>cs es. pass1_inv cs es d'"
proof (cases "unum (opw d 0) = OP_LAWBLK")
  case True
  then show ?thesis using pass1_step_dir[OF assms] by blast
next
  case False
  then have "d_dir_at d = None" using assms(3) by (auto simp: pass1_step_def Let_def split: if_splits)
  then have "es = []" using assms(1) by (auto simp: pass1_inv_def split: if_splits)
  then show ?thesis using pass1_step_code[OF _ assms(2,3) False] assms(1) by blast
qed

lemma pass1_ok:
  assumes "pass1 h d = Inr d'" "pass1_inv cs es d"
  shows "\<exists>cs es. pass1_inv cs es d' \<and> d_i d' = length (d_ops d') \<and> length (d_ops d') = length (d_ops d)"
  using assms
proof (induction h d arbitrary: cs es rule: pass1.induct)
  case (1 h d)
  show ?case
  proof (cases "d_i d < length (d_ops d)")
    case True
    then obtain d1 where d1: "pass1_step h d = Inr d1" "pass1 h d1 = Inr d'"
      using 1(2) by (subst (asm) pass1.simps) (auto split: sum.splits)
    obtain cs1 es1 where "pass1_inv cs1 es1 d1" using pass1_inv_step[OF 1(3) True d1(1)] by blast
    from 1(1)[OF True d1(1,2) this] show ?thesis using pass1_step_progress[OF d1(1)] by simp
  next
    case False
    then have "d' = d" using 1(2) by (subst (asm) pass1.simps) simp
    moreover have "d_i d \<le> length (d_ops d)" using 1(3) by (simp add: pass1_inv_def)
    ultimately show ?thesis using 1(3) False by (metis le_neq_implies_less)
  qed
qed

subsection \<open>The directory and pass 2\<close>

lemma lawblk_add_targets: "lb_target ` set (lawblk_add law e got) \<subseteq> insert (lb_target e) (lb_target ` set got)"
  by (auto simp: lawblk_add_def)

lemma find_entry_in: "find_entry M h v k es = Inr (Some e) \<Longrightarrow> e \<in> set es"
  by (induction es) (auto split: if_splits)

lemma add_lits_targets:
  "add_lits M h dir vs got = Inr lbs \<Longrightarrow> lb_target ` set lbs \<subseteq> lb_target ` set dir \<union> lb_target ` set got"
proof (induction vs arbitrary: got)
  case (Cons v vs)
  obtain w where w: "(case w of
       GLaw a \<Rightarrow> dk (law_at h a) (\<lambda>(ar, name, body).
         rbind (find_entry M h w (unat ar) dir) (\<lambda>e.
           add_lits M h dir vs (case e of None \<Rightarrow> got | Some e \<Rightarrow> lawblk_add w e got)))
     | _ \<Rightarrow> add_lits M h dir vs got) = Inr lbs"
    using Cons.prems unfolding add_lits.simps dk_Inr by blast
  show ?case
  proof (cases "\<exists>a. w = GLaw a")
    case True
    then obtain ar e where e: "find_entry M h w ar dir = Inr e"
        "add_lits M h dir vs (case e of None \<Rightarrow> got | Some e \<Rightarrow> lawblk_add w e got) = Inr lbs"
      using w by (auto simp: res_simps)
    show ?thesis
    proof (cases e)
      case None
      then show ?thesis using Cons.IH[OF e(2)] by simp
    next
      case (Some x)
      then have "x \<in> set dir" using e(1) find_entry_in by simp
      then have "lb_target ` set (lawblk_add w x got) \<subseteq> lb_target ` set dir \<union> lb_target ` set got"
        using lawblk_add_targets[of w x got] by blast
      then show ?thesis using Cons.IH[OF e(2)] unfolding Some option.case by blast
    qed
  next
    case False
    then show ?thesis using w Cons.IH by (cases w) auto
  qed
qed auto

lemma resolve_targets:
  assumes "resolve_lawblks M h dir lits = Inr lbs" "b \<in> set lbs"
  shows "lb_target b \<in> lb_target ` set dir"
proof -
  have f: "lb_target ` set (foldl (\<lambda>got e. lawblk_add (lb_law e) e got) got dir) \<subseteq> lb_target ` set dir \<union> lb_target ` set got" for got
  proof (induction dir arbitrary: got)
    case (Cons e dir)
    show ?case using Cons[of "lawblk_add (lb_law e) e got"] lawblk_add_targets[of "lb_law e" e got]
      unfolding foldl_Cons list.set image_insert by blast
  qed simp
  show ?thesis using add_lits_targets[OF assms(1)[unfolded resolve_lawblks_def]] f[of "[]"] assms(2) by auto
qed

lemma starts_prefix: "j < length (concat cs) \<Longrightarrow> j \<in> starts (cs @ es) \<longleftrightarrow> j \<in> starts cs"
proof -
  have "b \<le> j" if "j \<in> set (starts_from b es)" for b j using that by (auto simp: starts_from_iff)
  then show "j < length (concat cs) \<Longrightarrow> ?thesis" by (fastforce simp: starts_from_append)
qed

lemma starts_less: "(\<And>c. c \<in> set cs \<Longrightarrow> c \<noteq> []) \<Longrightarrow> j \<in> starts cs \<Longrightarrow> j < length (concat cs)"
  by (auto simp: starts_from_iff)

lemma row_wf:
  assumes p: "pass1_inv cs es d" "d_i d = length (d_ops d)" and st: "dir_strip M h d = Inr (d2, lbs)" and p2: "pass2 d2 = Inr ()"
  shows "wf_ops {length (d_ops d2)..<length (d_ops d)} (d_ops d2) cs \<and> (\<forall>c \<in> set cs. base_op c \<and> onum c 0 \<noteq> OP_TAILCALL) \<and>
    d_entry d2 \<in> starts cs \<and> (\<forall>b \<in> set lbs. lb_target b \<in> starts cs)"
proof -
  have all: "d_ops d = concat (cs @ es)" using p by (simp add: pass1_inv_def)
  have at: "d_dir_at d = (if es = [] then None else Some (length (concat cs)))"
    and ok: "\<forall>c \<in> set cs. instr_ok c \<and> base_op c \<and> onum c 0 \<noteq> OP_TAILCALL \<and> (\<forall>t \<in> set (jump_targets c). t < length (d_ops d) \<and> d_target d ! t)"
    and dir: "\<forall>e \<in> set (d_dir d). lb_target e < length (d_ops d) \<and> d_target d ! lb_target e"
    and sts: "\<forall>j < length (d_ops d). d_starts d ! j \<longleftrightarrow> j \<in> starts (cs @ es)"
    and lst: "if cs = [] then d_last d = PL_OP_COUNT else d_last d = onum (last cs) 0"
    and ent: "d_entry d \<noteq> 0 \<longrightarrow> (\<exists>xs c ys. cs = xs @ c # ys \<and> onum c 0 = OP_ENTRY \<and> d_entry d = length (concat (xs @ [c])))"
    using p(1) unfolding pass1_inv_def by blast+
  have ops: "d_ops d2 = concat cs" and f: "d_target d2 = d_target d" "d_starts d2 = d_starts d" "d_last d2 = d_last d" "d_entry d2 = d_entry d"
    using st all at by (auto simp: dir_strip_def res_simps split: if_splits)
  have mark: "t \<in> starts cs" if t: "t < length (concat cs)" "d_target d ! t" for t
  proof -
    have "d_starts d ! t" using p2 t unfolding pass2_def ops f by (auto simp: list_ex_iff split: if_splits)
    moreover have "t < length (d_ops d)" using t(1) all by simp
    ultimately have "t \<in> starts (cs @ es)" using sts by simp
    then show ?thesis using starts_prefix[OF t(1)] by simp
  qed
  have last: "cs \<noteq> []" "onum (last cs) 0 = OP_RET" using p2 lst f(3) by (auto simp: pass2_def split: if_splits)
  have t: "set (jump_targets c) \<subseteq> starts cs \<union> {length (d_ops d2)..<length (d_ops d)}" if "c \<in> set cs" for c
  proof
    fix t
    assume "t \<in> set (jump_targets c)"
    then have "t < length (d_ops d)" "d_target d ! t" using ok that by blast+
    then show "t \<in> starts cs \<union> {length (d_ops d2)..<length (d_ops d)}" using mark[of t] unfolding ops by (cases "t < length (concat cs)") auto
  qed
  have e: "d_entry d2 \<in> starts cs"
  proof (cases "d_entry d = 0")
    case True
    then show ?thesis using last(1) f by (cases cs) simp_all
  next
    case False
    then obtain xs c ys where x: "cs = xs @ c # ys" "onum c 0 = OP_ENTRY" "d_entry d = length (concat (xs @ [c]))"
      using ent by blast
    then obtain y ys' where "ys = y # ys'" using last(2) by (cases ys) auto
    then have "cs = (xs @ [c]) @ y # ys'" "d_entry d = 0 + length (concat (xs @ [c]))" using x(1,3) by simp_all
    then show ?thesis unfolding f(4) starts_from_iff by blast
  qed
  have b: "lb_target b \<in> starts cs" if bl: "b \<in> set lbs" for b
  proof -
    obtain k where k: "d_dir_at d = Some k" "resolve_lawblks M h (d_dir d) (map (oword (d_ops d)) (d_lits d)) = Inr lbs"
        "\<forall>x \<in> set (d_dir d). lb_target x < k"
      using st bl by (auto simp: dir_strip_def list_ex_iff res_simps not_le split: option.splits if_splits)
    have "k = length (concat cs)" using k(1) at by (auto split: if_splits)
    moreover obtain x where "x \<in> set (d_dir d)" "lb_target b = lb_target x" using resolve_targets[OF k(2) bl] by auto
    ultimately show ?thesis using mark[of "lb_target b"] k(3) dir by auto
  qed
  show ?thesis unfolding wf_ops_def is_ret_def using ops last ok t e b by blast
qed

subsection \<open>Rewrites of one opcode\<close>

text \<open>The opcodes that pass 3 and the specialisations put in place of another have its operands.\<close>

definition recodes :: "gval list \<Rightarrow> nat \<Rightarrow> bool" where
  "recodes c op \<longleftrightarrow>
     onum c 0 = OP_MK_THK \<and> op = OP_TAILCALL \<or>
     onum c 0 = OP_CALL_KNOWN \<and> op \<in> {OP_CALL_KNOWN, OP_ADD, OP_SUB, OP_CMP, OP_CALL_READY} \<or>
     onum c 0 = OP_TAILCALL \<and> obane c 2 = PL_BAN_PRIM_KNOWN \<and> op \<in> {OP_TAILCALL, OP_TAIL_ADD, OP_TAIL_SUB, OP_TAIL_CMP, OP_TAIL_READY} \<or>
     onum c 0 = OP_FORCE \<and> op = OP_FORCE_READY \<or> onum c 0 = OP_RET \<and> op = OP_RET_READY"

lemma recode_ok:
  assumes "instr_ok c" "recodes c op"
  shows "instr_ok (c[0 := onat op])" "jump_targets (c[0 := onat op]) = []" "is_ret c \<Longrightarrow> is_ret (c[0 := onat op])"
    "op < 2 ^ 64" "onum (c[0 := onat op]) 0 = op"
proof -
  have b: "op < 2 ^ 64" using assms(2) by (auto simp: recodes_def)
  have n: "onum (c[0 := onat op]) k = (if k = 0 then op else onum c k)" "k \<noteq> 0 \<Longrightarrow> is_num (c[0 := onat op]) k = is_num c k"
    "k \<noteq> 0 \<Longrightarrow> obane (c[0 := onat op]) k = obane c k" for k
    using instr_ok_ne[OF assms(1)] b by (simp_all add: onum_def is_num_def obane_def)
  show "op < 2 ^ 64" "onum (c[0 := onat op]) 0 = op" using b n(1) by simp_all
  show "jump_targets (c[0 := onat op]) = []" "is_ret c \<Longrightarrow> is_ret (c[0 := onat op])"
    using assms(2) by (auto simp: jump_targets_def is_ret_def n(1) recodes_def)
  have n': "is_num (c[0 := onat op]) 2 = is_num c 2" "is_num (c[0 := onat op]) 3 = is_num c 3" "obane (c[0 := onat op]) 2 = obane c 2"
    by (simp_all add: n(2,3))
  show "instr_ok (c[0 := onat op])" using assms(2) unfolding recodes_def instr_ok_def n(1) Let_def n' length_list_update
    by (elim disjE conjE insertE emptyE; insert assms(1); simp add: instr_ok_def split: if_splits)
qed

lemma wf_recode:
  assumes "wf_ops X ops (xs @ c # ys)" "recodes c op"
  shows "wf_ops X (ops[length (concat xs) := onat op]) (xs @ c[0 := onat op] # ys)"
proof -
  have c: "instr_ok c" "ops = concat (xs @ c # ys)" using assms(1) by (simp_all add: wf_ops_def)
  have "ops[length (concat xs) := onat op] = concat (xs @ c[0 := onat op] # ys)"
    using chunk_update[of 0 c xs ys "onat op"] instr_ok_ne[OF c(1)] c(2) by simp
  then show ?thesis using wf_replace[OF assms(1), of "c[0 := onat op]"] recode_ok[OF c(1) assms(2)] by simp
qed

lemma starts_recode: "starts (xs @ c[0 := v] # ys) = starts (xs @ c # ys)"
  by (rule arg_cong[where f = set], rule starts_same) simp

text \<open>Reading the instruction at its place.\<close>

lemma wf_at:
  assumes "wf_ops X ops (xs @ c # ys)"
  shows "instr_ok c" "length (concat xs) < length ops" "onum ops (length (concat xs)) = onum c 0"
    "k < length c \<Longrightarrow> onum ops (length (concat xs) + k) = onum c k"
    "k < length c \<Longrightarrow> obane ops (length (concat xs) + k) = obane c k"
    "k < length c \<Longrightarrow> oword ops (length (concat xs) + k) = oword c k"
    "base_op c \<Longrightarrow> operand_count ops (length (concat xs)) = length c - 1"
    "length c \<noteq> 0"
proof -
  have o: "ops = concat (xs @ c # ys)" and c: "instr_ok c" using assms by (simp_all add: wf_ops_def)
  note ne = instr_ok_ne[OF c]
  show "instr_ok c" "length c \<noteq> 0" using c ne by simp_all
  show "length (concat xs) < length ops" using ne o by simp
  show "onum ops (length (concat xs)) = onum c 0" using chunk_num[of 0 c xs ys] ne o by simp
  show "k < length c \<Longrightarrow> onum ops (length (concat xs) + k) = onum c k"
    "k < length c \<Longrightarrow> obane ops (length (concat xs) + k) = obane c k"
    "k < length c \<Longrightarrow> oword ops (length (concat xs) + k) = oword c k"
    unfolding o by (rule chunk_num chunk_bane chunk_word; assumption)+
  show "base_op c \<Longrightarrow> operand_count ops (length (concat xs)) = length c - 1" unfolding o by (rule operand_count_chunk[OF c])
qed

lemma wf_length: "wf_ops X ops cs \<Longrightarrow> length ops = length (concat cs)"
  by (simp add: wf_ops_def)

subsection \<open>Pass 3 and the numeric opcodes\<close>

lemma pass3_wf:
  assumes "wf_ops X ops (cs1 @ cs2)" "\<forall>c \<in> set cs1. base_op c" "\<forall>c \<in> set cs2. base_op c \<and> onum c 0 \<noteq> OP_TAILCALL"
  shows "\<exists>cs. wf_ops X (pass3 target (length ops) (length (concat cs1)) ops) cs \<and> starts cs = starts (cs1 @ cs2) \<and> (\<forall>c \<in> set cs. base_op c)"
  using assms
proof (induction cs2 arbitrary: cs1 ops)
  case Nil
  then show ?case using wf_length[OF Nil(1)] by (subst pass3.simps) auto
next
  case (Cons c cs2)
  note at = wf_at[OF Cons.prems(1)]
  have b: "base_op c" "onum c 0 \<noteq> OP_TAILCALL" using Cons.prems(3) by simp_all
  let ?i = "length (concat cs1)"
  obtain m where nx: "length c = Suc m" "operand_count ops ?i = m" using at(7)[OF b(1)] at(8) by (cases "length c") simp_all
  show ?case
  proof (cases "onum c 0 = OP_MK_THK \<and> length (concat (cs1 @ [c])) < length ops \<and> onum ops (length (concat (cs1 @ [c]))) = OP_RET \<and>
      \<not> target ! length (concat (cs1 @ [c]))")
    case True
    let ?c = "c[0 := onat OP_TAILCALL]" and ?o = "ops[?i := onat OP_TAILCALL]"
    have rc: "recodes c OP_TAILCALL" using True by (simp add: recodes_def)
    have w: "wf_ops X ?o ((cs1 @ [?c]) @ cs2)" using wf_recode[OF Cons.prems(1) rc] by simp
    have "base_op ?c" using recode_ok(5)[OF at(1) rc] by (simp add: base_op_def)
    then obtain cs where cs: "wf_ops X (pass3 target (length ?o) (length (concat (cs1 @ [?c]))) ?o) cs"
        "starts cs = starts ((cs1 @ [?c]) @ cs2)" "\<forall>c \<in> set cs. base_op c"
      using Cons.IH[OF w] Cons.prems(2,3) by auto
    have "pass3 target (length ops) ?i ops = pass3 target (length ?o) (length (concat (cs1 @ [?c]))) ?o"
      using at(2,3) b(2) nx True by (subst pass3.simps) (simp add: Let_def)
    then show ?thesis using cs starts_recode[of cs1 c "onat OP_TAILCALL" cs2] by auto
  next
    case False
    obtain cs where cs: "wf_ops X (pass3 target (length ops) (length (concat (cs1 @ [c]))) ops) cs"
        "starts cs = starts ((cs1 @ [c]) @ cs2)" "\<forall>c \<in> set cs. base_op c"
      using Cons.IH[of ops "cs1 @ [c]"] Cons.prems b by auto
    have "pass3 target (length ops) ?i ops = pass3 target (length ops) (length (concat (cs1 @ [c]))) ops"
      using at(2,3) b(2) nx False by (subst pass3.simps) (auto simp: Let_def)
    then show ?thesis using cs by auto
  qed
qed

lemma numeric_recodes:
  "onum c 0 = OP_CALL_KNOWN \<Longrightarrow> recodes c (numeric_opcode idx False)"
  "onum c 0 = OP_TAILCALL \<Longrightarrow> obane c 2 = PL_BAN_PRIM_KNOWN \<Longrightarrow> recodes c (numeric_opcode idx True)"
  by (simp_all add: recodes_def numeric_opcode_def Let_def)

lemma numeric_wf:
  assumes "wf_ops X ops (cs1 @ cs2)" "\<forall>c \<in> set cs2. base_op c"
  shows "\<exists>cs. wf_ops X (numeric_specialise (length ops) (length (concat cs1)) ops) cs \<and> starts cs = starts (cs1 @ cs2)"
  using assms
proof (induction cs2 arbitrary: cs1 ops)
  case Nil
  then show ?case using wf_length[OF Nil(1)] by (subst numeric_specialise.simps) auto
next
  case (Cons c cs2)
  note at = wf_at[OF Cons.prems(1)]
  have b: "base_op c" using Cons.prems(2) by simp
  let ?i = "length (concat cs1)"
  obtain m where nx: "length c = Suc m" "operand_count ops ?i = m" using at(7)[OF b] at(8) by (cases "length c") simp_all
  have th: "onum c 0 = OP_TAILCALL \<Longrightarrow> obane ops (?i + 2) = obane c 2" using at(5)[of 2] instr_ok_length(1)[OF at(1)] by simp
  have step: ?case if rc: "recodes c op" and eq: "numeric_specialise (length ops) ?i ops =
      numeric_specialise (length ops) (length (concat (cs1 @ [c]))) (ops[?i := onat op])" for op
  proof -
    have w: "wf_ops X (ops[?i := onat op]) ((cs1 @ [c[0 := onat op]]) @ cs2)" using wf_recode[OF Cons.prems(1) rc] by simp
    show ?thesis using Cons.IH[OF w] Cons.prems(2) eq starts_recode[of cs1 c "onat op" cs2] by simp
  qed
  consider "onum c 0 = OP_CALL_KNOWN" | "onum c 0 = OP_TAILCALL" "obane c 2 = PL_BAN_PRIM_KNOWN"
    | "onum c 0 \<noteq> OP_CALL_KNOWN" "onum c 0 \<noteq> OP_TAILCALL \<or> obane c 2 \<noteq> PL_BAN_PRIM_KNOWN" by blast
  then show ?case
  proof cases
    case 1
    show ?thesis by (rule step[OF numeric_recodes(1)[OF 1, of "onum ops (?i + 2)"]], subst numeric_specialise.simps)
      (use at(2,3) nx 1 in \<open>simp add: Let_def\<close>)
  next
    case 2
    show ?thesis by (rule step[OF numeric_recodes(2)[OF 2, of "onum ops (?i + 3)"]], subst numeric_specialise.simps)
      (use at(2,3) nx 2 th in \<open>simp add: Let_def\<close>)
  next
    case 3
    have "numeric_specialise (length ops) ?i ops = numeric_specialise (length ops) (length (concat (cs1 @ [c]))) ops"
      using at(2,3) nx 3 th by (subst numeric_specialise.simps) (auto simp: Let_def)
    then show ?thesis using Cons.IH[of ops "cs1 @ [c]"] Cons.prems by simp
  qed
qed

end
