(* ===== verification/Bytecode_Safe.thy ===== *)
theory Bytecode_Safe
  imports Bytecode_Wf
begin

text \<open>
  The rewrites of \<open>bytecode_optimise\<close> keep code well-formed: the readiness analysis only reaches first words of
  instructions, the eager entries only rewrite thunk instructions the block has passed, and a rewritten thunk fills its place.
\<close>

subsection \<open>The readiness analysis stays on instructions\<close>

definition ready_inv :: "nat set \<Rightarrow> ready_state list \<times> nat list \<Rightarrow> bool" where
  "ready_inv S w \<longleftrightarrow> (\<forall>pc < length (fst w). rs_depth (fst w ! pc) \<noteq> -1 \<longrightarrow> pc \<in> S) \<and> set (snd w) \<subseteq> S \<and>
     (\<forall>pc \<in> set (snd w). pc < length (fst w))"

lemma FLOW_inv:
  assumes "ready_inv S w" "fst p \<in> S \<or> length (fst w) \<le> fst p"
  shows "ready_inv S (FLOW p w) \<and> length (fst (FLOW p w)) = length (fst w)"
proof -
  obtain pc s states queue where p: "p = (pc, s)" "w = (states, queue)" by (cases p, cases w) auto
  obtain d ch where m: "ready_merge (states ! pc) s = (d, ch)" by (cases "ready_merge (states ! pc) s") auto
  show ?thesis using assms unfolding p FLOW_def by (auto simp: ready_inv_def m nth_list_update)
qed

lemma fold_FLOW_inv:
  assumes "ready_inv S w" "\<forall>p \<in> set ps. fst p \<in> S \<or> length (fst w) \<le> fst p"
  shows "ready_inv S (fold FLOW ps w) \<and> length (fst (fold FLOW ps w)) = length (fst w)"
  using assms
proof (induction ps arbitrary: w)
  case (Cons p ps)
  have "ready_inv S (FLOW p w) \<and> length (fst (FLOW p w)) = length (fst w)" using FLOW_inv Cons.prems by simp
  then show ?case using Cons.IH[of "FLOW p w"] Cons.prems(2) by simp
qed simp

lemma instr_ok_opcodes:
  assumes "instr_ok c"
  shows "onum c 0 = 0 \<or> onum c 0 = 1 \<or> onum c 0 = 2 \<or> onum c 0 = 3 \<or> onum c 0 = 4 \<or> onum c 0 = 5 \<or> onum c 0 = 6 \<or>
     onum c 0 = 7 \<or> onum c 0 = 8 \<or> onum c 0 = 9 \<or> onum c 0 = 10 \<or> onum c 0 = 11 \<or> onum c 0 = 12 \<or> onum c 0 = 13 \<or>
     onum c 0 = 14 \<or> onum c 0 = 15 \<or> onum c 0 = 16 \<or> onum c 0 = 17 \<or> onum c 0 = 18 \<or> onum c 0 = 19 \<or> onum c 0 = 20 \<or>
     onum c 0 = 21 \<or> onum c 0 = 22 \<or> onum c 0 = 23 \<or> onum c 0 = 24 \<or> onum c 0 = 25 \<or> onum c 0 = 26 \<or> onum c 0 = 27"
proof -
  have "onum c 0 < 28" using assms by (auto simp: instr_ok_def Let_def split: if_splits)
  then show ?thesis by presburger
qed

text \<open>An instruction passes its states on to its targets or to the instruction behind it.\<close>

lemma ready_step_targets:
  assumes w: "wf_ops X ops (xs @ c # ys)" and f: "ready_step ops (length (concat xs)) s = Flow_to fs" and p: "p \<in> set fs"
  shows "fst p \<in> set (jump_targets c) \<or> fst p = length (concat xs) + length c"
proof -
  let ?i = "length (concat xs)"
  note at = wf_at[OF w]
  have w1: "onum ops (Suc ?i) = onum c 1" if "2 \<le> length c" using at(4)[of 1] that by simp
  have w2: "onum ops (Suc (Suc ?i)) = onum c 2" "obane ops (Suc (Suc ?i)) = obane c 2" if "3 \<le> length c" using at(4,5)[of 2] that by simp_all
  have br: "onum ops (Suc (Suc (?i + k))) = onum c (Suc (Suc k))" if "Suc (Suc k) < length c" for k using at(4)[of "k + 2"] that by simp
  have tg: "onum c 0 = OP_JMP \<or> onum c 0 = OP_CALL \<or> onum c 0 = OP_TAILBLK \<Longrightarrow> onum c 1 \<in> set (jump_targets c)"
    "onum c 0 = OP_BR \<Longrightarrow> Suc (Suc k) < length c \<Longrightarrow> onum c (Suc (Suc k)) \<in> set (jump_targets c)" for k
    by (auto simp: jump_targets_def)
  note fs = f[unfolded ready_step_def at(3) Let_def POP_def]
  show ?thesis
    by (insert instr_ok_opcodes[OF at(1)], elim disjE; insert fs at(1); simp add: instr_ok_def split: option.splits;
      insert p w1 w2 br tg; auto split: if_splits)
qed

lemma targets_place:
  assumes "wf_ops X ops (xs @ c # ys)" "X \<subseteq> {length ops..}" "t \<in> set (jump_targets c) \<or> t = length (concat xs) + length c"
  shows "t \<in> starts (xs @ c # ys) \<or> length ops \<le> t"
proof (cases "t \<in> set (jump_targets c)")
  case True
  then show ?thesis using assms(1,2) by (auto simp: wf_ops_def)
next
  case False
  then have t: "t = length (concat xs) + length c" using assms(3) by simp
  show ?thesis
  proof (cases ys)
    case Nil
    then show ?thesis using t assms(1) by (simp add: wf_ops_def)
  next
    case (Cons y ys')
    then show ?thesis using t by (simp add: starts_from_append)
  qed
qed

lemma ready_loop_inv:
  assumes wf: "wf_ops X ops cs" "X \<subseteq> {length ops..}"
  shows "ready_loop visits ops w = (r, states) \<Longrightarrow> ready_inv (starts cs) w \<Longrightarrow> length (fst w) = length ops \<Longrightarrow>
    length states = length ops \<and> (\<forall>pc < length states. rs_depth (states ! pc) \<noteq> -1 \<longrightarrow> pc \<in> starts cs)"
proof (induction visits arbitrary: w)
  case 0
  then show ?case by (cases w, cases "snd w") (auto simp: ready_inv_def)
next
  case (Suc visits)
  obtain st q where w: "w = (st, q)" by (cases w)
  show ?case
  proof (cases q)
    case Nil
    then show ?thesis using Suc.prems unfolding w by (auto simp: ready_inv_def)
  next
    case (Cons pc q')
    have inv: "ready_inv (starts cs) (st, q')" and pc: "pc \<in> starts cs" and l: "length st = length ops"
      using Suc.prems(2,3) unfolding w Cons by (auto simp: ready_inv_def)
    obtain xs c ys where c: "cs = xs @ c # ys" "pc = length (concat xs)" using pc by (auto simp: starts_from_iff)
    show ?thesis
    proof (cases "ready_step ops pc (st ! pc)")
      case (Flow_to fs)
      have "fst p \<in> starts cs \<or> length ops \<le> fst p" if "p \<in> set fs" for p
        using targets_place[OF wf(1)[unfolded c(1)] wf(2) ready_step_targets[OF wf(1)[unfolded c(1)] Flow_to[unfolded c(2)] that]] c(1) by simp
      then have "ready_inv (starts cs) (fold FLOW fs (st, q'))" "length (fst (fold FLOW fs (st, q'))) = length ops"
        using fold_FLOW_inv[OF inv, of fs] l by simp_all
      then show ?thesis using Suc.IH Suc.prems(1) unfolding w Cons by (simp add: Flow_to)
    qed (use Suc.prems in \<open>auto simp: w Cons ready_inv_def\<close>)
  qed
qed

lemma ready_analyse_starts:
  assumes wf: "wf_ops X (xc_ops c) cs" "X \<subseteq> {length (xc_ops c)..}" and r: "ready_analyse c lbs = (r, states)"
    and e: "xc_strict_entry c \<in> starts cs" "\<forall>b \<in> set lbs. lb_target b \<in> starts cs"
  shows "length states = length (xc_ops c) \<and> (\<forall>pc < length states. rs_depth (states ! pc) \<noteq> -1 \<longrightarrow> pc \<in> starts cs)"
proof -
  let ?w = "(replicate (length (xc_ops c)) ready_unseen, [])"
  have "0 \<in> starts cs" using wf(1) by (cases cs) (simp_all add: wf_ops_def)
  then have "\<forall>p \<in> set (ready_entries c lbs). fst p \<in> starts cs" using e by (auto simp: ready_entries_def)
  moreover have "ready_inv (starts cs) ?w" by (simp add: ready_inv_def ready_unseen_def)
  ultimately have "ready_inv (starts cs) (fold FLOW (ready_entries c lbs) ?w)" "length (fst (fold FLOW (ready_entries c lbs) ?w)) = length (xc_ops c)"
    using fold_FLOW_inv[of "starts cs" ?w "ready_entries c lbs"] by simp_all
  then show ?thesis using ready_loop_inv[OF wf] r unfolding ready_analyse_def Let_def by blast
qed

text \<open>The ready opcodes.\<close>

lemma ready_rewrite1_wf:
  assumes wf: "wf_ops X ops cs" and st: "rs_depth (states ! pc) \<noteq> -1 \<longrightarrow> pc \<in> starts cs"
  shows "\<exists>cs'. wf_ops X (ready_rewrite1 states pc ops) cs' \<and> starts cs' = starts cs"
proof (cases "rs_depth (states ! pc) < 0")
  case True
  then show ?thesis using wf by (auto simp: ready_rewrite1_def)
next
  case False
  then obtain xs c ys where c: "cs = xs @ c # ys" "pc = length (concat xs)" using st by (auto simp: starts_from_iff)
  note at = wf_at[OF wf[unfolded c(1)]]
  have b: "onum c 0 = OP_TAILCALL \<Longrightarrow> obane ops (pc + 2) = obane c 2" using at(5)[of 2] instr_ok_length(1)[OF at(1)] c(2) by simp
  have "ready_rewrite1 states pc ops = ops \<or> (\<exists>op. recodes c op \<and> ready_rewrite1 states pc ops = ops[pc := onat op])"
    using at(3) b unfolding ready_rewrite1_def Let_def c(2)[symmetric] by (auto simp: recodes_def)
  then show ?thesis
  proof (elim disjE exE conjE)
    fix op assume o: "recodes c op" "ready_rewrite1 states pc ops = ops[pc := onat op]"
    show ?thesis using wf_recode[OF wf[unfolded c(1)] o(1)] starts_recode[of xs c "onat op" ys] o(2) c by auto
  qed (use wf in auto)
qed

lemma ready_rewrite_wf:
  assumes wf: "wf_ops X ops cs" and st: "\<forall>pc < length ops. rs_depth (states ! pc) \<noteq> -1 \<longrightarrow> pc \<in> starts cs"
  shows "\<exists>cs'. wf_ops X (ready_rewrite states ops) cs' \<and> starts cs' = starts cs"
proof -
  have "\<exists>cs'. wf_ops X (fold (ready_rewrite1 states) pcs ops') cs' \<and> starts cs' = starts cs"
    if "wf_ops X ops' cs1" "starts cs1 = starts cs" "\<forall>pc \<in> set pcs. rs_depth (states ! pc) \<noteq> -1 \<longrightarrow> pc \<in> starts cs" for pcs ops' cs1
    using that
  proof (induction pcs arbitrary: ops' cs1)
    case (Cons pc pcs)
    obtain cs2 where "wf_ops X (ready_rewrite1 states pc ops') cs2" "starts cs2 = starts cs"
      using ready_rewrite1_wf[OF Cons.prems(1), of states pc] Cons.prems(2,3) by auto
    then show ?case using Cons.IH Cons.prems(3) by simp
  qed auto
  from this[OF wf refl, of "[0..<length ops]"] show ?thesis using st by (simp add: ready_rewrite_def)
qed

lemma ready_rewrite_length: "length (ready_rewrite states ops) = length ops"
proof -
  have "length (fold (ready_rewrite1 states) pcs ops') = length ops'" for pcs ops'
    by (induction pcs arbitrary: ops') (simp_all add: ready_rewrite1_def Let_def)
  then show ?thesis by (simp add: ready_rewrite_def)
qed

subsection \<open>Eager entries\<close>

text \<open>The operands remember thunk instructions of the code passed, and the operands below them.\<close>

definition slots_ok :: "nat set \<Rightarrow> eager_slot list \<Rightarrow> bool" where
  "slots_ok P sl \<longleftrightarrow> (\<forall>i < length sl. es_src (sl ! i) \<le> int i \<and> (0 \<le> es_producer (sl ! i) \<longrightarrow> nat (es_producer (sl ! i)) \<in> P))"

definition eager_inv :: "nat set \<Rightarrow> gval list list \<Rightarrow> gval list list \<Rightarrow> eager \<Rightarrow> bool" where
  "eager_inv X cs1 cs2 e \<longleftrightarrow> wf_ops X (e_ops e) (cs1 @ cs2) \<and> (\<forall>c \<in> set (cs1 @ cs2). base_op c) \<and> slots_ok (starts cs1) (e_slots e)"

text \<open>The code passed, refined in place.\<close>

definition refines_code :: "gval list list \<Rightarrow> gval list list \<Rightarrow> bool" where
  "refines_code cs cs' \<longleftrightarrow> length (concat cs') = length (concat cs) \<and> starts cs \<subseteq> starts cs'"

lemma refines_refl [simp]: "refines_code cs cs"
  by (simp add: refines_code_def)

lemma refines_trans: "refines_code a b \<Longrightarrow> refines_code b c \<Longrightarrow> refines_code a c"
  by (auto simp: refines_code_def)

lemma refines_append: "refines_code a b \<Longrightarrow> refines_code (a @ ys) (b @ ys)"
  by (auto simp: refines_code_def starts_from_append)

lemma slots_mono: "slots_ok P sl \<Longrightarrow> P \<subseteq> Q \<Longrightarrow> slots_ok Q sl"
  by (auto simp: slots_ok_def)

lemma slot_source_less: "slots_ok P sl \<Longrightarrow> i < length sl \<Longrightarrow> slot_source sl i \<le> i"
  by (auto simp: slots_ok_def slot_source_def)

lemma slots_push: "slots_ok P sl \<Longrightarrow> es_src s \<le> int (length sl) \<Longrightarrow> (0 \<le> es_producer s \<longrightarrow> nat (es_producer s) \<in> P) \<Longrightarrow> slots_ok P (sl @ [s])"
  by (auto simp: slots_ok_def nth_append less_Suc_eq)

lemma slots_take: "slots_ok P sl \<Longrightarrow> slots_ok P (take k sl)"
  by (auto simp: slots_ok_def)

text \<open>An instruction split in two: the second half is no target of anything yet.\<close>

lemma wf_split:
  assumes wf: "wf_ops X ops (xs @ c # ys)" and c: "\<not> is_ret c" "c' \<noteq> []" "length (concat c') = length c"
    and ok: "\<forall>d \<in> set c'. instr_ok d \<and> jump_targets d = []" "hd c' \<noteq> []"
  shows "wf_ops X (concat (xs @ c' @ ys)) (xs @ c' @ ys)" "refines_code (xs @ [c]) (xs @ c')"
proof -
  have ne: "ys \<noteq> []" using wf c(1) by (auto simp: wf_ops_def)
  show r: "refines_code (xs @ [c]) (xs @ c')"
    using c(2,3) by (cases c') (auto simp: refines_code_def starts_from_append)
  have s: "starts (xs @ c # ys) \<subseteq> starts (xs @ c' @ ys)" using refines_append[OF r, of ys] by (simp add: refines_code_def)
  have "\<forall>d \<in> set (xs @ ys). instr_ok d \<and> set (jump_targets d) \<subseteq> starts (xs @ c # ys) \<union> X" using wf by (simp add: wf_ops_def)
  then have all: "\<forall>d \<in> set (xs @ c' @ ys). instr_ok d \<and> set (jump_targets d) \<subseteq> starts (xs @ c' @ ys) \<union> X" using s ok(1) by fastforce
  have "is_ret (last (xs @ c' @ ys))" using wf ne by (simp add: wf_ops_def)
  then show "wf_ops X (concat (xs @ c' @ ys)) (xs @ c' @ ys)" using all ne unfolding wf_ops_def by blast
qed

text \<open>The instructions that a thunk instruction turns into.\<close>

definition eager_code :: "gval list \<Rightarrow> gval list list" where
  "eager_code c =
     (if obane c 2 = PL_BAN_PRIM_KNOWN then [[onat OP_CALL_KNOWN, c ! 1, c ! 3, c ! 4], [onat OP_NOP]]
      else [[onat OP_CALL_FAST, onat (onum c 1 - 1),
        if obane c 2 = PL_BAN_FAST then GNat (Direct (drop_bit 8 (case gval_nat63 (c ! 2) of Some w \<Rightarrow> w | None \<Rightarrow> 0))) else gzero]])"

lemma eager_apply_code:
  assumes wf: "wf_ops X ops (xs @ c # ys)" and a: "eager_apply (length (concat xs)) ops = Some ops'"
  shows "onum c 0 = OP_MK_THK" "ops' = concat (xs @ eager_code c @ ys)"
proof -
  let ?i = "length (concat xs)"
  note at = wf_at[OF wf]
  show t: "onum c 0 = OP_MK_THK" using a at(3) by (auto simp: eager_apply_def Let_def split: if_splits)
  have l: "2 < length c" using instr_ok_length(1)[OF at(1)] t by simp
  have o: "ops = concat (xs @ c # ys)" using wf by (simp add: wf_ops_def)
  show "ops' = concat (xs @ eager_code c @ ys)"
  proof (cases "obane c 2 = PL_BAN_PRIM_KNOWN")
    case True
    then have l5: "length c = 5" using at(1) t by (simp add: instr_ok_def)
    then obtain c0 c1 c2 c3 c4 where c: "c = [c0, c1, c2, c3, c4]"
      by (auto simp: numeral_eq_Suc length_Suc_conv)
    have b: "obane ops (?i + 2) = PL_BAN_PRIM_KNOWN" using at(5)[of 2] l5 True by simp
    have w: "oword ops (?i + 3) = c3" "oword ops (?i + 4) = c4" using at(6)[of 3] at(6)[of 4] c by (simp_all add: oword_def)
    have "ops' = ops[?i := onat OP_CALL_KNOWN, ?i + 2 := c3, ?i + 3 := c4, ?i + 4 := onat OP_NOP]"
      using a unfolding eager_apply_def Let_def at(3) b w t by (simp add: PL_BAN_PRIM_KNOWN_def PL_BAN_FAST_def PL_BAN_SLOW_def)
    then show ?thesis using True by (simp add: eager_code_def c o list_update_append)
  next
    case False
    then have "length c = 3" using at(1) t by (auto simp: instr_ok_def split: if_splits)
    then obtain c0 c1 c2 where c: "c = [c0, c1, c2]"
      by (auto simp: numeral_eq_Suc length_Suc_conv)
    have b: "obane ops (?i + 2) = obane c 2" "oword ops (?i + 2) = c2" "onum ops (?i + 1) = onum c 1"
      using at(4)[of 1] at(5,6)[of 2] c by (simp_all add: oword_def)
    have "ops' = ops[?i := onat OP_CALL_FAST, ?i + 1 := onat (onum c 1 - 1),
        ?i + 2 := if obane c 2 = PL_BAN_FAST then GNat (Direct (drop_bit 8 (case gval_nat63 c2 of Some w \<Rightarrow> w | None \<Rightarrow> 0))) else gzero]"
      using a False unfolding eager_apply_def Let_def at(3) b t by (auto split: if_splits)
    then show ?thesis using False by (simp add: eager_code_def c o list_update_append)
  qed
qed

lemma eager_code_ok:
  assumes ok: "instr_ok c" "onum c 0 = OP_MK_THK"
  shows "\<forall>d \<in> set (eager_code c). instr_ok d \<and> jump_targets d = [] \<and> base_op d" "length (concat (eager_code c)) = length c"
proof -
  have "(\<forall>d \<in> set (eager_code c). instr_ok d \<and> jump_targets d = [] \<and> base_op d) \<and> length (concat (eager_code c)) = length c"
  proof (cases "obane c 2 = PL_BAN_PRIM_KNOWN")
    case True
    then have l: "length c = 5" "is_num c 3" "onum c 3 < pl_nops" using ok by (simp_all add: instr_ok_def)
    then obtain c0 c1 c2 c3 c4 where c: "c = [c0, c1, c2, c3, c4]"
      by (auto simp: numeral_eq_Suc length_Suc_conv)
    show ?thesis using l True
      by (simp add: eager_code_def instr_ok_def jump_targets_def base_op_def onum_def oword_def is_num_def c)
  next
    case False
    then have l: "length c = 3" using ok by (auto simp: instr_ok_def split: if_splits)
    show ?thesis using l False
      by (simp add: eager_code_def instr_ok_def jump_targets_def base_op_def onum_def oword_def is_num_def)
  qed
  then show "\<forall>d \<in> set (eager_code c). instr_ok d \<and> jump_targets d = [] \<and> base_op d" "length (concat (eager_code c)) = length c" by simp_all
qed

text \<open>A thunk instruction of the code passed, entered eagerly.\<close>

lemma eager_apply_inv:
  assumes inv: "eager_inv X cs1 cs2 e" and p: "p \<in> starts cs1" and a: "eager_apply p (e_ops e) = Some ops'"
  shows "\<exists>cs1'. wf_ops X ops' (cs1' @ cs2) \<and> (\<forall>c \<in> set (cs1' @ cs2). base_op c) \<and> refines_code cs1 cs1'"
proof -
  obtain xs c ys where c: "cs1 = xs @ c # ys" "p = length (concat xs)" using p by (auto simp: starts_from_iff)
  have wf: "wf_ops X (e_ops e) (xs @ c # (ys @ cs2))" and b: "\<forall>c \<in> set (cs1 @ cs2). base_op c" using inv c by (simp_all add: eager_inv_def)
  note ac = eager_apply_code[OF wf a[unfolded c(2)]]
  note ok = eager_code_ok[OF wf_at(1)[OF wf] ac(1)]
  have nr: "\<not> is_ret c" using ac(1) by (simp add: is_ret_def)
  have ne: "eager_code c \<noteq> []" "hd (eager_code c) \<noteq> []" by (simp_all add: eager_code_def)
  note sp = wf_split[OF wf nr ne(1) ok(2) _ ne(2)]
  have "wf_ops X ops' ((xs @ eager_code c @ ys) @ cs2)" using sp(1) ok(1) ac(2) by simp
  moreover have "refines_code cs1 (xs @ eager_code c @ ys)" using refines_append[OF sp(2), of ys] ok(1) c(1) by simp
  moreover have "\<forall>d \<in> set ((xs @ eager_code c @ ys) @ cs2). base_op d" using ok(1) b c(1) by auto
  ultimately show ?thesis by blast
qed

lemma eager_consume_inv:
  assumes "eager_inv X cs1 cs2 e" "\<forall>k \<in> set ks. base + k < length (e_slots e)"
  shows "\<exists>cs1'. eager_inv X cs1' cs2 (eager_consume base strict ks e) \<and> refines_code cs1 cs1'"
  using assms
proof (induction ks arbitrary: cs1 e)
  case (Cons k ks)
  let ?si = "slot_source (e_slots e) (base + k)"
  let ?p = "es_producer (e_slots e ! ?si)"
  have same: "\<exists>cs1'. eager_inv X cs1' cs2 e \<and> refines_code cs1 cs1'"
    "\<exists>cs1'. eager_inv X cs1' cs2 (eager_consume base strict ks e) \<and> refines_code cs1 cs1'"
    using Cons.prems Cons.IH by auto
  have so: "slots_ok (starts cs1) (e_slots e)" using Cons.prems(1) by (simp add: eager_inv_def)
  have si: "?si < length (e_slots e)" using slot_source_less[OF so, of "base + k"] Cons.prems(2) by simp
  have app: "\<exists>cs1'. eager_inv X cs1' cs2 (eager_consume base strict ks e') \<and> refines_code cs1 cs1'"
    if "0 \<le> ?p" "eager_apply (nat ?p) (e_ops e) = Some ops'"
      and e': "e_ops e' = ops'" "e_slots e' = (e_slots e)[?si := (e_slots e ! ?si)\<lparr>es_producer := -1, es_whnf := True, es_eval_pc := q\<rparr>]"
    for ops' e' q
  proof -
    have "nat ?p \<in> starts cs1" using so si that(1) by (simp add: slots_ok_def)
    from eager_apply_inv[OF Cons.prems(1) this that(2)]
    obtain cs' where cs': "wf_ops X ops' (cs' @ cs2)" "\<forall>c \<in> set (cs' @ cs2). base_op c" "refines_code cs1 cs'" by blast
    have sm: "slots_ok (starts cs') (e_slots e)" by (rule slots_mono[OF so]) (use cs'(3) in \<open>simp add: refines_code_def\<close>)
    then have "slots_ok (starts cs') (e_slots e')" using si by (simp add: slots_ok_def e' nth_list_update)
    then have "eager_inv X cs' cs2 e'" using cs' e' by (simp add: eager_inv_def)
    then show ?thesis using Cons.IH[of cs' e'] Cons.prems(2) cs'(3) refines_trans by (auto simp: e')
  qed
  show ?case
  proof (cases "bit strict k \<and> \<not> es_whnf (e_slots e ! ?si) \<and> \<not> (?p < 0 \<or> ?p \<le> e_impure e)")
    case False
    then show ?thesis using same by (auto simp: Let_def)
  next
    case True
    then show ?thesis using same app unfolding eager_consume.simps Let_def
      by (cases "eager_apply (nat ?p) (e_ops e)") simp_all
  qed
qed auto

lemma eager_args_inv:
  assumes "eager_inv X cs1 cs2 e"
  shows "\<exists>cs1'. eager_inv X cs1' cs2 (eager_args argc strict e) \<and> refines_code cs1 cs1'"
proof (cases "e_live e \<and> argc \<le> length (e_slots e)")
  case True
  then have "\<forall>k \<in> set [0..<min argc 32]. length (e_slots e) - argc + k < length (e_slots e)" by auto
  from eager_consume_inv[OF assms this, of strict] show ?thesis using True by (simp add: eager_args_def)
next
  case False
  then show ?thesis using assms by (auto simp: eager_args_def)
qed

lemma eager_call_inv:
  assumes "eager_call_consume I m nargs e = Inr e'" "eager_inv X cs1 cs2 e"
  shows "\<exists>cs1'. eager_inv X cs1' cs2 e' \<and> refines_code cs1 cs1'"
proof -
  obtain strict where "e' = e \<or> e' = eager_args nargs strict e"
    using assms(1) by (auto simp: eager_call_consume_def res_simps split: if_splits)
  then show ?thesis using eager_args_inv[OF assms(2)] assms(2) by auto
qed

lemma eager_pass:
  assumes "eager_inv X cs1 (c # cs2) e"
  shows "eager_inv X (cs1 @ [c]) cs2 e"
proof -
  have "starts cs1 \<subseteq> starts (cs1 @ [c])" by (auto simp: starts_from_append)
  then show ?thesis using assms slots_mono unfolding eager_inv_def by auto
qed

lemma EPUSH_inv:
  "eager_inv X cs1 cs2 e \<Longrightarrow> es_src s \<le> int (length (e_slots e)) \<Longrightarrow> (0 \<le> es_producer s \<longrightarrow> nat (es_producer s) \<in> starts cs1) \<Longrightarrow>
    eager_inv X cs1 cs2 (EPUSH s e)"
  by (simp add: EPUSH_def eager_inv_def slots_push)

lemma EPUSH_value: "eager_inv X cs1 cs2 e \<Longrightarrow> es_src s = -1 \<Longrightarrow> es_producer s = -1 \<Longrightarrow> eager_inv X cs1 cs2 (EPUSH s e)"
  by (rule EPUSH_inv) simp_all

lemma EPOP_inv: "eager_inv X cs1 cs2 e \<Longrightarrow> eager_inv X cs1 cs2 (EPOP k e)"
  by (simp add: EPOP_def eager_inv_def slots_take)

lemma eager_value_inv: "eager_inv X cs1 cs2 e \<Longrightarrow> eager_inv X cs1 cs2 (eager_value k pc e)"
  using EPUSH_value[OF EPOP_inv, of X cs1 cs2 e "eager_unknown\<lparr>es_whnf := True\<rparr>" k]
  by (simp add: eager_value_def eager_unknown_def eager_inv_def)

lemma eager_push_slot_inv:
  assumes "eager_inv X cs1 cs2 e"
  shows "eager_inv X cs1 cs2 (eager_push_slot k e)"
proof (cases "e_live e \<and> k < length (e_slots e)")
  case True
  then have "slot_source (e_slots e) k \<le> length (e_slots e)"
    using slot_source_less[of "starts cs1" "e_slots e" k] assms by (simp add: eager_inv_def)
  then show ?thesis using True EPUSH_inv[OF assms] by (simp add: eager_push_slot_def Let_def)
next
  case False
  then show ?thesis using assms by (auto simp: eager_push_slot_def eager_inv_def)
qed

lemma eager_start_inv [simp]: "eager_inv X cs1 cs2 (e\<lparr>e_start := b\<rparr>) = eager_inv X cs1 cs2 e"
  by (simp add: eager_inv_def)

lemma eager_begin_inv: "eager_inv X cs1 cs2 e \<Longrightarrow> eager_inv X cs1 cs2 (eager_begin s e)"
  by (simp add: eager_inv_def eager_begin_def slots_ok_def eager_unknown_def Let_def)

lemma eager_step_inv:
  assumes inv: "eager_inv X cs1 (c # cs2) e" and st: "eager_step I m states (length (concat cs1)) e = Inr (Some e')"
  shows "\<exists>cs1'. eager_inv X (cs1' @ [c]) cs2 e' \<and> refines_code cs1 cs1'"
proof -
  note ps = eager_pass[OF inv]
  define Q where "Q = (\<lambda>e'. \<exists>cs1'. eager_inv X (cs1' @ [c]) cs2 e' \<and> refines_code cs1 cs1')"
  have keep: "eager_inv X (cs1 @ [c]) cs2 e' \<Longrightarrow> Q e'" for e' unfolding Q_def by auto
  have call: "Q (eager_value k pc e1)" "Q (e1\<lparr>e_start := True\<rparr>)" if "eager_inv X cs1' (c # cs2) e1" "refines_code cs1 cs1'" for cs1' e1 k pc
    unfolding Q_def using that(2) eager_pass[OF that(1)] eager_value_inv[OF eager_pass[OF that(1)]] by auto
  have args: "Q (eager_value k pc (eager_args argc strict e))" "Q ((eager_args argc strict e)\<lparr>e_start := True\<rparr>)" for k pc argc strict
    using eager_args_inv[OF inv, of argc strict] call by blast+
  have cc: "Q (eager_value k pc e1)" "Q (e1\<lparr>e_start := True\<rparr>)" if "eager_call_consume I m n e = Inr e1" for n e1 k pc
    using eager_call_inv[OF that(1) inv] call by blast+
  have val: "Q (eager_value k pc e)" for k pc using keep eager_value_inv[OF ps] by blast
  have push: "es_src s = -1 \<Longrightarrow> es_producer s = -1 \<Longrightarrow> Q (EPUSH s e)" for s using keep EPUSH_value[OF ps] by blast
  have pop: "es_src s = -1 \<Longrightarrow> es_producer s = -1 \<or> es_producer s = int (length (concat cs1)) \<Longrightarrow> Q (EPUSH s (EPOP k e))" for s k
    by (rule keep, rule EPUSH_inv[OF EPOP_inv[OF ps]]) (auto simp: starts_from_append)
  have slot: "Q (eager_push_slot k e)" for k using keep eager_push_slot_inv[OF ps] by blast
  have nop: "Q e" "Q (e\<lparr>e_start := True\<rparr>)" using keep ps by auto
  have "Q e'" using st nop(1) unfolding eager_step_def Let_def
    by (auto simp: res_simps eager_unknown_def args val push pop slot nop(2) split: if_splits intro: cc)
  then show ?thesis by (simp add: Q_def)
qed

lemma eager_loop_inv:
  assumes "eager_inv X cs1 cs2 e" "eager_loop I m states target n (length (concat cs1)) e = Inr e'" "n = length (e_ops e)"
  shows "\<exists>cs. wf_ops X (e_ops e') cs \<and> (\<forall>c \<in> set cs. base_op c) \<and> refines_code (cs1 @ cs2) cs"
  using assms
proof (induction cs2 arbitrary: cs1 e)
  case Nil
  then have "e' = e" using wf_length[of X "e_ops e" cs1] by (simp add: eager_inv_def eager_loop.simps)
  then show ?case using Nil(1) by (auto simp: eager_inv_def)
next
  case (Cons c cs2)
  let ?pc = "length (concat cs1)"
  define e1 where "e1 = (if e_start e \<or> target ! ?pc then eager_begin (states ! ?pc) e else e)"
  have i1: "eager_inv X cs1 (c # cs2) e1" using Cons.prems(1) eager_begin_inv by (simp add: e1_def)
  have o1: "e_ops e1 = e_ops e" by (simp add: e1_def eager_begin_def Let_def)
  have wf: "wf_ops X (e_ops e) (cs1 @ c # cs2)" and b: "base_op c" using Cons.prems(1) by (simp_all add: eager_inv_def)
  note at = wf_at[OF wf]
  obtain l where nx: "length c = Suc l" "operand_count (e_ops e1) ?pc = l" using at(7)[OF b] at(8) o1 by (cases "length c") simp_all
  have "(case eager_step I m states ?pc e1 of Inl f \<Rightarrow> Inl f | Inr None \<Rightarrow> Inr e1
      | Inr (Some e2) \<Rightarrow> eager_loop I m states target n (Suc (?pc + operand_count (e_ops e1) ?pc)) e2) = Inr e'"
    using Cons.prems(2) at(2) Cons.prems(3) by (subst (asm) eager_loop.simps) (simp add: Let_def flip: e1_def)
  then have step: "(case eager_step I m states ?pc e1 of Inl f \<Rightarrow> Inl f | Inr None \<Rightarrow> Inr e1
      | Inr (Some e2) \<Rightarrow> eager_loop I m states target n (?pc + length c) e2) = Inr e'"
    unfolding nx add_Suc_right .
  show ?case
  proof (cases "eager_step I m states ?pc e1")
    case (Inr r)
    show ?thesis
    proof (cases r)
      case None
      then have "e_ops e' = e_ops e" using step Inr o1 by auto
      then show ?thesis using wf Cons.prems(1) by (auto simp: eager_inv_def intro!: exI[of _ "cs1 @ c # cs2"])
    next
      case (Some e2)
      obtain cs1' where c1: "eager_inv X (cs1' @ [c]) cs2 e2" "refines_code cs1 cs1'" using eager_step_inv[OF i1] Inr Some by blast
      have l: "length (concat (cs1' @ [c])) = ?pc + length c" using c1(2) by (simp add: refines_code_def)
      have n: "n = length (e_ops e2)"
        using wf_length[of X "e_ops e2" "(cs1' @ [c]) @ cs2"] wf_length[OF wf] c1 Cons.prems(3) by (simp add: eager_inv_def refines_code_def)
      have "eager_loop I m states target n (length (concat (cs1' @ [c]))) e2 = Inr e'" using step Inr Some unfolding l by simp
      from Cons.IH[OF c1(1) this n] obtain cs where "wf_ops X (e_ops e') cs" "\<forall>c \<in> set cs. base_op c" "refines_code ((cs1' @ [c]) @ cs2) cs" by blast
      moreover have "refines_code (cs1 @ c # cs2) ((cs1' @ [c]) @ cs2)" using refines_append[OF c1(2), of "c # cs2"] by simp
      ultimately show ?thesis using refines_trans by blast
    qed
  qed (use step in simp)
qed

lemma eager_rewrite_wf:
  assumes "eager_rewrite I m states target ops = Inr (ops', ch)" "wf_ops X ops cs" "\<forall>c \<in> set cs. base_op c"
  shows "\<exists>cs'. wf_ops X ops' cs' \<and> (\<forall>c \<in> set cs'. base_op c) \<and> refines_code cs cs'"
proof -
  define e0 where "e0 = \<lparr>e_ops = ops, e_slots = [], e_live = False, e_impure = -1, e_changed = False, e_start = True\<rparr>"
  obtain e' where e: "eager_loop I m states target (length ops) (length (concat ([] :: gval list list))) e0 = Inr e'" "ops' = e_ops e'"
    using assms(1) unfolding eager_rewrite_def e0_def[symmetric] by (auto simp: res_simps)
  have "eager_inv X [] cs e0" "length ops = length (e_ops e0)" using assms(2,3) by (simp_all add: eager_inv_def slots_ok_def e0_def)
  from eager_loop_inv[OF this(1) e(1) this(2)] show ?thesis unfolding e(2) by simp
qed

lemma eager_rounds_wf:
  assumes "eager_rounds r I lbs target c = Inr (res, c')" "wf_ops X (xc_ops c) cs" "\<forall>d \<in> set cs. base_op d"
  shows "\<exists>cs'. wf_ops X (xc_ops c') cs' \<and> (\<forall>d \<in> set cs'. base_op d) \<and> refines_code cs cs' \<and> xc_strict_entry c' = xc_strict_entry c"
  using assms
proof (induction r arbitrary: c cs)
  case (Suc r)
  obtain res0 states where ra: "ready_analyse c lbs = (res0, states)" by (cases "ready_analyse c lbs")
  show ?case
  proof (cases "res0 = READY_OK")
    case True
    then obtain ops ch where o: "eager_rewrite I (xc_strict_mask c) states target (xc_ops c) = Inr (ops, ch)"
        "(if ch then eager_rounds r I lbs target (c\<lparr>xc_ops := ops\<rparr>) else Inr (READY_OK, c\<lparr>xc_ops := ops\<rparr>)) = Inr (res, c')"
      using Suc.prems(1) by (auto simp: ra res_simps)
    obtain cs1 where c1: "wf_ops X ops cs1" "\<forall>d \<in> set cs1. base_op d" "refines_code cs cs1"
      using eager_rewrite_wf[OF o(1) Suc.prems(2,3)] by blast
    show ?thesis
    proof (cases ch)
      case True
      have "\<exists>cs'. wf_ops X (xc_ops c') cs' \<and> (\<forall>d \<in> set cs'. base_op d) \<and> refines_code cs1 cs' \<and> xc_strict_entry c' = xc_strict_entry (c\<lparr>xc_ops := ops\<rparr>)"
        by (rule Suc.IH) (use o(2) True c1 in simp_all)
      then show ?thesis using refines_trans[OF c1(3)] by auto
    next
      case False
      then show ?thesis using o(2) c1 by auto
    qed
  next
    case False
    then show ?thesis using Suc.prems by (auto simp: ra)
  qed
qed auto

lemma wf_progI:
  "wf_ops X (xc_ops c) cs \<Longrightarrow> xc_strict_entry c \<in> starts cs \<Longrightarrow> \<forall>b \<in> set lbs. lb_target b \<in> starts cs \<Longrightarrow> wf_prog X c lbs"
  by (auto simp: wf_prog_def)

lemma numeric_length: "length (numeric_specialise n i ops) = length ops"
proof (induction n i ops rule: numeric_specialise.induct)
  case (1 n i ops)
  show ?case
  proof (cases "i < n")
    case True
    from 1[OF True refl refl] show ?thesis using True by (subst numeric_specialise.simps) (simp add: Let_def)
  next
    case False
    then show ?thesis by (subst numeric_specialise.simps) simp
  qed
qed

lemma bytecode_optimise_wf:
  assumes o: "bytecode_optimise I lbs target c = Inr (Some c')" and wf: "wf_ops X (xc_ops c) cs" "\<forall>d \<in> set cs. base_op d"
    and X: "X \<subseteq> {length (xc_ops c)..}" and e: "xc_strict_entry c \<in> starts cs" "\<forall>b \<in> set lbs. lb_target b \<in> starts cs"
  shows "wf_prog X c' lbs \<and> length (xc_ops c') = length (xc_ops c)"
proof (cases "length (xc_ops c) = 0 \<or> 16384 < length (xc_ops c)")
  case True
  then show ?thesis using o wf_progI[OF wf(1) e] by (simp add: bytecode_optimise_def)
next
  case False
  then obtain res c1 where r: "eager_rounds 64 I lbs target c = Inr (res, c1)"
    using o by (auto simp: bytecode_optimise_def res_simps)
  then obtain cs1 where c1: "wf_ops X (xc_ops c1) cs1" "\<forall>d \<in> set cs1. base_op d" "refines_code cs cs1" "xc_strict_entry c1 = xc_strict_entry c"
    using eager_rounds_wf[OF r wf] by blast
  have e1: "xc_strict_entry c \<in> starts cs1" and e2: "\<forall>b \<in> set lbs. lb_target b \<in> starts cs1" using e c1(3) by (auto simp: refines_code_def)
  let ?n = "length (xc_ops c)"
  define c2 where "c2 = c1\<lparr>xc_ops := numeric_specialise ?n 0 (xc_ops c1)\<rparr>"
  obtain res2 states where ra: "ready_analyse c2 lbs = (res2, states)" by (cases "ready_analyse c2 lbs")
  have c': "c' = c1 \<or> c' = c2 \<or> c' = c2\<lparr>xc_ops := ready_rewrite states (xc_ops c2)\<rparr>"
    using o False ra by (auto simp: bytecode_optimise_def r c2_def Let_def split: if_splits)
  have n: "?n = length (xc_ops c1)" using c1(3) wf_length[OF wf(1)] wf_length[OF c1(1)] by (simp add: refines_code_def)
  obtain cs2 where c2: "wf_ops X (xc_ops c2) cs2" "starts cs2 = starts cs1"
    using numeric_wf[of X "xc_ops c1" "[]" cs1] c1(1,2) n by (auto simp: c2_def)
  have l2: "length (xc_ops c2) = ?n" by (simp add: c2_def n numeric_length)
  have en: "xc_strict_entry c2 = xc_strict_entry c" using c1(4) by (simp add: c2_def)
  have "length states = length (xc_ops c2) \<and> (\<forall>pc < length states. rs_depth (states ! pc) \<noteq> -1 \<longrightarrow> pc \<in> starts cs2)"
    by (rule ready_analyse_starts[OF c2(1) _ ra]) (use X l2 e1 e2 c2(2) en in simp_all)
  then obtain cs3 where "wf_ops X (ready_rewrite states (xc_ops c2)) cs3" "starts cs3 = starts cs2"
    using ready_rewrite_wf[OF c2(1), of states] by auto
  then show ?thesis using c' c1(1) c2 e1 e2 c1(4) en n l2 by (auto intro!: wf_progI simp: ready_rewrite_length)
qed

subsection \<open>The decoder\<close>

lemma pass3_length: "length (pass3 target n i ops) = length ops"
proof (induction target n i ops rule: pass3.induct)
  case (1 target n i ops)
  show ?case
  proof (cases "i < n")
    case True
    from 1[OF True refl] show ?thesis using True by (subst pass3.simps) (simp add: Let_def)
  next
    case False
    then show ?thesis by (subst pass3.simps) simp
  qed
qed

lemma decoder_stages:
  assumes "pl_bytecode_from_val M I (GApp a) = Inr (c, lbs)" "app_at (in_heap I) a = Inr (need, head, row)"
  obtains d d2 c0 where "pass1 (in_heap I) (dec_init row) = Inr d" "dir_strip M (in_heap I) d = Inr (d2, lbs)" "pass2 d2 = Inr ()"
    "xc_ops c0 = pass3 (d_target d2) (length (d_ops d2)) 0 (d_ops d2)" "xc_strict_entry c0 = d_entry d2"
    "bytecode_optimise I lbs (d_target d2) c0 = Inr (Some c)"
proof -
  obtain d d2 where d: "pass1 (in_heap I) (dec_init row) = Inr d" "dir_strip M (in_heap I) d = Inr (d2, lbs)" "pass2 d2 = Inr ()"
      "bytecode_optimise I lbs (d_target d2) \<lparr>xc_ops = pass3 (d_target d2) (length (d_ops d2)) 0 (d_ops d2), xc_strict_mask = d_mask d2,
         xc_strict_entry = d_entry d2, xc_max_var = d_max_var d2, xc_arity = 0\<rparr> = Inr (Some c)"
    using assms by (auto simp: pl_bytecode_from_val_def Let_def res_simps split: option.splits)
  show thesis by (rule that[OF d(1-3) _ _ d(4)]) simp_all
qed

lemma decoder_result:
  assumes "pl_bytecode_from_val M I (GApp a) = Inr (c, lbs)" "app_at (in_heap I) a = Inr (need, head, row)"
  shows "wf_prog {length (xc_ops c)..<length row} c lbs"
proof -
  obtain d d2 c0 where d: "pass1 (in_heap I) (dec_init row) = Inr d" "dir_strip M (in_heap I) d = Inr (d2, lbs)" "pass2 d2 = Inr ()"
    and c0: "xc_ops c0 = pass3 (d_target d2) (length (d_ops d2)) 0 (d_ops d2)" "xc_strict_entry c0 = d_entry d2"
      "bytecode_optimise I lbs (d_target d2) c0 = Inr (Some c)"
    by (rule decoder_stages[OF assms])
  obtain cs es where p: "pass1_inv cs es d" "d_i d = length (d_ops d)" "length (d_ops d) = length row"
    using pass1_ok[OF d(1) pass1_inv_init] by (auto simp: dec_init_def)
  let ?X = "{length (d_ops d2)..<length (d_ops d)}"
  have w: "wf_ops ?X (d_ops d2) cs" "\<forall>c \<in> set cs. base_op c \<and> onum c 0 \<noteq> OP_TAILCALL" "d_entry d2 \<in> starts cs" "\<forall>b \<in> set lbs. lb_target b \<in> starts cs"
    using row_wf[OF p(1,2) d(2,3)] by blast+
  obtain cs1 where w1: "wf_ops ?X (xc_ops c0) cs1" "starts cs1 = starts cs" "\<forall>c \<in> set cs1. base_op c"
    using pass3_wf[of ?X "d_ops d2" "[]" cs "d_target d2"] w(1,2) c0(1) by auto
  have l: "length (xc_ops c0) = length (d_ops d2)" by (simp add: c0(1) pass3_length)
  have "wf_prog ?X c lbs \<and> length (xc_ops c) = length (xc_ops c0)"
    by (rule bytecode_optimise_wf[OF c0(3) w1(1,3)]) (use w(3,4) w1(2) c0(2) l in auto)
  then show ?thesis using l p(3) by simp
qed

text \<open>
  C8. What the decoder accepts is well-formed, through all the rewrites: its words split into known instructions with
  their operands, operation indices within the table; the last one returns; the entries of the code and of the law blocks are first words of
  instructions, and so is every jump target below the end of the code. The range left open is that of the directory
  that was cut off behind the code; without a directory it is empty.
\<close>

theorem decoder_wf:
  assumes "pl_bytecode_from_val M I (GApp a) = Inr (c, lbs)" "app_at (in_heap I) a = Inr (need, head, row)"
  shows "wf_prog {length (xc_ops c)..<length row} c lbs"
  by (rule decoder_result[OF assms])

text \<open>Evaluation of the passes on concrete rows.\<close>

lemma gval_onat: "gval_nat63 (onat n) = Some (word_of_nat n)"
  by (simp add: onat_def)

lemmas dec_eval = pass1.simps pass1_step_def dec_instr_def dec_defs Let_def opw_def dec_skip_def dec_room_def dec_argc_def
  MARK_TARGET_def gval_onat onum_onat dec_init_def oword_def law_at_def hget_def dk_def UINT32_MAX_def

definition ret_row :: "gval list" where
  "ret_row = [onat OP_PUSH_LIT, onat 1, onat OP_FORCE, onat OP_RET, onat OP_LAWBLK, GLaw 0, onat 0]"

definition row_in :: "gval list \<Rightarrow> ingest" where
  "row_in row = \<lparr>in_heap = [K_LAW False 0 gzero gzero, K_APP False 0 gzero row], in_demand = \<lambda>v. None\<rparr>"

lemma ret_pass1:
  "pass1 (in_heap (row_in ret_row)) (dec_init ret_row) = Inr \<lparr>d_ops = ret_row, d_i = 7,
     d_starts = [True, False, True, True, True, False, False], d_target = [True, False, False, False, False, False, False],
     d_dir_at = Some 4, d_dir = [\<lparr>lb_law = GLaw 0, lb_target = 0, lb_arity = 0\<rparr>], d_lits = [], d_max_var = 0, d_mask = 0,
     d_entry = 0, d_last = OP_RET\<rparr>"
  by (simp add: dec_eval ret_row_def row_in_def onat_def unum_def)

text \<open>The decoder behind pass 1.\<close>

definition dec_rest :: "mpn_api \<Rightarrow> ingest \<Rightarrow> dec \<Rightarrow> (pl_code \<times> pl_lawblk list) dres" where
  "dec_rest M I d = rbind (dir_strip M (in_heap I) d) (\<lambda>(d, lbs). rbind (pass2 d) (\<lambda>_.
     rbind (bytecode_optimise I lbs (d_target d) \<lparr>xc_ops = pass3 (d_target d) (length (d_ops d)) 0 (d_ops d), xc_strict_mask = d_mask d,
         xc_strict_entry = d_entry d, xc_max_var = d_max_var d, xc_arity = 0\<rparr>)
       (\<lambda>r. case r of None \<Rightarrow> Inl (Dec_fail ''operand stack underflow'') | Some c \<Rightarrow> Inr (c, lbs))))"

lemma from_val_rest:
  "app_at (in_heap I) a = Inr (need, head, row) \<Longrightarrow> pass1 (in_heap I) (dec_init row) = Inr d \<Longrightarrow>
    pl_bytecode_from_val M I (GApp a) = dec_rest M I d"
  by (simp add: pl_bytecode_from_val_def dec_rest_def Let_def dk_def)

lemma row_in_at: "app_at (in_heap (row_in row)) 1 = Inr (0, gzero, row)"
  by (simp add: row_in_def app_at_def hget_def)

lemma ret_decodes:
  "pl_bytecode_from_val M (row_in ret_row) (GApp 1) =
     Inr (\<lparr>xc_ops = [onat OP_PUSH_LIT, onat 1, onat OP_FORCE_READY, onat OP_RET_READY], xc_strict_mask = 0, xc_strict_entry = 0, xc_max_var = 0, xc_arity = 0\<rparr>,
       [\<lparr>lb_law = GLaw 0, lb_target = 0, lb_arity = 0\<rparr>])"
  unfolding from_val_rest[OF row_in_at ret_pass1] by code_simp

theorem decoder_wf_witness:
  "\<exists>c lbs. pl_bytecode_from_val mpn_ref (row_in ret_row) (GApp 1) = Inr (c, lbs) \<and>
     xc_ops c = [onat OP_PUSH_LIT, onat 1, onat OP_FORCE_READY, onat OP_RET_READY] \<and> length lbs = 1 \<and> wf_prog {4..<7} c lbs"
proof -
  have "length ret_row = 7" by (simp add: ret_row_def)
  then show ?thesis using decoder_wf[OF ret_decodes[of mpn_ref] row_in_at] ret_decodes[of mpn_ref] by (auto simp: eval_nat_numeral)
qed

text \<open>A row whose first instruction jumps behind its last one, to the directory.\<close>

definition jump_row :: "gval list" where
  "jump_row = [onat OP_JMP, onat 3, onat OP_RET, onat OP_LAWBLK, GLaw 0, onat 0]"

lemma jump_pass1:
  "pass1 (in_heap (row_in jump_row)) (dec_init jump_row) = Inr \<lparr>d_ops = jump_row, d_i = 6,
     d_starts = [True, False, True, True, False, False], d_target = [True, False, False, True, False, False],
     d_dir_at = Some 3, d_dir = [\<lparr>lb_law = GLaw 0, lb_target = 0, lb_arity = 0\<rparr>], d_lits = [], d_max_var = 0, d_mask = 0,
     d_entry = 0, d_last = OP_RET\<rparr>"
  by (simp add: dec_eval jump_row_def row_in_def)

lemma jump_decodes:
  "pl_bytecode_from_val M (row_in jump_row) (GApp 1) =
     Inr (\<lparr>xc_ops = [onat OP_JMP, onat 3, onat OP_RET], xc_strict_mask = 0, xc_strict_entry = 0, xc_max_var = 0, xc_arity = 0\<rparr>,
       [\<lparr>lb_law = GLaw 0, lb_target = 0, lb_arity = 0\<rparr>])"
  unfolding from_val_rest[OF row_in_at jump_pass1] by code_simp

lemma jump_not_wf: "xc_ops c = [onat OP_JMP, onat 3, onat OP_RET] \<Longrightarrow> \<not> wf_prog {} c lbs"
proof
  assume ops: "xc_ops c = [onat OP_JMP, onat 3, onat OP_RET]" and "wf_prog {} c lbs"
  then obtain cs where wf: "wf_ops {} (xc_ops c) cs" by (auto simp: wf_prog_def)
  then obtain x cs' where cs: "cs = [] @ x # cs'" by (cases cs) (auto simp: wf_ops_def)
  note at = wf_at[OF wf[unfolded cs]]
  have op: "onum x 0 = OP_JMP" using at(3) by (simp add: onum_def oword_def ops)
  then have l: "length x = 2" using at(1) by (simp add: instr_ok_def)
  have "onum x 1 = 3" using at(4)[of 1] l by (simp add: onum_def oword_def ops)
  then have "3 \<in> set (jump_targets x)" using op by (simp add: jump_targets_def)
  then have "3 \<in> starts cs" using wf cs by (auto simp: wf_ops_def)
  moreover have "c \<noteq> []" if "c \<in> set cs" for c using wf that instr_ok_ne by (auto simp: wf_ops_def)
  ultimately have "3 < length (concat cs)" using starts_less by blast
  then show False using wf_length[OF wf] by (simp add: ops)
qed

text \<open>
  The range left open is real. A jump into the directory passes the bound check of pass 1, which still counts the directory,
  and pass 2 only looks at targets below it: this row decodes to three words, and the first instruction jumps to the
  word behind them, the entry of the directory, which is no instruction.
\<close>

theorem decoder_directory_jump:
  "\<exists>c lbs. pl_bytecode_from_val M (row_in jump_row) (GApp 1) = Inr (c, lbs) \<and>
     xc_ops c = [onat OP_JMP, onat 3, onat OP_RET] \<and> \<not> wf_prog {} c lbs"
  using jump_decodes jump_not_wf by fastforce

end
