(* ===== verification/Bytecode_Run.thy ===== *)
theory Bytecode_Run
  imports Bytecode_Safe Eval_Stack
begin

text \<open>
  Decoded code under the interpreter: an instruction of well-formed code is dispatched, and whatever it does, the program counters it
  leaves behind, in the registers and in the frames, are first words of instructions again.
\<close>

subsection \<open>Counters\<close>

text \<open>Every frame of the code \<open>c\<close> is to go on at a counter of \<open>S\<close>.\<close>

fun frame_on :: "pl_code \<Rightarrow> nat set \<Rightarrow> mframe \<Rightarrow> bool" where
  "frame_on c S (PL_F_EXEC a b n c' k ab) = (c' = c \<longrightarrow> k \<in> S)"
| "frame_on c S (PL_F_EXECV a b n c' k ab) = (c' = c \<longrightarrow> k \<in> S)"
| "frame_on c S _ = True"

definition on_code :: "pl_code \<Rightarrow> nat set \<Rightarrow> pl_thread \<Rightarrow> bool" where
  "on_code c S t \<longleftrightarrow> list_all (frame_on c S) (t_fs t)"

definition stays :: "pl_code \<Rightarrow> nat set \<Rightarrow> outcome \<Rightarrow> bool" where
  "stays c S = out_sat (\<lambda>l t. on_code c S t \<and> (\<forall>pc. l = C_dispatch pc \<longrightarrow> pc \<in> S)) (\<lambda>s. on_code c S) (\<lambda>e. on_code c S)"

lemma stays_simps [simp]:
  "stays c S (Goto l t) \<longleftrightarrow> on_code c S t \<and> (\<forall>pc. l = C_dispatch pc \<longrightarrow> pc \<in> S)"
  "stays c S (Stop s t) \<longleftrightarrow> on_code c S t" "stays c S (Raised e t) \<longleftrightarrow> on_code c S t" "stays c S Undefined"
  by (simp_all add: stays_def)

lemma stays_hk: "(\<And>x. r = Inr x \<Longrightarrow> stays c S (k x)) \<Longrightarrow> stays c S (hk r k)"
  unfolding stays_def by (auto simp: hk_def split: sum.splits hfault.splits)

lemma list_all_tl [simp]: "list_all P xs \<Longrightarrow> list_all P (tl xs)"
  by (cases xs) simp_all

lemma frame_on_exec [simp]: "frame_on c S (exec_frame fr) \<longleftrightarrow> (x_code fr = c \<longrightarrow> x_k fr \<in> S)"
  by (simp add: exec_frame_def)

lemma on_code_fields [simp]:
  "on_code c S (pl_vpush v t) = on_code c S t" "on_code c S (vpushes xs t) = on_code c S t" "on_code c S (set_vsp n t) = on_code c S t"
  "on_code c S (set_heap h t) = on_code c S t" "on_code c S (t\<lparr>t_fuel := fl\<rparr>) = on_code c S t" "on_code c S (t\<lparr>t_vs := vs\<rparr>) = on_code c S t"
  "on_code c S (t\<lparr>t_resume_kind := rk\<rparr>) = on_code c S t" "on_code c S (pl_vreplace n r t) = on_code c S t"
  "on_code c S (pl_fpush f t) \<longleftrightarrow> frame_on c S f \<and> on_code c S t"
  by (simp_all add: on_code_def pl_vreplace_def)

lemma on_code_fpop [simp]: "on_code c S t \<Longrightarrow> on_code c S (fpop t)"
  by (simp add: on_code_def)

lemma on_code_XSYNC [simp]: "on_code c S t \<Longrightarrow> pc \<in> S \<Longrightarrow> on_code c S (XSYNC fr pc t)"
  by (simp add: XSYNC_def)

lemma on_code_fuel: "fuel_step t = (y, t') \<Longrightarrow> on_code c S t' = on_code c S t"
  by (auto simp: on_code_def dest: fuel_step_fields)

lemma on_code_vput: "vput i v t = Inr t' \<Longrightarrow> on_code c S t' = on_code c S t"
  by (auto simp: vput_def split: if_splits)

lemma underflow_stays [simp]: "stays c S (underflow t) \<longleftrightarrow> on_code c S t"
  by (simp add: underflow_def)

subsection \<open>Instructions\<close>

text \<open>The handlers that go on behind the instruction.\<close>

lemma x_push_stays:
  assumes "on_code c S t" "Suc pc \<in> S"
  shows "stays c S (x_push_var fr pc t)" "stays c S (x_push_lit fr pc t)" "stays c S (x_push_slot fr pc t)" "stays c S (x_mk_app fr pc t)"
  using assms unfolding x_push_var_def x_push_lit_def x_push_slot_def x_mk_app_def Let_def by (auto intro!: stays_hk)

lemma mk_known_on: "mk_known idx rawbane argc t = (t', v) \<Longrightarrow> on_code c S t' = on_code c S t"
  by (auto simp: on_code_def dest: mk_known_quiet)

lemma mk_thk_known_stays: "on_code c S t \<Longrightarrow> pc \<in> S \<Longrightarrow> stays c S (mk_thk_known idx rawbane argc pc t)"
  by (auto simp: mk_thk_known_def mk_known_on split: prod.splits)

lemma mk_thk_spec_stays: "on_code c S t \<Longrightarrow> pc \<in> S \<Longrightarrow> stays c S (mk_thk_spec idx rawbane argc spec pc t)"
  unfolding mk_thk_spec_def Let_def
  by (intro stays_hk) (auto split: option.splits simp: mk_thk_known_stays)

lemma reify_on: "pl_exec_reify_env fr t = Inr (fr', t') \<Longrightarrow> on_code c S t' = on_code c S t \<and> x_code fr' = x_code fr"
  by (auto simp: pl_exec_reify_env_def on_code_def split: if_splits)

lemma x_interp_stays: "on_code c S t \<Longrightarrow> Suc pc \<in> S \<Longrightarrow> stays c S (x_interp fr pc t)"
  unfolding x_interp_def by (auto intro!: stays_hk simp: reify_on)

lemma x_ret_stays: "on_code c S t \<Longrightarrow> stays c S (x_ret fr t)" "on_code c S t \<Longrightarrow> stays c S (x_ret_ready fr t)"
  unfolding x_ret_def x_ret_ready_def Let_def by auto

lemma x_force_stays: "on_code c S t \<Longrightarrow> pc \<in> S \<Longrightarrow> stays c S (x_force fr pc t)" "on_code c S t \<Longrightarrow> pc \<in> S \<Longrightarrow> stays c S (x_force_ready fr pc t)"
  unfolding x_force_def x_force_ready_def Let_def by auto

lemma tail_move_on [simp]: "on_code c S t \<Longrightarrow> on_code c S (tail_move fr pre xs t)"
  by (simp add: tail_move_def)

lemma tail_fallback_stays: "on_code c S t \<Longrightarrow> stays c S (tail_fallback fr argc rawbane idx t)"
  unfolding tail_fallback_def by (auto split: prod.splits if_splits simp: mk_known_on)

lemma enter_op_stays: "on_code c S t \<Longrightarrow> stays c S (enter_op ready idx b n t)"
  by (simp add: enter_op_def op_args_ready_def Let_def)

lemma x_tail_stays: "on_code c S t \<Longrightarrow> stays c S (x_tail fr ready pc t)"
  unfolding x_tail_def tail_enter_def Let_def
  by (intro stays_hk) (auto intro!: stays_hk simp: tail_fallback_stays enter_op_stays split: option.splits)

text \<open>The handlers that jump.\<close>

lemma x_jump_stays: "on_code c S t \<Longrightarrow> target \<in> S \<Longrightarrow> stays c S (x_jump fr pc target t)"
  unfolding x_jump_def by (auto split: prod.splits bool.splits simp: on_code_fuel)

lemma x_br_stays:
  assumes o: "on_code c S t" and b: "\<And>m k target. xnum fr pc = Inr m \<Longrightarrow> \<not> m \<le> k \<Longrightarrow> xnum fr (pc + 1 + k) = Inr target \<Longrightarrow> target \<in> S"
  shows "stays c S (x_br fr pc t)"
proof -
  have "target \<in> S" if "xnum fr pc = Inr m" "\<not> m \<le> unat w" "xnum fr (Suc (pc + unat w)) = Inr target" for m target and w :: u64
    using b[of m "unat w" target] that by simp
  then show ?thesis using o unfolding x_br_def Let_def by (auto intro!: stays_hk x_jump_stays split: option.splits)
qed

lemma x_jmp_stays:
  assumes "on_code c S t" "\<And>target. xnum fr pc = Inr target \<Longrightarrow> target \<in> S"
  shows "stays c S (x_jmp fr pc t)" "stays c S (x_tailblk fr pc t)"
  using assms unfolding x_jmp_def x_tailblk_def by (auto intro!: stays_hk x_jump_stays)

text \<open>Calls: a yield goes back to the instruction, the frame of the caller goes on behind it.\<close>

lemma fuel_call_stays:
  assumes "on_code c S t" "pc' \<in> S" "\<And>t'. on_code c S t' \<Longrightarrow> stays c S (go t')"
  shows "stays c S (case fuel_step t of
    (True, t') \<Rightarrow> Stop PL_RUN_YIELDED ((XSYNC fr pc' t')\<lparr>t_resume_kind := PL_RES_RUN\<rparr>) | (False, t') \<Rightarrow> go t')"
proof -
  obtain y t' where f: "fuel_step t = (y, t')" by force
  show ?thesis using assms(1,2) assms(3)[of t'] on_code_fuel[OF f] f by (cases y) simp_all
qed

lemma x_call_stays:
  assumes "on_code c S t" "pc - 1 \<in> S" "Suc (Suc pc) \<in> S" "\<And>target. xnum fr pc = Inr target \<Longrightarrow> target \<in> S"
  shows "stays c S (x_call fr pc t)"
  using assms unfolding x_call_def Let_def by (intro stays_hk) (auto intro!: fuel_call_stays)

lemma x_call_known_stays: "on_code c S t \<Longrightarrow> pc + 3 \<in> S \<Longrightarrow> stays c S (x_call_known fr ready pc t)"
  unfolding x_call_known_def Let_def by (auto intro!: stays_hk enter_op_stays)

lemma call_slow_stays: "on_code c S t \<Longrightarrow> stays c S (call_slow nargs t)"
  unfolding call_slow_def Let_def by (auto intro!: stays_hk simp: on_code_vput)

lemma x_call_fast_stays: "on_code c S t \<Longrightarrow> pc - 1 \<in> S \<Longrightarrow> Suc (Suc pc) \<in> S \<Longrightarrow> stays c S (x_call_fast fr pc t)"
  unfolding x_call_fast_def Let_def by (intro stays_hk) (auto intro!: stays_hk call_slow_stays fuel_call_stays)

lemma x_call_slow_stays: "on_code c S t \<Longrightarrow> Suc pc \<in> S \<Longrightarrow> stays c S (x_call_slow fr pc t)"
  unfolding x_call_slow_def Let_def by (auto intro!: stays_hk call_slow_stays)

lemma x_num_stays: "on_code c S t \<Longrightarrow> pc + 3 \<in> S \<Longrightarrow> stays c S (x_num fr op pc t)" "on_code c S t \<Longrightarrow> stays c S (x_tail_num fr op pc t)"
  unfolding x_num_def x_tail_num_def by (auto split: option.splits simp: x_call_known_stays x_tail_stays)

context stack_ops
begin

lemma mk_thk_body_stays:
  assumes "on_code c S t" "pc \<in> S"
  shows "stays c S (mk_thk_body C idx rawbane argc pc t)"
  unfolding mk_thk_body_def
proof (rule stays_hk, clarify)
  fix t1 ready
  assume s: "spec_ready idx (length (t_vs t) - argc) [0..<argc] t = Inr (t1, ready)"
  let ?ab = "length (t_vs t1) - argc"
  have o: "on_code c S t1" using spec_ready_vs[OF s] assms(1) by auto
  have e: "\<not> is_exec f \<Longrightarrow> frame_on c S f" for f by (cases f) simp_all
  have v: "on_code c S t'" if "\<exists>frs. t_fs t' = frs @ t_fs t1 \<and> list_all (free_frame n) frs" for t' n
    using that o e by (auto simp: on_code_def free_frame_def list_all_iff)
  have same: "t_fs t' = t_fs t1 \<Longrightarrow> on_code c S t'" for t' using o by (simp add: on_code_def)
  show "stays c S (if ready then
      case cf_body C (op_fn (pl_ops ! idx)) t1 ?ab of
        Body_val r t' \<Rightarrow> Goto (C_dispatch pc) (pl_vreplace argc r t') | Body_raise e t' \<Rightarrow> Raised e t'
      | Body_fault f \<Rightarrow> hk (Inl f) (\<lambda>_ :: unit. Undefined)
    else mk_thk_spec idx rawbane argc PL_SPEC_BODY pc t1)"
    using body_stack[of ?ab t1 "op_fn (pl_ops ! idx)"] mk_thk_spec_stays[OF o assms(2)] v assms(2) same
    by (cases "cf_body C (op_fn (pl_ops ! idx)) t1 ?ab") (auto intro: stays_hk)
qed

lemma x_mk_thk_stays:
  assumes o: "on_code c S t"
    and n: "\<And>rb. xnum fr (Suc pc) = Inr rb \<Longrightarrow> pc + (if word_of_nat rb AND PL_BAN_MASK = PL_BAN_PRIM_KNOWN then 4 else 2) \<in> S"
  shows "stays c S (x_mk_thk C fr pc t)"
proof -
  have k: "pc + 4 \<in> S" if "xnum fr (Suc pc) = Inr rb" "word_of_nat rb AND PL_BAN_MASK = PL_BAN_PRIM_KNOWN" for rb
    using n[OF that(1)] that(2) by simp
  have k': "Suc (Suc pc) \<in> S" if "xnum fr (Suc pc) = Inr rb" "word_of_nat rb AND PL_BAN_MASK \<noteq> PL_BAN_PRIM_KNOWN" for rb
    using n[OF that(1)] that(2) by simp
  show ?thesis using o k k' unfolding x_mk_thk_def Let_def
    by (intro stays_hk) (auto split: prod.splits intro!: stays_hk mk_thk_known_stays mk_thk_body_stays mk_thk_spec_stays)
qed

end

subsection \<open>Dispatch\<close>

lemma xnum_chunk:
  assumes "wf_ops X (xc_ops (x_code fr)) (xs @ c # ys)" "k < length c"
  shows "xnum fr (length (concat xs) + k) = (case gval_nat63 (oword c k) of Some w \<Rightarrow> Inr (unat w) | None \<Rightarrow> Inl HUndef)"
    "xnum fr (length (concat xs) + k) = Inr n \<Longrightarrow> n = onum c k"
proof -
  have "oword (xc_ops (x_code fr)) (length (concat xs) + k) = oword c k" by (rule wf_at(6)[OF assms])
  moreover have "length (concat xs) + k < length (xc_ops (x_code fr))" using assms by (simp add: wf_ops_def)
  ultimately show e: "xnum fr (length (concat xs) + k) = (case gval_nat63 (oword c k) of Some w \<Rightarrow> Inr (unat w) | None \<Rightarrow> Inl HUndef)"
    by (simp add: xnum_def xword_def oword_def)
  show "xnum fr (length (concat xs) + k) = Inr n \<Longrightarrow> n = onum c k" unfolding e by (auto simp: onum_def unum_def split: option.splits)
qed

lemma wf_next:
  assumes "wf_ops X ops (xs @ c # ys)" "\<not> is_ret c"
  shows "length (concat xs) + length c \<in> starts (xs @ c # ys)"
proof -
  obtain y ys' where "ys = y # ys'" using assms by (cases ys) (auto simp: wf_ops_def)
  then show ?thesis by (simp add: starts_from_append)
qed

context stack_ops
begin

lemma exec_op_stays:
  assumes wf: "wf_ops X (xc_ops (x_code fr)) (xs @ c # ys)" and o: "on_code code (starts (xs @ c # ys) \<union> X) t"
  shows "stays code (starts (xs @ c # ys) \<union> X) (exec_op C fr (onum c 0) (Suc (length (concat xs))) t)"
proof -
  define S where "S = starts (xs @ c # ys) \<union> X"
  define i where "i = length (concat xs)"
  note ok = wf_at(1)[OF wf]
  note on = o[folded S_def]
  have here: "i \<in> S" by (simp add: S_def i_def starts_from_append)
  have nx: "\<not> is_ret c \<Longrightarrow> i + length c \<in> S" using wf_next[OF wf] by (simp add: S_def i_def)
  have tg: "n \<in> S" if "n \<in> set (jump_targets c)" for n using wf that by (auto simp: wf_ops_def S_def)
  have num: "xnum fr (i + k) = Inr n \<Longrightarrow> k < length c \<Longrightarrow> n = onum c k" for k n using xnum_chunk(2)[OF wf] by (simp add: i_def)
  have jmp: "target \<in> S" if "onum c 0 = OP_JMP \<or> onum c 0 = OP_CALL \<or> onum c 0 = OP_TAILBLK" "xnum fr (Suc i) = Inr target" for target
  proof -
    have "1 < length c" using ok that(1) by (auto simp: instr_ok_def)
    then have "target = onum c 1" using num[of 1 target] that(2) by simp
    then show ?thesis using tg that(1) by (auto simp: jump_targets_def)
  qed
  have br: "target \<in> S" if "onum c 0 = OP_BR" "xnum fr (Suc i) = Inr m" "\<not> m \<le> k" "xnum fr (Suc i + 1 + k) = Inr target" for m k target
  proof -
    have l: "length c = 2 + onum c 1" using ok that(1) by (simp add: instr_ok_def)
    then have "m = onum c 1" using num[of 1 m] that(2) by simp
    then have k: "k + 2 < length c" using l that(3) by simp
    then have "target = onum c (k + 2)" using num[of "k + 2" target] that(4) by (simp add: add.commute add.left_commute)
    moreover have "onum c (k + 2) \<in> set (jump_targets c)" using that(1) k by (simp add: jump_targets_def)
    ultimately show ?thesis using tg by blast
  qed
  have thk: "Suc i + (if word_of_nat rb AND PL_BAN_MASK = PL_BAN_PRIM_KNOWN then 4 else 2) \<in> S"
    if m: "onum c 0 = OP_MK_THK" and rb: "xnum fr (Suc (Suc i)) = Inr rb" for rb
  proof -
    have l: "2 < length c" using instr_ok_length(1)[OF ok] m by simp
    then obtain w where w: "gval_nat63 (oword c 2) = Some w" "rb = unat w"
      using xnum_chunk(1)[OF wf l] rb by (auto simp: i_def split: option.splits)
    have "length c = (if obane c 2 = PL_BAN_PRIM_KNOWN then 5 else 3)" using ok m by (auto simp: instr_ok_def split: if_splits)
    then have "Suc i + (if word_of_nat rb AND PL_BAN_MASK = PL_BAN_PRIM_KNOWN then 4 else 2) = i + length c" using w by (simp add: obane_def)
    then show ?thesis using nx m by (simp only: is_ret_def) simp
  qed
  have brs: "onum c 0 = OP_BR \<Longrightarrow> stays code S (x_br fr (Suc i) t)" by (rule x_br_stays[OF on]) (use br in blast)
  have n3: "length c = 3 \<Longrightarrow> \<not> is_ret c \<Longrightarrow> Suc (Suc (Suc i)) \<in> S" using nx by (simp add: eval_nat_numeral)
  have n4: "length c = 4 \<Longrightarrow> \<not> is_ret c \<Longrightarrow> Suc i + 3 \<in> S" using nx by (simp add: eval_nat_numeral)
  have calls: "onum c 0 = OP_CALL \<Longrightarrow> stays code S (x_call fr (Suc i) t)" "onum c 0 = OP_CALL_FAST \<Longrightarrow> stays code S (x_call_fast fr (Suc i) t)"
    using on here jmp n3 ok by (auto simp: instr_ok_def is_ret_def intro!: x_call_stays x_call_fast_stays)
  have known: "length c = 4 \<Longrightarrow> \<not> is_ret c \<Longrightarrow> stays code S (x_call_known fr ready (Suc i) t)"
    "length c = 4 \<Longrightarrow> \<not> is_ret c \<Longrightarrow> stays code S (x_num fr op (Suc i) t)" for ready op
    using x_call_known_stays[OF on n4] x_num_stays(1)[OF on n4] by blast+
  have "stays code S (exec_op C fr (onum c 0) (Suc i) t)"
    by (insert instr_ok_opcodes[OF ok], elim disjE; insert ok nx on here jmp thk;
      simp add: exec_op_def instr_ok_def is_ret_def x_push_stays x_mk_thk_stays x_force_stays x_tail_stays x_interp_stays x_ret_stays
        brs calls known x_jmp_stays x_call_slow_stays x_num_stays stays_hk)
  then show ?thesis by (simp add: S_def i_def)
qed

end

lemma dispatch_stays_in:
  assumes C: "stack_ops C" and t: "top_exec t = Some fr" "x_code fr = c" and wf: "wf_ops X (xc_ops c) cs" and pc: "pc \<in> starts cs"
    and o: "on_code c (starts cs \<union> X) t"
  shows "\<exists>op \<le> OP_TAILBLK. xnum fr pc = Inr op" "stays c (starts cs \<union> X) (run_dispatch C pc t)"
proof -
  obtain xs d ys where d: "cs = xs @ d # ys" "pc = length (concat xs)" using pc by (auto simp: starts_from_iff)
  note wf' = wf[unfolded d(1), folded t(2)]
  note at = wf_at[OF wf']
  have n: "onum d 0 < 28" using instr_ok_opcodes[OF at(1)] by presburger
  have x: "xnum fr pc = Inr (onum d 0)"
    using xnum_chunk(1)[OF wf', of 0] at(8) n by (auto simp: d(2) onum_def unum_def split: option.splits)
  then show "\<exists>op \<le> OP_TAILBLK. xnum fr pc = Inr op" using n by auto
  have "stays c (starts cs \<union> X) (exec_op C fr (onum d 0) (Suc pc) t)"
    using stack_ops.exec_op_stays[OF C wf', of c t] o d by simp
  then show "stays c (starts cs \<union> X) (run_dispatch C pc t)" by (simp add: run_dispatch_def t(1) x hk_def)
qed

context stack_ext
begin

lemma cfg_stack_ops: "stack_ops (pl_cfg M plgc ixs ext hook eff io demand lawblk)"
  by (rule cfgs.stack_ops_axioms)

end

text \<open>
  C3. The decoder is the one check the interpreter relies on. For everything it accepts there is a set \<open>S\<close> of counters, with the entries of
  the code and of its law blocks in it, such that the word at each of them is a known opcode, and executing an
  instruction at one of them goes on at one of them: the counter dispatched next, and the counters saved in the frames of this code, also where the
  thread yields, calls, returns or raises. No jump leads into the middle of an instruction, and control never runs off the end of the
  code. The exception is a jump into the range of the directory that was cut off behind the code, empty where there is none. The operations
  that are not modelled and the hooks must leave alone what lies below their arguments; of a thread in a state the code does not define nothing is said.
\<close>

theorem decoded_code_closed:
  assumes "pl_bytecode_from_val M I (GApp a) = Inr (c, lbs)" "app_at (in_heap I) a = Inr (need, head, row)"
    "stack_ext ext hook eff io demand" "X = {length (xc_ops c)..<length row}"
  shows "\<exists>S. S \<subseteq> {..<length (xc_ops c)} \<and> {0, xc_strict_entry c} \<union> lb_target ` set lbs \<subseteq> S \<and>
    (\<forall>t fr pc. top_exec t = Some fr \<and> x_code fr = c \<and> pc \<in> S \<and> on_code c (S \<union> X) t \<longrightarrow>
      (\<exists>op \<le> OP_TAILBLK. xnum fr pc = Inr op) \<and> stays c (S \<union> X) (run_dispatch (pl_cfg M plgc ixs ext hook eff io demand lawblk) pc t))"
proof -
  obtain cs where wf: "wf_ops X (xc_ops c) cs" and e: "xc_strict_entry c \<in> starts cs" "\<forall>b \<in> set lbs. lb_target b \<in> starts cs"
    using decoder_result[OF assms(1,2)] by (auto simp: wf_prog_def assms(4))
  note d = dispatch_stays_in[OF stack_ext.cfg_stack_ops[OF assms(3)] _ _ wf]
  have "starts cs \<subseteq> {..<length (xc_ops c)}"
    using starts_less[of cs] wf instr_ok_ne by (auto simp: wf_ops_def)
  moreover have "0 \<in> starts cs" using wf by (cases cs) (simp_all add: wf_ops_def)
  ultimately show ?thesis using e d by (intro exI[of _ "starts cs"]) auto
qed

text \<open>Example: the code of \<open>ret_row\<close> at its first instruction.\<close>

definition ret_code :: pl_code where
  "ret_code = \<lparr>xc_ops = [onat OP_PUSH_LIT, onat 1, onat OP_FORCE_READY, onat OP_RET_READY], xc_strict_mask = 0, xc_strict_entry = 0, xc_max_var = 0, xc_arity = 0\<rparr>"

definition ret_thread :: pl_thread where
  "ret_thread = pl_fpush (PL_F_EXEC gzero 0 0 ret_code 0 0) (pl_thread_new [])"

theorem decoded_code_closed_witness:
  "\<exists>S. S \<subseteq> {..<4} \<and> 0 \<in> S \<and> pl_bytecode_from_val mpn_ref (row_in ret_row) (GApp 1) = Inr (ret_code, [\<lparr>lb_law = GLaw 0, lb_target = 0, lb_arity = 0\<rparr>]) \<and>
     stays ret_code (S \<union> {4..<7}) (run_dispatch bare_cfg 0 ret_thread)"
proof -
  note d = ret_decodes[of mpn_ref, folded ret_code_def]
  have l: "length (xc_ops ret_code) = 4" "length ret_row = 7" by (simp_all add: ret_code_def ret_row_def)
  obtain S where S: "S \<subseteq> {..<4}" "0 \<in> S" "\<forall>t fr pc. top_exec t = Some fr \<and> x_code fr = ret_code \<and> pc \<in> S \<and> on_code ret_code (S \<union> {4..<7}) t \<longrightarrow>
      stays ret_code (S \<union> {4..<7}) (run_dispatch bare_cfg pc t)"
    using decoded_code_closed[OF d row_in_at bares.stack_ext_axioms refl, where plgc = "\<lambda>k. None" and ixs = None and lawblk = "\<lambda>h v. None"]
    unfolding l bare_cfg_def by simp blast
  have t: "on_code ret_code (S \<union> {4..<7}) ret_thread" "\<exists>fr. top_exec ret_thread = Some fr \<and> x_code fr = ret_code"
    using S(2) by (simp_all add: ret_thread_def on_code_def pl_thread_new_def top_exec_def)
  then show ?thesis using S d by blast
qed

end
