(* ===== verification/Bytecode_Batch.thy ===== *)
theory Bytecode_Batch
  imports Bytecode_Run
begin

text \<open>
  Construction batches, \<open>batch.c\<close>: runs of pushes and constructions whose heap cells are reserved at once. The preparation
  walks the decoded code and plans the batches; the overlay \<open>batch_ops\<close> dispatches \<open>OP_BUILD\<close> at their first
  words, which reserves the cells of the batch as a credit that the instructions use up. Allocations succeed; \<open>PL_BATCH\<close> is the argument
  \<open>enabled\<close>.
\<close>

subsection \<open>Plans\<close>

abbreviation (input) OP_BUILD :: nat where "OP_BUILD \<equiv> 30"

definition BATCH_STEPS :: nat where "BATCH_STEPS = 64"
definition BATCH_CELLS :: nat where "BATCH_CELLS = 4096"

definition PL_APP_CELLS :: "nat \<Rightarrow> nat" where "PL_APP_CELLS n = 2 + n"
definition PL_THKE_CELLS :: "nat \<Rightarrow> nat" where "PL_THKE_CELLS n = 2 + n"

definition pl_bytecode_width :: "gval list \<Rightarrow> nat \<Rightarrow> nat" where
  "pl_bytecode_width ops pc =
     (let op = onum ops pc in
      if op \<in> {OP_PUSH_VAR, OP_PUSH_LIT, OP_MK_APP, OP_INTERP, OP_PUSH_SLOT, OP_JMP, OP_ENTRY, OP_CALL_SLOW} then 2
      else if op \<in> {OP_CALL, OP_CALL_FAST, OP_TAILBLK} then 3
      else if op \<in> {OP_CALL_KNOWN, OP_CALL_READY, OP_ADD, OP_SUB, OP_CMP} then 4
      else if op = OP_BR then 2 + onum ops (pc + 1)
      else if op \<in> {OP_MK_THK, OP_TAILCALL, OP_TAIL_READY, OP_TAIL_ADD, OP_TAIL_SUB, OP_TAIL_CMP} then
        (if obane ops (pc + 2) = PL_BAN_PRIM_KNOWN then 5 else 3)
      else 1)"

record pl_batch_step =
  bs_op :: nat
  bs_arg :: nat
  bs_aux :: nat
  bs_flags :: u64

record pl_batch =
  b_start :: nat
  b_end :: nat
  b_cells :: nat
  b_extra :: nat
  b_depth :: nat
  b_vars :: nat
  b_steps :: "pl_batch_step list"

text \<open>
  The state of the walk: the plan so far, the operands it knows (\<open>literal\<close> and \<open>lits\<close>, as long as \<open>depth\<close>), the number of
  allocations and the counter.
\<close>

record scan =
  sc_b :: pl_batch
  sc_lits :: "gval option list"
  sc_allocs :: nat
  sc_end :: nat

definition scan_init :: "nat \<Rightarrow> scan" where
  "scan_init pc = \<lparr>sc_b = \<lparr>b_start = pc, b_end = 0, b_cells = 0, b_extra = 0, b_depth = 0, b_vars = 0, b_steps = []\<rparr>,
     sc_lits = [], sc_allocs = 0, sc_end = pc\<rparr>"

text \<open>A planned instruction: a batch has room for it, or ends.\<close>

definition batch_add :: "gval list \<Rightarrow> pl_batch_step \<Rightarrow> nat \<Rightarrow> gval option list \<Rightarrow> pl_batch \<Rightarrow> scan \<Rightarrow> scan option" where
  "batch_add ops st cells lits b s =
     (if BATCH_CELLS - b_cells b < cells then None
      else Some \<lparr>sc_b = b\<lparr>b_cells := b_cells b + cells, b_extra := max (b_extra b) (length lits), b_steps := b_steps b @ [st]\<rparr>,
        sc_lits = lits, sc_allocs = sc_allocs s + (if cells \<noteq> 0 then 1 else 0), sc_end = sc_end s + pl_bytecode_width ops (sc_end s)\<rparr>)"

definition batch_push :: "gval list \<Rightarrow> scan \<Rightarrow> scan option" where
  "batch_push ops s =
     (let op = onum ops (sc_end s); o1 = onum ops (sc_end s + 1); b = sc_b s; depth = length (sc_lits s) in
      if op = OP_PUSH_LIT then
        batch_add ops \<lparr>bs_op = op, bs_arg = sc_end s + 1, bs_aux = 0, bs_flags = 0\<rparr> 0
          (sc_lits s @ [Some (oword ops (sc_end s + 1))]) b s
      else if UINT32_MAX \<le> o1 then None
      else batch_add ops \<lparr>bs_op = op, bs_arg = o1, bs_aux = 0, bs_flags = 0\<rparr> 0 (sc_lits s @ [None])
        (if op = OP_PUSH_VAR then (if b_vars b \<le> o1 then b\<lparr>b_vars := o1 + 1\<rparr> else b)
         else if depth \<le> o1 \<and> b_depth b < o1 + 1 - depth then b\<lparr>b_depth := o1 + 1 - depth\<rparr> else b) s)"

definition batch_mk_app :: "heap \<Rightarrow> gval list \<Rightarrow> scan \<Rightarrow> scan option hres" where
  "batch_mk_app h ops s =
     (let o1 = onum ops (sc_end s + 1); depth = length (sc_lits s) in
      if depth \<le> o1 then Inr None
      else case sc_lits s ! (depth - o1 - 1) of
        None \<Rightarrow> Inr None
      | Some head \<Rightarrow>
          if \<not> gval_is_whnf head then Inr None
          else rbind (pl_arity_h h head) (\<lambda>arity.
            let need = (if o1 < arity then arity - o1 else 0) in
            if 2 ^ 20 \<le> need then Inr None
            else Inr (batch_add ops \<lparr>bs_op = OP_MK_APP, bs_arg = o1, bs_aux = need, bs_flags = 0\<rparr> (PL_APP_CELLS o1)
              (take (depth - o1 - 1) (sc_lits s) @ [None]) (sc_b s) s)))"

definition batch_mk_thk :: "gval list \<Rightarrow> scan \<Rightarrow> scan option" where
  "batch_mk_thk ops s =
     (let e = sc_end s; o1 = onum ops (e + 1); depth = length (sc_lits s);
          raw = (case gval_nat63 (oword ops (e + 2)) of Some w \<Rightarrow> w | None \<Rightarrow> 0);
          known = obane ops (e + 2) = PL_BAN_PRIM_KNOWN in
      if depth < o1 then None
      else if known \<and> onum ops (e + 4) \<noteq> PL_SPEC_NONE then None
      else batch_add ops \<lparr>bs_op = OP_MK_THK, bs_arg = o1, bs_aux = (if known then onum ops (e + 3) else 0),
            bs_flags = (if known then raw AND (PL_BAN_MASK OR PL_BAN_NOUPD) else raw)\<rparr>
          (PL_THKE_CELLS (o1 + (if known then 1 else 0))) (take (depth - o1) (sc_lits s) @ [None]) (sc_b s) s)"

text \<open>One instruction of the walk; \<open>None\<close> where the batch ends in front of it.\<close>

definition batch_instr :: "heap \<Rightarrow> gval list \<Rightarrow> scan \<Rightarrow> scan option hres" where
  "batch_instr h ops s =
     (let op = onum ops (sc_end s) in
      if op \<in> {OP_PUSH_LIT, OP_PUSH_VAR, OP_PUSH_SLOT} then Inr (batch_push ops s)
      else if op = OP_MK_APP then batch_mk_app h ops s
      else if op = OP_MK_THK then Inr (batch_mk_thk ops s)
      else Inr None)"

lemma width_pos: "0 < pl_bytecode_width ops pc"
  by (simp add: pl_bytecode_width_def Let_def)

lemma batch_add_Some: "batch_add ops st cells lits b s = Some s' \<Longrightarrow>
    b_cells b + cells \<le> max BATCH_CELLS (b_cells b) \<and> s' = \<lparr>sc_b = b\<lparr>b_cells := b_cells b + cells, b_extra := max (b_extra b) (length lits), b_steps := b_steps b @ [st]\<rparr>,
      sc_lits = lits, sc_allocs = sc_allocs s + (if cells \<noteq> 0 then 1 else 0), sc_end = sc_end s + pl_bytecode_width ops (sc_end s)\<rparr>"
  by (auto simp: batch_add_def split: if_splits)

lemmas batch_defs = batch_instr_def batch_push_def batch_mk_app_def batch_mk_thk_def

lemma batch_instr_end: "batch_instr h ops s = Inr (Some s') \<Longrightarrow> sc_end s' = sc_end s + pl_bytecode_width ops (sc_end s)"
  by (auto simp: batch_defs Let_def res_simps split: if_splits option.splits dest!: batch_add_Some)

function batch_scan :: "heap \<Rightarrow> pl_code \<Rightarrow> bool list \<Rightarrow> scan \<Rightarrow> scan hres" where
  "batch_scan h c target s =
     (if sc_end s < length (xc_ops c) \<and> length (b_steps (sc_b s)) < BATCH_STEPS \<and>
         (sc_end s = b_start (sc_b s) \<or> (\<not> target ! sc_end s \<and> sc_end s \<noteq> xc_strict_entry c)) then
        (case batch_instr h (xc_ops c) s of Inl f \<Rightarrow> Inl f | Inr None \<Rightarrow> Inr s | Inr (Some s') \<Rightarrow> batch_scan h c target s')
      else Inr s)"
  by pat_completeness auto
termination
proof (relation "measure (\<lambda>(h, c, target, s). length (xc_ops c) - sc_end s)", simp)
  fix h c target s r s'
  assume "sc_end s < length (xc_ops c) \<and> length (b_steps (sc_b s)) < BATCH_STEPS \<and>
      (sc_end s = b_start (sc_b s) \<or> \<not> target ! sc_end s \<and> sc_end s \<noteq> xc_strict_entry c)" "batch_instr h (xc_ops c) s = Inr r" "r = Some s'"
  then show "((h, c, target, s'), h, c, target, s) \<in> measure (\<lambda>(h, c, target, s). length (xc_ops c) - sc_end s)"
    using batch_instr_end[of h "xc_ops c" s s'] width_pos[of "xc_ops c" "sc_end s"] by (simp add: diff_less_mono2)
qed

declare batch_scan.simps [simp del]

function batch_loop :: "heap \<Rightarrow> pl_code \<Rightarrow> bool list \<Rightarrow> nat \<Rightarrow> pl_batch list \<Rightarrow> pl_batch list hres" where
  "batch_loop h c target pc bs =
     (if pc < length (xc_ops c) then
        (case batch_scan h c target (scan_init pc) of
           Inl f \<Rightarrow> Inl f
         | Inr s \<Rightarrow> batch_loop h c target (if pc < sc_end s then sc_end s else pc + pl_bytecode_width (xc_ops c) pc)
             (if 2 \<le> sc_allocs s then bs @ [(sc_b s)\<lparr>b_end := sc_end s\<rparr>] else bs))
      else Inr bs)"
  by pat_completeness auto
termination
  by (relation "measure (\<lambda>(h, c, target, pc, bs). length (xc_ops c) - pc)") (auto simp: width_pos diff_less_mono2)

declare batch_loop.simps [simp del]

text \<open>The batches of a code and the overlay the interpreter dispatches on.\<close>

definition pl_batch_prepare :: "bool \<Rightarrow> heap \<Rightarrow> pl_code \<Rightarrow> bool list \<Rightarrow> (pl_batch list \<times> gval list option) hres" where
  "pl_batch_prepare enabled h c target =
     (if \<not> enabled \<or> 8192 < length (xc_ops c) then Inr ([], None)
      else rbind (batch_loop h c target 0 []) (\<lambda>bs.
        Inr (bs, if bs = [] then None else Some (foldl (\<lambda>ops b. ops[b_start b := onat OP_BUILD]) (xc_ops c) bs))))"

definition pl_batch_ops :: "pl_code \<Rightarrow> gval list option \<Rightarrow> gval list" where
  "pl_batch_ops c ov = (case ov of Some ops \<Rightarrow> ops | None \<Rightarrow> xc_ops c)"

subsection \<open>Lookup and credit\<close>

function batch_search :: "pl_batch list \<Rightarrow> nat \<Rightarrow> nat \<Rightarrow> nat \<Rightarrow> nat" where
  "batch_search bs pc lo hi =
     (if lo < hi then
        let mid = lo + (hi - lo) div 2 in
        if b_start (bs ! mid) < pc then batch_search bs pc (mid + 1) hi else batch_search bs pc lo mid
      else lo)"
  by pat_completeness auto
termination by (relation "measure (\<lambda>(bs, pc, lo, hi). hi - lo)") (auto simp: Let_def)

declare batch_search.simps [simp del]

definition pl_batch_at :: "pl_batch list \<Rightarrow> nat \<Rightarrow> pl_batch option" where
  "pl_batch_at bs pc =
     (let lo = batch_search bs pc 0 (length bs) in
      if lo < length bs \<and> b_start (bs ! lo) = pc then Some (bs ! lo) else None)"

text \<open>The guard of a batch; the room on the stack and in the heap it makes is unbounded here.\<close>

definition pl_batch_reserve :: "pl_thread \<Rightarrow> xframe \<Rightarrow> pl_batch \<Rightarrow> bool hres" where
  "pl_batch_reserve t fr b =
     (if length (t_vs t) < x_argbase fr \<or> length (t_vs t) - x_argbase fr < b_depth b then Inr False
      else if b_vars b = 0 then Inr True
      else if x_argc fr \<noteq> 0 then Inr (b_vars b \<le> x_argc fr)
      else rbind (env_at (t_heap t) (x_a fr)) (\<lambda>slots. Inr (b_vars b \<le> length slots)))"

text \<open>\<open>x_build\<close>: the credit of the batch at the counter. \<open>None\<close> is the assertion.\<close>

definition x_build :: "pl_batch list \<Rightarrow> xframe \<Rightarrow> nat \<Rightarrow> nat \<Rightarrow> pl_thread \<Rightarrow> nat option hres" where
  "x_build bs fr pc credit t = (case pl_batch_at bs pc of
     None \<Rightarrow> Inr None
   | Some b \<Rightarrow> if credit \<noteq> 0 then Inr None
       else rbind (pl_batch_reserve t fr b) (\<lambda>ok. Inr (Some (if ok then b_cells b else credit))))"

text \<open>The cells an instruction takes, and the credit behind it; without credit it reserves them itself.\<close>

definition instr_cells :: "gval list \<Rightarrow> nat \<Rightarrow> nat" where
  "instr_cells ops pc =
     (if onum ops pc = OP_MK_APP then PL_APP_CELLS (onum ops (pc + 1))
      else if onum ops pc = OP_MK_THK then
        PL_THKE_CELLS (onum ops (pc + 1) + (if obane ops (pc + 2) = PL_BAN_PRIM_KNOWN then 1 else 0))
      else 0)"

definition use_credit :: "nat \<Rightarrow> nat \<Rightarrow> nat option" where
  "use_credit cells credit =
     (if cells = 0 \<or> credit = 0 then Some credit
      else if cells \<le> credit then Some (credit - cells) else None)"

fun credit_run :: "gval list \<Rightarrow> nat list \<Rightarrow> nat \<Rightarrow> nat option" where
  "credit_run ops [] credit = Some credit"
| "credit_run ops (pc # pcs) credit =
     (case use_credit (instr_cells ops pc) credit of None \<Rightarrow> None | Some credit \<Rightarrow> credit_run ops pcs credit)"

subsection \<open>Runs of instructions\<close>

text \<open>The counters of the instructions from one place to another.\<close>

fun path :: "gval list \<Rightarrow> nat \<Rightarrow> nat \<Rightarrow> nat list \<Rightarrow> bool" where
  "path ops pc e [] \<longleftrightarrow> pc = e"
| "path ops pc e (p # ps) \<longleftrightarrow> p = pc \<and> path ops (pc + pl_bytecode_width ops pc) e ps"

lemma path_snoc: "path ops pc e ps \<Longrightarrow> path ops pc (e + pl_bytecode_width ops e) (ps @ [e])"
  by (induction ps arbitrary: pc) simp_all

lemma path_range: "path ops pc e ps \<Longrightarrow> p \<in> set ps \<Longrightarrow> pc \<le> p \<and> p < e"
proof (induction ps arbitrary: pc)
  case (Cons q ps)
  have "pc \<le> e" if "path ops pc e ps" for pc ps using that by (induction ps arbitrary: pc) fastforce+
  then have "pc + pl_bytecode_width ops pc \<le> e" using Cons.prems(1) by auto
  then show ?case using Cons width_pos[of ops pc] by fastforce
qed simp

lemma path_le: "path ops pc e ps \<Longrightarrow> pc \<le> e"
  by (induction ps arbitrary: pc) fastforce+

text \<open>The width is that of the instruction.\<close>

lemma width_chunk:
  assumes wf: "wf_ops X ops (xs @ c # ys)"
  shows "pl_bytecode_width ops (length (concat xs)) = length c"
proof -
  let ?i = "length (concat xs)"
  note at = wf_at[OF wf]
  have m: "onum ops (Suc ?i) = onum c 1" if "1 < length c" using at(4)[of 1] that by simp
  have b: "obane ops (Suc (Suc ?i)) = obane c 2" if "2 < length c" using at(5)[of 2] that by simp
  show ?thesis unfolding pl_bytecode_width_def Let_def at(3)
    by (insert instr_ok_opcodes[OF at(1)], elim disjE; insert at(1) m b; simp add: instr_ok_def split: if_splits)
qed

lemma width_starts:
  assumes wf: "wf_ops X ops cs" and pc: "pc \<in> starts cs"
  shows "pc + pl_bytecode_width ops pc \<in> starts cs \<or> pc + pl_bytecode_width ops pc = length ops"
proof -
  obtain xs c ys where c: "cs = xs @ c # ys" "pc = length (concat xs)" using pc by (auto simp: starts_from_iff)
  show ?thesis
  proof (cases ys)
    case Nil
    then show ?thesis using width_chunk[OF wf[unfolded c(1)]] c wf_length[OF wf] by simp
  next
    case (Cons y ys')
    then show ?thesis using width_chunk[OF wf[unfolded c(1)]] c by (simp add: starts_from_append)
  qed
qed

subsection \<open>The walk\<close>

definition scan_inv :: "gval list \<Rightarrow> nat list \<Rightarrow> scan \<Rightarrow> bool" where
  "scan_inv ops pcs s \<longleftrightarrow> path ops (b_start (sc_b s)) (sc_end s) pcs \<and> map bs_op (b_steps (sc_b s)) = map (onum ops) pcs \<and>
     b_cells (sc_b s) = sum_list (map (instr_cells ops) pcs) \<and> b_cells (sc_b s) \<le> BATCH_CELLS \<and>
     length (sc_lits s) \<le> length pcs \<and> b_extra (sc_b s) \<le> length pcs \<and>
     sc_allocs s = length (List.filter (\<lambda>p. instr_cells ops p \<noteq> 0) pcs)"

lemma scan_inv_init: "scan_inv ops [] (scan_init pc)"
  by (simp add: scan_inv_def scan_init_def)

definition scan_next :: "gval list \<Rightarrow> nat list \<Rightarrow> scan \<Rightarrow> scan \<Rightarrow> bool" where
  "scan_next ops pcs s s' \<longleftrightarrow> scan_inv ops (pcs @ [sc_end s]) s' \<and> b_start (sc_b s') = b_start (sc_b s)"

lemma batch_add_inv:
  assumes "batch_add ops st cells lits b s = Some s'" "scan_inv ops pcs s"
    "b_start b = b_start (sc_b s)" "b_cells b = b_cells (sc_b s)" "b_steps b = b_steps (sc_b s)" "b_extra b = b_extra (sc_b s)"
    "bs_op st = onum ops (sc_end s)" "cells = instr_cells ops (sc_end s)" "length lits \<le> Suc (length (sc_lits s))"
  shows "scan_next ops pcs s s'"
  using batch_add_Some[OF assms(1)] assms(2-) path_snoc[of ops "b_start b" "sc_end s" pcs] by (simp add: scan_next_def scan_inv_def)

lemma batch_push_inv:
  assumes "batch_push ops s = Some s'" "scan_inv ops pcs s" "onum ops (sc_end s) \<in> {OP_PUSH_LIT, OP_PUSH_VAR, OP_PUSH_SLOT}"
  shows "scan_next ops pcs s s'"
  using assms(1,3) unfolding batch_push_def Let_def
  by (auto split: if_splits intro!: batch_add_inv[OF _ assms(2)] simp: instr_cells_def)

lemma batch_instr_inv:
  assumes "batch_instr h ops s = Inr (Some s')" "scan_inv ops pcs s"
  shows "scan_next ops pcs s s'"
proof -
  consider "onum ops (sc_end s) \<in> {OP_PUSH_LIT, OP_PUSH_VAR, OP_PUSH_SLOT}" "batch_push ops s = Some s'"
    | "onum ops (sc_end s) = OP_MK_APP" "batch_mk_app h ops s = Inr (Some s')" | "onum ops (sc_end s) = OP_MK_THK" "batch_mk_thk ops s = Some s'"
    using assms(1) by (auto simp: batch_instr_def Let_def split: if_splits)
  then show ?thesis
  proof cases
    case 1
    then show ?thesis using batch_push_inv assms(2) by blast
  next
    case 2
    then show ?thesis unfolding batch_mk_app_def Let_def
      by (auto simp: res_simps instr_cells_def Let_def split: if_splits option.splits intro!: batch_add_inv[OF _ assms(2)])
  next
    case 3
    then show ?thesis unfolding batch_mk_thk_def Let_def
      by (auto simp: instr_cells_def split: if_splits option.splits intro!: batch_add_inv[OF _ assms(2)])
  qed
qed

text \<open>The instructions of a batch behind its first one are no targets and no entries.\<close>

definition inner_ok :: "pl_code \<Rightarrow> bool list \<Rightarrow> nat \<Rightarrow> nat list \<Rightarrow> bool" where
  "inner_ok c target start pcs \<longleftrightarrow> (\<forall>p \<in> set pcs. p < length (xc_ops c) \<and> (p \<noteq> start \<longrightarrow> \<not> target ! p \<and> p \<noteq> xc_strict_entry c))"

lemma batch_scan_inv:
  assumes "batch_scan h c target s = Inr s'" "scan_inv (xc_ops c) pcs s" "inner_ok c target (b_start (sc_b s)) pcs" "length pcs \<le> BATCH_STEPS"
  shows "\<exists>pcs'. scan_inv (xc_ops c) pcs' s' \<and> inner_ok c target (b_start (sc_b s)) pcs' \<and> length pcs' \<le> BATCH_STEPS \<and> b_start (sc_b s') = b_start (sc_b s)"
  using assms
proof (induction h c target s arbitrary: pcs rule: batch_scan.induct)
  case (1 h c target s)
  let ?go = "sc_end s < length (xc_ops c) \<and> length (b_steps (sc_b s)) < BATCH_STEPS \<and>
         (sc_end s = b_start (sc_b s) \<or> (\<not> target ! sc_end s \<and> sc_end s \<noteq> xc_strict_entry c))"
  show ?case
  proof (cases "?go \<and> (\<exists>s1. batch_instr h (xc_ops c) s = Inr (Some s1))")
    case True
    then obtain s1 where s1: "batch_instr h (xc_ops c) s = Inr (Some s1)" and go: ?go by blast
    have r: "batch_scan h c target s1 = Inr s'" using 1(2) s1 go by (subst (asm) batch_scan.simps) simp
    have i1: "scan_inv (xc_ops c) (pcs @ [sc_end s]) s1" "b_start (sc_b s1) = b_start (sc_b s)" using batch_instr_inv[OF s1 1(3)] by (simp_all add: scan_next_def)
    have "length pcs = length (b_steps (sc_b s))" using 1(3) unfolding scan_inv_def by (metis length_map)
    then have l: "length (pcs @ [sc_end s]) \<le> BATCH_STEPS" using go by simp
    have n: "inner_ok c target (b_start (sc_b s1)) (pcs @ [sc_end s])" using 1(4) go i1(2) by (auto simp: inner_ok_def)
    from 1(1)[OF go s1 refl r i1(1) n l] show ?thesis using i1(2) by simp
  next
    case False
    then have "s' = s" using 1(2) by (subst (asm) batch_scan.simps) (auto split: if_splits sum.splits option.splits)
    then show ?thesis using 1(3-5) by blast
  qed
qed

subsection \<open>The plans of a code\<close>

lemma credit_sum: "credit_run ops pcs (sum_list (map (instr_cells ops) pcs)) = Some 0"
  by (induction pcs) (simp_all add: use_credit_def)

lemma path_starts:
  assumes wf: "wf_ops X ops cs"
  shows "path ops pc e pcs \<Longrightarrow> pc \<in> starts cs \<or> pc = length ops \<Longrightarrow> \<forall>p \<in> set pcs. p < length ops \<Longrightarrow>
    set pcs \<subseteq> starts cs \<and> (e \<in> starts cs \<or> e = length ops)"
proof (induction pcs arbitrary: pc)
  case (Cons p pcs)
  then have "p \<in> starts cs" by auto
  then show ?case using Cons.IH[of "p + pl_bytecode_width ops p"] Cons.prems width_starts[OF wf] by auto
qed simp

text \<open>What a plan promises: the instructions at \<open>pcs\<close>, and that they use up its cells.\<close>

definition plan_ok :: "pl_code \<Rightarrow> bool list \<Rightarrow> nat set \<Rightarrow> pl_batch \<Rightarrow> nat list \<Rightarrow> bool" where
  "plan_ok c target S b pcs \<longleftrightarrow> path (xc_ops c) (b_start b) (b_end b) pcs \<and> pcs \<noteq> [] \<and> set pcs \<subseteq> S \<and> inner_ok c target (b_start b) pcs \<and>
     map bs_op (b_steps b) = map (onum (xc_ops c)) pcs \<and> length pcs \<le> BATCH_STEPS \<and> b_extra b \<le> length pcs \<and>
     b_cells b \<le> BATCH_CELLS \<and> credit_run (xc_ops c) pcs (b_cells b) = Some 0"

definition plans_ok :: "pl_code \<Rightarrow> bool list \<Rightarrow> nat set \<Rightarrow> pl_batch list \<Rightarrow> bool" where
  "plans_ok c target S bs \<longleftrightarrow> sorted_wrt (\<lambda>a b. b_end a \<le> b_start b) bs \<and> (\<forall>b \<in> set bs. \<exists>pcs. plan_ok c target S b pcs)"

lemma scan_plan:
  assumes wf: "wf_ops X (xc_ops c) cs" and r: "batch_scan h c target (scan_init pc) = Inr s" and pc: "pc \<in> starts cs"
  shows "sc_end s \<in> starts cs \<or> sc_end s = length (xc_ops c)" "b_start (sc_b s) = pc"
    "2 \<le> sc_allocs s \<Longrightarrow> \<exists>pcs. plan_ok c target (starts cs) ((sc_b s)\<lparr>b_end := sc_end s\<rparr>) pcs"
proof -
  obtain pcs where p: "scan_inv (xc_ops c) pcs s" "inner_ok c target pc pcs" "length pcs \<le> BATCH_STEPS" and st: "b_start (sc_b s) = pc"
    using batch_scan_inv[OF r scan_inv_init] by (auto simp: inner_ok_def scan_init_def)
  have n: "\<forall>p \<in> set pcs. p < length (xc_ops c)" using p(2) by (simp add: inner_ok_def)
  have pa: "path (xc_ops c) pc (sc_end s) pcs" using p(1) st by (simp add: scan_inv_def)
  note ps = path_starts[OF wf pa disjI1[OF pc] n]
  show "sc_end s \<in> starts cs \<or> sc_end s = length (xc_ops c)" "b_start (sc_b s) = pc" using ps st by blast+
  show "\<exists>pcs. plan_ok c target (starts cs) ((sc_b s)\<lparr>b_end := sc_end s\<rparr>) pcs" if "2 \<le> sc_allocs s"
  proof -
    have "pcs \<noteq> []" using that p(1) by (auto simp: scan_inv_def)
    then have "plan_ok c target (starts cs) ((sc_b s)\<lparr>b_end := sc_end s\<rparr>) pcs"
      using p pa ps st credit_sum[of "xc_ops c" pcs] by (simp add: plan_ok_def scan_inv_def)
    then show ?thesis by blast
  qed
qed

lemma plan_start_less: "plan_ok c target S b pcs \<Longrightarrow> b_start b < b_end b \<and> b_start b \<in> S \<and> hd pcs = b_start b"
  using path_range[of "xc_ops c" "b_start b" "b_end b" pcs "hd pcs"] by (cases pcs) (auto simp: plan_ok_def)

lemma batch_loop_ok:
  assumes wf: "wf_ops X (xc_ops c) cs"
  shows "batch_loop h c target pc bs = Inr bs' \<Longrightarrow> pc \<in> starts cs \<or> pc = length (xc_ops c) \<Longrightarrow> plans_ok c target (starts cs) bs \<Longrightarrow>
    \<forall>b \<in> set bs. b_end b \<le> pc \<Longrightarrow> plans_ok c target (starts cs) bs'"
  using wf
proof (induction h c target pc bs rule: batch_loop.induct)
  case (1 h c target pc bs)
  show ?case
  proof (cases "pc < length (xc_ops c)")
    case True
    then have pc: "pc \<in> starts cs" using 1(3) by simp
    let ?nx = "\<lambda>s. if pc < sc_end s then sc_end s else pc + pl_bytecode_width (xc_ops c) pc"
    obtain s where s: "batch_scan h c target (scan_init pc) = Inr s"
        "batch_loop h c target (?nx s) (if 2 \<le> sc_allocs s then bs @ [(sc_b s)\<lparr>b_end := sc_end s\<rparr>] else bs) = Inr bs'"
      using 1(2) True by (subst (asm) batch_loop.simps) (auto split: sum.splits)
    note sp = scan_plan[OF 1(6) s(1) pc]
    have nx: "?nx s \<in> starts cs \<or> ?nx s = length (xc_ops c)" "pc \<le> ?nx s" using sp(1) width_starts[OF 1(6) pc] by auto
    show ?thesis
    proof (cases "2 \<le> sc_allocs s")
      case A: True
      let ?b = "(sc_b s)\<lparr>b_end := sc_end s\<rparr>"
      obtain pcs where pl: "plan_ok c target (starts cs) ?b pcs" using sp(3)[OF A] by blast
      then have lt: "pc < sc_end s" using plan_start_less[OF pl] sp(2) by simp
      have "plans_ok c target (starts cs) (bs @ [?b])" using 1(4,5) pl sp(2) by (auto simp: plans_ok_def sorted_wrt_append)
      moreover have "\<forall>b \<in> set (bs @ [?b]). b_end b \<le> ?nx s" using 1(5) lt by fastforce
      ultimately show ?thesis using 1(1)[OF True s(1)] s(2) nx 1(6) A by simp
    next
      case False
      have "\<forall>b \<in> set bs. b_end b \<le> ?nx s" using 1(5) nx(2) by fastforce
      then show ?thesis using 1(1)[OF True s(1)] s(2) nx 1(4,6) False by simp
    qed
  next
    case False
    then have "bs' = bs" using 1(2) by (subst (asm) batch_loop.simps) simp
    then show ?thesis using 1(4) by simp
  qed
qed

lemma prepare_ok:
  assumes wf: "wf_ops X (xc_ops c) cs" and r: "pl_batch_prepare enabled h c target = Inr (bs, ov)"
  shows "plans_ok c target (starts cs) bs"
proof -
  have "0 \<in> starts cs" using wf by (cases cs) (simp_all add: wf_ops_def)
  moreover have "bs = [] \<or> batch_loop h c target 0 [] = Inr bs" using r by (auto simp: pl_batch_prepare_def res_simps split: if_splits)
  ultimately show ?thesis using batch_loop_ok[OF wf, of h target 0 "[]" bs] by (auto simp: plans_ok_def)
qed

subsection \<open>Lookup\<close>

lemma sorted_starts:
  assumes "plans_ok c target S bs"
  shows "sorted_wrt (<) (map b_start bs)"
proof -
  have "b_start b < b_end b" if "b \<in> set bs" for b using assms that plan_start_less by (fastforce simp: plans_ok_def)
  moreover have "sorted_wrt (\<lambda>a b. b_end a \<le> b_start b) bs" using assms by (simp add: plans_ok_def)
  ultimately show ?thesis unfolding sorted_wrt_map by (induction bs) fastforce+
qed

lemma batch_search_range:
  assumes "sorted_wrt (<) (map b_start bs)"
  shows "lo \<le> hi \<Longrightarrow> hi \<le> length bs \<Longrightarrow> \<forall>j < lo. b_start (bs ! j) < pc \<Longrightarrow> \<forall>j. hi \<le> j \<and> j < length bs \<longrightarrow> pc \<le> b_start (bs ! j) \<Longrightarrow>
    (\<forall>j < batch_search bs pc lo hi. b_start (bs ! j) < pc) \<and> (\<forall>j. batch_search bs pc lo hi \<le> j \<and> j < length bs \<longrightarrow> pc \<le> b_start (bs ! j))"
  using assms
proof (induction bs pc lo hi rule: batch_search.induct)
  case (1 bs pc lo hi)
  have mono: "b_start (bs ! i) \<le> b_start (bs ! j)" if "i \<le> j" "j < length bs" for i j
    using 1(7) that sorted_wrt_nth_less[of "(<)" "map b_start bs" i j] by (cases "i = j") auto
  show ?case
  proof (cases "lo < hi")
    case True
    define mid where "mid = lo + (hi - lo) div 2"
    have m: "lo \<le> mid" "mid < hi" using True by (auto simp: mid_def)
    show ?thesis
    proof (cases "b_start (bs ! mid) < pc")
      case S: True
      have eq: "batch_search bs pc lo hi = batch_search bs pc (mid + 1) hi" using True S by (subst batch_search.simps) (simp add: Let_def mid_def)
      have lo: "\<forall>j < mid + 1. b_start (bs ! j) < pc"
      proof (intro allI impI)
        fix j assume "j < mid + 1"
        then show "b_start (bs ! j) < pc" using mono[of j mid] S m 1(4) by simp
      qed
      show ?thesis unfolding eq by (rule 1(1)[OF True mid_def S]) (use m 1(4,6,7) lo in simp_all)
    next
      case S: False
      have eq: "batch_search bs pc lo hi = batch_search bs pc lo mid" using True S by (subst batch_search.simps) (simp add: Let_def mid_def)
      have hi: "\<forall>j. mid \<le> j \<and> j < length bs \<longrightarrow> pc \<le> b_start (bs ! j)"
      proof (intro allI impI)
        fix j assume "mid \<le> j \<and> j < length bs"
        then show "pc \<le> b_start (bs ! j)" using mono[of mid j] S by simp
      qed
      show ?thesis unfolding eq by (rule 1(2)[OF True mid_def S]) (use m 1(4,5,7) hi in simp_all)
    qed
  next
    case False
    then have "batch_search bs pc lo hi = lo" "lo = hi" using 1(3) by (simp_all add: batch_search.simps)
    then show ?thesis using 1(5,6) by simp
  qed
qed

lemma batch_at_iff:
  assumes "plans_ok c target S bs"
  shows "pl_batch_at bs pc = Some b \<longleftrightarrow> b \<in> set bs \<and> b_start b = pc"
proof -
  note so = sorted_starts[OF assms]
  let ?k = "batch_search bs pc 0 (length bs)"
  have r: "\<forall>j < ?k. b_start (bs ! j) < pc" "\<forall>j. ?k \<le> j \<and> j < length bs \<longrightarrow> pc \<le> b_start (bs ! j)"
    using batch_search_range[OF so, of 0 "length bs" pc] by simp_all
  show ?thesis
  proof
    assume "pl_batch_at bs pc = Some b"
    then have "?k < length bs" "b = bs ! ?k" "b_start b = pc" by (auto simp: pl_batch_at_def Let_def split: if_splits)
    then show "b \<in> set bs \<and> b_start b = pc" using nth_mem[of ?k bs] by simp
  next
    assume "b \<in> set bs \<and> b_start b = pc"
    then obtain j where j: "j < length bs" "bs ! j = b" "b_start (bs ! j) = pc" by (auto simp: in_set_conv_nth)
    have k: "?k \<le> j" using r(1) j(3) by (meson leI less_irrefl)
    have "?k = j"
    proof (rule ccontr)
      assume "?k \<noteq> j"
      then have "?k < j" using k by simp
      then have "b_start (bs ! ?k) < pc" using sorted_wrt_nth_less[OF so, of ?k j] j by simp
      moreover have "pc \<le> b_start (bs ! ?k)" using r(2) \<open>?k < j\<close> j(1) by simp
      ultimately show False by simp
    qed
    then show "pl_batch_at bs pc = Some b" using j by (simp add: pl_batch_at_def)
  qed
qed

lemma overlay_nth:
  assumes "\<forall>b \<in> set bs. b_start b < length ops" "j < length ops"
  shows "foldl (\<lambda>ops b. ops[b_start b := v]) ops bs ! j = (if j \<in> b_start ` set bs then v else ops ! j)"
proof -
  have l: "length (foldl (\<lambda>ops b. ops[b_start b := v]) ops bs) = length ops" for bs by (induction bs rule: rev_induct) simp_all
  show ?thesis using assms by (induction bs rule: rev_induct) (auto simp: nth_list_update l)
qed

lemma prepare_overlay:
  assumes wf: "wf_ops X (xc_ops c) cs" and r: "pl_batch_prepare enabled h c target = Inr (bs, ov)" and j: "j < length (xc_ops c)"
  shows "pl_batch_ops c ov ! j = (if j \<in> b_start ` set bs then onat OP_BUILD else xc_ops c ! j)"
proof -
  note ok = prepare_ok[OF wf r]
  have "b_start b < length (xc_ops c)" if "b \<in> set bs" for b
  proof -
    have "b_start b \<in> starts cs" using ok that plan_start_less by (fastforce simp: plans_ok_def)
    then show ?thesis using starts_less[of cs "b_start b"] wf instr_ok_ne by (auto simp: wf_ops_def)
  qed
  then show ?thesis using r overlay_nth[of bs "xc_ops c" j "onat OP_BUILD"] j
    by (auto simp: pl_batch_prepare_def pl_batch_ops_def res_simps split: if_splits)
qed

text \<open>No batch starts inside another.\<close>

lemma inner_no_batch:
  assumes ok: "plans_ok c target S bs" and b: "b \<in> set bs" "plan_ok c target S b pcs" and p: "p \<in> set pcs" "p \<in> b_start ` set bs"
  shows "p = b_start b"
proof (rule ccontr)
  assume ne: "p \<noteq> b_start b"
  obtain b' where b': "b' \<in> set bs" "b_start b' = p" using p(2) by blast
  have r: "b_start b < p" "p < b_end b" using path_range[of "xc_ops c" "b_start b" "b_end b" pcs p] b(2) p(1) ne by (simp_all add: plan_ok_def)
  have so: "sorted_wrt (\<lambda>a b. b_end a \<le> b_start b) bs" using ok by (simp add: plans_ok_def)
  have "b_start b' < b_end b'" using ok b'(1) plan_start_less by (fastforce simp: plans_ok_def)
  moreover obtain i i' where i: "i < length bs" "bs ! i = b" "i' < length bs" "bs ! i' = b'" using b(1) b'(1) by (auto simp: in_set_conv_nth)
  ultimately show False using sorted_wrt_nth_less[OF so, of i i'] sorted_wrt_nth_less[OF so, of i' i] b'(2) r by (cases i i' rule: linorder_cases) auto
qed

text \<open>
  C39. The construction batches and the credit of their cells. On the overlay the interpreter dispatches on, an instruction is either
  the one of the code or the start of a batch. There the search finds its plan; the instructions the plan stands for are those that follow in the code, none but
  the first is a jump target or the strict entry or the start of another batch, and using up
  the reserved cells one instruction at a time never asks for more than is left and ends with nothing left. So the
  assertions of the interpreter on the credit hold wherever code is only entered at targets and entries.
\<close>

theorem batch_credit_exact:
  assumes "wf_ops X (xc_ops c) cs" "pl_batch_prepare enabled h c target = Inr (bs, ov)" "j \<in> starts cs"
  shows "pl_batch_ops c ov ! j = xc_ops c ! j \<and> pl_batch_at bs j = None \<or>
    pl_batch_ops c ov ! j = onat OP_BUILD \<and> (\<exists>b pcs. pl_batch_at bs j = Some b \<and> path (xc_ops c) j (b_end b) (j # pcs) \<and>
      map bs_op (b_steps b) = map (onum (xc_ops c)) (j # pcs) \<and> credit_run (xc_ops c) (j # pcs) (b_cells b) = Some 0 \<and>
      b_extra b \<le> BATCH_STEPS \<and> b_cells b \<le> BATCH_CELLS \<and>
      (\<forall>p \<in> set pcs. p \<in> starts cs \<and> \<not> target ! p \<and> p \<noteq> xc_strict_entry c \<and> pl_batch_ops c ov ! p = xc_ops c ! p))"
proof -
  note ok = prepare_ok[OF assms(1,2)]
  have n: "p < length (xc_ops c)" if "p \<in> starts cs" for p
    using starts_less[of cs p] assms(1) that instr_ok_ne by (auto simp: wf_ops_def)
  note ov = prepare_overlay[OF assms(1,2)]
  show ?thesis
  proof (cases "j \<in> b_start ` set bs")
    case True
    then obtain b where b: "b \<in> set bs" "b_start b = j" by blast
    obtain pcs' where pl: "plan_ok c target (starts cs) b pcs'" using ok b(1) by (auto simp: plans_ok_def)
    then obtain pcs where pcs: "pcs' = j # pcs" using plan_start_less[OF pl] b(2) by (cases pcs') (auto simp: plan_ok_def)
    have at: "pl_batch_at bs j = Some b" using batch_at_iff[OF ok] b by simp
    have pl': "path (xc_ops c) j (b_end b) (j # pcs)" "set pcs \<subseteq> starts cs" "inner_ok c target j (j # pcs)"
        "map bs_op (b_steps b) = map (onum (xc_ops c)) (j # pcs)"
        "credit_run (xc_ops c) (j # pcs) (b_cells b) = Some 0" "b_extra b \<le> BATCH_STEPS" "b_cells b \<le> BATCH_CELLS"
      using pl b(2) unfolding plan_ok_def pcs by simp_all
    have i: "p \<in> starts cs \<and> \<not> target ! p \<and> p \<noteq> xc_strict_entry c \<and> pl_batch_ops c ov ! p = xc_ops c ! p" if p: "p \<in> set pcs" for p
    proof -
      have ne: "p \<noteq> j" using path_range[of "xc_ops c" "j + pl_bytecode_width (xc_ops c) j" "b_end b" pcs p] p pl'(1) width_pos[of "xc_ops c" j] by auto
      have st: "p \<in> starts cs" using pl'(2) p by blast
      have "p \<notin> b_start ` set bs" using inner_no_batch[OF ok b(1) pl, of p] p ne b(2) by (auto simp: pcs)
      then show ?thesis using ov[OF n[OF st]] st ne p pl'(3) by (simp add: inner_ok_def)
    qed
    show ?thesis
    proof (rule disjI2, intro conjI exI)
      show "pl_batch_ops c ov ! j = onat OP_BUILD" using True ov[OF n[OF assms(3)]] by simp
      show "pl_batch_at bs j = Some b" by (rule at)
      show "\<forall>p \<in> set pcs. p \<in> starts cs \<and> \<not> target ! p \<and> p \<noteq> xc_strict_entry c \<and> pl_batch_ops c ov ! p = xc_ops c ! p" using i by blast
    qed (use pl' in simp_all)
  next
    case False
    then have "pl_batch_at bs j = None" using batch_at_iff[OF ok, of j] by (metis imageI not_Some_eq)
    then show ?thesis using False ov[OF n[OF assms(3)]] by simp
  qed
qed

text \<open>Example: an application and a thunk, built in one batch.\<close>

definition pair_instrs :: "gval list list" where
  "pair_instrs = map (map onat) [[OP_PUSH_LIT, 5], [OP_PUSH_LIT, 7], [OP_MK_APP, 1], [OP_PUSH_LIT, 9], [OP_PUSH_LIT, 3], [OP_MK_THK, 2, 2], [OP_RET]]"

definition pair_code :: pl_code where
  "pair_code = \<lparr>xc_ops = concat pair_instrs, xc_strict_mask = 0, xc_strict_entry = 0, xc_max_var = 0, xc_arity = 0\<rparr>"

lemma pair_wf: "wf_ops {} (xc_ops pair_code) pair_instrs"
  by (simp add: wf_ops_def pair_code_def pair_instrs_def is_ret_def instr_ok_def jump_targets_def onum_def oword_def is_num_def
      onat_def unum_def obane_def PL_BAN_PRIM_KNOWN_def PL_BAN_FAST_def PL_BAN_SLOW_def PL_BAN_PRIM_def PL_BAN_MASK_def)

lemmas batch_eval = batch_loop.simps batch_scan.simps batch_defs batch_add_def scan_init_def pl_bytecode_width_def Let_def
  BATCH_STEPS_def BATCH_CELLS_def PL_APP_CELLS_def PL_THKE_CELLS_def pl_arity_h_def onum_def oword_def onat_def unum_def obane_def
  PL_BAN_PRIM_KNOWN_def PL_BAN_MASK_def PL_BAN_NOUPD_def PL_SPEC_NONE_def

definition pair_plan :: pl_batch where
  "pair_plan = \<lparr>b_start = 0, b_end = 13, b_cells = 7, b_extra = 3, b_depth = 0, b_vars = 0, b_steps =
     [\<lparr>bs_op = OP_PUSH_LIT, bs_arg = 1, bs_aux = 0, bs_flags = 0\<rparr>, \<lparr>bs_op = OP_PUSH_LIT, bs_arg = 3, bs_aux = 0, bs_flags = 0\<rparr>,
      \<lparr>bs_op = OP_MK_APP, bs_arg = 1, bs_aux = 0, bs_flags = 0\<rparr>, \<lparr>bs_op = OP_PUSH_LIT, bs_arg = 7, bs_aux = 0, bs_flags = 0\<rparr>,
      \<lparr>bs_op = OP_PUSH_LIT, bs_arg = 9, bs_aux = 0, bs_flags = 0\<rparr>, \<lparr>bs_op = OP_MK_THK, bs_arg = 2, bs_aux = 0, bs_flags = 2\<rparr>]\<rparr>"

lemma pair_loop: "batch_loop [] pair_code (replicate 14 False) 0 [] = Inr [pair_plan]"
  by (simp add: batch_eval pair_code_def pair_instrs_def pair_plan_def)

lemma pair_prepared: "\<exists>ov. pl_batch_prepare True [] pair_code (replicate 14 False) = Inr ([pair_plan], ov)"
  by (simp add: pl_batch_prepare_def pair_loop) (simp add: pair_code_def pair_instrs_def)

theorem batch_credit_exact_witness:
  "\<exists>ov pcs. pl_batch_prepare True [] pair_code (replicate 14 False) = Inr ([pair_plan], ov) \<and> pl_batch_ops pair_code ov ! 0 = onat OP_BUILD \<and>
     path (xc_ops pair_code) 0 13 (0 # pcs) \<and> credit_run (xc_ops pair_code) (0 # pcs) 7 = Some 0"
proof -
  obtain ov where p: "pl_batch_prepare True [] pair_code (replicate 14 False) = Inr ([pair_plan], ov)" using pair_prepared by blast
  have at: "pl_batch_at [pair_plan] 0 = Some pair_plan" by (simp add: pl_batch_at_def batch_search.simps pair_plan_def)
  have "0 \<in> starts pair_instrs" by (simp add: pair_instrs_def)
  from batch_credit_exact[OF pair_wf p this] show ?thesis using p at by (auto simp: pair_plan_def)
qed

text \<open>
  C40. \<open>pl_batch_at\<close> is a binary search in place of a search from the front: on the batches of a code it finds the one that starts at the
  counter, and none where there is none.
\<close>

theorem batch_lookup:
  assumes "wf_ops X (xc_ops c) cs" "pl_batch_prepare enabled h c target = Inr (bs, ov)"
  shows "pl_batch_at bs pc = List.find (\<lambda>b. b_start b = pc) bs"
proof -
  note ok = prepare_ok[OF assms]
  show ?thesis
  proof (cases "List.find (\<lambda>b. b_start b = pc) bs")
    case None
    then have "\<forall>b \<in> set bs. b_start b \<noteq> pc" by (simp add: find_None_iff)
    then show ?thesis using batch_at_iff[OF ok, of pc] None by (metis not_Some_eq)
  next
    case (Some b)
    then have "b \<in> set bs" "b_start b = pc" by (auto simp: find_Some_iff)
    then show ?thesis using batch_at_iff[OF ok, of pc b] Some by simp
  qed
qed

theorem batch_lookup_witness: "pl_batch_at [pair_plan] 0 = Some pair_plan \<and> pl_batch_at [pair_plan] 13 = None"
proof -
  obtain ov where p: "pl_batch_prepare True [] pair_code (replicate 14 False) = Inr ([pair_plan], ov)" using pair_prepared by blast
  show ?thesis using batch_lookup[OF pair_wf p, of 0] batch_lookup[OF pair_wf p, of 13] by (simp add: pair_plan_def)
qed

end
