(* ===== verification/Plan_Gc.thy ===== *)
theory Plan_Gc
  imports Plan_Word
begin

text \<open>
  The moving heap of a thread, \<open>pkg/plan/src/heap.c\<close>: two semispaces with a bump frontier and Cheney's copying
  collector. Memory is a function on the numbers of the 8-byte cells: the cell \<open>p\<close> has the address \<open>8 * p\<close>, and a value that is
  a pointer holds that address. The test \<open>pl_store_owns\<close> is the parameter \<open>own\<close>, false without a store. The root
  sources are the list of the values in the slots they visit, in order; the new values are returned. The checks of
  debug builds and the statistics are left out. New semispaces come from \<open>mmap\<close>: the places of a pair of them are a
  parameter \<open>sp\<close>, a function of their size, and a failure of \<open>mmap\<close>, which aborts, is left out. The memory keeps the cells of a
  space that was given back with \<open>madvise\<close> or \<open>munmap\<close>; nothing reads them before they are written again.
\<close>

subsection \<open>Values and cells\<close>

type_synonym cmem = "nat \<Rightarrow> u64"

definition gptr :: "pl_val \<Rightarrow> nat" where
  "gptr v = unat (pl_addr v) div 8"

definition gmake :: "u64 \<Rightarrow> nat \<Rightarrow> pl_val" where
  "gmake tag p = pl_make tag (8 * word_of_nat p)"

abbreviation hkind :: "cmem \<Rightarrow> nat \<Rightarrow> pl_kind" where
  "hkind m p \<equiv> pl_hdr_kind (m p)"

abbreviation hcells :: "cmem \<Rightarrow> nat \<Rightarrow> nat" where
  "hcells m p \<equiv> unat (pl_hdr_cells (m p))"

definition cell_copy :: "cmem \<Rightarrow> nat \<Rightarrow> nat \<Rightarrow> nat \<Rightarrow> cmem" where
  "cell_copy m dst src n = (\<lambda>j. if dst \<le> j \<and> j < dst + n then m (src + (j - dst)) else m j)"

subsection \<open>Evacuation\<close>

record pl_gc_ctx =
  gc_mem :: cmem
  gc_free :: nat

text \<open>An object copied to the frontier of the target; what is left of it forwards to the copy.\<close>

definition evacuate :: "nat \<Rightarrow> pl_gc_ctx \<Rightarrow> pl_val \<times> pl_gc_ctx" where
  "evacuate p g =
     (let hdr = gc_mem g p; np = gc_free g; cells = hcells (gc_mem g) p;
          nv = gmake (pl_tag_for_kind (pl_hdr_kind hdr)) np;
          m = cell_copy (gc_mem g) np p cells in
      (nv, \<lparr>gc_mem = m(p := hdr_word PL_K_FWD 0 0 (pl_hdr_cells hdr), p + 1 := nv), gc_free = np + cells\<rparr>))"

partial_function (option) pl_forward :: "(pl_val \<Rightarrow> bool) \<Rightarrow> pl_val \<Rightarrow> pl_gc_ctx \<Rightarrow> (pl_val \<times> pl_gc_ctx) option" where
  "pl_forward own v g =
     (if val_is_nat63 v \<or> own v then Some (v, g)
      else if hkind (gc_mem g) (gptr v) = PL_K_FWD then Some (gc_mem g (gptr v + 1), g)
      else if hkind (gc_mem g) (gptr v) = PL_K_IND then pl_forward own (gc_mem g (gptr v + 1)) g
      else Some (evacuate (gptr v) g))"

declare pl_forward.simps [code]

text \<open>\<open>pl_gc_visit\<close> on slots of the heap, and on the slots of the root sources.\<close>

fun forward_slots :: "(pl_val \<Rightarrow> bool) \<Rightarrow> nat list \<Rightarrow> pl_gc_ctx \<Rightarrow> pl_gc_ctx option" where
  "forward_slots own [] g = Some g"
| "forward_slots own (j # js) g = (case pl_forward own (gc_mem g j) g of
     None \<Rightarrow> None
   | Some (v, g') \<Rightarrow> forward_slots own js (g'\<lparr>gc_mem := (gc_mem g')(j := v)\<rparr>))"

fun pl_gc_visit :: "(pl_val \<Rightarrow> bool) \<Rightarrow> pl_val list \<Rightarrow> pl_gc_ctx \<Rightarrow> (pl_val list \<times> pl_gc_ctx) option" where
  "pl_gc_visit own [] g = Some ([], g)"
| "pl_gc_visit own (v # vs) g = (case pl_forward own v g of
     None \<Rightarrow> None
   | Some (v', g') \<Rightarrow> (case pl_gc_visit own vs g' of None \<Rightarrow> None | Some (vs', g'') \<Rightarrow> Some (v' # vs', g'')))"

subsection \<open>Scanning\<close>

text \<open>The cells of an object that hold values, other than a PIN's: the first and their number.\<close>

definition scan_fields :: "pl_cell \<Rightarrow> (nat \<times> nat) option" where
  "scan_fields hdr =
     (let kind = pl_hdr_kind hdr; cells = unat (pl_hdr_cells hdr) in
      if kind = PL_K_NAT then Some (0, 0)
      else if kind = PL_K_APP \<or> kind = PL_K_ENV then Some (1, cells - 1)
      else if kind = PL_K_LAW then Some (2, 2)
      else if kind = PL_K_THUNK then Some (1, 2)
      else if kind = PL_K_THKE then Some (2, cells - 2)
      else if kind = PL_K_IND \<or> kind = PL_K_BH then Some (1, 1)
      else None)"

definition is_proxy :: "pl_cell \<Rightarrow> bool" where
  "is_proxy hdr \<longleftrightarrow> pl_hdr_flags hdr AND PL_F_PIN_PROXY \<noteq> 0"

definition proxy_layout :: "pl_cell \<Rightarrow> bool" where
  "proxy_layout hdr \<longleftrightarrow> is_proxy hdr \<and> pl_hdr_meta hdr = 0 \<and> pl_hdr_cells hdr = 7"

text \<open>\<open>pl_pin_set_target\<close> on this memory.\<close>

definition canonical_hdr :: "pl_cell \<Rightarrow> bool" where
  "canonical_hdr hdr \<longleftrightarrow> pl_hdr_kind hdr = PL_K_PIN \<and> \<not> is_proxy hdr \<and> pl_hdr_flags hdr AND PL_F_PIN_HASHED \<noteq> 0"

definition set_target :: "cmem \<Rightarrow> nat \<Rightarrow> pl_val \<Rightarrow> cmem res" where
  "set_target m p canonical =
     rbind (assume_c (hkind m p = PL_K_PIN \<and> proxy_layout (m p)) ''pl_pin_set_target on a non-proxy PIN'') (\<lambda>_.
     rbind (assume_c (pl_tag canonical = PL_TAG_PIN) ''PIN proxy target is not a PIN'') (\<lambda>_.
     rbind (assume_c (canonical_hdr (m (gptr canonical))) ''PIN proxy target is not canonical'') (\<lambda>_.
     rbind (assume_c (m (p + 6) = 0 \<or> m (p + 6) = canonical) ''PIN proxy target cannot be replaced'') (\<lambda>_.
     Inr (m(p + 6 := canonical))))))"

definition scan_pin :: "(pl_val \<Rightarrow> bool) \<Rightarrow> nat \<Rightarrow> pl_gc_ctx \<Rightarrow> pl_gc_ctx res option" where
  "scan_pin own s g =
     (if \<not> proxy_layout (gc_mem g s) then Some (Inl (Abort ''canonical PIN appeared in a moving heap''))
      else let target = gc_mem g (s + 6) in
        if target = 0 then map_option Inr (forward_slots own [s + 5] g)
        else if \<not> (pl_tag target = PL_TAG_PIN \<and> own target)
        then Some (Inl (Abort ''resolved PIN proxy target is not store-resident''))
        else case pl_forward own target g of
          None \<Rightarrow> None
        | Some (moved, g') \<Rightarrow>
            if moved \<noteq> target then Some (Inl (Abort ''resolved PIN proxy target moved during collection''))
            else Some (rbind (set_target ((gc_mem g')(s + 5 := 0)) s moved) (\<lambda>m. Inr (g'\<lparr>gc_mem := m\<rparr>))))"

definition scan_obj :: "(pl_val \<Rightarrow> bool) \<Rightarrow> nat \<Rightarrow> pl_gc_ctx \<Rightarrow> pl_gc_ctx res option" where
  "scan_obj own s g =
     (if hkind (gc_mem g) s = PL_K_PIN then scan_pin own s g
      else case scan_fields (gc_mem g s) of
        None \<Rightarrow> Some (Inl (Abort ''cheney_scan: bad kind''))
      | Some (first, count) \<Rightarrow> map_option Inr (forward_slots own [s + first..<s + first + count] g))"

partial_function (option) pl_cheney_scan :: "(pl_val \<Rightarrow> bool) \<Rightarrow> nat \<Rightarrow> pl_gc_ctx \<Rightarrow> pl_gc_ctx res option" where
  "pl_cheney_scan own s g =
     (if s < gc_free g then
        (case scan_obj own s g of
           None \<Rightarrow> None
         | Some (Inl f) \<Rightarrow> Some (Inl f)
         | Some (Inr g') \<Rightarrow> pl_cheney_scan own (s + hcells (gc_mem g) s) g')
      else Some (Inr g))"

declare pl_cheney_scan.simps [code]

subsection \<open>The heap\<close>

record pl_heap =
  h_mem :: cmem
  h_from :: nat
  h_to :: nat
  h_free :: nat
  h_limit :: nat
  h_cells :: nat
  h_live :: nat

definition pl_heap_new :: "cmem \<Rightarrow> nat \<Rightarrow> nat \<Rightarrow> nat \<Rightarrow> pl_heap" where
  "pl_heap_new m fr to cells0 =
     (let cells = (if cells0 < 4096 then 4096 else cells0) in
      \<lparr>h_mem = m, h_from = fr, h_to = to, h_free = fr, h_limit = fr + cells, h_cells = cells, h_live = 0\<rparr>)"

type_synonym gc_result = "(pl_val list \<times> pl_heap) res option"

definition pl_collect_into :: "(pl_val \<Rightarrow> bool) \<Rightarrow> nat \<Rightarrow> pl_val list \<Rightarrow> pl_heap \<Rightarrow> gc_result" where
  "pl_collect_into own target roots h =
     (case pl_gc_visit own roots \<lparr>gc_mem = h_mem h, gc_free = target\<rparr> of
        None \<Rightarrow> None
      | Some (roots', g) \<Rightarrow> (case pl_cheney_scan own target g of
          None \<Rightarrow> None
        | Some (Inl f) \<Rightarrow> Some (Inl f)
        | Some (Inr g) \<Rightarrow> Some (Inr (roots', h\<lparr>h_mem := gc_mem g, h_live := gc_free g - target, h_free := gc_free g\<rparr>))))"

definition gc_then :: "gc_result \<Rightarrow> (pl_val list \<Rightarrow> pl_heap \<Rightarrow> gc_result) \<Rightarrow> gc_result" where
  "gc_then r k = (case r of None \<Rightarrow> None | Some (Inl f) \<Rightarrow> Some (Inl f) | Some (Inr (roots, h)) \<Rightarrow> k roots h)"

definition pl_gc_collect :: "(pl_val \<Rightarrow> bool) \<Rightarrow> pl_val list \<Rightarrow> pl_heap \<Rightarrow> gc_result" where
  "pl_gc_collect own roots h = gc_then (pl_collect_into own (h_to h) roots h) (\<lambda>roots h.
     Some (Inr (roots, h\<lparr>h_from := h_to h, h_to := h_from h, h_limit := h_to h + h_cells h\<rparr>)))"

text \<open>The doubling loop; a heap has cells, so it ends.\<close>

function grow_want :: "nat \<Rightarrow> nat \<Rightarrow> nat" where
  "grow_want want least = (if want < least \<and> 0 < want then grow_want (want * 2) least else want)"
  by pat_completeness auto
termination by (relation "measure (\<lambda>(want, least). least - want)") auto

declare grow_want.simps [simp del]

definition pl_gc_grow :: "(nat \<Rightarrow> nat \<times> nat) \<Rightarrow> (pl_val \<Rightarrow> bool) \<Rightarrow> pl_val list \<Rightarrow> pl_heap \<Rightarrow> nat \<Rightarrow> gc_result" where
  "pl_gc_grow sp own roots h need =
     (let want = grow_want (h_cells h) (h_live h + need + h_live h div 2 + 4096); (nfrom, nto) = sp want in
      gc_then (pl_collect_into own nfrom roots h) (\<lambda>roots h.
        Some (Inr (roots, h\<lparr>h_from := nfrom, h_to := nto, h_cells := want, h_limit := nfrom + want\<rparr>))))"

definition pl_gc_reserve_slow :: "(nat \<Rightarrow> nat \<times> nat) \<Rightarrow> (pl_val \<Rightarrow> bool) \<Rightarrow> pl_val list \<Rightarrow> pl_heap \<Rightarrow> nat \<Rightarrow> gc_result" where
  "pl_gc_reserve_slow sp own roots h cells =
     (if h_free h + cells \<le> h_limit h then Some (Inr (roots, h))
      else gc_then (pl_gc_collect own roots h) (\<lambda>roots h.
        gc_then (if h_limit h < h_free h + cells then pl_gc_grow sp own roots h cells else Some (Inr (roots, h))) (\<lambda>roots h.
          if h_free h + cells \<le> h_limit h then Some (Inr (roots, h)) else Some (Inl (Abort ''heap exhausted after grow'')))))"

definition pl_gc_reserve :: "(nat \<Rightarrow> nat \<times> nat) \<Rightarrow> (pl_val \<Rightarrow> bool) \<Rightarrow> pl_val list \<Rightarrow> pl_heap \<Rightarrow> nat \<Rightarrow> gc_result" where
  "pl_gc_reserve sp own roots h cells =
     (if h_free h + cells \<le> h_limit h then Some (Inr (roots, h)) else pl_gc_reserve_slow sp own roots h cells)"

definition pl_bump :: "pl_heap \<Rightarrow> nat \<Rightarrow> (nat \<times> pl_heap) res" where
  "pl_bump h cells =
     rbind (assume_c (h_free h + cells \<le> h_limit h) ''bump without reserved headroom (I2)'') (\<lambda>_.
       Inr (h_free h, h\<lparr>h_free := h_free h + cells\<rparr>))"

definition pl_gc_headroom :: "pl_heap \<Rightarrow> nat" where
  "pl_gc_headroom h = h_limit h - h_free h"

definition pl_gc_collect_if_pressure :: "(pl_val \<Rightarrow> bool) \<Rightarrow> pl_val list \<Rightarrow> pl_heap \<Rightarrow> nat \<Rightarrow> gc_result" where
  "pl_gc_collect_if_pressure own roots h floor_cells =
     (let used = h_free h - h_from h; allocated = used - h_live h; threshold = max (h_live h) floor_cells in
      if used < h_live h then Some (Inl (Abort ''heap frontier precedes last live-set size''))
      else if allocated = 0 \<or> allocated < threshold then Some (Inr (roots, h))
      else pl_gc_collect own roots h)"

definition pl_gc_trim :: "(nat \<Rightarrow> nat \<times> nat) \<Rightarrow> (pl_val \<Rightarrow> bool) \<Rightarrow> pl_val list \<Rightarrow> pl_heap \<Rightarrow> gc_result" where
  "pl_gc_trim sp own roots h = gc_then (pl_gc_collect own roots h) (\<lambda>roots h.
     let want = grow_want 4096 (h_live h + 4096); (nfrom, nto) = sp want in
     if h_cells h \<le> want then Some (Inr (roots, h))
     else gc_then (pl_collect_into own nfrom roots h) (\<lambda>roots h.
       Some (Inr (roots, h\<lparr>h_from := nfrom, h_to := nto, h_cells := want, h_limit := nfrom + want\<rparr>))))"

end
