(* ===== verification/Plan_Gc_Safe.thy ===== *)
theory Plan_Gc_Safe
  imports Plan_Gc
begin

text \<open>
  Correctness of the collector: a collection of a well-formed heap ends, moves exactly the objects the roots reach, once each and in one
  block, short-cuts the indirections, and leaves every moved object with its contents.
\<close>

subsection \<open>References\<close>

lemma tag_less: "pl_tag_for_kind k < 256" "0x80 \<le> pl_tag_for_kind k"
  by (simp_all add: pl_tag_for_kind_def tag_defs)

lemma gptr_gmake:
  assumes "p < 2 ^ 53"
  shows "gptr (gmake tag p) = p"
proof -
  have b: "8 * p < 2 ^ 56" using assms by simp
  have e: "(8 * word_of_nat p :: u64) = word_of_nat (8 * p)" by simp
  have u: "unat (8 * word_of_nat p :: u64) = 8 * p"
    unfolding e using b by (simp only: unat_of_nat) (simp add: take_bit_nat_eq_self)
  have "unat (take_bit 56 (8 * word_of_nat p :: u64)) = unat (8 * word_of_nat p :: u64)"
    unfolding unsigned_take_bit_eq u using b by (rule take_bit_nat_eq_self)
  then have "take_bit 56 (8 * word_of_nat p :: u64) = 8 * word_of_nat p" by (rule unsigned_word_eqI)
  then have "(8 * word_of_nat p :: u64) AND PL_ADDR_MASK = 8 * word_of_nat p"
    unfolding masks(5) by (simp add: take_bit_eq_mask)
  then have "pl_addr (gmake tag p) = 8 * word_of_nat p" unfolding gmake_def by (rule addr_make)
  then show ?thesis by (simp add: gptr_def u)
qed

lemma nat63_gmake: "\<not> val_is_nat63 (gmake (pl_tag_for_kind k) p)"
  unfolding nat63_tag gmake_def using tag_make[OF tag_less(1)[of k]] tag_less(2)[of k] by simp

lemma kind_ne [simp]:
  "PL_K_PIN \<noteq> PL_K_IND" "PL_K_IND \<noteq> PL_K_FWD" "PL_K_FWD \<noteq> PL_K_IND" "PL_K_PIN \<noteq> PL_K_FWD" "PL_K_FWD AND 0xFF = PL_K_FWD"
  by (simp_all add: kind_defs)

subsection \<open>Well-formed heaps\<close>

text \<open>The end of a chain of indirections.\<close>

inductive ends :: "(pl_val \<Rightarrow> bool) \<Rightarrow> cmem \<Rightarrow> pl_val \<Rightarrow> pl_val \<Rightarrow> bool" for own m where
  here: "val_is_nat63 v \<or> own v \<or> hkind m (gptr v) \<noteq> PL_K_IND \<Longrightarrow> ends own m v v"
| ind: "\<not> val_is_nat63 v \<Longrightarrow> \<not> own v \<Longrightarrow> hkind m (gptr v) = PL_K_IND \<Longrightarrow> ends own m (m (gptr v + 1)) w \<Longrightarrow> ends own m v w"

text \<open>The cells of an object the collector follows.\<close>

definition slot :: "cmem \<Rightarrow> nat \<Rightarrow> nat \<Rightarrow> bool" where
  "slot m p i \<longleftrightarrow>
     (if hkind m p = PL_K_PIN then i = 5 \<and> m (p + 6) = 0
      else case scan_fields (m p) of None \<Rightarrow> False | Some (a, n) \<Rightarrow> a \<le> i \<and> i < a + n)"

definition local_val :: "(pl_val \<Rightarrow> bool) \<Rightarrow> pl_val \<Rightarrow> bool" where
  "local_val own v \<longleftrightarrow> \<not> val_is_nat63 v \<and> \<not> own v"

definition ok_val :: "(pl_val \<Rightarrow> bool) \<Rightarrow> nat set \<Rightarrow> pl_val \<Rightarrow> bool" where
  "ok_val own objs v \<longleftrightarrow> (local_val own v \<longrightarrow> gptr v \<in> objs)"

definition ok_shape :: "(pl_val \<Rightarrow> bool) \<Rightarrow> cmem \<Rightarrow> nat \<Rightarrow> bool" where
  "ok_shape own m p \<longleftrightarrow>
     (if hkind m p = PL_K_PIN
      then proxy_layout (m p) \<and> (m (p + 6) \<noteq> 0 \<longrightarrow>
        pl_tag (m (p + 6)) = PL_TAG_PIN \<and> own (m (p + 6)) \<and> canonical_hdr (m (gptr (m (p + 6)))))
      else case scan_fields (m p) of None \<Rightarrow> False | Some (a, n) \<Rightarrow> a + n \<le> hcells m p)"

definition ok_obj :: "(pl_val \<Rightarrow> bool) \<Rightarrow> nat set \<Rightarrow> cmem \<Rightarrow> nat \<Rightarrow> bool" where
  "ok_obj own objs m p \<longleftrightarrow> 2 \<le> hcells m p \<and> ok_shape own m p \<and>
     (\<forall>i. slot m p i \<longrightarrow> ok_val own objs (m (p + i)) \<and> (\<exists>w. ends own m (m (p + i)) w))"

text \<open>The store's objects lie outside a block of cells.\<close>

definition off_store :: "(pl_val \<Rightarrow> bool) \<Rightarrow> nat set \<Rightarrow> bool" where
  "off_store own S \<longleftrightarrow> (\<forall>v. own v \<and> \<not> val_is_nat63 v \<longrightarrow> gptr v \<notin> S)"

definition heap_wf :: "(pl_val \<Rightarrow> bool) \<Rightarrow> cmem \<Rightarrow> nat set \<Rightarrow> nat \<Rightarrow> nat \<Rightarrow> bool" where
  "heap_wf own m objs fr fe \<longleftrightarrow> off_store own {fr..<fe} \<and> fr \<le> fe \<and>
     (\<forall>p \<in> objs. fr \<le> p \<and> p + hcells m p \<le> fe \<and> ok_obj own objs m p) \<and>
     (\<forall>p \<in> objs. \<forall>q \<in> objs. p < q \<longrightarrow> p + hcells m p \<le> q)"

definition target_ok :: "(pl_val \<Rightarrow> bool) \<Rightarrow> nat \<Rightarrow> nat \<Rightarrow> nat \<Rightarrow> bool" where
  "target_ok own fr fe t \<longleftrightarrow> off_store own {t..<t + (fe - fr)} \<and> (t + (fe - fr) \<le> fr \<or> fe \<le> t) \<and> t + (fe - fr) \<le> 2 ^ 53"

lemma ends_fun: "ends own m v w \<Longrightarrow> ends own m v w' \<Longrightarrow> w = w'"
proof (induction arbitrary: w' rule: ends.induct)
  case (here v)
  from here(2,1) show ?case by (cases rule: ends.cases) auto
next
  case (ind v w)
  from ind.prems show ?case
  proof (cases rule: ends.cases)
    case here
    with ind.hyps show ?thesis by simp
  next
    case ind': ind
    then show ?thesis using ind.IH by simp
  qed
qed

lemma ends_end: "ends own m v w \<Longrightarrow> val_is_nat63 w \<or> own w \<or> hkind m (gptr w) \<noteq> PL_K_IND"
  by (induction rule: ends.induct) auto

lemma slot_pos: "slot m p i \<Longrightarrow> 0 < i"
  by (auto simp: slot_def scan_fields_def Let_def split: if_splits)

lemma slot_ind: "hkind m p = PL_K_IND \<Longrightarrow> slot m p i \<longleftrightarrow> i = 1"
  by (auto simp: slot_def scan_fields_def Let_def kind_defs)

lemma proxy_cells: "proxy_layout h \<Longrightarrow> unat (pl_hdr_cells h) = 7"
  by (simp add: proxy_layout_def)

lemma slot_less: "ok_shape own m p \<Longrightarrow> slot m p i \<Longrightarrow> i < hcells m p"
  by (auto simp: ok_shape_def slot_def proxy_cells split: if_splits option.splits)

lemma ok_shape_not_fwd: "ok_shape own m p \<Longrightarrow> hkind m p \<noteq> PL_K_FWD"
  by (auto simp: ok_shape_def scan_fields_def Let_def kind_defs split: if_splits)

lemma heap_objD:
  assumes "heap_wf own m objs fr fe" "p \<in> objs"
  shows "fr \<le> p" "p + hcells m p \<le> fe" "2 \<le> hcells m p" "ok_shape own m p"
    "slot m p i \<Longrightarrow> ok_val own objs (m (p + i))" "slot m p i \<Longrightarrow> \<exists>w. ends own m (m (p + i)) w" "slot m p i \<Longrightarrow> i < hcells m p"
  using assms slot_less unfolding heap_wf_def ok_obj_def by blast+

lemma heap_disjoint:
  assumes "heap_wf own m objs fr fe" "p \<in> objs" "q \<in> objs" "i < hcells m p" "j < hcells m q" "p + i = q + j"
  shows "p = q" "i = j"
proof -
  have "p + hcells m p \<le> q \<or> q + hcells m q \<le> p \<or> p = q"
    using assms(1-3) unfolding heap_wf_def by (metis nat_neq_iff)
  then show "p = q" using assms(4-6) by auto
  then show "i = j" using assms(6) by simp
qed

subsection \<open>The copies\<close>

text \<open>The objects copied so far are the list \<open>L\<close>, in the order of their copies; \<open>place\<close> is where a copy starts.\<close>

definition total :: "cmem \<Rightarrow> nat list \<Rightarrow> nat" where
  "total m L = sum_list (map (hcells m) L)"

definition place :: "cmem \<Rightarrow> nat \<Rightarrow> nat list \<Rightarrow> nat \<Rightarrow> nat" where
  "place m t L p = t + total m (takeWhile (\<lambda>q. q \<noteq> p) L)"

lemma total_simps [simp]: "total m [] = 0" "total m (p # L) = hcells m p + total m L" "total m (K @ L) = total m K + total m L"
  by (simp_all add: total_def)

lemma place_append: "p \<in> set L \<Longrightarrow> place m t (L @ K) p = place m t L p"
  by (simp add: place_def)

lemma place_split: "p \<notin> set K \<Longrightarrow> place m t (K @ p # L) p = t + total m K"
proof -
  assume "p \<notin> set K"
  then have "takeWhile (\<lambda>q. q \<noteq> p) (K @ p # L) = K" by (subst takeWhile_append2) auto
  then show ?thesis by (simp add: place_def)
qed

lemma place_range:
  assumes "p \<in> set L"
  shows "t \<le> place m t L p" "place m t L p + hcells m p \<le> t + total m L"
proof -
  obtain K L' where L: "L = K @ p # L'" "p \<notin> set K" using assms by (meson split_list_first)
  then show "t \<le> place m t L p" "place m t L p + hcells m p \<le> t + total m L" by (simp_all add: place_split)
qed

lemma place_disjoint:
  assumes "distinct L" "p \<in> set L" "q \<in> set L" "p \<noteq> q"
  shows "place m t L p + hcells m p \<le> place m t L q \<or> place m t L q + hcells m q \<le> place m t L p"
proof -
  obtain K L' where L: "L = K @ p # L'" "p \<notin> set K" using assms(2) by (meson split_list_first)
  show ?thesis
  proof (cases "q \<in> set K")
    case True
    then have "place m t L q = place m t K q" by (simp add: L place_append)
    then show ?thesis using place_range(2)[OF True, of m t] L by (simp add: place_split)
  next
    case False
    then obtain M L'' where M: "L' = M @ q # L''" "q \<notin> set M" using assms(3,4) L by (auto dest: split_list_first)
    then have "L = (K @ p # M) @ q # L''" "q \<notin> set (K @ p # M)" using L False assms(4) by auto
    then have "place m t L q = t + total m (K @ p # M)" by (metis place_split)
    then show ?thesis using L by (simp add: place_split)
  qed
qed

lemma place_cell_inject:
  assumes "distinct L" "p \<in> set L" "q \<in> set L" "i < hcells m p" "j < hcells m q" "place m t L p + i = place m t L q + j"
  shows "p = q" "i = j"
proof -
  show "p = q" using place_disjoint[OF assms(1-3), of m t] assms(4-6) by fastforce
  then show "i = j" using assms(6) by simp
qed

text \<open>The copies fit: the objects of a heap are disjoint blocks of it.\<close>

lemma total_le:
  assumes "heap_wf own m objs fr fe" "distinct L" "set L \<subseteq> objs"
  shows "total m L \<le> fe - fr"
proof -
  have "total m L = (\<Sum>p \<in> set L. card {p..<p + hcells m p})"
    using assms(2) by (simp add: total_def sum_list_distinct_conv_sum_set)
  also have "\<dots> = card (\<Union>p \<in> set L. {p..<p + hcells m p})"
  proof (rule card_UN_disjoint[symmetric])
    show "\<forall>p \<in> set L. \<forall>q \<in> set L. p \<noteq> q \<longrightarrow> {p..<p + hcells m p} \<inter> {q..<q + hcells m q} = {}"
    proof (intro ballI impI)
      fix p q assume "p \<in> set L" "q \<in> set L" "p \<noteq> q"
      then have "p + hcells m p \<le> q \<or> q + hcells m q \<le> p"
        using assms(1,3) unfolding heap_wf_def by (metis nat_neq_iff subsetD)
      then show "{p..<p + hcells m p} \<inter> {q..<q + hcells m q} = {}" by auto
    qed
  qed auto
  also have "\<dots> \<le> card {fr..<fe}"
    by (rule card_mono) (use heap_objD(1,2)[OF assms(1)] assms(3) in fastforce)+
  finally show ?thesis by simp
qed

subsection \<open>The invariant of a collection\<close>

text \<open>Where a value goes: its end when it is not local, and otherwise the reference to the copy of the object its end refers to.\<close>

definition nref :: "cmem \<Rightarrow> nat \<Rightarrow> nat list \<Rightarrow> nat \<Rightarrow> pl_val" where
  "nref m t L p = gmake (pl_tag_for_kind (hkind m p)) (place m t L p)"

definition fwd :: "(pl_val \<Rightarrow> bool) \<Rightarrow> cmem \<Rightarrow> nat \<Rightarrow> nat list \<Rightarrow> pl_val \<Rightarrow> pl_val \<Rightarrow> bool" where
  "fwd own m t L v v' \<longleftrightarrow> (\<exists>w. ends own m v w \<and>
     (if local_val own w then gptr w \<in> set L \<and> v' = nref m t L (gptr w) else v' = w))"

text \<open>The contents of cell \<open>i\<close> of the copy of \<open>p\<close>. The body of a resolved proxy is dropped.\<close>

definition copied :: "(pl_val \<Rightarrow> bool) \<Rightarrow> cmem \<Rightarrow> nat \<Rightarrow> nat list \<Rightarrow> nat \<Rightarrow> nat \<Rightarrow> u64 \<Rightarrow> bool" where
  "copied own m t L p i x \<longleftrightarrow>
     (if slot m p i then fwd own m t L (m (p + i)) x
      else x = (if hkind m p = PL_K_PIN \<and> i = 5 then 0 else m (p + i)))"

definition tgt :: "(pl_val \<Rightarrow> bool) \<Rightarrow> cmem \<Rightarrow> pl_val \<Rightarrow> nat set" where
  "tgt own m v = {gptr w | w. ends own m v w \<and> local_val own w}"

text \<open>The objects the roots reach.\<close>

inductive_set reach :: "(pl_val \<Rightarrow> bool) \<Rightarrow> cmem \<Rightarrow> pl_val list \<Rightarrow> nat set" for own m roots where
  root: "v \<in> set roots \<Longrightarrow> p \<in> tgt own m v \<Longrightarrow> p \<in> reach own m roots"
| slot: "p \<in> reach own m roots \<Longrightarrow> slot m p i \<Longrightarrow> q \<in> tgt own m (m (p + i)) \<Longrightarrow> q \<in> reach own m roots"

text \<open>
  The memory during a collection: \<open>L\<close> are the objects copied, \<open>a\<close> the first cell of the target not yet scanned.
\<close>

definition gc_inv :: "(pl_val \<Rightarrow> bool) \<Rightarrow> cmem \<Rightarrow> nat set \<Rightarrow> nat \<Rightarrow> nat \<Rightarrow> nat \<Rightarrow> pl_val list \<Rightarrow> nat list \<Rightarrow> nat \<Rightarrow> pl_gc_ctx \<Rightarrow> bool" where
  "gc_inv own m objs fr fe t roots L a g \<longleftrightarrow>
     distinct L \<and> set L \<subseteq> objs \<inter> reach own m roots \<and> (\<forall>p \<in> set L. hkind m p \<noteq> PL_K_IND) \<and>
     gc_free g = t + total m L \<and> a \<le> gc_free g \<and>
     (\<forall>p \<in> set L. hkind (gc_mem g) p = PL_K_FWD \<and> gc_mem g (p + 1) = nref m t L p) \<and>
     (\<forall>p \<in> objs - set L. \<forall>i < hcells m p. gc_mem g (p + i) = m (p + i)) \<and>
     (\<forall>p \<in> set L. \<forall>i < hcells m p. if place m t L p + i < a
        then copied own m t L p i (gc_mem g (place m t L p + i)) else gc_mem g (place m t L p + i) = m (p + i)) \<and>
     (\<forall>j. j \<notin> {fr..<fe} \<union> {t..<t + (fe - fr)} \<longrightarrow> gc_mem g j = m j)"

lemma nref_append: "p \<in> set L \<Longrightarrow> nref m t (L @ K) p = nref m t L p"
  by (simp add: nref_def place_append)

lemma fwd_append: "fwd own m t L v v' \<Longrightarrow> fwd own m t (L @ K) v v'"
  by (force simp: fwd_def nref_append)

lemma copied_append: "copied own m t L p i x \<Longrightarrow> copied own m t (L @ K) p i x"
  by (auto simp: copied_def fwd_append)

lemma gc_invD:
  assumes "gc_inv own m objs fr fe t roots L a g"
  shows "distinct L" "set L \<subseteq> objs" "set L \<subseteq> reach own m roots" "p \<in> set L \<Longrightarrow> hkind m p \<noteq> PL_K_IND"
    "gc_free g = t + total m L" "a \<le> gc_free g"
    "p \<in> set L \<Longrightarrow> hkind (gc_mem g) p = PL_K_FWD" "p \<in> set L \<Longrightarrow> gc_mem g (p + 1) = nref m t L p"
    "p \<in> objs \<Longrightarrow> p \<notin> set L \<Longrightarrow> i < hcells m p \<Longrightarrow> gc_mem g (p + i) = m (p + i)"
    "p \<in> set L \<Longrightarrow> i < hcells m p \<Longrightarrow> place m t L p + i < a \<Longrightarrow> copied own m t L p i (gc_mem g (place m t L p + i))"
    "p \<in> set L \<Longrightarrow> i < hcells m p \<Longrightarrow> a \<le> place m t L p + i \<Longrightarrow> gc_mem g (place m t L p + i) = m (p + i)"
    "j \<notin> {fr..<fe} \<union> {t..<t + (fe - fr)} \<Longrightarrow> gc_mem g j = m j"
  using assms unfolding gc_inv_def by (auto simp: not_less split: if_splits)

lemma evacuate_inv:
  assumes wf: "heap_wf own m objs fr fe" and tok: "target_ok own fr fe t" and inv: "gc_inv own m objs fr fe t roots L a g"
    and p: "p \<in> objs" "p \<notin> set L" "hkind m p \<noteq> PL_K_IND" "p \<in> reach own m roots"
  shows "fst (evacuate p g) = nref m t (L @ [p]) p" "gc_inv own m objs fr fe t roots (L @ [p]) a (snd (evacuate p g))"
proof -
  note I = gc_invD[OF inv]
  let ?c = "hcells m p" and ?np = "t + total m L"
  have c2: "2 \<le> ?c" and pr: "fr \<le> p" "p + ?c \<le> fe" using heap_objD(1-3)[OF wf p(1)] by auto
  have hdr: "gc_mem g p = m p" using I(9)[OF p(1,2), of 0] c2 by simp
  have lp: "distinct (L @ [p])" "set (L @ [p]) \<subseteq> objs" using I(1,2) p by auto
  then have room: "?np + ?c \<le> t + (fe - fr)" using total_le[OF wf lp] by simp
  have sep: "t + (fe - fr) \<le> fr \<or> fe \<le> t" using tok by (simp add: target_ok_def)
  define M' where "M' = gc_mem (snd (evacuate p g))"
  have M': "M' = (cell_copy (gc_mem g) ?np p ?c)(p := hdr_word PL_K_FWD 0 0 (pl_hdr_cells (m p)), p + 1 := nref m t (L @ [p]) p)"
    and free: "gc_free (snd (evacuate p g)) = ?np + ?c" and val: "fst (evacuate p g) = nref m t (L @ [p]) p"
    using place_split[OF p(2), of m t "[]"] by (simp_all add: M'_def evacuate_def Let_def hdr I(5) nref_def)
  show "fst (evacuate p g) = nref m t (L @ [p]) p" by (rule val)
  have new: "M' (?np + i) = m (p + i)" if "i < ?c" for i
  proof -
    have "?np + i \<noteq> p" "?np + i \<noteq> p + 1" using that room sep pr c2 by auto
    then show ?thesis using that I(9)[OF p(1,2) that] by (simp add: M' cell_copy_def)
  qed
  have old: "M' j = gc_mem g j" if "j < ?np \<or> ?np + ?c \<le> j" "j \<noteq> p" "j \<noteq> p + 1" for j
    using that by (auto simp: M' cell_copy_def)
  have local: "q + i < ?np \<or> ?np + ?c \<le> q + i" if "q \<in> objs" "i < hcells m q" for q i
    using heap_objD(1,2)[OF wf that(1)] that(2) sep room by linarith
  have other: "q + i \<noteq> p \<and> q + i \<noteq> p + 1" if "q \<in> objs" "i < hcells m q" "q \<noteq> p" for q i
    using heap_disjoint(1)[OF wf that(1) p(1) that(2), of 0] heap_disjoint(1)[OF wf that(1) p(1) that(2), of 1] that(3) c2 by auto
  have keep: "M' (q + i) = gc_mem g (q + i)" if "q \<in> objs" "i < hcells m q" "q \<noteq> p" for q i
    using old local[OF that(1,2)] other[OF that] by blast
  have fw: "hkind M' q = PL_K_FWD \<and> M' (q + 1) = nref m t (L @ [p]) q" if "q \<in> set (L @ [p])" for q
  proof (cases "q = p")
    case True
    then show ?thesis by (simp add: M')
  next
    case False
    then have q: "q \<in> set L" "q \<in> objs" using that I(2) by auto
    then have "2 \<le> hcells m q" using heap_objD(3)[OF wf] by blast
    then show ?thesis using keep[OF q(2) _ False, of 0] keep[OF q(2) _ False, of 1] I(7,8)[OF q(1)] nref_append[OF q(1)] by simp
  qed
  have cp: "if place m t (L @ [p]) q + i < a then copied own m t (L @ [p]) q i (M' (place m t (L @ [p]) q + i))
      else M' (place m t (L @ [p]) q + i) = m (q + i)" if q: "q \<in> set (L @ [p])" "i < hcells m q" for q i
  proof (cases "q = p")
    case True
    then have "place m t (L @ [p]) q = ?np" using place_split[OF p(2), of m t "[]"] by simp
    then show ?thesis using new[of i] q(2) True I(5,6) by auto
  next
    case False
    then have ql: "q \<in> set L" using q(1) by simp
    then have pl: "place m t (L @ [p]) q = place m t L q" by (rule place_append)
    have "t \<le> place m t L q + i" "place m t L q + i < ?np" using place_range[OF ql, where m = m and t = t] q(2) by linarith+
    moreover from this have "place m t L q + i \<noteq> p" "place m t L q + i \<noteq> p + 1" using room sep pr c2 by auto
    ultimately have "M' (place m t L q + i) = gc_mem g (place m t L q + i)" using old by blast
    then show ?thesis using I(10,11)[OF ql q(2)] copied_append unfolding pl by (auto simp: not_less)
  qed
  have out: "M' j = m j" if "j \<notin> {fr..<fe} \<union> {t..<t + (fe - fr)}" for j
  proof -
    have "j < ?np \<or> ?np + ?c \<le> j" "j \<noteq> p" "j \<noteq> p + 1" using that room pr c2 by auto
    then show ?thesis using old I(12)[OF that] by simp
  qed
  have un: "M' (q + i) = m (q + i)" if "q \<in> objs - set (L @ [p])" "i < hcells m q" for q i
    using keep[of q i] I(9)[of q i] that by auto
  have kinds: "\<forall>q \<in> set (L @ [p]). hkind m q \<noteq> PL_K_IND" using I(4) p(3) by auto
  have rc: "set (L @ [p]) \<subseteq> objs \<inter> reach own m roots" using lp(2) I(3) p(4) by auto
  show "gc_inv own m objs fr fe t roots (L @ [p]) a (snd (evacuate p g))"
    unfolding gc_inv_def M'_def[symmetric] free
    by (intro conjI lp(1) rc kinds ballI allI impI fw[THEN conjunct1] fw[THEN conjunct2] un cp out) (use I(5,6) in simp_all)
qed

text \<open>Forwarding returns, and gives the value its place.\<close>

lemma forward_inv:
  assumes "ends own m v w" and wf: "heap_wf own m objs fr fe" and tok: "target_ok own fr fe t"
    and "ok_val own objs v" "tgt own m v \<subseteq> reach own m roots" and inv: "gc_inv own m objs fr fe t roots L a g"
  shows "\<exists>v' g' K. pl_forward own v g = Some (v', g') \<and> gc_inv own m objs fr fe t roots (L @ K) a g' \<and> fwd own m t (L @ K) v v'"
  using assms(1,4,5)
proof (induction rule: ends.induct)
  case (here v)
  have en: "ends own m v v" using here(1) by (rule ends.here)
  show ?case
  proof (cases "local_val own v")
    case False
    then have "pl_forward own v g = Some (v, g)" by (subst pl_forward.simps) (auto simp: local_val_def)
    moreover have "fwd own m t (L @ []) v v" using en False by (auto simp: fwd_def)
    moreover have "gc_inv own m objs fr fe t roots (L @ []) a g" using inv by simp
    ultimately show ?thesis by blast
  next
    case True
    let ?p = "gptr v"
    have p: "?p \<in> objs" "hkind m ?p \<noteq> PL_K_IND" using here(1,2) True by (auto simp: ok_val_def local_val_def)
    have pr: "?p \<in> reach own m roots" using here(3) en True by (auto simp: tgt_def)
    have fw: "fwd own m t K v (nref m t K ?p)" if "?p \<in> set K" for K using en True that by (auto simp: fwd_def)
    show ?thesis
    proof (cases "?p \<in> set L")
      case L: True
      then have "pl_forward own v g = Some (nref m t L ?p, g)" using gc_invD(7,8)[OF inv L] True
        by (subst pl_forward.simps) (auto simp: local_val_def)
      then show ?thesis using fw[OF L] inv by (intro exI[of _ "nref m t L ?p"] exI[of _ g] exI[of _ "[]"]) simp
    next
      case L: False
      have "0 < hcells m ?p" using heap_objD(3)[OF wf p(1)] by simp
      then have "gc_mem g ?p = m ?p" using gc_invD(9)[OF inv p(1) L, of 0] by simp
      then have "pl_forward own v g = Some (evacuate ?p g)" using True p(2) ok_shape_not_fwd[OF heap_objD(4)[OF wf p(1)]]
        by (subst pl_forward.simps) (auto simp: local_val_def)
      then show ?thesis using evacuate_inv[OF wf tok inv p(1) L p(2) pr] fw[of "L @ [?p]"]
        by (intro exI[of _ "fst (evacuate ?p g)"] exI[of _ "snd (evacuate ?p g)"] exI[of _ "[?p]"]) (simp add: prod_eq_iff)
    qed
  qed
next
  case (ind v w)
  let ?p = "gptr v"
  have p: "?p \<in> objs" using ind.hyps(1,2) ind.prems(1) by (simp add: ok_val_def local_val_def)
  then have L: "?p \<notin> set L" using gc_invD(4)[OF inv] ind.hyps(3) by blast
  have "2 \<le> hcells m ?p" using heap_objD(3)[OF wf p] by simp
  then have cells: "gc_mem g ?p = m ?p" "gc_mem g (?p + 1) = m (?p + 1)"
    using gc_invD(9)[OF inv p L, of 0] gc_invD(9)[OF inv p L, of 1] by simp_all
  have "slot m ?p 1" using slot_ind[of m ?p 1] ind.hyps(3) by simp
  then have "ok_val own objs (m (?p + 1))" using heap_objD(5)[OF wf p] by blast
  moreover have step: "ends own m (m (?p + 1)) u \<Longrightarrow> ends own m v u" for u using ind.hyps(1-3) by (rule ends.ind)
  then have "tgt own m (m (?p + 1)) \<subseteq> tgt own m v" by (auto simp: tgt_def)
  ultimately obtain v' g' K where F: "pl_forward own (m (?p + 1)) g = Some (v', g')"
    "gc_inv own m objs fr fe t roots (L @ K) a g'" "fwd own m t (L @ K) (m (?p + 1)) v'"
    using ind.IH ind.prems(2) by blast
  have "pl_forward own v g = Some (v', g')" using F(1) ind.hyps cells by (subst pl_forward.simps) simp
  moreover have "fwd own m t (L @ K) v v'" using F(3) step unfolding fwd_def by blast
  ultimately show ?case using F(2) by blast
qed

text \<open>The slots of the roots.\<close>

lemma visit_inv:
  assumes wf: "heap_wf own m objs fr fe" and tok: "target_ok own fr fe t"
    and "\<forall>v \<in> set vs. ok_val own objs v \<and> (\<exists>w. ends own m v w) \<and> tgt own m v \<subseteq> reach own m roots"
    and "gc_inv own m objs fr fe t roots L a g"
  shows "\<exists>vs' g' K. pl_gc_visit own vs g = Some (vs', g') \<and> gc_inv own m objs fr fe t roots (L @ K) a g' \<and>
    list_all2 (fwd own m t (L @ K)) vs vs'"
  using assms(3-)
proof (induction vs arbitrary: L g)
  case Nil
  then show ?case by (auto intro!: exI[of _ "[]"])
next
  case (Cons v vs)
  then obtain w where "ends own m v w" by auto
  from forward_inv[OF this wf tok _ _ Cons.prems(2)] Cons.prems(1) obtain v' g1 K1 where 1: "pl_forward own v g = Some (v', g1)"
    "gc_inv own m objs fr fe t roots (L @ K1) a g1" "fwd own m t (L @ K1) v v'" by auto
  from Cons.IH[OF _ 1(2)] Cons.prems(1) obtain vs' g2 K2 where 2: "pl_gc_visit own vs g1 = Some (vs', g2)"
    "gc_inv own m objs fr fe t roots ((L @ K1) @ K2) a g2" "list_all2 (fwd own m t ((L @ K1) @ K2)) vs vs'" by auto
  have "list_all2 (fwd own m t (L @ K1 @ K2)) (v # vs) (v' # vs')" using 1(3) 2(3) fwd_append[of own m t "L @ K1" v v' K2] by simp
  then show ?case using 1(1) 2(1,2) by (intro exI[of _ "v' # vs'"] exI[of _ g2] exI[of _ "K1 @ K2"]) simp
qed

subsection \<open>Scanning\<close>

text \<open>One cell of the target gets its final contents.\<close>

lemma advance_write:
  assumes wf: "heap_wf own m objs fr fe" and tok: "target_ok own fr fe t" and inv: "gc_inv own m objs fr fe t roots L a g"
    and p: "p \<in> set L" "i < hcells m p" "a = place m t L p + i" and x: "copied own m t L p i x"
  shows "gc_inv own m objs fr fe t roots L (a + 1) (g\<lparr>gc_mem := (gc_mem g)(a := x)\<rparr>)"
proof -
  note I = gc_invD[OF inv]
  have total: "total m L \<le> fe - fr" by (rule total_le[OF wf I(1,2)])
  have a: "t \<le> a" "a < t + total m L" using place_range[OF p(1), where m = m and t = t] p(2,3) by linarith+
  have sep: "t + (fe - fr) \<le> fr \<or> fe \<le> t" using tok by (simp add: target_ok_def)
  have far: "q + j \<noteq> a" if "q \<in> objs" "j < hcells m q" for q j
    using heap_objD(1,2)[OF wf that(1)] that(2) sep a total by linarith
  have two: "1 < hcells m q" "0 < hcells m q" if "q \<in> objs" for q using heap_objD(3)[OF wf that] by simp_all
  let ?M = "(gc_mem g)(a := x)"
  have fw: "hkind ?M q = PL_K_FWD" "?M (q + 1) = nref m t L q" if "q \<in> set L" for q
  proof -
    have q: "q \<in> objs" using that I(2) by blast
    show "hkind ?M q = PL_K_FWD" "?M (q + 1) = nref m t L q"
      using far[OF q two(1)[OF q]] far[OF q two(2)[OF q]] I(7,8)[OF that] by simp_all
  qed
  have cp: "if place m t L q + j < a + 1 then copied own m t L q j (?M (place m t L q + j)) else ?M (place m t L q + j) = m (q + j)"
    if "q \<in> set L" "j < hcells m q" for q j
  proof (cases "place m t L q + j = a")
    case True
    then have "q = p" "j = i" using place_cell_inject[OF I(1) that(1) p(1) that(2) p(2)] p(3) by auto
    then show ?thesis using x p(3) by simp
  next
    case False
    then show ?thesis using I(10,11)[OF that] by auto
  qed
  have out: "?M j = m j" if "j \<notin> {fr..<fe} \<union> {t..<t + (fe - fr)}" for j
    using that a total I(12)[OF that] by auto
  have un: "?M (q + j) = m (q + j)" if "q \<in> objs - set L" "j < hcells m q" for q j
    using far[of q j] I(9)[of q j] that by auto
  have head: "set L \<subseteq> objs \<inter> reach own m roots" "\<forall>q \<in> set L. hkind m q \<noteq> PL_K_IND" "a + 1 \<le> gc_free g" using I(2-5) a(2) by auto
  have sel: "gc_mem (g\<lparr>gc_mem := ?M\<rparr>) = ?M" "gc_free (g\<lparr>gc_mem := ?M\<rparr>) = gc_free g" by simp_all
  show ?thesis unfolding gc_inv_def sel
    by (intro conjI I(1,5) head ballI allI impI fw un cp out)
qed

lemma advance_skip:
  assumes wf: "heap_wf own m objs fr fe" and tok: "target_ok own fr fe t" and "gc_inv own m objs fr fe t roots L (place m t L p + i) g"
    and p: "p \<in> set L" "i \<le> j" "j \<le> hcells m p"
    and "\<And>k. i \<le> k \<Longrightarrow> k < j \<Longrightarrow> \<not> slot m p k \<and> \<not> (hkind m p = PL_K_PIN \<and> k = 5)"
  shows "gc_inv own m objs fr fe t roots L (place m t L p + j) g"
  using assms(3,5-)
proof (induction "j - i" arbitrary: i)
  case (Suc n)
  have i: "i < j" "i < hcells m p" using Suc.hyps(2) Suc.prems(3) by linarith+
  let ?a = "place m t L p + i"
  have same: "gc_mem g ?a = m (p + i)" using gc_invD(11)[OF Suc.prems(1) p(1) i(2)] by simp
  have "copied own m t L p i (m (p + i))" using Suc.prems(4)[of i] i by (auto simp: copied_def)
  from advance_write[OF wf tok Suc.prems(1) p(1) i(2) refl this] have "gc_inv own m objs fr fe t roots L (place m t L p + Suc i) g"
    by (simp add: same[symmetric])
  then show ?case using Suc.hyps(1)[of "Suc i"] Suc.hyps(2) Suc.prems i by simp
qed simp

lemma slots_inv:
  assumes wf: "heap_wf own m objs fr fe" and tok: "target_ok own fr fe t" and "gc_inv own m objs fr fe t roots L (s + i) g"
    and "p \<in> set L" "s = place m t L p" "i \<le> j" and slots: "\<And>k. i \<le> k \<Longrightarrow> k < j \<Longrightarrow> slot m p k"
  shows "\<exists>g' K. forward_slots own [s + i..<s + j] g = Some g' \<and> gc_inv own m objs fr fe t roots (L @ K) (s + j) g'"
  using assms(3-)
proof (induction "j - i" arbitrary: i L g)
  case 0
  then have "[s + i..<s + j] = []" "i = j" by simp_all
  then show ?case using 0(2) by (intro exI[of _ g] exI[of _ "[]"]) simp
next
  case (Suc n)
  have i: "i < j" using Suc.hyps(2) by simp
  have sl: "slot m p i" using Suc.prems(5) i by blast
  have p: "p \<in> objs" "p \<in> reach own m roots" using gc_invD(2,3)[OF Suc.prems(1)] Suc.prems(2) by blast+
  have ih: "i < hcells m p" by (rule heap_objD(7)[OF wf p(1) sl])
  have same: "gc_mem g (s + i) = m (p + i)" using gc_invD(11)[OF Suc.prems(1,2) ih] Suc.prems(3) by simp
  obtain w where w: "ends own m (m (p + i)) w" using heap_objD(6)[OF wf p(1) sl] by blast
  have "tgt own m (m (p + i)) \<subseteq> reach own m roots" using reach.slot[OF p(2) sl] by blast
  from forward_inv[OF w wf tok heap_objD(5)[OF wf p(1) sl] this Suc.prems(1)] obtain v' g1 K1 where
    1: "pl_forward own (m (p + i)) g = Some (v', g1)" "gc_inv own m objs fr fe t roots (L @ K1) (s + i) g1"
      "fwd own m t (L @ K1) (m (p + i)) v'" by blast
  have pl: "p \<in> set (L @ K1)" "s = place m t (L @ K1) p" using Suc.prems(2,3) by (simp_all add: place_append)
  have "copied own m t (L @ K1) p i v'" using sl 1(3) by (simp add: copied_def)
  from advance_write[OF wf tok 1(2) pl(1) ih _ this] pl(2)
  have "gc_inv own m objs fr fe t roots (L @ K1) (s + Suc i) (g1\<lparr>gc_mem := (gc_mem g1)(s + i := v')\<rparr>)" by simp
  moreover have "n = j - Suc i" "Suc i \<le> j" using Suc.hyps(2) by simp_all
  ultimately obtain g2 K2 where
    2: "forward_slots own [s + Suc i..<s + j] (g1\<lparr>gc_mem := (gc_mem g1)(s + i := v')\<rparr>) = Some g2"
      "gc_inv own m objs fr fe t roots ((L @ K1) @ K2) (s + j) g2" using Suc.hyps(1)[OF _ _ pl, of "Suc i"] Suc.prems(5) by fastforce
  have "[s + i..<s + j] = (s + i) # [s + Suc i..<s + j]" using i by (simp add: upt_conv_Cons)
  then show ?case using 1(1) 2 same by (intro exI[of _ g2] exI[of _ "K1 @ K2"]) simp
qed

text \<open>The proxy of a pin in the target.\<close>

lemma scan_pin_inv:
  assumes wf: "heap_wf own m objs fr fe" and tok: "target_ok own fr fe t" and inv: "gc_inv own m objs fr fe t roots L s g"
    and p: "p \<in> set L" "s = place m t L p" "hkind m p = PL_K_PIN"
  shows "\<exists>g' K. scan_pin own s g = Some (Inr g') \<and> gc_inv own m objs fr fe t roots (L @ K) (s + 7) g'"
proof -
  note I = gc_invD[OF inv]
  have po: "p \<in> objs" using I(2) p(1) by blast
  have shape: "ok_shape own m p" by (rule heap_objD(4)[OF wf po])
  then have lay: "proxy_layout (m p)" and c7: "hcells m p = 7" using p(3) proxy_cells[of "m p"] by (simp_all add: ok_shape_def)
  have cells: "gc_mem g (s + k) = m (p + k)" if "k < 7" for k using I(11)[OF p(1), of k] that p(2) c7 by simp
  have sl: "slot m p k \<longleftrightarrow> k = 5 \<and> m (p + 6) = 0" for k using p(3) by (simp add: slot_def)
  have skip: "gc_inv own m objs fr fe t roots L (s + 5) g"
    using advance_skip[OF wf tok _ p(1), where i = 0 and j = 5 and g = g] inv p(2) sl c7 by simp
  show ?thesis
  proof (cases "m (p + 6) = 0")
    case True
    have "[s + 5..<s + 6] = [s + 5]" by (simp add: upt_conv_Cons)
    then obtain g' K where g': "forward_slots own [s + 5] g = Some g'" "gc_inv own m objs fr fe t roots (L @ K) (s + 6) g'"
      using slots_inv[OF wf tok skip p(1,2), of 6] sl True by auto
    have "s = place m t (L @ K) p" using p(1,2) by (simp add: place_append)
    then have "gc_inv own m objs fr fe t roots (L @ K) (s + 7) g'"
      using advance_skip[OF wf tok, where roots = roots and L = "L @ K" and p = p and i = 6 and j = 7 and g = g'] g'(2) p(1) sl c7 by simp
    moreover have "scan_pin own s g = Some (Inr g')"
      using g'(1) cells[of 0] cells[of 6] lay True by (simp add: scan_pin_def)
    ultimately show ?thesis by blast
  next
    case False
    let ?v = "m (p + 6)"
    have v: "pl_tag ?v = PL_TAG_PIN" "own ?v" "canonical_hdr (m (gptr ?v))" using shape p(3) False by (auto simp: ok_shape_def)
    have "\<not> val_is_nat63 ?v" using v(1) by (simp add: nat63_tag tag_defs)
    then have out: "gptr ?v \<notin> {fr..<fe} \<union> {t..<t + (fe - fr)}"
      using wf tok v(2) by (auto simp: heap_wf_def target_ok_def off_store_def)
    have "s + 5 < t + (fe - fr)" "t \<le> s"
      using place_range[OF p(1), where m = m and t = t] total_le[OF wf I(1,2)] p(2) c7 by linarith+
    then have ne: "gptr ?v \<noteq> s + 5" using out by auto
    have fw: "pl_forward own ?v g = Some (?v, g)" using v(2) by (subst pl_forward.simps) simp
    let ?M = "(gc_mem g)(s + 5 := 0, s + 6 := ?v)"
    have "set_target ((gc_mem g)(s + 5 := 0)) s ?v = Inr ?M"
      using cells[of 0] cells[of 6] lay p(3) v I(12)[OF out] ne by (simp add: set_target_def)
    then have "scan_pin own s g = Some (Inr (g\<lparr>gc_mem := ?M\<rparr>))"
      using cells[of 0] cells[of 6] lay False v(1,2) fw by (simp add: scan_pin_def)
    moreover have "gc_inv own m objs fr fe t roots L (s + 6) (g\<lparr>gc_mem := (gc_mem g)(s + 5 := 0)\<rparr>)"
      using advance_write[OF wf tok skip p(1), of 5 0] p(2,3) c7 sl False by (simp add: copied_def add.commute)
    from advance_write[OF wf tok this p(1), of 6 ?v] have "gc_inv own m objs fr fe t roots L (s + 7) (g\<lparr>gc_mem := ?M\<rparr>)"
      using p(2,3) c7 sl by (simp add: copied_def add.commute)
    ultimately show ?thesis by (intro exI[of _ "g\<lparr>gc_mem := ?M\<rparr>"] exI[of _ "[]"]) simp
  qed
qed

lemma scan_obj_inv:
  assumes wf: "heap_wf own m objs fr fe" and tok: "target_ok own fr fe t" and inv: "gc_inv own m objs fr fe t roots L s g"
    and p: "p \<in> set L" "s = place m t L p"
  shows "\<exists>g' K. scan_obj own s g = Some (Inr g') \<and> gc_inv own m objs fr fe t roots (L @ K) (s + hcells m p) g'"
    "hcells (gc_mem g) s = hcells m p"
proof -
  note I = gc_invD[OF inv]
  have po: "p \<in> objs" using I(2) p(1) by blast
  have shape: "ok_shape own m p" and c2: "2 \<le> hcells m p" using heap_objD(3,4)[OF wf po] by simp_all
  then have hdr: "gc_mem g s = m p" using I(11)[OF p(1), of 0] p(2) by simp
  then show "hcells (gc_mem g) s = hcells m p" by simp
  show "\<exists>g' K. scan_obj own s g = Some (Inr g') \<and> gc_inv own m objs fr fe t roots (L @ K) (s + hcells m p) g'"
  proof (cases "hkind m p = PL_K_PIN")
    case True
    then have "hcells m p = 7" using shape proxy_cells[of "m p"] by (simp add: ok_shape_def)
    then show ?thesis using scan_pin_inv[OF wf tok inv p True] True hdr by (simp add: scan_obj_def)
  next
    case False
    then obtain a n where an: "scan_fields (m p) = Some (a, n)" "a + n \<le> hcells m p"
      using shape by (auto simp: ok_shape_def split: option.splits)
    then have sl: "slot m p k \<longleftrightarrow> a \<le> k \<and> k < a + n" for k using False by (simp add: slot_def)
    have "gc_inv own m objs fr fe t roots L (s + a) g"
      using advance_skip[OF wf tok _ p(1), where i = 0 and j = a and g = g] inv p(2) sl False an(2) by simp
    from slots_inv[OF wf tok this p, of "a + n"] sl obtain g' K where
      g': "forward_slots own [s + a..<s + (a + n)] g = Some g'" "gc_inv own m objs fr fe t roots (L @ K) (s + (a + n)) g'" by auto
    have "s = place m t (L @ K) p" using p by (simp add: place_append)
    then have "gc_inv own m objs fr fe t roots (L @ K) (s + hcells m p) g'"
      using advance_skip[OF wf tok, where roots = roots and L = "L @ K" and p = p and i = "a + n" and j = "hcells m p" and g = g'] g'(2) p(1) sl False an(2) by simp
    moreover have "scan_obj own s g = Some (Inr g')" using g'(1) an(1) False hdr by (simp add: scan_obj_def add.assoc)
    ultimately show ?thesis by blast
  qed
qed

text \<open>The scan pointer meets the copies in order, and the loop ends because the copies fit the target.\<close>

lemma cheney_inv:
  assumes wf: "heap_wf own m objs fr fe" and tok: "target_ok own fr fe t"
    and "gc_inv own m objs fr fe t roots L s g" "s = t + total m (take k L)" "k \<le> length L"
  shows "\<exists>g' K. pl_cheney_scan own s g = Some (Inr g') \<and> gc_inv own m objs fr fe t roots (L @ K) (gc_free g') g'"
  using assms(3-)
proof (induction "t + (fe - fr) - s" arbitrary: s g L k rule: less_induct)
  case less
  note I = gc_invD[OF less.prems(1)]
  show ?case
  proof (cases "s < gc_free g")
    case False
    then have "s = gc_free g" using I(6) by simp
    then have "pl_cheney_scan own s g = Some (Inr g)" by (subst pl_cheney_scan.simps) simp
    then show ?thesis using less.prems(1) \<open>s = gc_free g\<close> by (intro exI[of _ g] exI[of _ "[]"]) simp
  next
    case True
    have k: "k < length L" using True I(5) less.prems(2,3) by (cases "k = length L") auto
    let ?p = "L ! k"
    have L: "L = take k L @ ?p # drop (Suc k) L" using k by (rule id_take_nth_drop)
    then have "?p \<notin> set (take k L)" using I(1) by (metis distinct_append disjoint_iff list.set_intros(1))
    then have s: "s = place m t L ?p" using place_split[of ?p "take k L" m t "drop (Suc k) L"] L less.prems(2) by simp
    have p: "?p \<in> set L" "?p \<in> objs" using k I(2) by auto
    obtain g1 K1 where 1: "scan_obj own s g = Some (Inr g1)" "gc_inv own m objs fr fe t roots (L @ K1) (s + hcells m ?p) g1"
      using scan_obj_inv(1)[OF wf tok less.prems(1) p(1) s] by blast
    have hd: "hcells (gc_mem g) s = hcells m ?p" by (rule scan_obj_inv(2)[OF wf tok less.prems(1) p(1) s])
    have nxt: "s + hcells m ?p = t + total m (take (Suc k) (L @ K1))"
      using less.prems(2) k by (simp add: take_Suc_conv_app_nth)
    have "s + hcells m ?p \<le> t + (fe - fr)" "2 \<le> hcells m ?p"
      using place_range(2)[OF p(1), where m = m and t = t] total_le[OF wf I(1,2)] s heap_objD(3)[OF wf p(2)] by linarith+
    then have "t + (fe - fr) - (s + hcells m ?p) < t + (fe - fr) - s" by linarith
    from less.hyps[OF this 1(2) nxt] k obtain g2 K2 where
      2: "pl_cheney_scan own (s + hcells m ?p) g1 = Some (Inr g2)" "gc_inv own m objs fr fe t roots ((L @ K1) @ K2) (gc_free g2) g2" by auto
    have "pl_cheney_scan own s g = Some (Inr g2)" using True 1(1) 2(1) hd by (subst pl_cheney_scan.simps) simp
    then show ?thesis using 2(2) by (intro exI[of _ g2] exI[of _ "K1 @ K2"]) simp
  qed
qed

subsection \<open>A collection\<close>

definition roots_ok :: "(pl_val \<Rightarrow> bool) \<Rightarrow> cmem \<Rightarrow> nat set \<Rightarrow> pl_val list \<Rightarrow> bool" where
  "roots_ok own m objs vs \<longleftrightarrow> (\<forall>v \<in> set vs. ok_val own objs v \<and> (\<exists>w. ends own m v w))"

text \<open>
  What a collection does: the objects the roots reach are copied, once each, one behind the other from \<open>t\<close> on in the order \<open>L\<close>;
  the roots and the slots of the copies refer to copies, and the other cells are unchanged.
\<close>

definition collected :: "(pl_val \<Rightarrow> bool) \<Rightarrow> cmem \<Rightarrow> nat \<Rightarrow> pl_val list \<Rightarrow> nat list \<Rightarrow> pl_val list \<Rightarrow> cmem \<Rightarrow> bool" where
  "collected own m t roots L roots' m' \<longleftrightarrow> distinct L \<and> set L = reach own m roots \<and> list_all2 (fwd own m t L) roots roots' \<and>
     (\<forall>p \<in> set L. \<forall>i < hcells m p. copied own m t L p i (m' (place m t L p + i)))"

lemma fwd_tgt: "fwd own m t L v v' \<Longrightarrow> tgt own m v \<subseteq> set L"
  by (auto simp: fwd_def tgt_def dest: ends_fun split: if_splits)

lemma collect_into:
  assumes wf: "heap_wf own (h_mem h) objs (h_from h) (h_free h)" and tok: "target_ok own (h_from h) (h_free h) t"
    and roots: "roots_ok own (h_mem h) objs roots"
  obtains roots' h' L where "pl_collect_into own t roots h = Some (Inr (roots', h'))"
    "h' = h\<lparr>h_mem := h_mem h', h_live := total (h_mem h) L, h_free := t + total (h_mem h) L\<rparr>"
    "collected own (h_mem h) t roots L roots' (h_mem h')" "set L \<subseteq> objs" "\<forall>p \<in> set L. hkind (h_mem h) p \<noteq> PL_K_IND"
    "\<forall>j. j \<notin> {h_from h..<h_free h} \<union> {t..<t + (h_free h - h_from h)} \<longrightarrow> h_mem h' j = h_mem h j"
proof -
  let ?m = "h_mem h" and ?fr = "h_from h" and ?fe = "h_free h"
  let ?inv = "gc_inv own ?m objs ?fr ?fe t roots" and ?g = "\<lparr>gc_mem = ?m, gc_free = t\<rparr>"
  have start: "?inv [] t ?g" by (simp add: gc_inv_def)
  have "\<forall>v \<in> set roots. ok_val own objs v \<and> (\<exists>w. ends own ?m v w) \<and> tgt own ?m v \<subseteq> reach own ?m roots"
    using roots reach.root[where own = own and m = ?m and roots = roots] by (auto simp: roots_ok_def)
  from visit_inv[OF wf tok this start] obtain roots' g1 L1 where
    1: "pl_gc_visit own roots ?g = Some (roots', g1)" "?inv L1 t g1" "list_all2 (fwd own ?m t L1) roots roots'" by auto
  from cheney_inv[OF wf tok 1(2), of 0] obtain g2 K where
    2: "pl_cheney_scan own t g1 = Some (Inr g2)" "?inv (L1 @ K) (gc_free g2) g2" by auto
  define L where "L = L1 @ K"
  note I = gc_invD[OF 2(2)[folded L_def]]
  have fw: "list_all2 (fwd own ?m t L) roots roots'"
    using 1(3) by (rule list_all2_mono) (simp add: L_def fwd_append)
  have cp: "copied own ?m t L p i (gc_mem g2 (place ?m t L p + i))" if "p \<in> set L" "i < hcells ?m p" for p i
    using I(10)[OF that] place_range(2)[OF that(1), where m = ?m and t = t] that(2) I(5) by simp
  have "p \<in> set L" if "p \<in> reach own ?m roots" for p
    using that
  proof (induction rule: reach.induct)
    case (root v p)
    then obtain v' where "fwd own ?m t L v v'" using fw by (metis in_set_conv_nth list_all2_conv_all_nth)
    then show ?case using fwd_tgt root(2) by blast
  next
    case (slot p i q)
    have "i < hcells ?m p" using heap_objD(7)[OF wf _ slot.hyps(2)] I(2) slot.IH by blast
    from cp[OF slot.IH this] slot.hyps(2) have "fwd own ?m t L (?m (p + i)) (gc_mem g2 (place ?m t L p + i))" by (simp add: copied_def)
    then show ?case using fwd_tgt slot.hyps(3) by blast
  qed
  then have "collected own ?m t roots L roots' (gc_mem g2)" using I(1,3) fw cp by (auto simp: collected_def)
  then show ?thesis
    using that[of roots' "h\<lparr>h_mem := gc_mem g2, h_live := gc_free g2 - t, h_free := gc_free g2\<rparr>" L] 1(1) 2(1) I(2,4,5,12)
    by (simp add: pl_collect_into_def)
qed

subsection \<open>The heap after a collection\<close>

text \<open>What a client sees of a value: the tree of its cells down to a depth, with the indirections followed.\<close>

datatype otree = Cut | Atom u64 | Obj "otree list"

definition raw :: "cmem \<Rightarrow> nat \<Rightarrow> nat \<Rightarrow> u64" where
  "raw m p i = (if hkind m p = PL_K_PIN \<and> i = 5 then 0 else m (p + i))"

definition seen :: "(pl_val \<Rightarrow> otree \<Rightarrow> bool) \<Rightarrow> cmem \<Rightarrow> nat \<Rightarrow> nat \<Rightarrow> otree \<Rightarrow> bool" where
  "seen f m p i T \<longleftrightarrow> (if slot m p i then f (m (p + i)) T else T = Atom (raw m p i))"

primrec obs :: "(pl_val \<Rightarrow> bool) \<Rightarrow> cmem \<Rightarrow> nat \<Rightarrow> pl_val \<Rightarrow> otree \<Rightarrow> bool" where
  "obs own m 0 = (\<lambda>v T. T = Cut)"
| "obs own m (Suc n) = (\<lambda>v T. \<exists>u. ends own m v u \<and>
     (if local_val own u then \<exists>Ts. T = Obj Ts \<and> length Ts = hcells m (gptr u) \<and>
        (\<forall>i < length Ts. seen (obs own m n) m (gptr u) i (Ts ! i))
      else T = Atom u))"

definition same_view :: "(pl_val \<Rightarrow> bool) \<Rightarrow> cmem \<Rightarrow> cmem \<Rightarrow> pl_val list \<Rightarrow> pl_val list \<Rightarrow> bool" where
  "same_view own m m' vs vs' \<longleftrightarrow> list_all2 (\<lambda>v v'. \<forall>n T. obs own m n v T \<longleftrightarrow> obs own m' n v' T) vs vs'"

lemma same_view_refl: "same_view own m m vs vs"
  by (simp add: same_view_def list_all2_refl)

lemma same_view_trans: "same_view own m m' vs vs' \<Longrightarrow> same_view own m' m'' vs' vs'' \<Longrightarrow> same_view own m m'' vs vs''"
  unfolding same_view_def by (erule list_all2_trans[rotated]) auto

lemma ends_here_iff: "val_is_nat63 v \<or> own v \<or> hkind m (gptr v) \<noteq> PL_K_IND \<Longrightarrow> ends own m v u \<longleftrightarrow> u = v"
  using ends.here[of v own m] ends_fun[of own m v v u] by auto

text \<open>The facts about a copy that follow from \<open>collected\<close>.\<close>

lemma copy_facts:
  assumes wf: "heap_wf own m objs fr fe" and tok: "target_ok own fr fe t" and col: "collected own m t roots L roots' m'"
    and L: "set L \<subseteq> objs" and p: "p \<in> set L"
  shows "m' (place m t L p) = m p" "slot m' (place m t L p) i \<longleftrightarrow> slot m p i"
    "t \<le> place m t L p" "place m t L p + hcells m p \<le> t + total m L" "gptr (nref m t L p) = place m t L p" "local_val own (nref m t L p)"
proof -
  have po: "p \<in> objs" using L p by blast
  have c2: "2 \<le> hcells m p" and shape: "ok_shape own m p" using heap_objD(3,4)[OF wf po] by simp_all
  have cp: "copied own m t L p i (m' (place m t L p + i))" if "i < hcells m p" for i using col p that by (simp add: collected_def)
  have ns: "\<not> slot m p 0" using slot_pos by blast
  show hdr: "m' (place m t L p) = m p" using cp[of 0] ns c2 by (simp add: copied_def)
  have six: "m' (place m t L p + 6) = m (p + 6)" if "hkind m p = PL_K_PIN"
  proof -
    have "hcells m p = 7" using shape that proxy_cells[of "m p"] by (simp add: ok_shape_def)
    then show ?thesis using cp[of 6] that by (simp add: copied_def slot_def)
  qed
  show "slot m' (place m t L p) i \<longleftrightarrow> slot m p i" using hdr six by (auto simp: slot_def)
  show r: "t \<le> place m t L p" "place m t L p + hcells m p \<le> t + total m L" using place_range[OF p] by simp_all
  have "total m L \<le> fe - fr" by (rule total_le[OF wf _ L]) (use col in \<open>simp add: collected_def\<close>)
  then have b: "place m t L p \<in> {t..<t + (fe - fr)}" "place m t L p < 2 ^ 53" using r c2 tok by (auto simp: target_ok_def)
  then show g: "gptr (nref m t L p) = place m t L p" by (simp add: nref_def gptr_gmake)
  have "\<not> val_is_nat63 (nref m t L p)" by (simp add: nref_def nat63_gmake)
  then show "local_val own (nref m t L p)" using tok b(1) g unfolding local_val_def target_ok_def off_store_def by metis
qed

lemma fwd_ok:
  assumes wf: "heap_wf own m objs fr fe" and tok: "target_ok own fr fe t" and col: "collected own m t roots L roots' m'"
    and L: "set L \<subseteq> objs" "\<forall>p \<in> set L. hkind m p \<noteq> PL_K_IND" and v: "fwd own m t L v v'"
  shows "ok_val own (place m t L ` set L) v'" "ends own m' v' v'"
proof -
  obtain w where w: "if local_val own w then gptr w \<in> set L \<and> v' = nref m t L (gptr w) else v' = w"
    using v by (auto simp: fwd_def)
  show "ok_val own (place m t L ` set L) v'"
    using w copy_facts(5)[OF wf tok col L(1)] by (auto simp: ok_val_def split: if_splits)
  show "ends own m' v' v'"
  proof (cases "local_val own w")
    case True
    then have "hkind m' (gptr v') \<noteq> PL_K_IND" using w copy_facts(1,5)[OF wf tok col L(1)] L(2) by simp
    then show ?thesis by (simp add: ends.here)
  qed (use w in \<open>auto simp: local_val_def intro: ends.here\<close>)
qed

lemma collected_wf:
  assumes wf: "heap_wf own m objs fr fe" and tok: "target_ok own fr fe t" and col: "collected own m t roots L roots' m'"
    and L: "set L \<subseteq> objs" "\<forall>p \<in> set L. hkind m p \<noteq> PL_K_IND"
    and out: "\<forall>j. j \<notin> {fr..<fe} \<union> {t..<t + (fe - fr)} \<longrightarrow> m' j = m j"
  shows "heap_wf own m' (place m t L ` set L) t (t + total m L)" "roots_ok own m' (place m t L ` set L) roots'"
proof -
  note F = copy_facts[OF wf tok col L(1)]
  note G = fwd_ok[OF wf tok col L]
  have total: "total m L \<le> fe - fr" and dist: "distinct L"
    using total_le[OF wf _ L(1)] col by (simp_all add: collected_def)
  have obj: "ok_obj own (place m t L ` set L) m' (place m t L p)" if p: "p \<in> set L" for p
  proof -
    have po: "p \<in> objs" using L(1) p by blast
    note O = heap_objD[OF wf po]
    have cp: "copied own m t L p i (m' (place m t L p + i))" if "i < hcells m p" for i using col p that by (simp add: collected_def)
    have shape: "ok_shape own m' (place m t L p)"
    proof (cases "hkind m p = PL_K_PIN")
      case True
      then have lay: "proxy_layout (m p)" using O(4) by (simp add: ok_shape_def)
      then have six: "m' (place m t L p + 6) = m (p + 6)" using cp[of 6] True proxy_cells[of "m p"] by (simp add: copied_def slot_def)
      have "m' (gptr (m (p + 6))) = m (gptr (m (p + 6)))" if nz: "m (p + 6) \<noteq> 0"
      proof -
        have v: "own (m (p + 6))" "pl_tag (m (p + 6)) = PL_TAG_PIN" using O(4) True nz by (auto simp: ok_shape_def)
        then have "\<not> val_is_nat63 (m (p + 6))" by (simp add: nat63_tag tag_defs)
        then show ?thesis using out wf tok v(1) by (auto simp: heap_wf_def target_ok_def off_store_def)
      qed
      then show ?thesis using O(4) True F(1)[OF p] six by (simp add: ok_shape_def)
    next
      case False
      then show ?thesis using O(4) F(1)[OF p] by (auto simp: ok_shape_def split: option.splits)
    qed
    have "fwd own m t L (m (p + i)) (m' (place m t L p + i))" if "slot m p i" for i
      using cp[OF O(7)[OF that]] that by (simp add: copied_def)
    then show ?thesis unfolding ok_obj_def F(1,2)[OF p] using O(3) shape G by blast
  qed
  have sep: "place m t L p + hcells m p \<le> place m t L q" if "p \<in> set L" "q \<in> set L" "place m t L p < place m t L q" for p q
    using place_disjoint[OF dist that(1,2), of m t] that(3) by (cases "p = q") auto
  have "off_store own {t..<t + total m L}" using tok total by (auto simp: target_ok_def off_store_def)
  then show "heap_wf own m' (place m t L ` set L) t (t + total m L)"
    unfolding heap_wf_def using obj F(1,3,4) sep by auto
  show "roots_ok own m' (place m t L ` set L) roots'"
    unfolding roots_ok_def
  proof
    fix v' assume "v' \<in> set roots'"
    then obtain v where "fwd own m t L v v'"
      using col by (auto simp: collected_def in_set_conv_nth list_all2_conv_all_nth)
    then show "ok_val own (place m t L ` set L) v' \<and> (\<exists>w. ends own m' v' w)" using G by blast
  qed
qed

text \<open>A value and the value that takes its place look alike.\<close>

lemma obs_moved:
  assumes wf: "heap_wf own m objs fr fe" and tok: "target_ok own fr fe t" and col: "collected own m t roots L roots' m'"
    and L: "set L \<subseteq> objs" "\<forall>p \<in> set L. hkind m p \<noteq> PL_K_IND" and "fwd own m t L v v'"
  shows "obs own m n v T \<longleftrightarrow> obs own m' n v' T"
  using assms(6)
proof (induction n arbitrary: v v' T)
  case (Suc n)
  note F = copy_facts[OF wf tok col L(1)]
  obtain w where w: "ends own m v w" "if local_val own w then gptr w \<in> set L \<and> v' = nref m t L (gptr w) else v' = w"
    using Suc.prems by (auto simp: fwd_def)
  have e: "ends own m v u \<longleftrightarrow> u = w" for u using w(1) ends_fun[OF w(1)] by blast
  have e': "ends own m' v' u \<longleftrightarrow> u = v'" for u
    using fwd_ok(2)[OF wf tok col L Suc.prems] ends_fun[OF fwd_ok(2)[OF wf tok col L Suc.prems]] by blast
  show ?case
  proof (cases "local_val own w")
    case False
    then show ?thesis unfolding obs.simps e e' using w(2) by simp
  next
    case True
    let ?p = "gptr w"
    have p: "?p \<in> set L" "v' = nref m t L ?p" using w(2) True by auto
    let ?q = "place m t L ?p"
    have q: "gptr v' = ?q" "local_val own v'" "m' ?q = m ?p" using F(1,5,6)[OF p(1)] p(2) by simp_all
    have cell: "seen (obs own m' n) m' ?q i T \<longleftrightarrow> seen (obs own m n) m ?p i T" if i: "i < hcells m ?p" for i T
    proof -
      have cp: "copied own m t L ?p i (m' (?q + i))" using col p(1) i by (simp add: collected_def)
      show ?thesis
      proof (cases "slot m ?p i")
        case True
        then have "fwd own m t L (m (?p + i)) (m' (?q + i))" using cp by (simp add: copied_def)
        from Suc.IH[OF this] True show ?thesis using F(2)[OF p(1)] by (simp add: seen_def)
      next
        case False
        then have "raw m' ?q i = raw m ?p i" using cp q(3) by (simp add: copied_def raw_def)
        then show ?thesis using False F(2)[OF p(1)] by (simp add: seen_def)
      qed
    qed
    then show ?thesis unfolding obs.simps e e' using True q by auto
  qed
qed simp

lemma collected_view:
  assumes "heap_wf own m objs fr fe" "target_ok own fr fe t" "collected own m t roots L roots' m'"
    "set L \<subseteq> objs" "\<forall>p \<in> set L. hkind m p \<noteq> PL_K_IND"
  shows "same_view own m m' roots roots'"
proof -
  have "list_all2 (fwd own m t L) roots roots'" using assms(3) by (simp add: collected_def)
  then show ?thesis unfolding same_view_def by (rule list_all2_mono) (use obs_moved[OF assms] in blast)
qed

subsection \<open>Heaps with their two spaces\<close>

definition disj :: "nat \<Rightarrow> nat \<Rightarrow> nat \<Rightarrow> nat \<Rightarrow> bool" where
  "disj x n y k \<longleftrightarrow> x + n \<le> y \<or> y + k \<le> x"

text \<open>A block of \<open>n\<close> cells that can be a space: addressable, and apart from the store.\<close>

definition space_ok :: "(pl_val \<Rightarrow> bool) \<Rightarrow> nat \<Rightarrow> nat \<Rightarrow> bool" where
  "space_ok own x n \<longleftrightarrow> off_store own {x..<x + n} \<and> x + n \<le> 2 ^ 53"

definition heap_ok :: "(pl_val \<Rightarrow> bool) \<Rightarrow> pl_heap \<Rightarrow> nat set \<Rightarrow> bool" where
  "heap_ok own h objs \<longleftrightarrow> heap_wf own (h_mem h) objs (h_from h) (h_free h) \<and> h_from h + h_live h \<le> h_free h \<and>
     h_free h \<le> h_limit h \<and> h_limit h = h_from h + h_cells h \<and> 0 < h_cells h \<and>
     space_ok own (h_from h) (h_cells h) \<and> space_ok own (h_to h) (h_cells h) \<and> disj (h_from h) (h_cells h) (h_to h) (h_cells h)"

text \<open>The spaces that \<open>sp\<close> gives for sizes up to \<open>B\<close> are apart from one another and from those of the heap.\<close>

definition fresh :: "(pl_val \<Rightarrow> bool) \<Rightarrow> (nat \<Rightarrow> nat \<times> nat) \<Rightarrow> pl_heap \<Rightarrow> nat \<Rightarrow> bool" where
  "fresh own sp h B \<longleftrightarrow> (\<forall>n \<le> B. case sp n of (x, y) \<Rightarrow> space_ok own x n \<and> space_ok own y n \<and> disj x n y n \<and>
     disj x n (h_from h) (h_cells h) \<and> disj x n (h_to h) (h_cells h))"

text \<open>A collection into a space of \<open>W\<close> cells, which becomes the heap's.\<close>

lemma collect_to:
  assumes ok: "heap_ok own h objs" and roots: "roots_ok own (h_mem h) objs roots"
    and sp: "space_ok own t W" "space_ok own u W" "disj t W u W" "disj t W (h_from h) (h_cells h)" "h_free h - h_from h \<le> W" "0 < W"
  obtains roots' h1 L where "pl_collect_into own t roots h = Some (Inr (roots', h1))"
    "h1 = h\<lparr>h_mem := h_mem h1, h_live := total (h_mem h) L, h_free := t + total (h_mem h) L\<rparr>"
    "collected own (h_mem h) t roots L roots' (h_mem h1)" "total (h_mem h) L \<le> h_free h - h_from h"
    "heap_ok own (h1\<lparr>h_from := t, h_to := u, h_cells := W, h_limit := t + W\<rparr>) (place (h_mem h) t L ` set L)"
    "roots_ok own (h_mem h1) (place (h_mem h) t L ` set L) roots'" "same_view own (h_mem h) (h_mem h1) roots roots'"
proof -
  have wf: "heap_wf own (h_mem h) objs (h_from h) (h_free h)" using ok by (simp add: heap_ok_def)
  have tok: "target_ok own (h_from h) (h_free h) t"
    using ok sp by (auto simp: heap_ok_def target_ok_def space_ok_def disj_def off_store_def)
  from collect_into[OF wf tok roots] obtain roots' h1 L where
    c: "pl_collect_into own t roots h = Some (Inr (roots', h1))"
      "h1 = h\<lparr>h_mem := h_mem h1, h_live := total (h_mem h) L, h_free := t + total (h_mem h) L\<rparr>"
      "collected own (h_mem h) t roots L roots' (h_mem h1)" "set L \<subseteq> objs" "\<forall>p \<in> set L. hkind (h_mem h) p \<noteq> PL_K_IND"
      "\<forall>j. j \<notin> {h_from h..<h_free h} \<union> {t..<t + (h_free h - h_from h)} \<longrightarrow> h_mem h1 j = h_mem h j" .
  have le: "total (h_mem h) L \<le> h_free h - h_from h" by (rule total_le[OF wf _ c(4)]) (use c(3) in \<open>simp add: collected_def\<close>)
  note w = collected_wf[OF wf tok c(3-6)]
  have f: "h_free h1 = t + total (h_mem h) L" "h_live h1 = total (h_mem h) L" by (subst c(2), simp)+
  have "heap_ok own (h1\<lparr>h_from := t, h_to := u, h_cells := W, h_limit := t + W\<rparr>) (place (h_mem h) t L ` set L)"
    using w(1) le sp by (simp add: heap_ok_def f)
  then show ?thesis using that[OF c(1-3) le _ w(2) collected_view[OF wf tok c(3-5)]] by blast
qed

text \<open>A run of the collector that returns, with a well-formed heap and roots that read as before, in a state with \<open>Q\<close>.\<close>

definition gc_good :: "(pl_val \<Rightarrow> bool) \<Rightarrow> pl_val list \<Rightarrow> pl_heap \<Rightarrow> (pl_heap \<Rightarrow> bool) \<Rightarrow> gc_result \<Rightarrow> bool" where
  "gc_good own roots h Q r \<longleftrightarrow> (\<exists>roots' h' objs'. r = Some (Inr (roots', h')) \<and> heap_ok own h' objs' \<and>
     roots_ok own (h_mem h') objs' roots' \<and> same_view own (h_mem h) (h_mem h') roots roots' \<and> Q h')"

lemma gc_goodI:
  "heap_ok own h' objs' \<Longrightarrow> roots_ok own (h_mem h') objs' roots' \<Longrightarrow> same_view own (h_mem h) (h_mem h') roots roots' \<Longrightarrow> Q h' \<Longrightarrow>
   gc_good own roots h Q (Some (Inr (roots', h')))"
  by (auto simp: gc_good_def)

lemma gc_good_then:
  assumes "gc_good own roots h P r"
    and "\<And>roots' h' objs'. heap_ok own h' objs' \<Longrightarrow> roots_ok own (h_mem h') objs' roots' \<Longrightarrow> P h' \<Longrightarrow> gc_good own roots' h' Q (k roots' h')"
  shows "gc_good own roots h Q (gc_then r k)"
proof -
  obtain roots' h' objs' where r: "r = Some (Inr (roots', h'))" "heap_ok own h' objs'" "roots_ok own (h_mem h') objs' roots'"
    "same_view own (h_mem h) (h_mem h') roots roots'" "P h'" using assms(1) by (auto simp: gc_good_def)
  from assms(2)[OF r(2,3,5)] show ?thesis using r(1,4) same_view_trans by (fastforce simp: gc_good_def gc_then_def)
qed

text \<open>A collection into the other space.\<close>

lemma collect_swap:
  assumes "heap_ok own h objs" "roots_ok own (h_mem h) objs roots"
  obtains roots' h' L where "pl_gc_collect own roots h = Some (Inr (roots', h'))" "collected own (h_mem h) (h_to h) roots L roots' (h_mem h')"
    "h_from h' = h_to h" "h_to h' = h_from h" "h_cells h' = h_cells h" "h_live h' = total (h_mem h) L" "h_free h' = h_from h' + h_live h'"
    "h_live h' \<le> h_free h - h_from h" "heap_ok own h' (place (h_mem h) (h_to h) L ` set L)"
    "roots_ok own (h_mem h') (place (h_mem h) (h_to h) L ` set L) roots'" "same_view own (h_mem h) (h_mem h') roots roots'"
proof -
  have sp: "space_ok own (h_to h) (h_cells h)" "space_ok own (h_from h) (h_cells h)" "disj (h_to h) (h_cells h) (h_from h) (h_cells h)"
    "h_free h - h_from h \<le> h_cells h" "0 < h_cells h" using assms(1) by (auto simp: heap_ok_def disj_def)
  obtain roots' h1 L where
    c: "pl_collect_into own (h_to h) roots h = Some (Inr (roots', h1))"
      "h1 = h\<lparr>h_mem := h_mem h1, h_live := total (h_mem h) L, h_free := h_to h + total (h_mem h) L\<rparr>"
      "collected own (h_mem h) (h_to h) roots L roots' (h_mem h1)" "total (h_mem h) L \<le> h_free h - h_from h"
      "heap_ok own (h1\<lparr>h_from := h_to h, h_to := h_from h, h_cells := h_cells h, h_limit := h_to h + h_cells h\<rparr>)
        (place (h_mem h) (h_to h) L ` set L)"
      "roots_ok own (h_mem h1) (place (h_mem h) (h_to h) L ` set L) roots'" "same_view own (h_mem h) (h_mem h1) roots roots'"
    by (rule collect_to[OF assms sp(1-3,3-5)])
  have f: "h_from h1 = h_from h" "h_to h1 = h_to h" "h_cells h1 = h_cells h" "h_free h1 = h_to h + total (h_mem h) L"
    "h_live h1 = total (h_mem h) L" by (subst c(2), simp)+
  let ?h = "h1\<lparr>h_from := h_to h, h_to := h_from h, h_limit := h_to h + h_cells h\<rparr>"
  have "h1\<lparr>h_from := h_to h, h_to := h_from h, h_cells := h_cells h, h_limit := h_to h + h_cells h\<rparr> = ?h" using f(3) by simp
  then have ok: "heap_ok own ?h (place (h_mem h) (h_to h) L ` set L)" using c(5) by simp
  have "pl_gc_collect own roots h = Some (Inr (roots', ?h))" by (simp add: pl_gc_collect_def c(1) gc_then_def f)
  then show ?thesis using that[of roots' ?h L] c(3,4,6,7) f ok by simp
qed

lemma gc_collect_good:
  assumes "heap_ok own h objs" "roots_ok own (h_mem h) objs roots"
  shows "gc_good own roots h (\<lambda>h'. h_from h' = h_to h \<and> h_to h' = h_from h \<and> h_cells h' = h_cells h \<and> h_free h' = h_from h' + h_live h' \<and>
    h_live h' \<le> h_free h - h_from h) (pl_gc_collect own roots h)"
  by (rule collect_swap[OF assms]) (simp add: gc_goodI)

lemma grow_want_bounds:
  "0 < w \<Longrightarrow> least \<le> grow_want w least \<and> w \<le> grow_want w least \<and> grow_want w least \<le> max w (2 * least)"
proof (induction w least rule: grow_want.induct)
  case (1 w least)
  then show ?case by (subst (1 2 3) grow_want.simps) (auto simp: max_def)
qed

text \<open>The heap moved to a new pair of spaces of \<open>W\<close> cells.\<close>

lemma collect_new:
  assumes ok: "heap_ok own h objs" and roots: "roots_ok own (h_mem h) objs roots" and W: "h_free h - h_from h + k \<le> W" "0 < W"
    and fresh: "fresh own sp h B" "W \<le> B" and sp: "sp W = (x, y)"
  shows "gc_good own roots h (\<lambda>h'. h_free h' + k \<le> h_limit h') (gc_then (pl_collect_into own x roots h) (\<lambda>roots h.
    Some (Inr (roots, h\<lparr>h_from := x, h_to := y, h_cells := W, h_limit := x + W\<rparr>))))"
proof -
  note fresh(1)[unfolded fresh_def, rule_format, OF fresh(2)]
  then have s: "space_ok own x W" "space_ok own y W" "disj x W y W" "disj x W (h_from h) (h_cells h)" by (simp_all add: sp)
  have le: "h_free h - h_from h \<le> W" using W by simp
  obtain roots' h1 L where
    c: "pl_collect_into own x roots h = Some (Inr (roots', h1))"
      "h1 = h\<lparr>h_mem := h_mem h1, h_live := total (h_mem h) L, h_free := x + total (h_mem h) L\<rparr>"
      "collected own (h_mem h) x roots L roots' (h_mem h1)" "total (h_mem h) L \<le> h_free h - h_from h"
      "heap_ok own (h1\<lparr>h_from := x, h_to := y, h_cells := W, h_limit := x + W\<rparr>) (place (h_mem h) x L ` set L)"
      "roots_ok own (h_mem h1) (place (h_mem h) x L ` set L) roots'" "same_view own (h_mem h) (h_mem h1) roots roots'"
    by (rule collect_to[OF ok roots s le W(2)])
  have "h_free h1 = x + total (h_mem h) L" by (subst c(2)) simp
  then have "h_free h1 + k \<le> x + W" using W(1) c(4) by linarith
  then show ?thesis unfolding c(1) gc_then_def option.case sum.case prod.case
    by (intro gc_goodI[OF c(5)]) (simp_all add: c(6,7))
qed

lemma gc_good_refl: "heap_ok own h objs \<Longrightarrow> roots_ok own (h_mem h) objs roots \<Longrightarrow> Q h \<Longrightarrow> gc_good own roots h Q (Some (Inr (roots, h)))"
  by (rule gc_goodI) (auto simp: same_view_refl)

text \<open>Enough room for every pair of spaces a reservation may ask for.\<close>

definition reserve_bound :: "pl_heap \<Rightarrow> nat \<Rightarrow> nat" where
  "reserve_bound h cells = max (h_cells h) (2 * (h_cells h + cells + h_cells h div 2 + 4096))"

lemma fresh_swap:
  "fresh own sp h B \<Longrightarrow> h_from h1 = h_to h \<Longrightarrow> h_to h1 = h_from h \<Longrightarrow> h_cells h1 = h_cells h \<Longrightarrow> fresh own sp h1 B"
  by (fastforce simp: fresh_def)

lemma gc_grow_good:
  assumes ok: "heap_ok own h objs" "roots_ok own (h_mem h) objs roots" and live: "h_free h = h_from h + h_live h"
    and fresh: "fresh own sp h (reserve_bound h need)"
  shows "gc_good own roots h (\<lambda>h'. h_free h' + need \<le> h_limit h') (pl_gc_grow sp own roots h need)"
proof -
  let ?W = "grow_want (h_cells h) (h_live h + need + h_live h div 2 + 4096)"
  have h: "0 < h_cells h" "h_live h \<le> h_cells h" using ok(1) live by (auto simp: heap_ok_def)
  note b = grow_want_bounds[OF h(1), of "h_live h + need + h_live h div 2 + 4096"]
  have "h_live h div 2 \<le> h_cells h div 2" using h(2) by (rule div_le_mono)
  then have "h_live h + need + h_live h div 2 + 4096 \<le> h_cells h + need + h_cells h div 2 + 4096" using h(2) by linarith
  then have le: "?W \<le> reserve_bound h need" using b unfolding reserve_bound_def max_def by (simp split: if_splits)
  have W: "h_free h - h_from h + need \<le> ?W" "0 < ?W" using b live h(1) by linarith+
  obtain x y where sp: "sp ?W = (x, y)" by fastforce
  show ?thesis unfolding pl_gc_grow_def Let_def sp prod.case by (rule collect_new[OF ok W fresh le sp])
qed

lemma gc_reserve_good:
  assumes ok: "heap_ok own h objs" "roots_ok own (h_mem h) objs roots" and fresh: "fresh own sp h (reserve_bound h cells)"
  shows "gc_good own roots h (\<lambda>h'. h_free h' + cells \<le> h_limit h') (pl_gc_reserve sp own roots h cells)"
proof (cases "h_free h + cells \<le> h_limit h")
  case True
  then show ?thesis using gc_good_refl[OF ok] by (simp add: pl_gc_reserve_def)
next
  case False
  let ?Q = "\<lambda>h'. h_free h' + cells \<le> h_limit h'"
  have grown: "gc_good own roots1 h1 ?Q (if h_limit h1 < h_free h1 + cells then pl_gc_grow sp own roots1 h1 cells else Some (Inr (roots1, h1)))"
    if 1: "heap_ok own h1 objs1" "roots_ok own (h_mem h1) objs1 roots1"
      "h_from h1 = h_to h \<and> h_to h1 = h_from h \<and> h_cells h1 = h_cells h \<and> h_free h1 = h_from h1 + h_live h1 \<and> h_live h1 \<le> h_free h - h_from h"
    for roots1 h1 objs1
  proof (cases "h_limit h1 < h_free h1 + cells")
    case True
    have "fresh own sp h1 (reserve_bound h1 cells)" using fresh_swap[OF fresh] 1(3) by (simp add: reserve_bound_def)
    then show ?thesis using gc_grow_good[OF 1(1,2), of sp cells] 1(3) True by simp
  next
    case F: False
    then show ?thesis using gc_good_refl[OF 1(1,2)] by simp
  qed
  have "gc_good own roots h ?Q (pl_gc_reserve_slow sp own roots h cells)"
    unfolding pl_gc_reserve_slow_def if_not_P[OF False]
    by (rule gc_good_then[OF gc_collect_good[OF ok]], rule gc_good_then[OF grown], assumption+) (simp add: gc_good_refl)
  then show ?thesis using False by (simp add: pl_gc_reserve_def)
qed

lemma gc_pressure_good:
  assumes ok: "heap_ok own h objs" "roots_ok own (h_mem h) objs roots"
  shows "gc_good own roots h (\<lambda>h'. h_cells h' = h_cells h) (pl_gc_collect_if_pressure own roots h fl)"
proof -
  have "\<not> h_free h - h_from h < h_live h" using ok(1) by (auto simp: heap_ok_def)
  moreover have "gc_good own roots h (\<lambda>h'. h_cells h' = h_cells h) (pl_gc_collect own roots h)"
    using gc_collect_good[OF ok] by (fastforce simp: gc_good_def)
  ultimately show ?thesis using gc_good_refl[OF ok] by (simp add: pl_gc_collect_if_pressure_def Let_def)
qed

lemma gc_trim_good:
  assumes ok: "heap_ok own h objs" "roots_ok own (h_mem h) objs roots" and fresh: "fresh own sp h (h_cells h)"
  shows "gc_good own roots h (\<lambda>h'. True) (pl_gc_trim sp own roots h)"
  unfolding pl_gc_trim_def
proof (rule gc_good_then[OF gc_collect_good[OF ok]])
  fix roots1 h1 objs1
  assume 1: "heap_ok own h1 objs1" "roots_ok own (h_mem h1) objs1 roots1"
    "h_from h1 = h_to h \<and> h_to h1 = h_from h \<and> h_cells h1 = h_cells h \<and> h_free h1 = h_from h1 + h_live h1 \<and> h_live h1 \<le> h_free h - h_from h"
  let ?W = "grow_want 4096 (h_live h1 + 4096)"
  have W: "h_free h1 - h_from h1 + 4096 \<le> ?W" "0 < ?W" using grow_want_bounds[of 4096 "h_live h1 + 4096"] 1(3) by auto
  obtain x y where sp: "sp ?W = (x, y)" by fastforce
  have f: "fresh own sp h1 (h_cells h)" using fresh_swap[OF fresh] 1(3) by simp
  show "gc_good own roots1 h1 (\<lambda>h'. True) (let want = ?W; (nfrom, nto) = sp want in
     if h_cells h1 \<le> want then Some (Inr (roots1, h1))
     else gc_then (pl_collect_into own nfrom roots1 h1) (\<lambda>roots h.
       Some (Inr (roots, h\<lparr>h_from := nfrom, h_to := nto, h_cells := want, h_limit := nfrom + want\<rparr>))))"
  proof (cases "h_cells h1 \<le> ?W")
    case True
    then show ?thesis using gc_good_refl[OF 1(1,2)] by (simp add: sp)
  next
    case False
    then have "?W \<le> h_cells h" using 1(3) by simp
    from collect_new[OF 1(1,2) W f this sp] show ?thesis
      unfolding Let_def sp prod.case if_not_P[OF False] by (auto simp: gc_good_def)
  qed
qed

text \<open>A new heap is well formed, and what was reserved can be taken.\<close>

lemma heap_new_ok:
  assumes "space_ok own x (max 4096 n)" "space_ok own y (max 4096 n)" "disj x (max 4096 n) y (max 4096 n)"
  shows "heap_ok own (pl_heap_new m x y n) {}"
proof -
  have e: "(if n < 4096 then 4096 else n) = max 4096 n" by simp
  show ?thesis unfolding pl_heap_new_def e Let_def using assms by (simp add: heap_ok_def heap_wf_def off_store_def)
qed

lemma bump_reserved: "h_free h + cells \<le> h_limit h \<Longrightarrow> pl_bump h cells = Inr (h_free h, h\<lparr>h_free := h_free h + cells\<rparr>)"
  by (simp add: pl_bump_def assume_c_def rbind_def)

text \<open>Every value of a well-formed heap can be observed, at every depth.\<close>

lemma ends_ok:
  assumes wf: "heap_wf own m objs fr fe"
  shows "ends own m v w \<Longrightarrow> ok_val own objs v \<Longrightarrow> ok_val own objs w"
proof (induction rule: ends.induct)
  case (ind v w)
  then have "gptr v \<in> objs" by (simp add: ok_val_def local_val_def)
  moreover have "slot m (gptr v) 1" using ind.hyps(3) slot_ind by blast
  ultimately show ?case using heap_objD(5)[OF wf] ind.IH by blast
qed

lemma obs_total:
  assumes wf: "heap_wf own m objs fr fe"
  shows "ok_val own objs v \<Longrightarrow> \<exists>w. ends own m v w \<Longrightarrow> \<exists>T. obs own m n v T"
proof (induction n arbitrary: v)
  case (Suc n)
  then obtain u where u: "ends own m v u" by blast
  have uo: "ok_val own objs u" by (rule ends_ok[OF wf u Suc.prems(1)])
  show ?case
  proof (cases "local_val own u")
    case True
    then have p: "gptr u \<in> objs" using uo by (simp add: ok_val_def)
    have "\<exists>T. seen (obs own m n) m (gptr u) i T" for i
      using Suc.IH[of "m (gptr u + i)"] heap_objD(5,6)[OF wf p, of i] by (cases "slot m (gptr u) i") (simp_all add: seen_def)
    then obtain f where "\<And>i. seen (obs own m n) m (gptr u) i (f i)" by metis
    then have "obs own m (Suc n) v (Obj (map f [0..<hcells m (gptr u)]))" using u True by auto
    then show ?thesis by blast
  qed (use u in auto)
qed simp

subsection \<open>The heap through collections\<close>


text \<open>An APP over an indirection to a nat, the nat, and a nat nothing refers to.\<close>

definition ex_gc_mem :: cmem where
  "ex_gc_mem = (\<lambda>_. 0)(8 := hdr_word PL_K_APP 0 0 3, 9 := gmake (pl_tag_for_kind PL_K_IND) 11, 10 := 5,
     11 := hdr_word PL_K_IND 0 0 2, 12 := gmake (pl_tag_for_kind PL_K_NAT) 15,
     13 := hdr_word PL_K_NAT 0 0 2, 14 := 7, 15 := hdr_word PL_K_NAT 0 0 2, 16 := 9)"

definition ex_gc_heap :: pl_heap where
  "ex_gc_heap = \<lparr>h_mem = ex_gc_mem, h_from = 8, h_to = 32, h_free = 17, h_limit = 24, h_cells = 16, h_live = 0\<rparr>"

definition ex_gc_roots :: "pl_val list" where
  "ex_gc_roots = [gmake (pl_tag_for_kind PL_K_APP) 8]"

lemma ex_gc_cells:
  "ex_gc_mem 8 = hdr_word PL_K_APP 0 0 3" "ex_gc_mem 9 = gmake (pl_tag_for_kind PL_K_IND) 11" "ex_gc_mem 10 = 5"
  "ex_gc_mem 11 = hdr_word PL_K_IND 0 0 2" "ex_gc_mem 12 = gmake (pl_tag_for_kind PL_K_NAT) 15"
  "ex_gc_mem 13 = hdr_word PL_K_NAT 0 0 2" "ex_gc_mem 15 = hdr_word PL_K_NAT 0 0 2"
  by (simp_all add: ex_gc_mem_def)

lemma ex_gc_slots:
  "slot ex_gc_mem 8 i \<longleftrightarrow> i = 1 \<or> i = 2" "slot ex_gc_mem 11 i \<longleftrightarrow> i = 1" "\<not> slot ex_gc_mem 13 i" "\<not> slot ex_gc_mem 15 i"
  by (auto simp: slot_def scan_fields_def ex_gc_cells kind_defs)

lemma ex_gc_shapes: "p \<in> {8, 11, 13, 15} \<Longrightarrow> ok_shape own ex_gc_mem p \<and> 2 \<le> hcells ex_gc_mem p"
  by (auto simp: ok_shape_def scan_fields_def ex_gc_cells kind_defs)

lemma ex_gc_ends:
  "ends (\<lambda>_. False) ex_gc_mem 5 5" "ends (\<lambda>_. False) ex_gc_mem (gmake (pl_tag_for_kind PL_K_NAT) 15) (gmake (pl_tag_for_kind PL_K_NAT) 15)"
  "ends (\<lambda>_. False) ex_gc_mem (gmake (pl_tag_for_kind PL_K_APP) 8) (gmake (pl_tag_for_kind PL_K_APP) 8)"
  "ends (\<lambda>_. False) ex_gc_mem (gmake (pl_tag_for_kind PL_K_IND) 11) (gmake (pl_tag_for_kind PL_K_NAT) 15)"
proof -
  show "ends (\<lambda>_. False) ex_gc_mem 5 5" by (rule ends.here) (simp add: nat63_tag pl_tag_def)
  show n: "ends (\<lambda>_. False) ex_gc_mem (gmake (pl_tag_for_kind PL_K_NAT) 15) (gmake (pl_tag_for_kind PL_K_NAT) 15)"
    by (rule ends.here) (simp add: gptr_gmake ex_gc_cells kind_defs)
  show "ends (\<lambda>_. False) ex_gc_mem (gmake (pl_tag_for_kind PL_K_APP) 8) (gmake (pl_tag_for_kind PL_K_APP) 8)"
    by (rule ends.here) (simp add: gptr_gmake ex_gc_cells kind_defs)
  show "ends (\<lambda>_. False) ex_gc_mem (gmake (pl_tag_for_kind PL_K_IND) 11) (gmake (pl_tag_for_kind PL_K_NAT) 15)"
    by (rule ends.ind) (use n in \<open>simp_all add: nat63_gmake gptr_gmake ex_gc_cells kind_defs\<close>)
qed

lemma ex_gc_end:
  "\<exists>w. ends (\<lambda>_. False) ex_gc_mem 5 w" "\<exists>w. ends (\<lambda>_. False) ex_gc_mem (gmake (pl_tag_for_kind PL_K_NAT) 15) w"
  "\<exists>w. ends (\<lambda>_. False) ex_gc_mem (gmake (pl_tag_for_kind PL_K_IND) 11) w"
  using ex_gc_ends by blast+

lemma ex_gc_vals:
  "ok_val own {8, 11, 13, 15} (gmake (pl_tag_for_kind PL_K_APP) 8)" "ok_val own {8, 11, 13, 15} (gmake (pl_tag_for_kind PL_K_IND) 11)"
  "ok_val own {8, 11, 13, 15} (gmake (pl_tag_for_kind PL_K_NAT) 15)" "ok_val own {8, 11, 13, 15} 5"
  by (simp_all add: ok_val_def gptr_gmake local_val_def nat63_tag pl_tag_def)

lemma ex_gc_heap_ok: "heap_ok (\<lambda>_. False) ex_gc_heap {8, 11, 13, 15}"
proof -
  have "ok_obj (\<lambda>_. False) {8, 11, 13, 15} ex_gc_mem p" if "p \<in> {8, 11, 13, 15}" for p
    using that ex_gc_shapes[OF that, of "\<lambda>_. False"] ex_gc_vals[of "\<lambda>_. False"]
    by (auto simp: ok_obj_def ex_gc_slots ex_gc_cells ex_gc_end)
  then have "heap_wf (\<lambda>_. False) ex_gc_mem {8, 11, 13, 15} 8 17"
    by (simp add: heap_wf_def off_store_def ex_gc_cells)
  then show ?thesis by (simp add: heap_ok_def ex_gc_heap_def space_ok_def off_store_def disj_def)
qed

lemma ex_gc_roots_ok: "roots_ok (\<lambda>_. False) (h_mem ex_gc_heap) {8, 11, 13, 15} ex_gc_roots"
  using ex_gc_ends(3) ex_gc_vals(1)[of "\<lambda>_. False"] by (auto simp: roots_ok_def ex_gc_roots_def ex_gc_heap_def)

lemma ex_gc_fresh: "fresh (\<lambda>_. False) (\<lambda>n. (64, 64 + n)) ex_gc_heap (reserve_bound ex_gc_heap 100)"
  by (simp add: fresh_def reserve_bound_def ex_gc_heap_def space_ok_def off_store_def disj_def)


end
