(* ===== verification/Spec2Isabelle.thy ===== *)
theory Spec2Isabelle
  imports Base58 Buddy Plan_Word Silo Vector Arena Plan_Op_Table Plan_Bat Eval_Stack Bytecode_Batch Plan_Gc_Safe
begin

text \<open>
  \<^bold>\<open>enki\<close> is a runtime for PLAN, a small functional virtual machine whose values are pins, laws,
  applications and natural numbers. The repository has three packages. \<open>pkg/axsys\<close> holds the
  allocators and containers; \<open>pkg/plan\<close> holds the values, the primitive operations, the evaluator,
  the garbage collector, the content-addressed store and its serialisation (silo); \<open>pkg/enki\<close> holds
  the actors, the HTTP driver and the Wisp reader. Values live in a heap of 64-bit words, pins are
  written to the store as silo bodies named by their hash (in base 58), and the store's pages come
  from the buddy allocator.

  \<^bold>\<open>Theories\<close>, in the order in which they build on one another.

  \<^item> \<open>Prelude\<close>: the result type \<open>'a res\<close> with its errors (an assertion that fails and a PLAN exception
    are values), the rule collections, and the lemmas on lists, digits in base \<open>2^w\<close> and machine words that the
    components share.
  \<^item> \<open>Base58\<close> (\<open>axsys/src/base58.c\<close>): the encoder with its digit buffer, against the numeral of the
    big-endian number.
  \<^item> \<open>Buddy\<close> (\<open>axsys/src/buddy.c\<close>): the longest-free array and every operation on it. The array is
    related to a tree of free and used blocks. The client of a range allocator is the locale
    \<open>range_allocator\<close>, interpreted on the buddy's operations: allocation, release, exhaustion and coalescing
    are shown on whole runs of a client.
  \<^item> \<open>Plan_Nat\<close> (\<open>plan/src/nat.c\<close>, \<open>nat.h\<close>): direct and boxed nats with every arithmetic, bit and byte
    operation. The GMP functions the code calls are the parameters of the locales \<open>mpn\<close> and \<open>mpz\<close>, whose
    assumptions are GMP's documentation; they are interpreted on executable digit arithmetic.
  \<^item> \<open>Plan_Word\<close> (\<open>plan/value.h\<close>, \<open>build.h\<close>, \<open>build.c\<close>): tags, headers, cells and the updates in place
    (thunks, black holes, pin proxies) on a memory of 64-bit words.
  \<^item> \<open>Plan_Value\<close> (\<open>build.h\<close>, \<open>build.c\<close>): the trees these words spell, and the flattening APP constructors.
  \<^item> \<open>Silo_Wire\<close>, \<open>Silo_Enc\<close>, \<open>Silo_Dec\<close>, \<open>Silo_Nat\<close>, \<open>Silo_Merkle\<close>, \<open>Silo_Mnat\<close>, \<open>Silo\<close> (\<open>plan/src/silo.c\<close>,
    \<open>silo_internal.h\<close>, the pack reader of \<open>store_silo.c\<close>): the wire format, the canonical encoder, the decoder with its scan and
    build passes, the Merkle form of large nats, and the round trip of whole bodies, with the exact class of values the
    build pass refuses (\<open>silo_fits\<close>). The writer and reader
    callbacks are the locales \<open>byte_sink\<close> and \<open>byte_source\<close>, joined in \<open>silo_codec\<close>, where the round trip is proved;
    they are interpreted on the memory buffer of \<open>silo.c\<close> and on the mapped pack reader.
  \<^item> \<open>Vector\<close>, \<open>Arena\<close> (\<open>axsys/src/vector.c\<close>, \<open>arena.c\<close>): the element-sized vector over an arbitrary allocator,
    and the bump allocator. The allocator's contract is the locale \<open>ax_alloc\<close>, interpreted on the system
    allocator and on the arena.
  \<^item> \<open>Plan_Op\<close>, \<open>Plan_Op_Table\<close> (\<open>plan/src/op.c\<close>): the primitive operations, one definition each, and the
    table of their descriptors with the bucketed lookup. An operation that needs the machine returns the
    frames it pushes.
  \<^item> \<open>Plan_Bat\<close> (\<open>plan/src/bat.c\<close>, the byte-tree operations of \<open>op.c\<close>): byte trees, the validating cursor with its
    task stack, reading, building, and the operations \<open>StrTree\<close>, \<open>BatEq\<close> and \<open>BatHash\<close>.
  \<^item> \<open>Eval_Heap\<close>, \<open>Eval_Machine\<close>, \<open>Eval_Exec\<close>, \<open>Eval\<close>, \<open>Eval_Ops\<close> (\<open>plan/src/eval.c\<close>, \<open>heap.h\<close>, the operation bodies of
    \<open>op.c\<close>): the evaluator. Values are references into a heap of objects, so sharing and updates in place are visible. Every label
    of \<open>pl_run\<close> is a definition that returns the label control goes to, with one definition per bytecode
    instruction; \<open>step\<close> joins them, \<open>pl_run\<close> iterates, and around it stand the delivery of exceptions, suspendable threads
    with their fuel, and the entries from C. What the machine calls through pointers is the record \<open>cfg\<close>.
  \<^item> \<open>Bytecode\<close>, \<open>Bytecode_Opt\<close> (\<open>plan/src/bytecode.c\<close>): the decoder of bytecode rows, its three passes and its law directory, and
    the rewrites behind it: the readiness analysis as a worklist fixed point, eager entries, numeric and ready opcodes.
  \<^item> \<open>Bytecode_Wf\<close>, \<open>Bytecode_Safe\<close>, \<open>Bytecode_Run\<close>: what the decoder guarantees. Code is well-formed (\<open>wf_ops\<close>) when its words split into
    instructions whose jumps go to first words of instructions. Pass 1 establishes it, every later pass and rewrite keeps it, and the
    interpreter, executing an instruction of well-formed code, only leaves such counters behind.
  \<^item> \<open>Bytecode_Batch\<close> (\<open>plan/src/batch.c\<close>): the construction batches planned on decoded code, the search for them, and the credit of
    heap cells that the instructions of a batch use up.
  \<^item> \<open>Eval_Holes\<close>, \<open>Eval_Quiet\<close>, \<open>Eval_Safe\<close>: black holes and exceptions. The invariant \<open>hole_inv\<close> says that the black holes of
    the heap are exactly those the update frames own. The contract of what the machine calls is the locale \<open>quiet_ops\<close>, which the
    table of bodies satisfies; every step keeps the invariant, and unwinding from any state restores the heap.
  \<^item> \<open>Eval_Stack\<close>: the stack discipline. Every frame owns a region of the value stack (\<open>below\<close>), the regions follow one another as
    the frames do (\<open>stk\<close>), and every label works above the region of the top frame (\<open>disc\<close>). The contract of what the machine
    calls is the locale \<open>stack_ops\<close>, an extension of \<open>quiet_ops\<close>; entries and threads leave both stacks as they found them.
  \<^item> \<open>Plan_Gc\<close>, \<open>Plan_Gc_Safe\<close> (\<open>plan/src/heap.c\<close>, \<open>heap.h\<close>): the moving heap of a thread, two semispaces with Cheney's copying
    collector on cells of 64-bit words: evacuation, scanning, collection, growth, reservation, trimming. The copies made so far are a list, the
    invariant \<open>gc_inv\<close> says which cells hold what, and a collection is shown to copy exactly what the roots reach
    (\<open>collected\<close>) and to leave every root with the same contents to every depth (\<open>same_view\<close>).

  \<^bold>\<open>State and errors.\<close> A C struct is a record and is passed and returned explicitly. A function that
  asserts, raises or reports returns \<open>'a res\<close> or an option, and every early return is a branch. Sizes are words where the
  code relies on their width; elsewhere they are nats and the code's overflow checks are written out as
  comparisons with the bound. The evaluator's outcome \<open>Undefined\<close> stands for states in which the code reads what no
  run has written there, such as a stack slot above the top, an operand word that is not a direct nat, or a frame whose
  arguments are not on the stack; the code has no check there and would go on with what the memory holds. The failures of \<open>malloc\<close> on which the code
  aborts the process are left out, except where a property is about them. Lengths of rows are added as nats
  where the code adds \<open>uint32_t\<close> values that the memory of a process bounds.

  \<^bold>\<open>Parameters.\<close> GMP, SHA-256, \<open>malloc\<close>, \<open>realloc\<close>, \<open>mmap\<close> and the store callbacks are arguments. Where a
  property relies on one of them the hypothesis is in its statement and its witness instantiates it.

  \<^bold>\<open>Bounds and fuel.\<close> A boxed nat has fewer than \<open>2^20\<close> limbs, the width of the header's meta field; the
  arithmetic properties ask this of their results because the code asserts it. \<open>BatEq\<close> and \<open>BatHash\<close> run
  with fuel one above the length of their input and are shown to end within it, since every round reads at least one byte.
  The loop that doubles a capacity in \<open>bat_grow\<close> stops at the overflow check of the code. The evaluator runs programs that
  need not end: \<open>pl_run\<close>, \<open>pl_run_caught\<close> and the indirection loop are option-valued, and a run that does not return is \<open>None\<close>.
  So are the loops of the collector, which are shown to return on a well-formed heap.
  Every other loop is a total function, by structure or by a measure.

  \<^bold>\<open>Not modelled.\<close> Of the evaluator the profiling zones, which are output, and the operations of the store, the actors and input and output
  (a parameter \<open>ext\<close>); the native
  code generator (\<open>jit.c\<close>) and its store (\<open>store_native.c\<close>), the collector of the store (\<open>gc2.c\<close>), the
  database behind the store (\<open>store.c\<close>, \<open>store_silo.c\<close> apart from its pack reader), the readers and printers (\<open>rplan.c\<close>,
  \<open>canon.c\<close>, \<open>wisp.c\<close>), the legacy pin format (\<open>pin.c\<close> apart from \<open>pl_pin\<close>), and the actors and drivers of
  \<open>pkg/enki\<close>. The vendored hash tables (\<open>stb_ds.h\<close>), the profiler, the file-descriptor wrappers and the
  command-line programs are input and output around these parts or third-party code.

  \<^bold>\<open>Plan.\<close> The independence of the machine of the fuel schedule, the soundness of the readiness analysis,
  then structural equality and hashing over pins, the canonical printer, the Wisp reader, and the heap of the evaluator as a
  view of the cells that \<open>Plan_Gc\<close> moves.
\<close>

end
